(* ===== verification/Prelude.thy ===== *)
theory Prelude
  imports Complex_Main
    "HOL-Library.AList"
    "HOL-Library.Char_ord"
    "HOL-Library.List_Lexorder"
    "HOL-Library.Multiset"
    "HOL-Library.Product_Lexorder"
begin

text \<open>
  Prelude of the ORION development: what the components share.

  \<^item> The values Python adds to the mathematical ones: exceptions (\<open>py_error\<close>, always the
    left summand of \<open>py_error + 'a\<close>) and \<open>float("inf")\<close> (\<open>xreal\<close>, a real or
    \<open>PInf\<close>, an ordered commutative monoid).
  \<^item> Python's insertion-ordered \<open>dict\<close> as an association list: \<open>d[k] = v\<close> is
    \<open>AList.update\<close> (in place when the key is there, appended when it is not),
    \<open>d.get(k, x)\<close> is \<open>get_default\<close>.
  \<^item> Loops that can raise (\<open>fold_err\<close>) and their invariant rule.
  \<^item> The \<open>ledger\<close> locale: accounts to which amounts are posted. Node residuals and link
    residuals are both ledgers, and every rollback of the program is a reversal of postings.

  Floating-point numbers are modelled as exact reals throughout; NaN and rounding are outside
  the model. Safety facts rest on comparisons guarding subtractions, restoration facts on
  exact arithmetic.
\<close>

named_theorems charge_simps \<open>how a charge or a refund acts on the parts of a substrate\<close>
named_theorems wf_intros \<open>well-formedness of substrates is kept\<close>

section \<open>Exceptions\<close>

datatype py_error =
    KeyError
  | ValueError
  | IndexError
  | RuntimeError
  | AssertionError
  | StopIteration
  | ZeroDivisionError
  | AttributeError

text \<open>A loop whose body can raise: the first exception ends it.\<close>

fun fold_err :: "('a \<Rightarrow> 's \<Rightarrow> 'e + 's) \<Rightarrow> 'a list \<Rightarrow> 's \<Rightarrow> 'e + 's" where
  "fold_err f [] s = Inr s"
| "fold_err f (x # xs) s = (case f x s of Inl e \<Rightarrow> Inl e | Inr t \<Rightarrow> fold_err f xs t)"

lemma fold_err_append:
  "fold_err f (xs @ ys) s = (case fold_err f xs s of Inl e \<Rightarrow> Inl e | Inr t \<Rightarrow> fold_err f ys t)"
  by (induction xs arbitrary: s) (auto split: sum.splits)

lemma fold_err_invariant:
  assumes "\<And>x s t. x \<in> set xs \<Longrightarrow> P s \<Longrightarrow> f x s = Inr t \<Longrightarrow> P t"
    and "P s" and "fold_err f xs s = Inr t"
  shows "P t"
  using assms
proof (induction xs arbitrary: s)
  case Nil
  then show ?case by simp
next
  case (Cons x xs)
  from Cons.prems(3) obtain u where u: "f x s = Inr u" and rest: "fold_err f xs u = Inr t"
    by (auto split: sum.splits)
  have "P u" using Cons.prems(1)[OF _ Cons.prems(2) u] by simp
  with rest show ?case using Cons.IH Cons.prems(1) by (meson list.set_intros(2))
qed

text \<open>A loop whose body never raises from a good state is an ordinary fold.\<close>

lemma fold_err_total:
  assumes "\<And>x s. x \<in> set xs \<Longrightarrow> P s \<Longrightarrow> f x s = Inr (g x s) \<and> P (g x s)"
    and "P s"
  shows "fold_err f xs s = Inr (fold g xs s) \<and> P (fold g xs s)"
  using assms
proof (induction xs arbitrary: s)
  case Nil
  then show ?case by simp
next
  case (Cons x xs)
  have "f x s = Inr (g x s)" and "P (g x s)"
    using Cons.prems by auto
  moreover have "fold_err f xs (g x s) = Inr (fold g xs (g x s)) \<and> P (fold g xs (g x s))"
    by (rule Cons.IH) (use Cons.prems \<open>P (g x s)\<close> in auto)
  ultimately show ?case by simp
qed

section \<open>Positive infinity\<close>

datatype xreal = Fin real | PInf

fun is_inf :: "xreal \<Rightarrow> bool" where
  "is_inf PInf = True"
| "is_inf (Fin _) = False"

instantiation xreal :: linorder
begin

fun less_eq_xreal :: "xreal \<Rightarrow> xreal \<Rightarrow> bool" where
  "less_eq_xreal _ PInf = True"
| "less_eq_xreal PInf (Fin _) = False"
| "less_eq_xreal (Fin x) (Fin y) = (x \<le> y)"

definition less_xreal :: "xreal \<Rightarrow> xreal \<Rightarrow> bool" where
  "less_xreal x y = (x \<le> y \<and> \<not> y \<le> x)"

instance
proof
  fix x y z :: xreal
  show "x < y \<longleftrightarrow> x \<le> y \<and> \<not> y \<le> x" by (simp add: less_xreal_def)
  show "x \<le> x" by (cases x) auto
  show "x \<le> y \<Longrightarrow> y \<le> z \<Longrightarrow> x \<le> z" by (cases x; cases y; cases z) auto
  show "x \<le> y \<Longrightarrow> y \<le> x \<Longrightarrow> x = y" by (cases x; cases y) auto
  show "x \<le> y \<or> y \<le> x" by (cases x; cases y) auto
qed

end

instantiation xreal :: comm_monoid_add
begin

definition zero_xreal :: xreal where
  "zero_xreal = Fin 0"

fun plus_xreal :: "xreal \<Rightarrow> xreal \<Rightarrow> xreal" where
  "plus_xreal (Fin x) (Fin y) = Fin (x + y)"
| "plus_xreal PInf _ = PInf"
| "plus_xreal (Fin _) PInf = PInf"

instance
proof
  fix x y z :: xreal
  show "x + y + z = x + (y + z)" by (cases x; cases y; cases z) auto
  show "x + y = y + x" by (cases x; cases y) auto
  show "0 + x = x" by (cases x) (auto simp: zero_xreal_def)
qed

end

lemma less_xreal_simps [simp]:
  "Fin x < Fin y \<longleftrightarrow> x < y"
  "Fin x < PInf"
  "\<not> PInf < x'"
  by (auto simp: less_xreal_def)

lemma is_inf_iff: "is_inf x \<longleftrightarrow> x = PInf"
  by (cases x) auto

section \<open>Dictionaries\<close>

type_synonym ('k, 'v) dict = "('k \<times> 'v) list"

abbreviation keys :: "('k, 'v) dict \<Rightarrow> 'k list" where
  "keys d \<equiv> map fst d"

abbreviation vals :: "('k, 'v) dict \<Rightarrow> 'v list" where
  "vals d \<equiv> map snd d"

definition get_default :: "('k, 'v) dict \<Rightarrow> 'k \<Rightarrow> 'v \<Rightarrow> 'v" where
  "get_default d k x = (case map_of d k of None \<Rightarrow> x | Some v \<Rightarrow> v)"

text \<open>\<open>d[k] = d.get(k, 0) + x\<close>.\<close>

definition add_at :: "'k \<Rightarrow> 'v::comm_monoid_add \<Rightarrow> ('k, 'v) dict \<Rightarrow> ('k, 'v) dict" where
  "add_at k x d = AList.update k (get_default d k 0 + x) d"

lemma update_fresh: "k \<notin> set (keys d) \<Longrightarrow> AList.update k v d = d @ [(k, v)]"
  by (induction d) auto

lemma delete_fresh: "k \<notin> set (keys d) \<Longrightarrow> AList.delete k d = d"
  by (induction d) (auto simp: AList.delete_eq)

lemma delete_update_fresh: "k \<notin> set (keys d) \<Longrightarrow> AList.delete k (AList.update k v d) = d"
  by (simp add: update_fresh AList.delete_eq filter_id_conv) force

lemma keys_update: "set (keys (AList.update k v d)) = insert k (set (keys d))"
  by (induction d) auto

lemma distinct_keys_update: "distinct (keys d) \<Longrightarrow> distinct (keys (AList.update k v d))"
  by (rule AList.distinct_update)

lemma map_of_update_simp [simp]:
  "map_of (AList.update k v d) k' = (if k' = k then Some v else map_of d k')"
  by (simp add: AList.update_conv)

lemma get_default_update [simp]:
  "get_default (AList.update k v d) k' x = (if k' = k then v else get_default d k' x)"
  by (simp add: get_default_def)

lemma get_default_add_at [simp]:
  "get_default (add_at k x d) k' 0 = (if k' = k then get_default d k 0 + x else get_default d k' 0)"
  by (simp add: add_at_def)

lemma get_default_fresh: "k \<notin> set (keys d) \<Longrightarrow> get_default d k x = x"
  by (simp add: get_default_def map_of_eq_None_iff[THEN iffD2])

lemma get_default_in: "map_of d k = Some v \<Longrightarrow> get_default d k x = v"
  by (simp add: get_default_def)

text \<open>The sum over a dictionary built by \<open>add_at\<close> is the sum of what was added.\<close>

lemma sum_vals_add_at:
  "sum_list (vals (add_at k x d)) = sum_list (vals d) + (x :: 'v::comm_monoid_add)"
  by (induction d) (auto simp: add_at_def get_default_def ac_simps)

lemma key_iff: "k \<in> fst ` set d \<longleftrightarrow> map_of d k \<noteq> None"
  by (simp add: map_of_eq_None_iff)

lemma map_of_updates:
  "map_of (fold (\<lambda>x. AList.update (k x) (v x)) xs d) l
   = (case map_of (rev (map (\<lambda>x. (k x, v x)) xs)) l of None \<Rightarrow> map_of d l | Some y \<Rightarrow> Some y)"
  by (induction xs arbitrary: d) (auto simp: map_add_def split: option.splits)

lemma map_of_map_keyed: "map_of (map (\<lambda>(k, d). (k, f k d)) xs) k = map_option (f k) (map_of xs k)"
  by (induction xs) auto

section \<open>Lists\<close>

text \<open>Python's \<open>xs[i]\<close>: a negative index counts from the end, out of range raises.\<close>

definition py_index :: "'a list \<Rightarrow> int \<Rightarrow> py_error + 'a" where
  "py_index xs i =
     (if 0 \<le> i \<and> nat i < length xs then Inr (xs ! nat i)
      else if i < 0 \<and> nat (- i) \<le> length xs then Inr (xs ! (length xs - nat (- i)))
      else Inl IndexError)"

lemma py_index_nat [simp]: "i < length xs \<Longrightarrow> py_index xs (int i) = Inr (xs ! i)"
  by (simp add: py_index_def)

lemma set_map_filter: "set (List.map_filter f xs) = {y. \<exists>x \<in> set xs. f x = Some y}"
  by (force simp: List.map_filter_def)

text \<open>Iteration over a Python set of integers: the distinct values in ascending order.\<close>

definition py_set :: "'a::linorder list \<Rightarrow> 'a list" where
  "py_set xs = sort (remdups xs)"

lemma set_py_set [simp]: "set (py_set xs) = set xs"
  by (simp add: py_set_def)

lemma distinct_py_set [simp]: "distinct (py_set xs)"
  by (simp add: py_set_def)

lemma length_py_set: "length (py_set xs) = card (set xs)"
  by (simp add: py_set_def length_remdups_card_conv)

lemma insort_key_map: "insort_key f (g x) (map g xs) = map g (insort_key (\<lambda>x. f (g x)) x xs)"
  by (induction xs) auto

lemma sort_key_map: "sort_key f (map g xs) = map g (sort_key (\<lambda>x. f (g x)) xs)"
  by (induction xs) (auto simp: insort_key_map)

text \<open>\<open>candidates.sort(); candidates[0]\<close>: the least candidate.\<close>

definition least :: "'a::linorder list \<Rightarrow> 'a option" where
  "least xs = (case sort xs of [] \<Rightarrow> None | x # _ \<Rightarrow> Some x)"

lemma least_None [simp]: "least xs = None \<longleftrightarrow> xs = []"
  by (auto simp: least_def split: list.splits) (metis set_empty set_sort)

lemma least_Nil [simp]: "least [] = None"
  by (simp add: least_def)

lemma least_in: "least xs = Some x \<Longrightarrow> x \<in> set xs"
  by (auto simp: least_def split: list.splits) (metis list.set_intros(1) set_sort)

lemma least_le: "least xs = Some x \<Longrightarrow> y \<in> set xs \<Longrightarrow> x \<le> y"
proof -
  assume "least xs = Some x" and y: "y \<in> set xs"
  then obtain zs where zs: "sort xs = x # zs"
    by (auto simp: least_def split: list.splits)
  have "sorted (x # zs)" using zs sorted_sort[of xs] by simp
  moreover have "y \<in> set (x # zs)" using y zs by (metis set_sort)
  ultimately show "x \<le> y" by auto
qed

lemma least_eqI: "x \<in> set xs \<Longrightarrow> (\<And>y. y \<in> set xs \<Longrightarrow> x \<le> y) \<Longrightarrow> least xs = Some x"
  by (metis least_None least_in least_le option.exhaust_sel order_antisym empty_iff list.set(1))

lemma least_Min: "least xs = (if xs = [] then None else Some (Min (set xs)))"
  by (auto intro!: least_eqI)

lemma least_min: "least (min x y # zs) = least (x # y # zs)"
  by (cases "zs = []") (auto simp: least_Min min.assoc)

section \<open>Ledgers\<close>

text \<open>
  \<open>post k a s\<close> adds the amount \<open>a\<close> to account \<open>k\<close> of the state \<open>s\<close>.
  The amounts form a commutative group (\<open>add\<close>, \<open>neg\<close>, \<open>zero\<close>); nothing is
  assumed of the state. From the three laws of \<open>post\<close> alone: the order in which a batch is
  posted does not matter, and posting the negated batch undoes it.
\<close>

locale ledger =
  fixes post :: "'k \<Rightarrow> 'a \<Rightarrow> 's \<Rightarrow> 's"
    and add :: "'a \<Rightarrow> 'a \<Rightarrow> 'a"
    and neg :: "'a \<Rightarrow> 'a"
    and zero :: "'a"
  assumes add_commute: "add a b = add b a"
    and add_neg: "add (neg a) a = zero"
    and post_zero: "post k zero s = s"
    and post_post: "post k a (post k b s) = post k (add a b) s"
    and post_other: "k \<noteq> l \<Longrightarrow> post k a (post l b s) = post l b (post k a s)"
begin

lemma post_commute: "post k a (post l b s) = post l b (post k a s)"
  by (cases "k = l") (simp_all add: post_post post_other add_commute)

lemma post_neg: "post k (neg a) (post k a s) = s"
  by (simp add: post_post add_neg post_zero)

lemma post_fold_commute:
  "fold (\<lambda>(l, b). post l b) ys (post k a s) = post k a (fold (\<lambda>(l, b). post l b) ys s)"
proof (induction ys arbitrary: s)
  case (Cons y ys)
  then show ?case by (cases y) (simp add: post_commute[of _ _ k a])
qed simp

lemma post_batch_append:
  "fold (\<lambda>(l, b). post l b) (xs @ ys) s
   = fold (\<lambda>(l, b). post l b) xs (fold (\<lambda>(l, b). post l b) ys s)"
  by (induction xs arbitrary: s) (auto simp: post_fold_commute)

lemma post_batch_mset:
  assumes "mset xs = mset ys"
  shows "fold (\<lambda>(l, b). post l b) xs s = fold (\<lambda>(l, b). post l b) ys s"
proof -
  have "fold (\<lambda>(l, b). post l b) xs = fold (\<lambda>(l, b). post l b) ys"
    by (rule fold_multiset_equiv [OF _ assms]) (auto simp: fun_eq_iff post_commute)
  then show ?thesis by simp
qed

lemma post_batch_neg:
  "fold (\<lambda>(l, b). post l b) (map (\<lambda>(l, b). (l, neg b)) xs) (fold (\<lambda>(l, b). post l b) xs s) = s"
proof (induction xs arbitrary: s)
  case Nil
  then show ?case by simp
next
  case (Cons x xs)
  obtain k a where x: "x = (k, a)" by (cases x)
  have "fold (\<lambda>(l, b). post l b) (map (\<lambda>(l, b). (l, neg b)) (x # xs))
          (fold (\<lambda>(l, b). post l b) (x # xs) s)
        = fold (\<lambda>(l, b). post l b) (map (\<lambda>(l, b). (l, neg b)) xs)
            (post k (neg a) (post k a (fold (\<lambda>(l, b). post l b) xs s)))"
    by (simp add: x post_fold_commute)
  also have "\<dots> = s"
    by (simp add: post_neg Cons.IH)
  finally show ?case .
qed

end

section \<open>Slices of a list\<close>

text \<open>\<open>xs[i:i + w]\<close> for the indices \<open>i\<close> of \<open>range(0, len(xs), w)\<close>, with a positive \<open>w\<close>: consecutive
  non-empty pieces.\<close>

definition chunks :: "nat \<Rightarrow> 'a list \<Rightarrow> 'a list list" where
  "chunks w xs = map (\<lambda>j. take w (drop (j * w) xs)) [0..<(length xs + w - 1) div w]"

lemma chunks_concat:
  assumes "0 < w"
  shows "concat (chunks w xs) = xs" and "c \<in> set (chunks w xs) \<Longrightarrow> c \<noteq> [] \<and> length c \<le> w"
proof -
  have "concat (map (\<lambda>j. take w (drop (j * w) xs)) [0..<m]) = take (m * w) xs" for m
    by (induction m) (simp_all add: take_add add.commute[of w])
  moreover have up: "length xs \<le> (length xs + w - 1) div w * w"
    using assms div_mult_mod_eq[of "length xs + w - 1" w] mod_less_divisor[OF assms, of "length xs + w - 1"] by linarith
  ultimately show "concat (chunks w xs) = xs" by (simp add: chunks_def)
  have "j * w < length xs" if "j < (length xs + w - 1) div w" for j
  proof -
    have "Suc j * w \<le> (length xs + w - 1) div w * w" using that by (intro mult_le_mono1) simp
    also have "\<dots> \<le> length xs + w - 1" by (rule div_times_less_eq_dividend)
    finally show ?thesis using assms by simp
  qed
  note below = this
  assume "c \<in> set (chunks w xs)"
  then obtain j where "j < (length xs + w - 1) div w" and c: "c = take w (drop (j * w) xs)" by (auto simp: chunks_def)
  then show "c \<noteq> [] \<and> length c \<le> w" using below[of j] assms by simp
qed

end
