(* ===== verification/Orion_Types.thy ===== *)
theory Orion_Types
  imports Prelude
begin

text \<open>
  The data model: \<open>src/src/orion/types.py\<close> (tiers, links, slice requests, placement plans),
  \<open>src/src/orion/actors/types.py\<close> (what the coordinator sends to a domain actor and gets
  back) and \<open>src/src/orion/mdo/types.py\<close> (observations, violations, results). A dataclass
  is a record with the source's fields; fields that only carry training tensors (log
  probabilities, entropies, replay records) are left out. A dictionary is an association list
  in insertion order, a set of domain ids a set.
\<close>

section \<open>types.py\<close>

datatype tier = Edge | RegionalCloud | CentralCloud

text \<open>\<open>TIER_ORDER\<close> and \<open>TIER_INDEX\<close>: access-inwards, the one ordering every module shares.\<close>

definition tier_order :: "tier list" where
  "tier_order = [Edge, RegionalCloud, CentralCloud]"

fun tier_index :: "tier \<Rightarrow> nat" where
  "tier_index Edge = 0"
| "tier_index RegionalCloud = 1"
| "tier_index CentralCloud = 2"

instantiation tier :: linorder
begin

definition less_eq_tier :: "tier \<Rightarrow> tier \<Rightarrow> bool" where
  "less_eq_tier s t = (tier_index s \<le> tier_index t)"

definition less_tier :: "tier \<Rightarrow> tier \<Rightarrow> bool" where
  "less_tier s t = (tier_index s < tier_index t)"

instance
proof
  fix s t u :: tier
  show "s < t \<longleftrightarrow> s \<le> t \<and> \<not> t \<le> s" by (auto simp: less_eq_tier_def less_tier_def)
  show "s \<le> s" by (simp add: less_eq_tier_def)
  show "s \<le> t \<Longrightarrow> t \<le> u \<Longrightarrow> s \<le> u" by (simp add: less_eq_tier_def)
  show "s \<le> t \<Longrightarrow> t \<le> s \<Longrightarrow> s = t"
    by (cases s; cases t) (auto simp: less_eq_tier_def)
  show "s \<le> t \<or> t \<le> s" by (auto simp: less_eq_tier_def)
qed

end

lemma set_tier_order [simp]: "t \<in> set tier_order"
  by (cases t) (auto simp: tier_order_def)

lemma tier_order_nth: "tier_order ! tier_index t = t"
  by (cases t) (auto simp: tier_order_def)

text \<open>The values of the string enum.\<close>

fun tier_value :: "tier \<Rightarrow> string" where
  "tier_value Edge = ''edge''"
| "tier_value RegionalCloud = ''regional_cloud''"
| "tier_value CentralCloud = ''central_cloud''"

lemma tier_value_inj [simp]: "tier_value s = tier_value t \<longleftrightarrow> s = t"
  by (cases s; cases t) simp_all

datatype link_type = IntraLink | InterLink

datatype slice_type = EMBB | URLLC | MMTC | V2X | XR

type_synonym node_id = string
type_synonym link_id = string
type_synonym flow_key = "string \<times> string"

record vnf =
  vnf_id :: string
  vnf_type :: string
  cpu_demand :: real
  ram_demand :: real
  permitted_nodes :: "node_id list"
  intensity :: real
  vcr :: real

record flow_edge =
  source_vnf :: string
  target_vnf :: string
  bandwidth_demand :: real

abbreviation flow_key_of :: "flow_edge \<Rightarrow> flow_key" where
  "flow_key_of fe \<equiv> (source_vnf fe, target_vnf fe)"

record qos_requirements =
  max_e2e_delay :: real
  min_throughput :: real

record slice_request =
  request_id :: string
  stype :: slice_type
  vnfs :: "vnf list"
  flow_edges :: "flow_edge list"
  qos_of :: qos_requirements
  arrival_time :: real
  lifetime :: real

text \<open>VNFs and flows of a request are told apart by their ids.\<close>

definition wf_request :: "slice_request \<Rightarrow> bool" where
  "wf_request req \<longleftrightarrow> distinct (map vnf_id (vnfs req)) \<and> distinct (map flow_key_of (flow_edges req))"

record placement_plan =
  plan_id :: string
  vnf_placements :: "(string, node_id) dict"
  cpu_allocations :: "(string, real) dict"
  ram_allocations :: "(string, real) dict"
  flow_routes :: "(flow_key, link_id list) dict"
  bw_allocations :: "(flow_key, (link_id, real) dict) dict"
  structurally_valid :: bool
  plan_source :: string

section \<open>actors/types.py\<close>

record vnf_assignment =
  va_id :: string
  va_type :: string
  va_cpu :: real
  va_ram :: real
  va_tier :: tier
  va_intensity :: real
  va_vcr :: real
  va_bandwidth_in :: real
  va_permitted :: "node_id list"
  va_position :: nat
  va_sfc_length :: nat
  va_adjacent :: "int set"

record plan_fragment =
  pf_domain :: int
  pf_vnfs :: "vnf_assignment list"
  pf_flows :: "flow_edge list"
  pf_delay_budget :: real
  pf_targets :: "int set"

definition fragment_is_empty :: "plan_fragment \<Rightarrow> bool" where
  "fragment_is_empty f \<longleftrightarrow> length (pf_vnfs f) = 0"

record domain_response =
  dr_domain :: int
  dr_feasible :: bool
  dr_placements :: "(string, node_id) dict"
  dr_routes :: "(flow_key, link_id list) dict"
  dr_bw :: "(flow_key, real) dict"
  dr_intra_delay :: real
  dr_cost :: real

text \<open>The dataclass defaults, and \<open>DomainResponse.empty\<close>.\<close>

definition infeasible_response :: "int \<Rightarrow> domain_response" where
  "infeasible_response d =
     \<lparr>dr_domain = d, dr_feasible = False, dr_placements = [], dr_routes = [], dr_bw = [],
      dr_intra_delay = 0, dr_cost = 0\<rparr>"

definition empty_response :: "int \<Rightarrow> domain_response" where
  "empty_response d = (infeasible_response d)\<lparr>dr_feasible := True\<rparr>"

section \<open>mdo/types.py\<close>

datatype mdo_action = COMMIT | REJECT

datatype reject_reason = INFEASIBLE

record domain_summary =
  ds_domain :: int
  ds_dominant :: tier
  ds_cpu_residual :: real
  ds_ram_residual :: real
  ds_cpu_capacity :: real
  ds_ram_capacity :: real
  ds_tiers :: "tier list"
  ds_tier_cpu :: "tier \<Rightarrow> real"
  ds_tier_ram :: "tier \<Rightarrow> real"
  ds_max_node_cpu :: "tier \<Rightarrow> real"
  ds_max_node_ram :: "tier \<Rightarrow> real"

record inter_domain_link =
  il_source :: int
  il_target :: int
  il_bw_residual :: real
  il_bw_capacity :: real
  il_delay :: xreal

record plan_summary =
  ps_vnf_ids :: "string list"
  ps_tiers :: "tier list"
  ps_suggested :: "int list"
  ps_cpu :: "real list"
  ps_ram :: "real list"
  ps_vcrs :: "real list"
  ps_bw :: "real list"

definition num_vnfs :: "plan_summary \<Rightarrow> nat" where
  "num_vnfs p = length (ps_vnf_ids p)"

record mdo_observation =
  ob_domains :: "domain_summary list"
  ob_links :: "inter_domain_link list"
  ob_plan :: plan_summary
  ob_qos :: qos_requirements

record violation_info =
  c5b_violated :: bool
  c7_violated :: bool
  c9_violated :: bool
  actor_infeasible :: bool
  cross_domain_infeasible :: bool
  chain_order_violated :: bool
  vi_e2e_delay :: real
  vi_e2e_budget :: real
  vi_total_bw :: real
  vi_min_bw :: real
  vi_hops :: nat
  vi_max_hops :: nat

definition violation_vector :: "violation_info \<Rightarrow> bool list" where
  "violation_vector v =
     [c5b_violated v, c7_violated v, c9_violated v, actor_infeasible v,
      cross_domain_infeasible v, chain_order_violated v]"

definition has_violation :: "violation_info \<Rightarrow> bool" where
  "has_violation v \<longleftrightarrow> list_ex id (violation_vector v)"

lemma has_violation_iff:
  "has_violation v \<longleftrightarrow> c5b_violated v \<or> c7_violated v \<or> c9_violated v \<or> actor_infeasible v
     \<or> cross_domain_infeasible v \<or> chain_order_violated v"
  by (simp add: has_violation_def violation_vector_def)

record partition_decision =
  pd_partition :: "int list"
  pd_responses :: "(int, domain_response) dict"
  pd_violation :: "violation_info option"
  pd_e2e_delay :: real
  pd_total_cost :: real

record reward_components =
  rw_admission :: real
  rw_efficiency :: real
  rw_hard_penalty :: real
  rw_quality :: real

definition reward_total :: "reward_components \<Rightarrow> real" where
  "reward_total r = rw_admission r + rw_efficiency r + rw_hard_penalty r + rw_quality r"

record mdo_result =
  mr_request :: string
  mr_action :: mdo_action
  mr_admitted :: bool
  mr_partition :: "int list option"
  mr_responses :: "(int, domain_response) dict"
  mr_cross_routes :: "(flow_key, link_id list) dict"
  mr_cross_bw :: "(flow_key, real) dict"
  mr_e2e_delay :: real
  mr_total_cost :: real
  mr_reward :: reward_components
  mr_decision :: "partition_decision option"
  mr_reject_reason :: "reject_reason option"
  mr_revoked_by :: "string list option"

end
