(* ===== verification/Substrate.thy ===== *)
theory Substrate
  imports Orion_Types
begin

text \<open>
  The multi-domain substrate (\<open>src/src/orion/substrate/graph_model.py\<close>).

  A \<open>graph\<close> is the networkx \<open>DiGraph\<close> as the code uses it: the nodes with their attribute
  dictionaries in insertion order and the directed edges in the order of \<open>edges(data=True)\<close>.
  \<open>substrate\<close> extends it by the domain count and the registry of active slices. Node
  residuals change by \<open>post_node\<close> and link residuals by \<open>post_link\<close> (the scan for the
  first edge with that link id); both are interpretations of the \<open>ledger\<close> locale.

  Lemmas: closed forms of a batch of postings, \<open>deallocate\<close> undoes \<open>allocate\<close>, the exact
  error behaviour of both, the accounting invariant of every reachable substrate (what is
  missing from a residual is what the active slices hold), and the aggregated summary.
\<close>

section \<open>State\<close>

record node_data =
  domain_id :: int
  node_tier :: tier
  cpu_capacity :: real
  ram_capacity :: real
  processing_delay :: real
  cpu_residual :: real
  ram_residual :: real

record edge_data =
  link_id :: link_id
  bandwidth_capacity :: real
  bw_residual :: real
  propagation_delay :: real
  link_type :: link_type

record graph =
  g_nodes :: "(node_id, node_data) dict"
  g_edges :: "(node_id \<times> node_id, edge_data) dict"

record substrate = graph +
  num_domains :: nat
  active_slices :: "(string, placement_plan \<times> slice_request) dict"

abbreviation link_ids :: "(node_id \<times> node_id, edge_data) dict \<Rightarrow> link_id list" where
  "link_ids es \<equiv> map (\<lambda>p. link_id (snd p)) es"

section \<open>Well-formed graphs\<close>

text \<open>
  Dictionary keys are distinct, edges join nodes, and link ids identify edges, as
  \<open>topology_generator.py\<close> builds them. Nothing below needs more.
\<close>

definition wf_graph :: "('a graph_scheme) \<Rightarrow> bool" where
  "wf_graph g \<longleftrightarrow>
     distinct (keys (g_nodes g)) \<and> distinct (keys (g_edges g))
     \<and> distinct (link_ids (g_edges g))
     \<and> (\<forall>e \<in> set (keys (g_edges g)). fst e \<in> set (keys (g_nodes g)) \<and> snd e \<in> set (keys (g_nodes g)))"

text \<open>No resource is over-allocated.\<close>

definition no_overbooking :: "('a graph_scheme) \<Rightarrow> bool" where
  "no_overbooking g \<longleftrightarrow>
     (\<forall>(_, d) \<in> set (g_nodes g). 0 \<le> cpu_residual d \<and> 0 \<le> ram_residual d)
     \<and> (\<forall>(_, e) \<in> set (g_edges g). 0 \<le> bw_residual e)"

text \<open>
  A small substrate with two domains, on which the witnesses of this development evaluate:
  edge nodes \<open>a\<close> and \<open>b\<close> in domain 0, central-cloud node \<open>c\<close> in domain 1.
\<close>

definition ex_node :: "int \<Rightarrow> tier \<Rightarrow> node_data" where
  "ex_node m t = \<lparr>domain_id = m, node_tier = t, cpu_capacity = 8, ram_capacity = 8,
     processing_delay = 2, cpu_residual = 8, ram_residual = 8\<rparr>"

definition ex_link :: "link_id \<Rightarrow> link_type \<Rightarrow> edge_data" where
  "ex_link l t = \<lparr>link_id = l, bandwidth_capacity = 10, bw_residual = 10, propagation_delay = 1,
     link_type = t\<rparr>"

definition ex_sub :: substrate where
  "ex_sub =
     \<lparr>g_nodes = [(''a'', ex_node 0 Edge), (''b'', ex_node 0 Edge), (''c'', ex_node 1 CentralCloud)],
      g_edges = [((''a'', ''b''), ex_link ''ab'' IntraLink), ((''b'', ''a''), ex_link ''ba'' IntraLink),
                 ((''b'', ''c''), ex_link ''bc'' InterLink), ((''c'', ''b''), ex_link ''cb'' InterLink)],
      num_domains = 2, active_slices = []\<rparr>"

definition ex_vnf :: "string \<Rightarrow> vnf" where
  "ex_vnf v = \<lparr>vnf_id = v, vnf_type = ''fw'', cpu_demand = 5, ram_demand = 3, permitted_nodes = [],
     intensity = 1, vcr = 1\<rparr>"

definition ex_req :: slice_request where
  "ex_req = \<lparr>request_id = ''r'', stype = URLLC, vnfs = [ex_vnf ''u'', ex_vnf ''v''],
     flow_edges = [\<lparr>source_vnf = ''u'', target_vnf = ''v'', bandwidth_demand = 4\<rparr>],
     qos_of = \<lparr>max_e2e_delay = 20, min_throughput = 4\<rparr>, arrival_time = 0, lifetime = 10\<rparr>"

definition ex_plan :: placement_plan where
  "ex_plan = \<lparr>plan_id = ''p'', vnf_placements = [(''u'', ''a''), (''v'', ''b'')],
     cpu_allocations = [(''u'', 5), (''v'', 5)], ram_allocations = [(''u'', 3), (''v'', 3)],
     flow_routes = [((''u'', ''v''), [''ab''])],
     bw_allocations = [((''u'', ''v''), [(''ab'', 4)])],
     structurally_valid = True, plan_source = ''test''\<rparr>"

section \<open>Topology queries\<close>

definition nodes_in_domain :: "('a graph_scheme) \<Rightarrow> int \<Rightarrow> node_id list" where
  "nodes_in_domain g m = map fst (filter (\<lambda>(n, d). domain_id d = m) (g_nodes g))"

definition nodes_by_tier :: "('a graph_scheme) \<Rightarrow> tier \<Rightarrow> node_id list" where
  "nodes_by_tier g t = map fst (filter (\<lambda>(n, d). node_tier d = t) (g_nodes g))"

text \<open>\<open>g.nodes[n]\<close> raises \<open>KeyError\<close> on a name that is not a node.\<close>

definition node_at :: "('a graph_scheme) \<Rightarrow> node_id \<Rightarrow> py_error + node_data" where
  "node_at g n = (case map_of (g_nodes g) n of None \<Rightarrow> Inl KeyError | Some d \<Rightarrow> Inr d)"

text \<open>The domain of a node that is known to exist (an endpoint of an edge).\<close>

definition domain_of :: "('a graph_scheme) \<Rightarrow> node_id \<Rightarrow> int" where
  "domain_of g n = (case map_of (g_nodes g) n of None \<Rightarrow> 0 | Some d \<Rightarrow> domain_id d)"

definition crosses :: "('a graph_scheme) \<Rightarrow> node_id \<times> node_id \<Rightarrow> bool" where
  "crosses g e \<longleftrightarrow> domain_of g (fst e) \<noteq> domain_of g (snd e)"

definition inter_domain_links :: "('a graph_scheme) \<Rightarrow> link_id list" where
  "inter_domain_links g = link_ids (filter (\<lambda>(e, d). crosses g e) (g_edges g))"

text \<open>The linear scan \<open>for u, v, d in edges: if d["link_id"] == link_id: ...\<close>.\<close>

fun find_link :: "link_id \<Rightarrow> (node_id \<times> node_id, edge_data) dict
    \<Rightarrow> ((node_id \<times> node_id) \<times> edge_data) option" where
  "find_link l [] = None"
| "find_link l ((e, d) # es) = (if link_id d = l then Some (e, d) else find_link l es)"

definition get_link_attrs :: "('a graph_scheme) \<Rightarrow> link_id
    \<Rightarrow> py_error + ((node_id \<times> node_id) \<times> edge_data)" where
  "get_link_attrs g l = (case find_link l (g_edges g) of None \<Rightarrow> Inl KeyError | Some x \<Rightarrow> Inr x)"

definition get_residual_cpu :: "('a graph_scheme) \<Rightarrow> node_id \<Rightarrow> py_error + real" where
  "get_residual_cpu g n = map_sum id cpu_residual (node_at g n)"

definition get_residual_ram :: "('a graph_scheme) \<Rightarrow> node_id \<Rightarrow> py_error + real" where
  "get_residual_ram g n = map_sum id ram_residual (node_at g n)"

definition get_residual_bw :: "('a graph_scheme) \<Rightarrow> link_id \<Rightarrow> py_error + real" where
  "get_residual_bw g l = map_sum id (bw_residual \<circ> snd) (get_link_attrs g l)"

definition incident_links :: "('a graph_scheme) \<Rightarrow> node_id \<Rightarrow> link_id list \<times> link_id list" where
  "incident_links g n =
     (link_ids (filter (\<lambda>((u, v), d). u = n) (g_edges g)),
      link_ids (filter (\<lambda>((u, v), d). v = n) (g_edges g)))"

lemma nodes_in_domain_iff:
  "distinct (keys (g_nodes g)) \<Longrightarrow>
   n \<in> set (nodes_in_domain g m) \<longleftrightarrow> (\<exists>d. map_of (g_nodes g) n = Some d \<and> domain_id d = m)"
  by (auto simp: nodes_in_domain_def image_iff)

lemma nodes_in_domain_keys: "n \<in> set (nodes_in_domain g m) \<Longrightarrow> n \<in> set (keys (g_nodes g))"
  by (auto simp: nodes_in_domain_def)

lemma find_link_Some:
  "find_link l es = Some (e, d) \<Longrightarrow> (e, d) \<in> set es \<and> link_id d = l"
  by (induction es) (auto split: if_splits)

lemma find_link_None: "find_link l es = None \<longleftrightarrow> l \<notin> set (link_ids es)"
  by (induction es rule: find_link.induct) auto

lemma find_link_unique:
  "distinct (link_ids es) \<Longrightarrow> (e, d) \<in> set es \<Longrightarrow> find_link (link_id d) es = Some (e, d)"
proof (induction es)
  case (Cons x es)
  obtain e' d' where x: "x = (e', d')" by (cases x)
  show ?case
  proof (cases "(e, d) = x")
    case True
    then show ?thesis by (simp add: x)
  next
    case False
    with Cons.prems(2) have m: "(e, d) \<in> set es" by auto
    then have "link_id d \<in> (\<lambda>a. link_id (snd a)) ` set es" by force
    with Cons.prems(1) have "link_id d' \<noteq> link_id d" by (auto simp: x image_iff)
    then show ?thesis using Cons m by (simp add: x)
  qed
qed simp

lemma link_id_inj:
  assumes "distinct (link_ids es)" and "(e, d) \<in> set es" and "(e', d') \<in> set es"
    and "link_id d = link_id d'"
  shows "e = e' \<and> d = d'"
  using find_link_unique[OF assms(1,2)] find_link_unique[OF assms(1,3)] assms(4)
  by (metis Pair_inject option.inject)

section \<open>Postings\<close>

text \<open>\<open>nodes[n]["cpu_residual"] += c; nodes[n]["ram_residual"] += r\<close>.\<close>

definition post_node :: "node_id \<Rightarrow> real \<times> real \<Rightarrow> 'a graph_scheme \<Rightarrow> 'a graph_scheme" where
  "post_node n a g =
     g\<lparr>g_nodes := map (\<lambda>(k, d). (k, if k = n
        then d\<lparr>cpu_residual := cpu_residual d + fst a, ram_residual := ram_residual d + snd a\<rparr>
        else d)) (g_nodes g)\<rparr>"

definition post_nodes :: "(node_id \<times> real \<times> real) list \<Rightarrow> 'a graph_scheme \<Rightarrow> 'a graph_scheme" where
  "post_nodes ps g = fold (\<lambda>(n, a). post_node n a) ps g"

text \<open>\<open>for u, v, d in edges: if d["link_id"] == l: d["bw_residual"] += x; break\<close>.\<close>

fun post_edge :: "link_id \<Rightarrow> real \<Rightarrow> (node_id \<times> node_id, edge_data) dict
    \<Rightarrow> (node_id \<times> node_id, edge_data) dict" where
  "post_edge l x [] = []"
| "post_edge l x ((e, d) # es) =
     (if link_id d = l then (e, d\<lparr>bw_residual := bw_residual d + x\<rparr>) # es
      else (e, d) # post_edge l x es)"

definition post_link :: "link_id \<Rightarrow> real \<Rightarrow> 'a graph_scheme \<Rightarrow> 'a graph_scheme" where
  "post_link l x g = g\<lparr>g_edges := post_edge l x (g_edges g)\<rparr>"

definition post_links :: "(link_id \<times> real) list \<Rightarrow> 'a graph_scheme \<Rightarrow> 'a graph_scheme" where
  "post_links ps g = fold (\<lambda>(l, x). post_link l x) ps g"

lemma post_edge_zero: "post_edge l 0 es = es"
  by (induction es) auto

lemma post_edge_add: "post_edge l x (post_edge l y es) = post_edge l (x + y) es"
  by (induction es) (auto simp: algebra_simps)

lemma post_edge_other: "l \<noteq> m \<Longrightarrow> post_edge l x (post_edge m y es) = post_edge m y (post_edge l x es)"
  by (induction es) auto

lemma keys_post_edge [simp]: "keys (post_edge l x es) = keys es"
  by (induction es) auto

lemma link_ids_post_edge [simp]: "link_ids (post_edge l x es) = link_ids es"
  by (induction es) auto

lemma length_post_edge [simp]: "length (post_edge l x es) = length es"
  by (induction es) auto

interpretation links: ledger "post_link :: link_id \<Rightarrow> real \<Rightarrow> 'a graph_scheme \<Rightarrow> 'a graph_scheme"
  "(+)" uminus 0
  by unfold_locales
     (auto simp: post_link_def post_edge_zero post_edge_add post_edge_other)

interpretation nodes: ledger "post_node :: node_id \<Rightarrow> real \<times> real \<Rightarrow> 'a graph_scheme \<Rightarrow> 'a graph_scheme"
  "\<lambda>a b. (fst a + fst b, snd a + snd b)" "\<lambda>a. (- fst a, - snd a)" "(0, 0)"
proof unfold_locales
  fix k l :: node_id and a b :: "real \<times> real" and s :: "'a graph_scheme"
  show "post_node k (0, 0) s = s"
    by (simp add: post_node_def case_prod_unfold cong: if_cong)
  show "post_node k a (post_node k b s) = post_node k (fst a + fst b, snd a + snd b) s"
    by (auto simp: post_node_def case_prod_beta algebra_simps)
  show "k \<noteq> l \<Longrightarrow> post_node k a (post_node l b s) = post_node l b (post_node k a s)"
    by (auto simp: post_node_def case_prod_beta)
qed auto

lemma post_nodes_Nil [simp]: "post_nodes [] g = g"
  by (simp add: post_nodes_def)

lemma post_links_Nil [simp]: "post_links [] g = g"
  by (simp add: post_links_def)

lemma post_nodes_Cons: "post_nodes ((n, a) # ps) g = post_nodes ps (post_node n a g)"
  by (simp add: post_nodes_def)

lemma post_links_Cons: "post_links ((l, x) # ps) g = post_links ps (post_link l x g)"
  by (simp add: post_links_def)

lemma post_nodes_append: "post_nodes (ps @ qs) g = post_nodes qs (post_nodes ps g)"
  by (simp add: post_nodes_def)

lemma post_links_append: "post_links (ps @ qs) g = post_links qs (post_links ps g)"
  by (simp add: post_links_def)

lemma post_nodes_mset: "mset ps = mset qs \<Longrightarrow> post_nodes ps g = post_nodes qs g"
  unfolding post_nodes_def by (rule nodes.post_batch_mset)

lemma post_links_mset: "mset ps = mset qs \<Longrightarrow> post_links ps g = post_links qs g"
  unfolding post_links_def by (rule links.post_batch_mset)

lemma post_links_undo: "post_links (map (\<lambda>(l, x). (l, - x)) ps) (post_links ps g) = g"
  by (simp add: post_links_def links.post_batch_neg)

lemma post_nodes_undo: "post_nodes (map (\<lambda>(n, a). (n, - fst a, - snd a)) ps) (post_nodes ps g) = g"
  by (simp add: post_nodes_def nodes.post_batch_neg)

text \<open>Node postings and link postings touch different parts of the graph.\<close>

lemma post_node_edges [charge_simps]: "g_edges (post_node n a g) = g_edges g"
  by (simp add: post_node_def)

lemma post_link_nodes [charge_simps]: "g_nodes (post_link l x g) = g_nodes g"
  by (simp add: post_link_def)

lemma post_node_link: "post_node n a (post_link l x g) = post_link l x (post_node n a g)"
  by (simp add: post_node_def post_link_def)

lemma post_nodes_edges [charge_simps]: "g_edges (post_nodes ps g) = g_edges g"
  by (induction ps arbitrary: g) (auto simp: post_nodes_Cons charge_simps)

lemma post_links_nodes [charge_simps]: "g_nodes (post_links ps g) = g_nodes g"
  by (induction ps arbitrary: g) (auto simp: post_links_Cons charge_simps)

lemma post_nodes_link: "post_nodes ps (post_link l x g) = post_link l x (post_nodes ps g)"
  by (induction ps arbitrary: g) (auto simp: post_nodes_Cons post_node_link)

lemma post_nodes_links: "post_nodes ps (post_links qs g) = post_links qs (post_nodes ps g)"
  by (induction qs arbitrary: g) (auto simp: post_links_Cons post_nodes_link)

lemma post_nodes_more [charge_simps]:
  "num_domains (post_nodes ps S) = num_domains S" "active_slices (post_nodes ps S) = active_slices S"
  by (induction ps arbitrary: S) (auto simp: post_nodes_Cons post_node_def)

lemma post_links_more [charge_simps]:
  "num_domains (post_links ps S) = num_domains S" "active_slices (post_links ps S) = active_slices S"
  by (induction ps arbitrary: S) (auto simp: post_links_Cons post_link_def)

lemma post_nodes_active: "post_nodes ps (S\<lparr>active_slices := a\<rparr>) = (post_nodes ps S)\<lparr>active_slices := a\<rparr>"
proof (induction ps arbitrary: S)
  case (Cons p ps)
  have "post_node n b (S\<lparr>active_slices := a\<rparr>) = (post_node n b S)\<lparr>active_slices := a\<rparr>" for n b
    by (simp add: post_node_def)
  then show ?case using Cons.IH by (cases p) (simp add: post_nodes_Cons)
qed simp

lemma post_links_active: "post_links ps (S\<lparr>active_slices := a\<rparr>) = (post_links ps S)\<lparr>active_slices := a\<rparr>"
proof (induction ps arbitrary: S)
  case (Cons p ps)
  have "post_link l x (S\<lparr>active_slices := a\<rparr>) = (post_link l x S)\<lparr>active_slices := a\<rparr>" for l x
    by (simp add: post_link_def)
  then show ?case using Cons.IH by (cases p) (simp add: post_links_Cons)
qed simp

subsection \<open>Closed forms\<close>

text \<open>What a batch posts to one account.\<close>

definition posted :: "'k \<Rightarrow> ('k \<times> real) list \<Rightarrow> real" where
  "posted k ps = sum_list (map snd (filter (\<lambda>p. fst p = k) ps))"

definition posted_cpu :: "node_id \<Rightarrow> (node_id \<times> real \<times> real) list \<Rightarrow> real" where
  "posted_cpu n ps = sum_list (map (\<lambda>p. fst (snd p)) (filter (\<lambda>p. fst p = n) ps))"

definition posted_ram :: "node_id \<Rightarrow> (node_id \<times> real \<times> real) list \<Rightarrow> real" where
  "posted_ram n ps = sum_list (map (\<lambda>p. snd (snd p)) (filter (\<lambda>p. fst p = n) ps))"

lemma posted_simps [simp]:
  "posted k [] = 0"
  "posted k ((l, x) # ps) = (if l = k then x else 0) + posted k ps"
  "posted k (ps @ qs) = posted k ps + posted k qs"
  by (auto simp: posted_def)

lemma posted_cpu_simps [simp]:
  "posted_cpu n [] = 0"
  "posted_cpu n ((m, a) # ps) = (if m = n then fst a else 0) + posted_cpu n ps"
  "posted_cpu n (ps @ ps') = posted_cpu n ps + posted_cpu n ps'"
  by (auto simp: posted_cpu_def)

lemma posted_ram_simps [simp]:
  "posted_ram n [] = 0"
  "posted_ram n ((m, a) # ps) = (if m = n then snd a else 0) + posted_ram n ps"
  "posted_ram n (ps @ ps') = posted_ram n ps + posted_ram n ps'"
  by (auto simp: posted_ram_def)

lemma nodes_post_nodes:
  "g_nodes (post_nodes ps g) =
     map (\<lambda>(k, d). (k, d\<lparr>cpu_residual := cpu_residual d + posted_cpu k ps,
                        ram_residual := ram_residual d + posted_ram k ps\<rparr>)) (g_nodes g)"
proof (induction ps arbitrary: g)
  case Nil
  then show ?case by (simp add: case_prod_beta)
next
  case (Cons p ps)
  obtain n a where p: "p = (n, a)" by (cases p)
  show ?case
    unfolding p post_nodes_Cons Cons.IH
    by (auto simp: post_node_def algebra_simps)
qed

lemma post_edge_distinct:
  "distinct (link_ids es) \<Longrightarrow>
   post_edge l x es = map (\<lambda>(e, d). (e, if link_id d = l then d\<lparr>bw_residual := bw_residual d + x\<rparr> else d)) es"
proof (induction es)
  case (Cons y es)
  obtain e d where y: "y = (e, d)" by (cases y)
  have "map (\<lambda>(e, d). (e, if link_id d = l then d\<lparr>bw_residual := bw_residual d + x\<rparr> else d)) es = es"
    if "link_id d = l"
    using Cons.prems that by (intro map_idI) (force simp: y image_iff)
  with Cons show ?case by (auto simp: y)
qed simp

lemma edges_post_links:
  assumes "distinct (link_ids (g_edges g))"
  shows "g_edges (post_links ps g) =
    map (\<lambda>(e, d). (e, d\<lparr>bw_residual := bw_residual d + posted (link_id d) ps\<rparr>)) (g_edges g)"
  using assms
proof (induction ps arbitrary: g)
  case Nil
  then show ?case by (simp add: case_prod_beta)
next
  case (Cons p ps)
  obtain l x where p: "p = (l, x)" by (cases p)
  have d: "distinct (link_ids (g_edges (post_link l x g)))"
    using Cons.prems by (simp add: post_link_def)
  show ?case
    unfolding p post_links_Cons Cons.IH[OF d]
    using Cons.prems by (auto simp: post_link_def post_edge_distinct algebra_simps)
qed

lemma keys_post_nodes [charge_simps]: "keys (g_nodes (post_nodes ps g)) = keys (g_nodes g)"
  by (simp add: nodes_post_nodes case_prod_beta comp_def)

lemma keys_post_links [charge_simps]:
  "keys (g_edges (post_links ps g)) = keys (g_edges g)"
  "link_ids (g_edges (post_links ps g)) = link_ids (g_edges g)"
  by (induction ps arbitrary: g) (auto simp: post_links_Cons post_link_def)

lemma wf_post_nodes [wf_intros, simp]: "wf_graph (post_nodes ps g) \<longleftrightarrow> wf_graph g"
  by (simp add: wf_graph_def charge_simps del: map_map)

lemma wf_post_links [wf_intros, simp]: "wf_graph (post_links ps g) \<longleftrightarrow> wf_graph g"
  by (simp only: wf_graph_def charge_simps)

lemma wf_active [simp]: "wf_graph (S\<lparr>active_slices := a\<rparr>) \<longleftrightarrow> wf_graph S"
  by (simp add: wf_graph_def)

lemma map_of_post_nodes:
  "map_of (g_nodes (post_nodes ps g)) k =
     map_option (\<lambda>d. d\<lparr>cpu_residual := cpu_residual d + posted_cpu k ps,
                      ram_residual := ram_residual d + posted_ram k ps\<rparr>) (map_of (g_nodes g) k)"
  by (simp add: nodes_post_nodes map_of_map_keyed)

section \<open>Resource management\<close>

text \<open>
  One pass of the loops of \<open>allocate\<close> (\<open>sg = -1\<close>) and \<open>deallocate\<close> (\<open>sg = 1\<close>):
  the three dictionary lookups, each of which raises \<open>KeyError\<close> on a missing key.
\<close>

fun post_vnf :: "real \<Rightarrow> placement_plan \<Rightarrow> string \<times> node_id \<Rightarrow> substrate \<Rightarrow> py_error + substrate" where
  "post_vnf sg plan (v, n) S =
     (case map_of (cpu_allocations plan) v of None \<Rightarrow> Inl KeyError
      | Some cpu \<Rightarrow>
     (case map_of (ram_allocations plan) v of None \<Rightarrow> Inl KeyError
      | Some ram \<Rightarrow>
        (if n \<in> set (keys (g_nodes S)) then Inr (post_node n (sg * cpu, sg * ram) S)
         else Inl KeyError)))"

definition post_flows :: "real \<Rightarrow> placement_plan \<Rightarrow> substrate \<Rightarrow> substrate" where
  "post_flows sg plan S =
     fold (\<lambda>(fk, per_link). fold (\<lambda>(l, bw). post_link l (sg * bw)) per_link) (bw_allocations plan) S"

definition allocate :: "substrate \<Rightarrow> placement_plan \<Rightarrow> slice_request \<Rightarrow> py_error + substrate" where
  "allocate S plan req =
     (if request_id req \<in> set (keys (active_slices S)) then Inl ValueError
      else case fold_err (post_vnf (- 1) plan) (vnf_placements plan) S of
          Inl e \<Rightarrow> Inl e
        | Inr S1 \<Rightarrow>
            let S2 = post_flows (- 1) plan S1 in
            Inr (S2\<lparr>active_slices := AList.update (request_id req) (plan, req) (active_slices S2)\<rparr>))"

definition deallocate :: "substrate \<Rightarrow> placement_plan \<Rightarrow> slice_request \<Rightarrow> py_error + substrate" where
  "deallocate S plan req =
     (if request_id req \<notin> set (keys (active_slices S)) then Inl KeyError
      else case fold_err (post_vnf 1 plan) (vnf_placements plan) S of
          Inl e \<Rightarrow> Inl e
        | Inr S1 \<Rightarrow>
            let S2 = post_flows 1 plan S1 in
            Inr (S2\<lparr>active_slices := AList.delete (request_id req) (active_slices S2)\<rparr>))"

definition reset_substrate :: "substrate \<Rightarrow> substrate" where
  "reset_substrate S =
     S\<lparr>g_nodes := map (\<lambda>(n, d). (n, d\<lparr>cpu_residual := cpu_capacity d, ram_residual := ram_capacity d\<rparr>)) (g_nodes S),
       g_edges := map (\<lambda>(e, d). (e, d\<lparr>bw_residual := bandwidth_capacity d\<rparr>)) (g_edges S),
       active_slices := []\<rparr>"

subsection \<open>Allocation as one batch of postings\<close>

text \<open>What a plan takes from nodes and links, and when all its lookups succeed.\<close>

definition node_claims :: "placement_plan \<Rightarrow> (node_id \<times> real \<times> real) list" where
  "node_claims plan = map (\<lambda>(v, n). (n, get_default (cpu_allocations plan) v 0,
                                      get_default (ram_allocations plan) v 0)) (vnf_placements plan)"

definition link_claims :: "placement_plan \<Rightarrow> (link_id \<times> real) list" where
  "link_claims plan = concat (map snd (bw_allocations plan))"

definition plan_resolves :: "placement_plan \<Rightarrow> 'a graph_scheme \<Rightarrow> bool" where
  "plan_resolves plan g \<longleftrightarrow>
     (\<forall>(v, n) \<in> set (vnf_placements plan).
        v \<in> set (keys (cpu_allocations plan)) \<and> v \<in> set (keys (ram_allocations plan))
        \<and> n \<in> set (keys (g_nodes g)))"

abbreviation scale_nodes :: "real \<Rightarrow> (node_id \<times> real \<times> real) list \<Rightarrow> (node_id \<times> real \<times> real) list" where
  "scale_nodes s ps \<equiv> map (\<lambda>(n, a). (n, s * fst a, s * snd a)) ps"

abbreviation scale_links :: "real \<Rightarrow> (link_id \<times> real) list \<Rightarrow> (link_id \<times> real) list" where
  "scale_links s ps \<equiv> map (\<lambda>(l, x). (l, s * x)) ps"

text \<open>Taking a batch from the substrate, and giving it back.\<close>

definition charge :: "(node_id \<times> real \<times> real) list \<Rightarrow> (link_id \<times> real) list
    \<Rightarrow> 'a graph_scheme \<Rightarrow> 'a graph_scheme" where
  "charge ns ls g = post_links (scale_links (- 1) ls) (post_nodes (scale_nodes (- 1) ns) g)"

definition refund :: "(node_id \<times> real \<times> real) list \<Rightarrow> (link_id \<times> real) list
    \<Rightarrow> 'a graph_scheme \<Rightarrow> 'a graph_scheme" where
  "refund ns ls g = post_links (scale_links 1 ls) (post_nodes (scale_nodes 1 ns) g)"

lemma keys_post_node [charge_simps]: "keys (g_nodes (post_node n a g)) = keys (g_nodes g)"
  by (simp add: post_node_def case_prod_beta comp_def)

lemma post_vnf_Inr:
  "v \<in> set (keys (cpu_allocations plan)) \<Longrightarrow> v \<in> set (keys (ram_allocations plan)) \<Longrightarrow>
   n \<in> set (keys (g_nodes S)) \<Longrightarrow>
   post_vnf sg plan (v, n) S =
     Inr (post_node n (sg * get_default (cpu_allocations plan) v 0,
                       sg * get_default (ram_allocations plan) v 0) S)"
  by (auto simp: key_iff get_default_def)

lemma post_vnf_Inl:
  "post_vnf sg plan (v, n) S = Inl e \<longleftrightarrow>
   e = KeyError \<and> \<not> (v \<in> set (keys (cpu_allocations plan)) \<and> v \<in> set (keys (ram_allocations plan))
                    \<and> n \<in> set (keys (g_nodes S)))"
  by (auto simp: key_iff split: option.splits)

lemma post_vnfs_resolved:
  assumes "\<forall>(v, n) \<in> set ps. v \<in> set (keys (cpu_allocations plan)) \<and> v \<in> set (keys (ram_allocations plan))
             \<and> n \<in> set (keys (g_nodes S))"
  shows "fold_err (post_vnf sg plan) ps S =
    Inr (post_nodes (scale_nodes sg (map (\<lambda>(v, n). (n, get_default (cpu_allocations plan) v 0,
                                      get_default (ram_allocations plan) v 0)) ps)) S)"
  using assms
proof (induction ps arbitrary: S)
  case (Cons p ps)
  obtain v n where p: "p = (v, n)" by (cases p)
  show ?case
    using Cons.prems unfolding p
    by (simp add: post_vnf_Inr Cons.IH charge_simps post_nodes_Cons del: post_vnf.simps)
qed simp

lemma post_vnfs_unresolved:
  assumes "\<not> (\<forall>(v, n) \<in> set ps. v \<in> set (keys (cpu_allocations plan)) \<and> v \<in> set (keys (ram_allocations plan))
             \<and> n \<in> set (keys (g_nodes S)))"
  shows "fold_err (post_vnf sg plan) ps S = Inl KeyError"
  using assms
proof (induction ps arbitrary: S)
  case (Cons p ps)
  obtain v n where p: "p = (v, n)" by (cases p)
  show ?case
  proof (cases "v \<in> set (keys (cpu_allocations plan)) \<and> v \<in> set (keys (ram_allocations plan))
             \<and> n \<in> set (keys (g_nodes S))")
    case True
    with Cons.prems have "\<not> (\<forall>(v, n) \<in> set ps. v \<in> set (keys (cpu_allocations plan))
       \<and> v \<in> set (keys (ram_allocations plan)) \<and> n \<in> set (keys (g_nodes S)))"
      by (auto simp: p)
    with True show ?thesis
      by (simp add: p post_vnf_Inr Cons.IH charge_simps del: post_vnf.simps)
  next
    case False
    then have "post_vnf sg plan (v, n) S = Inl KeyError"
      by (simp add: post_vnf_Inl del: post_vnf.simps)
    then show ?thesis by (simp add: p del: post_vnf.simps)
  qed
qed simp

lemma post_flows_links: "post_flows sg plan S = post_links (scale_links sg (link_claims plan)) S"
proof -
  have inner: "fold (\<lambda>(l, bw). post_link l (sg * bw)) ps T = post_links (scale_links sg ps) T" for ps T
    by (induction ps arbitrary: T) (auto simp: post_links_Cons)
  have "fold (\<lambda>(fk, per). fold (\<lambda>(l, bw). post_link l (sg * bw)) per) bs T
        = post_links (scale_links sg (concat (map snd bs))) T" for bs T
    by (induction bs arbitrary: T) (auto simp: inner post_links_append case_prod_beta)
  then show ?thesis by (simp add: post_flows_def link_claims_def)
qed

lemma charge_simps_parts [charge_simps]:
  "num_domains (charge ns ls S) = num_domains S"
  "active_slices (charge ns ls S) = active_slices S"
  "keys (g_nodes (charge ns ls g)) = keys (g_nodes g)"
  "keys (g_edges (charge ns ls g)) = keys (g_edges g)"
  "num_domains (refund ns ls S) = num_domains S"
  "active_slices (refund ns ls S) = active_slices S"
  "keys (g_nodes (refund ns ls g)) = keys (g_nodes g)"
  by (simp_all add: charge_def refund_def charge_simps)

lemma wf_charge [simp]: "wf_graph (charge ns ls g) \<longleftrightarrow> wf_graph g"
  by (simp add: charge_def)

lemma refund_charge: "refund ns ls (charge ns ls g) = g"
proof -
  have l: "scale_links 1 ls = map (\<lambda>(l, x). (l, - x)) (scale_links (- 1) ls)"
    by (simp add: case_prod_unfold comp_def)
  have n: "scale_nodes 1 ns = map (\<lambda>(n, a). (n, - fst a, - snd a)) (scale_nodes (- 1) ns)"
    by (simp add: case_prod_unfold comp_def)
  show ?thesis
    unfolding refund_def charge_def
    by (simp only: post_nodes_links) (simp only: l n post_links_undo post_nodes_undo)
qed

lemma charge_append: "charge (ns @ ns') (ls @ ls') g = charge ns' ls' (charge ns ls g)"
  by (simp add: charge_def post_nodes_append post_links_append post_nodes_links)

lemma charge_mset:
  assumes "mset ns = mset ns'" and "mset ls = mset ls'"
  shows "charge ns ls g = charge ns' ls' g"
proof -
  have "mset (scale_nodes (- 1) ns) = mset (scale_nodes (- 1) ns')"
    "mset (scale_links (- 1) ls) = mset (scale_links (- 1) ls')"
    using assms by simp_all
  then show ?thesis
    unfolding charge_def by (simp only: post_nodes_mset[of "scale_nodes (- 1) ns"]
        post_links_mset[of "scale_links (- 1) ls"])
qed

lemma charge_active: "charge ns ls (S\<lparr>active_slices := a\<rparr>) = (charge ns ls S)\<lparr>active_slices := a\<rparr>"
  by (simp add: charge_def post_nodes_active post_links_active)

lemma refund_active: "refund ns ls (S\<lparr>active_slices := a\<rparr>) = (refund ns ls S)\<lparr>active_slices := a\<rparr>"
  by (simp add: refund_def post_nodes_active post_links_active)

lemma plan_resolves_charge [simp]: "plan_resolves plan (charge ns ls g) = plan_resolves plan g"
  by (simp only: plan_resolves_def charge_simps)

lemma plan_resolves_active [simp]: "plan_resolves plan (S\<lparr>active_slices := a\<rparr>) = plan_resolves plan S"
  by (simp add: plan_resolves_def)

lemma allocate_Inr_iff:
  "allocate S plan req = Inr S' \<longleftrightarrow>
     request_id req \<notin> set (keys (active_slices S)) \<and> plan_resolves plan S
     \<and> S' = (charge (node_claims plan) (link_claims plan) S)
              \<lparr>active_slices := active_slices S @ [(request_id req, plan, req)]\<rparr>"
proof (cases "plan_resolves plan S")
  case True
  then have "fold_err (post_vnf (- 1) plan) (vnf_placements plan) S
      = Inr (post_nodes (scale_nodes (- 1) (node_claims plan)) S)"
    unfolding plan_resolves_def node_claims_def by (rule post_vnfs_resolved)
  with True show ?thesis
    by (auto simp: allocate_def Let_def post_flows_links charge_def charge_simps update_fresh)
next
  case False
  then have "fold_err (post_vnf (- 1) plan) (vnf_placements plan) S = Inl KeyError"
    unfolding plan_resolves_def by (rule post_vnfs_unresolved)
  with False show ?thesis by (auto simp: allocate_def)
qed

lemma deallocate_Inr_iff:
  "deallocate S plan req = Inr S' \<longleftrightarrow>
     request_id req \<in> set (keys (active_slices S)) \<and> plan_resolves plan S
     \<and> S' = (refund (node_claims plan) (link_claims plan) S)
              \<lparr>active_slices := AList.delete (request_id req) (active_slices S)\<rparr>"
proof (cases "plan_resolves plan S")
  case True
  then have "fold_err (post_vnf 1 plan) (vnf_placements plan) S
      = Inr (post_nodes (scale_nodes 1 (node_claims plan)) S)"
    unfolding plan_resolves_def node_claims_def by (rule post_vnfs_resolved)
  with True show ?thesis
    by (auto simp: deallocate_def Let_def post_flows_links refund_def charge_simps)
next
  case False
  then have "fold_err (post_vnf 1 plan) (vnf_placements plan) S = Inl KeyError"
    unfolding plan_resolves_def by (rule post_vnfs_unresolved)
  with False show ?thesis by (auto simp: deallocate_def)
qed

lemma allocate_Inl_iff:
  "allocate S plan req = Inl e \<longleftrightarrow>
     (e = ValueError \<and> request_id req \<in> set (keys (active_slices S)))
     \<or> (e = KeyError \<and> request_id req \<notin> set (keys (active_slices S)) \<and> \<not> plan_resolves plan S)"
proof (cases "plan_resolves plan S")
  case True
  then have "fold_err (post_vnf (- 1) plan) (vnf_placements plan) S
      = Inr (post_nodes (scale_nodes (- 1) (node_claims plan)) S)"
    unfolding plan_resolves_def node_claims_def by (rule post_vnfs_resolved)
  with True show ?thesis by (auto simp: allocate_def Let_def)
next
  case False
  then have "fold_err (post_vnf (- 1) plan) (vnf_placements plan) S = Inl KeyError"
    unfolding plan_resolves_def by (rule post_vnfs_unresolved)
  with False show ?thesis by (auto simp: allocate_def)
qed

lemma substrate_active_idem [simp]: "S\<lparr>active_slices := active_slices S\<rparr> = (S :: substrate)"
  by simp

lemma deallocate_allocated:
  assumes "allocate S plan req = Inr S'"
  shows "deallocate S' plan req = Inr S"
proof -
  from assms have fresh: "request_id req \<notin> set (keys (active_slices S))"
    and res: "plan_resolves plan S"
    and S': "S' = (charge (node_claims plan) (link_claims plan) S)
              \<lparr>active_slices := active_slices S @ [(request_id req, plan, req)]\<rparr>"
    by (auto simp: allocate_Inr_iff)
  have "AList.delete (request_id req) (active_slices S') = active_slices S"
    using delete_update_fresh[OF fresh] by (simp add: S' update_fresh[OF fresh])
  then show ?thesis
    using res by (auto simp: deallocate_Inr_iff S' refund_active refund_charge)
qed

text \<open>C37: the registry and every residual are back after an admitted slice departs.\<close>

theorem allocate_deallocate_roundtrip:
  assumes "allocate S plan req = Inr S'"
  shows "deallocate S' plan req = Inr S"
  by (rule deallocate_allocated[OF assms])

theorem allocate_deallocate_roundtrip_witness:
  "\<exists>T. allocate ex_sub ex_plan ex_req = Inr T \<and> deallocate T ex_plan ex_req = Inr ex_sub"
proof -
  have "allocate ex_sub ex_plan ex_req = Inr (projr (allocate ex_sub ex_plan ex_req))" by code_simp
  from this allocate_deallocate_roundtrip[OF this] show ?thesis by blast
qed

subsection \<open>The accounting invariant\<close>

text \<open>
  Every substrate the program can reach from a topology: reset, admission, departure of a
  registered slice with the plan it was registered with.
\<close>

inductive reachable :: "substrate \<Rightarrow> substrate \<Rightarrow> bool" for S0 where
  reset: "reachable S0 (reset_substrate S0)"
| again: "reachable S0 S \<Longrightarrow> reachable S0 (reset_substrate S)"
| admit: "reachable S0 S \<Longrightarrow> allocate S plan req = Inr T \<Longrightarrow> reachable S0 T"
| depart: "reachable S0 S \<Longrightarrow> map_of (active_slices S) (request_id req) = Some (plan, req) \<Longrightarrow>
    deallocate S plan req = Inr T \<Longrightarrow> reachable S0 T"

abbreviation held_nodes :: "substrate \<Rightarrow> (node_id \<times> real \<times> real) list" where
  "held_nodes S \<equiv> concat (map (\<lambda>(rid, plan, req). node_claims plan) (active_slices S))"

abbreviation held_links :: "substrate \<Rightarrow> (link_id \<times> real) list" where
  "held_links S \<equiv> concat (map (\<lambda>(rid, plan, req). link_claims plan) (active_slices S))"

definition accounted :: "substrate \<Rightarrow> bool" where
  "accounted S \<longleftrightarrow>
     distinct (keys (active_slices S))
     \<and> (\<forall>(rid, plan, req) \<in> set (active_slices S). rid = request_id req)
     \<and> S = (charge (held_nodes S) (held_links S) (reset_substrate S))\<lparr>active_slices := active_slices S\<rparr>"

lemma reset_post_node: "reset_substrate (post_node n a S) = reset_substrate S"
  by (simp add: reset_substrate_def post_node_def comp_def case_prod_unfold if_distrib cong: if_cong)

lemma reset_post_edge:
  "map (\<lambda>(e, d). (e, d\<lparr>bw_residual := bandwidth_capacity d\<rparr>)) (post_edge l x es)
   = map (\<lambda>(e, d). (e, d\<lparr>bw_residual := bandwidth_capacity d\<rparr>)) es"
  by (induction es) auto

lemma reset_post_link: "reset_substrate (post_link l x S) = reset_substrate S"
  by (simp add: reset_substrate_def post_link_def reset_post_edge)

lemma reset_post_nodes: "reset_substrate (post_nodes ps S) = reset_substrate S"
  by (induction ps arbitrary: S) (auto simp: post_nodes_Cons reset_post_node)

lemma reset_post_links: "reset_substrate (post_links ps S) = reset_substrate S"
  by (induction ps arbitrary: S) (auto simp: post_links_Cons reset_post_link)

lemma reset_charge: "reset_substrate (charge ns ls S) = reset_substrate S"
  by (simp add: charge_def reset_post_links reset_post_nodes)

lemma reset_refund: "reset_substrate (refund ns ls S) = reset_substrate S"
  by (simp add: refund_def reset_post_links reset_post_nodes)

lemma reset_active: "reset_substrate (S\<lparr>active_slices := a\<rparr>) = reset_substrate S"
  by (simp add: reset_substrate_def)

lemma reset_idem: "reset_substrate (reset_substrate S) = reset_substrate S"
  by (simp add: reset_substrate_def comp_def case_prod_unfold)

lemma active_reset [simp]: "active_slices (reset_substrate S) = []"
  by (simp add: reset_substrate_def)

lemma accounted_reset: "accounted (reset_substrate S)"
  by (simp add: accounted_def reset_idem charge_def)

lemma accounted_allocate:
  assumes "accounted S" and "allocate S plan req = Inr T"
  shows "accounted T"
proof -
  let ?n = "held_nodes S" and ?l = "held_links S" and ?a = "active_slices S"
  from assms(2) have fresh: "request_id req \<notin> set (keys ?a)"
    and T: "T = (charge (node_claims plan) (link_claims plan) S)
                  \<lparr>active_slices := ?a @ [(request_id req, plan, req)]\<rparr>"
    by (auto simp: allocate_Inr_iff)
  from assms(1) have S: "S = (charge ?n ?l (reset_substrate S))\<lparr>active_slices := ?a\<rparr>"
    by (simp add: accounted_def)
  have aT: "active_slices T = ?a @ [(request_id req, plan, req)]"
    and rT: "reset_substrate T = reset_substrate S"
    by (simp_all add: T reset_active reset_charge)
  have "charge (node_claims plan) (link_claims plan) S
      = (charge (node_claims plan) (link_claims plan) (charge ?n ?l (reset_substrate S)))\<lparr>active_slices := ?a\<rparr>"
    by (subst S) (simp only: charge_active)
  also have "\<dots> = (charge (held_nodes T) (held_links T) (reset_substrate T))\<lparr>active_slices := ?a\<rparr>"
    by (simp add: aT rT charge_append)
  finally have "T = (charge (held_nodes T) (held_links T) (reset_substrate T))\<lparr>active_slices := active_slices T\<rparr>"
    by (subst T) (simp add: aT)
  then show ?thesis
    using assms(1) fresh unfolding accounted_def aT by auto
qed

lemma mset_concat_delete:
  assumes "distinct (keys d)" and "map_of d k = Some v"
  shows "mset (concat (map f d)) = mset (f (k, v)) + mset (concat (map f (AList.delete k d)))"
  using assms
proof (induction d)
  case (Cons x d)
  show ?case
  proof (cases "fst x = k")
    case True
    with Cons.prems have "x = (k, v)" and "k \<notin> set (keys d)"
      by (auto split: if_splits)
    then show ?thesis by (simp add: delete_fresh)
  next
    case False
    with Cons show ?thesis by (cases x) auto
  qed
qed simp

lemma accounted_deallocate:
  assumes "accounted S" and "map_of (active_slices S) (request_id req) = Some (plan, req)"
    and "deallocate S plan req = Inr T"
  shows "accounted T"
proof -
  let ?a = "active_slices S" and ?b = "AList.delete (request_id req) (active_slices S)"
  let ?N = "concat (map (\<lambda>(rid, plan, req). node_claims plan) ?b)"
  let ?L = "concat (map (\<lambda>(rid, plan, req). link_claims plan) ?b)"
  from assms(3) have T: "T = (refund (node_claims plan) (link_claims plan) S)\<lparr>active_slices := ?b\<rparr>"
    by (auto simp: deallocate_Inr_iff)
  from assms(1) have S: "S = (charge (held_nodes S) (held_links S) (reset_substrate S))\<lparr>active_slices := ?a\<rparr>"
    and d: "distinct (keys ?a)" and ids: "\<forall>(rid, plan, req) \<in> set ?a. rid = request_id req"
    by (simp_all add: accounted_def)
  have aT: "active_slices T = ?b" and rT: "reset_substrate T = reset_substrate S"
    by (simp_all add: T reset_active reset_refund)
  have split: "charge (held_nodes S) (held_links S) (reset_substrate S)
      = charge (node_claims plan) (link_claims plan) (charge ?N ?L (reset_substrate S))"
    unfolding charge_append[symmetric]
    by (rule charge_mset) (simp_all add: mset_concat_delete[OF d assms(2)] add.commute)
  have "refund (node_claims plan) (link_claims plan) S
      = (charge ?N ?L (reset_substrate S))\<lparr>active_slices := ?a\<rparr>"
    by (subst S) (simp add: refund_active split refund_charge)
  then have "T = (charge (held_nodes T) (held_links T) (reset_substrate T))\<lparr>active_slices := active_slices T\<rparr>"
    by (subst T) (simp add: aT rT)
  moreover have "distinct (keys ?b)" using d by (rule AList.distinct_delete)
  moreover have "\<forall>(rid, plan, req) \<in> set ?b. rid = request_id req"
    using ids by (auto simp: AList.delete_eq)
  ultimately show ?thesis unfolding accounted_def aT by simp
qed

lemma reachable_accounted: "reachable S0 S \<Longrightarrow> accounted S"
  by (induction rule: reachable.induct)
     (auto intro: accounted_reset accounted_allocate accounted_deallocate)

lemma posted_scale: "posted l (scale_links s ps) = s * posted l ps"
  by (induction ps) (auto simp: algebra_simps)

lemma posted_cpu_scale: "posted_cpu n (scale_nodes s ps) = s * posted_cpu n ps"
  by (induction ps) (auto simp: algebra_simps)

lemma posted_ram_scale: "posted_ram n (scale_nodes s ps) = s * posted_ram n ps"
  by (induction ps) (auto simp: algebra_simps)

text \<open>\<open>charge\<close> in closed form: every entry loses what the batch takes from it.\<close>

lemma nodes_charge:
  "g_nodes (charge ns ls g) =
     map (\<lambda>(k, d). (k, d\<lparr>cpu_residual := cpu_residual d - posted_cpu k ns,
                        ram_residual := ram_residual d - posted_ram k ns\<rparr>)) (g_nodes g)"
  unfolding charge_def post_links_nodes nodes_post_nodes posted_cpu_scale posted_ram_scale by simp

lemma edges_charge:
  assumes "distinct (link_ids (g_edges g))"
  shows "g_edges (charge ns ls g) =
    map (\<lambda>(e, d). (e, d\<lparr>bw_residual := bw_residual d - posted (link_id d) ls\<rparr>)) (g_edges g)"
proof -
  have d: "distinct (link_ids (g_edges (post_nodes (scale_nodes (- 1) ns) g)))"
    using assms by (simp only: post_nodes_edges)
  show ?thesis
    unfolding charge_def edges_post_links[OF d] post_nodes_edges posted_scale by simp
qed

lemma map_of_charge:
  "map_of (g_nodes (charge ns ls g)) k =
     map_option (\<lambda>d. d\<lparr>cpu_residual := cpu_residual d - posted_cpu k ns,
                      ram_residual := ram_residual d - posted_ram k ns\<rparr>) (map_of (g_nodes g) k)"
  by (simp add: nodes_charge map_of_map_keyed)

lemma nodes_in_domain_charge [charge_simps]: "nodes_in_domain (charge ns ls g) m = nodes_in_domain g m"
  unfolding nodes_in_domain_def nodes_charge
  by (simp add: filter_map comp_def case_prod_unfold)

lemma posted_cpu_concat: "posted_cpu n (concat pss) = sum_list (map (posted_cpu n) pss)"
  by (induction pss) auto

lemma posted_ram_concat: "posted_ram n (concat pss) = sum_list (map (posted_ram n) pss)"
  by (induction pss) auto

lemma posted_concat: "posted l (concat pss) = sum_list (map (posted l) pss)"
  by (induction pss) auto

definition cpu_held :: "substrate \<Rightarrow> node_id \<Rightarrow> real" where
  "cpu_held S n = (\<Sum>(rid, plan, req) \<leftarrow> active_slices S. posted_cpu n (node_claims plan))"

definition ram_held :: "substrate \<Rightarrow> node_id \<Rightarrow> real" where
  "ram_held S n = (\<Sum>(rid, plan, req) \<leftarrow> active_slices S. posted_ram n (node_claims plan))"

definition bw_held :: "substrate \<Rightarrow> link_id \<Rightarrow> real" where
  "bw_held S l = (\<Sum>(rid, plan, req) \<leftarrow> active_slices S. posted l (link_claims plan))"

lemma wf_reset [simp]: "wf_graph (reset_substrate S) \<longleftrightarrow> wf_graph S"
  by (simp add: wf_graph_def reset_substrate_def comp_def case_prod_unfold)

lemma reachable_wf: "reachable S0 S \<Longrightarrow> wf_graph S0 \<Longrightarrow> wf_graph S"
proof (induction rule: reachable.induct)
  case (depart S req plan T)
  then show ?case by (auto simp: deallocate_Inr_iff refund_def)
qed (auto simp: allocate_Inr_iff)

lemma reachable_residuals:
  assumes "reachable S0 S" and "wf_graph S0"
  shows "(\<forall>(n, d) \<in> set (g_nodes S). cpu_residual d = cpu_capacity d - cpu_held S n
                                 \<and> ram_residual d = ram_capacity d - ram_held S n)
       \<and> (\<forall>(e, d) \<in> set (g_edges S). bw_residual d = bandwidth_capacity d - bw_held S (link_id d))"
proof -
  let ?R = "reset_substrate S"
  have S: "S = (charge (held_nodes S) (held_links S) ?R)\<lparr>active_slices := active_slices S\<rparr>"
    using reachable_accounted[OF assms(1)] by (simp add: accounted_def)
  have wf: "distinct (link_ids (g_edges ?R))"
    using reachable_wf[OF assms] wf_reset[of S] by (simp add: wf_graph_def)
  have n: "g_nodes S = g_nodes (charge (held_nodes S) (held_links S) ?R)"
    by (subst S) simp
  have e: "g_edges S = g_edges (charge (held_nodes S) (held_links S) ?R)"
    by (subst S) simp
  have held: "posted_cpu k (held_nodes S) = cpu_held S k" "posted_ram k (held_nodes S) = ram_held S k"
    "posted l (held_links S) = bw_held S l" for k l
    by (simp_all add: cpu_held_def ram_held_def bw_held_def posted_cpu_concat posted_ram_concat
        posted_concat comp_def case_prod_unfold)
  have "\<forall>(n, d) \<in> set (g_nodes S). cpu_residual d = cpu_capacity d - cpu_held S n
                                 \<and> ram_residual d = ram_capacity d - ram_held S n"
    unfolding n nodes_charge held by (auto simp: reset_substrate_def)
  moreover have "\<forall>(e, d) \<in> set (g_edges S). bw_residual d = bandwidth_capacity d - bw_held S (link_id d)"
    unfolding e edges_charge[OF wf] held by (auto simp: reset_substrate_def)
  ultimately show ?thesis by blast
qed

text \<open>
  C38: in every reachable substrate, what is missing from a node's CPU and RAM residual and
  from a link's bandwidth residual is exactly what the registered slices hold.
\<close>

theorem reachable_accounting:
  assumes "reachable S0 S" and "wf_graph S0"
  shows "(\<forall>(n, d) \<in> set (g_nodes S). cpu_residual d = cpu_capacity d - cpu_held S n
                                 \<and> ram_residual d = ram_capacity d - ram_held S n)
       \<and> (\<forall>(e, d) \<in> set (g_edges S). bw_residual d = bandwidth_capacity d - bw_held S (link_id d))"
  using assms by (rule reachable_residuals)

theorem reachable_accounting_witness:
  "\<exists>T. allocate (reset_substrate ex_sub) ex_plan ex_req = Inr T
     \<and> (\<forall>(n, d) \<in> set (g_nodes T). cpu_residual d = cpu_capacity d - cpu_held T n) \<and> cpu_held T ''a'' = 5"
proof -
  let ?T = "projr (allocate (reset_substrate ex_sub) ex_plan ex_req)"
  have T: "allocate (reset_substrate ex_sub) ex_plan ex_req = Inr ?T" by code_simp
  have "reachable ex_sub ?T" by (rule reachable.admit[OF reachable.reset T])
  moreover have "wf_graph ex_sub" by code_simp
  ultimately have "\<forall>(n, d) \<in> set (g_nodes ?T). cpu_residual d = cpu_capacity d - cpu_held ?T n"
    using reachable_accounting[of ex_sub ?T] by auto
  moreover have "cpu_held ?T ''a'' = 5" by code_simp
  ultimately show ?thesis using T by blast
qed

section \<open>Aggregated view\<close>

record domain_features =
  cpu_residual_frac :: real
  ram_residual_frac :: real
  bw_residual_frac :: real
  active_slice_count :: nat
  utilization :: real

definition ratio_or_one :: "real \<Rightarrow> real \<Rightarrow> real" where
  "ratio_or_one res tot = (if tot > 0 then res / tot else 1)"

definition domain_features_of :: "substrate \<Rightarrow> int \<Rightarrow> domain_features" where
  "domain_features_of S m =
     (let nodes = filter (\<lambda>(n, d). domain_id d = m) (g_nodes S);
          edges = filter (\<lambda>((u, v), e). u \<in> fst ` set nodes \<and> v \<in> fst ` set nodes) (g_edges S);
          cpu_frac = ratio_or_one (\<Sum>(n, d) \<leftarrow> nodes. cpu_residual d) (\<Sum>(n, d) \<leftarrow> nodes. cpu_capacity d);
          ram_frac = ratio_or_one (\<Sum>(n, d) \<leftarrow> nodes. ram_residual d) (\<Sum>(n, d) \<leftarrow> nodes. ram_capacity d);
          bw_frac = ratio_or_one (\<Sum>(k, e) \<leftarrow> edges. bw_residual e) (\<Sum>(k, e) \<leftarrow> edges. bandwidth_capacity e)
      in \<lparr>cpu_residual_frac = cpu_frac, ram_residual_frac = ram_frac, bw_residual_frac = bw_frac,
          active_slice_count = length (filter (\<lambda>(rid, plan, req).
             list_ex (\<lambda>(v, n). domain_of S n = m) (vnf_placements plan)) (active_slices S)),
          utilization = 1 - (cpu_frac + ram_frac) / 2\<rparr>)"

definition domain_residual_summary :: "substrate \<Rightarrow> (int, domain_features) dict" where
  "domain_residual_summary S = map (\<lambda>m. (int m, domain_features_of S (int m))) [0..<num_domains S]"

definition within_capacity :: "('a graph_scheme) \<Rightarrow> bool" where
  "within_capacity g \<longleftrightarrow>
     no_overbooking g
     \<and> (\<forall>(_, d) \<in> set (g_nodes g). cpu_residual d \<le> cpu_capacity d \<and> ram_residual d \<le> ram_capacity d)
     \<and> (\<forall>(_, e) \<in> set (g_edges g). bw_residual e \<le> bandwidth_capacity e)"

lemma ratio_or_one_bounds:
  assumes "\<And>x. x \<in> set xs \<Longrightarrow> 0 \<le> f x \<and> f x \<le> h x"
  shows "0 \<le> ratio_or_one (\<Sum>x \<leftarrow> xs. f x) (\<Sum>x \<leftarrow> xs. h x)
       \<and> ratio_or_one (\<Sum>x \<leftarrow> xs. f x) (\<Sum>x \<leftarrow> xs. h x) \<le> 1"
proof -
  have "0 \<le> (\<Sum>x \<leftarrow> xs. f x)" using assms by (intro sum_list_nonneg) auto
  moreover have "(\<Sum>x \<leftarrow> xs. f x) \<le> (\<Sum>x \<leftarrow> xs. h x)" using assms by (intro sum_list_mono) auto
  ultimately show ?thesis by (auto simp: ratio_or_one_def)
qed

text \<open>
  On a substrate whose residuals lie between zero and capacity, every fraction the global
  state publishes lies in the unit interval, utilisation included.
\<close>

theorem domain_summary_bounds:
  assumes "within_capacity S" and "(m, ft) \<in> set (domain_residual_summary S)"
  shows "0 \<le> cpu_residual_frac ft \<and> cpu_residual_frac ft \<le> 1
       \<and> 0 \<le> ram_residual_frac ft \<and> ram_residual_frac ft \<le> 1
       \<and> 0 \<le> bw_residual_frac ft \<and> bw_residual_frac ft \<le> 1
       \<and> 0 \<le> utilization ft \<and> utilization ft \<le> 1"
proof -
  let ?ns = "filter (\<lambda>(n, d). domain_id d = m) (g_nodes S)"
  let ?es = "filter (\<lambda>((u, v), e). u \<in> fst ` set ?ns \<and> v \<in> fst ` set ?ns) (g_edges S)"
  have ft: "ft = domain_features_of S m"
    using assms(2) by (auto simp: domain_residual_summary_def)
  have c: "0 \<le> cpu_residual_frac ft \<and> cpu_residual_frac ft \<le> 1"
    unfolding ft domain_features_of_def Let_def case_prod_unfold domain_features.simps
    by (rule ratio_or_one_bounds) (use assms(1) in \<open>force simp: within_capacity_def no_overbooking_def\<close>)
  have r: "0 \<le> ram_residual_frac ft \<and> ram_residual_frac ft \<le> 1"
    unfolding ft domain_features_of_def Let_def case_prod_unfold domain_features.simps
    by (rule ratio_or_one_bounds) (use assms(1) in \<open>force simp: within_capacity_def no_overbooking_def\<close>)
  have b: "0 \<le> bw_residual_frac ft \<and> bw_residual_frac ft \<le> 1"
    unfolding ft domain_features_of_def Let_def case_prod_unfold domain_features.simps
    by (rule ratio_or_one_bounds) (use assms(1) in \<open>force simp: within_capacity_def no_overbooking_def\<close>)
  have "utilization ft = 1 - (cpu_residual_frac ft + ram_residual_frac ft) / 2"
    by (simp add: ft domain_features_of_def Let_def)
  with c r b show ?thesis by (simp add: field_simps)
qed

theorem domain_summary_bounds_witness:
  "list_all (\<lambda>(m, ft). 0 \<le> utilization ft \<and> utilization ft \<le> 1) (domain_residual_summary ex_sub)
   \<and> length (domain_residual_summary ex_sub) = 2"
proof -
  have "within_capacity ex_sub" by code_simp
  then have "0 \<le> utilization ft \<and> utilization ft \<le> 1"
    if "(m, ft) \<in> set (domain_residual_summary ex_sub)" for m ft
    using domain_summary_bounds[OF _ that] by simp
  moreover have "length (domain_residual_summary ex_sub) = 2" by code_simp
  ultimately show ?thesis by (auto simp: list_all_iff)
qed

end
