(* ===== verification/Arrival_Process.thy ===== *)
theory Arrival_Process
  imports Substrate
begin

text \<open>
  The event stream (\<open>src/src/orion/sim/arrival_process.py\<close>): one arrival and one departure per
  request, sorted by time with departures first. The exponential draws and the slice factory
  are parameters; the request ids \<open>f"req_{i:04d}"\<close> are computed, and shown to be distinct by
  reading them back.
\<close>

section \<open>Request ids\<close>

definition digit_char :: "nat \<Rightarrow> char" where
  "digit_char d = char_of (48 + d)"

fun decimal :: "nat \<Rightarrow> string" where
  "decimal n = (if n < 10 then [digit_char n] else decimal (n div 10) @ [digit_char (n mod 10)])"

declare decimal.simps [simp del]

definition pad4 :: "nat \<Rightarrow> string" where
  "pad4 n = replicate (4 - length (decimal n)) (CHR ''0'') @ decimal n"

definition req_name :: "nat \<Rightarrow> string" where
  "req_name i = ''req_'' @ pad4 i"

definition read_decimal :: "string \<Rightarrow> nat" where
  "read_decimal s = fold (\<lambda>c n. 10 * n + (of_char c - 48)) s 0"

lemma read_decimal_snoc: "read_decimal (s @ [c]) = 10 * read_decimal s + (of_char c - 48)"
  by (simp add: read_decimal_def)

lemma of_digit: "d < 10 \<Longrightarrow> of_char (digit_char d) - 48 = (d :: nat)"
  by (simp add: digit_char_def)

lemma read_decimal_decimal: "read_decimal (decimal n) = n"
proof (induction n rule: decimal.induct)
  case (1 n)
  show ?case
  proof (cases "n < 10")
    case True
    then show ?thesis by (simp add: decimal.simps[of n] read_decimal_def of_digit)
  next
    case False
    then show ?thesis using 1 by (simp add: decimal.simps[of n] read_decimal_snoc of_digit)
  qed
qed

lemma read_decimal_zeros: "read_decimal (replicate k (CHR ''0'') @ s) = read_decimal s"
proof -
  have "fold (\<lambda>c n. 10 * n + (of_char c - 48)) (replicate k (CHR ''0'')) 0 = (0 :: nat)"
    by (induction k) simp_all
  then show ?thesis by (simp add: read_decimal_def)
qed

section \<open>Events\<close>

datatype event_type = ARRIVAL | DEPARTURE

text \<open>The \<open>IntEnum\<close> values.\<close>

fun event_value :: "event_type \<Rightarrow> int" where
  "event_value ARRIVAL = 1"
| "event_value DEPARTURE = 0"

record sim_event =
  ev_time :: real
  ev_type :: event_type
  ev_request :: string
  ev_slice :: "slice_request option"

type_synonym slice_factory = "string \<Rightarrow> real \<Rightarrow> real \<Rightarrow> slice_request"

record arrival_process =
  ap_num :: nat
  ap_factory :: slice_factory
  ap_events :: "sim_event list"
  ap_idx :: nat

text \<open>\<open>np.cumsum\<close>.\<close>

fun cumsum :: "real \<Rightarrow> real list \<Rightarrow> real list" where
  "cumsum acc [] = []"
| "cumsum acc (x # xs) = (acc + x) # cumsum (acc + x) xs"

definition request_events :: "slice_factory \<Rightarrow> real list \<Rightarrow> real list \<Rightarrow> nat \<Rightarrow> sim_event list" where
  "request_events factory ts lifes i =
     (let t = ts ! i; rid = req_name i in
      [\<lparr>ev_time = t, ev_type = ARRIVAL, ev_request = rid, ev_slice = Some (factory rid t (lifes ! i))\<rparr>,
       \<lparr>ev_time = t + lifes ! i, ev_type = DEPARTURE, ev_request = rid, ev_slice = None\<rparr>])"

definition event_key :: "sim_event \<Rightarrow> real \<times> int" where
  "event_key e = (ev_time e, event_value (ev_type e))"

text \<open>\<open>gaps\<close> and \<open>lifes\<close> are the two draws of \<open>num_arrivals\<close> exponentials.\<close>

definition generate :: "real list \<Rightarrow> real list \<Rightarrow> arrival_process \<Rightarrow> arrival_process" where
  "generate gaps lifes p =
     p\<lparr>ap_events := sort_key event_key
          (concat (map (request_events (ap_factory p) (cumsum 0 gaps) lifes) [0..<ap_num p])),
       ap_idx := 0\<rparr>"

definition has_next :: "arrival_process \<Rightarrow> bool" where
  "has_next p \<longleftrightarrow> ap_idx p < length (ap_events p)"

definition peek :: "arrival_process \<Rightarrow> py_error + sim_event" where
  "peek p = py_index (ap_events p) (int (ap_idx p))"

definition next_event :: "arrival_process \<Rightarrow> py_error + (sim_event \<times> arrival_process)" where
  "next_event p = map_sum id (\<lambda>e. (e, p\<lparr>ap_idx := ap_idx p + 1\<rparr>)) (peek p)"

definition num_events :: "arrival_process \<Rightarrow> nat" where
  "num_events p = length (ap_events p)"

definition num_remaining :: "arrival_process \<Rightarrow> int" where
  "num_remaining p = int (length (ap_events p)) - int (ap_idx p)"

section \<open>The stream\<close>

text \<open>The requests that arrive, in the order they arrive.\<close>

definition arrivals :: "sim_event list \<Rightarrow> slice_request list" where
  "arrivals es = List.map_filter (\<lambda>e. if ev_type e = ARRIVAL then ev_slice e else None) es"

lemma next_event_Inr: "has_next p \<Longrightarrow> next_event p = Inr (ap_events p ! ap_idx p, p\<lparr>ap_idx := ap_idx p + 1\<rparr>)"
  by (simp add: has_next_def next_event_def peek_def)

lemma req_name_inj: "req_name i = req_name j \<Longrightarrow> i = j"
proof -
  assume "req_name i = req_name j"
  then have "read_decimal (pad4 i) = read_decimal (pad4 j)" by (simp add: req_name_def)
  then show ?thesis by (simp add: pad4_def read_decimal_zeros read_decimal_decimal)
qed

lemma req_name_eq [simp]: "req_name i = req_name j \<longleftrightarrow> i = j"
  using req_name_inj by blast

lemma mset_arrivals: "mset es = mset es' \<Longrightarrow> mset (arrivals es) = mset (arrivals es')"
  by (simp add: arrivals_def List.map_filter_def)

lemma arrivals_simps [simp]:
  "arrivals [] = []"
  "arrivals (e # es) = (if ev_type e = ARRIVAL then (case ev_slice e of None \<Rightarrow> arrivals es | Some r \<Rightarrow> r # arrivals es)
                        else arrivals es)"
  "arrivals (es @ es') = arrivals es @ arrivals es'"
  by (auto simp: arrivals_def List.map_filter_def split: option.splits)

lemma arrivals_generated:
  "arrivals (concat (map (request_events f ts lifes) ks)) = map (\<lambda>i. f (req_name i) (ts ! i) (lifes ! i)) ks"
  by (induction ks) (simp_all add: request_events_def Let_def)

text \<open>A generated stream is in chronological order with departures before arrivals at the
  same time; every request arrives once and departs once, under an id of its own.\<close>

theorem generated_stream_correct:
  assumes "\<And>rid t l. request_id (ap_factory p rid t l) = rid"
  shows "sorted (map event_key (ap_events (generate gaps lifes p)))
    \<and> distinct (map request_id (arrivals (ap_events (generate gaps lifes p))))
    \<and> set (map request_id (arrivals (ap_events (generate gaps lifes p)))) = req_name ` {..<ap_num p}
    \<and> (\<forall>i < ap_num p. card {k. k < num_events (generate gaps lifes p)
          \<and> ev_request (ap_events (generate gaps lifes p) ! k) = req_name i} = 2)
    \<and> num_events (generate gaps lifes p) = 2 * ap_num p"
proof -
  let ?raw = "concat (map (request_events (ap_factory p) (cumsum 0 gaps) lifes) [0..<ap_num p])"
  let ?es = "ap_events (generate gaps lifes p)"
  have es: "?es = sort_key event_key ?raw" by (simp add: generate_def)
  have m: "mset ?es = mset ?raw" unfolding es by simp
  have ids: "mset (map request_id (arrivals ?es)) = mset (map req_name [0..<ap_num p])"
  proof -
    have "mset (map request_id (arrivals ?es)) = mset (map request_id (arrivals ?raw))"
      using mset_arrivals[OF m] by (simp add: mset_map)
    also have "map request_id (arrivals ?raw) = map req_name [0..<ap_num p]"
      by (simp add: arrivals_generated assms comp_def)
    finally show ?thesis .
  qed
  have dn: "distinct (map req_name [0..<ap_num p])"
    by (simp add: distinct_map inj_on_def)
  have 1: "distinct (map request_id (arrivals ?es))"
    using ids dn by (metis mset_eq_imp_distinct_iff)
  have 2: "set (map request_id (arrivals ?es)) = req_name ` {..<ap_num p}"
    using mset_eq_setD[OF ids] by (simp add: lessThan_atLeast0)
  have names: "map ev_request ?raw = concat (map (\<lambda>i. [req_name i, req_name i]) [0..<n])" if "n = ap_num p" for n
    unfolding that by (simp add: map_concat comp_def request_events_def Let_def)
  have 3: "card {k. k < num_events (generate gaps lifes p) \<and> ev_request (?es ! k) = req_name i} = 2"
    if i: "i < ap_num p" for i
  proof -
    have cnt: "count (mset (concat (map (\<lambda>i. [req_name i, req_name i]) [0..<n]))) (req_name i)
        = (if i < n then 2 else 0)" for n
      by (induction n) auto
    have "card {k. k < num_events (generate gaps lifes p) \<and> ev_request (?es ! k) = req_name i}
        = length (filter (\<lambda>x. req_name i = x) (map ev_request ?es))"
      by (simp add: length_filter_conv_card num_events_def eq_commute[of "req_name i"]) (metis nth_map)
    also have "\<dots> = count (mset (map ev_request ?es)) (req_name i)"
      by (simp only: count_mset count_list_eq_length_filter)
    also have "\<dots> = count (mset (map ev_request ?raw)) (req_name i)"
      using m by (metis mset_map)
    also have "\<dots> = 2" unfolding names[OF refl] cnt using i by simp
    finally show ?thesis .
  qed
  have 4: "num_events (generate gaps lifes p) = 2 * ap_num p"
    unfolding num_events_def es
    by (simp add: length_concat comp_def request_events_def Let_def sum_list_triv)
  show ?thesis using 1 2 3 4 by (simp add: es)
qed

definition ex_factory :: slice_factory where
  "ex_factory rid t l = ex_req\<lparr>request_id := rid, arrival_time := t, lifetime := l\<rparr>"

definition ex_process :: arrival_process where
  "ex_process = \<lparr>ap_num = 2, ap_factory = ex_factory, ap_events = [], ap_idx = 0\<rparr>"

theorem generated_stream_correct_witness:
  "map event_key (ap_events (generate [1, 2] [5, 1] ex_process)) = [(1, 1), (3, 1), (4, 0), (6, 0)]
   \<and> distinct (map request_id (arrivals (ap_events (generate [1, 2] [5, 1] ex_process))))"
proof -
  have "map event_key (ap_events (generate [1, 2] [5, 1] ex_process)) = [(1, 1), (3, 1), (4, 0), (6, 0)]"
    by code_simp
  moreover have "request_id (ap_factory ex_process rid t l) = rid" for rid t l
    by (simp add: ex_process_def ex_factory_def)
  note generated_stream_correct[OF this, of "[1, 2]" "[5, 1]"]
  ultimately show ?thesis by blast
qed

end
