(* ===== verification/Sampling.thy ===== *)
theory Sampling
  imports Arrival_Process
begin

text \<open>
  Random draws and rounding, as \<open>slice_generator.py\<close> and \<open>hierarchical_topology.py\<close> use them. The
  generator is a parameter: \<open>draw i\<close> is the unit draw behind the \<open>i\<close>-th call of \<open>rng.uniform\<close>,
  which numpy documents to give a value between its bounds. \<open>round(x, n)\<close> is Python's rounding,
  half to even, on exact reals. The lemmas: rounding is monotone, so a rounded draw stays between
  bounds that have that many decimals; decimal numerals are told apart and hold digits only.
\<close>

section \<open>Rounding and draws\<close>

definition round_half_even :: "real \<Rightarrow> int" where
  "round_half_even x =
     (let f = \<lfloor>x\<rfloor>; d = x - of_int f in
      if d < 1 / 2 then f else if 1 / 2 < d then f + 1 else if even f then f else f + 1)"

definition py_round :: "real \<Rightarrow> nat \<Rightarrow> real" where
  "py_round x n = of_int (round_half_even (x * 10 ^ n)) / 10 ^ n"

definition uniform :: "real \<Rightarrow> real \<times> real \<Rightarrow> real" where
  "uniform u r = fst r + (snd r - fst r) * u"

definition unit_draws :: "(nat \<Rightarrow> real) \<Rightarrow> bool" where
  "unit_draws draw \<longleftrightarrow> (\<forall>i. 0 \<le> draw i \<and> draw i \<le> 1)"

section \<open>Lemmas\<close>

lemma round_half_even_mono: "x \<le> y \<Longrightarrow> round_half_even x \<le> round_half_even y"
proof -
  assume xy: "x \<le> y"
  have b: "\<lfloor>z\<rfloor> \<le> round_half_even z \<and> round_half_even z \<le> \<lfloor>z\<rfloor> + 1" for z
    by (simp add: round_half_even_def Let_def)
  show ?thesis
  proof (cases "\<lfloor>x\<rfloor> = \<lfloor>y\<rfloor>")
    case True
    then show ?thesis using xy by (auto simp: round_half_even_def Let_def)
  next
    case False
    then have "\<lfloor>x\<rfloor> + 1 \<le> \<lfloor>y\<rfloor>" using floor_mono[OF xy] by linarith
    then show ?thesis using b[of x] b[of y] by linarith
  qed
qed

lemma round_half_even_int [simp]: "round_half_even (of_int k) = k"
  by (simp add: round_half_even_def Let_def)

text \<open>Rounding keeps a value between bounds that have at most that many decimals.\<close>

lemma py_round_le:
  assumes "x \<le> b" and "b * 10 ^ n = of_int k"
  shows "py_round x n \<le> b"
proof -
  have "round_half_even (x * 10 ^ n) \<le> round_half_even (b * 10 ^ n)"
    using assms(1) by (intro round_half_even_mono mult_right_mono) simp_all
  then have "real_of_int (round_half_even (x * 10 ^ n)) \<le> b * 10 ^ n"
    unfolding assms(2) by simp
  then show ?thesis by (simp add: py_round_def pos_divide_le_eq)
qed

lemma py_round_ge:
  assumes "a \<le> x" and "a * 10 ^ n = of_int k"
  shows "a \<le> py_round x n"
proof -
  have "round_half_even (a * 10 ^ n) \<le> round_half_even (x * 10 ^ n)"
    using assms(1) by (intro round_half_even_mono mult_right_mono) simp_all
  then have "a * 10 ^ n \<le> real_of_int (round_half_even (x * 10 ^ n))"
    unfolding assms(2) by simp
  then show ?thesis by (simp add: py_round_def pos_le_divide_eq)
qed

lemma py_round_mono: "x \<le> y \<Longrightarrow> py_round x n \<le> py_round y n"
  unfolding py_round_def by (intro divide_right_mono of_int_le_iff[THEN iffD2] round_half_even_mono mult_right_mono) simp_all

lemma py_round_nonneg: "0 \<le> x \<Longrightarrow> 0 \<le> py_round x n"
  using py_round_ge[of 0 x n 0] by simp

lemma uniform_bounds: "0 \<le> u \<Longrightarrow> u \<le> 1 \<Longrightarrow> a \<le> b \<Longrightarrow> a \<le> uniform u (a, b) \<and> uniform u (a, b) \<le> b"
  by (simp add: uniform_def) (metis add.commute diff_add_cancel mult.right_neutral mult_left_mono le_diff_eq diff_ge_0_iff_ge add_le_cancel_right)

text \<open>A rounded uniform draw stays between bounds that have that many decimals.\<close>

lemma drawn_between:
  assumes "0 \<le> u" and "u \<le> 1" and "fst r * 10 ^ n \<in> \<int>" and "snd r * 10 ^ n \<in> \<int>" and "fst r \<le> snd r"
  shows "fst r \<le> py_round (uniform u r) n \<and> py_round (uniform u r) n \<le> snd r"
proof -
  obtain a b where "fst r * 10 ^ n = of_int a" "snd r * 10 ^ n = of_int b" using assms(3,4) by (auto elim!: Ints_cases)
  then show ?thesis
    using uniform_bounds[OF assms(1,2,5), unfolded prod.collapse] by (blast intro: py_round_ge py_round_le)
qed

lemma drawn_bounds:
  "0 \<le> u \<Longrightarrow> u \<le> 1 \<Longrightarrow> fst r \<in> \<int> \<Longrightarrow> snd r \<in> \<int> \<Longrightarrow> fst r \<le> snd r \<Longrightarrow>
   fst r \<le> py_round (uniform u r) 1 \<and> py_round (uniform u r) 1 \<le> snd r"
  by (rule drawn_between) simp_all

lemma decimal_inj: "decimal i = decimal j \<longleftrightarrow> i = j"
  by (metis read_decimal_decimal)

lemma decimal_digits: "set (decimal n) \<subseteq> digit_char ` {..<10}"
proof (induction n rule: decimal.induct)
  case (1 n)
  then show ?case by (subst decimal.simps) auto
qed

lemma digit_chars: "set (decimal n) \<subseteq> set ''0123456789''"
proof -
  have "map digit_char [0..<10] = ''0123456789''" by code_simp
  then have "digit_char ` {..<10} = set ''0123456789''" by (metis atLeast_upt image_set)
  then show ?thesis using decimal_digits by metis
qed

end
