(* ===== verification/Abstract_Topology.thy ===== *)
theory Abstract_Topology
  imports Observation Sampling
begin

text \<open>
  What the planner is shown of the substrate (\<open>src/src/orion/llm/abstract_topology.py\<close>): per-domain
  totals, per-tier totals, the largest free node of each tier, and the inter-domain links summed by
  ordered domain pair, all rounded to one decimal. Tiers appear by their values, domains by their
  names.

  Theorem: it is the orchestrator's own observation, rounded.
\<close>

section \<open>The view\<close>

record tier_row =
  tr_cpu :: real
  tr_ram :: real
  tr_cpu_cap :: real
  tr_ram_cap :: real
  tr_best :: real
  tr_hcpu :: real
  tr_hram :: real

definition empty_row :: tier_row where
  "empty_row = \<lparr>tr_cpu = 0, tr_ram = 0, tr_cpu_cap = 0, tr_ram_cap = 0, tr_best = - 1, tr_hcpu = 0, tr_hram = 0\<rparr>"

text \<open>One node of the loop; the seven dictionaries are keyed by tier.\<close>

definition account_node :: "node_data \<Rightarrow> (tier \<Rightarrow> tier_row) \<Rightarrow> tier \<Rightarrow> tier_row" where
  "account_node d rows =
     (let r = rows (node_tier d);
          r1 = r\<lparr>tr_cpu := tr_cpu r + cpu_residual d, tr_ram := tr_ram r + ram_residual d,
                 tr_cpu_cap := tr_cpu_cap r + cpu_capacity d, tr_ram_cap := tr_ram_cap r + ram_capacity d\<rparr>;
          fit = min (cpu_residual d / headroom_cpu_ref) (ram_residual d / headroom_ram_ref);
          r2 = (if fit > tr_best r1 then r1\<lparr>tr_best := fit, tr_hcpu := cpu_residual d, tr_hram := ram_residual d\<rparr> else r1)
      in rows(node_tier d := r2))"

fun tier_label :: "tier \<Rightarrow> string" where
  "tier_label Edge = ''Edge''"
| "tier_label RegionalCloud = ''Regional Cloud''"
| "tier_label CentralCloud = ''Central Cloud''"

fun join_with :: "string \<Rightarrow> string list \<Rightarrow> string" where
  "join_with sep [] = []"
| "join_with sep [x] = x"
| "join_with sep (x # xs) = x @ sep @ join_with sep xs"

record abstract_domain =
  ad_id :: string
  ad_label :: string
  ad_tiers :: "string list"
  ad_cpu :: real
  ad_ram :: real
  ad_cpu_capacity :: real
  ad_ram_capacity :: real
  ad_tier_cpu :: "(string, real) dict"
  ad_tier_ram :: "(string, real) dict"
  ad_tier_cpu_capacity :: "(string, real) dict"
  ad_tier_ram_capacity :: "(string, real) dict"
  ad_largest_free :: "(string, real \<times> real) dict"

record abstract_link =
  al_id :: string
  al_source :: string
  al_target :: string
  al_bw :: real
  al_capacity :: real
  al_delay :: xreal

record abstract_topology =
  at_domains :: "abstract_domain list"
  at_links :: "abstract_link list"

definition int_string :: "int \<Rightarrow> string" where
  "int_string m = (if m < 0 then ''-'' @ decimal (nat (- m)) else decimal (nat m))"

definition domain_name :: "int \<Rightarrow> string" where
  "domain_name m = ''d'' @ int_string m"

definition round1 :: "real \<Rightarrow> real" where
  "round1 x = py_round x 1"

fun round1_x :: "xreal \<Rightarrow> xreal" where
  "round1_x (Fin x) = Fin (round1 x)"
| "round1_x PInf = PInf"

text \<open>A dictionary with one rounded entry per tier.\<close>

definition by_tier :: "(tier \<Rightarrow> real) \<Rightarrow> (string, real) dict" where
  "by_tier f = map (\<lambda>t. (tier_value t, round1 (f t))) tier_order"

definition abstract_domain_of :: "'a graph_scheme \<Rightarrow> int \<Rightarrow> abstract_domain" where
  "abstract_domain_of g m =
     (let ds = map snd (domain_nodes g m);
          tiers = filter (\<lambda>t. t \<in> set (map node_tier ds)) tier_order;
          rows = fold account_node ds (\<lambda>t. empty_row)
      in \<lparr>ad_id = domain_name m, ad_label = join_with ''/'' (map tier_label tiers), ad_tiers = map tier_value tiers,
          ad_cpu = round1 (sum_list (map cpu_residual ds)), ad_ram = round1 (sum_list (map ram_residual ds)),
          ad_cpu_capacity = round1 (sum_list (map cpu_capacity ds)), ad_ram_capacity = round1 (sum_list (map ram_capacity ds)),
          ad_tier_cpu = by_tier (\<lambda>t. tr_cpu (rows t)), ad_tier_ram = by_tier (\<lambda>t. tr_ram (rows t)),
          ad_tier_cpu_capacity = by_tier (\<lambda>t. tr_cpu_cap (rows t)), ad_tier_ram_capacity = by_tier (\<lambda>t. tr_ram_cap (rows t)),
          ad_largest_free = map (\<lambda>t. (tier_value t, round1 (tr_hcpu (rows t)), round1 (tr_hram (rows t)))) tier_order\<rparr>)"

definition pool_link :: "'a graph_scheme \<Rightarrow> (node_id \<times> node_id) \<times> edge_data
    \<Rightarrow> (int \<times> int, real \<times> real \<times> xreal) dict \<Rightarrow> (int \<times> int, real \<times> real \<times> xreal) dict" where
  "pool_link g = (\<lambda>((u, v), d) agg.
     if domain_of g u = domain_of g v then agg
     else
       let key = (domain_of g u, domain_of g v);
           agg1 = (if key \<in> set (keys agg) then agg else AList.update key (0, 0, PInf) agg);
           (bw, cap, delay) = get_default agg1 key (0, 0, PInf)
       in AList.update key (bw + bw_residual d, cap + bandwidth_capacity d, min delay (Fin (propagation_delay d))) agg1)"

definition abstract_link_of :: "(int \<times> int) \<times> (real \<times> real \<times> xreal) \<Rightarrow> abstract_link" where
  "abstract_link_of = (\<lambda>((s, t), (bw, cap, delay)).
     \<lparr>al_id = ''l_'' @ domain_name s @ ''_'' @ domain_name t, al_source = domain_name s, al_target = domain_name t,
      al_bw = round1 bw, al_capacity = round1 cap, al_delay = round1_x delay\<rparr>)"

definition build_abstract_topology :: "substrate \<Rightarrow> abstract_topology" where
  "build_abstract_topology S =
     \<lparr>at_domains = map (abstract_domain_of S) (filter (\<lambda>m. nodes_in_domain S m \<noteq> []) (map int [0..<num_domains S])),
      at_links = map abstract_link_of (sort_key fst (fold (pool_link S) (g_edges S) []))\<rparr>"

section \<open>The same surface\<close>

text \<open>What the planner should see of an entry of the observation.\<close>

definition summary_view :: "domain_summary \<Rightarrow> abstract_domain \<Rightarrow> bool" where
  "summary_view s d \<longleftrightarrow>
     ad_id d = domain_name (ds_domain s) \<and> ad_tiers d = map tier_value (ds_tiers s)
     \<and> ad_label d = join_with ''/'' (map tier_label (ds_tiers s))
     \<and> ad_cpu d = round1 (ds_cpu_residual s) \<and> ad_ram d = round1 (ds_ram_residual s)
     \<and> ad_cpu_capacity d = round1 (ds_cpu_capacity s) \<and> ad_ram_capacity d = round1 (ds_ram_capacity s)
     \<and> ad_tier_cpu d = by_tier (ds_tier_cpu s) \<and> ad_tier_ram d = by_tier (ds_tier_ram s)
     \<and> ad_largest_free d = map (\<lambda>t. (tier_value t, round1 (ds_max_node_cpu s t), round1 (ds_max_node_ram s t))) tier_order"

definition link_view :: "inter_domain_link \<Rightarrow> abstract_link \<Rightarrow> bool" where
  "link_view l a \<longleftrightarrow>
     al_source a = domain_name (il_source l) \<and> al_target a = domain_name (il_target l)
     \<and> al_bw a = round1 (il_bw_residual l) \<and> al_capacity a = round1 (il_bw_capacity l) \<and> al_delay a = round1_x (il_delay l)"

lemma tier_rows:
  "tr_cpu (fold account_node ds rows t) = tr_cpu (rows t) + sum_list (map cpu_residual (filter (\<lambda>d. node_tier d = t) ds))"
  "tr_ram (fold account_node ds rows t) = tr_ram (rows t) + sum_list (map ram_residual (filter (\<lambda>d. node_tier d = t) ds))"
  by (induction ds arbitrary: rows) (auto simp: account_node_def Let_def)

lemma best_rows:
  "(tr_best (fold account_node ds rows t), tr_hcpu (fold account_node ds rows t), tr_hram (fold account_node ds rows t)) =
   fold (\<lambda>d (b, c, r). if node_tier d = t \<and> node_fit d > b then (node_fit d, cpu_residual d, ram_residual d) else (b, c, r))
     ds (tr_best (rows t), tr_hcpu (rows t), tr_hram (rows t))"
proof (induction ds arbitrary: rows)
  case (Cons d ds)
  show ?case unfolding fold.simps comp_def Cons.IH
    by (rule arg_cong) (auto simp: account_node_def Let_def node_fit_def)
qed simp

lemma tiers_in_order: "filter (\<lambda>t. t \<in> set ts) tier_order = py_set ts"
proof -
  have "sorted tier_order" "distinct tier_order" by code_simp+
  then have "sorted (filter (\<lambda>t. t \<in> set ts) tier_order)" "distinct (filter (\<lambda>t. t \<in> set ts) tier_order)"
    by (simp_all add: sorted_wrt_filter)
  then show ?thesis unfolding py_set_def
    by (intro sorted_distinct_set_unique) (auto simp: set_tier_order)
qed

lemma domain_view: "summary_view (domain_summary_of g m) (abstract_domain_of g m)"
proof -
  let ?ds = "map snd (domain_nodes g m)"
  have h: "tr_hcpu (fold account_node ?ds (\<lambda>t. empty_row) t) = fst (snd (best_node t ?ds))"
    "tr_hram (fold account_node ?ds (\<lambda>t. empty_row) t) = snd (snd (best_node t ?ds))" for t
    using best_rows[of ?ds "\<lambda>t. empty_row" t] by (simp_all add: best_node_def empty_row_def) (metis fst_conv snd_conv)+
  have z: "tr_cpu empty_row = 0" "tr_ram empty_row = 0" by (simp_all add: empty_row_def)
  show ?thesis
    unfolding summary_view_def domain_summary_of_def abstract_domain_of_def Let_def
    by (simp only: domain_summary.simps abstract_domain.simps tiers_in_order h tier_rows z simp_thms add_0)
qed

lemma pool_link_eq: "pool_link g e agg = aggregate_link g e agg"
proof -
  obtain u v d where e: "e = ((u, v), d)" by (metis prod.exhaust)
  show ?thesis
    by (auto simp: pool_link_def aggregate_link_def e Let_def get_default_fresh split: prod.splits)
qed

text \<open>
  C31: the planner and the orchestrator see the same substrate. Ordered by domain id, the domains of
  the abstract topology are the entries of the observation, field by field, rounded to one decimal,
  and the links are the aggregated links of the observation in the same order.
\<close>

theorem planner_sees_mdo_surface:
  "list_all2 summary_view (sort_key ds_domain (build_domain_summaries S)) (at_domains (build_abstract_topology S))
   \<and> list_all2 link_view (build_inter_domain_links S) (at_links (build_abstract_topology S))"
proof
  let ?ids = "filter (\<lambda>m. nodes_in_domain S m \<noteq> []) (map int [0..<num_domains S])"
  let ?xs = "map (domain_summary_of S) ?ids"
  have d: "ds_domain (domain_summary_of S m) = m" for m by (simp add: domain_summary_of_def Let_def)
  have "sorted ?ids" by (simp add: sorted_wrt_filter sorted_map sorted_wrt_mono_rel[OF _ sorted_upt])
  then have "sorted (map ds_domain ?xs)" by (simp add: comp_def d)
  moreover have "mset (build_domain_summaries S) = mset ?xs" "set (build_domain_summaries S) = set ?xs"
    by (simp_all only: build_domain_summaries_def mset_sort set_sort)
  moreover have "inj_on ds_domain (set ?xs)" by (rule inj_onI) (auto simp: d)
  ultimately have "sort_key ds_domain (build_domain_summaries S) = ?xs"
    by (intro sort_key_inj_key_eq) simp_all
  then show "list_all2 summary_view (sort_key ds_domain (build_domain_summaries S)) (at_domains (build_abstract_topology S))"
    by (simp add: build_abstract_topology_def list.rel_map list.rel_refl_strong domain_view)
  have "pool_link S = aggregate_link S" by (intro ext) (rule pool_link_eq)
  then show "list_all2 link_view (build_inter_domain_links S) (at_links (build_abstract_topology S))"
    by (simp add: build_abstract_topology_def build_inter_domain_links_def list.rel_map list.rel_refl_strong
        link_view_def abstract_link_of_def split_def)
qed

end
