(* ===== verification/Structural_Checker.thy ===== *)
theory Structural_Checker
  imports Abstract_Topology
begin

text \<open>
  The structural checker of planner output (\<open>src/src/orion/llm/structural_checker.py\<close>): schema, tier
  rules (C8), aggregate resources (C4), boundary flags, reachability and direct-link bandwidth (C5)
  on the abstract topology. A violation keeps its constraint and VNF; its detail text is formatting.
  The iteration order of Python's sets is unspecified and taken as the order of the lists.

  Theorems: acceptance is exactly the conjunction of the constraints; what that conjunction leaves
  out.
\<close>

section \<open>Plans\<close>

record plan_assignment =
  pa_vnf :: string
  pa_domain :: "string option"
  pa_tier :: "string option"
  pa_cpu :: real
  pa_ram :: real

record flow_requirement =
  fr_source :: string
  fr_target :: string
  fr_bw :: real
  fr_crosses :: bool

record abstract_plan_dict =
  ap_assignments :: "plan_assignment list"
  ap_flows :: "flow_requirement list"

record vnf_spec =
  sp_id :: string
  sp_permitted :: "string list"

datatype constraint = SCHEMA | C4 | C5 | C8

type_synonym violation = "constraint \<times> string option"

record check_result =
  cr_valid :: bool
  cr_violations :: "violation list"

section \<open>Lookup tables\<close>

text \<open>A dictionary comprehension: the last entry of a key wins.\<close>

definition table :: "('a \<Rightarrow> 'k) \<Rightarrow> 'a list \<Rightarrow> 'k \<Rightarrow> 'a option" where
  "table key xs = map_of (rev (map (\<lambda>x. (key x, x)) xs))"

definition domain_table :: "abstract_topology \<Rightarrow> string \<Rightarrow> abstract_domain option" where
  "domain_table T = table ad_id (at_domains T)"

definition assigned_domain :: "abstract_plan_dict \<Rightarrow> string \<Rightarrow> string option" where
  "assigned_domain p v = Option.bind (table pa_vnf (ap_assignments p) v) pa_domain"

definition domain_of_assignment :: "abstract_topology \<Rightarrow> plan_assignment \<Rightarrow> abstract_domain option" where
  "domain_of_assignment T a = Option.bind (pa_domain a) (domain_table T)"

section \<open>Schema and tiers\<close>

definition schema_violations :: "abstract_plan_dict \<Rightarrow> vnf_spec list \<Rightarrow> abstract_topology \<Rightarrow> violation list" where
  "schema_violations p specs T =
     map (\<lambda>s. (SCHEMA, Some s)) (remdups (filter (\<lambda>s. s \<notin> set (map pa_vnf (ap_assignments p))) (map sp_id specs)))
     @ map (\<lambda>s. (SCHEMA, Some s)) (remdups (filter (\<lambda>s. s \<notin> set (map sp_id specs)) (map pa_vnf (ap_assignments p))))
     @ map (\<lambda>a. (SCHEMA, Some (pa_vnf a))) (filter (\<lambda>a. domain_of_assignment T a = None) (ap_assignments p))"

definition stated_tier :: "plan_assignment \<Rightarrow> string option" where
  "stated_tier a = (if pa_tier a = Some [] then None else pa_tier a)"

definition tier_violations :: "vnf_spec list \<Rightarrow> abstract_topology \<Rightarrow> plan_assignment \<Rightarrow> violation list" where
  "tier_violations specs T a =
     (case (table sp_id specs (pa_vnf a), domain_of_assignment T a) of
        (Some spec, Some d) \<Rightarrow>
          (case stated_tier a of
             Some t \<Rightarrow>
               (if t \<in> set (sp_permitted spec) then [] else [(C8, Some (pa_vnf a))])
               @ (if t \<in> set (ad_tiers d) then [] else [(C8, Some (pa_vnf a))])
           | None \<Rightarrow>
               if list_ex (\<lambda>t. t \<in> set (ad_tiers d)) (sp_permitted spec) then [] else [(C8, Some (pa_vnf a))])
      | _ \<Rightarrow> [])"

section \<open>Resources\<close>

definition known_assignments :: "abstract_plan_dict \<Rightarrow> abstract_topology \<Rightarrow> (string \<times> plan_assignment) list" where
  "known_assignments p T =
     List.map_filter (\<lambda>a. case pa_domain a of
         None \<Rightarrow> None
       | Some m \<Rightarrow> if domain_table T m = None then None else Some (m, a)) (ap_assignments p)"

definition domain_used :: "(plan_assignment \<Rightarrow> real) \<Rightarrow> abstract_plan_dict \<Rightarrow> abstract_topology \<Rightarrow> (string, real) dict" where
  "domain_used f p T = fold (\<lambda>(m, a). add_at m (f a)) (known_assignments p T) []"

definition overcommits :: "(abstract_domain \<Rightarrow> real) \<Rightarrow> abstract_topology \<Rightarrow> (string, real) dict \<Rightarrow> violation list" where
  "overcommits avail T used =
     List.map_filter (\<lambda>(m, x). case domain_table T m of
         None \<Rightarrow> None
       | Some d \<Rightarrow> if x > avail d then Some (C4, None) else None) used"

section \<open>Flows\<close>

definition usable_links :: "abstract_topology \<Rightarrow> abstract_link list" where
  "usable_links T = filter (\<lambda>l. al_source l \<noteq> [] \<and> al_target l \<noteq> []) (at_links T)"

definition link_table :: "abstract_topology \<Rightarrow> string \<times> string \<Rightarrow> abstract_link option" where
  "link_table T = table (\<lambda>l. (al_source l, al_target l)) (usable_links T)"

text \<open>\<open>domain_adj\<close>: both ends of every link, whatever its direction.\<close>

definition domain_adj :: "abstract_topology \<Rightarrow> (string \<times> string) list" where
  "domain_adj T = concat (map (\<lambda>l. [(al_source l, al_target l), (al_target l, al_source l)]) (usable_links T))"

definition next_domains :: "(string \<times> string) list \<Rightarrow> string \<Rightarrow> string list" where
  "next_domains E x = remdups (map snd (filter (\<lambda>e. fst e = x) E))"

lemma next_domains_iff: "y \<in> set (next_domains E x) \<longleftrightarrow> (x, y) \<in> set E"
  by (force simp: next_domains_def)

function bfs_reaches :: "(string \<times> string) list \<Rightarrow> string \<Rightarrow> string list \<Rightarrow> string list \<Rightarrow> bool" where
  "bfs_reaches E dst visited [] = False"
| "bfs_reaches E dst visited (c # queue) =
     (let ns = next_domains E c; fresh = filter (\<lambda>n. n \<notin> set visited) ns
      in if dst \<in> set ns then True else bfs_reaches E dst (visited @ fresh) (queue @ fresh))"
  by pat_completeness auto

termination
proof (relation "measures [\<lambda>(E, dst, visited, queue). card (set (map snd E) - set visited), \<lambda>(E, dst, visited, queue). length queue]")
  fix E :: "(string \<times> string) list" and dst visited c queue ns fresh
  assume ns: "ns = next_domains E c" and fresh: "fresh = filter (\<lambda>n. n \<notin> set visited) ns"
  show "((E, dst, visited @ fresh, queue @ fresh), E, dst, visited, c # queue)
    \<in> measures [\<lambda>(E, dst, visited, queue). card (set (map snd E) - set visited), \<lambda>(E, dst, visited, queue). length queue]"
  proof (cases "fresh = []")
    case False
    then obtain y where "y \<in> set fresh" by (meson list.set_sel(1))
    then have y: "y \<in> set (map snd E) - set visited" "y \<in> set fresh"
      by (force simp: fresh ns next_domains_iff)+
    then have "card (set (map snd E) - set (visited @ fresh)) < card (set (map snd E) - set visited)"
      by (intro psubset_card_mono) auto
    then show ?thesis by simp
  qed simp
qed simp

declare bfs_reaches.simps [simp del]

definition domains_reachable :: "abstract_topology \<Rightarrow> string \<Rightarrow> string \<Rightarrow> bool" where
  "domains_reachable T src dst \<longleftrightarrow> src = dst \<or> bfs_reaches (domain_adj T) dst [src] [src]"

definition flow_step :: "abstract_plan_dict \<Rightarrow> abstract_topology \<Rightarrow> flow_requirement
    \<Rightarrow> violation list \<times> (string \<times> string, real) dict \<Rightarrow> violation list \<times> (string \<times> string, real) dict" where
  "flow_step p T f = (\<lambda>(vs, demand).
     case (assigned_domain p (fr_source f), assigned_domain p (fr_target f)) of
       (Some s, Some t) \<Rightarrow>
         let flags = (if (s \<noteq> t) = fr_crosses f then [] else [(SCHEMA, Some (fr_source f))])
         in if s = t then (vs @ flags, demand)
            else if \<not> domains_reachable T s t then (vs @ flags @ [(C5, None)], demand)
            else (vs @ flags, if link_table T (s, t) \<noteq> None then add_at (s, t) (fr_bw f) demand else demand)
     | _ \<Rightarrow> (vs, demand))"

definition link_overcommits :: "abstract_topology \<Rightarrow> (string \<times> string, real) dict \<Rightarrow> violation list" where
  "link_overcommits T demand =
     List.map_filter (\<lambda>(pair, x). case link_table T pair of
         None \<Rightarrow> None
       | Some l \<Rightarrow> if x > al_bw l then Some (C5, None) else None) demand"

definition check_plan :: "abstract_plan_dict \<Rightarrow> vnf_spec list \<Rightarrow> abstract_topology \<Rightarrow> check_result" where
  "check_plan p specs T =
     (let v1 = schema_violations p specs T;
          v2 = concat (map (tier_violations specs T) (ap_assignments p));
          v3 = overcommits ad_cpu T (domain_used pa_cpu p T) @ overcommits ad_ram T (domain_used pa_ram p T);
          (v4, demand) = fold (flow_step p T) (ap_flows p) ([], []);
          v5 = link_overcommits T demand;
          vs = v1 @ v2 @ v3 @ v4 @ v5
      in \<lparr>cr_valid = (vs = []), cr_violations = vs\<rparr>)"

section \<open>Search\<close>

lemma bfs_reaches_iff:
  assumes "set queue \<subseteq> set visited" and "dst \<notin> set visited"
    and "\<forall>x \<in> set visited - set queue. \<forall>y. (x, y) \<in> set E \<longrightarrow> y \<in> set visited"
  shows "bfs_reaches E dst visited queue \<longleftrightarrow> (\<exists>x \<in> set visited. (x, dst) \<in> (set E)\<^sup>*)"
  using assms
proof (induction E dst visited queue rule: bfs_reaches.induct)
  case (1 E dst visited)
  have "y \<in> set visited" if "(x, y) \<in> (set E)\<^sup>*" "x \<in> set visited" for x y
    using that by (induction rule: rtrancl_induct) (use 1 in auto)
  then show ?case using 1 by (auto simp: bfs_reaches.simps)
next
  case (2 E dst visited c queue)
  let ?ns = "next_domains E c"
  let ?fresh = "filter (\<lambda>n. n \<notin> set visited) ?ns"
  have c: "c \<in> set visited" using "2.prems"(1) by simp
  show ?case
  proof (cases "dst \<in> set ?ns")
    case True
    then have "(c, dst) \<in> (set E)\<^sup>*" by (auto simp: next_domains_iff)
    with True c show ?thesis by (auto simp: bfs_reaches.simps Let_def)
  next
    case False
    have closed: "y \<in> set (visited @ ?fresh)" if "x \<in> set (visited @ ?fresh) - set (queue @ ?fresh)" "(x, y) \<in> set E" for x y
    proof (cases "x = c")
      case True
      then show ?thesis using \<open>(x, y) \<in> set E\<close> by (simp add: next_domains_iff)
    next
      case False
      then have "x \<in> set visited - set (c # queue)" using that(1) by auto
      then have "y \<in> set visited" using "2.prems"(3) that(2) by blast
      then show ?thesis by simp
    qed
    have IH: "bfs_reaches E dst (visited @ ?fresh) (queue @ ?fresh)
        \<longleftrightarrow> (\<exists>x \<in> set (visited @ ?fresh). (x, dst) \<in> (set E)\<^sup>*)"
    proof (rule "2.IH"[OF refl refl False])
      show "set (queue @ ?fresh) \<subseteq> set (visited @ ?fresh)" using "2.prems"(1) by auto
      show "dst \<notin> set (visited @ ?fresh)" using "2.prems"(2) False by simp
      show "\<forall>x \<in> set (visited @ ?fresh) - set (queue @ ?fresh). \<forall>y. (x, y) \<in> set E \<longrightarrow> y \<in> set (visited @ ?fresh)"
        using closed by blast
    qed
    have "(\<exists>x \<in> set (visited @ ?fresh). (x, dst) \<in> (set E)\<^sup>*) \<longleftrightarrow> (\<exists>x \<in> set visited. (x, dst) \<in> (set E)\<^sup>*)"
      using c by (auto simp: next_domains_iff intro: converse_rtrancl_into_rtrancl)
    with IH False show ?thesis by (simp add: bfs_reaches.simps Let_def)
  qed
qed

lemma domains_reachable_iff: "domains_reachable T src dst \<longleftrightarrow> (src, dst) \<in> (set (domain_adj T))\<^sup>*"
  using bfs_reaches_iff[of "[src]" "[src]" dst "domain_adj T"] by (auto simp: domains_reachable_def)

section \<open>What acceptance means\<close>

lemma get_default_tally:
  "get_default (fold (\<lambda>(m, x). add_at m (f x :: real)) ps d) k 0
    = get_default d k 0 + sum_list (map (\<lambda>(m, x). f x) (filter (\<lambda>(m, x). m = k) ps))"
  by (induction ps arbitrary: d) auto

lemma keys_tally: "set (keys (fold (\<lambda>(m, x). add_at m (f x :: real)) ps d)) = set (keys d) \<union> set (map fst ps)"
  by (induction ps arbitrary: d) (auto simp: add_at_def keys_update simp flip: set_map)

lemma distinct_tally: "distinct (keys d) \<Longrightarrow> distinct (keys (fold (\<lambda>(m, x). add_at m (f x :: real)) ps d))"
  by (induction ps arbitrary: d) (auto simp: add_at_def distinct_keys_update)

lemma map_filter_Nil: "List.map_filter f xs = [] \<longleftrightarrow> (\<forall>x \<in> set xs. f x = None)"
  by (induction xs) (auto simp: List.map_filter_simps split: option.splits)

text \<open>The demand on each key of a tally stays within the limit of that key.\<close>

lemma tally_within:
  assumes "d = fold (\<lambda>(m, x). add_at m (f x :: real)) ps []"
  shows "(\<forall>m x. (m, x) \<in> set d \<longrightarrow> P m x) \<longleftrightarrow>
    (\<forall>m \<in> set (map fst ps). P m (sum_list (map (\<lambda>(k, x). f x) (filter (\<lambda>(k, x). k = m) ps))))"
proof -
  have dk: "distinct (keys d)" using distinct_tally[of "[]" f ps] by (simp add: assms)
  have v: "get_default d m 0 = sum_list (map (\<lambda>(k, x). f x) (filter (\<lambda>(k, x). k = m) ps))" for m
    unfolding assms get_default_tally by (simp add: get_default_def)
  have eq: "(m, x) \<in> set d \<longleftrightarrow> m \<in> set (map fst ps) \<and> x = get_default d m 0" for m x
  proof -
    have "m \<in> set (keys d) \<longleftrightarrow> m \<in> set (map fst ps)" using keys_tally[of f ps "[]"] by (simp add: assms)
    moreover have "(m, x) \<in> set d \<longleftrightarrow> map_of d m = Some x" using dk by simp
    ultimately show ?thesis by (auto simp: get_default_def key_iff split: option.splits)
  qed
  show ?thesis unfolding eq v by auto
qed

text \<open>The constraints, one by one.\<close>

definition schema_ok :: "abstract_plan_dict \<Rightarrow> vnf_spec list \<Rightarrow> abstract_topology \<Rightarrow> bool" where
  "schema_ok p specs T \<longleftrightarrow> set (map pa_vnf (ap_assignments p)) = set (map sp_id specs)
     \<and> (\<forall>a \<in> set (ap_assignments p). domain_of_assignment T a \<noteq> None)"

definition tiers_ok :: "vnf_spec list \<Rightarrow> abstract_topology \<Rightarrow> plan_assignment \<Rightarrow> bool" where
  "tiers_ok specs T a \<longleftrightarrow>
     (\<forall>spec d. table sp_id specs (pa_vnf a) = Some spec \<longrightarrow> domain_of_assignment T a = Some d \<longrightarrow>
        (case stated_tier a of
           Some t \<Rightarrow> t \<in> set (sp_permitted spec) \<and> t \<in> set (ad_tiers d)
         | None \<Rightarrow> set (sp_permitted spec) \<inter> set (ad_tiers d) \<noteq> {}))"

definition load_of :: "(plan_assignment \<Rightarrow> real) \<Rightarrow> abstract_plan_dict \<Rightarrow> string \<Rightarrow> real" where
  "load_of f p m = sum_list (map f (filter (\<lambda>a. pa_domain a = Some m) (ap_assignments p)))"

definition resources_ok :: "abstract_plan_dict \<Rightarrow> abstract_topology \<Rightarrow> bool" where
  "resources_ok p T \<longleftrightarrow>
     (\<forall>a \<in> set (ap_assignments p). \<forall>m d. pa_domain a = Some m \<longrightarrow> domain_table T m = Some d \<longrightarrow>
        load_of pa_cpu p m \<le> ad_cpu d \<and> load_of pa_ram p m \<le> ad_ram d)"

definition flow_ends :: "abstract_plan_dict \<Rightarrow> flow_requirement \<Rightarrow> (string \<times> string) option" where
  "flow_ends p f = (case (assigned_domain p (fr_source f), assigned_domain p (fr_target f)) of
     (Some s, Some t) \<Rightarrow> Some (s, t) | _ \<Rightarrow> None)"

definition flow_ok :: "abstract_plan_dict \<Rightarrow> abstract_topology \<Rightarrow> flow_requirement \<Rightarrow> bool" where
  "flow_ok p T f \<longleftrightarrow>
     (\<forall>s t. flow_ends p f = Some (s, t) \<longrightarrow> fr_crosses f = (s \<noteq> t) \<and> (s, t) \<in> (set (domain_adj T))\<^sup>*)"

definition link_load :: "abstract_plan_dict \<Rightarrow> string \<times> string \<Rightarrow> real" where
  "link_load p e = sum_list (map fr_bw (filter (\<lambda>f. flow_ends p f = Some e) (ap_flows p)))"

definition bandwidth_ok :: "abstract_plan_dict \<Rightarrow> abstract_topology \<Rightarrow> bool" where
  "bandwidth_ok p T \<longleftrightarrow>
     (\<forall>f \<in> set (ap_flows p). \<forall>s t l. flow_ends p f = Some (s, t) \<longrightarrow> s \<noteq> t \<longrightarrow> link_table T (s, t) = Some l \<longrightarrow>
        link_load p (s, t) \<le> al_bw l)"

lemma schema_violations_Nil: "schema_violations p specs T = [] \<longleftrightarrow> schema_ok p specs T"
  by (fastforce simp: schema_violations_def schema_ok_def filter_empty_conv)

lemma tier_violations_Nil: "tier_violations specs T a = [] \<longleftrightarrow> tiers_ok specs T a"
  by (auto simp: tier_violations_def tiers_ok_def list_ex_iff split: option.splits)

lemma known_used:
  "set (map fst (known_assignments p T)) = {m. domain_table T m \<noteq> None \<and> (\<exists>a \<in> set (ap_assignments p). pa_domain a = Some m)}"
  "domain_table T m \<noteq> None \<Longrightarrow>
   sum_list (map (\<lambda>(k, a). f a) (filter (\<lambda>(k, a). k = m) (known_assignments p T))) = load_of f p m"
proof -
  show "set (map fst (known_assignments p T)) = {m. domain_table T m \<noteq> None \<and> (\<exists>a \<in> set (ap_assignments p). pa_domain a = Some m)}"
    by (force simp: known_assignments_def set_map_filter split: option.splits if_splits)
  assume m: "domain_table T m \<noteq> None"
  have "map (\<lambda>(k, a). f a) (filter (\<lambda>(k, a). k = m) (List.map_filter (\<lambda>a. case pa_domain a of
         None \<Rightarrow> None | Some m \<Rightarrow> if domain_table T m = None then None else Some (m, a)) as))
      = map f (filter (\<lambda>a. pa_domain a = Some m) as)" for as
    using m by (induction as) (auto simp: List.map_filter_simps split: option.splits)
  then show "sum_list (map (\<lambda>(k, a). f a) (filter (\<lambda>(k, a). k = m) (known_assignments p T))) = load_of f p m"
    by (simp add: known_assignments_def load_of_def)
qed

lemma overcommits_Nil:
  "overcommits avail T (domain_used f p T) = [] \<longleftrightarrow>
   (\<forall>a \<in> set (ap_assignments p). \<forall>m d. pa_domain a = Some m \<longrightarrow> domain_table T m = Some d \<longrightarrow> load_of f p m \<le> avail d)"
proof -
  have "overcommits avail T (domain_used f p T) = [] \<longleftrightarrow>
      (\<forall>m x. (m, x) \<in> set (domain_used f p T) \<longrightarrow> (\<forall>d. domain_table T m = Some d \<longrightarrow> x \<le> avail d))"
    unfolding overcommits_def map_filter_Nil by (fastforce split: option.splits if_splits)
  also have "\<dots> \<longleftrightarrow> (\<forall>m \<in> set (map fst (known_assignments p T)). \<forall>d. domain_table T m = Some d \<longrightarrow> load_of f p m \<le> avail d)"
    unfolding tally_within[OF domain_used_def] using known_used(2)[of T _ f p] by (metis option.discI)
  finally show ?thesis unfolding known_used(1) by auto
qed

definition flow_violations :: "abstract_plan_dict \<Rightarrow> abstract_topology \<Rightarrow> flow_requirement \<Rightarrow> violation list" where
  "flow_violations p T f = (case flow_ends p f of
     None \<Rightarrow> []
   | Some (s, t) \<Rightarrow> (if (s \<noteq> t) = fr_crosses f then [] else [(SCHEMA, Some (fr_source f))])
       @ (if s \<noteq> t \<and> \<not> domains_reachable T s t then [(C5, None)] else []))"

definition charged_link :: "abstract_plan_dict \<Rightarrow> abstract_topology \<Rightarrow> flow_requirement \<Rightarrow> ((string \<times> string) \<times> real) option" where
  "charged_link p T f = (case flow_ends p f of
     None \<Rightarrow> None
   | Some (s, t) \<Rightarrow> if s \<noteq> t \<and> domains_reachable T s t \<and> link_table T (s, t) \<noteq> None then Some ((s, t), fr_bw f) else None)"

lemma flow_step_eq:
  "flow_step p T f (vs, demand) = (vs @ flow_violations p T f,
     case charged_link p T f of None \<Rightarrow> demand | Some (e, bw) \<Rightarrow> add_at e bw demand)"
  by (auto simp: flow_step_def flow_violations_def charged_link_def flow_ends_def Let_def split: option.splits)

lemma flows_fold:
  "fold (flow_step p T) fs (vs, demand) = (vs @ concat (map (flow_violations p T) fs),
     fold (\<lambda>(e, bw). add_at e bw) (List.map_filter (charged_link p T) fs) demand)"
  by (induction fs arbitrary: vs demand) (auto simp: flow_step_eq List.map_filter_simps split: option.splits)

lemma flow_violations_Nil: "flow_violations p T f = [] \<longleftrightarrow> flow_ok p T f"
  by (auto simp: flow_violations_def flow_ok_def domains_reachable_iff split: option.splits)

lemma link_overcommits_Nil:
  assumes "\<forall>f \<in> set (ap_flows p). flow_ok p T f"
    and d: "d = fold (\<lambda>(e, bw). add_at e bw) (List.map_filter (charged_link p T) (ap_flows p)) []"
  shows "link_overcommits T d = [] \<longleftrightarrow> bandwidth_ok p T"
proof -
  let ?ps = "List.map_filter (charged_link p T) (ap_flows p)"
  have charged: "charged_link p T f = Some (e, bw) \<longleftrightarrow>
      flow_ends p f = Some e \<and> fst e \<noteq> snd e \<and> link_table T e \<noteq> None \<and> bw = fr_bw f" if "flow_ok p T f" for f e bw
    using that by (auto simp: charged_link_def flow_ok_def domains_reachable_iff split: option.splits if_splits)
  have load: "sum_list (map (\<lambda>(k, x). x) (filter (\<lambda>(k, x). k = e) (List.map_filter (charged_link p T) fs)))
      = sum_list (map fr_bw (filter (\<lambda>f. flow_ends p f = Some e) fs))"
    if "\<forall>f \<in> set fs. flow_ok p T f" "fst e \<noteq> snd e" "link_table T e \<noteq> None" for e fs
    using that(1)
  proof (induction fs)
    case (Cons f fs)
    have f: "flow_ok p T f" using Cons.prems by simp
    show ?case
    proof (cases "charged_link p T f")
      case None
      then have "flow_ends p f \<noteq> Some e" using charged[OF f, of e "fr_bw f"] that(2,3) by auto
      then show ?thesis using Cons None by (simp add: List.map_filter_simps)
    next
      case (Some c)
      then obtain e' bw where c: "c = (e', bw)" "flow_ends p f = Some e'" "bw = fr_bw f" using charged[OF f] by (cases c) auto
      then show ?thesis using Cons Some by (simp add: List.map_filter_simps)
    qed
  qed (simp add: List.map_filter_simps)
  have keys: "e \<in> set (map fst ?ps) \<longleftrightarrow>
      (\<exists>f \<in> set (ap_flows p). flow_ends p f = Some e) \<and> fst e \<noteq> snd e \<and> link_table T e \<noteq> None" for e
  proof -
    have "e \<in> set (map fst ?ps) \<longleftrightarrow> (\<exists>f \<in> set (ap_flows p). \<exists>bw. charged_link p T f = Some (e, bw))"
      by (force simp: set_map_filter image_iff simp del: split_paired_Ex)
    also have "\<dots> \<longleftrightarrow> (\<exists>f \<in> set (ap_flows p). flow_ends p f = Some e \<and> fst e \<noteq> snd e \<and> link_table T e \<noteq> None)"
      by (rule bex_cong) (simp_all add: charged assms(1) del: split_paired_Ex)
    finally show ?thesis by blast
  qed
  have "link_overcommits T d = [] \<longleftrightarrow> (\<forall>e x. (e, x) \<in> set d \<longrightarrow> (\<forall>l. link_table T e = Some l \<longrightarrow> x \<le> al_bw l))"
    unfolding link_overcommits_def map_filter_Nil by (fastforce split: option.splits if_splits)
  also have "\<dots> \<longleftrightarrow> (\<forall>e \<in> set (map fst ?ps). \<forall>l. link_table T e = Some l \<longrightarrow>
      sum_list (map (\<lambda>(k, x). x) (filter (\<lambda>(k, x). k = e) ?ps)) \<le> al_bw l)"
    by (rule tally_within[of d "\<lambda>x. x"]) (rule d)
  also have "\<dots> \<longleftrightarrow> (\<forall>e \<in> set (map fst ?ps). \<forall>l. link_table T e = Some l \<longrightarrow> link_load p e \<le> al_bw l)"
    using load[OF assms(1)] keys unfolding link_load_def by (intro ball_cong refl) metis
  also have "\<dots> \<longleftrightarrow> bandwidth_ok p T"
    unfolding bandwidth_ok_def Ball_def keys by fastforce
  finally show ?thesis .
qed

lemma check_plan_iff:
  "cr_valid (check_plan p specs T) \<longleftrightarrow>
     schema_ok p specs T \<and> (\<forall>a \<in> set (ap_assignments p). tiers_ok specs T a) \<and> resources_ok p T
     \<and> (\<forall>f \<in> set (ap_flows p). flow_ok p T f) \<and> bandwidth_ok p T"
proof -
  have c4: "overcommits ad_cpu T (domain_used pa_cpu p T) = [] \<and> overcommits ad_ram T (domain_used pa_ram p T) = [] \<longleftrightarrow> resources_ok p T"
    unfolding overcommits_Nil resources_ok_def by blast
  have c8: "concat (map (tier_violations specs T) (ap_assignments p)) = [] \<longleftrightarrow> (\<forall>a \<in> set (ap_assignments p). tiers_ok specs T a)"
    by (simp add: tier_violations_Nil)
  have c5: "concat (map (flow_violations p T) (ap_flows p)) = [] \<longleftrightarrow> (\<forall>f \<in> set (ap_flows p). flow_ok p T f)"
    by (simp add: flow_violations_Nil)
  show ?thesis
    unfolding check_plan_def Let_def flows_fold prod.case check_result.simps append_Nil append_is_Nil_conv
      schema_violations_Nil c8 c5 c4[symmetric]
    using link_overcommits_Nil[of p T, OF _ refl] by blast
qed

text \<open>
  C17: the checker accepts exactly the plans that name the VNFs of the request, put each on a known
  domain that holds a tier the VNF permits (the stated one when it states one), stay within the
  residuals of every domain used, flag exactly the flows that cross domains, cross only between
  joined domains and stay within the bandwidth of every direct link they use.
\<close>

theorem check_plan_correct:
  "cr_valid (check_plan p specs T) \<longleftrightarrow>
     schema_ok p specs T \<and> (\<forall>a \<in> set (ap_assignments p). tiers_ok specs T a) \<and> resources_ok p T
     \<and> (\<forall>f \<in> set (ap_flows p). flow_ok p T f) \<and> bandwidth_ok p T"
  by (rule check_plan_iff)

text \<open>A plan of one VNF, the domain and demand it states.\<close>

definition one_vnf_plan :: "string list \<Rightarrow> real \<Rightarrow> abstract_plan_dict" where
  "one_vnf_plan ms demand =
     \<lparr>ap_assignments = map (\<lambda>m. \<lparr>pa_vnf = ''v'', pa_domain = Some m, pa_tier = None, pa_cpu = demand, pa_ram = demand\<rparr>) ms,
      ap_flows = []\<rparr>"

text \<open>
  What acceptance leaves out. On any topology whose domains are told apart, a plan that puts one
  VNF on every listed domain at once is accepted when each holds a permitted tier, and the demands
  it is checked with are the ones the plan states, which nothing compares with the request.
\<close>

theorem checker_blind_spots:
  assumes "distinct (map ad_id (at_domains T))" and "ms \<noteq> []"
    and "\<forall>m \<in> set ms. \<exists>d \<in> set (at_domains T). ad_id d = m \<and> tier \<in> set (ad_tiers d) \<and> 0 \<le> ad_cpu d \<and> 0 \<le> ad_ram d"
  shows "cr_valid (check_plan (one_vnf_plan ms 0) [\<lparr>sp_id = ''v'', sp_permitted = [tier]\<rparr>] T)"
proof -
  let ?p = "one_vnf_plan ms 0" and ?specs = "[\<lparr>sp_id = ''v'', sp_permitted = [tier]\<rparr>]"
  have dt: "domain_table T (ad_id d) = Some d" if "d \<in> set (at_domains T)" for d
    using assms(1) that by (auto simp: domain_table_def table_def rev_map[symmetric] comp_def intro!: map_of_is_SomeI)
  have doms: "\<exists>d. domain_table T m = Some d \<and> tier \<in> set (ad_tiers d) \<and> 0 \<le> ad_cpu d \<and> 0 \<le> ad_ram d" if "m \<in> set ms" for m
    using bspec[OF assms(3) that] dt by metis
  have zero: "load_of f ?p m = 0" if "f = pa_cpu \<or> f = pa_ram" for f m
    using that by (auto simp: load_of_def one_vnf_plan_def filter_map comp_def intro!: sum_list_0)
  have "domain_table T m \<noteq> None" if "m \<in> set ms" for m using doms[OF that] by auto
  then have "schema_ok ?p ?specs T"
    using assms(2) by (auto simp: schema_ok_def one_vnf_plan_def domain_of_assignment_def comp_def image_constant_conv)
  moreover have "tiers_ok ?specs T a" if "a \<in> set (ap_assignments ?p)" for a
    using that doms by (auto simp: one_vnf_plan_def tiers_ok_def domain_of_assignment_def stated_tier_def table_def) (metis option.inject)
  moreover have "resources_ok ?p T"
    unfolding resources_ok_def zero[of pa_cpu, simplified] zero[of pa_ram, simplified]
    using doms by (auto simp: one_vnf_plan_def) (metis option.inject)+
  ultimately show ?thesis
    unfolding check_plan_iff by (simp add: one_vnf_plan_def bandwidth_ok_def)
qed

definition ex_domain :: "string \<Rightarrow> abstract_domain" where
  "ex_domain m = \<lparr>ad_id = m, ad_label = ''Edge'', ad_tiers = [''edge''], ad_cpu = 4, ad_ram = 4, ad_cpu_capacity = 8,
     ad_ram_capacity = 8, ad_tier_cpu = [], ad_tier_ram = [], ad_tier_cpu_capacity = [], ad_tier_ram_capacity = [],
     ad_largest_free = []\<rparr>"

definition ex_topology :: abstract_topology where
  "ex_topology = \<lparr>at_domains = [ex_domain ''d0'', ex_domain ''d1''], at_links = []\<rparr>"

theorem checker_blind_spots_witness:
  "cr_valid (check_plan (one_vnf_plan [''d0'', ''d1''] 0) [\<lparr>sp_id = ''v'', sp_permitted = [''edge'']\<rparr>] ex_topology)"
  by (rule checker_blind_spots) (simp_all add: ex_topology_def ex_domain_def)

text \<open>The checker on a plan that puts the one VNF of a request on a domain with room for it.\<close>

theorem check_plan_correct_witness:
  "cr_valid (check_plan (one_vnf_plan [''d0''] 3) [\<lparr>sp_id = ''v'', sp_permitted = [''edge'']\<rparr>] ex_topology)"
  unfolding check_plan_correct
  by (simp add: one_vnf_plan_def ex_topology_def ex_domain_def bandwidth_ok_def schema_ok_def tiers_ok_def resources_ok_def
      domain_of_assignment_def stated_tier_def table_def domain_table_def load_of_def)

end
