(* ===== verification/Agent_B.thy ===== *)
theory Agent_B
  imports Structural_Checker
begin

text \<open>
  The abstract plan proposer (\<open>src/src/orion/llm/agent_b.py\<close>): the per-request output contract handed to
  the language model (\<open>build_pinned_plan_schema\<close>, \<open>whole_chain_hosts\<close>), the fields derived from its answer
  (\<open>expand_host_domain\<close>, \<open>fill_derived_fields\<close>, \<open>recompute_*\<close>) and the generate, check and retry loop.

  The model is code outside the repository: \<open>llm n f\<close> is its answer at attempt \<open>n\<close> when the prompt ends
  with the feedback \<open>f\<close>, the rest of the prompt being fixed within a call. A JSON object keeps the keys
  the code reads; a key that is missing or null is \<open>None\<close>. Prompt texts and logging are not modelled.

  Theorems: what an answer that respects the contract can still violate, and the answers that cannot
  be refused.
\<close>

section \<open>The request as the proposer reads it\<close>

record vnf_entry = vnf_spec +
  ve_cpu :: real
  ve_ram :: real

record flow_entry =
  fe_source :: string
  fe_target :: string
  fe_bw :: real

record slice_dict =
  sd_id :: string
  sd_vnfs :: "vnf_entry list"
  sd_flows :: "flow_entry list"

definition specs_of :: "slice_dict \<Rightarrow> vnf_spec list" where
  "specs_of sd = map vnf_spec.truncate (sd_vnfs sd)"

section \<open>The answer of the model\<close>

record raw_assignment =
  ra_vnf :: "string option"
  ra_domain :: "string option"
  ra_tier :: "string option"
  ra_cpu :: "real option"
  ra_ram :: "real option"

record raw_flow =
  rf_source :: "string option"
  rf_target :: "string option"
  rf_bw :: "real option"
  rf_crosses :: "bool option"

record raw_plan =
  rp_id :: "string option"
  rp_host :: "string option"
  rp_assignments :: "raw_assignment list option"
  rp_flows :: "raw_flow list option"

definition empty_plan :: raw_plan where
  "empty_plan = \<lparr>rp_id = None, rp_host = None, rp_assignments = None, rp_flows = None\<rparr>"

definition or_empty :: "'a list option \<Rightarrow> 'a list" where
  "or_empty xs = (case xs of None \<Rightarrow> [] | Some ys \<Rightarrow> ys)"

definition or_else :: "'a option \<Rightarrow> 'a \<Rightarrow> 'a" where
  "or_else x y = (case x of None \<Rightarrow> y | Some z \<Rightarrow> z)"

section \<open>Derived fields\<close>

definition bare_assignment :: "string \<Rightarrow> string \<Rightarrow> raw_assignment" where
  "bare_assignment v m = \<lparr>ra_vnf = Some v, ra_domain = Some m, ra_tier = None, ra_cpu = None, ra_ram = None\<rparr>"

definition expand_host_domain :: "slice_dict \<Rightarrow> raw_plan \<Rightarrow> bool \<times> raw_plan" where
  "expand_host_domain sd p =
     (case rp_host p of
        None \<Rightarrow> (False, p)
      | Some h \<Rightarrow> (True, p\<lparr>rp_host := None,
          rp_assignments := Some (map (\<lambda>v. bare_assignment (sp_id v) h) (sd_vnfs sd))\<rparr>))"

text \<open>\<open>demands.get(a.get("vnf_id"), {}).get(key, 0.0)\<close>.\<close>

definition stated_demand :: "(vnf_entry \<Rightarrow> real) \<Rightarrow> slice_dict \<Rightarrow> string option \<Rightarrow> real" where
  "stated_demand f sd v = (case Option.bind v (table sp_id (sd_vnfs sd)) of None \<Rightarrow> 0 | Some e \<Rightarrow> f e)"

definition fill_assignment :: "slice_dict \<Rightarrow> raw_assignment \<Rightarrow> raw_assignment" where
  "fill_assignment sd a =
     a\<lparr>ra_cpu := Some (or_else (ra_cpu a) (stated_demand ve_cpu sd (ra_vnf a))),
       ra_ram := Some (or_else (ra_ram a) (stated_demand ve_ram sd (ra_vnf a))),
       ra_tier := Some (or_else (ra_tier a) [])\<rparr>"

definition requested_flow :: "flow_entry \<Rightarrow> raw_flow" where
  "requested_flow f = \<lparr>rf_source = Some (fe_source f), rf_target = Some (fe_target f), rf_bw = Some (fe_bw f), rf_crosses = Some False\<rparr>"

definition fill_derived_fields :: "slice_dict \<Rightarrow> raw_plan \<Rightarrow> raw_plan" where
  "fill_derived_fields sd p =
     p\<lparr>rp_id := Some (or_else (rp_id p) (sd_id sd @ ''_plan'')),
       rp_assignments := map_option (map (fill_assignment sd)) (rp_assignments p),
       rp_flows := (if or_empty (rp_flows p) \<noteq> [] then rp_flows p else Some (map requested_flow (sd_flows sd)))\<rparr>"

text \<open>\<open>{a.get("vnf_id"): a.get("domain") for a in assignments}\<close>, then \<open>dom.get(v)\<close>.\<close>

definition raw_domain :: "raw_plan \<Rightarrow> string option \<Rightarrow> string option" where
  "raw_domain p v = Option.bind (table ra_vnf (or_empty (rp_assignments p)) v) ra_domain"

definition mark_boundary :: "raw_plan \<Rightarrow> raw_flow \<Rightarrow> raw_flow" where
  "mark_boundary p f =
     (case (raw_domain p (rf_source f), raw_domain p (rf_target f)) of
        (Some s, Some t) \<Rightarrow> f\<lparr>rf_crosses := Some (s \<noteq> t)\<rparr>
      | _ \<Rightarrow> f)"

definition recompute_flow_boundaries :: "raw_plan \<Rightarrow> raw_plan" where
  "recompute_flow_boundaries p = p\<lparr>rp_flows := map_option (map (mark_boundary p)) (rp_flows p)\<rparr>"

definition permitted_of :: "slice_dict \<Rightarrow> string option \<Rightarrow> string list" where
  "permitted_of sd v = (case Option.bind v (table sp_id (sd_vnfs sd)) of None \<Rightarrow> [] | Some e \<Rightarrow> sp_permitted e)"

definition tiers_at :: "abstract_topology \<Rightarrow> string option \<Rightarrow> string list" where
  "tiers_at T m = (case Option.bind m (domain_table T) of None \<Rightarrow> [] | Some d \<Rightarrow> ad_tiers d)"

text \<open>\<open>sorted(inter)[0]\<close> when the intersection is not empty.\<close>

definition retier :: "slice_dict \<Rightarrow> abstract_topology \<Rightarrow> raw_assignment \<Rightarrow> raw_assignment" where
  "retier sd T a =
     (case least (filter (\<lambda>t. t \<in> set (tiers_at T (ra_domain a))) (permitted_of sd (ra_vnf a))) of
        None \<Rightarrow> a
      | Some t \<Rightarrow> a\<lparr>ra_tier := Some t\<rparr>)"

definition recompute_required_tiers :: "slice_dict \<Rightarrow> abstract_topology \<Rightarrow> raw_plan \<Rightarrow> raw_plan" where
  "recompute_required_tiers sd T p = p\<lparr>rp_assignments := map_option (map (retier sd T)) (rp_assignments p)\<rparr>"

section \<open>The plan the checker reads\<close>

text \<open>
  \<open>a["vnf_id"]\<close> raises when an assignment has no id; the other keys default. A flow that names no
  source or no target is skipped by the checker.
\<close>

definition read_assignment :: "raw_assignment \<Rightarrow> py_error + plan_assignment" where
  "read_assignment a =
     (case ra_vnf a of
        None \<Rightarrow> Inl KeyError
      | Some v \<Rightarrow> Inr \<lparr>pa_vnf = v, pa_domain = ra_domain a, pa_tier = ra_tier a,
          pa_cpu = or_else (ra_cpu a) 0, pa_ram = or_else (ra_ram a) 0\<rparr>)"

definition read_flow :: "raw_flow \<Rightarrow> flow_requirement option" where
  "read_flow f =
     (case (rf_source f, rf_target f) of
        (Some s, Some t) \<Rightarrow> Some \<lparr>fr_source = s, fr_target = t, fr_bw = or_else (rf_bw f) 0, fr_crosses = or_else (rf_crosses f) False\<rparr>
      | _ \<Rightarrow> None)"

definition read_plan :: "raw_plan \<Rightarrow> py_error + abstract_plan_dict" where
  "read_plan p =
     (case fold_err (\<lambda>a out. map_sum id (\<lambda>x. out @ [x]) (read_assignment a)) (or_empty (rp_assignments p)) [] of
        Inl e \<Rightarrow> Inl e
      | Inr xs \<Rightarrow> Inr \<lparr>ap_assignments = xs, ap_flows = List.map_filter read_flow (or_empty (rp_flows p))\<rparr>)"

definition check_raw :: "slice_dict \<Rightarrow> abstract_topology \<Rightarrow> raw_plan \<Rightarrow> py_error + check_result" where
  "check_raw sd T p = map_sum id (\<lambda>q. check_plan q (specs_of sd) T) (read_plan p)"

section \<open>Whole-chain hosts\<close>

definition overlaps :: "string list \<Rightarrow> string list \<Rightarrow> bool" where
  "overlaps xs ys \<longleftrightarrow> list_ex (\<lambda>x. x \<in> set ys) xs"

definition tier_feasible_domains :: "vnf_entry \<Rightarrow> abstract_topology \<Rightarrow> string list" where
  "tier_feasible_domains v T = map ad_id (filter (\<lambda>d. overlaps (sp_permitted v) (ad_tiers d)) (at_domains T))"

text \<open>Some permitted tier of the domain has one free node that seats the VNF.\<close>

definition seats :: "abstract_domain \<Rightarrow> vnf_entry \<Rightarrow> bool" where
  "seats d v \<longleftrightarrow>
     list_ex (\<lambda>t. t \<in> set (ad_tiers d)
       \<and> fst (get_default (ad_largest_free d) t (0, 0)) \<ge> ve_cpu v
       \<and> snd (get_default (ad_largest_free d) t (0, 0)) \<ge> ve_ram v) (sp_permitted v)"

definition host_slack :: "slice_dict \<Rightarrow> abstract_domain \<Rightarrow> real" where
  "host_slack sd d =
     min (ad_cpu d - sum_list (map ve_cpu (sd_vnfs sd))) (ad_ram d - sum_list (map ve_ram (sd_vnfs sd)))"

definition is_host :: "slice_dict \<Rightarrow> abstract_domain \<Rightarrow> bool" where
  "is_host sd d \<longleftrightarrow> list_all (seats d) (sd_vnfs sd) \<and> host_slack sd d > 0"

text \<open>\<open>HOST_SLACK_BAND\<close>: hosts whose slack is within a fraction of the best one's; 0 keeps every host.\<close>

definition within_band :: "real \<Rightarrow> (real \<times> string) list \<Rightarrow> (real \<times> string) list" where
  "within_band band scored =
     (case scored of
        [] \<Rightarrow> []
      | (best, _) # _ \<Rightarrow> if band > 0 then filter (\<lambda>(s, m). s \<ge> best * band) scored else scored)"

definition whole_chain_hosts :: "real \<Rightarrow> slice_dict \<Rightarrow> abstract_topology \<Rightarrow> string list" where
  "whole_chain_hosts band sd T =
     (if sd_vnfs sd = [] then []
      else map snd (within_band band
        (sort_key (\<lambda>(s, m). (- s, m)) (map (\<lambda>d. (host_slack sd d, ad_id d)) (filter (is_host sd) (at_domains T))))))"

section \<open>The output contract\<close>

record contract_env =
  ce_capacity_mask :: bool
  ce_colocation :: bool
  ce_band :: real

datatype plan_schema =
    HostEnum "string list"
  | PerPosition "(string \<times> string list) list"

definition build_pinned_plan_schema :: "contract_env \<Rightarrow> slice_dict \<Rightarrow> abstract_topology \<Rightarrow> plan_schema option" where
  "build_pinned_plan_schema env sd T =
     (let hosts = (if ce_capacity_mask env \<or> ce_colocation env then whole_chain_hosts (ce_band env) sd T else []);
          assignment_for = (\<lambda>v. let feas = tier_feasible_domains v T in
             if feas = [] then None else Some (sp_id v, if hosts \<noteq> [] then hosts else feas))
      in if ce_colocation env \<and> hosts \<noteq> [] then Some (HostEnum hosts)
         else if list_ex (\<lambda>v. assignment_for v = None) (sd_vnfs sd) then None
         else Some (PerPosition (List.map_filter assignment_for (sd_vnfs sd))))"

text \<open>The grammar the server decodes under: exactly the objects that satisfy the schema.\<close>

definition fits_position :: "string \<times> string list \<Rightarrow> raw_assignment \<Rightarrow> bool" where
  "fits_position = (\<lambda>(v, ms) a. \<exists>m \<in> set ms. a = bare_assignment v m)"

fun conforms :: "plan_schema \<Rightarrow> raw_plan \<Rightarrow> bool" where
  "conforms (HostEnum hs) p \<longleftrightarrow> (\<exists>h \<in> set hs. p = empty_plan\<lparr>rp_host := Some h\<rparr>)"
| "conforms (PerPosition ps) p \<longleftrightarrow>
     (\<exists>xs. p = empty_plan\<lparr>rp_assignments := Some xs\<rparr> \<and> list_all2 fits_position ps xs)"

section \<open>Generate, check, retry\<close>

datatype feedback = NoFeedback | WasCutOff | WasNotJSON | Violated "violation list"

text \<open>A completion: parsed, cut off at the context window, or the exception the backend or the parser raised.\<close>

datatype llm_reply = Reply raw_plan | CutOff | Raised py_error

type_synonym llm = "nat \<Rightarrow> feedback \<Rightarrow> llm_reply"

definition generated :: "slice_dict \<Rightarrow> raw_plan \<Rightarrow> raw_plan" where
  "generated sd p = fill_derived_fields sd (snd (expand_host_domain sd p))"

definition normalised :: "slice_dict \<Rightarrow> abstract_topology \<Rightarrow> raw_plan \<Rightarrow> raw_plan" where
  "normalised sd T p = recompute_required_tiers sd T (recompute_flow_boundaries (generated sd p))"

definition no_plan_result :: check_result where
  "no_plan_result = \<lparr>cr_valid = False, cr_violations = []\<rparr>"

fun attempts :: "llm \<Rightarrow> slice_dict \<Rightarrow> abstract_topology \<Rightarrow> nat \<Rightarrow> nat \<Rightarrow> feedback \<Rightarrow> raw_plan \<Rightarrow> check_result
    \<Rightarrow> py_error + raw_plan \<times> check_result" where
  "attempts llm sd T 0 n fb plan result = Inr (plan, result)"
| "attempts llm sd T (Suc k) n fb plan result =
     (case llm n fb of
        CutOff \<Rightarrow> attempts llm sd T k (Suc n) WasCutOff plan no_plan_result
      | Raised e \<Rightarrow> (if e = ValueError then attempts llm sd T k (Suc n) WasNotJSON plan no_plan_result else Inl e)
      | Reply p \<Rightarrow>
          (let q = normalised sd T p in
           case check_raw sd T q of
             Inl e \<Rightarrow> Inl e
           | Inr r \<Rightarrow> if cr_valid r then Inr (q, r) else attempts llm sd T k (Suc n) (Violated (cr_violations r)) q r))"

definition generate_and_check :: "llm \<Rightarrow> slice_dict \<Rightarrow> abstract_topology \<Rightarrow> nat \<Rightarrow> py_error + raw_plan \<times> check_result" where
  "generate_and_check llm sd T max_retries =
     attempts llm sd T (1 + max_retries) 0 NoFeedback empty_plan no_plan_result"

section \<open>Answers within the contract\<close>

text \<open>What a partition \<open>ms\<close> of the chain means to the checker: one assignment per VNF at its requested
  demands, and the requested flows flagged by the partition itself.\<close>

definition chosen :: "slice_dict \<Rightarrow> string list \<Rightarrow> string \<Rightarrow> string option" where
  "chosen sd ms v = map_option (\<lambda>i. ms ! i) (List.find (\<lambda>i. sp_id (sd_vnfs sd ! i) = v) [0..<length (sd_vnfs sd)])"

definition derived_tier :: "abstract_topology \<Rightarrow> vnf_entry \<Rightarrow> string \<Rightarrow> string" where
  "derived_tier T v m = (case least (filter (\<lambda>t. t \<in> set (tiers_at T (Some m))) (sp_permitted v)) of None \<Rightarrow> [] | Some t \<Rightarrow> t)"

definition crossing :: "slice_dict \<Rightarrow> string list \<Rightarrow> flow_entry \<Rightarrow> bool" where
  "crossing sd ms f =
     (case (chosen sd ms (fe_source f), chosen sd ms (fe_target f)) of (Some s, Some t) \<Rightarrow> s \<noteq> t | _ \<Rightarrow> False)"

definition partition_plan :: "slice_dict \<Rightarrow> abstract_topology \<Rightarrow> string list \<Rightarrow> abstract_plan_dict" where
  "partition_plan sd T ms =
     \<lparr>ap_assignments = map2 (\<lambda>v m. \<lparr>pa_vnf = sp_id v, pa_domain = Some m, pa_tier = Some (derived_tier T v m),
         pa_cpu = ve_cpu v, pa_ram = ve_ram v\<rparr>) (sd_vnfs sd) ms,
      ap_flows = map (\<lambda>f. \<lparr>fr_source = fe_source f, fr_target = fe_target f, fr_bw = fe_bw f, fr_crosses = crossing sd ms f\<rparr>)
        (sd_flows sd)\<rparr>"

definition tier_feasible :: "slice_dict \<Rightarrow> abstract_topology \<Rightarrow> string list \<Rightarrow> bool" where
  "tier_feasible sd T ms \<longleftrightarrow> list_all2 (\<lambda>v m. m \<in> set (tier_feasible_domains v T)) (sd_vnfs sd) ms"

definition well_named :: "slice_dict \<Rightarrow> abstract_topology \<Rightarrow> bool" where
  "well_named sd T \<longleftrightarrow> distinct (map sp_id (sd_vnfs sd)) \<and> distinct (map ad_id (at_domains T))"

lemma table_self: "distinct (map key xs) \<Longrightarrow> x \<in> set xs \<Longrightarrow> table key xs (key x) = Some x"
  by (auto simp: table_def rev_map[symmetric] comp_def intro!: map_of_is_SomeI)

lemma table_in: "table key xs k = Some x \<Longrightarrow> x \<in> set xs \<and> key x = k"
  by (auto simp: table_def dest: map_of_SomeD)

lemma table_None: "table key xs k = None \<longleftrightarrow> k \<notin> key ` set xs"
  by (auto simp: table_def map_of_eq_None_iff image_image)

lemma overlaps_iff: "overlaps xs ys \<longleftrightarrow> set xs \<inter> set ys \<noteq> {}"
  by (auto simp: overlaps_def list_ex_iff)

lemma tier_feasible_iff:
  "well_named sd T \<Longrightarrow> m \<in> set (tier_feasible_domains v T) \<longleftrightarrow>
     (\<exists>d. domain_table T m = Some d \<and> set (sp_permitted v) \<inter> set (ad_tiers d) \<noteq> {})"
  unfolding well_named_def domain_table_def tier_feasible_domains_def
  by (auto simp: overlaps_iff table_self dest: table_in)

lemma set_within_band: "set (within_band band xs) \<subseteq> set xs"
  by (auto simp: within_band_def split: list.splits prod.splits if_splits)

lemma hosts_are_hosts:
  assumes "h \<in> set (whole_chain_hosts band sd T)"
  shows "\<exists>d \<in> set (at_domains T). ad_id d = h \<and> is_host sd d"
proof -
  have "h \<in> snd ` set (map (\<lambda>d. (host_slack sd d, ad_id d)) (filter (is_host sd) (at_domains T)))"
    using assms set_within_band[of band] unfolding whole_chain_hosts_def
    by (cases "sd_vnfs sd = []") (force simp del: map_map filter_map)+
  then show ?thesis by auto
qed

lemma host_tier_feasible:
  assumes "h \<in> set (whole_chain_hosts band sd T)" and "v \<in> set (sd_vnfs sd)"
  shows "h \<in> set (tier_feasible_domains v T)"
proof -
  obtain d where d: "d \<in> set (at_domains T)" "ad_id d = h" "seats d v"
    using hosts_are_hosts[OF assms(1)] assms(2) by (auto simp: is_host_def list_all_iff)
  then show ?thesis by (auto simp: tier_feasible_domains_def overlaps_iff seats_def list_ex_iff)
qed

text \<open>An answer within the contract is a tier-feasible partition and nothing else.\<close>

lemma conforming_partition:
  assumes schema: "build_pinned_plan_schema env sd T = Some sch" and "conforms sch p"
  shows "\<exists>ms. tier_feasible sd T ms
    \<and> generated sd p = fill_derived_fields sd (empty_plan\<lparr>rp_assignments := Some (map2 (\<lambda>v m. bare_assignment (sp_id v) m) (sd_vnfs sd) ms)\<rparr>)"
proof -
  define hosts where "hosts = (if ce_capacity_mask env \<or> ce_colocation env then whole_chain_hosts (ce_band env) sd T else [])"
  define slot where "slot = (\<lambda>v. if tier_feasible_domains v T = [] then None
    else Some (sp_id v, if hosts \<noteq> [] then hosts else tier_feasible_domains v T))"
  have hosts_ok: "h \<in> set (tier_feasible_domains v T)" if "h \<in> set hosts" "v \<in> set (sd_vnfs sd)" for h v
    using that host_tier_feasible by (auto simp: hosts_def split: if_splits)
  have sch: "sch = (if ce_colocation env \<and> hosts \<noteq> [] then HostEnum hosts else PerPosition (List.map_filter slot (sd_vnfs sd)))"
    and full: "ce_colocation env \<and> hosts \<noteq> [] \<or> (\<forall>v \<in> set (sd_vnfs sd). slot v \<noteq> None)"
    using schema unfolding build_pinned_plan_schema_def hosts_def[symmetric] Let_def slot_def
    by (auto simp: list_ex_iff split: if_splits)
  show ?thesis
  proof (cases "ce_colocation env \<and> hosts \<noteq> []")
    case True
    then obtain h where h: "h \<in> set hosts" and p: "p = empty_plan\<lparr>rp_host := Some h\<rparr>"
      using assms(2) by (auto simp: sch)
    have "tier_feasible sd T (replicate (length (sd_vnfs sd)) h)"
      using hosts_ok[OF h] by (auto simp: tier_feasible_def list_all2_conv_all_nth)
    moreover have "map2 (\<lambda>v m. bare_assignment (sp_id v) m) (sd_vnfs sd) (replicate (length (sd_vnfs sd)) h)
        = map (\<lambda>v. bare_assignment (sp_id v) h) (sd_vnfs sd)"
      by (intro nth_equalityI) simp_all
    ultimately show ?thesis
      by (intro exI[of _ "replicate (length (sd_vnfs sd)) h"])
        (simp add: p generated_def expand_host_domain_def empty_plan_def)
  next
    case False
    then obtain xs where p: "p = empty_plan\<lparr>rp_assignments := Some xs\<rparr>"
      and xs: "list_all2 fits_position (List.map_filter slot (sd_vnfs sd)) xs"
      using assms(2) unfolding sch by auto
    have slots: "List.map_filter slot vs = map (\<lambda>v. (sp_id v, if hosts \<noteq> [] then hosts else tier_feasible_domains v T)) vs"
      if "set vs \<subseteq> set (sd_vnfs sd)" for vs
      using that full False by (induction vs) (auto simp: List.map_filter_simps slot_def split: if_splits)
    have "list_all2 (\<lambda>v a. \<exists>m. m \<in> set (tier_feasible_domains v T) \<and> a = bare_assignment (sp_id v) m) (sd_vnfs sd) xs"
      using xs unfolding slots[OF subset_refl] list.rel_map(1)
      by (rule list.rel_mono_strong) (auto simp: fits_position_def split: if_splits intro: hosts_ok)
    then have each: "\<exists>m. m \<in> set (tier_feasible_domains (sd_vnfs sd ! i) T) \<and> xs ! i = bare_assignment (sp_id (sd_vnfs sd ! i)) m"
      if "i < length xs" for i
      using that by (rule list_all2_nthD2)
    have len: "length xs = length (sd_vnfs sd)" using xs slots[OF subset_refl] by (simp add: list_all2_iff)
    let ?ms = "map (\<lambda>a. the (ra_domain a)) xs"
    have i: "the (ra_domain (xs ! i)) \<in> set (tier_feasible_domains (sd_vnfs sd ! i) T)
        \<and> xs ! i = bare_assignment (sp_id (sd_vnfs sd ! i)) (the (ra_domain (xs ! i)))" if "i < length xs" for i
      using each[OF that] by (auto simp: bare_assignment_def)
    have "tier_feasible sd T ?ms" using i len by (simp add: tier_feasible_def list_all2_conv_all_nth)
    moreover have "xs = map2 (\<lambda>v m. bare_assignment (sp_id v) m) (sd_vnfs sd) ?ms"
      using i len by (intro nth_equalityI) simp_all
    ultimately show ?thesis
      by (intro exI[of _ ?ms]) (simp add: p generated_def expand_host_domain_def empty_plan_def)
  qed
qed

lemma table_zip:
  assumes "distinct (map sp_id vs)" and "length ms = length vs" and "\<And>v m. key (g v m) = k (sp_id v)" and "inj k"
  shows "table key (map2 g vs ms) (k x) = map_option (\<lambda>i. g (vs ! i) (ms ! i)) (List.find (\<lambda>i. sp_id (vs ! i) = x) [0..<length vs])"
proof (cases "\<exists>i < length vs. sp_id (vs ! i) = x")
  case True
  then obtain i where i: "i < length vs" "sp_id (vs ! i) = x" by blast
  have keys: "map key (map2 g vs ms) = map k (map sp_id vs)" using assms(2,3) by (intro nth_equalityI) simp_all
  have d: "distinct (map key (map2 g vs ms))" unfolding keys using assms(1,4) by (auto simp: distinct_map inj_on_def)
  have "table key (map2 g vs ms) (key (map2 g vs ms ! i)) = Some (map2 g vs ms ! i)"
    by (rule table_self[OF d nth_mem]) (use i assms(2) in simp)
  moreover have "List.find (\<lambda>i. sp_id (vs ! i) = x) [0..<length vs] = Some i"
    using i assms(1) by (auto simp: find_Some_iff distinct_conv_nth intro!: exI[of _ i])
  ultimately show ?thesis using i assms(2,3) by simp
next
  case False
  then have "k x \<notin> key ` set (map2 g vs ms)"
    using assms(2,3) injD[OF assms(4)] by (auto simp: set_zip image_image)
  moreover have "List.find (\<lambda>i. sp_id (vs ! i) = x) [0..<length vs] = None" using False by (auto simp: find_None_iff)
  ultimately show ?thesis by (simp add: table_None[THEN iffD2])
qed

definition filled_assignment :: "string \<Rightarrow> vnf_entry \<Rightarrow> string \<Rightarrow> raw_assignment" where
  "filled_assignment t v m = \<lparr>ra_vnf = Some (sp_id v), ra_domain = Some m, ra_tier = Some t, ra_cpu = Some (ve_cpu v), ra_ram = Some (ve_ram v)\<rparr>"

lemma map2_cong_in: "(\<And>v m. v \<in> set vs \<Longrightarrow> f v m = g v m) \<Longrightarrow> map2 f vs ms = map2 g vs ms"
  by (auto dest: set_zip_leftD)

lemma generated_partition:
  assumes "well_named sd T"
  shows "fill_derived_fields sd (empty_plan\<lparr>rp_assignments := Some (map2 (\<lambda>v m. bare_assignment (sp_id v) m) (sd_vnfs sd) ms)\<rparr>)
    = \<lparr>rp_id = Some (sd_id sd @ ''_plan''), rp_host = None,
       rp_assignments = Some (map2 (filled_assignment []) (sd_vnfs sd) ms), rp_flows = Some (map requested_flow (sd_flows sd))\<rparr>"
proof -
  have "table sp_id (sd_vnfs sd) (sp_id v) = Some v" if "v \<in> set (sd_vnfs sd)" for v
    using assms that by (intro table_self) (simp_all add: well_named_def)
  then have "map2 (\<lambda>v m. fill_assignment sd (bare_assignment (sp_id v) m)) (sd_vnfs sd) ms = map2 (filled_assignment []) (sd_vnfs sd) ms"
    by (intro map2_cong_in) (simp add: fill_assignment_def bare_assignment_def filled_assignment_def stated_demand_def or_else_def)
  then show ?thesis
    by (simp add: fill_derived_fields_def empty_plan_def or_empty_def or_else_def comp_def split_def)
qed

lemma fold_err_map:
  "(\<And>x. x \<in> set xs \<Longrightarrow> f x = Inr (g x)) \<Longrightarrow> fold_err (\<lambda>a out. map_sum id (\<lambda>x. out @ [x]) (f a)) xs out = Inr (out @ map g xs)"
  by (induction xs arbitrary: out) auto

lemma read_partition:
  assumes wn: "well_named sd T" and len: "length ms = length (sd_vnfs sd)"
    and gen: "generated sd p = fill_derived_fields sd (empty_plan\<lparr>rp_assignments := Some (map2 (\<lambda>v m. bare_assignment (sp_id v) m) (sd_vnfs sd) ms)\<rparr>)"
  shows "read_plan (normalised sd T p) = Inr (partition_plan sd T ms)"
proof -
  let ?q = "\<lparr>rp_id = Some (sd_id sd @ ''_plan''), rp_host = None,
       rp_assignments = Some (map2 (filled_assignment []) (sd_vnfs sd) ms), rp_flows = Some (map requested_flow (sd_flows sd))\<rparr>"
  have dom: "raw_domain ?q (Some x) = chosen sd ms x" for x
    using table_zip[of "sd_vnfs sd" ms ra_vnf "filled_assignment []" Some x] wn len
    by (simp add: raw_domain_def or_empty_def chosen_def well_named_def filled_assignment_def map_option_case split: option.split)
  have self: "table sp_id (sd_vnfs sd) (sp_id v) = Some v" if "v \<in> set (sd_vnfs sd)" for v
    using wn that by (intro table_self) (simp_all add: well_named_def)
  have "map2 (\<lambda>v m. retier sd T (filled_assignment [] v m)) (sd_vnfs sd) ms
      = map2 (\<lambda>v m. filled_assignment (derived_tier T v m) v m) (sd_vnfs sd) ms"
    by (intro map2_cong_in) (simp add: retier_def filled_assignment_def derived_tier_def permitted_of_def self split: option.split)
  then have as: "rp_assignments (normalised sd T p) = Some (map2 (\<lambda>v m. filled_assignment (derived_tier T v m) v m) (sd_vnfs sd) ms)"
    unfolding normalised_def gen generated_partition[OF wn] by (simp add: recompute_required_tiers_def recompute_flow_boundaries_def comp_def split_def)
  have fs: "rp_flows (normalised sd T p) = Some (map (\<lambda>f. mark_boundary ?q (requested_flow f)) (sd_flows sd))"
    unfolding normalised_def gen generated_partition[OF wn] by (simp add: recompute_required_tiers_def recompute_flow_boundaries_def comp_def)
  have "read_flow (mark_boundary ?q (requested_flow f))
      = Some \<lparr>fr_source = fe_source f, fr_target = fe_target f, fr_bw = fe_bw f, fr_crosses = crossing sd ms f\<rparr>" for f
    by (simp add: mark_boundary_def requested_flow_def dom crossing_def read_flow_def or_else_def split: option.split)
  then have flows: "List.map_filter read_flow (or_empty (rp_flows (normalised sd T p))) = ap_flows (partition_plan sd T ms)"
    by (simp add: fs or_empty_def List.map_filter_def partition_plan_def comp_def)
  show ?thesis
    unfolding read_plan_def flows as or_empty_def[of "Some _"] option.case
    by (subst fold_err_map[where g = "\<lambda>a. \<lparr>pa_vnf = the (ra_vnf a), pa_domain = ra_domain a, pa_tier = ra_tier a,
          pa_cpu = the (ra_cpu a), pa_ram = the (ra_ram a)\<rparr>"])
      (auto simp: read_assignment_def filled_assignment_def or_else_def partition_plan_def)
qed

section \<open>What an answer within the contract can still violate\<close>

text \<open>The checker on a partition: the tier and schema constraints hold, only capacities remain.\<close>

lemma partition_plan_simps:
  assumes "length ms = length (sd_vnfs sd)"
  shows "map pa_vnf (ap_assignments (partition_plan sd T ms)) = map sp_id (sd_vnfs sd)"
    and "a \<in> set (ap_assignments (partition_plan sd T ms)) \<longleftrightarrow>
      (\<exists>i < length ms. a = \<lparr>pa_vnf = sp_id (sd_vnfs sd ! i), pa_domain = Some (ms ! i),
         pa_tier = Some (derived_tier T (sd_vnfs sd ! i) (ms ! i)), pa_cpu = ve_cpu (sd_vnfs sd ! i), pa_ram = ve_ram (sd_vnfs sd ! i)\<rparr>)"
  using assms by (auto simp: partition_plan_def set_zip intro!: nth_equalityI)

lemma assigned_partition:
  assumes "well_named sd T" and "length ms = length (sd_vnfs sd)"
  shows "assigned_domain (partition_plan sd T ms) x = chosen sd ms x"
  using table_zip[of "sd_vnfs sd" ms pa_vnf _ id x, where g = "\<lambda>v m. \<lparr>pa_vnf = sp_id v, pa_domain = Some m,
      pa_tier = Some (derived_tier T v m), pa_cpu = ve_cpu v, pa_ram = ve_ram v\<rparr>"] assms
  by (simp add: assigned_domain_def partition_plan_def chosen_def well_named_def map_option_case split: option.split)

lemma table_truncate: "table sp_id (map vnf_spec.truncate (vs :: vnf_entry list)) x = map_option vnf_spec.truncate (table sp_id vs x)"
proof -
  have "map_of (map (\<lambda>v. (sp_id (vnf_spec.truncate v), vnf_spec.truncate v)) ws) x
      = map_option vnf_spec.truncate (map_of (map (\<lambda>v. (sp_id v, v)) ws) x)" for ws :: "vnf_entry list"
    by (induction ws) (simp_all add: vnf_spec.defs)
  then show ?thesis by (simp add: table_def rev_map comp_def)
qed

lemma partition_tiers:
  assumes wn: "well_named sd T" and tf: "tier_feasible sd T ms"
    and a: "a \<in> set (ap_assignments (partition_plan sd T ms))"
  shows "tier_violations (specs_of sd) T a = []" and "domain_of_assignment T a \<noteq> None"
proof -
  have len: "length ms = length (sd_vnfs sd)" using tf by (simp add: tier_feasible_def list_all2_lengthD)
  obtain i where i: "i < length ms" and
    ai: "pa_vnf a = sp_id (sd_vnfs sd ! i)" "pa_domain a = Some (ms ! i)" "pa_tier a = Some (derived_tier T (sd_vnfs sd ! i) (ms ! i))"
    using a unfolding partition_plan_simps(2)[OF len] by auto
  obtain d where d: "domain_table T (ms ! i) = Some d" "set (sp_permitted (sd_vnfs sd ! i)) \<inter> set (ad_tiers d) \<noteq> {}"
    using list_all2_nthD2[OF tf[unfolded tier_feasible_def] i] unfolding tier_feasible_iff[OF wn] by blast
  show "domain_of_assignment T a \<noteq> None" using d by (simp add: domain_of_assignment_def ai)
  let ?inter = "filter (\<lambda>t. t \<in> set (tiers_at T (Some (ms ! i)))) (sp_permitted (sd_vnfs sd ! i))"
  have "?inter \<noteq> []" using d by (auto simp: tiers_at_def filter_empty_conv)
  then obtain t where t: "least ?inter = Some t" by fastforce
  then have mem: "t \<in> set (ad_tiers d)" "t \<in> set (sp_permitted (sd_vnfs sd ! i))"
    using least_in[OF t] d(1) by (auto simp: tiers_at_def)
  have "table sp_id (specs_of sd) (pa_vnf a) = Some (vnf_spec.truncate (sd_vnfs sd ! i))"
    using table_self[of sp_id "sd_vnfs sd" "sd_vnfs sd ! i"] wn i len by (simp add: specs_of_def table_truncate ai well_named_def)
  then have "tiers_ok (specs_of sd) T a"
    using mem d t by (auto simp: tiers_ok_def domain_of_assignment_def ai stated_tier_def derived_tier_def vnf_spec.defs split: option.split)
  then show "tier_violations (specs_of sd) T a = []" by (simp add: tier_violations_Nil)
qed

lemma flow_step_flagged:
  assumes "assigned_domain p (fr_source f) = s" "assigned_domain p (fr_target f) = t"
    and "\<And>a b. s = Some a \<Longrightarrow> t = Some b \<Longrightarrow> fr_crosses f = (a \<noteq> b)"
    and "\<forall>v \<in> set (fst st). fst v = C5"
  shows "\<forall>v \<in> set (fst (flow_step p T f st)). fst v = C5"
  using assms by (cases st) (auto simp: flow_step_def split: option.splits)

lemma fold_flows_flagged:
  assumes "\<And>f a b. f \<in> set fs \<Longrightarrow> assigned_domain p (fr_source f) = Some a \<Longrightarrow> assigned_domain p (fr_target f) = Some b
      \<Longrightarrow> fr_crosses f = (a \<noteq> b)"
    and "\<forall>v \<in> set (fst st). fst v = C5"
  shows "\<forall>v \<in> set (fst (fold (flow_step p T) fs st)). fst v = C5"
  using assms
proof (induction fs arbitrary: st)
  case (Cons f fs)
  have "\<forall>v \<in> set (fst (flow_step p T f st)). fst v = C5"
    by (rule flow_step_flagged[OF refl refl]) (use Cons.prems in auto)
  with Cons.prems(1) show ?case unfolding fold.simps comp_def by (intro Cons.IH) auto
qed simp

lemma partition_flag:
  assumes "well_named sd T" and "length ms = length (sd_vnfs sd)"
    and "f \<in> set (ap_flows (partition_plan sd T ms))" and "flow_ends (partition_plan sd T ms) f = Some (a, b)"
  shows "fr_crosses f = (a \<noteq> b)"
proof -
  have "chosen sd ms (fr_source f) = Some a" "chosen sd ms (fr_target f) = Some b"
    using assms(4) unfolding flow_ends_def assigned_partition[OF assms(1,2)] by (simp_all split: option.splits)
  then show ?thesis using assms(3) by (auto simp: partition_plan_def crossing_def)
qed

lemma partition_schema:
  assumes wn: "well_named sd T" and tf: "tier_feasible sd T ms"
  shows "schema_ok (partition_plan sd T ms) (specs_of sd) T"
proof -
  have len: "length ms = length (sd_vnfs sd)" using tf by (simp add: tier_feasible_def list_all2_lengthD)
  have ids: "map sp_id (specs_of sd) = map sp_id (sd_vnfs sd)" by (simp add: specs_of_def vnf_spec.defs)
  show ?thesis unfolding schema_ok_def partition_plan_simps(1)[OF len] ids using partition_tiers(2)[OF wn tf] by simp
qed

text \<open>Only capacities (C4) and inter-domain routes (C5) can fail, and the loads checked are the requested ones.\<close>

lemma partition_check:
  assumes wn: "well_named sd T" and tf: "tier_feasible sd T ms" and v: "v \<in> set (cr_violations (check_plan (partition_plan sd T ms) (specs_of sd) T))"
  shows "fst v = C4 \<or> fst v = C5"
proof -
  let ?p = "partition_plan sd T ms"
  have len: "length ms = length (sd_vnfs sd)" using tf by (simp add: tier_feasible_def list_all2_lengthD)
  have s1: "schema_violations ?p (specs_of sd) T = []" using partition_schema[OF wn tf] by (simp add: schema_violations_Nil)
  have s2: "concat (map (tier_violations (specs_of sd) T) (ap_assignments ?p)) = []"
    using partition_tiers(1)[OF wn tf] by simp
  have s3: "fst v = C4" if "v \<in> set (overcommits f T d)" for v f d
    using that by (auto simp: overcommits_def set_map_filter split: option.splits if_splits)
  have s4: "\<forall>v \<in> set (fst (fold (flow_step ?p T) (ap_flows ?p) ([], []))). fst v = C5"
    by (intro fold_flows_flagged) (simp_all add: partition_flag[OF wn len] flow_ends_def)
  have s5: "fst v = C5" if "v \<in> set (link_overcommits T d)" for v d
    using that by (auto simp: link_overcommits_def set_map_filter split: option.splits if_splits)
  have "v \<in> set (overcommits ad_cpu T (domain_used pa_cpu ?p T)) \<or> v \<in> set (overcommits ad_ram T (domain_used pa_ram ?p T))
      \<or> v \<in> set (fst (fold (flow_step ?p T) (ap_flows ?p) ([], []))) \<or> v \<in> set (link_overcommits T (snd (fold (flow_step ?p T) (ap_flows ?p) ([], []))))"
    using v unfolding check_plan_def Let_def s1 s2 by (simp add: split_def)
  then show ?thesis using s3[of v] s5[of v] s4 by blast
qed

text \<open>A whole chain on one of its hosts is never refused.\<close>

lemma host_plan_valid:
  assumes wn: "well_named sd T" and h: "h \<in> set (whole_chain_hosts band sd T)"
  shows "cr_valid (check_plan (partition_plan sd T (replicate (length (sd_vnfs sd)) h)) (specs_of sd) T)"
proof -
  let ?ms = "replicate (length (sd_vnfs sd)) h" and ?p = "partition_plan sd T (replicate (length (sd_vnfs sd)) h)"
  have tf: "tier_feasible sd T ?ms"
    using host_tier_feasible[OF h] by (auto simp: tier_feasible_def list_all2_conv_all_nth)
  obtain d where d: "d \<in> set (at_domains T)" "ad_id d = h" "host_slack sd d > 0"
    using hosts_are_hosts[OF h] by (auto simp: is_host_def)
  have dt: "domain_table T h = Some d" using table_self[of ad_id "at_domains T" d] wn d by (simp add: domain_table_def well_named_def)
  have one: "pa_domain a = Some h" if "a \<in> set (ap_assignments ?p)" for a
    using that by (auto simp: partition_plan_simps)
  have asg: "ap_assignments ?p = map (\<lambda>v. \<lparr>pa_vnf = sp_id v, pa_domain = Some h, pa_tier = Some (derived_tier T v h), pa_cpu = ve_cpu v, pa_ram = ve_ram v\<rparr>) (sd_vnfs sd)"
    unfolding partition_plan_def by (simp, intro nth_equalityI) simp_all
  have load: "load_of pa_cpu ?p h = sum_list (map ve_cpu (sd_vnfs sd))" "load_of pa_ram ?p h = sum_list (map ve_ram (sd_vnfs sd))"
    unfolding load_of_def asg by (simp_all add: comp_def)
  have c4: "resources_ok ?p T"
    unfolding resources_ok_def using one d(3) dt load by (auto simp: host_slack_def)
  have ends: "s = h \<and> t = h" if "flow_ends ?p f = Some (s, t)" for f s t
    using that by (auto simp: flow_ends_def assigned_partition[OF wn] chosen_def find_Some_iff split: option.splits)
  have "flow_ok ?p T f" if "f \<in> set (ap_flows ?p)" for f
    unfolding flow_ok_def using partition_flag[OF wn _ that] ends by fastforce
  moreover have "bandwidth_ok ?p T" unfolding bandwidth_ok_def using ends by blast
  moreover have "\<forall>a \<in> set (ap_assignments ?p). tiers_ok (specs_of sd) T a"
    using partition_tiers(1)[OF wn tf] by (simp add: tier_violations_Nil)
  ultimately show ?thesis unfolding check_plan_iff using partition_schema[OF wn tf] c4 by blast
qed

text \<open>No contract exists exactly when some VNF has no tier-feasible domain.\<close>

lemma no_contract_iff:
  "build_pinned_plan_schema env sd T = None \<longleftrightarrow> (\<exists>v \<in> set (sd_vnfs sd). tier_feasible_domains v T = [])"
proof -
  have "tier_feasible_domains v T \<noteq> []" if "whole_chain_hosts band sd T \<noteq> []" "v \<in> set (sd_vnfs sd)" for band v
    using host_tier_feasible[OF list.set_sel(1)[OF that(1)] that(2)] by auto
  then show ?thesis
    by (auto simp: build_pinned_plan_schema_def Let_def list_ex_iff split: if_splits)
qed

section \<open>The loop\<close>

definition within_contract :: "plan_schema \<Rightarrow> llm \<Rightarrow> bool" where
  "within_contract sch llm \<longleftrightarrow>
     (\<forall>n fb. case llm n fb of Reply p \<Rightarrow> conforms sch p | CutOff \<Rightarrow> True | Raised e \<Rightarrow> e = ValueError)"

definition sound_answer :: "slice_dict \<Rightarrow> abstract_topology \<Rightarrow> raw_plan \<times> check_result \<Rightarrow> bool" where
  "sound_answer sd T = (\<lambda>(q, r).
     (\<forall>v \<in> set (cr_violations r). fst v = C4 \<or> fst v = C5)
     \<and> (cr_valid r \<longrightarrow> (\<exists>ms. tier_feasible sd T ms \<and> read_plan q = Inr (partition_plan sd T ms)
          \<and> resources_ok (partition_plan sd T ms) T
          \<and> (\<forall>f \<in> set (ap_flows (partition_plan sd T ms)). flow_ok (partition_plan sd T ms) T f)
          \<and> bandwidth_ok (partition_plan sd T ms) T)))"

lemma checked_answer:
  assumes wn: "well_named sd T" and sch: "build_pinned_plan_schema env sd T = Some sch" and p: "conforms sch p"
  shows "\<exists>r. check_raw sd T (normalised sd T p) = Inr r \<and> sound_answer sd T (normalised sd T p, r)"
proof -
  obtain ms where tf: "tier_feasible sd T ms" and
    gen: "generated sd p = fill_derived_fields sd (empty_plan\<lparr>rp_assignments := Some (map2 (\<lambda>v m. bare_assignment (sp_id v) m) (sd_vnfs sd) ms)\<rparr>)"
    using conforming_partition[OF sch p] by blast
  have "length ms = length (sd_vnfs sd)" using tf by (simp add: tier_feasible_def list_all2_lengthD)
  from read_partition[OF wn this gen] have rd: "read_plan (normalised sd T p) = Inr (partition_plan sd T ms)" .
  then show ?thesis
    using tf partition_check[OF wn tf] unfolding check_raw_def sound_answer_def by (auto simp: check_plan_iff)
qed

lemma attempts_sound:
  assumes wn: "well_named sd T" and sch: "build_pinned_plan_schema env sd T = Some sch" and llm: "within_contract sch llm"
  shows "sound_answer sd T (plan, result) \<Longrightarrow>
    \<exists>q r. attempts llm sd T k n fb plan result = Inr (q, r) \<and> sound_answer sd T (q, r)"
proof (induction k arbitrary: n fb plan result)
  case (Suc k)
  have rejected: "sound_answer sd T (q, no_plan_result)" for q by (simp add: sound_answer_def no_plan_result_def)
  have w: "case llm n fb of Reply p \<Rightarrow> conforms sch p | CutOff \<Rightarrow> True | Raised e \<Rightarrow> e = ValueError"
    using llm unfolding within_contract_def by blast
  show ?case
  proof (cases "llm n fb")
    case (Reply p)
    with w obtain r where "check_raw sd T (normalised sd T p) = Inr r" "sound_answer sd T (normalised sd T p, r)"
      using checked_answer[OF wn sch] by auto
    then show ?thesis using Reply Suc.IH by (simp add: Let_def)
  qed (use w Suc.IH rejected in auto)
qed auto

text \<open>
  C20: what a grammar-constrained proposer can get wrong. When every completion respects the contract or
  is cut off or unparsable, the loop never raises, whatever the number of retries: every violation it
  reports is a capacity (C4) or an inter-domain route (C5), and a plan reported valid is a partition
  of exactly the requested chain over tier-feasible domains that meets C4 and C5 at the requested
  demands and bandwidths, not at numbers the model made up.
\<close>

theorem contract_leaves_capacities:
  assumes "well_named sd T" and "build_pinned_plan_schema env sd T = Some sch" and "within_contract sch llm"
  shows "\<exists>q r. generate_and_check llm sd T retries = Inr (q, r)
    \<and> (\<forall>v \<in> set (cr_violations r). fst v = C4 \<or> fst v = C5)
    \<and> (cr_valid r \<longrightarrow> (\<exists>ms. tier_feasible sd T ms \<and> read_plan q = Inr (partition_plan sd T ms)
         \<and> resources_ok (partition_plan sd T ms) T
         \<and> (\<forall>f \<in> set (ap_flows (partition_plan sd T ms)). flow_ok (partition_plan sd T ms) T f)
         \<and> bandwidth_ok (partition_plan sd T ms) T))"
proof -
  have "sound_answer sd T (empty_plan, no_plan_result)" by (simp add: sound_answer_def no_plan_result_def)
  from attempts_sound[OF assms this, of "1 + retries" 0 NoFeedback] show ?thesis
    unfolding generate_and_check_def sound_answer_def by simp
qed

text \<open>
  C21: the colocation contract. When some domain can host the whole chain, the contract is the list of
  those hosts and nothing else, and whichever of them the model names first is accepted at the first
  attempt, as the plan that puts every VNF on that host.
\<close>

theorem colocation_contract_accepted:
  assumes "well_named sd T" and "ce_colocation env" and "whole_chain_hosts (ce_band env) sd T \<noteq> []"
    and "h \<in> set (whole_chain_hosts (ce_band env) sd T)" and "llm 0 NoFeedback = Reply (empty_plan\<lparr>rp_host := Some h\<rparr>)"
  shows "build_pinned_plan_schema env sd T = Some (HostEnum (whole_chain_hosts (ce_band env) sd T))
    \<and> (\<exists>q r. generate_and_check llm sd T retries = Inr (q, r) \<and> cr_valid r
         \<and> read_plan q = Inr (partition_plan sd T (replicate (length (sd_vnfs sd)) h)))"
proof
  show "build_pinned_plan_schema env sd T = Some (HostEnum (whole_chain_hosts (ce_band env) sd T))"
    using assms(2,3) by (simp add: build_pinned_plan_schema_def Let_def)
  let ?p = "empty_plan\<lparr>rp_host := Some h\<rparr>" and ?ms = "replicate (length (sd_vnfs sd)) h"
  have "map2 (\<lambda>v m. bare_assignment (sp_id v) m) (sd_vnfs sd) ?ms = map (\<lambda>v. bare_assignment (sp_id v) h) (sd_vnfs sd)"
    by (intro nth_equalityI) simp_all
  then have "read_plan (normalised sd T ?p) = Inr (partition_plan sd T ?ms)"
    by (intro read_partition[OF assms(1)]) (simp_all add: generated_def expand_host_domain_def empty_plan_def)
  then show "\<exists>q r. generate_and_check llm sd T retries = Inr (q, r) \<and> cr_valid r \<and> read_plan q = Inr (partition_plan sd T ?ms)"
    using host_plan_valid[OF assms(1,4)] by (auto simp: generate_and_check_def assms(5) Let_def check_raw_def)
qed

section \<open>Witnesses\<close>

definition ex_sd :: slice_dict where
  "ex_sd = \<lparr>sd_id = ''r'', sd_vnfs = [\<lparr>sp_id = ''v'', sp_permitted = [''edge''], ve_cpu = 3, ve_ram = 3\<rparr>], sd_flows = []\<rparr>"

definition ex_hosts :: abstract_topology where
  "ex_hosts = \<lparr>at_domains = map (\<lambda>m. (ex_domain m)\<lparr>ad_largest_free := [(''edge'', 4, 4)]\<rparr>) [''d0'', ''d1''], at_links = []\<rparr>"

definition shaky_llm :: llm where
  "shaky_llm n fb = (if n = 0 then CutOff else Reply (empty_plan\<lparr>rp_assignments := Some [bare_assignment ''v'' ''d1'']\<rparr>))"

lemma ex_hosts_simps:
  "well_named ex_sd ex_hosts"
  "tier_feasible_domains \<lparr>sp_id = ''v'', sp_permitted = [''edge''], ve_cpu = 3, ve_ram = 3\<rparr> ex_hosts = [''d0'', ''d1'']"
  "whole_chain_hosts 0 ex_sd ex_hosts = [''d0'', ''d1'']"
  by (simp_all add: well_named_def ex_sd_def ex_hosts_def ex_domain_def tier_feasible_domains_def overlaps_def
      whole_chain_hosts_def within_band_def is_host_def seats_def host_slack_def get_default_def)

theorem contract_leaves_capacities_witness:
  "build_pinned_plan_schema \<lparr>ce_capacity_mask = False, ce_colocation = False, ce_band = 0\<rparr> ex_sd ex_hosts
     = Some (PerPosition [(''v'', [''d0'', ''d1''])])
   \<and> (\<exists>q r. generate_and_check shaky_llm ex_sd ex_hosts 1 = Inr (q, r))"
proof
  show s: "build_pinned_plan_schema \<lparr>ce_capacity_mask = False, ce_colocation = False, ce_band = 0\<rparr> ex_sd ex_hosts
     = Some (PerPosition [(''v'', [''d0'', ''d1''])])"
    by (simp add: build_pinned_plan_schema_def ex_sd_def ex_hosts_simps List.map_filter_simps)
  have "within_contract (PerPosition [(''v'', [''d0'', ''d1''])]) shaky_llm"
    by (auto simp: within_contract_def shaky_llm_def fits_position_def intro!: exI[of _ "[bare_assignment ''v'' ''d1'']"])
  from contract_leaves_capacities[OF ex_hosts_simps(1) s this, of 1]
  show "\<exists>q r. generate_and_check shaky_llm ex_sd ex_hosts 1 = Inr (q, r)" by blast
qed

theorem colocation_contract_accepted_witness:
  "build_pinned_plan_schema \<lparr>ce_capacity_mask = False, ce_colocation = True, ce_band = 0\<rparr> ex_sd ex_hosts = Some (HostEnum [''d0'', ''d1''])
   \<and> (\<exists>q r. generate_and_check (\<lambda>_ _. Reply (empty_plan\<lparr>rp_host := Some ''d1''\<rparr>)) ex_sd ex_hosts 1 = Inr (q, r) \<and> cr_valid r)"
  using colocation_contract_accepted[of ex_sd ex_hosts "\<lparr>ce_capacity_mask = False, ce_colocation = True, ce_band = 0\<rparr>" "''d1''"
      "\<lambda>_ _. Reply (empty_plan\<lparr>rp_host := Some ''d1''\<rparr>)" 1]
  by (auto simp: ex_hosts_simps)

end
