(* ===== verification/Domain_Observation.thy ===== *)
theory Domain_Observation
  imports Substrate
begin

text \<open>
  What a learned domain actor sees (\<open>src/src/orion/actors/domain_observation.py\<close>): the
  intra-domain graph with sixteen features per node and two per edge. The tensors are lists of
  reals, in the order the code writes them; Python sets of nodes are lists whose order the
  result does not depend on.

  Lemmas: the breadth-first search returns the distance to the nearest border node, and every
  feature lies in the unit interval.
\<close>

section \<open>Distance to the border\<close>

text \<open>\<open>undirected_subgraph.neighbors(node)\<close> on the subgraph induced by \<open>ns\<close>.\<close>

definition neighbours :: "'a graph_scheme \<Rightarrow> node_id list \<Rightarrow> node_id \<Rightarrow> node_id list" where
  "neighbours g ns n =
     filter (\<lambda>w. n \<in> set ns \<and> ((n, w) \<in> set (keys (g_edges g)) \<or> (w, n) \<in> set (keys (g_edges g)))) (remdups ns)"

text \<open>The nodes of the neighbour list that the loop over it discovers.\<close>

definition discovered :: "'a graph_scheme \<Rightarrow> node_id list \<Rightarrow> node_id \<Rightarrow> node_id set \<Rightarrow> node_id list" where
  "discovered g ns n visited = filter (\<lambda>w. w \<notin> visited) (neighbours g ns n)"

text \<open>
  The loop \<open>while head < len(queue)\<close>; the queue is what \<open>head\<close> has not passed yet. A node
  without an entry in \<open>hop\<close> stands for distance infinity.
\<close>

function bfs_hops :: "'a graph_scheme \<Rightarrow> node_id list \<Rightarrow> (node_id \<times> nat) list \<Rightarrow> node_id set
    \<Rightarrow> (node_id, nat) dict \<Rightarrow> (node_id, nat) dict" where
  "bfs_hops g ns [] visited hop = hop"
| "bfs_hops g ns ((n, k) # queue) visited hop =
     (let new = discovered g ns n visited in
      bfs_hops g ns (queue @ map (\<lambda>w. (w, Suc k)) new) (visited \<union> set new)
        (fold (\<lambda>w. AList.update w (Suc k)) new hop))"
  by pat_completeness auto

lemma discovered_card:
  "length (discovered g ns n visited) + card (set ns - (visited \<union> set (discovered g ns n visited)))
   = card (set ns - visited)"
proof -
  let ?new = "discovered g ns n visited"
  have sub: "set ?new \<subseteq> set ns - visited" and dist: "distinct ?new"
    by (auto simp: discovered_def neighbours_def)
  have "card (set ns - visited - set ?new) = card (set ns - visited) - card (set ?new)"
    by (rule card_Diff_subset[OF finite_set sub])
  moreover have "card (set ?new) \<le> card (set ns - visited)" by (rule card_mono[OF _ sub]) simp
  moreover have "length ?new = card (set ?new)" by (simp add: distinct_card[OF dist])
  moreover have "set ns - (visited \<union> set ?new) = set ns - visited - set ?new" by blast
  ultimately show ?thesis by simp
qed

termination bfs_hops
proof (relation "measure (\<lambda>(g, ns, queue, visited, hop). length queue + card (set ns - visited))", simp)
  fix g :: "'a graph_scheme" and ns :: "node_id list" and n :: node_id and k :: nat
    and queue :: "(node_id \<times> nat) list" and visited :: "node_id set" and hop :: "(node_id, nat) dict" and new
  assume "new = discovered g ns n visited"
  then show "((g, ns, queue @ map (\<lambda>w. (w, Suc k)) new, visited \<union> set new, fold (\<lambda>w. AList.update w (Suc k)) new hop),
      (g, ns, (n, k) # queue, visited, hop))
      \<in> measure (\<lambda>(g, ns, queue, visited, hop). length queue + card (set ns - visited))"
    using discovered_card[of g ns n visited] by simp
qed

declare bfs_hops.simps(2) [simp del]

definition hop_to_border :: "'a graph_scheme \<Rightarrow> node_id list \<Rightarrow> node_id list \<Rightarrow> (node_id, nat) dict" where
  "hop_to_border g ns bs =
     (if bs = [] then map (\<lambda>n. (n, 0)) ns
      else
        let start = filter (\<lambda>b. b \<in> set ns) (remdups bs);
            hop = bfs_hops g ns (map (\<lambda>b. (b, 0)) start) (set bs) (map (\<lambda>b. (b, 0)) start)
        in map (\<lambda>n. (n, get_default hop n (length ns))) ns)"

section \<open>The observation\<close>

record domain_obs =
  do_x :: "real list list"
  do_edge_index :: "(nat \<times> nat) list"
  do_edge_attr :: "(real \<times> real) list"

definition node_rows :: "'a graph_scheme \<Rightarrow> int \<Rightarrow> (node_id \<times> node_data) list" where
  "node_rows g m = sort_key fst (filter (\<lambda>(n, d). domain_id d = m) (g_nodes g))"

definition node_index :: "node_id list \<Rightarrow> node_id \<Rightarrow> nat" where
  "node_index ns n = length (takeWhile (\<lambda>w. w \<noteq> n) ns)"

text \<open>An edge with exactly one end inside: the inner and the outer end.\<close>

definition border_end :: "node_id list \<Rightarrow> node_id \<times> node_id \<Rightarrow> (node_id \<times> node_id) option" where
  "border_end ns = (\<lambda>(u, v).
     if u \<in> set ns \<and> v \<notin> set ns then Some (u, v)
     else if v \<in> set ns \<and> u \<notin> set ns then Some (v, u) else None)"

definition border_ends :: "'a graph_scheme \<Rightarrow> node_id list \<Rightarrow> (node_id \<times> node_id) list" where
  "border_ends g ns = List.map_filter (border_end ns) (keys (g_edges g))"

definition intra_edges :: "'a graph_scheme \<Rightarrow> node_id list \<Rightarrow> ((node_id \<times> node_id) \<times> edge_data) list" where
  "intra_edges g ns = filter (\<lambda>((u, v), d). u \<in> set ns \<and> v \<in> set ns) (g_edges g)"

text \<open>\<open>max(f(n) for n in node_ids)\<close>, with a zero maximum replaced by one.\<close>

definition max_or_one :: "real list \<Rightarrow> real" where
  "max_or_one xs = (let x = Max (set xs) in if x = 0 then 1 else x)"

definition bw_frac :: "edge_data \<Rightarrow> real" where
  "bw_frac d = (if bandwidth_capacity d > 0 then bw_residual d / bandwidth_capacity d else 1)"

definition out_degree :: "((node_id \<times> node_id) \<times> edge_data) list \<Rightarrow> node_id \<Rightarrow> nat" where
  "out_degree es n = length (filter (\<lambda>((u, v), d). u = n) es)"

text \<open>The bandwidth fractions an edge adds at \<open>n\<close>: once as source, once as target.\<close>

definition incident_fracs :: "((node_id \<times> node_id) \<times> edge_data) list \<Rightarrow> node_id \<Rightarrow> real list" where
  "incident_fracs es n =
     concat (map (\<lambda>((u, v), d). (if u = n then [bw_frac d] else []) @ (if v = n then [bw_frac d] else [])) es)"

definition mean_or_one :: "real list \<Rightarrow> real" where
  "mean_or_one xs = (if xs = [] then 1 else sum_list xs / real (length xs))"

definition mdo_delay_ref :: real where
  "mdo_delay_ref = 100"

definition frac_or_one :: "real \<Rightarrow> real \<Rightarrow> real" where
  "frac_or_one x y = (if y > 0 then x / y else 1)"

definition flag :: "bool \<Rightarrow> real" where
  "flag b = (if b then 1 else 0)"

definition max_degree :: "((node_id \<times> node_id) \<times> edge_data) list \<Rightarrow> (node_id \<times> node_data) list \<Rightarrow> nat" where
  "max_degree es rows = max 1 (Max (set (map (\<lambda>(w, x). out_degree es w) rows)))"

definition max_hop :: "(node_id, nat) dict \<Rightarrow> nat" where
  "max_hop hops = (let h = Max (set (vals hops)) in if h = 0 then 1 else h)"

text \<open>The row of one node. Slots 4 to 7 are the one-hot of the tier; slot 7 stays zero.\<close>

definition node_features :: "(node_id \<times> node_data) list \<Rightarrow> ((node_id \<times> node_id) \<times> edge_data) list
    \<Rightarrow> (node_id, nat) dict \<Rightarrow> node_id set \<Rightarrow> node_id set \<Rightarrow> node_id set \<Rightarrow> node_id \<times> node_data \<Rightarrow> real list" where
  "node_features rows es hops border target placed = (\<lambda>(n, d).
     [frac_or_one (cpu_residual d) (cpu_capacity d), frac_or_one (ram_residual d) (ram_capacity d),
         cpu_capacity d / max_or_one (map (\<lambda>(w, x). cpu_capacity x) rows),
         ram_capacity d / max_or_one (map (\<lambda>(w, x). ram_capacity x) rows),
         flag (tier_index (node_tier d) = 0), flag (tier_index (node_tier d) = 1),
         flag (tier_index (node_tier d) = 2), 0,
         processing_delay d / max_or_one (map (\<lambda>(w, x). processing_delay x) rows),
         real (out_degree es n) / real (max_degree es rows),
         mean_or_one (incident_fracs es n),
         real (get_default hops n (max_hop hops)) / real (max_hop hops),
         flag (n \<in> border), flag (n \<in> target), flag (n \<in> placed),
         min 1 (processing_delay d / mdo_delay_ref)])"

definition build_domain_observation :: "'a graph_scheme \<Rightarrow> int \<Rightarrow> int set \<Rightarrow> node_id set
    \<Rightarrow> domain_obs \<times> node_id list" where
  "build_domain_observation g m targets placed =
     (let rows = node_rows g m; ns = map fst rows in
      if ns = [] then (\<lparr>do_x = [], do_edge_index = [], do_edge_attr = []\<rparr>, [])
      else
        let ends = border_ends g ns;
            border = set (map fst ends);
            target = set (map fst (filter (\<lambda>(i, ou). domain_of g ou \<in> targets) ends));
            hops = hop_to_border g ns (map fst ends);
            es = intra_edges g ns;
            max_delay = fold (\<lambda>(e, d) x. max x (propagation_delay d)) es 1
        in (\<lparr>do_x = map (node_features rows es hops border target placed) rows,
             do_edge_index = map (\<lambda>((u, v), d). (node_index ns u, node_index ns v)) es,
             do_edge_attr = map (\<lambda>(e, d). (bw_frac d, propagation_delay d / max_delay)) es\<rparr>, ns))"

lemma observed_nodes: "snd (build_domain_observation g m targets placed) = sort (nodes_in_domain g m)"
  by (simp add: build_domain_observation_def Let_def node_rows_def nodes_in_domain_def sort_key_map comp_def)

section \<open>The search finds the distance\<close>

text \<open>One hop inside the domain, in either direction of an edge.\<close>

definition hop_rel :: "'a graph_scheme \<Rightarrow> node_id list \<Rightarrow> (node_id \<times> node_id) set" where
  "hop_rel g ns = {(n, w). n \<in> set ns \<and> w \<in> set ns
     \<and> ((n, w) \<in> set (keys (g_edges g)) \<or> (w, n) \<in> set (keys (g_edges g)))}"

definition within_hops :: "'a graph_scheme \<Rightarrow> node_id list \<Rightarrow> node_id set \<Rightarrow> nat \<Rightarrow> node_id \<Rightarrow> bool" where
  "within_hops g ns B k n \<longleftrightarrow> (\<exists>b \<in> B \<inter> set ns. (b, n) \<in> hop_rel g ns ^^ k)"

lemma set_neighbours: "set (neighbours g ns n) = {w. (n, w) \<in> hop_rel g ns}"
  by (auto simp: neighbours_def hop_rel_def)

lemma within_hops_0: "within_hops g ns B 0 n \<longleftrightarrow> n \<in> B \<inter> set ns"
  by (auto simp: within_hops_def)

lemma within_hops_Suc:
  "within_hops g ns B (Suc k) w \<longleftrightarrow> (\<exists>n. within_hops g ns B k n \<and> (n, w) \<in> hop_rel g ns)"
  by (auto simp: within_hops_def)

text \<open>
  What the loop keeps: entries are lengths of real walks, the queue is sorted and within one
  hop of everything found, and only queued nodes may have neighbours not yet found.
\<close>

definition bfs_inv :: "'a graph_scheme \<Rightarrow> node_id list \<Rightarrow> node_id set \<Rightarrow> (node_id \<times> nat) list \<Rightarrow> node_id set
    \<Rightarrow> (node_id, nat) dict \<Rightarrow> bool" where
  "bfs_inv g ns B queue visited hop \<longleftrightarrow>
     visited \<inter> set ns = {n. map_of hop n \<noteq> None}
     \<and> B \<inter> set ns \<subseteq> {n. map_of hop n = Some 0}
     \<and> (\<forall>n k. map_of hop n = Some k \<longrightarrow> within_hops g ns B k n)
     \<and> (\<forall>(n, k) \<in> set queue. map_of hop n = Some k)
     \<and> sorted (map snd queue)
     \<and> (\<forall>(n, k) \<in> set queue. \<forall>w j. map_of hop w = Some j \<longrightarrow> j \<le> Suc k)
     \<and> (\<forall>n k w. map_of hop n = Some k \<longrightarrow> (n, w) \<in> hop_rel g ns \<longrightarrow>
          n \<in> fst ` set queue \<or> (\<exists>j \<le> Suc k. map_of hop w = Some j))"

lemma map_of_fold_update:
  "map_of (fold (\<lambda>w. AList.update w x) ws hop) n = (if n \<in> set ws then Some x else map_of hop n)"
  by (induction ws arbitrary: hop) auto

lemma bfs_inv_step:
  assumes inv: "bfs_inv g ns B ((n, k) # queue) visited hop"
  defines "new \<equiv> discovered g ns n visited"
  shows "bfs_inv g ns B (queue @ map (\<lambda>w. (w, Suc k)) new) (visited \<union> set new)
           (fold (\<lambda>w. AList.update w (Suc k)) new hop)" (is "bfs_inv g ns B ?q ?v ?h")
proof -
  have I: "visited \<inter> set ns = {n. map_of hop n \<noteq> None}" "B \<inter> set ns \<subseteq> {n. map_of hop n = Some 0}"
    "\<And>n k. map_of hop n = Some k \<Longrightarrow> within_hops g ns B k n"
    "map_of hop n = Some k" "\<And>n k. (n, k) \<in> set queue \<Longrightarrow> map_of hop n = Some k"
    "\<And>n' k'. (n', k') \<in> set queue \<Longrightarrow> k \<le> k'" "sorted (map snd queue)"
    "\<And>w j. map_of hop w = Some j \<Longrightarrow> j \<le> Suc k"
    "\<And>n' k' w j. (n', k') \<in> set queue \<Longrightarrow> map_of hop w = Some j \<Longrightarrow> j \<le> Suc k'"
    "\<And>n' k' w. map_of hop n' = Some k' \<Longrightarrow> (n', w) \<in> hop_rel g ns \<Longrightarrow>
       n' = n \<or> n' \<in> fst ` set queue \<or> (\<exists>j \<le> Suc k'. map_of hop w = Some j)"
    using inv unfolding bfs_inv_def by auto
  have new: "set new = {w. (n, w) \<in> hop_rel g ns \<and> w \<notin> visited}"
    by (auto simp: new_def discovered_def set_neighbours)
  have sub: "set new \<subseteq> set ns" unfolding new by (auto simp: hop_rel_def)
  have fresh: "map_of hop w = None" if "w \<in> set new" for w
    using that I(1) sub unfolding new by blast
  have h: "map_of ?h w = (if w \<in> set new then Some (Suc k) else map_of hop w)" for w
    by (rule map_of_fold_update)
  have 1: "?v \<inter> set ns = {n. map_of ?h n \<noteq> None}"
    using I(1) sub unfolding h by auto
  have 2: "B \<inter> set ns \<subseteq> {n. map_of ?h n = Some 0}"
    using I(2) fresh unfolding h by force
  have 3: "\<forall>w j. map_of ?h w = Some j \<longrightarrow> within_hops g ns B j w"
    using I(3) I(3)[OF I(4)] unfolding h new by (auto simp: within_hops_Suc)
  have 4: "\<forall>(w, j) \<in> set ?q. map_of ?h w = Some j"
    using I(5) fresh unfolding h by force
  have "sorted (map snd (map (\<lambda>w. (w, Suc k)) new))" by (simp add: sorted_iff_nth_mono)
  moreover have "j \<le> Suc k" if "(w, j) \<in> set queue" for w j using I(8)[OF I(5)[OF that]] .
  ultimately have 5: "sorted (map snd ?q)"
    using I(7) by (auto simp: sorted_append simp del: map_map)
  have 6: "\<forall>(w, j) \<in> set ?q. \<forall>w' j'. map_of ?h w' = Some j' \<longrightarrow> j' \<le> Suc j"
    using I(6,8,9) unfolding h by (fastforce split: if_splits)
  have 7: "w \<in> fst ` set ?q \<or> (\<exists>j' \<le> Suc j. map_of ?h w' = Some j')"
    if "map_of ?h w = Some j" and step: "(w, w') \<in> hop_rel g ns" for w j w'
  proof (cases "w \<in> set new")
    case True
    then show ?thesis by force
  next
    case False
    with that have hw: "map_of hop w = Some j" by (simp add: h)
    from I(10)[OF this step] consider "w = n" | "w \<in> fst ` set queue" | j' where "j' \<le> Suc j" "map_of hop w' = Some j'"
      by blast
    then show ?thesis
    proof cases
      case 1
      then have "j = k" using hw I(4) by simp
      have "\<exists>j' \<le> Suc k. map_of ?h w' = Some j'"
      proof (cases "w' \<in> set new")
        case True
        then show ?thesis by (intro exI[of _ "Suc k"]) (simp add: h)
      next
        case out: False
        then have "w' \<in> visited \<inter> set ns" using step 1 unfolding new hop_rel_def by blast
        then obtain j' where "map_of hop w' = Some j'" using I(1) by blast
        then show ?thesis using I(8) out by (intro exI[of _ j']) (simp add: h)
      qed
      then show ?thesis using \<open>j = k\<close> by blast
    next
      case 2
      then show ?thesis by auto
    next
      case 3
      then show ?thesis using fresh unfolding h by fastforce
    qed
  qed
  show ?thesis unfolding bfs_inv_def by (intro conjI 1 2 3 4 5 6 allI impI 7)
qed

text \<open>When the queue is empty the entries are the distances.\<close>

lemma bfs_inv_final:
  assumes "bfs_inv g ns B [] visited hop"
  shows "map_of hop n = (if \<exists>k. within_hops g ns B k n then Some (LEAST k. within_hops g ns B k n) else None)"
proof -
  have I: "\<And>n. n \<in> B \<inter> set ns \<Longrightarrow> map_of hop n = Some 0"
    "\<And>n k. map_of hop n = Some k \<Longrightarrow> within_hops g ns B k n"
    "\<And>n k w. map_of hop n = Some k \<Longrightarrow> (n, w) \<in> hop_rel g ns \<Longrightarrow> \<exists>j \<le> Suc k. map_of hop w = Some j"
    using assms unfolding bfs_inv_def by auto
  have reach: "\<exists>j \<le> k. map_of hop n = Some j" if "within_hops g ns B k n" for k n
    using that
  proof (induction k arbitrary: n)
    case 0
    then show ?case using I(1) by (simp add: within_hops_0)
  next
    case (Suc k)
    then obtain n' where n': "within_hops g ns B k n'" "(n', n) \<in> hop_rel g ns" by (auto simp: within_hops_Suc)
    from Suc.IH[OF n'(1)] I(3)[OF _ n'(2)] show ?case by (meson Suc_le_mono le_trans)
  qed
  show ?thesis
  proof (cases "\<exists>k. within_hops g ns B k n")
    case True
    then obtain k where k: "within_hops g ns B k n" by blast
    from reach[OF LeastI[of "\<lambda>k. within_hops g ns B k n", OF k]]
    obtain j where "j \<le> (LEAST k. within_hops g ns B k n)" "map_of hop n = Some j" by blast
    moreover have "(LEAST k. within_hops g ns B k n) \<le> j"
      using I(2)[OF \<open>map_of hop n = Some j\<close>] by (rule Least_le)
    ultimately show ?thesis using True by simp
  next
    case False
    then show ?thesis using I(2) by (cases "map_of hop n") auto
  qed
qed

lemma bfs_hops_distance:
  "bfs_inv g ns B queue visited hop \<Longrightarrow>
   map_of (bfs_hops g ns queue visited hop) n
   = (if \<exists>k. within_hops g ns B k n then Some (LEAST k. within_hops g ns B k n) else None)"
proof (induction g ns queue visited hop rule: bfs_hops.induct)
  case (1 g ns visited hop)
  then show ?case unfolding bfs_hops.simps(1) by (rule bfs_inv_final)
next
  case (2 g ns n' k queue visited hop)
  then show ?case using bfs_inv_step[OF 2(2)] by (simp add: bfs_hops.simps(2) Let_def)
qed

lemma bfs_inv_start:
  assumes "start = filter (\<lambda>b. b \<in> set ns) (remdups bs)"
  shows "bfs_inv g ns (set bs) (map (\<lambda>b. (b, 0)) start) (set bs) (map (\<lambda>b. (b, 0)) start)"
proof -
  have "map_of (map (\<lambda>b. (b, 0 :: nat)) xs) n = (if n \<in> set xs then Some 0 else None)" for xs n
    by (induction xs) auto
  then show ?thesis
    unfolding bfs_inv_def by (auto simp: within_hops_0 sorted_iff_nth_mono assms hop_rel_def comp_def image_image split: if_splits)
qed

text \<open>
  The distance published for a node is the number of hops to the nearest border node of the
  domain, counted inside the domain and regardless of edge directions; a node no border node
  reaches gets the size of the domain, and in a domain without border every distance is zero.
\<close>

theorem hop_to_border_correct:
  "hop_to_border g ns bs =
     map (\<lambda>n. (n, if bs = [] then 0
                  else if \<exists>k. \<exists>b \<in> set bs \<inter> set ns. (b, n) \<in> hop_rel g ns ^^ k
                  then LEAST k. \<exists>b \<in> set bs \<inter> set ns. (b, n) \<in> hop_rel g ns ^^ k
                  else length ns)) ns"
proof (cases "bs = []")
  case False
  let ?start = "filter (\<lambda>b. b \<in> set ns) (remdups bs)"
  note D = bfs_hops_distance[OF bfs_inv_start[OF refl, where g = g and ns = ns and bs = bs], unfolded within_hops_def]
  show ?thesis
    using False by (simp add: hop_to_border_def Let_def get_default_def D)
qed (simp add: hop_to_border_def)

section \<open>Bounds\<close>

lemma max_or_one_bound:
  assumes "x \<in> set xs" and "0 \<le> x"
  shows "0 \<le> x / max_or_one xs \<and> x / max_or_one xs \<le> 1"
proof -
  have "x \<le> Max (set xs)" using assms(1) by simp
  then show ?thesis using assms(2) by (auto simp: max_or_one_def Let_def)
qed

lemma frac_or_one_bound: "0 \<le> x \<Longrightarrow> x \<le> y \<Longrightarrow> 0 \<le> frac_or_one x y \<and> frac_or_one x y \<le> 1"
  by (simp add: frac_or_one_def)

lemma flag_bound: "0 \<le> flag b \<and> flag b \<le> 1"
  by (simp add: flag_def)

lemma mean_or_one_bound:
  assumes "\<And>x. x \<in> set xs \<Longrightarrow> 0 \<le> x \<and> x \<le> 1"
  shows "0 \<le> mean_or_one xs \<and> mean_or_one xs \<le> 1"
proof -
  have "0 \<le> sum_list xs" using assms by (intro sum_list_nonneg) auto
  moreover have "sum_list xs \<le> real (length xs)"
    using assms by (induction xs) (auto intro: order_trans add_mono)
  ultimately show ?thesis by (auto simp: mean_or_one_def)
qed

lemma takeWhile_shorter: "n \<in> set xs \<Longrightarrow> length (takeWhile (\<lambda>w. w \<noteq> n) xs) < length xs"
  by (induction xs) auto

lemma get_default_keyed_map: "n \<in> set ns \<Longrightarrow> get_default (map (\<lambda>n. (n, f n)) ns) n x = f n"
  by (induction ns) (auto simp: get_default_def)

lemma hop_listed:
  assumes "n \<in> set ns"
  shows "get_default (hop_to_border g ns bs) n x \<in> set (vals (hop_to_border g ns bs))"
proof -
  have "\<exists>f. hop_to_border g ns bs = map (\<lambda>n. (n, f n)) ns"
    unfolding hop_to_border_def Let_def by (cases "bs = []") (auto simp del: map_eq_conv)
  then obtain f where "hop_to_border g ns bs = map (\<lambda>n. (n, f n)) ns" by blast
  then show ?thesis using assms by (simp add: get_default_keyed_map comp_def)
qed

lemma out_degree_bound:
  assumes "(n, d) \<in> set rows"
  shows "real (out_degree es n) / real (max_degree es rows) \<le> 1"
proof -
  have "out_degree es n \<le> Max (set (map (\<lambda>(w, x). out_degree es w) rows))"
    using assms by (intro Max_ge) force+
  then have "out_degree es n \<le> max 1 (Max (set (map (\<lambda>(w, x). out_degree es w) rows)))"
    by (rule le_trans) simp
  then show ?thesis unfolding max_degree_def by (intro divide_le_eq_1[THEN iffD2]) simp
qed

definition unit_interval :: "real \<Rightarrow> bool" where
  "unit_interval x \<longleftrightarrow> 0 \<le> x \<and> x \<le> 1"

definition sane_delays :: "'a graph_scheme \<Rightarrow> bool" where
  "sane_delays g \<longleftrightarrow> (\<forall>(n, d) \<in> set (g_nodes g). 0 \<le> processing_delay d)
     \<and> (\<forall>(e, d) \<in> set (g_edges g). 0 \<le> propagation_delay d)"

lemma max_delay_ge: "x \<le> fold (\<lambda>(e, d) x. max x (propagation_delay d)) es x"
proof (induction es arbitrary: x)
  case (Cons a es)
  show ?case using Cons.IH[of "max x (propagation_delay (snd a))"] by (auto simp: case_prod_unfold)
qed simp

lemma max_delay_in: "(e, d) \<in> set es \<Longrightarrow> propagation_delay d \<le> fold (\<lambda>(e, d) x. max x (propagation_delay d)) es x"
proof (induction es arbitrary: x)
  case (Cons a es)
  then show ?case
    using max_delay_ge[of "max x (propagation_delay d)" es] by (auto simp: case_prod_unfold)
qed simp

lemma incident_unit:
  assumes "\<And>e d. (e, d) \<in> set es \<Longrightarrow> unit_interval (bw_frac d)" and "x \<in> set (incident_fracs es n)"
  shows "unit_interval x"
  using assms by (auto simp: incident_fracs_def split: if_splits)

lemma node_features_bound:
  assumes row: "(n, d) \<in> set rows" and ns: "ns = map fst rows"
    and res: "0 \<le> cpu_residual d" "cpu_residual d \<le> cpu_capacity d" "0 \<le> ram_residual d" "ram_residual d \<le> ram_capacity d"
    and delay: "0 \<le> processing_delay d"
    and es: "\<And>e d. (e, d) \<in> set es \<Longrightarrow> unit_interval (bw_frac d)"
  shows "length (node_features rows es (hop_to_border g ns bs) border target placed (n, d)) = 16
    \<and> (\<forall>x \<in> set (node_features rows es (hop_to_border g ns bs) border target placed (n, d)). unit_interval x)"
proof -
  let ?h = "hop_to_border g ns bs"
  have "n \<in> set ns" using row ns by force
  then have "get_default ?h n (max_hop ?h) \<le> Max (set (vals ?h))" by (intro Max_ge hop_listed) simp
  then have hop: "unit_interval (real (get_default ?h n (max_hop ?h)) / real (max_hop ?h))"
    by (auto simp: unit_interval_def max_hop_def Let_def)
  have deg: "unit_interval (real (out_degree es n) / real (max_degree es rows))"
    using out_degree_bound[OF row] by (simp add: unit_interval_def)
  have cap: "unit_interval (cpu_capacity d / max_or_one (map (\<lambda>(w, x). cpu_capacity x) rows))"
    "unit_interval (ram_capacity d / max_or_one (map (\<lambda>(w, x). ram_capacity x) rows))"
    "unit_interval (processing_delay d / max_or_one (map (\<lambda>(w, x). processing_delay x) rows))"
    unfolding unit_interval_def by (rule max_or_one_bound; use row res delay in force)+
  have "unit_interval (frac_or_one (cpu_residual d) (cpu_capacity d))"
    "unit_interval (frac_or_one (ram_residual d) (ram_capacity d))"
    unfolding unit_interval_def by (rule frac_or_one_bound, fact, fact)+
  moreover have "unit_interval (mean_or_one (incident_fracs es n))"
    unfolding unit_interval_def by (rule mean_or_one_bound) (use incident_unit[OF es] in \<open>auto simp: unit_interval_def\<close>)
  moreover have "unit_interval (flag b)" for b by (simp add: unit_interval_def flag_def)
  moreover have "unit_interval (min 1 (processing_delay d / mdo_delay_ref))" "unit_interval 0"
    using delay by (auto simp: unit_interval_def mdo_delay_ref_def)
  ultimately show ?thesis
    using hop deg cap by (simp add: node_features_def Let_def)
qed

text \<open>
  On a substrate within its capacities, with non-negative delays, the observation has one
  row of sixteen features per node of the domain and one pair per edge inside it, the edge
  indices point at nodes, and every number lies in the unit interval.
\<close>

theorem domain_observation_bounds:
  assumes "within_capacity g" and "sane_delays g"
    and "build_domain_observation g m targets placed = (ob, ns)"
  shows "length (do_x ob) = length ns
    \<and> (\<forall>row \<in> set (do_x ob). length row = 16 \<and> (\<forall>x \<in> set row. unit_interval x))
    \<and> length (do_edge_attr ob) = length (do_edge_index ob)
    \<and> (\<forall>(i, j) \<in> set (do_edge_index ob). i < length ns \<and> j < length ns)
    \<and> (\<forall>(x, y) \<in> set (do_edge_attr ob). unit_interval x \<and> unit_interval y)"
proof (cases "map fst (node_rows g m) = []")
  case True
  then show ?thesis using assms(3) by (auto simp: build_domain_observation_def)
next
  case False
  let ?rows = "node_rows g m" and ?ns = "map fst (node_rows g m)"
  let ?es = "intra_edges g ?ns"
  have rows: "set ?rows \<subseteq> set (g_nodes g)" by (auto simp: node_rows_def)
  have es: "unit_interval (bw_frac d)" if "(e, d) \<in> set ?es" for e d
    using that assms(1) unfolding unit_interval_def bw_frac_def
    by (auto simp: intra_edges_def within_capacity_def no_overbooking_def divide_le_eq)
  have delay: "unit_interval (propagation_delay d / fold (\<lambda>(e, d) x. max x (propagation_delay d)) ?es 1)"
    if "(e, d) \<in> set ?es" for e d
  proof -
    have "0 \<le> propagation_delay d" using that assms(2) by (auto simp: intra_edges_def sane_delays_def)
    then show ?thesis
      using max_delay_in[OF that, of 1] max_delay_ge[of 1 ?es] by (auto simp: unit_interval_def divide_le_eq)
  qed
  have idx: "node_index ?ns n < length ?ns" if "n \<in> set ?ns" for n
    using that unfolding node_index_def by (rule takeWhile_shorter)
  have feat: "length (node_features ?rows ?es (hop_to_border g ?ns bs) border target placed r) = 16
      \<and> (\<forall>x \<in> set (node_features ?rows ?es (hop_to_border g ?ns bs) border target placed r). unit_interval x)"
    if "r \<in> set ?rows" for r bs border target
  proof -
    obtain n d where r: "r = (n, d)" by (cases r)
    have "(n, d) \<in> set (g_nodes g)" using that rows r by blast
    then show ?thesis
      unfolding r using that assms(1,2) es
      by (intro node_features_bound[OF that[unfolded r] refl])
         (auto simp: within_capacity_def no_overbooking_def sane_delays_def)
  qed
  note eq = assms(3)[unfolded build_domain_observation_def Let_def if_not_P[OF False] prod.inject]
  obtain bs border target where
    x: "do_x ob = map (node_features ?rows ?es (hop_to_border g ?ns bs) border target placed) ?rows"
    and ix: "do_edge_index ob = map (\<lambda>((u, v), d). (node_index ?ns u, node_index ?ns v)) ?es"
    and at: "do_edge_attr ob = map (\<lambda>(e, d). (bw_frac d, propagation_delay d
               / fold (\<lambda>(e, d) x. max x (propagation_delay d)) ?es 1)) ?es"
    and ns: "ns = ?ns"
    by (rule that, unfold conjunct1[OF eq, symmetric] conjunct2[OF eq, symmetric] domain_obs.simps, (rule refl)+)
  have "\<forall>row \<in> set (do_x ob). length row = 16 \<and> (\<forall>x \<in> set row. unit_interval x)"
    unfolding x set_map by (intro ballI) (elim imageE, hypsubst, rule feat)
  moreover have "\<forall>(i, j) \<in> set (do_edge_index ob). i < length ns \<and> j < length ns"
    unfolding ix ns set_map using idx by (auto simp: intra_edges_def simp del: length_map set_map)
  moreover have "\<forall>(x, y) \<in> set (do_edge_attr ob). unit_interval x \<and> unit_interval y"
    unfolding at set_map using es delay by auto
  ultimately show ?thesis by (simp add: x ix at ns)
qed

theorem domain_observation_bounds_witness:
  "\<exists>ob. build_domain_observation ex_sub 0 {1} {} = (ob, [''a'', ''b''])
     \<and> map length (do_x ob) = [16, 16] \<and> map (\<lambda>r. r ! 11) (do_x ob) = [1, 0]
     \<and> list_all (list_all unit_interval) (do_x ob)"
proof -
  have "(case build_domain_observation ex_sub 0 {1} {} of (ob, ns) \<Rightarrow>
      ns = [''a'', ''b''] \<and> map length (do_x ob) = [16, 16] \<and> map (\<lambda>r. r ! 11) (do_x ob) = [1, 0])"
    by code_simp
  then obtain ob where ob: "build_domain_observation ex_sub 0 {1} {} = (ob, [''a'', ''b''])"
    and d: "map length (do_x ob) = [16, 16]" "map (\<lambda>r. r ! 11) (do_x ob) = [1, 0]"
    by (auto split: prod.splits)
  have "within_capacity ex_sub" "sane_delays ex_sub" by code_simp+
  from domain_observation_bounds[OF this ob] ob d show ?thesis by (auto simp: list_all_iff)
qed

end
