(* ===== verification/Condition_Signature.thy ===== *)
theory Condition_Signature
  imports Sampling Domain_Observation
begin

text \<open>
  The network-condition signature (\<open>src/src/orion/llm/condition_signature.py\<close>): the congestion
  snapshot of a substrate, the similarity of two snapshots and their text terms. A snapshot is a
  dictionary whose keys may be missing, so every field is optional; a field that is there has the
  type the signature gives it. The switch \<open>GRADED_LOAD_LEVEL\<close>, read from the environment, is an
  argument.

  Lemmas and theorem: the similarity is symmetric, lies in the unit interval and is 1 on equal
  snapshots; every fraction of a signature lies in the unit interval when no residual exceeds its
  capacity.
\<close>

section \<open>The snapshot\<close>

record condition =
  cd_load_level :: "string option"
  cd_cpu :: "real option"
  cd_ram :: "real option"
  cd_domain_cpu :: "real list option"
  cd_domain_ram :: "real list option"
  cd_tier_cpu :: "(tier, real) dict option"
  cd_bw_mean :: "real option"
  cd_bw_min :: "real option"
  cd_active :: "nat option"
  cd_bucket :: "string option"

definition empty_condition :: condition where
  "empty_condition = \<lparr>cd_load_level = None, cd_cpu = None, cd_ram = None, cd_domain_cpu = None,
     cd_domain_ram = None, cd_tier_cpu = None, cd_bw_mean = None, cd_bw_min = None, cd_active = None,
     cd_bucket = None\<rparr>"

definition condition_buckets :: "(real \<times> string) list" where
  "condition_buckets = [(75 / 100, ''free''), (50 / 100, ''moderate''), (25 / 100, ''tight''), (0, ''saturated'')]"

definition occupancy_bucket :: "real \<Rightarrow> string" where
  "occupancy_bucket x =
     (case List.find (\<lambda>(lo, name). lo \<le> x) condition_buckets of
        Some (lo, name) \<Rightarrow> name | None \<Rightarrow> ''saturated'')"

definition safe_frac :: "real \<Rightarrow> real \<Rightarrow> real" where
  "safe_frac residual capacity = (if 0 < capacity then residual / capacity else 0)"

text \<open>The totals of a set of nodes: residual and capacity of CPU, then of RAM.\<close>

definition node_sums :: "node_data list \<Rightarrow> (real \<times> real) \<times> (real \<times> real)" where
  "node_sums ds =
     ((sum_list (map cpu_residual ds), sum_list (map cpu_capacity ds)),
      (sum_list (map ram_residual ds), sum_list (map ram_capacity ds)))"

definition domain_data :: "'a graph_scheme \<Rightarrow> int \<Rightarrow> node_data list" where
  "domain_data g m = map snd (filter (\<lambda>(n, d). domain_id d = m) (g_nodes g))"

text \<open>The populated domains, in id order.\<close>

definition populated :: "substrate \<Rightarrow> int list" where
  "populated S = filter (\<lambda>m. domain_data S m \<noteq> []) (map int [0..<num_domains S])"

definition tier_totals :: "'a graph_scheme \<Rightarrow> tier \<Rightarrow> real \<times> real" where
  "tier_totals g t = fst (node_sums (map snd (filter (\<lambda>(n, d). node_tier d = t) (g_nodes g))))"

definition add_pair :: "'a graph_scheme \<Rightarrow> (node_id \<times> node_id) \<times> edge_data
    \<Rightarrow> (int \<times> int, real \<times> real) dict \<Rightarrow> (int \<times> int, real \<times> real) dict" where
  "add_pair g = (\<lambda>((u, v), d) acc.
     if crosses g (u, v)
     then let k = (domain_of g u, domain_of g v); (r, c) = get_default acc k (0, 0)
          in AList.update k (r + bw_residual d, c + bandwidth_capacity d) acc
     else acc)"

definition inter_fracs :: "'a graph_scheme \<Rightarrow> real list" where
  "inter_fracs g = map (\<lambda>(k, r, c). safe_frac r c) (fold (add_pair g) (g_edges g) [])"

definition blank :: "string \<Rightarrow> bool" where
  "blank s \<longleftrightarrow> list_all (\<lambda>c. c \<in> {CHR '' '', CHR 0x09, CHR 0x0A, CHR 0x0B, CHR 0x0C, CHR 0x0D}) s"

text \<open>
  \<open>num_active_slices\<close> is not an attribute of the substrate, so the count of active slices is the
  default of \<open>getattr\<close>, zero.
\<close>

definition condition_snapshot :: "substrate \<Rightarrow> string \<Rightarrow> condition" where
  "condition_snapshot S level =
     (let tot = map (\<lambda>m. node_sums (domain_data S m)) (populated S);
          cpu_frac = safe_frac (sum_list (map (fst \<circ> fst) tot)) (sum_list (map (snd \<circ> fst) tot));
          ram_frac = safe_frac (sum_list (map (fst \<circ> snd) tot)) (sum_list (map (snd \<circ> snd) tot));
          fracs = inter_fracs S
      in \<lparr>cd_load_level = Some level,
          cd_cpu = Some (py_round cpu_frac 3), cd_ram = Some (py_round ram_frac 3),
          cd_domain_cpu = Some (map (\<lambda>x. py_round (safe_frac (fst (fst x)) (snd (fst x))) 3) tot),
          cd_domain_ram = Some (map (\<lambda>x. py_round (safe_frac (fst (snd x)) (snd (snd x))) 3) tot),
          cd_tier_cpu = Some (map (\<lambda>t. (t, py_round (safe_frac (fst (tier_totals S t)) (snd (tier_totals S t))) 3)) tier_order),
          cd_bw_mean = Some (if fracs = [] then 0 else py_round (sum_list fracs / real (length fracs)) 3),
          cd_bw_min = Some (case least fracs of None \<Rightarrow> 0 | Some x \<Rightarrow> py_round x 3),
          cd_active = Some 0,
          cd_bucket = Some (occupancy_bucket (min cpu_frac ram_frac))\<rparr>)"

definition compute_condition_signature :: "substrate \<Rightarrow> string option \<Rightarrow> py_error + condition" where
  "compute_condition_signature S load_level =
     (case load_level of
        None \<Rightarrow> Inr (condition_snapshot S [])
      | Some l \<Rightarrow> if blank l then Inl ValueError else Inr (condition_snapshot S l))"

section \<open>Similarity\<close>

definition scale_cpu :: real where "scale_cpu = 664 / 1000"

definition scale_ram :: real where "scale_ram = 318 / 1000"

definition scale_domain_cpu :: real where "scale_domain_cpu = 907 / 1000"

definition scale_domain_ram :: real where "scale_domain_ram = 460 / 1000"

fun tier_scale :: "tier \<Rightarrow> real" where
  "tier_scale Edge = 841 / 1000"
| "tier_scale RegionalCloud = 954 / 1000"
| "tier_scale CentralCloud = 188 / 1000"

definition level_order :: "(string, int) dict" where
  "level_order = [(''L1'', 0), (''L2'', 1), (''L3'', 2), (''L4'', 3)]"

definition level_similarity :: "bool \<Rightarrow> string \<Rightarrow> string \<Rightarrow> real" where
  "level_similarity graded la lb =
     (if la = lb then 1
      else if \<not> graded then 0
      else case (map_of level_order la, map_of level_order lb) of
          (Some ia, Some ib) \<Rightarrow> max 0 (1 - real_of_int \<bar>ia - ib\<bar> / (real (length level_order) - 1))
        | _ \<Rightarrow> 0)"

definition term_sim :: "real \<Rightarrow> real \<Rightarrow> real" where
  "term_sim diff scale = (if 0 < scale then max 0 (1 - diff / scale) else 1)"

definition scalar_term :: "real \<Rightarrow> real option \<Rightarrow> real option \<Rightarrow> real list" where
  "scalar_term scale va vb =
     (case (va, vb) of (Some x, Some y) \<Rightarrow> [term_sim \<bar>x - y\<bar> scale] | _ \<Rightarrow> [])"

definition vector_term :: "real \<Rightarrow> real list option \<Rightarrow> real list option \<Rightarrow> real list" where
  "vector_term scale va vb =
     (case (va, vb) of
        (Some xs, Some ys) \<Rightarrow>
          if xs \<noteq> [] \<and> length xs = length ys
          then [term_sim (sum_list (map2 (\<lambda>x y. \<bar>x - y\<bar>) xs ys) / real (length xs)) scale]
          else []
      | _ \<Rightarrow> [])"

definition shared_tiers :: "(tier, real) dict \<Rightarrow> (tier, real) dict \<Rightarrow> tier list" where
  "shared_tiers ta tb = sort_key tier_value (filter (\<lambda>t. t \<in> set (keys ta) \<and> t \<in> set (keys tb)) tier_order)"

definition tier_term :: "(tier, real) dict option \<Rightarrow> (tier, real) dict option \<Rightarrow> real list" where
  "tier_term va vb =
     (case (va, vb) of
        (Some ta, Some tb) \<Rightarrow>
          let shared = shared_tiers ta tb in
          if shared = [] then []
          else [sum_list (map (\<lambda>k. term_sim \<bar>get_default ta k 0 - get_default tb k 0\<bar> (tier_scale k)) shared)
                / real (length shared)]
      | _ \<Rightarrow> [])"

definition level_term :: "bool \<Rightarrow> string option \<Rightarrow> string option \<Rightarrow> real list" where
  "level_term graded va vb =
     (case (va, vb) of
        (Some la, Some lb) \<Rightarrow> if la \<noteq> [] \<and> lb \<noteq> [] then [level_similarity graded la lb] else []
      | _ \<Rightarrow> [])"

definition sim_terms :: "bool \<Rightarrow> condition \<Rightarrow> condition \<Rightarrow> real list" where
  "sim_terms graded a b =
     scalar_term scale_cpu (cd_cpu a) (cd_cpu b) @ scalar_term scale_ram (cd_ram a) (cd_ram b)
     @ vector_term scale_domain_cpu (cd_domain_cpu a) (cd_domain_cpu b)
     @ vector_term scale_domain_ram (cd_domain_ram a) (cd_domain_ram b)
     @ tier_term (cd_tier_cpu a) (cd_tier_cpu b)
     @ level_term graded (cd_load_level a) (cd_load_level b)"

definition condition_similarity :: "bool \<Rightarrow> condition \<Rightarrow> condition \<Rightarrow> real" where
  "condition_similarity graded a b =
     (if a = empty_condition \<or> b = empty_condition then 0
      else let sims = sim_terms graded a b
           in if sims = [] then 0 else sum_list sims / real (length sims))"

definition condition_query_terms :: "condition option \<Rightarrow> string list" where
  "condition_query_terms c =
     (case c of
        None \<Rightarrow> []
      | Some a \<Rightarrow>
          if a = empty_condition then []
          else [''congestion '' @ (case cd_bucket a of None \<Rightarrow> ''unknown'' | Some x \<Rightarrow> x)]
             @ (case cd_load_level a of None \<Rightarrow> [] | Some l \<Rightarrow> if l = [] then [] else [''load '' @ l])
             @ (case cd_tier_cpu a of None \<Rightarrow> []
                | Some ts \<Rightarrow> map (\<lambda>t. t @ '' exhausted'')
                    (sort (map (\<lambda>(t, v). tier_value t) (filter (\<lambda>(t, v). v < 1 / 4) ts)))))"

section \<open>The similarity is a similarity\<close>

lemma term_sim_unit: "0 \<le> diff \<Longrightarrow> unit_interval (term_sim diff scale)"
  by (simp add: term_sim_def unit_interval_def)

lemma term_sim_zero: "term_sim 0 scale = 1"
  by (simp add: term_sim_def)

lemma mean_unit:
  assumes "xs \<noteq> []" and "\<forall>x \<in> set xs. unit_interval x"
  shows "unit_interval (sum_list xs / real (length xs))"
proof -
  have "0 \<le> sum_list xs" using assms(2) by (intro sum_list_nonneg) (auto simp: unit_interval_def)
  moreover have "sum_list xs \<le> sum_list (map (\<lambda>x. 1) xs)"
    using assms(2) sum_list_mono[of xs "\<lambda>x. x" "\<lambda>x. 1 :: real"] by (simp add: unit_interval_def)
  then have "sum_list xs \<le> real (length xs)" by (simp add: sum_list_triv)
  ultimately show ?thesis using assms(1) by (simp add: unit_interval_def divide_le_eq_1)
qed

lemma mean_one:
  assumes "xs \<noteq> []" and "\<forall>x \<in> set xs. x = (1 :: real)"
  shows "sum_list xs / real (length xs) = 1"
proof -
  have "sum_list xs = real (length xs)" using assms(2) by (induction xs) auto
  then show ?thesis using assms(1) by simp
qed

lemma level_similarity_unit: "unit_interval (level_similarity graded la lb)"
  by (auto simp: level_similarity_def unit_interval_def level_order_def split: option.splits)

lemma level_similarity_commute: "level_similarity graded la lb = level_similarity graded lb la"
  by (auto simp: level_similarity_def abs_minus_commute split: option.splits)

lemma shared_tiers_commute: "shared_tiers ta tb = shared_tiers tb ta"
  by (simp add: shared_tiers_def conj_commute)

lemma map2_abs_commute: "map2 (\<lambda>x y. \<bar>x - y\<bar>) xs ys = map2 (\<lambda>x y. \<bar>x - y\<bar>) ys (xs :: real list)"
  by (rule nth_equalityI) (auto simp: abs_minus_commute min.commute)

lemma scalar_term_commute: "scalar_term k va vb = scalar_term k vb va"
  by (cases va; cases vb) (simp_all add: scalar_term_def abs_minus_commute)

lemma vector_term_commute: "vector_term k va vb = vector_term k vb va"
  by (cases va; cases vb) (auto simp: vector_term_def map2_abs_commute)

lemma tier_term_commute: "tier_term va vb = tier_term vb va"
  by (cases va; cases vb) (simp_all add: tier_term_def Let_def shared_tiers_commute abs_minus_commute)

lemma level_term_commute: "level_term graded va vb = level_term graded vb va"
  by (cases va; cases vb) (auto simp: level_term_def level_similarity_commute)

lemma sim_terms_commute: "sim_terms graded a b = sim_terms graded b a"
  by (simp add: sim_terms_def scalar_term_commute[of _ "_ a"] vector_term_commute[of _ "_ a"]
      tier_term_commute[of "_ a"] level_term_commute[of _ "_ a"])

lemma map2_abs_nonneg: "0 \<le> sum_list (map2 (\<lambda>x y. \<bar>x - y\<bar>) xs (ys :: real list))"
  by (rule sum_list_nonneg) auto

lemma map2_abs_self: "sum_list (map2 (\<lambda>x y. \<bar>x - y\<bar>) xs xs) = (0 :: real)"
  by (induction xs) auto

lemma scalar_term_unit: "x \<in> set (scalar_term k va vb) \<Longrightarrow> unit_interval x"
  by (cases va; cases vb) (auto simp: scalar_term_def term_sim_unit)

lemma vector_term_unit: "x \<in> set (vector_term k va vb) \<Longrightarrow> unit_interval x"
  by (cases va; cases vb) (auto simp: vector_term_def map2_abs_nonneg intro!: term_sim_unit split: if_splits)

lemma tier_term_unit:
  assumes "x \<in> set (tier_term va vb)"
  shows "unit_interval x"
proof -
  obtain ta tb where t: "va = Some ta" "vb = Some tb" "shared_tiers ta tb \<noteq> []"
    using assms by (cases va; cases vb) (auto simp: tier_term_def Let_def split: if_splits)
  then show ?thesis
    using assms mean_unit[of "map (\<lambda>k. term_sim \<bar>get_default ta k 0 - get_default tb k 0\<bar> (tier_scale k)) (shared_tiers ta tb)"]
    by (simp add: tier_term_def Let_def term_sim_unit)
qed

lemma level_term_unit: "x \<in> set (level_term graded va vb) \<Longrightarrow> unit_interval x"
  by (cases va; cases vb) (auto simp: level_term_def level_similarity_unit split: if_splits)

lemma sim_terms_unit: "x \<in> set (sim_terms graded a b) \<Longrightarrow> unit_interval x"
  unfolding sim_terms_def set_append Un_iff
  by (elim disjE) (erule scalar_term_unit vector_term_unit tier_term_unit level_term_unit)+

lemma sim_terms_self: "x \<in> set (sim_terms graded a a) \<Longrightarrow> x = 1"
  unfolding sim_terms_def set_append Un_iff
  by (cases "cd_cpu a"; cases "cd_ram a"; cases "cd_domain_cpu a"; cases "cd_domain_ram a"; cases "cd_tier_cpu a";
      cases "cd_load_level a")
    (auto simp: scalar_term_def vector_term_def tier_term_def level_term_def Let_def term_sim_zero map2_abs_self
      level_similarity_def sum_list_triv split: if_splits)

lemma condition_similarity_unit: "unit_interval (condition_similarity graded a b)"
  using mean_unit[of "sim_terms graded a b"] sim_terms_unit[of _ graded a b]
  by (auto simp: condition_similarity_def Let_def unit_interval_def)

lemma condition_similarity_commute: "condition_similarity graded a b = condition_similarity graded b a"
  by (simp add: condition_similarity_def sim_terms_commute disj_commute)

lemma condition_similarity_self:
  assumes "sim_terms graded a a \<noteq> []" and "a \<noteq> empty_condition"
  shows "condition_similarity graded a a = 1"
proof -
  have "sum_list (sim_terms graded a a) / real (length (sim_terms graded a a)) = 1"
    using assms(1) sim_terms_self by (intro mean_one) auto
  with assms show ?thesis unfolding condition_similarity_def Let_def by (simp only: simp_thms if_False)
qed

section \<open>Signatures\<close>

lemma safe_frac_unit: "0 \<le> r \<Longrightarrow> r \<le> c \<Longrightarrow> unit_interval (safe_frac r c)"
  by (simp add: safe_frac_def unit_interval_def)

lemma py_round_unit: "unit_interval x \<Longrightarrow> unit_interval (py_round x n)"
  using py_round_le[of x 1 n "10 ^ n"] py_round_nonneg[of x n] by (simp add: unit_interval_def)

definition sums_ok :: "(real \<times> real) \<times> (real \<times> real) \<Rightarrow> bool" where
  "sums_ok x \<longleftrightarrow> 0 \<le> fst (fst x) \<and> fst (fst x) \<le> snd (fst x) \<and> 0 \<le> fst (snd x) \<and> fst (snd x) \<le> snd (snd x)"

lemma node_sums_ok:
  assumes "\<forall>d \<in> set ds. 0 \<le> cpu_residual d \<and> cpu_residual d \<le> cpu_capacity d
    \<and> 0 \<le> ram_residual d \<and> ram_residual d \<le> ram_capacity d"
  shows "sums_ok (node_sums ds)"
  using assms unfolding sums_ok_def node_sums_def fst_conv snd_conv
  by (intro conjI sum_list_mono sum_list_nonneg) auto

lemma sum_sums_ok:
  assumes "\<forall>x \<in> set xs. sums_ok x"
  shows "sums_ok ((sum_list (map (fst \<circ> fst) xs), sum_list (map (snd \<circ> fst) xs)),
    (sum_list (map (fst \<circ> snd) xs), sum_list (map (snd \<circ> snd) xs)))"
  using assms unfolding sums_ok_def fst_conv snd_conv
  by (intro conjI sum_list_mono sum_list_nonneg) auto

lemma safe_frac_sums:
  assumes "sums_ok x"
  shows "unit_interval (safe_frac (fst (fst x)) (snd (fst x)))" "unit_interval (safe_frac (fst (snd x)) (snd (snd x)))"
  using assms by (simp_all add: sums_ok_def safe_frac_unit)

text \<open>
  The condition signature raises exactly on a blank load level; on a substrate within capacity
  its fractions lie in the unit interval. It is at similarity 1 to itself, and its similarity to any
  other snapshot is symmetric and lies in the unit interval.
\<close>

theorem condition_signature_correct:
  assumes "within_capacity S"
  shows "case compute_condition_signature S lvl of
      Inl e \<Rightarrow> e = ValueError \<and> (\<exists>l. lvl = Some l \<and> blank l)
    | Inr c \<Rightarrow> (\<forall>l. lvl = Some l \<longrightarrow> \<not> blank l)
        \<and> list_all unit_interval (the (cd_cpu c) # the (cd_ram c) # the (cd_domain_cpu c) @ the (cd_domain_ram c)
             @ vals (the (cd_tier_cpu c)))
        \<and> condition_similarity graded c c = 1
        \<and> unit_interval (condition_similarity graded c d)
        \<and> condition_similarity graded c d = condition_similarity graded d c"
proof -
  let ?xs = "map (\<lambda>m. node_sums (domain_data S m)) (populated S)"
  let ?t = "((sum_list (map (fst \<circ> fst) ?xs), sum_list (map (snd \<circ> fst) ?xs)),
    (sum_list (map (fst \<circ> snd) ?xs), sum_list (map (snd \<circ> snd) ?xs)))"
  have node: "sums_ok (node_sums (map snd (filter P (g_nodes S))))" for P
    by (rule node_sums_ok) (use assms in \<open>auto simp: within_capacity_def no_overbooking_def\<close>)
  have xs: "\<forall>x \<in> set ?xs. sums_ok x" by (auto simp: domain_data_def node)
  have t: "unit_interval (safe_frac (fst (tier_totals S t)) (snd (tier_totals S t)))" for t
    unfolding tier_totals_def by (rule safe_frac_sums(1)) (rule node)
  have snap: "list_all unit_interval (the (cd_cpu c) # the (cd_ram c) # the (cd_domain_cpu c) @ the (cd_domain_ram c)
      @ vals (the (cd_tier_cpu c))) \<and> condition_similarity graded c c = 1"
    if c: "c = condition_snapshot S l" for c l
  proof
    have parts: "cd_cpu c = Some (py_round (safe_frac (fst (fst ?t)) (snd (fst ?t))) 3)"
      "cd_ram c = Some (py_round (safe_frac (fst (snd ?t)) (snd (snd ?t))) 3)"
      "cd_domain_cpu c = Some (map (\<lambda>x. py_round (safe_frac (fst (fst x)) (snd (fst x))) 3) ?xs)"
      "cd_domain_ram c = Some (map (\<lambda>x. py_round (safe_frac (fst (snd x)) (snd (snd x))) 3) ?xs)"
      "cd_tier_cpu c = Some (map (\<lambda>t. (t, py_round (safe_frac (fst (tier_totals S t)) (snd (tier_totals S t))) 3)) tier_order)"
      unfolding c condition_snapshot_def Let_def by (simp_all only: condition.simps fst_conv snd_conv)
    have "unit_interval (the (cd_cpu c))" "unit_interval (the (cd_ram c))"
      unfolding parts option.sel by (rule py_round_unit, rule safe_frac_sums, rule sum_sums_ok, rule xs)+
    moreover have "list_all unit_interval (the (cd_domain_cpu c))" "list_all unit_interval (the (cd_domain_ram c))"
      unfolding parts option.sel using xs by (auto simp: list_all_iff intro: py_round_unit safe_frac_sums)
    moreover have "list_all unit_interval (vals (the (cd_tier_cpu c)))"
      unfolding parts option.sel using t by (auto simp: list_all_iff intro: py_round_unit)
    ultimately show "list_all unit_interval (the (cd_cpu c) # the (cd_ram c) # the (cd_domain_cpu c) @ the (cd_domain_ram c)
        @ vals (the (cd_tier_cpu c)))" by simp
    show "condition_similarity graded c c = 1"
    proof (rule condition_similarity_self)
      show "sim_terms graded c c \<noteq> []" unfolding sim_terms_def scalar_term_def parts(1) by simp
      have "cd_cpu empty_condition = None" by (simp add: empty_condition_def)
      then show "c \<noteq> empty_condition" using parts(1) by fastforce
    qed
  qed
  show ?thesis
  proof (cases "compute_condition_signature S lvl")
    case (Inl e)
    then show ?thesis by (auto simp: compute_condition_signature_def split: option.splits if_splits)
  next
    case (Inr c)
    then obtain l where "c = condition_snapshot S l" "\<forall>l. lvl = Some l \<longrightarrow> \<not> blank l"
      by (auto simp: compute_condition_signature_def split: option.splits if_splits)
    with snap[of c l] Inr condition_similarity_unit condition_similarity_commute show ?thesis by simp
  qed
qed

theorem condition_signature_correct_witness:
  "within_capacity ex_sub \<and> (case compute_condition_signature ex_sub (Some ''L2'') of Inl e \<Rightarrow> False
     | Inr c \<Rightarrow> condition_similarity False c c = 1)"
proof -
  have w: "within_capacity ex_sub" by code_simp
  have b: "\<not> blank ''L2''" by code_simp
  note c = condition_signature_correct[OF w, of "Some ''L2''" False empty_condition]
  show ?thesis
    by (cases "compute_condition_signature ex_sub (Some ''L2'')") (use c b w in simp_all)
qed

end
