(* ===== verification/Routing.thy ===== *)
theory Routing
  imports Substrate
begin

text \<open>
  Flow routing (\<open>src/src/orion/actors/routing.py\<close>): the bandwidth and delay filters over the
  first \<open>k\<close> shortest simple paths, the three scores, provisional debits and their undo.

  The path search itself is networkx. It is a parameter \<open>nx\<close> of the model (\<open>nx_lib\<close>), and
  the locale \<open>path_oracle\<close> names what the code relies on: \<open>shortest_simple_paths\<close> yields
  simple paths of the graph it is given, from source to target, and \<open>shortest_path\<close> likewise.
  \<open>dfs_nx\<close>, an exhaustive search ordered by delay, satisfies it.
\<close>

section \<open>The path library\<close>

definition path_edges :: "node_id list \<Rightarrow> (node_id \<times> node_id) list" where
  "path_edges p = zip p (tl p)"

definition simple_path :: "'a graph_scheme \<Rightarrow> node_id \<Rightarrow> node_id \<Rightarrow> node_id list \<Rightarrow> bool" where
  "simple_path g u v p \<longleftrightarrow>
     p \<noteq> [] \<and> hd p = u \<and> last p = v \<and> distinct p
     \<and> set (path_edges p) \<subseteq> set (keys (g_edges g))"

record nx_lib =
  nx_has_path :: "graph \<Rightarrow> node_id \<Rightarrow> node_id \<Rightarrow> bool"
  nx_simple_paths :: "graph \<Rightarrow> node_id \<Rightarrow> node_id \<Rightarrow> node_id list list"
  nx_shortest_path :: "graph \<Rightarrow> node_id \<Rightarrow> node_id \<Rightarrow> node_id list option"

locale path_oracle =
  fixes nx :: nx_lib
  assumes simple_paths_sound: "p \<in> set (nx_simple_paths nx g u v) \<Longrightarrow> simple_path g u v p"
    and shortest_path_sound: "nx_shortest_path nx g u v = Some p \<Longrightarrow> simple_path g u v p"

text \<open>An exhaustive depth-first search with the visited nodes and fuel for the path length.\<close>

fun dfs :: "(node_id \<times> node_id) list \<Rightarrow> nat \<Rightarrow> node_id list \<Rightarrow> node_id \<Rightarrow> node_id \<Rightarrow> node_id list list" where
  "dfs es 0 vis u v = []"
| "dfs es (Suc n) vis u v =
     (if u = v then [[v]]
      else concat (map (\<lambda>(a, b). if a = u \<and> b \<notin> set vis then map ((#) u) (dfs es n (b # vis) b v) else []) es))"

definition path_delay :: "'a graph_scheme \<Rightarrow> node_id list \<Rightarrow> real" where
  "path_delay g p =
     (\<Sum>e \<leftarrow> path_edges p. case map_of (g_edges g) e of None \<Rightarrow> 0 | Some d \<Rightarrow> propagation_delay d)"

definition dfs_paths :: "graph \<Rightarrow> node_id \<Rightarrow> node_id \<Rightarrow> node_id list list" where
  "dfs_paths g u v =
     sort_key (path_delay g) (dfs (keys (g_edges g)) (Suc (length (g_nodes g))) [u] u v)"

definition dfs_nx :: nx_lib where
  "dfs_nx = \<lparr>nx_has_path = (\<lambda>g u v. dfs_paths g u v \<noteq> []),
            nx_simple_paths = dfs_paths,
            nx_shortest_path = (\<lambda>g u v. case dfs_paths g u v of [] \<Rightarrow> None | p # _ \<Rightarrow> Some p)\<rparr>"

lemma path_edges_simps [simp]:
  "path_edges [] = []"
  "path_edges [x] = []"
  "path_edges (x # y # p) = (x, y) # path_edges (y # p)"
  by (simp_all add: path_edges_def)

lemma dfs_sound:
  "p \<in> set (dfs es n vis u v) \<Longrightarrow> u \<in> set vis \<Longrightarrow>
   p \<noteq> [] \<and> hd p = u \<and> last p = v \<and> distinct p \<and> set (tl p) \<inter> set vis = {}
   \<and> set (path_edges p) \<subseteq> set es"
proof (induction es n vis u v arbitrary: p rule: dfs.induct)
  case (2 es n vis u v)
  show ?case
  proof (cases "u = v")
    case True
    with "2.prems" show ?thesis by simp
  next
    case False
    with "2.prems" obtain b q where e: "(u, b) \<in> set es" "b \<notin> set vis"
      and q: "q \<in> set (dfs es n (b # vis) b v)" and p: "p = u # q"
      by (auto split: if_splits)
    have "q \<noteq> [] \<and> hd q = b \<and> last q = v \<and> distinct q \<and> set (tl q) \<inter> set (b # vis) = {}
          \<and> set (path_edges q) \<subseteq> set es"
      using "2.IH"[OF False e(1) refl _ q] e(2) by simp
    moreover obtain b' q' where "q = b' # q'" using calculation by (cases q) auto
    ultimately show ?thesis using e "2.prems"(2) by (auto simp: p)
  qed
qed simp

interpretation dfs_oracle: path_oracle dfs_nx
proof
  have *: "simple_path g u v p" if "p \<in> set (dfs_paths g u v)" for g u v p
    using that dfs_sound[of p "keys (g_edges g)" _ "[u]" u v]
    by (simp add: dfs_paths_def simple_path_def del: dfs.simps)
  show "p \<in> set (nx_simple_paths dfs_nx g u v) \<Longrightarrow> simple_path g u v p" for g u v p
    by (simp add: dfs_nx_def *)
  show "nx_shortest_path dfs_nx g u v = Some p \<Longrightarrow> simple_path g u v p" for g u v p
    by (auto simp: dfs_nx_def intro!: * split: list.splits)
qed

section \<open>RoutingSelector and the two routers\<close>

datatype routing_mode = MinCost | MinDelay | MinHops

text \<open>\<open>RoutingSelector.__init__\<close>: an unknown mode raises.\<close>

definition routing_selector :: "string \<Rightarrow> py_error + routing_mode" where
  "routing_selector m =
     (if m = ''min_cost'' then Inr MinCost
      else if m = ''min_delay'' then Inr MinDelay
      else if m = ''min_hops'' then Inr MinHops
      else Inl ValueError)"

definition link_cost :: "edge_data \<Rightarrow> real" where
  "link_cost d =
     (let ratio = (if bandwidth_capacity d > 0 then bw_residual d / bandwidth_capacity d else 1 / 10 ^ 6)
      in - ln (max ratio (1 / 10 ^ 6)))"

text \<open>A logarithm does not compute: evaluation leaves the cost of a link symbolic.\<close>

declare link_cost_def [code del]

text \<open>\<open>score\<close>: called only on paths whose every edge has been looked up before.\<close>

fun score :: "routing_mode \<Rightarrow> 'a graph_scheme \<Rightarrow> node_id list \<Rightarrow> real" where
  "score MinHops g p = real (length p) - 1"
| "score MinDelay g p = path_delay g p"
| "score MinCost g p =
     (\<Sum>e \<leftarrow> path_edges p. case map_of (g_edges g) e of None \<Rightarrow> 0 | Some d \<Rightarrow> link_cost d)"

record route_result =
  rr_feasible :: bool
  rr_links :: "link_id list"
  rr_nodes :: "node_id list"
  rr_delay :: real
  rr_cost :: xreal

definition same_node_route :: "node_id \<Rightarrow> route_result" where
  "same_node_route n = \<lparr>rr_feasible = True, rr_links = [], rr_nodes = [n], rr_delay = 0, rr_cost = Fin 0\<rparr>"

definition no_route :: route_result where
  "no_route = \<lparr>rr_feasible = False, rr_links = [], rr_nodes = [], rr_delay = 0, rr_cost = PInf\<rparr>"

text \<open>
  The loop over the edges of one candidate: \<open>g.edges[u, v]\<close> raises on a missing edge; an edge
  short of bandwidth makes the path infeasible (\<open>None\<close>); otherwise the accumulated
  propagation delay and link ids.
\<close>

fun walk_path :: "'a graph_scheme \<Rightarrow> real \<Rightarrow> (node_id \<times> node_id) list \<Rightarrow> real \<Rightarrow> link_id list
    \<Rightarrow> py_error + (real \<times> link_id list) option" where
  "walk_path g bw [] t links = Inr (Some (t, links))"
| "walk_path g bw (e # es) t links =
     (case map_of (g_edges g) e of
        None \<Rightarrow> Inl KeyError
      | Some d \<Rightarrow>
          if bw_residual d < bw then Inr None
          else walk_path g bw es (t + propagation_delay d) (links @ [link_id d]))"

text \<open>The loop over the candidates, with \<open>best_result\<close> and \<open>best_score\<close>.\<close>

fun pick_route :: "routing_mode \<Rightarrow> 'a graph_scheme \<Rightarrow> real \<Rightarrow> real \<Rightarrow> node_id list list
    \<Rightarrow> route_result option \<Rightarrow> xreal \<Rightarrow> py_error + route_result option" where
  "pick_route mode g bw budget [] best bscore = Inr best"
| "pick_route mode g bw budget (p # ps) best bscore =
     (case walk_path g bw (path_edges p) 0 [] of
        Inl e \<Rightarrow> Inl e
      | Inr None \<Rightarrow> pick_route mode g bw budget ps best bscore
      | Inr (Some (delay, links)) \<Rightarrow>
          if delay > budget then pick_route mode g bw budget ps best bscore
          else if Fin (score mode g p) < bscore
          then pick_route mode g bw budget ps
                 (Some \<lparr>rr_feasible = True, rr_links = links, rr_nodes = p, rr_delay = delay,
                        rr_cost = Fin (score mode g p)\<rparr>)
                 (Fin (score mode g p))
          else pick_route mode g bw budget ps best bscore)"

text \<open>\<open>substrate.graph.subgraph(domain_set)\<close>.\<close>

definition subgraph :: "'a graph_scheme \<Rightarrow> node_id set \<Rightarrow> graph" where
  "subgraph g ns =
     \<lparr>g_nodes = filter (\<lambda>(n, d). n \<in> ns) (g_nodes g),
      g_edges = filter (\<lambda>((u, v), d). u \<in> ns \<and> v \<in> ns) (g_edges g)\<rparr>"

definition whole_graph :: "'a graph_scheme \<Rightarrow> graph" where
  "whole_graph g = \<lparr>g_nodes = g_nodes g, g_edges = g_edges g\<rparr>"

definition route_flow :: "nx_lib \<Rightarrow> 'a graph_scheme \<Rightarrow> node_id \<Rightarrow> node_id \<Rightarrow> real \<Rightarrow> real
    \<Rightarrow> node_id list \<Rightarrow> nat \<Rightarrow> routing_mode \<Rightarrow> py_error + route_result" where
  "route_flow nx g src dst bw budget domain_nodes k mode =
     (if src = dst then Inr (same_node_route src)
      else
        let sub = subgraph g (set domain_nodes) in
        if \<not> nx_has_path nx sub src dst then Inr no_route
        else case pick_route mode g bw budget (take k (nx_simple_paths nx sub src dst)) None PInf of
            Inl e \<Rightarrow> Inl e
          | Inr None \<Rightarrow> Inr no_route
          | Inr (Some r) \<Rightarrow> Inr r)"

definition route_cross_domain_flow :: "nx_lib \<Rightarrow> 'a graph_scheme \<Rightarrow> node_id \<Rightarrow> node_id \<Rightarrow> real \<Rightarrow> real
    \<Rightarrow> nat \<Rightarrow> routing_mode \<Rightarrow> py_error + route_result" where
  "route_cross_domain_flow nx g src dst bw budget k mode =
     (if src = dst then Inr (same_node_route src)
      else
        let whole = whole_graph g in
        if \<not> nx_has_path nx whole src dst then Inr no_route
        else case pick_route mode g bw budget (take k (nx_simple_paths nx whole src dst)) None PInf of
            Inl e \<Rightarrow> Inl e
          | Inr None \<Rightarrow> Inr no_route
          | Inr (Some r) \<Rightarrow> Inr r)"

definition allocate_route_bw :: "link_id list \<Rightarrow> real \<Rightarrow> 'a graph_scheme \<Rightarrow> 'a graph_scheme" where
  "allocate_route_bw links bw g = fold (\<lambda>l. post_link l (- bw)) links g"

definition deallocate_route_bw :: "link_id list \<Rightarrow> real \<Rightarrow> 'a graph_scheme \<Rightarrow> 'a graph_scheme" where
  "deallocate_route_bw links bw g = fold (\<lambda>l. post_link l bw) links g"

section \<open>What a route guarantees\<close>

text \<open>Every link is an edge of \<open>g\<close> with enough residual bandwidth.\<close>

definition carries :: "'a graph_scheme \<Rightarrow> real \<Rightarrow> link_id list \<Rightarrow> bool" where
  "carries g bw ls \<longleftrightarrow>
     (\<forall>l \<in> set ls. \<exists>(e, d) \<in> set (g_edges g). link_id d = l \<and> bw \<le> bw_residual d)"

abbreviation claim_links :: "link_id list \<Rightarrow> real \<Rightarrow> (link_id \<times> real) list" where
  "claim_links ls bw \<equiv> map (\<lambda>l. (l, bw)) ls"

lemma allocate_route_charge: "allocate_route_bw ls bw g = charge [] (claim_links ls bw) g"
  unfolding allocate_route_bw_def charge_def
  by (induction ls arbitrary: g) (auto simp: post_links_Cons)

lemma deallocate_route_refund: "deallocate_route_bw ls bw g = refund [] (claim_links ls bw) g"
  unfolding deallocate_route_bw_def refund_def
  by (induction ls arbitrary: g) (auto simp: post_links_Cons)

lemma posted_claim: "distinct ls \<Longrightarrow> posted l (claim_links ls bw) = (if l \<in> set ls then bw else 0)"
  by (induction ls) auto

lemma walk_path_sound:
  "walk_path g bw es t ls = Inr (Some (t', ls')) \<Longrightarrow>
   \<exists>ds. list_all2 (\<lambda>e d. map_of (g_edges g) e = Some d \<and> bw \<le> bw_residual d) es ds
     \<and> ls' = ls @ map link_id ds \<and> t' = t + (\<Sum>d \<leftarrow> ds. propagation_delay d)"
proof (induction es arbitrary: t ls)
  case (Cons e es)
  from Cons.prems obtain d where d: "map_of (g_edges g) e = Some d" "bw \<le> bw_residual d"
    and rest: "walk_path g bw es (t + propagation_delay d) (ls @ [link_id d]) = Inr (Some (t', ls'))"
    by (auto split: option.splits if_splits)
  from Cons.IH[OF rest] obtain ds where
    "list_all2 (\<lambda>e d. map_of (g_edges g) e = Some d \<and> bw \<le> bw_residual d) es ds"
    "ls' = (ls @ [link_id d]) @ map link_id ds"
    "t' = (t + propagation_delay d) + (\<Sum>d \<leftarrow> ds. propagation_delay d)" by blast
  with d show ?case by (intro exI[of _ "d # ds"]) simp
qed simp

definition walked :: "'a graph_scheme \<Rightarrow> real \<Rightarrow> real \<Rightarrow> node_id list \<Rightarrow> real \<Rightarrow> link_id list \<Rightarrow> bool" where
  "walked g bw budget p t ls \<longleftrightarrow>
     walk_path g bw (path_edges p) 0 [] = Inr (Some (t, ls)) \<and> t \<le> budget"

text \<open>The loop keeps: the best route so far is a feasible candidate with the least score.\<close>

definition best_of :: "routing_mode \<Rightarrow> 'a graph_scheme \<Rightarrow> real \<Rightarrow> real \<Rightarrow> node_id list set
    \<Rightarrow> route_result option \<Rightarrow> xreal \<Rightarrow> bool" where
  "best_of mode g bw budget P best bscore \<longleftrightarrow>
     (\<forall>p \<in> P. \<forall>t ls. walked g bw budget p t ls \<longrightarrow> bscore \<le> Fin (score mode g p))
     \<and> (case best of
          None \<Rightarrow> bscore = PInf
        | Some r \<Rightarrow> rr_feasible r \<and> rr_nodes r \<in> P \<and> rr_cost r = bscore
            \<and> bscore = Fin (score mode g (rr_nodes r))
            \<and> walked g bw budget (rr_nodes r) (rr_delay r) (rr_links r))"

lemma pick_route_best:
  "pick_route mode g bw budget ps best bscore = Inr best' \<Longrightarrow>
   best_of mode g bw budget P best bscore \<Longrightarrow>
   \<exists>bscore'. best_of mode g bw budget (P \<union> set ps) best' bscore'"
proof (induction ps arbitrary: best bscore P)
  case Nil
  then show ?case by auto
next
  case (Cons p ps)
  from Cons.prems(1) obtain w where w: "walk_path g bw (path_edges p) 0 [] = Inr w"
    by (auto split: sum.splits)
  have grow: "P \<union> set (p # ps) = insert p P \<union> set ps" by auto
  show ?case
  proof (cases "\<exists>t ls. walked g bw budget p t ls \<and> Fin (score mode g p) < bscore")
    case True
    then obtain t ls where t: "walked g bw budget p t ls" and lt: "Fin (score mode g p) < bscore" by blast
    let ?r = "\<lparr>rr_feasible = True, rr_links = ls, rr_nodes = p, rr_delay = t, rr_cost = Fin (score mode g p)\<rparr>"
    have "pick_route mode g bw budget ps (Some ?r) (Fin (score mode g p)) = Inr best'"
      using Cons.prems(1) t lt by (simp add: walked_def)
    moreover have le: "score mode g p \<le> x" if "bscore \<le> Fin x" for x
      using lt that by (cases bscore) auto
    have "best_of mode g bw budget (insert p P) (Some ?r) (Fin (score mode g p))"
      using Cons.prems(2) t unfolding best_of_def by (auto intro: le)
    ultimately show ?thesis unfolding grow by (rule Cons.IH)
  next
    case False
    then have "pick_route mode g bw budget ps best bscore = Inr best'"
      using Cons.prems(1) w by (auto simp: walked_def not_le split: option.splits if_splits prod.splits)
    moreover have "best_of mode g bw budget (insert p P) best bscore"
      using Cons.prems(2) False unfolding best_of_def by (auto simp: not_less split: option.splits)
    ultimately show ?thesis unfolding grow by (rule Cons.IH)
  qed
qed

lemma pick_route_sound:
  assumes "pick_route mode g bw budget ps None PInf = Inr (Some r)"
  shows "rr_feasible r \<and> rr_nodes r \<in> set ps \<and> walked g bw budget (rr_nodes r) (rr_delay r) (rr_links r)
    \<and> (\<forall>p \<in> set ps. \<forall>t ls. walked g bw budget p t ls \<longrightarrow> score mode g (rr_nodes r) \<le> score mode g p)"
proof -
  have "best_of mode g bw budget {} None PInf" by (simp add: best_of_def)
  from pick_route_best[OF assms this] show ?thesis
    by (auto simp: best_of_def)
qed

lemma pick_route_None:
  assumes "pick_route mode g bw budget ps None PInf = Inr None" and "p \<in> set ps"
  shows "\<not> walked g bw budget p t ls"
proof -
  have "best_of mode g bw budget {} None PInf" by (simp add: best_of_def)
  from pick_route_best[OF assms(1) this] assms(2) show ?thesis
    by (auto simp: best_of_def)
qed

lemma distinct_path_edges: "distinct p \<Longrightarrow> distinct (path_edges p)"
  by (simp add: path_edges_def distinct_zipI1)

text \<open>A feasible route: distinct links of the graph searched, each carrying the demand.\<close>

definition good_route :: "'a graph_scheme \<Rightarrow> node_id set \<Rightarrow> real \<Rightarrow> route_result \<Rightarrow> bool" where
  "good_route g ns bw r \<longleftrightarrow>
     distinct (rr_links r) \<and> carries (subgraph g ns) bw (rr_links r)
     \<and> rr_delay r = (\<Sum>l \<leftarrow> rr_links r. case find_link l (g_edges g) of
                       None \<Rightarrow> 0 | Some (e, d) \<Rightarrow> propagation_delay d)"

lemma subgraph_edges:
  "((u, v), d) \<in> set (g_edges (subgraph g ns)) \<longleftrightarrow> ((u, v), d) \<in> set (g_edges g) \<and> u \<in> ns \<and> v \<in> ns"
  by (auto simp: subgraph_def)

lemma walked_good:
  assumes wf: "wf_graph g" and w: "walked g bw budget p (rr_delay r) (rr_links r)"
    and p: "simple_path (subgraph g ns) u v p"
  shows "good_route g ns bw r \<and> rr_delay r \<le> budget \<and> (u \<noteq> v \<longrightarrow> rr_links r \<noteq> [])"
proof -
  from walk_path_sound[of g bw "path_edges p" 0 "[]"] w obtain ds where
    all: "list_all2 (\<lambda>e d. map_of (g_edges g) e = Some d \<and> bw \<le> bw_residual d) (path_edges p) ds"
    and ls: "rr_links r = map link_id ds"
    and t: "rr_delay r = (\<Sum>d \<leftarrow> ds. propagation_delay d)"
    unfolding walked_def by auto
  from p have dp: "distinct p" and es: "set (path_edges p) \<subseteq> set (keys (g_edges (subgraph g ns)))"
    and ends: "p \<noteq> []" "hd p = u" "last p = v"
    by (auto simp: simple_path_def)
  have ids: "distinct (link_ids (g_edges g))" using wf by (simp add: wf_graph_def)
  have len: "length ds = length (path_edges p)" using all by (simp add: list_all2_lengthD)
  have nth: "(path_edges p ! i, ds ! i) \<in> set (g_edges g) \<and> bw \<le> bw_residual (ds ! i)"
    if "i < length ds" for i
    using all that len by (auto simp: list_all2_conv_all_nth dest: map_of_SomeD)
  have inj: "e = e'" if "(e, d) \<in> set (g_edges g)" "(e', d') \<in> set (g_edges g)" "link_id d = link_id d'"
    for e e' d d'
    using link_id_inj[OF ids that] by blast
  have "distinct (map link_id ds)"
    unfolding distinct_conv_nth
  proof (intro allI impI)
    fix i j assume "i < length (map link_id ds)" "j < length (map link_id ds)" "i \<noteq> j"
    then have ij: "i < length ds" "j < length ds" "i \<noteq> j" by simp_all
    then have ne: "path_edges p ! i \<noteq> path_edges p ! j"
      using distinct_path_edges[OF dp] len by (simp add: nth_eq_iff_index_eq)
    have "link_id (ds ! i) \<noteq> link_id (ds ! j)"
      using inj[of "path_edges p ! i" "ds ! i" "path_edges p ! j" "ds ! j"] nth[OF ij(1)] nth[OF ij(2)] ne
      by blast
    then show "map link_id ds ! i \<noteq> map link_id ds ! j" using ij by simp
  qed
  moreover have "carries (subgraph g ns) bw (map link_id ds)"
    unfolding carries_def
  proof
    fix l assume "l \<in> set (map link_id ds)"
    then obtain i where i: "i < length ds" "l = link_id (ds ! i)" by (auto simp: in_set_conv_nth)
    obtain a b where ab: "path_edges p ! i = (a, b)" by fastforce
    have "path_edges p ! i \<in> set (path_edges p)" using i len by simp
    with es have "a \<in> ns \<and> b \<in> ns" by (auto simp: ab subgraph_def)
    with nth[OF i(1)] have "((a, b), ds ! i) \<in> set (g_edges (subgraph g ns))"
      by (simp add: ab subgraph_edges)
    with i nth show "\<exists>(e, d)\<in>set (g_edges (subgraph g ns)). link_id d = l \<and> bw \<le> bw_residual d"
      by (intro bexI[of _ "((a, b), ds ! i)"]) auto
  qed
  moreover have "(\<Sum>l \<leftarrow> map link_id ds. case find_link l (g_edges g) of
                  None \<Rightarrow> 0 | Some (e, d) \<Rightarrow> propagation_delay d) = (\<Sum>d \<leftarrow> ds. propagation_delay d)"
  proof -
    have "find_link (link_id d) (g_edges g) = Some (path_edges p ! i, d)"
      if "i < length ds" "d = ds ! i" for i d
      using find_link_unique[OF ids] nth that by blast
    then have "(case find_link (link_id d) (g_edges g) of None \<Rightarrow> 0 | Some (e, d) \<Rightarrow> propagation_delay d)
               = propagation_delay d" if "d \<in> set ds" for d
      using that by (auto simp: in_set_conv_nth)
    then show ?thesis by (simp add: comp_def cong: map_cong)
  qed
  moreover have "u \<noteq> v \<Longrightarrow> ds \<noteq> []"
  proof -
    assume "u \<noteq> v"
    with ends obtain a b q where "p = a # b # q" by (metis hd_Cons_tl last.simps list.sel(1))
    then show "ds \<noteq> []" using len by auto
  qed
  ultimately show ?thesis
    using w by (auto simp: good_route_def ls t walked_def)
qed

text \<open>The links of a route, in order, lead from one node to the other.\<close>

primrec joins :: "'a graph_scheme \<Rightarrow> node_id \<Rightarrow> node_id \<Rightarrow> link_id list \<Rightarrow> bool" where
  "joins g u v [] \<longleftrightarrow> u = v"
| "joins g u v (l # ls) \<longleftrightarrow> (\<exists>(e, d) \<in> set (g_edges g). fst e = u \<and> link_id d = l \<and> joins g (snd e) v ls)"

lemma joins_ne: "joins g u v ls \<Longrightarrow> u \<noteq> v \<Longrightarrow> ls \<noteq> []"
  by (cases ls) auto

lemma path_joins:
  "p \<noteq> [] \<Longrightarrow> list_all2 (\<lambda>e d. map_of (g_edges g) e = Some d \<and> Q d) (path_edges p) ds \<Longrightarrow>
   joins g (hd p) (last p) (map link_id ds)"
proof (induction p arbitrary: ds rule: induct_list012)
  case (3 a b q)
  then obtain d ds' where ds: "ds = d # ds'" "map_of (g_edges g) (a, b) = Some d"
    "list_all2 (\<lambda>e d. map_of (g_edges g) e = Some d \<and> Q d) (path_edges (b # q)) ds'"
    by (auto simp: path_edges_def list_all2_Cons1)
  have "joins g b (last (b # q)) (map link_id ds')" using "3.IH"(2)[OF _ ds(3)] by simp
  moreover have "((a, b), d) \<in> set (g_edges g)" using ds(2) by (rule map_of_SomeD)
  ultimately show ?case by (auto simp: ds(1) intro!: bexI[of _ "((a, b), d)"])
qed (simp_all add: path_edges_def)

lemma walked_joins:
  assumes "walked g bw budget p t ls" and "simple_path h u v p"
  shows "joins g u v ls"
proof -
  from walk_path_sound[of g bw "path_edges p" 0 "[]"] assms(1) obtain ds where
    "list_all2 (\<lambda>e d. map_of (g_edges g) e = Some d \<and> bw \<le> bw_residual d) (path_edges p) ds" "ls = map link_id ds"
    unfolding walked_def by auto
  with path_joins[of p g _ ds] assms(2) show ?thesis by (auto simp: simple_path_def)
qed

lemma joins_charge: "distinct (link_ids (g_edges g)) \<Longrightarrow> joins (charge ns xs g) u v ls \<longleftrightarrow> joins g u v ls"
  by (induction ls arbitrary: u) (simp_all add: edges_charge case_prod_unfold)

subsection \<open>Both routers\<close>

context path_oracle
begin

lemma candidate_simple:
  "p \<in> set (take k (nx_simple_paths nx g u v)) \<Longrightarrow> simple_path g u v p"
  by (blast intro: simple_paths_sound dest: in_set_takeD)

lemma route_flow_good:
  assumes "wf_graph g" and "route_flow nx g src dst bw budget ns k mode = Inr r" and "rr_feasible r"
  shows "good_route g (set ns) bw r \<and> (src = dst \<longrightarrow> rr_links r = []) \<and> (src \<noteq> dst \<longrightarrow> rr_links r \<noteq> [])
    \<and> (src \<noteq> dst \<longrightarrow> rr_delay r \<le> budget)"
proof (cases "src = dst")
  case True
  with assms(2) show ?thesis
    by (auto simp: route_flow_def same_node_route_def good_route_def carries_def)
next
  case False
  with assms(2,3) have "pick_route mode g bw budget
      (take k (nx_simple_paths nx (subgraph g (set ns)) src dst)) None PInf = Inr (Some r)"
    by (auto simp: route_flow_def Let_def no_route_def split: if_splits sum.splits option.splits)
  from pick_route_sound[OF this] candidate_simple walked_good[OF assms(1)] False
  show ?thesis by blast
qed

lemma whole_as_subgraph:
  assumes "wf_graph g"
  shows "subgraph g (set (keys (g_nodes g))) = whole_graph g"
proof -
  have "filter (\<lambda>(n, d). n \<in> set (keys (g_nodes g))) (g_nodes g) = g_nodes g"
    by (auto simp: filter_id_conv intro: rev_image_eqI)
  moreover have "filter (\<lambda>((u, v), d). u \<in> set (keys (g_nodes g)) \<and> v \<in> set (keys (g_nodes g))) (g_edges g)
      = g_edges g"
    by (rule filter_True) (use assms in \<open>force simp: wf_graph_def\<close>)
  ultimately show ?thesis by (simp add: subgraph_def whole_graph_def)
qed

lemma route_cross_good:
  assumes "wf_graph g" and "route_cross_domain_flow nx g src dst bw budget k mode = Inr r"
    and "rr_feasible r"
  shows "good_route g (set (keys (g_nodes g))) bw r \<and> (src \<noteq> dst \<longrightarrow> rr_delay r \<le> budget)"
proof (cases "src = dst")
  case True
  with assms(2) show ?thesis
    by (auto simp: route_cross_domain_flow_def same_node_route_def good_route_def carries_def)
next
  case False
  with assms(2,3) have "pick_route mode g bw budget
      (take k (nx_simple_paths nx (subgraph g (set (keys (g_nodes g)))) src dst)) None PInf = Inr (Some r)"
    unfolding whole_as_subgraph[OF assms(1)]
    by (auto simp: route_cross_domain_flow_def Let_def no_route_def
        split: if_splits sum.splits option.splits)
  from pick_route_sound[OF this] candidate_simple walked_good[OF assms(1)]
  show ?thesis by blast
qed

lemma route_flow_joins:
  assumes "route_flow nx g src dst bw budget ns k mode = Inr r" and "rr_feasible r"
  shows "joins g src dst (rr_links r)"
proof (cases "src = dst")
  case True
  with assms(1) show ?thesis by (auto simp: route_flow_def same_node_route_def)
next
  case False
  with assms have "pick_route mode g bw budget
      (take k (nx_simple_paths nx (subgraph g (set ns)) src dst)) None PInf = Inr (Some r)"
    by (auto simp: route_flow_def Let_def no_route_def split: if_splits sum.splits option.splits)
  from pick_route_sound[OF this] candidate_simple walked_joins show ?thesis by blast
qed

lemma route_cross_joins:
  assumes "wf_graph g" and "route_cross_domain_flow nx g src dst bw budget k mode = Inr r" and "rr_feasible r"
  shows "joins g src dst (rr_links r)"
proof (cases "src = dst")
  case True
  with assms(2) show ?thesis by (auto simp: route_cross_domain_flow_def same_node_route_def)
next
  case False
  with assms(2,3) have "pick_route mode g bw budget
      (take k (nx_simple_paths nx (subgraph g (set (keys (g_nodes g)))) src dst)) None PInf = Inr (Some r)"
    unfolding whole_as_subgraph[OF assms(1)]
    by (auto simp: route_cross_domain_flow_def Let_def no_route_def
        split: if_splits sum.splits option.splits)
  from pick_route_sound[OF this] candidate_simple walked_joins show ?thesis by blast
qed

end

lemma carries_subgraph: "carries (subgraph g ns) bw ls \<Longrightarrow> carries g bw ls"
  unfolding carries_def
proof
  fix l assume all: "\<forall>l \<in> set ls. \<exists>(e, d) \<in> set (g_edges (subgraph g ns)). link_id d = l \<and> bw \<le> bw_residual d"
    and "l \<in> set ls"
  then obtain e d where "(e, d) \<in> set (g_edges (subgraph g ns))" "link_id d = l" "bw \<le> bw_residual d"
    by blast
  then show "\<exists>(e, d) \<in> set (g_edges g). link_id d = l \<and> bw \<le> bw_residual d"
    by (cases e) (auto simp: subgraph_edges)
qed

lemma no_overbooking_charge_links:
  assumes wf: "wf_graph g" and ok: "no_overbooking g" and dl: "distinct ls" and c: "carries g bw ls"
  shows "no_overbooking (charge [] (claim_links ls bw) g)"
proof -
  have ids: "distinct (link_ids (g_edges g))" using wf by (simp add: wf_graph_def)
  have "0 \<le> bw_residual d - posted (link_id d) (claim_links ls bw)"
    if m: "(e, d) \<in> set (g_edges g)" for e d
  proof (cases "link_id d \<in> set ls")
    case True
    then obtain e' d' where e': "(e', d') \<in> set (g_edges g)" "link_id d' = link_id d" "bw \<le> bw_residual d'"
      using c unfolding carries_def by blast
    have "d' = d"
      using link_id_inj[OF ids e'(1) m e'(2)] by blast
    then show ?thesis
      using e'(3) dl True by (simp add: posted_claim)
  next
    case False
    then show ?thesis
      using dl ok m by (auto simp: posted_claim no_overbooking_def)
  qed
  then show ?thesis
    using ok unfolding no_overbooking_def nodes_charge edges_charge[OF ids] by auto
qed

text \<open>
  A route found inside a domain uses distinct links of that domain, each with the bandwidth
  asked for, within the delay budget, and no other of the first \<open>k\<close> candidates scores better;
  when the router gives up, none of the candidates passes the filters.
\<close>

theorem route_flow_correct:
  assumes "path_oracle nx" and "wf_graph g" and "src \<noteq> dst"
    and "nx_has_path nx (subgraph g (set ns)) src dst"
    and "route_flow nx g src dst bw budget ns k mode = Inr r"
  shows "(rr_feasible r \<longrightarrow>
            good_route g (set ns) bw r \<and> rr_delay r \<le> budget
            \<and> (\<forall>p \<in> set (take k (nx_simple_paths nx (subgraph g (set ns)) src dst)). \<forall>t ls.
                 walked g bw budget p t ls \<longrightarrow> score mode g (rr_nodes r) \<le> score mode g p))
       \<and> (\<not> rr_feasible r \<longrightarrow>
            (\<forall>p \<in> set (take k (nx_simple_paths nx (subgraph g (set ns)) src dst)). \<forall>t ls.
                 \<not> walked g bw budget p t ls))"
proof -
  let ?ps = "take k (nx_simple_paths nx (subgraph g (set ns)) src dst)"
  from assms(3-5) consider
      (none) "pick_route mode g bw budget ?ps None PInf = Inr None" "r = no_route"
    | (some) "pick_route mode g bw budget ?ps None PInf = Inr (Some r)"
    by (auto simp: route_flow_def Let_def split: sum.splits option.splits)
  then show ?thesis
  proof cases
    case none
    then show ?thesis using pick_route_None[OF none(1)] by (simp add: no_route_def)
  next
    case some
    then show ?thesis
      using pick_route_sound[OF some] path_oracle.route_flow_good[OF assms(1,2,5)] assms(3) by blast
  qed
qed

theorem route_flow_correct_witness:
  "\<exists>r. route_flow dfs_nx ex_sub ''a'' ''b'' 4 5 [''a'', ''b''] 3 MinDelay = Inr r
     \<and> rr_feasible r \<and> good_route ex_sub {''a'', ''b''} 4 r \<and> rr_delay r \<le> 5"
proof -
  let ?r = "projr (route_flow dfs_nx ex_sub ''a'' ''b'' 4 5 [''a'', ''b''] 3 MinDelay)"
  have r: "route_flow dfs_nx ex_sub ''a'' ''b'' 4 5 [''a'', ''b''] 3 MinDelay = Inr ?r" by code_simp
  have "wf_graph ex_sub" by code_simp
  moreover have "nx_has_path dfs_nx (subgraph ex_sub (set [''a'', ''b''])) ''a'' ''b''" by code_simp
  moreover have "rr_feasible ?r" by code_simp
  ultimately show ?thesis
    using route_flow_correct[OF dfs_oracle.path_oracle_axioms _ _ _ r] r by auto
qed

end
