(* ===== verification/Domain_Actor.thy ===== *)
theory Domain_Actor
  imports Routing
begin

text \<open>
  What the domain actors share (\<open>src/src/orion/actors/\<close>): the working state of one
  \<open>act\<close> call, its rollback, the loop invariant that makes rollback exact, and the contract
  the coordinator relies on, the locale \<open>domain_actor\<close>. \<open>Greedy_Actor\<close> and
  \<open>Learned_Actor\<close> give the two implementations.

  The invariant \<open>act_inv\<close> says that the substrate the actor has been editing in place is the
  one it was given, charged with what the placements so far and the routes so far take, and that
  every snapshot holds the residuals the node had on entry.
\<close>

section \<open>The working state of one act call\<close>

record act_state =
  as_sub :: substrate
  as_place :: "(string, node_id) dict"
  as_snaps :: "(node_id, real \<times> real) dict"
  as_alloc :: "(link_id list \<times> real) list"
  as_routes :: "(flow_key, link_id list) dict"
  as_bw :: "(flow_key, real) dict"
  as_proc :: real
  as_prop :: real
  as_cost :: real
  as_left :: real

definition start_state :: "substrate \<Rightarrow> plan_fragment \<Rightarrow> act_state" where
  "start_state S f =
     \<lparr>as_sub = S, as_place = [], as_snaps = [], as_alloc = [], as_routes = [], as_bw = [],
      as_proc = 0, as_prop = 0, as_cost = 0, as_left = pf_delay_budget f\<rparr>"

text \<open>\<open>nodes[n]["cpu_residual"] = c; nodes[n]["ram_residual"] = r\<close>.\<close>

definition set_node :: "node_id \<Rightarrow> real \<times> real \<Rightarrow> 'a graph_scheme \<Rightarrow> 'a graph_scheme" where
  "set_node n a g =
     g\<lparr>g_nodes := map (\<lambda>(k, d). (k, if k = n then d\<lparr>cpu_residual := fst a, ram_residual := snd a\<rparr> else d))
                   (g_nodes g)\<rparr>"

definition rollback :: "(link_id list \<times> real) list \<Rightarrow> (node_id, real \<times> real) dict
    \<Rightarrow> 'a graph_scheme \<Rightarrow> 'a graph_scheme" where
  "rollback allocated snaps g =
     fold (\<lambda>(n, a). set_node n a) snaps
       (fold (\<lambda>(ls, bw). deallocate_route_bw ls bw) (rev allocated) g)"

text \<open>\<open>if node_id not in node_snapshots: node_snapshots[node_id] = (cpu, ram)\<close>.\<close>

definition take_snapshot :: "node_id \<Rightarrow> node_data \<Rightarrow> (node_id, real \<times> real) dict
    \<Rightarrow> (node_id, real \<times> real) dict" where
  "take_snapshot n d snaps =
     (if n \<in> set (keys snaps) then snaps else AList.update n (cpu_residual d, ram_residual d) snaps)"

section \<open>Claims\<close>

abbreviation alloc_claims :: "(link_id list \<times> real) list \<Rightarrow> (link_id \<times> real) list" where
  "alloc_claims al \<equiv> concat (map (\<lambda>(ls, bw). claim_links ls bw) al)"

definition frag_demand :: "vnf_assignment list \<Rightarrow> string \<Rightarrow> real \<times> real" where
  "frag_demand vs v = get_default (map (\<lambda>a. (va_id a, va_cpu a, va_ram a)) vs) v (0, 0)"

abbreviation place_claims :: "(string \<Rightarrow> real \<times> real) \<Rightarrow> (string, node_id) dict
    \<Rightarrow> (node_id \<times> real \<times> real) list" where
  "place_claims dem pl \<equiv> map (\<lambda>(v, n). (n, dem v)) pl"

definition route_claims :: "(flow_key, link_id list) dict \<Rightarrow> (flow_key, real) dict
    \<Rightarrow> (link_id \<times> real) list" where
  "route_claims rts bw = concat (map (\<lambda>(fk, x). claim_links (get_default rts fk []) x) bw)"

definition wf_fragment :: "plan_fragment \<Rightarrow> bool" where
  "wf_fragment f \<longleftrightarrow> distinct (map va_id (pf_vnfs f)) \<and> distinct (map flow_key_of (pf_flows f))"

lemma frag_demand_in:
  assumes "distinct (map va_id vs)" and "a \<in> set vs"
  shows "frag_demand vs (va_id a) = (va_cpu a, va_ram a)"
proof -
  have "map_of (map (\<lambda>a. (va_id a, va_cpu a, va_ram a)) vs) (va_id a) = Some (va_cpu a, va_ram a)"
    by (rule map_of_is_SomeI) (use assms in \<open>auto simp: comp_def\<close>)
  then show ?thesis by (simp add: frag_demand_def get_default_def)
qed

section \<open>Rollback is exact\<close>

lemma post_nodes_record: "post_nodes ps g = g\<lparr>g_nodes := g_nodes (post_nodes ps g)\<rparr>"
proof (induction ps arbitrary: g)
  case (Cons p ps)
  obtain n a where p: "p = (n, a)" by (cases p)
  let ?h = "post_node n a g"
  have "?h\<lparr>g_nodes := x\<rparr> = g\<lparr>g_nodes := x\<rparr>" for x by (simp add: post_node_def)
  then show ?case unfolding p post_nodes_Cons using Cons.IH[of ?h] by simp
qed simp

definition shifted :: "'a graph_scheme \<Rightarrow> (node_id \<Rightarrow> real) \<Rightarrow> (node_id \<Rightarrow> real) \<Rightarrow> 'a graph_scheme" where
  "shifted g a b =
     g\<lparr>g_nodes := map (\<lambda>(k, d). (k, d\<lparr>cpu_residual := cpu_residual d - a k,
                                      ram_residual := ram_residual d - b k\<rparr>)) (g_nodes g)\<rparr>"

lemma charge_nodes_shifted: "charge ns [] g = shifted g (\<lambda>k. posted_cpu k ns) (\<lambda>k. posted_ram k ns)"
proof -
  have "charge ns [] g = g\<lparr>g_nodes := g_nodes (charge ns [] g)\<rparr>"
    unfolding charge_def by (simp add: post_nodes_record[symmetric])
  then show ?thesis unfolding shifted_def nodes_charge .
qed

definition snapshot_of :: "'a graph_scheme \<Rightarrow> node_id \<times> real \<times> real \<Rightarrow> bool" where
  "snapshot_of g s \<longleftrightarrow>
     (\<exists>d. map_of (g_nodes g) (fst s) = Some d \<and> snd s = (cpu_residual d, ram_residual d))"

lemma set_node_shifted:
  assumes d: "distinct (keys (g_nodes g))" and s: "snapshot_of g (n, c)"
  shows "set_node n c (shifted g a b) = shifted g (a(n := 0)) (b(n := 0))"
proof -
  from s obtain d0 where d0: "map_of (g_nodes g) n = Some d0" "c = (cpu_residual d0, ram_residual d0)"
    by (auto simp: snapshot_of_def)
  have "x = d0" if "(n, x) \<in> set (g_nodes g)" for x
    using d d0(1) that by simp
  then have "map (\<lambda>(k, d). (k, if k = n then d\<lparr>cpu_residual := cpu_residual d0, ram_residual := ram_residual d0\<rparr> else d))
       (map (\<lambda>(k, d). (k, d\<lparr>cpu_residual := cpu_residual d - a k, ram_residual := ram_residual d - b k\<rparr>)) (g_nodes g))
    = map (\<lambda>(k, d). (k, d\<lparr>cpu_residual := cpu_residual d - (a(n := 0)) k,
                          ram_residual := ram_residual d - (b(n := 0)) k\<rparr>)) (g_nodes g)"
    by auto
  then show ?thesis
    by (simp add: set_node_def shifted_def d0(2) del: map_map map_eq_conv cong: if_cong)
qed

lemma keys_Cons_zero:
  "(\<lambda>k. if k \<in> set (keys snaps) then 0 else (a(n := 0)) k)
   = (\<lambda>k. if k \<in> set (keys ((n, c) # snaps)) then 0 else a k)" for a :: "node_id \<Rightarrow> real"
  by auto

lemma restore_shifted:
  assumes "distinct (keys (g_nodes g))" and "\<forall>s \<in> set snaps. snapshot_of g s"
  shows "fold (\<lambda>(n, c). set_node n c) snaps (shifted g a b)
    = shifted g (\<lambda>k. if k \<in> set (keys snaps) then 0 else a k) (\<lambda>k. if k \<in> set (keys snaps) then 0 else b k)"
  using assms(2)
proof (induction snaps arbitrary: a b)
  case (Cons s snaps)
  obtain n c where s: "s = (n, c)" by (cases s)
  have "snapshot_of g (n, c)" using Cons.prems by (simp add: s)
  then have "fold (\<lambda>(n, c). set_node n c) (s # snaps) (shifted g a b)
      = fold (\<lambda>(n, c). set_node n c) snaps (shifted g (a(n := 0)) (b(n := 0)))"
    by (simp add: s set_node_shifted[OF assms(1)])
  also have "\<dots> = shifted g (\<lambda>k. if k \<in> set (keys snaps) then 0 else (a(n := 0)) k)
                          (\<lambda>k. if k \<in> set (keys snaps) then 0 else (b(n := 0)) k)"
    using Cons by simp
  finally show ?case
    unfolding keys_Cons_zero[where c = c] s by simp
qed simp

lemma shifted_zero:
  assumes "\<And>k. k \<in> set (keys (g_nodes g)) \<Longrightarrow> a k = 0 \<and> b k = 0"
  shows "shifted g a b = g"
proof -
  have "map (\<lambda>(k, d). (k, d\<lparr>cpu_residual := cpu_residual d - a k, ram_residual := ram_residual d - b k\<rparr>))
          (g_nodes g) = g_nodes g"
    using assms by (intro map_idI) force
  then show ?thesis by (simp add: shifted_def)
qed

lemma posted_cpu_absent: "n \<notin> set (keys ns) \<Longrightarrow> posted_cpu n ns = 0 \<and> posted_ram n ns = 0"
  by (induction ns) auto

lemma charge_split: "charge ns ls g = charge [] ls (charge ns [] g)"
  using charge_append[of ns "[]" "[]" ls g] by simp

lemma refund_mset: "mset ls = mset ls' \<Longrightarrow> refund [] ls g = refund [] ls' g"
  unfolding refund_def by (simp, rule post_links_mset) simp

lemma dealloc_fold:
  "fold (\<lambda>(ls, bw). deallocate_route_bw ls bw) al g = refund [] (alloc_claims al) g"
proof (induction al arbitrary: g)
  case (Cons x al)
  then show ?case
    by (cases x) (simp add: deallocate_route_refund refund_def post_links_append)
qed (simp add: refund_def)

lemma rollback_exact:
  assumes wf: "wf_graph g" and T: "T = charge ns (alloc_claims al) g"
    and snaps: "\<forall>s \<in> set snaps. snapshot_of g s" and cov: "set (keys ns) \<subseteq> set (keys snaps)"
  shows "rollback al snaps T = g"
proof -
  have d: "distinct (keys (g_nodes g))" using wf by (simp add: wf_graph_def)
  have "refund [] (alloc_claims (rev al)) T = refund [] (alloc_claims al) T"
    by (rule refund_mset) (simp flip: rev_map add: mset_concat)
  then have "fold (\<lambda>(ls, bw). deallocate_route_bw ls bw) (rev al) T = charge ns [] g"
    unfolding dealloc_fold T by (subst (asm) (2) charge_split) (simp only: refund_charge)
  then have "rollback al snaps T
      = fold (\<lambda>(n, c). set_node n c) snaps (shifted g (\<lambda>k. posted_cpu k ns) (\<lambda>k. posted_ram k ns))"
    by (simp add: rollback_def charge_nodes_shifted)
  also have "\<dots> = shifted g (\<lambda>k. if k \<in> set (keys snaps) then 0 else posted_cpu k ns)
                          (\<lambda>k. if k \<in> set (keys snaps) then 0 else posted_ram k ns)"
    by (rule restore_shifted[OF d snaps])
  also have "\<dots> = g"
    using cov posted_cpu_absent[of _ ns] by (intro shifted_zero) (metis subsetD)
  finally show ?thesis .
qed

section \<open>The loop invariant\<close>

definition intra_links :: "'a graph_scheme \<Rightarrow> int \<Rightarrow> link_id set" where
  "intra_links g m = set (link_ids (g_edges (subgraph g (set (nodes_in_domain g m)))))"

text \<open>The routes recorded so far, and how they were charged.\<close>

definition routes_ok :: "substrate \<Rightarrow> int \<Rightarrow> flow_edge list \<Rightarrow> (flow_key, link_id list) dict
    \<Rightarrow> (flow_key, real) dict \<Rightarrow> bool" where
  "routes_ok S m fes rts bw \<longleftrightarrow>
     distinct (keys rts) \<and> distinct (keys bw) \<and> set (keys bw) \<subseteq> set (keys rts)
     \<and> (\<forall>(fk, ls) \<in> set rts. distinct ls \<and> set ls \<subseteq> intra_links S m
          \<and> (fk \<notin> set (keys bw) \<longrightarrow> ls = []))
     \<and> set (keys rts) \<subseteq> flow_key_of ` set fes
     \<and> (\<forall>(fk, x) \<in> set bw. \<exists>fe \<in> set fes. flow_key_of fe = fk \<and> bandwidth_demand fe = x)"

definition act_inv :: "substrate \<Rightarrow> int \<Rightarrow> (string \<Rightarrow> real \<times> real) \<Rightarrow> flow_edge list \<Rightarrow> 'a act_state_scheme \<Rightarrow> bool" where
  "act_inv S m dem fes \<sigma> \<longleftrightarrow>
     as_sub \<sigma> = charge (place_claims dem (as_place \<sigma>)) (alloc_claims (as_alloc \<sigma>)) S
     \<and> distinct (keys (as_place \<sigma>))
     \<and> set (vals (as_place \<sigma>)) \<subseteq> set (nodes_in_domain S m) \<inter> set (keys (as_snaps \<sigma>))
     \<and> (\<forall>s \<in> set (as_snaps \<sigma>). snapshot_of S s)
     \<and> as_alloc \<sigma> = map (\<lambda>(fk, x). (get_default (as_routes \<sigma>) fk [], x)) (as_bw \<sigma>)
     \<and> routes_ok S m fes (as_routes \<sigma>) (as_bw \<sigma>)
     \<and> (no_overbooking S \<longrightarrow> no_overbooking (as_sub \<sigma>))"

lemma act_invD:
  assumes "act_inv S m dem fes \<sigma>"
  shows "as_sub \<sigma> = charge (place_claims dem (as_place \<sigma>)) (alloc_claims (as_alloc \<sigma>)) S"
    and "distinct (keys (as_place \<sigma>))"
    and "set (vals (as_place \<sigma>)) \<subseteq> set (nodes_in_domain S m)"
    and "set (vals (as_place \<sigma>)) \<subseteq> set (keys (as_snaps \<sigma>))"
    and "\<forall>s \<in> set (as_snaps \<sigma>). snapshot_of S s"
    and "as_alloc \<sigma> = map (\<lambda>(fk, x). (get_default (as_routes \<sigma>) fk [], x)) (as_bw \<sigma>)"
    and "routes_ok S m fes (as_routes \<sigma>) (as_bw \<sigma>)"
    and "no_overbooking S \<Longrightarrow> no_overbooking (as_sub \<sigma>)"
  using assms unfolding act_inv_def by blast+

lemma act_inv_start: "act_inv S m dem [] (start_state S f)"
  by (simp add: act_inv_def start_state_def charge_def routes_ok_def)

lemma keys_place_claims: "keys (place_claims dem pl) = vals pl"
  by (simp add: comp_def case_prod_unfold)

lemma keys_take_snapshot: "set (keys (take_snapshot n d snaps)) = insert n (set (keys snaps))"
  unfolding take_snapshot_def using keys_update[of n "(cpu_residual d, ram_residual d)" snaps]
  by (cases "n \<in> set (keys snaps)") (simp_all add: insert_absorb)

lemma act_inv_rollback:
  assumes "wf_graph S" and "act_inv S m dem fes \<sigma>"
  shows "rollback (as_alloc \<sigma>) (as_snaps \<sigma>) (as_sub \<sigma>) = S"
  by (rule rollback_exact[OF assms(1) act_invD(1,5)[OF assms(2)]])
     (use act_invD(4)[OF assms(2)] in \<open>simp only: keys_place_claims\<close>)

lemma link_ids_subgraph_charge:
  assumes "distinct (link_ids (g_edges g))"
  shows "link_ids (g_edges (subgraph (charge ns ls g) X)) = link_ids (g_edges (subgraph g X))"
  unfolding subgraph_def edges_charge[OF assms]
  by (simp add: filter_map comp_def case_prod_unfold)

lemma intra_links_charge:
  "wf_graph g \<Longrightarrow> intra_links (charge ns ls g) m = intra_links g m"
  unfolding intra_links_def nodes_in_domain_charge
  by (subst link_ids_subgraph_charge) (simp_all add: wf_graph_def)

lemma no_overbooking_charge_node:
  assumes wf: "wf_graph g" and ok: "no_overbooking g" and d: "map_of (g_nodes g) n = Some d"
    and fits: "x \<le> cpu_residual d" "y \<le> ram_residual d"
  shows "no_overbooking (charge [(n, x, y)] [] g)"
proof -
  have dk: "distinct (keys (g_nodes g))" and ids: "distinct (link_ids (g_edges g))"
    using wf by (simp_all add: wf_graph_def)
  have "x' = d" if "(n, x') \<in> set (g_nodes g)" for x'
    using d map_of_is_SomeI[OF dk that] by simp
  then show ?thesis
    using ok fits unfolding no_overbooking_def
    by (auto simp: nodes_charge edges_charge[OF ids])
qed

text \<open>One placement: the node has the room, the snapshot is taken before the first debit.\<close>

lemma act_inv_place:
  assumes wf: "wf_graph S" and inv: "act_inv S m dem fes \<sigma>"
    and fresh: "v \<notin> set (keys (as_place \<sigma>))" and n: "n \<in> set (nodes_in_domain S m)"
    and d: "map_of (g_nodes (as_sub \<sigma>)) n = Some d"
    and fits: "fst (dem v) \<le> cpu_residual d" "snd (dem v) \<le> ram_residual d"
  shows "act_inv S m dem fes (\<sigma>\<lparr>as_sub := charge [(n, dem v)] [] (as_sub \<sigma>),
           as_place := AList.update v n (as_place \<sigma>),
           as_snaps := take_snapshot n d (as_snaps \<sigma>)\<rparr>)" (is "act_inv S m dem fes ?\<tau>")
proof -
  let ?P = "place_claims dem (as_place \<sigma>)" and ?A = "alloc_claims (as_alloc \<sigma>)"
  note I = act_invD[OF inv]
  note sub = I(1)
  have pl: "AList.update v n (as_place \<sigma>) = as_place \<sigma> @ [(v, n)]" by (rule update_fresh[OF fresh])
  have keys_snaps: "set (keys (as_snaps ?\<tau>)) = insert n (set (keys (as_snaps \<sigma>)))"
    using keys_take_snapshot by simp
  have "as_sub ?\<tau> = charge (?P @ [(n, dem v)]) (?A @ []) S"
    unfolding charge_append by (simp add: sub)
  then have 1: "as_sub ?\<tau> = charge (place_claims dem (as_place ?\<tau>)) (alloc_claims (as_alloc ?\<tau>)) S"
    by (simp add: pl)
  have 2: "distinct (keys (as_place ?\<tau>))"
    using I(2) fresh by (simp add: pl)
  have 3: "set (vals (as_place ?\<tau>)) \<subseteq> set (nodes_in_domain S m) \<inter> set (keys (as_snaps ?\<tau>))"
    unfolding keys_snaps using I(3,4) n by (simp add: pl) blast
  have 4: "\<forall>s \<in> set (as_snaps ?\<tau>). snapshot_of S s"
  proof (cases "n \<in> set (keys (as_snaps \<sigma>))")
    case True
    then show ?thesis using I(5) by (simp add: take_snapshot_def)
  next
    case False
    then have "n \<notin> set (keys ?P)" using I(4) unfolding keys_place_claims by blast
    then have "snapshot_of S (n, cpu_residual d, ram_residual d)"
      using d by (auto simp: snapshot_of_def sub map_of_charge posted_cpu_absent)
    then show ?thesis
      using I(5) False by (simp add: take_snapshot_def update_fresh)
  qed
  have 5: "no_overbooking (as_sub ?\<tau>)" if "no_overbooking S"
  proof -
    have ok: "no_overbooking (as_sub \<sigma>)" using I(8) that .
    have "wf_graph (as_sub \<sigma>)" using wf by (simp add: sub)
    from no_overbooking_charge_node[OF this ok d fits] show ?thesis by simp
  qed
  show ?thesis
    unfolding act_inv_def using 1 2 3 4 5 I(6,7) by simp
qed

lemma act_inv_metrics [simp]:
  "act_inv S m dem fes (as_proc_update f1 \<sigma>) \<longleftrightarrow> act_inv S m dem fes \<sigma>"
  "act_inv S m dem fes (as_prop_update f1 \<sigma>) \<longleftrightarrow> act_inv S m dem fes \<sigma>"
  "act_inv S m dem fes (as_cost_update f1 \<sigma>) \<longleftrightarrow> act_inv S m dem fes \<sigma>"
  "act_inv S m dem fes (as_left_update f1 \<sigma>) \<longleftrightarrow> act_inv S m dem fes \<sigma>"
  by (simp_all add: act_inv_def)

text \<open>One routed flow with links \<open>ls\<close>, debited at once.\<close>

lemma act_inv_route:
  assumes wf: "wf_graph S" and inv: "act_inv S m dem fes \<sigma>"
    and fresh: "flow_key_of fe \<notin> set (keys (as_routes \<sigma>))" and fe: "fe \<in> set fes"
    and ls: "distinct ls" "carries (subgraph (as_sub \<sigma>) (set (nodes_in_domain S m))) (bandwidth_demand fe) ls"
  shows "act_inv S m dem fes (\<sigma>\<lparr>as_sub := allocate_route_bw ls (bandwidth_demand fe) (as_sub \<sigma>),
           as_routes := AList.update (flow_key_of fe) ls (as_routes \<sigma>),
           as_bw := AList.update (flow_key_of fe) (bandwidth_demand fe) (as_bw \<sigma>),
           as_alloc := as_alloc \<sigma> @ [(ls, bandwidth_demand fe)]\<rparr>)" (is "act_inv S m dem fes ?\<tau>")
proof -
  let ?P = "place_claims dem (as_place \<sigma>)" and ?A = "alloc_claims (as_alloc \<sigma>)"
  note I = act_invD[OF inv]
  have R: "distinct (keys (as_routes \<sigma>))" "distinct (keys (as_bw \<sigma>))"
    "set (keys (as_bw \<sigma>)) \<subseteq> set (keys (as_routes \<sigma>))"
    using I(7) unfolding routes_ok_def by blast+
  have bfresh: "flow_key_of fe \<notin> set (keys (as_bw \<sigma>))" using R(3) fresh by blast
  have rts: "AList.update (flow_key_of fe) ls (as_routes \<sigma>) = as_routes \<sigma> @ [(flow_key_of fe, ls)]"
    and bw: "AList.update (flow_key_of fe) (bandwidth_demand fe) (as_bw \<sigma>)
             = as_bw \<sigma> @ [(flow_key_of fe, bandwidth_demand fe)]"
    by (rule update_fresh[OF fresh], rule update_fresh[OF bfresh])
  have "as_sub ?\<tau> = charge (?P @ []) (?A @ claim_links ls (bandwidth_demand fe)) S"
    unfolding charge_append by (simp add: allocate_route_charge I(1)[symmetric])
  then have 1: "as_sub ?\<tau> = charge (place_claims dem (as_place ?\<tau>)) (alloc_claims (as_alloc ?\<tau>)) S"
    by simp
  have 2: "as_alloc ?\<tau> = map (\<lambda>(fk, x). (get_default (as_routes ?\<tau>) fk [], x)) (as_bw ?\<tau>)"
  proof -
    have "get_default (as_routes ?\<tau>) fk [] = get_default (as_routes \<sigma>) fk []" if "(fk, x) \<in> set (as_bw \<sigma>)" for fk x
      using that bfresh by (auto simp: rev_image_eqI)
    then have "map (\<lambda>(fk, x). (get_default (as_routes ?\<tau>) fk [], x)) (as_bw \<sigma>) = as_alloc \<sigma>"
      unfolding I(6) by auto
    then show ?thesis by (simp add: bw del: map_eq_conv)
  qed
  have links: "set ls \<subseteq> intra_links S m"
  proof -
    have "set ls \<subseteq> set (link_ids (g_edges (subgraph (as_sub \<sigma>) (set (nodes_in_domain S m)))))"
      using ls(2) unfolding carries_def by force
    also have "\<dots> = intra_links S m"
      unfolding intra_links_def I(1)
      by (subst link_ids_subgraph_charge) (use wf in \<open>simp_all add: wf_graph_def\<close>)
    finally show ?thesis .
  qed
  have 3: "routes_ok S m fes (as_routes ?\<tau>) (as_bw ?\<tau>)"
    using I(7) fresh bfresh fe ls(1) links
    unfolding routes_ok_def act_state.simps rts bw by auto
  have 4: "no_overbooking (as_sub ?\<tau>)" if "no_overbooking S"
    using no_overbooking_charge_links[of "as_sub \<sigma>" ls "bandwidth_demand fe"] I(8)[OF that] ls
      carries_subgraph wf wf_charge[of ?P ?A S]
    by (auto simp: allocate_route_charge I(1)[symmetric])
  show ?thesis
    unfolding act_inv_def using 1 2 3 4 I(2-5) by simp
qed

text \<open>A flow between VNFs on one node is recorded with an empty route and nothing debited.\<close>

lemma act_inv_same_node:
  assumes inv: "act_inv S m dem fes \<sigma>"
    and fresh: "flow_key_of fe \<notin> set (keys (as_routes \<sigma>))" and fe: "fe \<in> set fes"
  shows "act_inv S m dem fes (\<sigma>\<lparr>as_routes := AList.update (flow_key_of fe) [] (as_routes \<sigma>)\<rparr>)"
    (is "act_inv S m dem fes ?\<tau>")
proof -
  note I = act_invD[OF inv]
  have "set (keys (as_bw \<sigma>)) \<subseteq> set (keys (as_routes \<sigma>))"
    using I(7) unfolding routes_ok_def by blast
  then have bfresh: "flow_key_of fe \<notin> set (keys (as_bw \<sigma>))" using fresh by blast
  have "get_default (as_routes ?\<tau>) fk [] = get_default (as_routes \<sigma>) fk []" if "(fk, x) \<in> set (as_bw \<sigma>)" for fk x
    using that bfresh by (auto simp: rev_image_eqI)
  then have 1: "as_alloc ?\<tau> = map (\<lambda>(fk, x). (get_default (as_routes ?\<tau>) fk [], x)) (as_bw ?\<tau>)"
    using I(6) by auto
  have 2: "routes_ok S m fes (as_routes ?\<tau>) (as_bw ?\<tau>)"
    using I(7) fresh fe unfolding routes_ok_def act_state.simps update_fresh[OF fresh] by auto
  show ?thesis
    unfolding act_inv_def using 1 2 I(1-5,8) by simp
qed

section \<open>The contract of a domain actor\<close>

text \<open>
  What a feasible response stands for: every VNF of the fragment is on a node of the domain,
  the routes use links of the domain, and the substrate has been charged with exactly that.
\<close>

definition executed :: "substrate \<Rightarrow> int \<Rightarrow> plan_fragment \<Rightarrow> substrate \<Rightarrow> domain_response \<Rightarrow> bool" where
  "executed S m f T r \<longleftrightarrow>
     T = charge (place_claims (frag_demand (pf_vnfs f)) (dr_placements r))
                (route_claims (dr_routes r) (dr_bw r)) S
     \<and> distinct (keys (dr_placements r))
     \<and> set (keys (dr_placements r)) = va_id ` set (pf_vnfs f)
     \<and> set (vals (dr_placements r)) \<subseteq> set (nodes_in_domain S m)
     \<and> routes_ok S m (pf_flows f) (dr_routes r) (dr_bw r)"

text \<open>
  A flow between two placed VNFs is served when its route leads from the node of the one to the node of
  the other, and its bandwidth is recorded when these are different nodes.
\<close>

definition serves_flows :: "'a graph_scheme \<Rightarrow> domain_response \<Rightarrow> flow_edge list \<Rightarrow> bool" where
  "serves_flows g r fes \<longleftrightarrow>
     (\<forall>fe \<in> set fes. \<forall>s d. map_of (dr_placements r) (source_vnf fe) = Some s \<longrightarrow>
        map_of (dr_placements r) (target_vnf fe) = Some d \<longrightarrow>
          (\<exists>ls. map_of (dr_routes r) (flow_key_of fe) = Some ls \<and> joins g s d ls
             \<and> (s = d \<longrightarrow> ls = [])
             \<and> (s \<noteq> d \<longrightarrow> map_of (dr_bw r) (flow_key_of fe) = Some (bandwidth_demand fe))))"

definition permitted_placement :: "vnf_assignment list \<Rightarrow> (string, node_id) dict \<Rightarrow> bool" where
  "permitted_placement vs pl \<longleftrightarrow>
     (\<forall>v \<in> set vs. \<forall>n. map_of pl (va_id v) = Some n \<longrightarrow> va_permitted v = [] \<or> n \<in> set (va_permitted v))"

text \<open>
  What every actor owes a fragment beyond executing it: permitted nodes, and every flow served. The second
  holds for fragments in which no VNF is the target of two flows; the learned actor needs that.
\<close>

definition fulfils :: "'a graph_scheme \<Rightarrow> plan_fragment \<Rightarrow> domain_response \<Rightarrow> bool" where
  "fulfils g f r \<longleftrightarrow>
     permitted_placement (pf_vnfs f) (dr_placements r)
     \<and> (distinct (map target_vnf (pf_flows f)) \<longrightarrow> serves_flows g r (pf_flows f))"

lemma fulfils_charge: "wf_graph g \<Longrightarrow> fulfils (charge ns ls g) f r \<longleftrightarrow> fulfils g f r"
  by (simp add: fulfils_def serves_flows_def joins_charge wf_graph_def)

type_synonym act_fun = "substrate \<Rightarrow> plan_fragment \<Rightarrow> py_error + (substrate \<times> domain_response)"

locale domain_actor =
  fixes m :: int and act :: act_fun
  assumes act_domain: "act S f = Inr (T, r) \<Longrightarrow> dr_domain r = m"
    and act_refuses: "wf_graph S \<Longrightarrow> wf_fragment f \<Longrightarrow> act S f = Inr (T, r) \<Longrightarrow>
      \<not> dr_feasible r \<Longrightarrow> T = S \<and> dr_placements r = [] \<and> dr_routes r = [] \<and> dr_bw r = []"
    and act_executes: "wf_graph S \<Longrightarrow> wf_fragment f \<Longrightarrow> act S f = Inr (T, r) \<Longrightarrow>
      dr_feasible r \<Longrightarrow> executed S m f T r"
    and act_fulfils: "wf_graph S \<Longrightarrow> wf_fragment f \<Longrightarrow> act S f = Inr (T, r) \<Longrightarrow>
      dr_feasible r \<Longrightarrow> fulfils S f r"
    and act_safe: "wf_graph S \<Longrightarrow> wf_fragment f \<Longrightarrow> act S f = Inr (T, r) \<Longrightarrow>
      no_overbooking S \<Longrightarrow> no_overbooking T"
begin

lemma act_charges:
  assumes "wf_graph S" and "wf_fragment f" and "act S f = Inr (T, r)"
  shows "T = charge (place_claims (frag_demand (pf_vnfs f)) (dr_placements r))
                    (route_claims (dr_routes r) (dr_bw r)) S"
proof (cases "dr_feasible r")
  case True
  then show ?thesis using act_executes[OF assms] by (simp add: executed_def)
next
  case False
  then show ?thesis using act_refuses[OF assms] by (simp add: charge_def route_claims_def)
qed

lemma act_wf: "wf_graph S \<Longrightarrow> wf_fragment f \<Longrightarrow> act S f = Inr (T, r) \<Longrightarrow> wf_graph T"
  by (metis act_charges wf_charge)

lemma act_undo:
  assumes "wf_graph S" and "wf_fragment f" and "act S f = Inr (T, r)"
  shows "refund (place_claims (frag_demand (pf_vnfs f)) (dr_placements r))
                (route_claims (dr_routes r) (dr_bw r)) T = S"
  unfolding act_charges[OF assms] by (rule refund_charge)

end

text \<open>
  A table of actors, one per domain, over one path library. A domain without an actor is
  answered by the coordinator itself with an infeasible response.
\<close>

type_synonym actor_table = "(int, act_fun) dict"

locale actor_pool = path_oracle +
  fixes actors :: actor_table
  assumes actors_meet_contract: "map_of actors d = Some act \<Longrightarrow> domain_actor d act"

end
