(* ===== verification/Chain_Order.thy ===== *)
theory Chain_Order
  imports Orion_Types
begin

text \<open>
  C10, chain-order contiguity (\<open>src/src/orion/mdo/chain_order.py\<close>), and the partition
  arithmetic of \<open>src/src/orion/mdo/precommit_check.py\<close>: hops, domain sequence, inter-domain
  bandwidth per pair and in total, delay and cost aggregation, and \<open>precommit_check\<close> itself,
  which always raises. Everything is related to one list function, the library's
  \<open>remdups_adj\<close>: its length is the run count and its distinctness is contiguity.
\<close>

section \<open>chain\_order.py\<close>

datatype chain_mode = RejectMode | OffMode

text \<open>The environment variable, \<open>None\<close> when it is unset.\<close>

definition chain_mode_of :: "string option \<Rightarrow> py_error + chain_mode" where
  "chain_mode_of env =
     (let m = (case env of None \<Rightarrow> ''reject'' | Some v \<Rightarrow> v) in
      if m = ''reject'' then Inr RejectMode
      else if m = ''off'' then Inr OffMode
      else Inl ValueError)"

definition enabled :: "string option \<Rightarrow> py_error + bool" where
  "enabled env = map_sum id (\<lambda>m. m \<noteq> OffMode) (chain_mode_of env)"

definition run_count :: "'a list \<Rightarrow> nat" where
  "run_count ds =
     sum_list (map (\<lambda>i. if i = 0 \<or> ds ! (i - 1) \<noteq> ds ! i then 1 else 0) [0..<length ds])"

definition is_contiguous :: "'a list \<Rightarrow> bool" where
  "is_contiguous ds \<longleftrightarrow> run_count ds = card (set ds)"

definition violates :: "string option \<Rightarrow> 'a list \<Rightarrow> py_error + bool" where
  "violates env ds = map_sum id (\<lambda>on. on \<and> \<not> is_contiguous ds) (enabled env)"

lemma run_count_simps [simp]:
  "run_count [] = 0"
  "run_count [x] = 1"
  "run_count (x # y # ys) = (if x = y then 0 else 1) + run_count (y # ys)"
proof -
  have "[0..<length (x # y # ys)] = 0 # Suc 0 # map (Suc \<circ> Suc) [0..<length ys]"
    by (simp add: upt_conv_Cons map_Suc_upt del: upt_Suc flip: map_map)
  moreover have "[0..<length (y # ys)] = 0 # map Suc [0..<length ys]"
    by (simp add: upt_conv_Cons map_Suc_upt del: upt_Suc)
  ultimately show "run_count (x # y # ys) = (if x = y then 0 else 1) + run_count (y # ys)"
    unfolding run_count_def by (simp add: comp_def del: upt_Suc)
qed (simp_all add: run_count_def)

lemma run_count_remdups_adj: "run_count ds = length (remdups_adj ds)"
  by (induction ds rule: remdups_adj.induct) auto

lemma is_contiguous_distinct: "is_contiguous ds \<longleftrightarrow> distinct (remdups_adj ds)"
  unfolding is_contiguous_def run_count_remdups_adj
  by (metis card_distinct distinct_card remdups_adj_set)

lemma is_contiguous_simps [simp]:
  "is_contiguous []"
  "is_contiguous [x]"
  "is_contiguous (x # y # ys) \<longleftrightarrow> (x = y \<or> x \<notin> set (y # ys)) \<and> is_contiguous (y # ys)"
  by (auto simp: is_contiguous_distinct)

text \<open>No domain is entered again after the chain has left it.\<close>

definition no_reentry :: "'a list \<Rightarrow> bool" where
  "no_reentry ds \<longleftrightarrow> (\<forall>k < length ds. \<forall>j < k. \<forall>i < j. ds ! i = ds ! k \<longrightarrow> ds ! j = ds ! k)"

lemma no_reentry_Cons:
  "no_reentry (x # ds) \<longleftrightarrow>
     no_reentry ds \<and> (\<forall>k < length ds. x = ds ! k \<longrightarrow> (\<forall>j < k. ds ! j = x))"
  unfolding no_reentry_def
proof (intro iffI conjI allI impI)
  fix k j i
  assume a: "\<forall>k<length (x # ds). \<forall>j<k. \<forall>i<j. (x # ds) ! i = (x # ds) ! k \<longrightarrow> (x # ds) ! j = (x # ds) ! k"
    and "k < length ds" "j < k" "i < j" "ds ! i = ds ! k"
  then show "ds ! j = ds ! k" using a[rule_format, of "Suc k" "Suc j" "Suc i"] by simp
next
  fix k j
  assume a: "\<forall>k<length (x # ds). \<forall>j<k. \<forall>i<j. (x # ds) ! i = (x # ds) ! k \<longrightarrow> (x # ds) ! j = (x # ds) ! k"
    and "k < length ds" "x = ds ! k" "j < k"
  then show "ds ! j = x" using a[rule_format, of "Suc k" "Suc j" 0] by simp
next
  fix k j i
  assume a: "(\<forall>k<length ds. \<forall>j<k. \<forall>i<j. ds ! i = ds ! k \<longrightarrow> ds ! j = ds ! k) \<and>
       (\<forall>k<length ds. x = ds ! k \<longrightarrow> (\<forall>j<k. ds ! j = x))"
    and b: "k < length (x # ds)" "j < k" "i < j" "(x # ds) ! i = (x # ds) ! k"
  from b obtain k' j' where kj: "k = Suc k'" "j = Suc j'" by (metis less_imp_Suc_add)
  with b have k: "k' < length ds" "j' < k'" by simp_all
  show "(x # ds) ! j = (x # ds) ! k"
  proof (cases i)
    case 0
    with b kj have eq: "x = ds ! k'" by simp
    with a k have "ds ! j' = x" by blast
    with eq kj show ?thesis by simp
  next
    case (Suc i')
    with b kj have "i' < j'" "ds ! i' = ds ! k'" by simp_all
    with a k have "ds ! j' = ds ! k'" by blast
    with kj show ?thesis by simp
  qed
qed

lemma no_reentry_Cons_Cons:
  "no_reentry (x # y # ys) \<longleftrightarrow> (x = y \<or> x \<notin> set (y # ys)) \<and> no_reentry (y # ys)"
proof (cases "no_reentry (y # ys)")
  case True
  have "(\<forall>k < length (y # ys). x = (y # ys) ! k \<longrightarrow> (\<forall>j < k. (y # ys) ! j = x))
        \<longleftrightarrow> x = y \<or> x \<notin> set (y # ys)" (is "?C \<longleftrightarrow> _")
  proof
    assume C: ?C
    show "x = y \<or> x \<notin> set (y # ys)"
    proof (cases "x \<in> set (y # ys)")
      case True
      then obtain k where k: "k < length (y # ys)" "(y # ys) ! k = x"
        unfolding in_set_conv_nth by blast
      with C have before: "\<forall>j < k. (y # ys) ! j = x" by blast
      show ?thesis
      proof (cases k)
        case 0
        with k(2) show ?thesis by simp
      next
        case (Suc j)
        with before have "(y # ys) ! 0 = x" by blast
        then show ?thesis by simp
      qed
    qed simp
  next
    assume r: "x = y \<or> x \<notin> set (y # ys)"
    show ?C
    proof (intro allI impI)
      fix k j assume k: "k < length (y # ys)" "x = (y # ys) ! k" "j < k"
      have "x \<in> set (y # ys)" unfolding k(2) by (rule nth_mem[OF k(1)])
      with r have xy: "x = y" by blast
      show "(y # ys) ! j = x"
      proof (cases j)
        case 0
        then show ?thesis by (simp add: xy)
      next
        case (Suc i)
        have "(y # ys) ! 0 = (y # ys) ! k" using xy k(2) by simp
        then have "(y # ys) ! j = (y # ys) ! k"
          using True k(1,3) Suc unfolding no_reentry_def by blast
        then show ?thesis by (simp only: k(2))
      qed
    qed
  qed
  with True show ?thesis unfolding no_reentry_Cons[of x "y # ys"] by blast
next
  case False
  then show ?thesis unfolding no_reentry_Cons[of x "y # ys"] by blast
qed

text \<open>
  The run test the code performs (as many maximal runs as distinct domains) accepts
  exactly the partitions in which no domain is re-entered, (A, B, A) being the shape refused.
\<close>

theorem is_contiguous_iff_no_reentry: "is_contiguous ds \<longleftrightarrow> no_reentry ds"
proof (induction ds rule: remdups_adj.induct)
  case (3 x y ys)
  then show ?case by (auto simp: no_reentry_Cons_Cons)
qed (simp_all add: no_reentry_def)

text \<open>With the default mode a partition is refused iff it re-enters a domain; with \<open>off\<close>
  nothing is refused; any other value raises.\<close>

theorem violates_modes:
  "violates env ds =
     (if env = None \<or> env = Some ''reject'' then Inr (\<not> no_reentry ds)
      else if env = Some ''off'' then Inr False else Inl ValueError)"
  by (auto simp: violates_def enabled_def chain_mode_of_def is_contiguous_iff_no_reentry
      split: option.splits)

section \<open>precommit\_check.py\<close>

definition pair_key :: "int \<Rightarrow> int \<Rightarrow> int \<times> int" where
  "pair_key a b = (if a \<le> b then (a, b) else (b, a))"

text \<open>\<open>bw_demands[k] if k < len(bw_demands) else 0.0\<close>.\<close>

definition demand_at :: "real list \<Rightarrow> nat \<Rightarrow> real" where
  "demand_at bws k = (if k < length bws then bws ! k else 0)"

definition inter_domain_demand_by_pair :: "int list \<Rightarrow> real list \<Rightarrow> (int \<times> int, real) dict" where
  "inter_domain_demand_by_pair ds bws =
     fold (\<lambda>k dem. if ds ! k = ds ! Suc k then dem
                   else add_at (pair_key (ds ! k) (ds ! Suc k)) (demand_at bws k) dem)
       [0..<length ds - 1] []"

definition inter_domain_residual_by_pair :: "inter_domain_link list \<Rightarrow> (int \<times> int, real) dict" where
  "inter_domain_residual_by_pair ls =
     fold (\<lambda>l res. add_at (pair_key (il_source l) (il_target l)) (il_bw_residual l) res) ls []"

fun check_c5b_inter :: "(int \<times> int, real) dict \<Rightarrow> (int \<times> int, real) dict \<Rightarrow> bool" where
  "check_c5b_inter [] res = False"
| "check_c5b_inter ((p, d) # dem) res =
     (if d > get_default res p 0 then True else check_c5b_inter dem res)"

definition compute_inter_domain_bw :: "int list \<Rightarrow> real list \<Rightarrow> real" where
  "compute_inter_domain_bw ds bws =
     (\<Sum>k \<leftarrow> [0..<length ds - 1]. if ds ! k \<noteq> ds ! Suc k then demand_at bws k else 0)"

definition count_inter_domain_hops :: "'a list \<Rightarrow> nat" where
  "count_inter_domain_hops ds =
     (\<Sum>k \<leftarrow> [0..<length ds - 1]. if ds ! k \<noteq> ds ! Suc k then 1 else 0)"

definition domain_sequence_from_partition :: "'a list \<Rightarrow> 'a list" where
  "domain_sequence_from_partition ds =
     (case ds of [] \<Rightarrow> []
      | d # rest \<Rightarrow> fold (\<lambda>d sq. if d \<noteq> last sq then sq @ [d] else sq) rest [d])"

definition compute_e2e_delay ::
  "(int, domain_response) dict \<Rightarrow> (int \<times> int, real) dict \<Rightarrow> int list \<Rightarrow> real" where
  "compute_e2e_delay resps delays sq =
     (\<Sum>d \<leftarrow> py_set sq. case map_of resps d of None \<Rightarrow> 0 | Some r \<Rightarrow> dr_intra_delay r)
     + (\<Sum>i \<leftarrow> [0..<length sq - 1].
          if sq ! i \<noteq> sq ! Suc i then get_default delays (sq ! i, sq ! Suc i) 0 else 0)"

definition compute_total_cost :: "(int, domain_response) dict \<Rightarrow> real \<Rightarrow> real \<Rightarrow> real" where
  "compute_total_cost resps inter_bw gamma =
     (\<Sum>r \<leftarrow> vals resps. dr_cost r) + gamma * inter_bw"

text \<open>The body of \<open>precommit_check\<close> starts with an unconditional \<open>raise RuntimeError\<close>.\<close>

definition precommit_check ::
  "int list \<Rightarrow> (int, domain_response) dict \<Rightarrow> (int \<times> int, real) dict \<Rightarrow> qos_requirements
   \<Rightarrow> real list \<Rightarrow> nat \<Rightarrow> real \<Rightarrow> (int \<times> int, real) dict option
   \<Rightarrow> py_error + (bool \<times> violation_info \<times> real \<times> real)" where
  "precommit_check ds resps delays q bws max_hops gamma residuals = Inl RuntimeError"

lemma hops_simps [simp]:
  "count_inter_domain_hops [] = 0"
  "count_inter_domain_hops [x] = 0"
  "count_inter_domain_hops (x # y # ys) = (if x = y then 0 else 1) + count_inter_domain_hops (y # ys)"
proof -
  have "[0..<length (x # y # ys) - 1] = 0 # map Suc [0..<length (y # ys) - 1]"
    by (simp add: upt_conv_Cons map_Suc_upt del: upt_Suc)
  then show "count_inter_domain_hops (x # y # ys)
             = (if x = y then 0 else 1) + count_inter_domain_hops (y # ys)"
    unfolding count_inter_domain_hops_def by (simp add: comp_def del: upt_Suc)
qed (simp_all add: count_inter_domain_hops_def)

lemma run_count_hops: "ds \<noteq> [] \<Longrightarrow> run_count ds = Suc (count_inter_domain_hops ds)"
  by (induction ds rule: remdups_adj.induct) auto

text \<open>
  A partition crosses at least as many domain boundaries as it has domains less one, and it
  attains that minimum exactly when no domain is re-entered. This is why C10 never costs a
  crossing.
\<close>

theorem contiguous_iff_fewest_hops:
  assumes "ds \<noteq> []"
  shows "card (set ds) - 1 \<le> count_inter_domain_hops ds
       \<and> (count_inter_domain_hops ds = card (set ds) - 1 \<longleftrightarrow> no_reentry ds)"
proof -
  have le: "card (set ds) \<le> run_count ds"
    unfolding run_count_remdups_adj by (metis card_length remdups_adj_set)
  have "0 < card (set ds)" using assms by (simp add: card_gt_0_iff)
  then show ?thesis
    using le run_count_hops[OF assms]
    by (auto simp: is_contiguous_iff_no_reentry[symmetric] is_contiguous_def)
qed

theorem contiguous_iff_fewest_hops_witness:
  "count_inter_domain_hops [2, 2, 4 :: int] = card (set [2, 2, 4 :: int]) - 1 \<and> no_reentry [2, 2, 4 :: int]"
  using contiguous_iff_fewest_hops[of "[2, 2, 4 :: int]"] by simp

lemma domain_sequence_remdups_adj: "domain_sequence_from_partition ds = remdups_adj ds"
proof -
  have "fold (\<lambda>d sq. if d \<noteq> last sq then sq @ [d] else sq) rest (pre @ [d])
        = pre @ remdups_adj (d # rest)" for rest pre and d :: 'a
  proof (induction rest arbitrary: pre d)
    case (Cons e rest)
    then show ?case using Cons.IH[of "pre @ [d]" e] by (auto simp: remdups_adj_Cons')
  qed simp
  from this[of _ "[]"] show ?thesis
    by (cases ds) (auto simp: domain_sequence_from_partition_def)
qed

text \<open>
  The domain sequence visits exactly the domains of the partition, never lists a domain
  twice in a row, has one entry per run, and lists every domain once iff C10 holds.
\<close>

theorem domain_sequence_correct:
  "set (domain_sequence_from_partition ds) = set ds
   \<and> distinct_adj (domain_sequence_from_partition ds)
   \<and> length (domain_sequence_from_partition ds) = run_count ds
   \<and> (distinct (domain_sequence_from_partition ds) \<longleftrightarrow> no_reentry ds)"
  by (simp add: domain_sequence_remdups_adj run_count_remdups_adj
      is_contiguous_distinct[symmetric] is_contiguous_iff_no_reentry)

text \<open>
  Grouping by domain pair loses no bandwidth: the demands of all pairs add up to the total
  inter-domain bandwidth the cost charges.
\<close>

theorem demand_by_pair_total:
  "sum_list (vals (inter_domain_demand_by_pair ds bws)) = compute_inter_domain_bw ds bws"
proof -
  have "sum_list (vals (fold (\<lambda>k dem. if ds ! k = ds ! Suc k then dem
            else add_at (pair_key (ds ! k) (ds ! Suc k)) (demand_at bws k) dem) ks dem))
        = sum_list (vals dem) + (\<Sum>k \<leftarrow> ks. if ds ! k \<noteq> ds ! Suc k then demand_at bws k else 0)"
    for ks dem
    by (induction ks arbitrary: dem) (auto simp: sum_vals_add_at)
  then show ?thesis
    by (simp add: inter_domain_demand_by_pair_def compute_inter_domain_bw_def)
qed

lemma check_c5b_inter_iff:
  "check_c5b_inter dem res \<longleftrightarrow> (\<exists>(p, d) \<in> set dem. get_default res p 0 < d)"
  by (induction dem res rule: check_c5b_inter.induct) auto

end
