(* ===== verification/Admissibility.thy ===== *)
theory Admissibility
  imports Observation Chain_Order
begin

text \<open>
  The post-decode guard (\<open>src/src/orion/mdo/admissibility.py\<close>): the node-fit test \<open>h\<^sup>m\<close>, the
  left-to-right \<open>repair_partition\<close> and the exact search \<open>minimal_committable_partition\<close>.
  \<open>Unchanged\<close> stands for returning the input object itself. The counters of \<open>GUARD_STATS\<close>
  are threaded through.
\<close>

section \<open>The two tests\<close>

record guard_stats =
  gs_seen :: nat
  gs_moved :: nat
  gs_unrepairable :: nat
  gs_changed :: nat

definition reset_guard_stats :: guard_stats where
  "reset_guard_stats = \<lparr>gs_seen = 0, gs_moved = 0, gs_unrepairable = 0, gs_changed = 0\<rparr>"

definition fits_a_node :: "domain_summary \<Rightarrow> tier list \<Rightarrow> real \<Rightarrow> real \<Rightarrow> bool" where
  "fits_a_node s tiers cpu ram \<longleftrightarrow>
     list_ex (\<lambda>t. cpu \<le> ds_max_node_cpu s t \<and> ram \<le> ds_max_node_ram s t) tiers"

text \<open>\<open>feas[k][m]\<close> and \<open>tiers[k][m]\<close> for VNF \<open>v\<close> and the domain of summary \<open>s\<close>.\<close>

definition domain_feasible :: "'a graph_scheme \<Rightarrow> vnf \<Rightarrow> domain_summary \<Rightarrow> bool" where
  "domain_feasible g v s \<longleftrightarrow>
     list_ex (\<lambda>n. n \<in> set (nodes_in_domain g (ds_domain s))) (permitted_nodes v)"

definition usable_tiers :: "'a graph_scheme \<Rightarrow> vnf \<Rightarrow> domain_summary \<Rightarrow> tier list" where
  "usable_tiers g v s =
     map (\<lambda>(n, d). node_tier d)
       (filter (\<lambda>(n, d). n \<in> set (permitted_nodes v)) (domain_nodes g (ds_domain s)))"

definition admissible :: "'a graph_scheme \<Rightarrow> vnf \<Rightarrow> domain_summary \<Rightarrow> bool" where
  "admissible g v s \<longleftrightarrow>
     domain_feasible g v s \<and> fits_a_node s (usable_tiers g v s) (cpu_demand v) (ram_demand v)"

text \<open>\<open>dom_index = {s.domain_id: m for m, s in enumerate(summaries)}\<close>: the last one wins.\<close>

definition dom_index :: "domain_summary list \<Rightarrow> int \<Rightarrow> nat option" where
  "dom_index ss d = map_of (rev (zip (map ds_domain ss) [0..<length ss])) d"

section \<open>Left-to-right repair\<close>

record repair_state =
  rs_cpu :: "real list"
  rs_ram :: "real list"
  rs_closed :: "nat set"
  rs_cur :: "nat option"
  rs_out :: "int list"
  rs_any :: bool
  rs_stats :: guard_stats

text \<open>\<open>max(cands)\<close> over pairs of slack and index; an empty list gives no candidate.\<close>

definition best_candidate :: "(real \<times> nat) list \<Rightarrow> (real \<times> nat) option" where
  "best_candidate cs = (case rev (sort cs) of [] \<Rightarrow> None | c # _ \<Rightarrow> Some c)"

definition seat_vnf :: "'a graph_scheme \<Rightarrow> domain_summary list \<Rightarrow> vnf \<Rightarrow> nat \<Rightarrow> repair_state
    \<Rightarrow> nat \<times> repair_state" where
  "seat_vnf g ss v m \<sigma> =
     (if admissible g v (ss ! m) then (m, \<sigma>)
      else case best_candidate
             (map (\<lambda>j. (min (rs_cpu \<sigma> ! j - cpu_demand v) (rs_ram \<sigma> ! j - ram_demand v), j))
               (filter (\<lambda>j. admissible g v (ss ! j) \<and> j \<notin> rs_closed \<sigma>) [0..<length ss])) of
          Some (slack, j) \<Rightarrow>
            if slack > 0
            then (j, \<sigma>\<lparr>rs_any := True, rs_stats := (rs_stats \<sigma>)\<lparr>gs_moved := gs_moved (rs_stats \<sigma>) + 1\<rparr>\<rparr>)
            else (m, \<sigma>\<lparr>rs_stats := (rs_stats \<sigma>)\<lparr>gs_unrepairable := gs_unrepairable (rs_stats \<sigma>) + 1\<rparr>\<rparr>)
        | None \<Rightarrow>
            (m, \<sigma>\<lparr>rs_stats := (rs_stats \<sigma>)\<lparr>gs_unrepairable := gs_unrepairable (rs_stats \<sigma>) + 1\<rparr>\<rparr>))"

definition repair_step :: "'a graph_scheme \<Rightarrow> domain_summary list \<Rightarrow> vnf \<times> int \<Rightarrow> repair_state \<Rightarrow> repair_state" where
  "repair_step g ss = (\<lambda>(v, d) \<sigma>.
     case dom_index ss d of
       None \<Rightarrow> \<sigma>\<lparr>rs_out := rs_out \<sigma> @ [d]\<rparr>
     | Some m0 \<Rightarrow>
         let (m, \<tau>) = seat_vnf g ss v m0 \<sigma> in
         \<tau>\<lparr>rs_closed := (case rs_cur \<tau> of None \<Rightarrow> rs_closed \<tau>
                         | Some c \<Rightarrow> if m \<noteq> c then insert c (rs_closed \<tau>) else rs_closed \<tau>),
           rs_cur := Some m,
           rs_cpu := (rs_cpu \<tau>)[m := rs_cpu \<tau> ! m - cpu_demand v],
           rs_ram := (rs_ram \<tau>)[m := rs_ram \<tau> ! m - ram_demand v],
           rs_out := rs_out \<tau> @ [ds_domain (ss ! m)]\<rparr>)"

definition repair_partition :: "int list \<Rightarrow> slice_request \<Rightarrow> 'a graph_scheme \<Rightarrow> domain_summary list
    \<Rightarrow> guard_stats \<Rightarrow> int list \<times> guard_stats" where
  "repair_partition p req g ss st =
     (if vnfs req = [] \<or> ss = [] \<or> length p \<noteq> length (vnfs req) then (p, st)
      else
        let \<sigma> = fold (repair_step g ss) (zip (vnfs req) p)
                  \<lparr>rs_cpu = map ds_cpu_residual ss, rs_ram = map ds_ram_residual ss, rs_closed = {},
                   rs_cur = None, rs_out = [], rs_any = False, rs_stats = st\<lparr>gs_seen := gs_seen st + 1\<rparr>\<rparr>
        in if \<not> rs_any \<sigma> then (p, rs_stats \<sigma>)
           else (rs_out \<sigma>, (rs_stats \<sigma>)\<lparr>gs_changed := gs_changed (rs_stats \<sigma>) + 1\<rparr>))"

section \<open>Exact minimal repair\<close>

definition exact_repair_budget :: nat where
  "exact_repair_budget = 4096"

definition contiguous_idx :: "nat list \<Rightarrow> bool" where
  "contiguous_idx ix \<longleftrightarrow>
     length (filter (\<lambda>i. i = 0 \<or> ix ! (i - 1) \<noteq> ix ! i) [0..<length ix]) = card (set ix)"

text \<open>\<open>acc_c\<close> and \<open>acc_r\<close>: what the assignment puts into each domain.\<close>

definition domain_load :: "('v \<Rightarrow> real) \<Rightarrow> 'v list \<Rightarrow> nat list \<Rightarrow> (nat, real) dict" where
  "domain_load f vs ix = fold (\<lambda>(v, m). add_at m (f v)) (zip vs ix) []"

definition committable :: "'a graph_scheme \<Rightarrow> domain_summary list \<Rightarrow> vnf list \<Rightarrow> nat list \<Rightarrow> bool" where
  "committable g ss vs ix \<longleftrightarrow>
     contiguous_idx ix
     \<and> list_all2 (\<lambda>v m. admissible g v (ss ! m)) vs ix
     \<and> list_all (\<lambda>(m, c). c \<le> ds_cpu_residual (ss ! m)) (domain_load cpu_demand vs ix)
     \<and> list_all (\<lambda>(m, r). r \<le> ds_ram_residual (ss ! m)) (domain_load ram_demand vs ix)"

definition hamming :: "nat list \<Rightarrow> nat list \<Rightarrow> nat" where
  "hamming xs ys = length (filter (\<lambda>(x, y). x \<noteq> y) (zip xs ys))"

definition repair_key :: "nat list \<Rightarrow> nat list \<Rightarrow> nat \<times> nat \<times> nat list" where
  "repair_key authored cand = (hamming cand authored, card (set cand), cand)"

text \<open>The loop over \<open>itertools.product\<close>; \<open>best\<close> holds \<open>best_key\<close>, which contains the candidate.\<close>

fun search_best :: "'a graph_scheme \<Rightarrow> domain_summary list \<Rightarrow> vnf list \<Rightarrow> nat list \<Rightarrow> nat list list
    \<Rightarrow> (nat \<times> nat \<times> nat list) option \<Rightarrow> (nat \<times> nat \<times> nat list) option" where
  "search_best g ss vs authored [] best = best"
| "search_best g ss vs authored (c # cs) best =
     (if \<not> committable g ss vs c then search_best g ss vs authored cs best
      else case best of
          None \<Rightarrow> search_best g ss vs authored cs (Some (repair_key authored c))
        | Some b \<Rightarrow> search_best g ss vs authored cs
                     (Some (if repair_key authored c < b then repair_key authored c else b)))"

text \<open>\<open>None\<close>: the input object is returned.\<close>

definition minimal_committable_partition :: "int list \<Rightarrow> slice_request \<Rightarrow> 'a graph_scheme
    \<Rightarrow> domain_summary list \<Rightarrow> guard_stats \<Rightarrow> int list option \<times> guard_stats" where
  "minimal_committable_partition p req g ss st =
     (let vs = vnfs req; K = length vs; M = length ss in
      if K = 0 \<or> M = 0 \<or> length p \<noteq> K \<or> M ^ K > exact_repair_budget then (None, st)
      else if list_ex (\<lambda>d. dom_index ss d = None) p then (None, st)
      else
        let authored = map (\<lambda>d. the (dom_index ss d)) p;
            st1 = st\<lparr>gs_seen := gs_seen st + 1\<rparr>
        in if committable g ss vs authored then (None, st1)
           else
             let choices = map (\<lambda>v. filter (\<lambda>m. admissible g v (ss ! m)) [0..<M]) vs in
             if list_ex (\<lambda>c. c = []) choices
             then (None, st1\<lparr>gs_unrepairable := gs_unrepairable st1 + 1\<rparr>)
             else case search_best g ss vs authored (product_lists choices) None of
                 None \<Rightarrow> (None, st1\<lparr>gs_unrepairable := gs_unrepairable st1 + 1\<rparr>)
               | Some (moves, n, best) \<Rightarrow>
                   (Some (map (\<lambda>m. ds_domain (ss ! m)) best),
                    st1\<lparr>gs_moved := gs_moved st1 + moves, gs_changed := gs_changed st1 + 1\<rparr>))"

section \<open>Properties\<close>

lemma contiguous_idx_run_count: "contiguous_idx ix \<longleftrightarrow> is_contiguous ix"
proof -
  have "length (filter P xs) = sum_list (map (\<lambda>i. if P i then 1 else 0) xs)" for P and xs :: "nat list"
    by (induction xs) auto
  then show ?thesis by (simp add: contiguous_idx_def is_contiguous_def run_count_def)
qed

text \<open>The search keeps the least key among the committable candidates.\<close>

lemma search_best_least:
  "search_best g ss vs a cs best =
     least ((case best of None \<Rightarrow> [] | Some b \<Rightarrow> [b]) @ map (repair_key a) (filter (committable g ss vs) cs))"
proof (induction cs arbitrary: best)
  case Nil
  then show ?case by (auto simp: least_def split: option.splits)
next
  case (Cons c cs)
  have "(if repair_key a c < b then repair_key a c else b) = min b (repair_key a c)" for b
    by (auto simp: min_def)
  then show ?case
    using least_min[of _ "repair_key a c"] by (auto simp: Cons.IH split: option.splits)
qed

text \<open>Every committable assignment is one of the enumerated candidates.\<close>

lemma enumerated_iff:
  "ix \<in> set (product_lists (map (\<lambda>v. filter (\<lambda>m. admissible g v (ss ! m)) [0..<length ss]) vs))
   \<longleftrightarrow> list_all2 (\<lambda>v m. m < length ss \<and> admissible g v (ss ! m)) vs ix"
  unfolding product_lists_set by (auto simp: list_all2_conv_all_nth)

lemma committable_enumerated:
  assumes "committable g ss vs ix" and "\<forall>m \<in> set ix. m < length ss"
  shows "ix \<in> set (product_lists (map (\<lambda>v. filter (\<lambda>m. admissible g v (ss ! m)) [0..<length ss]) vs))"
  using assms unfolding enumerated_iff committable_def by (auto simp: list_all2_conv_all_nth)

lemma enumerated_bound:
  assumes "ix \<in> set (product_lists (map (\<lambda>v. filter (\<lambda>m. admissible g v (ss ! m)) [0..<length ss]) vs))"
  shows "\<forall>m \<in> set ix. m < length ss"
  using assms unfolding enumerated_iff by (auto simp: list_all2_conv_all_nth in_set_conv_nth)

definition authored_idx :: "domain_summary list \<Rightarrow> int list \<Rightarrow> nat list" where
  "authored_idx ss p = map (\<lambda>d. the (dom_index ss d)) p"

lemma product_lists_empty: "[] \<in> set xss \<Longrightarrow> product_lists xss = []"
  by (induction xss) auto

text \<open>The outcome on a partition of known domains within the budget that is not committable.\<close>

lemma repair_outcome:
  assumes "vnfs req \<noteq> []" and "ss \<noteq> []" and "length p = length (vnfs req)"
    and "length ss ^ length (vnfs req) \<le> exact_repair_budget"
    and "\<forall>d \<in> set p. dom_index ss d \<noteq> None"
    and "\<not> committable g ss (vnfs req) (authored_idx ss p)"
  shows "fst (minimal_committable_partition p req g ss st)
    = map_option (\<lambda>(d, n, best). map (\<lambda>m. ds_domain (ss ! m)) best)
        (least (map (repair_key (authored_idx ss p)) (filter (committable g ss (vnfs req))
           (product_lists (map (\<lambda>v. filter (\<lambda>m. admissible g v (ss ! m)) [0..<length ss]) (vnfs req))))))"
proof -
  let ?choices = "map (\<lambda>v. filter (\<lambda>m. admissible g v (ss ! m)) [0..<length ss]) (vnfs req)"
  have "\<not> list_ex (\<lambda>d. dom_index ss d = None) p" using assms(5) by (simp add: list_ex_iff)
  then have "fst (minimal_committable_partition p req g ss st)
      = (if list_ex (\<lambda>c. c = []) ?choices then None
         else map_option (\<lambda>(d, n, best). map (\<lambda>m. ds_domain (ss ! m)) best)
                (search_best g ss (vnfs req) (authored_idx ss p) (product_lists ?choices) None))"
    using assms(1-4,6) unfolding minimal_committable_partition_def authored_idx_def Let_def
    by (simp split: option.splits prod.splits)
  moreover have "product_lists ?choices = []" if "list_ex (\<lambda>c. c = []) ?choices"
    using that by (intro product_lists_empty) (auto simp: list_ex_iff)
  ultimately show ?thesis by (simp add: search_best_least)
qed

text \<open>
  C35: when the guard replaces a partition, the authored one was not committable and the answer
  is contiguous, admissible for every VNF, within every domain's residual, and least among all
  committable assignments by (choices changed, domains used, lexicographic order). When it leaves
  a known partition alone within the budget, the partition is committable or nothing is.
\<close>

theorem minimal_repair_correct:
  assumes "vnfs req \<noteq> []" and "ss \<noteq> []" and "length p = length (vnfs req)"
    and "length ss ^ length (vnfs req) \<le> exact_repair_budget"
    and "\<forall>d \<in> set p. dom_index ss d \<noteq> None"
  shows "case fst (minimal_committable_partition p req g ss st) of
      Some q \<Rightarrow>
        \<not> committable g ss (vnfs req) (authored_idx ss p)
        \<and> (\<exists>ix. q = map (\<lambda>m. ds_domain (ss ! m)) ix \<and> committable g ss (vnfs req) ix
             \<and> (\<forall>m \<in> set ix. m < length ss)
             \<and> (\<forall>jx. committable g ss (vnfs req) jx \<longrightarrow> (\<forall>m \<in> set jx. m < length ss) \<longrightarrow>
                   (hamming ix (authored_idx ss p), card (set ix), ix)
                   \<le> (hamming jx (authored_idx ss p), card (set jx), jx)))
    | None \<Rightarrow>
        committable g ss (vnfs req) (authored_idx ss p)
        \<or> (\<forall>jx. (\<forall>m \<in> set jx. m < length ss) \<longrightarrow> \<not> committable g ss (vnfs req) jx)"
proof (cases "committable g ss (vnfs req) (authored_idx ss p)")
  case True
  then show ?thesis
    using assms by (simp add: minimal_committable_partition_def authored_idx_def list_ex_iff Let_def)
next
  case False
  let ?vs = "vnfs req" and ?a = "authored_idx ss p"
  let ?cs = "filter (committable g ss ?vs)
    (product_lists (map (\<lambda>v. filter (\<lambda>m. admissible g v (ss ! m)) [0..<length ss]) ?vs))"
  note out = repair_outcome[OF assms False, of st]
  show ?thesis
  proof (cases "least (map (repair_key ?a) ?cs)")
    case None
    then have "\<not> committable g ss ?vs jx" if "\<forall>m \<in> set jx. m < length ss" for jx
      using that committable_enumerated[of g ss ?vs jx] unfolding least_None by (auto simp: filter_empty_conv)
    then show ?thesis unfolding out None by (simp only: option.simps) blast
  next
    case (Some b)
    obtain ix where ix: "ix \<in> set ?cs" and b: "b = repair_key ?a ix"
      using least_in[OF Some] by auto
    have "repair_key ?a ix \<le> repair_key ?a jx"
      if "committable g ss ?vs jx" "\<forall>m \<in> set jx. m < length ss" for jx
      using that committable_enumerated[OF that] unfolding b[symmetric]
      by (intro least_le[OF Some]) simp
    then have min: "\<forall>jx. committable g ss ?vs jx \<longrightarrow> (\<forall>m \<in> set jx. m < length ss) \<longrightarrow>
        (hamming ix ?a, card (set ix), ix) \<le> (hamming jx ?a, card (set jx), jx)"
      unfolding repair_key_def by blast
    note ix' = ix[unfolded set_filter mem_Collect_eq]
    have cm: "committable g ss ?vs ix" by (rule ix'[THEN conjunct2])
    have bd: "\<forall>m \<in> set ix. m < length ss" by (rule enumerated_bound[OF ix'[THEN conjunct1]])
    have eq: "fst (minimal_committable_partition p req g ss st) = Some (map (\<lambda>m. ds_domain (ss ! m)) ix)"
      unfolding out Some b by (simp add: repair_key_def)
    have "\<exists>jx. map (\<lambda>m. ds_domain (ss ! m)) ix = map (\<lambda>m. ds_domain (ss ! m)) jx \<and> committable g ss ?vs jx
        \<and> (\<forall>m \<in> set jx. m < length ss)
        \<and> (\<forall>kx. committable g ss ?vs kx \<longrightarrow> (\<forall>m \<in> set kx. m < length ss) \<longrightarrow>
             (hamming jx ?a, card (set jx), jx) \<le> (hamming kx ?a, card (set kx), kx))"
      by (rule exI[of _ ix]) (rule conjI[OF refl conjI[OF cm conjI[OF bd min]]])
    with False show ?thesis unfolding eq option.case by (rule conjI)
  qed
qed

definition ex_vnf_on :: "string \<Rightarrow> node_id list \<Rightarrow> vnf" where
  "ex_vnf_on v ns = (ex_vnf v)\<lparr>permitted_nodes := ns\<rparr>"

definition ex_guard_req :: slice_request where
  "ex_guard_req = ex_req\<lparr>vnfs := [ex_vnf_on ''u'' [''a''], ex_vnf_on ''v'' [''c''], ex_vnf_on ''w'' [''b'']]\<rparr>"

definition ex_guard_req2 :: slice_request where
  "ex_guard_req2 = ex_req\<lparr>vnfs := [ex_vnf_on ''u'' [''a'', ''b''], ex_vnf_on ''v'' [''c'']]\<rparr>"

theorem minimal_repair_correct_witness:
  "minimal_committable_partition [0, 0] ex_guard_req2 ex_sub (build_domain_summaries ex_sub) reset_guard_stats
     = (Some [0, 1], \<lparr>gs_seen = 1, gs_moved = 1, gs_unrepairable = 0, gs_changed = 1\<rparr>)
   \<and> \<not> committable ex_sub (build_domain_summaries ex_sub) (vnfs ex_guard_req2) [0, 0]
   \<and> (\<exists>ix. [0, 1] = map (\<lambda>m. ds_domain (build_domain_summaries ex_sub ! m)) ix
        \<and> committable ex_sub (build_domain_summaries ex_sub) (vnfs ex_guard_req2) ix
        \<and> (hamming ix [0, 0], card (set ix), ix) \<le> (1, 2, [0, 1]))"
proof -
  let ?ss = "build_domain_summaries ex_sub"
  let ?r = "minimal_committable_partition [0, 0] ex_guard_req2 ex_sub ?ss reset_guard_stats"
  have r: "?r = (Some [0, 1], \<lparr>gs_seen = 1, gs_moved = 1, gs_unrepairable = 0, gs_changed = 1\<rparr>)"
    by code_simp
  have h: "vnfs ex_guard_req2 \<noteq> []" "?ss \<noteq> []" "length [0 :: int, 0] = length (vnfs ex_guard_req2)"
    "length ?ss ^ length (vnfs ex_guard_req2) \<le> exact_repair_budget"
    "\<forall>d \<in> set [0 :: int, 0]. dom_index ?ss d \<noteq> None" "length ?ss = 2" "authored_idx ?ss [0, 0] = [0, 0]"
    by code_simp+
  have c: "committable ex_sub ?ss (vnfs ex_guard_req2) [0, 1]" by code_simp
  have k: "hamming [0, 1] [0, 0] = 1" "card (set [0, 1 :: nat]) = 2" by code_simp+
  note R = minimal_repair_correct[OF h(1-5), of ex_sub reset_guard_stats, unfolded r fst_conv option.simps h(6,7)]
  then show ?thesis using r c k by (force dest: spec[of _ "[0, 1]"])
qed

lemma run_count_map: "inj_on f (set xs) \<Longrightarrow> run_count (map f xs) = run_count xs"
  by (induction xs rule: remdups_adj.induct) (auto dest: inj_onD)

lemma is_contiguous_map: "inj_on f (set xs) \<Longrightarrow> is_contiguous (map f xs) \<longleftrightarrow> is_contiguous xs"
  by (simp add: is_contiguous_def run_count_map card_image)

text \<open>
  A partition the guard puts in place of the authored one is never refused by the
  chain-order constraint, whatever the mode.
\<close>

theorem repaired_keeps_chain_order:
  assumes "fst (minimal_committable_partition p req g ss st) = Some q"
    and "distinct (map ds_domain ss)" and "env = None \<or> env = Some ''reject'' \<or> env = Some ''off''"
  shows "violates env q = Inr False"
proof -
  from assms(1) obtain mv n ix where
    s: "search_best g ss (vnfs req) (map (\<lambda>d. the (dom_index ss d)) p)
          (product_lists (map (\<lambda>v. filter (\<lambda>m. admissible g v (ss ! m)) [0..<length ss]) (vnfs req))) None
        = Some (mv, n, ix)"
    and q: "q = map (\<lambda>m. ds_domain (ss ! m)) ix"
    by (auto simp: minimal_committable_partition_def Let_def split: if_splits option.splits)
  from least_in[OF s[unfolded search_best_least]] have
    ix: "ix \<in> set (product_lists (map (\<lambda>v. filter (\<lambda>m. admissible g v (ss ! m)) [0..<length ss]) (vnfs req)))"
    "committable g ss (vnfs req) ix"
    by (auto simp: repair_key_def)
  have "inj_on (\<lambda>m. ds_domain (ss ! m)) (set ix)"
    using enumerated_bound[OF ix(1)] assms(2)
    by (intro inj_onI) (metis distinct_conv_nth length_map nth_map)
  then have "is_contiguous q"
    using ix(2) by (simp add: q is_contiguous_map committable_def contiguous_idx_run_count)
  then show ?thesis
    using assms(3) by (auto simp: violates_def enabled_def chain_mode_of_def)
qed

theorem repaired_keeps_chain_order_witness: "violates None [0, 1 :: int] = Inr False"
proof -
  have "fst (minimal_committable_partition [0, 0] ex_guard_req2 ex_sub (build_domain_summaries ex_sub)
      reset_guard_stats) = Some [0, 1]" by code_simp
  moreover have "distinct (map ds_domain (build_domain_summaries ex_sub))" by code_simp
  ultimately show ?thesis by (rule repaired_keeps_chain_order) simp
qed

text \<open>
  The left-to-right repair can introduce a re-entry: the authored partition is contiguous,
  only its middle VNF is inadmissible, and the repaired partition leaves the first domain and
  returns to it.
\<close>

theorem repair_partition_can_break_chain_order:
  "repair_partition [0, 0, 0] ex_guard_req ex_sub (build_domain_summaries ex_sub) reset_guard_stats
     = ([0, 1, 0], \<lparr>gs_seen = 1, gs_moved = 1, gs_unrepairable = 0, gs_changed = 1\<rparr>)
   \<and> violates None [0, 0, 0 :: int] = Inr False \<and> violates None [0, 1, 0 :: int] = Inr True"
  by code_simp

text \<open>
  What the node-fit guard accepts is backed by one real node of the domain, of a usable
  tier, with room for both demands.
\<close>

theorem fits_a_node_sound:
  assumes "fits_a_node (domain_summary_of g m) tiers cpu ram" and "0 < cpu \<or> 0 < ram"
  shows "\<exists>(n, d) \<in> set (g_nodes g). domain_id d = m \<and> node_tier d \<in> set tiers
           \<and> cpu \<le> cpu_residual d \<and> ram \<le> ram_residual d"
proof -
  let ?ds = "map snd (domain_nodes g m)"
  from assms(1) obtain t where t: "t \<in> set tiers" "cpu \<le> ds_max_node_cpu (domain_summary_of g m) t"
    "ram \<le> ds_max_node_ram (domain_summary_of g m) t" by (auto simp: fits_a_node_def list_ex_iff)
  obtain b c r where b: "best_node t ?ds = (b, c, r)" by (cases "best_node t ?ds")
  with t have cr: "cpu \<le> c" "ram \<le> r" by (simp_all add: domain_summary_of_def Let_def)
  then have "\<not> (c = 0 \<and> r = 0)" using assms(2) by auto
  from best_node_real[OF b this] obtain d where "d \<in> set ?ds" "node_tier d = t"
    "cpu_residual d = c" "ram_residual d = r" by blast
  then show ?thesis using cr t(1) by fastforce
qed

theorem fits_a_node_sound_witness:
  "\<exists>(n, d) \<in> set (g_nodes ex_sub). domain_id d = 0 \<and> 5 \<le> cpu_residual d \<and> 3 \<le> ram_residual d"
proof -
  have "fits_a_node (domain_summary_of ex_sub 0) [Edge] 5 3" by code_simp
  from fits_a_node_sound[OF this] show ?thesis by auto
qed

definition ex_lopsided :: substrate where
  "ex_lopsided = ex_sub\<lparr>g_nodes :=
     [(''a'', (ex_node 0 Edge)\<lparr>cpu_residual := 8, ram_residual := 16\<rparr>),
      (''b'', (ex_node 0 Edge)\<lparr>cpu_residual := 12, ram_residual := 8\<rparr>)], num_domains := 1\<rparr>"

text \<open>
  The guard is not necessary for a placement. It looks only at the best-balanced node of
  a tier, so it refuses a VNF that another node of the same domain, permitted and of the same
  tier, has room for.
\<close>

theorem fits_a_node_not_necessary:
  "\<not> admissible ex_lopsided ((ex_vnf_on ''u'' [''a'', ''b''])\<lparr>cpu_demand := 10, ram_demand := 1\<rparr>)
       (domain_summary_of ex_lopsided 0)
   \<and> list_ex (\<lambda>(n, d). n = ''b'' \<and> domain_id d = 0 \<and> 10 \<le> cpu_residual d \<and> 1 \<le> ram_residual d)
       (g_nodes ex_lopsided)"
  by code_simp

end
