(* ===== verification/Coordinator.thy ===== *)
theory Coordinator
  imports Domain_Actor Admissibility
begin

text \<open>
  The MDO coordinator (\<open>src/src/orion/mdo/coordinator.py\<close>): one arrival, one partition
  decision, commit or reject. \<open>resolve_arrival\<close> is composed the way the code composes it:
  \<open>decide\<close> (observation, mask, decode, guard), \<open>build_fragments\<close>, \<open>dispatch\<close> to the
  actors, \<open>route_cross\<close>, \<open>judge\<close> (the violation vector), \<open>frame_checks\<close> (the
  assertions), \<open>unwind\<close> (every provisional change undone) and \<open>compute_reward\<close>.

  The neural policy, its random draws and networkx are parameters; the domain actors are a
  dictionary of functions, and every property below holds for any actors that meet the
  contract of \<open>Domain_Actor\<close>.
\<close>

section \<open>Configuration and parameters\<close>

record mdo_config =
  max_inter_domain_hops :: nat
  gamma_inter :: real
  cfg_mu :: real
  cfg_alpha :: real
  lambda_viol :: real
  cfg_eta :: real

definition default_mdo_config :: mdo_config where
  "default_mdo_config = \<lparr>max_inter_domain_hops = 3, gamma_inter = 1, cfg_mu = 100, cfg_alpha = 1,
     lambda_viol = 10, cfg_eta = 1\<rparr>"

text \<open>Module-level switches: \<open>POSTDECODE_GUARD\<close>, \<open>JOINT_HOST_DECODE\<close>,
  \<open>USE_NODE_BASED_TIER_MASK\<close> and the chain-order environment variable.\<close>

record mdo_switches =
  sw_guard :: bool
  sw_joint :: bool
  sw_node_mask :: bool
  sw_chain :: "string option"

record joint_stats =
  js_arrivals :: nat
  js_colocated :: nat
  js_fallback :: nat
  js_agreed :: nat
  js_overrode :: nat
  js_no_host :: nat
  js_candidates :: nat

definition reset_joint_host_stats :: joint_stats where
  "reset_joint_host_stats = \<lparr>js_arrivals = 0, js_colocated = 0, js_fallback = 0, js_agreed = 0,
     js_overrode = 0, js_no_host = 0, js_candidates = 0\<rparr>"

record mdo_counters =
  ct_guard :: guard_stats
  ct_joint :: joint_stats

text \<open>
  The policy as functions of the observation (the tensor it is flattened to is part of
  the parameter): its decode given mask, length, determinism and prior bias; its optional
  joint host decode, with the host and the number of candidates; its raw logits. Both decodes can
  raise: a distribution over no domain does.
\<close>

record mdo_policy =
  pol_decode :: "mdo_observation \<Rightarrow> bool list list \<Rightarrow> nat \<Rightarrow> bool \<Rightarrow> real list list option \<Rightarrow> py_error + int list"
  pol_joint :: "(mdo_observation \<Rightarrow> bool list list \<Rightarrow> nat \<Rightarrow> real list list
                  \<Rightarrow> py_error + (int list \<times> int \<times> nat) option) option"
  pol_logits :: "mdo_observation \<Rightarrow> real list list"

section \<open>Decoding a partition\<close>

text \<open>\<open>domain_to_canonical.get(d, d)\<close>.\<close>

definition to_canonical :: "int list \<Rightarrow> int \<Rightarrow> int" where
  "to_canonical c2d d =
     (case map_of (rev (zip c2d [0..<length c2d])) d of None \<Rightarrow> d | Some i \<Rightarrow> int i)"

definition prior_logits :: "nat \<Rightarrow> nat \<Rightarrow> int list \<Rightarrow> int list \<Rightarrow> real list list" where
  "prior_logits K M c2d sug =
     map (\<lambda>k. map (\<lambda>c. if k < length sug \<and> to_canonical c2d (sug ! k) = int c then 1 else 0) [0..<M])
       [0..<K]"

text \<open>\<open>_sequential_argmax\<close>: the first best masked logit, minus 2 per VNF already sent there; a
  row with nothing to choose makes \<open>Categorical\<close> raise.\<close>

definition sequential_step :: "real list list \<Rightarrow> bool list list \<Rightarrow> nat \<Rightarrow> int list \<times> nat list
    \<Rightarrow> py_error + (int list \<times> nat list)" where
  "sequential_step logits msk k = (\<lambda>(p, count).
     if length logits \<le> k \<or> length msk \<le> k then Inl RuntimeError
     else case least (map (\<lambda>m. (- (logits ! k ! m - 2 * real (count ! m)), m))
                       (filter (\<lambda>m. msk ! k ! m) [0..<length (msk ! k)])) of
         None \<Rightarrow> Inl ValueError
       | Some (_, m) \<Rightarrow> Inr (p @ [int m], count[m := count ! m + 1]))"

definition sequential_argmax :: "real list list \<Rightarrow> bool list list \<Rightarrow> nat \<Rightarrow> nat \<Rightarrow> py_error + int list" where
  "sequential_argmax logits msk K M =
     map_sum id fst (fold_err (sequential_step logits msk) [0..<K] ([], replicate M 0))"

text \<open>\<open>mode = "random"\<close>: \<open>rnd k n\<close> is the draw \<open>torch.randint(n)\<close> for VNF \<open>k\<close>.\<close>

definition random_step :: "(nat \<Rightarrow> nat \<Rightarrow> nat) \<Rightarrow> bool list list \<Rightarrow> nat \<Rightarrow> int list \<Rightarrow> py_error + int list" where
  "random_step rnd msk k p =
     (let feasible = filter (\<lambda>m. msk ! k ! m) [0..<length (msk ! k)] in
      if length msk \<le> k then Inl IndexError
      else if feasible = [] then Inr (p @ [0])
      else map_sum id (\<lambda>m. p @ [int m]) (py_index feasible (int (rnd k (length feasible)))))"

definition count_host :: "int list \<Rightarrow> nat \<Rightarrow> int list \<Rightarrow> int \<Rightarrow> nat \<Rightarrow> joint_stats \<Rightarrow> joint_stats" where
  "count_host c2d K suggested host n js =
     (let js1 = js\<lparr>js_colocated := js_colocated js + 1, js_candidates := js_candidates js + n\<rparr>;
          sug = map (to_canonical c2d) (take K suggested)
      in if sug \<noteq> [] \<and> card (set sug) = 1
         then (if hd sug = host then js1\<lparr>js_agreed := js_agreed js1 + 1\<rparr>
               else js1\<lparr>js_overrode := js_overrode js1 + 1\<rparr>)
         else js1\<lparr>js_no_host := js_no_host js1 + 1\<rparr>)"

definition advised_decode :: "bool \<Rightarrow> mdo_policy \<Rightarrow> mdo_observation \<Rightarrow> bool list list \<Rightarrow> int list
    \<Rightarrow> joint_stats \<Rightarrow> py_error + (int list \<times> joint_stats)" where
  "advised_decode joint pol ob msk c2d js =
     (let K = num_vnfs (ob_plan ob); sug = ps_suggested (ob_plan ob);
          prior = prior_logits K (length c2d) c2d sug;
          decode = (\<lambda>js. map_sum id (\<lambda>p. (p, js)) (pol_decode pol ob msk K True (Some prior)))
      in case (if joint then pol_joint pol else None) of
          None \<Rightarrow> decode js
        | Some jh \<Rightarrow>
            let js1 = js\<lparr>js_arrivals := js_arrivals js + 1\<rparr> in
            (case jh ob msk K prior of
               Inl e \<Rightarrow> Inl e
             | Inr (Some (p, host, n)) \<Rightarrow> Inr (p, count_host c2d K sug host n js1)
             | Inr None \<Rightarrow> decode (js1\<lparr>js_fallback := js_fallback js1 + 1\<rparr>)))"

definition sample_partition :: "bool \<Rightarrow> mdo_policy option \<Rightarrow> (nat \<Rightarrow> nat \<Rightarrow> nat) \<Rightarrow> mdo_observation
    \<Rightarrow> bool list list \<Rightarrow> string \<Rightarrow> int list \<Rightarrow> joint_stats \<Rightarrow> py_error + (int list \<times> joint_stats)" where
  "sample_partition joint policy rnd ob msk mode c2d js =
     (let K = num_vnfs (ob_plan ob); sug = ps_suggested (ob_plan ob) in
      if mode = ''follow_prior'' then Inr (map (to_canonical c2d) sug, js)
      else if mode = ''random'' then
        map_sum id (\<lambda>p. (p, js)) (fold_err (random_step rnd msk) [0..<K] [])
      else case policy of
          None \<Rightarrow> Inl ValueError
        | Some pol \<Rightarrow>
            if mode = ''advised'' then advised_decode joint pol ob msk c2d js
            else if mode = ''sequential_argmax'' then
              map_sum id (\<lambda>p. (p, js)) (sequential_argmax (pol_logits pol ob) msk K (length c2d))
            else map_sum id (\<lambda>p. (p, js)) (pol_decode pol ob msk K (mode = ''deterministic'')
                        (if mode = ''advised_sample''
                         then Some (prior_logits K (length c2d) c2d sug) else None)))"

section \<open>Fragments\<close>

text \<open>\<open>d.setdefault(k, []).append(x)\<close> over a list of pairs.\<close>

definition group_by_key :: "('k \<times> 'x) list \<Rightarrow> ('k, 'x list) dict" where
  "group_by_key xs = fold (\<lambda>(k, x) d. AList.update k (get_default d k [] @ [x]) d) xs []"

text \<open>\<open>next(i for i, v in enumerate(vnfs) if v.vnf_id == x)\<close>.\<close>

definition vnf_index :: "vnf list \<Rightarrow> string \<Rightarrow> py_error + nat" where
  "vnf_index vs x =
     (if x \<in> vnf_id ` set vs then Inr (length (takeWhile (\<lambda>v. vnf_id v \<noteq> x) vs)) else Inl StopIteration)"

definition make_assignment :: "plan_summary \<Rightarrow> int list \<Rightarrow> vnf list \<Rightarrow> nat \<Rightarrow> vnf_assignment" where
  "make_assignment plan part vs k =
     (let v = vs ! k; d = part ! k in
      \<lparr>va_id = vnf_id v, va_type = vnf_type v, va_cpu = cpu_demand v, va_ram = ram_demand v,
       va_tier = ps_tiers plan ! k, va_intensity = intensity v, va_vcr = vcr v,
       va_bandwidth_in = (if k < length (ps_bw plan) then ps_bw plan ! k else 0),
       va_permitted = permitted_nodes v, va_position = k, va_sfc_length = length vs,
       va_adjacent = (if k > 0 \<and> part ! (k - 1) \<noteq> d then {part ! (k - 1)} else {})
                   \<union> (if k < length part - 1 \<and> part ! Suc k \<noteq> d then {part ! Suc k} else {})\<rparr>)"

definition split_flow :: "vnf list \<Rightarrow> int list \<Rightarrow> flow_edge
    \<Rightarrow> (int \<times> flow_edge) list \<times> flow_edge list \<Rightarrow> py_error + ((int \<times> flow_edge) list \<times> flow_edge list)" where
  "split_flow vs part fe = (\<lambda>(intra, cross).
     case vnf_index vs (source_vnf fe) of
       Inl e \<Rightarrow> Inl e
     | Inr i \<Rightarrow>
         (case vnf_index vs (target_vnf fe) of
            Inl e \<Rightarrow> Inl e
          | Inr j \<Rightarrow>
              if part ! i = part ! j then Inr (intra @ [(part ! i, fe)], cross)
              else Inr (intra, cross @ [fe])))"

definition build_fragments :: "plan_summary \<Rightarrow> int list \<Rightarrow> slice_request
    \<Rightarrow> py_error + ((int, plan_fragment) dict \<times> flow_edge list)" where
  "build_fragments plan part req =
     (let vs = vnfs req in
      if length part < length vs \<or> length (ps_tiers plan) < length vs then Inl IndexError
      else case fold_err (split_flow vs part) (flow_edges req) ([], []) of
          Inl e \<Rightarrow> Inl e
        | Inr (intra, cross) \<Rightarrow>
            let placed = group_by_key (map (\<lambda>k. (part ! k, make_assignment plan part vs k)) [0..<length vs]);
                flows = group_by_key intra
            in Inr (map (\<lambda>d. (d, \<lparr>pf_domain = d, pf_vnfs = get_default placed d [],
                                   pf_flows = get_default flows d [],
                                   pf_delay_budget = max_e2e_delay (qos_of req),
                                   pf_targets = set part - {d}\<rparr>)) (py_set part), cross))"

section \<open>Dispatch and cross-domain routing\<close>

definition dispatch_one :: "actor_table \<Rightarrow> int \<times> plan_fragment
    \<Rightarrow> substrate \<times> (int, domain_response) dict \<Rightarrow> py_error + (substrate \<times> (int, domain_response) dict)" where
  "dispatch_one actors = (\<lambda>(d, f) (S, resps).
     case map_of actors d of
       None \<Rightarrow> Inr (S, AList.update d (infeasible_response d) resps)
     | Some act \<Rightarrow>
         (case act S f of
            Inl e \<Rightarrow> Inl e
          | Inr (T, r) \<Rightarrow> Inr (T, AList.update d r resps)))"

definition dispatch_to_actors :: "actor_table \<Rightarrow> (int, plan_fragment) dict \<Rightarrow> substrate
    \<Rightarrow> py_error + (substrate \<times> (int, domain_response) dict)" where
  "dispatch_to_actors actors frags S = fold_err (dispatch_one actors) frags (S, [])"

definition snapshot_node_residuals :: "substrate \<Rightarrow> int list \<Rightarrow> (node_id, real \<times> real) dict" where
  "snapshot_node_residuals S part =
     concat (map (\<lambda>d. map (\<lambda>(n, x). (n, cpu_residual x, ram_residual x)) (domain_nodes S d)) (py_set part))"

definition restore_node_residuals :: "(node_id, real \<times> real) dict \<Rightarrow> substrate \<Rightarrow> substrate" where
  "restore_node_residuals snaps S = fold (\<lambda>(n, a). set_node n a) snaps S"

text \<open>\<open>_rollback_domain\<close> and \<open>_rollback_cross_domain\<close> have the same body.\<close>

definition rollback_routes :: "(flow_key, link_id list) dict \<Rightarrow> (flow_key, real) dict \<Rightarrow> substrate \<Rightarrow> substrate" where
  "rollback_routes rts bw S =
     fold (\<lambda>(fk, x) S. if get_default rts fk [] \<noteq> [] then deallocate_route_bw (get_default rts fk []) x S else S)
       bw S"

definition merge_placements :: "(int, domain_response) dict \<Rightarrow> (string, node_id) dict" where
  "merge_placements resps =
     fold (\<lambda>(d, r) pl. fold (\<lambda>(v, n). AList.update v n) (dr_placements r) pl) resps []"

record cross_state =
  cs_sub :: substrate
  cs_routes :: "(flow_key, link_id list) dict"
  cs_bw :: "(flow_key, real) dict"
  cs_delay :: real
  cs_left :: real
  cs_hops :: nat

text \<open>The edge scan for one link: does it join two domains?\<close>

definition link_crosses :: "'a graph_scheme \<Rightarrow> link_id \<Rightarrow> bool" where
  "link_crosses g l = (case find_link l (g_edges g) of None \<Rightarrow> False | Some (e, d) \<Rightarrow> crosses g e)"

definition cross_failed :: "substrate \<Rightarrow> cross_state" where
  "cross_failed S = \<lparr>cs_sub = S, cs_routes = [], cs_bw = [], cs_delay = 0, cs_left = 0, cs_hops = 0\<rparr>"

definition add_cross_route :: "flow_edge \<Rightarrow> route_result \<Rightarrow> cross_state \<Rightarrow> cross_state" where
  "add_cross_route fe r \<kappa> =
     \<kappa>\<lparr>cs_routes := AList.update (flow_key_of fe) (rr_links r) (cs_routes \<kappa>),
       cs_bw := AList.update (flow_key_of fe) (bandwidth_demand fe) (cs_bw \<kappa>),
       cs_delay := cs_delay \<kappa> + rr_delay r,
       cs_left := cs_left \<kappa> - rr_delay r,
       cs_hops := cs_hops \<kappa> + length (filter (link_crosses (cs_sub \<kappa>)) (rr_links r)),
       cs_sub := allocate_route_bw (rr_links r) (bandwidth_demand fe) (cs_sub \<kappa>)\<rparr>"

text \<open>
  A flow whose end is not placed gives up without touching the debits made so far; an
  unroutable flow undoes them first.
\<close>

fun route_cross :: "nx_lib \<Rightarrow> (string, node_id) dict \<Rightarrow> flow_edge list \<Rightarrow> cross_state
    \<Rightarrow> py_error + (bool \<times> cross_state)" where
  "route_cross nx pl [] \<kappa> = Inr (True, \<kappa>)"
| "route_cross nx pl (fe # fes) \<kappa> =
     (case (map_of pl (source_vnf fe), map_of pl (target_vnf fe)) of
        (Some s, Some d) \<Rightarrow>
          (case route_cross_domain_flow nx (cs_sub \<kappa>) s d (bandwidth_demand fe) (cs_left \<kappa>) 3 MinCost of
             Inl e \<Rightarrow> Inl e
           | Inr r \<Rightarrow>
               if \<not> rr_feasible r
               then Inr (False, cross_failed
                      (fold (\<lambda>(fk, x). deallocate_route_bw (get_default (cs_routes \<kappa>) fk []) x) (cs_bw \<kappa>) (cs_sub \<kappa>)))
               else route_cross nx pl fes (add_cross_route fe r \<kappa>))
      | _ \<Rightarrow> Inr (False, cross_failed (cs_sub \<kappa>)))"

definition route_cross_domain_flows :: "nx_lib \<Rightarrow> substrate \<Rightarrow> flow_edge list
    \<Rightarrow> (int, domain_response) dict \<Rightarrow> real \<Rightarrow> py_error + (bool \<times> cross_state)" where
  "route_cross_domain_flows nx S fes resps budget =
     route_cross nx (merge_placements resps) fes
       \<lparr>cs_sub = S, cs_routes = [], cs_bw = [], cs_delay = 0, cs_left = budget, cs_hops = 0\<rparr>"

section \<open>Resolving one arrival\<close>

text \<open>Mask, decode, mapping to domain ids and the guard.\<close>

record decision =
  de_canonical :: "int list"
  de_partition :: "int list"
  de_counters :: mdo_counters

text \<open>\<open>canonical_to_domain.index(d)\<close>.\<close>

definition canonical_index :: "int list \<Rightarrow> int \<Rightarrow> py_error + int" where
  "canonical_index c2d d =
     (if d \<in> set c2d then Inr (int (length (takeWhile (\<lambda>x. x \<noteq> d) c2d))) else Inl ValueError)"

fun collect :: "('a \<Rightarrow> 'e + 'b) \<Rightarrow> 'a list \<Rightarrow> 'e + 'b list" where
  "collect f [] = Inr []"
| "collect f (x # xs) =
     (case f x of Inl e \<Rightarrow> Inl e
      | Inr y \<Rightarrow> (case collect f xs of Inl e \<Rightarrow> Inl e | Inr ys \<Rightarrow> Inr (y # ys)))"

definition apply_guard :: "bool \<Rightarrow> substrate \<Rightarrow> slice_request \<Rightarrow> domain_summary list \<Rightarrow> decision
    \<Rightarrow> py_error + decision" where
  "apply_guard on S req ss \<delta> =
     (if \<not> on then Inr \<delta>
      else
        let (q, gs) = minimal_committable_partition (de_partition \<delta>) req S ss (ct_guard (de_counters \<delta>));
            \<delta>' = \<delta>\<lparr>de_counters := (de_counters \<delta>)\<lparr>ct_guard := gs\<rparr>\<rparr>
        in case q of
            None \<Rightarrow> Inr \<delta>'
          | Some p \<Rightarrow>
              (case collect (canonical_index (map ds_domain ss)) p of
                 Inl e \<Rightarrow> Inl e
               | Inr c \<Rightarrow> Inr (\<delta>'\<lparr>de_partition := p, de_canonical := c\<rparr>)))"

definition decide :: "mdo_switches \<Rightarrow> mdo_policy option \<Rightarrow> (nat \<Rightarrow> nat \<Rightarrow> nat) \<Rightarrow> substrate
    \<Rightarrow> slice_request \<Rightarrow> plan_summary \<Rightarrow> string \<Rightarrow> mdo_counters \<Rightarrow> py_error + decision" where
  "decide sw policy rnd S req plan mode ct =
     (let ob = build_mdo_observation S plan (qos_of req);
          ss = ob_domains ob;
          c2d = map ds_domain ss
      in case build_tier_masks (sw_node_mask sw) plan ss (map permitted_nodes (vnfs req)) S of
          Inl e \<Rightarrow> Inl e
        | Inr msk \<Rightarrow>
        (case sample_partition (sw_joint sw) policy rnd ob msk mode c2d (ct_joint ct) of
           Inl e \<Rightarrow> Inl e
         | Inr (canonical, js) \<Rightarrow>
        (case collect (py_index c2d) canonical of
           Inl e \<Rightarrow> Inl e
         | Inr part \<Rightarrow>
             apply_guard (sw_guard sw) S req ss
               \<lparr>de_canonical = canonical, de_partition = part, de_counters = ct\<lparr>ct_joint := js\<rparr>\<rparr>)))"

text \<open>Everything that happened to the substrate on behalf of the partition.\<close>

record trial =
  tr_sub :: substrate
  tr_responses :: "(int, domain_response) dict"
  tr_cross_ok :: bool
  tr_routes :: "(flow_key, link_id list) dict"
  tr_bw :: "(flow_key, real) dict"
  tr_delay :: real
  tr_hops :: nat

definition intra_delay :: "(int, domain_response) dict \<Rightarrow> real" where
  "intra_delay resps = (\<Sum>r \<leftarrow> vals resps. dr_intra_delay r)"

definition any_infeasible :: "(int, domain_response) dict \<Rightarrow> bool" where
  "any_infeasible resps \<longleftrightarrow> list_ex (\<lambda>r. \<not> dr_feasible r) (vals resps)"

definition run_trial :: "nx_lib \<Rightarrow> actor_table \<Rightarrow> bool \<Rightarrow> substrate \<Rightarrow> slice_request \<Rightarrow> plan_summary
    \<Rightarrow> int list \<Rightarrow> py_error + trial" where
  "run_trial nx actors chain_bad S req plan part =
     (if chain_bad
      then Inr \<lparr>tr_sub = S, tr_responses = [], tr_cross_ok = True, tr_routes = [], tr_bw = [],
                tr_delay = 0, tr_hops = 0\<rparr>
      else case build_fragments plan part req of
          Inl e \<Rightarrow> Inl e
        | Inr (frags, cross) \<Rightarrow>
        (case dispatch_to_actors actors frags S of
           Inl e \<Rightarrow> Inl e
         | Inr (T, resps) \<Rightarrow>
             if any_infeasible resps \<or> cross = []
             then Inr \<lparr>tr_sub = T, tr_responses = resps, tr_cross_ok = True, tr_routes = [], tr_bw = [],
                       tr_delay = 0, tr_hops = 0\<rparr>
             else case route_cross_domain_flows nx T cross resps
                         (max_e2e_delay (qos_of req) - intra_delay resps) of
                 Inl e \<Rightarrow> Inl e
               | Inr (ok, \<kappa>) \<Rightarrow>
                   Inr \<lparr>tr_sub = cs_sub \<kappa>, tr_responses = resps, tr_cross_ok = ok, tr_routes = cs_routes \<kappa>,
                        tr_bw = cs_bw \<kappa>, tr_delay = cs_delay \<kappa>, tr_hops = cs_hops \<kappa>\<rparr>))"

definition judge :: "mdo_config \<Rightarrow> bool \<Rightarrow> slice_request \<Rightarrow> trial \<Rightarrow> violation_info" where
  "judge cfg chain_bad req t =
     (let e2e = intra_delay (tr_responses t) + tr_delay t in
      \<lparr>c5b_violated = False,
       c7_violated = (e2e > max_e2e_delay (qos_of req)),
       c9_violated = (tr_hops t > max_inter_domain_hops cfg),
       actor_infeasible = any_infeasible (tr_responses t),
       cross_domain_infeasible = (\<not> tr_cross_ok t),
       chain_order_violated = chain_bad,
       vi_e2e_delay = e2e,
       vi_e2e_budget = max_e2e_delay (qos_of req),
       vi_total_bw = sum_list (vals (tr_bw t)),
       vi_min_bw = min_throughput (qos_of req),
       vi_hops = tr_hops t,
       vi_max_hops = max_inter_domain_hops cfg\<rparr>)"

text \<open>The assertions before a commit: canonical round trip, then tier feasibility per VNF.\<close>

definition frame_checks :: "mdo_switches \<Rightarrow> substrate \<Rightarrow> domain_summary list \<Rightarrow> slice_request \<Rightarrow> plan_summary
    \<Rightarrow> decision \<Rightarrow> py_error + unit" where
  "frame_checks sw S ss req plan \<delta> =
     (let part = de_partition \<delta>; c2d = map ds_domain ss in
      if list_ex (\<lambda>d. d \<notin> set c2d) part then Inl KeyError
      else if map (to_canonical c2d) part \<noteq> de_canonical \<delta> then Inl AssertionError
      else if sw_node_mask sw then
        (if \<not> list_all (\<lambda>(v, d). list_ex (\<lambda>n. n \<in> set (nodes_in_domain S d)) (permitted_nodes v))
                    (zip (vnfs req) part)
         then Inl AssertionError
         else if length (vnfs req) < length part then Inl IndexError else Inr ())
      else
        (if \<not> list_all (\<lambda>(t, d). list_ex (\<lambda>s. ds_domain s = d \<and> t \<in> set (ds_tiers s)) ss)
                    (zip (ps_tiers plan) part)
         then Inl AssertionError
         else if length (ps_tiers plan) < length part then Inl IndexError else Inr ()))"

text \<open>Node residuals from the snapshot, then the links of every feasible actor, then the
  cross-domain links. Commit and reject undo the trial the same way.\<close>

definition unwind :: "(node_id, real \<times> real) dict \<Rightarrow> trial \<Rightarrow> substrate" where
  "unwind snaps t =
     rollback_routes (tr_routes t) (tr_bw t)
       (fold (\<lambda>(d, r) S. if dr_feasible r then rollback_routes (dr_routes r) (dr_bw r) S else S)
          (tr_responses t) (restore_node_residuals snaps (tr_sub t)))"

definition compute_reward :: "mdo_config \<Rightarrow> bool \<Rightarrow> real \<Rightarrow> real option \<Rightarrow> reward_components" where
  "compute_reward cfg admitted cost greedy =
     \<lparr>rw_admission = (if admitted then cfg_mu cfg else 0),
      rw_efficiency = (case greedy of None \<Rightarrow> 0
         | Some g \<Rightarrow> if admitted \<and> g > 0 then - cfg_alpha cfg * (cost / g) else 0),
      rw_hard_penalty = 0,
      rw_quality = (case greedy of None \<Rightarrow> 0
         | Some g \<Rightarrow> if admitted \<and> g > 0 then cfg_eta cfg * max 0 ((g - cost) / g) else 0)\<rparr>"

definition conclude :: "mdo_config \<Rightarrow> slice_request \<Rightarrow> decision \<Rightarrow> trial \<Rightarrow> violation_info \<Rightarrow> real option
    \<Rightarrow> mdo_result" where
  "conclude cfg req \<delta> t v greedy =
     (let passes = \<not> has_violation v;
          e2e = vi_e2e_delay v;
          cost = (\<Sum>r \<leftarrow> vals (tr_responses t). dr_cost r) + gamma_inter cfg * vi_total_bw v
      in \<lparr>mr_request = request_id req,
          mr_action = (if passes then COMMIT else REJECT),
          mr_admitted = passes,
          mr_partition = (if passes then Some (de_partition \<delta>) else None),
          mr_responses = (if passes then tr_responses t else []),
          mr_cross_routes = (if passes then tr_routes t else []),
          mr_cross_bw = (if passes then tr_bw t else []),
          mr_e2e_delay = (if passes then e2e else 0),
          mr_total_cost = (if passes then cost else 0),
          mr_reward = compute_reward cfg passes (if passes then cost else 0) greedy,
          mr_decision = Some \<lparr>pd_partition = de_canonical \<delta>, pd_responses = tr_responses t,
             pd_violation = (if passes then None else Some v), pd_e2e_delay = e2e, pd_total_cost = cost\<rparr>,
          mr_reject_reason = (if passes then None else Some INFEASIBLE),
          mr_revoked_by = None\<rparr>)"

record coordinator =
  co_config :: mdo_config
  co_switches :: mdo_switches
  co_policy :: "mdo_policy option"
  co_actors :: actor_table

definition resolve_arrival :: "nx_lib \<Rightarrow> coordinator \<Rightarrow> (nat \<Rightarrow> nat \<Rightarrow> nat) \<Rightarrow> substrate \<Rightarrow> slice_request
    \<Rightarrow> plan_summary \<Rightarrow> string \<Rightarrow> real option \<Rightarrow> mdo_counters
    \<Rightarrow> py_error + (substrate \<times> mdo_result \<times> mdo_counters)" where
  "resolve_arrival nx co rnd S req plan mode greedy ct =
     (case decide (co_switches co) (co_policy co) rnd S req plan mode ct of
        Inl e \<Rightarrow> Inl e
      | Inr \<delta> \<Rightarrow>
     (case violates (sw_chain (co_switches co)) (de_partition \<delta>) of
        Inl e \<Rightarrow> Inl e
      | Inr chain_bad \<Rightarrow>
          let snaps = snapshot_node_residuals S (de_partition \<delta>) in
     (case run_trial nx (co_actors co) chain_bad S req plan (de_partition \<delta>) of
        Inl e \<Rightarrow> Inl e
      | Inr t \<Rightarrow>
          let v = judge (co_config co) chain_bad req t in
     (case (if has_violation v then Inr ()
            else frame_checks (co_switches co) (tr_sub t) (build_domain_summaries S) req plan \<delta>) of
        Inl e \<Rightarrow> Inl e
      | Inr _ \<Rightarrow> Inr (unwind snaps t, conclude (co_config co) req \<delta> t v greedy, de_counters \<delta>)))))"

end
