(* ===== verification/Coordinator_Proofs.thy ===== *)
theory Coordinator_Proofs
  imports Coordinator
begin

text \<open>
  What \<open>resolve_arrival\<close> guarantees, for every path library and every actor table that meet
  their contracts (locale \<open>actor_pool\<close>): the substrate it returns is the substrate it was
  given, and a commit describes a trial that was really carried out.
\<close>

section \<open>Fragments\<close>

lemma get_default_group:
  "get_default (group_by_key xs) k [] = map snd (filter (\<lambda>p. fst p = k) xs)"
proof -
  have "get_default (fold (\<lambda>(k, x) d. AList.update k (get_default d k [] @ [x]) d) xs d) k []
      = get_default d k [] @ map snd (filter (\<lambda>p. fst p = k) xs)" for d
    by (induction xs arbitrary: d) auto
  then show ?thesis by (simp add: group_by_key_def get_default_def)
qed

definition slice_demand :: "vnf list \<Rightarrow> string \<Rightarrow> real \<times> real" where
  "slice_demand vs x = get_default (map (\<lambda>v. (vnf_id v, cpu_demand v, ram_demand v)) vs) x (0, 0)"

lemma slice_demand_in:
  assumes "distinct (map vnf_id vs)" and "v \<in> set vs"
  shows "slice_demand vs (vnf_id v) = (cpu_demand v, ram_demand v)"
proof -
  have "map_of (map (\<lambda>v. (vnf_id v, cpu_demand v, ram_demand v)) vs) (vnf_id v) = Some (cpu_demand v, ram_demand v)"
    by (rule map_of_is_SomeI) (use assms in \<open>auto simp: comp_def\<close>)
  then show ?thesis by (simp add: slice_demand_def get_default_def)
qed

text \<open>The fragments of a partition: each domain gets its VNFs and the flows among them.\<close>

definition fragment_of :: "slice_request \<Rightarrow> int list \<Rightarrow> int \<Rightarrow> plan_fragment \<Rightarrow> bool" where
  "fragment_of req part d f \<longleftrightarrow>
     wf_fragment f
     \<and> va_id ` set (pf_vnfs f) = vnf_id ` (\<lambda>k. vnfs req ! k) ` {k. k < length (vnfs req) \<and> part ! k = d}
     \<and> (\<forall>a \<in> set (pf_vnfs f). frag_demand (pf_vnfs f) (va_id a) = slice_demand (vnfs req) (va_id a))
     \<and> set (pf_flows f) \<subseteq> set (flow_edges req)
     \<and> (\<forall>a \<in> set (pf_vnfs f). \<exists>k < length (vnfs req).
          va_id a = vnf_id (vnfs req ! k) \<and> va_permitted a = permitted_nodes (vnfs req ! k))
     \<and> (distinct (map target_vnf (flow_edges req)) \<longrightarrow> distinct (map target_vnf (pf_flows f)))"

text \<open>Both ends of a flow are VNFs the partition sends to domain \<open>d\<close>.\<close>

definition ends_in :: "vnf list \<Rightarrow> int list \<Rightarrow> int \<Rightarrow> flow_edge \<Rightarrow> bool" where
  "ends_in vs part d fe \<longleftrightarrow>
     (\<exists>i < length vs. \<exists>j < length vs. vnf_id (vs ! i) = source_vnf fe \<and> vnf_id (vs ! j) = target_vnf fe
        \<and> part ! i = d \<and> part ! j = d)"

lemma vnf_index_Inr:
  "vnf_index vs x = Inr i \<Longrightarrow> i < length vs \<and> vnf_id (vs ! i) = x"
proof -
  assume "vnf_index vs x = Inr i"
  then have "x \<in> vnf_id ` set vs" and i: "i = length (takeWhile (\<lambda>v. vnf_id v \<noteq> x) vs)"
    by (auto simp: vnf_index_def split: if_splits)
  then have "i < length vs" by (induction vs arbitrary: i) auto
  then show ?thesis using nth_length_takeWhile[of "\<lambda>v. vnf_id v \<noteq> x" vs] by (simp add: i)
qed

lemma split_flows_spec:
  assumes "fold_err (split_flow vs part) fes (I, C) = Inr (intra, cross)"
  shows "\<exists>A B. intra = I @ A \<and> cross = C @ B
    \<and> mset fes = mset (map snd A) + mset B
    \<and> (\<forall>fe \<in> set fes. source_vnf fe \<in> vnf_id ` set vs \<and> target_vnf fe \<in> vnf_id ` set vs)
    \<and> (\<forall>(d, fe) \<in> set A. ends_in vs part d fe)"
  using assms
proof (induction fes arbitrary: I C)
  case (Cons fe fes)
  from Cons.prems obtain i j where i: "vnf_index vs (source_vnf fe) = Inr i"
    and j: "vnf_index vs (target_vnf fe) = Inr j"
    by (auto simp: split_flow_def split: sum.splits)
  have ends: "source_vnf fe \<in> vnf_id ` set vs" "target_vnf fe \<in> vnf_id ` set vs"
    using vnf_index_Inr[OF i] vnf_index_Inr[OF j] by (metis image_eqI nth_mem)+
  show ?case
  proof (cases "part ! i = part ! j")
    case True
    then have "split_flow vs part fe (I, C) = Inr (I @ [(part ! i, fe)], C)"
      using i j by (simp add: split_flow_def)
    with Cons.prems have "fold_err (split_flow vs part) fes (I @ [(part ! i, fe)], C) = Inr (intra, cross)"
      by simp
    from Cons.IH[OF this] obtain A B where "intra = (I @ [(part ! i, fe)]) @ A" "cross = C @ B"
      "mset fes = mset (map snd A) + mset B"
      "\<forall>fe \<in> set fes. source_vnf fe \<in> vnf_id ` set vs \<and> target_vnf fe \<in> vnf_id ` set vs"
      "\<forall>(d, fe) \<in> set A. ends_in vs part d fe" by blast
    moreover have "ends_in vs part (part ! i) fe"
      using vnf_index_Inr[OF i] vnf_index_Inr[OF j] True unfolding ends_in_def by metis
    ultimately show ?thesis using ends by (intro exI[of _ "(part ! i, fe) # A"] exI[of _ B]) simp
  next
    case False
    then have "split_flow vs part fe (I, C) = Inr (I, C @ [fe])"
      using i j by (simp add: split_flow_def)
    with Cons.prems have "fold_err (split_flow vs part) fes (I, C @ [fe]) = Inr (intra, cross)"
      by simp
    from Cons.IH[OF this] obtain A B where "intra = I @ A" "cross = (C @ [fe]) @ B"
      "mset fes = mset (map snd A) + mset B"
      "\<forall>fe \<in> set fes. source_vnf fe \<in> vnf_id ` set vs \<and> target_vnf fe \<in> vnf_id ` set vs"
      "\<forall>(d, fe) \<in> set A. ends_in vs part d fe" by blast
    with ends show ?thesis by (intro exI[of _ A] exI[of _ "fe # B"]) simp
  qed
qed simp

lemma distinct_split:
  assumes "mset fes = mset (map snd A) + mset B" and "distinct (map f fes)"
  shows "distinct (map f (map snd (filter P A)))" and "distinct (map f B)"
    and "set (map snd (filter P A)) \<subseteq> set fes" and "set B \<subseteq> set fes"
    and "f ` set (map snd A) \<inter> f ` set B = {}"
proof -
  have m: "mset (map f fes) = mset (map f (map snd A @ B))"
    using assms(1) by (metis mset_append mset_map)
  then have d: "distinct (map f (map snd A @ B))"
    using assms(2) by (metis mset_eq_imp_distinct_iff)
  then show "distinct (map f B)" and "f ` set (map snd A) \<inter> f ` set B = {}"
    by (auto simp del: map_map)
  have "distinct (map (\<lambda>p. f (snd p)) A)" using d by (simp add: comp_def)
  then show "distinct (map f (map snd (filter P A)))"
    by (simp add: comp_def distinct_map_filter)
  have "set fes = set (map snd A) \<union> set B" using assms(1) by (metis set_append set_mset_mset mset_append)
  then show "set (map snd (filter P A)) \<subseteq> set fes" and "set B \<subseteq> set fes" by auto
qed

lemma build_fragments_spec:
  assumes wf: "wf_request req" and run: "build_fragments plan part req = Inr (frags, cross)"
  shows "keys frags = py_set part"
    and "\<And>d f. (d, f) \<in> set frags \<Longrightarrow> fragment_of req part d f"
    and "distinct (map flow_key_of cross)" and "set cross \<subseteq> set (flow_edges req)"
    and "\<And>fe. fe \<in> set cross \<Longrightarrow> source_vnf fe \<in> vnf_id ` set (vnfs req) \<and> target_vnf fe \<in> vnf_id ` set (vnfs req)"
    and "length (vnfs req) \<le> length part"
    and "\<And>d f. (d, f) \<in> set frags \<Longrightarrow> flow_key_of ` set (pf_flows f) \<inter> flow_key_of ` set cross = {}"
    and "\<And>d f d' f'. (d, f) \<in> set frags \<Longrightarrow> (d', f') \<in> set frags \<Longrightarrow> d \<noteq> d' \<Longrightarrow>
           flow_key_of ` set (pf_flows f) \<inter> flow_key_of ` set (pf_flows f') = {}"
    and "\<And>fe. fe \<in> set (flow_edges req) \<Longrightarrow> fe \<in> set cross
           \<or> (\<exists>(d, f) \<in> set frags. fe \<in> set (pf_flows f) \<and> ends_in (vnfs req) part d fe)"
proof -
  let ?vs = "vnfs req"
  let ?xs = "map (\<lambda>k. (part ! k, make_assignment plan part ?vs k)) [0..<length ?vs]"
  have dv: "distinct (map vnf_id ?vs)" and df: "distinct (map flow_key_of (flow_edges req))"
    using wf by (simp_all add: wf_request_def)
  from run obtain intra where
    len: "length ?vs \<le> length part"
    and fl: "fold_err (split_flow ?vs part) (flow_edges req) ([], []) = Inr (intra, cross)"
    and fr: "frags = map (\<lambda>d. (d, \<lparr>pf_domain = d, pf_vnfs = get_default (group_by_key ?xs) d [],
                                   pf_flows = get_default (group_by_key intra) d [],
                                   pf_delay_budget = max_e2e_delay (qos_of req),
                                   pf_targets = set part - {d}\<rparr>)) (py_set part)"
    by (auto simp: build_fragments_def Let_def not_less split: if_splits sum.splits)
  from split_flows_spec[OF fl] have m: "mset (flow_edges req) = mset (map snd intra) + mset cross"
    and ends: "\<forall>fe \<in> set (flow_edges req). source_vnf fe \<in> vnf_id ` set ?vs \<and> target_vnf fe \<in> vnf_id ` set ?vs"
    and home: "\<forall>(d, fe) \<in> set intra. ends_in ?vs part d fe"
    by auto
  note S = distinct_split[OF m df]
  show "keys frags = py_set part" by (simp add: fr comp_def)
  show "length ?vs \<le> length part" by (rule len)
  show "distinct (map flow_key_of cross)" "set cross \<subseteq> set (flow_edges req)" by (rule S)+
  then show "\<And>fe. fe \<in> set cross \<Longrightarrow> source_vnf fe \<in> vnf_id ` set ?vs \<and> target_vnf fe \<in> vnf_id ` set ?vs"
    using ends by blast
  have flows: "pf_flows f = map snd (filter (\<lambda>p. fst p = d) intra)" if "(d, f) \<in> set frags" for d f
    using that by (auto simp: fr get_default_group)
  then show "\<And>d f. (d, f) \<in> set frags \<Longrightarrow> flow_key_of ` set (pf_flows f) \<inter> flow_key_of ` set cross = {}"
    using S(5) by fastforce
  show "flow_key_of ` set (pf_flows f) \<inter> flow_key_of ` set (pf_flows f') = {}"
    if f: "(d, f) \<in> set frags" and f': "(d', f') \<in> set frags" and ne: "d \<noteq> d'" for d f d' f'
  proof -
    have "distinct (map (\<lambda>p. flow_key_of (snd p)) intra)"
      using S(1)[of "\<lambda>_. True"] by (simp add: comp_def)
    then have "inj_on (\<lambda>p. flow_key_of (snd p)) (set intra)" by (simp add: distinct_map)
    then show ?thesis
      unfolding flows[OF f] flows[OF f'] using ne by (auto dest!: inj_onD)
  qed
  show "fe \<in> set cross \<or> (\<exists>(d, f) \<in> set frags. fe \<in> set (pf_flows f) \<and> ends_in ?vs part d fe)"
    if "fe \<in> set (flow_edges req)" for fe
  proof (cases "fe \<in> set cross")
    case False
    have "set (flow_edges req) = set (map snd intra) \<union> set cross" using m by (metis set_append set_mset_mset mset_append)
    with False that obtain d where i: "(d, fe) \<in> set intra" by force
    then have e: "ends_in ?vs part d fe" using home by blast
    then have "d \<in> set part" using len by (auto simp: ends_in_def)
    then obtain f where f: "(d, f) \<in> set frags" by (auto simp: fr)
    from i have "fe \<in> set (pf_flows f)" unfolding flows[OF f] by force
    with e f show ?thesis by blast
  qed simp
  fix d f assume f: "(d, f) \<in> set frags"
  let ?ks = "filter (\<lambda>k. part ! k = d) [0..<length ?vs]"
  have pv: "pf_vnfs f = map (make_assignment plan part ?vs) ?ks"
    using f by (auto simp: fr get_default_group filter_map comp_def)
  have id: "va_id (make_assignment plan part ?vs k) = vnf_id (?vs ! k)"
    and cpu: "va_cpu (make_assignment plan part ?vs k) = cpu_demand (?vs ! k)"
    and ram: "va_ram (make_assignment plan part ?vs k) = ram_demand (?vs ! k)"
    and per: "va_permitted (make_assignment plan part ?vs k) = permitted_nodes (?vs ! k)" for k
    by (simp_all add: make_assignment_def Let_def)
  have "inj_on (\<lambda>k. vnf_id (?vs ! k)) {0..<length ?vs}"
    using dv by (intro inj_onI) (metis atLeastLessThan_iff distinct_conv_nth length_map nth_map)
  then have "distinct (map va_id (pf_vnfs f))"
    by (auto simp: pv distinct_map comp_def id inj_on_def)
  moreover have "distinct (map flow_key_of (pf_flows f))"
    using S(1)[of "\<lambda>p. fst p = d"] by (simp only: flows[OF f])
  ultimately have wff: "wf_fragment f" by (simp add: wf_fragment_def)
  have "frag_demand (pf_vnfs f) (va_id a) = slice_demand ?vs (va_id a)" if a: "a \<in> set (pf_vnfs f)" for a
  proof -
    from a obtain k where k: "k < length ?vs" "a = make_assignment plan part ?vs k" by (auto simp: pv)
    show ?thesis
      using frag_demand_in[OF \<open>distinct (map va_id (pf_vnfs f))\<close> a] slice_demand_in[OF dv, of "?vs ! k"] k
      by (simp add: id cpu ram)
  qed
  moreover have ids: "va_id ` set (pf_vnfs f) = vnf_id ` (\<lambda>k. ?vs ! k) ` {k. k < length ?vs \<and> part ! k = d}"
    unfolding pv by (simp add: image_image id)
  moreover have "\<exists>k < length ?vs. va_id a = vnf_id (?vs ! k) \<and> va_permitted a = permitted_nodes (?vs ! k)"
    if "a \<in> set (pf_vnfs f)" for a
    using that by (auto simp: pv id per)
  moreover have "distinct (map target_vnf (pf_flows f))" if "distinct (map target_vnf (flow_edges req))"
    using distinct_split(1)[OF m that, of "\<lambda>p. fst p = d"] by (simp only: flows[OF f])
  ultimately show "fragment_of req part d f"
    unfolding fragment_of_def using wff S(3)[of "\<lambda>p. fst p = d"] flows[OF f] ids by simp
qed

section \<open>Dispatch\<close>

abbreviation resp_nodes :: "(string \<Rightarrow> real \<times> real) \<Rightarrow> (int, domain_response) dict
    \<Rightarrow> (node_id \<times> real \<times> real) list" where
  "resp_nodes dem resps \<equiv> concat (map (\<lambda>(d, r). place_claims dem (dr_placements r)) resps)"

abbreviation resp_links :: "(int, domain_response) dict \<Rightarrow> (link_id \<times> real) list" where
  "resp_links resps \<equiv> concat (map (\<lambda>(d, r). route_claims (dr_routes r) (dr_bw r)) resps)"

text \<open>What one response says about the substrate the whole dispatch started from.\<close>

definition response_ok :: "substrate \<Rightarrow> (int, plan_fragment) dict \<Rightarrow> int \<Rightarrow> domain_response \<Rightarrow> bool" where
  "response_ok S frags d r \<longleftrightarrow>
     (\<exists>f. (d, f) \<in> set frags
        \<and> (if dr_feasible r
           then distinct (keys (dr_placements r))
              \<and> set (keys (dr_placements r)) = va_id ` set (pf_vnfs f)
              \<and> set (vals (dr_placements r)) \<subseteq> set (nodes_in_domain S d)
              \<and> routes_ok S d (pf_flows f) (dr_routes r) (dr_bw r)
              \<and> fulfils S f r
           else dr_placements r = [] \<and> dr_routes r = [] \<and> dr_bw r = []))"

definition dispatched :: "substrate \<Rightarrow> (string \<Rightarrow> real \<times> real) \<Rightarrow> (int, plan_fragment) dict
    \<Rightarrow> substrate \<times> (int, domain_response) dict \<Rightarrow> bool" where
  "dispatched S dem frags = (\<lambda>(T, resps).
     T = charge (resp_nodes dem resps) (resp_links resps) S
     \<and> (\<forall>(d, r) \<in> set resps. response_ok S frags d r)
     \<and> (no_overbooking S \<longrightarrow> no_overbooking T))"

lemma place_claims_cong:
  "(\<And>v. v \<in> set (keys pl) \<Longrightarrow> dem v = dem' v) \<Longrightarrow> place_claims dem pl = place_claims dem' pl"
  by (induction pl) auto

lemma routes_ok_charge: "wf_graph S \<Longrightarrow> routes_ok (charge ns ls S) d fes rts bw \<longleftrightarrow> routes_ok S d fes rts bw"
  by (simp only: routes_ok_def intra_links_charge)

context actor_pool
begin

lemma dispatch_one_keeps:
  assumes wf: "wf_graph S" and inv: "dispatched S dem frags (T, resps)"
    and f: "(d, f) \<in> set frags" and wff: "wf_fragment f"
    and dem: "\<forall>a \<in> set (pf_vnfs f). frag_demand (pf_vnfs f) (va_id a) = dem (va_id a)"
    and fresh: "d \<notin> set (keys resps)"
    and step: "dispatch_one actors (d, f) (T, resps) = Inr (T', resps')"
  shows "dispatched S dem frags (T', resps') \<and> keys resps' = keys resps @ [d]"
proof -
  from inv have T: "T = charge (resp_nodes dem resps) (resp_links resps) S"
    and ok: "\<forall>(d, r) \<in> set resps. response_ok S frags d r" and ob: "no_overbooking S \<longrightarrow> no_overbooking T"
    unfolding dispatched_def prod.case by blast+
  have wfT: "wf_graph T" using wf by (simp add: T)
  have main: "dispatched S dem frags (T', resps @ [(d, r)])"
    if T': "T' = charge (place_claims dem (dr_placements r)) (route_claims (dr_routes r) (dr_bw r)) T"
      and r: "response_ok S frags d r" and o: "no_overbooking T \<longrightarrow> no_overbooking T'" for r
    unfolding dispatched_def using ok r ob o
    by (simp add: charge_append T'[unfolded T])
  show ?thesis
  proof (cases "map_of actors d")
    case None
    then have R: "T' = T" "resps' = resps @ [(d, infeasible_response d)]"
      using step update_fresh[OF fresh] by (auto simp: dispatch_one_def)
    have "dispatched S dem frags (T', resps @ [(d, infeasible_response d)])"
      by (rule main) (use f R(1) in \<open>auto simp: response_ok_def infeasible_response_def route_claims_def charge_def\<close>)
    then show ?thesis by (simp add: R(2))
  next
    case (Some act)
    then obtain r where run: "act T f = Inr (T', r)" and R: "resps' = resps @ [(d, r)]"
      using step update_fresh[OF fresh] by (auto simp: dispatch_one_def split: sum.splits)
    note D = actors_meet_contract[OF Some]
    have charges: "T' = charge (place_claims (frag_demand (pf_vnfs f)) (dr_placements r))
                              (route_claims (dr_routes r) (dr_bw r)) T"
      by (rule domain_actor.act_charges[OF D wfT wff run])
    have r: "response_ok S frags d r"
    proof (cases "dr_feasible r")
      case True
      have "executed T d f T' r" by (rule domain_actor.act_executes[OF D wfT wff run True])
      moreover have "fulfils S f r"
        using domain_actor.act_fulfils[OF D wfT wff run True] unfolding T fulfils_charge[OF wf] .
      ultimately show ?thesis
        using f True unfolding response_ok_def executed_def T routes_ok_charge[OF wf] nodes_in_domain_charge
        by auto
    next
      case False
      then show ?thesis
        using f domain_actor.act_refuses[OF D wfT wff run] by (auto simp: response_ok_def)
    qed
    have eq: "place_claims (frag_demand (pf_vnfs f)) (dr_placements r) = place_claims dem (dr_placements r)"
    proof (cases "dr_feasible r")
      case True
      then have "set (keys (dr_placements r)) = va_id ` set (pf_vnfs f)"
        using domain_actor.act_executes[OF D wfT wff run] by (simp add: executed_def)
      then show ?thesis using dem by (intro place_claims_cong) auto
    next
      case False
      then show ?thesis using domain_actor.act_refuses[OF D wfT wff run] by simp
    qed
    have "dispatched S dem frags (T', resps @ [(d, r)])"
      by (rule main[OF charges[unfolded eq] r]) (use domain_actor.act_safe[OF D wfT wff run] in blast)
    then show ?thesis by (simp add: R)
  qed
qed

lemma dispatch_keeps:
  assumes "wf_graph S" and "dispatched S dem frags (T, resps)"
    and "set fs \<subseteq> set frags" and "distinct (keys fs)" and "set (keys fs) \<inter> set (keys resps) = {}"
    and "\<forall>(d, f) \<in> set fs. wf_fragment f
           \<and> (\<forall>a \<in> set (pf_vnfs f). frag_demand (pf_vnfs f) (va_id a) = dem (va_id a))"
    and "fold_err (dispatch_one actors) fs (T, resps) = Inr (T', resps')"
  shows "dispatched S dem frags (T', resps') \<and> keys resps' = keys resps @ keys fs"
  using assms(2-)
proof (induction fs arbitrary: T resps)
  case Nil
  then show ?case by simp
next
  case (Cons x fs)
  obtain d f where x: "x = (d, f)" by (cases x)
  from Cons.prems(6) obtain T1 resps1 where step: "dispatch_one actors (d, f) (T, resps) = Inr (T1, resps1)"
    and rest: "fold_err (dispatch_one actors) fs (T1, resps1) = Inr (T', resps')"
    by (auto simp: x split: sum.splits)
  have "dispatched S dem frags (T1, resps1) \<and> keys resps1 = keys resps @ [d]"
    by (rule dispatch_one_keeps[OF assms(1) Cons.prems(1) _ _ _ _ step])
       (use Cons.prems x in auto)
  moreover from this have "set (keys fs) \<inter> set (keys resps1) = {}"
    using Cons.prems(3,4) x by auto
  ultimately show ?case
    using Cons.IH[OF _ _ _ _ _ rest] Cons.prems(2,3,5) x by auto
qed

lemma dispatch_spec:
  assumes wf: "wf_graph S" and req: "wf_request req"
    and fr: "build_fragments plan part req = Inr (frags, cross)"
    and run: "dispatch_to_actors actors frags S = Inr (T, resps)"
  shows "dispatched S (slice_demand (vnfs req)) frags (T, resps) \<and> keys resps = py_set part"
proof -
  note F = build_fragments_spec[OF req fr]
  have "dispatched S (slice_demand (vnfs req)) frags (T, resps)
      \<and> keys resps = keys ([] :: (int, domain_response) dict) @ keys frags"
  proof (rule dispatch_keeps[OF wf, where T = S and resps = "[]"])
    show "dispatched S (slice_demand (vnfs req)) frags (S, [])"
      by (simp add: dispatched_def charge_def)
    show "fold_err (dispatch_one actors) frags (S, []) = Inr (T, resps)"
      using run by (simp add: dispatch_to_actors_def)
    show "distinct (keys frags)" by (simp only: F(1) distinct_py_set)
    show "\<forall>(d, f) \<in> set frags. wf_fragment f
           \<and> (\<forall>a \<in> set (pf_vnfs f). frag_demand (pf_vnfs f) (va_id a) = slice_demand (vnfs req) (va_id a))"
      using F(2) by (auto simp: fragment_of_def)
  qed simp_all
  then show ?thesis by (simp add: F(1))
qed

end

section \<open>Cross-domain routing\<close>

definition cross_inv :: "substrate \<Rightarrow> flow_edge list \<Rightarrow> cross_state \<Rightarrow> bool" where
  "cross_inv T fes \<kappa> \<longleftrightarrow>
     cs_sub \<kappa> = charge [] (route_claims (cs_routes \<kappa>) (cs_bw \<kappa>)) T
     \<and> distinct (keys (cs_routes \<kappa>)) \<and> distinct (keys (cs_bw \<kappa>))
     \<and> set (keys (cs_routes \<kappa>)) = set (keys (cs_bw \<kappa>))
     \<and> set (keys (cs_bw \<kappa>)) \<subseteq> flow_key_of ` set fes
     \<and> (\<forall>(fk, ls) \<in> set (cs_routes \<kappa>). distinct ls \<and> set ls \<subseteq> set (link_ids (g_edges T)))
     \<and> (\<forall>(fk, x) \<in> set (cs_bw \<kappa>). \<exists>fe \<in> set fes. flow_key_of fe = fk \<and> bandwidth_demand fe = x)
     \<and> (no_overbooking T \<longrightarrow> no_overbooking (cs_sub \<kappa>))
     \<and> cs_hops \<kappa> = (\<Sum>(fk, ls) \<leftarrow> cs_routes \<kappa>. length (filter (link_crosses T) ls))"

lemma cross_invD:
  assumes "cross_inv T fes \<kappa>"
  shows "cs_sub \<kappa> = charge [] (route_claims (cs_routes \<kappa>) (cs_bw \<kappa>)) T"
    and "distinct (keys (cs_routes \<kappa>))" and "distinct (keys (cs_bw \<kappa>))"
    and "set (keys (cs_routes \<kappa>)) = set (keys (cs_bw \<kappa>))"
    and "set (keys (cs_bw \<kappa>)) \<subseteq> flow_key_of ` set fes"
    and "\<forall>(fk, ls) \<in> set (cs_routes \<kappa>). distinct ls \<and> set ls \<subseteq> set (link_ids (g_edges T))"
    and "\<forall>(fk, x) \<in> set (cs_bw \<kappa>). \<exists>fe \<in> set fes. flow_key_of fe = fk \<and> bandwidth_demand fe = x"
    and "no_overbooking T \<Longrightarrow> no_overbooking (cs_sub \<kappa>)"
    and "cs_hops \<kappa> = (\<Sum>(fk, ls) \<leftarrow> cs_routes \<kappa>. length (filter (link_crosses T) ls))"
  using assms unfolding cross_inv_def by - (elim conjE, (assumption | (erule mp, assumption)))+

lemma route_claims_simps [simp]:
  "route_claims rts [] = []"
  "route_claims rts ((fk, x) # bw) = claim_links (get_default rts fk []) x @ route_claims rts bw"
  "route_claims rts (bw @ bw') = route_claims rts bw @ route_claims rts bw'"
  by (simp_all add: route_claims_def)

lemma route_claims_other:
  "fk \<notin> set (keys bw) \<Longrightarrow> route_claims (AList.update fk ls rts) bw = route_claims rts bw"
  by (induction bw) auto

lemma route_claims_fresh:
  assumes "fk \<notin> set (keys bw)"
  shows "route_claims (AList.update fk ls rts) (AList.update fk x bw)
    = route_claims rts bw @ claim_links ls x"
  unfolding update_fresh[OF assms] by (simp add: route_claims_other[OF assms])

lemma dealloc_routes:
  "fold (\<lambda>(fk, x). deallocate_route_bw (get_default rts fk []) x) bw S = refund [] (route_claims rts bw) S"
proof (induction bw arbitrary: S)
  case (Cons p bw)
  then show ?case
    by (cases p) (simp add: deallocate_route_refund refund_def post_links_append)
qed (simp add: refund_def)

lemma rollback_routes_refund: "rollback_routes rts bw S = refund [] (route_claims rts bw) S"
  unfolding rollback_routes_def dealloc_routes[symmetric]
  by (induction bw arbitrary: S) (auto simp: deallocate_route_bw_def)

lemma carries_links: "carries g x ls \<Longrightarrow> set ls \<subseteq> set (link_ids (g_edges g))"
  unfolding carries_def by force

lemma link_ids_charge: "link_ids (g_edges (charge ns ls g)) = link_ids (g_edges g)"
  by (simp only: charge_def charge_simps)

lemma find_link_map:
  "(\<And>d. link_id (f d) = link_id d) \<Longrightarrow>
   find_link l (map (\<lambda>(e, d). (e, f d)) es) = map_option (\<lambda>(e, d). (e, f d)) (find_link l es)"
  by (induction es) auto

lemma domain_of_charge [charge_simps]: "domain_of (charge ns ls g) n = domain_of g n"
  by (auto simp: domain_of_def map_of_charge split: option.splits)

lemma link_crosses_charge:
  assumes "wf_graph g"
  shows "link_crosses (charge ns ls g) = link_crosses g"
proof
  fix l
  have ids: "distinct (link_ids (g_edges g))" using assms by (simp add: wf_graph_def)
  have "find_link l (g_edges (charge ns ls g))
      = map_option (\<lambda>(e, d). (e, d\<lparr>bw_residual := bw_residual d - posted (link_id d) ls\<rparr>)) (find_link l (g_edges g))"
    unfolding edges_charge[OF ids] by (rule find_link_map) simp
  then show "link_crosses (charge ns ls g) l = link_crosses g l"
    by (auto simp: link_crosses_def crosses_def domain_of_charge split: option.splits)
qed

text \<open>What a routed cross-domain flow has got: a route between the nodes of its ends, its bandwidth recorded.\<close>

definition cross_served :: "(string, node_id) dict \<Rightarrow> 'a graph_scheme \<Rightarrow> cross_state \<Rightarrow> flow_edge \<Rightarrow> bool" where
  "cross_served pl g \<kappa> fe \<longleftrightarrow>
     (\<exists>s d ls. map_of pl (source_vnf fe) = Some s \<and> map_of pl (target_vnf fe) = Some d
        \<and> map_of (cs_routes \<kappa>) (flow_key_of fe) = Some ls \<and> joins g s d ls
        \<and> map_of (cs_bw \<kappa>) (flow_key_of fe) = Some (bandwidth_demand fe))"

lemma cross_served_add:
  assumes "cross_served pl g \<kappa> fe'" and "flow_key_of fe' \<noteq> flow_key_of fe"
  shows "cross_served pl g (add_cross_route fe r \<kappa>) fe'"
proof -
  have "cs_routes (add_cross_route fe r \<kappa>) = AList.update (flow_key_of fe) (rr_links r) (cs_routes \<kappa>)"
    "cs_bw (add_cross_route fe r \<kappa>) = AList.update (flow_key_of fe) (bandwidth_demand fe) (cs_bw \<kappa>)"
    by (simp_all add: add_cross_route_def)
  with assms show ?thesis unfolding cross_served_def by (simp only: update_conv fun_upd_other not_False_eq_True)
qed

context path_oracle
begin

lemma add_cross_route_inv:
  assumes wf: "wf_graph T" and inv: "cross_inv T fes \<kappa>"
    and fresh: "flow_key_of fe \<notin> set (keys (cs_bw \<kappa>))" and fe: "fe \<in> set fes"
    and r: "route_cross_domain_flow nx (cs_sub \<kappa>) s d (bandwidth_demand fe) (cs_left \<kappa>) k mode = Inr r"
    and ok: "rr_feasible r"
  shows "cross_inv T fes (add_cross_route fe r \<kappa>)"
proof -
  note I = cross_invD[OF inv]
  have fr: "flow_key_of fe \<notin> set (keys (cs_routes \<kappa>))" using fresh I(4) by blast
  have wf\<kappa>: "wf_graph (cs_sub \<kappa>)" using wf by (simp add: I(1))
  from route_cross_good[OF wf\<kappa> r ok] have
    g: "good_route (cs_sub \<kappa>) (set (keys (g_nodes (cs_sub \<kappa>)))) (bandwidth_demand fe) r" by blast
  then have ls: "distinct (rr_links r)" "carries (cs_sub \<kappa>) (bandwidth_demand fe) (rr_links r)"
    using carries_subgraph by (auto simp: good_route_def)
  let ?\<kappa> = "add_cross_route fe r \<kappa>" and ?x = "bandwidth_demand fe"
  have upd: "cs_routes ?\<kappa> = cs_routes \<kappa> @ [(flow_key_of fe, rr_links r)]"
    "cs_bw ?\<kappa> = cs_bw \<kappa> @ [(flow_key_of fe, ?x)]"
    by (simp_all add: add_cross_route_def update_fresh[OF fr] update_fresh[OF fresh])
  have sub: "cs_sub ?\<kappa> = charge [] (claim_links (rr_links r) ?x) (cs_sub \<kappa>)"
    by (simp add: add_cross_route_def allocate_route_charge)
  have "cs_sub ?\<kappa> = charge ([] @ []) (route_claims (cs_routes \<kappa>) (cs_bw \<kappa>) @ claim_links (rr_links r) ?x) T"
    unfolding charge_append sub by (simp only: I(1)[symmetric])
  then have 1: "cs_sub ?\<kappa> = charge [] (route_claims (cs_routes ?\<kappa>) (cs_bw ?\<kappa>)) T"
    by (simp add: add_cross_route_def route_claims_fresh[OF fresh])
  have 2: "set (rr_links r) \<subseteq> set (link_ids (g_edges T))"
    using carries_links[OF ls(2)] unfolding I(1) link_ids_charge .
  have 3: "no_overbooking (cs_sub ?\<kappa>)" if "no_overbooking T"
    unfolding sub by (rule no_overbooking_charge_links[OF wf\<kappa> I(8)[OF that] ls])
  have 4: "cs_hops ?\<kappa> = (\<Sum>(fk, ls) \<leftarrow> cs_routes ?\<kappa>. length (filter (link_crosses T) ls))"
    unfolding upd using I(9) link_crosses_charge[OF wf] by (simp add: add_cross_route_def I(1))
  show ?thesis
    unfolding cross_inv_def using 1 2 3 4 I(2-7) fr fresh fe ls(1) by (auto simp: upd)
qed

lemma route_cross_spec:
  assumes wf: "wf_graph T" and "cross_inv T FES \<kappa>" and "set fes \<subseteq> set FES"
    and "distinct (map flow_key_of fes)" and "set (map flow_key_of fes) \<inter> set (keys (cs_bw \<kappa>)) = {}"
    and "\<forall>fe \<in> set fes. map_of pl (source_vnf fe) \<noteq> None \<and> map_of pl (target_vnf fe) \<noteq> None"
    and "route_cross nx pl fes \<kappa> = Inr (ok, \<kappa>')"
  shows "cross_inv T FES \<kappa>'
    \<and> (if ok then set (keys (cs_bw \<kappa>')) = set (keys (cs_bw \<kappa>)) \<union> flow_key_of ` set fes
       else cs_sub \<kappa>' = T \<and> cs_routes \<kappa>' = [] \<and> cs_bw \<kappa>' = [])"
  using assms(2-)
proof (induction fes arbitrary: \<kappa>)
  case Nil
  then show ?case by auto
next
  case (Cons fe fes)
  note P = Cons.prems
  from P(5) obtain s d where sd: "map_of pl (source_vnf fe) = Some s" "map_of pl (target_vnf fe) = Some d"
    by auto
  from P(6) sd obtain r where
    r: "route_cross_domain_flow nx (cs_sub \<kappa>) s d (bandwidth_demand fe) (cs_left \<kappa>) 3 MinCost = Inr r"
    by (auto split: sum.splits)
  show ?case
  proof (cases "rr_feasible r")
    case False
    then have "\<kappa>' = cross_failed (refund [] (route_claims (cs_routes \<kappa>) (cs_bw \<kappa>)) (cs_sub \<kappa>))" "\<not> ok"
      using P(6) sd r by (auto simp: dealloc_routes)
    moreover have "refund [] (route_claims (cs_routes \<kappa>) (cs_bw \<kappa>)) (cs_sub \<kappa>) = T"
      unfolding cross_invD(1)[OF P(1)] by (rule refund_charge)
    ultimately show ?thesis
      by (simp add: cross_failed_def cross_inv_def route_claims_def charge_def)
  next
    case True
    have fresh: "flow_key_of fe \<notin> set (keys (cs_bw \<kappa>))" using P(4) by auto
    have fe: "fe \<in> set FES" using P(2) by simp
    let ?\<kappa> = "add_cross_route fe r \<kappa>"
    have inv: "cross_inv T FES ?\<kappa>"
      by (rule add_cross_route_inv[OF wf P(1) fresh fe r True])
    have ks: "set (keys (cs_bw ?\<kappa>)) = insert (flow_key_of fe) (set (keys (cs_bw \<kappa>)))"
      using keys_update[of "flow_key_of fe" "bandwidth_demand fe" "cs_bw \<kappa>"] by (simp add: add_cross_route_def)
    have disj: "set (map flow_key_of fes) \<inter> set (keys (cs_bw ?\<kappa>)) = {}"
    proof -
      have "flow_key_of fe \<notin> set (map flow_key_of fes)" using P(3) by simp
      moreover have "set (map flow_key_of fes) \<inter> set (keys (cs_bw \<kappa>)) = {}" using P(4) by auto
      ultimately show ?thesis unfolding ks by blast
    qed
    have "route_cross nx pl fes ?\<kappa> = Inr (ok, \<kappa>')" using P(6) sd r True by simp
    have "cross_inv T FES \<kappa>' \<and> (if ok then set (keys (cs_bw \<kappa>')) = set (keys (cs_bw ?\<kappa>)) \<union> flow_key_of ` set fes
         else cs_sub \<kappa>' = T \<and> cs_routes \<kappa>' = [] \<and> cs_bw \<kappa>' = [])"
      by (rule Cons.IH[OF inv _ _ disj _ \<open>route_cross nx pl fes ?\<kappa> = Inr (ok, \<kappa>')\<close>])
         (use P(2,3,5) in simp_all)
    then show ?thesis unfolding ks by (cases ok) (simp_all only: if_True if_False list.set image_insert
        Un_insert_left Un_insert_right simp_thms)
  qed
qed

lemma route_cross_serves:
  assumes wf: "wf_graph T" and "cross_inv T FES \<kappa>" and "set fes \<subseteq> set FES" and "distinct (map flow_key_of fes)"
    and "set (map flow_key_of fes) \<inter> set (keys (cs_bw \<kappa>)) = {}"
    and "\<forall>fe \<in> set dn. cross_served pl T \<kappa> fe \<and> flow_key_of fe \<notin> set (map flow_key_of fes)"
    and "route_cross nx pl fes \<kappa> = Inr (True, \<kappa>')"
  shows "\<forall>fe \<in> set dn \<union> set fes. cross_served pl T \<kappa>' fe"
  using assms(2-)
proof (induction fes arbitrary: \<kappa> dn)
  case Nil
  then show ?case by simp
next
  case (Cons fe fes)
  note P = Cons.prems
  from P(6) obtain s d r where sd: "map_of pl (source_vnf fe) = Some s" "map_of pl (target_vnf fe) = Some d"
    and r: "route_cross_domain_flow nx (cs_sub \<kappa>) s d (bandwidth_demand fe) (cs_left \<kappa>) 3 MinCost = Inr r"
      "rr_feasible r" and rest: "route_cross nx pl fes (add_cross_route fe r \<kappa>) = Inr (True, \<kappa>')"
    by (auto split: sum.splits option.splits if_splits)
  let ?\<kappa> = "add_cross_route fe r \<kappa>"
  have fresh: "flow_key_of fe \<notin> set (keys (cs_bw \<kappa>))" using P(4) by auto
  have fe: "fe \<in> set FES" using P(2) by simp
  have inv: "cross_inv T FES ?\<kappa>" by (rule add_cross_route_inv[OF wf P(1) fresh fe r])
  have "wf_graph (cs_sub \<kappa>)" using wf by (simp add: cross_invD(1)[OF P(1)])
  from route_cross_joins[OF this r] have "joins T s d (rr_links r)"
    using wf by (simp add: cross_invD(1)[OF P(1)] joins_charge wf_graph_def)
  then have "cross_served pl T ?\<kappa> fe" using sd by (simp add: cross_served_def add_cross_route_def update_conv)
  moreover have "cross_served pl T ?\<kappa> fe'" if "fe' \<in> set dn" for fe'
    by (rule cross_served_add) (use P(5) that in auto)
  ultimately have "\<forall>fe' \<in> set (fe # dn). cross_served pl T ?\<kappa> fe' \<and> flow_key_of fe' \<notin> set (map flow_key_of fes)"
    using P(3,5) by auto
  moreover have "set (map flow_key_of fes) \<inter> set (keys (cs_bw ?\<kappa>)) = {}"
    using P(3,4) keys_update[of "flow_key_of fe" "bandwidth_demand fe" "cs_bw \<kappa>"]
    by (auto simp: add_cross_route_def simp del: set_map)
  ultimately have "\<forall>fe' \<in> set (fe # dn) \<union> set fes. cross_served pl T \<kappa>' fe'"
    using P(2,3) by (intro Cons.IH[OF inv _ _ _ _ rest]) simp_all
  then show ?case by simp
qed

end

section \<open>Undoing a trial\<close>

lemma restore_post_links:
  "restore_node_residuals snaps (post_links ps S) = post_links ps (restore_node_residuals snaps S)"
proof (induction snaps arbitrary: S)
  case (Cons x snaps)
  have "set_node n a (post_links ps S) = post_links ps (set_node n a S)" for n a and S :: substrate
  proof (induction ps arbitrary: S)
    case (Cons p ps)
    have "set_node n a (post_link l y S) = post_link l y (set_node n a S)" for l y
      by (simp add: set_node_def post_link_def)
    then show ?case using Cons.IH by (cases p) (simp add: post_links_Cons)
  qed simp
  then show ?case using Cons.IH by (cases x) (simp add: restore_node_residuals_def)
qed (simp add: restore_node_residuals_def)

lemma snapshot_sound:
  assumes "wf_graph S"
  shows "\<forall>s \<in> set (snapshot_node_residuals S part). snapshot_of S s"
    and "set (keys (snapshot_node_residuals S part)) = (\<Union>d \<in> set part. set (nodes_in_domain S d))"
proof -
  have "distinct (keys (g_nodes S))" using assms by (simp add: wf_graph_def)
  then show "\<forall>s \<in> set (snapshot_node_residuals S part). snapshot_of S s"
    by (auto simp: snapshot_node_residuals_def snapshot_of_def)
  show "set (keys (snapshot_node_residuals S part)) = (\<Union>d \<in> set part. set (nodes_in_domain S d))"
    by (force simp: snapshot_node_residuals_def nodes_in_domain_def)
qed

lemma restore_charge:
  assumes wf: "wf_graph S" and cov: "set (keys ns) \<subseteq> (\<Union>d \<in> set part. set (nodes_in_domain S d))"
  shows "restore_node_residuals (snapshot_node_residuals S part) (charge ns ls S) = charge [] ls S"
proof -
  let ?sn = "snapshot_node_residuals S part"
  have d: "distinct (keys (g_nodes S))" using wf by (simp add: wf_graph_def)
  have "restore_node_residuals ?sn (charge ns [] S)
      = shifted S (\<lambda>k. if k \<in> set (keys ?sn) then 0 else posted_cpu k ns)
                  (\<lambda>k. if k \<in> set (keys ?sn) then 0 else posted_ram k ns)"
    unfolding restore_node_residuals_def charge_nodes_shifted
    by (rule restore_shifted[OF d snapshot_sound(1)[OF wf]])
  also have "\<dots> = S"
    using cov posted_cpu_absent[of _ ns] snapshot_sound(2)[OF wf] by (intro shifted_zero) (metis subsetD)
  finally have "restore_node_residuals ?sn (charge ns [] S) = S" .
  moreover have "charge ns ls S = post_links (scale_links (- 1) ls) (charge ns [] S)"
    by (simp add: charge_def)
  moreover have "charge [] ls S = post_links (scale_links (- 1) ls) S"
    by (simp add: charge_def)
  ultimately show ?thesis by (simp only: restore_post_links)
qed

lemma rollback_responses:
  assumes "\<forall>(d, r) \<in> set resps. \<not> dr_feasible r \<longrightarrow> dr_bw r = []"
  shows "fold (\<lambda>(d, r) S. if dr_feasible r then rollback_routes (dr_routes r) (dr_bw r) S else S) resps S
    = refund [] (resp_links resps) S"
  using assms
proof (induction resps arbitrary: S)
  case (Cons x resps)
  obtain d r where x: "x = (d, r)" by (cases x)
  have "(if dr_feasible r then rollback_routes (dr_routes r) (dr_bw r) S else S)
      = refund [] (route_claims (dr_routes r) (dr_bw r)) S"
    using Cons.prems by (simp add: x rollback_routes_refund refund_def)
  then show ?case
    using Cons by (simp add: x refund_def post_links_append)
qed (simp add: refund_def)

text \<open>A trial as one charge of the substrate it started from.\<close>

definition trial_ok :: "substrate \<Rightarrow> slice_request \<Rightarrow> int list \<Rightarrow> trial \<Rightarrow> bool" where
  "trial_ok S req part t \<longleftrightarrow>
     tr_sub t = charge (resp_nodes (slice_demand (vnfs req)) (tr_responses t))
                       (resp_links (tr_responses t) @ route_claims (tr_routes t) (tr_bw t)) S
     \<and> set (keys (tr_responses t)) \<subseteq> set part
     \<and> (\<forall>(d, r) \<in> set (tr_responses t). set (vals (dr_placements r)) \<subseteq> set (nodes_in_domain S d)
          \<and> (\<not> dr_feasible r \<longrightarrow> dr_bw r = []))
     \<and> (no_overbooking S \<longrightarrow> no_overbooking (tr_sub t))"

lemma unwind_trial:
  assumes wf: "wf_graph S" and t: "trial_ok S req part t"
  shows "unwind (snapshot_node_residuals S part) t = S"
proof -
  let ?N = "resp_nodes (slice_demand (vnfs req)) (tr_responses t)" and ?L = "resp_links (tr_responses t)"
  let ?X = "route_claims (tr_routes t) (tr_bw t)"
  from t have sub: "tr_sub t = charge ?N (?L @ ?X) S" and ks: "set (keys (tr_responses t)) \<subseteq> set part"
    and r: "\<forall>(d, r) \<in> set (tr_responses t). set (vals (dr_placements r)) \<subseteq> set (nodes_in_domain S d)
          \<and> (\<not> dr_feasible r \<longrightarrow> dr_bw r = [])"
    unfolding trial_ok_def by blast+
  have "set (keys ?N) \<subseteq> (\<Union>d \<in> set part. set (nodes_in_domain S d))"
    using ks r by fastforce
  from restore_charge[OF wf this] have
    "restore_node_residuals (snapshot_node_residuals S part) (tr_sub t) = charge [] (?L @ ?X) S"
    unfolding sub .
  moreover have "\<forall>(d, r) \<in> set (tr_responses t). \<not> dr_feasible r \<longrightarrow> dr_bw r = []" using r by blast
  ultimately have "unwind (snapshot_node_residuals S part) t
      = refund [] ?X (refund [] ?L (charge [] (?L @ ?X) S))"
    unfolding unwind_def by (simp only: rollback_responses[OF \<open>\<forall>(d, r) \<in> set (tr_responses t). \<not> dr_feasible r \<longrightarrow> dr_bw r = []\<close>])
       (simp only: rollback_routes_refund)
  also have "\<dots> = refund [] (?L @ ?X) (charge [] (?L @ ?X) S)"
    by (simp add: refund_def post_links_append)
  also have "\<dots> = S" by (rule refund_charge)
  finally show ?thesis .
qed

section \<open>The trial\<close>

lemma keys_merge:
  "set (keys (merge_placements resps)) = (\<Union>(d, r) \<in> set resps. set (keys (dr_placements r)))"
proof -
  have inner: "set (keys (fold (\<lambda>(v, n). AList.update v n) ps acc)) = set (keys ps) \<union> set (keys acc)"
    for ps and acc :: "(string, node_id) dict"
    by (induction ps arbitrary: acc) (auto simp: keys_update simp del: set_map)
  have "set (keys (fold (\<lambda>(d, r) pl. fold (\<lambda>(v, n). AList.update v n) (dr_placements r) pl) resps acc))
      = (\<Union>(d, r) \<in> set resps. set (keys (dr_placements r))) \<union> set (keys acc)"
    for acc :: "(string, node_id) dict"
    by (induction resps arbitrary: acc) (auto simp: inner simp del: set_map)
  then show ?thesis by (simp add: merge_placements_def)
qed

lemma placed_everywhere:
  assumes fr: "\<And>d f. (d, f) \<in> set frags \<Longrightarrow> fragment_of req part d f"
    and ok: "\<forall>(d, r) \<in> set resps. response_ok S frags d r"
    and ks: "set (keys resps) = set part" and len: "length (vnfs req) \<le> length part"
    and feas: "\<not> any_infeasible resps" and v: "v \<in> vnf_id ` set (vnfs req)"
  shows "\<exists>(d, r) \<in> set resps. v \<in> set (keys (dr_placements r))"
proof -
  from v obtain k where k: "k < length (vnfs req)" "v = vnf_id (vnfs req ! k)"
    by (auto simp: in_set_conv_nth)
  then have "part ! k \<in> set (keys resps)" using len ks by simp
  then obtain r where r: "(part ! k, r) \<in> set resps" by auto
  with feas have f: "dr_feasible r" by (force simp: any_infeasible_def list_ex_iff)
  from ok r obtain f where f': "(part ! k, f) \<in> set frags"
    "set (keys (dr_placements r)) = va_id ` set (pf_vnfs f)"
    using f by (auto simp: response_ok_def)
  have "v \<in> va_id ` set (pf_vnfs f)"
    using fr[OF f'(1)] k by (auto simp: fragment_of_def)
  then show ?thesis using r f'(2) by blast
qed

text \<open>The stages of a call that returned.\<close>

lemma resolve_arrival_Inr:
  assumes "resolve_arrival nx co rnd S req plan mode greedy ct = Inr (T, r, ct')"
  obtains \<delta> bad t where "decide (co_switches co) (co_policy co) rnd S req plan mode ct = Inr \<delta>"
    and "violates (sw_chain (co_switches co)) (de_partition \<delta>) = Inr bad"
    and "run_trial nx (co_actors co) bad S req plan (de_partition \<delta>) = Inr t"
    and "has_violation (judge (co_config co) bad req t)
         \<or> frame_checks (co_switches co) (tr_sub t) (build_domain_summaries S) req plan \<delta> = Inr ()"
    and "T = unwind (snapshot_node_residuals S (de_partition \<delta>)) t"
    and "r = conclude (co_config co) req \<delta> t (judge (co_config co) bad req t) greedy"
    and "ct' = de_counters \<delta>"
proof -
  from assms obtain \<delta> where 1: "decide (co_switches co) (co_policy co) rnd S req plan mode ct = Inr \<delta>"
    by (cases "decide (co_switches co) (co_policy co) rnd S req plan mode ct") (auto simp: resolve_arrival_def)
  from assms obtain bad where 2: "violates (sw_chain (co_switches co)) (de_partition \<delta>) = Inr bad"
    by (cases "violates (sw_chain (co_switches co)) (de_partition \<delta>)") (auto simp: resolve_arrival_def 1)
  from assms obtain t where 3: "run_trial nx (co_actors co) bad S req plan (de_partition \<delta>) = Inr t"
    by (cases "run_trial nx (co_actors co) bad S req plan (de_partition \<delta>)")
       (auto simp: resolve_arrival_def 1 2 Let_def)
  let ?v = "judge (co_config co) bad req t"
  from assms have "T = unwind (snapshot_node_residuals S (de_partition \<delta>)) t
    \<and> r = conclude (co_config co) req \<delta> t ?v greedy \<and> ct' = de_counters \<delta>
    \<and> (has_violation ?v \<or> frame_checks (co_switches co) (tr_sub t) (build_domain_summaries S) req plan \<delta> = Inr ())"
    by (cases "frame_checks (co_switches co) (tr_sub t) (build_domain_summaries S) req plan \<delta>")
       (auto simp: resolve_arrival_def 1 2 3 Let_def split: if_splits)
  with 1 2 3 that show ?thesis by blast
qed

text \<open>The cross-domain part of a trial, seen as a state of the routing loop.\<close>

abbreviation cross_part :: "trial \<Rightarrow> cross_state" where
  "cross_part t \<equiv> \<lparr>cs_sub = tr_sub t, cs_routes = tr_routes t, cs_bw = tr_bw t, cs_delay = 0,
     cs_left = 0, cs_hops = tr_hops t\<rparr>"

abbreviation after_dispatch :: "substrate \<Rightarrow> slice_request \<Rightarrow> trial \<Rightarrow> substrate" where
  "after_dispatch S req t \<equiv>
     charge (resp_nodes (slice_demand (vnfs req)) (tr_responses t)) (resp_links (tr_responses t)) S"

definition carried_out :: "substrate \<Rightarrow> slice_request \<Rightarrow> plan_summary \<Rightarrow> int list \<Rightarrow> trial \<Rightarrow> bool" where
  "carried_out S req plan part t \<longleftrightarrow>
     (\<exists>frags cross. build_fragments plan part req = Inr (frags, cross)
        \<and> keys (tr_responses t) = py_set part
        \<and> dispatched S (slice_demand (vnfs req)) frags (after_dispatch S req t, tr_responses t)
        \<and> cross_inv (after_dispatch S req t) cross (cross_part t)
        \<and> (\<not> any_infeasible (tr_responses t) \<and> tr_cross_ok t \<longrightarrow>
             set (keys (tr_bw t)) = flow_key_of ` set cross
             \<and> (\<forall>fe \<in> set cross. cross_served (merge_placements (tr_responses t)) S (cross_part t) fe)))"

lemma carried_out_trial_ok:
  assumes "carried_out S req plan part t"
  shows "trial_ok S req part t"
proof -
  from assms obtain frags cross where ks: "keys (tr_responses t) = py_set part"
    and di: "dispatched S (slice_demand (vnfs req)) frags (after_dispatch S req t, tr_responses t)"
    and cr: "cross_inv (after_dispatch S req t) cross (cross_part t)"
    unfolding carried_out_def by blast
  note I = cross_invD[OF cr, unfolded cross_state.simps]
  from di have ok: "\<forall>(d, r) \<in> set (tr_responses t). response_ok S frags d r"
    and ob: "no_overbooking S \<longrightarrow> no_overbooking (after_dispatch S req t)"
    unfolding dispatched_def prod.case by blast+
  have "tr_sub t = charge (resp_nodes (slice_demand (vnfs req)) (tr_responses t) @ [])
      (resp_links (tr_responses t) @ route_claims (tr_routes t) (tr_bw t)) S"
    unfolding charge_append by (rule I(1))
  moreover have "\<forall>(d, r) \<in> set (tr_responses t). set (vals (dr_placements r)) \<subseteq> set (nodes_in_domain S d)
          \<and> (\<not> dr_feasible r \<longrightarrow> dr_bw r = [])"
    using ok by (fastforce simp: response_ok_def split: if_splits)
  moreover have "set (keys (tr_responses t)) \<subseteq> set part" unfolding ks by simp
  ultimately show ?thesis
    unfolding trial_ok_def using ob I(8) by simp
qed

context actor_pool
begin

lemma run_trial_carried_out:
  assumes wf: "wf_graph S" and req: "wf_request req"
    and run: "run_trial nx actors False S req plan part = Inr t"
  shows "carried_out S req plan part t"
proof -
  from run obtain frags cross T resps where
    fr: "build_fragments plan part req = Inr (frags, cross)"
    and di: "dispatch_to_actors actors frags S = Inr (T, resps)"
    and rest: "(if any_infeasible resps \<or> cross = []
             then Inr \<lparr>tr_sub = T, tr_responses = resps, tr_cross_ok = True, tr_routes = [], tr_bw = [],
                       tr_delay = 0, tr_hops = 0\<rparr>
             else case route_cross_domain_flows nx T cross resps
                         (max_e2e_delay (qos_of req) - intra_delay resps) of
                 Inl e \<Rightarrow> Inl e
               | Inr (ok, \<kappa>) \<Rightarrow>
                   Inr \<lparr>tr_sub = cs_sub \<kappa>, tr_responses = resps, tr_cross_ok = ok, tr_routes = cs_routes \<kappa>,
                        tr_bw = cs_bw \<kappa>, tr_delay = cs_delay \<kappa>, tr_hops = cs_hops \<kappa>\<rparr>) = Inr t"
    by (auto simp: run_trial_def split: sum.splits prod.splits)
  note F = build_fragments_spec[OF req fr]
  from dispatch_spec[OF wf req fr di] have
    D: "dispatched S (slice_demand (vnfs req)) frags (T, resps)" and ks: "keys resps = py_set part"
    by blast+
  from D have T: "T = charge (resp_nodes (slice_demand (vnfs req)) resps) (resp_links resps) S"
    and ok: "\<forall>(d, r) \<in> set resps. response_ok S frags d r"
    unfolding dispatched_def prod.case by blast+
  have kset: "set (keys resps) = set part" unfolding ks by simp
  have conclude: "carried_out S req plan part t"
    if t: "tr_responses t = resps" and c: "cross_inv T cross (cross_part t)"
      and k: "\<not> any_infeasible resps \<and> tr_cross_ok t \<longrightarrow> set (keys (tr_bw t)) = flow_key_of ` set cross
        \<and> (\<forall>fe \<in> set cross. cross_served (merge_placements resps) S (cross_part t) fe)"
    unfolding carried_out_def t T[symmetric] using fr ks D c k by blast
  have inv0: "cross_inv T cross \<lparr>cs_sub = T, cs_routes = [], cs_bw = [], cs_delay = x, cs_left = y, cs_hops = 0\<rparr>"
    for x y
    by (simp add: cross_inv_def charge_def)
  show ?thesis
  proof (cases "any_infeasible resps \<or> cross = []")
    case True
    then have "t = \<lparr>tr_sub = T, tr_responses = resps, tr_cross_ok = True, tr_routes = [], tr_bw = [],
                       tr_delay = 0, tr_hops = 0\<rparr>" using rest by simp
    then show ?thesis using conclude inv0 True by auto
  next
    case False
    then obtain ok' \<kappa> where ro: "route_cross_domain_flows nx T cross resps
          (max_e2e_delay (qos_of req) - intra_delay resps) = Inr (ok', \<kappa>)"
      and t: "t = \<lparr>tr_sub = cs_sub \<kappa>, tr_responses = resps, tr_cross_ok = ok', tr_routes = cs_routes \<kappa>,
                        tr_bw = cs_bw \<kappa>, tr_delay = cs_delay \<kappa>, tr_hops = cs_hops \<kappa>\<rparr>"
      using rest by (auto split: sum.splits prod.splits)
    have wfT: "wf_graph T" using wf by (simp add: T)
    have ends: "\<forall>fe \<in> set cross. map_of (merge_placements resps) (source_vnf fe) \<noteq> None
        \<and> map_of (merge_placements resps) (target_vnf fe) \<noteq> None"
    proof
      fix fe assume "fe \<in> set cross"
      from F(5)[OF this] placed_everywhere[OF F(2) ok kset F(6)] False
      have "source_vnf fe \<in> set (keys (merge_placements resps))"
        "target_vnf fe \<in> set (keys (merge_placements resps))"
        unfolding keys_merge by blast+
      then show "map_of (merge_placements resps) (source_vnf fe) \<noteq> None
        \<and> map_of (merge_placements resps) (target_vnf fe) \<noteq> None"
        by (simp add: key_iff)
    qed
    from route_cross_spec[OF wfT inv0 subset_refl F(3) _ ends ro[unfolded route_cross_domain_flows_def]]
    have C: "cross_inv T cross \<kappa>" and K: "ok' \<longrightarrow> set (keys (cs_bw \<kappa>)) = flow_key_of ` set cross"
      by (auto split: if_splits)
    have "cross_inv T cross (cross_part t)"
      using C unfolding cross_inv_def t trial.simps cross_state.simps .
    moreover have "\<forall>fe \<in> set cross. cross_served (merge_placements resps) S (cross_part t) fe" if ok'
    proof -
      have "route_cross nx (merge_placements resps) cross \<lparr>cs_sub = T, cs_routes = [], cs_bw = [], cs_delay = 0,
          cs_left = max_e2e_delay (qos_of req) - intra_delay resps, cs_hops = 0\<rparr> = Inr (True, \<kappa>)"
        using ro that by (simp add: route_cross_domain_flows_def)
      then have "\<forall>fe \<in> set [] \<union> set cross. cross_served (merge_placements resps) T \<kappa> fe"
        by (rule route_cross_serves[OF wfT inv0 subset_refl F(3), rotated 2]) simp_all
      then show ?thesis using wf by (simp add: cross_served_def t T joins_charge wf_graph_def)
    qed
    ultimately show ?thesis using K by (intro conclude) (simp_all add: t)
  qed
qed

lemma run_trial_spec:
  assumes "wf_graph S" and "wf_request req" and "run_trial nx actors bad S req plan part = Inr t"
  shows "trial_ok S req part t"
proof (cases bad)
  case True
  then show ?thesis
    using assms(3) by (auto simp: run_trial_def trial_ok_def charge_def)
next
  case False
  with assms(3) have "run_trial nx actors False S req plan part = Inr t" by simp
  then show ?thesis by (rule carried_out_trial_ok[OF run_trial_carried_out[OF assms(1,2)]])
qed

lemma resolve_arrival_restores:
  assumes "wf_graph S" and "wf_request req" and "co_actors co = actors"
    and "resolve_arrival nx co rnd S req plan mode greedy ct = Inr (T, r, ct')"
  shows "T = S"
  using assms(4)
proof (rule resolve_arrival_Inr)
  fix \<delta> bad t
  assume t: "run_trial nx (co_actors co) bad S req plan (de_partition \<delta>) = Inr t"
    and T: "T = unwind (snapshot_node_residuals S (de_partition \<delta>)) t"
  show "T = S"
    unfolding T by (rule unwind_trial[OF assms(1) run_trial_spec[OF assms(1,2) t[unfolded assms(3)]]])
qed

end

end
