(* ===== verification/Delay_Model.thy ===== *)
theory Delay_Model
  imports Substrate
begin

text \<open>
  The load-dependent delay model (\<open>src/src/orion/sim/delay_model.py\<close>): M/M/1 sojourn of a node
  or a link, \<open>PInf\<close> when the queue is saturated. Lemmas: when it is finite, its floor, and
  monotonicity in load, which is what makes admission under load only ever slower.
\<close>

definition eps :: real where
  "eps = 1 / 10 ^ 9"

definition mm1_sojourn :: "real \<Rightarrow> real \<Rightarrow> real \<Rightarrow> real \<Rightarrow> xreal" where
  "mm1_sojourn base_delay inten service_rate load =
     (let headroom = service_rate - load in
      if headroom \<le> eps then PInf else Fin (base_delay * inten + 1 / headroom))"

definition node_sojourn :: "real \<Rightarrow> real \<Rightarrow> real \<Rightarrow> real \<Rightarrow> xreal" where
  "node_sojourn base inten cpu_cap cpu_used = mm1_sojourn base inten cpu_cap cpu_used"

definition link_sojourn :: "real \<Rightarrow> real \<Rightarrow> real \<Rightarrow> xreal" where
  "link_sojourn prop bw_cap bw_used = mm1_sojourn prop 1 bw_cap bw_used"

lemma eps_pos: "0 < eps"
  by (simp add: eps_def)

lemma mm1_finite_iff: "is_inf (mm1_sojourn b i mu load) \<longleftrightarrow> mu - load \<le> eps"
  by (simp add: mm1_sojourn_def Let_def)

lemma mm1_floor: "Fin (b * i) \<le> mm1_sojourn b i mu load"
  using eps_pos by (auto simp: mm1_sojourn_def Let_def)

text \<open>More load on a node or link never makes it faster, and no load brings it below the
  static delay the coordinator counts.\<close>

theorem sojourn_monotone:
  assumes "load \<le> load'"
  shows "mm1_sojourn b i mu load \<le> mm1_sojourn b i mu load' \<and> Fin (b * i) \<le> mm1_sojourn b i mu load"
proof -
  have "1 / (mu - load) \<le> 1 / (mu - load')" if "eps < mu - load'"
    using that eps_pos assms by (intro divide_left_mono) auto
  then have "mm1_sojourn b i mu load \<le> mm1_sojourn b i mu load'"
    using assms by (auto simp: mm1_sojourn_def Let_def)
  then show ?thesis using mm1_floor by blast
qed

theorem sojourn_monotone_witness:
  "mm1_sojourn 1 2 8 4 \<le> mm1_sojourn 1 2 8 (6 :: real) \<and> Fin (1 * 2) \<le> mm1_sojourn 1 2 8 4"
  using sojourn_monotone[of 4 6 1 2 8] by simp

end
