(* ===== verification/Verifier.thy ===== *)
theory Verifier
  imports Substrate Delay_Model
begin

text \<open>
  The post-commit ground-truth check (\<open>src/src/orion/sim/verifier.py\<close>) and the final reward
  (\<open>src/src/orion/sim/reward.py\<close>). The constraint codes are the source's strings. The derived
  log entry \<open>delay_slack\<close> (budget minus delay) is left out of the details.
\<close>

section \<open>verifier.py\<close>

record verdict_details =
  vt_e2e :: xreal
  vt_budget :: real
  vt_throughput :: real
  vt_floor :: real
  vt_hops :: nat
  vt_hop_limit :: nat
  vt_cpu_overflow :: "real option"
  vt_ram_overflow :: "real option"
  vt_bw_overflow :: "real option"

record verdict =
  vd_feasible :: bool
  vd_violated :: "string list"
  vd_details :: verdict_details

definition hard_penalty_fired :: "verdict \<Rightarrow> bool" where
  "hard_penalty_fired v \<longleftrightarrow> list_ex (\<lambda>c. c \<in> set (vd_violated v)) [''C2'', ''C3'', ''C5b'', ''C7'']"

text \<open>The overflow loops: a negative residual sets the flag, the worst one is kept.\<close>

definition worst_overflow :: "real list \<Rightarrow> real option" where
  "worst_overflow rs =
     (if list_ex (\<lambda>r. r < 0) rs
      then Some (- fold (\<lambda>r w. if r < 0 then min w r else w) rs 0) else None)"

definition check_node_capacities :: "'a graph_scheme \<Rightarrow> real option \<times> real option" where
  "check_node_capacities g =
     (worst_overflow (map (\<lambda>(n, d). cpu_residual d) (g_nodes g)),
      worst_overflow (map (\<lambda>(n, d). ram_residual d) (g_nodes g)))"

definition check_link_capacities :: "'a graph_scheme \<Rightarrow> real option" where
  "check_link_capacities g = worst_overflow (map (\<lambda>(e, d). bw_residual d) (g_edges g))"

text \<open>\<open>{v.vnf_id: v for v in vnfs}\<close>: the last one wins.\<close>

definition vnf_by_id :: "vnf list \<Rightarrow> string \<Rightarrow> vnf option" where
  "vnf_by_id vs x = map_of (rev (map (\<lambda>v. (vnf_id v, v)) vs)) x"

text \<open>The node loop; a saturated node returns infinity at once.\<close>

fun node_delays :: "'a graph_scheme \<Rightarrow> vnf list \<Rightarrow> (string, node_id) dict \<Rightarrow> real \<Rightarrow> py_error + xreal" where
  "node_delays g vs [] acc = Inr (Fin acc)"
| "node_delays g vs ((v, n) # ps) acc =
     (case map_of (g_nodes g) n of
        None \<Rightarrow> Inl KeyError
      | Some d \<Rightarrow>
     (case vnf_by_id vs v of
        None \<Rightarrow> Inl KeyError
      | Some f \<Rightarrow>
     (case node_sojourn (processing_delay d) (intensity f) (cpu_capacity d) (cpu_capacity d - cpu_residual d) of
        PInf \<Rightarrow> Inr PInf
      | Fin x \<Rightarrow> node_delays g vs ps (acc + x))))"

text \<open>\<open>u, v = _link_endpoints(g, link_id); g[u][v]\<close>.\<close>

definition link_edge :: "'a graph_scheme \<Rightarrow> link_id \<Rightarrow> py_error + edge_data" where
  "link_edge g l =
     (case find_link l (g_edges g) of
        None \<Rightarrow> Inl KeyError
      | Some (e, d) \<Rightarrow> (case map_of (g_edges g) e of None \<Rightarrow> Inl KeyError | Some d' \<Rightarrow> Inr d'))"

fun link_delays :: "'a graph_scheme \<Rightarrow> link_id list \<Rightarrow> real \<Rightarrow> py_error + xreal" where
  "link_delays g [] acc = Inr (Fin acc)"
| "link_delays g (l # ls) acc =
     (case link_edge g l of
        Inl e \<Rightarrow> Inl e
      | Inr d \<Rightarrow>
     (case link_sojourn (propagation_delay d) (bandwidth_capacity d) (bandwidth_capacity d - bw_residual d) of
        PInf \<Rightarrow> Inr PInf
      | Fin x \<Rightarrow> link_delays g ls (acc + x)))"

fun flow_delays :: "'a graph_scheme \<Rightarrow> placement_plan \<Rightarrow> flow_edge list \<Rightarrow> real \<Rightarrow> py_error + xreal" where
  "flow_delays g plan [] acc = Inr (Fin acc)"
| "flow_delays g plan (fe # fes) acc =
     (case link_delays g (get_default (flow_routes plan) (flow_key_of fe) []) acc of
        Inl e \<Rightarrow> Inl e
      | Inr PInf \<Rightarrow> Inr PInf
      | Inr (Fin acc') \<Rightarrow> flow_delays g plan fes acc')"

definition ground_truth_e2e :: "'a graph_scheme \<Rightarrow> placement_plan \<Rightarrow> slice_request \<Rightarrow> py_error + xreal" where
  "ground_truth_e2e g plan req =
     (case node_delays g (vnfs req) (vnf_placements plan) 0 of
        Inl e \<Rightarrow> Inl e
      | Inr PInf \<Rightarrow> Inr PInf
      | Inr (Fin t) \<Rightarrow> flow_delays g plan (flow_edges req) t)"

text \<open>One flow of the C5b loop; \<open>worst_ratio\<close> starts at infinity.\<close>

definition flow_ratio :: "placement_plan \<Rightarrow> flow_edge \<Rightarrow> xreal \<Rightarrow> xreal" where
  "flow_ratio plan fe worst =
     (let per_link = get_default (bw_allocations plan) (flow_key_of fe) [] in
      if per_link = [] \<or> bandwidth_demand fe \<le> 0 then worst
      else fold (\<lambda>(l, bw) w. min w (Fin (bw / bandwidth_demand fe))) per_link worst)"

definition check_c5b :: "slice_request \<Rightarrow> placement_plan \<Rightarrow> real \<times> bool" where
  "check_c5b req plan =
     (let target = min_throughput (qos_of req) in
      if flow_edges req = [] then (target, False)
      else case fold (flow_ratio plan) (flow_edges req) PInf of
          PInf \<Rightarrow> (target, False)
        | Fin w \<Rightarrow> (w * target, w < 1))"

text \<open>Inter-domain traversals over every route, by the \<open>link_type\<close> of the edge.\<close>

fun count_inter :: "'a graph_scheme \<Rightarrow> link_id list \<Rightarrow> nat \<Rightarrow> py_error + nat" where
  "count_inter g [] k = Inr k"
| "count_inter g (l # ls) k =
     (case link_edge g l of
        Inl e \<Rightarrow> Inl e
      | Inr d \<Rightarrow> count_inter g ls (if link_type d = InterLink then k + 1 else k))"

definition count_plan_hops :: "'a graph_scheme \<Rightarrow> placement_plan \<Rightarrow> py_error + nat" where
  "count_plan_hops g plan = count_inter g (concat (vals (flow_routes plan))) 0"

definition verify_committed_plan :: "'a graph_scheme \<Rightarrow> placement_plan \<Rightarrow> slice_request \<Rightarrow> nat
    \<Rightarrow> py_error + verdict" where
  "verify_committed_plan g plan req max_hops =
     (let (cpu, ram) = check_node_capacities g;
          bw = check_link_capacities g;
          budget = max_e2e_delay (qos_of req);
          (thr, c5b) = check_c5b req plan
      in case ground_truth_e2e g plan req of
          Inl e \<Rightarrow> Inl e
        | Inr e2e \<Rightarrow>
        (case count_plan_hops g plan of
           Inl e \<Rightarrow> Inl e
         | Inr hops \<Rightarrow>
             let violated =
                   (if cpu \<noteq> None then [''C2''] else []) @ (if ram \<noteq> None then [''C3''] else [])
                   @ (if bw \<noteq> None then [''C5''] else []) @ (if Fin budget < e2e then [''C7''] else [])
                   @ (if c5b then [''C5b''] else []) @ (if hops > max_hops then [''C9''] else [])
             in Inr \<lparr>vd_feasible = (violated = []), vd_violated = violated,
                  vd_details = \<lparr>vt_e2e = e2e, vt_budget = budget, vt_throughput = thr,
                    vt_floor = min_throughput (qos_of req), vt_hops = hops, vt_hop_limit = max_hops,
                    vt_cpu_overflow = cpu, vt_ram_overflow = ram, vt_bw_overflow = bw\<rparr>\<rparr>))"

section \<open>reward.py\<close>

record reward_weights =
  wt_mu :: real
  wt_alpha :: real
  wt_lambda :: real
  wt_eta :: real

definition default_weights :: reward_weights where
  "default_weights = \<lparr>wt_mu = 100, wt_alpha = 1, wt_lambda = 10, wt_eta = 1\<rparr>"

definition finalize_reward :: "reward_components \<Rightarrow> bool \<Rightarrow> verdict option \<Rightarrow> reward_weights
    \<Rightarrow> real \<times> reward_components" where
  "finalize_reward c admitted v w =
     (let fired = (case v of None \<Rightarrow> False | Some vd \<Rightarrow> hard_penalty_fired vd);
          final = \<lparr>rw_admission = (if admitted then rw_admission c else 0),
                   rw_efficiency = (if admitted then rw_efficiency c else 0),
                   rw_hard_penalty = (if fired then - wt_lambda w else 0),
                   rw_quality = (if admitted then rw_quality c else 0)\<rparr>
      in (reward_total final, final))"

section \<open>Facts\<close>

lemma worst_overflow_None: "worst_overflow rs = None \<longleftrightarrow> (\<forall>r \<in> set rs. 0 \<le> r)"
  by (simp add: worst_overflow_def list_ex_iff) (meson not_less)

lemma hard_penalty_iff:
  "hard_penalty_fired v \<longleftrightarrow>
   ''C2'' \<in> set (vd_violated v) \<or> ''C3'' \<in> set (vd_violated v)
   \<or> ''C5b'' \<in> set (vd_violated v) \<or> ''C7'' \<in> set (vd_violated v)"
  by (auto simp: hard_penalty_fired_def)

lemma capacities_ok:
  "no_overbooking g \<Longrightarrow> check_node_capacities g = (None, None) \<and> check_link_capacities g = None"
  by (auto simp: check_node_capacities_def check_link_capacities_def worst_overflow_None no_overbooking_def)

lemma vnf_by_id_in:
  assumes "distinct (map vnf_id vs)" and "v \<in> set vs"
  shows "vnf_by_id vs (vnf_id v) = Some v"
  unfolding vnf_by_id_def
  by (rule map_of_is_SomeI) (use assms in \<open>auto simp: comp_def simp flip: rev_map\<close>)

lemma vnf_by_id_Some: "vnf_by_id vs x = Some v \<Longrightarrow> v \<in> set vs \<and> vnf_id v = x"
  by (auto simp: vnf_by_id_def dest!: map_of_SomeD)

lemma node_delays_total:
  assumes "\<forall>(v, n) \<in> set ps. n \<in> set (keys (g_nodes g)) \<and> v \<in> vnf_id ` set vs"
  shows "\<exists>x. node_delays g vs ps acc = Inr x"
  using assms
proof (induction ps arbitrary: acc)
  case (Cons p ps)
  obtain v n where p: "p = (v, n)" by (cases p)
  from Cons.prems obtain d where d: "map_of (g_nodes g) n = Some d" by (auto simp: p key_iff)
  have "v \<in> fst ` set (rev (map (\<lambda>v. (vnf_id v, v)) vs))" using Cons.prems by (force simp: p)
  then obtain f where f: "vnf_by_id vs v = Some f"
    by (cases "vnf_by_id vs v") (auto simp: vnf_by_id_def map_of_eq_None_iff)
  show ?case using Cons by (auto simp: p d f split: xreal.splits)
qed simp

lemma link_edge_total:
  assumes "wf_graph g" and "l \<in> set (link_ids (g_edges g))"
  shows "\<exists>e d. find_link l (g_edges g) = Some (e, d) \<and> link_edge g l = Inr d"
proof -
  from assms(2) obtain e d where f: "find_link l (g_edges g) = Some (e, d)"
    using find_link_None[of l "g_edges g"] by (cases "find_link l (g_edges g)") auto
  then have "(e, d) \<in> set (g_edges g)" by (blast dest: find_link_Some)
  then have "map_of (g_edges g) e = Some d"
    using assms(1) by (simp add: wf_graph_def)
  then show ?thesis using f by (simp add: link_edge_def)
qed

lemma link_delays_total:
  "wf_graph g \<Longrightarrow> set ls \<subseteq> set (link_ids (g_edges g)) \<Longrightarrow> \<exists>x. link_delays g ls acc = Inr x"
proof (induction ls arbitrary: acc)
  case (Cons l ls)
  then obtain d where "link_edge g l = Inr d" using link_edge_total[of g l] by auto
  with Cons show ?case by (auto split: xreal.splits)
qed simp

lemma flow_delays_total:
  assumes "wf_graph g" and "\<forall>(fk, ls) \<in> set (flow_routes plan). set ls \<subseteq> set (link_ids (g_edges g))"
  shows "\<exists>x. flow_delays g plan fes acc = Inr x"
proof (induction fes arbitrary: acc)
  case (Cons fe fes)
  have "set (get_default (flow_routes plan) (flow_key_of fe) []) \<subseteq> set (link_ids (g_edges g))"
    using assms(2) by (fastforce simp: get_default_def split: option.splits dest: map_of_SomeD)
  from link_delays_total[OF assms(1) this, of acc] obtain x where
    "link_delays g (get_default (flow_routes plan) (flow_key_of fe) []) acc = Inr x" by blast
  then show ?case using Cons by (cases x) auto
qed simp

lemma count_inter_total:
  assumes "wf_graph g" and "set ls \<subseteq> set (link_ids (g_edges g))"
  shows "count_inter g ls k = Inr (k + length (filter (\<lambda>l. \<exists>e d. find_link l (g_edges g) = Some (e, d)
      \<and> link_type d = InterLink) ls))"
  using assms(2)
proof (induction ls arbitrary: k)
  case (Cons l ls)
  then obtain e d where "find_link l (g_edges g) = Some (e, d)" "link_edge g l = Inr d"
    using link_edge_total[OF assms(1), of l] by auto
  with Cons show ?case by auto
qed simp

text \<open>Every flow that got bandwidth got its demand: C5b cannot fire.\<close>

lemma flow_ratio_met:
  assumes "\<forall>(l, bw) \<in> set (get_default (bw_allocations plan) (flow_key_of fe) []). bw = bandwidth_demand fe"
    and "Fin 1 \<le> w"
  shows "Fin 1 \<le> flow_ratio plan fe w"
proof -
  have "Fin 1 \<le> fold (\<lambda>(l, bw) w. min w (Fin (bw / bandwidth_demand fe))) ps w"
    if "\<forall>(l, bw) \<in> set ps. bw = bandwidth_demand fe" "0 < bandwidth_demand fe" "Fin 1 \<le> w" for ps w
    using that by (induction ps arbitrary: w) auto
  then show ?thesis using assms by (auto simp: flow_ratio_def Let_def)
qed

lemma check_c5b_met:
  assumes "\<forall>fe \<in> set (flow_edges req).
      \<forall>(l, bw) \<in> set (get_default (bw_allocations plan) (flow_key_of fe) []). bw = bandwidth_demand fe"
  shows "\<not> snd (check_c5b req plan)"
proof -
  have "Fin 1 \<le> fold (flow_ratio plan) fes w"
    if "\<forall>fe \<in> set fes. \<forall>(l, bw) \<in> set (get_default (bw_allocations plan) (flow_key_of fe) []). bw = bandwidth_demand fe"
      "Fin 1 \<le> w" for fes w
    using that by (induction fes arbitrary: w) (auto intro: flow_ratio_met)
  from this[OF assms, of PInf] show ?thesis
    by (auto simp: check_c5b_def Let_def split: xreal.splits)
qed

end
