(* ===== verification/Commit.thy ===== *)
theory Commit
  imports Coordinator_Proofs Verifier
begin

text \<open>
  From a commit to an allocation: \<open>build_placement_plan\<close> of
  \<open>src/src/orion/sim/episode_runner.py\<close> and the theorem that ties the coordinator, the
  substrate and the verifier together: the plan of a committed decision takes exactly what the
  trial took, so allocating it over-books nothing, and the post-commit verdict can only be a
  delay violation.
\<close>

section \<open>build\_placement\_plan\<close>

text \<open>\<open>{link_id: x for link_id in links}\<close>.\<close>

definition per_link_bw :: "link_id list \<Rightarrow> real \<Rightarrow> (link_id, real) dict" where
  "per_link_bw ls x = fold (\<lambda>l d. AList.update l x d) ls []"

definition add_vnf_to_plan :: "vnf list \<Rightarrow> string \<times> node_id \<Rightarrow> placement_plan \<Rightarrow> py_error + placement_plan" where
  "add_vnf_to_plan vs = (\<lambda>(v, n) plan.
     case vnf_by_id vs v of
       None \<Rightarrow> Inl KeyError
     | Some f \<Rightarrow> Inr (plan\<lparr>vnf_placements := AList.update v n (vnf_placements plan),
                          cpu_allocations := AList.update v (cpu_demand f) (cpu_allocations plan),
                          ram_allocations := AList.update v (ram_demand f) (ram_allocations plan)\<rparr>))"

definition add_routes_to_plan :: "(flow_key, link_id list) dict \<Rightarrow> (flow_key, real) dict
    \<Rightarrow> placement_plan \<Rightarrow> placement_plan" where
  "add_routes_to_plan rts bw plan =
     fold (\<lambda>(fk, ls) plan.
        plan\<lparr>flow_routes := AList.update fk ls (flow_routes plan),
             bw_allocations := AList.update fk (per_link_bw ls (get_default bw fk 0)) (bw_allocations plan)\<rparr>)
       rts plan"

definition add_response_to_plan :: "vnf list \<Rightarrow> int \<times> domain_response \<Rightarrow> placement_plan \<Rightarrow> py_error + placement_plan" where
  "add_response_to_plan vs = (\<lambda>(d, r) plan.
     map_sum id (add_routes_to_plan (dr_routes r) (dr_bw r))
       (fold_err (add_vnf_to_plan vs) (dr_placements r) plan))"

definition empty_plan :: "string \<Rightarrow> placement_plan" where
  "empty_plan pid = \<lparr>plan_id = pid, vnf_placements = [], cpu_allocations = [], ram_allocations = [],
     flow_routes = [], bw_allocations = [], structurally_valid = True, plan_source = ''mdo''\<rparr>"

definition build_placement_plan :: "slice_request \<Rightarrow> mdo_result \<Rightarrow> py_error + placement_plan option" where
  "build_placement_plan req r =
     (case fold_err (add_response_to_plan (vnfs req)) (mr_responses r) (empty_plan (request_id req @ ''_mdo'')) of
        Inl e \<Rightarrow> Inl e
      | Inr plan0 \<Rightarrow>
          let plan = add_routes_to_plan (mr_cross_routes r) (mr_cross_bw r) plan0 in
          if list_ex (\<lambda>v. vnf_id v \<notin> set (keys (vnf_placements plan))) (vnfs req) then Inr None
          else Inr (Some plan))"

section \<open>What the plan claims\<close>

lemma per_link_bw_distinct: "distinct ls \<Longrightarrow> per_link_bw ls x = claim_links ls x"
proof -
  have "fold (\<lambda>l d. AList.update l x d) ls d = d @ claim_links ls x"
    if "distinct ls" "set ls \<inter> set (keys d) = {}" for d
    using that
  proof (induction ls arbitrary: d)
    case (Cons l ls)
    then have "AList.update l x d = d @ [(l, x)]" by (intro update_fresh) auto
    then show ?case using Cons by simp
  qed simp
  then show "distinct ls \<Longrightarrow> ?thesis" by (simp add: per_link_bw_def)
qed

text \<open>The routes added to a plan, when their keys are new and their links distinct.\<close>

abbreviation plan_bw :: "(flow_key, link_id list) dict \<Rightarrow> (flow_key, real) dict
    \<Rightarrow> (flow_key, (link_id, real) dict) dict" where
  "plan_bw rts bw \<equiv> map (\<lambda>(fk, ls). (fk, claim_links ls (get_default bw fk 0))) rts"

lemma add_routes_fresh:
  assumes "distinct (keys rts)" and "\<forall>(fk, ls) \<in> set rts. distinct ls"
    and "set (keys rts) \<inter> set (keys (flow_routes plan)) = {}"
    and "keys (bw_allocations plan) = keys (flow_routes plan)"
  shows "add_routes_to_plan rts bw plan =
    plan\<lparr>flow_routes := flow_routes plan @ rts, bw_allocations := bw_allocations plan @ plan_bw rts bw\<rparr>"
  using assms
proof (induction rts arbitrary: plan)
  case Nil
  then show ?case by (simp add: add_routes_to_plan_def)
next
  case (Cons x rts)
  obtain fk ls where x: "x = (fk, ls)" by (cases x)
  have fr: "fk \<notin> set (keys (flow_routes plan))" using Cons.prems(3) by (auto simp: x)
  then have fb: "fk \<notin> set (keys (bw_allocations plan))" using Cons.prems(4) by simp
  let ?p = "plan\<lparr>flow_routes := flow_routes plan @ [(fk, ls)],
             bw_allocations := bw_allocations plan @ [(fk, claim_links ls (get_default bw fk 0))]\<rparr>"
  have "add_routes_to_plan (x # rts) bw plan = add_routes_to_plan rts bw ?p"
    using Cons.prems(2)
    by (simp add: add_routes_to_plan_def x update_fresh[OF fr] update_fresh[OF fb] per_link_bw_distinct)
  also have "\<dots> = ?p\<lparr>flow_routes := flow_routes ?p @ rts, bw_allocations := bw_allocations ?p @ plan_bw rts bw\<rparr>"
  proof (rule Cons.IH)
    show "set (keys rts) \<inter> set (keys (flow_routes ?p)) = {}" using Cons.prems(1,3) by (auto simp: x)
  qed (use Cons.prems in \<open>auto simp: x\<close>)
  finally show ?case by (simp add: x)
qed

lemma add_vnfs_fresh:
  assumes "distinct (keys pl)" and "set (keys pl) \<inter> set (keys (vnf_placements plan)) = {}"
    and "keys (cpu_allocations plan) = keys (vnf_placements plan)"
    and "keys (ram_allocations plan) = keys (vnf_placements plan)"
    and "set (keys pl) \<subseteq> vnf_id ` set vs" and "distinct (map vnf_id vs)"
  shows "fold_err (add_vnf_to_plan vs) pl plan =
    Inr (plan\<lparr>vnf_placements := vnf_placements plan @ pl,
              cpu_allocations := cpu_allocations plan @ map (\<lambda>(v, n). (v, fst (slice_demand vs v))) pl,
              ram_allocations := ram_allocations plan @ map (\<lambda>(v, n). (v, snd (slice_demand vs v))) pl\<rparr>)"
  using assms(1-5)
proof (induction pl arbitrary: plan)
  case (Cons x pl)
  obtain v n where x: "x = (v, n)" by (cases x)
  have f1: "v \<notin> set (keys (vnf_placements plan))" using Cons.prems(2) by (auto simp: x)
  then have f2: "v \<notin> set (keys (cpu_allocations plan))" and f3: "v \<notin> set (keys (ram_allocations plan))"
    using Cons.prems(3,4) by simp_all
  from Cons.prems(5) obtain f where f: "f \<in> set vs" "v = vnf_id f" by (auto simp: x)
  let ?p = "plan\<lparr>vnf_placements := vnf_placements plan @ [(v, n)],
              cpu_allocations := cpu_allocations plan @ [(v, fst (slice_demand vs v))],
              ram_allocations := ram_allocations plan @ [(v, snd (slice_demand vs v))]\<rparr>"
  have "add_vnf_to_plan vs x plan = Inr ?p"
    unfolding add_vnf_to_plan_def x
    by (simp add: f(2) vnf_by_id_in[OF assms(6) f(1)] slice_demand_in[OF assms(6) f(1)]
        update_fresh[OF f1[unfolded f(2)]] update_fresh[OF f2[unfolded f(2)]] update_fresh[OF f3[unfolded f(2)]])
  moreover have "fold_err (add_vnf_to_plan vs) pl ?p =
    Inr (?p\<lparr>vnf_placements := vnf_placements ?p @ pl,
              cpu_allocations := cpu_allocations ?p @ map (\<lambda>(v, n). (v, fst (slice_demand vs v))) pl,
              ram_allocations := ram_allocations ?p @ map (\<lambda>(v, n). (v, snd (slice_demand vs v))) pl\<rparr>)"
  proof (rule Cons.IH)
    show "set (keys pl) \<inter> set (keys (vnf_placements ?p)) = {}" using Cons.prems(1,2) by (auto simp: x)
  qed (use Cons.prems in \<open>auto simp: x\<close>)
  ultimately show ?case by (simp add: x)
qed simp

abbreviation all_placements :: "(int, domain_response) dict \<Rightarrow> (string, node_id) dict" where
  "all_placements resps \<equiv> concat (map (\<lambda>(d, r). dr_placements r) resps)"

abbreviation all_routes :: "(int, domain_response) dict \<Rightarrow> (flow_key, link_id list) dict" where
  "all_routes resps \<equiv> concat (map (\<lambda>(d, r). dr_routes r) resps)"

abbreviation all_plan_bw :: "(int, domain_response) dict \<Rightarrow> (flow_key, (link_id, real) dict) dict" where
  "all_plan_bw resps \<equiv> concat (map (\<lambda>(d, r). plan_bw (dr_routes r) (dr_bw r)) resps)"

lemma add_responses_fresh:
  assumes "distinct (keys (all_placements resps))" and "distinct (keys (all_routes resps))"
    and "set (keys (all_placements resps)) \<inter> set (keys (vnf_placements plan)) = {}"
    and "set (keys (all_routes resps)) \<inter> set (keys (flow_routes plan)) = {}"
    and "keys (cpu_allocations plan) = keys (vnf_placements plan)"
    and "keys (ram_allocations plan) = keys (vnf_placements plan)"
    and "keys (bw_allocations plan) = keys (flow_routes plan)"
    and "\<forall>(fk, ls) \<in> set (all_routes resps). distinct ls"
    and "set (keys (all_placements resps)) \<subseteq> vnf_id ` set vs" and "distinct (map vnf_id vs)"
  shows "fold_err (add_response_to_plan vs) resps plan =
    Inr (plan\<lparr>vnf_placements := vnf_placements plan @ all_placements resps,
              cpu_allocations := cpu_allocations plan @ map (\<lambda>(v, n). (v, fst (slice_demand vs v))) (all_placements resps),
              ram_allocations := ram_allocations plan @ map (\<lambda>(v, n). (v, snd (slice_demand vs v))) (all_placements resps),
              flow_routes := flow_routes plan @ all_routes resps,
              bw_allocations := bw_allocations plan @ all_plan_bw resps\<rparr>)"
  using assms(1-9)
proof (induction resps arbitrary: plan)
  case (Cons x resps)
  note P = Cons.prems
  obtain d r where x: "x = (d, r)" by (cases x)
  let ?q = "plan\<lparr>vnf_placements := vnf_placements plan @ dr_placements r,
              cpu_allocations := cpu_allocations plan @ map (\<lambda>(v, n). (v, fst (slice_demand vs v))) (dr_placements r),
              ram_allocations := ram_allocations plan @ map (\<lambda>(v, n). (v, snd (slice_demand vs v))) (dr_placements r)\<rparr>"
  let ?p = "?q\<lparr>flow_routes := flow_routes plan @ dr_routes r,
               bw_allocations := bw_allocations plan @ plan_bw (dr_routes r) (dr_bw r)\<rparr>"
  have "fold_err (add_vnf_to_plan vs) (dr_placements r) plan = Inr ?q"
    by (rule add_vnfs_fresh) (use P assms(10) in \<open>auto simp: x\<close>)
  moreover have "add_routes_to_plan (dr_routes r) (dr_bw r) ?q
      = ?q\<lparr>flow_routes := flow_routes ?q @ dr_routes r,
           bw_allocations := bw_allocations ?q @ plan_bw (dr_routes r) (dr_bw r)\<rparr>"
    by (rule add_routes_fresh) (use P in \<open>auto simp: x\<close>)
  ultimately have step: "add_response_to_plan vs x plan = Inr ?p"
    by (simp add: add_response_to_plan_def x)
  have "fold_err (add_response_to_plan vs) resps ?p =
    Inr (?p\<lparr>vnf_placements := vnf_placements ?p @ all_placements resps,
              cpu_allocations := cpu_allocations ?p @ map (\<lambda>(v, n). (v, fst (slice_demand vs v))) (all_placements resps),
              ram_allocations := ram_allocations ?p @ map (\<lambda>(v, n). (v, snd (slice_demand vs v))) (all_placements resps),
              flow_routes := flow_routes ?p @ all_routes resps,
              bw_allocations := bw_allocations ?p @ all_plan_bw resps\<rparr>)"
  proof (rule Cons.IH)
    show "set (keys (all_placements resps)) \<inter> set (keys (vnf_placements ?p)) = {}"
      using P(1,3) unfolding x by (simp add: Int_Un_distrib Int_Un_distrib2 Int_commute image_Un)
    show "set (keys (all_routes resps)) \<inter> set (keys (flow_routes ?p)) = {}"
      using P(2,4) unfolding x by (simp add: Int_Un_distrib Int_Un_distrib2 Int_commute image_Un)
    show "keys (cpu_allocations ?p) = keys (vnf_placements ?p)"
      and "keys (ram_allocations ?p) = keys (vnf_placements ?p)"
      and "keys (bw_allocations ?p) = keys (flow_routes ?p)"
      using P(5,6,7) by (simp_all add: comp_def case_prod_unfold)
  qed (use P in \<open>auto simp: x\<close>)
  then show ?case using step by (simp add: x)
qed simp

lemma get_default_keyed:
  "v \<in> set (keys pl) \<Longrightarrow> get_default (map (\<lambda>(v, n). (v, g v)) pl) v x = g v"
  by (induction pl) (auto simp: get_default_def)

text \<open>Routes and bandwidths agree: what is charged per link is what was debited per flow.\<close>

lemma mset_plan_bw:
  assumes "distinct (keys rts)" and "distinct (keys bw)" and "set (keys bw) \<subseteq> set (keys rts)"
    and "\<forall>(fk, ls) \<in> set rts. fk \<notin> set (keys bw) \<longrightarrow> ls = []"
  shows "mset (concat (vals (plan_bw rts bw))) = mset (route_claims rts bw)"
proof -
  let ?f = "\<lambda>k. mset (claim_links (get_default rts k []) (get_default bw k 0))"
  have "mset (concat (vals (plan_bw rts bw))) = (\<Sum>x \<leftarrow> rts. ?f (fst x))"
  proof -
    have "mset (claim_links ls (get_default bw fk 0)) = ?f fk" if "(fk, ls) \<in> set rts" for fk ls
      using that assms(1) by (simp add: get_default_def)
    then have "map (\<lambda>(fk, ls). mset (claim_links ls (get_default bw fk 0))) rts = map (\<lambda>x. ?f (fst x)) rts"
      by auto
    moreover have "mset (concat (vals (plan_bw rts bw)))
        = sum_list (map (\<lambda>(fk, ls). mset (claim_links ls (get_default bw fk 0))) rts)"
      by (simp add: mset_concat comp_def case_prod_unfold)
    ultimately show ?thesis by (simp only:)
  qed
  also have "\<dots> = sum_list (map ?f (keys rts))" by (simp add: comp_def)
  also have "\<dots> = sum ?f (set (keys rts))"
    by (rule sum_list_distinct_conv_sum_set[OF assms(1)])
  also have "\<dots> = sum ?f (set (keys bw))"
  proof (rule sum.mono_neutral_right)
    show "\<forall>k \<in> set (keys rts) - set (keys bw). ?f k = {#}"
      using assms(1,4) by (fastforce simp: get_default_def)
  qed (use assms(3) in auto)
  also have "\<dots> = sum_list (map ?f (keys bw))"
    by (rule sum_list_distinct_conv_sum_set[OF assms(2), symmetric])
  also have "\<dots> = mset (route_claims rts bw)"
  proof -
    have "?f fk = mset (claim_links (get_default rts fk []) x)" if "(fk, x) \<in> set bw" for fk x
      using that assms(2) by (simp add: get_default_def)
    then have "map (\<lambda>x. ?f (fst x)) bw = map (\<lambda>(fk, x). mset (claim_links (get_default rts fk []) x)) bw"
      by auto
    moreover have "mset (route_claims rts bw)
        = sum_list (map (\<lambda>(fk, x). mset (claim_links (get_default rts fk []) x)) bw)"
      by (simp add: route_claims_def mset_concat comp_def case_prod_unfold)
    moreover have "sum_list (map ?f (keys bw)) = sum_list (map (\<lambda>x. ?f (fst x)) bw)"
      by (simp add: comp_def)
    ultimately show ?thesis by (simp only:)
  qed
  finally show ?thesis .
qed

section \<open>A committed trial\<close>

lemma distinct_concat_keyed:
  assumes "distinct (keys xs)" and "\<And>d r. (d, r) \<in> set xs \<Longrightarrow> distinct (f r)"
    and "\<And>d r d' r'. (d, r) \<in> set xs \<Longrightarrow> (d', r') \<in> set xs \<Longrightarrow> d \<noteq> d' \<Longrightarrow> set (f r) \<inter> set (f r') = {}"
  shows "distinct (concat (map (\<lambda>(d, r). f r) xs))"
  using assms
proof (induction xs)
  case (Cons x xs)
  obtain d r where x: "x = (d, r)" by (cases x)
  have "set (f r) \<inter> set (f r') = {}" if "(d', r') \<in> set xs" for d' r'
    using Cons.prems(1) that by (intro Cons.prems(3)[of d r d' r']) (auto simp: x rev_image_eqI)
  then have "set (f r) \<inter> set (concat (map (\<lambda>(d, r). f r) xs)) = {}" by fastforce
  moreover have "distinct (concat (map (\<lambda>(d, r). f r) xs))"
  proof (rule Cons.IH)
    show "distinct (keys xs)" using Cons.prems(1) by simp
    show "distinct (f r')" if "(d', r') \<in> set xs" for d' r'
      using Cons.prems(2)[of d' r'] that by simp
    show "set (f r1) \<inter> set (f r2) = {}" if "(d1, r1) \<in> set xs" "(d2, r2) \<in> set xs" "d1 \<noteq> d2" for d1 r1 d2 r2
      using Cons.prems(3)[of d1 r1 d2 r2] that by simp
  qed
  ultimately show ?case using Cons.prems(2)[of d r] by (simp add: x)
qed simp

lemma keys_concat: "keys (concat (map (\<lambda>(d, r). f r) xs)) = concat (map (\<lambda>(d, r). keys (f r)) xs)"
  by (simp add: map_concat comp_def case_prod_unfold)

lemma set_concat_keyed: "set (concat (map (\<lambda>(d, r). f r) xs)) = (\<Union>(d, r) \<in> set xs. set (f r))"
  by (induction xs) auto

lemma mset_concat_keyed:
  assumes "\<And>d r. (d, r) \<in> set xs \<Longrightarrow> mset (concat (vals (f r))) = mset (g r)"
  shows "mset (concat (vals (concat (map (\<lambda>(d, r). f r) xs)))) = mset (concat (map (\<lambda>(d, r). g r) xs))"
  using assms
proof (induction xs)
  case (Cons x xs)
  obtain d r where x: "x = (d, r)" by (cases x)
  have "mset (concat (vals (f r))) = mset (g r)" using Cons.prems[of d r] by (simp add: x)
  moreover have "mset (concat (vals (concat (map (\<lambda>(d, r). f r) xs)))) = mset (concat (map (\<lambda>(d, r). g r) xs))"
  proof (rule Cons.IH)
    show "mset (concat (vals (f r'))) = mset (g r')" if "(d', r') \<in> set xs" for d' r'
      by (rule Cons.prems[of d' r']) (use that in simp)
  qed
  ultimately show ?case by (simp add: x)
qed simp

lemma UN_fibres: "g ` {k. P k} \<subseteq> A \<Longrightarrow> (\<Union>d \<in> A. f ` {k. P k \<and> g k = d}) = f ` {k. P k}"
  by blast

lemma intra_not_crossing:
  assumes wf: "wf_graph S" and l: "l \<in> intra_links S d"
  shows "\<not> link_crosses S l \<and> l \<in> set (link_ids (g_edges S))"
proof -
  from l obtain u v e where e: "((u, v), e) \<in> set (g_edges (subgraph S (set (nodes_in_domain S d))))" "link_id e = l"
    by (auto simp: intra_links_def)
  then have m: "((u, v), e) \<in> set (g_edges S)" and uv: "u \<in> set (nodes_in_domain S d)" "v \<in> set (nodes_in_domain S d)"
    by (simp_all add: subgraph_edges)
  have "find_link l (g_edges S) = Some ((u, v), e)"
    using find_link_unique[OF _ m] wf e(2) by (simp add: wf_graph_def)
  moreover have "domain_of S u = d" "domain_of S v = d"
    using uv wf by (auto simp: nodes_in_domain_iff wf_graph_def domain_of_def)
  ultimately show ?thesis using m e(2) by (force simp: link_crosses_def crosses_def)
qed

lemma same_key:
  "distinct (map f xs) \<Longrightarrow> x \<in> set xs \<Longrightarrow> y \<in> set xs \<Longrightarrow> f x = f y \<Longrightarrow> x = y"
  by (simp add: distinct_map inj_on_def)

lemma plan_bw_value:
  assumes "(fk, per) \<in> set (plan_bw rts bw)" and "(l, x) \<in> set per" and "(fk, y) \<in> set bw" and "distinct (keys bw)"
  shows "x = y"
  using assms by (auto simp: get_default_def)


text \<open>What each response of a feasible dispatch says, by its domain.\<close>

definition served :: "substrate \<Rightarrow> (int, plan_fragment) dict \<Rightarrow> int \<Rightarrow> domain_response \<Rightarrow> bool" where
  "served S frags d r \<longleftrightarrow>
     (\<exists>f. (d, f) \<in> set frags \<and> distinct (keys (dr_placements r))
        \<and> set (keys (dr_placements r)) = va_id ` set (pf_vnfs f)
        \<and> set (vals (dr_placements r)) \<subseteq> set (nodes_in_domain S d)
        \<and> routes_ok S d (pf_flows f) (dr_routes r) (dr_bw r)
        \<and> fulfils S f r)"

lemma committed_frags:
  assumes "carried_out S req plan part t" and "\<not> any_infeasible (tr_responses t)" and "tr_cross_ok t"
  obtains frags cross where "build_fragments plan part req = Inr (frags, cross)"
    and "keys (tr_responses t) = py_set part"
    and "\<And>d r. (d, r) \<in> set (tr_responses t) \<Longrightarrow> served S frags d r"
    and "cross_inv (after_dispatch S req t) cross (cross_part t)"
    and "set (keys (tr_bw t)) = flow_key_of ` set cross"
    and "\<forall>fe \<in> set cross. cross_served (merge_placements (tr_responses t)) S (cross_part t) fe"
    and "tr_sub t = charge (resp_nodes (slice_demand (vnfs req)) (tr_responses t))
                       (resp_links (tr_responses t) @ route_claims (tr_routes t) (tr_bw t)) S"
proof -
  from assms(1) obtain frags cross where 1: "build_fragments plan part req = Inr (frags, cross)"
    and 2: "keys (tr_responses t) = py_set part"
    and di: "dispatched S (slice_demand (vnfs req)) frags (after_dispatch S req t, tr_responses t)"
    and 4: "cross_inv (after_dispatch S req t) cross (cross_part t)"
    and 5: "set (keys (tr_bw t)) = flow_key_of ` set cross"
    and 6: "\<forall>fe \<in> set cross. cross_served (merge_placements (tr_responses t)) S (cross_part t) fe"
    unfolding carried_out_def using assms(2,3) by blast
  from di have ok: "\<forall>(d, r) \<in> set (tr_responses t). response_ok S frags d r"
    unfolding dispatched_def prod.case by blast
  have 3: "served S frags d r" if "(d, r) \<in> set (tr_responses t)" for d r
  proof -
    have "dr_feasible r" using assms(2) that by (force simp: any_infeasible_def list_ex_iff)
    moreover have "response_ok S frags d r" using ok that by blast
    ultimately show ?thesis unfolding served_def response_ok_def by simp
  qed
  have "tr_sub t = charge (resp_nodes (slice_demand (vnfs req)) (tr_responses t))
                       (resp_links (tr_responses t) @ route_claims (tr_routes t) (tr_bw t)) S"
    using carried_out_trial_ok[OF assms(1)] unfolding trial_ok_def by blast
  from that[OF 1 2 3 4 5 6 this] show ?thesis .
qed

lemma routes_okD:
  assumes "routes_ok S m fes rts bw"
  shows "distinct (keys rts)" and "distinct (keys bw)" and "set (keys bw) \<subseteq> set (keys rts)"
    and "\<forall>(fk, ls) \<in> set rts. distinct ls \<and> set ls \<subseteq> intra_links S m"
    and "\<forall>(fk, ls) \<in> set rts. fk \<notin> set (keys bw) \<longrightarrow> ls = []"
    and "set (keys rts) \<subseteq> flow_key_of ` set fes"
    and "\<forall>(fk, x) \<in> set bw. \<exists>fe \<in> set fes. flow_key_of fe = fk \<and> bandwidth_demand fe = x"
proof -
  note A = assms[unfolded routes_ok_def]
  show "distinct (keys rts)" "distinct (keys bw)" "set (keys bw) \<subseteq> set (keys rts)"
    "set (keys rts) \<subseteq> flow_key_of ` set fes"
    "\<forall>(fk, x) \<in> set bw. \<exists>fe \<in> set fes. flow_key_of fe = fk \<and> bandwidth_demand fe = x"
    using A by - (elim conjE, assumption)+
  from A have B: "\<forall>(fk, ls) \<in> set rts. distinct ls \<and> set ls \<subseteq> intra_links S m
          \<and> (fk \<notin> set (keys bw) \<longrightarrow> ls = [])" by (elim conjE)
  then show "\<forall>(fk, ls) \<in> set rts. distinct ls \<and> set ls \<subseteq> intra_links S m" by blast
  from B show "\<forall>(fk, ls) \<in> set rts. fk \<notin> set (keys bw) \<longrightarrow> ls = []" by blast
qed

lemma served_routes:
  assumes "served S frags d r"
  obtains f where "(d, f) \<in> set frags" and "routes_ok S d (pf_flows f) (dr_routes r) (dr_bw r)"
    and "distinct (keys (dr_routes r))" and "set (keys (dr_routes r)) \<subseteq> flow_key_of ` set (pf_flows f)"
    and "\<forall>(fk, ls) \<in> set (dr_routes r). distinct ls \<and> set ls \<subseteq> intra_links S d"
proof -
  from assms obtain f where f: "(d, f) \<in> set frags" and ok: "routes_ok S d (pf_flows f) (dr_routes r) (dr_bw r)"
    unfolding served_def by blast
  from that[OF f ok routes_okD(1,6,4)[OF ok]] show ?thesis .
qed

text \<open>The VNFs of the request are the keys of the placements, each once.\<close>

lemma committed_placements:
  assumes req: "wf_request req" and fr: "build_fragments plan part req = Inr (frags, cross)"
    and ks: "keys resps = py_set part" and sv: "\<And>d r. (d, r) \<in> set resps \<Longrightarrow> served S frags d r"
  shows "distinct (keys (all_placements resps))"
    and "set (keys (all_placements resps)) = vnf_id ` set (vnfs req)"
    and "\<And>k n. k < length (vnfs req) \<Longrightarrow> (vnf_id (vnfs req ! k), n) \<in> set (all_placements resps) \<Longrightarrow>
           n \<in> set (nodes_in_domain S (part ! k))"
    and "\<forall>(v, n) \<in> set (all_placements resps). n \<in> set (keys (g_nodes S))"
proof -
  note F = build_fragments_spec[OF req fr]
  let ?vs = "vnfs req"
  have inj: "i = j" if "i < length ?vs" "j < length ?vs" "vnf_id (?vs ! i) = vnf_id (?vs ! j)" for i j
    using nth_eq_iff_index_eq[of "map vnf_id ?vs" i j] req that by (simp add: wf_request_def)
  have ids: "set (keys (dr_placements r)) = vnf_id ` (\<lambda>k. ?vs ! k) ` {k. k < length ?vs \<and> part ! k = d}"
    if "(d, r) \<in> set resps" for d r
  proof -
    from sv[OF that] obtain f where "(d, f) \<in> set frags" "set (keys (dr_placements r)) = va_id ` set (pf_vnfs f)"
      unfolding served_def by blast
    with F(2) show ?thesis unfolding fragment_of_def by simp
  qed
  have dk: "distinct (keys resps)" unfolding ks by simp
  show "distinct (keys (all_placements resps))"
    unfolding keys_concat
  proof (rule distinct_concat_keyed[OF dk])
    show "distinct (keys (dr_placements r))" if "(d, r) \<in> set resps" for d r
      using sv[OF that] unfolding served_def by blast
    show "set (keys (dr_placements r)) \<inter> set (keys (dr_placements r')) = {}"
      if "(d, r) \<in> set resps" "(d', r') \<in> set resps" "d \<noteq> d'" for d r d' r'
      unfolding ids[OF that(1)] ids[OF that(2)] using inj that(3) by blast
  qed
  have "set (keys (all_placements resps)) = (\<Union>(d, r) \<in> set resps. set (keys (dr_placements r)))"
    unfolding keys_concat by (rule set_concat_keyed)
  also have "\<dots> = (\<Union>(d, r) \<in> set resps. vnf_id ` (\<lambda>k. ?vs ! k) ` {k. k < length ?vs \<and> part ! k = d})"
  proof (rule SUP_cong[OF refl])
    fix x assume "x \<in> set resps"
    moreover obtain d r where x: "x = (d, r)" by (cases x)
    ultimately show "(case x of (d, r) \<Rightarrow> set (keys (dr_placements r)))
        = (case x of (d, r) \<Rightarrow> vnf_id ` (\<lambda>k. ?vs ! k) ` {k. k < length ?vs \<and> part ! k = d})"
      unfolding x prod.case by (intro ids) simp
  qed
  also have "\<dots> = (\<Union>d \<in> set (keys resps). vnf_id ` (\<lambda>k. ?vs ! k) ` {k. k < length ?vs \<and> part ! k = d})"
    by (simp add: case_prod_unfold)
  also have "\<dots> = (\<Union>d \<in> set part. vnf_id ` (\<lambda>k. ?vs ! k) ` {k. k < length ?vs \<and> part ! k = d})"
    by (simp only: ks set_py_set)
  also have "\<dots> = vnf_id ` set ?vs"
  proof -
    have "(\<lambda>k. part ! k) ` {k. k < length ?vs} \<subseteq> set part" using F(6) by auto
    moreover have "vnf_id ` set ?vs = (\<lambda>k. vnf_id (?vs ! k)) ` {k. k < length ?vs}"
      by (simp add: set_conv_nth image_Collect) metis
    ultimately show ?thesis by (simp only: image_image UN_fibres)
  qed
  finally show "set (keys (all_placements resps)) = vnf_id ` set ?vs" .
  have home: "\<exists>d r. (d, r) \<in> set resps \<and> (v, n) \<in> set (dr_placements r) \<and> n \<in> set (nodes_in_domain S d)"
    if "(v, n) \<in> set (all_placements resps)" for v n
  proof -
    from that obtain d r where dr: "(d, r) \<in> set resps" "(v, n) \<in> set (dr_placements r)" by auto
    moreover have "set (vals (dr_placements r)) \<subseteq> set (nodes_in_domain S d)"
      using sv[OF dr(1)] unfolding served_def by blast
    ultimately show ?thesis by force
  qed
  then show "\<forall>(v, n) \<in> set (all_placements resps). n \<in> set (keys (g_nodes S))"
    by (blast intro: nodes_in_domain_keys)
  show "n \<in> set (nodes_in_domain S (part ! k))"
    if k: "k < length ?vs" and m: "(vnf_id (?vs ! k), n) \<in> set (all_placements resps)" for k n
  proof -
    from home[OF m] obtain d r where dr: "(d, r) \<in> set resps" "(vnf_id (?vs ! k), n) \<in> set (dr_placements r)"
      "n \<in> set (nodes_in_domain S d)" by blast
    then have "vnf_id (?vs ! k) \<in> set (keys (dr_placements r))" by force
    then obtain j where "j < length ?vs" "part ! j = d" "vnf_id (?vs ! k) = vnf_id (?vs ! j)"
      unfolding ids[OF dr(1)] by auto
    with inj[OF k] dr(3) show ?thesis by blast
  qed
qed


text \<open>All routes of a committed trial, by flow; what they carry is the flow's demand.\<close>

lemma committed_routes:
  assumes req: "wf_request req" and fr: "build_fragments plan part req = Inr (frags, cross)"
    and ks: "keys resps = py_set part" and sv: "\<And>d r. (d, r) \<in> set resps \<Longrightarrow> served S frags d r"
    and cr: "cross_inv T cross \<kappa>"
  shows "distinct (keys (all_routes resps @ cs_routes \<kappa>))"
    and "\<forall>(fk, ls) \<in> set (all_routes resps). distinct ls \<and> (\<exists>d. set ls \<subseteq> intra_links S d)"
    and "\<And>fk per l x fe. (fk, per) \<in> set (all_plan_bw resps @ plan_bw (cs_routes \<kappa>) (cs_bw \<kappa>)) \<Longrightarrow>
           (l, x) \<in> set per \<Longrightarrow> fe \<in> set (flow_edges req) \<Longrightarrow> flow_key_of fe = fk \<Longrightarrow> x = bandwidth_demand fe"
    and "mset (concat (vals (all_plan_bw resps @ plan_bw (cs_routes \<kappa>) (cs_bw \<kappa>))))
         = mset (resp_links resps @ route_claims (cs_routes \<kappa>) (cs_bw \<kappa>))"
proof -
  note F = build_fragments_spec[OF req fr] and I = cross_invD[OF cr]
  have dk: "distinct (keys resps)" unfolding ks by simp
  have ok: "\<exists>f. (d, f) \<in> set frags \<and> routes_ok S d (pf_flows f) (dr_routes r) (dr_bw r)"
    if "(d, r) \<in> set resps" for d r
    using sv[OF that] unfolding served_def by blast
  have keysof: "\<exists>f. (d, f) \<in> set frags \<and> set (keys (dr_routes r)) \<subseteq> flow_key_of ` set (pf_flows f)"
    if "(d, r) \<in> set resps" for d r
    using ok[OF that] routes_okD(6) by blast
  have sub: "set (pf_flows f) \<subseteq> set (flow_edges req)" if "(d, f) \<in> set frags" for d f
    using F(2)[OF that] unfolding fragment_of_def by blast
  have d1: "distinct (keys (all_routes resps))"
    unfolding keys_concat
  proof (rule distinct_concat_keyed[OF dk])
    show "distinct (keys (dr_routes r))" if "(d, r) \<in> set resps" for d r
      using ok[OF that] routes_okD(1) by blast
    show "set (keys (dr_routes r)) \<inter> set (keys (dr_routes r')) = {}"
      if "(d, r) \<in> set resps" "(d', r') \<in> set resps" "d \<noteq> d'" for d r d' r'
      using keysof[OF that(1)] keysof[OF that(2)] F(8)[OF _ _ that(3)] by blast
  qed
  have "set (keys (all_routes resps)) \<inter> set (keys (cs_routes \<kappa>)) = {}"
  proof -
    have "set (keys (dr_routes r)) \<inter> set (keys (cs_routes \<kappa>)) = {}" if "(d, r) \<in> set resps" for d r
    proof -
      from keysof[OF that] obtain f where "(d, f) \<in> set frags"
        and s: "set (keys (dr_routes r)) \<subseteq> flow_key_of ` set (pf_flows f)" by blast
      from F(7)[OF this(1)] have "flow_key_of ` set (pf_flows f) \<inter> flow_key_of ` set cross = {}" .
      moreover have "set (keys (cs_routes \<kappa>)) \<subseteq> flow_key_of ` set cross" unfolding I(4) by (rule I(5))
      ultimately show ?thesis using s by blast
    qed
    then show ?thesis unfolding keys_concat set_concat_keyed by fast
  qed
  with d1 I(2) show dist: "distinct (keys (all_routes resps @ cs_routes \<kappa>))"
    unfolding map_append distinct_append by blast
  have one: "(\<exists>d. set ls \<subseteq> intra_links S d) \<and> distinct ls" if "(fk, ls) \<in> set (all_routes resps)" for fk ls
  proof -
    from that obtain d r where dr: "(d, r) \<in> set resps" "(fk, ls) \<in> set (dr_routes r)"
      unfolding set_concat_keyed by blast
    from ok[OF dr(1)] routes_okD(4) dr(2) show ?thesis by blast
  qed
  then show "\<forall>(fk, ls) \<in> set (all_routes resps). distinct ls \<and> (\<exists>d. set ls \<subseteq> intra_links S d)"
    by blast
  have carried: "x = bandwidth_demand fe"
    if a: "(fk, per) \<in> set (plan_bw rts bw)" "(l, x) \<in> set per" "fe \<in> set (flow_edges req)" "flow_key_of fe = fk"
      and b: "distinct (keys bw)" "\<forall>(fk, ls) \<in> set rts. fk \<notin> set (keys bw) \<longrightarrow> ls = []"
      and c: "\<forall>(fk, x) \<in> set bw. \<exists>fe \<in> set fes. flow_key_of fe = fk \<and> bandwidth_demand fe = x"
      and d: "set fes \<subseteq> set (flow_edges req)" for rts bw fes fk per l x fe
  proof -
    from a(1) obtain ls where ls: "(fk, ls) \<in> set rts" "per = claim_links ls (get_default bw fk 0)" by auto
    with a(2) have "ls \<noteq> []" by auto
    with b(2) ls(1) have "fk \<in> set (keys bw)" by blast
    then obtain y where y: "(fk, y) \<in> set bw" unfolding list.set_map by force
    have "x = y" by (rule plan_bw_value[OF a(1,2) y b(1)])
    moreover from bspec[OF c y] obtain fe' where fe': "fe' \<in> set fes" "flow_key_of fe' = fk" "bandwidth_demand fe' = y"
      unfolding prod.case by blast
    moreover have "fe' = fe"
    proof (rule same_key[of flow_key_of "flow_edges req"])
      show "distinct (map flow_key_of (flow_edges req))" using req by (simp add: wf_request_def)
    qed (use a(3,4) fe' d in auto)
    ultimately show ?thesis by simp
  qed
  show "x = bandwidth_demand fe"
    if per: "(fk, per) \<in> set (all_plan_bw resps @ plan_bw (cs_routes \<kappa>) (cs_bw \<kappa>))"
      and l: "(l, x) \<in> set per" and fe: "fe \<in> set (flow_edges req)" "flow_key_of fe = fk" for fk per l x fe
  proof -
    from per consider d r where "(d, r) \<in> set resps" "(fk, per) \<in> set (plan_bw (dr_routes r) (dr_bw r))"
      | "(fk, per) \<in> set (plan_bw (cs_routes \<kappa>) (cs_bw \<kappa>))"
      unfolding set_append set_concat_keyed by blast
    then show ?thesis
    proof cases
      case (1 d r)
      from ok[OF 1(1)] obtain f where f: "(d, f) \<in> set frags" and R: "routes_ok S d (pf_flows f) (dr_routes r) (dr_bw r)"
        by blast
      show ?thesis by (rule carried[OF 1(2) l fe routes_okD(2,5,7)[OF R] sub[OF f]])
    next
      case 2
      have "\<forall>(fk, ls) \<in> set (cs_routes \<kappa>). fk \<notin> set (keys (cs_bw \<kappa>)) \<longrightarrow> ls = []"
        unfolding I(4)[symmetric] by force
      from carried[OF 2 l fe I(3) this I(7) F(4)] show ?thesis .
    qed
  qed
  have m1: "mset (concat (vals (all_plan_bw resps))) = mset (resp_links resps)"
  proof -
    have "mset (concat (vals (plan_bw (dr_routes r) (dr_bw r)))) = mset (route_claims (dr_routes r) (dr_bw r))"
      if "(d, r) \<in> set resps" for d r
    proof -
      from ok[OF that] obtain f :: plan_fragment where R: "routes_ok S d (pf_flows f) (dr_routes r) (dr_bw r)" by blast
      show ?thesis by (rule mset_plan_bw[OF routes_okD(1,2,3,5)[OF R]])
    qed
    then show ?thesis by (rule mset_concat_keyed)
  qed
  have m2: "mset (concat (vals (plan_bw (cs_routes \<kappa>) (cs_bw \<kappa>)))) = mset (route_claims (cs_routes \<kappa>) (cs_bw \<kappa>))"
  proof (rule mset_plan_bw[OF I(2,3)])
    show "set (keys (cs_bw \<kappa>)) \<subseteq> set (keys (cs_routes \<kappa>))" using I(4) by blast
    show "\<forall>(fk, ls) \<in> set (cs_routes \<kappa>). fk \<notin> set (keys (cs_bw \<kappa>)) \<longrightarrow> ls = []"
      unfolding I(4)[symmetric] by force
  qed
  show "mset (concat (vals (all_plan_bw resps @ plan_bw (cs_routes \<kappa>) (cs_bw \<kappa>))))
         = mset (resp_links resps @ route_claims (cs_routes \<kappa>) (cs_bw \<kappa>))"
    unfolding map_append concat_append mset_append m1 m2 ..
qed

lemma merge_is_all:
  assumes "distinct (keys (all_placements resps))"
  shows "merge_placements resps = all_placements resps"
proof -
  have one: "fold (\<lambda>(v, n). AList.update v n) ps acc = acc @ ps" if "distinct (keys (acc @ ps))"
    for ps acc :: "(string, node_id) dict"
    using that
  proof (induction ps arbitrary: acc)
    case (Cons x ps)
    obtain v n where x: "x = (v, n)" by (cases x)
    have "v \<notin> set (keys acc)" using Cons.prems by (auto simp: x)
    then have "AList.update v n acc = acc @ [x]" unfolding x by (rule update_fresh)
    then show ?case using Cons by (simp add: x)
  qed simp
  have "fold (\<lambda>(d, r) pl. fold (\<lambda>(v, n). AList.update v n) (dr_placements r) pl) rs acc = acc @ all_placements rs"
    if "distinct (keys (acc @ all_placements rs))" for rs and acc :: "(string, node_id) dict"
    using that
  proof (induction rs arbitrary: acc)
    case (Cons x rs)
    obtain d r where x: "x = (d, r)" by (cases x)
    have "distinct (keys (acc @ dr_placements r))" using Cons.prems by (simp add: x Int_Un_distrib)
    then have "fold (\<lambda>(v, n). AList.update v n) (dr_placements r) acc = acc @ dr_placements r" by (rule one)
    moreover have "distinct (keys ((acc @ dr_placements r) @ all_placements rs))" using Cons.prems by (simp add: x)
    ultimately show ?case using Cons.IH[of "acc @ dr_placements r"] by (simp add: x)
  qed simp
  from this[of "[]" resps] assms show ?thesis by (simp add: merge_placements_def)
qed

lemma map_of_concat_keyed:
  assumes "distinct (keys (concat (map (\<lambda>(d, r). f r) xs)))" and "(d, r) \<in> set xs" and "map_of (f r) k = Some x"
  shows "map_of (concat (map (\<lambda>(d, r). f r) xs)) k = Some x"
  by (rule map_of_is_SomeI[OF assms(1)]) (use assms(2) map_of_SomeD[OF assms(3)] in \<open>unfold set_concat_keyed, blast\<close>)

text \<open>Every VNF is on a node its request permits.\<close>

lemma committed_permitted:
  assumes req: "wf_request req" and fr: "build_fragments plan part req = Inr (frags, cross)"
    and ks: "keys resps = py_set part" and sv: "\<And>d r. (d, r) \<in> set resps \<Longrightarrow> served S frags d r"
    and k: "k < length (vnfs req)" and n: "map_of (all_placements resps) (vnf_id (vnfs req ! k)) = Some n"
  shows "permitted_nodes (vnfs req ! k) = [] \<or> n \<in> set (permitted_nodes (vnfs req ! k))"
proof -
  note F = build_fragments_spec[OF req fr]
  let ?v = "vnf_id (vnfs req ! k)"
  from map_of_SomeD[OF n] obtain d r where dr: "(d, r) \<in> set resps" "(?v, n) \<in> set (dr_placements r)"
    unfolding set_concat_keyed by blast
  from sv[OF dr(1)] obtain f where f: "(d, f) \<in> set frags" "distinct (keys (dr_placements r))"
    "set (keys (dr_placements r)) = va_id ` set (pf_vnfs f)" "fulfils S f r"
    unfolding served_def by blast
  have m: "map_of (dr_placements r) ?v = Some n" by (rule map_of_is_SomeI[OF f(2) dr(2)])
  have "?v \<in> set (keys (dr_placements r))" using dr(2) by force
  then obtain a where a: "a \<in> set (pf_vnfs f)" "va_id a = ?v" unfolding f(3) by auto
  with F(2)[OF f(1)] obtain j where j: "j < length (vnfs req)" "?v = vnf_id (vnfs req ! j)"
    "va_permitted a = permitted_nodes (vnfs req ! j)"
    unfolding fragment_of_def by metis
  have "j = k" using nth_eq_iff_index_eq[of "map vnf_id (vnfs req)" j k] req j(1,2) k by (simp add: wf_request_def)
  with f(4) a m j(3) show ?thesis unfolding fulfils_def permitted_placement_def by metis
qed

text \<open>
  A flow of the request as the committed plan carries it: a route that leads from the node of its source to
  the node of its target, with the full demand reserved on every link.
\<close>

definition flow_carried :: "substrate \<Rightarrow> placement_plan \<Rightarrow> flow_edge \<Rightarrow> bool" where
  "flow_carried S plan fe \<longleftrightarrow>
     (\<exists>s d ls. map_of (vnf_placements plan) (source_vnf fe) = Some s
        \<and> map_of (vnf_placements plan) (target_vnf fe) = Some d
        \<and> map_of (flow_routes plan) (flow_key_of fe) = Some ls \<and> joins S s d ls
        \<and> map_of (bw_allocations plan) (flow_key_of fe) = Some (claim_links ls (bandwidth_demand fe)))"


section \<open>The plan of a committed trial\<close>

definition plan_of :: "slice_request \<Rightarrow> trial \<Rightarrow> placement_plan" where
  "plan_of req t =
     (let pl = all_placements (tr_responses t) in
      \<lparr>plan_id = request_id req @ ''_mdo'', vnf_placements = pl,
       cpu_allocations = map (\<lambda>(v, n). (v, fst (slice_demand (vnfs req) v))) pl,
       ram_allocations = map (\<lambda>(v, n). (v, snd (slice_demand (vnfs req) v))) pl,
       flow_routes = all_routes (tr_responses t) @ tr_routes t,
       bw_allocations = all_plan_bw (tr_responses t) @ plan_bw (tr_routes t) (tr_bw t),
       structurally_valid = True, plan_source = ''mdo''\<rparr>)"

lemma build_plan_of:
  assumes req: "wf_request req" and c: "carried_out S req ps part t"
    and ok: "\<not> any_infeasible (tr_responses t)" "tr_cross_ok t"
    and r: "mr_responses r = tr_responses t" "mr_cross_routes r = tr_routes t" "mr_cross_bw r = tr_bw t"
  shows "build_placement_plan req r = Inr (Some (plan_of req t))"
  using c ok
proof (rule committed_frags)
  fix frags cross
  assume fr: "build_fragments ps part req = Inr (frags, cross)" and ks: "keys (tr_responses t) = py_set part"
    and sv: "\<And>d r. (d, r) \<in> set (tr_responses t) \<Longrightarrow> served S frags d r"
    and cr: "cross_inv (after_dispatch S req t) cross (cross_part t)"
  let ?R = "tr_responses t"
  let ?P0 = "empty_plan (request_id req @ ''_mdo'')"
  note PL = committed_placements[OF req fr ks sv]
  note RT = committed_routes[OF req fr ks sv cr, unfolded cross_state.simps]
  note I = cross_invD[OF cr, unfolded cross_state.simps]
  have rd: "distinct (keys (all_routes ?R))" "set (keys (all_routes ?R)) \<inter> set (keys (tr_routes t)) = {}"
    using RT(1) unfolding map_append distinct_append by blast+
  have "\<forall>(fk, ls) \<in> set (all_routes ?R). distinct ls" using RT(2) by blast
  moreover have "set (keys (all_placements ?R)) \<subseteq> vnf_id ` set (vnfs req)" using PL(2) by blast
  moreover have "distinct (map vnf_id (vnfs req))" using req by (simp add: wf_request_def)
  ultimately have "fold_err (add_response_to_plan (vnfs req)) ?R ?P0 =
    Inr (?P0\<lparr>vnf_placements := vnf_placements ?P0 @ all_placements ?R,
              cpu_allocations := cpu_allocations ?P0 @ map (\<lambda>(v, n). (v, fst (slice_demand (vnfs req) v))) (all_placements ?R),
              ram_allocations := ram_allocations ?P0 @ map (\<lambda>(v, n). (v, snd (slice_demand (vnfs req) v))) (all_placements ?R),
              flow_routes := flow_routes ?P0 @ all_routes ?R,
              bw_allocations := bw_allocations ?P0 @ all_plan_bw ?R\<rparr>)" (is "_ = Inr ?P1")
    by (intro add_responses_fresh[OF PL(1) rd(1)]) (simp_all add: empty_plan_def)
  moreover have "add_routes_to_plan (tr_routes t) (tr_bw t) ?P1
      = ?P1\<lparr>flow_routes := flow_routes ?P1 @ tr_routes t,
            bw_allocations := bw_allocations ?P1 @ plan_bw (tr_routes t) (tr_bw t)\<rparr>"
  proof (rule add_routes_fresh[OF I(2)])
    show "\<forall>(fk, ls) \<in> set (tr_routes t). distinct ls" using I(6) by blast
    show "set (keys (tr_routes t)) \<inter> set (keys (flow_routes ?P1)) = {}"
      using rd(2) unfolding empty_plan_def by (simp only: placement_plan.simps append_Nil Int_commute)
    show "keys (bw_allocations ?P1) = keys (flow_routes ?P1)"
      by (simp add: empty_plan_def map_concat comp_def case_prod_unfold)
  qed
  moreover have "\<dots> = plan_of req t" by (simp add: plan_of_def empty_plan_def Let_def)
  moreover have "\<not> list_ex (\<lambda>v. vnf_id v \<notin> set (keys (vnf_placements (plan_of req t)))) (vnfs req)"
    using PL(2) unfolding list_ex_iff plan_of_def Let_def placement_plan.simps by blast
  ultimately show ?thesis
    unfolding build_placement_plan_def r by (simp only: sum.case Let_def if_False)
qed

text \<open>It puts every VNF where the partition and the request want it.\<close>

lemma committed_nodes:
  assumes req: "wf_request req" and c: "carried_out S req ps part t"
    and ok: "\<not> any_infeasible (tr_responses t)" "tr_cross_ok t"
  shows "\<forall>k < length (vnfs req). \<exists>n. map_of (vnf_placements (plan_of req t)) (vnf_id (vnfs req ! k)) = Some n
          \<and> n \<in> set (nodes_in_domain S (part ! k))
          \<and> (permitted_nodes (vnfs req ! k) = [] \<or> n \<in> set (permitted_nodes (vnfs req ! k)))"
  using c ok
proof (rule committed_frags, intro allI impI)
  fix frags cross k
  assume fr: "build_fragments ps part req = Inr (frags, cross)" and ks: "keys (tr_responses t) = py_set part"
    and sv: "\<And>d r. (d, r) \<in> set (tr_responses t) \<Longrightarrow> served S frags d r" and k: "k < length (vnfs req)"
  note PL = committed_placements[OF req fr ks]
  let ?pl = "all_placements (tr_responses t)"
  have "set (keys ?pl) = vnf_id ` set (vnfs req)" by (rule PL(2)) (rule sv)
  then have "vnf_id (vnfs req ! k) \<in> set (keys ?pl)" using k by simp
  then obtain n where n: "map_of ?pl (vnf_id (vnfs req ! k)) = Some n"
    unfolding list.set_map key_iff by blast
  then have "n \<in> set (nodes_in_domain S (part ! k))"
    by (intro PL(3)[OF _ k map_of_SomeD]) (rule sv)
  moreover have "permitted_nodes (vnfs req ! k) = [] \<or> n \<in> set (permitted_nodes (vnfs req ! k))"
    by (rule committed_permitted[OF req fr ks _ k n]) (rule sv)
  moreover have "vnf_placements (plan_of req t) = ?pl" by (simp add: plan_of_def Let_def)
  ultimately show "\<exists>n. map_of (vnf_placements (plan_of req t)) (vnf_id (vnfs req ! k)) = Some n
          \<and> n \<in> set (nodes_in_domain S (part ! k))
          \<and> (permitted_nodes (vnfs req ! k) = [] \<or> n \<in> set (permitted_nodes (vnfs req ! k)))"
    using n by simp
qed

text \<open>It carries every flow.\<close>

lemma keys_plan_bw: "keys (plan_bw rts bw) = keys rts"
  by (simp add: comp_def case_prod_unfold)

lemma map_of_plan_bw:
  "map_of (plan_bw rts bw) fk = map_option (\<lambda>ls. claim_links ls (get_default bw fk 0)) (map_of rts fk)"
  by (induction rts) auto

lemma map_of_appendL: "map_of xs k = Some x \<Longrightarrow> map_of (xs @ ys) k = Some x"
  by simp

lemma map_of_appendR: "distinct (keys (xs @ ys)) \<Longrightarrow> map_of ys k = Some x \<Longrightarrow> map_of (xs @ ys) k = Some x"
  by (rule map_of_is_SomeI) (auto dest: map_of_SomeD)

lemma committed_flows:
  assumes req: "wf_request req" and c: "carried_out S req ps part t"
    and ok: "\<not> any_infeasible (tr_responses t)" "tr_cross_ok t"
    and dt: "distinct (map target_vnf (flow_edges req))" and fe: "fe \<in> set (flow_edges req)"
  shows "flow_carried S (plan_of req t) fe"
  using c ok
proof (rule committed_frags)
  fix frags cross
  assume fr: "build_fragments ps part req = Inr (frags, cross)" and ks: "keys (tr_responses t) = py_set part"
    and sv: "\<And>d r. (d, r) \<in> set (tr_responses t) \<Longrightarrow> served S frags d r"
    and cr: "cross_inv (after_dispatch S req t) cross (cross_part t)"
    and cs: "\<forall>fe \<in> set cross. cross_served (merge_placements (tr_responses t)) S (cross_part t) fe"
  let ?R = "tr_responses t"
  note F = build_fragments_spec[OF req fr]
  have PL: "distinct (keys (all_placements ?R))"
    by (rule committed_placements(1)[OF req fr ks]) (rule sv)
  have RT: "distinct (keys (all_routes ?R @ tr_routes t))"
    by (rule committed_routes(1)[OF req fr ks _ cr, unfolded cross_state.simps]) (rule sv)
  have P: "vnf_placements (plan_of req t) = all_placements ?R"
    "flow_routes (plan_of req t) = all_routes ?R @ tr_routes t"
    "bw_allocations (plan_of req t) = all_plan_bw ?R @ plan_bw (tr_routes t) (tr_bw t)"
    by (simp_all add: plan_of_def Let_def)
  have kb: "keys (all_plan_bw ?R) = keys (all_routes ?R)" by (simp only: keys_concat keys_plan_bw)
  have dr: "distinct (keys (all_routes ?R))" using RT unfolding map_append distinct_append by blast
  have db: "distinct (keys (all_plan_bw ?R))" "distinct (keys (all_plan_bw ?R @ plan_bw (tr_routes t) (tr_bw t)))"
    using RT dr unfolding map_append kb keys_plan_bw by blast+
  show ?thesis
  proof (cases "fe \<in> set cross")
    case True
    with cs obtain s d ls where c: "map_of (all_placements ?R) (source_vnf fe) = Some s"
      "map_of (all_placements ?R) (target_vnf fe) = Some d"
      "map_of (tr_routes t) (flow_key_of fe) = Some ls" "joins S s d ls"
      "map_of (tr_bw t) (flow_key_of fe) = Some (bandwidth_demand fe)"
      unfolding cross_served_def merge_is_all[OF PL] cross_state.simps by blast
    have "map_of (all_routes ?R @ tr_routes t) (flow_key_of fe) = Some ls"
      by (rule map_of_appendR[OF RT c(3)])
    moreover have "map_of (all_plan_bw ?R @ plan_bw (tr_routes t) (tr_bw t)) (flow_key_of fe)
        = Some (claim_links ls (bandwidth_demand fe))"
    proof (rule map_of_appendR[OF db(2)])
      show "map_of (plan_bw (tr_routes t) (tr_bw t)) (flow_key_of fe) = Some (claim_links ls (bandwidth_demand fe))"
        unfolding map_of_plan_bw by (simp add: c(3,5) get_default_def)
    qed
    ultimately show ?thesis unfolding flow_carried_def P using c(1,2,4) by blast
  next
    case False
    with F(9)[OF fe] obtain d f where f: "(d, f) \<in> set frags" "fe \<in> set (pf_flows f)" and e: "ends_in (vnfs req) part d fe"
      by blast
    have "d \<in> set (keys frags)" using f(1) by force
    then have "d \<in> set (keys ?R)" by (simp only: F(1) ks)
    then obtain r where r: "(d, r) \<in> set ?R" by auto
    from sv[OF r] obtain f' where f': "(d, f') \<in> set frags" "distinct (keys (dr_placements r))"
      "set (keys (dr_placements r)) = va_id ` set (pf_vnfs f')" "fulfils S f' r"
      unfolding served_def by blast
    have "distinct (keys frags)" by (simp only: F(1) distinct_py_set)
    then have ff: "f' = f" using f(1) f'(1) by (metis eq_key_imp_eq_value)
    have FO: "va_id ` set (pf_vnfs f) = vnf_id ` (\<lambda>k. vnfs req ! k) ` {k. k < length (vnfs req) \<and> part ! k = d}"
      "distinct (map target_vnf (pf_flows f))"
      using F(2)[OF f(1)] dt by (simp_all add: fragment_of_def)
    have "set (keys (dr_placements r)) = vnf_id ` (\<lambda>k. vnfs req ! k) ` {k. k < length (vnfs req) \<and> part ! k = d}"
      by (simp only: f'(3) ff FO(1))
    with e have "source_vnf fe \<in> set (keys (dr_placements r))" "target_vnf fe \<in> set (keys (dr_placements r))"
      unfolding ends_in_def by force+
    then obtain s n where sn: "map_of (dr_placements r) (source_vnf fe) = Some s"
      "map_of (dr_placements r) (target_vnf fe) = Some n"
      unfolding list.set_map key_iff by blast
    have "serves_flows S r (pf_flows f)" using FO(2) f'(4) by (simp add: fulfils_def ff)
    with f(2) sn obtain ls where ls: "map_of (dr_routes r) (flow_key_of fe) = Some ls" "joins S s n ls"
      "s = n \<longrightarrow> ls = []" "s \<noteq> n \<longrightarrow> map_of (dr_bw r) (flow_key_of fe) = Some (bandwidth_demand fe)"
      unfolding serves_flows_def by blast
    have "map_of (all_routes ?R @ tr_routes t) (flow_key_of fe) = Some ls"
      by (rule map_of_appendL[OF map_of_concat_keyed[OF dr r ls(1)]])
    moreover have "map_of (plan_bw (dr_routes r) (dr_bw r)) (flow_key_of fe) = Some (claim_links ls (bandwidth_demand fe))"
      unfolding map_of_plan_bw ls(1) using ls(3,4) by (cases "s = n") (simp_all add: get_default_def)
    then have "map_of (all_plan_bw ?R @ plan_bw (tr_routes t) (tr_bw t)) (flow_key_of fe)
        = Some (claim_links ls (bandwidth_demand fe))"
      by (rule map_of_appendL[OF map_of_concat_keyed[OF db(1) r]])
    ultimately show ?thesis
      unfolding flow_carried_def P using map_of_concat_keyed[OF PL r] sn ls(2) by blast
  qed
qed

text \<open>Its claims are the charges of the trial.\<close>

lemma plan_of_claims:
  assumes req: "wf_request req" and c: "carried_out S req ps part t"
    and ok: "\<not> any_infeasible (tr_responses t)" "tr_cross_ok t"
  shows "charge (node_claims (plan_of req t)) (link_claims (plan_of req t)) S = tr_sub t"
    and "plan_resolves (plan_of req t) S"
    and "\<forall>(v, n) \<in> set (vnf_placements (plan_of req t)). n \<in> set (keys (g_nodes S)) \<and> v \<in> vnf_id ` set (vnfs req)"
  using c ok
proof (atomize (full), rule committed_frags)
  fix frags cross
  assume fr: "build_fragments ps part req = Inr (frags, cross)" and ks: "keys (tr_responses t) = py_set part"
    and sv: "\<And>d r. (d, r) \<in> set (tr_responses t) \<Longrightarrow> served S frags d r"
    and cr: "cross_inv (after_dispatch S req t) cross (cross_part t)"
    and sub: "tr_sub t = charge (resp_nodes (slice_demand (vnfs req)) (tr_responses t))
                       (resp_links (tr_responses t) @ route_claims (tr_routes t) (tr_bw t)) S"
  note PL = committed_placements[OF req fr ks sv]
  note RT = committed_routes[OF req fr ks sv cr, unfolded cross_state.simps]
  let ?R = "tr_responses t" and ?P = "plan_of req t" and ?dem = "slice_demand (vnfs req)"
  let ?pl = "all_placements ?R"
  have gd: "get_default (map (\<lambda>(v, n). (v, g v)) ?pl) v 0 = g v" if "(v, n) \<in> set ?pl" for v n and g :: "string \<Rightarrow> real"
    by (rule get_default_keyed) (use that in force)
  have "node_claims ?P = map (\<lambda>(v, n). (n, fst (?dem v), snd (?dem v))) ?pl"
    unfolding node_claims_def plan_of_def Let_def placement_plan.simps
    by (rule map_cong[OF refl]) (auto simp only: gd split: prod.splits)
  also have "\<dots> = resp_nodes ?dem ?R" by (simp add: map_concat comp_def case_prod_unfold)
  finally have n: "node_claims ?P = resp_nodes ?dem ?R" .
  have l: "mset (link_claims ?P) = mset (resp_links ?R @ route_claims (tr_routes t) (tr_bw t))"
    using RT(4) by (simp only: link_claims_def plan_of_def Let_def placement_plan.simps)
  have "charge (node_claims ?P) (link_claims ?P) S = tr_sub t"
    unfolding sub n by (rule charge_mset[OF refl l])
  moreover have "plan_resolves ?P S"
    using PL(4) unfolding plan_resolves_def plan_of_def Let_def placement_plan.simps by force
  moreover have "\<forall>(v, n) \<in> set (vnf_placements ?P). n \<in> set (keys (g_nodes S)) \<and> v \<in> vnf_id ` set (vnfs req)"
  proof -
    have "v \<in> set (keys ?pl)" if "(v, n) \<in> set ?pl" for v n using that by force
    moreover have "set (keys ?pl) = vnf_id ` set (vnfs req)" using PL(2) by blast
    moreover have "\<forall>(v, n) \<in> set ?pl. n \<in> set (keys (g_nodes S))" using PL(4) by blast
    ultimately show ?thesis unfolding plan_of_def Let_def placement_plan.simps by blast
  qed
  ultimately show "charge (node_claims ?P) (link_claims ?P) S = tr_sub t \<and> plan_resolves ?P S
     \<and> (\<forall>(v, n) \<in> set (vnf_placements ?P). n \<in> set (keys (g_nodes S)) \<and> v \<in> vnf_id ` set (vnfs req))"
    by (intro conjI)
qed


text \<open>Demands that are not negative make claims that are not negative.\<close>

definition nonneg_request :: "slice_request \<Rightarrow> bool" where
  "nonneg_request req \<longleftrightarrow>
     (\<forall>v \<in> set (vnfs req). 0 \<le> cpu_demand v \<and> 0 \<le> ram_demand v)
     \<and> (\<forall>fe \<in> set (flow_edges req). 0 \<le> bandwidth_demand fe)"

definition nonneg_plan :: "placement_plan \<Rightarrow> bool" where
  "nonneg_plan plan \<longleftrightarrow>
     (\<forall>(n, c, r) \<in> set (node_claims plan). 0 \<le> c \<and> 0 \<le> r) \<and> (\<forall>(l, x) \<in> set (link_claims plan). 0 \<le> x)"

lemma get_default_nonneg:
  "(\<And>v. 0 \<le> g v) \<Longrightarrow> 0 \<le> get_default (map (\<lambda>(v, n). (v, g v)) pl) k (0 :: real)"
  by (induction pl) (auto simp: get_default_def)

lemma route_claims_value: "(l, x) \<in> set (route_claims rts bw) \<Longrightarrow> \<exists>fk. (fk, x) \<in> set bw"
  by (auto simp: route_claims_def)

lemma plan_of_nonneg:
  assumes req: "wf_request req" and c: "carried_out S req ps part t"
    and ok: "\<not> any_infeasible (tr_responses t)" "tr_cross_ok t" and nn: "nonneg_request req"
  shows "nonneg_plan (plan_of req t)"
  using c ok
proof (rule committed_frags)
  fix frags cross
  assume fr: "build_fragments ps part req = Inr (frags, cross)" and ks: "keys (tr_responses t) = py_set part"
    and sv: "\<And>d r. (d, r) \<in> set (tr_responses t) \<Longrightarrow> served S frags d r"
    and cr: "cross_inv (after_dispatch S req t) cross (cross_part t)"
  note RT = committed_routes[OF req fr ks sv cr, unfolded cross_state.simps]
  note I = cross_invD[OF cr, unfolded cross_state.simps] and F = build_fragments_spec[OF req fr]
  have demand: "0 \<le> fst (slice_demand (vnfs req) v) \<and> 0 \<le> snd (slice_demand (vnfs req) v)" for v
    using nn by (cases "map_of (map (\<lambda>v. (vnf_id v, cpu_demand v, ram_demand v)) (vnfs req)) v")
      (auto simp: slice_demand_def get_default_def nonneg_request_def dest!: map_of_SomeD)
  have "\<forall>(n, c, r) \<in> set (node_claims (plan_of req t)). 0 \<le> c \<and> 0 \<le> r"
    using demand by (auto simp: node_claims_def plan_of_def Let_def intro!: get_default_nonneg)
  moreover have "0 \<le> x" if "(l, x) \<in> set (link_claims (plan_of req t))" for l x
  proof -
    have "mset (link_claims (plan_of req t)) = mset (resp_links (tr_responses t) @ route_claims (tr_routes t) (tr_bw t))"
      using RT(4) by (simp only: link_claims_def plan_of_def Let_def placement_plan.simps)
    from mset_eq_setD[OF this] that have
      "(l, x) \<in> set (resp_links (tr_responses t)) \<or> (l, x) \<in> set (route_claims (tr_routes t) (tr_bw t))"
      unfolding set_append by blast
    then have "\<exists>fe \<in> set (flow_edges req). bandwidth_demand fe = x"
    proof
      assume "(l, x) \<in> set (resp_links (tr_responses t))"
      then obtain d r where dr: "(d, r) \<in> set (tr_responses t)" "(l, x) \<in> set (route_claims (dr_routes r) (dr_bw r))"
        unfolding set_concat_keyed by blast
      from sv[OF dr(1)] obtain f where f: "(d, f) \<in> set frags" and R: "routes_ok S d (pf_flows f) (dr_routes r) (dr_bw r)"
        unfolding served_def by blast
      from route_claims_value[OF dr(2)] obtain fk where "(fk, x) \<in> set (dr_bw r)" by blast
      from bspec[OF routes_okD(7)[OF R] this] obtain fe where "fe \<in> set (pf_flows f)" "bandwidth_demand fe = x"
        unfolding prod.case by blast
      moreover have "set (pf_flows f) \<subseteq> set (flow_edges req)" using F(2)[OF f] unfolding fragment_of_def by blast
      ultimately show ?thesis by blast
    next
      assume "(l, x) \<in> set (route_claims (tr_routes t) (tr_bw t))"
      from route_claims_value[OF this] obtain fk where "(fk, x) \<in> set (tr_bw t)" by blast
      from bspec[OF I(7) this] F(4) show ?thesis unfolding prod.case by blast
    qed
    then show ?thesis using nn by (auto simp: nonneg_request_def)
  qed
  ultimately show ?thesis unfolding nonneg_plan_def by blast
qed

section \<open>The verdict on the plan of a committed trial\<close>

text \<open>The topology generator's typing: the edges that cross a domain border are the inter-domain ones.\<close>

definition typed_links :: "'a graph_scheme \<Rightarrow> bool" where
  "typed_links g \<longleftrightarrow> (\<forall>(e, d) \<in> set (g_edges g). link_type d = InterLink \<longleftrightarrow> crosses g e)"

lemma typed_find_link:
  assumes "typed_links g" and "find_link l (g_edges g) = Some (e, d)"
  shows "link_type d = InterLink \<longleftrightarrow> link_crosses g l"
  using assms find_link_Some[OF assms(2)] by (auto simp: typed_links_def link_crosses_def)

lemma typed_charge:
  assumes "wf_graph S" and "typed_links S"
  shows "typed_links (charge ns ls S)"
proof -
  have ids: "distinct (link_ids (g_edges S))" using assms(1) by (simp add: wf_graph_def)
  show ?thesis
    using assms(2) unfolding typed_links_def edges_charge[OF ids]
    by (auto simp: crosses_def domain_of_charge)
qed

lemma count_typed:
  assumes wf: "wf_graph g" and ty: "typed_links g" and ls: "set ls \<subseteq> set (link_ids (g_edges g))"
  shows "count_inter g ls k = Inr (k + length (filter (link_crosses g) ls))"
proof -
  have "(\<exists>e d. find_link l (g_edges g) = Some (e, d) \<and> link_type d = InterLink) = link_crosses g l"
    if l: "l \<in> set ls" for l
  proof -
    obtain e d where f: "find_link l (g_edges g) = Some (e, d)"
      using link_edge_total[OF wf, of l] ls l by blast
    with typed_find_link[OF ty f] show ?thesis by simp
  qed
  then have "filter (\<lambda>l. \<exists>e d. find_link l (g_edges g) = Some (e, d) \<and> link_type d = InterLink) ls
      = filter (link_crosses g) ls" by (intro filter_cong[OF refl]) 
  with count_inter_total[OF wf ls] show ?thesis by simp
qed

lemma get_default_mem: "p \<in> set (get_default d k []) \<Longrightarrow> \<exists>xs. (k, xs) \<in> set d \<and> p \<in> set xs"
  by (cases "map_of d k") (auto simp: get_default_def dest: map_of_SomeD)

lemma length_filter_concat: "length (filter P (concat (vals rts))) = (\<Sum>(fk, ls) \<leftarrow> rts. length (filter P ls))"
  by (induction rts) (auto simp: filter_concat)

lemma trial_hops:
  assumes wf: "wf_graph S" and c: "carried_out S req ps part t"
  shows "length (filter (link_crosses S) (concat (vals (tr_routes t)))) = tr_hops t"
proof -
  from c obtain cross where "cross_inv (after_dispatch S req t) cross (cross_part t)"
    unfolding carried_out_def by blast
  note I = cross_invD[OF this, unfolded cross_state.simps]
  have "link_crosses (after_dispatch S req t) = link_crosses S" by (rule link_crosses_charge[OF wf])
  then show ?thesis using I(9) by (simp only: length_filter_concat)
qed

lemma plan_of_hops:
  assumes wf: "wf_graph S" and req: "wf_request req" and c: "carried_out S req ps part t"
    and ok: "\<not> any_infeasible (tr_responses t)" "tr_cross_ok t" and ty: "typed_links S"
  shows "count_plan_hops (tr_sub t) (plan_of req t) = Inr (tr_hops t)"
    and "\<forall>(fk, ls) \<in> set (flow_routes (plan_of req t)). set ls \<subseteq> set (link_ids (g_edges S))"
    and "\<not> snd (check_c5b req (plan_of req t))"
  using c ok
proof (atomize (full), rule committed_frags)
  fix frags cross
  assume fr: "build_fragments ps part req = Inr (frags, cross)" and ks: "keys (tr_responses t) = py_set part"
    and sv: "\<And>d r. (d, r) \<in> set (tr_responses t) \<Longrightarrow> served S frags d r"
    and cr: "cross_inv (after_dispatch S req t) cross (cross_part t)"
    and sub: "tr_sub t = charge (resp_nodes (slice_demand (vnfs req)) (tr_responses t))
                       (resp_links (tr_responses t) @ route_claims (tr_routes t) (tr_bw t)) S"
  note RT = committed_routes[OF req fr ks sv cr, unfolded cross_state.simps]
  note I = cross_invD[OF cr, unfolded cross_state.simps]
  let ?R = "tr_responses t" and ?P = "plan_of req t"
  have fl: "flow_routes ?P = all_routes ?R @ tr_routes t"
    by (simp add: plan_of_def Let_def)
  have intra: "\<not> link_crosses S l \<and> l \<in> set (link_ids (g_edges S))"
    if "(fk, ls) \<in> set (all_routes ?R)" "l \<in> set ls" for fk ls l
  proof -
    from bspec[OF RT(2) that(1)] obtain d where "set ls \<subseteq> intra_links S d" unfolding prod.case by blast
    with that(2) show ?thesis by (intro intra_not_crossing[OF wf]) blast
  qed
  have cross: "set ls \<subseteq> set (link_ids (g_edges S))" if "(fk, ls) \<in> set (tr_routes t)" for fk ls
    using bspec[OF I(6) that] unfolding prod.case link_ids_charge by blast
  have links: "\<forall>(fk, ls) \<in> set (flow_routes ?P). set ls \<subseteq> set (link_ids (g_edges S))"
    unfolding fl set_append using intra cross by blast
  have "set (concat (vals (flow_routes ?P))) \<subseteq> set (link_ids (g_edges S))"
    using links by fastforce
  then have "count_plan_hops (tr_sub t) ?P = Inr (0 + length (filter (link_crosses (tr_sub t)) (concat (vals (flow_routes ?P)))))"
    unfolding count_plan_hops_def sub
    by (intro count_typed typed_charge wf ty) (simp_all only: wf_charge wf link_ids_charge)
  also have "link_crosses (tr_sub t) = link_crosses S" unfolding sub by (rule link_crosses_charge[OF wf])
  also have "length (filter (link_crosses S) (concat (vals (flow_routes ?P)))) = tr_hops t"
  proof -
    have "tr_hops t = length (filter (link_crosses S) (concat (vals (tr_routes t))))"
      by (rule trial_hops[OF wf c, symmetric])
    moreover have "filter (link_crosses S) (concat (vals (all_routes ?R))) = []"
      unfolding filter_empty_conv using intra by fastforce
    ultimately show ?thesis by (simp only: fl map_append concat_append filter_append append_Nil)
  qed
  finally have hops: "count_plan_hops (tr_sub t) ?P = Inr (tr_hops t)" by simp
  have "\<not> snd (check_c5b req ?P)"
  proof (rule check_c5b_met, intro ballI)
    fix fe p assume fe: "fe \<in> set (flow_edges req)"
      and p: "p \<in> set (get_default (bw_allocations ?P) (flow_key_of fe) [])"
    obtain l x where lx: "p = (l, x)" by (cases p)
    let ?B = "all_plan_bw ?R @ plan_bw (tr_routes t) (tr_bw t)"
    have "bw_allocations ?P = ?B" by (simp add: plan_of_def Let_def)
    then have "(l, x) \<in> set (get_default ?B (flow_key_of fe) [])" using p by (simp only: lx)
    from get_default_mem[OF this] obtain per where "(flow_key_of fe, per) \<in> set ?B" "(l, x) \<in> set per" by blast
    then have "x = bandwidth_demand fe" by (rule RT(3)[rotated, OF _ _ fe refl])
    then show "case p of (l, bw) \<Rightarrow> bw = bandwidth_demand fe" by (simp add: lx)
  qed
  with hops links show "count_plan_hops (tr_sub t) ?P = Inr (tr_hops t)
     \<and> (\<forall>(fk, ls) \<in> set (flow_routes ?P). set ls \<subseteq> set (link_ids (g_edges S)))
     \<and> \<not> snd (check_c5b req ?P)" by blast
qed


text \<open>
  The coordinator commits, the plan is built, the substrate charges it: nothing is over-booked,
  and the verifier can object to the delay only.
\<close>

lemma count_inter_edges:
  "g_edges g = g_edges h \<Longrightarrow> count_inter g ls k = count_inter h ls k"
  by (induction ls arbitrary: k) (auto simp: link_edge_def split: option.splits)

lemma admitted_trial:
  assumes pool: "actor_pool nx (co_actors co)" and wf: "wf_graph S" and req: "wf_request req"
    and run: "resolve_arrival nx co rnd S req ps mode greedy ct = Inr (T, r, ct')" and adm: "mr_admitted r"
  obtains part t where "carried_out S req ps part t" and "T = S" and "mr_partition r = Some part"
    and "\<not> any_infeasible (tr_responses t)" and "tr_cross_ok t"
    and "mr_responses r = tr_responses t" and "mr_cross_routes r = tr_routes t" and "mr_cross_bw r = tr_bw t"
    and "violates (sw_chain (co_switches co)) part = Inr False"
    and "intra_delay (tr_responses t) + tr_delay t \<le> max_e2e_delay (qos_of req)"
    and "tr_hops t \<le> max_inter_domain_hops (co_config co)"
    and "mr_e2e_delay r = intra_delay (tr_responses t) + tr_delay t"
  using run
proof (rule resolve_arrival_Inr)
  fix \<delta> bad t
  let ?v = "judge (co_config co) bad req t"
  assume bad: "violates (sw_chain (co_switches co)) (de_partition \<delta>) = Inr bad"
    and t: "run_trial nx (co_actors co) bad S req ps (de_partition \<delta>) = Inr t"
    and r: "r = conclude (co_config co) req \<delta> t ?v greedy"
  have nv: "\<not> has_violation ?v" using adm unfolding r by (simp add: conclude_def Let_def)
  then have b: "\<not> bad" and 1: "\<not> any_infeasible (tr_responses t)" and 2: "tr_cross_ok t"
    and 3: "intra_delay (tr_responses t) + tr_delay t \<le> max_e2e_delay (qos_of req)"
    and 4: "tr_hops t \<le> max_inter_domain_hops (co_config co)"
    by (auto simp: has_violation_def violation_vector_def judge_def Let_def)
  have co: "carried_out S req ps (de_partition \<delta>) t"
    by (rule actor_pool.run_trial_carried_out[OF pool wf req]) (use t b in simp)
  have TS: "T = S" by (rule actor_pool.resolve_arrival_restores[OF pool wf req refl run])
  have rs: "mr_responses r = tr_responses t" "mr_cross_routes r = tr_routes t" "mr_cross_bw r = tr_bw t"
    "mr_partition r = Some (de_partition \<delta>)" "mr_e2e_delay r = intra_delay (tr_responses t) + tr_delay t"
    using nv unfolding r by (simp_all add: conclude_def Let_def judge_def)
  show thesis by (rule that[OF co TS rs(4) 1 2 rs(1-3) _ 3 4 rs(5)]) (use bad b in simp)
qed

lemma committed_allocation:
  assumes pool: "actor_pool nx (co_actors co)" and wf: "wf_graph S" and req: "wf_request req"
    and typed: "typed_links S" and safe: "no_overbooking S"
    and fresh: "request_id req \<notin> set (keys (active_slices S))"
    and run: "resolve_arrival nx co rnd S req ps mode greedy ct = Inr (T, r, ct')" and adm: "mr_admitted r"
  shows "\<exists>plan S' v. build_placement_plan req r = Inr (Some plan) \<and> allocate T plan req = Inr S'
    \<and> no_overbooking S' \<and> (nonneg_request req \<longrightarrow> nonneg_plan plan)
    \<and> verify_committed_plan S' plan req (max_inter_domain_hops (co_config co)) = Inr v
    \<and> set (vd_violated v) \<subseteq> {''C7''}"
  using pool wf req run adm
proof (rule admitted_trial)
  fix part t
  assume co: "carried_out S req ps part t" and TS: "T = S"
    and ok: "\<not> any_infeasible (tr_responses t)" "tr_cross_ok t"
    and rs: "mr_responses r = tr_responses t" "mr_cross_routes r = tr_routes t" "mr_cross_bw r = tr_bw t"
    and hops: "tr_hops t \<le> max_inter_domain_hops (co_config co)"
  let ?P = "plan_of req t"
  note B = build_plan_of[OF req co ok rs] and Cl = plan_of_claims[OF req co ok]
    and H = plan_of_hops[OF wf req co ok typed]
  let ?S' = "(tr_sub t)\<lparr>active_slices := active_slices S @ [(request_id req, ?P, req)]\<rparr>"
  have al: "allocate S ?P req = Inr ?S'"
    using fresh Cl by (simp add: allocate_Inr_iff)
  have nb: "no_overbooking (tr_sub t)"
    using carried_out_trial_ok[OF co] safe unfolding trial_ok_def by blast
  then have cap: "check_node_capacities ?S' = (None, None)" "check_link_capacities ?S' = None"
    using capacities_ok[of ?S'] by (simp_all add: no_overbooking_def)
  have sub: "tr_sub t = charge (node_claims ?P) (link_claims ?P) S" using Cl(1) by simp
  have wf': "wf_graph ?S'" using wf by (simp add: sub)
  have gn: "g_nodes ?S' = g_nodes (tr_sub t)" "g_edges ?S' = g_edges (tr_sub t)" by simp_all
  have ls: "\<forall>(fk, ls) \<in> set (flow_routes ?P). set ls \<subseteq> set (link_ids (g_edges ?S'))"
    unfolding gn unfolding sub link_ids_charge by (rule H(2))
  have ns: "\<forall>(v, n) \<in> set (vnf_placements ?P). n \<in> set (keys (g_nodes ?S')) \<and> v \<in> vnf_id ` set (vnfs req)"
    unfolding gn unfolding sub charge_simps by (rule Cl(3))
  obtain e2e where e2e: "ground_truth_e2e ?S' ?P req = Inr e2e"
  proof -
    obtain x where "node_delays ?S' (vnfs req) (vnf_placements ?P) 0 = Inr x"
      using node_delays_total[OF ns] by blast
    moreover obtain y where "flow_delays ?S' ?P (flow_edges req) (case x of Fin a \<Rightarrow> a | PInf \<Rightarrow> 0) = Inr y"
      using flow_delays_total[OF wf' ls] by blast
    ultimately have "\<exists>z. ground_truth_e2e ?S' ?P req = Inr z" by (cases x) (auto simp: ground_truth_e2e_def)
    then show thesis using that by blast
  qed
  have hp: "count_plan_hops ?S' ?P = Inr (tr_hops t)"
    using H(1) count_inter_edges[OF gn(2)] by (simp add: count_plan_hops_def)
  obtain thr c5b where c5: "check_c5b req ?P = (thr, c5b)" "\<not> c5b"
    using H(3) by (cases "check_c5b req ?P") simp
  have "\<exists>v. verify_committed_plan ?S' ?P req (max_inter_domain_hops (co_config co)) = Inr v
      \<and> set (vd_violated v) \<subseteq> {''C7''}"
    using hops c5(2) by (auto simp: verify_committed_plan_def cap c5(1) e2e hp Let_def)
  moreover have "no_overbooking ?S'" using nb by (simp add: no_overbooking_def)
  moreover have "nonneg_request req \<longrightarrow> nonneg_plan ?P" using plan_of_nonneg[OF req co ok] by blast
  ultimately show ?thesis using B al TS by blast
qed

end
