(* ===== verification/Greedy_FFD.thy ===== *)
theory Greedy_FFD
  imports Domain_Actor
begin

text \<open>
  The tier-aware first-fit-decreasing baseline (\<open>src/src/orion/baselines/greedy_ffd.py\<close>): it
  places a whole slice against running residuals kept beside the substrate, so
  \<open>compute_cost_greedy\<close> leaves the substrate alone and \<open>greedy_place_on_substrate\<close> commits
  the finished plan with one \<open>allocate\<close>. The theorem of this theory is that the running
  residuals are exactly the residuals of the substrate the plan will leave behind.
\<close>

section \<open>Results and state\<close>

record greedy_result =
  gr_feasible :: bool
  gr_cost :: xreal
  gr_plan :: "placement_plan option"
  gr_intra_bw :: real
  gr_inter_bw :: real
  gr_resource_cost :: real
  gr_fail_reason :: string

record greedy_config =
  gc_alpha :: real
  gc_gamma_intra :: real
  gc_gamma_inter :: real

definition default_greedy_config :: greedy_config where
  "default_greedy_config = \<lparr>gc_alpha = 1, gc_gamma_intra = 1, gc_gamma_inter = 1\<rparr>"

record ffd_state =
  fs_place :: "(string, node_id) dict"
  fs_cpu :: "(string, real) dict"
  fs_ram :: "(string, real) dict"
  fs_routes :: "(flow_key, link_id list) dict"
  fs_bw :: "(flow_key, (link_id, real) dict) dict"
  fs_intra_cost :: real
  fs_inter_cost :: real
  fs_resource_cost :: real
  run_cpu :: "(node_id, real) dict"
  run_ram :: "(node_id, real) dict"
  run_bw :: "(link_id, real) dict"

definition ffd_start :: ffd_state where
  "ffd_start = \<lparr>fs_place = [], fs_cpu = [], fs_ram = [], fs_routes = [], fs_bw = [], fs_intra_cost = 0,
     fs_inter_cost = 0, fs_resource_cost = 0, run_cpu = [], run_ram = [], run_bw = []\<rparr>"

text \<open>The running residual, or the substrate's own. \<open>d\<close> is the entry of the node or edge.\<close>

definition cpu_after :: "ffd_state \<Rightarrow> node_id \<Rightarrow> node_data \<Rightarrow> real" where
  "cpu_after \<sigma> n d = get_default (run_cpu \<sigma>) n (cpu_residual d)"

definition ram_after :: "ffd_state \<Rightarrow> node_id \<Rightarrow> node_data \<Rightarrow> real" where
  "ram_after \<sigma> n d = get_default (run_ram \<sigma>) n (ram_residual d)"

definition bw_after :: "ffd_state \<Rightarrow> link_id \<Rightarrow> edge_data \<Rightarrow> real" where
  "bw_after \<sigma> l d = get_default (run_bw \<sigma>) l (bw_residual d)"

section \<open>Node selection\<close>

definition required_tier :: "'a graph_scheme \<Rightarrow> vnf \<Rightarrow> tier option" where
  "required_tier g v =
     (case remdups (List.map_filter (\<lambda>n. map_option node_tier (map_of (g_nodes g) n)) (permitted_nodes v)) of
        [t] \<Rightarrow> Some t | _ \<Rightarrow> None)"

definition ffd_candidate :: "'a graph_scheme \<Rightarrow> vnf \<Rightarrow> ffd_state \<Rightarrow> node_id \<times> node_data
    \<Rightarrow> (int \<times> real \<times> int \<times> node_id) option" where
  "ffd_candidate g v \<sigma> = (\<lambda>(n, d).
     if permitted_nodes v \<noteq> [] \<and> n \<notin> set (permitted_nodes v) then None
     else if cpu_after \<sigma> n d < cpu_demand v then None
     else if ram_after \<sigma> n d < ram_demand v then None
     else Some (- (if required_tier g v = Some (node_tier d) then 1 else 0), - cpu_after \<sigma> n d, domain_id d, n))"

definition ffd_select_node :: "'a graph_scheme \<Rightarrow> vnf \<Rightarrow> ffd_state \<Rightarrow> node_id option" where
  "ffd_select_node g v \<sigma> =
     (case least (List.map_filter (ffd_candidate g v \<sigma>) (g_nodes g)) of
        None \<Rightarrow> None | Some (t, c, m, n) \<Rightarrow> Some n)"

section \<open>Placement and routing\<close>

definition ffd_put :: "vnf \<Rightarrow> node_id \<Rightarrow> node_data \<Rightarrow> ffd_state \<Rightarrow> ffd_state" where
  "ffd_put v n d \<sigma> =
     \<sigma>\<lparr>run_cpu := AList.update n (cpu_after \<sigma> n d - cpu_demand v) (run_cpu \<sigma>),
       run_ram := AList.update n (ram_after \<sigma> n d - ram_demand v) (run_ram \<sigma>),
       fs_place := AList.update (vnf_id v) n (fs_place \<sigma>),
       fs_cpu := AList.update (vnf_id v) (cpu_demand v) (fs_cpu \<sigma>),
       fs_ram := AList.update (vnf_id v) (ram_demand v) (fs_ram \<sigma>),
       fs_resource_cost := fs_resource_cost \<sigma> + (cpu_demand v + ram_demand v)\<rparr>"

text \<open>\<open>None\<close>: some VNF has no node.\<close>

fun ffd_place :: "'a graph_scheme \<Rightarrow> vnf list \<Rightarrow> ffd_state \<Rightarrow> py_error + ffd_state option" where
  "ffd_place g [] \<sigma> = Inr (Some \<sigma>)"
| "ffd_place g (v # vs) \<sigma> =
     (case ffd_select_node g v \<sigma> of
        None \<Rightarrow> Inr None
      | Some n \<Rightarrow>
          (case map_of (g_nodes g) n of
             None \<Rightarrow> Inl KeyError
           | Some d \<Rightarrow> ffd_place g vs (ffd_put v n d \<sigma>)))"

text \<open>\<open>nx.subgraph_view\<close> with \<open>edge_ok\<close>.\<close>

definition bw_view :: "'a graph_scheme \<Rightarrow> ffd_state \<Rightarrow> real \<Rightarrow> graph" where
  "bw_view g \<sigma> bw = \<lparr>g_nodes = g_nodes g,
     g_edges = filter (\<lambda>(e, d). bw \<le> bw_after \<sigma> (link_id d) d) (g_edges g)\<rparr>"

fun edge_links :: "'a graph_scheme \<Rightarrow> (node_id \<times> node_id) list \<Rightarrow> py_error + link_id list" where
  "edge_links g [] = Inr []"
| "edge_links g (e # es) =
     (case map_of (g_edges g) e of
        None \<Rightarrow> Inl KeyError
      | Some d \<Rightarrow> map_sum id ((#) (link_id d)) (edge_links g es))"

text \<open>\<open>NetworkXNoPath\<close> and \<open>NodeNotFound\<close> are \<open>nx_shortest_path\<close> = \<open>None\<close>.\<close>

definition shortest_bw_feasible_path :: "nx_lib \<Rightarrow> 'a graph_scheme \<Rightarrow> node_id \<Rightarrow> node_id \<Rightarrow> real
    \<Rightarrow> ffd_state \<Rightarrow> py_error + link_id list option" where
  "shortest_bw_feasible_path nx g s t bw \<sigma> =
     (case nx_shortest_path nx (bw_view g \<sigma> bw) s t of
        None \<Rightarrow> Inr None
      | Some p \<Rightarrow> map_sum id Some (edge_links g (path_edges p)))"

definition link_endpoints :: "'a graph_scheme \<Rightarrow> link_id \<Rightarrow> py_error + (node_id \<times> node_id)" where
  "link_endpoints g l = (case find_link l (g_edges g) of None \<Rightarrow> Inl KeyError | Some (e, d) \<Rightarrow> Inr e)"

definition ffd_take_link :: "'a graph_scheme \<Rightarrow> real \<Rightarrow> link_id \<Rightarrow> ffd_state \<times> (link_id, real) dict
    \<Rightarrow> py_error + (ffd_state \<times> (link_id, real) dict)" where
  "ffd_take_link g bw l = (\<lambda>(\<sigma>, per).
     case link_endpoints g l of
       Inl e \<Rightarrow> Inl e
     | Inr e \<Rightarrow>
         (case map_of (g_edges g) e of
            None \<Rightarrow> Inl KeyError
          | Some d \<Rightarrow>
              let \<sigma>' = \<sigma>\<lparr>run_bw := AList.update l (bw_after \<sigma> l d - bw) (run_bw \<sigma>)\<rparr>
              in Inr (if link_type d = InterLink then \<sigma>'\<lparr>fs_inter_cost := fs_inter_cost \<sigma>' + bw\<rparr>
                      else \<sigma>'\<lparr>fs_intra_cost := fs_intra_cost \<sigma>' + bw\<rparr>,
                      AList.update l bw per)))"

definition ffd_record :: "flow_key \<Rightarrow> link_id list \<Rightarrow> (link_id, real) dict \<Rightarrow> ffd_state \<Rightarrow> ffd_state" where
  "ffd_record fk ls per \<sigma> =
     \<sigma>\<lparr>fs_routes := AList.update fk ls (fs_routes \<sigma>), fs_bw := AList.update fk per (fs_bw \<sigma>)\<rparr>"

fun ffd_route :: "nx_lib \<Rightarrow> 'a graph_scheme \<Rightarrow> flow_edge list \<Rightarrow> ffd_state \<Rightarrow> py_error + ffd_state option" where
  "ffd_route nx g [] \<sigma> = Inr (Some \<sigma>)"
| "ffd_route nx g (fe # fes) \<sigma> =
     (case (map_of (fs_place \<sigma>) (source_vnf fe), map_of (fs_place \<sigma>) (target_vnf fe)) of
        (Some s, Some t) \<Rightarrow>
          if s = t then ffd_route nx g fes (ffd_record (flow_key_of fe) [] [] \<sigma>)
          else (case shortest_bw_feasible_path nx g s t (bandwidth_demand fe) \<sigma> of
                  Inl e \<Rightarrow> Inl e
                | Inr None \<Rightarrow> Inr None
                | Inr (Some ls) \<Rightarrow>
                    (case fold_err (ffd_take_link g (bandwidth_demand fe)) ls (\<sigma>, []) of
                       Inl e \<Rightarrow> Inl e
                     | Inr (\<sigma>', per) \<Rightarrow> ffd_route nx g fes (ffd_record (flow_key_of fe) ls per \<sigma>')))
      | _ \<Rightarrow> Inl KeyError)"

section \<open>Entry points\<close>

definition ffd_failed :: "string \<Rightarrow> greedy_result" where
  "ffd_failed why = \<lparr>gr_feasible = False, gr_cost = PInf, gr_plan = None, gr_intra_bw = 0, gr_inter_bw = 0,
     gr_resource_cost = 0, gr_fail_reason = why\<rparr>"

definition ffd_plan :: "slice_request \<Rightarrow> ffd_state \<Rightarrow> placement_plan" where
  "ffd_plan req \<sigma> = \<lparr>plan_id = request_id req @ ''_greedy'', vnf_placements = fs_place \<sigma>,
     cpu_allocations = fs_cpu \<sigma>, ram_allocations = fs_ram \<sigma>, flow_routes = fs_routes \<sigma>,
     bw_allocations = fs_bw \<sigma>, structurally_valid = True, plan_source = ''greedy''\<rparr>"

definition ffd_result :: "slice_request \<Rightarrow> greedy_config \<Rightarrow> ffd_state \<Rightarrow> greedy_result" where
  "ffd_result req cfg \<sigma> = \<lparr>gr_feasible = True,
     gr_cost = Fin (gc_alpha cfg * fs_resource_cost \<sigma> + gc_gamma_intra cfg * fs_intra_cost \<sigma>
                    + gc_gamma_inter cfg * fs_inter_cost \<sigma>),
     gr_plan = Some (ffd_plan req \<sigma>), gr_intra_bw = fs_intra_cost \<sigma>, gr_inter_bw = fs_inter_cost \<sigma>,
     gr_resource_cost = fs_resource_cost \<sigma>, gr_fail_reason = []\<rparr>"

text \<open>The failure texts keep their fixed part; the names formatted into them are left out.\<close>

definition run_greedy_ffd :: "nx_lib \<Rightarrow> 'a graph_scheme \<Rightarrow> slice_request \<Rightarrow> greedy_config
    \<Rightarrow> py_error + greedy_result" where
  "run_greedy_ffd nx g req cfg =
     (case ffd_place g (sort_key (\<lambda>v. (- cpu_demand v, - ram_demand v, vnf_id v)) (vnfs req)) ffd_start of
        Inl e \<Rightarrow> Inl e
      | Inr None \<Rightarrow> Inr (ffd_failed ''no feasible node'')
      | Inr (Some \<sigma>) \<Rightarrow>
          (case ffd_route nx g (flow_edges req) \<sigma> of
             Inl e \<Rightarrow> Inl e
           | Inr None \<Rightarrow> Inr (ffd_failed ''no BW-feasible path'')
           | Inr (Some \<tau>) \<Rightarrow> Inr (ffd_result req cfg \<tau>)))"

definition compute_cost_greedy :: "nx_lib \<Rightarrow> 'a graph_scheme \<Rightarrow> slice_request \<Rightarrow> greedy_config
    \<Rightarrow> py_error + xreal" where
  "compute_cost_greedy nx g req cfg = map_sum id gr_cost (run_greedy_ffd nx g req cfg)"

definition greedy_place_on_substrate :: "nx_lib \<Rightarrow> substrate \<Rightarrow> slice_request \<Rightarrow> greedy_config
    \<Rightarrow> py_error + (substrate \<times> greedy_result)" where
  "greedy_place_on_substrate nx S req cfg =
     (case run_greedy_ffd nx S req cfg of
        Inl e \<Rightarrow> Inl e
      | Inr r \<Rightarrow>
          (case gr_plan r of
             Some plan \<Rightarrow>
               if gr_feasible r then map_sum id (\<lambda>T. (T, r)) (allocate S plan req) else Inr (S, r)
           | None \<Rightarrow> Inr (S, r)))"


section \<open>The running residuals are the residuals of the plan\<close>

abbreviation ffd_nodes :: "ffd_state \<Rightarrow> (node_id \<times> real \<times> real) list" where
  "ffd_nodes \<sigma> \<equiv> map (\<lambda>(v, n). (n, get_default (fs_cpu \<sigma>) v 0, get_default (fs_ram \<sigma>) v 0)) (fs_place \<sigma>)"

abbreviation ffd_links :: "ffd_state \<Rightarrow> (link_id \<times> real) list" where
  "ffd_links \<sigma> \<equiv> concat (vals (fs_bw \<sigma>))"

text \<open>\<open>X\<close> are the claims of the flow being routed, not yet recorded.\<close>

definition ffd_inv :: "'a graph_scheme \<Rightarrow> (link_id \<times> real) list \<Rightarrow> ffd_state \<Rightarrow> bool" where
  "ffd_inv g X \<sigma> \<longleftrightarrow>
     distinct (keys (fs_place \<sigma>)) \<and> keys (fs_cpu \<sigma>) = keys (fs_place \<sigma>) \<and> keys (fs_ram \<sigma>) = keys (fs_place \<sigma>)
     \<and> (\<forall>(n, d) \<in> set (g_nodes g). cpu_after \<sigma> n d = cpu_residual d - posted_cpu n (ffd_nodes \<sigma>)
          \<and> ram_after \<sigma> n d = ram_residual d - posted_ram n (ffd_nodes \<sigma>))
     \<and> (\<forall>(e, d) \<in> set (g_edges g). bw_after \<sigma> (link_id d) d = bw_residual d - posted (link_id d) (ffd_links \<sigma> @ X))
     \<and> (no_overbooking g \<longrightarrow> no_overbooking (charge (ffd_nodes \<sigma>) (ffd_links \<sigma> @ X) g))
     \<and> set (vals (fs_place \<sigma>)) \<subseteq> set (keys (g_nodes g))
     \<and> fs_intra_cost \<sigma> + fs_inter_cost \<sigma> = (\<Sum>(l, x) \<leftarrow> ffd_links \<sigma> @ X. x)
     \<and> fs_resource_cost \<sigma> = (\<Sum>(n, c, r) \<leftarrow> ffd_nodes \<sigma>. c + r)"

lemma ffd_invD:
  assumes "ffd_inv g X \<sigma>"
  shows "distinct (keys (fs_place \<sigma>))" and "keys (fs_cpu \<sigma>) = keys (fs_place \<sigma>)"
    and "keys (fs_ram \<sigma>) = keys (fs_place \<sigma>)"
    and "\<And>n d. (n, d) \<in> set (g_nodes g) \<Longrightarrow> cpu_after \<sigma> n d = cpu_residual d - posted_cpu n (ffd_nodes \<sigma>)"
    and "\<And>n d. (n, d) \<in> set (g_nodes g) \<Longrightarrow> ram_after \<sigma> n d = ram_residual d - posted_ram n (ffd_nodes \<sigma>)"
    and "\<And>e d. (e, d) \<in> set (g_edges g) \<Longrightarrow>
           bw_after \<sigma> (link_id d) d = bw_residual d - posted (link_id d) (ffd_links \<sigma> @ X)"
    and "no_overbooking g \<Longrightarrow> no_overbooking (charge (ffd_nodes \<sigma>) (ffd_links \<sigma> @ X) g)"
    and "set (vals (fs_place \<sigma>)) \<subseteq> set (keys (g_nodes g))"
    and "fs_intra_cost \<sigma> + fs_inter_cost \<sigma> = (\<Sum>(l, x) \<leftarrow> ffd_links \<sigma> @ X. x)"
    and "fs_resource_cost \<sigma> = (\<Sum>(n, c, r) \<leftarrow> ffd_nodes \<sigma>. c + r)"
proof -
  note A = assms[unfolded ffd_inv_def]
  show "distinct (keys (fs_place \<sigma>))" "keys (fs_cpu \<sigma>) = keys (fs_place \<sigma>)" "keys (fs_ram \<sigma>) = keys (fs_place \<sigma>)"
    "set (vals (fs_place \<sigma>)) \<subseteq> set (keys (g_nodes g))"
    "fs_intra_cost \<sigma> + fs_inter_cost \<sigma> = (\<Sum>(l, x) \<leftarrow> ffd_links \<sigma> @ X. x)"
    "fs_resource_cost \<sigma> = (\<Sum>(n, c, r) \<leftarrow> ffd_nodes \<sigma>. c + r)"
    using A by - (elim conjE, assumption)+
  have N: "\<forall>(n, d) \<in> set (g_nodes g). cpu_after \<sigma> n d = cpu_residual d - posted_cpu n (ffd_nodes \<sigma>)
          \<and> ram_after \<sigma> n d = ram_residual d - posted_ram n (ffd_nodes \<sigma>)"
    and E: "\<forall>(e, d) \<in> set (g_edges g). bw_after \<sigma> (link_id d) d = bw_residual d - posted (link_id d) (ffd_links \<sigma> @ X)"
    and O: "no_overbooking g \<longrightarrow> no_overbooking (charge (ffd_nodes \<sigma>) (ffd_links \<sigma> @ X) g)"
    using A by - (elim conjE, assumption)+
  show "cpu_after \<sigma> n d = cpu_residual d - posted_cpu n (ffd_nodes \<sigma>)"
    and "ram_after \<sigma> n d = ram_residual d - posted_ram n (ffd_nodes \<sigma>)" if "(n, d) \<in> set (g_nodes g)" for n d
    using bspec[OF N that] unfolding prod.case by blast+
  show "bw_after \<sigma> (link_id d) d = bw_residual d - posted (link_id d) (ffd_links \<sigma> @ X)"
    if "(e, d) \<in> set (g_edges g)" for e d
    using bspec[OF E that] unfolding prod.case .
  show "no_overbooking g \<Longrightarrow> no_overbooking (charge (ffd_nodes \<sigma>) (ffd_links \<sigma> @ X) g)" using O by blast
qed

lemma ffd_inv_start: "ffd_inv g [] ffd_start"
  by (auto simp: ffd_inv_def ffd_start_def cpu_after_def ram_after_def bw_after_def get_default_def charge_def)

text \<open>One placement.\<close>

lemma ffd_select_node_Some:
  assumes "ffd_select_node g v \<sigma> = Some n"
  obtains d where "(n, d) \<in> set (g_nodes g)" and "permitted_nodes v = [] \<or> n \<in> set (permitted_nodes v)"
    and "cpu_demand v \<le> cpu_after \<sigma> n d" and "ram_demand v \<le> ram_after \<sigma> n d"
proof -
  from assms obtain t c m where "least (List.map_filter (ffd_candidate g v \<sigma>) (g_nodes g)) = Some (t, c, m, n)"
    by (auto simp: ffd_select_node_def split: option.splits)
  from least_in[OF this] obtain n' d where "(n', d) \<in> set (g_nodes g)" "ffd_candidate g v \<sigma> (n', d) = Some (t, c, m, n)"
    by (auto simp: set_map_filter)
  with that[of d] show ?thesis by (auto simp: ffd_candidate_def not_less split: if_splits)
qed

lemma ffd_inv_put:
  assumes wf: "wf_graph g" and inv: "ffd_inv g [] \<sigma>" and fresh: "vnf_id v \<notin> set (keys (fs_place \<sigma>))"
    and n: "(n, d) \<in> set (g_nodes g)"
    and fits: "cpu_demand v \<le> cpu_after \<sigma> n d" "ram_demand v \<le> ram_after \<sigma> n d"
  shows "ffd_inv g [] (ffd_put v n d \<sigma>)" and "keys (fs_place (ffd_put v n d \<sigma>)) = keys (fs_place \<sigma>) @ [vnf_id v]"
proof -
  note I = ffd_invD[OF inv]
  let ?\<tau> = "ffd_put v n d \<sigma>" and ?c = "cpu_demand v" and ?r = "ram_demand v"
  have fc: "vnf_id v \<notin> set (keys (fs_cpu \<sigma>))" and fr: "vnf_id v \<notin> set (keys (fs_ram \<sigma>))"
    using fresh by (simp_all only: I(2,3) simp_thms)
  have pl: "fs_place ?\<tau> = fs_place \<sigma> @ [(vnf_id v, n)]" "fs_cpu ?\<tau> = fs_cpu \<sigma> @ [(vnf_id v, ?c)]"
    "fs_ram ?\<tau> = fs_ram \<sigma> @ [(vnf_id v, ?r)]"
    by (simp_all add: ffd_put_def update_fresh[OF fresh] update_fresh[OF fc] update_fresh[OF fr])
  have keep: "fs_bw ?\<tau> = fs_bw \<sigma>" "run_bw ?\<tau> = run_bw \<sigma>" "fs_intra_cost ?\<tau> = fs_intra_cost \<sigma>"
    "fs_inter_cost ?\<tau> = fs_inter_cost \<sigma>" "fs_resource_cost ?\<tau> = fs_resource_cost \<sigma> + (?c + ?r)"
    by (simp_all add: ffd_put_def)
  have "ffd_nodes ?\<tau> = map (\<lambda>(v', n). (n, get_default (fs_cpu ?\<tau>) v' 0, get_default (fs_ram ?\<tau>) v' 0)) (fs_place \<sigma>)
      @ [(n, ?c, ?r)]"
    unfolding pl(1) by (simp add: ffd_put_def)
  also have "map (\<lambda>(v', n). (n, get_default (fs_cpu ?\<tau>) v' 0, get_default (fs_ram ?\<tau>) v' 0)) (fs_place \<sigma>) = ffd_nodes \<sigma>"
    using fresh by (intro map_cong[OF refl]) (force simp: ffd_put_def)
  finally have ns: "ffd_nodes ?\<tau> = ffd_nodes \<sigma> @ [(n, ?c, ?r)]" .
  have dn: "distinct (keys (g_nodes g))" using wf by (simp add: wf_graph_def)
  have same: "d' = d" if "(n, d') \<in> set (g_nodes g)" for d'
    using map_of_is_SomeI[OF dn that] map_of_is_SomeI[OF dn n] by simp
  have cpu: "cpu_after ?\<tau> k d' = cpu_residual d' - posted_cpu k (ffd_nodes ?\<tau>)"
    and ram: "ram_after ?\<tau> k d' = ram_residual d' - posted_ram k (ffd_nodes ?\<tau>)"
    if k: "(k, d') \<in> set (g_nodes g)" for k d'
    using I(4)[OF k] I(5)[OF k] k same unfolding ns by (auto simp: cpu_after_def ram_after_def ffd_put_def)
  have bw: "bw_after ?\<tau> (link_id e) e = bw_residual e - posted (link_id e) (ffd_links ?\<tau> @ [])"
    if "(uv, e) \<in> set (g_edges g)" for uv e
    using I(6)[OF that] by (simp only: bw_after_def keep)
  have safe: "no_overbooking (charge (ffd_nodes ?\<tau>) (ffd_links ?\<tau> @ []) g)" if ok: "no_overbooking g"
  proof -
    let ?V = "charge (ffd_nodes \<sigma>) (ffd_links \<sigma> @ []) g"
    have "map_of (g_nodes ?V) n = Some (d\<lparr>cpu_residual := cpu_residual d - posted_cpu n (ffd_nodes \<sigma>),
        ram_residual := ram_residual d - posted_ram n (ffd_nodes \<sigma>)\<rparr>)"
      by (simp add: map_of_charge map_of_is_SomeI[OF dn n])
    from no_overbooking_charge_node[OF _ I(7)[OF ok] this, of ?c ?r]
    have "no_overbooking (charge [(n, ?c, ?r)] [] ?V)"
      using wf fits I(4,5)[OF n] by simp
    then show ?thesis unfolding ns keep by (simp add: charge_append[of _ _ _ "[]", simplified])
  qed
  show "keys (fs_place ?\<tau>) = keys (fs_place \<sigma>) @ [vnf_id v]" by (simp add: pl)
  have "set (vals (fs_place ?\<tau>)) \<subseteq> set (keys (g_nodes g))"
    using I(8) n unfolding pl by force
  moreover have "distinct (keys (fs_place ?\<tau>))" "keys (fs_cpu ?\<tau>) = keys (fs_place ?\<tau>)"
    "keys (fs_ram ?\<tau>) = keys (fs_place ?\<tau>)"
    using I(1-3) fresh unfolding pl by simp_all
  moreover have "fs_intra_cost ?\<tau> + fs_inter_cost ?\<tau> = (\<Sum>(l, x) \<leftarrow> ffd_links ?\<tau> @ []. x)"
    using I(9) by (simp only: keep)
  moreover have "fs_resource_cost ?\<tau> = (\<Sum>(n, c, r) \<leftarrow> ffd_nodes ?\<tau>. c + r)"
    unfolding ns keep I(10) by simp
  ultimately show "ffd_inv g [] ?\<tau>"
    unfolding ffd_inv_def using cpu ram bw safe by blast
qed


text \<open>
  What a sequence of placements can do, whatever rule selects the nodes: each VNF goes to a node
  of \<open>A\<close> that permits it and holds it. The selection rules of the baselines refine this relation.
\<close>

inductive put_run :: "'a graph_scheme \<Rightarrow> node_id set \<Rightarrow> vnf list \<Rightarrow> ffd_state \<Rightarrow> ffd_state \<Rightarrow> bool"
  for g A where
  put_none: "put_run g A [] \<sigma> \<sigma>"
| put_one: "(n, d) \<in> set (g_nodes g) \<Longrightarrow> n \<in> A \<Longrightarrow> permitted_nodes v = [] \<or> n \<in> set (permitted_nodes v)
    \<Longrightarrow> cpu_demand v \<le> cpu_after \<sigma> n d \<Longrightarrow> ram_demand v \<le> ram_after \<sigma> n d
    \<Longrightarrow> put_run g A vs (ffd_put v n d \<sigma>) \<tau> \<Longrightarrow> put_run g A (v # vs) \<sigma> \<tau>"

lemma put_run_inv:
  assumes "put_run g A vs \<sigma> \<tau>" and wf: "wf_graph g" and "ffd_inv g [] \<sigma>" and "distinct (map vnf_id vs)"
    and "set (map vnf_id vs) \<inter> set (keys (fs_place \<sigma>)) = {}"
  shows "ffd_inv g [] \<tau> \<and> keys (fs_place \<tau>) = keys (fs_place \<sigma>) @ map vnf_id vs
    \<and> fs_resource_cost \<tau> = fs_resource_cost \<sigma> + (\<Sum>v \<leftarrow> vs. cpu_demand v + ram_demand v)
    \<and> (\<forall>v \<in> set vs. permitted_nodes v \<noteq> [] \<longrightarrow> map_of (fs_place \<tau>) (vnf_id v) \<in> Some ` set (permitted_nodes v))
    \<and> (\<forall>v \<in> set vs. map_of (fs_cpu \<tau>) (vnf_id v) = Some (cpu_demand v))
    \<and> (\<forall>v \<in> set vs. map_of (fs_ram \<tau>) (vnf_id v) = Some (ram_demand v))
    \<and> fs_bw \<tau> = fs_bw \<sigma> \<and> fs_routes \<tau> = fs_routes \<sigma> \<and> (\<exists>ps. fs_place \<tau> = fs_place \<sigma> @ ps \<and> snd ` set ps \<subseteq> A)
    \<and> (\<exists>cs. fs_cpu \<tau> = fs_cpu \<sigma> @ cs) \<and> (\<exists>rs. fs_ram \<tau> = fs_ram \<sigma> @ rs)"
  using assms(1,3-)
proof (induction rule: put_run.induct)
  case (put_none \<sigma>)
  then show ?case by simp
next
  case (put_one n d v \<sigma> vs \<tau>)
  note P = put_one.prems and pm = put_one.hyps(3)
  have fresh: "vnf_id v \<notin> set (keys (fs_place \<sigma>))" using P(3) by auto
  then have freshc: "vnf_id v \<notin> set (keys (fs_cpu \<sigma>))" and freshr: "vnf_id v \<notin> set (keys (fs_ram \<sigma>))"
    using ffd_invD(2,3)[OF P(1)] by (simp_all only: simp_thms)
  let ?\<sigma> = "ffd_put v n d \<sigma>"
  note S = ffd_inv_put[OF wf P(1) fresh put_one.hyps(1,4,5)]
  have dj: "set (map vnf_id vs) \<inter> set (keys (fs_place ?\<sigma>)) = {}"
    unfolding S(2) using P(2,3) by auto
  have dv: "distinct (map vnf_id vs)" using P(2) by simp
  from put_one.IH[OF S(1) dv dj] obtain ps cs rs where
    IH: "ffd_inv g [] \<tau>" "keys (fs_place \<tau>) = keys (fs_place ?\<sigma>) @ map vnf_id vs"
    "fs_resource_cost \<tau> = fs_resource_cost ?\<sigma> + (\<Sum>v \<leftarrow> vs. cpu_demand v + ram_demand v)"
    "\<forall>v \<in> set vs. permitted_nodes v \<noteq> [] \<longrightarrow> map_of (fs_place \<tau>) (vnf_id v) \<in> Some ` set (permitted_nodes v)"
    "\<forall>v \<in> set vs. map_of (fs_cpu \<tau>) (vnf_id v) = Some (cpu_demand v)"
    "fs_bw \<tau> = fs_bw ?\<sigma>" "fs_routes \<tau> = fs_routes ?\<sigma>" "fs_place \<tau> = fs_place ?\<sigma> @ ps" "snd ` set ps \<subseteq> A"
    "fs_cpu \<tau> = fs_cpu ?\<sigma> @ cs" "\<forall>v \<in> set vs. map_of (fs_ram \<tau>) (vnf_id v) = Some (ram_demand v)"
    "fs_ram \<tau> = fs_ram ?\<sigma> @ rs" by blast
  have pl: "fs_place ?\<sigma> = fs_place \<sigma> @ [(vnf_id v, n)]" "fs_cpu ?\<sigma> = fs_cpu \<sigma> @ [(vnf_id v, cpu_demand v)]"
    "fs_ram ?\<sigma> = fs_ram \<sigma> @ [(vnf_id v, ram_demand v)]"
    by (simp_all add: ffd_put_def update_fresh[OF fresh] update_fresh[OF freshc] update_fresh[OF freshr])
  have dp: "distinct (keys (fs_place \<tau>))" using ffd_invD(1)[OF IH(1)] .
  then have dc: "distinct (keys (fs_cpu \<tau>))" and dr: "distinct (keys (fs_ram \<tau>))"
    by (simp_all only: ffd_invD(2,3)[OF IH(1)])
  have "map_of (fs_place \<tau>) (vnf_id v) = Some n"
    by (rule map_of_is_SomeI[OF dp]) (simp add: IH(8) pl)
  with IH(4) pm have "\<forall>w \<in> set (v # vs). permitted_nodes w \<noteq> [] \<longrightarrow>
      map_of (fs_place \<tau>) (vnf_id w) \<in> Some ` set (permitted_nodes w)" by auto
  moreover have "map_of (fs_cpu \<tau>) (vnf_id v) = Some (cpu_demand v)"
    by (rule map_of_is_SomeI[OF dc]) (simp add: IH(10) pl)
  with IH(5) have "\<forall>w \<in> set (v # vs). map_of (fs_cpu \<tau>) (vnf_id w) = Some (cpu_demand w)" by simp
  moreover have "map_of (fs_ram \<tau>) (vnf_id v) = Some (ram_demand v)"
    by (rule map_of_is_SomeI[OF dr]) (simp add: IH(12) pl)
  with IH(11) have "\<forall>w \<in> set (v # vs). map_of (fs_ram \<tau>) (vnf_id w) = Some (ram_demand w)" by simp
  moreover have "keys (fs_place \<tau>) = keys (fs_place \<sigma>) @ map vnf_id (v # vs)" using IH(2) S(2) by simp
  moreover have "fs_resource_cost \<tau> = fs_resource_cost \<sigma> + (\<Sum>v \<leftarrow> v # vs. cpu_demand v + ram_demand v)"
    and "fs_bw \<tau> = fs_bw \<sigma>" "fs_routes \<tau> = fs_routes \<sigma>" using IH(3,6,7) by (simp_all add: ffd_put_def)
  moreover have "fs_place \<tau> = fs_place \<sigma> @ ((vnf_id v, n) # ps) \<and> snd ` set ((vnf_id v, n) # ps) \<subseteq> A"
    using IH(8,9) put_one.hyps(2) pl by simp
  moreover have "fs_cpu \<tau> = fs_cpu \<sigma> @ ((vnf_id v, cpu_demand v) # cs)" using IH(10) pl by simp
  moreover have "fs_ram \<tau> = fs_ram \<sigma> @ ((vnf_id v, ram_demand v) # rs)" using IH(12) pl by simp
  ultimately show ?case using IH(1) by blast
qed

lemma ffd_place_run:
  "wf_graph g \<Longrightarrow> ffd_place g vs \<sigma> = Inr (Some \<tau>) \<Longrightarrow> put_run g UNIV vs \<sigma> \<tau>"
proof (induction vs arbitrary: \<sigma>)
  case Nil
  then show ?case by (simp add: put_none)
next
  case (Cons v vs)
  from Cons.prems(2) obtain n where n: "ffd_select_node g v \<sigma> = Some n" by (auto split: option.splits)
  from ffd_select_node_Some[OF n] obtain d where d: "(n, d) \<in> set (g_nodes g)"
    and pm: "permitted_nodes v = [] \<or> n \<in> set (permitted_nodes v)"
    and fits: "cpu_demand v \<le> cpu_after \<sigma> n d" "ram_demand v \<le> ram_after \<sigma> n d" by blast
  have "map_of (g_nodes g) n = Some d" using d Cons.prems(1) by (simp add: wf_graph_def)
  then have "put_run g UNIV vs (ffd_put v n d \<sigma>) \<tau>"
    using Cons by (simp add: n)
  then show ?case by (rule put_one[OF d UNIV_I pm fits])
qed

text \<open>One link of a route.\<close>

lemma ffd_inv_take_link:
  assumes wf: "wf_graph g" and inv: "ffd_inv g X \<sigma>" and e: "(e, d) \<in> set (g_edges g)" "link_id d = l"
    and bw: "bw \<le> bw_after \<sigma> l d" and fresh: "l \<notin> set (keys X)"
  obtains \<sigma>' where "ffd_take_link g bw l (\<sigma>, X) = Inr (\<sigma>', X @ [(l, bw)])" and "ffd_inv g (X @ [(l, bw)]) \<sigma>'"
    and "fs_place \<sigma>' = fs_place \<sigma>" and "fs_bw \<sigma>' = fs_bw \<sigma>" and "fs_resource_cost \<sigma>' = fs_resource_cost \<sigma>"
    and "\<And>d'. link_id d' \<noteq> l \<Longrightarrow> bw_after \<sigma>' (link_id d') d' = bw_after \<sigma> (link_id d') d'"
    and "fs_cpu \<sigma>' = fs_cpu \<sigma>" and "fs_ram \<sigma>' = fs_ram \<sigma>" and "fs_routes \<sigma>' = fs_routes \<sigma>"
proof -
  note I = ffd_invD[OF inv]
  have ids: "distinct (link_ids (g_edges g))" and de: "distinct (keys (g_edges g))"
    using wf by (simp_all add: wf_graph_def)
  have fl: "find_link l (g_edges g) = Some (e, d)" using find_link_unique[OF ids e(1)] e(2) by simp
  let ?\<tau> = "\<sigma>\<lparr>run_bw := AList.update l (bw_after \<sigma> l d - bw) (run_bw \<sigma>)\<rparr>"
  let ?\<sigma>' = "if link_type d = InterLink then ?\<tau>\<lparr>fs_inter_cost := fs_inter_cost ?\<tau> + bw\<rparr>
      else ?\<tau>\<lparr>fs_intra_cost := fs_intra_cost ?\<tau> + bw\<rparr>"
  have 1: "ffd_take_link g bw l (\<sigma>, X) = Inr (?\<sigma>', X @ [(l, bw)])"
    by (simp add: ffd_take_link_def link_endpoints_def fl map_of_is_SomeI[OF de e(1)] Let_def update_fresh[OF fresh])
  have keep: "fs_place ?\<sigma>' = fs_place \<sigma>" "fs_cpu ?\<sigma>' = fs_cpu \<sigma>" "fs_ram ?\<sigma>' = fs_ram \<sigma>" "fs_bw ?\<sigma>' = fs_bw \<sigma>"
    "run_cpu ?\<sigma>' = run_cpu \<sigma>" "run_ram ?\<sigma>' = run_ram \<sigma>" "fs_resource_cost ?\<sigma>' = fs_resource_cost \<sigma>"
    "fs_routes ?\<sigma>' = fs_routes \<sigma>"
    by simp_all
  have after: "bw_after ?\<sigma>' k d' = (if k = l then bw_after \<sigma> l d - bw else bw_after \<sigma> k d')" for k d'
    by (simp add: bw_after_def)
  have same: "d' = d" if "(e', d') \<in> set (g_edges g)" "link_id d' = l" for e' d'
    using link_id_inj[OF ids that(1) e(1)] that(2) e(2) by simp
  have B: "bw_after ?\<sigma>' (link_id d') d' = bw_residual d' - posted (link_id d') (ffd_links \<sigma> @ X @ [(l, bw)])"
    if m: "(e', d') \<in> set (g_edges g)" for e' d'
    using I(6)[OF m] same[OF m] I(6)[OF e(1)] e(2) unfolding after by auto
  have safe: "no_overbooking (charge (ffd_nodes \<sigma>) (ffd_links \<sigma> @ X @ [(l, bw)]) g)" if ok: "no_overbooking g"
  proof -
    let ?V = "charge (ffd_nodes \<sigma>) (ffd_links \<sigma> @ X) g"
    have "carries ?V bw [l]"
      using e I(6)[OF e(1)] bw unfolding carries_def edges_charge[OF ids] by force
    then have "no_overbooking (charge [] (claim_links [l] bw) ?V)"
      using wf by (intro no_overbooking_charge_links I(7)[OF ok]) simp_all
    then show ?thesis
      using charge_append[of "ffd_nodes \<sigma>" "[]" "ffd_links \<sigma> @ X" "[(l, bw)]" g] by simp
  qed
  have cost: "fs_intra_cost ?\<sigma>' + fs_inter_cost ?\<sigma>' = (\<Sum>(l, x) \<leftarrow> ffd_links \<sigma> @ X @ [(l, bw)]. x)"
    using I(9) by simp
  have "ffd_inv g (X @ [(l, bw)]) ?\<sigma>'"
    unfolding ffd_inv_def keep
  proof (intro conjI)
    show "\<forall>(n, d) \<in> set (g_nodes g). cpu_after ?\<sigma>' n d = cpu_residual d - posted_cpu n (ffd_nodes \<sigma>)
          \<and> ram_after ?\<sigma>' n d = ram_residual d - posted_ram n (ffd_nodes \<sigma>)"
      using I(4,5) unfolding cpu_after_def ram_after_def keep by blast
    show "\<forall>(e, d) \<in> set (g_edges g).
        bw_after ?\<sigma>' (link_id d) d = bw_residual d - posted (link_id d) (ffd_links \<sigma> @ X @ [(l, bw)])"
      using B by blast
  qed (use I safe cost in blast)+
  with 1 keep after show thesis by (intro that[of ?\<sigma>']) (simp_all only: if_False)
qed

lemma ffd_take_links:
  assumes wf: "wf_graph g" and "ffd_inv g X \<sigma>" and "distinct (keys X @ ls)"
    and "\<forall>l \<in> set ls. \<exists>(e, d) \<in> set (g_edges g). link_id d = l \<and> bw \<le> bw_after \<sigma> l d"
  shows "\<exists>\<sigma>'. fold_err (ffd_take_link g bw) ls (\<sigma>, X) = Inr (\<sigma>', X @ claim_links ls bw)
    \<and> ffd_inv g (X @ claim_links ls bw) \<sigma>' \<and> fs_place \<sigma>' = fs_place \<sigma> \<and> fs_bw \<sigma>' = fs_bw \<sigma>
    \<and> fs_resource_cost \<sigma>' = fs_resource_cost \<sigma> \<and> fs_cpu \<sigma>' = fs_cpu \<sigma> \<and> fs_ram \<sigma>' = fs_ram \<sigma>
    \<and> fs_routes \<sigma>' = fs_routes \<sigma>"
  using assms(2-)
proof (induction ls arbitrary: X \<sigma>)
  case (Cons l ls)
  note P = Cons.prems
  from P(3) obtain e d where e: "(e, d) \<in> set (g_edges g)" "link_id d = l" "bw \<le> bw_after \<sigma> l d" by fastforce
  from P(2) have fresh: "l \<notin> set (keys X)" by auto
  obtain \<sigma>' where \<sigma>': "ffd_take_link g bw l (\<sigma>, X) = Inr (\<sigma>', X @ [(l, bw)])" "ffd_inv g (X @ [(l, bw)]) \<sigma>'"
    "fs_place \<sigma>' = fs_place \<sigma>" "fs_bw \<sigma>' = fs_bw \<sigma>" "fs_resource_cost \<sigma>' = fs_resource_cost \<sigma>"
    "fs_cpu \<sigma>' = fs_cpu \<sigma>" "fs_ram \<sigma>' = fs_ram \<sigma>" "fs_routes \<sigma>' = fs_routes \<sigma>"
    and other: "\<And>d'. link_id d' \<noteq> l \<Longrightarrow> bw_after \<sigma>' (link_id d') d' = bw_after \<sigma> (link_id d') d'"
    by (rule ffd_inv_take_link[OF wf P(1) e fresh]) blast
  have "\<forall>k \<in> set ls. \<exists>(e, d) \<in> set (g_edges g). link_id d = k \<and> bw \<le> bw_after \<sigma>' k d"
  proof
    fix k assume k: "k \<in> set ls"
    then have "k \<noteq> l" using P(2) by auto
    from P(3) k obtain e' d' where "(e', d') \<in> set (g_edges g)" "link_id d' = k" "bw \<le> bw_after \<sigma> k d'" by fastforce
    with other[of d'] \<open>k \<noteq> l\<close> show "\<exists>(e, d) \<in> set (g_edges g). link_id d = k \<and> bw \<le> bw_after \<sigma>' k d" by force
  qed
  moreover have "distinct (keys (X @ [(l, bw)]) @ ls)" using P(2) by simp
  ultimately obtain \<tau> where "fold_err (ffd_take_link g bw) ls (\<sigma>', X @ [(l, bw)]) = Inr (\<tau>, (X @ [(l, bw)]) @ claim_links ls bw)"
    "ffd_inv g ((X @ [(l, bw)]) @ claim_links ls bw) \<tau>" "fs_place \<tau> = fs_place \<sigma>'" "fs_bw \<tau> = fs_bw \<sigma>'"
    "fs_resource_cost \<tau> = fs_resource_cost \<sigma>'" "fs_cpu \<tau> = fs_cpu \<sigma>'"
    "fs_ram \<tau> = fs_ram \<sigma>'" "fs_routes \<tau> = fs_routes \<sigma>'"
    using Cons.IH[OF \<sigma>'(2)] by blast
  with \<sigma>' show ?case by (intro exI[of _ \<tau>]) simp
qed simp


lemma ffd_inv_record:
  assumes inv: "ffd_inv g X \<sigma>" and fresh: "fk \<notin> set (keys (fs_bw \<sigma>))"
  shows "ffd_inv g [] (ffd_record fk ls X \<sigma>)"
    and "keys (fs_bw (ffd_record fk ls X \<sigma>)) = keys (fs_bw \<sigma>) @ [fk]"
    and "fs_place (ffd_record fk ls X \<sigma>) = fs_place \<sigma>"
    and "fs_resource_cost (ffd_record fk ls X \<sigma>) = fs_resource_cost \<sigma>"
proof -
  let ?\<tau> = "ffd_record fk ls X \<sigma>"
  have b: "fs_bw ?\<tau> = fs_bw \<sigma> @ [(fk, X)]" by (simp add: ffd_record_def update_fresh[OF fresh])
  have keep: "fs_place ?\<tau> = fs_place \<sigma>" "fs_cpu ?\<tau> = fs_cpu \<sigma>" "fs_ram ?\<tau> = fs_ram \<sigma>"
    "run_cpu ?\<tau> = run_cpu \<sigma>" "run_ram ?\<tau> = run_ram \<sigma>" "run_bw ?\<tau> = run_bw \<sigma>"
    "fs_intra_cost ?\<tau> = fs_intra_cost \<sigma>" "fs_inter_cost ?\<tau> = fs_inter_cost \<sigma>"
    "fs_resource_cost ?\<tau> = fs_resource_cost \<sigma>"
    by (simp_all add: ffd_record_def)
  have l: "ffd_links ?\<tau> @ [] = ffd_links \<sigma> @ X" by (simp add: b)
  show "ffd_inv g [] ?\<tau>"
    using inv unfolding ffd_inv_def l keep cpu_after_def ram_after_def bw_after_def .
  show "keys (fs_bw ?\<tau>) = keys (fs_bw \<sigma>) @ [fk]" "fs_place ?\<tau> = fs_place \<sigma>"
    "fs_resource_cost ?\<tau> = fs_resource_cost \<sigma>" by (simp_all add: b keep)
qed

lemma edge_links_sound:
  assumes "edge_links g es = Inr ls"
  shows "\<exists>ds. list_all2 (\<lambda>e d. map_of (g_edges g) e = Some d) es ds \<and> ls = map link_id ds"
  using assms
proof (induction es arbitrary: ls)
  case (Cons e es)
  from Cons.prems obtain d ls' where d: "map_of (g_edges g) e = Some d" and r: "edge_links g es = Inr ls'" "ls = link_id d # ls'"
    by (cases "edge_links g es") (auto split: option.splits)
  from Cons.IH[OF r(1)] obtain ds where "list_all2 (\<lambda>e d. map_of (g_edges g) e = Some d) es ds" "ls' = map link_id ds"
    by blast
  with d r(2) show ?case by (intro exI[of _ "d # ds"]) simp
qed simp

text \<open>The routes a run adds: one per flow, each claiming the flow's demand on links of the graph.\<close>

definition routed :: "'a graph_scheme \<Rightarrow> flow_edge list \<Rightarrow> link_id list list \<Rightarrow> bool" where
  "routed g fes lss \<longleftrightarrow> length lss = length fes \<and> (\<forall>ls \<in> set lss. set ls \<subseteq> set (link_ids (g_edges g)))"

abbreviation flow_claims :: "flow_edge list \<Rightarrow> link_id list list \<Rightarrow> (flow_key, (link_id, real) dict) dict" where
  "flow_claims fes lss \<equiv> map2 (\<lambda>fe ls. (flow_key_of fe, claim_links ls (bandwidth_demand fe))) fes lss"

context path_oracle
begin

lemma ffd_path_links:
  assumes wf: "wf_graph g" and run: "shortest_bw_feasible_path nx g s t bw \<sigma> = Inr (Some ls)"
  shows "distinct ls" and "\<forall>l \<in> set ls. \<exists>(e, d) \<in> set (g_edges g). link_id d = l \<and> bw \<le> bw_after \<sigma> l d"
proof -
  from run obtain p where p: "nx_shortest_path nx (bw_view g \<sigma> bw) s t = Some p"
    and ls: "edge_links g (path_edges p) = Inr ls"
    by (cases "nx_shortest_path nx (bw_view g \<sigma> bw) s t"; cases "edge_links g (path_edges (the (nx_shortest_path nx (bw_view g \<sigma> bw) s t)))")
       (auto simp: shortest_bw_feasible_path_def)
  from shortest_path_sound[OF p] have dp: "distinct (path_edges p)"
    and view: "set (path_edges p) \<subseteq> set (keys (g_edges (bw_view g \<sigma> bw)))"
    by (simp_all add: simple_path_def distinct_path_edges)
  from edge_links_sound[OF ls] obtain ds where
    ds: "list_all2 (\<lambda>e d. map_of (g_edges g) e = Some d) (path_edges p) ds" "ls = map link_id ds" by blast
  have len: "length ds = length (path_edges p)" using ds(1) by (simp add: list_all2_lengthD)
  have nth: "(path_edges p ! i, ds ! i) \<in> set (g_edges g)" if "i < length ds" for i
    using ds(1) that len by (auto simp: list_all2_conv_all_nth dest: map_of_SomeD)
  have ids: "distinct (link_ids (g_edges g))" and de: "distinct (keys (g_edges g))"
    using wf by (simp_all add: wf_graph_def)
  show "distinct ls"
    unfolding ds(2) distinct_conv_nth
  proof (intro allI impI)
    fix i j assume ij: "i < length (map link_id ds)" "j < length (map link_id ds)" "i \<noteq> j"
    then have "path_edges p ! i \<noteq> path_edges p ! j"
      using dp len by (simp add: nth_eq_iff_index_eq)
    then show "map link_id ds ! i \<noteq> map link_id ds ! j"
      using link_id_inj[OF ids nth nth, of i j] ij by auto
  qed
  show "\<forall>l \<in> set ls. \<exists>(e, d) \<in> set (g_edges g). link_id d = l \<and> bw \<le> bw_after \<sigma> l d"
  proof
    fix l assume "l \<in> set ls"
    then obtain i where i: "i < length ds" "l = link_id (ds ! i)" by (auto simp: ds(2) in_set_conv_nth)
    then have "path_edges p ! i \<in> set (keys (g_edges (bw_view g \<sigma> bw)))"
      using view len by (metis nth_mem subsetD)
    then obtain d where d: "(path_edges p ! i, d) \<in> set (g_edges g)" "bw \<le> bw_after \<sigma> (link_id d) d"
      by (auto simp: bw_view_def)
    have "d = ds ! i"
      using map_of_is_SomeI[OF de d(1)] map_of_is_SomeI[OF de nth[OF i(1)]] by simp
    with d show "\<exists>(e, d) \<in> set (g_edges g). link_id d = l \<and> bw \<le> bw_after \<sigma> l d" using i(2) by blast
  qed
qed

lemma ffd_route_inv:
  assumes wf: "wf_graph g" and "ffd_inv g [] \<sigma>" and "distinct (map flow_key_of fes)"
    and "set (map flow_key_of fes) \<inter> set (keys (fs_bw \<sigma>)) = {}" and "keys (fs_routes \<sigma>) = keys (fs_bw \<sigma>)"
    and "ffd_route nx g fes \<sigma> = Inr (Some \<tau>)"
  shows "ffd_inv g [] \<tau> \<and> fs_place \<tau> = fs_place \<sigma> \<and> fs_cpu \<tau> = fs_cpu \<sigma> \<and> fs_ram \<tau> = fs_ram \<sigma>
    \<and> fs_resource_cost \<tau> = fs_resource_cost \<sigma>
    \<and> (\<exists>lss. routed g fes lss \<and> fs_routes \<tau> = fs_routes \<sigma> @ zip (map flow_key_of fes) lss
        \<and> fs_bw \<tau> = fs_bw \<sigma> @ flow_claims fes lss)"
  using assms(2-)
proof (induction fes arbitrary: \<sigma>)
  case Nil
  then show ?case by (simp add: routed_def)
next
  case (Cons fe fes)
  note P = Cons.prems
  let ?k = "flow_key_of fe"
  have fresh: "?k \<notin> set (keys (fs_bw \<sigma>))" and df: "distinct (map flow_key_of fes)" using P(2,3) by auto
  from P(5) obtain s t where st: "map_of (fs_place \<sigma>) (source_vnf fe) = Some s" "map_of (fs_place \<sigma>) (target_vnf fe) = Some t"
    by (auto split: option.splits)
  have step: ?case if inv: "ffd_inv g (claim_links ls (bandwidth_demand fe)) \<rho>" and k: "fs_bw \<rho> = fs_bw \<sigma>" "fs_routes \<rho> = fs_routes \<sigma>"
    and pl: "fs_place \<rho> = fs_place \<sigma>" "fs_cpu \<rho> = fs_cpu \<sigma>" "fs_ram \<rho> = fs_ram \<sigma>" and rc: "fs_resource_cost \<rho> = fs_resource_cost \<sigma>"
    and ls: "set ls \<subseteq> set (link_ids (g_edges g))"
    and rest: "ffd_route nx g fes (ffd_record ?k ls (claim_links ls (bandwidth_demand fe)) \<rho>) = Inr (Some \<tau>)" for \<rho> ls
  proof -
    let ?\<rho> = "ffd_record ?k ls (claim_links ls (bandwidth_demand fe)) \<rho>"
    have f: "?k \<notin> set (keys (fs_bw \<rho>))" and f': "?k \<notin> set (keys (fs_routes \<sigma>))"
      using fresh by (simp_all only: k P(4) simp_thms)
    note R = ffd_inv_record[OF inv f]
    have new: "fs_bw ?\<rho> = fs_bw \<sigma> @ [(?k, claim_links ls (bandwidth_demand fe))]" "fs_routes ?\<rho> = fs_routes \<sigma> @ [(?k, ls)]"
      "fs_cpu ?\<rho> = fs_cpu \<sigma>" "fs_ram ?\<rho> = fs_ram \<sigma>"
      by (simp_all add: ffd_record_def k pl update_fresh[OF fresh] update_fresh[OF f'])
    have "set (map flow_key_of fes) \<inter> set (keys (fs_bw ?\<rho>)) = {}" "keys (fs_routes ?\<rho>) = keys (fs_bw ?\<rho>)"
      unfolding new using P(2,3,4) by auto
    from Cons.IH[OF R(1) df this rest] obtain lss where
      IH: "ffd_inv g [] \<tau>" "fs_place \<tau> = fs_place ?\<rho>" "fs_cpu \<tau> = fs_cpu ?\<rho>" "fs_ram \<tau> = fs_ram ?\<rho>" "fs_resource_cost \<tau> = fs_resource_cost ?\<rho>"
      "routed g fes lss" "fs_routes \<tau> = fs_routes ?\<rho> @ zip (map flow_key_of fes) lss"
      "fs_bw \<tau> = fs_bw ?\<rho> @ flow_claims fes lss" by blast
    have "routed g (fe # fes) (ls # lss)" using IH(6) ls by (simp add: routed_def)
    moreover have "fs_routes \<tau> = fs_routes \<sigma> @ zip (map flow_key_of (fe # fes)) (ls # lss)"
      and "fs_bw \<tau> = fs_bw \<sigma> @ flow_claims (fe # fes) (ls # lss)"
      unfolding IH(7,8) new by simp_all
    ultimately show ?case using IH(1-5) R(3,4) new(3,4) pl rc by auto
  qed
  show ?case
  proof (cases "s = t")
    case True
    then show ?thesis using P(5) st step[of "[]" \<sigma>] P(1) by simp
  next
    case False
    with P(5) st obtain ls where
      ls: "shortest_bw_feasible_path nx g s t (bandwidth_demand fe) \<sigma> = Inr (Some ls)"
      by (auto split: sum.splits option.splits)
    note L = ffd_path_links[OF wf ls]
    have sub: "set ls \<subseteq> set (link_ids (g_edges g))" using L(2) by force
    from ffd_take_links[OF wf P(1) _ L(2)] L(1) obtain \<rho> where
      \<rho>: "fold_err (ffd_take_link g (bandwidth_demand fe)) ls (\<sigma>, []) = Inr (\<rho>, [] @ claim_links ls (bandwidth_demand fe))"
      "ffd_inv g ([] @ claim_links ls (bandwidth_demand fe)) \<rho>" "fs_place \<rho> = fs_place \<sigma>" "fs_bw \<rho> = fs_bw \<sigma>"
      "fs_resource_cost \<rho> = fs_resource_cost \<sigma>" "fs_cpu \<rho> = fs_cpu \<sigma>" "fs_ram \<rho> = fs_ram \<sigma>" "fs_routes \<rho> = fs_routes \<sigma>" by auto
    show ?thesis
      by (rule step[OF \<rho>(2)[simplified] \<rho>(4,8,3,6,7,5) sub]) (use P(5) st False ls \<rho>(1) in simp)
  qed
qed

end


section \<open>Properties\<close>

definition permits :: "slice_request \<Rightarrow> placement_plan \<Rightarrow> bool" where
  "permits req plan \<longleftrightarrow>
     set (keys (vnf_placements plan)) = vnf_id ` set (vnfs req)
     \<and> (\<forall>v \<in> set (vnfs req). permitted_nodes v \<noteq> [] \<longrightarrow>
          map_of (vnf_placements plan) (vnf_id v) \<in> Some ` set (permitted_nodes v))"

text \<open>A finished run for a request: its state is a state of the substrate, every VNF is on a node
  that permits it and claims its demand, every flow has one route on links of the graph.\<close>

definition ffd_served :: "'a graph_scheme \<Rightarrow> slice_request \<Rightarrow> ffd_state \<Rightarrow> bool" where
  "ffd_served g req \<sigma> \<longleftrightarrow>
     ffd_inv g [] \<sigma>
     \<and> set (keys (fs_place \<sigma>)) = vnf_id ` set (vnfs req)
     \<and> (\<forall>v \<in> set (vnfs req). permitted_nodes v \<noteq> [] \<longrightarrow> map_of (fs_place \<sigma>) (vnf_id v) \<in> Some ` set (permitted_nodes v))
     \<and> (\<forall>v \<in> set (vnfs req). map_of (fs_cpu \<sigma>) (vnf_id v) = Some (cpu_demand v)
          \<and> map_of (fs_ram \<sigma>) (vnf_id v) = Some (ram_demand v))
     \<and> (\<exists>lss. routed g (flow_edges req) lss \<and> fs_routes \<sigma> = zip (map flow_key_of (flow_edges req)) lss
          \<and> fs_bw \<sigma> = flow_claims (flow_edges req) lss)
     \<and> fs_resource_cost \<sigma> = (\<Sum>v \<leftarrow> vnfs req. cpu_demand v + ram_demand v)"

text \<open>The plans of the baselines carry the dictionaries of the finished state.\<close>

definition plan_of_state :: "placement_plan \<Rightarrow> ffd_state \<Rightarrow> bool" where
  "plan_of_state plan \<sigma> \<longleftrightarrow>
     vnf_placements plan = fs_place \<sigma> \<and> cpu_allocations plan = fs_cpu \<sigma> \<and> ram_allocations plan = fs_ram \<sigma>
     \<and> flow_routes plan = fs_routes \<sigma> \<and> bw_allocations plan = fs_bw \<sigma>"

lemma plan_of_state_ffd [simp]: "plan_of_state (ffd_plan req \<sigma>) \<sigma>"
  by (simp add: plan_of_state_def ffd_plan_def)

abbreviation ffd_order :: "vnf list \<Rightarrow> vnf list" where
  "ffd_order \<equiv> sort_key (\<lambda>v. (- cpu_demand v, - ram_demand v, vnf_id v))"

lemma ffd_order_distinct: "wf_request req \<Longrightarrow> distinct (map vnf_id (ffd_order (vnfs req)))"
proof -
  have "mset (map vnf_id (ffd_order (vnfs req))) = mset (map vnf_id (vnfs req))" by (simp add: mset_map)
  then show "wf_request req \<Longrightarrow> ?thesis" unfolding wf_request_def by (metis mset_eq_imp_distinct_iff)
qed

text \<open>Placement of the VNFs in the order of the baselines, from the start.\<close>

lemma put_run_placed:
  assumes run: "put_run g A (ffd_order (vnfs req)) ffd_start \<sigma>" and wf: "wf_graph g" and req: "wf_request req"
  shows "ffd_inv g [] \<sigma>" and "set (keys (fs_place \<sigma>)) = vnf_id ` set (vnfs req)"
    and "\<forall>v \<in> set (vnfs req). permitted_nodes v \<noteq> [] \<longrightarrow> map_of (fs_place \<sigma>) (vnf_id v) \<in> Some ` set (permitted_nodes v)"
    and "\<forall>v \<in> set (vnfs req). map_of (fs_cpu \<sigma>) (vnf_id v) = Some (cpu_demand v)
          \<and> map_of (fs_ram \<sigma>) (vnf_id v) = Some (ram_demand v)"
    and "fs_bw \<sigma> = []" and "fs_routes \<sigma> = []" and "snd ` set (fs_place \<sigma>) \<subseteq> A"
    and "fs_resource_cost \<sigma> = (\<Sum>v \<leftarrow> vnfs req. cpu_demand v + ram_demand v)"
proof -
  have start: "fs_place ffd_start = []" "fs_bw ffd_start = []" "fs_routes ffd_start = []"
    "fs_resource_cost ffd_start = 0" by (simp_all add: ffd_start_def)
  note P = put_run_inv[OF run wf ffd_inv_start ffd_order_distinct[OF req], simplified start, simplified]
  have sum: "(\<Sum>v \<leftarrow> vs. cpu_demand v + ram_demand v) = sum_mset (image_mset (\<lambda>v. cpu_demand v + ram_demand v) (mset vs))"
    for vs :: "vnf list" by (simp flip: sum_mset_sum_list)
  have "keys (fs_place \<sigma>) = map vnf_id (ffd_order (vnfs req))" using P by blast
  then have "set (keys (fs_place \<sigma>)) = set (map vnf_id (ffd_order (vnfs req)))" by (simp only:)
  then show "set (keys (fs_place \<sigma>)) = vnf_id ` set (vnfs req)" by (simp only: set_map set_sort)
  show "fs_resource_cost \<sigma> = (\<Sum>v \<leftarrow> vnfs req. cpu_demand v + ram_demand v)"
    using P unfolding sum by simp
  show "ffd_inv g [] \<sigma>" "fs_bw \<sigma> = []" "fs_routes \<sigma> = []" "snd ` set (fs_place \<sigma>) \<subseteq> A"
    "\<forall>v \<in> set (vnfs req). permitted_nodes v \<noteq> [] \<longrightarrow> map_of (fs_place \<sigma>) (vnf_id v) \<in> Some ` set (permitted_nodes v)"
    "\<forall>v \<in> set (vnfs req). map_of (fs_cpu \<sigma>) (vnf_id v) = Some (cpu_demand v)
          \<and> map_of (fs_ram \<sigma>) (vnf_id v) = Some (ram_demand v)"
    using P by blast+
qed

context path_oracle
begin

lemma placed_routed_served:
  assumes run: "put_run g A (ffd_order (vnfs req)) ffd_start \<sigma>" and wf: "wf_graph g" and req: "wf_request req"
    and route: "ffd_route nx g (flow_edges req) \<sigma> = Inr (Some \<tau>)"
  shows "ffd_served g req \<tau>" and "fs_place \<tau> = fs_place \<sigma>"
proof -
  note P = put_run_placed[OF run wf req]
  have "distinct (map flow_key_of (flow_edges req))" using req by (simp add: wf_request_def)
  from ffd_route_inv[OF wf P(1) this _ _ route] have
    Q: "ffd_inv g [] \<tau>" "fs_place \<tau> = fs_place \<sigma>" "fs_cpu \<tau> = fs_cpu \<sigma>" "fs_ram \<tau> = fs_ram \<sigma>"
    "fs_resource_cost \<tau> = fs_resource_cost \<sigma>"
    "\<exists>lss. routed g (flow_edges req) lss \<and> fs_routes \<tau> = zip (map flow_key_of (flow_edges req)) lss
          \<and> fs_bw \<tau> = flow_claims (flow_edges req) lss"
    by (simp_all add: P(5,6))
  show "fs_place \<tau> = fs_place \<sigma>" by (rule Q(2))
  show "ffd_served g req \<tau>"
    unfolding ffd_served_def Q(2-5) using Q(1,6) P(2,3,4,8) by blast
qed

lemma run_greedy_ffd_feasible:
  assumes wf: "wf_graph g" and req: "wf_request req" and run: "run_greedy_ffd nx g req cfg = Inr r"
    and ok: "gr_feasible r"
  obtains \<sigma> where "r = ffd_result req cfg \<sigma>" and "ffd_served g req \<sigma>"
proof -
  from run ok obtain \<sigma> \<tau> where p: "ffd_place g (ffd_order (vnfs req)) ffd_start = Inr (Some \<sigma>)"
    and q: "ffd_route nx g (flow_edges req) \<sigma> = Inr (Some \<tau>)" and r: "r = ffd_result req cfg \<tau>"
    by (auto simp: run_greedy_ffd_def ffd_failed_def split: sum.splits option.splits)
  from placed_routed_served[OF ffd_place_run[OF wf p] wf req q] that r show thesis by blast
qed

lemma ffd_allocates:
  assumes "wf_graph S" and "ffd_inv S [] \<sigma>" and "request_id req \<notin> set (keys (active_slices S))"
    and pl: "plan_of_state plan \<sigma>"
  obtains T where "allocate S plan req = Inr T" and "no_overbooking S \<Longrightarrow> no_overbooking T"
    and "fs_intra_cost \<sigma> + fs_inter_cost \<sigma> = (\<Sum>(l, x) \<leftarrow> link_claims plan. x)"
proof -
  note I = ffd_invD[OF assms(2)]
  have nc: "node_claims plan = ffd_nodes \<sigma>" "link_claims plan = ffd_links \<sigma> @ []"
    using pl by (simp_all add: node_claims_def link_claims_def plan_of_state_def)
  have "v \<in> set (keys (fs_place \<sigma>)) \<and> n \<in> set (vals (fs_place \<sigma>))" if "(v, n) \<in> set (fs_place \<sigma>)" for v n
    using that by force
  then have "plan_resolves plan S"
    using pl I(8) unfolding plan_resolves_def plan_of_state_def by (auto simp only: I(2,3))
  then have 1: "allocate S plan req = Inr ((charge (node_claims plan) (link_claims plan) S)
      \<lparr>active_slices := active_slices S @ [(request_id req, plan, req)]\<rparr>)"
    using assms(3) by (simp add: allocate_Inr_iff)
  have 2: "no_overbooking ((charge (node_claims plan) (link_claims plan) S)
      \<lparr>active_slices := active_slices S @ [(request_id req, plan, req)]\<rparr>)" if "no_overbooking S"
    using I(7)[OF that] unfolding nc no_overbooking_def by simp
  have 3: "fs_intra_cost \<sigma> + fs_inter_cost \<sigma> = (\<Sum>(l, x) \<leftarrow> link_claims plan. x)"
    unfolding nc by (rule I(9))
  from that[OF 1 2 3] show thesis by blast
qed

end

text \<open>The greedy evaluation agent either changes nothing (and reports infinite cost) or
  allocates a complete plan: every VNF on a permitted node, nothing over-booked, and the cost is
  the configured weighting of what the plan takes.\<close>

theorem greedy_place_correct:
  assumes nx: "path_oracle nx" and wf: "wf_graph S" and req: "wf_request req"
    and run: "greedy_place_on_substrate nx S req cfg = Inr (T, r)"
  shows "if gr_feasible r
    then \<exists>plan. gr_plan r = Some plan \<and> allocate S plan req = Inr T \<and> permits req plan
       \<and> (no_overbooking S \<longrightarrow> no_overbooking T)
       \<and> gr_cost r = Fin (gc_alpha cfg * (\<Sum>v \<leftarrow> vnfs req. cpu_demand v + ram_demand v)
                          + gc_gamma_intra cfg * gr_intra_bw r + gc_gamma_inter cfg * gr_inter_bw r)
       \<and> gr_intra_bw r + gr_inter_bw r = (\<Sum>(l, x) \<leftarrow> link_claims plan. x)
    else T = S \<and> gr_cost r = PInf \<and> gr_plan r = None"
proof (cases "gr_feasible r")
  case True
  from run obtain res where res: "run_greedy_ffd nx S req cfg = Inr res"
    and rest: "(case gr_plan res of
             Some plan \<Rightarrow>
               if gr_feasible res then map_sum id (\<lambda>T. (T, res)) (allocate S plan req) else Inr (S, res)
           | None \<Rightarrow> Inr (S, res)) = Inr (T, r)"
    by (auto simp: greedy_place_on_substrate_def split: sum.splits)
  then have "r = res" by (auto simp: map_sum_def split: option.splits if_splits sum.splits)
  note res = res[folded this] and rest = rest[folded this]
  obtain \<sigma> where \<sigma>0: "r = ffd_result req cfg \<sigma>" and sv: "ffd_served S req \<sigma>"
    by (rule path_oracle.run_greedy_ffd_feasible[OF nx wf req res True])
  have \<sigma>: "r = ffd_result req cfg \<sigma>" "ffd_inv S [] \<sigma>" "permits req (ffd_plan req \<sigma>)"
    "fs_resource_cost \<sigma> = (\<Sum>v \<leftarrow> vnfs req. cpu_demand v + ram_demand v)"
    using \<sigma>0 sv unfolding ffd_served_def permits_def ffd_plan_def placement_plan.simps by blast+
  have al: "allocate S (ffd_plan req \<sigma>) req = Inr T"
    using rest True by (auto simp: \<sigma>(1) ffd_result_def map_sum_def split: sum.splits)
  then have "request_id req \<notin> set (keys (active_slices S))" by (simp add: allocate_Inr_iff)
  from path_oracle.ffd_allocates[OF nx wf \<sigma>(2) this plan_of_state_ffd] al obtain
    ob: "no_overbooking S \<Longrightarrow> no_overbooking T"
    and bw: "fs_intra_cost \<sigma> + fs_inter_cost \<sigma> = (\<Sum>(l, x) \<leftarrow> link_claims (ffd_plan req \<sigma>). x)"
    by (metis Inr_inject)
  show ?thesis
    using True al ob bw \<sigma>(3) by (simp add: \<sigma>(1,4) ffd_result_def)
next
  case False
  then show ?thesis
    using run by (auto simp: greedy_place_on_substrate_def run_greedy_ffd_def ffd_failed_def ffd_result_def
        map_sum_def split: sum.splits option.splits if_splits)
qed

theorem greedy_place_correct_witness:
  "\<exists>T r plan. greedy_place_on_substrate dfs_nx ex_sub ex_req default_greedy_config = Inr (T, r)
     \<and> gr_feasible r \<and> gr_cost r = Fin 20 \<and> gr_plan r = Some plan \<and> allocate ex_sub plan ex_req = Inr T
     \<and> no_overbooking T"
proof -
  let ?r = "projr (greedy_place_on_substrate dfs_nx ex_sub ex_req default_greedy_config)"
  have run: "greedy_place_on_substrate dfs_nx ex_sub ex_req default_greedy_config = Inr (fst ?r, snd ?r)"
    and f: "gr_feasible (snd ?r)" "gr_cost (snd ?r) = Fin 20" and h: "wf_graph ex_sub" "wf_request ex_req" "no_overbooking ex_sub"
    by code_simp+
  from greedy_place_correct[OF dfs_oracle.path_oracle_axioms h(1,2) run, unfolded if_P[OF f(1)]] obtain plan where
    "gr_plan (snd ?r) = Some plan" "allocate ex_sub plan ex_req = Inr (fst ?r)" "no_overbooking (fst ?r)"
    using h(3) by blast
  with run f show ?thesis by blast
qed

end
