(* ===== verification/Episode.thy ===== *)
theory Episode
  imports Commit Greedy_FFD Arrival_Process
begin

text \<open>
  One episode (\<open>src/src/orion/sim/episode_runner.py\<close>, \<open>sim/rollout_buffer.py\<close> and the Gym
  wrapper \<open>sim/env.py\<close>): arrivals are decided by the coordinator, committed with one
  \<open>allocate\<close>, verified, revoked when a hard penalty fires; departures give everything back.
  \<open>None\<close>-valued callbacks (\<open>on_decision\<close>, \<open>on_arrival\<close>), profiling spans and the tensors stored
  for replay are left out. \<open>inter_domain_delays\<close> is only handed to the coordinator, which does
  not read it.
\<close>

section \<open>Statistics and rollout\<close>

record episode_stats =
  es_total :: nat
  es_admitted :: nat
  es_rejected :: nat
  es_structural :: nat
  es_departures :: nat
  es_penalties :: nat
  es_plan_failures :: nat
  es_reward :: real
  es_type_admitted :: "(slice_type, nat) dict"
  es_type_total :: "(slice_type, nat) dict"

definition no_stats :: episode_stats where
  "no_stats = \<lparr>es_total = 0, es_admitted = 0, es_rejected = 0, es_structural = 0, es_departures = 0,
     es_penalties = 0, es_plan_failures = 0, es_reward = 0, es_type_admitted = [], es_type_total = []\<rparr>"

definition admission_rate :: "episode_stats \<Rightarrow> real" where
  "admission_rate st = (if es_total st = 0 then 0 else real (es_admitted st) / real (es_total st))"

record mdo_transition =
  mt_request :: string
  mt_action :: "int list"
  mt_reward :: real
  mt_committed :: bool
  mt_e2e_delay :: real
  mt_cost :: real
  mt_suggested :: "int list"

record actor_transition =
  at_request :: string
  at_domain :: int
  at_accepted :: bool
  at_intra_delay :: real
  at_cost :: real
  at_reward :: real

record rollout =
  ro_mdo :: "mdo_transition list"
  ro_actor :: "(int, actor_transition list) dict"

definition empty_rollout :: rollout where
  "empty_rollout = \<lparr>ro_mdo = [], ro_actor = []\<rparr>"

definition append_mdo :: "mdo_transition \<Rightarrow> rollout \<Rightarrow> rollout" where
  "append_mdo t ro = ro\<lparr>ro_mdo := ro_mdo ro @ [t]\<rparr>"

definition append_domain_actor :: "actor_transition \<Rightarrow> rollout \<Rightarrow> rollout" where
  "append_domain_actor t ro =
     ro\<lparr>ro_actor := AList.update (at_domain t) (get_default (ro_actor ro) (at_domain t) [] @ [t]) (ro_actor ro)\<rparr>"

definition clear_rollout :: "rollout \<Rightarrow> rollout" where
  "clear_rollout ro = ro\<lparr>ro_mdo := [], ro_actor := []\<rparr>"

definition num_mdo_transitions :: "rollout \<Rightarrow> nat" where
  "num_mdo_transitions ro = length (ro_mdo ro)"

definition num_domain_actor_transitions :: "rollout \<Rightarrow> nat" where
  "num_domain_actor_transitions ro = (\<Sum>xs \<leftarrow> vals (ro_actor ro). length xs)"

record trace_entry =
  te_index :: nat
  te_rid :: string
  te_k :: nat
  te_partition :: "int list option"
  te_committed :: bool
  te_admit :: bool

record episode =
  ep_stats :: episode_stats
  ep_rollout :: rollout
  ep_results :: "mdo_result list"
  ep_trace :: "trace_entry list"

definition new_episode :: episode where
  "new_episode = \<lparr>ep_stats = no_stats, ep_rollout = empty_rollout, ep_results = [], ep_trace = []\<rparr>"

section \<open>The runner\<close>

type_synonym plan_builder = "slice_request \<Rightarrow> substrate \<Rightarrow> plan_summary option"

record runner =
  rn_sub :: substrate
  rn_process :: arrival_process
  rn_coordinator :: coordinator
  rn_counters :: mdo_counters
  rn_weights :: reward_weights
  rn_builder :: plan_builder
  rn_max_hops :: nat
  rn_plans :: "(string, placement_plan) dict"
  rn_requests :: "(string, slice_request) dict"

text \<open>\<open>reset\<close>; the draws of the new stream are arguments.\<close>

definition reset_runner :: "real list \<Rightarrow> real list \<Rightarrow> runner \<Rightarrow> runner" where
  "reset_runner gaps lifes rn =
     rn\<lparr>rn_sub := reset_substrate (rn_sub rn), rn_process := generate gaps lifes (rn_process rn),
        rn_plans := [], rn_requests := []\<rparr>"

definition handle_departure :: "string \<Rightarrow> runner \<times> episode_stats \<Rightarrow> py_error + (runner \<times> episode_stats)" where
  "handle_departure rid = (\<lambda>(rn, st).
     let rn' = rn\<lparr>rn_plans := AList.delete rid (rn_plans rn), rn_requests := AList.delete rid (rn_requests rn)\<rparr>
     in case (map_of (rn_plans rn) rid, map_of (rn_requests rn) rid) of
          (Some plan, Some req) \<Rightarrow>
            (case deallocate (rn_sub rn) plan req of
               Inl e \<Rightarrow> Inl e
             | Inr T \<Rightarrow> Inr (rn'\<lparr>rn_sub := T\<rparr>, st\<lparr>es_departures := es_departures st + 1\<rparr>))
        | _ \<Rightarrow> Inr (rn', st))"

text \<open>
  From the coordinator's result to the final outcome: build the plan, allocate, verify, revoke
  or register. The result, the verdict, the runner and the counters come back.
\<close>

definition settle :: "slice_request \<Rightarrow> mdo_result \<Rightarrow> runner \<Rightarrow> episode_stats
    \<Rightarrow> py_error + (mdo_result \<times> verdict option \<times> runner \<times> episode_stats)" where
  "settle req r rn st =
     (if \<not> mr_admitted r \<or> mr_partition r = None then Inr (r, None, rn, st)
      else case build_placement_plan req r of
          Inl e \<Rightarrow> Inl e
        | Inr None \<Rightarrow>
            Inr (r\<lparr>mr_admitted := False, mr_revoked_by := Some [''PLAN_BUILD'']\<rparr>, None, rn,
                 st\<lparr>es_plan_failures := es_plan_failures st + 1\<rparr>)
        | Inr (Some plan) \<Rightarrow>
        (case allocate (rn_sub rn) plan req of
           Inl e \<Rightarrow> Inl e
         | Inr S' \<Rightarrow>
        (case verify_committed_plan S' plan req (rn_max_hops rn) of
           Inl e \<Rightarrow> Inl e
         | Inr v \<Rightarrow>
             if hard_penalty_fired v
             then (case deallocate S' plan req of
                     Inl e \<Rightarrow> Inl e
                   | Inr T \<Rightarrow> Inr (r\<lparr>mr_admitted := False, mr_revoked_by := Some (vd_violated v)\<rparr>, Some v,
                                   rn\<lparr>rn_sub := T\<rparr>, st\<lparr>es_penalties := es_penalties st + 1\<rparr>))
             else Inr (r, Some v,
                       rn\<lparr>rn_sub := S', rn_plans := AList.update (request_id req) plan (rn_plans rn),
                          rn_requests := AList.update (request_id req) req (rn_requests rn)\<rparr>, st))))"

definition update_stats :: "slice_request \<Rightarrow> mdo_result \<Rightarrow> real \<Rightarrow> episode_stats \<Rightarrow> episode_stats" where
  "update_stats req r reward st =
     (let st1 = st\<lparr>es_reward := es_reward st + reward\<rparr> in
      if mr_admitted r
      then st1\<lparr>es_admitted := es_admitted st1 + 1,
               es_type_admitted := add_at (stype req) 1 (es_type_admitted st1)\<rparr>
      else st1\<lparr>es_rejected := es_rejected st1 + 1\<rparr>)"

definition append_rollout :: "slice_request \<Rightarrow> mdo_result \<Rightarrow> real \<Rightarrow> plan_summary option \<Rightarrow> rollout \<Rightarrow> rollout" where
  "append_rollout req r reward ps ro =
     (case mr_decision r of
        None \<Rightarrow> ro
      | Some de \<Rightarrow>
          fold (\<lambda>(d, x). append_domain_actor
                  \<lparr>at_request = request_id req, at_domain = d, at_accepted = dr_feasible x,
                   at_intra_delay = dr_intra_delay x, at_cost = dr_cost x, at_reward = reward\<rparr>)
            (pd_responses de)
            (append_mdo \<lparr>mt_request = request_id req, mt_action = pd_partition de, mt_reward = reward,
                mt_committed = True, mt_e2e_delay = pd_e2e_delay de, mt_cost = pd_total_cost de,
                mt_suggested = (case ps of None \<Rightarrow> [] | Some p \<Rightarrow> ps_suggested p)\<rparr> ro))"

definition trace_of :: "nat \<Rightarrow> slice_request \<Rightarrow> mdo_result \<Rightarrow> trace_entry" where
  "trace_of i req r =
     \<lparr>te_index = i, te_rid = request_id req, te_k = length (vnfs req),
      te_partition = (case mr_decision r of Some de \<Rightarrow> Some (pd_partition de) | None \<Rightarrow> mr_partition r),
      te_committed = (mr_partition r \<noteq> None), te_admit = mr_admitted r\<rparr>"

text \<open>\<open>rnd i\<close> are the random draws made for the arrival with index \<open>i\<close>.\<close>

definition handle_arrival :: "nx_lib \<Rightarrow> string \<Rightarrow> (nat \<Rightarrow> nat \<Rightarrow> nat \<Rightarrow> nat) \<Rightarrow> slice_request
    \<Rightarrow> runner \<times> episode \<Rightarrow> py_error + (runner \<times> episode)" where
  "handle_arrival nx mode rnd req = (\<lambda>(rn, ep).
     let st0 = ep_stats ep; i = es_total st0;
         st1 = st0\<lparr>es_total := es_total st0 + 1, es_type_total := add_at (stype req) 1 (es_type_total st0)\<rparr>
     in case rn_builder rn req (rn_sub rn) of
          None \<Rightarrow> Inr (rn, ep\<lparr>ep_stats := st1\<lparr>es_structural := es_structural st1 + 1\<rparr>\<rparr>)
        | Some ps \<Rightarrow>
     (case compute_cost_greedy nx (rn_sub rn) req default_greedy_config of
        Inl e \<Rightarrow> Inl e
      | Inr cost \<Rightarrow>
     (case resolve_arrival nx (rn_coordinator rn) (rnd i) (rn_sub rn) req ps mode
             (case cost of Fin c \<Rightarrow> Some c | PInf \<Rightarrow> None) (rn_counters rn) of
        Inl e \<Rightarrow> Inl e
      | Inr (T, r, ct) \<Rightarrow>
     (case settle req r (rn\<lparr>rn_sub := T, rn_counters := ct\<rparr>) st1 of
        Inl e \<Rightarrow> Inl e
      | Inr (r', v, rn', st2) \<Rightarrow>
          let (reward, comps) = finalize_reward (mr_reward r') (mr_admitted r') v (rn_weights rn');
              r'' = r'\<lparr>mr_reward := comps\<rparr>
          in Inr (rn', \<lparr>ep_stats = update_stats req r'' reward st2,
                        ep_rollout = append_rollout req r'' reward (Some ps) (ep_rollout ep),
                        ep_results = ep_results ep @ [r''],
                        ep_trace = ep_trace ep @ [trace_of i req r'']\<rparr>)))))"

definition handle_event :: "nx_lib \<Rightarrow> string \<Rightarrow> (nat \<Rightarrow> nat \<Rightarrow> nat \<Rightarrow> nat) \<Rightarrow> sim_event
    \<Rightarrow> runner \<times> episode \<Rightarrow> py_error + (runner \<times> episode)" where
  "handle_event nx mode rnd e = (\<lambda>(rn, ep).
     if ev_type e = DEPARTURE
     then map_sum id (\<lambda>(rn', st). (rn', ep\<lparr>ep_stats := st\<rparr>)) (handle_departure (ev_request e) (rn, ep_stats ep))
     else case ev_slice e of
         None \<Rightarrow> Inl AssertionError
       | Some req \<Rightarrow> handle_arrival nx mode rnd req (rn, ep))"

text \<open>The loop \<open>while has_next\<close>: every turn takes one event off the stream.\<close>

function run_loop :: "nx_lib \<Rightarrow> string \<Rightarrow> (nat \<Rightarrow> nat \<Rightarrow> nat \<Rightarrow> nat) \<Rightarrow> runner \<times> episode
    \<Rightarrow> py_error + (runner \<times> episode)" where
  "run_loop nx mode rnd (rn, ep) =
     (if \<not> has_next (rn_process rn) then Inr (rn, ep)
      else case next_event (rn_process rn) of
          Inl e \<Rightarrow> Inl e
        | Inr (e, p) \<Rightarrow>
            (case handle_event nx mode rnd e (rn\<lparr>rn_process := p\<rparr>, ep) of
               Inl err \<Rightarrow> Inl err
             | Inr (rn', ep') \<Rightarrow> run_loop nx mode rnd (rn', ep')))"
  by pat_completeness auto

text \<open>No handler touches the stream.\<close>

lemma handle_departure_stream:
  "handle_departure rid (rn\<lparr>rn_process := p\<rparr>, st)
   = map_sum id (\<lambda>(rn', st'). (rn'\<lparr>rn_process := p\<rparr>, st')) (handle_departure rid (rn, st))"
  by (auto simp: handle_departure_def Let_def split: option.splits sum.splits)

lemma settle_stream:
  "settle req r (rn\<lparr>rn_process := p\<rparr>) st
   = map_sum id (\<lambda>(r', v, rn', st'). (r', v, rn'\<lparr>rn_process := p\<rparr>, st')) (settle req r rn st)"
  by (auto simp: settle_def split: sum.splits option.splits)

lemma handle_arrival_stream:
  "handle_arrival nx mode rnd req (rn\<lparr>rn_process := p\<rparr>, ep)
   = map_sum id (\<lambda>(rn', ep'). (rn'\<lparr>rn_process := p\<rparr>, ep')) (handle_arrival nx mode rnd req (rn, ep))"
proof -
  have swap: "rn\<lparr>rn_process := p, rn_sub := T, rn_counters := ct\<rparr> = rn\<lparr>rn_sub := T, rn_counters := ct\<rparr>\<lparr>rn_process := p\<rparr>" for T ct
    by simp
  have "settle req r (rn\<lparr>rn_process := p, rn_sub := T, rn_counters := ct\<rparr>) st
      = map_sum id (\<lambda>(r', v, rn', st'). (r', v, rn'\<lparr>rn_process := p\<rparr>, st')) (settle req r (rn\<lparr>rn_sub := T, rn_counters := ct\<rparr>) st)"
    for T ct r st unfolding swap by (rule settle_stream)
  then show ?thesis
    by (auto simp: handle_arrival_def Let_def split: option.splits sum.splits prod.splits)
qed

lemma handle_event_stream:
  "handle_event nx mode rnd e (rn\<lparr>rn_process := p\<rparr>, ep)
   = map_sum id (\<lambda>(rn', ep'). (rn'\<lparr>rn_process := p\<rparr>, ep')) (handle_event nx mode rnd e (rn, ep))"
  unfolding handle_event_def
  by (auto simp: handle_departure_stream handle_arrival_stream split: option.splits sum.splits)
     (auto simp: map_sum_def split: sum.splits)

lemma handle_event_process:
  assumes "handle_event nx mode rnd e (rn, ep) = Inr (rn', ep')"
  shows "rn_process rn' = rn_process rn"
proof -
  have "handle_event nx mode rnd e (rn\<lparr>rn_process := rn_process rn\<rparr>, ep)
    = map_sum id (\<lambda>(rn', ep'). (rn'\<lparr>rn_process := rn_process rn\<rparr>, ep')) (Inr (rn', ep'))"
    unfolding handle_event_stream assms ..
  then have "rn' = rn'\<lparr>rn_process := rn_process rn\<rparr>" using assms by simp
  then show ?thesis by (metis runner.select_convs(2) runner.surjective runner.update_convs(2))
qed

termination run_loop
proof (relation "measure (\<lambda>(nx, mode, rnd, rn, ep). length (ap_events (rn_process rn)) - ap_idx (rn_process rn))")
  fix nx mode rnd rn ep v e p z rn' ep'
  assume h: "\<not> \<not> has_next (rn_process rn)" and n: "next_event (rn_process rn) = Inr v" "(e, p) = v"
    and e: "handle_event nx mode rnd e (rn\<lparr>rn_process := p\<rparr>, ep) = Inr z" "(rn', ep') = z"
  have "rn_process rn' = p" using handle_event_process[of nx mode rnd e "rn\<lparr>rn_process := p\<rparr>" ep rn' ep'] e by simp
  moreover have "p = (rn_process rn)\<lparr>ap_idx := ap_idx (rn_process rn) + 1\<rparr>"
    using next_event_Inr[of "rn_process rn"] h n by auto
  ultimately show "((nx, mode, rnd, rn', ep'), nx, mode, rnd, rn, ep)
    \<in> measure (\<lambda>(nx, mode, rnd, rn, ep). length (ap_events (rn_process rn)) - ap_idx (rn_process rn))"
    using h by (simp add: has_next_def)
qed simp

declare run_loop.simps [simp del]

definition run_episode :: "nx_lib \<Rightarrow> string \<Rightarrow> (nat \<Rightarrow> nat \<Rightarrow> nat \<Rightarrow> nat) \<Rightarrow> runner \<Rightarrow> py_error + (runner \<times> episode)" where
  "run_episode nx mode rnd rn = run_loop nx mode rnd (rn, new_episode)"

end
