(* ===== verification/Plan_Cache.thy ===== *)
theory Plan_Cache
  imports Condition_Signature Episode
begin

text \<open>
  The plan cache (\<open>src/src/orion/llm/plan_cache.py\<close>): bucketing of a request, the cache key, the
  abstract plan and its grafting onto a request, and the bounded least-recently-used dictionary;
  and the wrapper \<open>_cached_plan_builder\<close> of \<open>src/scripts/wp7_runner.py\<close> that serves a plan builder
  through it. The entries are an association list from least to most recently used, as the
  insertion-ordered dictionary of the code is. The wrapped builder is a parameter; it may be a
  different one at every call, as a language model is.
\<close>

section \<open>The key\<close>

definition qos_bucket :: "qos_requirements \<Rightarrow> string" where
  "qos_bucket q = (if max_e2e_delay q < 10 then ''tight'' else if max_e2e_delay q < 50 then ''medium'' else ''loose'')"

definition coarse_signature :: "slice_request \<Rightarrow> slice_type \<times> string" where
  "coarse_signature req = (stype req, qos_bucket (qos_of req))"

definition sfc_template :: "slice_request \<Rightarrow> string list" where
  "sfc_template req = map vnf_type (vnfs req)"

text \<open>The label of the first bound above the value, or the last label.\<close>

definition bucket_label :: "(real \<times> string) list \<Rightarrow> string \<Rightarrow> real \<Rightarrow> string" where
  "bucket_label bs beyond x = (case List.find (\<lambda>(hi, name). x < hi) bs of None \<Rightarrow> beyond | Some (hi, name) \<Rightarrow> name)"

definition delay_bucket :: "qos_requirements \<Rightarrow> string" where
  "delay_bucket q =
     bucket_label [(5, ''d<5''), (10, ''d5-10''), (20, ''d10-20''), (50, ''d20-50''), (100, ''d50-100'')] ''d100+''
       (max_e2e_delay q)"

definition throughput_bucket :: "qos_requirements \<Rightarrow> string" where
  "throughput_bucket q =
     bucket_label [(10, ''t<10''), (50, ''t10-50''), (100, ''t50-100''), (250, ''t100-250''), (500, ''t250-500'')] ''t500+''
       (min_throughput q)"

type_synonym plan_key = "slice_type \<times> string \<times> string \<times> string list"

definition plan_signature :: "slice_request \<Rightarrow> plan_key" where
  "plan_signature req = (stype req, delay_bucket (qos_of req), throughput_bucket (qos_of req), sfc_template req)"

definition domain_step :: real where
  "domain_step = 25 / 100"

definition quantise :: "real \<Rightarrow> real \<Rightarrow> real" where
  "quantise x step = py_round (real_of_int (round_half_even (x / step)) * step) 4"

text \<open>
  A missing field reads as zero or empty. \<open>per_domain\<close> is the switch
  \<open>USE_PER_DOMAIN_CONDITION_KEY\<close>; the tuples it appends are the last component.
\<close>

type_synonym condition_terms = "real \<times> real list \<times> (real list \<times> real list) option"

definition condition_key :: "bool \<Rightarrow> condition \<Rightarrow> real \<Rightarrow> real \<Rightarrow> condition_terms" where
  "condition_key per_domain c cpu_step tier_step =
     (let tiers = (case cd_tier_cpu c of None \<Rightarrow> [] | Some ts \<Rightarrow> ts);
          listed = (\<lambda>x. map (\<lambda>v. quantise v domain_step) (case x of None \<Rightarrow> [] | Some vs \<Rightarrow> vs))
      in (quantise (case cd_cpu c of None \<Rightarrow> 0 | Some x \<Rightarrow> x) cpu_step,
          map (\<lambda>t. quantise (get_default tiers t 0) tier_step) (sort_key tier_value (keys tiers)),
          if per_domain then Some (listed (cd_domain_cpu c), listed (cd_domain_ram c)) else None))"

type_synonym profile = "plan_key \<times> condition_terms option"

definition plan_profile :: "bool \<Rightarrow> slice_request \<Rightarrow> condition option \<Rightarrow> profile" where
  "plan_profile per_domain req c =
     (plan_signature req, map_option (\<lambda>c. condition_key per_domain c (10 / 100) (25 / 100)) c)"

section \<open>Abstract plans\<close>

record abstract_plan =
  ab_template :: "string list"
  ab_tiers :: "tier list"
  ab_suggested :: "int list"

definition instantiate_plan :: "abstract_plan \<Rightarrow> slice_request \<Rightarrow> py_error + plan_summary" where
  "instantiate_plan ab req =
     (if map vnf_type (vnfs req) \<noteq> ab_template ab then Inl ValueError
      else Inr \<lparr>ps_vnf_ids = map vnf_id (vnfs req), ps_tiers = ab_tiers ab, ps_suggested = ab_suggested ab,
                ps_cpu = map cpu_demand (vnfs req), ps_ram = map ram_demand (vnfs req),
                ps_vcrs = map vcr (vnfs req), ps_bw = map bandwidth_demand (flow_edges req)\<rparr>)"

definition revalidate_plan :: "abstract_plan \<Rightarrow> 'a graph_scheme \<Rightarrow> bool" where
  "revalidate_plan ab g =
     (let present = map (\<lambda>(n, d). (domain_id d, node_tier d)) (g_nodes g)
      in list_all (\<lambda>(t, m). (m, t) \<in> set present) (zip (ab_tiers ab) (ab_suggested ab)))"

section \<open>The cache\<close>

record 'p cache_entry =
  ce_plan :: 'p
  ce_stale :: bool
  ce_hits :: nat
  ce_refreshed :: nat

definition new_entry :: "'p \<Rightarrow> 'p cache_entry" where
  "new_entry p = \<lparr>ce_plan = p, ce_stale = False, ce_hits = 0, ce_refreshed = 0\<rparr>"

definition max_expected_size :: nat where
  "max_expected_size = 16"

record ('k, 'p) plan_cache =
  pc_capacity :: "nat option"
  pc_entries :: "('k, 'p cache_entry) dict"

definition new_cache :: "nat option \<Rightarrow> ('k, 'p) plan_cache" where
  "new_cache cap = \<lparr>pc_capacity = cap, pc_entries = []\<rparr>"

definition cache_size :: "('k, 'p) plan_cache \<Rightarrow> nat" where
  "cache_size c = length (pc_entries c)"

text \<open>\<open>_touch\<close>: a bounded cache moves the entry to the end.\<close>

definition touch :: "'k \<Rightarrow> ('k, 'p) plan_cache \<Rightarrow> ('k, 'p) plan_cache" where
  "touch k c =
     (case (pc_capacity c, map_of (pc_entries c) k) of
        (Some cap, Some e) \<Rightarrow> c\<lparr>pc_entries := AList.delete k (pc_entries c) @ [(k, e)]\<rparr>
      | _ \<Rightarrow> c)"

fun evict :: "nat \<Rightarrow> ('k, 'e) dict \<Rightarrow> ('k, 'e) dict" where
  "evict cap [] = []"
| "evict cap (x # xs) = (if cap < length (x # xs) then evict cap xs else x # xs)"

definition enforce_size :: "('k, 'p) plan_cache \<Rightarrow> py_error + ('k, 'p) plan_cache" where
  "enforce_size c =
     (case pc_capacity c of
        None \<Rightarrow> if max_expected_size < length (pc_entries c) then Inl RuntimeError else Inr c
      | Some cap \<Rightarrow> Inr (c\<lparr>pc_entries := evict cap (pc_entries c)\<rparr>))"

text \<open>A hit counts on the entry itself, then moves it; the entry returned is the counted one.\<close>

definition cache_get :: "'k \<Rightarrow> ('k, 'p) plan_cache \<Rightarrow> 'p cache_entry option \<times> ('k, 'p) plan_cache" where
  "cache_get k c =
     (case map_of (pc_entries c) k of
        None \<Rightarrow> (None, c)
      | Some e \<Rightarrow>
          if ce_stale e then (None, c)
          else let e' = e\<lparr>ce_hits := ce_hits e + 1\<rparr>
               in (Some e', touch k (c\<lparr>pc_entries := AList.update k e' (pc_entries c)\<rparr>)))"

definition cache_put :: "'k \<Rightarrow> 'p \<Rightarrow> ('k, 'p) plan_cache \<Rightarrow> py_error + ('k, 'p) plan_cache" where
  "cache_put k p c = enforce_size (c\<lparr>pc_entries := AList.update k (new_entry p) (pc_entries c)\<rparr>)"

definition cache_refresh :: "'k \<Rightarrow> 'p \<Rightarrow> ('k, 'p) plan_cache \<Rightarrow> py_error + ('k, 'p) plan_cache" where
  "cache_refresh k p c =
     (case map_of (pc_entries c) k of
        None \<Rightarrow> cache_put k p c
      | Some e \<Rightarrow>
          let e' = e\<lparr>ce_plan := p, ce_stale := False, ce_refreshed := ce_refreshed e + 1\<rparr>
          in Inr (touch k (c\<lparr>pc_entries := AList.update k e' (pc_entries c)\<rparr>)))"

definition mark_stale :: "'k \<Rightarrow> ('k, 'p) plan_cache \<Rightarrow> ('k, 'p) plan_cache" where
  "mark_stale k c =
     (case map_of (pc_entries c) k of
        None \<Rightarrow> c
      | Some e \<Rightarrow> c\<lparr>pc_entries := AList.update k (e\<lparr>ce_stale := True\<rparr>) (pc_entries c)\<rparr>)"

section \<open>The cached builder\<close>

type_synonym served_state = "(profile, abstract_plan) plan_cache \<times> (string, nat) dict"

definition abstract_of :: "slice_request \<Rightarrow> plan_summary \<Rightarrow> abstract_plan" where
  "abstract_of req ps = \<lparr>ab_template = sfc_template req, ab_tiers = ps_tiers ps, ab_suggested = ps_suggested ps\<rparr>"

definition remember :: "profile \<Rightarrow> abstract_plan \<Rightarrow> (profile, abstract_plan) plan_cache
    \<Rightarrow> py_error + (profile, abstract_plan) plan_cache" where
  "remember k ab c = (if k \<in> set (keys (pc_entries c)) then cache_refresh k ab c else cache_put k ab c)"

definition cached_miss :: "plan_builder \<Rightarrow> profile \<Rightarrow> slice_request \<Rightarrow> substrate \<Rightarrow> served_state
    \<Rightarrow> py_error + plan_summary option \<times> served_state" where
  "cached_miss inner k req S = (\<lambda>(c, stats).
     let stats = add_at ''misses'' 1 stats in
     case inner req S of
       None \<Rightarrow> Inr (None, c, stats)
     | Some ps \<Rightarrow> map_sum id (\<lambda>c. (Some ps, c, stats)) (remember k (abstract_of req ps) c))"

definition cached_plan_builder :: "bool \<Rightarrow> string option \<Rightarrow> plan_builder \<Rightarrow> slice_request \<Rightarrow> substrate
    \<Rightarrow> served_state \<Rightarrow> py_error + plan_summary option \<times> served_state" where
  "cached_plan_builder per_domain level inner req S = (\<lambda>(c, stats).
     case compute_condition_signature S level of
       Inl e \<Rightarrow> Inl e
     | Inr cond \<Rightarrow>
         let k = plan_profile per_domain req (Some cond);
             stats = add_at ''lookups'' 1 stats;
             (entry, c) = cache_get k c
         in case entry of
              None \<Rightarrow> cached_miss inner k req S (c, stats)
            | Some e \<Rightarrow>
                if revalidate_plan (ce_plan e) S
                then (case instantiate_plan (ce_plan e) req of
                        Inl err \<Rightarrow> cached_miss inner k req S (c, stats)
                      | Inr ps \<Rightarrow> Inr (Some ps, c, add_at ''hits'' 1 stats))
                else cached_miss inner k req S (c, stats))"

text \<open>A sequence of calls; the answers in call order.\<close>

type_synonym served_call = "plan_builder \<times> slice_request \<times> substrate"

fun serve_all :: "bool \<Rightarrow> string option \<Rightarrow> served_call list \<Rightarrow> served_state
    \<Rightarrow> py_error + plan_summary option list \<times> served_state" where
  "serve_all per_domain level [] s = Inr ([], s)"
| "serve_all per_domain level ((inner, req, S) # calls) s =
     (case cached_plan_builder per_domain level inner req S s of
        Inl e \<Rightarrow> Inl e
      | Inr (ans, t) \<Rightarrow> map_sum id (\<lambda>(answers, u). (ans # answers, u)) (serve_all per_domain level calls t))"

section \<open>The cache as a bounded map\<close>

definition cache_ok :: "('k, 'p) plan_cache \<Rightarrow> bool" where
  "cache_ok c \<longleftrightarrow> distinct (keys (pc_entries c)) \<and> (\<forall>cap. pc_capacity c = Some cap \<longrightarrow> cache_size c \<le> cap)"

lemma evict_eq: "evict cap xs = drop (length xs - cap) xs"
  by (induction xs) (auto simp: Suc_diff_le)

lemma map_of_delete_append:
  "map_of d k = Some e \<Longrightarrow> map_of (AList.delete k d @ [(k, e)]) k' = map_of d k'"
  by (auto simp: map_add_def AList.delete_conv' split: option.splits)

lemma map_of_touch [simp]: "map_of (pc_entries (touch k c)) k' = map_of (pc_entries c) k'"
  by (auto simp: touch_def map_of_delete_append[simplified] split: option.splits)

lemma length_delete_present:
  "map_of d k = Some e \<Longrightarrow> distinct (keys d) \<Longrightarrow> Suc (length (AList.delete k d)) = length d"
  by (induction d) (auto simp: delete_fresh split: if_splits)

lemma touch_ok:
  assumes "distinct (keys (pc_entries c))"
  shows "distinct (keys (pc_entries (touch k c)))" and "cache_size (touch k c) = cache_size c"
    and "pc_capacity (touch k c) = pc_capacity c"
proof -
  show "distinct (keys (pc_entries (touch k c)))" "cache_size (touch k c) = cache_size c"
    using assms length_delete_present[OF _ assms, of k]
    by (auto simp: touch_def cache_size_def AList.delete_keys distinct_removeAll simp del: map_of_eq_Some_iff split: option.splits)
  show "pc_capacity (touch k c) = pc_capacity c" by (simp add: touch_def split: option.splits)
qed

lemma length_update_present: "map_of d k = Some e \<Longrightarrow> length (AList.update k v d) = length d"
  by (induction d) (auto split: if_splits)

lemma cache_get_correct:
  assumes "cache_ok c" and "cache_get k c = (r, c')"
  shows "cache_ok c'" and "pc_capacity c' = pc_capacity c" and "cache_size c' = cache_size c"
    and "map_option ce_plan (map_of (pc_entries c') k') = map_option ce_plan (map_of (pc_entries c) k')"
    and "map_option ce_stale (map_of (pc_entries c') k') = map_option ce_stale (map_of (pc_entries c) k')"
    and "map_option ce_plan r = (case map_of (pc_entries c) k of None \<Rightarrow> None
           | Some e \<Rightarrow> if ce_stale e then None else Some (ce_plan e))"
proof -
  have "distinct (keys (AList.update k e (pc_entries c)))" for e
    using assms(1) by (simp add: cache_ok_def distinct_keys_update)
  note t = touch_ok[of "c\<lparr>pc_entries := AList.update k e (pc_entries c)\<rparr>" k for e, simplified, OF this]
  show "cache_ok c'" "pc_capacity c' = pc_capacity c" "cache_size c' = cache_size c"
    using assms t by (auto simp: cache_get_def cache_ok_def Let_def cache_size_def length_update_present split: option.splits if_splits)
  show "map_option ce_plan (map_of (pc_entries c') k') = map_option ce_plan (map_of (pc_entries c) k')"
    "map_option ce_stale (map_of (pc_entries c') k') = map_option ce_stale (map_of (pc_entries c) k')"
    "map_option ce_plan r = (case map_of (pc_entries c) k of None \<Rightarrow> None
       | Some e \<Rightarrow> if ce_stale e then None else Some (ce_plan e))"
    using assms(2) by (auto simp: cache_get_def Let_def split: option.splits if_splits)
qed

lemma map_of_drop: "distinct (keys d) \<Longrightarrow> map_of (drop n d) k = Some e \<Longrightarrow> map_of d k = Some e"
  by (metis map_of_eq_Some_iff distinct_drop drop_map in_set_dropD)

lemma cache_put_correct:
  assumes "cache_ok c" and "pc_capacity c = Some cap"
  shows "\<exists>c'. cache_put k p c = Inr c' \<and> cache_ok c' \<and> pc_capacity c' = Some cap
    \<and> (\<forall>k' e. map_of (pc_entries c') k' = Some e \<longrightarrow>
         (k' = k \<and> e = new_entry p) \<or> map_of (pc_entries c) k' = Some e)"
proof -
  let ?d = "AList.update k (new_entry p) (pc_entries c)"
  have d: "distinct (keys ?d)" using assms(1) by (simp add: cache_ok_def distinct_keys_update)
  have "map_of (evict cap ?d) k' = Some e \<Longrightarrow> map_of ?d k' = Some e" for k' e
    unfolding evict_eq by (rule map_of_drop[OF d])
  then have m: "\<forall>k' e. map_of (evict cap ?d) k' = Some e \<longrightarrow> (k' = k \<and> e = new_entry p) \<or> map_of (pc_entries c) k' = Some e"
    by (metis map_of_update_simp option.inject)
  have "distinct (keys (evict cap ?d))" using d by (simp add: evict_eq drop_map[symmetric])
  moreover have "length (evict cap ?d) \<le> cap" by (simp add: evict_eq)
  ultimately show ?thesis
    using assms(2) m by (simp add: cache_put_def enforce_size_def cache_ok_def cache_size_def)
qed

lemma cache_refresh_correct:
  assumes "cache_ok c" and "pc_capacity c = Some cap"
  shows "\<exists>c'. cache_refresh k p c = Inr c' \<and> cache_ok c' \<and> pc_capacity c' = Some cap
    \<and> (\<forall>k' e. map_of (pc_entries c') k' = Some e \<longrightarrow>
         (k' = k \<and> ce_plan e = p \<and> \<not> ce_stale e) \<or> map_of (pc_entries c) k' = Some e)"
proof (cases "map_of (pc_entries c) k")
  case None
  then show ?thesis using cache_put_correct[OF assms, of k p] by (fastforce simp: cache_refresh_def new_entry_def)
next
  case (Some e)
  have "distinct (keys (AList.update k e' (pc_entries c)))" for e'
    using assms(1) by (simp add: cache_ok_def distinct_keys_update)
  note t = touch_ok[of "c\<lparr>pc_entries := AList.update k e' (pc_entries c)\<rparr>" k for e', simplified, OF this]
  show ?thesis using Some assms t
    by (auto simp: cache_refresh_def Let_def cache_ok_def cache_size_def length_update_present)
qed

lemma mark_stale_correct:
  assumes "cache_ok c"
  shows "cache_ok (mark_stale k c)" and "fst (cache_get k (mark_stale k c)) = None"
  using assms
  by (cases "map_of (pc_entries c) k";
      simp add: mark_stale_def cache_ok_def cache_size_def cache_get_def distinct_keys_update length_update_present
        del: map_of_eq_Some_iff)+

section \<open>What the cached builder serves\<close>

definition profile_at :: "bool \<Rightarrow> string option \<Rightarrow> slice_request \<Rightarrow> substrate \<Rightarrow> profile" where
  "profile_at per_domain level req S =
     plan_profile per_domain req (Some (condition_snapshot S (case level of None \<Rightarrow> [] | Some l \<Rightarrow> l)))"

text \<open>What a call would add to the plans known so far, and what it may answer given them.\<close>

definition proposal :: "bool \<Rightarrow> string option \<Rightarrow> served_call \<Rightarrow> (profile \<times> abstract_plan) set" where
  "proposal per_domain level = (\<lambda>(inner, req, S).
     {(profile_at per_domain level req S, abstract_of req ps) | ps. inner req S = Some ps})"

definition answer_ok :: "bool \<Rightarrow> string option \<Rightarrow> (profile \<times> abstract_plan) set \<Rightarrow> served_call
    \<Rightarrow> plan_summary option \<Rightarrow> bool" where
  "answer_ok per_domain level known = (\<lambda>(inner, req, S) ans.
     ans = inner req S
     \<or> (\<exists>ab ps. (profile_at per_domain level req S, ab) \<in> known \<and> revalidate_plan ab S
          \<and> instantiate_plan ab req = Inr ps \<and> ans = Some ps))"

fun answers_ok :: "bool \<Rightarrow> string option \<Rightarrow> (profile \<times> abstract_plan) set \<Rightarrow> served_call list
    \<Rightarrow> plan_summary option list \<Rightarrow> bool" where
  "answers_ok per_domain level known [] [] = True"
| "answers_ok per_domain level known (call # calls) (ans # answers) =
     (answer_ok per_domain level known call ans
      \<and> answers_ok per_domain level (known \<union> proposal per_domain level call) calls answers)"
| "answers_ok per_domain level known _ _ = False"

definition known_entries :: "('k \<times> 'p) set \<Rightarrow> ('k, 'p) plan_cache \<Rightarrow> bool" where
  "known_entries known c \<longleftrightarrow>
     (\<forall>k e. map_of (pc_entries c) k = Some e \<longrightarrow> \<not> ce_stale e \<and> (k, ce_plan e) \<in> known)"

lemma known_entriesI:
  assumes "\<And>k e. map_of (pc_entries c) k = Some e \<Longrightarrow> \<not> ce_stale e \<and> (k, ce_plan e) \<in> known"
  shows "known_entries known c"
  using assms by (simp add: known_entries_def)

lemma known_entriesD: "known_entries known c \<Longrightarrow> map_of (pc_entries c) k = Some e \<Longrightarrow> \<not> ce_stale e \<and> (k, ce_plan e) \<in> known"
  by (simp add: known_entries_def)

lemma known_entries_mono: "known_entries known c \<Longrightarrow> known \<subseteq> known' \<Longrightarrow> known_entries known' c"
  by (auto simp: known_entries_def)

lemma known_get:
  assumes "cache_ok c" and "known_entries known c" and "cache_get k c = (r, c')"
  shows "known_entries known c'" and "r = Some e \<Longrightarrow> (k, ce_plan e) \<in> known"
proof -
  note g = cache_get_correct[OF assms(1,3)]
  show "known_entries known c'"
  proof (rule known_entriesI)
    fix k' e
    assume "map_of (pc_entries c') k' = Some e"
    then obtain e0 where "map_of (pc_entries c) k' = Some e0" "ce_plan e0 = ce_plan e" "ce_stale e0 = ce_stale e"
      using g(4,5)[of k'] by (cases "map_of (pc_entries c) k'") (simp_all del: map_of_eq_Some_iff)
    then show "\<not> ce_stale e \<and> (k', ce_plan e) \<in> known" using known_entriesD[OF assms(2)] by metis
  qed
  show "(k, ce_plan e) \<in> known" if r: "r = Some e"
  proof -
    obtain e0 where "map_of (pc_entries c) k = Some e0" "ce_plan e0 = ce_plan e"
      using g(6) r by (auto split: option.splits if_splits)
    then show ?thesis using known_entriesD[OF assms(2)] by metis
  qed
qed

lemma remember_correct:
  assumes "cache_ok c" and "pc_capacity c = Some cap" and "known_entries known c"
  shows "\<exists>c'. remember k ab c = Inr c' \<and> cache_ok c' \<and> pc_capacity c' = Some cap \<and> known_entries (insert (k, ab) known) c'"
proof (cases "k \<in> set (keys (pc_entries c))")
  case True
  obtain c' where c': "cache_refresh k ab c = Inr c'" "cache_ok c'" "pc_capacity c' = Some cap"
    and m: "\<And>k' e. map_of (pc_entries c') k' = Some e \<Longrightarrow>
         (k' = k \<and> ce_plan e = ab \<and> \<not> ce_stale e) \<or> map_of (pc_entries c) k' = Some e"
    using cache_refresh_correct[OF assms(1,2), of k ab] by auto
  have "known_entries (insert (k, ab) known) c'"
    by (rule known_entriesI) (use m known_entriesD[OF assms(3)] in blast)
  with c' True show ?thesis by (simp only: remember_def if_True) blast
next
  case False
  obtain c' where c': "cache_put k ab c = Inr c'" "cache_ok c'" "pc_capacity c' = Some cap"
    and m: "\<And>k' e. map_of (pc_entries c') k' = Some e \<Longrightarrow>
         (k' = k \<and> e = new_entry ab) \<or> map_of (pc_entries c) k' = Some e"
    using cache_put_correct[OF assms(1,2), of k ab] by auto
  have "ce_plan (new_entry ab) = ab" "\<not> ce_stale (new_entry ab)" by (simp_all add: new_entry_def)
  then have "known_entries (insert (k, ab) known) c'"
    by (intro known_entriesI) (use m known_entriesD[OF assms(3)] in blast)
  with c' False show ?thesis by (simp only: remember_def if_False) blast
qed

text \<open>The counters of \<open>stats\<close>.\<close>

definition counted :: "(string, nat) dict \<Rightarrow> nat \<Rightarrow> bool" where
  "counted stats n \<longleftrightarrow> get_default stats ''lookups'' 0 = n
     \<and> get_default stats ''hits'' 0 + get_default stats ''misses'' 0 = n"

definition served_ok :: "(profile \<times> abstract_plan) set \<Rightarrow> nat \<Rightarrow> nat \<Rightarrow> served_state \<Rightarrow> bool" where
  "served_ok known cap n = (\<lambda>(c, stats). cache_ok c \<and> pc_capacity c = Some cap \<and> known_entries known c \<and> counted stats n)"

lemma counted_bump:
  "counted stats n \<Longrightarrow> counted (add_at ''misses'' 1 (add_at ''lookups'' 1 stats)) (Suc n)"
  "counted stats n \<Longrightarrow> counted (add_at ''hits'' 1 (add_at ''lookups'' 1 stats)) (Suc n)"
  by (simp_all add: counted_def)

lemma cached_miss_ok:
  assumes "cache_ok c" and "pc_capacity c = Some cap" and "known_entries known c"
    and "k = profile_at per_domain level req S"
  shows "\<exists>c'. cached_miss inner k req S (c, stats) = Inr (inner req S, c', add_at ''misses'' 1 stats)
    \<and> cache_ok c' \<and> pc_capacity c' = Some cap \<and> known_entries (known \<union> proposal per_domain level (inner, req, S)) c'"
proof (cases "inner req S")
  case None
  then show ?thesis using assms by (simp add: cached_miss_def Let_def proposal_def)
next
  case (Some ps)
  with remember_correct[OF assms(1-3), of k "abstract_of req ps"] assms(4) show ?thesis
    by (auto simp: cached_miss_def Let_def proposal_def)
qed

lemma serve_step:
  assumes "\<forall>l \<in> set_option level. \<not> blank l" and "served_ok known cap n s"
  shows "\<exists>ans t. cached_plan_builder per_domain level inner req S s = Inr (ans, t)
    \<and> answer_ok per_domain level known (inner, req, S) ans
    \<and> served_ok (known \<union> proposal per_domain level (inner, req, S)) cap (Suc n) t"
proof -
  obtain c stats where s: "s = (c, stats)" by (rule prod.exhaust)
  have c: "cache_ok c" "pc_capacity c = Some cap" "known_entries known c" "counted stats n"
    using assms(2) by (simp_all add: s served_ok_def)
  let ?k = "profile_at per_domain level req S"
  let ?known = "known \<union> proposal per_domain level (inner, req, S)"
  let ?stats = "add_at ''lookups'' 1 stats"
  obtain r d where g: "cache_get ?k c = (r, d)" by (rule prod.exhaust)
  have d: "cache_ok d" "pc_capacity d = Some cap" "known_entries known d"
    using cache_get_correct(1,2)[OF c(1) g] known_get(1)[OF c(1,3) g] c(2) by simp_all
  have sig: "compute_condition_signature S level = Inr (condition_snapshot S (case level of None \<Rightarrow> [] | Some l \<Rightarrow> l))"
    using assms(1) by (simp add: compute_condition_signature_def split: option.splits)
  have miss: "\<exists>ans t. cached_miss inner ?k req S (d, ?stats) = Inr (ans, t)
      \<and> answer_ok per_domain level known (inner, req, S) ans \<and> served_ok ?known cap (Suc n) t"
    using cached_miss_ok[OF d refl, where per_domain = per_domain and level = level and req = req and S = S and inner = inner and stats = ?stats] counted_bump(1)[OF c(4)]
    by (auto simp: answer_ok_def served_ok_def)
  have eq: "cached_plan_builder per_domain level inner req S s =
      (case r of None \<Rightarrow> cached_miss inner ?k req S (d, ?stats)
       | Some e \<Rightarrow>
          if revalidate_plan (ce_plan e) S
          then (case instantiate_plan (ce_plan e) req of
                  Inl err \<Rightarrow> cached_miss inner ?k req S (d, ?stats)
                | Inr ps \<Rightarrow> Inr (Some ps, d, add_at ''hits'' 1 ?stats))
          else cached_miss inner ?k req S (d, ?stats))"
    by (simp only: cached_plan_builder_def s prod.case sig sum.case Let_def profile_at_def[symmetric] g)
  show ?thesis
  proof (cases "\<exists>e ps. r = Some e \<and> revalidate_plan (ce_plan e) S \<and> instantiate_plan (ce_plan e) req = Inr ps")
    case True
    then obtain e ps where e: "r = Some e" "revalidate_plan (ce_plan e) S" "instantiate_plan (ce_plan e) req = Inr ps" by blast
    have "(?k, ce_plan e) \<in> known" by (rule known_get(2)[OF c(1,3) g e(1)])
    with e have "answer_ok per_domain level known (inner, req, S) (Some ps)" by (auto simp: answer_ok_def)
    moreover have "served_ok ?known cap (Suc n) (d, add_at ''hits'' 1 ?stats)"
      using d counted_bump(2)[OF c(4)] known_entries_mono[OF d(3)] by (simp add: served_ok_def)
    ultimately show ?thesis by (simp add: eq e)
  next
    case False
    then have "cached_plan_builder per_domain level inner req S s = cached_miss inner ?k req S (d, ?stats)"
      unfolding eq by (auto split: option.splits sum.splits)
    with miss show ?thesis by simp
  qed
qed

lemma serve_all_ok:
  assumes "\<forall>l \<in> set_option level. \<not> blank l" and "served_ok known cap n s"
  shows "\<exists>answers c stats. serve_all per_domain level calls s = Inr (answers, c, stats)
    \<and> answers_ok per_domain level known calls answers
    \<and> cache_size c \<le> cap \<and> counted stats (n + length calls)"
  using assms(2)
proof (induction calls arbitrary: known n s)
  case Nil
  then show ?case by (cases s) (simp add: served_ok_def cache_ok_def)
next
  case (Cons call calls)
  obtain inner req S where call: "call = (inner, req, S)" by (metis prod.exhaust)
  obtain ans t where step: "cached_plan_builder per_domain level inner req S s = Inr (ans, t)"
    "answer_ok per_domain level known call ans" "served_ok (known \<union> proposal per_domain level call) cap (Suc n) t"
    using serve_step[OF assms(1) Cons.prems] call by metis
  from Cons.IH[OF step(3)] step(1,2) show ?case by (auto simp: call)
qed

section \<open>Properties\<close>

lemma served_start: "served_ok {} cap 0 (new_cache (Some cap), [])"
  by (simp add: served_ok_def new_cache_def cache_ok_def cache_size_def known_entries_def counted_def get_default_def)

text \<open>
  C23: served through a bounded cache, any sequence of calls returns. Every answer is the builder's
  own or the plan the builder proposed at an earlier call with the same profile, grafted onto this
  request and naming only domains that hold the required tiers. The cache keeps its bound and the
  counters add up.
\<close>

theorem cached_answers_sound:
  assumes "\<forall>l \<in> set_option level. \<not> blank l"
  shows "\<exists>answers c stats. serve_all per_domain level calls (new_cache (Some cap), []) = Inr (answers, c, stats)
    \<and> answers_ok per_domain level {} calls answers \<and> cache_size c \<le> cap
    \<and> get_default stats ''lookups'' 0 = length calls
    \<and> get_default stats ''hits'' 0 + get_default stats ''misses'' 0 = length calls"
  using serve_all_ok[OF assms served_start, of per_domain calls cap] by (simp add: counted_def)

text \<open>
  A builder the cache cannot betray: it proposes plans for the request it is given, and what it
  proposes depends on the profile only.
\<close>

definition cacheable :: "bool \<Rightarrow> string option \<Rightarrow> plan_builder \<Rightarrow> bool" where
  "cacheable per_domain level inner \<longleftrightarrow>
     (\<forall>req S ps. inner req S = Some ps \<longrightarrow> instantiate_plan (abstract_of req ps) req = Inr ps)
     \<and> (\<forall>req S req' S'. profile_at per_domain level req S = profile_at per_domain level req' S' \<longrightarrow>
          map_option (abstract_of req) (inner req S) = map_option (abstract_of req') (inner req' S'))"

definition proposed_by :: "bool \<Rightarrow> string option \<Rightarrow> plan_builder \<Rightarrow> (profile \<times> abstract_plan) set" where
  "proposed_by per_domain level inner =
     {(profile_at per_domain level req S, abstract_of req ps) | req S ps. inner req S = Some ps}"

lemma cacheable_answers:
  assumes "cacheable per_domain level inner" and "\<forall>(b, req, S) \<in> set calls. b = inner"
    and "known \<subseteq> proposed_by per_domain level inner" and "answers_ok per_domain level known calls answers"
  shows "answers = map (\<lambda>(b, req, S). inner req S) calls"
  using assms(2-4)
proof (induction calls arbitrary: known answers)
  case Nil
  then show ?case by (cases answers) simp_all
next
  case (Cons call calls)
  obtain ans rest where a: "answers = ans # rest" using Cons.prems(3) by (cases answers) auto
  obtain req S where call: "call = (inner, req, S)" using Cons.prems(1) by (cases call) auto
  have "proposal per_domain level call \<subseteq> proposed_by per_domain level inner"
    by (auto simp: proposal_def proposed_by_def call)
  then have "rest = map (\<lambda>(b, req, S). inner req S) calls"
    using Cons.prems a Cons.IH[of "known \<union> proposal per_domain level call" rest] by simp
  moreover have "ans = inner req S"
  proof (rule ccontr)
    assume "ans \<noteq> inner req S"
    then obtain ab ps where ab: "(profile_at per_domain level req S, ab) \<in> known" "instantiate_plan ab req = Inr ps" "ans = Some ps"
      using Cons.prems(3) by (auto simp: answer_ok_def call a)
    then obtain req' S' ps' where "profile_at per_domain level req S = profile_at per_domain level req' S'"
      "inner req' S' = Some ps'" "ab = abstract_of req' ps'"
      using Cons.prems(2) by (auto simp: proposed_by_def)
    then have "map_option (abstract_of req) (inner req S) = Some ab"
      using assms(1) unfolding cacheable_def by (metis option.simps(9))
    then obtain q where q: "inner req S = Some q" "abstract_of req q = ab" by auto
    then have "instantiate_plan ab req = Inr q" using assms(1) by (auto simp: cacheable_def)
    with q ab \<open>ans \<noteq> inner req S\<close> show False by simp
  qed
  ultimately show ?case by (simp add: a call)
qed

text \<open>
  C24: for a builder whose plans depend on the profile only, the cache is transparent: every answer
  is what the builder would have answered, whatever was evicted or refused in between.
\<close>

theorem cache_transparent:
  assumes "\<forall>l \<in> set_option level. \<not> blank l" and "cacheable per_domain level inner"
    and "\<forall>(b, req, S) \<in> set calls. b = inner"
  shows "\<exists>c stats. serve_all per_domain level calls (new_cache (Some cap), [])
    = Inr (map (\<lambda>(b, req, S). inner req S) calls, c, stats)"
  using serve_all_ok[OF assms(1) served_start, of per_domain calls cap] cacheable_answers[OF assms(2,3), of "{}"]
  by fastforce

text \<open>A builder that puts the whole chain on the edge of domain 0.\<close>

definition edge_builder :: plan_builder where
  "edge_builder req S =
     (case instantiate_plan \<lparr>ab_template = sfc_template req, ab_tiers = map (\<lambda>v. Edge) (vnfs req),
          ab_suggested = map (\<lambda>v. 0) (vnfs req)\<rparr> req of Inl e \<Rightarrow> None | Inr ps \<Rightarrow> Some ps)"

lemma map_const_cong: "map f xs = map f ys \<Longrightarrow> map (\<lambda>_. c) xs = map (\<lambda>_. c) ys"
  using map_eq_imp_length_eq[of f xs f ys] by (simp add: map_replicate_const)

lemma edge_builder_cacheable: "cacheable per_domain level edge_builder"
  by (auto simp: cacheable_def edge_builder_def instantiate_plan_def abstract_of_def sfc_template_def profile_at_def
      plan_profile_def plan_signature_def intro: map_const_cong)

theorem cached_answers_sound_witness:
  "\<exists>answers c stats. serve_all False (Some ''L2'') [(edge_builder, ex_req, ex_sub), ((\<lambda>req S. None), ex_req, ex_sub)]
      (new_cache (Some 1), []) = Inr (answers, c, stats) \<and> cache_size c \<le> 1"
proof -
  have b: "\<forall>l \<in> set_option (Some ''L2''). \<not> blank l" by code_simp
  from cached_answers_sound[OF b, of False "[(edge_builder, ex_req, ex_sub), ((\<lambda>req S. None), ex_req, ex_sub)]" 1]
  show ?thesis by blast
qed

theorem cache_transparent_witness:
  "\<exists>c stats. serve_all True None [(edge_builder, ex_req, ex_sub), (edge_builder, ex_req, ex_sub)] (new_cache (Some 4), [])
     = Inr ([edge_builder ex_req ex_sub, edge_builder ex_req ex_sub], c, stats)"
  using cache_transparent[OF _ edge_builder_cacheable, of None "[(edge_builder, ex_req, ex_sub), (edge_builder, ex_req, ex_sub)]" True 4]
  by simp

text \<open>Two nodes in two domains; \<open>idle\<close> says which of them is free, the other is full.\<close>

definition half_loaded :: "int \<Rightarrow> substrate" where
  "half_loaded idle =
     (let node = \<lambda>m. \<lparr>domain_id = m, node_tier = Edge, cpu_capacity = 8, ram_capacity = 8, processing_delay = 1,
          cpu_residual = (if m = idle then 8 else 0), ram_residual = (if m = idle then 8 else 0)\<rparr>
      in \<lparr>g_nodes = [(''a'', node 0), (''b'', node 1)], g_edges = [], num_domains = 2, active_slices = []\<rparr>)"

text \<open>A builder that names the free domain.\<close>

definition idle_builder :: plan_builder where
  "idle_builder req S =
     (case instantiate_plan \<lparr>ab_template = sfc_template req, ab_tiers = map (\<lambda>v. Edge) (vnfs req),
          ab_suggested = map (\<lambda>v. if list_all (\<lambda>d. cpu_residual d = 0) (domain_data S 0) then 1 else 0) (vnfs req)\<rparr> req of
        Inl e \<Rightarrow> None | Inr ps \<Rightarrow> Some ps)"

lemma half_loaded_profile: "profile_at False None req (half_loaded 0) = profile_at False None req (half_loaded 1)"
proof -
  have tt: "tier_totals (half_loaded 0) t = tier_totals (half_loaded 1) t" for t
    by (simp add: tier_totals_def half_loaded_def node_sums_def)
  have up: "[0..<2] = [0, 1 :: nat]" by code_simp
  have "cd_cpu (condition_snapshot (half_loaded 0) []) = cd_cpu (condition_snapshot (half_loaded 1) [])"
    by (simp add: condition_snapshot_def Let_def populated_def domain_data_def half_loaded_def node_sums_def up)
  moreover have "cd_tier_cpu (condition_snapshot (half_loaded 0) []) = cd_tier_cpu (condition_snapshot (half_loaded 1) [])"
    by (simp add: condition_snapshot_def Let_def tt)
  ultimately show ?thesis by (simp add: profile_at_def plan_profile_def condition_key_def Let_def)
qed

text \<open>
  With the shipped key, which carries whole-network aggregates only, the cache serves a plan
  for a domain that has since been exhausted: the builder would have named the free one.
\<close>

theorem cache_serves_exhausted_domain:
  "\<exists>ps ps' c stats. serve_all False None [(idle_builder, req, half_loaded 0), (idle_builder, req, half_loaded 1)]
        (new_cache (Some (Suc cap)), []) = Inr ([Some ps, Some ps], c, stats)
     \<and> idle_builder req (half_loaded 1) = Some ps'
     \<and> ps_suggested ps = map (\<lambda>v. 0) (vnfs req) \<and> ps_suggested ps' = map (\<lambda>v. 1) (vnfs req)
     \<and> list_all (\<lambda>d. cpu_residual d = 0) (domain_data (half_loaded 1) 0)"
proof -
  define k where "k = profile_at False None req (half_loaded 0)"
  have k: "plan_profile False req (Some (condition_snapshot (half_loaded 0) [])) = k"
    "plan_profile False req (Some (condition_snapshot (half_loaded 1) [])) = k"
    using half_loaded_profile[of req] by (simp_all add: k_def profile_at_def)
  have sig: "compute_condition_signature S None = Inr (condition_snapshot S [])" for S
    by (simp add: compute_condition_signature_def)
  let ?ab = "\<lparr>ab_template = sfc_template req, ab_tiers = map (\<lambda>v. Edge) (vnfs req), ab_suggested = map (\<lambda>v. 0) (vnfs req)\<rparr>"
  obtain ps where ps: "instantiate_plan ?ab req = Inr ps" "ps_suggested ps = map (\<lambda>v. 0) (vnfs req)" "abstract_of req ps = ?ab"
    by (auto simp: instantiate_plan_def sfc_template_def abstract_of_def)
  have d: "domain_data (half_loaded 0) 0 = [snd (g_nodes (half_loaded 0) ! 0)]" "\<not> cpu_residual (snd (g_nodes (half_loaded 0) ! 0)) = 0"
    "list_all (\<lambda>d. cpu_residual d = 0) (domain_data (half_loaded 1) 0)"
    by (simp_all add: domain_data_def half_loaded_def)
  have b: "idle_builder req (half_loaded 0) = Some ps"
    using ps(1) d by (simp add: idle_builder_def)
  have "\<exists>ps'. idle_builder req (half_loaded 1) = Some ps' \<and> ps_suggested ps' = map (\<lambda>v. 1) (vnfs req)"
    using d(3) by (simp add: idle_builder_def instantiate_plan_def sfc_template_def)
  moreover have "revalidate_plan ?ab (half_loaded 1)"
    by (auto simp: revalidate_plan_def Let_def half_loaded_def list_all_iff zip_map_map zip_same_conv_map)
  then have "\<exists>c stats. serve_all False None [(idle_builder, req, half_loaded 0), (idle_builder, req, half_loaded 1)]
        (new_cache (Some (Suc cap)), []) = Inr ([Some ps, Some ps], c, stats)"
    by (simp add: cached_plan_builder_def sig Let_def k new_cache_def
        cache_get_def cached_miss_def b remember_def cache_put_def enforce_size_def new_entry_def ps(1,3))
  ultimately show ?thesis using ps(2) d(3) by blast
qed

end
