(* ===== verification/Greedy_Actor.thy ===== *)
theory Greedy_Actor
  imports Domain_Actor
begin

text \<open>
  The deterministic domain actor (\<open>src/src/orion/actors/greedy_domain_actor.py\<close>): sort the
  VNFs by falling demand, put each on the least-delay feasible node (tier match first), then
  route every flow inside the fragment on the minimum-delay path. It satisfies the contract
  \<open>domain_actor\<close> for every path library that satisfies \<open>path_oracle\<close>, and it routes every
  flow whose two ends it placed.
\<close>

section \<open>Operations\<close>

definition placement_key :: "vnf_assignment \<Rightarrow> real \<times> real \<times> string" where
  "placement_key v = (- va_cpu v, - va_ram v, va_id v)"

text \<open>
  One pass of the candidate loop of \<open>_select_node\<close>; the names come from \<open>nodes_in_domain\<close>,
  so the node lookup cannot fail. \<open>delay_remaining\<close> and \<open>vnfs_remaining\<close> are not used by
  the source either.
\<close>

definition candidate :: "'a graph_scheme \<Rightarrow> vnf_assignment \<Rightarrow> node_id \<Rightarrow> (int \<times> real \<times> node_id) option" where
  "candidate g v n =
     (if va_permitted v \<noteq> [] \<and> n \<notin> set (va_permitted v) then None
      else case map_of (g_nodes g) n of
          None \<Rightarrow> None
        | Some d \<Rightarrow>
            if cpu_residual d < va_cpu v \<or> ram_residual d < va_ram v then None
            else Some (- (if node_tier d = va_tier v then 1 else 0),
                       processing_delay d * va_intensity v, n))"

definition select_node :: "'a graph_scheme \<Rightarrow> vnf_assignment \<Rightarrow> node_id list \<Rightarrow> node_id option" where
  "select_node g v ns =
     (case least (List.map_filter (candidate g v) ns) of None \<Rightarrow> None | Some (t, dl, n) \<Rightarrow> Some n)"

definition place_on :: "vnf_assignment \<Rightarrow> node_id \<Rightarrow> node_data \<Rightarrow> act_state \<Rightarrow> act_state" where
  "place_on v n d \<sigma> =
     (\<sigma>\<lparr>as_sub := post_node n (- va_cpu v, - va_ram v) (as_sub \<sigma>),
        as_place := AList.update (va_id v) n (as_place \<sigma>),
        as_snaps := take_snapshot n d (as_snaps \<sigma>)\<rparr>)
      \<lparr>as_proc := as_proc \<sigma> + processing_delay d * va_intensity v,
       as_left := as_left \<sigma> - processing_delay d * va_intensity v,
       as_cost := as_cost \<sigma> + (va_cpu v + va_ram v)\<rparr>"

text \<open>The placement loop. \<open>False\<close>: some VNF has no node, the caller rolls back.\<close>

fun place_all :: "node_id list \<Rightarrow> vnf_assignment list \<Rightarrow> act_state \<Rightarrow> bool \<times> act_state" where
  "place_all ns [] \<sigma> = (True, \<sigma>)"
| "place_all ns (v # vs) \<sigma> =
     (case select_node (as_sub \<sigma>) v ns of
        None \<Rightarrow> (False, \<sigma>)
      | Some n \<Rightarrow>
          (case map_of (g_nodes (as_sub \<sigma>)) n of
             None \<Rightarrow> (False, \<sigma>)
           | Some d \<Rightarrow> place_all ns vs (place_on v n d \<sigma>)))"

definition record_route :: "flow_edge \<Rightarrow> route_result \<Rightarrow> act_state \<Rightarrow> act_state" where
  "record_route fe r \<sigma> =
     (\<sigma>\<lparr>as_sub := allocate_route_bw (rr_links r) (bandwidth_demand fe) (as_sub \<sigma>),
        as_routes := AList.update (flow_key_of fe) (rr_links r) (as_routes \<sigma>),
        as_bw := AList.update (flow_key_of fe) (bandwidth_demand fe) (as_bw \<sigma>),
        as_alloc := as_alloc \<sigma> @ [(rr_links r, bandwidth_demand fe)]\<rparr>)
      \<lparr>as_prop := as_prop \<sigma> + rr_delay r,
       as_left := as_left \<sigma> - rr_delay r\<rparr>"

text \<open>The routing pass over the flows inside the fragment.\<close>

fun route_all :: "nx_lib \<Rightarrow> nat \<Rightarrow> node_id list \<Rightarrow> flow_edge list \<Rightarrow> act_state
    \<Rightarrow> py_error + (bool \<times> act_state)" where
  "route_all nx k ns [] \<sigma> = Inr (True, \<sigma>)"
| "route_all nx k ns (fe # fes) \<sigma> =
     (case (map_of (as_place \<sigma>) (source_vnf fe), map_of (as_place \<sigma>) (target_vnf fe)) of
        (Some s, Some d) \<Rightarrow>
          if s = d then route_all nx k ns fes (\<sigma>\<lparr>as_routes := AList.update (flow_key_of fe) [] (as_routes \<sigma>)\<rparr>)
          else (case route_flow nx (as_sub \<sigma>) s d (bandwidth_demand fe) (as_left \<sigma>) ns k MinDelay of
                  Inl e \<Rightarrow> Inl e
                | Inr r \<Rightarrow>
                    if \<not> rr_feasible r then Inr (False, \<sigma>)
                    else route_all nx k ns fes (record_route fe r \<sigma>))
      | _ \<Rightarrow> route_all nx k ns fes \<sigma>)"

definition abort :: "int \<Rightarrow> act_state \<Rightarrow> substrate \<times> domain_response" where
  "abort m \<sigma> = (rollback (as_alloc \<sigma>) (as_snaps \<sigma>) (as_sub \<sigma>), infeasible_response m)"

definition finish :: "int \<Rightarrow> act_state \<Rightarrow> substrate \<times> domain_response" where
  "finish m \<sigma> =
     (as_sub \<sigma>,
      \<lparr>dr_domain = m, dr_feasible = True, dr_placements = as_place \<sigma>, dr_routes = as_routes \<sigma>,
       dr_bw = as_bw \<sigma>, dr_intra_delay = as_proc \<sigma> + as_prop \<sigma>, dr_cost = as_cost \<sigma>\<rparr>)"

definition greedy_act :: "nx_lib \<Rightarrow> nat \<Rightarrow> int \<Rightarrow> act_fun" where
  "greedy_act nx k m S f =
     (if fragment_is_empty f then Inr (S, empty_response m)
      else
        let ns = sort (nodes_in_domain S m) in
        if ns = [] then Inr (S, infeasible_response m)
        else case place_all ns (sort_key placement_key (pf_vnfs f)) (start_state S f) of
            (False, \<sigma>) \<Rightarrow> Inr (abort m \<sigma>)
          | (True, \<sigma>) \<Rightarrow>
              (case route_all nx k ns (pf_flows f) \<sigma> of
                 Inl e \<Rightarrow> Inl e
               | Inr (False, \<tau>) \<Rightarrow> Inr (abort m \<tau>)
               | Inr (True, \<tau>) \<Rightarrow> Inr (finish m \<tau>)))"

section \<open>Node selection\<close>

lemma candidate_Some:
  "candidate g v n = Some (t, x, n') \<longleftrightarrow>
   n' = n \<and> (va_permitted v = [] \<or> n \<in> set (va_permitted v))
   \<and> (\<exists>d. map_of (g_nodes g) n = Some d \<and> va_cpu v \<le> cpu_residual d \<and> va_ram v \<le> ram_residual d
        \<and> t = - (if node_tier d = va_tier v then 1 else 0) \<and> x = processing_delay d * va_intensity v)"
  by (auto simp: candidate_def not_less split: option.splits if_splits)

lemma select_node_None:
  "select_node g v ns = None \<longleftrightarrow> (\<forall>n \<in> set ns. candidate g v n = None)"
proof -
  have "select_node g v ns = None \<longleftrightarrow> List.map_filter (candidate g v) ns = []"
    by (cases "least (List.map_filter (candidate g v) ns)") (auto simp: select_node_def)
  also have "\<dots> \<longleftrightarrow> (\<forall>n \<in> set ns. candidate g v n = None)"
    by (simp add: List.map_filter_def filter_empty_conv del: not_Some_eq split_paired_All split_paired_Ex
        flip: not_None_eq)
  finally show ?thesis .
qed

lemma select_node_Some:
  assumes "select_node g v ns = Some n"
  obtains c where "n \<in> set ns" and "candidate g v n = Some c"
    and "\<And>n' c'. n' \<in> set ns \<Longrightarrow> candidate g v n' = Some c' \<Longrightarrow> c \<le> c'"
proof -
  from assms obtain t x where l: "least (List.map_filter (candidate g v) ns) = Some (t, x, n)"
    by (auto simp: select_node_def split: option.splits)
  from least_in[OF l] obtain n0 where n0: "n0 \<in> set ns" "candidate g v n0 = Some (t, x, n)"
    unfolding set_map_filter by blast
  then have "n0 = n" by (simp add: candidate_Some)
  moreover have "(t, x, n) \<le> c'" if "n' \<in> set ns" "candidate g v n' = Some c'" for n' c'
    by (rule least_le[OF l]) (use that in \<open>auto simp: set_map_filter\<close>)
  ultimately show ?thesis using n0 that by blast
qed

lemma sorted_nodes [simp]: "set (sort (nodes_in_domain S m)) = set (nodes_in_domain S m)"
  by simp

section \<open>The two passes keep the invariant\<close>

lemma place_on_charge:
  "as_sub (place_on v n d \<sigma>) = charge [(n, va_cpu v, va_ram v)] [] (as_sub \<sigma>)"
  by (simp add: place_on_def charge_def post_nodes_def)

lemma place_on_inv:
  assumes wf: "wf_graph S" and inv: "act_inv S m dem fes \<sigma>" and dem: "dem (va_id v) = (va_cpu v, va_ram v)"
    and "va_id v \<notin> set (keys (as_place \<sigma>))" and "n \<in> set (nodes_in_domain S m)"
    and "map_of (g_nodes (as_sub \<sigma>)) n = Some d"
    and "va_cpu v \<le> cpu_residual d" "va_ram v \<le> ram_residual d"
  shows "act_inv S m dem fes (place_on v n d \<sigma>)"
proof -
  have "as_sub (place_on v n d \<sigma>) = charge [(n, dem (va_id v))] [] (as_sub \<sigma>)"
    by (simp add: place_on_charge dem)
  then have "post_node n (- va_cpu v, - va_ram v) (as_sub \<sigma>) = charge [(n, dem (va_id v))] [] (as_sub \<sigma>)"
    by (simp add: place_on_def)
  then show ?thesis
    using act_inv_place[OF wf inv assms(4-6)] assms(7,8)
    unfolding place_on_def by (simp add: dem)
qed

lemma place_all_inv:
  assumes wf: "wf_graph S" and ns: "set ns = set (nodes_in_domain S m)"
    and "act_inv S m dem fes \<sigma>" and "as_alloc \<sigma> = []" and "as_routes \<sigma> = []"
    and "\<forall>v \<in> set vs. dem (va_id v) = (va_cpu v, va_ram v)"
    and "distinct (map va_id vs)" and "set (map va_id vs) \<inter> set (keys (as_place \<sigma>)) = {}"
    and "place_all ns vs \<sigma> = (b, \<tau>)"
  shows "act_inv S m dem fes \<tau> \<and> as_alloc \<tau> = [] \<and> as_routes \<tau> = []
    \<and> (b \<longrightarrow> set (keys (as_place \<tau>)) = set (keys (as_place \<sigma>)) \<union> va_id ` set vs)"
  using assms(3-)
proof (induction vs arbitrary: \<sigma>)
  case (Cons v vs)
  show ?case
  proof (cases "\<exists>n d. select_node (as_sub \<sigma>) v ns = Some n \<and> map_of (g_nodes (as_sub \<sigma>)) n = Some d")
    case False
    then have "\<tau> = \<sigma> \<and> \<not> b" using Cons.prems(7) by (auto split: option.splits)
    then show ?thesis using Cons.prems by simp
  next
    case True
    then obtain n d where n: "select_node (as_sub \<sigma>) v ns = Some n"
      and d: "map_of (g_nodes (as_sub \<sigma>)) n = Some d" by blast
    obtain c where c: "n \<in> set ns" "candidate (as_sub \<sigma>) v n = Some c"
      by (rule select_node_Some[OF n]) (rule that)
    obtain t x n' where "c = (t, x, n')" by (cases c)
    with c d have fits: "va_cpu v \<le> cpu_residual d" "va_ram v \<le> ram_residual d"
      by (auto simp: candidate_Some)
    have fresh: "va_id v \<notin> set (keys (as_place \<sigma>))" using Cons.prems(6) by auto
    let ?\<sigma> = "place_on v n d \<sigma>"
    have "act_inv S m dem fes ?\<sigma>"
      using place_on_inv[OF wf Cons.prems(1) _ fresh _ d fits] c(1) ns Cons.prems(4) by simp
    moreover have "as_alloc ?\<sigma> = []" "as_routes ?\<sigma> = []" using Cons.prems(2,3) by (simp_all add: place_on_def)
    moreover have pl: "as_place ?\<sigma> = as_place \<sigma> @ [(va_id v, n)]"
      using update_fresh[OF fresh] by (simp add: place_on_def)
    then have "set (map va_id vs) \<inter> set (keys (as_place ?\<sigma>)) = {}"
      using Cons.prems(5,6) by auto
    moreover have "place_all ns vs ?\<sigma> = (b, \<tau>)" using Cons.prems(7) n d by simp
    ultimately show ?thesis
      using Cons.IH[of ?\<sigma>] Cons.prems(4,5) by (simp add: pl)
  qed
qed simp

text \<open>Every VNF the pass has placed is on a node it is permitted on.\<close>

lemma place_all_permitted:
  assumes "place_all ns vs \<sigma> = (b, \<tau>)" and "distinct (map va_id vs)" and "set (map va_id vs) \<inter> set (keys (as_place \<sigma>)) = {}"
  shows "permitted_placement vs (as_place \<tau>)
    \<and> (\<forall>x. x \<notin> va_id ` set vs \<longrightarrow> map_of (as_place \<tau>) x = map_of (as_place \<sigma>) x)"
  using assms
proof (induction vs arbitrary: \<sigma>)
  case (Cons v vs)
  have none: "map_of (as_place \<sigma>) (va_id w) = None" if "w \<in> set (v # vs)" for w
    using Cons.prems(3) that by (force simp: map_of_eq_None_iff)
  show ?case
  proof (cases "\<exists>n d. select_node (as_sub \<sigma>) v ns = Some n \<and> map_of (g_nodes (as_sub \<sigma>)) n = Some d")
    case True
    then obtain n d where n: "select_node (as_sub \<sigma>) v ns = Some n" "map_of (g_nodes (as_sub \<sigma>)) n = Some d" by blast
    from select_node_Some[OF n(1)] obtain c where "candidate (as_sub \<sigma>) v n = Some c" by blast
    then have perm: "va_permitted v = [] \<or> n \<in> set (va_permitted v)" by (cases c) (auto simp: candidate_Some)
    let ?\<sigma> = "place_on v n d \<sigma>"
    have pl: "as_place ?\<sigma> = AList.update (va_id v) n (as_place \<sigma>)" by (simp add: place_on_def)
    have "place_all ns vs ?\<sigma> = (b, \<tau>)" using Cons.prems(1) n by simp
    moreover have "set (map va_id vs) \<inter> set (keys (as_place ?\<sigma>)) = {}"
      unfolding pl keys_update using Cons.prems(2,3) by auto
    ultimately have "permitted_placement vs (as_place \<tau>)"
      and same: "\<forall>x. x \<notin> va_id ` set vs \<longrightarrow> map_of (as_place \<tau>) x = map_of (as_place ?\<sigma>) x"
      using Cons.IH[of ?\<sigma>] Cons.prems(2) by simp_all
    moreover have "va_id v \<notin> va_id ` set vs" using Cons.prems(2) by simp
    moreover from this same have "map_of (as_place \<tau>) (va_id v) = Some n" unfolding pl by (simp add: update_conv)
    ultimately show ?thesis using perm unfolding pl by (auto simp: permitted_placement_def update_conv)
  next
    case False
    then have "\<tau> = \<sigma>" using Cons.prems(1) by (auto split: option.splits)
    then show ?thesis using none by (simp add: permitted_placement_def)
  qed
qed (simp add: permitted_placement_def)

text \<open>What the routing pass owes a flow: a route, and bandwidth when it leaves its node.\<close>

definition flow_served :: "'b graph_scheme \<Rightarrow> 'a act_state_scheme \<Rightarrow> flow_edge \<Rightarrow> bool" where
  "flow_served g \<sigma> fe \<longleftrightarrow>
     (\<forall>s d. map_of (as_place \<sigma>) (source_vnf fe) = Some s \<longrightarrow> map_of (as_place \<sigma>) (target_vnf fe) = Some d \<longrightarrow>
        (\<exists>ls. map_of (as_routes \<sigma>) (flow_key_of fe) = Some ls \<and> joins g s d ls
           \<and> (s = d \<longrightarrow> ls = [])
           \<and> (s \<noteq> d \<longrightarrow> map_of (as_bw \<sigma>) (flow_key_of fe) = Some (bandwidth_demand fe))))"

definition routes_extend :: "act_state \<Rightarrow> act_state \<Rightarrow> bool" where
  "routes_extend \<sigma> \<tau> \<longleftrightarrow>
     as_place \<tau> = as_place \<sigma>
     \<and> (\<forall>fk ls. map_of (as_routes \<sigma>) fk = Some ls \<longrightarrow>
          map_of (as_routes \<tau>) fk = Some ls \<and> map_of (as_bw \<tau>) fk = map_of (as_bw \<sigma>) fk)"

lemma flow_served_extend:
  assumes "routes_extend \<sigma> \<tau>" and "flow_served g \<sigma> fe"
  shows "flow_served g \<tau> fe"
  using assms unfolding flow_served_def routes_extend_def by metis

lemma routes_extend_trans: "routes_extend \<sigma> \<tau> \<Longrightarrow> routes_extend \<tau> \<upsilon> \<Longrightarrow> routes_extend \<sigma> \<upsilon>"
  unfolding routes_extend_def by metis

lemma routes_extend_fresh:
  assumes "flow_key_of fe \<notin> set (keys (as_routes \<sigma>))"
    and "as_place \<tau> = as_place \<sigma>" and "as_routes \<tau> = AList.update (flow_key_of fe) ls (as_routes \<sigma>)"
    and "as_bw \<tau> = as_bw \<sigma> \<or> as_bw \<tau> = AList.update (flow_key_of fe) x (as_bw \<sigma>)"
  shows "routes_extend \<sigma> \<tau>"
  using assms unfolding routes_extend_def by (auto simp: rev_image_eqI dest: map_of_SomeD)

context path_oracle
begin

lemma route_all_inv:
  assumes wf: "wf_graph S" and ns: "set ns = set (nodes_in_domain S m)"
    and "act_inv S m dem FES \<sigma>" and "set fes \<subseteq> set FES"
    and "distinct (map flow_key_of fes)"
    and "set (map flow_key_of fes) \<inter> set (keys (as_routes \<sigma>)) = {}"
    and "route_all nx k ns fes \<sigma> = Inr (b, \<tau>)"
  shows "act_inv S m dem FES \<tau> \<and> routes_extend \<sigma> \<tau> \<and> (b \<longrightarrow> (\<forall>fe \<in> set fes. flow_served S \<tau> fe))"
  using assms(3-)
proof (induction fes arbitrary: \<sigma>)
  case Nil
  then show ?case by (simp add: routes_extend_def)
next
  case (Cons fe fes)
  note prems = Cons.prems
  have fresh: "flow_key_of fe \<notin> set (keys (as_routes \<sigma>))" using prems(4) by auto
  have fe: "fe \<in> set FES" using prems(2) by simp
  have step: ?case
    if inv: "act_inv S m dem FES \<sigma>'" and ext: "routes_extend \<sigma> \<sigma>'" and served: "flow_served S \<sigma>' fe"
      and ks: "set (keys (as_routes \<sigma>')) \<subseteq> insert (flow_key_of fe) (set (keys (as_routes \<sigma>)))"
      and run: "route_all nx k ns fes \<sigma>' = Inr (b, \<tau>)" for \<sigma>'
  proof -
    have "set (map flow_key_of fes) \<inter> set (keys (as_routes \<sigma>')) = {}"
    proof -
      have "flow_key_of fe \<notin> set (map flow_key_of fes)" using prems(3) by simp
      moreover have "set (map flow_key_of fes) \<inter> set (keys (as_routes \<sigma>)) = {}" using prems(4) by auto
      ultimately show ?thesis using ks by blast
    qed
    then have "act_inv S m dem FES \<tau> \<and> routes_extend \<sigma>' \<tau> \<and> (b \<longrightarrow> (\<forall>fe \<in> set fes. flow_served S \<tau> fe))"
      using Cons.IH[OF inv _ _ _ run] prems(2,3) by simp
    then show ?thesis
      using routes_extend_trans[OF ext] flow_served_extend[OF _ served] by auto
  qed
  show ?case
  proof (cases "map_of (as_place \<sigma>) (source_vnf fe) = None \<or> map_of (as_place \<sigma>) (target_vnf fe) = None")
    case True
    then have "route_all nx k ns fes \<sigma> = Inr (b, \<tau>)" using prems(5) by (auto split: option.splits)
    moreover have "flow_served S \<sigma> fe" using True by (auto simp: flow_served_def)
    ultimately show ?thesis
      using prems(1) by (intro step) (auto simp: routes_extend_def)
  next
    case False
    then obtain s d where sd: "map_of (as_place \<sigma>) (source_vnf fe) = Some s"
      "map_of (as_place \<sigma>) (target_vnf fe) = Some d" by auto
    show ?thesis
    proof (cases "s = d")
      case True
      let ?\<sigma> = "\<sigma>\<lparr>as_routes := AList.update (flow_key_of fe) [] (as_routes \<sigma>)\<rparr>"
      show ?thesis
      proof (rule step[of ?\<sigma>])
        show "act_inv S m dem FES ?\<sigma>" by (rule act_inv_same_node[OF prems(1) fresh fe])
        show "routes_extend \<sigma> ?\<sigma>" by (rule routes_extend_fresh[OF fresh]) simp_all
        show "flow_served S ?\<sigma> fe" using sd True by (simp add: flow_served_def)
        show "set (keys (as_routes ?\<sigma>)) \<subseteq> insert (flow_key_of fe) (set (keys (as_routes \<sigma>)))"
          using keys_update[of "flow_key_of fe" "[]" "as_routes \<sigma>"] by simp
        show "route_all nx k ns fes ?\<sigma> = Inr (b, \<tau>)" using prems(5) sd True by simp
      qed
    next
      case ne: False
      from prems(5) sd ne obtain r where
        r: "route_flow nx (as_sub \<sigma>) s d (bandwidth_demand fe) (as_left \<sigma>) ns k MinDelay = Inr r"
        by (auto split: sum.splits)
      show ?thesis
      proof (cases "rr_feasible r")
        case False
        then have "b = False \<and> \<tau> = \<sigma>" using prems(5) sd ne r by simp
        then show ?thesis using prems(1) by (simp add: routes_extend_def)
      next
        case True
        have wf\<sigma>: "wf_graph (as_sub \<sigma>)" using wf act_invD(1)[OF prems(1)] by simp
        have good: "good_route (as_sub \<sigma>) (set (nodes_in_domain S m)) (bandwidth_demand fe) r" "rr_links r \<noteq> []"
          using route_flow_good[OF wf\<sigma> r True] ne ns by simp_all
        let ?\<sigma> = "record_route fe r \<sigma>"
        show ?thesis
        proof (rule step[of ?\<sigma>])
          show "act_inv S m dem FES ?\<sigma>"
            unfolding record_route_def act_inv_metrics
            by (rule act_inv_route[OF wf prems(1) fresh fe]) (use good in \<open>simp_all add: good_route_def\<close>)
          show "routes_extend \<sigma> ?\<sigma>"
            by (rule routes_extend_fresh[OF fresh, where x = "bandwidth_demand fe"])
               (simp_all add: record_route_def)
          have "joins S s d (rr_links r)"
            using route_flow_joins[OF r True] wf unfolding act_invD(1)[OF prems(1)] by (simp add: joins_charge wf_graph_def)
          then show "flow_served S ?\<sigma> fe" using sd ne by (simp add: flow_served_def record_route_def)
          show "set (keys (as_routes ?\<sigma>)) \<subseteq> insert (flow_key_of fe) (set (keys (as_routes \<sigma>)))"
            using keys_update[of "flow_key_of fe" "rr_links r" "as_routes \<sigma>"] by (simp add: record_route_def)
          show "route_all nx k ns fes ?\<sigma> = Inr (b, \<tau>)" using prems(5) sd ne r True by simp
        qed
      qed
    qed
  qed
qed

end

section \<open>The greedy actor meets the contract\<close>

lemma abort_restores:
  "wf_graph S \<Longrightarrow> act_inv S m dem fes \<sigma> \<Longrightarrow> abort m \<sigma> = (S, infeasible_response m)"
  by (simp add: abort_def act_inv_rollback)

lemma route_claims_alloc:
  assumes "act_inv S m dem fes \<sigma>"
  shows "alloc_claims (as_alloc \<sigma>) = route_claims (as_routes \<sigma>) (as_bw \<sigma>)"
  unfolding act_invD(6)[OF assms] route_claims_def by (simp add: comp_def case_prod_unfold)

lemma executed_empty: "fragment_is_empty f \<Longrightarrow> executed S m f S (empty_response m)"
  by (simp add: executed_def empty_response_def infeasible_response_def fragment_is_empty_def
      routes_ok_def route_claims_def charge_def)

lemma fulfils_empty: "fragment_is_empty f \<Longrightarrow> fulfils S f (empty_response m)"
  by (simp add: fulfils_def empty_response_def infeasible_response_def permitted_placement_def serves_flows_def)

lemma serves_finish: "(T, r) = finish m \<tau> \<Longrightarrow> \<forall>fe \<in> set fes. flow_served S \<tau> fe \<Longrightarrow> serves_flows S r fes"
  by (simp add: finish_def serves_flows_def flow_served_def)

lemma fulfils_finish:
  "(T, r) = finish m \<tau> \<Longrightarrow> permitted_placement (pf_vnfs f) (as_place \<tau>) \<Longrightarrow>
   (distinct (map target_vnf (pf_flows f)) \<Longrightarrow> \<forall>fe \<in> set (pf_flows f). flow_served S \<tau> fe) \<Longrightarrow> fulfils S f r"
  using serves_finish unfolding fulfils_def by (fastforce simp: finish_def)

lemma executed_finish:
  assumes "(T, r) = finish m \<tau>" and "act_inv S m (frag_demand (pf_vnfs f)) (pf_flows f) \<tau>"
    and "set (keys (as_place \<tau>)) = va_id ` set (pf_vnfs f)"
  shows "executed S m f T r"
proof -
  note I = act_invD[OF assms(2)]
  have "T = charge (place_claims (frag_demand (pf_vnfs f)) (as_place \<tau>))
                   (route_claims (as_routes \<tau>) (as_bw \<tau>)) S"
    using assms(1) I(1) route_claims_alloc[OF assms(2)] by (simp add: finish_def)
  then show ?thesis
    using assms(1,3) I(2,3,7) unfolding executed_def by (simp add: finish_def)
qed

context path_oracle
begin

text \<open>Every way a call of \<open>greedy_act\<close> can end.\<close>

lemma greedy_act_cases:
  assumes wf: "wf_graph S" and f: "wf_fragment f" and run: "greedy_act nx k m S f = Inr (T, r)"
  obtains (empty) "fragment_is_empty f" and "T = S" and "r = empty_response m"
  | (refused) "\<not> fragment_is_empty f" and "T = S" and "r = infeasible_response m"
  | (completed) \<tau> where "\<not> fragment_is_empty f" and "(T, r) = finish m \<tau>"
      and "act_inv S m (frag_demand (pf_vnfs f)) (pf_flows f) \<tau>"
      and "set (keys (as_place \<tau>)) = va_id ` set (pf_vnfs f)"
      and "\<forall>fe \<in> set (pf_flows f). flow_served S \<tau> fe" and "permitted_placement (pf_vnfs f) (as_place \<tau>)"
proof (cases "fragment_is_empty f \<or> nodes_in_domain S m = []")
  case True
  then show ?thesis
  proof (cases "fragment_is_empty f")
    case True
    then show ?thesis using run empty by (simp add: greedy_act_def)
  next
    case False
    with True have "sort (nodes_in_domain S m) = []" by simp
    then show ?thesis using run refused False by (simp add: greedy_act_def)
  qed
next
  case False
  let ?ns = "sort (nodes_in_domain S m)" and ?vs = "sort_key placement_key (pf_vnfs f)"
  let ?dem = "frag_demand (pf_vnfs f)"
  have ne: "?ns \<noteq> []" using False by (metis set_empty set_sort)
  obtain b \<sigma> where p: "place_all ?ns ?vs (start_state S f) = (b, \<sigma>)" by (cases "place_all ?ns ?vs (start_state S f)")
  have ids: "distinct (map va_id (pf_vnfs f))" using f by (simp add: wf_fragment_def)
  have dids: "distinct (map va_id ?vs)"
    using ids mset_sort[of placement_key "pf_vnfs f"]
    by (metis mset_map mset_eq_imp_distinct_iff)
  have start: "act_inv S m ?dem (pf_flows f) (start_state S f)"
    by (simp add: act_inv_def start_state_def charge_def routes_ok_def)
  have dem: "\<forall>v \<in> set ?vs. ?dem (va_id v) = (va_cpu v, va_ram v)"
    using frag_demand_in[OF ids] by simp
  have "act_inv S m ?dem (pf_flows f) \<sigma> \<and> as_alloc \<sigma> = [] \<and> as_routes \<sigma> = []
    \<and> (b \<longrightarrow> set (keys (as_place \<sigma>)) = set (keys (as_place (start_state S f))) \<union> va_id ` set ?vs)"
    by (rule place_all_inv[OF wf _ start _ _ dem dids _ p]) (simp_all add: start_state_def)
  then have P: "act_inv S m ?dem (pf_flows f) \<sigma>" "as_routes \<sigma> = []"
    "b \<Longrightarrow> set (keys (as_place \<sigma>)) = va_id ` set (pf_vnfs f)"
    by (simp_all add: start_state_def)
  have perm: "permitted_placement (pf_vnfs f) (as_place \<sigma>)"
    using place_all_permitted[OF p dids] by (simp add: start_state_def permitted_placement_def)
  show ?thesis
  proof (cases b)
    case False
    then have "(T, r) = abort m \<sigma>"
      using run p ne \<open>\<not> (fragment_is_empty f \<or> nodes_in_domain S m = [])\<close> by (simp add: greedy_act_def)
    then show ?thesis
      using abort_restores[OF wf P(1)] refused \<open>\<not> (fragment_is_empty f \<or> nodes_in_domain S m = [])\<close> by simp
  next
    case True
    then obtain b' \<tau> where q: "route_all nx k ?ns (pf_flows f) \<sigma> = Inr (b', \<tau>)"
      using run p ne \<open>\<not> (fragment_is_empty f \<or> nodes_in_domain S m = [])\<close>
      by (auto simp: greedy_act_def split: sum.splits prod.splits)
    have "act_inv S m ?dem (pf_flows f) \<tau> \<and> routes_extend \<sigma> \<tau> \<and> (b' \<longrightarrow> (\<forall>fe \<in> set (pf_flows f). flow_served S \<tau> fe))"
      by (rule route_all_inv[OF wf _ P(1) _ _ _ q]) (use f P(2) in \<open>simp_all add: wf_fragment_def\<close>)
    then have Q: "act_inv S m ?dem (pf_flows f) \<tau>" "as_place \<tau> = as_place \<sigma>"
      "b' \<Longrightarrow> \<forall>fe \<in> set (pf_flows f). flow_served S \<tau> fe"
      by (simp_all add: routes_extend_def)
    have out: "(T, r) = (if b' then finish m \<tau> else abort m \<tau>)"
      using run p q True ne \<open>\<not> (fragment_is_empty f \<or> nodes_in_domain S m = [])\<close>
      by (auto simp: greedy_act_def split: bool.splits)
    show ?thesis
    proof (cases b')
      case True
      then show ?thesis
        using completed[of \<tau>] out Q P(3) perm \<open>b\<close> \<open>\<not> (fragment_is_empty f \<or> nodes_in_domain S m = [])\<close> by simp
    next
      case False
      then show ?thesis
        using abort_restores[OF wf Q(1)] refused out
          \<open>\<not> (fragment_is_empty f \<or> nodes_in_domain S m = [])\<close> by simp
    qed
  qed
qed

lemma greedy_domain_actor: "domain_actor m (greedy_act nx k m)"
proof
  fix S T :: substrate and f r
  assume run: "greedy_act nx k m S f = Inr (T, r)"
  show "dr_domain r = m"
    using run by (auto simp: greedy_act_def abort_def finish_def empty_response_def infeasible_response_def
        Let_def split: if_splits sum.splits prod.splits bool.splits)
next
  fix S T :: substrate and f r
  assume A: "wf_graph S" "wf_fragment f" "greedy_act nx k m S f = Inr (T, r)"
  show "T = S \<and> dr_placements r = [] \<and> dr_routes r = [] \<and> dr_bw r = []" if "\<not> dr_feasible r"
    using A by (cases rule: greedy_act_cases) (use that in \<open>auto simp: finish_def infeasible_response_def empty_response_def\<close>)
  show "executed S m f T r" if "dr_feasible r"
    using A
  proof (cases rule: greedy_act_cases)
    case empty
    then show ?thesis by (simp add: executed_empty)
  next
    case refused
    then show ?thesis using that by (simp add: infeasible_response_def)
  next
    case (completed \<tau>)
    show ?thesis by (rule executed_finish[OF completed(2-4)])
  qed
  show "fulfils S f r" if "dr_feasible r"
    using A by (cases rule: greedy_act_cases) (use that in \<open>auto simp: fulfils_empty fulfils_finish infeasible_response_def\<close>)
  show "no_overbooking T" if "no_overbooking S"
    using A by (cases rule: greedy_act_cases) (use that act_invD(8) in \<open>auto simp: finish_def\<close>)
qed

end

sublocale path_oracle \<subseteq> greedy: domain_actor m "greedy_act nx k m" for k m
  by (rule greedy_domain_actor)

text \<open>\<open>{m: GreedyDomainActor(m, k) for m in domains}\<close>.\<close>

definition greedy_actors :: "nx_lib \<Rightarrow> nat \<Rightarrow> int list \<Rightarrow> actor_table" where
  "greedy_actors nx k ds = map (\<lambda>m. (m, greedy_act nx k m)) ds"

lemma map_of_greedy_actors:
  "map_of (greedy_actors nx k ds) d = (if d \<in> set ds then Some (greedy_act nx k d) else None)"
  by (induction ds) (auto simp: greedy_actors_def)

sublocale path_oracle \<subseteq> greedy_pool: actor_pool nx "greedy_actors nx k ds" for k ds
  by (intro actor_pool.intro actor_pool_axioms.intro path_oracle_axioms)
     (auto simp: map_of_greedy_actors intro: greedy_domain_actor split: if_splits)

interpretation dfs_pool: actor_pool dfs_nx "greedy_actors dfs_nx k ds" for k ds
  by (rule dfs_oracle.greedy_pool.actor_pool_axioms)

section \<open>Properties\<close>

definition feasible_node :: "'a graph_scheme \<Rightarrow> vnf_assignment \<Rightarrow> node_id \<Rightarrow> node_data \<Rightarrow> bool" where
  "feasible_node g v n d \<longleftrightarrow>
     map_of (g_nodes g) n = Some d \<and> (va_permitted v = [] \<or> n \<in> set (va_permitted v))
     \<and> va_cpu v \<le> cpu_residual d \<and> va_ram v \<le> ram_residual d"

text \<open>
  The node a placement goes to is permitted and has the room; a node of the required tier
  wins over any other, and within a tier no feasible node is faster. The selection fails only
  when no permitted node of the domain has the room.
\<close>

theorem select_node_best:
  "(select_node g v ns = None \<longleftrightarrow> (\<forall>n \<in> set ns. \<forall>d. \<not> feasible_node g v n d))
   \<and> (case select_node g v ns of None \<Rightarrow> True
      | Some n \<Rightarrow> \<exists>d. n \<in> set ns \<and> feasible_node g v n d
          \<and> (\<forall>n' \<in> set ns. \<forall>d'. feasible_node g v n' d' \<longrightarrow>
               (node_tier d' = va_tier v \<longrightarrow> node_tier d = va_tier v)
               \<and> ((node_tier d' = va_tier v) = (node_tier d = va_tier v) \<longrightarrow>
                    processing_delay d * va_intensity v \<le> processing_delay d' * va_intensity v)))"
proof -
  have cand: "feasible_node g v n d \<Longrightarrow> candidate g v n = Some (- (if node_tier d = va_tier v then 1 else 0),
      processing_delay d * va_intensity v, n)" for n d
    by (auto simp: feasible_node_def candidate_Some)
  have feas: "\<exists>d. feasible_node g v n d" if "candidate g v n = Some c" for n c
    using that by (cases c) (auto simp: candidate_Some feasible_node_def)
  have "candidate g v n = None \<longleftrightarrow> (\<forall>d. \<not> feasible_node g v n d)" for n
    using cand feas by (metis not_None_eq)
  then have 1: "select_node g v ns = None \<longleftrightarrow> (\<forall>n \<in> set ns. \<forall>d. \<not> feasible_node g v n d)"
    by (simp add: select_node_None)
  have "\<exists>d. n \<in> set ns \<and> feasible_node g v n d
          \<and> (\<forall>n' \<in> set ns. \<forall>d'. feasible_node g v n' d' \<longrightarrow>
               (node_tier d' = va_tier v \<longrightarrow> node_tier d = va_tier v)
               \<and> ((node_tier d' = va_tier v) = (node_tier d = va_tier v) \<longrightarrow>
                    processing_delay d * va_intensity v \<le> processing_delay d' * va_intensity v))"
    if sel: "select_node g v ns = Some n" for n
  proof -
    from select_node_Some[OF sel] obtain c where c: "n \<in> set ns" "candidate g v n = Some c"
      and le: "\<And>n' c'. n' \<in> set ns \<Longrightarrow> candidate g v n' = Some c' \<Longrightarrow> c \<le> c'" by blast
    from feas[OF c(2)] obtain d where d: "feasible_node g v n d" by blast
    have "(node_tier d' = va_tier v \<longrightarrow> node_tier d = va_tier v)
          \<and> ((node_tier d' = va_tier v) = (node_tier d = va_tier v) \<longrightarrow>
               processing_delay d * va_intensity v \<le> processing_delay d' * va_intensity v)"
      if n': "n' \<in> set ns" and d': "feasible_node g v n' d'" for n' d'
      using le[OF n' cand[OF d']] cand[OF d] c(2) by (auto simp: less_eq_prod_def split: if_splits)
    then show ?thesis using c(1) d by blast
  qed
  with 1 show ?thesis by (simp split: option.splits)
qed

text \<open>
  C10: a call of the greedy actor either leaves the substrate exactly as it was and reports
  nothing, or has placed every VNF of the fragment on a permitted node of its domain and served every flow
  between them over a route that joins the two nodes, and the substrate is charged with exactly the
  reported placements and routes. It never over-allocates a resource.
\<close>

theorem greedy_act_correct:
  assumes "path_oracle nx" and "wf_graph S" and "wf_fragment f"
    and "greedy_act nx k m S f = Inr (T, r)"
  shows "dr_domain r = m
       \<and> (if dr_feasible r then executed S m f T r \<and> permitted_placement (pf_vnfs f) (dr_placements r) \<and> serves_flows S r (pf_flows f)
          else T = S \<and> r = infeasible_response m)
       \<and> (no_overbooking S \<longrightarrow> no_overbooking T)"
proof -
  note D = path_oracle.greedy_domain_actor[OF assms(1), of m k]
  have "(if dr_feasible r then serves_flows S r (pf_flows f) else r = infeasible_response m)"
  proof (cases rule: path_oracle.greedy_act_cases[OF assms, case_names empty refused completed])
    case empty
    then show ?thesis
      by (simp add: empty_response_def infeasible_response_def serves_flows_def)
  next
    case refused
    then show ?thesis by (simp add: infeasible_response_def)
  next
    case (completed \<tau>)
    then show ?thesis using serves_finish by (auto simp: finish_def)
  qed
  then show ?thesis
    using domain_actor.act_domain[OF D assms(4)] domain_actor.act_executes[OF D assms(2-4)]
      domain_actor.act_fulfils[OF D assms(2-4)] domain_actor.act_refuses[OF D assms(2-4)] domain_actor.act_safe[OF D assms(2-4)]
    by (auto simp: fulfils_def)
qed

definition ex_va :: "string \<Rightarrow> vnf_assignment" where
  "ex_va v = \<lparr>va_id = v, va_type = ''fw'', va_cpu = 5, va_ram = 3, va_tier = Edge, va_intensity = 1,
     va_vcr = 1, va_bandwidth_in = 1, va_permitted = [], va_position = 0, va_sfc_length = 2,
     va_adjacent = {}\<rparr>"

definition ex_frag :: plan_fragment where
  "ex_frag = \<lparr>pf_domain = 0, pf_vnfs = [ex_va ''u'', ex_va ''v''],
     pf_flows = [\<lparr>source_vnf = ''u'', target_vnf = ''v'', bandwidth_demand = 4\<rparr>],
     pf_delay_budget = 20, pf_targets = {}\<rparr>"

theorem greedy_act_correct_witness:
  "\<exists>T r. greedy_act dfs_nx 3 0 ex_sub ex_frag = Inr (T, r) \<and> dr_feasible r
     \<and> executed ex_sub 0 ex_frag T r \<and> serves_flows ex_sub r (pf_flows ex_frag) \<and> no_overbooking T
     \<and> greedy_act dfs_nx 3 1 ex_sub ex_frag = Inr (ex_sub, infeasible_response 1)"
proof -
  let ?x = "projr (greedy_act dfs_nx 3 0 ex_sub ex_frag)"
  let ?y = "projr (greedy_act dfs_nx 3 1 ex_sub ex_frag)"
  have x: "greedy_act dfs_nx 3 0 ex_sub ex_frag = Inr (fst ?x, snd ?x)" by code_simp
  have y: "greedy_act dfs_nx 3 1 ex_sub ex_frag = Inr (fst ?y, snd ?y)" by code_simp
  have wf: "wf_graph ex_sub" "wf_fragment ex_frag" "no_overbooking ex_sub" by code_simp+
  have "dr_feasible (snd ?x)" "\<not> dr_feasible (snd ?y)" by code_simp+
  then show ?thesis
    using x y wf greedy_act_correct[OF dfs_oracle.path_oracle_axioms wf(1,2) x]
      greedy_act_correct[OF dfs_oracle.path_oracle_axioms wf(1,2) y] by (metis (full_types))
qed

theorem select_node_best_witness:
  "\<exists>d. feasible_node ex_sub (ex_va ''u'') ''a'' d
     \<and> processing_delay d * va_intensity (ex_va ''u'') \<le> 2"
proof -
  have sel: "select_node ex_sub (ex_va ''u'') [''b'', ''a''] = Some ''a''" by code_simp
  have b: "feasible_node ex_sub (ex_va ''u'') ''b'' (ex_node 0 Edge)"
    and e: "node_tier (ex_node 0 Edge) = va_tier (ex_va ''u'')" by code_simp+
  from sel select_node_best[of ex_sub "ex_va ''u''" "[''b'', ''a'']"] obtain d
    where "feasible_node ex_sub (ex_va ''u'') ''a'' d"
      and "\<forall>n' \<in> set [''b'', ''a'']. \<forall>d'. feasible_node ex_sub (ex_va ''u'') n' d' \<longrightarrow>
         (node_tier d' = va_tier (ex_va ''u'') \<longrightarrow> node_tier d = va_tier (ex_va ''u''))
         \<and> ((node_tier d' = va_tier (ex_va ''u'')) = (node_tier d = va_tier (ex_va ''u'')) \<longrightarrow>
              processing_delay d * va_intensity (ex_va ''u'')
                \<le> processing_delay d' * va_intensity (ex_va ''u''))" by auto
  moreover have "processing_delay (ex_node 0 Edge) * va_intensity (ex_va ''u'') = 2" by code_simp
  ultimately show ?thesis using b e by (metis list.set_intros(1))
qed

end
