(* ===== verification/Arrival.thy ===== *)
theory Arrival
  imports Commit Greedy_Actor
begin

text \<open>
  The guarantees of the coordinator (\<open>src/src/orion/mdo/coordinator.py\<close>) over whole
  arrivals, for every path library and every table of domain actors that meet their contracts,
  and a run on which their hypotheses hold: two greedy actors over the depth-first path
  library, on the substrate of \<open>Substrate.ex_sub\<close>.
\<close>

section \<open>A run\<close>

definition ex_co :: coordinator where
  "ex_co = \<lparr>co_config = default_mdo_config,
     co_switches = \<lparr>sw_guard = True, sw_joint = False, sw_node_mask = True, sw_chain = None\<rparr>,
     co_policy = None, co_actors = greedy_actors dfs_nx 3 [0, 1]\<rparr>"

definition ex_summary :: plan_summary where
  "ex_summary = \<lparr>ps_vnf_ids = [''u'', ''v''], ps_tiers = [Edge, CentralCloud], ps_suggested = [0, 1],
     ps_cpu = [5, 5], ps_ram = [3, 3], ps_vcrs = [1, 1], ps_bw = [4]\<rparr>"

definition ex_counters :: mdo_counters where
  "ex_counters = \<lparr>ct_guard = reset_guard_stats, ct_joint = reset_joint_host_stats\<rparr>"

abbreviation ex_run :: "real \<Rightarrow> py_error + (substrate \<times> mdo_result \<times> mdo_counters)" where
  "ex_run g \<equiv> resolve_arrival dfs_nx ex_co (\<lambda>_ _. 0) ex_sub ex_guard_req2 ex_summary ''follow_prior'' (Some g) ex_counters"

lemma ex_pool: "actor_pool dfs_nx (co_actors ex_co)"
  unfolding ex_co_def by (simp add: dfs_oracle.greedy_pool.actor_pool_axioms)

lemma ex_run_commits:
  "\<exists>r ct. ex_run 100 = Inr (ex_sub, r, ct) \<and> mr_admitted r \<and> mr_partition r = Some [0, 1]"
proof -
  have "(case ex_run 100 of Inl e \<Rightarrow> False
     | Inr (T, r, ct) \<Rightarrow> T = ex_sub \<and> mr_admitted r \<and> mr_partition r = Some [0, 1])" by code_simp
  then show ?thesis by (auto split: sum.splits)
qed

lemma ex_wf: "wf_graph ex_sub" "wf_request ex_guard_req2" "typed_links ex_sub" "no_overbooking ex_sub"
  "request_id ex_guard_req2 \<notin> set (keys (active_slices ex_sub))"
  by code_simp+

section \<open>Properties\<close>

text \<open>C4: one arrival leaves the substrate as it was, whether it is committed or rejected: the
  provisional placements and routes of all actors and of the cross-domain router are undone
  exactly. (The commit itself is the caller's \<open>allocate\<close>.)\<close>

theorem resolve_arrival_leaves_substrate:
  assumes "actor_pool nx (co_actors co)" and "wf_graph S" and "wf_request req"
    and "resolve_arrival nx co rnd S req ps mode greedy ct = Inr (T, r, ct')"
  shows "T = S"
  by (rule actor_pool.resolve_arrival_restores[OF assms(1-3) refl assms(4)])

theorem resolve_arrival_leaves_substrate_witness:
  "\<exists>T r ct. ex_run 100 = Inr (T, r, ct) \<and> mr_admitted r \<and> T = ex_sub"
proof -
  from ex_run_commits obtain r ct where r: "ex_run 100 = Inr (ex_sub, r, ct)" "mr_admitted r" by blast
  have "ex_sub = ex_sub" by (rule resolve_arrival_leaves_substrate[OF ex_pool ex_wf(1,2) r(1)])
  with r show ?thesis by blast
qed

text \<open>C6: a committed slice keeps every promise of the decision. The partition passes the chain-order
  constraint in force. The placement plan can be built; in it every VNF is on a node of the domain the
  partition gives it, and on one of its permitted nodes when its request names any; every flow has a route
  whose links lead from the node of its source to the node of its target, with the flow's full demand
  reserved on each of them, provided no VNF is the target of two flows (\<open>DomainActor\<close> keeps one incoming
  flow per VNF; the requests are chains). The routes between domains cross at most the configured number of
  inter-domain links, and the end-to-end delay is within the slice's budget.\<close>

theorem commit_is_sound:
  assumes pool: "actor_pool nx (co_actors co)" and wf: "wf_graph S" and req: "wf_request req"
    and run: "resolve_arrival nx co rnd S req ps mode greedy ct = Inr (T, r, ct')" and adm: "mr_admitted r"
  shows "\<exists>part plan. mr_partition r = Some part \<and> violates (sw_chain (co_switches co)) part = Inr False
    \<and> build_placement_plan req r = Inr (Some plan)
    \<and> (\<forall>k < length (vnfs req). \<exists>n. map_of (vnf_placements plan) (vnf_id (vnfs req ! k)) = Some n
          \<and> n \<in> set (nodes_in_domain S (part ! k))
          \<and> (permitted_nodes (vnfs req ! k) = [] \<or> n \<in> set (permitted_nodes (vnfs req ! k))))
    \<and> (distinct (map target_vnf (flow_edges req)) \<longrightarrow> (\<forall>fe \<in> set (flow_edges req). flow_carried S plan fe))
    \<and> length (filter (link_crosses S) (concat (vals (mr_cross_routes r)))) \<le> max_inter_domain_hops (co_config co)
    \<and> mr_e2e_delay r \<le> max_e2e_delay (qos_of req)"
  using pool wf req run adm
proof (rule admitted_trial)
  fix part t
  assume co: "carried_out S req ps part t" and part: "mr_partition r = Some part"
    and ok: "\<not> any_infeasible (tr_responses t)" "tr_cross_ok t"
    and rs: "mr_responses r = tr_responses t" "mr_cross_routes r = tr_routes t" "mr_cross_bw r = tr_bw t"
    and chain: "violates (sw_chain (co_switches co)) part = Inr False"
    and e2e: "intra_delay (tr_responses t) + tr_delay t \<le> max_e2e_delay (qos_of req)"
      "mr_e2e_delay r = intra_delay (tr_responses t) + tr_delay t"
    and hops: "tr_hops t \<le> max_inter_domain_hops (co_config co)"
  note B = build_plan_of[OF req co ok rs]
  have "length (filter (link_crosses S) (concat (vals (mr_cross_routes r)))) = tr_hops t"
    unfolding rs by (rule trial_hops[OF wf co])
  with part chain B hops e2e committed_nodes[OF req co ok] committed_flows[OF req co ok] show ?thesis by auto
qed

theorem commit_is_sound_witness:
  "\<exists>r ct plan n s d ls. ex_run 100 = Inr (ex_sub, r, ct) \<and> mr_partition r = Some [0, 1] \<and> mr_e2e_delay r \<le> 20
    \<and> build_placement_plan ex_guard_req2 r = Inr (Some plan)
    \<and> map_of (vnf_placements plan) ''v'' = Some n \<and> n \<in> set (nodes_in_domain ex_sub 1) \<and> n = ''c''
    \<and> map_of (flow_routes plan) (''u'', ''v'') = Some ls \<and> joins ex_sub s d ls
    \<and> map_of (bw_allocations plan) (''u'', ''v'') = Some (claim_links ls 4)
    \<and> length (filter (link_crosses ex_sub) (concat (vals (mr_cross_routes r)))) \<le> 3"
proof -
  from ex_run_commits obtain r ct where r: "ex_run 100 = Inr (ex_sub, r, ct)" "mr_admitted r"
    "mr_partition r = Some [0, 1]" by blast
  let ?fe = "hd (flow_edges ex_guard_req2)"
  have v: "vnf_id (vnfs ex_guard_req2 ! 1) = ''v''" "permitted_nodes (vnfs ex_guard_req2 ! 1) = [''c'']"
    "1 < length (vnfs ex_guard_req2)" "max_e2e_delay (qos_of ex_guard_req2) = 20"
    "distinct (map target_vnf (flow_edges ex_guard_req2))" "?fe \<in> set (flow_edges ex_guard_req2)"
    "flow_key_of ?fe = (''u'', ''v'')" "bandwidth_demand ?fe = 4" "max_inter_domain_hops (co_config ex_co) = 3"
    by code_simp+
  from commit_is_sound[OF ex_pool ex_wf(1,2) r(1,2)] r(3) obtain plan where
    p: "build_placement_plan ex_guard_req2 r = Inr (Some plan)" "mr_e2e_delay r \<le> 20"
      "length (filter (link_crosses ex_sub) (concat (vals (mr_cross_routes r)))) \<le> 3"
    and n: "\<exists>n. map_of (vnf_placements plan) (vnf_id (vnfs ex_guard_req2 ! 1)) = Some n
          \<and> n \<in> set (nodes_in_domain ex_sub ([0, 1] ! 1))
          \<and> (permitted_nodes (vnfs ex_guard_req2 ! 1) = [] \<or> n \<in> set (permitted_nodes (vnfs ex_guard_req2 ! 1)))"
    and f: "flow_carried ex_sub plan ?fe"
    using v(3-6,9) by (metis option.inject)
  from f obtain s d ls where "map_of (flow_routes plan) (''u'', ''v'') = Some ls" "joins ex_sub s d ls"
    "map_of (bw_allocations plan) (''u'', ''v'') = Some (claim_links ls 4)"
    unfolding flow_carried_def v(7,8) by blast
  with r p n v(1,2) show ?thesis by auto
qed

text \<open>C5: after a commit the placement plan can be built and allocated; no residual of a node
  or a link goes negative, and the ground-truth verifier can reject the slice only for its
  end-to-end delay (C7), never for capacity, throughput or hop count.\<close>

theorem commit_allocates_safely:
  assumes pool: "actor_pool nx (co_actors co)" and wf: "wf_graph S" and req: "wf_request req"
    and typed: "typed_links S" and safe: "no_overbooking S"
    and fresh: "request_id req \<notin> set (keys (active_slices S))"
    and run: "resolve_arrival nx co rnd S req ps mode greedy ct = Inr (T, r, ct')" and adm: "mr_admitted r"
  shows "\<exists>plan S' v. build_placement_plan req r = Inr (Some plan) \<and> allocate T plan req = Inr S'
    \<and> no_overbooking S'
    \<and> verify_committed_plan S' plan req (max_inter_domain_hops (co_config co)) = Inr v
    \<and> set (vd_violated v) \<subseteq> {''C7''}"
  using committed_allocation[OF assms] by blast

theorem commit_allocates_safely_witness:
  "\<exists>r ct plan S' v. ex_run 100 = Inr (ex_sub, r, ct) \<and> build_placement_plan ex_guard_req2 r = Inr (Some plan)
    \<and> allocate ex_sub plan ex_guard_req2 = Inr S' \<and> no_overbooking S'
    \<and> verify_committed_plan S' plan ex_guard_req2 (max_inter_domain_hops (co_config ex_co)) = Inr v
    \<and> set (vd_violated v) \<subseteq> {''C7''}"
proof -
  from ex_run_commits obtain r ct where r: "ex_run 100 = Inr (ex_sub, r, ct)" "mr_admitted r" by blast
  from commit_allocates_safely[OF ex_pool ex_wf(1-5) r] r(1) show ?thesis by blast
qed

end
