(* ===== verification/Env.thy ===== *)
theory Env
  imports Episode Arrival
begin

text \<open>
  The Gym wrapper (\<open>src/src/orion/sim/env.py\<close>) and the canned plan builder of
  \<open>src/src/orion/sim/episode_runner.py\<close>. One \<open>step\<close> absorbs departures and handles one
  arrival; driving the wrapper until it reports the end gives the statistics of \<open>run_episode\<close>.
  The observation it returns is a marker without content and is left out.
\<close>

section \<open>The plan builder\<close>

text \<open>The first tier of the edge-to-cloud order among the tiers of the permitted nodes.\<close>

definition infer_required_tier :: "'a graph_scheme \<Rightarrow> vnf \<Rightarrow> tier option" where
  "infer_required_tier g v =
     (let ts = List.map_filter (\<lambda>n. map_option node_tier (map_of (g_nodes g) n)) (permitted_nodes v) in
      if permitted_nodes v = [] \<or> ts = [] then None
      else List.find (\<lambda>t. t \<in> set ts) tier_order)"

definition suggested_domain :: "'a graph_scheme \<Rightarrow> vnf \<Rightarrow> tier \<Rightarrow> int option" where
  "suggested_domain g v t =
     (case List.find (\<lambda>n. \<exists>d \<in> set_option (map_of (g_nodes g) n). node_tier d = t) (permitted_nodes v) of
        None \<Rightarrow> None
      | Some n \<Rightarrow> map_option domain_id (map_of (g_nodes g) n))"

fun plan_rows :: "'a graph_scheme \<Rightarrow> vnf list \<Rightarrow> (tier \<times> int) list option" where
  "plan_rows g [] = Some []"
| "plan_rows g (v # vs) =
     (case infer_required_tier g v of
        None \<Rightarrow> None
      | Some t \<Rightarrow>
     (case suggested_domain g v t of
        None \<Rightarrow> None
      | Some m \<Rightarrow> map_option ((#) (t, m)) (plan_rows g vs)))"

definition default_plan_builder :: plan_builder where
  "default_plan_builder req S =
     map_option (\<lambda>rows. \<lparr>ps_vnf_ids = map vnf_id (vnfs req), ps_tiers = map fst rows,
         ps_suggested = map snd rows, ps_cpu = map cpu_demand (vnfs req),
         ps_ram = map ram_demand (vnfs req), ps_vcrs = map vcr (vnfs req),
         ps_bw = map bandwidth_demand (flow_edges req)\<rparr>)
       (plan_rows S (vnfs req))"

section \<open>OrionSliceEnv\<close>

record env =
  en_runner :: runner
  en_stats :: episode_stats

definition env_reset :: "real list \<Rightarrow> real list \<Rightarrow> env \<Rightarrow> env" where
  "env_reset gaps lifes en = en\<lparr>en_runner := reset_runner gaps lifes (en_runner en), en_stats := no_stats\<rparr>"

text \<open>The leading departures: \<open>peek\<close>, \<open>next_event\<close>, \<open>_handle_departure\<close>. The list is what
  the stream still holds.\<close>

fun drain :: "sim_event list \<Rightarrow> runner \<times> episode_stats \<Rightarrow> py_error + (runner \<times> episode_stats)" where
  "drain [] s = Inr s"
| "drain (e # es) (rn, st) =
     (if event_value (ev_type e) = 0
      then (case handle_departure (ev_request e)
                   (rn\<lparr>rn_process := (rn_process rn)\<lparr>ap_idx := ap_idx (rn_process rn) + 1\<rparr>\<rparr>, st) of
              Inl err \<Rightarrow> Inl err
            | Inr s \<Rightarrow> drain es s)
      else Inr (rn, st))"

definition remaining :: "runner \<Rightarrow> sim_event list" where
  "remaining rn = drop (ap_idx (rn_process rn)) (ap_events (rn_process rn))"

text \<open>One step: the reward and whether the episode is over.\<close>

definition env_step :: "nx_lib \<Rightarrow> string \<Rightarrow> (nat \<Rightarrow> nat \<Rightarrow> nat \<Rightarrow> nat) \<Rightarrow> env
    \<Rightarrow> py_error + (env \<times> real \<times> bool)" where
  "env_step nx mode rnd en =
     (case drain (remaining (en_runner en)) (en_runner en, en_stats en) of
        Inl e \<Rightarrow> Inl e
      | Inr (rn, st) \<Rightarrow>
          if \<not> has_next (rn_process rn) then Inr (\<lparr>en_runner = rn, en_stats = st\<rparr>, 0, True)
          else (case next_event (rn_process rn) of
                  Inl e \<Rightarrow> Inl e
                | Inr (ev, p) \<Rightarrow>
                    (case ev_slice ev of
                       None \<Rightarrow> Inl AssertionError
                     | Some req \<Rightarrow>
                         (case handle_arrival nx mode rnd req (rn\<lparr>rn_process := p\<rparr>, new_episode\<lparr>ep_stats := st\<rparr>) of
                            Inl e \<Rightarrow> Inl e
                          | Inr (rn', ep) \<Rightarrow>
                              Inr (\<lparr>en_runner = rn', en_stats = ep_stats ep\<rparr>,
                                   es_reward (ep_stats ep) - es_reward st,
                                   \<not> has_next (rn_process rn'))))))"

text \<open>Stepping until the wrapper reports the end, for at most \<open>n\<close> steps; the rewards are summed.\<close>

fun env_run :: "nx_lib \<Rightarrow> string \<Rightarrow> (nat \<Rightarrow> nat \<Rightarrow> nat \<Rightarrow> nat) \<Rightarrow> nat \<Rightarrow> env \<Rightarrow> real
    \<Rightarrow> (py_error + (env \<times> real)) option" where
  "env_run nx mode rnd 0 en total_reward = None"
| "env_run nx mode rnd (Suc n) en total_reward =
     (case env_step nx mode rnd en of
        Inl e \<Rightarrow> Some (Inl e)
      | Inr (en', r, over) \<Rightarrow>
          if over then Some (Inr (en', total_reward + r)) else env_run nx mode rnd n en' (total_reward + r))"

section \<open>The wrapper runs the episode\<close>

text \<open>Only the statistics of the episode object influence a handler.\<close>

fun stats_view :: "py_error + (runner \<times> episode) \<Rightarrow> py_error + (runner \<times> episode_stats)" where
  "stats_view (Inl e) = Inl e"
| "stats_view (Inr (rn, ep)) = Inr (rn, ep_stats ep)"

abbreviation with_stats :: "episode_stats \<Rightarrow> episode" where
  "with_stats st \<equiv> new_episode\<lparr>ep_stats := st\<rparr>"

lemma handle_arrival_stats:
  "stats_view (handle_arrival nx mode rnd req (rn, ep))
   = stats_view (handle_arrival nx mode rnd req (rn, with_stats (ep_stats ep)))"
  by (auto simp: handle_arrival_def Let_def new_episode_def split: option.splits sum.splits prod.splits)

lemma handle_event_stats:
  "stats_view (handle_event nx mode rnd e (rn, ep))
   = stats_view (handle_event nx mode rnd e (rn, with_stats (ep_stats ep)))"
proof (cases "ev_type e")
  case ARRIVAL
  then show ?thesis using handle_arrival_stats by (simp add: handle_event_def split: option.split)
next
  case DEPARTURE
  then show ?thesis
    by (cases "handle_departure (ev_request e) (rn, ep_stats ep)") (auto simp: handle_event_def)
qed

lemma run_loop_stats:
  "stats_view (run_loop nx mode rnd (rn, ep)) = stats_view (run_loop nx mode rnd (rn, with_stats (ep_stats ep)))"
proof (induction "length (ap_events (rn_process rn)) - ap_idx (rn_process rn)" arbitrary: rn ep)
  case 0
  then have "\<not> has_next (rn_process rn)" by (simp add: has_next_def)
  then show ?case by (simp add: run_loop.simps)
next
  case (Suc k)
  have h: "has_next (rn_process rn)" using Suc(2) by (simp add: has_next_def)
  let ?e = "ap_events (rn_process rn) ! ap_idx (rn_process rn)"
  let ?p = "(rn_process rn)\<lparr>ap_idx := ap_idx (rn_process rn) + 1\<rparr>"
  let ?rn = "rn\<lparr>rn_process := ?p\<rparr>"
  have step: "run_loop nx mode rnd (rn, ep') = (case handle_event nx mode rnd ?e (?rn, ep') of Inl e \<Rightarrow> Inl e
      | Inr (rn1, ep1) \<Rightarrow> run_loop nx mode rnd (rn1, ep1))" for ep'
    using h by (simp add: run_loop.simps[of nx mode rnd rn] next_event_Inr)
  note V = handle_event_stats[of nx mode rnd ?e ?rn ep]
  show ?case
  proof (cases "handle_event nx mode rnd ?e (?rn, ep)")
    case (Inl err)
    then have "handle_event nx mode rnd ?e (?rn, with_stats (ep_stats ep)) = Inl err"
      using V by (cases "handle_event nx mode rnd ?e (?rn, with_stats (ep_stats ep))") auto
    then show ?thesis using Inl by (simp add: step)
  next
    case (Inr z)
    obtain rn1 ep1 where z: "z = (rn1, ep1)" by (cases z)
    then obtain ep2 where 2: "handle_event nx mode rnd ?e (?rn, with_stats (ep_stats ep)) = Inr (rn1, ep2)"
      "ep_stats ep2 = ep_stats ep1"
      using V Inr by (cases "handle_event nx mode rnd ?e (?rn, with_stats (ep_stats ep))") auto
    have "rn_process rn1 = ?p" using handle_event_process[OF Inr[unfolded z]] by simp
    then have k: "k = length (ap_events (rn_process rn1)) - ap_idx (rn_process rn1)" using Suc(2) by simp
    show ?thesis
      unfolding step Inr z 2(1) sum.case prod.case using Suc(1)[OF k, of ep1] Suc(1)[OF k, of ep2] by (simp add: 2(2))
  qed
qed

lemma remaining_Cons:
  assumes "has_next (rn_process rn)"
  shows "remaining rn = ap_events (rn_process rn) ! ap_idx (rn_process rn)
      # remaining (rn\<lparr>rn_process := (rn_process rn)\<lparr>ap_idx := ap_idx (rn_process rn) + 1\<rparr>\<rparr>)"
  using assms by (simp add: remaining_def has_next_def Cons_nth_drop_Suc)

lemma remaining_Nil: "remaining rn = [] \<longleftrightarrow> \<not> has_next (rn_process rn)"
  by (auto simp: remaining_def has_next_def)

text \<open>Draining is part of the loop; what is left starts with an arrival.\<close>

lemma drain_spec:
  assumes "es = remaining rn"
  shows "stats_view (run_loop nx mode rnd (rn, with_stats st)) =
      (case drain es (rn, st) of Inl e \<Rightarrow> Inl e
       | Inr (rn', st') \<Rightarrow> stats_view (run_loop nx mode rnd (rn', with_stats st')))
    \<and> (\<forall>rn' st'. drain es (rn, st) = Inr (rn', st') \<longrightarrow>
          length (remaining rn') \<le> length es \<and> es_reward st' = es_reward st
          \<and> (has_next (rn_process rn') \<longrightarrow> ev_type (hd (remaining rn')) = ARRIVAL))"
  using assms
proof (induction es arbitrary: rn st)
  case Nil
  then have "\<not> has_next (rn_process rn)" using remaining_Nil[of rn] by simp
  then show ?case using Nil by (simp flip: Nil)
next
  case (Cons e es)
  have h: "has_next (rn_process rn)" using Cons.prems remaining_Nil[of rn] by auto
  let ?p = "(rn_process rn)\<lparr>ap_idx := Suc (ap_idx (rn_process rn))\<rparr>"
  let ?rn = "rn\<lparr>rn_process := ?p\<rparr>"
  have e: "e = ap_events (rn_process rn) ! ap_idx (rn_process rn)" "es = remaining ?rn"
    using Cons.prems remaining_Cons[OF h] by simp_all
  show ?case
  proof (cases "ev_type e")
    case ARRIVAL
    then show ?thesis using Cons.prems by (auto simp flip: Cons.prems)
  next
    case DEPARTURE
    have step: "run_loop nx mode rnd (rn, ep) = (case handle_departure (ev_request e) (?rn, ep_stats ep) of Inl e \<Rightarrow> Inl e
        | Inr (rn1, st1) \<Rightarrow> run_loop nx mode rnd (rn1, ep\<lparr>ep_stats := st1\<rparr>))" for ep
      using h DEPARTURE
      by (simp add: run_loop.simps[of nx mode rnd rn] next_event_Inr handle_event_def map_sum_def flip: e(1) split: sum.splits)
    show ?thesis
    proof (cases "handle_departure (ev_request e) (?rn, st)")
      case (Inl err)
      then show ?thesis using DEPARTURE by (simp add: step)
    next
      case (Inr z)
      obtain rn1 st1 where z: "z = (rn1, st1)" by (cases z)
      have p: "rn_process rn1 = ?p" and rw: "es_reward st1 = es_reward st"
        using Inr z by (auto simp: handle_departure_def Let_def split: option.splits sum.splits)
      then have "es = remaining rn1" by (simp add: e(2) remaining_def)
      note IH = Cons.IH[OF this, of st1]
      have d: "drain (e # es) (rn, st) = drain es (rn1, st1)" using DEPARTURE Inr z by simp
      have l: "stats_view (run_loop nx mode rnd (rn, with_stats st)) = stats_view (run_loop nx mode rnd (rn1, with_stats st1))"
        unfolding step using Inr z by simp
      show ?thesis unfolding d l using IH rw by auto
    qed
  qed
qed

lemma env_run_loop:
  assumes "length (remaining rn) < n"
  shows "env_run nx mode rnd n \<lparr>en_runner = rn, en_stats = st\<rparr> w =
    (case stats_view (run_loop nx mode rnd (rn, with_stats st)) of
       Inl e \<Rightarrow> Some (Inl e)
     | Inr (rn', st') \<Rightarrow> Some (Inr (\<lparr>en_runner = rn', en_stats = st'\<rparr>, w + (es_reward st' - es_reward st))))"
  using assms
proof (induction n arbitrary: rn st w)
  case (Suc n)
  note D = drain_spec[OF refl, of nx mode rnd rn st]
  show ?case
  proof (cases "drain (remaining rn) (rn, st)")
    case (Inl e)
    then show ?thesis using D by (simp add: env_step_def)
  next
    case (Inr z)
    obtain rn1 st1 where z: "z = (rn1, st1)" by (cases z)
    have L: "stats_view (run_loop nx mode rnd (rn, with_stats st)) = stats_view (run_loop nx mode rnd (rn1, with_stats st1))"
      and len: "length (remaining rn1) \<le> length (remaining rn)" and rw: "es_reward st1 = es_reward st"
      and arr: "has_next (rn_process rn1) \<Longrightarrow> ev_type (hd (remaining rn1)) = ARRIVAL"
      using D Inr z by simp_all
    show ?thesis
    proof (cases "has_next (rn_process rn1)")
      case False
      then have "run_loop nx mode rnd (rn1, with_stats st1) = Inr (rn1, with_stats st1)" by (simp add: run_loop.simps)
      then show ?thesis unfolding L using False rw by (simp add: env_step_def Inr z)
    next
      case True
      let ?e = "ap_events (rn_process rn1) ! ap_idx (rn_process rn1)"
      let ?p = "(rn_process rn1)\<lparr>ap_idx := Suc (ap_idx (rn_process rn1))\<rparr>"
      let ?rn = "rn1\<lparr>rn_process := ?p\<rparr>"
      have ty: "ev_type ?e = ARRIVAL" using arr[OF True] remaining_Cons[OF True] by simp
      have nxt: "next_event (rn_process rn1) = Inr (?e, ?p)" using next_event_Inr[OF True] by simp
      have step: "run_loop nx mode rnd (rn1, with_stats st1) =
          (case handle_event nx mode rnd ?e (?rn, with_stats st1) of Inl e \<Rightarrow> Inl e
           | Inr (rn2, ep2) \<Rightarrow> run_loop nx mode rnd (rn2, ep2))"
        unfolding run_loop.simps[of nx mode rnd rn1] nxt using True by simp
      show ?thesis
      proof (cases "ev_slice ?e")
        case None
        have "handle_event nx mode rnd ?e (?rn, with_stats st1) = Inl AssertionError"
          by (simp add: handle_event_def ty None)
        then show ?thesis unfolding L step using True by (simp add: env_step_def Inr z nxt None)
      next
        case (Some req)
        have he: "handle_event nx mode rnd ?e (?rn, with_stats st1) = handle_arrival nx mode rnd req (?rn, with_stats st1)"
          by (simp add: handle_event_def ty Some)
        have es: "env_step nx mode rnd \<lparr>en_runner = rn, en_stats = st\<rparr> =
            (case handle_arrival nx mode rnd req (?rn, with_stats st1) of Inl e \<Rightarrow> Inl e
             | Inr (rn', ep) \<Rightarrow> Inr (\<lparr>en_runner = rn', en_stats = ep_stats ep\<rparr>,
                  es_reward (ep_stats ep) - es_reward st1, \<not> has_next (rn_process rn')))"
          unfolding env_step_def env.select_convs Inr z sum.case prod.case nxt Some option.case using True by simp
        show ?thesis
        proof (cases "handle_arrival nx mode rnd req (?rn, with_stats st1)")
          case (Inl err)
          then show ?thesis unfolding L step he by (simp add: es)
        next
          case (Inr y)
          obtain rn2 ep2 where y: "y = (rn2, ep2)" by (cases y)
          have p2: "rn_process rn2 = ?p"
            using handle_event_process[of nx mode rnd ?e ?rn "with_stats st1" rn2 ep2] Inr y he by simp
          have R: "stats_view (run_loop nx mode rnd (rn, with_stats st)) = stats_view (run_loop nx mode rnd (rn2, with_stats (ep_stats ep2)))"
            unfolding L step he Inr y sum.case prod.case by (rule run_loop_stats)
          show ?thesis
          proof (cases "has_next (rn_process rn2)")
            case False
            then have "run_loop nx mode rnd (rn2, with_stats (ep_stats ep2)) = Inr (rn2, with_stats (ep_stats ep2))"
              by (simp add: run_loop.simps)
            then show ?thesis unfolding R using False rw by (simp add: es Inr y)
          next
            case h2: True
            have "remaining rn2 = remaining ?rn" by (simp add: remaining_def p2)
            then have "length (remaining rn2) < n"
              using remaining_Cons[OF True] len Suc.prems by simp
            from Suc.IH[OF this] show ?thesis
              unfolding R using h2 rw by (simp add: es Inr y algebra_simps split: sum.split)
          qed
        qed
      qed
    qed
  qed
qed simp

text \<open>Driving the Gym wrapper step by step until it reports the end does what
  \<open>run_episode\<close> does: the same final runner and statistics, or the same exception; the step
  rewards add up to the episode's cumulative reward; one step per event and one more are enough.\<close>

theorem env_runs_episode:
  "env_run nx mode rnd (Suc (length (remaining rn))) \<lparr>en_runner = rn, en_stats = no_stats\<rparr> 0 =
    (case run_episode nx mode rnd rn of
       Inl e \<Rightarrow> Some (Inl e)
     | Inr (rn', ep) \<Rightarrow> Some (Inr (\<lparr>en_runner = rn', en_stats = ep_stats ep\<rparr>, es_reward (ep_stats ep))))"
proof -
  have "with_stats no_stats = new_episode" by (simp add: new_episode_def)
  then show ?thesis
    using env_run_loop[of rn "Suc (length (remaining rn))" nx mode rnd no_stats 0]
    by (simp add: run_episode_def no_stats_def split: sum.split)
qed

definition row_ok :: "'a graph_scheme \<Rightarrow> vnf \<Rightarrow> tier \<Rightarrow> int \<Rightarrow> bool" where
  "row_ok g v t m \<longleftrightarrow>
     (\<exists>n d. n \<in> set (permitted_nodes v) \<and> map_of (g_nodes g) n = Some d \<and> node_tier d = t \<and> domain_id d = m)
     \<and> (\<forall>n \<in> set (permitted_nodes v). \<forall>d. map_of (g_nodes g) n = Some d \<longrightarrow> t \<le> node_tier d)"

lemma find_tier_least:
  assumes "List.find P tier_order = Some t" and "P u"
  shows "t \<le> u"
  using assms by (cases t; cases u) (auto simp: tier_order_def less_eq_tier_def split: if_splits)

lemma plan_row:
  assumes "infer_required_tier g v = Some t" and "suggested_domain g v t = Some m"
  shows "row_ok g v t m"
proof -
  let ?ts = "List.map_filter (\<lambda>n. map_option node_tier (map_of (g_nodes g) n)) (permitted_nodes v)"
  from assms(1) have f: "List.find (\<lambda>t. t \<in> set ?ts) tier_order = Some t"
    by (auto simp: infer_required_tier_def Let_def split: if_splits)
  have "t \<le> node_tier d" if "n \<in> set (permitted_nodes v)" "map_of (g_nodes g) n = Some d" for n d
    by (rule find_tier_least[OF f]) (use that in \<open>auto simp: set_map_filter\<close>)
  moreover from assms(2) obtain n where
    n: "List.find (\<lambda>n. \<exists>d \<in> set_option (map_of (g_nodes g) n). node_tier d = t) (permitted_nodes v) = Some n"
    and m: "map_option domain_id (map_of (g_nodes g) n) = Some m"
    by (auto simp: suggested_domain_def split: option.splits)
  from n have "n \<in> set (permitted_nodes v)" "\<exists>d \<in> set_option (map_of (g_nodes g) n). node_tier d = t"
    by (auto simp: find_Some_iff)
  ultimately show ?thesis using m by (auto simp: row_ok_def)
qed

lemma plan_rows_spec:
  "plan_rows g vs = Some rows \<Longrightarrow> list_all2 (\<lambda>v (t, m). row_ok g v t m) vs rows"
  by (induction vs arbitrary: rows) (auto split: option.splits intro: plan_row)

text \<open>The canned plan builder answers with one row per VNF, and the domain it suggests
  for a VNF holds a permitted node of the tier it requires.\<close>

theorem default_plan_builder_correct:
  assumes "default_plan_builder req S = Some p"
  shows "length (ps_tiers p) = length (vnfs req) \<and> length (ps_suggested p) = length (vnfs req)
    \<and> (\<forall>k < length (vnfs req). \<exists>n d. n \<in> set (permitted_nodes (vnfs req ! k)) \<and> map_of (g_nodes S) n = Some d
          \<and> node_tier d = ps_tiers p ! k \<and> domain_id d = ps_suggested p ! k)
    \<and> (\<forall>k < length (vnfs req). \<forall>n \<in> set (permitted_nodes (vnfs req ! k)). \<forall>d.
          map_of (g_nodes S) n = Some d \<longrightarrow> ps_tiers p ! k \<le> node_tier d)"
proof -
  from assms obtain rows where rows: "plan_rows S (vnfs req) = Some rows"
    and p: "ps_tiers p = map fst rows" "ps_suggested p = map snd rows"
    by (auto simp: default_plan_builder_def)
  from plan_rows_spec[OF rows] have
    all: "list_all2 (\<lambda>v (t, m). row_ok S v t m) (vnfs req) rows" .
  then have len: "length rows = length (vnfs req)" by (simp add: list_all2_lengthD)
  have "row_ok S (vnfs req ! k) (ps_tiers p ! k) (ps_suggested p ! k)" if "k < length (vnfs req)" for k
    using list_all2_nthD[OF all that] that len by (simp add: p case_prod_unfold)
  then show ?thesis using len by (simp add: p row_ok_def)
qed

theorem default_plan_builder_correct_witness:
  "\<exists>p. default_plan_builder ex_guard_req2 ex_sub = Some p \<and> ps_tiers p = [Edge, CentralCloud] \<and> ps_suggested p = [0, 1]
    \<and> (\<exists>n d. n \<in> set (permitted_nodes (vnfs ex_guard_req2 ! 1)) \<and> map_of (g_nodes ex_sub) n = Some d \<and> domain_id d = 1)"
proof -
  let ?p = "the (default_plan_builder ex_guard_req2 ex_sub)"
  have p: "default_plan_builder ex_guard_req2 ex_sub = Some ?p" "ps_tiers ?p = [Edge, CentralCloud]"
    "ps_suggested ?p = [0, 1]" "1 < length (vnfs ex_guard_req2)"
    by code_simp+
  have "\<exists>n d. n \<in> set (permitted_nodes (vnfs ex_guard_req2 ! 1)) \<and> map_of (g_nodes ex_sub) n = Some d
      \<and> node_tier d = ps_tiers ?p ! 1 \<and> domain_id d = ps_suggested ?p ! 1"
    using default_plan_builder_correct[OF p(1)] p(4) by blast
  then show ?thesis using p by auto
qed

end
