(* ===== verification/Agent_B_Planner.thy ===== *)
theory Agent_B_Planner
  imports Agent_B Plan_Cache Env
begin

text \<open>
  The plan builder of the episode runner that asks the proposer (\<open>src/src/orion/llm/agent_b_planner.py\<close>):
  the request as the proposer reads it, the plan read back from its answer, the cache of abstract plans in
  front of it, and the tracker of plan quality. The variant with grammar-constrained decoding takes its
  answer from \<open>src/src/orion/llm/constrained_agent_b.py\<close>.

  The language model is a parameter, a different one at every call if need be; \<open>recall\<close> stands for what the
  two memories contribute to its prompt (\<open>generate_with_memory\<close>), or the exception their search raises.

  Theorems: an answer that passes the checker is always a plan the builder can use; the builder never
  raises, serves only plans the topology supports, and asks once per kind of request.
\<close>

section \<open>Conversions\<close>

definition permitted_tiers :: "'a graph_scheme \<Rightarrow> vnf \<Rightarrow> string list" where
  "permitted_tiers g v =
     sort (remdups (List.map_filter (\<lambda>n. map_option (\<lambda>d. tier_value (node_tier d)) (map_of (g_nodes g) n)) (permitted_nodes v)))"

text \<open>The keys that only the prompt reads (types, coefficients, delay and throughput) are left out.\<close>

definition entry_of :: "'a graph_scheme \<Rightarrow> vnf \<Rightarrow> vnf_entry" where
  "entry_of g v = \<lparr>sp_id = vnf_id v, sp_permitted = permitted_tiers g v, ve_cpu = cpu_demand v, ve_ram = ram_demand v\<rparr>"

definition slice_request_to_dict :: "slice_request \<Rightarrow> 'a graph_scheme \<Rightarrow> slice_dict" where
  "slice_request_to_dict req g =
     \<lparr>sd_id = request_id req, sd_vnfs = map (entry_of g) (vnfs req),
      sd_flows = map (\<lambda>e. \<lparr>fe_source = source_vnf e, fe_target = target_vnf e, fe_bw = bandwidth_demand e\<rparr>) (flow_edges req)\<rparr>"

text \<open>\<open>str.isdigit\<close> and \<open>str.strip\<close> on ASCII texts.\<close>

definition is_digits :: "string \<Rightarrow> bool" where
  "is_digits s \<longleftrightarrow> s \<noteq> [] \<and> list_all (\<lambda>c. c \<in> set ''0123456789'') s"

definition is_blank :: "char \<Rightarrow> bool" where
  "is_blank c \<longleftrightarrow> (let k = of_char c :: nat in k = 32 \<or> (9 \<le> k \<and> k \<le> 13) \<or> (28 \<le> k \<and> k \<le> 31))"

definition strip :: "string \<Rightarrow> string" where
  "strip s = rev (dropWhile is_blank (rev (dropWhile is_blank s)))"

text \<open>The domain of an answer: an integer, a text, or null (\<open>str(None)\<close> is no domain).\<close>

datatype domain_field = DomainInt int | DomainText string | DomainNull

fun domain_id_from_str :: "domain_field \<Rightarrow> py_error + int" where
  "domain_id_from_str (DomainInt m) = Inr m"
| "domain_id_from_str (DomainText s) =
     (let t = strip s in
      if t \<noteq> [] \<and> hd t = CHR ''d'' \<and> is_digits (tl t) then Inr (int (read_decimal (tl t)))
      else if is_digits t then Inr (int (read_decimal t))
      else Inl ValueError)"
| "domain_id_from_str DomainNull = Inl ValueError"

definition tier_from_str :: "string \<Rightarrow> py_error + tier" where
  "tier_from_str s = (case List.find (\<lambda>t. tier_value t = s) tier_order of None \<Rightarrow> Inl ValueError | Some t \<Rightarrow> Inr t)"

text \<open>\<open>str(None)\<close> of a field that is missing.\<close>

definition text_of :: "string option \<Rightarrow> string" where
  "text_of x = or_else x ''None''"

definition plan_row :: "raw_assignment list \<Rightarrow> vnf \<Rightarrow> py_error + tier \<times> int" where
  "plan_row as v =
     (case table ra_vnf as (Some (vnf_id v)) of
        None \<Rightarrow> Inl ValueError
      | Some a \<Rightarrow>
     (case tier_from_str (text_of (ra_tier a)) of
        Inl e \<Rightarrow> Inl e
      | Inr t \<Rightarrow> map_sum id (\<lambda>m. (t, m)) (domain_id_from_str (DomainText (text_of (ra_domain a))))))"

definition abstract_plan_from_agent_b :: "raw_plan \<Rightarrow> slice_request \<Rightarrow> py_error + abstract_plan" where
  "abstract_plan_from_agent_b p req =
     (let as = or_empty (rp_assignments p) in
      if list_ex (\<lambda>a. ra_vnf a = None) as then Inl KeyError
      else map_sum id (\<lambda>rows. \<lparr>ab_template = sfc_template req, ab_tiers = map fst rows, ab_suggested = map snd rows\<rparr>)
        (fold_err (\<lambda>v rows. map_sum id (\<lambda>r. rows @ [r]) (plan_row as v)) (vnfs req) []))"

definition plan_summary_from_agent_b :: "raw_plan \<Rightarrow> slice_request \<Rightarrow> py_error + plan_summary" where
  "plan_summary_from_agent_b p req =
     (case abstract_plan_from_agent_b p req of Inl e \<Rightarrow> Inl e | Inr ab \<Rightarrow> instantiate_plan ab req)"

section \<open>Plan quality\<close>

record plan_quality_log =
  ql_request :: string
  ql_type :: slice_type
  ql_domains :: "int list"
  ql_heuristic :: "int list"
  ql_differ :: bool
  ql_crossings :: nat
  ql_heuristic_crossings :: nat
  ql_valid :: bool
  ql_cache_hit :: bool

record quality_tracker =
  qt_logs :: "plan_quality_log list"
  qt_fallbacks :: nat
  qt_llm_calls :: nat

definition new_tracker :: quality_tracker where
  "new_tracker = \<lparr>qt_logs = [], qt_fallbacks = 0, qt_llm_calls = 0\<rparr>"

definition record_log :: "plan_quality_log \<Rightarrow> quality_tracker \<Rightarrow> quality_tracker" where
  "record_log l qt = qt\<lparr>qt_logs := qt_logs qt @ [l], qt_llm_calls := qt_llm_calls qt + (if ql_cache_hit l then 0 else 1)\<rparr>"

definition record_fallback :: "quality_tracker \<Rightarrow> quality_tracker" where
  "record_fallback qt = qt\<lparr>qt_fallbacks := qt_fallbacks qt + 1, qt_llm_calls := qt_llm_calls qt + 1\<rparr>"

record quality_summary =
  qs_total :: nat
  qs_successful :: nat
  qs_fallbacks :: nat
  qs_fallback_rate :: real
  qs_llm_calls :: nat
  qs_valid_rate :: real
  qs_differ_rate :: real
  qs_hit_rate :: real
  qs_crossings :: real
  qs_heuristic_crossings :: real
  qs_fewer_crossings :: real

definition tally :: "('a \<Rightarrow> bool) \<Rightarrow> 'a list \<Rightarrow> nat" where
  "tally P xs = length (filter P xs)"

definition per :: "nat \<Rightarrow> nat \<Rightarrow> real" where
  "per k n = real k / real (max n 1)"

definition quality_summary_of :: "quality_tracker \<Rightarrow> quality_summary option" where
  "quality_summary_of qt =
     (let logs = qt_logs qt; good = length logs; total = good + qt_fallbacks qt in
      if logs = [] \<and> qt_fallbacks qt = 0 then None
      else Some \<lparr>qs_total = total, qs_successful = good, qs_fallbacks = qt_fallbacks qt,
        qs_fallback_rate = per (qt_fallbacks qt) total, qs_llm_calls = qt_llm_calls qt,
        qs_valid_rate = per (tally ql_valid logs) good, qs_differ_rate = per (tally ql_differ logs) good,
        qs_hit_rate = per (tally ql_cache_hit logs) good,
        qs_crossings = per (sum_list (map ql_crossings logs)) good,
        qs_heuristic_crossings = per (sum_list (map ql_heuristic_crossings logs)) good,
        qs_fewer_crossings = per (tally (\<lambda>l. ql_crossings l < ql_heuristic_crossings l) logs) (tally ql_differ logs)\<rparr>)"

definition count_crossings :: "int list \<Rightarrow> nat" where
  "count_crossings ds = tally (\<lambda>i. ds ! i \<noteq> ds ! (i + 1)) [0..<length ds - 1]"

definition heuristic_domains :: "slice_request \<Rightarrow> substrate \<Rightarrow> int list" where
  "heuristic_domains req S = (case default_plan_builder req S of None \<Rightarrow> [] | Some p \<Rightarrow> ps_suggested p)"

definition quality_log :: "slice_request \<Rightarrow> substrate \<Rightarrow> plan_summary \<Rightarrow> bool \<Rightarrow> plan_quality_log" where
  "quality_log req S ps hit =
     (let h = heuristic_domains req S in
      \<lparr>ql_request = request_id req, ql_type = stype req, ql_domains = ps_suggested ps, ql_heuristic = h,
       ql_differ = (ps_suggested ps \<noteq> h), ql_crossings = count_crossings (ps_suggested ps),
       ql_heuristic_crossings = count_crossings h, ql_valid = True, ql_cache_hit = hit\<rparr>)"

section \<open>The builder\<close>

type_synonym planner_cache = "(plan_key, abstract_plan) plan_cache"
type_synonym planner_state = "planner_cache \<times> quality_tracker option"
type_synonym planner_answer = "py_error + plan_summary option \<times> planner_state"

definition planner_capacity :: nat where
  "planner_capacity = 64"

text \<open>The first half of \<open>build\<close>: a fresh entry is grafted onto the request and revalidated; \<open>None\<close> goes on to the proposer.\<close>

definition plan_lookup :: "slice_request \<Rightarrow> substrate \<Rightarrow> planner_state \<Rightarrow> planner_answer" where
  "plan_lookup req S = (\<lambda>(c, qt).
     let (entry, c') = cache_get (plan_signature req) c in
     case entry of
       None \<Rightarrow> Inr (None, c', qt)
     | Some e \<Rightarrow>
     (case instantiate_plan (ce_plan e) req of
        Inl err \<Rightarrow> Inl err
      | Inr ps \<Rightarrow>
          if \<not> revalidate_plan (ce_plan e) S then Inr (None, mark_stale (plan_signature req) c', qt)
          else Inr (Some ps, c', map_option (record_log (quality_log req S ps True)) qt)))"

definition fall_back :: "planner_state \<Rightarrow> planner_answer" where
  "fall_back = (\<lambda>(c, qt). Inr (None, c, map_option record_fallback qt))"

text \<open>The last part of \<open>build\<close>: read the plan, cache its abstract form, log it.\<close>

definition adopt_plan :: "raw_plan \<Rightarrow> slice_request \<Rightarrow> substrate \<Rightarrow> planner_state \<Rightarrow> planner_answer" where
  "adopt_plan p req S = (\<lambda>(c, qt).
     case (case abstract_plan_from_agent_b p req of
             Inl e \<Rightarrow> Inl e
           | Inr ab \<Rightarrow> map_sum id (\<lambda>ps. (ab, ps)) (instantiate_plan ab req)) of
       Inl e \<Rightarrow> if e \<in> {ValueError, KeyError} then fall_back (c, qt) else Inl e
     | Inr (ab, ps) \<Rightarrow>
         map_sum id (\<lambda>c'. (Some ps, c', map_option (record_log (quality_log req S ps False)) qt))
           (cache_put (plan_signature req) ab c))"

definition generate_with_memory :: "(slice_dict \<Rightarrow> py_error + 'ctx) \<Rightarrow> ('ctx option \<Rightarrow> llm) \<Rightarrow> slice_dict
    \<Rightarrow> abstract_topology \<Rightarrow> nat \<Rightarrow> py_error + raw_plan \<times> check_result" where
  "generate_with_memory recall llm sd T retries =
     (case recall sd of Inl e \<Rightarrow> Inl e | Inr ctx \<Rightarrow> generate_and_check (llm (Some ctx)) sd T retries)"

definition propose :: "(slice_dict \<Rightarrow> py_error + 'ctx) option \<Rightarrow> ('ctx option \<Rightarrow> llm) \<Rightarrow> slice_dict
    \<Rightarrow> abstract_topology \<Rightarrow> nat \<Rightarrow> py_error + raw_plan \<times> check_result" where
  "propose recall llm sd T retries =
     (case recall of
        None \<Rightarrow> generate_and_check (llm None) sd T retries
      | Some f \<Rightarrow> generate_with_memory f llm sd T retries)"

definition agent_b_build :: "(slice_dict \<Rightarrow> py_error + 'ctx) option \<Rightarrow> nat \<Rightarrow> ('ctx option \<Rightarrow> llm)
    \<Rightarrow> slice_request \<Rightarrow> substrate \<Rightarrow> planner_state \<Rightarrow> planner_answer" where
  "agent_b_build recall retries llm req S st =
     (case plan_lookup req S st of
        Inl e \<Rightarrow> Inl e
      | Inr (Some ps, st') \<Rightarrow> Inr (Some ps, st')
      | Inr (None, st') \<Rightarrow>
          (case propose recall llm (slice_request_to_dict req S) (build_abstract_topology S) retries of
             Inl e \<Rightarrow> fall_back st'
           | Inr (p, r) \<Rightarrow> if \<not> cr_valid r then fall_back st' else adopt_plan p req S st'))"

text \<open>The calls of an episode, in order.\<close>

fun build_all :: "(slice_dict \<Rightarrow> py_error + 'ctx) option \<Rightarrow> nat \<Rightarrow> (('ctx option \<Rightarrow> llm) \<times> slice_request \<times> substrate) list
    \<Rightarrow> planner_state \<Rightarrow> py_error + plan_summary option list \<times> planner_state" where
  "build_all recall retries [] st = Inr ([], st)"
| "build_all recall retries ((llm, req, S) # calls) st =
     (case agent_b_build recall retries llm req S st of
        Inl e \<Rightarrow> Inl e
      | Inr (ans, st') \<Rightarrow> map_sum id (\<lambda>(as, u). (ans # as, u)) (build_all recall retries calls st'))"

section \<open>What the checker accepts can be read\<close>

lemma tier_round: "tier_from_str (tier_value t) = Inr t"
  by (cases t) (simp_all add: tier_from_str_def tier_order_def)

lemma dropWhile_id: "s \<noteq> [] \<Longrightarrow> \<not> P (hd s) \<Longrightarrow> dropWhile P s = s"
  by (cases s) auto

lemma strip_id: "s \<noteq> [] \<Longrightarrow> \<not> is_blank (hd s) \<Longrightarrow> \<not> is_blank (last s) \<Longrightarrow> strip s = s"
  by (simp add: strip_def dropWhile_id hd_rev)

lemma digits_plain: "is_digits s \<Longrightarrow> \<not> is_blank (last s)"
proof -
  assume "is_digits s"
  then have "last s \<in> set ''0123456789''" by (auto simp: is_digits_def list_all_iff)
  then show ?thesis by (auto simp: is_blank_def Let_def)
qed

lemma decimal_is_digits: "is_digits (decimal n)"
proof -
  have "decimal n \<noteq> []" by (subst decimal.simps) simp
  then show ?thesis using digit_chars[of n] unfolding is_digits_def list_all_iff by (simp only: subset_eq) blast
qed

lemma domain_round: "0 \<le> m \<Longrightarrow> domain_id_from_str (DomainText (domain_name m)) = Inr m"
proof -
  assume "0 \<le> m"
  then have n: "domain_name m = CHR ''d'' # decimal (nat m)" by (simp add: domain_name_def int_string_def)
  have d: "is_digits (decimal (nat m))" by (rule decimal_is_digits)
  then have "strip (domain_name m) = domain_name m"
    using digits_plain[OF d] unfolding n by (intro strip_id) (auto simp: is_digits_def is_blank_def)
  with d \<open>0 \<le> m\<close> show ?thesis by (simp add: n Let_def read_decimal_decimal)
qed

text \<open>A valid result is the check of a normalised answer of the model.\<close>

lemma attempts_valid:
  "attempts llm sd T k n fb plan result = Inr (q, r) \<Longrightarrow> cr_valid r \<Longrightarrow> \<not> cr_valid result \<Longrightarrow>
    \<exists>p. q = normalised sd T p \<and> check_raw sd T q = Inr r"
proof (induction k arbitrary: n fb plan result)
  case (Suc k)
  have no: "\<not> cr_valid no_plan_result" by (simp add: no_plan_result_def)
  show ?case
  proof (cases "llm n fb")
    case (Reply p)
    then show ?thesis using Suc by (auto simp: Let_def split: sum.splits if_splits)
  next
    case CutOff
    then show ?thesis using Suc no by auto
  next
    case (Raised e)
    then show ?thesis using Suc no by (auto split: if_splits)
  qed
qed auto

lemma propose_valid:
  assumes "propose recall llm sd T retries = Inr (q, r)" and "cr_valid r"
  shows "\<exists>p. q = normalised sd T p \<and> check_raw sd T q = Inr r"
proof -
  obtain l where "attempts l sd T (1 + retries) 0 NoFeedback Agent_B.empty_plan no_plan_result = Inr (q, r)"
    using assms(1) by (auto simp: propose_def generate_with_memory_def generate_and_check_def simp del: attempts.simps split: option.splits sum.splits)
  from attempts_valid[OF this assms(2)] show ?thesis by (simp add: no_plan_result_def)
qed

lemma read_all:
  assumes "fold_err (\<lambda>a out. map_sum id (\<lambda>x. out @ [x]) (read_assignment a)) as out = Inr xs"
  shows "xs = out @ map (\<lambda>a. \<lparr>pa_vnf = the (ra_vnf a), pa_domain = ra_domain a, pa_tier = ra_tier a,
      pa_cpu = or_else (ra_cpu a) 0, pa_ram = or_else (ra_ram a) 0\<rparr>) as \<and> (\<forall>a \<in> set as. ra_vnf a \<noteq> None)"
  using assms
proof (induction as arbitrary: out)
  case (Cons a as)
  then obtain v where v: "ra_vnf a = Some v" by (auto simp: read_assignment_def split: option.splits)
  then have "read_assignment a = Inr \<lparr>pa_vnf = v, pa_domain = ra_domain a, pa_tier = ra_tier a,
      pa_cpu = or_else (ra_cpu a) 0, pa_ram = or_else (ra_ram a) 0\<rparr>" by (simp add: read_assignment_def)
  with Cons.prems have "fold_err (\<lambda>a out. map_sum id (\<lambda>x. out @ [x]) (read_assignment a)) as
      (out @ [\<lparr>pa_vnf = v, pa_domain = ra_domain a, pa_tier = ra_tier a,
        pa_cpu = or_else (ra_cpu a) 0, pa_ram = or_else (ra_ram a) 0\<rparr>]) = Inr xs" by (simp add: id_def)
  from Cons.IH[OF this] v show ?case by auto
qed simp

lemma table_last: "k \<in> key ` set xs \<Longrightarrow> \<exists>x \<in> set xs. table key xs k = Some x \<and> key x = k"
  by (metis not_None_eq table_None table_in)

text \<open>The domains of the view are the domains of the substrate that hold a node, the tiers those of its nodes.\<close>

lemma view_domain:
  assumes "domain_table (build_abstract_topology S) x = Some d"
  shows "\<exists>m. x = domain_name m \<and> 0 \<le> m
    \<and> (\<forall>s \<in> set (ad_tiers d). \<exists>t n nd. s = tier_value t \<and> (n, nd) \<in> set (g_nodes S) \<and> domain_id nd = m \<and> node_tier nd = t)"
proof -
  have "d \<in> set (at_domains (build_abstract_topology S))" "ad_id d = x"
    using table_in[OF assms[unfolded domain_table_def]] by auto
  then obtain k where "d = abstract_domain_of S (int k)"
    by (auto simp: build_abstract_topology_def)
  then obtain m where m: "0 \<le> m" "d = abstract_domain_of S m" using of_nat_0_le_iff by blast
  have "\<exists>t n nd. s = tier_value t \<and> (n, nd) \<in> set (g_nodes S) \<and> domain_id nd = m \<and> node_tier nd = t" if "s \<in> set (ad_tiers d)" for s
    using that by (auto simp: m(2) abstract_domain_of_def Let_def) blast
  moreover have "ad_id d = domain_name m" by (simp add: m(2) abstract_domain_of_def Let_def)
  ultimately show ?thesis using m(1) \<open>ad_id d = x\<close> by blast
qed

definition present_in :: "'a graph_scheme \<Rightarrow> tier \<Rightarrow> int \<Rightarrow> bool" where
  "present_in g t m \<longleftrightarrow> (\<exists>n d. (n, d) \<in> set (g_nodes g) \<and> domain_id d = m \<and> node_tier d = t)"

lemma checked_row:
  assumes check: "check_raw sd T (normalised sd T p) = Inr r" "cr_valid r" and T: "T = build_abstract_topology S"
    and v: "vid \<in> sp_id ` set (sd_vnfs sd)"
  shows "\<exists>a t m spec. table ra_vnf (or_empty (rp_assignments (normalised sd T p))) (Some vid) = Some a
    \<and> ra_tier a = Some (tier_value t) \<and> ra_domain a = Some (domain_name m) \<and> 0 \<le> m \<and> present_in S t m
    \<and> table sp_id (sd_vnfs sd) vid = Some spec \<and> tier_value t \<in> set (sp_permitted spec)"
proof -
  let ?q = "normalised sd T p"
  let ?as = "or_empty (rp_assignments ?q)"
  let ?read = "\<lambda>a. \<lparr>pa_vnf = the (ra_vnf a), pa_domain = ra_domain a, pa_tier = ra_tier a,
      pa_cpu = or_else (ra_cpu a) 0, pa_ram = or_else (ra_ram a) 0\<rparr>"
  obtain q where q: "read_plan ?q = Inr q" "cr_valid (check_plan q (specs_of sd) T)"
    using check by (cases "read_plan (normalised sd T p)") (auto simp: check_raw_def)
  have as: "ap_assignments q = map ?read ?as" and named: "\<forall>a \<in> set ?as. ra_vnf a \<noteq> None"
    using q(1) read_all[of ?as "[]"] by (auto simp: read_plan_def split: sum.splits)
  note ok = q(2)[unfolded check_plan_iff]
  have "vid \<in> set (map pa_vnf (ap_assignments q))"
    using ok v by (auto simp: schema_ok_def specs_of_def vnf_spec.defs image_image)
  then have "Some vid \<in> ra_vnf ` set ?as" using named by (force simp: as)
  then obtain a where a: "a \<in> set ?as" "table ra_vnf ?as (Some vid) = Some a" "ra_vnf a = Some vid"
    using table_last by metis
  then have qa: "?read a \<in> set (ap_assignments q)" unfolding as set_map by (intro imageI)
  then obtain d where d: "domain_of_assignment T (?read a) = Some d" using ok by (auto simp: schema_ok_def)
  then obtain x where x: "ra_domain a = Some x" "domain_table T x = Some d"
    by (auto simp: domain_of_assignment_def bind_eq_Some_conv)
  obtain m where m: "x = domain_name m" "0 \<le> m" "\<And>s. s \<in> set (ad_tiers d) \<Longrightarrow> \<exists>t. s = tier_value t \<and> present_in S t m"
    using view_domain[OF x(2)[unfolded T]] unfolding present_in_def by metis
  obtain spec where spec: "table sp_id (sd_vnfs sd) vid = Some spec" using table_last[OF v] by blast
  then have "table sp_id (specs_of sd) (pa_vnf (?read a)) = Some (vnf_spec.truncate spec)"
    by (simp add: specs_of_def table_truncate a(3))
  then have tiers: "case stated_tier (?read a) of Some t \<Rightarrow> t \<in> set (sp_permitted spec) \<and> t \<in> set (ad_tiers d)
      | None \<Rightarrow> set (sp_permitted spec) \<inter> set (ad_tiers d) \<noteq> {}"
    using ok qa d unfolding tiers_ok_def by (force simp: vnf_spec.defs split: option.splits)
  obtain a0 where a0: "a = retier sd T a0"
    using a(1) by (auto simp: normalised_def recompute_required_tiers_def or_empty_def split: option.splits)
  have a0_eq: "ra_vnf a0 = Some vid" "ra_domain a0 = Some x"
    using a(3) x(1) by (auto simp: a0 retier_def split: option.splits)
  have "stated_tier (?read a) \<noteq> None"
  proof
    assume none: "stated_tier (?read a) = None"
    with tiers have "set (sp_permitted spec) \<inter> set (ad_tiers d) \<noteq> {}" by simp
    then have ne: "filter (\<lambda>t. t \<in> set (tiers_at T (ra_domain a0))) (permitted_of sd (ra_vnf a0)) \<noteq> []"
      using spec x(2) by (auto simp: a0_eq tiers_at_def permitted_of_def filter_empty_conv)
    then obtain t where t: "least (filter (\<lambda>t. t \<in> set (tiers_at T (ra_domain a0))) (permitted_of sd (ra_vnf a0))) = Some t"
      by (metis least_None not_None_eq)
    then have "t \<in> set (ad_tiers d)" using least_in[OF t] x(2) by (auto simp: a0_eq tiers_at_def)
    then obtain t' where "t = tier_value t'" using m(3) by blast
    moreover have "ra_tier a = Some t" using t by (simp add: a0 retier_def)
    ultimately show False using none by (cases t') (simp_all add: stated_tier_def)
  qed
  then obtain s where s: "ra_tier a = Some s" "s \<in> set (sp_permitted spec)" "s \<in> set (ad_tiers d)"
    using tiers by (auto simp: stated_tier_def split: if_splits)
  then obtain t where "s = tier_value t" "present_in S t m" using m(3) by blast
  with a x m spec s show ?thesis by blast
qed

lemma fold_rows:
  assumes "\<And>v. v \<in> set vs \<Longrightarrow> \<exists>x. f v = Inr x \<and> P v x"
  shows "\<exists>xs. fold_err (\<lambda>v rows. map_sum id (\<lambda>r. rows @ [r]) (f v)) vs out = Inr (out @ xs) \<and> list_all2 P vs xs"
  using assms
proof (induction vs arbitrary: out)
  case (Cons v vs)
  obtain x where x: "f v = Inr x" "P v x" using Cons.prems by auto
  obtain xs where "fold_err (\<lambda>v rows. map_sum id (\<lambda>r. rows @ [r]) (f v)) vs (out @ [x]) = Inr ((out @ [x]) @ xs)" "list_all2 P vs xs"
    using Cons.IH Cons.prems by (metis list.set_intros(2))
  then show ?case using x by (auto simp: id_def intro!: exI[of _ "x # xs"])
qed simp

text \<open>What the builder makes of an accepted answer.\<close>

definition supported_rows :: "slice_request \<Rightarrow> substrate \<Rightarrow> (tier \<times> int) list \<Rightarrow> bool" where
  "supported_rows req S = list_all2 (\<lambda>v (t, m). present_in S t m
     \<and> (\<exists>w \<in> set (vnfs req). vnf_id w = vnf_id v \<and> tier_value t \<in> set (permitted_tiers S w))) (vnfs req)"

lemma checked_plan:
  assumes "propose recall llm (slice_request_to_dict req S) (build_abstract_topology S) retries = Inr (q, r)" and "cr_valid r"
  shows "\<exists>rows. abstract_plan_from_agent_b q req = Inr \<lparr>ab_template = sfc_template req, ab_tiers = map fst rows, ab_suggested = map snd rows\<rparr>
    \<and> supported_rows req S rows"
proof -
  let ?sd = "slice_request_to_dict req S" and ?T = "build_abstract_topology S"
  obtain p where q: "q = normalised ?sd ?T p" and check: "check_raw ?sd ?T (normalised ?sd ?T p) = Inr r"
    using propose_valid[OF assms] by blast
  let ?as = "or_empty (rp_assignments q)"
  let ?P = "\<lambda>v x. case x of (t, m) \<Rightarrow> present_in S t m
      \<and> (\<exists>w \<in> set (vnfs req). vnf_id w = vnf_id v \<and> tier_value t \<in> set (permitted_tiers S w))"
  have row: "\<exists>x. plan_row ?as v = Inr x \<and> ?P v x" if v: "v \<in> set (vnfs req)" for v
  proof -
    have "vnf_id v \<in> sp_id ` set (sd_vnfs ?sd)" using v by (force simp: slice_request_to_dict_def entry_of_def)
    from checked_row[OF check assms(2) refl this] obtain a t m spec where
      a: "table ra_vnf ?as (Some (vnf_id v)) = Some a" "ra_tier a = Some (tier_value t)" "ra_domain a = Some (domain_name m)"
        "0 \<le> m" "present_in S t m" and spec: "table sp_id (sd_vnfs ?sd) (vnf_id v) = Some spec" "tier_value t \<in> set (sp_permitted spec)"
      unfolding q by blast
    have "spec \<in> set (sd_vnfs ?sd)" "sp_id spec = vnf_id v" using table_in[OF spec(1)] by auto
    then obtain w where "w \<in> set (vnfs req)" "vnf_id w = vnf_id v" "tier_value t \<in> set (permitted_tiers S w)"
      using spec(2) by (auto simp: slice_request_to_dict_def entry_of_def)
    moreover have "plan_row ?as v = Inr (t, m)"
      using a by (simp add: plan_row_def text_of_def or_else_def tier_round domain_round del: domain_id_from_str.simps)
    ultimately show ?thesis using a(5) by (intro exI[of _ "(t, m)"]) auto
  qed
  obtain rows where rows: "fold_err (\<lambda>v rows. map_sum id (\<lambda>r. rows @ [r]) (plan_row ?as v)) (vnfs req) [] = Inr rows"
      "list_all2 ?P (vnfs req) rows"
    using fold_rows[where f = "plan_row ?as" and P = ?P and vs = "vnfs req" and out = "[]", OF row] by auto
  have "\<not> list_ex (\<lambda>a. ra_vnf a = None) ?as"
  proof -
    obtain x where "read_plan q = Inr x" using check unfolding q by (cases "read_plan (normalised ?sd ?T p)") (auto simp: check_raw_def)
    then show ?thesis using read_all[of ?as "[]"] by (auto simp: read_plan_def list_ex_iff split: sum.splits)
  qed
  with rows show ?thesis
    by (intro exI[of _ rows]) (auto simp: abstract_plan_from_agent_b_def Let_def supported_rows_def)
qed

section \<open>One call\<close>

text \<open>
  What a call can do, as a step relation. Looking up changes no plan; it marks the entry of the request
  stale when the substrate no longer supports it. An answer is a servable entry, nothing, or a checked
  plan that is put in the cache.
\<close>

definition weakened :: "slice_request \<Rightarrow> substrate \<Rightarrow> planner_cache \<Rightarrow> planner_cache \<Rightarrow> bool" where
  "weakened req S c c' \<longleftrightarrow> cache_ok c' \<and> pc_capacity c' = pc_capacity c \<and>
     (\<forall>k. case map_of (pc_entries c) k of
            None \<Rightarrow> map_of (pc_entries c') k = None
          | Some e \<Rightarrow> \<exists>e'. map_of (pc_entries c') k = Some e' \<and> ce_plan e' = ce_plan e
              \<and> (ce_stale e' \<longleftrightarrow> ce_stale e \<or> k = plan_signature req \<and> \<not> revalidate_plan (ce_plan e) S))"

definition servable :: "slice_request \<Rightarrow> substrate \<Rightarrow> planner_cache \<Rightarrow> abstract_plan \<Rightarrow> bool" where
  "servable req S c ab \<longleftrightarrow>
     (\<exists>e. map_of (pc_entries c) (plan_signature req) = Some e \<and> \<not> ce_stale e \<and> ce_plan e = ab) \<and> revalidate_plan ab S"

inductive planner_step :: "slice_request \<Rightarrow> substrate \<Rightarrow> planner_cache \<Rightarrow> plan_summary option
    \<Rightarrow> (quality_tracker \<Rightarrow> quality_tracker) \<Rightarrow> planner_cache \<Rightarrow> bool" for req S c where
  hit: "servable req S c ab \<Longrightarrow> instantiate_plan ab req = Inr ps \<Longrightarrow> weakened req S c c'
    \<Longrightarrow> planner_step req S c (Some ps) (record_log (quality_log req S ps True)) c'"
| fell_back: "(\<And>ab. \<not> servable req S c ab) \<Longrightarrow> weakened req S c c' \<Longrightarrow> planner_step req S c None record_fallback c'"
| asked: "(\<And>ab. \<not> servable req S c ab) \<Longrightarrow> weakened req S c c0 \<Longrightarrow> supported_rows req S rows
    \<Longrightarrow> ab = \<lparr>ab_template = sfc_template req, ab_tiers = map fst rows, ab_suggested = map snd rows\<rparr>
    \<Longrightarrow> instantiate_plan ab req = Inr ps \<Longrightarrow> cache_put (plan_signature req) ab c0 = Inr c'
    \<Longrightarrow> planner_step req S c (Some ps) (record_log (quality_log req S ps False)) c'"

text \<open>An entry is for the chain its key names, one row per function.\<close>

definition fits_key :: "plan_key \<Rightarrow> abstract_plan \<Rightarrow> bool" where
  "fits_key k ab \<longleftrightarrow> ab_template ab = snd (snd (snd k)) \<and> length (ab_tiers ab) = length (ab_template ab)
     \<and> length (ab_suggested ab) = length (ab_template ab)"

definition planner_ok :: "planner_cache \<Rightarrow> bool" where
  "planner_ok c \<longleftrightarrow> cache_ok c \<and> pc_capacity c = Some planner_capacity
     \<and> (\<forall>k e. map_of (pc_entries c) k = Some e \<longrightarrow> fits_key k (ce_plan e))"

lemma fits_instantiate:
  "fits_key (plan_signature req) ab \<Longrightarrow> \<exists>ps. instantiate_plan ab req = Inr ps \<and> ps_vnf_ids ps = map vnf_id (vnfs req)
     \<and> ps_tiers ps = ab_tiers ab \<and> ps_suggested ps = ab_suggested ab"
  by (simp add: fits_key_def plan_signature_def instantiate_plan_def sfc_template_def)

lemma planner_okD: "planner_ok c \<Longrightarrow> map_of (pc_entries c) k = Some e \<Longrightarrow> fits_key k (ce_plan e)"
  unfolding planner_ok_def by blast

lemma weakenedD: "weakened req S c c' \<Longrightarrow> map_of (pc_entries c') k = Some e' \<Longrightarrow>
    \<exists>e. map_of (pc_entries c) k = Some e \<and> ce_plan e' = ce_plan e
      \<and> (ce_stale e' \<longleftrightarrow> ce_stale e \<or> k = plan_signature req \<and> \<not> revalidate_plan (ce_plan e) S)"
  unfolding weakened_def by (elim conjE, drule spec[of _ k]) (cases "map_of (pc_entries c) k"; simp del: map_of_eq_Some_iff)

lemma weakened_ok:
  assumes "weakened req S c c'" and "planner_ok c"
  shows "planner_ok c'"
  unfolding planner_ok_def
proof (intro conjI allI impI)
  fix k e
  assume "map_of (pc_entries c') k = Some e"
  then show "fits_key k (ce_plan e)" using weakenedD[OF assms(1)] planner_okD[OF assms(2)] by metis
qed (use assms in \<open>simp_all add: planner_ok_def weakened_def\<close>)

lemma get_weakened:
  assumes "cache_ok c" and "cache_get (plan_signature req) c = (r, c')"
  shows "map_of (pc_entries c') k = None \<longleftrightarrow> map_of (pc_entries c) k = None"
    and "map_of (pc_entries c) k = Some e \<Longrightarrow> \<exists>e'. map_of (pc_entries c') k = Some e' \<and> ce_plan e' = ce_plan e \<and> ce_stale e' = ce_stale e"
  using cache_get_correct(4,5)[OF assms, of k]
  by (cases "map_of (pc_entries c) k"; cases "map_of (pc_entries c') k"; simp del: map_of_eq_Some_iff)+

lemma lookup_correct:
  assumes ok: "planner_ok c"
  shows "\<exists>ans c'. weakened req S c c' \<and> planner_ok c' \<and>
    ((ans = None \<and> plan_lookup req S (c, qt) = Inr (None, c', qt) \<and> (\<forall>ab. \<not> servable req S c ab))
     \<or> (\<exists>ab ps. ans = Some ps \<and> servable req S c ab \<and> instantiate_plan ab req = Inr ps
          \<and> plan_lookup req S (c, qt) = Inr (Some ps, c', map_option (record_log (quality_log req S ps True)) qt)))"
proof -
  let ?k = "plan_signature req"
  have c: "cache_ok c" "pc_capacity c = Some planner_capacity" using ok by (simp_all add: planner_ok_def)
  obtain r c1 where g: "cache_get ?k c = (r, c1)" by fastforce
  note gc = cache_get_correct[OF c(1) g]
  have r: "map_option ce_plan r = (case map_of (pc_entries c) ?k of None \<Rightarrow> None | Some e \<Rightarrow> if ce_stale e then None else Some (ce_plan e))"
    by (rule gc(6))
  have same: "weakened req S c c1" if "\<And>e. map_of (pc_entries c) ?k = Some e \<Longrightarrow> ce_stale e \<or> revalidate_plan (ce_plan e) S"
    unfolding weakened_def using get_weakened[OF c(1) g] gc(1,2) that
    by (auto simp del: map_of_eq_Some_iff split: option.split) (metis option.inject)+
  show ?thesis
  proof (cases r)
    case None
    then have stale: "ce_stale e" if "map_of (pc_entries c) ?k = Some e" for e
      using r that by (simp del: map_of_eq_Some_iff split: if_splits)
    then have "\<forall>ab. \<not> servable req S c ab" unfolding servable_def by blast
    moreover have w: "weakened req S c c1" using same stale by blast
    moreover have "planner_ok c1" by (rule weakened_ok[OF w ok])
    moreover have "plan_lookup req S (c, qt) = Inr (None, c1, qt)" by (simp add: plan_lookup_def g None)
    ultimately show ?thesis by blast
  next
    case (Some e1)
    then obtain e where e: "map_of (pc_entries c) ?k = Some e" "\<not> ce_stale e" "ce_plan e = ce_plan e1"
      using r by (auto simp del: map_of_eq_Some_iff split: option.splits if_splits)
    have fits: "fits_key ?k (ce_plan e1)" using planner_okD[OF ok e(1)] e(3) by simp
    obtain ps where ps: "instantiate_plan (ce_plan e1) req = Inr ps" using fits_instantiate[OF fits] by blast
    show ?thesis
    proof (cases "revalidate_plan (ce_plan e1) S")
      case True
      have w: "weakened req S c c1" using same e True by (metis option.inject)
      have "servable req S c (ce_plan e1)" using e True unfolding servable_def by blast
      moreover have "plan_lookup req S (c, qt) = Inr (Some ps, c1, map_option (record_log (quality_log req S ps True)) qt)"
        using True by (simp add: plan_lookup_def g Some ps)
      ultimately show ?thesis using w weakened_ok[OF w ok] ps by blast
    next
      case False
      let ?c2 = "mark_stale ?k c1"
      obtain e2 where e2: "map_of (pc_entries c1) ?k = Some e2" "ce_plan e2 = ce_plan e"
        using get_weakened(2)[OF c(1) g e(1)] by blast
      have m: "map_of (pc_entries ?c2) k = (if k = ?k then Some (e2\<lparr>ce_stale := True\<rparr>) else map_of (pc_entries c1) k)" for k
        using e2(1) by (simp add: mark_stale_def map_of_update_simp del: map_of_eq_Some_iff)
      have w: "weakened req S c ?c2" unfolding weakened_def
      proof (intro conjI allI)
        show "cache_ok ?c2" by (rule mark_stale_correct(1)[OF gc(1)])
        show "pc_capacity ?c2 = pc_capacity c" using gc(2) by (simp add: mark_stale_def split: option.split)
        fix k
        show "case map_of (pc_entries c) k of None \<Rightarrow> map_of (pc_entries ?c2) k = None
          | Some e \<Rightarrow> \<exists>e'. map_of (pc_entries ?c2) k = Some e' \<and> ce_plan e' = ce_plan e
              \<and> (ce_stale e' \<longleftrightarrow> ce_stale e \<or> k = ?k \<and> \<not> revalidate_plan (ce_plan e) S)"
        proof (cases "map_of (pc_entries c) k")
          case None
          then show ?thesis using get_weakened(1)[OF c(1) g, of k] e(1) by (auto simp: m simp del: map_of_eq_Some_iff)
        next
          case (Some x)
          then obtain x' where "map_of (pc_entries c1) k = Some x'" "ce_plan x' = ce_plan x" "ce_stale x' = ce_stale x"
            using get_weakened(2)[OF c(1) g] by blast
          then show ?thesis using Some e e2 False by (auto simp: m simp del: map_of_eq_Some_iff)
        qed
      qed
      have "\<forall>ab. \<not> servable req S c ab" using e False unfolding servable_def by (metis option.inject)
      moreover have "planner_ok ?c2" by (rule weakened_ok[OF w ok])
      moreover have "plan_lookup req S (c, qt) = Inr (None, ?c2, qt)" using False by (simp add: plan_lookup_def g Some ps)
      ultimately show ?thesis using w by blast
    qed
  qed
qed

lemma put_ok:
  assumes "planner_ok c" and "fits_key k ab"
  shows "\<exists>c'. cache_put k ab c = Inr c' \<and> planner_ok c'"
proof -
  obtain c' where c': "cache_put k ab c = Inr c'" "cache_ok c'" "pc_capacity c' = Some planner_capacity"
    and m: "\<forall>k' e. map_of (pc_entries c') k' = Some e \<longrightarrow> (k' = k \<and> e = new_entry ab) \<or> map_of (pc_entries c) k' = Some e"
    using cache_put_correct[of c planner_capacity k ab] assms(1) by (auto simp: planner_ok_def simp del: map_of_eq_Some_iff)
  have "planner_ok c'" unfolding planner_ok_def
  proof (intro conjI allI impI)
    fix k' e
    assume "map_of (pc_entries c') k' = Some e"
    with m have "(k' = k \<and> e = new_entry ab) \<or> map_of (pc_entries c) k' = Some e" by blast
    then show "fits_key k' (ce_plan e)" using assms(2) planner_okD[OF assms(1), of k' e] by (auto simp: new_entry_def simp del: map_of_eq_Some_iff)
  qed (use c' in simp_all)
  with c' show ?thesis by blast
qed

lemma build_step:
  assumes ok: "planner_ok c"
  shows "\<exists>ans f c'. agent_b_build recall retries llm req S (c, qt) = Inr (ans, c', map_option f qt)
    \<and> planner_step req S c ans f c' \<and> planner_ok c'"
proof -
  let ?sd = "slice_request_to_dict req S" and ?T = "build_abstract_topology S" and ?k = "plan_signature req"
  from lookup_correct[OF ok, of req S qt] obtain c1 where w: "weakened req S c c1" "planner_ok c1" and
    l: "(plan_lookup req S (c, qt) = Inr (None, c1, qt) \<and> (\<forall>ab. \<not> servable req S c ab))
      \<or> (\<exists>ab ps. servable req S c ab \<and> instantiate_plan ab req = Inr ps
          \<and> plan_lookup req S (c, qt) = Inr (Some ps, c1, map_option (record_log (quality_log req S ps True)) qt))" by blast
  from l show ?thesis
  proof (elim disjE exE conjE)
    fix ab ps
    assume h: "servable req S c ab" "instantiate_plan ab req = Inr ps"
      "plan_lookup req S (c, qt) = Inr (Some ps, c1, map_option (record_log (quality_log req S ps True)) qt)"
    then show ?thesis using planner_step.hit[OF h(1,2) w(1)] w(2) by (auto simp: agent_b_build_def)
  next
    assume look: "plan_lookup req S (c, qt) = Inr (None, c1, qt)" and none: "\<forall>ab. \<not> servable req S c ab"
    have fb: ?thesis if "agent_b_build recall retries llm req S (c, qt) = Inr (None, c1, map_option record_fallback qt)"
      using that planner_step.fell_back[of req S c c1] none w by blast
    show ?thesis
    proof (cases "propose recall llm ?sd ?T retries")
      case (Inl e)
      then show ?thesis by (intro fb) (simp add: agent_b_build_def look fall_back_def)
    next
      case (Inr pr)
      obtain p r where pr: "pr = (p, r)" by fastforce
      show ?thesis
      proof (cases "cr_valid r")
        case False
        then show ?thesis using Inr pr by (intro fb) (simp add: agent_b_build_def look fall_back_def)
      next
        case True
        obtain rows where rows: "supported_rows req S rows" and
          abs: "abstract_plan_from_agent_b p req = Inr \<lparr>ab_template = sfc_template req, ab_tiers = map fst rows, ab_suggested = map snd rows\<rparr>"
          using checked_plan[OF Inr[unfolded pr] True] by blast
        let ?ab = "\<lparr>ab_template = sfc_template req, ab_tiers = map fst rows, ab_suggested = map snd rows\<rparr>"
        have "length rows = length (vnfs req)" using rows by (simp add: supported_rows_def list_all2_lengthD)
        then have fits: "fits_key ?k ?ab" by (simp add: fits_key_def plan_signature_def sfc_template_def)
        then obtain ps where ps: "instantiate_plan ?ab req = Inr ps" using fits_instantiate by blast
        obtain c2 where c2: "cache_put ?k ?ab c1 = Inr c2" "planner_ok c2" using put_ok[OF w(2) fits] by blast
        have "planner_ok c2" by (rule c2(2))
        moreover have "agent_b_build recall retries llm req S (c, qt)
            = Inr (Some ps, c2, map_option (record_log (quality_log req S ps False)) qt)"
          using Inr pr True by (simp add: agent_b_build_def look adopt_plan_def abs ps c2(1))
        ultimately show ?thesis using planner_step.asked[OF _ w(1) rows refl ps c2(1)] none by blast
      qed
    qed
  qed
qed

section \<open>What a call answers\<close>

definition answer_sound :: "slice_request \<Rightarrow> substrate \<Rightarrow> plan_summary option \<Rightarrow> bool" where
  "answer_sound req S ans =
     (case ans of None \<Rightarrow> True
      | Some ps \<Rightarrow> ps_vnf_ids ps = map vnf_id (vnfs req) \<and> length (ps_tiers ps) = length (vnfs req)
          \<and> list_all2 (present_in S) (ps_tiers ps) (ps_suggested ps))"

lemma revalidate_iff: "revalidate_plan ab S \<longleftrightarrow> list_all (\<lambda>(t, m). present_in S t m) (zip (ab_tiers ab) (ab_suggested ab))"
  unfolding revalidate_plan_def Let_def
  by (rule arg_cong[of _ _ "\<lambda>P. list_all P _"]) (force simp: present_in_def)

lemma present_rows:
  "supported_rows req S rows \<Longrightarrow> length rows = length (vnfs req) \<and> list_all2 (present_in S) (map fst rows) (map snd rows)"
  by (auto simp: supported_rows_def list_all2_conv_all_nth split_def)

lemma step_sound:
  assumes "planner_step req S c ans f c'" and "planner_ok c"
  shows "answer_sound req S ans"
  using assms(1)
proof cases
  case (hit ab ps)
  then obtain e where e: "map_of (pc_entries c) (plan_signature req) = Some e" "ce_plan e = ab" and r: "revalidate_plan ab S"
    unfolding servable_def by blast
  have fits: "fits_key (plan_signature req) ab" using planner_okD[OF assms(2) e(1)] e(2) by simp
  then have "length (ab_tiers ab) = length (ab_suggested ab)" "length (ab_tiers ab) = length (vnfs req)"
    by (simp_all add: fits_key_def plan_signature_def sfc_template_def)
  moreover have "ps_vnf_ids ps = map vnf_id (vnfs req)" "ps_tiers ps = ab_tiers ab" "ps_suggested ps = ab_suggested ab"
    using fits_instantiate[OF fits] hit(4) by auto
  ultimately show ?thesis using r hit(1) by (simp add: answer_sound_def revalidate_iff list_all2_iff list_all_iff)
next
  case (asked c0 rows ab ps)
  then have "ps_vnf_ids ps = map vnf_id (vnfs req)" "ps_tiers ps = map fst rows" "ps_suggested ps = map snd rows"
    by (auto simp: instantiate_plan_def split: if_splits)
  then show ?thesis using present_rows asked by (simp add: answer_sound_def)
qed (simp add: answer_sound_def)

text \<open>How a call counts, whatever it does.\<close>

definition asked_count :: "quality_tracker \<Rightarrow> nat" where
  "asked_count qt = tally (\<lambda>l. \<not> ql_cache_hit l) (qt_logs qt)"

definition counts :: "quality_tracker \<Rightarrow> nat \<Rightarrow> nat \<Rightarrow> bool" where
  "counts qt good bad \<longleftrightarrow> length (qt_logs qt) = good \<and> qt_fallbacks qt = bad \<and> qt_llm_calls qt = bad + asked_count qt"

lemma tally_snoc [simp]: "tally P (xs @ [x]) = tally P xs + (if P x then 1 else 0)"
  by (simp add: tally_def)

lemma tally_Nil [simp]: "tally P [] = 0"
  by (simp add: tally_def)

lemma tally_Cons [simp]: "tally P (x # xs) = tally P xs + (if P x then 1 else 0)"
  by (simp add: tally_def)

lemma step_counts:
  assumes "planner_step req S c ans f c'" and "counts qt good bad"
  shows "counts (f qt) (good + (if ans = None then 0 else 1)) (bad + (if ans = None then 1 else 0))"
  using assms(1)
proof cases
  case (hit ab ps)
  then show ?thesis using assms(2) by (simp add: counts_def asked_count_def record_log_def quality_log_def Let_def)
next
  case fell_back
  then show ?thesis using assms(2) by (simp add: counts_def asked_count_def record_fallback_def)
next
  case (asked c0 rows ab ps)
  then show ?thesis using assms(2) by (simp add: counts_def asked_count_def record_log_def quality_log_def Let_def)
qed

text \<open>On substrates that agree on which domain holds which tier, every answer is kept and reused.\<close>

definition labelled :: "(tier \<Rightarrow> int \<Rightarrow> bool) \<Rightarrow> substrate \<Rightarrow> bool" where
  "labelled L S \<longleftrightarrow> present_in S = L"

definition kept :: "(tier \<Rightarrow> int \<Rightarrow> bool) \<Rightarrow> plan_key set \<Rightarrow> planner_cache \<Rightarrow> nat \<Rightarrow> bool" where
  "kept L sigs c n \<longleftrightarrow> cache_size c = n \<and> set (keys (pc_entries c)) \<subseteq> sigs
     \<and> (\<forall>k e. map_of (pc_entries c) k = Some e \<longrightarrow>
          \<not> ce_stale e \<and> list_all (\<lambda>(t, m). L t m) (zip (ab_tiers (ce_plan e)) (ab_suggested (ce_plan e))))"

lemma labelled_revalidate: "labelled L S \<Longrightarrow> revalidate_plan ab S \<longleftrightarrow> list_all (\<lambda>(t, m). L t m) (zip (ab_tiers ab) (ab_suggested ab))"
  by (simp add: revalidate_iff labelled_def)

lemma weakened_keys: "weakened req S c c' \<Longrightarrow> set (keys (pc_entries c')) = set (keys (pc_entries c))"
proof -
  assume "weakened req S c c'"
  then have "map_of (pc_entries c') k = None \<longleftrightarrow> map_of (pc_entries c) k = None" for k
    using weakened_def[THEN iffD1, THEN conjunct2, THEN conjunct2, rule_format, of req S c c' k]
    by (cases "map_of (pc_entries c) k") (auto simp del: map_of_eq_Some_iff)
  then show ?thesis by (metis (no_types, lifting) subsetI subset_antisym map_of_eq_None_iff set_map)
qed

lemma weakened_kept:
  assumes w: "weakened req S c c'" and ok: "planner_ok c" and L: "labelled L S" and k: "kept L sigs c n"
  shows "kept L sigs c' n"
proof -
  have "cache_size c' = card (set (keys (pc_entries c')))" "cache_size c = card (set (keys (pc_entries c)))"
    using ok weakened_ok[OF w ok] distinct_card[of "keys (pc_entries c')"] distinct_card[of "keys (pc_entries c)"]
    by (simp_all add: planner_ok_def cache_ok_def cache_size_def del: set_map)
  then have "cache_size c' = n" using k weakened_keys[OF w] by (simp add: kept_def)
  moreover have "\<not> ce_stale e \<and> list_all (\<lambda>(t, m). L t m) (zip (ab_tiers (ce_plan e)) (ab_suggested (ce_plan e)))"
    if "map_of (pc_entries c') k = Some e" for k e
    using weakenedD[OF w that] k labelled_revalidate[OF L] unfolding kept_def by metis
  ultimately show ?thesis using k weakened_keys[OF w] by (simp add: kept_def)
qed

lemma step_kept:
  assumes step: "planner_step req S c ans f c'" and ok: "planner_ok c" and L: "labelled L S"
    and k: "kept L sigs c (asked_count qt)" and sigs: "plan_signature req \<in> sigs" "finite sigs" "card sigs \<le> planner_capacity"
  shows "kept L sigs c' (asked_count (f qt))"
  using step
proof cases
  case (hit ab ps)
  then have "asked_count (f qt) = asked_count qt" by (simp add: asked_count_def record_log_def quality_log_def Let_def)
  then show ?thesis using weakened_kept[OF hit(5) ok L k] by simp
next
  case fell_back
  then have "asked_count (f qt) = asked_count qt" by (simp add: asked_count_def record_fallback_def)
  then show ?thesis using weakened_kept[OF fell_back(4) ok L k] by simp
next
  case (asked c0 rows ab ps)
  let ?k = "plan_signature req"
  have n: "asked_count (f qt) = Suc (asked_count qt)"
    using asked by (simp add: asked_count_def record_log_def quality_log_def Let_def)
  have new: "map_of (pc_entries c) ?k = None"
  proof (rule ccontr)
    assume "map_of (pc_entries c) ?k \<noteq> None"
    then obtain e where e: "map_of (pc_entries c) ?k = Some e" by (cases "map_of (pc_entries c) ?k") simp_all
    then have "servable req S c (ce_plan e)"
      using k labelled_revalidate[OF L] unfolding kept_def servable_def by blast
    then show False using asked(3) by blast
  qed
  have ok0: "planner_ok c0" by (rule weakened_ok[OF asked(4) ok])
  have k0: "kept L sigs c0 (asked_count qt)" by (rule weakened_kept[OF asked(4) ok L k])
  have new0: "?k \<notin> set (keys (pc_entries c0))"
    using new weakened_keys[OF asked(4)] by (simp add: map_of_eq_None_iff)
  let ?d = "AList.update ?k (new_entry ab) (pc_entries c0)"
  have d: "?d = pc_entries c0 @ [(?k, new_entry ab)]" using new0 by (simp add: update_fresh)
  have "distinct (keys ?d)" "set (keys ?d) \<subseteq> sigs"
    using ok0 k0 sigs(1) new0 by (auto simp: d planner_ok_def cache_ok_def kept_def)
  then have "length ?d \<le> planner_capacity"
    using card_mono[OF sigs(2)] sigs(3) distinct_card by (metis le_trans length_map)
  then have c': "c' = c0\<lparr>pc_entries := ?d\<rparr>"
    using asked(8) ok0 by (simp add: cache_put_def enforce_size_def evict_eq planner_ok_def)
  have "list_all (\<lambda>(t, m). L t m) (zip (ab_tiers ab) (ab_suggested ab))"
    using present_rows[OF asked(5)] L asked(6) by (simp add: labelled_def list_all2_iff list_all_iff)
  then show ?thesis unfolding n
    using k0 new0 sigs(1) by (auto simp: kept_def c'[unfolded d] cache_size_def new_entry_def map_add_def simp del: map_of_eq_Some_iff split: if_splits option.splits)
qed

section \<open>An episode of calls\<close>

lemma build_all_correct:
  assumes "planner_ok c" and "counts qt good bad"
  shows "\<exists>answers c' qt'. build_all recall retries calls (c, Some qt) = Inr (answers, c', Some qt') \<and> planner_ok c'
    \<and> list_all2 (\<lambda>(llm, req, S) ans. answer_sound req S ans) calls answers
    \<and> counts qt' (good + tally (\<lambda>a. a \<noteq> None) answers) (bad + tally (\<lambda>a. a = None) answers)
    \<and> (\<forall>L sigs. list_all (\<lambda>(llm, req, S). labelled L S \<and> plan_signature req \<in> sigs) calls \<and> finite sigs
         \<and> card sigs \<le> planner_capacity \<and> kept L sigs c (asked_count qt) \<longrightarrow> kept L sigs c' (asked_count qt'))"
  using assms
proof (induction calls arbitrary: c qt good bad)
  case Nil
  then show ?case by simp
next
  case (Cons call calls)
  obtain llm req S where call: "call = (llm, req, S)" by (metis prod.exhaust)
  obtain ans f c1 where b: "agent_b_build recall retries llm req S (c, Some qt) = Inr (ans, c1, Some (f qt))"
    and step: "planner_step req S c ans f c1" and ok1: "planner_ok c1"
    using build_step[OF Cons.prems(1), of recall retries llm req S "Some qt"] by auto
  note cnt = step_counts[OF step Cons.prems(2)]
  from Cons.IH[OF ok1 cnt] obtain answers c' qt' where
    r: "build_all recall retries calls (c1, Some (f qt)) = Inr (answers, c', Some qt')" "planner_ok c'"
      "list_all2 (\<lambda>(llm, req, S) ans. answer_sound req S ans) calls answers"
      "counts qt' (good + (if ans = None then 0 else 1) + tally (\<lambda>a. a \<noteq> None) answers)
         (bad + (if ans = None then 1 else 0) + tally (\<lambda>a. a = None) answers)"
    and keep: "\<And>L sigs. list_all (\<lambda>(llm, req, S). labelled L S \<and> plan_signature req \<in> sigs) calls \<Longrightarrow> finite sigs
         \<Longrightarrow> card sigs \<le> planner_capacity \<Longrightarrow> kept L sigs c1 (asked_count (f qt)) \<Longrightarrow> kept L sigs c' (asked_count qt')" by blast
  have "kept L sigs c' (asked_count qt')"
    if "list_all (\<lambda>(llm, req, S). labelled L S \<and> plan_signature req \<in> sigs) (call # calls)" "finite sigs"
      "card sigs \<le> planner_capacity" "kept L sigs c (asked_count qt)" for L sigs
    using keep[of L sigs] step_kept[OF step Cons.prems(1), of L sigs qt] that by (simp add: call)
  then show ?case
    using r step_sound[OF step Cons.prems(1)]
    by (intro exI[of _ "ans # answers"] exI[of _ c'] exI[of _ qt']) (auto simp: call b)
qed

lemma fresh_planner: "planner_ok (new_cache (Some planner_capacity))" "counts new_tracker 0 0"
    "kept L sigs (new_cache (Some planner_capacity)) (asked_count new_tracker)"
  by (simp_all add: planner_ok_def cache_ok_def new_cache_def cache_size_def counts_def new_tracker_def asked_count_def kept_def)

text \<open>
  C22: what the plan builder serves. Over any sequence of requests and substrates, with any language model
  at each call, whatever the memories contribute or raise, the builder never raises and its cache stays
  within its capacity. Every plan it hands out, fresh or reused, lists the VNFs of the request in order,
  with one tier each, and suggests for each a domain that holds a node of that tier in the substrate of
  that very call.
\<close>

theorem planner_serves_sound_plans:
  "\<exists>answers c qt. build_all recall retries calls (new_cache (Some planner_capacity), Some new_tracker) = Inr (answers, c, Some qt)
    \<and> cache_size c \<le> planner_capacity
    \<and> list_all2 (\<lambda>(llm, req, S) ans. answer_sound req S ans) calls answers"
proof -
  from build_all_correct[OF fresh_planner(1,2), of recall retries calls] obtain answers c qt where
    "build_all recall retries calls (new_cache (Some planner_capacity), Some new_tracker) = Inr (answers, c, Some qt)"
    "planner_ok c" "list_all2 (\<lambda>(llm, req, S) ans. answer_sound req S ans) calls answers" by blast
  then show ?thesis by (auto simp: planner_ok_def cache_ok_def)
qed

text \<open>
  The model is asked once per kind of request. When the substrates of an episode agree on which domain
  holds which tier and the requests fall into at most as many signatures as the cache has room for,
  every call is a hit, a fallback or one of at most as many fresh plans as there are signatures; the tracker counts
  exactly these, and \<open>llm_call_count\<close> is the fallbacks plus the fresh plans.
\<close>

theorem one_call_per_signature:
  assumes "list_all (\<lambda>(llm, req, S). labelled L S) calls"
    and "card (set (map (\<lambda>(llm, req, S). plan_signature req) calls)) \<le> planner_capacity"
  shows "\<exists>answers c qt. build_all recall retries calls (new_cache (Some planner_capacity), Some new_tracker) = Inr (answers, c, Some qt)
    \<and> length (qt_logs qt) = tally (\<lambda>a. a \<noteq> None) answers \<and> qt_fallbacks qt = tally (\<lambda>a. a = None) answers
    \<and> length (qt_logs qt) + qt_fallbacks qt = length calls
    \<and> qt_llm_calls qt = qt_fallbacks qt + tally (\<lambda>l. \<not> ql_cache_hit l) (qt_logs qt)
    \<and> tally (\<lambda>l. \<not> ql_cache_hit l) (qt_logs qt) \<le> card (set (map (\<lambda>(llm, req, S). plan_signature req) calls))"
proof -
  let ?sigs = "set (map (\<lambda>(llm, req, S). plan_signature req) calls)"
  from build_all_correct[OF fresh_planner(1,2), of recall retries calls] obtain answers c qt where
    r: "build_all recall retries calls (new_cache (Some planner_capacity), Some new_tracker) = Inr (answers, c, Some qt)" "planner_ok c"
      "list_all2 (\<lambda>(llm, req, S) ans. answer_sound req S ans) calls answers"
      "counts qt (tally (\<lambda>a. a \<noteq> None) answers) (tally (\<lambda>a. a = None) answers)"
    and keep: "\<And>L sigs. list_all (\<lambda>(llm, req, S). labelled L S \<and> plan_signature req \<in> sigs) calls \<Longrightarrow> finite sigs
        \<Longrightarrow> card sigs \<le> planner_capacity \<Longrightarrow> kept L sigs c (asked_count qt)"
    using fresh_planner(3) unfolding add_0 by blast
  have "list_all (\<lambda>(llm, req, S). labelled L S \<and> plan_signature req \<in> ?sigs) calls"
    using assms(1) by (auto simp: list_all_iff split_def image_iff intro!: bexI)
  from keep[OF this _ assms(2)] have k: "kept L ?sigs c (asked_count qt)" by simp
  have "cache_size c = card (set (keys (pc_entries c)))"
    using r(2) distinct_card[of "keys (pc_entries c)"] by (simp add: planner_ok_def cache_ok_def cache_size_def del: set_map)
  also have "\<dots> \<le> card ?sigs" using k by (intro card_mono) (simp_all add: kept_def)
  finally have "asked_count qt \<le> card ?sigs" using k by (simp add: kept_def)
  moreover have "tally (\<lambda>a. a \<noteq> None) as + tally (\<lambda>a. a = None) as = length as" for as :: "plan_summary option list"
    by (induction as) auto
  ultimately show ?thesis
    using r list_all2_lengthD[OF r(3)] by (auto simp: counts_def asked_count_def)
qed

text \<open>
  An answer the checker accepts needs no second look. Whatever the model replied over all attempts,
  a plan reported valid is read back without an error, so the parse-error branch of the builder is dead
  after a check: it gives every VNF a tier its permitted nodes have, on a domain that holds that tier.
\<close>

theorem checked_plan_is_usable:
  assumes "propose recall llm (slice_request_to_dict req S) (build_abstract_topology S) retries = Inr (q, r)"
    and "cr_valid r" and "distinct (map vnf_id (vnfs req))"
  shows "\<exists>ps. plan_summary_from_agent_b q req = Inr ps \<and> answer_sound req S (Some ps)
    \<and> list_all2 (\<lambda>v t. tier_value t \<in> set (permitted_tiers S v)) (vnfs req) (ps_tiers ps)"
proof -
  obtain rows where rows: "supported_rows req S rows" and
    abs: "abstract_plan_from_agent_b q req = Inr \<lparr>ab_template = sfc_template req, ab_tiers = map fst rows, ab_suggested = map snd rows\<rparr>"
    using checked_plan[OF assms(1,2)] by blast
  have same: "w = v" if "w \<in> set (vnfs req)" "v \<in> set (vnfs req)" "vnf_id w = vnf_id v" for v w
    using assms(3) that by (auto simp: distinct_map inj_on_def)
  have "list_all2 (\<lambda>v r. tier_value (fst r) \<in> set (permitted_tiers S v)) (vnfs req) rows"
    using rows unfolding supported_rows_def by (rule list.rel_mono_strong) (use same in \<open>fastforce split: prod.splits\<close>)
  then show ?thesis
    using present_rows[OF rows]
    by (simp add: plan_summary_from_agent_b_def abs instantiate_plan_def sfc_template_def answer_sound_def list.rel_map)
qed

section \<open>The constrained variant\<close>

text \<open>
  The reply of the grammar-constrained server. Ids and tiers of an assignment are texts or missing; a
  list may hold things that are not objects, and the server may raise.
\<close>

record constrained_assignment =
  ca_vnf :: "string option"
  ca_domain :: "domain_field option"
  ca_tier :: "string option"

type_synonym constrained_list = "constrained_assignment option list"

datatype json_field = Listed constrained_list | NullField | OtherField bool

datatype constrained_reply = ArrayReply constrained_list | ObjectReply "(string, json_field) dict" | OtherReply | ServerRaised

fun truthy :: "json_field \<Rightarrow> bool" where
  "truthy (Listed xs) \<longleftrightarrow> xs \<noteq> []"
| "truthy NullField \<longleftrightarrow> False"
| "truthy (OtherField b) \<longleftrightarrow> b"

text \<open>\<open>parsed.get("vnf_assignments") or parsed.get("assignments") or parsed.get("result")\<close>, and the single-key wrapper.\<close>

definition wrapped_list :: "(string, json_field) dict \<Rightarrow> json_field" where
  "wrapped_list d =
     (let got = (\<lambda>k. get_default d k NullField);
          x = (if truthy (got ''vnf_assignments'') then got ''vnf_assignments''
               else if truthy (got ''assignments'') then got ''assignments'' else got ''result'')
      in if x = NullField \<and> length d = 1 then snd (hd d) else x)"

definition reply_list :: "constrained_reply \<Rightarrow> constrained_list option" where
  "reply_list rep =
     (case rep of
        ArrayReply xs \<Rightarrow> Some xs
      | ObjectReply d \<Rightarrow> (case wrapped_list d of Listed xs \<Rightarrow> Some xs | _ \<Rightarrow> None)
      | _ \<Rightarrow> None)"

definition domain_text :: "domain_field option \<Rightarrow> string" where
  "domain_text x =
     (case x of None \<Rightarrow> ''d0'' | Some (DomainInt m) \<Rightarrow> domain_name m | Some (DomainText s) \<Rightarrow> s | Some DomainNull \<Rightarrow> ''None'')"

definition first_demand :: "(vnf_entry \<Rightarrow> real) \<Rightarrow> slice_dict \<Rightarrow> string option \<Rightarrow> real" where
  "first_demand f sd v = (case List.find (\<lambda>e. Some (sp_id e) = v) (sd_vnfs sd) of None \<Rightarrow> 0 | Some e \<Rightarrow> f e)"

definition full_assignment :: "slice_dict \<Rightarrow> constrained_assignment \<Rightarrow> raw_assignment" where
  "full_assignment sd a =
     \<lparr>ra_vnf = Some (or_else (ca_vnf a) []), ra_domain = Some (domain_text (ca_domain a)), ra_tier = Some (or_else (ca_tier a) ''edge''),
      ra_cpu = Some (first_demand ve_cpu sd (ca_vnf a)), ra_ram = Some (first_demand ve_ram sd (ca_vnf a))\<rparr>"

text \<open>The truth value of a domain field: 0, the empty text, null and a missing key are false.\<close>

fun domain_truthy :: "domain_field option \<Rightarrow> bool" where
  "domain_truthy (Some (DomainInt m)) \<longleftrightarrow> m \<noteq> 0"
| "domain_truthy (Some (DomainText s)) \<longleftrightarrow> s \<noteq> []"
| "domain_truthy _ \<longleftrightarrow> False"

definition derive_flow :: "constrained_assignment list \<Rightarrow> flow_entry \<Rightarrow> raw_flow" where
  "derive_flow as f =
     (let dom = (\<lambda>v. Option.bind (table ca_vnf as (Some v)) ca_domain); s = dom (fe_source f); t = dom (fe_target f) in
      \<lparr>rf_source = Some (fe_source f), rf_target = Some (fe_target f), rf_bw = Some (fe_bw f),
       rf_crosses = Some (if domain_truthy s \<and> domain_truthy t then s \<noteq> t else False)\<rparr>)"

definition build_plan_dict :: "slice_dict \<Rightarrow> constrained_assignment list \<Rightarrow> raw_plan" where
  "build_plan_dict sd as =
     \<lparr>rp_id = Some (sd_id sd @ ''_plan''), rp_host = None, rp_assignments = Some (map (full_assignment sd) as),
      rp_flows = Some (map (derive_flow as) (sd_flows sd))\<rparr>"

text \<open>\<open>generate_plan\<close>: any exception, also of an item that is no object, gives no plan.\<close>

definition constrained_generate :: "slice_dict \<Rightarrow> constrained_reply \<Rightarrow> raw_plan option" where
  "constrained_generate sd rep =
     (case reply_list rep of
        None \<Rightarrow> None
      | Some xs \<Rightarrow>
          if length xs \<noteq> length (sd_vnfs sd) \<or> None \<in> set xs then None
          else Some (build_plan_dict sd (map the xs)))"

definition constrained_build :: "constrained_reply \<Rightarrow> slice_request \<Rightarrow> substrate \<Rightarrow> planner_state \<Rightarrow> planner_answer" where
  "constrained_build rep req S st =
     (case plan_lookup req S st of
        Inl e \<Rightarrow> Inl e
      | Inr (Some ps, st') \<Rightarrow> Inr (Some ps, st')
      | Inr (None, st') \<Rightarrow>
          (case constrained_generate (slice_request_to_dict req S) rep of
             None \<Rightarrow> fall_back st'
           | Some p \<Rightarrow> adopt_plan p req S st'))"

text \<open>The assignments of a chain to integer domains, in order.\<close>

definition named_domains :: "slice_request \<Rightarrow> (tier \<times> int) list \<Rightarrow> constrained_assignment list" where
  "named_domains req rows =
     map2 (\<lambda>v r. \<lparr>ca_vnf = Some (vnf_id v), ca_domain = Some (DomainInt (snd r)), ca_tier = Some (tier_value (fst r))\<rparr>) (vnfs req) rows"

lemma named_table:
  assumes "distinct (map vnf_id (vnfs req))" and "length rows = length (vnfs req)" and "i < length (vnfs req)"
  shows "table ca_vnf (named_domains req rows) (Some (vnf_id (vnfs req ! i)))
    = Some \<lparr>ca_vnf = Some (vnf_id (vnfs req ! i)), ca_domain = Some (DomainInt (snd (rows ! i))), ca_tier = Some (tier_value (fst (rows ! i)))\<rparr>"
proof -
  let ?as = "named_domains req rows"
  have "map ca_vnf ?as = map Some (map vnf_id (vnfs req))" using assms(2) by (intro nth_equalityI) (simp_all add: named_domains_def)
  then have "distinct (map ca_vnf ?as)" using assms(1) by (auto simp: distinct_map inj_on_def)
  moreover have "?as ! i = \<lparr>ca_vnf = Some (vnf_id (vnfs req ! i)), ca_domain = Some (DomainInt (snd (rows ! i))), ca_tier = Some (tier_value (fst (rows ! i)))\<rparr>"
    and "i < length ?as" using assms(2,3) by (simp_all add: named_domains_def)
  ultimately show ?thesis using table_self[of ca_vnf ?as, OF _ nth_mem[of i ?as]] by simp
qed

lemma named_rows:
  assumes d: "distinct (map vnf_id (vnfs req))" and len: "length rows = length (vnfs req)" and pos: "\<forall>r \<in> set rows. 0 \<le> snd r"
  shows "abstract_plan_from_agent_b (build_plan_dict sd (named_domains req rows)) req
    = Inr \<lparr>ab_template = sfc_template req, ab_tiers = map fst rows, ab_suggested = map snd rows\<rparr>"
proof -
  let ?as = "map (full_assignment sd) (named_domains req rows)"
  have keys: "map ra_vnf ?as = map Some (map vnf_id (vnfs req))"
    using len by (intro nth_equalityI) (simp_all add: named_domains_def full_assignment_def or_else_def)
  have dk: "distinct (map ra_vnf ?as)" unfolding keys using d by (auto simp: distinct_map inj_on_def)
  have row: "plan_row ?as (vnfs req ! i) = Inr (rows ! i)" if i: "i < length (vnfs req)" for i
  proof -
    have "table ra_vnf ?as (ra_vnf (?as ! i)) = Some (?as ! i)" by (rule table_self[OF dk nth_mem]) (use i len in \<open>simp add: named_domains_def\<close>)
    moreover have "?as ! i = full_assignment sd \<lparr>ca_vnf = Some (vnf_id (vnfs req ! i)), ca_domain = Some (DomainInt (snd (rows ! i))), ca_tier = Some (tier_value (fst (rows ! i)))\<rparr>"
      using i len by (simp add: named_domains_def)
    moreover have "0 \<le> snd (rows ! i)" using pos i len by simp
    ultimately show ?thesis
      by (simp add: plan_row_def full_assignment_def or_else_def text_of_def tier_round domain_text_def domain_round del: domain_id_from_str.simps)
  qed
  have "\<exists>x. plan_row ?as v = Inr x \<and> (\<exists>i < length (vnfs req). v = vnfs req ! i \<and> x = rows ! i)" if "v \<in> set (vnfs req)" for v
    using that row by (metis in_set_conv_nth)
  then have each: "plan_row ?as v = Inr (projr (plan_row ?as v))" if "v \<in> set (vnfs req)" for v
    using that by fastforce
  have "fold_err (\<lambda>v rows. map_sum id (\<lambda>r. rows @ [r]) (plan_row ?as v)) (vnfs req) []
      = Inr (map (\<lambda>v. projr (plan_row ?as v)) (vnfs req))"
    using fold_err_map[of "vnfs req" "plan_row ?as", OF each, of "[]"] by simp
  also have "map (\<lambda>v. projr (plan_row ?as v)) (vnfs req) = rows"
    using len row by (intro nth_equalityI) simp_all
  finally have f: "fold_err (\<lambda>v rows. map_sum id (\<lambda>r. rows @ [r]) (plan_row ?as v)) (vnfs req) [] = Inr rows" .
  have "\<not> list_ex (\<lambda>a. ra_vnf a = None) ?as" by (simp add: list_ex_iff full_assignment_def)
  with f show ?thesis
    by (simp add: abstract_plan_from_agent_b_def build_plan_dict_def or_empty_def Let_def)
qed

text \<open>
  The constrained variant has no check. When the cache has nothing to serve, a reply that names a
  tier and a non-negative domain for every VNF is served as it stands: whatever the substrate is, the
  plan carries exactly these tiers and domains, in a domain that exists or not.
\<close>

theorem constrained_plan_is_unchecked:
  assumes "distinct (map vnf_id (vnfs req))" and "length rows = length (vnfs req)" and "\<forall>r \<in> set rows. 0 \<le> snd r"
    and "planner_ok c" and "\<And>ab. \<not> servable req S c ab"
  shows "\<exists>ps c'. constrained_build (ArrayReply (map Some (named_domains req rows))) req S (c, qt)
      = Inr (Some ps, c', map_option (record_log (quality_log req S ps False)) qt)
    \<and> planner_ok c' \<and> ps_tiers ps = map fst rows \<and> ps_suggested ps = map snd rows"
proof -
  let ?ab = "\<lparr>ab_template = sfc_template req, ab_tiers = map fst rows, ab_suggested = map snd rows\<rparr>"
  obtain c1 where look: "plan_lookup req S (c, qt) = Inr (None, c1, qt)" and ok1: "planner_ok c1"
    using lookup_correct[OF assms(4), of req S qt] assms(5) by blast
  have gen: "constrained_generate (slice_request_to_dict req S) (ArrayReply (map Some (named_domains req rows)))
      = Some (build_plan_dict (slice_request_to_dict req S) (named_domains req rows))"
    using assms(2) by (auto simp: constrained_generate_def reply_list_def slice_request_to_dict_def named_domains_def comp_def)
  have fits: "fits_key (plan_signature req) ?ab" using assms(2) by (simp add: fits_key_def plan_signature_def sfc_template_def)
  then obtain ps where ps: "instantiate_plan ?ab req = Inr ps" "ps_tiers ps = map fst rows" "ps_suggested ps = map snd rows"
    using fits_instantiate by fastforce
  obtain c2 where "cache_put (plan_signature req) ?ab c1 = Inr c2" "planner_ok c2"
    using put_ok[OF ok1 fits] by blast
  then show ?thesis
    using ps by (auto simp: constrained_build_def look gen adopt_plan_def named_rows[OF assms(1-3)])
qed

text \<open>
  The boundary flags of the constrained variant ignore domain 0. On integer domains a flow between
  two VNFs of the chain is flagged as crossing exactly when its domains differ and neither is domain 0.
\<close>

theorem constrained_flags_miss_domain_zero:
  assumes "distinct (map vnf_id (vnfs req))" and "length rows = length (vnfs req)"
    and "i < length (vnfs req)" and "j < length (vnfs req)"
    and "fe_source f = vnf_id (vnfs req ! i)" and "fe_target f = vnf_id (vnfs req ! j)"
  shows "rf_crosses (derive_flow (named_domains req rows) f)
    = Some (snd (rows ! i) \<noteq> snd (rows ! j) \<and> snd (rows ! i) \<noteq> 0 \<and> snd (rows ! j) \<noteq> 0)"
  using named_table[OF assms(1,2,3)] named_table[OF assms(1,2,4)] assms(5,6)
  by (auto simp: derive_flow_def Let_def)

section \<open>Witnesses\<close>

definition steady_llm :: "unit option \<Rightarrow> llm" where
  "steady_llm ctx n fb = Reply (Agent_B.empty_plan\<lparr>rp_assignments := Some [bare_assignment ''u'' ''d0'', bare_assignment ''v'' ''d1'']\<rparr>)"

lemma steady_answer:
  "case propose None steady_llm (slice_request_to_dict ex_guard_req2 ex_sub) (build_abstract_topology ex_sub) 1 of
     Inl _ \<Rightarrow> False | Inr (q, r) \<Rightarrow> cr_valid r"
  by code_simp

theorem checked_plan_is_usable_witness:
  "\<exists>q r ps. propose None steady_llm (slice_request_to_dict ex_guard_req2 ex_sub) (build_abstract_topology ex_sub) 1 = Inr (q, r)
     \<and> plan_summary_from_agent_b q ex_guard_req2 = Inr ps \<and> answer_sound ex_guard_req2 ex_sub (Some ps)"
proof -
  obtain q r where p: "propose None steady_llm (slice_request_to_dict ex_guard_req2 ex_sub) (build_abstract_topology ex_sub) 1 = Inr (q, r)"
    "cr_valid r"
    using steady_answer by (auto split: sum.splits prod.splits)
  moreover have "distinct (map vnf_id (vnfs ex_guard_req2))" by code_simp
  ultimately show ?thesis using checked_plan_is_usable[OF p] by blast
qed

theorem one_call_per_signature_witness:
  "\<exists>answers c qt. build_all None 1 [(steady_llm, ex_guard_req2, ex_sub), (steady_llm, ex_guard_req2, ex_sub)]
       (new_cache (Some planner_capacity), Some new_tracker) = Inr (answers, c, Some qt)
     \<and> length (qt_logs qt) + qt_fallbacks qt = 2 \<and> qt_llm_calls qt \<le> qt_fallbacks qt + 1"
  using one_call_per_signature[of "present_in ex_sub" "[(steady_llm, ex_guard_req2, ex_sub), (steady_llm, ex_guard_req2, ex_sub)]" None 1]
  by (auto simp: labelled_def planner_capacity_def)

theorem constrained_plan_is_unchecked_witness:
  "\<exists>ps c'. constrained_build (ArrayReply (map Some (named_domains ex_guard_req2 [(Edge, 7), (Edge, 7)]))) ex_guard_req2 ex_sub
       (new_cache (Some planner_capacity), None) = Inr (Some ps, c', None) \<and> ps_suggested ps = [7, 7]"
proof -
  have req: "distinct (map vnf_id (vnfs ex_guard_req2))" "length [(Edge, 7 :: int), (Edge, 7)] = length (vnfs ex_guard_req2)" by code_simp+
  have none: "\<not> servable ex_guard_req2 ex_sub (new_cache (Some planner_capacity)) ab" for ab
    by (simp add: servable_def new_cache_def)
  show ?thesis using constrained_plan_is_unchecked[OF req _ fresh_planner(1) none, of None] by auto
qed

theorem constrained_flags_miss_domain_zero_witness:
  "rf_crosses (derive_flow (named_domains ex_guard_req2 [(Edge, 0), (CentralCloud, 1)])
     \<lparr>fe_source = ''u'', fe_target = ''v'', fe_bw = 1\<rparr>) = Some False"
  using constrained_flags_miss_domain_zero[of ex_guard_req2 "[(Edge, 0), (CentralCloud, 1)]" 0 1 "\<lparr>fe_source = ''u'', fe_target = ''v'', fe_bw = 1\<rparr>"]
  by (simp add: ex_guard_req2_def ex_vnf_on_def ex_vnf_def)

end
