(* ===== verification/Training_Math.thy ===== *)
theory Training_Math
  imports Orion_Types
begin

text \<open>
  The numeric core of training that is not a network: generalised advantage estimation
  (\<open>src/src/orion/training/gae.py\<close>), the schedules of the prior's weight (\<open>kl_schedule.py\<close>) and the
  running normaliser of the critic's targets (\<open>value_norm.py\<close>). A tensor of one environment is a
  list. Theorems: the backward loop computes the discounted sum of its definition; merging batches
  gives the exact moments of all observations and normalisation is invertible.
\<close>

section \<open>gae.py\<close>

definition gae_step :: "real \<Rightarrow> real \<Rightarrow> (real \<times> real) \<times> (real \<times> real) \<Rightarrow> real list \<times> real \<Rightarrow> real list \<times> real" where
  "gae_step gamma lam = (\<lambda>((reward, fin), (v, v')) (advantages, gae).
     let not_done = 1 - fin;
         delta = reward + gamma * v' * not_done - v;
         gae' = delta + gamma * lam * not_done * gae
     in (gae' # advantages, gae'))"

text \<open>An empty batch fails on \<open>rewards[0]\<close>, a short \<open>dones\<close> on its last index.\<close>

definition compute_gae :: "real list \<Rightarrow> real list \<Rightarrow> real list \<Rightarrow> real \<Rightarrow> real \<Rightarrow> py_error + real list \<times> real list" where
  "compute_gae rewards vs dones gamma lam =
     (if length vs \<noteq> length rewards + 1 then Inl ValueError
      else if rewards = [] \<or> length dones < length rewards then Inl IndexError
      else let advantages = fst (foldr (gae_step gamma lam)
                 (zip (zip rewards dones) (zip vs (tl vs))) ([], 0))
           in Inr (advantages, map2 (+) advantages (butlast vs)))"

section \<open>kl_schedule.py\<close>

definition beta_zero :: "int \<Rightarrow> real" where
  "beta_zero step = 0"

definition beta_constant :: "int \<Rightarrow> real \<Rightarrow> real" where
  "beta_constant step v = v"

definition beta_linear :: "int \<Rightarrow> real \<Rightarrow> real \<Rightarrow> int \<Rightarrow> real" where
  "beta_linear step beta_initial beta_final decay_steps =
     (if decay_steps \<le> 0 then beta_final
      else if decay_steps \<le> step then beta_final
      else if step \<le> 0 then beta_initial
      else beta_initial + (beta_final - beta_initial) * (of_int step / of_int decay_steps))"

section \<open>value_norm.py\<close>

record value_norm =
  vn_count :: real
  vn_mean :: real
  vn_m2 :: real
  vn_eps :: real
  vn_min_std :: real

definition new_value_norm :: "real \<Rightarrow> real \<Rightarrow> value_norm" where
  "new_value_norm eps min_std = \<lparr>vn_count = 0, vn_mean = 0, vn_m2 = 0, vn_eps = eps, vn_min_std = min_std\<rparr>"

definition vn_std :: "value_norm \<Rightarrow> real" where
  "vn_std n = (if vn_count n < 2 then 1 else max (sqrt (vn_m2 n / vn_count n)) (vn_min_std n))"

definition vn_update :: "real list \<Rightarrow> value_norm \<Rightarrow> value_norm" where
  "vn_update xs s =
     (let n_b = real (length xs);
          mean_b = sum_list xs / n_b;
          m2_b = sum_list (map (\<lambda>x. (x - mean_b)\<^sup>2) xs);
          delta = mean_b - vn_mean s;
          n = vn_count s + n_b
      in if n_b = 0 then s
         else s\<lparr>vn_mean := vn_mean s + delta * (n_b / n),
                vn_m2 := vn_m2 s + (m2_b + delta * delta * (vn_count s * n_b / n)), vn_count := n\<rparr>)"

definition vn_normalize :: "value_norm \<Rightarrow> real \<Rightarrow> real" where
  "vn_normalize n x = (if vn_count n < 2 then x else (x - vn_mean n) / (vn_std n + vn_eps n))"

definition vn_denormalize :: "value_norm \<Rightarrow> real \<Rightarrow> real" where
  "vn_denormalize n x = (if vn_count n < 2 then x else x * (vn_std n + vn_eps n) + vn_mean n)"

definition vn_state_dict :: "value_norm \<Rightarrow> (string, real) dict" where
  "vn_state_dict n = [(''count'', vn_count n), (''mean'', vn_mean n), (''m2'', vn_m2 n), (''eps'', vn_eps n),
     (''min_std'', vn_min_std n)]"

definition vn_load_state_dict :: "(string, real) dict \<Rightarrow> py_error + value_norm" where
  "vn_load_state_dict st =
     (case (map_of st ''count'', map_of st ''mean'', map_of st ''m2'') of
        (Some c, Some m, Some q) \<Rightarrow>
          Inr \<lparr>vn_count = c, vn_mean = m, vn_m2 = q, vn_eps = get_default st ''eps'' (1 / 10 ^ 8),
               vn_min_std = get_default st ''min_std'' (1 / 10 ^ 6)\<rparr>
      | _ \<Rightarrow> Inl KeyError)"

section \<open>Advantages\<close>

text \<open>The temporal-difference error, and the advantage as a discounted sum that stops at an episode end.\<close>

definition td_error :: "real list \<Rightarrow> real list \<Rightarrow> real list \<Rightarrow> real \<Rightarrow> nat \<Rightarrow> real" where
  "td_error rewards vs dones gamma t = rewards ! t + gamma * vs ! (t + 1) * (1 - dones ! t) - vs ! t"

definition discounted_sum :: "real list \<Rightarrow> real list \<Rightarrow> real list \<Rightarrow> real \<Rightarrow> real \<Rightarrow> nat \<Rightarrow> real" where
  "discounted_sum rewards vs dones gamma lam t =
     (\<Sum>l < length rewards - t. (gamma * lam) ^ l * (\<Prod>j < l. 1 - dones ! (t + j)) * td_error rewards vs dones gamma (t + l))"

lemma discounted_sum_step:
  assumes "t < length rewards"
  shows "discounted_sum rewards vs dones gamma lam t =
    td_error rewards vs dones gamma t
    + gamma * lam * (1 - dones ! t) * discounted_sum rewards vs dones gamma lam (Suc t)"
proof -
  obtain n where n: "length rewards - t = Suc n" "length rewards - Suc t = n" using assms by (cases "length rewards - t") auto
  have p: "(\<Prod>j < Suc l. 1 - dones ! (t + j)) = (1 - dones ! t) * (\<Prod>j < l. 1 - dones ! (Suc t + j))" for l
    by (simp add: prod.lessThan_Suc_shift del: prod.lessThan_Suc)
  show ?thesis
    unfolding discounted_sum_def n sum.lessThan_Suc_shift p
    by (simp add: sum_distrib_left mult_ac)
qed

lemma gae_loop:
  assumes "length vs = length rewards + 1" and "length rewards \<le> length dones" and "k \<le> length rewards"
  shows "foldr (gae_step gamma lam) (drop k (zip (zip rewards dones) (zip vs (tl vs)))) ([], 0)
    = (map (discounted_sum rewards vs dones gamma lam) [k..<length rewards],
       discounted_sum rewards vs dones gamma lam k)"
  using assms(3)
proof (induction k rule: inc_induct)
  case base
  then show ?case using assms by (simp add: discounted_sum_def)
next
  case (step k)
  have k: "k < length rewards" using step.hyps by simp
  have d: "drop k (zip (zip rewards dones) (zip vs (tl vs)))
      = ((rewards ! k, dones ! k), (vs ! k, vs ! (k + 1))) # drop (Suc k) (zip (zip rewards dones) (zip vs (tl vs)))"
    using k assms by (subst Cons_nth_drop_Suc[symmetric]) (simp_all add: nth_tl)
  show ?case
    unfolding d foldr.simps comp_def step.IH
    using k by (simp add: gae_step_def Let_def discounted_sum_step td_error_def upt_conv_Cons)
qed

text \<open>
  The backward loop computes the advantages of their definition, a sum of temporal-difference
  errors discounted by \<open>gamma * lam\<close> that an episode end cuts off, and the returns are advantage plus
  value. It raises exactly on ill-shaped or empty input.
\<close>

theorem gae_is_discounted_sum:
  "case compute_gae rewards vs dones gamma lam of
     Inl ValueError \<Rightarrow> length vs \<noteq> length rewards + 1
   | Inl IndexError \<Rightarrow> length vs = length rewards + 1 \<and> (rewards = [] \<or> length dones < length rewards)
   | Inl _ \<Rightarrow> False
   | Inr (adv, ret) \<Rightarrow> adv = map (discounted_sum rewards vs dones gamma lam) [0..<length rewards]
       \<and> ret = map (\<lambda>t. discounted_sum rewards vs dones gamma lam t + vs ! t) [0..<length rewards]"
proof (cases "length vs = length rewards + 1 \<and> rewards \<noteq> [] \<and> length rewards \<le> length dones")
  case True
  then have "compute_gae rewards vs dones gamma lam =
      Inr (map (discounted_sum rewards vs dones gamma lam) [0..<length rewards],
           map2 (+) (map (discounted_sum rewards vs dones gamma lam) [0..<length rewards]) (butlast vs))"
    using gae_loop[of vs rewards dones 0 gamma lam] by (simp add: compute_gae_def Let_def)
  moreover have "map2 (+) (map (discounted_sum rewards vs dones gamma lam) [0..<length rewards]) (butlast vs)
      = map (\<lambda>t. discounted_sum rewards vs dones gamma lam t + vs ! t) [0..<length rewards]"
    using True by (intro nth_equalityI) (auto simp: nth_butlast)
  ultimately show ?thesis by simp
next
  case False
  then show ?thesis by (auto simp: compute_gae_def)
qed

section \<open>Schedules\<close>

lemma beta_linear_between:
  assumes "beta_final \<le> beta_initial"
  shows "beta_final \<le> beta_linear step beta_initial beta_final n" and "beta_linear step beta_initial beta_final n \<le> beta_initial"
proof -
  let ?p = "real_of_int step / real_of_int n"
  have "beta_final \<le> beta_initial + (beta_final - beta_initial) * ?p \<and> beta_initial + (beta_final - beta_initial) * ?p \<le> beta_initial"
    if "0 < n" "step < n" "0 < step"
  proof -
    have p: "0 \<le> ?p" "?p \<le> 1" using that by simp_all
    have "(beta_initial - beta_final) * ?p \<le> beta_initial - beta_final" using p(2) assms by (intro mult_left_le) simp_all
    moreover have "0 \<le> (beta_initial - beta_final) * ?p" using p(1) assms by (intro mult_nonneg_nonneg) simp_all
    moreover have "(beta_final - beta_initial) * ?p = - ((beta_initial - beta_final) * ?p)"
      by (metis minus_diff_eq mult_minus_left)
    ultimately show ?thesis by linarith
  qed
  then show "beta_final \<le> beta_linear step beta_initial beta_final n" "beta_linear step beta_initial beta_final n \<le> beta_initial"
    using assms by (auto simp: beta_linear_def)
qed

section \<open>Normaliser\<close>

definition moments :: "real list \<Rightarrow> value_norm \<Rightarrow> bool" where
  "moments xs s \<longleftrightarrow> vn_count s = real (length xs) \<and> vn_mean s * real (length xs) = sum_list xs
     \<and> vn_m2 s = sum_list (map (\<lambda>x. (x - vn_mean s)\<^sup>2) xs)"

text \<open>Sum of squared deviations from any point.\<close>

lemma sum_sq_shift:
  "sum_list (map (\<lambda>x. (x - a)\<^sup>2) xs) =
   sum_list (map (\<lambda>x. (x - b)\<^sup>2) xs) + 2 * (b - a) * (sum_list xs - b * real (length xs)) + real (length xs) * (b - a)\<^sup>2"
  by (induction xs) (simp_all add: power2_eq_square algebra_simps)

lemma moments_update:
  assumes "moments xs s"
  shows "moments (xs @ ys) (vn_update ys s)"
proof (cases "ys = []")
  case True
  then show ?thesis using assms by (simp add: vn_update_def Let_def)
next
  case False
  let ?a = "real (length xs)" and ?b = "real (length ys)" and ?m = "vn_mean s"
  let ?mb = "sum_list ys / ?b"
  let ?M = "?m + (?mb - ?m) * (?b / (?a + ?b))"
  have b: "0 < ?b" "0 < ?a + ?b" using False by (simp_all add: add_nonneg_pos)
  have s: "vn_count s = ?a" "?m * ?a = sum_list xs" "vn_m2 s = sum_list (map (\<lambda>x. (x - ?m)\<^sup>2) xs)"
    using assms by (simp_all add: moments_def)
  have M: "?M * (?a + ?b) = sum_list xs + sum_list ys"
    using b s(2) by (simp add: distrib_right) (simp add: field_simps)
  have "sum_list (map (\<lambda>x. (x - ?M)\<^sup>2) (xs @ ys)) =
      (vn_m2 s + ?a * (?m - ?M)\<^sup>2) + (sum_list (map (\<lambda>x. (x - ?mb)\<^sup>2) ys) + ?b * (?mb - ?M)\<^sup>2)"
    using sum_sq_shift[of ?M xs ?m] sum_sq_shift[of ?M ys ?mb] s(2,3) b(1) by simp
  moreover have "?a * (?m - ?M)\<^sup>2 + ?b * (?mb - ?M)\<^sup>2 = (?mb - ?m) * (?mb - ?m) * (?a * ?b / (?a + ?b))"
  proof -
    let ?d = "?mb - ?m"
    have e: "?m - ?M = - (?d * (?b / (?a + ?b)))" "?mb - ?M = ?d * (?a / (?a + ?b))"
      using b(2) by (simp_all add: field_simps)
    show ?thesis unfolding e using b(2)
      by (simp add: power2_eq_square divide_simps) (simp add: algebra_simps)
  qed
  ultimately show ?thesis
    using M b s(1) False by (simp add: moments_def vn_update_def Let_def)
qed

lemma moments_updates: "moments xs s \<Longrightarrow> moments (xs @ concat bs) (fold vn_update bs s)"
proof (induction bs arbitrary: xs s)
  case (Cons b bs)
  then show ?case using Cons.IH[OF moments_update[OF Cons.prems]] by simp
qed simp

lemma vn_update_consts [simp]: "vn_eps (vn_update b s) = vn_eps s" "vn_min_std (vn_update b s) = vn_min_std s"
  by (simp_all add: vn_update_def Let_def)

lemma vn_updates_consts [simp]:
  "vn_eps (fold vn_update bs s) = vn_eps s" "vn_min_std (fold vn_update bs s) = vn_min_std s"
  by (induction bs arbitrary: s) simp_all

text \<open>
  However the observations are split into batches, the normaliser holds their exact number,
  mean and sum of squared deviations. Denormalising inverts normalising, and a saved and restored
  normaliser is the same one.
\<close>

theorem value_norm_exact:
  fixes eps min_std and bs :: "real list list"
  assumes "0 \<le> eps" and "0 < min_std" and s: "s = fold vn_update bs (new_value_norm eps min_std)"
  shows "vn_count s = real (length (concat bs))
    \<and> vn_mean s * real (length (concat bs)) = sum_list (concat bs)
    \<and> vn_m2 s = sum_list (map (\<lambda>x. (x - vn_mean s)\<^sup>2) (concat bs))
    \<and> vn_denormalize s (vn_normalize s x) = x \<and> vn_normalize s (vn_denormalize s x) = x
    \<and> vn_load_state_dict (vn_state_dict s) = Inr s"
proof -
  have "moments ([] @ concat bs) s"
    unfolding s by (rule moments_updates) (simp add: moments_def new_value_norm_def)
  moreover have "0 < vn_std s + vn_eps s"
    using assms(1,2) by (auto simp: vn_std_def s new_value_norm_def max_def)
  then have "vn_denormalize s (vn_normalize s x) = x" "vn_normalize s (vn_denormalize s x) = x"
    by (simp_all add: vn_denormalize_def vn_normalize_def)
  moreover have "vn_load_state_dict (vn_state_dict s) = Inr s"
    by (simp add: vn_load_state_dict_def vn_state_dict_def get_default_def)
  ultimately show ?thesis by (simp add: moments_def)
qed

theorem value_norm_exact_witness:
  "vn_count (fold vn_update [[1, 2], [6]] (new_value_norm 0 1)) = 3
   \<and> vn_mean (fold vn_update [[1, 2], [6]] (new_value_norm 0 1)) = 3"
  using value_norm_exact[of 0 1 "fold vn_update [[1, 2], [6]] (new_value_norm 0 1)" "[[1, 2], [6]]"] by simp

end
