(* ===== verification/MDO_Policy.thy ===== *)
theory MDO_Policy
  imports Coordinator
begin

text \<open>
  The orchestrator's policies (\<open>src/src/orion/mdo/policy.py\<close>): the masked distribution, the sequential
  decoder (\<open>AutoregMDOPolicy\<close>: \<open>forward\<close>, \<open>evaluate_actions\<close>, \<open>joint_host_decode\<close>) and the enumerated
  joint (\<open>DirectJointPolicy\<close>). The weights are a parameter: \<open>net_encode\<close> and \<open>net_decoder\<close> are any
  functions. A logit set to minus infinity is \<open>None\<close>; a random draw is a parameter.

  Theorems: the sequential decoder is a probability distribution over whole partitions, recomputing a
  rollout under the same weights gives its own log-probabilities, the joint host decode finds the most
  probable colocated partition, and plugged into the coordinator the decoder stays inside the mask.
\<close>

section \<open>Masked categorical distributions\<close>

type_synonym logit = "real option"

definition masked_logits :: "bool list \<Rightarrow> real list \<Rightarrow> logit list" where
  "masked_logits msk xs = map2 (\<lambda>b x. if b then Some x else None) msk xs"

definition support :: "logit list \<Rightarrow> nat list" where
  "support row = filter (\<lambda>i. row ! i \<noteq> None) [0..<length row]"

definition log_norm :: "logit list \<Rightarrow> real" where
  "log_norm row = ln (\<Sum>i \<leftarrow> support row. exp (the (row ! i)))"

text \<open>\<open>Categorical(logits=row)\<close>: the log-probabilities; over no value at all it raises.\<close>

definition categorical :: "logit list \<Rightarrow> py_error + logit list" where
  "categorical row =
     (if support row = [] then Inl ValueError else Inr (map (map_option (\<lambda>x. x - log_norm row)) row))"

definition prob_of :: "logit \<Rightarrow> real" where
  "prob_of lp = (case lp of None \<Rightarrow> 0 | Some p \<Rightarrow> exp p)"

definition cat_entropy :: "logit list \<Rightarrow> real" where
  "cat_entropy lps = - (\<Sum>lp \<leftarrow> lps. case lp of None \<Rightarrow> 0 | Some p \<Rightarrow> exp p * p)"

text \<open>\<open>row.argmax()\<close>: the first index of the greatest logit.\<close>

definition argmax_row :: "logit list \<Rightarrow> nat" where
  "argmax_row row = (case least (map (\<lambda>i. (- the (row ! i), i)) (support row)) of None \<Rightarrow> 0 | Some (_, i) \<Rightarrow> i)"

section \<open>The sequential decoder\<close>

record 'h network =
  net_encode :: "mdo_observation \<Rightarrow> 'h"
  net_decoder :: "'h \<Rightarrow> real list \<Rightarrow> real \<Rightarrow> real list"
  net_domains :: nat

definition step_logits :: "'h network \<Rightarrow> 'h \<Rightarrow> real list \<Rightarrow> nat \<Rightarrow> nat \<Rightarrow> real list" where
  "step_logits net h counts k K =
     net_decoder net h (map (\<lambda>c. c / real (max K 1)) counts) (real k / real (max K 1))"

definition decision_logits :: "real list list option \<Rightarrow> real \<Rightarrow> nat \<Rightarrow> real list \<Rightarrow> real list" where
  "decision_logits prior w k raw =
     (case prior of None \<Rightarrow> raw | Some P \<Rightarrow> map2 (\<lambda>x p. x + w * p) raw (P ! k))"

text \<open>\<open>_raw_entropy\<close>: of the unadvised distribution when there is advice.\<close>

definition step_entropy :: "real list list option \<Rightarrow> bool list \<Rightarrow> real list \<Rightarrow> logit list \<Rightarrow> py_error + real" where
  "step_entropy prior msk raw lps =
     (case prior of
        None \<Rightarrow> Inr (cat_entropy lps)
      | Some _ \<Rightarrow> map_sum id cat_entropy (categorical (masked_logits msk raw)))"

record decode_state =
  dt_counts :: "real list"
  dt_partition :: "nat list"
  dt_lps :: "logit list"
  dt_raws :: "real list list"
  dt_entropy :: real

definition decode_start :: "'h network \<Rightarrow> decode_state" where
  "decode_start net = \<lparr>dt_counts = replicate (net_domains net) 0, dt_partition = [], dt_lps = [], dt_raws = [], dt_entropy = 0\<rparr>"

text \<open>The distribution of one VNF: the raw logits, the masked decision logits, their log-probabilities and the entropy.\<close>

definition step_dist :: "'h network \<Rightarrow> 'h \<Rightarrow> bool list list \<Rightarrow> nat \<Rightarrow> real list list option \<Rightarrow> real \<Rightarrow> nat \<Rightarrow> real list
    \<Rightarrow> py_error + real list \<times> logit list \<times> logit list \<times> real" where
  "step_dist net h msk K prior w k counts =
     (let raw = step_logits net h counts k K;
          row = masked_logits (msk ! k) (decision_logits prior w k raw)
      in case categorical row of
          Inl e \<Rightarrow> Inl e
        | Inr lps \<Rightarrow> map_sum id (\<lambda>ent. (raw, row, lps, ent)) (step_entropy prior (msk ! k) raw lps))"

text \<open>One VNF; \<open>pick\<close> sees the masked decision logits.\<close>

definition decode_step :: "'h network \<Rightarrow> 'h \<Rightarrow> bool list list \<Rightarrow> nat \<Rightarrow> real list list option \<Rightarrow> real
    \<Rightarrow> (nat \<Rightarrow> logit list \<Rightarrow> nat) \<Rightarrow> nat \<Rightarrow> decode_state \<Rightarrow> py_error + decode_state" where
  "decode_step net h msk K prior w pick k st =
     (case step_dist net h msk K prior w k (dt_counts st) of
        Inl e \<Rightarrow> Inl e
      | Inr (raw, row, lps, ent) \<Rightarrow>
          (let a = pick k row in
           Inr \<lparr>dt_counts = (dt_counts st)[a := dt_counts st ! a + 1], dt_partition = dt_partition st @ [a],
                dt_lps = dt_lps st @ [lps ! a], dt_raws = dt_raws st @ [raw], dt_entropy = dt_entropy st + ent\<rparr>))"

definition decode_along :: "'h network \<Rightarrow> 'h \<Rightarrow> bool list list \<Rightarrow> nat \<Rightarrow> real list list option \<Rightarrow> real
    \<Rightarrow> (nat \<Rightarrow> logit list \<Rightarrow> nat) \<Rightarrow> py_error + decode_state" where
  "decode_along net h msk K prior w pick =
     fold_err (decode_step net h msk K prior w pick) [0..<K] (decode_start net)"

record decode_out =
  do_partition :: "nat list"
  do_log_probs :: "logit list"
  do_logits :: "real list list"
  do_entropy :: real

text \<open>\<open>torch.stack\<close> of no tensor raises.\<close>

definition stacked :: "nat \<Rightarrow> decode_state \<Rightarrow> py_error + decode_out" where
  "stacked K st =
     (if K = 0 then Inl RuntimeError
      else Inr \<lparr>do_partition = dt_partition st, do_log_probs = dt_lps st, do_logits = dt_raws st,
                do_entropy = dt_entropy st / real K\<rparr>)"

definition autoreg_forward :: "'h network \<Rightarrow> (nat \<Rightarrow> logit list \<Rightarrow> nat) \<Rightarrow> mdo_observation \<Rightarrow> bool list list \<Rightarrow> nat
    \<Rightarrow> bool \<Rightarrow> real list list option \<Rightarrow> real \<Rightarrow> py_error + decode_out" where
  "autoreg_forward net draw ob msk K deterministic prior w =
     (case decode_along net (net_encode net ob) msk K prior w (if deterministic then \<lambda>k. argmax_row else draw) of
        Inl e \<Rightarrow> Inl e
      | Inr st \<Rightarrow> stacked K st)"

definition evaluate_actions :: "'h network \<Rightarrow> mdo_observation \<Rightarrow> bool list list \<Rightarrow> nat list \<Rightarrow> nat
    \<Rightarrow> real list list option \<Rightarrow> real \<Rightarrow> py_error + decode_out" where
  "evaluate_actions net ob msk actions K prior w =
     (case decode_along net (net_encode net ob) msk K prior w (\<lambda>k row. actions ! k) of
        Inl e \<Rightarrow> Inl e
      | Inr st \<Rightarrow> stacked K st)"

section \<open>The joint host decode\<close>

definition host_candidates :: "'h network \<Rightarrow> bool list list \<Rightarrow> nat \<Rightarrow> bool list option \<Rightarrow> nat list" where
  "host_candidates net msk K cand =
     filter (\<lambda>c. list_all (\<lambda>k. msk ! k ! c) [0..<K] \<and> (case cand of None \<Rightarrow> True | Some b \<Rightarrow> b ! c)) [0..<net_domains net]"

definition score_of :: "logit list \<Rightarrow> real" where
  "score_of lps = (\<Sum>lp \<leftarrow> lps. the lp)"

definition try_host :: "'h network \<Rightarrow> 'h \<Rightarrow> bool list list \<Rightarrow> nat \<Rightarrow> real list list option \<Rightarrow> real \<Rightarrow> nat
    \<Rightarrow> (nat \<times> decode_state) option \<Rightarrow> py_error + (nat \<times> decode_state) option" where
  "try_host net h msk K prior w c best =
     (case decode_along net h msk K prior w (\<lambda>k row. c) of
        Inl e \<Rightarrow> Inl e
      | Inr st \<Rightarrow>
          Inr (case best of
                 None \<Rightarrow> Some (c, st)
               | Some (b, bst) \<Rightarrow> if score_of (dt_lps st) > score_of (dt_lps bst) then Some (c, st) else best))"

definition joint_host_decode :: "'h network \<Rightarrow> mdo_observation \<Rightarrow> bool list list \<Rightarrow> nat \<Rightarrow> real list list option \<Rightarrow> real
    \<Rightarrow> bool list option \<Rightarrow> py_error + (decode_out \<times> nat \<times> nat) option" where
  "joint_host_decode net ob msk K prior w cand =
     (let cs = host_candidates net msk K cand in
      if cs = [] then Inr None
      else case fold_err (try_host net (net_encode net ob) msk K prior w) cs None of
          Inl e \<Rightarrow> Inl e
        | Inr None \<Rightarrow> Inl RuntimeError
        | Inr (Some (host, st)) \<Rightarrow>
            map_sum id (\<lambda>out. Some (out\<lparr>do_partition := replicate K host\<rparr>, host, length cs)) (stacked K st))"

section \<open>The enumerated joint\<close>

definition enumerate_and_mask :: "nat \<Rightarrow> bool list list \<Rightarrow> nat \<Rightarrow> (nat list \<times> bool) list" where
  "enumerate_and_mask M msk K =
     map (\<lambda>p. (p, list_all (\<lambda>k. msk ! k ! (p ! k)) [0..<K])) (product_lists (replicate K [0..<M]))"

definition assert_chain :: "nat \<Rightarrow> nat \<Rightarrow> py_error + unit" where
  "assert_chain max_chain K = (if K > max_chain then Inl ValueError else Inr ())"

text \<open>The row of the head, cut to the partitions there are and masked.\<close>

definition joint_row :: "nat \<Rightarrow> real list \<Rightarrow> bool list list \<Rightarrow> nat \<Rightarrow> logit list" where
  "joint_row M head msk K =
     (let ps = enumerate_and_mask M msk K in masked_logits (map snd ps) (take (length ps) head))"

definition joint_forward :: "nat \<Rightarrow> nat \<Rightarrow> (logit list \<Rightarrow> nat) \<Rightarrow> real list \<Rightarrow> bool list list \<Rightarrow> nat \<Rightarrow> bool
    \<Rightarrow> py_error + nat list \<times> logit \<times> real" where
  "joint_forward M max_chain draw head msk K deterministic =
     (case assert_chain max_chain K of
        Inl e \<Rightarrow> Inl e
      | Inr _ \<Rightarrow>
        (let row = joint_row M head msk K in
         case categorical row of
           Inl e \<Rightarrow> Inl e
         | Inr lps \<Rightarrow>
             (let a = (if deterministic then argmax_row row else draw row)
              in Inr (map fst (enumerate_and_mask M msk K) ! a, lps ! a, cat_entropy lps))))"

text \<open>\<open>partitions.index(target)\<close> raises when there is no such partition.\<close>

definition index_of :: "'a list \<Rightarrow> 'a \<Rightarrow> nat option" where
  "index_of xs x = List.find (\<lambda>i. xs ! i = x) [0..<length xs]"

definition joint_evaluate :: "nat \<Rightarrow> nat \<Rightarrow> real list \<Rightarrow> bool list list \<Rightarrow> nat list \<Rightarrow> nat \<Rightarrow> py_error + logit \<times> real" where
  "joint_evaluate M max_chain head msk actions K =
     (case assert_chain max_chain K of
        Inl e \<Rightarrow> Inl e
      | Inr _ \<Rightarrow>
        (case index_of (map fst (enumerate_and_mask M msk K)) actions of
           None \<Rightarrow> Inl ValueError
         | Some a \<Rightarrow> map_sum id (\<lambda>lps. (lps ! a, cat_entropy lps)) (categorical (joint_row M head msk K))))"

definition joint_prior_logits :: "nat \<Rightarrow> nat \<Rightarrow> bool list list \<Rightarrow> nat \<Rightarrow> nat list \<Rightarrow> real
    \<Rightarrow> py_error + (real list \<times> bool list) option" where
  "joint_prior_logits M max_chain msk K suggested temperature =
     (case assert_chain max_chain K of
        Inl e \<Rightarrow> Inl e
      | Inr _ \<Rightarrow>
        (let ps = enumerate_and_mask M msk K in
         Inr (case index_of (map fst ps) suggested of
                None \<Rightarrow> None
              | Some i \<Rightarrow> if snd (ps ! i)
                  then Some ((replicate (length ps) 0)[i := 1 / max temperature (1 / 10 ^ 6)], map snd ps)
                  else None)))"

section \<open>Distributions\<close>

lemma support_iff: "i \<in> set (support row) \<longleftrightarrow> i < length row \<and> row ! i \<noteq> None"
  by (auto simp: support_def)

lemma support_masked:
  "length msk = length xs \<Longrightarrow> i \<in> set (support (masked_logits msk xs)) \<longleftrightarrow> i < length msk \<and> msk ! i"
  by (auto simp: support_iff masked_logits_def split: if_splits)

lemma masked_support: "i \<in> set (support (masked_logits msk xs)) \<Longrightarrow> i < length msk \<and> msk ! i"
  by (auto simp: support_iff masked_logits_def split: if_splits)

lemma categorical_Inr: "categorical row = Inr lps \<longleftrightarrow> support row \<noteq> [] \<and> lps = map (map_option (\<lambda>x. x - log_norm row)) row"
  by (auto simp: categorical_def)

lemma support_sum: "(\<Sum>i < length row. case row ! i of None \<Rightarrow> 0 | Some x \<Rightarrow> f x) = (\<Sum>i \<leftarrow> support row. f (the (row ! i)))"
proof -
  have "(\<Sum>i \<leftarrow> support row. f (the (row ! i))) = (\<Sum>i \<in> {..<length row} \<inter> {i. row ! i \<noteq> None}. f (the (row ! i)))"
    unfolding support_def by (subst sum_list_distinct_conv_sum_set) (auto intro!: sum.cong)
  also have "\<dots> = (\<Sum>i < length row. case row ! i of None \<Rightarrow> 0 | Some x \<Rightarrow> f x)"
    by (subst sum.inter_restrict) (auto intro!: sum.cong split: option.split)
  finally show ?thesis by simp
qed

text \<open>The probabilities of a distribution sum to one.\<close>

lemma categorical_sums:
  assumes "categorical row = Inr lps"
  shows "(\<Sum>i < length row. prob_of (lps ! i)) = 1"
proof -
  have lps: "lps = map (map_option (\<lambda>x. x - log_norm row)) row" and ne: "support row \<noteq> []"
    using assms by (simp_all add: categorical_Inr)
  let ?Z = "\<Sum>i \<leftarrow> support row. exp (the (row ! i))"
  have pos: "0 < ?Z"
    using ne by (cases "support row") (auto intro!: add_pos_nonneg sum_list_nonneg)
  have "(\<Sum>i < length row. prob_of (lps ! i)) = (\<Sum>i < length row. case row ! i of None \<Rightarrow> 0 | Some x \<Rightarrow> exp x / ?Z)"
    using pos by (intro sum.cong) (auto simp: lps prob_of_def log_norm_def exp_diff split: option.split)
  also have "\<dots> = (\<Sum>i \<leftarrow> support row. exp (the (row ! i)) / ?Z)" by (rule support_sum)
  also have "\<dots> = ?Z / ?Z" unfolding divide_inverse by (rule sum_list_mult_const)
  finally show ?thesis using pos by simp
qed

lemma argmax_row_in: "support row \<noteq> [] \<Longrightarrow> argmax_row row \<in> set (support row)"
  by (auto simp: argmax_row_def split: option.split dest!: least_in)

section \<open>The decoder step by step\<close>

lemma step_distD:
  assumes "step_dist net h msk K prior w k counts = Inr (raw, row, lps, ent)"
  shows "raw = step_logits net h counts k K" and "row = masked_logits (msk ! k) (decision_logits prior w k raw)"
    and "support row \<noteq> []"
proof -
  let ?raw = "step_logits net h counts k K"
  let ?row = "masked_logits (msk ! k) (decision_logits prior w k ?raw)"
  from assms obtain ls where ls: "categorical ?row = Inr ls"
    by (auto simp: step_dist_def Let_def split: sum.splits)
  with assms have "raw = ?raw \<and> row = ?row"
    by (cases "step_entropy prior (msk ! k) ?raw ls") (auto simp: step_dist_def Let_def)
  with ls show "raw = ?raw" "row = masked_logits (msk ! k) (decision_logits prior w k raw)" "support row \<noteq> []"
    by (auto simp: categorical_Inr)
qed

lemma decode_stepE:
  assumes "decode_step net h msk K prior w pick k st = Inr st'"
  obtains raw row lps ent where "step_dist net h msk K prior w k (dt_counts st) = Inr (raw, row, lps, ent)"
    and "dt_counts st' = (dt_counts st)[pick k row := dt_counts st ! pick k row + 1]"
    and "dt_partition st' = dt_partition st @ [pick k row]" and "dt_lps st' = dt_lps st @ [lps ! pick k row]"
    and "dt_raws st' = dt_raws st @ [raw]" and "dt_entropy st' = dt_entropy st + ent"
  using assms by (auto simp: decode_step_def Let_def split: sum.splits)

lemma decode_prefix:
  assumes "fold_err (decode_step net h msk K prior w pick) ks st = Inr st'"
  shows "\<exists>xs ls. length xs = length ks \<and> length ls = length ks
    \<and> dt_partition st' = dt_partition st @ xs \<and> dt_lps st' = dt_lps st @ ls"
  using assms
proof (induction ks arbitrary: st)
  case (Cons k ks)
  then obtain u where u: "decode_step net h msk K prior w pick k st = Inr u" and rest: "fold_err (decode_step net h msk K prior w pick) ks u = Inr st'"
    by (auto split: sum.splits)
  from Cons.IH[OF rest] obtain xs ls where "length xs = length ks" "length ls = length ks" "dt_partition st' = dt_partition u @ xs" "dt_lps st' = dt_lps u @ ls"
    by blast
  with u show ?case by (elim decode_stepE) (metis append_assoc append_Cons append_Nil length_Cons)
qed simp

text \<open>Choosing what was chosen replays the run.\<close>

lemma decode_replay:
  assumes "fold_err (decode_step net h msk K prior w pick) [k..<n] st = Inr st'" and "length (dt_partition st) = k"
  shows "fold_err (decode_step net h msk K prior w (\<lambda>j row. dt_partition st' ! j)) [k..<n] st = Inr st'"
  using assms
proof (induction "n - k" arbitrary: k st)
  case (Suc d)
  then have ks: "[k..<n] = k # [Suc k..<n]" by (simp add: upt_conv_Cons)
  from Suc.prems(1) obtain u where u: "decode_step net h msk K prior w pick k st = Inr u"
    and rest: "fold_err (decode_step net h msk K prior w pick) [Suc k..<n] u = Inr st'"
    unfolding ks by (auto split: sum.splits)
  from u obtain raw row lps ent where sd: "step_dist net h msk K prior w k (dt_counts st) = Inr (raw, row, lps, ent)"
    and p: "dt_partition u = dt_partition st @ [pick k row]"
    by (elim decode_stepE)
  from decode_prefix[OF rest] obtain xs where "dt_partition st' = dt_partition u @ xs" by blast
  then have "dt_partition st' ! k = pick k row" using p Suc.prems(2) by (simp add: nth_append)
  then have "decode_step net h msk K prior w (\<lambda>j row. dt_partition st' ! j) k st = Inr u"
    using u sd by (simp add: decode_step_def Let_def)
  moreover have "fold_err (decode_step net h msk K prior w (\<lambda>j row. dt_partition st' ! j)) [Suc k..<n] u = Inr st'"
    by (rule Suc.hyps(1)[OF _ rest]) (use Suc.hyps(2) p Suc.prems(2) in auto)
  ultimately show ?case unfolding ks by simp
qed simp

text \<open>
  C16: the policy-gradient ratio starts at one. Whatever the network, the advice and the draws, when a
  decode returns, recomputing its partition under the same weights and the same advice returns the
  same log-probabilities, the same raw logits and the same entropy, so that the ratio of the
  probabilities is 1 on every VNF of the rollout.
\<close>

theorem rollout_recomputed:
  assumes "autoreg_forward net draw ob msk K deterministic prior w = Inr out"
  shows "evaluate_actions net ob msk (do_partition out) K prior w = Inr out"
proof -
  define pick where "pick = (if deterministic then \<lambda>k. argmax_row else draw)"
  from assms obtain st where st: "decode_along net (net_encode net ob) msk K prior w pick = Inr st"
    and out: "stacked K st = Inr out"
    by (auto simp: autoreg_forward_def pick_def split: sum.splits)
  have "do_partition out = dt_partition st" using out by (auto simp: stacked_def split: if_splits)
  moreover have "decode_along net (net_encode net ob) msk K prior w (\<lambda>k row. dt_partition st ! k) = Inr st"
    using st unfolding decode_along_def by (rule decode_replay) (simp add: decode_start_def)
  ultimately show ?thesis using out by (simp add: evaluate_actions_def)
qed

section \<open>A distribution over partitions\<close>

text \<open>Every row has one entry per domain and every VNF a domain it may use.\<close>

definition shaped :: "'h network \<Rightarrow> bool list list \<Rightarrow> nat \<Rightarrow> real list list option \<Rightarrow> bool" where
  "shaped net msk K prior \<longleftrightarrow>
     (\<forall>h cs p. length (net_decoder net h cs p) = net_domains net)
     \<and> length msk = K \<and> (\<forall>row \<in> set msk. length row = net_domains net \<and> list_ex (\<lambda>b. b) row)
     \<and> (\<forall>P. prior = Some P \<longrightarrow> length P = K \<and> (\<forall>row \<in> set P. length row = net_domains net))"

definition partition_prob :: "'h network \<Rightarrow> mdo_observation \<Rightarrow> bool list list \<Rightarrow> nat \<Rightarrow> real list list option \<Rightarrow> real
    \<Rightarrow> nat list \<Rightarrow> real" where
  "partition_prob net ob msk K prior w xs =
     (case evaluate_actions net ob msk xs K prior w of Inl e \<Rightarrow> 0 | Inr out \<Rightarrow> \<Prod>lp \<leftarrow> do_log_probs out. prob_of lp)"

fun path_prob :: "'h network \<Rightarrow> 'h \<Rightarrow> bool list list \<Rightarrow> nat \<Rightarrow> real list list option \<Rightarrow> real \<Rightarrow> nat \<Rightarrow> real list \<Rightarrow> nat list \<Rightarrow> real" where
  "path_prob net h msk K prior w k counts [] = 1"
| "path_prob net h msk K prior w k counts (a # xs) =
     (case step_dist net h msk K prior w k counts of Inl e \<Rightarrow> 0 | Inr (raw, row, lps, ent) \<Rightarrow> prob_of (lps ! a))
     * path_prob net h msk K prior w (Suc k) (counts[a := counts ! a + 1]) xs"

lemma shaped_step:
  assumes "shaped net msk K prior" and "k < K"
  obtains raw row lps ent where "step_dist net h msk K prior w k counts = Inr (raw, row, lps, ent)"
    and "categorical row = Inr lps" and "length row = net_domains net"
    and "\<And>c. c \<in> set (support row) \<longleftrightarrow> c < net_domains net \<and> msk ! k ! c"
proof -
  let ?raw = "step_logits net h counts k K"
  let ?row = "masked_logits (msk ! k) (decision_logits prior w k ?raw)"
  have mem: "msk ! k \<in> set msk" using assms by (simp add: shaped_def)
  then have row: "length (msk ! k) = net_domains net" "list_ex (\<lambda>b. b) (msk ! k)" using assms(1) by (auto simp: shaped_def)
  have raw: "length ?raw = net_domains net" using assms(1) by (simp add: shaped_def step_logits_def)
  have dec: "length (decision_logits prior w k ?raw) = net_domains net"
    using assms raw by (auto simp: shaped_def decision_logits_def split: option.split)
  have sup: "c \<in> set (support (masked_logits (msk ! k) xs)) \<longleftrightarrow> c < net_domains net \<and> msk ! k ! c" if "length xs = net_domains net" for c xs
    using support_masked[of "msk ! k" xs c] row(1) that by simp
  obtain c where "c < net_domains net" "msk ! k ! c" using row by (auto simp: list_ex_length)
  then have ne: "support (masked_logits (msk ! k) xs) \<noteq> []" if "length xs = net_domains net" for xs
    using sup[OF that, of c] by force
  obtain lps where lps: "categorical ?row = Inr lps" using ne[OF dec] by (simp add: categorical_def)
  obtain lps' where "categorical (masked_logits (msk ! k) ?raw) = Inr lps'" using ne[OF raw] by (simp add: categorical_def)
  then obtain ent where "step_entropy prior (msk ! k) ?raw lps = Inr ent" by (cases prior) (simp_all add: step_entropy_def)
  with lps have "step_dist net h msk K prior w k counts = Inr (?raw, ?row, lps, ent)" by (simp add: step_dist_def Let_def)
  moreover have "length ?row = net_domains net" using dec row by (simp add: masked_logits_def)
  ultimately show ?thesis using that lps sup[OF dec] by blast
qed

lemma lists_Suc: "{xs. length xs = Suc n \<and> set xs \<subseteq> A} = (\<lambda>(a, xs). a # xs) ` (A \<times> {xs. length xs = n \<and> set xs \<subseteq> A})"
proof (intro set_eqI iffI)
  fix ys assume "ys \<in> {xs. length xs = Suc n \<and> set xs \<subseteq> A}"
  then show "ys \<in> (\<lambda>(a, xs). a # xs) ` (A \<times> {xs. length xs = n \<and> set xs \<subseteq> A})"
    by (cases ys) (auto intro: image_eqI[of _ _ "(hd ys, tl ys)"])
qed auto

lemma path_probs_sum:
  assumes "shaped net msk K prior" and "k + n \<le> K"
  shows "(\<Sum>xs | length xs = n \<and> set xs \<subseteq> {..<net_domains net}. path_prob net h msk K prior w k counts xs) = 1"
  using assms(2)
proof (induction n arbitrary: k counts)
  case (Suc n)
  have "k < K" using Suc.prems by simp
  then obtain raw row lps ent where sd: "step_dist net h msk K prior w k counts = Inr (raw, row, lps, ent)"
    and cat: "categorical row = Inr lps" "length row = net_domains net"
    using shaped_step[OF assms(1)] by metis
  let ?A = "{..<net_domains net}" and ?L = "{xs. length xs = n \<and> set xs \<subseteq> {..<net_domains net}}"
  have "(\<Sum>xs | length xs = Suc n \<and> set xs \<subseteq> ?A. path_prob net h msk K prior w k counts xs)
      = (\<Sum>(a, xs) \<in> ?A \<times> ?L. path_prob net h msk K prior w k counts (a # xs))"
    unfolding lists_Suc by (subst sum.reindex) (auto simp: inj_on_def split_def)
  also have "\<dots> = (\<Sum>a \<in> ?A. \<Sum>xs \<in> ?L. prob_of (lps ! a) * path_prob net h msk K prior w (Suc k) (counts[a := counts ! a + 1]) xs)"
    by (simp add: sum.cartesian_product sd)
  also have "\<dots> = (\<Sum>a \<in> ?A. prob_of (lps ! a))"
    using Suc.IH Suc.prems by (simp add: sum_distrib_left[symmetric])
  also have "\<dots> = 1" using categorical_sums[OF cat(1)] cat(2) by simp
  finally show ?case .
next
  case 0
  have "{xs. length xs = 0 \<and> set xs \<subseteq> {..<net_domains net}} = {[]}" by auto
  then show ?case by simp
qed

text \<open>A domain the mask rules out has probability zero.\<close>

lemma path_prob_masked:
  assumes "shaped net msk K prior"
  shows "k + length xs \<le> K \<Longrightarrow> j < length xs \<Longrightarrow> xs ! j < net_domains net \<Longrightarrow> \<not> msk ! (k + j) ! (xs ! j)
    \<Longrightarrow> path_prob net h msk K prior w k counts xs = 0"
proof (induction xs arbitrary: k counts j)
  case (Cons a xs)
  have "k < K" using Cons.prems(1) by simp
  then obtain raw row lps ent where sd: "step_dist net h msk K prior w k counts = Inr (raw, row, lps, ent)"
    and cat: "categorical row = Inr lps" "length row = net_domains net"
    and sup: "\<And>c. c \<in> set (support row) \<longleftrightarrow> c < net_domains net \<and> msk ! k ! c"
    using shaped_step[OF assms] by metis
  show ?case
  proof (cases j)
    case 0
    then have "row ! a = None" using Cons.prems(3,4) sup[of a] cat(2) by (auto simp: support_iff)
    then have "prob_of (lps ! a) = 0" using cat Cons.prems(3) 0 by (simp add: categorical_Inr prob_of_def)
    then show ?thesis by (simp add: sd)
  next
    case (Suc i)
    then have "path_prob net h msk K prior w (Suc k) (counts[a := counts ! a + 1]) xs = 0"
      using Cons.prems by (intro Cons.IH[of _ i]) auto
    then show ?thesis by simp
  qed
qed simp

lemma evaluate_path:
  assumes "shaped net msk K prior" and "length xs = K" and "k \<le> K"
  shows "\<exists>st' ls. fold_err (decode_step net h msk K prior w (\<lambda>j row. xs ! j)) [k..<K] st = Inr st'
    \<and> dt_lps st' = dt_lps st @ ls \<and> (\<Prod>lp \<leftarrow> ls. prob_of lp) = path_prob net h msk K prior w k (dt_counts st) (drop k xs)"
  using assms(3)
proof (induction "K - k" arbitrary: k st)
  case 0
  then show ?case using assms(2) by (intro exI[of _ st]) simp
next
  case (Suc d)
  then have k: "k < K" and ks: "[k..<K] = k # [Suc k..<K]" by (simp_all add: upt_conv_Cons)
  obtain raw row lps ent where sd: "step_dist net h msk K prior w k (dt_counts st) = Inr (raw, row, lps, ent)"
    using shaped_step[OF assms(1) k] by metis
  define u where "u = \<lparr>dt_counts = (dt_counts st)[xs ! k := dt_counts st ! (xs ! k) + 1], dt_partition = dt_partition st @ [xs ! k],
    dt_lps = dt_lps st @ [lps ! (xs ! k)], dt_raws = dt_raws st @ [raw], dt_entropy = dt_entropy st + ent\<rparr>"
  have step: "decode_step net h msk K prior w (\<lambda>j row. xs ! j) k st = Inr u" by (simp add: decode_step_def sd u_def Let_def)
  have "drop k xs = xs ! k # drop (Suc k) xs" using k assms(2) by (simp add: Cons_nth_drop_Suc)
  moreover have "\<exists>st' ls. fold_err (decode_step net h msk K prior w (\<lambda>j row. xs ! j)) [Suc k..<K] u = Inr st'
    \<and> dt_lps st' = dt_lps u @ ls \<and> (\<Prod>lp \<leftarrow> ls. prob_of lp) = path_prob net h msk K prior w (Suc k) (dt_counts u) (drop (Suc k) xs)"
    by (rule Suc.hyps(1)) (use Suc.hyps(2) k in auto)
  then obtain st' ls where "fold_err (decode_step net h msk K prior w (\<lambda>j row. xs ! j)) [Suc k..<K] u = Inr st'"
    "dt_lps st' = dt_lps u @ ls" "(\<Prod>lp \<leftarrow> ls. prob_of lp) = path_prob net h msk K prior w (Suc k) (dt_counts u) (drop (Suc k) xs)"
    by blast
  ultimately show ?case unfolding ks
    by (intro exI[of _ st'] exI[of _ "lps ! (xs ! k) # ls"]) (simp add: step sd u_def)
qed

lemma partition_prob_path:
  assumes "shaped net msk K prior" and "length xs = K" and "0 < K"
  shows "partition_prob net ob msk K prior w xs
    = path_prob net (net_encode net ob) msk K prior w 0 (replicate (net_domains net) 0) xs"
  using evaluate_path[OF assms(1,2), of 0 "net_encode net ob" w "decode_start net"] assms(3)
  by (auto simp: partition_prob_def evaluate_actions_def decode_along_def stacked_def decode_start_def)

text \<open>With matching shapes every decode returns, whatever it picks.\<close>

lemma decode_total:
  assumes "shaped net msk K prior" and "0 < K"
  shows "\<exists>st out. decode_along net h msk K prior w pick = Inr st \<and> stacked K st = Inr out"
proof -
  have "\<exists>st'. fold_err (decode_step net h msk K prior w pick) ks st = Inr st'" if "set ks \<subseteq> {..<K}" for ks st
    using that
  proof (induction ks arbitrary: st)
    case (Cons k ks)
    then have "k < K" by simp
    then obtain raw row lps ent where "step_dist net h msk K prior w k (dt_counts st) = Inr (raw, row, lps, ent)"
      using shaped_step[OF assms(1)] by metis
    then show ?case using Cons by (simp add: decode_step_def Let_def)
  qed simp
  then show ?thesis using assms(2) by (simp add: decode_along_def stacked_def lessThan_atLeast0)
qed

text \<open>
  C14: the sequential decoder is a policy. For every network, mask and advice of matching shapes, the
  products of its conditional probabilities form a probability distribution over the whole partitions
  of the chain; partitions outside the mask have probability zero.
\<close>

theorem autoreg_is_distribution:
  assumes "shaped net msk K prior" and "0 < K"
  shows "(\<Sum>xs | length xs = K \<and> set xs \<subseteq> {..<net_domains net}. partition_prob net ob msk K prior w xs) = 1
    \<and> (\<forall>xs. length xs = K \<longrightarrow> set xs \<subseteq> {..<net_domains net} \<longrightarrow> \<not> (\<forall>k < K. msk ! k ! (xs ! k)) \<longrightarrow>
         partition_prob net ob msk K prior w xs = 0)"
  using path_probs_sum[OF assms(1), of 0 K] partition_prob_path[OF assms(1) _ assms(2)]
    path_prob_masked[OF assms(1), of 0] by (auto simp: subset_iff)

section \<open>The most probable host\<close>

lemma candidate_iff:
  "c \<in> set (host_candidates net msk K cand) \<longleftrightarrow>
     c < net_domains net \<and> (\<forall>k < K. msk ! k ! c) \<and> (case cand of None \<Rightarrow> True | Some b \<Rightarrow> b ! c)"
  by (auto simp: host_candidates_def list_all_iff)

text \<open>On a candidate every step is in the support, so the score is the logarithm of the probability.\<close>

lemma candidate_score:
  assumes "shaped net msk K prior" and "\<And>k. k < K \<Longrightarrow> msk ! k ! c" and "c < net_domains net"
    and "decode_along net h msk K prior w (\<lambda>k row. c) = Inr st"
  shows "(\<Prod>lp \<leftarrow> dt_lps st. prob_of lp) = exp (score_of (dt_lps st))" and "dt_partition st = replicate K c"
proof -
  have "list_all (\<lambda>lp. lp \<noteq> None) (dt_lps st') \<and> dt_partition st' = replicate K' c"
    if "fold_err (decode_step net h msk K prior w (\<lambda>k row. c)) [0..<K'] (decode_start net) = Inr st'" "K' \<le> K" for st' K'
    using that
  proof (induction K' arbitrary: st')
    case 0
    then show ?case by (auto simp: decode_start_def)
  next
    case (Suc n)
    then obtain u where u: "fold_err (decode_step net h msk K prior w (\<lambda>k row. c)) [0..<n] (decode_start net) = Inr u"
      and st': "decode_step net h msk K prior w (\<lambda>k row. c) n u = Inr st'"
      by (auto simp: fold_err_append split: sum.splits)
    have n: "n < K" using Suc.prems by simp
    obtain raw row lps ent where sd: "step_dist net h msk K prior w n (dt_counts u) = Inr (raw, row, lps, ent)"
      and cat: "categorical row = Inr lps" and len: "length row = net_domains net"
      and sup: "\<And>d. d \<in> set (support row) \<longleftrightarrow> d < net_domains net \<and> msk ! n ! d"
      using shaped_step[OF assms(1) n] by metis
    have "row ! c \<noteq> None" using sup[of c] assms(2)[OF n] assms(3) by (simp add: support_iff)
    then have "lps ! c \<noteq> None" using cat len assms(3) by (simp add: categorical_Inr)
    then show ?case using Suc.IH[OF u] Suc.prems(2) st' sd
      by (auto simp: decode_step_def Let_def replicate_append_same[symmetric])
  qed
  from this[of K] assms(4) have all: "list_all (\<lambda>lp. lp \<noteq> None) (dt_lps st)" and "dt_partition st = replicate K c"
    by (auto simp: decode_along_def)
  then show "dt_partition st = replicate K c" by simp
  have "(\<Prod>lp \<leftarrow> ls. prob_of lp) = exp (score_of ls)" if "list_all (\<lambda>lp. lp \<noteq> None) ls" for ls
    using that by (induction ls) (auto simp: score_of_def prob_of_def exp_add)
  from this[OF all] show "(\<Prod>lp \<leftarrow> dt_lps st. prob_of lp) = exp (score_of (dt_lps st))" .
qed

lemma constant_choice:
  "decode_along net h msk K prior w (\<lambda>k row. replicate K c ! k) = decode_along net h msk K prior w (\<lambda>k row. c)"
proof -
  have "fold_err (decode_step net h msk K prior w (\<lambda>k row. replicate K c ! k)) ks st = fold_err (decode_step net h msk K prior w (\<lambda>k row. c)) ks st"
    if "set ks \<subseteq> {..<K}" for ks st
    using that by (induction ks arbitrary: st) (auto simp: decode_step_def split: sum.split)
  then show ?thesis by (simp add: decode_along_def lessThan_atLeast0)
qed

text \<open>The loop over the candidates keeps the first of the best.\<close>

definition first_best :: "(nat \<Rightarrow> real) \<Rightarrow> nat list \<Rightarrow> nat \<Rightarrow> bool" where
  "first_best val cs h \<longleftrightarrow> h \<in> set cs \<and> (\<forall>c \<in> set cs. val c \<le> val h \<and> (c < h \<longrightarrow> val c < val h))"

lemma try_hosts:
  assumes "\<And>c. c \<in> set cs \<Longrightarrow> decode_along net h msk K prior w (\<lambda>k row. c) = Inr (S c)"
    and "sorted cs" and "distinct cs"
  shows "cs \<noteq> [] \<Longrightarrow> \<exists>b. fold_err (try_host net h msk K prior w) cs None = Inr (Some (b, S b))
    \<and> first_best (\<lambda>c. score_of (dt_lps (S c))) cs b"
  using assms
proof (induction cs rule: rev_induct)
  case (snoc c cs)
  have c: "decode_along net h msk K prior w (\<lambda>k row. c) = Inr (S c)" using snoc.prems(2) by simp
  show ?case
  proof (cases "cs = []")
    case True
    then show ?thesis by (simp add: try_host_def c first_best_def)
  next
    case False
    then obtain b where b: "fold_err (try_host net h msk K prior w) cs None = Inr (Some (b, S b))"
      and best: "first_best (\<lambda>c. score_of (dt_lps (S c))) cs b"
      using snoc.IH[OF False] snoc.prems by (auto simp: sorted_append)
    have later: "d < c" if "d \<in> set cs" for d
      using that snoc.prems(3,4) by (auto simp: sorted_append order.strict_iff_order)
    let ?val = "\<lambda>c. score_of (dt_lps (S c))"
    have step: "fold_err (try_host net h msk K prior w) (cs @ [c]) None = try_host net h msk K prior w c (Some (b, S b))"
      by (auto simp: fold_err_append b split: sum.split)
    have in_cs: "b \<in> set cs" and le: "\<And>d. d \<in> set cs \<Longrightarrow> ?val d \<le> ?val b"
      and lt: "\<And>d. d \<in> set cs \<Longrightarrow> d < b \<Longrightarrow> ?val d < ?val b"
      using best by (auto simp: first_best_def)
    show ?thesis
    proof (cases "?val b < ?val c")
      case True
      have "?val d < ?val c" if "d \<in> set cs" for d using le[OF that] True by (rule le_less_trans)
      then have "first_best ?val (cs @ [c]) c" by (auto simp: first_best_def less_imp_le)
      then show ?thesis unfolding step using True by (simp add: try_host_def c)
    next
      case F: False
      have "first_best ?val (cs @ [c]) b"
        using in_cs le lt F later[OF in_cs] by (auto simp: first_best_def)
      then show ?thesis unfolding step using F by (simp add: try_host_def c)
    qed
  qed
qed simp

lemma candidates_sorted: "sorted (host_candidates net msk K cand)" "distinct (host_candidates net msk K cand)"
  by (simp_all add: host_candidates_def sorted_wrt_filter)

text \<open>
  C15: the joint host decode. Some domain being allowed for the whole chain, the decode returns the most
  probable colocated partition under the policy's own distribution over partitions, the least such
  domain on a tie, with the log-probabilities the policy-gradient update recomputes for it; it gives
  way to the ordinary decode exactly when no domain is allowed for every VNF.
\<close>

theorem joint_host_most_probable:
  assumes "shaped net msk K prior" and "0 < K"
  shows "case joint_host_decode net ob msk K prior w cand of
      Inl e \<Rightarrow> False
    | Inr None \<Rightarrow> host_candidates net msk K cand = []
    | Inr (Some (out, host, n)) \<Rightarrow>
        n = length (host_candidates net msk K cand) \<and> do_partition out = replicate K host
        \<and> evaluate_actions net ob msk (replicate K host) K prior w = Inr out
        \<and> first_best (\<lambda>c. partition_prob net ob msk K prior w (replicate K c)) (host_candidates net msk K cand) host"
proof (cases "host_candidates net msk K cand = []")
  case True
  then show ?thesis by (simp add: joint_host_decode_def)
next
  case False
  let ?h = "net_encode net ob" and ?cs = "host_candidates net msk K cand"
  have "\<exists>st. decode_along net ?h msk K prior w (\<lambda>k row. c) = Inr st" for c
    using evaluate_path[OF assms(1), of "replicate K c" 0 ?h w "decode_start net"]
    unfolding constant_choice[symmetric] by (auto simp: decode_along_def)
  then obtain S where S: "\<And>c. decode_along net ?h msk K prior w (\<lambda>k row. c) = Inr (S c)" by metis
  obtain b where b: "fold_err (try_host net ?h msk K prior w) ?cs None = Inr (Some (b, S b))"
    and best: "first_best (\<lambda>c. score_of (dt_lps (S c))) ?cs b"
    using try_hosts[OF S candidates_sorted False] by blast
  have st: "stacked K (S c) = Inr \<lparr>do_partition = dt_partition (S c), do_log_probs = dt_lps (S c), do_logits = dt_raws (S c),
      do_entropy = dt_entropy (S c) / real K\<rparr>" for c
    using assms(2) by (simp add: stacked_def)
  have ev: "evaluate_actions net ob msk (replicate K c) K prior w = stacked K (S c)" for c
    by (simp add: evaluate_actions_def constant_choice S)
  have cand: "(\<Prod>lp \<leftarrow> dt_lps (S c). prob_of lp) = exp (score_of (dt_lps (S c)))" "dt_partition (S c) = replicate K c" if "c \<in> set ?cs" for c
    using candidate_score[OF assms(1) _ _ S, of c] that by (simp_all add: candidate_iff)
  have prob: "partition_prob net ob msk K prior w (replicate K c) = exp (score_of (dt_lps (S c)))" if "c \<in> set ?cs" for c
    by (simp add: partition_prob_def ev st cand(1)[OF that])
  have "first_best (\<lambda>c. partition_prob net ob msk K prior w (replicate K c)) ?cs b"
    using best prob by (auto simp: first_best_def)
  moreover have "b \<in> set ?cs" using best by (simp add: first_best_def)
  ultimately show ?thesis
    using False cand(2)[of b] by (simp add: joint_host_decode_def b st ev)
qed

section \<open>The decoder in the coordinator\<close>

text \<open>
  The policy the coordinator calls. There is no actor head, so the mode \<open>sequential_argmax\<close> is left out
  of what follows.
\<close>

definition autoreg_policy :: "'h network \<Rightarrow> real \<Rightarrow> (nat \<Rightarrow> logit list \<Rightarrow> nat) \<Rightarrow> mdo_policy" where
  "autoreg_policy net w draw =
     \<lparr>pol_decode = (\<lambda>ob msk K det prior. map_sum id (\<lambda>out. map int (do_partition out))
        (autoreg_forward net draw ob msk K det prior (case prior of None \<Rightarrow> 0 | Some _ \<Rightarrow> w))),
      pol_joint = Some (\<lambda>ob msk K prior. map_sum id (map_option (\<lambda>(out, host, n). (map int (do_partition out), int host, n)))
        (joint_host_decode net ob msk K (Some prior) w None)),
      pol_logits = (\<lambda>ob. [])\<rparr>"

definition legal_draws :: "(nat \<Rightarrow> logit list \<Rightarrow> nat) \<Rightarrow> bool" where
  "legal_draws draw \<longleftrightarrow> (\<forall>k row. support row \<noteq> [] \<longrightarrow> draw k row \<in> set (support row))"

definition in_mask :: "bool list list \<Rightarrow> nat \<Rightarrow> nat list \<Rightarrow> bool" where
  "in_mask msk K xs \<longleftrightarrow> length xs = K \<and> (\<forall>k < K. xs ! k < length (msk ! k) \<and> msk ! k ! (xs ! k))"

lemma forward_in_mask:
  assumes "autoreg_forward net draw ob msk K det prior w = Inr out" and "legal_draws draw"
  shows "in_mask msk K (do_partition out)"
proof -
  define pick where "pick = (if det then \<lambda>k. argmax_row else draw)"
  have legal: "pick k row \<in> set (support row)" if "support row \<noteq> []" for k row
    using that assms(2) argmax_row_in by (auto simp: pick_def legal_draws_def)
  have run: "in_mask msk n (dt_partition st)"
    if "fold_err (decode_step net h msk K prior w pick) [0..<n] (decode_start net) = Inr st" for n st h
    using that
  proof (induction n arbitrary: st)
    case 0
    then show ?case by (auto simp: decode_start_def in_mask_def)
  next
    case (Suc n)
    then obtain u where u: "fold_err (decode_step net h msk K prior w pick) [0..<n] (decode_start net) = Inr u"
      and "decode_step net h msk K prior w pick n u = Inr st"
      by (auto simp: fold_err_append split: sum.splits)
    then obtain raw row lps ent where sd: "step_dist net h msk K prior w n (dt_counts u) = Inr (raw, row, lps, ent)"
      and st: "dt_partition st = dt_partition u @ [pick n row]"
      by (elim decode_stepE)
    note row = step_distD(2,3)[OF sd]
    have "pick n row < length (msk ! n) \<and> msk ! n ! pick n row"
      using legal[OF row(2), of n] masked_support unfolding row(1) by blast
    then show ?case using Suc.IH[OF u] by (auto simp: st in_mask_def nth_append less_Suc_eq)
  qed
  from assms(1) show ?thesis
    by (auto simp: autoreg_forward_def decode_along_def stacked_def pick_def[symmetric] dest!: run split: sum.splits if_splits)
qed

lemma try_host_in: "try_host net h msk K prior w c best = Inr r \<Longrightarrow> r = best \<or> (\<exists>st. r = Some (c, st))"
  by (auto simp: try_host_def split: sum.splits option.splits if_splits)

lemma try_hosts_in:
  "fold_err (try_host net h msk K prior w) cs best = Inr r \<Longrightarrow> r = best \<or> (\<exists>c st. r = Some (c, st) \<and> c \<in> set cs)"
proof (induction cs arbitrary: best)
  case (Cons c cs)
  then obtain u where "try_host net h msk K prior w c best = Inr u" "fold_err (try_host net h msk K prior w) cs u = Inr r"
    by (auto split: sum.splits)
  then show ?case using Cons.IH try_host_in by fastforce
qed simp

lemma joint_in_mask:
  assumes "joint_host_decode net ob msk K prior w None = Inr (Some (out, host, n))"
    and "\<And>k. k < K \<Longrightarrow> length (msk ! k) = net_domains net"
  shows "in_mask msk K (do_partition out)"
proof -
  let ?cs = "host_candidates net msk K None"
  let ?run = "fold_err (try_host net (net_encode net ob) msk K prior w) ?cs None"
  have "?cs \<noteq> []" using assms(1) by (auto simp: joint_host_decode_def)
  then obtain b st where run: "?run = Inr (Some (b, st))"
    using assms(1) by (auto simp: joint_host_decode_def Let_def split: sum.splits option.splits)
  then have out: "do_partition out = replicate K host" and "b = host"
    using assms(1) \<open>?cs \<noteq> []\<close> by (auto simp: joint_host_decode_def Let_def stacked_def split: if_splits)
  with try_hosts_in[OF run] have "host \<in> set ?cs" by auto
  then show ?thesis using assms(2) by (auto simp: in_mask_def out candidate_iff)
qed

lemma collect_index:
  assumes "collect (py_index xs) (map int is) = Inr ys" and "\<forall>i \<in> set is. i < length xs"
  shows "ys = map ((!) xs) is"
  using assms by (induction "is" arbitrary: ys) (auto split: sum.splits)

text \<open>Where a VNF may be sent: the domain holds its required tier, or one of its permitted nodes.\<close>

definition allowed_domain :: "bool \<Rightarrow> substrate \<Rightarrow> slice_request \<Rightarrow> plan_summary \<Rightarrow> nat \<Rightarrow> domain_summary \<Rightarrow> bool" where
  "allowed_domain node_based S req plan k s \<longleftrightarrow>
     (if node_based then k < length (vnfs req)
        \<and> (\<exists>n \<in> set (permitted_nodes (vnfs req ! k)). n \<in> set (nodes_in_domain S (ds_domain s)))
      else ps_tiers plan ! k \<in> set (ds_tiers s))"

lemma mask_shape:
  assumes "build_tier_masks nb plan ss permitted g = Inr msk" and "k < num_vnfs plan"
  shows "length (msk ! k) = length ss"
  using assms by (auto simp: build_tier_masks_def split: if_splits)

lemma mask_allows:
  assumes "build_tier_masks nb plan ss (map permitted_nodes (vnfs req)) S = Inr msk" and "k < num_vnfs plan" and "m < length ss" and "msk ! k ! m"
  shows "allowed_domain nb S req plan k (ss ! m)"
  using assms by (force simp: build_tier_masks_def allowed_domain_def list_ex_iff split: if_splits)

lemma autoreg_samples_in_mask:
  assumes "sample_partition joint (Some (autoreg_policy net w draw)) rnd ob msk mode c2d js = Inr (p, js')"
    and "mode \<noteq> ''follow_prior''" and "mode \<noteq> ''random''" and "mode \<noteq> ''sequential_argmax''" and "legal_draws draw"
    and "\<And>k. k < num_vnfs (ob_plan ob) \<Longrightarrow> length (msk ! k) = net_domains net"
  shows "\<exists>xs. p = map int xs \<and> in_mask msk (num_vnfs (ob_plan ob)) xs"
proof -
  have decoded: "\<exists>xs. p = map int xs \<and> in_mask msk (num_vnfs (ob_plan ob)) xs"
    if "map_sum id (\<lambda>p. (p, jz)) (pol_decode (autoreg_policy net w draw) ob msk (num_vnfs (ob_plan ob)) det prior) = Inr (p, js')" for jz det prior
  proof (cases "autoreg_forward net draw ob msk (num_vnfs (ob_plan ob)) det prior (case prior of None \<Rightarrow> 0 | Some _ \<Rightarrow> w)")
    case (Inr out)
    then show ?thesis using that forward_in_mask[OF Inr assms(5)] by (auto simp: autoreg_policy_def)
  qed (use that in \<open>simp add: autoreg_policy_def\<close>)
  show ?thesis
  proof (cases "mode = ''advised''")
    case False
    then show ?thesis using assms(1-4) by (auto simp: sample_partition_def Let_def intro: decoded)
  next
    case True
    let ?prior = "prior_logits (num_vnfs (ob_plan ob)) (length c2d) c2d (ps_suggested (ob_plan ob))"
    from True assms(1) have adv: "advised_decode joint (autoreg_policy net w draw) ob msk c2d js = Inr (p, js')"
      by (simp add: sample_partition_def Let_def)
    let ?j = "joint_host_decode net ob msk (num_vnfs (ob_plan ob)) (Some ?prior) w None"
    have pj: "pol_joint (autoreg_policy net w draw) = Some (\<lambda>ob msk K prior.
        map_sum id (map_option (\<lambda>(out, host, n). (map int (do_partition out), int host, n))) (joint_host_decode net ob msk K (Some prior) w None))"
      by (simp add: autoreg_policy_def)
    consider (off) "\<not> joint" | (fallback) "joint" "?j = Inr None" | (host) "joint" "?j \<noteq> Inr None" by blast
    then show ?thesis
    proof cases
      case off
      then show ?thesis using adv by (auto simp: advised_decode_def Let_def intro: decoded)
    next
      case fallback
      then show ?thesis using adv by (simp add: advised_decode_def Let_def pj) (rule decoded)
    next
      case host
      then obtain out h n where j: "?j = Inr (Some (out, h, n))"
        using adv by (cases ?j) (auto simp: advised_decode_def Let_def pj)
      then have "p = map int (do_partition out)" using adv host by (auto simp: advised_decode_def Let_def pj)
      then show ?thesis using joint_in_mask[OF j assms(6)] by auto
    qed
  qed
qed

text \<open>
  C13: the decoder inside the coordinator. Whatever the weights, in every mode that samples the
  sequential policy (plain, deterministic, advised, joint host decode included) a decision the
  coordinator reaches without its guard gives every VNF of the plan a domain of the observation that
  the action mask allows: one that holds the required tier, or with the node-based mask one of the
  nodes the VNF is permitted on.
\<close>

theorem policy_decides_in_mask:
  assumes "decide sw (Some (autoreg_policy net w draw)) rnd S req plan mode ct = Inr \<delta>" and "\<not> sw_guard sw"
    and "mode \<noteq> ''follow_prior''" and "mode \<noteq> ''random''" and "mode \<noteq> ''sequential_argmax''"
    and "legal_draws draw" and "net_domains net = length (build_domain_summaries S)"
  shows "length (de_partition \<delta>) = num_vnfs plan
    \<and> (\<forall>k < num_vnfs plan. \<exists>s \<in> set (build_domain_summaries S).
         de_partition \<delta> ! k = ds_domain s \<and> allowed_domain (sw_node_mask sw) S req plan k s)"
proof -
  let ?ob = "build_mdo_observation S plan (qos_of req)" and ?ss = "build_domain_summaries S"
  have ob: "ob_domains ?ob = ?ss" "ob_plan ?ob = plan" by (simp_all add: build_mdo_observation_def)
  from assms(1) obtain msk where msk: "build_tier_masks (sw_node_mask sw) plan ?ss (map permitted_nodes (vnfs req)) S = Inr msk"
    by (auto simp: decide_def Let_def ob split: sum.splits)
  with assms(1) obtain p js where p: "sample_partition (sw_joint sw) (Some (autoreg_policy net w draw)) rnd ?ob msk mode (map ds_domain ?ss) (ct_joint ct) = Inr (p, js)"
    by (auto simp: decide_def Let_def ob split: sum.splits)
  with msk assms(1,2) obtain part where part: "collect (py_index (map ds_domain ?ss)) p = Inr part" "de_partition \<delta> = part"
    by (auto simp: decide_def Let_def ob apply_guard_def split: sum.splits)
  have rows: "length (msk ! k) = net_domains net" if "k < num_vnfs plan" for k
    using mask_shape[OF msk that] assms(7) by simp
  from autoreg_samples_in_mask[OF p assms(3-6)] rows obtain xs where xs: "p = map int xs" "in_mask msk (num_vnfs plan) xs"
    unfolding ob by blast
  have bound: "xs ! k < length ?ss" if "k < num_vnfs plan" for k
    using xs(2) that mask_shape[OF msk that] by (auto simp: in_mask_def)
  then have "\<forall>i \<in> set xs. i < length (map ds_domain ?ss)"
    using xs(2) by (auto simp: in_mask_def in_set_conv_nth)
  from collect_index[OF part(1)[unfolded xs(1)] this] have "part = map ((!) (map ds_domain ?ss)) xs" .
  moreover have "allowed_domain (sw_node_mask sw) S req plan k (?ss ! (xs ! k))" if "k < num_vnfs plan" for k
    using mask_allows[OF msk that bound[OF that]] xs(2) that by (simp add: in_mask_def)
  ultimately show ?thesis using xs(2) bound by (auto simp: part(2) in_mask_def intro!: bexI[of _ "?ss ! (xs ! _)"])
qed

section \<open>Witnesses\<close>

text \<open>A network over two domains that prefers the first one and then repeats itself.\<close>

definition ex_net :: "unit network" where
  "ex_net = \<lparr>net_encode = (\<lambda>_. ()), net_decoder = (\<lambda>_ cs p. map (\<lambda>i. if i = 0 then 1 else 0) [0..<2]), net_domains = 2\<rparr>"

definition ex_mask :: "bool list list" where
  "ex_mask = [[True, True], [True, True]]"

lemma ex_shaped: "shaped ex_net ex_mask 2 None"
  by (simp add: shaped_def ex_net_def ex_mask_def)

definition first_draw :: "nat \<Rightarrow> logit list \<Rightarrow> nat" where
  "first_draw k row = (case support row of [] \<Rightarrow> 0 | i # _ \<Rightarrow> i)"

lemma first_draw_legal: "legal_draws first_draw"
  by (auto simp: legal_draws_def first_draw_def split: list.split)

definition ex_obs :: mdo_observation where
  "ex_obs = \<lparr>ob_domains = [], ob_links = [], ob_plan = \<lparr>ps_vnf_ids = [''a'', ''b''], ps_tiers = [Edge, Edge], ps_suggested = [0, 0],
     ps_cpu = [], ps_ram = [], ps_vcrs = [], ps_bw = []\<rparr>, ob_qos = \<lparr>max_e2e_delay = 1, min_throughput = 1\<rparr>\<rparr>"

theorem rollout_recomputed_witness:
  "\<exists>out. autoreg_forward ex_net first_draw ex_obs ex_mask 2 False None 0 = Inr out
     \<and> evaluate_actions ex_net ex_obs ex_mask (do_partition out) 2 None 0 = Inr out"
proof -
  obtain out where "autoreg_forward ex_net first_draw ex_obs ex_mask 2 False None 0 = Inr out"
    using decode_total[OF ex_shaped, of "()" 0 first_draw] by (auto simp: autoreg_forward_def)
  with rollout_recomputed[OF this] show ?thesis by blast
qed

theorem autoreg_is_distribution_witness:
  "(\<Sum>xs | length xs = 2 \<and> set xs \<subseteq> {..<2}. partition_prob ex_net ex_obs ex_mask 2 None 0 xs) = 1"
  using autoreg_is_distribution[OF ex_shaped, of ex_obs 0] by (simp add: ex_net_def)

theorem joint_host_most_probable_witness:
  "\<exists>out host. joint_host_decode ex_net ex_obs ex_mask 2 None 0 None = Inr (Some (out, host, 2)) \<and> do_partition out = replicate 2 host"
proof -
  have "host_candidates ex_net ex_mask 2 None = [0, 1]"
    by (simp add: host_candidates_def ex_net_def ex_mask_def numeral_2_eq_2 upt_rec)
  with joint_host_most_probable[OF ex_shaped, where ob = ex_obs and w = 0 and cand = None] show ?thesis
    by (auto split: sum.splits option.splits)
qed

definition ex_edge_plan :: plan_summary where
  "ex_edge_plan = \<lparr>ps_vnf_ids = [''u'', ''v''], ps_tiers = [Edge, Edge], ps_suggested = [0, 0],
     ps_cpu = [5, 5], ps_ram = [3, 3], ps_vcrs = [1, 1], ps_bw = [4]\<rparr>"

theorem policy_decides_in_mask_witness:
  "\<exists>\<delta>. decide \<lparr>sw_guard = False, sw_joint = False, sw_node_mask = False, sw_chain = None\<rparr> (Some (autoreg_policy ex_net 2 first_draw))
      (\<lambda>_ _. 0) ex_sub ex_req ex_edge_plan ''deterministic'' \<lparr>ct_guard = reset_guard_stats, ct_joint = reset_joint_host_stats\<rparr> = Inr \<delta>
    \<and> length (de_partition \<delta>) = 2"
proof -
  let ?ss = "build_domain_summaries ex_sub" and ?ob = "build_mdo_observation ex_sub ex_edge_plan (qos_of ex_req)"
  have ob: "ob_domains ?ob = ?ss" "ob_plan ?ob = ex_edge_plan" by (simp_all add: build_mdo_observation_def)
  have tiers: "map ds_tiers ?ss = [[Edge], [CentralCloud]]" by code_simp
  then have len: "length ?ss = 2" by (metis length_map length_Cons list.size(3) numeral_2_eq_2)
  let ?msk = "[[True, False], [True, False]]"
  have "map (\<lambda>s. Edge \<in> set (ds_tiers s)) ?ss = map (\<lambda>ts. Edge \<in> set ts) (map ds_tiers ?ss)" by (simp add: comp_def)
  then have msk: "build_tier_masks False ex_edge_plan ?ss (map permitted_nodes (vnfs ex_req)) ex_sub = Inr ?msk"
    unfolding tiers by (simp add: build_tier_masks_def ex_edge_plan_def num_vnfs_def numeral_2_eq_2 upt_rec)
  have "shaped ex_net ?msk 2 None" by (simp add: shaped_def ex_net_def)
  then obtain out where out: "autoreg_forward ex_net first_draw ?ob ?msk 2 True None 0 = Inr out"
    using decode_total[of ex_net ?msk 2 None "()" 0 "\<lambda>k. argmax_row"] by (auto simp: autoreg_forward_def)
  have im: "in_mask ?msk 2 (do_partition out)" by (rule forward_in_mask[OF out first_draw_legal])
  have "do_partition out ! k = 0" if "k < 2" for k
  proof -
    have "do_partition out ! k < 2" "[True, False] ! (do_partition out ! k)"
      using im that by (auto simp: in_mask_def less_2_cases_iff)
    then show ?thesis by (auto simp: less_2_cases_iff)
  qed
  then have "do_partition out ! 0 = 0" "do_partition out ! 1 = 0" by simp_all
  moreover have "length (do_partition out) = 2" using im by (simp add: in_mask_def)
  ultimately have part: "do_partition out = [0, 0]" by (cases "do_partition out" rule: list.exhaust) (auto simp: numeral_2_eq_2 length_Suc_conv)
  have K: "num_vnfs ex_edge_plan = 2" by (simp add: ex_edge_plan_def num_vnfs_def)
  have sp: "sample_partition False (Some (autoreg_policy ex_net 2 first_draw)) (\<lambda>_ _. 0) ?ob ?msk ''deterministic'' (map ds_domain ?ss) js
      = Inr ([0, 0], js)" for js
    using out by (simp add: sample_partition_def ob K autoreg_policy_def part)
  obtain ys where ys: "collect (py_index (map ds_domain ?ss)) [0, 0] = Inr ys" using len by (simp add: py_index_def)
  have "\<exists>\<delta>. decide \<lparr>sw_guard = False, sw_joint = False, sw_node_mask = False, sw_chain = None\<rparr> (Some (autoreg_policy ex_net 2 first_draw))
      (\<lambda>_ _. 0) ex_sub ex_req ex_edge_plan ''deterministic'' \<lparr>ct_guard = reset_guard_stats, ct_joint = reset_joint_host_stats\<rparr> = Inr \<delta>"
    unfolding decide_def Let_def ob mdo_switches.simps mdo_counters.simps msk sum.case sp prod.case ys apply_guard_def by simp
  then obtain \<delta> where d: "decide \<lparr>sw_guard = False, sw_joint = False, sw_node_mask = False, sw_chain = None\<rparr> (Some (autoreg_policy ex_net 2 first_draw))
      (\<lambda>_ _. 0) ex_sub ex_req ex_edge_plan ''deterministic'' \<lparr>ct_guard = reset_guard_stats, ct_joint = reset_joint_host_stats\<rparr> = Inr \<delta>" ..
  have "net_domains ex_net = length ?ss" by (simp add: ex_net_def len)
  from policy_decides_in_mask[OF d _ _ _ _ first_draw_legal this] show ?thesis using d K by auto
qed

end
