(* ===== verification/Actor_PPO.thy ===== *)
theory Actor_PPO
  imports MDO_Policy
begin

text \<open>
  The sequential update of the domain actors (\<open>src/src/orion/training/actor_ppo.py\<close> and
  \<open>DomainPolicy.evaluate_step\<close> of \<open>src/src/orion/actors/policy.py\<close>). Parameters: the scores of the network
  under given weights, one step of the optimiser (weights and optimiser state are one value, the loss is
  handed over as a function of the weights) and the permutations of \<open>torch.randperm\<close>.

  Theorems: on replayable records the update never raises, takes a bounded number of optimiser steps and
  leaves every other actor alone; the correction factor of an arrival stays between powers of the clipping
  bounds, so it never changes the sign of an advantage.
\<close>

section \<open>Records and configuration\<close>

record 'o actor_step =
  st_obs :: 'o
  st_mask :: "bool list"
  st_action :: int
  st_log_prob :: real

record 'o fragment_transition =
  ft_request :: string
  ft_steps :: "'o actor_step list"

record actor_ppo_config =
  ac_epochs :: nat
  ac_minibatch :: int
  ac_clip :: real
  ac_entropy :: real
  ac_target_kl :: "real option"
  ac_normalize :: bool

definition default_actor_ppo :: actor_ppo_config where
  "default_actor_ppo = \<lparr>ac_epochs = 4, ac_minibatch = 32, ac_clip = 2 / 10, ac_entropy = 1 / 100,
     ac_target_kl = Some (2 / 100), ac_normalize = True\<rparr>"

record actor_update_stats =
  us_steps :: nat
  us_clip_frac :: real
  us_approx_kl :: real
  us_entropy :: real
  us_null_rate :: real
  us_fragments :: nat
  us_early_stops :: nat
  us_per_agent_kl :: "(int, real) dict"
  us_fragments_by_domain :: "(int, nat) dict"
  us_untrained :: "int list"

definition no_update_stats :: actor_update_stats where
  "no_update_stats = \<lparr>us_steps = 0, us_clip_frac = 0, us_approx_kl = 0, us_entropy = 0, us_null_rate = 0, us_fragments = 0,
     us_early_stops = 0, us_per_agent_kl = [], us_fragments_by_domain = [], us_untrained = []\<rparr>"

section \<open>Replaying a recorded step\<close>

definition null_action :: int where
  "null_action = - 1"

text \<open>The scores are those of the nodes and, last, of the refusal, which is open only when no node is.\<close>

definition encode_and_score :: "('p \<Rightarrow> 'o \<Rightarrow> real list) \<Rightarrow> 'p \<Rightarrow> 'o actor_step \<Rightarrow> logit list" where
  "encode_and_score net p r = masked_logits (st_mask r @ [\<not> list_ex (\<lambda>b. b) (st_mask r)]) (net p (st_obs r))"

definition action_slot :: "'o actor_step \<Rightarrow> int" where
  "action_slot r = (if st_action r = null_action then int (length (st_mask r)) else st_action r)"

text \<open>An action outside the slots is refused by the distribution.\<close>

definition evaluate_step :: "('p \<Rightarrow> 'o \<Rightarrow> real list) \<Rightarrow> 'p \<Rightarrow> 'o actor_step \<Rightarrow> py_error + real \<times> real" where
  "evaluate_step net p r =
     (case categorical (encode_and_score net p r) of
        Inl e \<Rightarrow> Inl e
      | Inr lps \<Rightarrow>
          if action_slot r < 0 \<or> int (length lps) \<le> action_slot r then Inl ValueError
          else Inr (the (lps ! nat (action_slot r)), cat_entropy lps))"

definition fragment_new_logprob :: "('p \<Rightarrow> 'o \<Rightarrow> real list) \<Rightarrow> 'p \<Rightarrow> 'o actor_step list \<Rightarrow> py_error + real \<times> real \<times> nat" where
  "fragment_new_logprob net p steps =
     fold_err (\<lambda>r (lp, ent, nulls).
         map_sum id (\<lambda>(l, e). (lp + l, ent + e, if st_action r = null_action then nulls + 1 else nulls)) (evaluate_step net p r))
       steps (0, 0, 0)"

section \<open>One minibatch\<close>

type_synonym 'o replay = "real \<times> 'o actor_step list \<times> string"

definition batch_mean :: "real list \<Rightarrow> real" where
  "batch_mean xs = sum_list xs / real (length xs)"

definition batch_std :: "real list \<Rightarrow> real" where
  "batch_std xs = sqrt (sum_list (map (\<lambda>x. (x - batch_mean xs)\<^sup>2) xs) / (real (length xs) - 1))"

definition tiny :: real where
  "tiny = 1 / 10 ^ 8"

definition batch_advantages :: "actor_ppo_config \<Rightarrow> (string, real) dict \<Rightarrow> (string, real) dict \<Rightarrow> 'o replay list \<Rightarrow> real list" where
  "batch_advantages cfg corr adv batch =
     (let xs = map (\<lambda>(old, steps, rid). get_default corr rid 1 * get_default adv rid 0) batch in
      if ac_normalize cfg \<and> 1 < length xs \<and> tiny < batch_std xs
      then map (\<lambda>x. (x - batch_mean xs) / (batch_std xs + tiny)) xs else xs)"

definition clamp :: "real \<Rightarrow> real \<Rightarrow> real \<Rightarrow> real" where
  "clamp lo hi x = min hi (max lo x)"

definition surrogate :: "real \<Rightarrow> real \<Rightarrow> real \<Rightarrow> real" where
  "surrogate eps ratio adv = - min (ratio * adv) (clamp (1 - eps) (1 + eps) ratio * adv)"

record telemetry =
  te_clipped :: nat
  te_ratios :: nat
  te_entropy :: real
  te_steps :: nat
  te_nulls :: nat

definition replay_one :: "('p \<Rightarrow> 'o \<Rightarrow> real list) \<Rightarrow> actor_ppo_config \<Rightarrow> 'p \<Rightarrow> real \<times> 'o replay
    \<Rightarrow> real \<times> real \<times> telemetry \<Rightarrow> py_error + real \<times> real \<times> telemetry" where
  "replay_one net cfg p = (\<lambda>(adv, old, steps, rid) (loss, kl, te).
     map_sum id (\<lambda>(new, ent, nulls).
         (let ratio = exp (new - old) in
          (loss + surrogate (ac_clip cfg) ratio adv - ac_entropy cfg * (ent / real (max 1 (length steps))),
           kl + ((ratio - 1) - (new - old)),
           te\<lparr>te_clipped := te_clipped te + (if \<bar>ratio - 1\<bar> > ac_clip cfg then 1 else 0), te_ratios := te_ratios te + 1,
              te_entropy := te_entropy te + ent, te_steps := te_steps te + length steps, te_nulls := te_nulls te + nulls\<rparr>)))
       (fragment_new_logprob net p steps))"

definition replay_batch :: "('p \<Rightarrow> 'o \<Rightarrow> real list) \<Rightarrow> actor_ppo_config \<Rightarrow> real list \<Rightarrow> 'o replay list \<Rightarrow> telemetry \<Rightarrow> 'p
    \<Rightarrow> py_error + real \<times> real \<times> telemetry" where
  "replay_batch net cfg advs batch te p = fold_err (replay_one net cfg p) (zip advs batch) (0, 0, te)"

text \<open>The loss of a minibatch as a function of the weights.\<close>

definition batch_loss :: "('p \<Rightarrow> 'o \<Rightarrow> real list) \<Rightarrow> actor_ppo_config \<Rightarrow> real list \<Rightarrow> 'o replay list \<Rightarrow> 'p \<Rightarrow> py_error + real" where
  "batch_loss net cfg advs batch p =
     map_sum id (\<lambda>(loss, kl, te). loss / real (max 1 (length batch)))
       (replay_batch net cfg advs batch \<lparr>te_clipped = 0, te_ratios = 0, te_entropy = 0, te_steps = 0, te_nulls = 0\<rparr> p)"

section \<open>One agent\<close>

record 'p agent_state =
  ag_policy :: 'p
  ag_tel :: telemetry
  ag_updates :: nat
  ag_kl :: real
  ag_stopped :: bool
  ag_stops :: nat
  ag_calls :: nat

definition agent_batch :: "('p \<Rightarrow> 'o \<Rightarrow> real list) \<Rightarrow> ('p \<Rightarrow> ('p \<Rightarrow> py_error + real) \<Rightarrow> 'p) \<Rightarrow> actor_ppo_config
    \<Rightarrow> (string, real) dict \<Rightarrow> (string, real) dict \<Rightarrow> 'o replay list \<Rightarrow> 'p agent_state \<Rightarrow> py_error + 'p agent_state" where
  "agent_batch net opt cfg corr adv batch st =
     (if ag_stopped st then Inr st
      else
        let advs = batch_advantages cfg corr adv batch in
        map_sum id (\<lambda>(loss, kl, te).
            (let k = kl / real (max 1 (length batch));
                 stop = (case ac_target_kl cfg of None \<Rightarrow> False | Some t \<Rightarrow> k > t)
             in st\<lparr>ag_policy := opt (ag_policy st) (batch_loss net cfg advs batch), ag_tel := te, ag_updates := ag_updates st + 1,
                   ag_kl := k, ag_stopped := stop, ag_stops := ag_stops st + (if stop then 1 else 0)\<rparr>))
          (replay_batch net cfg advs batch (ag_tel st) (ag_policy st)))"

definition minibatch_of :: "actor_ppo_config \<Rightarrow> nat \<Rightarrow> nat" where
  "minibatch_of cfg n = (if 0 < ac_minibatch cfg then nat (ac_minibatch cfg) else n)"

definition agent_epoch :: "('p \<Rightarrow> 'o \<Rightarrow> real list) \<Rightarrow> ('p \<Rightarrow> ('p \<Rightarrow> py_error + real) \<Rightarrow> 'p) \<Rightarrow> (nat \<Rightarrow> nat \<Rightarrow> nat list)
    \<Rightarrow> actor_ppo_config \<Rightarrow> (string, real) dict \<Rightarrow> (string, real) dict \<Rightarrow> 'o replay list \<Rightarrow> 'p agent_state
    \<Rightarrow> py_error + 'p agent_state" where
  "agent_epoch net opt perm cfg corr adv frags st =
     (if ag_stopped st then Inr st
      else fold_err (\<lambda>ix. agent_batch net opt cfg corr adv (map ((!) frags) ix))
             (chunks (minibatch_of cfg (length frags)) (perm (ag_calls st) (length frags))) (st\<lparr>ag_calls := ag_calls st + 1\<rparr>))"

text \<open>After an agent's epochs its new ratios, clipped, multiply into the corrections of its arrivals.\<close>

definition correct_one :: "('p \<Rightarrow> 'o \<Rightarrow> real list) \<Rightarrow> actor_ppo_config \<Rightarrow> 'p \<Rightarrow> 'o replay \<Rightarrow> (string, real) dict
    \<Rightarrow> py_error + (string, real) dict" where
  "correct_one net cfg p = (\<lambda>(old, steps, rid) corr.
     map_sum id (\<lambda>(new, ent, nulls).
         AList.update rid (get_default corr rid 1 * max (1 - ac_clip cfg) (min (1 + ac_clip cfg) (exp (new - old)))) corr)
       (fragment_new_logprob net p steps))"

section \<open>One round\<close>

record 'p round_state =
  rs_actors :: "(int, 'p option) dict"
  rs_corr :: "(string, real) dict"
  rs_tel :: telemetry
  rs_updates :: nat
  rs_fragments :: nat
  rs_stops :: nat
  rs_kl :: "(int, real) dict"
  rs_calls :: nat

definition update_agent :: "('p \<Rightarrow> 'o \<Rightarrow> real list) \<Rightarrow> ('p \<Rightarrow> ('p \<Rightarrow> py_error + real) \<Rightarrow> 'p) \<Rightarrow> (nat \<Rightarrow> nat \<Rightarrow> nat list)
    \<Rightarrow> actor_ppo_config \<Rightarrow> (string, real) dict \<Rightarrow> int \<times> 'o replay list \<Rightarrow> 'p round_state \<Rightarrow> py_error + 'p round_state" where
  "update_agent net opt perm cfg adv = (\<lambda>(d, frags) rs.
     case map_of (rs_actors rs) d of
       Some (Some p) \<Rightarrow>
         (case fold_err (\<lambda>_. agent_epoch net opt perm cfg (rs_corr rs) adv frags) [0..<ac_epochs cfg]
                 \<lparr>ag_policy = p, ag_tel = rs_tel rs, ag_updates = rs_updates rs, ag_kl = 0, ag_stopped = False,
                   ag_stops = rs_stops rs, ag_calls = rs_calls rs\<rparr> of
            Inl e \<Rightarrow> Inl e
          | Inr ag \<Rightarrow>
              map_sum id (\<lambda>corr.
                  rs\<lparr>rs_actors := AList.update d (Some (ag_policy ag)) (rs_actors rs), rs_corr := corr, rs_tel := ag_tel ag,
                     rs_updates := ag_updates ag, rs_fragments := rs_fragments rs + length frags, rs_stops := ag_stops ag,
                     rs_kl := AList.update d (ag_kl ag) (rs_kl rs), rs_calls := ag_calls ag\<rparr>)
                (fold_err (correct_one net cfg (ag_policy ag)) frags (rs_corr rs)))
     | _ \<Rightarrow> Inl AttributeError)"

definition trainable :: "(int, 'p option) dict \<Rightarrow> int list \<Rightarrow> int list" where
  "trainable actors optimizers = map fst (filter (\<lambda>(d, a). d \<in> set optimizers \<and> a \<noteq> None) actors)"

definition replays_of :: "(string, real) dict \<Rightarrow> 'o fragment_transition list \<Rightarrow> 'o replay list" where
  "replays_of adv trs =
     map (\<lambda>tr. (sum_list (map st_log_prob (ft_steps tr)), ft_steps tr, ft_request tr))
       (filter (\<lambda>tr. ft_steps tr \<noteq> [] \<and> ft_request tr \<in> set (keys adv)) trs)"

definition per_agent :: "(int, 'o fragment_transition list) dict \<Rightarrow> (string, real) dict \<Rightarrow> int list \<Rightarrow> (int, 'o replay list) dict" where
  "per_agent rollout adv ds =
     filter (\<lambda>(d, frags). frags \<noteq> []) (map (\<lambda>d. (d, replays_of adv (get_default rollout d []))) ds)"

definition round_start :: "(int, 'p option) dict \<Rightarrow> nat \<Rightarrow> 'p round_state" where
  "round_start actors calls = \<lparr>rs_actors = actors, rs_corr = [], rs_tel = \<lparr>te_clipped = 0, te_ratios = 0, te_entropy = 0, te_steps = 0, te_nulls = 0\<rparr>,
     rs_updates = 0, rs_fragments = 0, rs_stops = 0, rs_kl = [], rs_calls = calls\<rparr>"

definition finish_round :: "(int, nat) dict \<Rightarrow> 'p round_state \<Rightarrow> (int, 'p option) dict \<times> actor_update_stats" where
  "finish_round by_domain rs = (rs_actors rs,
     \<lparr>us_steps = rs_updates rs, us_clip_frac = real (te_clipped (rs_tel rs)) / real (max 1 (te_ratios (rs_tel rs))),
      us_approx_kl = sum_list (vals (rs_kl rs)) / real (max 1 (length (rs_kl rs))),
      us_entropy = te_entropy (rs_tel rs) / real (max 1 (te_steps (rs_tel rs))),
      us_null_rate = real (te_nulls (rs_tel rs)) / real (max 1 (te_steps (rs_tel rs))),
      us_fragments = rs_fragments rs, us_early_stops = rs_stops rs, us_per_agent_kl = rs_kl rs,
      us_fragments_by_domain = by_domain, us_untrained = map fst (sort_key fst (filter (\<lambda>(d, n). n = 0) by_domain))\<rparr>)"

definition run_agents :: "('p \<Rightarrow> 'o \<Rightarrow> real list) \<Rightarrow> ('p \<Rightarrow> ('p \<Rightarrow> py_error + real) \<Rightarrow> 'p) \<Rightarrow> (nat \<Rightarrow> nat \<Rightarrow> nat list)
    \<Rightarrow> actor_ppo_config \<Rightarrow> (string, real) dict \<Rightarrow> (int, 'o replay list) dict \<Rightarrow> (int, 'p option) dict
    \<Rightarrow> py_error + 'p round_state" where
  "run_agents net opt perm cfg adv agents actors =
     fold_err (update_agent net opt perm cfg adv) (map ((!) agents) (perm 0 (length agents))) (round_start actors 1)"

definition update_domain_actors :: "('p \<Rightarrow> 'o \<Rightarrow> real list) \<Rightarrow> ('p \<Rightarrow> ('p \<Rightarrow> py_error + real) \<Rightarrow> 'p) \<Rightarrow> (nat \<Rightarrow> nat \<Rightarrow> nat list)
    \<Rightarrow> actor_ppo_config \<Rightarrow> (int, 'o fragment_transition list) dict \<Rightarrow> (string, real) dict \<Rightarrow> (int, 'p option) dict \<Rightarrow> int list
    \<Rightarrow> py_error + (int, 'p option) dict \<times> actor_update_stats" where
  "update_domain_actors net opt perm cfg rollout adv actors optimizers =
     (let ds = trainable actors optimizers;
          by_domain = map (\<lambda>d. (d, length (filter (\<lambda>tr. ft_steps tr \<noteq> []) (get_default rollout d [])))) ds;
          agents = per_agent rollout adv ds
      in if ds = [] then Inr (actors, no_update_stats)
         else if agents = [] then Inr (actors, no_update_stats\<lparr>us_fragments_by_domain := by_domain,
                us_untrained := map fst (sort_key fst (filter (\<lambda>(d, n). n = 0) by_domain))\<rparr>)
         else map_sum id (finish_round by_domain) (run_agents net opt perm cfg adv agents actors))"

section \<open>Replayable records\<close>

text \<open>The recorded action is open under the recorded mask, and the network scores every slot.\<close>

definition replayable :: "('p \<Rightarrow> 'o \<Rightarrow> real list) \<Rightarrow> 'o actor_step \<Rightarrow> bool" where
  "replayable net r \<longleftrightarrow>
     (let slots = st_mask r @ [\<not> list_ex (\<lambda>b. b) (st_mask r)] in
      0 \<le> action_slot r \<and> nat (action_slot r) < length slots \<and> slots ! nat (action_slot r)
      \<and> (\<forall>p. length (net p (st_obs r)) = length slots))"

lemma log_probs_nonpos: "categorical row = Inr lps \<Longrightarrow> Some x \<in> set lps \<Longrightarrow> x \<le> 0"
proof -
  assume c: "categorical row = Inr lps" and x: "Some x \<in> set lps"
  have len: "length lps = length row" using c by (simp add: categorical_Inr)
  obtain i where i: "i < length row" "lps ! i = Some x" using x len by (auto simp: in_set_conv_nth)
  have "prob_of (lps ! i) \<le> (\<Sum>i < length row. prob_of (lps ! i))"
    using i(1) by (intro member_le_sum) (auto simp: prob_of_def split: option.split)
  then have "exp x \<le> 1" using categorical_sums[OF c] i(2) by (simp add: prob_of_def)
  then show "x \<le> 0" by simp
qed

lemma cat_entropy_nonneg:
  assumes "categorical row = Inr lps"
  shows "0 \<le> cat_entropy lps"
proof -
  have "(\<Sum>lp \<leftarrow> lps. case lp of None \<Rightarrow> 0 | Some p \<Rightarrow> exp p * p) \<le> 0"
    by (intro sum_list_nonpos) (use log_probs_nonpos[OF assms] in \<open>auto simp: mult_nonneg_nonpos split: option.splits\<close>)
  then show ?thesis by (simp add: cat_entropy_def)
qed

lemma evaluate_step_ok:
  assumes "replayable net r"
  shows "\<exists>l e. evaluate_step net p r = Inr (l, e) \<and> 0 \<le> e"
proof -
  let ?slots = "st_mask r @ [\<not> list_ex (\<lambda>b. b) (st_mask r)]" and ?i = "nat (action_slot r)"
  have i: "0 \<le> action_slot r" "?i < length ?slots" "?slots ! ?i" and len: "length (net p (st_obs r)) = length ?slots"
    using assms unfolding replayable_def Let_def by blast+
  let ?row = "encode_and_score net p r"
  have lr: "length ?row = length ?slots" using len by (simp add: encode_and_score_def masked_logits_def)
  have "?row ! ?i \<noteq> None" using i(2,3) len by (simp add: encode_and_score_def masked_logits_def)
  then have "?i \<in> set (support ?row)" using i(2) lr by (simp add: support_iff)
  then have "support ?row \<noteq> []" by auto
  then obtain lps where c: "categorical ?row = Inr lps" by (simp add: categorical_def)
  then have "length lps = length ?slots" using lr by (simp add: categorical_Inr)
  then show ?thesis using i(1,2) cat_entropy_nonneg[OF c] by (simp add: evaluate_step_def c)
qed

lemma fragment_ok:
  assumes "\<forall>r \<in> set steps. replayable net r"
  shows "\<exists>lp ent nulls. fragment_new_logprob net p steps = Inr (lp, ent, nulls) \<and> 0 \<le> ent \<and> nulls \<le> length steps"
proof -
  define f where "f = (\<lambda>r (lp, ent, nulls). map_sum id (\<lambda>(l, e). (lp + l, ent + e, if st_action r = null_action then nulls + 1 else nulls :: nat))
      (evaluate_step net p r))"
  have "\<exists>lp' ent' nulls'. fold_err f steps (lp, ent, nulls) = Inr (lp', ent', nulls') \<and> ent \<le> ent' \<and> nulls' \<le> nulls + length steps"
    for lp ent nulls using assms
  proof (induction steps arbitrary: lp ent nulls)
    case (Cons r steps)
    obtain l e where s: "evaluate_step net p r = Inr (l, e)" "0 \<le> e" using evaluate_step_ok Cons.prems by fastforce
    let ?n = "if st_action r = null_action then nulls + 1 else nulls"
    have f: "f r (lp, ent, nulls) = Inr (lp + l, ent + e, ?n)" by (simp add: f_def s(1))
    have "\<forall>r \<in> set steps. replayable net r" using Cons.prems by simp
    from Cons.IH[OF this, of "lp + l" "ent + e" ?n] obtain lp' ent' nulls' where
      "fold_err f steps (lp + l, ent + e, ?n) = Inr (lp', ent', nulls')" "ent + e \<le> ent'" "nulls' \<le> ?n + length steps" by blast
    then have "fold_err f (r # steps) (lp, ent, nulls) = Inr (lp', ent', nulls')" "ent \<le> ent'" "nulls' \<le> nulls + length (r # steps)"
      using s(2) by (simp_all add: f split: if_splits)
    then show ?case by blast
  qed simp
  from this[of 0 0 0] show ?thesis unfolding fragment_new_logprob_def f_def by auto
qed

section \<open>One agent\<close>

definition tel_ok :: "telemetry \<Rightarrow> bool" where
  "tel_ok te \<longleftrightarrow> te_clipped te \<le> te_ratios te \<and> te_nulls te \<le> te_steps te \<and> 0 \<le> te_entropy te"

definition fragment_replayable :: "('p \<Rightarrow> 'o \<Rightarrow> real list) \<Rightarrow> 'o replay \<Rightarrow> bool" where
  "fragment_replayable net f \<longleftrightarrow> (\<forall>r \<in> set (fst (snd f)). replayable net r)"

lemma k3_nonneg: "0 \<le> exp x - 1 - (x :: real)"
  using exp_ge_add_one_self[of x] by linarith

lemma replay_batch_ok:
  assumes "\<forall>f \<in> set batch. fragment_replayable net f" and "tel_ok te"
  shows "\<exists>loss kl te'. replay_batch net cfg advs batch te p = Inr (loss, kl, te') \<and> 0 \<le> kl \<and> tel_ok te'"
proof -
  have "\<exists>loss' kl' te'. fold_err (replay_one net cfg p) xs (loss, kl, te) = Inr (loss', kl', te') \<and> 0 \<le> kl' \<and> tel_ok te'"
    if "\<forall>x \<in> set xs. fragment_replayable net (snd x)" "0 \<le> kl" "tel_ok te" for xs loss kl te
    using that
  proof (induction xs arbitrary: loss kl te)
    case (Cons x xs)
    obtain adv old steps rid where x: "x = (adv, old, steps, rid)" by (metis prod.collapse)
    then obtain lp ent nulls where f: "fragment_new_logprob net p steps = Inr (lp, ent, nulls)" "0 \<le> ent" "nulls \<le> length steps"
      using fragment_ok[of steps net p] Cons.prems(1) by (auto simp: fragment_replayable_def)
    obtain loss1 kl1 te1 where s: "replay_one net cfg p x (loss, kl, te) = Inr (loss1, kl1, te1)" by (simp add: replay_one_def x f(1) Let_def)
    then have "kl1 = kl + (exp (lp - old) - 1 - (lp - old))" "tel_ok te1"
      using Cons.prems(3) f(2,3) by (auto simp: replay_one_def x f(1) Let_def tel_ok_def)
    then show ?case using Cons.IH[of kl1 te1 loss1] Cons.prems(1,2) k3_nonneg[of "lp - old"] s by simp
  qed simp
  moreover have "\<forall>x \<in> set (zip advs batch). fragment_replayable net (snd x)" using assms(1) by (auto dest: set_zip_rightD)
  ultimately show ?thesis using assms(2) unfolding replay_batch_def by simp
qed

definition agent_ok :: "nat \<Rightarrow> 'p agent_state \<Rightarrow> bool" where
  "agent_ok s0 st \<longleftrightarrow> tel_ok (ag_tel st) \<and> 0 \<le> ag_kl st \<and> ag_stops st \<le> s0 + (if ag_stopped st then 1 else 0)"

lemma agent_batch_ok:
  assumes "\<forall>f \<in> set batch. fragment_replayable net f" and "agent_ok s0 st"
  shows "\<exists>st'. agent_batch net opt cfg corr adv batch st = Inr st' \<and> agent_ok s0 st' \<and> ag_updates st' \<le> ag_updates st + 1"
proof (cases "ag_stopped st")
  case True
  then show ?thesis using assms(2) by (simp add: agent_batch_def)
next
  case False
  obtain loss kl te where "replay_batch net cfg (batch_advantages cfg corr adv batch) batch (ag_tel st) (ag_policy st) = Inr (loss, kl, te)"
    "0 \<le> kl" "tel_ok te"
    using replay_batch_ok[OF assms(1)] assms(2) unfolding agent_ok_def by blast
  then show ?thesis using False assms(2) by (auto simp: agent_batch_def Let_def agent_ok_def split: option.splits)
qed

lemma agent_batches_ok:
  assumes "\<forall>b \<in> set bs. \<forall>f \<in> set b. fragment_replayable net f" and "agent_ok s0 st"
  shows "\<exists>st'. fold_err (agent_batch net opt cfg corr adv) bs st = Inr st' \<and> agent_ok s0 st' \<and> ag_updates st' \<le> ag_updates st + length bs"
  using assms
proof (induction bs arbitrary: st)
  case (Cons b bs)
  obtain st1 where 1: "agent_batch net opt cfg corr adv b st = Inr st1" "agent_ok s0 st1" "ag_updates st1 \<le> ag_updates st + 1"
    using agent_batch_ok[of b net s0 st opt cfg corr adv] Cons.prems by auto
  obtain st2 where "fold_err (agent_batch net opt cfg corr adv) bs st1 = Inr st2" "agent_ok s0 st2" "ag_updates st2 \<le> ag_updates st1 + length bs"
    using Cons.IH[OF _ 1(2)] Cons.prems(1) by auto
  then show ?case using 1 by auto
qed simp

definition shuffles :: "(nat \<Rightarrow> nat \<Rightarrow> nat list) \<Rightarrow> bool" where
  "shuffles perm \<longleftrightarrow> (\<forall>c n. mset (perm c n) = mset [0..<n])"

lemma shuffled: "shuffles perm \<Longrightarrow> set (perm c n) = {..<n} \<and> length (perm c n) = n"
  unfolding shuffles_def by (metis atLeast_upt length_upt minus_nat.diff_0 mset_eq_setD mset_eq_length)

lemma shuffled_mset: "shuffles perm \<Longrightarrow> mset (map ((!) xs) (perm c (length xs))) = mset xs"
proof -
  assume "shuffles perm"
  then have "mset (map ((!) xs) (perm c (length xs))) = mset (map ((!) xs) [0..<length xs])" by (simp add: shuffles_def)
  then show ?thesis by (simp only: map_nth)
qed

definition num_batches :: "actor_ppo_config \<Rightarrow> nat \<Rightarrow> nat" where
  "num_batches cfg n = (n + minibatch_of cfg n - 1) div minibatch_of cfg n"

lemma agent_epoch_ok:
  assumes perm: "shuffles perm" and rep: "\<forall>f \<in> set frags. fragment_replayable net f" and ok: "agent_ok s0 st"
  shows "\<exists>st'. agent_epoch net opt perm cfg corr adv frags st = Inr st' \<and> agent_ok s0 st'
    \<and> ag_updates st' \<le> ag_updates st + num_batches cfg (length frags)"
proof (cases "ag_stopped st")
  case True
  then show ?thesis using ok by (simp add: agent_epoch_def)
next
  case False
  let ?ixs = "chunks (minibatch_of cfg (length frags)) (perm (ag_calls st) (length frags))"
  have sub: "i < length frags" if "ix \<in> set ?ixs" "i \<in> set ix" for ix i
  proof -
    have "i \<in> set (perm (ag_calls st) (length frags))"
      using that by (auto simp: chunks_def dest: in_set_takeD in_set_dropD)
    then show ?thesis using shuffled[OF perm] by simp
  qed
  have n: "length ?ixs = num_batches cfg (length frags)" using shuffled[OF perm] by (simp add: chunks_def num_batches_def)
  have eq: "fold_err (\<lambda>ix. agent_batch net opt cfg corr adv (map ((!) frags) ix)) ixs u
      = fold_err (agent_batch net opt cfg corr adv) (map (map ((!) frags)) ixs) u" for ixs u
    by (induction ixs arbitrary: u) (auto split: sum.splits)
  have "\<forall>b \<in> set (map (map ((!) frags)) ?ixs). \<forall>f \<in> set b. fragment_replayable net f"
    using sub rep by (auto intro!: bspec[OF rep] nth_mem)
  from agent_batches_ok[OF this, of s0 "st\<lparr>ag_calls := ag_calls st + 1\<rparr>"] show ?thesis
    using False ok n by (simp add: agent_epoch_def eq agent_ok_def)
qed

lemma agent_epochs_ok:
  assumes perm: "shuffles perm" and rep: "\<forall>f \<in> set frags. fragment_replayable net f" and ok: "agent_ok s0 st"
  shows "\<exists>st'. fold_err (\<lambda>_. agent_epoch net opt perm cfg corr adv frags) es st = Inr st' \<and> agent_ok s0 st'
    \<and> ag_updates st' \<le> ag_updates st + length es * num_batches cfg (length frags)"
  using ok
proof (induction es arbitrary: st)
  case (Cons e es)
  obtain st1 where 1: "agent_epoch net opt perm cfg corr adv frags st = Inr st1" "agent_ok s0 st1"
    "ag_updates st1 \<le> ag_updates st + num_batches cfg (length frags)"
    using agent_epoch_ok[OF perm rep Cons.prems] by blast
  from Cons.IH[OF 1(2)] 1 show ?case by auto
qed simp

section \<open>One round\<close>

text \<open>What the round owes to the agents \<open>agents\<close> it has updated so far.\<close>

definition round_ok :: "actor_ppo_config \<Rightarrow> (int, 'p option) dict \<Rightarrow> (int, 'o replay list) dict \<Rightarrow> 'p round_state \<Rightarrow> bool" where
  "round_ok cfg actors agents rs \<longleftrightarrow>
     tel_ok (rs_tel rs) \<and> (\<forall>k \<in> set (vals (rs_kl rs)). 0 \<le> k) \<and> rs_stops rs \<le> length agents
     \<and> rs_updates rs \<le> (\<Sum>(d, frags) \<leftarrow> agents. ac_epochs cfg * num_batches cfg (length frags))
     \<and> rs_fragments rs = (\<Sum>(d, frags) \<leftarrow> agents. length frags)
     \<and> keys (rs_actors rs) = keys actors
     \<and> (\<forall>d. map_of (rs_actors rs) d \<noteq> map_of actors d \<longrightarrow> d \<in> set (keys agents) \<and> (\<exists>p. map_of (rs_actors rs) d = Some (Some p)))"

lemma correct_ok:
  assumes "\<forall>f \<in> set frags. fragment_replayable net f"
  shows "\<exists>corr'. fold_err (correct_one net cfg p) frags corr = Inr corr'"
  using assms
proof (induction frags arbitrary: corr)
  case (Cons f frags)
  obtain old steps rid where f: "f = (old, steps, rid)" by (rule prod_cases3)
  obtain lp ent nulls where "fragment_new_logprob net p steps = Inr (lp, ent, nulls)"
    using fragment_ok[of steps net p] Cons.prems by (auto simp: fragment_replayable_def f)
  then show ?case using Cons by (simp add: correct_one_def f)
qed simp

lemma update_agent_ok:
  assumes perm: "shuffles perm" and rep: "\<forall>f \<in> set frags. fragment_replayable net f"
    and ok: "round_ok cfg actors agents rs" and d: "map_of actors d = Some (Some p)"
  shows "\<exists>rs'. update_agent net opt perm cfg adv (d, frags) rs = Inr rs' \<and> round_ok cfg actors (agents @ [(d, frags)]) rs'"
proof -
  obtain q where q: "map_of (rs_actors rs) d = Some (Some q)"
    using ok d unfolding round_ok_def by metis
  let ?st = "\<lparr>ag_policy = q, ag_tel = rs_tel rs, ag_updates = rs_updates rs, ag_kl = 0, ag_stopped = False,
     ag_stops = rs_stops rs, ag_calls = rs_calls rs\<rparr>"
  have "agent_ok (rs_stops rs) ?st" using ok by (simp add: agent_ok_def round_ok_def)
  from agent_epochs_ok[OF perm rep this, of opt cfg "rs_corr rs" adv "[0..<ac_epochs cfg]"] obtain ag where
    ag: "fold_err (\<lambda>_. agent_epoch net opt perm cfg (rs_corr rs) adv frags) [0..<ac_epochs cfg] ?st = Inr ag"
    "agent_ok (rs_stops rs) ag" "ag_updates ag \<le> rs_updates rs + ac_epochs cfg * num_batches cfg (length frags)" by auto
  obtain corr' where c: "fold_err (correct_one net cfg (ag_policy ag)) frags (rs_corr rs) = Inr corr'"
    using correct_ok[OF rep] by blast
  let ?rs = "rs\<lparr>rs_actors := AList.update d (Some (ag_policy ag)) (rs_actors rs), rs_corr := corr', rs_tel := ag_tel ag,
     rs_updates := ag_updates ag, rs_fragments := rs_fragments rs + length frags, rs_stops := ag_stops ag,
     rs_kl := AList.update d (ag_kl ag) (rs_kl rs), rs_calls := ag_calls ag\<rparr>"
  have u: "update_agent net opt perm cfg adv (d, frags) rs = Inr ?rs" by (simp add: update_agent_def q ag(1) c)
  have k: "0 \<le> x" if "x \<in> set (vals (AList.update d (ag_kl ag) (rs_kl rs)))" for x
  proof -
    have "set (vals (AList.update d y al)) \<subseteq> insert y (set (vals al))" for y :: real and al :: "(int, real) dict"
      by (induction al) auto
    then show ?thesis using that ok ag(2) unfolding round_ok_def agent_ok_def by blast
  qed
  have "d \<in> set (keys actors)" using d by (force dest: map_of_SomeD)
  then have "keys (AList.update d (Some (ag_policy ag)) (rs_actors rs)) = keys actors"
    using ok unfolding round_ok_def by (simp only: update_keys if_True)
  moreover have "ag_stops ag \<le> rs_stops rs + 1" using ag(2) by (auto simp: agent_ok_def split: if_splits)
  ultimately have "round_ok cfg actors (agents @ [(d, frags)]) ?rs"
    using ok k ag(2,3) by (auto simp: round_ok_def agent_ok_def map_of_update_simp)
  with u show ?thesis by blast
qed

lemma run_agents_ok:
  assumes perm: "shuffles perm"
    and rep: "\<forall>(d, frags) \<in> set xs. (\<forall>f \<in> set frags. fragment_replayable net f) \<and> (\<exists>p. map_of actors d = Some (Some p))"
    and ok: "round_ok cfg actors agents rs"
  shows "\<exists>rs'. fold_err (update_agent net opt perm cfg adv) xs rs = Inr rs' \<and> round_ok cfg actors (agents @ xs) rs'"
  using rep ok
proof (induction xs arbitrary: agents rs)
  case (Cons x xs)
  obtain d frags where x: "x = (d, frags)" by (rule prod.exhaust)
  obtain p where "\<forall>f \<in> set frags. fragment_replayable net f" "map_of actors d = Some (Some p)" using Cons.prems(1) x by auto
  from update_agent_ok[OF perm this(1) Cons.prems(2) this(2)] obtain rs1 where
    1: "update_agent net opt perm cfg adv (d, frags) rs = Inr rs1" "round_ok cfg actors (agents @ [(d, frags)]) rs1" by blast
  then show ?case using Cons.IH[OF _ 1(2)] Cons.prems(1) x by auto
qed simp

lemma agents_replayable:
  assumes "\<forall>trs \<in> set (vals rollout). \<forall>tr \<in> set trs. \<forall>r \<in> set (ft_steps tr). replayable net r"
    and "(d, frags) \<in> set (per_agent rollout adv ds)" and "f \<in> set frags"
  shows "fragment_replayable net f"
proof -
  have "f \<in> set (replays_of adv (get_default rollout d []))" using assms(2,3) by (auto simp: per_agent_def)
  then obtain tr where tr: "tr \<in> set (get_default rollout d [])" "fst (snd f) = ft_steps tr" by (auto simp: replays_of_def)
  then have "get_default rollout d [] \<in> set (vals rollout)"
    by (auto simp: get_default_def split: option.splits dest: map_of_SomeD) (force dest: map_of_SomeD)
  then show ?thesis using assms(1) tr by (auto simp: fragment_replayable_def)
qed

lemma trainable_policy:
  "distinct (keys actors) \<Longrightarrow> d \<in> set (trainable actors optimizers) \<longleftrightarrow> d \<in> set optimizers \<and> (\<exists>p. map_of actors d = Some (Some p))"
  by (fastforce simp: trainable_def image_iff dest: map_of_SomeD)

lemma agents_trainable: "(d, frags) \<in> set (per_agent rollout adv ds) \<Longrightarrow> d \<in> set ds \<and> frags = replays_of adv (get_default rollout d []) \<and> frags \<noteq> []"
  by (auto simp: per_agent_def)

lemma fraction_bounds: "a \<le> b \<Longrightarrow> 0 \<le> real a / real (max 1 b) \<and> real a / real (max 1 b) \<le> 1"
  by (auto simp: divide_le_eq_1)

text \<open>
  C29: one round of actor training. On replayable records it never raises, whatever the optimiser does;
  actors that are frozen, have no optimiser or have no fragment with a known advantage keep their weights;
  the optimiser steps are bounded by the epochs and minibatches, the early stops by the agents; the rates are
  rates, the entropy and the divergence estimate are not negative.
\<close>

theorem actor_update_sound:
  fixes net :: "'p \<Rightarrow> 'o \<Rightarrow> real list" and adv :: "(string, real) dict" and optimizers :: "int list"
  assumes perm: "shuffles perm" and rep: "\<forall>trs \<in> set (vals rollout). \<forall>tr \<in> set trs. \<forall>r \<in> set (ft_steps tr). replayable net r"
    and dist: "distinct (keys actors)"
  defines "agents \<equiv> per_agent rollout adv (trainable actors optimizers)"
  shows "\<exists>actors' st. update_domain_actors net opt perm cfg rollout adv actors optimizers = Inr (actors', st)
    \<and> keys actors' = keys actors
    \<and> (\<forall>d. d \<notin> set (keys agents) \<longrightarrow> map_of actors' d = map_of actors d)
    \<and> us_steps st \<le> (\<Sum>(d, frags) \<leftarrow> agents. ac_epochs cfg * num_batches cfg (length frags))
    \<and> us_early_stops st \<le> length agents \<and> us_fragments st = (\<Sum>(d, frags) \<leftarrow> agents. length frags)
    \<and> 0 \<le> us_clip_frac st \<and> us_clip_frac st \<le> 1 \<and> 0 \<le> us_null_rate st \<and> us_null_rate st \<le> 1
    \<and> 0 \<le> us_entropy st \<and> 0 \<le> us_approx_kl st"
proof (cases "agents = []")
  case True
  then show ?thesis by (simp add: update_domain_actors_def Let_def agents_def[symmetric] no_update_stats_def)
next
  case False
  then have ds: "trainable actors optimizers \<noteq> []" by (auto simp: agents_def per_agent_def)
  let ?xs = "map ((!) agents) (perm 0 (length agents))"
  have ms: "mset ?xs = mset agents" by (rule shuffled_mset[OF perm])
  have len: "length ?xs = length agents" using arg_cong[OF ms, of size] by simp
  have sums: "(\<Sum>x \<leftarrow> ?xs. f x) = (\<Sum>x \<leftarrow> agents. f x)" for f :: "_ \<Rightarrow> nat"
    using arg_cong[OF ms, of "\<lambda>m. sum_mset (image_mset f m)"] by (simp only: mset_map[symmetric] sum_mset_sum_list)
  have "\<forall>(d, frags) \<in> set ?xs. (\<forall>f \<in> set frags. fragment_replayable net f) \<and> (\<exists>p. map_of actors d = Some (Some p))"
    using agents_replayable[OF rep] agents_trainable trainable_policy[OF dist] mset_eq_setD[OF ms] unfolding agents_def by blast
  moreover have "round_ok cfg actors [] (round_start actors 1)" by (simp add: round_ok_def round_start_def tel_ok_def)
  ultimately obtain rs where rs: "run_agents net opt perm cfg adv agents actors = Inr rs" "round_ok cfg actors ?xs rs"
    using run_agents_ok[OF perm, of ?xs net actors cfg "[]" "round_start actors 1" opt adv] unfolding run_agents_def by auto
  note R = rs(2)[unfolded round_ok_def len sums]
  have keys: "set (keys ?xs) = set (keys agents)" using mset_eq_setD[OF ms] by (simp only: list.set_map)
  let ?by = "map (\<lambda>d. (d, length (filter (\<lambda>tr. ft_steps tr \<noteq> []) (get_default rollout d [])))) (trainable actors optimizers)"
  let ?st = "snd (finish_round ?by rs)"
  have "update_domain_actors net opt perm cfg rollout adv actors optimizers = Inr (finish_round ?by rs)"
    using False ds rs(1) by (simp add: update_domain_actors_def Let_def agents_def)
  then have run: "update_domain_actors net opt perm cfg rollout adv actors optimizers = Inr (rs_actors rs, ?st)"
    by (simp add: finish_round_def)
  have kl: "0 \<le> sum_list (vals (rs_kl rs)) / real (max 1 (length (rs_kl rs)))"
    using R by (intro divide_nonneg_nonneg sum_list_nonneg) auto
  have untouched: "\<forall>d. d \<notin> set (keys agents) \<longrightarrow> map_of (rs_actors rs) d = map_of actors d" using R unfolding keys by blast
  have tel: "te_clipped (rs_tel rs) \<le> te_ratios (rs_tel rs)" "te_nulls (rs_tel rs) \<le> te_steps (rs_tel rs)" "0 \<le> te_entropy (rs_tel rs)"
    using R by (simp_all add: tel_ok_def)
  have st: "us_steps ?st = rs_updates rs" "us_early_stops ?st = rs_stops rs" "us_fragments ?st = rs_fragments rs"
    "us_clip_frac ?st = real (te_clipped (rs_tel rs)) / real (max 1 (te_ratios (rs_tel rs)))"
    "us_null_rate ?st = real (te_nulls (rs_tel rs)) / real (max 1 (te_steps (rs_tel rs)))"
    "us_entropy ?st = te_entropy (rs_tel rs) / real (max 1 (te_steps (rs_tel rs)))"
    "us_approx_kl ?st = sum_list (vals (rs_kl rs)) / real (max 1 (length (rs_kl rs)))"
    by (simp_all add: finish_round_def)
  show ?thesis
    by (intro exI[of _ "rs_actors rs"] exI[of _ ?st] conjI)
      (use run untouched kl R tel fraction_bounds[OF tel(1)] fraction_bounds[OF tel(2)] in \<open>simp_all only: st divide_nonneg_nonneg of_nat_0_le_iff\<close>)
qed

section \<open>The correction between agents\<close>

text \<open>How many of the fragments belong to the arrival.\<close>

definition times_updated :: "string \<Rightarrow> 'o replay list \<Rightarrow> nat" where
  "times_updated rid frags = length (filter (\<lambda>(old, steps, r). r = rid) frags)"

definition between_powers :: "real \<Rightarrow> nat \<Rightarrow> real \<Rightarrow> bool" where
  "between_powers eps k x \<longleftrightarrow> (1 - eps) ^ k \<le> x \<and> x \<le> (1 + eps) ^ k"

lemma between_powers_step:
  assumes "0 \<le> eps" and "eps < 1" and "between_powers eps k x"
  shows "between_powers eps (Suc k) (x * max (1 - eps) (min (1 + eps) r))"
proof -
  let ?c = "max (1 - eps) (min (1 + eps) r)"
  have c: "1 - eps \<le> ?c" "?c \<le> 1 + eps" using assms(1) by auto
  have x: "(1 - eps) ^ k \<le> x" "x \<le> (1 + eps) ^ k" using assms(3) by (simp_all add: between_powers_def)
  have "0 \<le> x" using x(1) zero_le_power[of "1 - eps" k] assms(2) by linarith
  have "(1 - eps) ^ k * (1 - eps) \<le> x * ?c" using x(1) c(1) assms(2) \<open>0 \<le> x\<close> by (intro mult_mono) simp_all
  moreover have "x * ?c \<le> (1 + eps) ^ k * (1 + eps)" using x c assms(1,2) \<open>0 \<le> x\<close> by (intro mult_mono) simp_all
  ultimately show ?thesis by (simp add: between_powers_def mult.commute)
qed

lemma correct_bounded:
  assumes "0 \<le> ac_clip cfg" and "ac_clip cfg < 1" and "fold_err (correct_one net cfg p) frags corr = Inr corr'"
    and "between_powers (ac_clip cfg) k (get_default corr rid 1)"
  shows "between_powers (ac_clip cfg) (k + times_updated rid frags) (get_default corr' rid 1)"
  using assms(3,4)
proof (induction frags arbitrary: corr k)
  case (Cons f frags)
  obtain old steps r where f: "f = (old, steps, r)" by (rule prod_cases3)
  obtain corr1 where 1: "correct_one net cfg p f corr = Inr corr1" "fold_err (correct_one net cfg p) frags corr1 = Inr corr'"
    using Cons.prems(1) by (auto split: sum.splits)
  then obtain ratio where c1: "corr1 = AList.update r (get_default corr r 1 * max (1 - ac_clip cfg) (min (1 + ac_clip cfg) ratio)) corr"
    by (cases "fragment_new_logprob net p steps") (auto simp: correct_one_def f)
  have "between_powers (ac_clip cfg) (k + (if r = rid then 1 else 0)) (get_default corr1 rid 1)"
    using Cons.prems(2) between_powers_step[OF assms(1,2) Cons.prems(2), of ratio] by (auto simp: c1 get_default_update)
  from Cons.IH[OF 1(2) this] show ?case by (auto simp: times_updated_def f)
qed (simp add: times_updated_def)

lemma map_sum_InrD: "map_sum id f x = Inr y \<Longrightarrow> \<exists>z. x = Inr z \<and> y = f z"
  by (cases x) auto

lemma update_agent_corrects:
  "update_agent net opt perm cfg adv (d, frags) rs = Inr rs' \<Longrightarrow> \<exists>q. fold_err (correct_one net cfg q) frags (rs_corr rs) = Inr (rs_corr rs')"
  by (auto simp: update_agent_def split: option.splits sum.splits dest!: map_sum_InrD)

text \<open>
  C30: after any agents of a round have been updated, in any order, the correction factor of an arrival with
  \<open>k\<close> fragments among them lies between the \<open>k\<close>-th powers of the clipping bounds: it is positive, so the
  corrected advantage has the sign of the advantage.
\<close>

theorem correction_keeps_sign:
  assumes "0 \<le> ac_clip cfg" and "ac_clip cfg < 1"
    and "fold_err (update_agent net opt perm cfg adv) xs (round_start actors c) = Inr rs"
  shows "between_powers (ac_clip cfg) (times_updated rid (concat (map snd xs))) (get_default (rs_corr rs) rid 1)
    \<and> 0 < get_default (rs_corr rs) rid 1
    \<and> sgn (get_default (rs_corr rs) rid 1 * get_default adv rid 0) = sgn (get_default adv rid 0)"
proof -
  have "between_powers (ac_clip cfg) (k + times_updated rid (concat (map snd xs))) (get_default (rs_corr rs) rid 1)"
    if "fold_err (update_agent net opt perm cfg adv) xs rs0 = Inr rs" "between_powers (ac_clip cfg) k (get_default (rs_corr rs0) rid 1)" for rs0 k
    using that
  proof (induction xs arbitrary: rs0 k)
    case (Cons x xs)
    obtain d frags where x: "x = (d, frags)" by (rule prod.exhaust)
    obtain rs1 where 1: "update_agent net opt perm cfg adv (d, frags) rs0 = Inr rs1" "fold_err (update_agent net opt perm cfg adv) xs rs1 = Inr rs"
      using Cons.prems(1) x by (auto split: sum.splits)
    then obtain q where "fold_err (correct_one net cfg q) frags (rs_corr rs0) = Inr (rs_corr rs1)"
      by (auto dest: update_agent_corrects)
    from Cons.IH[OF 1(2) correct_bounded[OF assms(1,2) this Cons.prems(2)]] show ?case
      by (simp add: x times_updated_def add.assoc)
  qed (simp add: times_updated_def)
  from this[OF assms(3), of 0] have b: "between_powers (ac_clip cfg) (times_updated rid (concat (map snd xs))) (get_default (rs_corr rs) rid 1)"
    by (simp add: round_start_def between_powers_def get_default_def)
  moreover have "0 < (1 - ac_clip cfg) ^ n" for n using assms(2) by simp
  ultimately have "0 < get_default (rs_corr rs) rid 1" unfolding between_powers_def by (meson less_le_trans)
  with b show ?thesis by (simp add: sgn_mult)
qed

section \<open>Concrete runs\<close>

text \<open>Two agents with one node each; the weights are one number and the optimiser adds one to it.\<close>

definition ex_net :: "real \<Rightarrow> unit \<Rightarrow> real list" where
  "ex_net p _ = [p, 0]"

definition ex_rollout :: "(int, unit fragment_transition list) dict" where
  "ex_rollout = [(0, [\<lparr>ft_request = ''r'', ft_steps = [\<lparr>st_obs = (), st_mask = [True], st_action = 0, st_log_prob = 0\<rparr>]\<rparr>]),
     (1, [\<lparr>ft_request = ''r'', ft_steps = [\<lparr>st_obs = (), st_mask = [False], st_action = - 1, st_log_prob = 0\<rparr>]\<rparr>])]"

lemma ex_replayable: "\<forall>trs \<in> set (vals ex_rollout). \<forall>tr \<in> set trs. \<forall>r \<in> set (ft_steps tr). replayable ex_net r"
  by (simp add: ex_rollout_def replayable_def action_slot_def null_action_def ex_net_def)

lemma ex_shuffles: "shuffles (\<lambda>c n. rev [0..<n])"
  by (simp add: shuffles_def)

theorem actor_update_sound_witness:
  "\<exists>actors' st. update_domain_actors ex_net (\<lambda>p loss. p + 1) (\<lambda>c n. rev [0..<n]) default_actor_ppo ex_rollout [(''r'', - 1)]
       [(0, Some 0), (1, Some 0), (2, None)] [0] = Inr (actors', st)
     \<and> map_of actors' 1 = Some (Some 0) \<and> map_of actors' 2 = Some None \<and> us_steps st \<le> 4 \<and> us_fragments st = 1 \<and> us_clip_frac st \<le> 1"
proof -
  let ?actors = "[(0, Some 0), (1, Some 0), (2, None)] :: (int, real option) dict"
  have a: "per_agent ex_rollout [(''r'', - 1 :: real)] (trainable ?actors [0])
      = [(0, [(0, [\<lparr>st_obs = (), st_mask = [True], st_action = 0, st_log_prob = 0\<rparr>], ''r'')])]"
    by (simp add: per_agent_def trainable_def ex_rollout_def get_default_def replays_of_def)
  have "distinct (keys ?actors)" by simp
  from actor_update_sound[OF ex_shuffles ex_replayable this, of "\<lambda>p loss. p + 1" default_actor_ppo "[(''r'', - 1)]" "[0]"]
  obtain actors' st where
    r: "update_domain_actors ex_net (\<lambda>p loss. p + 1) (\<lambda>c n. rev [0..<n]) default_actor_ppo ex_rollout [(''r'', - 1)] ?actors [0] = Inr (actors', st)"
    and s: "\<forall>d. d \<notin> set (keys [(0 :: int, [(0 :: real, [\<lparr>st_obs = (), st_mask = [True], st_action = 0 :: int, st_log_prob = 0 :: real\<rparr>], ''r'')])]) \<longrightarrow> map_of actors' d = map_of ?actors d"
    "us_steps st \<le> ac_epochs default_actor_ppo * num_batches default_actor_ppo 1" "us_fragments st = 1" "us_clip_frac st \<le> 1"
    unfolding a by auto
  moreover have "ac_epochs default_actor_ppo * num_batches default_actor_ppo 1 = 4"
    by (simp add: default_actor_ppo_def num_batches_def minibatch_of_def)
  moreover have "map_of actors' 1 = Some (Some 0)" "map_of actors' 2 = Some None" using s(1) by simp_all
  ultimately show ?thesis by metis
qed

theorem correction_keeps_sign_witness:
  "\<exists>rs. fold_err (update_agent ex_net (\<lambda>p loss. p + 1) (\<lambda>c n. rev [0..<n]) default_actor_ppo [(''r'', - 1)])
       (per_agent ex_rollout [(''r'', - 1)] [0, 1]) (round_start [(0, Some 0), (1, Some 0)] 1) = Inr rs
     \<and> between_powers (2 / 10) 2 (get_default (rs_corr rs) ''r'' 1) \<and> get_default (rs_corr rs) ''r'' 1 * - 1 < 0"
proof -
  let ?xs = "per_agent ex_rollout [(''r'', - 1 :: real)] [0, 1]" and ?actors = "[(0, Some 0), (1, Some 0)] :: (int, real option) dict"
  have "round_ok default_actor_ppo ?actors [] (round_start ?actors 1)" by (simp add: round_ok_def round_start_def tel_ok_def)
  moreover have "\<forall>(d, frags) \<in> set ?xs. (\<forall>f \<in> set frags. fragment_replayable ex_net f) \<and> (\<exists>p. map_of ?actors d = Some (Some p))"
    using agents_replayable[OF ex_replayable] agents_trainable[of _ _ ex_rollout "[(''r'', - 1)]" "[0, 1]"] by fastforce
  ultimately obtain rs where rs: "fold_err (update_agent ex_net (\<lambda>p loss. p + 1) (\<lambda>c n. rev [0..<n]) default_actor_ppo [(''r'', - 1)])
       ?xs (round_start ?actors 1) = Inr rs"
    using run_agents_ok[OF ex_shuffles, of ?xs ex_net ?actors default_actor_ppo "[]"] by blast
  have "times_updated ''r'' (concat (map snd ?xs)) = 2"
    by (simp add: per_agent_def ex_rollout_def get_default_def replays_of_def times_updated_def)
  then show ?thesis
    using rs correction_keeps_sign[OF _ _ rs, of "''r''"] by (auto simp: default_actor_ppo_def)
qed

end
