(* ===== verification/Credit_Assignment.thy ===== *)
theory Credit_Assignment
  imports Training_Math Actor_PPO
begin

text \<open>
  The training buffer (\<open>src/src/orion/training/buffer.py\<close>) and the advantages of the orchestrator's update
  (\<open>gae_over_arrivals\<close> and \<open>per_arrival_advantages\<close> of \<open>src/scripts/wp7_runner.py\<close>). Tensors are lists; the
  permutation of \<open>torch.randperm\<close> is a parameter.

  Theorems: minibatches visit every transition once; the stream advantages are the discounted sums of their
  definition, whitened and broadcast to the trials; without smoothing they are the one-step advantages; the
  guard on the order of the buffer looks at its last entry only.
\<close>

section \<open>The buffer\<close>

record 't ppo_buffer =
  pb_obs :: "real list list"
  pb_actions :: "int list list"
  pb_log_probs :: "real list list"
  pb_entropies :: "real list"
  pb_aux :: "real list"
  pb_masks :: "bool list list list"
  pb_num_vnfs :: "nat list"
  pb_states :: "real list list"
  pb_values :: "real list"
  pb_rewards :: "real list"
  pb_dones :: "real list"
  pb_advantages :: "real list option"
  pb_returns :: "real list option"
  pb_actor :: "(int, 't list) dict"

definition empty_buffer :: "'t ppo_buffer" where
  "empty_buffer = \<lparr>pb_obs = [], pb_actions = [], pb_log_probs = [], pb_entropies = [], pb_aux = [], pb_masks = [], pb_num_vnfs = [],
     pb_states = [], pb_values = [], pb_rewards = [], pb_dones = [], pb_advantages = None, pb_returns = None, pb_actor = []\<rparr>"

record ppo_entry =
  pe_obs :: "real list"
  pe_action :: "int list"
  pe_log_prob :: "real list"
  pe_entropy :: real
  pe_aux :: real
  pe_state :: "real list"
  pe_value :: real
  pe_reward :: real
  pe_done :: bool
  pe_mask :: "bool list list option"
  pe_num_vnfs :: nat

text \<open>A missing mask adds nothing to the list of masks.\<close>

definition buffer_append_mdo :: "ppo_entry \<Rightarrow> 't ppo_buffer \<Rightarrow> 't ppo_buffer" where
  "buffer_append_mdo e b = b\<lparr>pb_obs := pb_obs b @ [pe_obs e], pb_actions := pb_actions b @ [pe_action e],
     pb_log_probs := pb_log_probs b @ [pe_log_prob e], pb_entropies := pb_entropies b @ [pe_entropy e], pb_aux := pb_aux b @ [pe_aux e],
     pb_masks := pb_masks b @ (case pe_mask e of None \<Rightarrow> [] | Some m \<Rightarrow> [m]), pb_num_vnfs := pb_num_vnfs b @ [pe_num_vnfs e],
     pb_states := pb_states b @ [pe_state e], pb_values := pb_values b @ [pe_value e], pb_rewards := pb_rewards b @ [pe_reward e],
     pb_dones := pb_dones b @ [if pe_done e then 1 else 0]\<rparr>"

definition buffer_append_actor :: "int \<Rightarrow> 't \<Rightarrow> 't ppo_buffer \<Rightarrow> 't ppo_buffer" where
  "buffer_append_actor d t b = b\<lparr>pb_actor := AList.update d (get_default (pb_actor b) d [] @ [t]) (pb_actor b)\<rparr>"

definition buffer_value_tensor :: "real \<Rightarrow> 't ppo_buffer \<Rightarrow> real list" where
  "buffer_value_tensor bootstrap b = pb_values b @ [bootstrap]"

definition set_gae :: "real list \<Rightarrow> real list \<Rightarrow> 't ppo_buffer \<Rightarrow> 't ppo_buffer" where
  "set_gae adv ret b = b\<lparr>pb_advantages := Some adv, pb_returns := Some ret\<rparr>"

definition buffer_len :: "'t ppo_buffer \<Rightarrow> nat" where
  "buffer_len b = length (pb_rewards b)"

text \<open>A step of zero makes \<open>range\<close> raise; a negative one yields nothing.\<close>

definition minibatches :: "(nat \<Rightarrow> nat list) \<Rightarrow> int \<Rightarrow> 't ppo_buffer \<Rightarrow> py_error + nat list list" where
  "minibatches perm mb b =
     (if buffer_len b = 0 then Inr []
      else if mb = 0 then Inl ValueError
      else if mb < 0 then Inr []
      else Inr (chunks (nat mb) (perm (buffer_len b))))"

definition buffer_clear :: "'t ppo_buffer \<Rightarrow> 't ppo_buffer" where
  "buffer_clear b = b\<lparr>pb_obs := [], pb_actions := [], pb_log_probs := [], pb_entropies := [], pb_aux := [], pb_masks := [], pb_num_vnfs := [],
     pb_states := [], pb_values := [], pb_rewards := [], pb_dones := [], pb_advantages := None, pb_returns := None, pb_actor := []\<rparr>"

section \<open>Arrivals of a stream of trials\<close>

abbreviation closes :: "real \<Rightarrow> bool" where
  "closes d \<equiv> 1 / 2 \<le> d"

fun arrival_of :: "nat \<Rightarrow> real list \<Rightarrow> nat list" where
  "arrival_of a [] = []"
| "arrival_of a (d # ds) = a # arrival_of (if closes d then a + 1 else a) ds"

definition term_idx :: "real list \<Rightarrow> nat list" where
  "term_idx dones = filter (\<lambda>i. closes (dones ! i)) [0..<length dones]"

definition out_of_order :: "real list \<Rightarrow> bool" where
  "out_of_order dones \<longleftrightarrow> term_idx dones = [] \<or> \<not> closes (last dones)
     \<or> int (last (arrival_of 0 dones)) \<noteq> int (length (term_idx dones)) - 1"

definition whiten :: "real list \<Rightarrow> real list" where
  "whiten xs = (if 1 < length xs then map (\<lambda>x. (x - batch_mean xs) / (batch_std xs + tiny)) xs else xs)"

definition broadcast :: "real list \<Rightarrow> real list \<Rightarrow> real list" where
  "broadcast dones xs = map (\<lambda>a. xs ! a) (arrival_of 0 dones)"

text \<open>The rewards and values at the closing trials; a short list raises.\<close>

definition closing_entries :: "real list \<Rightarrow> real list \<Rightarrow> real list \<Rightarrow> py_error + real list \<times> real list" where
  "closing_entries dones rewards est =
     (if out_of_order dones then Inl RuntimeError
      else if list_ex (\<lambda>i. length rewards \<le> i \<or> length est \<le> i) (term_idx dones) then Inl IndexError
      else Inr (map (\<lambda>i. rewards ! i) (term_idx dones), map (\<lambda>i. est ! i) (term_idx dones)))"

definition gae_over_arrivals :: "real list \<Rightarrow> real list \<Rightarrow> real list \<Rightarrow> real \<Rightarrow> real \<Rightarrow> py_error + real list \<times> real list" where
  "gae_over_arrivals dones rewards est gamma lam =
     (case closing_entries dones rewards est of
        Inl e \<Rightarrow> Inl e
      | Inr (rs, vs) \<Rightarrow>
          map_sum id (\<lambda>(adv, ret). (broadcast dones (whiten adv), broadcast dones ret))
            (compute_gae rs (vs @ [0]) ((replicate (length rs) 0)[length rs - 1 := 1]) gamma lam))"

definition per_arrival_advantages :: "real list \<Rightarrow> real list \<Rightarrow> real list \<Rightarrow> real \<Rightarrow> string \<Rightarrow> py_error + real list \<times> real list" where
  "per_arrival_advantages dones rewards est gamma mode =
     (case closing_entries dones rewards est of
        Inl e \<Rightarrow> Inl e
      | Inr (rs, vs) \<Rightarrow>
          map_sum id (\<lambda>ret. (broadcast dones (whiten (map2 (-) ret vs)), broadcast dones ret))
            (if mode = ''td0'' then Inr (map2 (\<lambda>r v. r + gamma * v) rs (tl vs @ [0]))
             else if mode = ''bandit'' then Inr rs
             else Inl ValueError))"

section \<open>Minibatches\<close>

lemma minibatches_partition:
  assumes "\<And>n. mset (perm n) = mset [0..<n]" and "0 < mb"
  shows "\<exists>bs. minibatches perm mb b = Inr bs \<and> mset (concat bs) = mset [0..<buffer_len b]
    \<and> (\<forall>c \<in> set bs. c \<noteq> [] \<and> length c \<le> nat mb)"
proof (cases "buffer_len b = 0")
  case False
  have "c \<noteq> [] \<and> length c \<le> nat mb" if "c \<in> set (chunks (nat mb) (perm (buffer_len b)))" for c
    using chunks_concat(2)[OF _ that] assms(2) by simp
  then show ?thesis using False assms(2) assms(1)[of "buffer_len b"] chunks_concat(1)[of "nat mb" "perm (buffer_len b)"]
    by (simp add: minibatches_def)
qed (simp add: minibatches_def)

text \<open>The lists of the buffer stay of one length, except the masks.\<close>

definition aligned :: "'t ppo_buffer \<Rightarrow> bool" where
  "aligned b \<longleftrightarrow> (let n = buffer_len b in length (pb_obs b) = n \<and> length (pb_actions b) = n \<and> length (pb_log_probs b) = n
     \<and> length (pb_entropies b) = n \<and> length (pb_aux b) = n \<and> length (pb_num_vnfs b) = n \<and> length (pb_states b) = n
     \<and> length (pb_values b) = n \<and> length (pb_dones b) = n \<and> length (pb_masks b) \<le> n)"

lemma aligned_kept: "aligned empty_buffer" "aligned b \<Longrightarrow> aligned (buffer_append_mdo e b)"
  "aligned b \<Longrightarrow> aligned (buffer_append_actor d t b)" "aligned b \<Longrightarrow> aligned (set_gae adv ret b)" "aligned (buffer_clear b)"
  by (auto simp: aligned_def empty_buffer_def buffer_append_mdo_def buffer_append_actor_def set_gae_def buffer_clear_def buffer_len_def Let_def
      split: option.split)

section \<open>Arrivals\<close>

lemma arrival_of_length [simp]: "length (arrival_of a ds) = length ds"
  by (induction ds arbitrary: a) simp_all

lemma arrival_of_nth: "i < length ds \<Longrightarrow> arrival_of a ds ! i = a + length (filter closes (take i ds))"
proof (induction ds arbitrary: a i)
  case (Cons d ds)
  then show ?case by (cases i) auto
qed simp

lemma term_count: "length (term_idx ds) = length (filter closes ds)"
proof -
  have "filter closes ds = filter closes (map ((!) ds) [0..<length ds])" by (simp only: map_nth)
  then show ?thesis unfolding term_idx_def filter_map comp_def by simp
qed

lemma last_arrival:
  assumes "ds \<noteq> []" and "closes (last ds)"
  shows "int (last (arrival_of 0 ds)) = int (length (term_idx ds)) - 1"
proof -
  have ne: "arrival_of 0 ds \<noteq> []" using assms(1) by (cases ds) simp_all
  have "last (arrival_of 0 ds) = length (filter closes (take (length ds - 1) ds))"
    using assms(1) by (simp add: last_conv_nth[OF ne] arrival_of_nth)
  moreover have "filter closes ds = filter closes (butlast ds) @ [last ds]"
    using assms by (subst append_butlast_last_id[OF assms(1), symmetric]) (simp del: append_butlast_last_id)
  ultimately show ?thesis by (simp add: term_count butlast_conv_take)
qed

lemma out_of_order_iff: "out_of_order ds \<longleftrightarrow> ds = [] \<or> \<not> closes (last ds)"
proof (cases "ds = []")
  case True
  then show ?thesis by (simp add: out_of_order_def term_idx_def)
next
  case False
  have "term_idx ds \<noteq> []" if "closes (last ds)"
    using that False by (auto simp: term_idx_def filter_empty_conv last_conv_nth)
  then show ?thesis using last_arrival[OF False] False by (auto simp: out_of_order_def)
qed

lemma arrival_below:
  assumes "\<not> out_of_order ds" and "i < length ds"
  shows "arrival_of 0 ds ! i < length (term_idx ds)"
proof -
  have ne: "ds \<noteq> []" and l: "closes (last ds)" using assms(1) by (simp_all add: out_of_order_iff)
  have "filter closes ds = filter closes (take i ds) @ filter closes (drop i ds)" by (simp flip: filter_append)
  moreover have "last ds \<in> set (drop i ds)" using assms(2) by (metis drop_eq_Nil last_drop last_in_set not_le)
  then have "filter closes (drop i ds) \<noteq> []" using l by (auto simp: filter_empty_conv)
  ultimately show ?thesis using assms(2) by (simp add: arrival_of_nth term_count)
qed

section \<open>Advantages\<close>

text \<open>The flags the stream is given: it ends at its last arrival only.\<close>

definition stream_end :: "nat \<Rightarrow> real list" where
  "stream_end n = (replicate n 0)[n - 1 := 1]"

lemma closing_entries_Inr:
  assumes "\<not> out_of_order dones" and "length rewards = length dones" and "length est = length dones"
  shows "closing_entries dones rewards est = Inr (map ((!) rewards) (term_idx dones), map ((!) est) (term_idx dones))"
proof -
  have "\<not> list_ex (\<lambda>i. length rewards \<le> i \<or> length est \<le> i) (term_idx dones)"
    using assms(2,3) by (auto simp: list_ex_iff term_idx_def)
  then show ?thesis using assms(1) by (simp add: closing_entries_def)
qed

lemma stream_gae:
  assumes "rs \<noteq> []" and "length vs = length rs"
  shows "compute_gae rs (vs @ [0]) (stream_end (length rs)) gamma lam =
    Inr (map (discounted_sum rs (vs @ [0]) (stream_end (length rs)) gamma lam) [0..<length rs],
         map (\<lambda>t. discounted_sum rs (vs @ [0]) (stream_end (length rs)) gamma lam t + vs ! t) [0..<length rs])"
proof -
  have n: "length (stream_end (length rs)) = length rs" by (simp add: stream_end_def)
  have "map2 (+) (map (discounted_sum rs (vs @ [0]) (stream_end (length rs)) gamma lam) [0..<length rs]) vs
      = map (\<lambda>t. discounted_sum rs (vs @ [0]) (stream_end (length rs)) gamma lam t + vs ! t) [0..<length rs]"
    using assms(2) by (intro nth_equalityI) auto
  then show ?thesis using gae_loop[of "vs @ [0]" rs "stream_end (length rs)" 0 gamma lam] assms n
    by (simp add: compute_gae_def Let_def)
qed

lemma no_smoothing:
  assumes "t < length rs"
  shows "discounted_sum rs vs ds gamma 0 t = td_error rs vs ds gamma t"
  using discounted_sum_step[OF assms, of vs ds gamma 0] by simp

lemma one_step:
  assumes "t < length rs" and "length vs = length rs"
  shows "td_error rs (vs @ [0]) (stream_end (length rs)) gamma t = rs ! t + gamma * (tl vs @ [0]) ! t - vs ! t"
proof (cases "t = length rs - 1")
  case True
  then have t: "t + 1 = length vs" using assms by simp
  then have "(vs @ [0]) ! (t + 1) = 0" "(tl vs @ [0]) ! t = 0" "(vs @ [0]) ! t = vs ! t" by (simp_all add: nth_append flip: t)
  then show ?thesis by (simp add: td_error_def)
next
  case False
  then have "t + 1 < length vs" "stream_end (length rs) ! t = 0" using assms by (simp_all add: stream_end_def)
  moreover from this have "(tl vs @ [0]) ! t = vs ! (t + 1)" "(vs @ [0]) ! (t + 1) = vs ! (t + 1)" "(vs @ [0]) ! t = vs ! t"
    by (auto simp: nth_append nth_tl)
  ultimately show ?thesis by (simp add: td_error_def)
qed

text \<open>
  C28: without smoothing the stream advantages are the one-step advantages: \<open>gae_over_arrivals\<close> with
  \<open>lam = 0\<close> and \<open>per_arrival_advantages\<close> in mode \<open>td0\<close> return the same, or raise the same, on every buffer.
\<close>

theorem stream_gae_td0:
  "gae_over_arrivals dones rewards est gamma 0 = per_arrival_advantages dones rewards est gamma ''td0''"
proof (cases "closing_entries dones rewards est")
  case (Inr p)
  obtain rs vs where p: "p = (rs, vs)" by (rule prod.exhaust)
  have l: "length vs = length rs" and ne: "rs \<noteq> []"
    using Inr p by (auto simp: closing_entries_def out_of_order_def split: if_splits)
  let ?d = "discounted_sum rs (vs @ [0]) (stream_end (length rs)) gamma 0" and ?next = "tl vs @ [0]"
  have d: "?d t = rs ! t + gamma * ?next ! t - vs ! t" if "t < length rs" for t
    using one_step[OF that l] no_smoothing[OF that] by simp
  have len: "length ?next = length rs" using l ne by (cases vs) auto
  have "map ?d [0..<length rs] = map2 (-) (map2 (\<lambda>r v. r + gamma * v) rs ?next) vs"
    using d l len by (intro nth_equalityI) auto
  moreover have "map (\<lambda>t. ?d t + vs ! t) [0..<length rs] = map2 (\<lambda>r v. r + gamma * v) rs ?next"
    using d l len by (intro nth_equalityI) auto
  ultimately show ?thesis
    using stream_gae[OF ne l, of gamma 0]
    by (simp add: gae_over_arrivals_def per_arrival_advantages_def Inr p stream_end_def)
qed (simp add: gae_over_arrivals_def per_arrival_advantages_def)

lemma whiten_order:
  assumes "i < length xs" and "j < length xs"
  shows "whiten xs ! i \<le> whiten xs ! j \<longleftrightarrow> xs ! i \<le> xs ! j"
proof -
  have "0 \<le> batch_std xs" if "1 < length xs"
    unfolding batch_std_def using that by (intro real_sqrt_ge_zero divide_nonneg_nonneg sum_list_nonneg) auto
  then have "0 < batch_std xs + tiny" if "1 < length xs" using that by (simp add: tiny_def add_nonneg_pos)
  then show ?thesis using assms by (auto simp: whiten_def divide_le_cancel)
qed

lemma whiten_centred:
  assumes "1 < length xs"
  shows "sum_list (whiten xs) = 0"
proof -
  have "sum_list (map (\<lambda>x. (x - m) / s) ys) = (sum_list ys - real (length ys) * m) / s" for m s :: real and ys
    by (induction ys) (simp_all add: algebra_simps add_divide_distrib diff_divide_distrib)
  then show ?thesis using assms by (simp add: whiten_def batch_mean_def)
qed

text \<open>
  C27: credit assignment over the stream. For a buffer whose last trial closes an arrival the computation does
  not raise; the return of a trial is the discounted sum of its arrival plus the value there, trials of one
  arrival share return and advantage, whitening keeps the order of the advantages, and when every trial is an
  arrival, as in the buffers of the runner, the advantages sum to zero.
\<close>

theorem credit_assignment_correct:
  fixes dones rewards est :: "real list" and gamma lam :: real
  assumes "dones \<noteq> []" and "closes (last dones)" and "length rewards = length dones" and "length est = length dones"
  defines "arr \<equiv> arrival_of 0 dones" and "rs \<equiv> map ((!) rewards) (term_idx dones)" and "vs \<equiv> map ((!) est) (term_idx dones)"
  defines "raw \<equiv> discounted_sum rs (vs @ [0]) (stream_end (length rs)) gamma lam"
  shows "\<exists>adv ret. gae_over_arrivals dones rewards est gamma lam = Inr (adv, ret)
    \<and> length adv = length dones \<and> length ret = length dones
    \<and> (\<forall>i < length dones. ret ! i = raw (arr ! i) + vs ! (arr ! i))
    \<and> (\<forall>i < length dones. \<forall>j < length dones. adv ! i \<le> adv ! j \<longleftrightarrow> raw (arr ! i) \<le> raw (arr ! j))
    \<and> (1 < length dones \<and> (\<forall>d \<in> set dones. closes d) \<longrightarrow> sum_list adv = 0)"
proof -
  have ord: "\<not> out_of_order dones" using assms(1,2) by (simp add: out_of_order_iff)
  have l: "length vs = length rs" by (simp add: vs_def rs_def)
  have ne: "rs \<noteq> []" using ord by (auto simp: rs_def out_of_order_def)
  let ?raws = "map raw [0..<length rs]" and ?rets = "map (\<lambda>t. raw t + vs ! t) [0..<length rs]"
  have run: "gae_over_arrivals dones rewards est gamma lam = Inr (broadcast dones (whiten ?raws), broadcast dones ?rets)"
    using stream_gae[OF ne l, of gamma lam] closing_entries_Inr[OF ord assms(3,4)]
    by (simp add: gae_over_arrivals_def stream_end_def rs_def vs_def raw_def)
  have b: "arr ! i < length rs" if "i < length dones" for i
    using arrival_below[OF ord that] by (simp add: arr_def rs_def)
  have n: "broadcast dones xs ! i = xs ! (arr ! i)" if "i < length dones" for i xs using that by (simp add: broadcast_def arr_def)
  have lw: "length (whiten ?raws) = length rs" by (simp add: whiten_def)
  have "sum_list (broadcast dones (whiten ?raws)) = 0" if "1 < length dones" "\<forall>d \<in> set dones. closes d"
  proof -
    have t: "length rs = length dones" using that(2) by (simp add: rs_def term_count filter_True)
    have "arr ! i = i" if "i < length dones" for i
      using that \<open>\<forall>d \<in> set dones. closes d\<close> by (simp add: arr_def arrival_of_nth) (subst filter_True, auto dest: in_set_takeD)
    then have "broadcast dones (whiten ?raws) = whiten ?raws" using lw t n by (intro nth_equalityI) (simp_all add: broadcast_def arr_def)
    then show ?thesis using whiten_centred[of ?raws] that(1) t by simp
  qed
  then show ?thesis
    unfolding run using b n whiten_order[of _ ?raws] by (intro exI conjI, simp) (simp_all add: broadcast_def arr_def)
qed

text \<open>
  The guard on the order of the buffer accepts every reordering of the buffers the runner fills, where every
  transition closes its arrival: it compares counts of the flags and never sees which transition is where.
\<close>

theorem order_guard_blind:
  assumes "dones \<noteq> []" and "\<forall>d \<in> set dones. closes d" and "length rewards = length dones" and "length est = length dones"
    and "mset p = mset [0..<length dones]"
  shows "\<exists>r. gae_over_arrivals (map ((!) dones) p) (map ((!) rewards) p) (map ((!) est) p) gamma lam = Inr r"
proof -
  have set: "set p = {..<length dones}" using mset_eq_setD[OF assms(5)] by (auto simp: atLeast0LessThan)
  have ne: "p \<noteq> []" using assms(1,5) by (cases p) (auto simp: upt_conv_Cons)
  have all: "\<forall>d \<in> set (map ((!) dones) p). closes d" using assms(2) set by auto
  then have "closes (last (map ((!) dones) p))" using ne by (metis last_in_set list.map_disc_iff)
  then have ord: "\<not> out_of_order (map ((!) dones) p)" using ne by (simp add: out_of_order_iff)
  let ?ds = "map ((!) dones) p" and ?rs = "map ((!) rewards) p" and ?vs = "map ((!) est) p"
  have c: "closing_entries ?ds ?rs ?vs = Inr (map ((!) ?rs) (term_idx ?ds), map ((!) ?vs) (term_idx ?ds))"
    by (rule closing_entries_Inr[OF ord]) simp_all
  have "map ((!) ?rs) (term_idx ?ds) \<noteq> []" using ord by (auto simp: out_of_order_def)
  from stream_gae[OF this, of "map ((!) ?vs) (term_idx ?ds)" gamma lam] show ?thesis
    by (simp add: gae_over_arrivals_def c stream_end_def)
qed

theorem credit_assignment_correct_witness:
  "\<exists>adv ret. gae_over_arrivals [0, 1, 1] [5, 1, 2] [7, 1 / 2, 1] 1 1 = Inr (adv, ret) \<and> ret ! 0 = ret ! 1 \<and> length adv = 3"
proof -
  have a: "arrival_of 0 [0, 1, 1 :: real] = [0, 0, 1]" by simp
  have "\<exists>adv ret. gae_over_arrivals [0, 1, 1] [5, 1, 2] [7, 1 / 2, 1] 1 1 = Inr (adv, ret) \<and> length adv = 3
    \<and> (\<forall>i < 3. ret ! i = (discounted_sum (map ((!) [5, 1, 2]) (term_idx [0, 1, 1])) (map ((!) [7, 1 / 2, 1]) (term_idx [0, 1, 1]) @ [0])
          (stream_end (length (map ((!) [5, 1, 2 :: real]) (term_idx [0, 1, 1])))) 1 1 ([0, 0, 1] ! i)
        + map ((!) [7, 1 / 2, 1]) (term_idx [0, 1, 1]) ! ([0, 0, 1] ! i)))"
    using credit_assignment_correct[of "[0, 1, 1]" "[5, 1, 2]" "[7, 1 / 2, 1]" 1 1] unfolding a by auto
  then show ?thesis by (elim exE conjE) (intro exI conjI, assumption, simp_all)
qed

theorem order_guard_blind_witness:
  "\<exists>r. gae_over_arrivals (map ((!) [1, 1, 1]) [2, 0, 1]) (map ((!) [3, 4, 5]) [2, 0, 1]) (map ((!) [0, 1, 2]) [2, 0, 1]) 1 1 = Inr r"
proof -
  have "mset [2, 0, 1] = mset [0..<length [1, 1, 1 :: real]]" by code_simp
  then show ?thesis using order_guard_blind[of "[1, 1, 1]" "[3, 4, 5]" "[0, 1, 2]" "[2, 0, 1]" 1 1] by simp
qed

end
