(* ===== verification/KL_Prior.thy ===== *)
theory KL_Prior
  imports Orion_Types
begin

text \<open>
  The divergence between the orchestrator's policy and the prior built from a suggested partition
  (\<open>src/src/orion/mdo/kl_prior.py\<close>). A matrix is a list of rows, one per VNF; the large negative
  logit that masks a domain is kept as it is in the code.

  Theorem: without the clamp every slot is already non-negative, and the divergence is zero exactly
  when both distributions agree on every slot that has a feasible domain.
\<close>

definition neginf_safe :: real where
  "neginf_safe = - (10 ^ 9)"

definition mask_row :: "bool list \<Rightarrow> real list \<Rightarrow> real list" where
  "mask_row m xs = map2 (\<lambda>b x. if b then x else neginf_safe) m xs"

definition log_softmax :: "real list \<Rightarrow> real list" where
  "log_softmax xs = map (\<lambda>x. x - ln (sum_list (map exp xs))) xs"

definition slot_kl :: "real list \<Rightarrow> real list \<Rightarrow> real" where
  "slot_kl xs ys = sum_list (map2 (\<lambda>p q. exp p * (p - q)) (log_softmax xs) (log_softmax ys))"

definition unmasked_kl :: "real list list \<Rightarrow> real list list \<Rightarrow> real" where
  "unmasked_kl P Q = sum_list (map2 (\<lambda>xs ys. max 0 (slot_kl xs ys)) P Q)"

text \<open>With a mask, the slots without any valid domain are taken out first.\<close>

definition analytical_kl :: "real list list \<Rightarrow> real list list \<Rightarrow> bool list list option \<Rightarrow> real" where
  "analytical_kl P Q tier_mask =
     (case tier_mask of
        None \<Rightarrow> unmasked_kl P Q
      | Some ms \<Rightarrow>
          let P' = map2 mask_row ms P; Q' = map2 mask_row ms Q;
              valid = map (list_ex (\<lambda>b. b)) ms
          in if list_all (\<lambda>b. b) valid then unmasked_kl P' Q'
             else let pick = \<lambda>rows. map snd (filter fst (zip valid rows))
                  in if pick P' = [] then 0 else unmasked_kl (pick P') (pick Q'))"

definition prior_row :: "int \<Rightarrow> nat \<Rightarrow> real \<Rightarrow> py_error + real list" where
  "prior_row d M temperature =
     (if temperature = 0 then Inl ZeroDivisionError
      else if 0 \<le> d \<and> nat d < M then Inr ((replicate M 0)[nat d := 1 / temperature])
      else if d < 0 \<and> nat (- d) \<le> M then Inr ((replicate M 0)[M - nat (- d) := 1 / temperature])
      else Inl IndexError)"

fun prior_rows :: "int list \<Rightarrow> nat \<Rightarrow> real \<Rightarrow> py_error + real list list" where
  "prior_rows [] M temperature = Inr []"
| "prior_rows (d # ds) M temperature =
     (case prior_row d M temperature of
        Inl e \<Rightarrow> Inl e
      | Inr r \<Rightarrow> map_sum id ((#) r) (prior_rows ds M temperature))"

definition build_prior_logits :: "int list \<Rightarrow> nat \<Rightarrow> bool list list \<Rightarrow> real \<Rightarrow> py_error + real list list" where
  "build_prior_logits suggested M tier_masks temperature =
     map_sum id (map2 mask_row tier_masks) (prior_rows suggested M temperature)"

definition beta_schedule :: "int \<Rightarrow> int \<Rightarrow> real \<Rightarrow> real \<Rightarrow> real" where
  "beta_schedule step total_steps beta_start beta_end =
     (if total_steps \<le> 0 then beta_end
      else beta_start + (beta_end - beta_start) * min (of_int step / of_int total_steps) 1)"

section \<open>Gibbs' inequality\<close>

lemma exp_gap: "exp p * (p - q) \<ge> exp p - exp (q :: real)" "exp p * (p - q) = exp p - exp q \<longleftrightarrow> p = q"
proof -
  have e: "exp q = exp p * exp (q - p)" by (simp add: exp_diff)
  have g: "1 + (q - p) \<le> exp (q - p)" by (rule exp_ge_add_one_self)
  have "exp p * (1 + (q - p)) \<le> exp p * exp (q - p)" using g by (intro mult_left_mono) simp_all
  then show "exp p * (p - q) \<ge> exp p - exp q" unfolding e by (simp add: algebra_simps)
  show "exp p * (p - q) = exp p - exp q \<longleftrightarrow> p = q"
  proof
    assume h: "exp p * (p - q) = exp p - exp q"
    then have "exp p * (p - q) = exp p * (1 - exp (q - p))" unfolding e by (simp add: algebra_simps)
    then have "exp (q - p) = 1 + (q - p)" by simp
    then have "exp (q - p) - 1 = q - p" by simp
    then have "ln (exp (q - p)) = exp (q - p) - 1" by (simp only: ln_exp)
    then have "exp (q - p) = 1" by (intro ln_eq_minus_one) simp_all
    then show "p = q" by simp
  qed simp
qed

lemma softmax_sums: "xs \<noteq> [] \<Longrightarrow> sum_list (map exp (log_softmax xs)) = 1"
proof -
  assume "xs \<noteq> []"
  then have pos: "0 < sum_list (map exp xs)"
    by (cases xs) (auto intro!: add_pos_nonneg sum_list_nonneg)
  have "sum_list (map exp (log_softmax xs)) = sum_list (map (\<lambda>x. exp x / sum_list (map exp xs)) xs)"
    using pos by (simp add: log_softmax_def comp_def exp_diff)
  also have "\<dots> = sum_list (map exp xs) / sum_list (map exp xs)"
    unfolding divide_inverse by (rule sum_list_mult_const)
  finally show ?thesis using pos by simp
qed

lemma gap_sum:
  fixes P Q :: "real list"
  assumes "length P = length Q"
  shows "sum_list (map (\<lambda>(p, q). exp p * (p - q) - (exp p - exp q)) (zip P Q))
    = sum_list (map (\<lambda>(p, q). exp p * (p - q)) (zip P Q)) - (sum_list (map exp P) - sum_list (map exp Q))"
  using assms by (induction P Q rule: list_induct2) simp_all

lemma slot_kl_gibbs:
  assumes "length xs = length ys" and "xs \<noteq> []"
  shows "0 \<le> slot_kl xs ys" and "slot_kl xs ys = 0 \<longleftrightarrow> log_softmax xs = log_softmax ys"
proof -
  let ?P = "log_softmax xs" and ?Q = "log_softmax ys"
  let ?z = "zip ?P ?Q"
  have len: "length ?P = length ?Q" using assms(1) by (simp add: log_softmax_def)
  have one: "sum_list (map exp ?P) = 1" "sum_list (map exp ?Q) = 1" using softmax_sums[of xs] softmax_sums[of ys] assms by fastforce+
  have eq: "slot_kl xs ys = sum_list (map (\<lambda>(p, q). exp p * (p - q) - (exp p - exp q)) ?z)"
    using gap_sum[OF len] one by (simp add: slot_kl_def)
  have nn: "\<And>x. x \<in> set (map (\<lambda>(p, q). exp p * (p - q) - (exp p - exp q)) ?z) \<Longrightarrow> 0 \<le> x"
    using exp_gap(1) by auto
  show "0 \<le> slot_kl xs ys" unfolding eq by (rule sum_list_nonneg) (rule nn)
  have "slot_kl xs ys = 0 \<longleftrightarrow> (\<forall>x \<in> set (map (\<lambda>(p, q). exp p * (p - q) - (exp p - exp q)) ?z). x = 0)"
    unfolding eq by (rule sum_list_nonneg_eq_0_iff) (rule nn)
  also have "\<dots> \<longleftrightarrow> (\<forall>(p, q) \<in> set ?z. p = q)" using exp_gap(2) by auto
  also have "\<dots> \<longleftrightarrow> ?P = ?Q"
    using len by (auto simp: set_zip list_eq_iff_nth_eq)
  finally show "slot_kl xs ys = 0 \<longleftrightarrow> ?P = ?Q" .
qed

section \<open>The masked divergence\<close>

definition feasible_slots :: "bool list list \<Rightarrow> real list list \<Rightarrow> real list list \<Rightarrow> (real list \<times> real list) list" where
  "feasible_slots ms P Q =
     map (\<lambda>(m, xs, ys). (mask_row m xs, mask_row m ys)) (filter (\<lambda>(m, xs, ys). list_ex (\<lambda>b. b) m) (zip ms (zip P Q)))"

lemma picked_slots:
  assumes "length ms = length P" and "length P = length Q"
  shows "zip (map snd (filter fst (zip (map (list_ex (\<lambda>b. b)) ms) (map2 mask_row ms P))))
      (map snd (filter fst (zip (map (list_ex (\<lambda>b. b)) ms) (map2 mask_row ms Q)))) = feasible_slots ms P Q"
  using assms by (induction ms P Q rule: list_induct3) (simp_all add: feasible_slots_def)

lemma all_slots:
  assumes "length ms = length P" and "length P = length Q" and "list_all (\<lambda>b. b) (map (list_ex (\<lambda>b. b)) ms)"
  shows "zip (map2 mask_row ms P) (map2 mask_row ms Q) = feasible_slots ms P Q"
  using assms by (induction ms P Q rule: list_induct3) (simp_all add: feasible_slots_def)

lemma analytical_kl_slots:
  assumes "length ms = length P" and "length P = length Q"
  shows "analytical_kl P Q (Some ms) = sum_list (map (\<lambda>(xs, ys). max 0 (slot_kl xs ys)) (feasible_slots ms P Q))"
proof -
  note slots = picked_slots[OF assms]
  show ?thesis
  proof (cases "list_all (\<lambda>b. b) (map (list_ex (\<lambda>b. b)) ms)")
    case True
    then show ?thesis by (simp only: analytical_kl_def option.case Let_def if_True unmasked_kl_def all_slots[OF assms True])
  next
    case False
    show ?thesis
    proof (cases "map snd (filter fst (zip (map (list_ex (\<lambda>b. b)) ms) (map2 mask_row ms P))) = []")
      case True
      with slots have "feasible_slots ms P Q = []" by simp
      with True False show ?thesis by (simp only: analytical_kl_def option.case Let_def if_False if_True list.map sum_list.Nil simp_thms)
    next
      case nonempty: False
      with False show ?thesis by (simp only: analytical_kl_def option.case Let_def if_False unmasked_kl_def slots)
    qed
  qed
qed

text \<open>
  The divergence is a divergence. On rows of one width it is the sum of the slot divergences
  over the slots that have a feasible domain, the clamp at zero never acts, and it is zero exactly
  when policy and prior are the same distribution on every such slot.
\<close>

theorem analytical_kl_correct:
  assumes "length ms = length P" and "length P = length Q" and "0 < n"
    and "list_all (\<lambda>xs. length xs = n) P" and "list_all (\<lambda>xs. length xs = n) Q" and "list_all (\<lambda>m. length m = n) ms"
  shows "0 \<le> analytical_kl P Q (Some ms)
    \<and> analytical_kl P Q (Some ms) = sum_list (map (\<lambda>(xs, ys). slot_kl xs ys) (feasible_slots ms P Q))
    \<and> (analytical_kl P Q (Some ms) = 0 \<longleftrightarrow>
         (\<forall>k < length P. list_ex (\<lambda>b. b) (ms ! k) \<longrightarrow> log_softmax (mask_row (ms ! k) (P ! k)) = log_softmax (mask_row (ms ! k) (Q ! k))))"
proof -
  let ?s = "feasible_slots ms P Q"
  have wide: "length xs = length ys \<and> xs \<noteq> []" if h: "(xs, ys) \<in> set ?s" for xs ys
  proof -
    obtain m x y where z: "(m, x, y) \<in> set (zip ms (zip P Q))" "xs = mask_row m x" "ys = mask_row m y"
      using h by (auto simp: feasible_slots_def)
    then have "m \<in> set ms" "x \<in> set P" "y \<in> set Q"
      by (meson set_zip_leftD set_zip_rightD)+
    then have "length m = n" "length x = n" "length y = n" using assms(4-6) by (simp_all add: list_all_iff)
    then have "length xs = n" "length ys = n" by (simp_all add: z mask_row_def)
    then show ?thesis using assms(3) by auto
  qed
  have "set (zip ms (zip P Q)) = {(ms ! k, P ! k, Q ! k) | k. k < length P}"
    using assms(1,2) by (auto simp: set_zip)
  then have z: "set ?s = {(mask_row (ms ! k) (P ! k), mask_row (ms ! k) (Q ! k)) | k. k < length P \<and> list_ex (\<lambda>b. b) (ms ! k)}"
    unfolding feasible_slots_def set_map set_filter by (auto simp: image_iff) blast
  have nn: "0 \<le> slot_kl xs ys" if "(xs, ys) \<in> set ?s" for xs ys
    using slot_kl_gibbs(1) wide[OF that] by blast
  have eq: "analytical_kl P Q (Some ms) = sum_list (map (\<lambda>(xs, ys). slot_kl xs ys) ?s)"
    unfolding analytical_kl_slots[OF assms(1,2)]
    by (intro arg_cong[of _ _ sum_list] map_cong refl) (use nn in \<open>auto simp: max_def\<close>)
  have "analytical_kl P Q (Some ms) = 0 \<longleftrightarrow> (\<forall>x \<in> set (map (\<lambda>(xs, ys). slot_kl xs ys) ?s). x = 0)"
    unfolding eq by (rule sum_list_nonneg_eq_0_iff) (use nn in auto)
  also have "\<dots> \<longleftrightarrow> (\<forall>(xs, ys) \<in> set ?s. log_softmax xs = log_softmax ys)"
    using slot_kl_gibbs(2) wide by fastforce
  also have "\<dots> \<longleftrightarrow> (\<forall>k < length P. list_ex (\<lambda>b. b) (ms ! k) \<longrightarrow>
      log_softmax (mask_row (ms ! k) (P ! k)) = log_softmax (mask_row (ms ! k) (Q ! k)))"
    unfolding z by blast
  finally show ?thesis using eq nn by (auto intro!: sum_list_nonneg)
qed

theorem analytical_kl_correct_witness:
  "analytical_kl [[1, 2], [0, 0]] [[1, 2], [5, 0]] (Some [[True, True], [False, False]]) = 0"
  by (rule analytical_kl_correct[where n = 2, THEN conjunct2, THEN conjunct2, THEN iffD2]) (auto simp: less_Suc_eq)

end
