(* ===== verification/PPO_Update.thy ===== *)
theory PPO_Update
  imports KL_Prior Actor_PPO
begin

text \<open>
  The minibatch objective of the orchestrator's policy and of the critic (\<open>src/src/orion/training/ppo_update.py\<close>).
  The policy is a parameter: what it returns when the recorded actions are evaluated again. The critic's new
  values are an argument.

  Theorems: on the data it was sampled from the objective is minus the mean advantage, with nothing clipped;
  the divergence term is never negative and clipping the value loss never lowers it; the reported clip fraction
  is not a fraction.
\<close>

section \<open>Inputs and metrics\<close>

record 'o ppo_sample =
  sp_obs :: 'o
  sp_masks :: "bool list list"
  sp_actions :: "int list"
  sp_old_log_probs :: "real list"
  sp_advantage :: real
  sp_num_vnfs :: nat
  sp_suggested :: "int list"

record ppo_options =
  op_temperature :: real
  op_clip :: real
  op_value_coef :: real
  op_entropy_coef :: real
  op_beta :: real
  op_clip_value :: bool

record ppo_metrics =
  me_policy_loss :: real
  me_value_loss :: real
  me_entropy_bonus :: real
  me_kl_term :: real
  me_approx_kl :: real
  me_clip_fraction :: real
  me_total :: real

definition no_metrics :: ppo_metrics where
  "no_metrics = \<lparr>me_policy_loss = 0, me_value_loss = 0, me_entropy_bonus = 0, me_kl_term = 0, me_approx_kl = 0,
     me_clip_fraction = 0, me_total = 0\<rparr>"

type_synonym 'o evaluator = "'o \<Rightarrow> bool list list \<Rightarrow> int list \<Rightarrow> nat \<Rightarrow> py_error + real list \<times> real \<times> real list list"

section \<open>One sample\<close>

record ppo_sums =
  su_policy :: real
  su_entropy :: real
  su_kl :: real
  su_approx :: real
  su_clipped :: nat
  su_samples :: nat

definition no_sums :: ppo_sums where
  "no_sums = \<lparr>su_policy = 0, su_entropy = 0, su_kl = 0, su_approx = 0, su_clipped = 0, su_samples = 0\<rparr>"

definition ratios_of :: "real list \<Rightarrow> real list \<Rightarrow> real list" where
  "ratios_of new old = map2 (\<lambda>x y. exp (x - y)) new old"

definition is_clipped :: "real \<Rightarrow> real \<Rightarrow> bool" where
  "is_clipped eps ratio \<longleftrightarrow> ratio < 1 - eps \<or> ratio > 1 + eps"

definition add_sample :: "ppo_options \<Rightarrow> 'o evaluator \<Rightarrow> 'o ppo_sample \<Rightarrow> ppo_sums \<Rightarrow> py_error + ppo_sums" where
  "add_sample op ev s su =
     (let k = sp_num_vnfs s; old = take k (sp_old_log_probs s); msk = take k (sp_masks s) in
      if k = 0 then Inr su
      else case ev (sp_obs s) (sp_masks s) (take k (sp_actions s)) k of
          Inl e \<Rightarrow> Inl e
        | Inr (new, ent, logits) \<Rightarrow>
            let ratios = ratios_of new old in
            map_sum id (\<lambda>prior.
                \<lparr>su_policy = su_policy su + batch_mean (map (\<lambda>r. surrogate (op_clip op) r (sp_advantage s)) ratios),
                 su_entropy = su_entropy su + ent,
                 su_kl = su_kl su + analytical_kl logits prior (Some msk),
                 su_approx = su_approx su + batch_mean (map2 (-) old new),
                 su_clipped = su_clipped su + length (filter (is_clipped (op_clip op)) ratios),
                 su_samples = su_samples su + 1\<rparr>)
              (build_prior_logits (take k (sp_suggested s)) (length (hd logits)) msk (op_temperature op)))"

section \<open>The objective\<close>

definition value_loss :: "ppo_options \<Rightarrow> real list \<Rightarrow> real list \<Rightarrow> real list \<Rightarrow> real" where
  "value_loss op new old rets =
     (let raw = map2 (\<lambda>v r. (v - r)\<^sup>2) new rets;
          held = map2 (\<lambda>v r. (v - r)\<^sup>2) (map2 (\<lambda>v w. w + clamp (- op_clip op) (op_clip op) (v - w)) new old) rets
      in if op_clip_value op then 1 / 2 * batch_mean (map2 max raw held) else 1 / 2 * batch_mean raw)"

definition metrics_of :: "ppo_options \<Rightarrow> ppo_sums \<Rightarrow> real \<Rightarrow> ppo_metrics" where
  "metrics_of op su v =
     (let n = real (su_samples su); p = su_policy su / n; ent = su_entropy su / n; kl = su_kl su / n in
      \<lparr>me_policy_loss = p, me_value_loss = v, me_entropy_bonus = op_entropy_coef op * ent, me_kl_term = op_beta op * kl,
       me_approx_kl = su_approx su / n, me_clip_fraction = real (su_clipped su) / real (max (su_samples su) 1),
       me_total = p + op_value_coef op * v - op_entropy_coef op * ent + op_beta op * kl\<rparr>)"

text \<open>The total is both the returned loss and a metric; without usable samples both are zero.\<close>

definition ppo_mdo_update :: "ppo_options \<Rightarrow> 'o evaluator \<Rightarrow> 'o ppo_sample list \<Rightarrow> real list \<Rightarrow> real list \<Rightarrow> real list
    \<Rightarrow> py_error + real \<times> ppo_metrics" where
  "ppo_mdo_update op ev samples new_values old_values rets =
     (if samples = [] then Inr (0, no_metrics)
      else map_sum id (\<lambda>su. if su_samples su = 0 then (0, no_metrics)
               else let m = metrics_of op su (value_loss op new_values old_values rets) in (me_total m, m))
             (fold_err (add_sample op ev) samples no_sums))"

text \<open>Of at least two values; of one value torch's variance is not a number.\<close>

definition explained_variance :: "real list \<Rightarrow> real list \<Rightarrow> real" where
  "explained_variance rets vs =
     (if (batch_std rets)\<^sup>2 \<le> tiny then 0 else 1 - (batch_std (map2 (-) rets vs))\<^sup>2 / (batch_std rets)\<^sup>2)"

section \<open>On the data it was sampled from\<close>

text \<open>The policy returns the recorded log-probabilities of the sample, with logits that fit the advice.\<close>

definition on_policy :: "ppo_options \<Rightarrow> 'o evaluator \<Rightarrow> 'o ppo_sample \<Rightarrow> bool" where
  "on_policy op ev s \<longleftrightarrow>
     (let k = sp_num_vnfs s in k = 0 \<or> (k \<le> length (sp_old_log_probs s)
       \<and> (\<exists>ent logits prior. ev (sp_obs s) (sp_masks s) (take k (sp_actions s)) k = Inr (take k (sp_old_log_probs s), ent, logits)
            \<and> build_prior_logits (take k (sp_suggested s)) (length (hd logits)) (take k (sp_masks s)) (op_temperature op) = Inr prior)))"

lemma kl_nonneg: "0 \<le> analytical_kl P Q m"
proof -
  have "0 \<le> unmasked_kl A B" for A B by (auto simp: unmasked_kl_def intro!: sum_list_nonneg)
  then show ?thesis by (auto simp: analytical_kl_def Let_def split: option.split)
qed

lemma mean_replicate: "0 < n \<Longrightarrow> batch_mean (replicate n x) = x"
  by (simp add: batch_mean_def sum_list_replicate)

lemma on_policy_sample:
  assumes "on_policy op ev s" and "0 \<le> op_clip op" and "0 < sp_num_vnfs s"
  shows "\<exists>su'. add_sample op ev s su = Inr su' \<and> su_policy su' = su_policy su - sp_advantage s \<and> su_approx su' = su_approx su
    \<and> su_clipped su' = su_clipped su \<and> su_samples su' = su_samples su + 1 \<and> su_kl su \<le> su_kl su'"
proof -
  let ?k = "sp_num_vnfs s" and ?old = "take (sp_num_vnfs s) (sp_old_log_probs s)"
  have k: "?k \<le> length (sp_old_log_probs s)" using assms(1,3) by (auto simp: on_policy_def Let_def)
  obtain ent logits prior where ev: "ev (sp_obs s) (sp_masks s) (take ?k (sp_actions s)) ?k = Inr (?old, ent, logits)"
    and pr: "build_prior_logits (take ?k (sp_suggested s)) (length (hd logits)) (take ?k (sp_masks s)) (op_temperature op) = Inr prior"
    using assms(1,3) by (auto simp: on_policy_def Let_def)
  have r: "ratios_of ?old ?old = replicate ?k 1" using k by (intro nth_equalityI) (simp_all add: ratios_of_def)
  have d: "map2 (-) ?old ?old = replicate ?k 0" using k by (intro nth_equalityI) simp_all
  have "surrogate (op_clip op) 1 a = - a" for a using assms(2) by (simp add: surrogate_def clamp_def)
  moreover have "\<not> is_clipped (op_clip op) 1" using assms(2) by (simp add: is_clipped_def)
  ultimately show ?thesis
    using assms(3) kl_nonneg mean_replicate[OF assms(3)] by (simp add: add_sample_def Let_def ev pr r d)
qed

definition used :: "'o ppo_sample list \<Rightarrow> 'o ppo_sample list" where
  "used ss = filter (\<lambda>s. sp_num_vnfs s \<noteq> 0) ss"

lemma on_policy_samples:
  assumes "\<forall>s \<in> set ss. on_policy op ev s" and "0 \<le> op_clip op"
  shows "\<exists>su'. fold_err (add_sample op ev) ss su = Inr su' \<and> su_policy su' = su_policy su - sum_list (map sp_advantage (used ss))
    \<and> su_approx su' = su_approx su \<and> su_clipped su' = su_clipped su \<and> su_samples su' = su_samples su + length (used ss) \<and> su_kl su \<le> su_kl su'"
  using assms(1)
proof (induction ss arbitrary: su)
  case (Cons s ss)
  have ss: "\<forall>s \<in> set ss. on_policy op ev s" and s: "on_policy op ev s" using Cons.prems by simp_all
  show ?case
  proof (cases "sp_num_vnfs s = 0")
    case True
    then show ?thesis using Cons.IH[OF ss, of su] by (simp add: add_sample_def used_def)
  next
    case False
    then obtain su1 where 1: "add_sample op ev s su = Inr su1" "su_policy su1 = su_policy su - sp_advantage s" "su_approx su1 = su_approx su"
      "su_clipped su1 = su_clipped su" "su_samples su1 = su_samples su + 1" "su_kl su \<le> su_kl su1"
      using on_policy_sample[OF s assms(2), of su] by auto
    obtain su2 where 2: "fold_err (add_sample op ev) ss su1 = Inr su2" "su_policy su2 = su_policy su1 - sum_list (map sp_advantage (used ss))"
      "su_approx su2 = su_approx su1" "su_clipped su2 = su_clipped su1" "su_samples su2 = su_samples su1 + length (used ss)" "su_kl su1 \<le> su_kl su2"
      using Cons.IH[OF ss, of su1] by auto
    show ?thesis using False 1 2 by (auto simp: used_def)
  qed
qed (simp add: used_def)

lemma mean_mono: "length xs = length ys \<Longrightarrow> (\<And>i. i < length xs \<Longrightarrow> xs ! i \<le> ys ! i) \<Longrightarrow> batch_mean xs \<le> batch_mean ys"
  unfolding batch_mean_def by (auto intro!: divide_right_mono sum_list_mono2)

lemma value_loss_pessimistic:
  assumes "length old = length new" and "length rets = length new"
  shows "value_loss (op\<lparr>op_clip_value := False\<rparr>) new old rets \<le> value_loss (op\<lparr>op_clip_value := True\<rparr>) new old rets"
  using assms by (simp add: value_loss_def Let_def) (intro mean_mono, simp_all)

text \<open>
  The first step of an update. When the policy still gives the recorded log-probabilities, the objective
  does not raise: its policy part is minus the mean advantage of the arrivals with a chain, nothing is clipped,
  the divergence estimate is zero, and the advisory term is not negative for a non-negative weight.
\<close>

theorem first_step_objective:
  assumes "\<forall>s \<in> set samples. on_policy op ev s" and "0 \<le> op_clip op" and "used samples \<noteq> []"
  shows "\<exists>m. ppo_mdo_update op ev samples new_values old_values rets = Inr (me_total m, m)
    \<and> me_policy_loss m = - batch_mean (map sp_advantage (used samples)) \<and> me_clip_fraction m = 0 \<and> me_approx_kl m = 0
    \<and> (0 \<le> op_beta op \<longrightarrow> 0 \<le> me_kl_term m)"
proof -
  from on_policy_samples[OF assms(1,2), of no_sums] obtain su where
    su: "fold_err (add_sample op ev) samples no_sums = Inr su" "su_policy su = - sum_list (map sp_advantage (used samples))"
    "su_approx su = 0" "su_clipped su = 0" "su_samples su = length (used samples)" "0 \<le> su_kl su" by (auto simp: no_sums_def)
  have "samples \<noteq> []" using assms(3) by (auto simp: used_def)
  then have "ppo_mdo_update op ev samples new_values old_values rets
      = Inr (me_total (metrics_of op su (value_loss op new_values old_values rets)), metrics_of op su (value_loss op new_values old_values rets))"
    using su(1,5) assms(3) by (simp add: ppo_mdo_update_def Let_def)
  then show ?thesis
    using su(2-6) by (intro exI[of _ "metrics_of op su (value_loss op new_values old_values rets)"]) (simp add: metrics_of_def Let_def batch_mean_def)
qed

definition ex_options :: ppo_options where
  "ex_options = \<lparr>op_temperature = 1, op_clip = 2 / 10, op_value_coef = 1 / 2, op_entropy_coef = 1 / 100, op_beta = 1, op_clip_value = True\<rparr>"

definition ex_sample :: "unit ppo_sample" where
  "ex_sample = \<lparr>sp_obs = (), sp_masks = [[True, True], [True, True]], sp_actions = [0, 1], sp_old_log_probs = [0, 0], sp_advantage = 3,
     sp_num_vnfs = 2, sp_suggested = [0, 0]\<rparr>"

theorem first_step_objective_witness:
  "\<exists>m. ppo_mdo_update ex_options (\<lambda>_ _ _ _. Inr ([0, 0], 0, [[0, 0], [0, 0]])) [ex_sample] [0] [0] [0] = Inr (me_total m, m)
     \<and> me_policy_loss m = - 3 \<and> me_clip_fraction m = 0"
proof -
  have "on_policy ex_options (\<lambda>_ _ _ _. Inr ([0, 0], 0, [[0, 0], [0, 0]])) ex_sample"
    by (simp add: on_policy_def ex_sample_def ex_options_def build_prior_logits_def prior_row_def Let_def)
  moreover have "0 \<le> op_clip ex_options" by (simp add: ex_options_def)
  moreover have "used [ex_sample] = [ex_sample]" by (simp add: used_def ex_sample_def)
  ultimately show ?thesis
    using first_step_objective[of "[ex_sample]" ex_options "\<lambda>_ _ _ _. Inr ([0, 0], 0, [[0, 0], [0, 0]])" "[0]" "[0]" "[0]"]
    by (auto simp: batch_mean_def ex_sample_def)
qed

text \<open>
  The reported clip fraction is not one: clipped slots are counted per VNF and divided by the number of
  arrivals, so a single chain of two VNFs with both ratios outside the bounds reports 2.
\<close>

theorem clip_fraction_overshoots:
  "\<exists>m. ppo_mdo_update ex_options (\<lambda>_ _ _ _. Inr ([1, 1], 0, [[0, 0], [0, 0]])) [ex_sample] [0] [0] [0] = Inr (me_total m, m)
     \<and> me_clip_fraction m = 2"
proof -
  have "1 + 2 / 10 < exp (1 :: real)" using exp_ge_add_one_self[of 1] by simp
  then have "filter (is_clipped (2 / 10)) (ratios_of [1, 1] [0, 0]) = [exp 1, exp 1]" by (simp add: ratios_of_def is_clipped_def)
  then show ?thesis
    by (simp add: ppo_mdo_update_def add_sample_def ex_sample_def ex_options_def build_prior_logits_def prior_row_def Let_def no_sums_def metrics_of_def)
qed

end
