(* ===== verification/Observation_Tensor.thy ===== *)
theory Observation_Tensor
  imports Observation
begin

text \<open>
  The vectors the networks read: \<open>observation_to_tensor\<close> of \<open>src/src/orion/mdo/observation.py\<close> for the
  orchestrator's policy and \<open>encode_global_state\<close> of \<open>src/src/orion/training/global_state.py\<close> for the critic.
  A tensor is the list of its entries, over the reals. \<open>math.log1p\<close> is \<open>ln (1 + x)\<close>.

  Theorems: the width depends on the substrate only; the fit tests of the placement can be read off the
  vector; where the two encodings agree and where they do not.
\<close>

section \<open>Normalisers\<close>

definition delay_ref :: real where
  "delay_ref = 100"

definition tier_index_norm :: real where
  "tier_index_norm = real (length tier_order - 1)"

text \<open>\<open>max(xs, default=1.0) or 1.0\<close>.\<close>

definition max_default :: "real list \<Rightarrow> real" where
  "max_default xs = (if xs = [] then 1 else if Max (set xs) = 0 then 1 else Max (set xs))"

definition ratio_or_zero :: "real \<Rightarrow> real \<Rightarrow> real" where
  "ratio_or_zero res cap = (if cap > 0 then res / cap else 0)"

text \<open>Every aggregated link has a finite delay (lemma \<open>built_delays_finite\<close> of \<open>Observation_Width\<close>).\<close>

definition delay_of :: "inter_domain_link \<Rightarrow> real" where
  "delay_of l = (case il_delay l of Fin x \<Rightarrow> x | PInf \<Rightarrow> 0)"

record norms =
  nm_cpu :: real
  nm_ram :: real
  nm_bw :: real
  nm_delay :: real

definition norms_of :: "domain_summary list \<Rightarrow> inter_domain_link list \<Rightarrow> norms" where
  "norms_of ss ls = \<lparr>nm_cpu = max_default (map ds_cpu_capacity ss), nm_ram = max_default (map ds_ram_capacity ss),
     nm_bw = max_default (map il_bw_capacity ls), nm_delay = max_default (map delay_of ls)\<rparr>"

section \<open>The policy's vector\<close>

definition tier_block :: "norms \<Rightarrow> domain_summary \<Rightarrow> tier \<Rightarrow> real list" where
  "tier_block nm s t =
     [ds_tier_cpu s t / nm_cpu nm, ds_tier_ram s t / nm_ram nm, ds_max_node_cpu s t / nm_cpu nm, ds_max_node_ram s t / nm_ram nm]"

definition domain_block :: "norms \<Rightarrow> domain_summary \<Rightarrow> real list" where
  "domain_block nm s =
     [ratio_or_zero (ds_cpu_residual s) (ds_cpu_capacity s), ratio_or_zero (ds_ram_residual s) (ds_ram_capacity s),
      ds_cpu_capacity s / nm_cpu nm, ds_ram_capacity s / nm_ram nm, real (tier_index (ds_dominant s)) / tier_index_norm]
     @ concat (map (tier_block nm s) tier_order)"

definition link_block :: "norms \<Rightarrow> inter_domain_link \<Rightarrow> real list" where
  "link_block nm l =
     [ratio_or_zero (il_bw_residual l) (il_bw_capacity l), il_bw_capacity l / nm_bw nm, delay_of l / nm_delay nm]"

definition domain_feat_dim :: nat where
  "domain_feat_dim = 5 + 4 * length tier_order"

definition link_feat_dim :: nat where
  "link_feat_dim = 3"

definition vnf_feat_dim :: nat where
  "vnf_feat_dim = 5"

definition slice_feat_dim :: nat where
  "slice_feat_dim = 6"

text \<open>The one-hot of the suggested domain, in canonical index space; the last summary of a domain wins, as in a dictionary.\<close>

definition proposal_index :: "domain_summary list \<Rightarrow> int \<Rightarrow> nat option" where
  "proposal_index ss m = map_of (rev (map (\<lambda>(i, s). (ds_domain s, i)) (enumerate 0 ss))) m"

definition proposal_block :: "domain_summary list \<Rightarrow> plan_summary \<Rightarrow> nat \<Rightarrow> real list" where
  "proposal_block ss p k =
     (case (if k < length (ps_suggested p) then proposal_index ss (ps_suggested p ! k) else None) of
        None \<Rightarrow> replicate (length ss) 0
      | Some c \<Rightarrow> (replicate (length ss) 0)[c := 1])"

text \<open>One VNF slot; the per-VNF lists raise \<open>IndexError\<close> where they are too short.\<close>

definition vnf_block :: "norms \<Rightarrow> domain_summary list \<Rightarrow> plan_summary \<Rightarrow> nat \<Rightarrow> py_error + real list" where
  "vnf_block nm ss p k =
     (if num_vnfs p \<le> k then Inr (replicate (vnf_feat_dim + length ss) 0)
      else if length (ps_tiers p) \<le> k \<or> length (ps_cpu p) \<le> k \<or> length (ps_ram p) \<le> k \<or> length (ps_vcrs p) \<le> k then Inl IndexError
      else Inr ([ps_cpu p ! k / nm_cpu nm, ps_ram p ! k / nm_ram nm, real (tier_index (ps_tiers p ! k)) / tier_index_norm,
             ps_vcrs p ! k, if k < length (ps_bw p) then ps_bw p ! k / nm_bw nm else 0] @ proposal_block ss p k))"

definition delay_features :: "real \<Rightarrow> real list" where
  "delay_features d = (if d > 0 then [min 1 (d / delay_ref), ln (1 + d) / ln (1 + delay_ref)] else [0, 0])"

definition slice_features :: "qos_requirements \<Rightarrow> plan_summary \<Rightarrow> norms \<Rightarrow> nat \<Rightarrow> real list" where
  "slice_features q p nm max_vnfs =
     delay_features (max_e2e_delay q)
     @ [min_throughput q / nm_bw nm, real (num_vnfs p) / real (max 1 max_vnfs),
        sum_list (ps_cpu p) / nm_cpu nm, sum_list (ps_ram p) / nm_ram nm]"

definition slice_block :: "qos_requirements option \<Rightarrow> plan_summary \<Rightarrow> norms \<Rightarrow> nat \<Rightarrow> real list" where
  "slice_block q p nm max_vnfs = (case q of None \<Rightarrow> replicate slice_feat_dim 0 | Some q \<Rightarrow> slice_features q p nm max_vnfs)"

text \<open>\<open>obs.qos\<close> is an argument: the observation of the coordinator always has one, a width probe has none.\<close>

definition observation_to_tensor :: "nat \<Rightarrow> mdo_observation \<Rightarrow> qos_requirements option \<Rightarrow> py_error + real list" where
  "observation_to_tensor max_vnfs ob q =
     (let ss = ob_domains ob; ls = ob_links ob; p = ob_plan ob; nm = norms_of ss ls in
      map_sum id (\<lambda>plan. concat (map (domain_block nm) ss) @ concat (map (link_block nm) ls) @ plan @ slice_block q p nm max_vnfs)
        (fold_err (\<lambda>k out. map_sum id (\<lambda>b. out @ b) (vnf_block nm ss p k)) [0..<max_vnfs] []))"

section \<open>The critic's vector\<close>

record global_stats =
  gs_arrivals :: nat
  gs_admitted :: nat
  gs_rejected :: nat
  gs_horizon :: nat

definition request_feat_dim :: nat where
  "request_feat_dim = 8"

definition critic_tier_norm :: real where
  "critic_tier_norm = 3"

definition max_demand :: "real list \<Rightarrow> real \<Rightarrow> real" where
  "max_demand xs cap = (if xs = [] then 0 else Max (set xs) / cap)"

definition request_features :: "slice_request option \<Rightarrow> norms \<Rightarrow> real list" where
  "request_features req nm =
     (case req of
        None \<Rightarrow> replicate request_feat_dim 0
      | Some r \<Rightarrow>
          (let cpu = map cpu_demand (vnfs r); ram = map ram_demand (vnfs r) in
           delay_features (max_e2e_delay (qos_of r))
           @ [min_throughput (qos_of r) / nm_bw nm, real (length (vnfs r)) / 10, sum_list cpu / nm_cpu nm, sum_list ram / nm_ram nm,
              max_demand cpu (nm_cpu nm), max_demand ram (nm_ram nm)]))"

definition intra_bw_residual_frac :: "'a graph_scheme \<Rightarrow> int \<Rightarrow> real" where
  "intra_bw_residual_frac g m =
     (let ns = nodes_in_domain g m;
          ds = map snd (filter (\<lambda>((u, v), d). u \<in> set ns \<and> v \<in> set ns) (g_edges g))
      in if ns = [] then 0 else ratio_or_zero (sum_list (map bw_residual ds)) (sum_list (map bandwidth_capacity ds)))"

fun touches_domain :: "'a graph_scheme \<Rightarrow> int \<Rightarrow> node_id list \<Rightarrow> py_error + bool" where
  "touches_domain g m [] = Inr False"
| "touches_domain g m (n # ns) =
     (case map_of (g_nodes g) n of
        None \<Rightarrow> Inl KeyError
      | Some d \<Rightarrow> if domain_id d = m then Inr True else touches_domain g m ns)"

definition active_slice_count_in_domain :: "substrate \<Rightarrow> int \<Rightarrow> py_error + nat" where
  "active_slice_count_in_domain S m =
     fold_err (\<lambda>(rid, plan, req) k. map_sum id (\<lambda>b. if b then k + 1 else k) (touches_domain S m (vals (vnf_placements plan))))
       (active_slices S) 0"

definition critic_domain_block :: "norms \<Rightarrow> substrate \<Rightarrow> domain_summary \<Rightarrow> py_error + real list" where
  "critic_domain_block nm S s =
     map_sum id (\<lambda>k.
       [ratio_or_zero (ds_cpu_residual s) (ds_cpu_capacity s), ratio_or_zero (ds_ram_residual s) (ds_ram_capacity s),
        ds_cpu_capacity s / nm_cpu nm, ds_ram_capacity s / nm_ram nm, real (tier_index (ds_dominant s)) / critic_tier_norm,
        intra_bw_residual_frac S (ds_domain s), real k / 32])
      (active_slice_count_in_domain S (ds_domain s))"

definition global_block :: "global_stats \<Rightarrow> real list" where
  "global_block st = map (\<lambda>x. real x / real (max (gs_horizon st) 1)) [gs_arrivals st, gs_admitted st, gs_rejected st]"

definition encode_global_state :: "substrate \<Rightarrow> global_stats \<Rightarrow> slice_request option \<Rightarrow> py_error + real list" where
  "encode_global_state S st req =
     (let ss = build_domain_summaries S; ls = build_inter_domain_links S; nm = norms_of ss ls in
      map_sum id (\<lambda>doms. doms @ concat (map (link_block nm) ls) @ global_block st @ request_features req nm)
        (fold_err (\<lambda>s out. map_sum id (\<lambda>b. out @ b) (critic_domain_block nm S s)) ss []))"

definition probe_global_state_dim :: "substrate \<Rightarrow> py_error + nat" where
  "probe_global_state_dim S =
     map_sum id length (encode_global_state S \<lparr>gs_arrivals = 0, gs_admitted = 0, gs_rejected = 0, gs_horizon = 100\<rparr> None)"

section \<open>Widths\<close>

lemma collect_blocks:
  assumes "\<And>x. x \<in> set xs \<Longrightarrow> \<exists>b. f x = Inr b \<and> P x b"
  shows "\<exists>bs. fold_err (\<lambda>x out. map_sum id (\<lambda>b. out @ b) (f x)) xs out = Inr (out @ concat bs) \<and> list_all2 P xs bs"
  using assms
proof (induction xs arbitrary: out)
  case (Cons x xs)
  obtain b where b: "f x = Inr b" "P x b" using Cons.prems by auto
  obtain bs where "fold_err (\<lambda>x out. map_sum id (\<lambda>b. out @ b) (f x)) xs (out @ b) = Inr ((out @ b) @ concat bs)" "list_all2 P xs bs"
    using Cons.IH Cons.prems by (metis list.set_intros(2))
  then show ?case using b by (auto simp: id_def intro!: exI[of _ "b # bs"])
qed auto

lemma length_concat_const: "(\<And>b. b \<in> set bs \<Longrightarrow> length b = n) \<Longrightarrow> length (concat bs) = n * length bs"
  by (induction bs) auto

lemma nth_concat_const:
  "(\<And>b. b \<in> set bs \<Longrightarrow> length b = n) \<Longrightarrow> i < length bs \<Longrightarrow> j < n \<Longrightarrow> concat bs ! (n * i + j) = bs ! i ! j"
proof (induction bs arbitrary: i)
  case (Cons b bs)
  have b: "length b = n" using Cons.prems(1) by simp
  show ?case
  proof (cases i)
    case 0
    then show ?thesis using b Cons.prems(3) by (simp add: nth_append)
  next
    case (Suc i')
    then have "n * i + j = length b + (n * i' + j)" by (simp add: b)
    then show ?thesis using Suc Cons.IH[of i'] Cons.prems by (simp add: nth_append)
  qed
qed simp

lemma length_tier_blocks: "length (concat (map (tier_block nm s) tier_order)) = 4 * length tier_order"
  by (subst length_concat_const[where n = 4]) (auto simp: tier_block_def)

lemma length_domain_block [simp]: "length (domain_block nm s) = domain_feat_dim"
  by (simp add: domain_block_def length_tier_blocks domain_feat_dim_def)

lemma length_link_block [simp]: "length (link_block nm l) = link_feat_dim"
  by (simp add: link_block_def link_feat_dim_def)

lemma length_proposal_block [simp]: "length (proposal_block ss p k) = length ss"
  by (simp add: proposal_block_def split: option.split)

lemma length_slice_block [simp]: "length (slice_block q p nm n) = slice_feat_dim"
  by (simp add: slice_block_def slice_features_def delay_features_def slice_feat_dim_def split: option.split)

text \<open>The lists of a plan are long enough for its VNFs.\<close>

definition full_plan :: "plan_summary \<Rightarrow> bool" where
  "full_plan p \<longleftrightarrow> num_vnfs p \<le> length (ps_tiers p) \<and> num_vnfs p \<le> length (ps_cpu p) \<and> num_vnfs p \<le> length (ps_ram p)
     \<and> num_vnfs p \<le> length (ps_vcrs p)"

lemma vnf_block_total:
  "full_plan p \<Longrightarrow> \<exists>b. vnf_block nm ss p k = Inr b \<and> length b = vnf_feat_dim + length ss
     \<and> (k < num_vnfs p \<longrightarrow> b ! 0 = ps_cpu p ! k / nm_cpu nm \<and> b ! 1 = ps_ram p ! k / nm_ram nm
          \<and> (\<forall>i < length ss. b ! (vnf_feat_dim + i) = proposal_block ss p k ! i))"
  by (auto simp: vnf_block_def full_plan_def vnf_feat_dim_def)

definition tensor_width :: "nat \<Rightarrow> nat \<Rightarrow> nat \<Rightarrow> nat" where
  "tensor_width m l max_vnfs = domain_feat_dim * m + link_feat_dim * l + (vnf_feat_dim + m) * max_vnfs + slice_feat_dim"

text \<open>The vector of a full plan, block by block.\<close>

lemma tensor_blocks:
  assumes "full_plan (ob_plan ob)"
  defines "nm \<equiv> norms_of (ob_domains ob) (ob_links ob)" and "ss \<equiv> ob_domains ob" and "p \<equiv> ob_plan ob"
  shows "\<exists>bs. observation_to_tensor max_vnfs ob q = Inr (concat (map (domain_block nm) ss) @ concat (map (link_block nm) (ob_links ob))
        @ concat bs @ slice_block q p nm max_vnfs)
    \<and> length bs = max_vnfs \<and> (\<forall>k < max_vnfs. vnf_block nm ss p k = Inr (bs ! k) \<and> length (bs ! k) = vnf_feat_dim + length ss)"
proof -
  have "\<exists>b. vnf_block nm ss p k = Inr b \<and> (vnf_block nm ss p k = Inr b \<and> length b = vnf_feat_dim + length ss)" for k
    using vnf_block_total[OF assms(1), of nm ss k] by (auto simp: p_def)
  from collect_blocks[where xs = "[0..<max_vnfs]" and f = "vnf_block nm ss p" and out = "[]", OF this]
  obtain bs where bs: "fold_err (\<lambda>k out. map_sum id (\<lambda>b. out @ b) (vnf_block nm ss p k)) [0..<max_vnfs] [] = Inr (concat bs)"
    "list_all2 (\<lambda>k b. vnf_block nm ss p k = Inr b \<and> length b = vnf_feat_dim + length ss) [0..<max_vnfs] bs" by auto
  then show ?thesis
    by (intro exI[of _ bs]) (auto simp: observation_to_tensor_def Let_def nm_def ss_def p_def list_all2_conv_all_nth)
qed

lemma tensor_length:
  assumes "full_plan (ob_plan ob)"
  shows "\<exists>x. observation_to_tensor max_vnfs ob q = Inr x \<and> length x = tensor_width (length (ob_domains ob)) (length (ob_links ob)) max_vnfs"
proof -
  from tensor_blocks[OF assms, of max_vnfs q] obtain bs where
    x: "observation_to_tensor max_vnfs ob q = Inr (concat (map (domain_block (norms_of (ob_domains ob) (ob_links ob))) (ob_domains ob))
        @ concat (map (link_block (norms_of (ob_domains ob) (ob_links ob))) (ob_links ob)) @ concat bs
        @ slice_block q (ob_plan ob) (norms_of (ob_domains ob) (ob_links ob)) max_vnfs)"
    and bs: "length bs = max_vnfs" "\<forall>k < max_vnfs. length (bs ! k) = vnf_feat_dim + length (ob_domains ob)" by blast
  have "length (concat (map (domain_block nm) ss)) = domain_feat_dim * length ss" for nm ss
    by (subst length_concat_const[where n = domain_feat_dim]) auto
  moreover have "length (concat (map (link_block nm) ls)) = link_feat_dim * length ls" for nm ls
    by (subst length_concat_const[where n = link_feat_dim]) auto
  moreover have "length (concat bs) = (vnf_feat_dim + length (ob_domains ob)) * max_vnfs"
    by (subst length_concat_const[where n = "vnf_feat_dim + length (ob_domains ob)"]) (use bs in \<open>auto simp: in_set_conv_nth\<close>)
  ultimately show ?thesis using x by (simp add: tensor_width_def)
qed

section \<open>What can be read off the vector\<close>

text \<open>The slots, by the layout.\<close>

definition tier_slot :: "nat \<Rightarrow> tier \<Rightarrow> nat" where
  "tier_slot i t = domain_feat_dim * i + (5 + 4 * tier_index t)"

definition vnf_slot :: "mdo_observation \<Rightarrow> nat \<Rightarrow> nat" where
  "vnf_slot ob k = domain_feat_dim * length (ob_domains ob) + link_feat_dim * length (ob_links ob)
     + (vnf_feat_dim + length (ob_domains ob)) * k"

definition chain_slot :: "nat \<Rightarrow> mdo_observation \<Rightarrow> nat" where
  "chain_slot max_vnfs ob = vnf_slot ob max_vnfs + 4"

lemma tier_entries:
  "j < 4 \<Longrightarrow> domain_block nm s ! (5 + 4 * tier_index t + j) = tier_block nm s t ! j"
proof -
  assume j: "j < 4"
  have "domain_block nm s ! (5 + 4 * tier_index t + j) = concat (map (tier_block nm s) tier_order) ! (4 * tier_index t + j)"
    by (simp add: domain_block_def nth_append)
  also have "\<dots> = map (tier_block nm s) tier_order ! tier_index t ! j"
    using j by (intro nth_concat_const) (cases t; auto simp: tier_block_def tier_order_def)+
  finally show ?thesis by (cases t) (simp_all add: tier_order_def)
qed

lemma max_default_pos: "(\<And>x. x \<in> set xs \<Longrightarrow> 0 \<le> x) \<Longrightarrow> 0 < max_default xs"
  using Max_in[of "set xs"] by (force simp: max_default_def less_le)

lemma one_hot: "i < n \<Longrightarrow> (replicate n (0 :: real))[c := 1] ! i = 1 \<longleftrightarrow> c = i"
  by (cases "c = i") simp_all

lemma nth_app: "length xs = n \<Longrightarrow> (xs @ ys) ! (n + j) = ys ! j"
  by (simp add: nth_append)

lemma tensor_entries:
  assumes full: "full_plan (ob_plan ob)" and x: "observation_to_tensor max_vnfs ob q = Inr x"
  defines "nm \<equiv> norms_of (ob_domains ob) (ob_links ob)"
  shows "i < length (ob_domains ob) \<Longrightarrow> j < 4 \<Longrightarrow> x ! (tier_slot i t + j) = tier_block nm (ob_domains ob ! i) t ! j"
    and "k < max_vnfs \<Longrightarrow> j < vnf_feat_dim + length (ob_domains ob) \<Longrightarrow>
      \<exists>b. vnf_block nm (ob_domains ob) (ob_plan ob) k = Inr b \<and> x ! (vnf_slot ob k + j) = b ! j"
    and "x ! (vnf_slot ob max_vnfs + j) = slice_block q (ob_plan ob) nm max_vnfs ! j"
proof -
  let ?ss = "ob_domains ob" and ?ls = "ob_links ob" and ?w = "vnf_feat_dim + length (ob_domains ob)"
  let ?A = "concat (map (domain_block nm) ?ss)" and ?B = "concat (map (link_block nm) ?ls)"
  let ?D = "slice_block q (ob_plan ob) nm max_vnfs"
  from tensor_blocks[OF full, of max_vnfs q] x obtain bs where xs: "x = ?A @ ?B @ concat bs @ ?D"
    and bs: "length bs = max_vnfs" "\<forall>k < max_vnfs. vnf_block nm ?ss (ob_plan ob) k = Inr (bs ! k) \<and> length (bs ! k) = ?w"
    unfolding nm_def by auto
  have A: "length ?A = domain_feat_dim * length ?ss" by (subst length_concat_const[where n = domain_feat_dim]) auto
  have B: "length ?B = link_feat_dim * length ?ls" by (subst length_concat_const[where n = link_feat_dim]) auto
  have w: "length b = ?w" if "b \<in> set bs" for b using that bs by (auto simp: in_set_conv_nth)
  have C: "length (concat bs) = ?w * max_vnfs" using length_concat_const[of bs ?w] w bs(1) by simp
  show "x ! (tier_slot i t + j) = tier_block nm (?ss ! i) t ! j" if i: "i < length ?ss" and j: "j < 4"
  proof -
    let ?o = "5 + 4 * tier_index t + j"
    have o: "?o < domain_feat_dim" using j by (cases t) (simp_all add: domain_feat_dim_def tier_order_def)
    have "domain_feat_dim * i + ?o < domain_feat_dim * Suc i" using o by simp
    also have "\<dots> \<le> domain_feat_dim * length ?ss" using i by (intro mult_le_mono2) simp
    finally have "domain_feat_dim * i + ?o < domain_feat_dim * length ?ss" .
    then have "x ! (tier_slot i t + j) = ?A ! (domain_feat_dim * i + ?o)"
      by (simp add: xs nth_append A tier_slot_def add.assoc)
    also have "\<dots> = map (domain_block nm) ?ss ! i ! ?o" by (rule nth_concat_const) (use i o in auto)
    finally show ?thesis using i tier_entries[OF j] by simp
  qed
  show "\<exists>b. vnf_block nm ?ss (ob_plan ob) k = Inr b \<and> x ! (vnf_slot ob k + j) = b ! j" if k: "k < max_vnfs" and j: "j < ?w"
  proof -
    have "x ! (vnf_slot ob k + j) = (concat bs @ ?D) ! (?w * k + j)"
      using nth_app[of "?A @ ?B" "domain_feat_dim * length ?ss + link_feat_dim * length ?ls" "concat bs @ ?D" "?w * k + j"]
      by (simp add: xs A B vnf_slot_def add.assoc)
    also have "\<dots> = concat bs ! (?w * k + j)"
    proof -
      have "?w * k + j < ?w * Suc k" using j by simp
      also have "\<dots> \<le> ?w * max_vnfs" using k by (intro mult_le_mono2) simp
      finally show ?thesis by (simp add: nth_append C)
    qed
    also have "\<dots> = bs ! k ! j" by (rule nth_concat_const) (use w k j bs in auto)
    finally show ?thesis using bs k by blast
  qed
  show "x ! (vnf_slot ob max_vnfs + j) = ?D ! j"
    using nth_app[of "?A @ ?B @ concat bs" "domain_feat_dim * length ?ss + link_feat_dim * length ?ls + ?w * max_vnfs" ?D j]
    by (simp add: xs A B C vnf_slot_def add.assoc)
qed

text \<open>
  C18: the fit tests are functions of the vector. For every VNF of the plan and every domain and tier
  of the observation, comparing two entries at fixed positions decides whether the VNF fits the largest free
  node of the tier, and two others whether the whole chain fits what the tier has left; and the entry of the
  plan's proposal is 1 exactly at the canonical index of the suggested domain. (The comment at lines 37-44
  of \<open>scripts/partial_obs_prior.py\<close> says that the fit test is not a function of what the policy is given. It
  describes an encoding with two scales; \<open>observation_to_tensor\<close> puts demands and residuals on one.)
\<close>

theorem fit_tests_readable:
  assumes "full_plan (ob_plan ob)" and "observation_to_tensor max_vnfs ob (Some q) = Inr x"
    and "\<forall>s \<in> set (ob_domains ob). 0 \<le> ds_cpu_capacity s \<and> 0 \<le> ds_ram_capacity s"
    and "k < num_vnfs (ob_plan ob)" and "k < max_vnfs" and "i < length (ob_domains ob)"
  shows "(x ! vnf_slot ob k \<le> x ! (tier_slot i t + 2) \<longleftrightarrow> ps_cpu (ob_plan ob) ! k \<le> ds_max_node_cpu (ob_domains ob ! i) t)
    \<and> (x ! (vnf_slot ob k + 1) \<le> x ! (tier_slot i t + 3) \<longleftrightarrow> ps_ram (ob_plan ob) ! k \<le> ds_max_node_ram (ob_domains ob ! i) t)
    \<and> (x ! chain_slot max_vnfs ob \<le> x ! tier_slot i t \<longleftrightarrow> sum_list (ps_cpu (ob_plan ob)) \<le> ds_tier_cpu (ob_domains ob ! i) t)
    \<and> (x ! (chain_slot max_vnfs ob + 1) \<le> x ! (tier_slot i t + 1) \<longleftrightarrow> sum_list (ps_ram (ob_plan ob)) \<le> ds_tier_ram (ob_domains ob ! i) t)
    \<and> (x ! (vnf_slot ob k + (vnf_feat_dim + i)) = 1 \<longleftrightarrow>
         k < length (ps_suggested (ob_plan ob)) \<and> proposal_index (ob_domains ob) (ps_suggested (ob_plan ob) ! k) = Some i)"
proof -
  let ?nm = "norms_of (ob_domains ob) (ob_links ob)" and ?ss = "ob_domains ob" and ?p = "ob_plan ob"
  note E = tensor_entries[OF assms(1,2)]
  have pos: "0 < nm_cpu ?nm" "0 < nm_ram ?nm"
    using assms(3) by (auto simp: norms_of_def intro!: max_default_pos)
  have tier: "x ! tier_slot i t = ds_tier_cpu (?ss ! i) t / nm_cpu ?nm" "x ! (tier_slot i t + 1) = ds_tier_ram (?ss ! i) t / nm_ram ?nm"
    "x ! (tier_slot i t + 2) = ds_max_node_cpu (?ss ! i) t / nm_cpu ?nm" "x ! (tier_slot i t + 3) = ds_max_node_ram (?ss ! i) t / nm_ram ?nm"
    using E(1)[OF assms(6), of 0 t] E(1)[OF assms(6), of 1 t] E(1)[OF assms(6), of 2 t] E(1)[OF assms(6), of 3 t]
    by (simp_all add: tier_block_def)
  obtain b where b: "vnf_block ?nm ?ss ?p k = Inr b" "b ! 0 = ps_cpu ?p ! k / nm_cpu ?nm" "b ! 1 = ps_ram ?p ! k / nm_ram ?nm"
    "\<forall>i < length ?ss. b ! (vnf_feat_dim + i) = proposal_block ?ss ?p k ! i"
    using vnf_block_total[OF assms(1), of ?nm ?ss k] assms(4) by blast
  have "x ! (vnf_slot ob k + j) = b ! j" if "j < vnf_feat_dim + length ?ss" for j
    using E(2)[OF assms(5) that] b(1) by auto
  from this[of 0] this[of 1] this[of "vnf_feat_dim + i"] have
    vnf: "x ! vnf_slot ob k = ps_cpu ?p ! k / nm_cpu ?nm" "x ! (vnf_slot ob k + 1) = ps_ram ?p ! k / nm_ram ?nm"
    "x ! (vnf_slot ob k + (vnf_feat_dim + i)) = proposal_block ?ss ?p k ! i"
    using b(2-4) assms(6) by (simp_all add: vnf_feat_dim_def)
  have slice: "slice_features q ?p ?nm max_vnfs ! 4 = sum_list (ps_cpu ?p) / nm_cpu ?nm"
    "slice_features q ?p ?nm max_vnfs ! 5 = sum_list (ps_ram ?p) / nm_ram ?nm"
    by (simp_all add: slice_features_def delay_features_def)
  have chain: "x ! chain_slot max_vnfs ob = sum_list (ps_cpu ?p) / nm_cpu ?nm"
    "x ! (chain_slot max_vnfs ob + 1) = sum_list (ps_ram ?p) / nm_ram ?nm"
    using E(3)[of 4] E(3)[of 5] slice by (simp_all add: chain_slot_def slice_block_def add.commute)
  have hot: "proposal_block ?ss ?p k ! i = 1 \<longleftrightarrow> k < length (ps_suggested ?p) \<and> proposal_index ?ss (ps_suggested ?p ! k) = Some i"
    using assms(6) by (simp add: proposal_block_def one_hot split: option.splits)
  show ?thesis
    unfolding tier vnf chain hot using pos by (simp add: divide_le_cancel)
qed

definition ex_seen :: mdo_observation where
  "ex_seen = build_mdo_observation ex_sub
     \<lparr>ps_vnf_ids = [''u''], ps_tiers = [Edge], ps_suggested = [1], ps_cpu = [5], ps_ram = [3], ps_vcrs = [1], ps_bw = []\<rparr>
     \<lparr>max_e2e_delay = 10, min_throughput = 1\<rparr>"

lemma ex_seen_ok: "full_plan (ob_plan ex_seen)" "0 < num_vnfs (ob_plan ex_seen)" "1 < length (ob_domains ex_seen)"
  "list_all (\<lambda>s. 0 \<le> ds_cpu_capacity s \<and> 0 \<le> ds_ram_capacity s) (ob_domains ex_seen)"
  "proposal_index (ob_domains ex_seen) (ps_suggested (ob_plan ex_seen) ! 0) = Some 1"
  "ps_cpu (ob_plan ex_seen) ! 0 \<le> ds_max_node_cpu (ob_domains ex_seen ! 0) Edge"
  "\<not> ps_cpu (ob_plan ex_seen) ! 0 \<le> ds_max_node_cpu (ob_domains ex_seen ! 1) Edge"
  by code_simp+

theorem fit_tests_readable_witness:
  "\<exists>x. observation_to_tensor 2 ex_seen (Some (ob_qos ex_seen)) = Inr x
     \<and> x ! vnf_slot ex_seen 0 \<le> x ! (tier_slot 0 Edge + 2) \<and> \<not> x ! vnf_slot ex_seen 0 \<le> x ! (tier_slot 1 Edge + 2)
     \<and> x ! (vnf_slot ex_seen 0 + (vnf_feat_dim + 1)) = 1"
proof -
  obtain x where x: "observation_to_tensor 2 ex_seen (Some (ob_qos ex_seen)) = Inr x"
    using tensor_length[OF ex_seen_ok(1)] by blast
  have i: "0 < length (ob_domains ex_seen)" and cap: "\<forall>s \<in> set (ob_domains ex_seen). 0 \<le> ds_cpu_capacity s \<and> 0 \<le> ds_ram_capacity s"
    and k: "(0 :: nat) < 2" using ex_seen_ok(3,4) by (auto simp: list_all_iff)
  have sg: "0 < length (ps_suggested (ob_plan ex_seen))" by code_simp
  note R = fit_tests_readable[OF ex_seen_ok(1) x cap ex_seen_ok(2) k]
  show ?thesis using x R[OF i, of Edge] R[OF ex_seen_ok(3), of Edge] ex_seen_ok(5-7) sg by blast
qed

text \<open>
  The first six slots of the critic's request block are the policy's slice block, when the plan carries the
  demands of the request and the chain length is divided by the same maximum.
\<close>

lemma request_views_agree:
  assumes "num_vnfs p = length (vnfs r)" and "ps_cpu p = map cpu_demand (vnfs r)" and "ps_ram p = map ram_demand (vnfs r)"
  shows "take 6 (request_features (Some r) nm) = slice_features (qos_of r) p nm 10"
  using assms by (simp add: request_features_def slice_features_def delay_features_def Let_def)

text \<open>The domain blocks do not agree: the dominant tier is scaled by 2 for the policy and by 3 for the critic.\<close>

lemma tier_scales_differ:
  assumes "critic_domain_block nm S s = Inr b" and "ds_dominant s \<noteq> Edge"
  shows "b ! 4 < domain_block nm s ! 4"
  using assms by (cases "active_slice_count_in_domain S (ds_domain s)"; cases "ds_dominant s")
    (auto simp: critic_domain_block_def domain_block_def critic_tier_norm_def tier_index_norm_def tier_order_def nth_append)

end
