(* ===== verification/Hierarchical_Topology.thy ===== *)
theory Hierarchical_Topology
  imports Sampling Commit
begin

text \<open>
  The substrate generator (\<open>src/src/orion/substrate/hierarchical_topology.py\<close>, with the tier ranges
  and \<open>_add_directed_link_pair\<close> of \<open>topology_generator.py\<close>). The numpy generator is a parameter: the
  unit draws of the successive \<open>uniform\<close> calls and the index samples of \<open>choice\<close> without
  replacement, which numpy documents to be distinct indices in range. The counter of calls is
  threaded through. The module asserts on its constant tables are checked once as lemmas.

  The theorems are in \<open>Topology_Proofs\<close>.
\<close>

section \<open>Constants\<close>

definition branching_factor :: nat where
  "branching_factor = 4"

definition domain_tiers :: "(nat, tier list) dict" where
  "domain_tiers = [(0, [RegionalCloud, Edge]), (1, [RegionalCloud, Edge]), (2, [RegionalCloud, Edge]),
     (3, [CentralCloud]), (4, [RegionalCloud, Edge])]"

definition domain_sizes :: "(nat, nat) dict" where
  "domain_sizes = [(0, 20), (1, 15), (2, 20), (3, 10), (4, 15)]"

definition topology_domains :: nat where
  "topology_domains = length domain_tiers"

definition inter_domain_adjacencies :: "(nat \<times> nat) list" where
  "inter_domain_adjacencies = [(3, 0), (3, 1), (3, 2), (3, 4), (0, 1), (1, 2), (2, 4), (4, 0)]"

definition inter_links_per_pair :: nat where
  "inter_links_per_pair = 2"

definition extra_link_frac :: real where
  "extra_link_frac = 3 / 10"

definition bw_access :: "real \<times> real" where
  "bw_access = (1000, 2000)"

definition bw_aggregation :: "real \<times> real" where
  "bw_aggregation = (2500, 5000)"

definition bw_core_uplink :: "real \<times> real" where
  "bw_core_uplink = (6000, 10000)"

definition bw_datacentre :: "real \<times> real" where
  "bw_datacentre = (6000, 10000)"

definition bw_inter :: "real \<times> real" where
  "bw_inter = (8000, 12000)"

definition delay_access :: "real \<times> real" where
  "delay_access = (2 / 10, 8 / 10)"

definition delay_aggregation :: "real \<times> real" where
  "delay_aggregation = (8 / 10, 16 / 10)"

definition delay_datacentre :: "real \<times> real" where
  "delay_datacentre = (5 / 100, 2 / 10)"

definition delay_inter :: "real \<times> real" where
  "delay_inter = (5 / 10, 2)"

definition link_profile :: "(tier \<times> tier, (real \<times> real) \<times> (real \<times> real)) dict" where
  "link_profile =
     [((Edge, Edge), (bw_access, delay_access)),
      ((Edge, RegionalCloud), (bw_aggregation, delay_aggregation)),
      ((RegionalCloud, RegionalCloud), (bw_aggregation, delay_aggregation)),
      ((RegionalCloud, CentralCloud), (bw_core_uplink, delay_aggregation)),
      ((CentralCloud, CentralCloud), (bw_datacentre, delay_datacentre)),
      ((Edge, CentralCloud), (bw_core_uplink, delay_aggregation))]"

text \<open>The table holds every unordered pair of tiers, so one of the two lookups succeeds.\<close>

definition profile_for :: "tier \<Rightarrow> tier \<Rightarrow> (real \<times> real) \<times> (real \<times> real)" where
  "profile_for a b = (case map_of link_profile (a, b) of Some p \<Rightarrow> p | None \<Rightarrow> the (map_of link_profile (b, a)))"

fun tier_cpu_range :: "tier \<Rightarrow> real \<times> real" where
  "tier_cpu_range Edge = (8, 32)"
| "tier_cpu_range RegionalCloud = (32, 48)"
| "tier_cpu_range CentralCloud = (48, 64)"

fun tier_ram_range :: "tier \<Rightarrow> real \<times> real" where
  "tier_ram_range Edge = (16, 128)"
| "tier_ram_range RegionalCloud = (128, 192)"
| "tier_ram_range CentralCloud = (192, 256)"

fun tier_proc_delay_range :: "tier \<Rightarrow> real \<times> real" where
  "tier_proc_delay_range Edge = (5 / 10, 1)"
| "tier_proc_delay_range RegionalCloud = (1, 25 / 10)"
| "tier_proc_delay_range CentralCloud = (15 / 10, 3)"

section \<open>Layout of a domain\<close>

text \<open>One level per call: the children of the frontier, as many as still fit.\<close>

fun lay_levels :: "nat \<Rightarrow> nat \<Rightarrow> nat \<Rightarrow> nat list \<Rightarrow> nat list \<Rightarrow> nat option list \<Rightarrow> nat list \<times> nat option list" where
  "lay_levels 0 n depth frontier level parent = (level, parent)"
| "lay_levels (Suc left) n depth frontier level parent =
     (let idx = length level;
          ps = take (n - idx) (concat (map (\<lambda>p. replicate branching_factor p) frontier))
      in if ps = [] then (level, parent)
         else lay_levels left n (depth + 1) [idx..<idx + length ps]
                (level @ replicate (length ps) (depth + 1)) (parent @ map Some ps))"

definition levels_and_parents :: "nat \<Rightarrow> nat \<Rightarrow> py_error + nat list \<times> nat option list \<times> nat" where
  "levels_and_parents n num_levels =
     (if num_levels < 1 then Inl ValueError
      else
        let per_root = sum_list (map (\<lambda>d. branching_factor ^ d) [0..<num_levels]);
            num_roots = max 1 ((n + per_root - 1) div per_root);
            (level, parent) = lay_levels (num_levels - 1) n 0 [0..<num_roots]
                                (replicate num_roots 0) (replicate num_roots None)
        in if length level \<noteq> n then Inl RuntimeError else Inr (level, parent, num_roots))"

definition backbone_edges :: "nat option list \<Rightarrow> nat \<Rightarrow> (nat \<times> nat) list" where
  "backbone_edges parent num_roots =
     List.map_filter (\<lambda>(i, p). map_option (\<lambda>q. (q, i)) p) (enumerate 0 parent)
     @ (if num_roots > 1 then map (\<lambda>r. (r, (r + 1) mod num_roots)) [0..<num_roots] else [])"

definition has_edge :: "'a graph_scheme \<Rightarrow> node_id \<Rightarrow> node_id \<Rightarrow> bool" where
  "has_edge g u v \<longleftrightarrow> map_of (g_edges g) (u, v) \<noteq> None"

definition level_pairs :: "nat list \<Rightarrow> (nat \<times> nat) list" where
  "level_pairs peers = concat (map (\<lambda>(pos, a). map (Pair a) (drop (pos + 1) peers)) (enumerate 0 peers))"

definition lateral_candidates :: "nat list \<Rightarrow> node_id list \<Rightarrow> 'a graph_scheme \<Rightarrow> (nat \<times> (nat \<times> nat) list) list" where
  "lateral_candidates level ids g =
     filter (\<lambda>(d, cands). cands \<noteq> [])
       (map (\<lambda>d. (d, filter (\<lambda>(a, b). \<not> has_edge g (ids ! a) (ids ! b))
                       (level_pairs (filter (\<lambda>i. level ! i = d) [0..<length level])))) (py_set level))"

section \<open>Links\<close>

definition link_name :: "node_id \<Rightarrow> node_id \<Rightarrow> link_id" where
  "link_name u v = ''l_'' @ u @ ''_'' @ v"

definition add_directed_link :: "node_id \<Rightarrow> node_id \<Rightarrow> real \<Rightarrow> real \<Rightarrow> link_type \<Rightarrow> graph \<Rightarrow> graph" where
  "add_directed_link u v bw delay ty g =
     (if has_edge g u v then g
      else g\<lparr>g_edges := g_edges g @ [((u, v), \<lparr>link_id = link_name u v, bandwidth_capacity = bw,
              bw_residual = bw, propagation_delay = delay, link_type = ty\<rparr>)]\<rparr>)"

definition add_directed_link_pair :: "node_id \<Rightarrow> node_id \<Rightarrow> real \<Rightarrow> real \<Rightarrow> link_type \<Rightarrow> graph \<Rightarrow> graph" where
  "add_directed_link_pair u v bw delay ty g =
     add_directed_link v u bw delay ty (add_directed_link u v bw delay ty g)"

section \<open>The generator\<close>

record rng =
  rg_unit :: "nat \<Rightarrow> real"
  rg_sample :: "nat \<Rightarrow> nat \<Rightarrow> nat \<Rightarrow> nat list"

type_synonym build = "graph \<times> nat"

definition node_name :: "nat \<Rightarrow> nat \<Rightarrow> node_id" where
  "node_name m i = ''d'' @ decimal m @ ''n'' @ decimal i"

definition draw_node :: "rng \<Rightarrow> nat \<Rightarrow> nat \<times> tier \<Rightarrow> build \<Rightarrow> build" where
  "draw_node r m = (\<lambda>(i, t) (g, c).
     let cpu = py_round (uniform (rg_unit r c) (tier_cpu_range t)) 2;
         ram = py_round (uniform (rg_unit r (c + 1)) (tier_ram_range t)) 2;
         delay = py_round (uniform (rg_unit r (c + 2)) (tier_proc_delay_range t)) 3
     in (g\<lparr>g_nodes := AList.update (node_name m i)
             \<lparr>domain_id = int m, node_tier = t, cpu_capacity = cpu, ram_capacity = ram,
              processing_delay = delay, cpu_residual = cpu, ram_residual = ram\<rparr> (g_nodes g)\<rparr>, c + 3))"

definition draw_link :: "rng \<Rightarrow> (real \<times> real) \<times> (real \<times> real) \<Rightarrow> link_type \<Rightarrow> node_id \<times> node_id \<Rightarrow> build \<Rightarrow> build" where
  "draw_link r profile ty = (\<lambda>(u, v) (g, c).
     (add_directed_link_pair u v (py_round (uniform (rg_unit r c) (fst profile)) 1)
        (py_round (uniform (rg_unit r (c + 1)) (snd profile)) 3) ty g, c + 2))"

definition draw_intra :: "rng \<Rightarrow> nat \<Rightarrow> tier list \<Rightarrow> nat \<times> nat \<Rightarrow> build \<Rightarrow> build" where
  "draw_intra r m tier_of = (\<lambda>(a, b).
     draw_link r (profile_for (tier_of ! a) (tier_of ! b)) IntraLink (node_name m a, node_name m b))"

text \<open>The quotas of the layers, in layer order; \<open>widest\<close> is the first greatest one.\<close>

definition widest :: "int list \<Rightarrow> nat option" where
  "widest qs = List.find (\<lambda>i. list_all (\<lambda>q. q \<le> qs ! i) qs) [0..<length qs]"

lemma widest_less: "widest qs = Some i \<Longrightarrow> i < length qs"
  unfolding widest_def find_Some_iff by auto

lemma sum_list_update_int:
  "k < length xs \<Longrightarrow> sum_list (xs[k := x]) = sum_list xs + x - (xs ! k :: int)"
  by (induction xs arbitrary: k) (auto split: nat.split)

function trim_quota :: "int \<Rightarrow> int list \<Rightarrow> int list" where
  "trim_quota n qs =
     (if sum_list qs > n
      then case widest qs of
          None \<Rightarrow> qs
        | Some i \<Rightarrow> if qs ! i \<le> 1 then qs else trim_quota n (qs[i := qs ! i - 1])
      else qs)"
  by auto

termination
proof (relation "measure (\<lambda>(n, qs). nat (sum_list (map (max 0) qs)))", simp)
  fix n :: int and qs :: "int list" and i
  assume "widest qs = Some i" and "\<not> qs ! i \<le> 1"
  then have i: "i < length (map (max 0) qs)" and q: "qs ! i > 1" using widest_less by simp_all
  have "sum_list (map (max 0) (qs[i := qs ! i - 1])) = sum_list (map (max 0) qs) - 1"
    using sum_list_update_int[OF i, of "max 0 (qs ! i - 1)"] i q by (simp add: map_update)
  moreover have "0 \<le> sum_list (map (max 0) (qs[i := qs ! i - 1]))" by (rule sum_list_nonneg) auto
  ultimately show "((n, qs[i := qs ! i - 1]), (n, qs)) \<in> measure (\<lambda>(n, qs). nat (sum_list (map (max 0) qs)))"
    by simp
qed

declare trim_quota.simps [simp del]

definition layer_quotas :: "int \<Rightarrow> (nat \<times> (nat \<times> nat) list) list \<Rightarrow> int list" where
  "layer_quotas n_extra layers =
     (let total_cands = sum_list (map (\<lambda>(d, cands). length cands) layers)
      in trim_quota n_extra
           (map (\<lambda>(d, cands). max 1 (round_half_even (of_int n_extra * real (length cands) / real total_cands))) layers))"

definition draw_layer :: "rng \<Rightarrow> nat \<Rightarrow> tier list \<Rightarrow> (nat \<times> (nat \<times> nat) list) \<times> int \<Rightarrow> build \<Rightarrow> build" where
  "draw_layer r m tier_of = (\<lambda>((d, cands), q) (g, c).
     let k = min q (int (length cands)) in
     if k \<le> 0 then (g, c)
     else fold (\<lambda>i. draw_intra r m tier_of (cands ! i)) (rg_sample r c (length cands) (nat k)) (g, c + 1))"

definition draw_laterals :: "rng \<Rightarrow> real \<Rightarrow> nat \<Rightarrow> tier list \<Rightarrow> nat list \<Rightarrow> build \<Rightarrow> build" where
  "draw_laterals r share m tier_of level = (\<lambda>(g, c).
     let n = length level;
         n_extra = round_half_even (share * real n);
         layers = lateral_candidates level (map (node_name m) [0..<n]) g
     in if layers = [] \<or> n_extra = 0 then (g, c)
        else fold (draw_layer r m tier_of) (zip layers (layer_quotas n_extra layers)) (g, c))"

text \<open>One domain; the number of its roots is kept for the gateways.\<close>

definition build_domain :: "rng \<Rightarrow> real \<Rightarrow> nat \<times> tier list \<Rightarrow> build \<times> (nat, nat) dict \<Rightarrow> py_error + build \<times> (nat, nat) dict" where
  "build_domain r share = (\<lambda>(m, tiers) (b, roots).
     case map_of domain_sizes m of
       None \<Rightarrow> Inl KeyError
     | Some n \<Rightarrow>
     (case levels_and_parents n (length tiers) of
        Inl e \<Rightarrow> Inl e
      | Inr (level, parent, num_roots) \<Rightarrow>
          let tier_of = map (\<lambda>d. tiers ! d) level;
              b1 = fold (draw_node r m) (enumerate 0 tier_of) b;
              b2 = fold (draw_intra r m tier_of) (backbone_edges parent num_roots) b1
          in Inr (draw_laterals r share m tier_of level b2, AList.update m num_roots roots)))"

text \<open>The parallel links of one adjacency, on different gateways where there are several.\<close>

definition gateway_pairs :: "(nat, nat) dict \<Rightarrow> nat \<times> nat \<Rightarrow> (node_id \<times> node_id) list" where
  "gateway_pairs roots = (\<lambda>(a, b).
     map (\<lambda>k. (node_name a (k mod get_default roots a 1), node_name b (k mod get_default roots b 1)))
       [0..<inter_links_per_pair])"

definition draw_adjacency :: "rng \<Rightarrow> (nat, nat) dict \<Rightarrow> nat \<times> nat \<Rightarrow> build \<Rightarrow> build" where
  "draw_adjacency r roots ab = fold (draw_link r (bw_inter, delay_inter) InterLink) (gateway_pairs roots ab)"

text \<open>\<open>edges(data=True)\<close> of the finished graph runs over the source nodes in node order.\<close>

definition edges_view :: "graph \<Rightarrow> (node_id \<times> node_id, edge_data) dict" where
  "edges_view g = concat (map (\<lambda>u. filter (\<lambda>e. fst (fst e) = u) (g_edges g)) (keys (g_nodes g)))"

definition generate_hierarchical_topology :: "rng \<Rightarrow> real \<Rightarrow> py_error + substrate" where
  "generate_hierarchical_topology r share =
     map_sum id (\<lambda>(b, roots).
         let g = fst (fold (draw_adjacency r roots) inter_domain_adjacencies b)
         in \<lparr>g_nodes = g_nodes g, g_edges = edges_view g,
             num_domains = topology_domains, active_slices = []\<rparr>)
       (fold_err (build_domain r share) (sort_key fst domain_tiers) ((\<lparr>g_nodes = [], g_edges = []\<rparr>, 0), []))"

end
