(* ===== verification/Topology_Proofs.thy ===== *)
theory Topology_Proofs
  imports Hierarchical_Topology
begin

text \<open>
  The theorems on the substrate generator of \<open>Hierarchical_Topology\<close>: the constant tables are
  checked once by evaluation, the invariants \<open>nodes_ok\<close> and \<open>edges_ok\<close> are kept by every draw, and
  the structure of an instance (planned nodes, backbone, gateways) does not depend on the draws.
\<close>

section \<open>Names\<close>

lemma underscore_free: "CHR ''_'' \<notin> set (node_name m i)"
  using digit_chars[of m] digit_chars[of i] by (auto simp: node_name_def)

lemma split_at_unique: "a \<notin> set xs \<Longrightarrow> a \<notin> set xs' \<Longrightarrow> xs @ a # ys = xs' @ a # ys' \<longleftrightarrow> xs = xs' \<and> ys = ys'"
proof (induction xs arbitrary: xs')
  case (Cons x xs)
  then show ?case by (cases xs') auto
qed (auto simp: Cons_eq_append_conv)

lemma node_name_eq [simp]: "node_name m i = node_name m' i' \<longleftrightarrow> m = m' \<and> i = i'"
proof -
  have "CHR ''n'' \<notin> set (decimal m)" for m using digit_chars[of m] by auto
  then show ?thesis by (auto simp: node_name_def split_at_unique decimal_inj)
qed

lemma link_name_eq:
  assumes "u \<in> range (case_prod node_name)" and "u' \<in> range (case_prod node_name)"
  shows "link_name u v = link_name u' v' \<longleftrightarrow> u = u' \<and> v = v'"
  using assms underscore_free by (auto simp: link_name_def split_at_unique)

section \<open>Tables\<close>

lemma link_profile_ranges:
  "let ((a, b), (c, d)) = profile_for s t in
     0 \<le> a \<and> a \<le> b \<and> a * 10 \<in> \<int> \<and> b * 10 \<in> \<int>"
  by (cases s; cases t)
    (simp_all add: profile_for_def link_profile_def bw_access_def bw_aggregation_def bw_core_uplink_def
      bw_datacentre_def delay_access_def delay_aggregation_def delay_datacentre_def)

lemma tier_ranges:
  "0 < fst (tier_cpu_range t) \<and> fst (tier_cpu_range t) \<le> snd (tier_cpu_range t)
   \<and> fst (tier_cpu_range t) * 10 ^ 2 \<in> \<int> \<and> snd (tier_cpu_range t) * 10 ^ 2 \<in> \<int>
   \<and> 0 < fst (tier_ram_range t) \<and> fst (tier_ram_range t) \<le> snd (tier_ram_range t)
   \<and> fst (tier_ram_range t) * 10 ^ 2 \<in> \<int> \<and> snd (tier_ram_range t) * 10 ^ 2 \<in> \<int>"
  by (cases t) simp_all

definition layout_ok :: "nat \<Rightarrow> nat \<Rightarrow> nat list \<times> nat option list \<times> nat \<Rightarrow> bool" where
  "layout_ok n num_levels = (\<lambda>(level, parent, k).
     length level = n \<and> length parent = n \<and> 0 < k \<and> k \<le> n \<and> list_all (\<lambda>d. d < num_levels) level
     \<and> list_all (\<lambda>(i, p). case p of None \<Rightarrow> i < k | Some q \<Rightarrow> q < i) (enumerate 0 parent))"

lemma committed_layouts:
  "list_all (\<lambda>(m, tiers). case map_of domain_sizes m of
       None \<Rightarrow> False
     | Some n \<Rightarrow> (case levels_and_parents n (length tiers) of
         Inl e \<Rightarrow> False | Inr lay \<Rightarrow> layout_ok n (length tiers) lay)) domain_tiers"
  by code_simp

definition domain_ids :: "nat list" where
  "domain_ids = [0, 1, 2, 3, 4]"

lemma committed_tables:
  "sort_key fst domain_tiers = domain_tiers" "distinct (keys domain_tiers)" "keys domain_tiers = domain_ids"
  "list_all (\<lambda>(a, b). a \<noteq> b \<and> a < 5 \<and> b < 5) inter_domain_adjacencies" "topology_domains = 5"
  by code_simp+

section \<open>What the generator keeps\<close>

definition rng_ok :: "rng \<Rightarrow> bool" where
  "rng_ok r \<longleftrightarrow> unit_draws (rg_unit r)
     \<and> (\<forall>c n k. k \<le> n \<longrightarrow> length (rg_sample r c n k) = k \<and> distinct (rg_sample r c n k)
          \<and> set (rg_sample r c n k) \<subseteq> {..<n})"

definition fresh_node :: "node_data \<Rightarrow> bool" where
  "fresh_node d \<longleftrightarrow>
     cpu_residual d = cpu_capacity d \<and> ram_residual d = ram_capacity d
     \<and> fst (tier_cpu_range (node_tier d)) \<le> cpu_capacity d \<and> cpu_capacity d \<le> snd (tier_cpu_range (node_tier d))
     \<and> fst (tier_ram_range (node_tier d)) \<le> ram_capacity d \<and> ram_capacity d \<le> snd (tier_ram_range (node_tier d))"

text \<open>A node without its drawn capacities.\<close>

definition sketch :: "node_id \<times> node_data \<Rightarrow> node_id \<times> int \<times> tier" where
  "sketch = (\<lambda>(n, d). (n, domain_id d, node_tier d))"

definition edge_ok :: "'a graph_scheme \<Rightarrow> (node_id \<times> node_id) \<times> edge_data \<Rightarrow> bool" where
  "edge_ok g = (\<lambda>((u, v), e). u \<in> set (keys (g_nodes g)) \<and> v \<in> set (keys (g_nodes g))
     \<and> link_id e = link_name u v \<and> bw_residual e = bandwidth_capacity e \<and> 0 \<le> bandwidth_capacity e
     \<and> (link_type e = InterLink \<longleftrightarrow> domain_of g u \<noteq> domain_of g v))"

definition edges_ok :: "'a graph_scheme \<Rightarrow> bool" where
  "edges_ok g \<longleftrightarrow> distinct (keys (g_edges g)) \<and> (\<forall>x \<in> set (g_edges g). edge_ok g x)"

definition nodes_ok :: "'a graph_scheme \<Rightarrow> bool" where
  "nodes_ok g \<longleftrightarrow>
     distinct (keys (g_nodes g)) \<and> (\<forall>(n, d) \<in> set (g_nodes g). fresh_node d \<and> (\<exists>m i. n = node_name m i \<and> domain_id d = int m))"

lemma domain_of_named: "nodes_ok g \<Longrightarrow> node_name m i \<in> set (keys (g_nodes g)) \<Longrightarrow> domain_of g (node_name m i) = int m"
  by (fastforce simp: nodes_ok_def domain_of_def dest: map_of_SomeD split: option.split)

text \<open>The graph grows: nothing is taken away and the nodes stay.\<close>

definition grows :: "graph \<Rightarrow> graph \<Rightarrow> bool" where
  "grows g g' \<longleftrightarrow> g_nodes g' = g_nodes g \<and> (\<forall>u v. has_edge g u v \<longrightarrow> has_edge g' u v)"

lemma grows_refl [simp]: "grows g g"
  by (simp add: grows_def)

lemma grows_trans: "grows g g' \<Longrightarrow> grows g' g'' \<Longrightarrow> grows g g''"
  by (simp add: grows_def)

lemma has_edge_iff: "has_edge g u v \<longleftrightarrow> (u, v) \<in> set (keys (g_edges g))"
  by (force simp: has_edge_def map_of_eq_None_iff)

lemma add_directed_link_grows:
  "grows g (add_directed_link u v bw delay ty g) \<and> has_edge (add_directed_link u v bw delay ty g) u v"
  by (auto simp: add_directed_link_def grows_def has_edge_iff)

lemma add_directed_link_ok:
  assumes "edges_ok g" and "u \<in> set (keys (g_nodes g))" and "v \<in> set (keys (g_nodes g))" and "0 \<le> bw"
    and "ty = InterLink \<longleftrightarrow> domain_of g u \<noteq> domain_of g v"
  shows "edges_ok (add_directed_link u v bw delay ty g)"
proof (cases "has_edge g u v")
  case False
  let ?g = "add_directed_link u v bw delay ty g"
  have d: "domain_of ?g = domain_of g" and n: "g_nodes ?g = g_nodes g"
    by (simp_all add: add_directed_link_def domain_of_def fun_eq_iff)
  have e: "g_edges ?g = g_edges g @ [((u, v), \<lparr>link_id = link_name u v, bandwidth_capacity = bw,
      bw_residual = bw, propagation_delay = delay, link_type = ty\<rparr>)]"
    using False by (simp add: add_directed_link_def)
  show ?thesis
    using assms False unfolding edges_ok_def edge_ok_def d n e has_edge_iff by auto
qed (simp add: add_directed_link_def assms(1))

lemma draw_link_ok:
  assumes rng: "rng_ok r" and ok: "edges_ok g" and uv: "u \<in> set (keys (g_nodes g))" "v \<in> set (keys (g_nodes g))"
    and bw: "0 \<le> fst (fst profile)" "fst (fst profile) \<le> snd (fst profile)"
    and ty: "ty = InterLink \<longleftrightarrow> domain_of g u \<noteq> domain_of g v"
  shows "edges_ok (fst (draw_link r profile ty (u, v) (g, c))) \<and> grows g (fst (draw_link r profile ty (u, v) (g, c)))
    \<and> has_edge (fst (draw_link r profile ty (u, v) (g, c))) u v
    \<and> has_edge (fst (draw_link r profile ty (u, v) (g, c))) v u"
proof -
  define x where "x = py_round (uniform (rg_unit r c) (fst profile)) 1"
  define y where "y = py_round (uniform (rg_unit r (c + 1)) (snd profile)) 3"
  let ?g1 = "add_directed_link u v x y ty g"
  have "0 \<le> rg_unit r c" "rg_unit r c \<le> 1" using rng by (simp_all add: rng_ok_def unit_draws_def)
  from uniform_bounds[OF this bw(2)] bw(1) have x: "0 \<le> x" unfolding x_def prod.collapse by (intro py_round_nonneg) simp
  have g: "fst (draw_link r profile ty (u, v) (g, c)) = add_directed_link v u x y ty ?g1"
    by (simp add: draw_link_def add_directed_link_pair_def x_def y_def)
  note A = add_directed_link_grows[of g u v x y ty]
  have n: "g_nodes ?g1 = g_nodes g" using A by (simp add: grows_def)
  then have dm: "domain_of ?g1 = domain_of g" by (simp add: domain_of_def fun_eq_iff)
  have ok1: "edges_ok ?g1" by (rule add_directed_link_ok[OF ok uv x ty])
  have "edges_ok (add_directed_link v u x y ty ?g1)"
    by (rule add_directed_link_ok[OF ok1 _ _ x]) (use uv ty n dm in auto)
  then show ?thesis
    unfolding g using A add_directed_link_grows[of ?g1 v u x y ty] by (auto simp: grows_def)
qed

text \<open>Drawing a list of links between nodes of the graph.\<close>

lemma draw_links_ok:
  assumes rng: "rng_ok r" and ok: "edges_ok g"
    and step: "\<And>x. x \<in> set xs \<Longrightarrow> \<exists>profile ty u v. f x = draw_link r profile ty (u, v)
      \<and> u \<in> set (keys (g_nodes g)) \<and> v \<in> set (keys (g_nodes g)) \<and> 0 \<le> fst (fst profile)
      \<and> fst (fst profile) \<le> snd (fst profile) \<and> (ty = InterLink \<longleftrightarrow> domain_of g u \<noteq> domain_of g v) \<and> P x u v"
  shows "edges_ok (fst (fold f xs (g, c))) \<and> grows g (fst (fold f xs (g, c)))
    \<and> (\<forall>x \<in> set xs. \<exists>u v. P x u v \<and> has_edge (fst (fold f xs (g, c))) u v \<and> has_edge (fst (fold f xs (g, c))) v u)"
  using ok step
proof (induction xs arbitrary: g c)
  case (Cons x xs)
  obtain profile ty u v where x: "f x = draw_link r profile ty (u, v)" "u \<in> set (keys (g_nodes g))"
    "v \<in> set (keys (g_nodes g))" "0 \<le> fst (fst profile)" "fst (fst profile) \<le> snd (fst profile)"
    "ty = InterLink \<longleftrightarrow> domain_of g u \<noteq> domain_of g v" "P x u v"
    using Cons.prems(2)[OF list.set_intros(1)] by blast
  obtain g1 c1 where s: "f x (g, c) = (g1, c1)" by force
  have d: "edges_ok g1 \<and> grows g g1 \<and> has_edge g1 u v \<and> has_edge g1 v u"
    using draw_link_ok[OF rng Cons.prems(1) x(2-6), of c] s by (simp add: x(1))
  then have n: "g_nodes g1 = g_nodes g" "domain_of g1 = domain_of g" by (auto simp: grows_def domain_of_def fun_eq_iff)
  have I: "edges_ok (fst (fold f xs (g1, c1))) \<and> grows g1 (fst (fold f xs (g1, c1)))
    \<and> (\<forall>x \<in> set xs. \<exists>u v. P x u v \<and> has_edge (fst (fold f xs (g1, c1))) u v \<and> has_edge (fst (fold f xs (g1, c1))) v u)"
    by (rule Cons.IH) (use d n Cons.prems(2) in auto)
  then have "has_edge (fst (fold f xs (g1, c1))) u v \<and> has_edge (fst (fold f xs (g1, c1))) v u"
    using d by (simp add: grows_def)
  then show ?case using I d x(7) grows_trans by (auto simp: s)
qed simp

lemma draw_node_spec:
  assumes rng: "rng_ok r" and new: "node_name m i \<notin> set (keys (g_nodes g))"
  shows "\<exists>d. fst (draw_node r m (i, t) (g, c)) = g\<lparr>g_nodes := g_nodes g @ [(node_name m i, d)]\<rparr>
    \<and> fresh_node d \<and> domain_id d = int m \<and> node_tier d = t"
proof -
  have u: "0 \<le> rg_unit r j" "rg_unit r j \<le> 1" for j using rng by (simp_all add: rng_ok_def unit_draws_def)
  note R = tier_ranges[of t]
  have cpu: "fst (tier_cpu_range t) \<le> py_round (uniform (rg_unit r c) (tier_cpu_range t)) 2
      \<and> py_round (uniform (rg_unit r c) (tier_cpu_range t)) 2 \<le> snd (tier_cpu_range t)"
    using R by (intro drawn_between u) blast+
  have ram: "fst (tier_ram_range t) \<le> py_round (uniform (rg_unit r (c + 1)) (tier_ram_range t)) 2
      \<and> py_round (uniform (rg_unit r (c + 1)) (tier_ram_range t)) 2 \<le> snd (tier_ram_range t)"
    using R by (intro drawn_between u) blast+
  show ?thesis
    unfolding draw_node_def Let_def prod.case fst_conv update_fresh[OF new]
    by (rule exI, rule conjI, rule refl) (use cpu ram in \<open>simp add: fresh_node_def\<close>)
qed

lemma draw_nodes_spec:
  assumes rng: "rng_ok r" and "distinct (map fst its)"
    and "\<forall>(i, t) \<in> set its. node_name m i \<notin> set (keys (g_nodes g))"
  shows "\<exists>new. fst (fold (draw_node r m) its (g, c)) = g\<lparr>g_nodes := g_nodes g @ new\<rparr>
    \<and> map sketch new = map (\<lambda>(i, t). (node_name m i, int m, t)) its \<and> (\<forall>(n, d) \<in> set new. fresh_node d)"
  using assms(2,3)
proof (induction its arbitrary: g c)
  case (Cons it its)
  obtain i t where it: "it = (i, t)" by (rule prod.exhaust)
  obtain g1 c1 where s: "draw_node r m (i, t) (g, c) = (g1, c1)" by (rule prod.exhaust)
  obtain d where d: "g1 = g\<lparr>g_nodes := g_nodes g @ [(node_name m i, d)]\<rparr>" "fresh_node d" "domain_id d = int m" "node_tier d = t"
    using draw_node_spec[OF rng, of m i g t c] Cons.prems(2) s it by auto
  have "\<forall>(j, t) \<in> set its. node_name m j \<notin> set (keys (g_nodes g1))"
    using Cons.prems by (force simp: d(1) it)
  from Cons.IH[OF _ this, of c1] Cons.prems(1) obtain new where
    "fst (fold (draw_node r m) its (g1, c1)) = g1\<lparr>g_nodes := g_nodes g1 @ new\<rparr>"
    "map sketch new = map (\<lambda>(i, t). (node_name m i, int m, t)) its" "\<forall>(n, d) \<in> set new. fresh_node d" by auto
  then show ?case
    using d by (intro exI[of _ "(node_name m i, d) # new"]) (simp add: it s sketch_def)
qed simp

text \<open>The state after the domains in \<open>ms\<close>: their planned nodes, their backbones and their roots.\<close>

definition layout :: "nat \<Rightarrow> nat list \<times> nat option list \<times> nat" where
  "layout m = projr (levels_and_parents (the (map_of domain_sizes m)) (length (the (map_of domain_tiers m))))"

definition planned_nodes :: "nat \<Rightarrow> (node_id \<times> int \<times> tier) list" where
  "planned_nodes m = map (\<lambda>(i, d). (node_name m i, int m, the (map_of domain_tiers m) ! d)) (enumerate 0 (fst (layout m)))"

definition planned_backbone :: "nat \<Rightarrow> (node_id \<times> node_id) list" where
  "planned_backbone m = map (map_prod (node_name m) (node_name m)) (backbone_edges (fst (snd (layout m))) (snd (snd (layout m))))"

definition planned_roots :: "nat list \<Rightarrow> (nat, nat) dict" where
  "planned_roots ms = map (\<lambda>m. (m, snd (snd (layout m)))) ms"

definition built :: "nat list \<Rightarrow> build \<times> (nat, nat) dict \<Rightarrow> bool" where
  "built ms = (\<lambda>((g, c), roots).
     map sketch (g_nodes g) = concat (map planned_nodes ms) \<and> nodes_ok g \<and> edges_ok g
     \<and> (\<forall>m \<in> set ms. \<forall>(u, v) \<in> set (planned_backbone m). has_edge g u v \<and> has_edge g v u)
     \<and> roots = planned_roots ms)"

lemma layout_of_domain:
  assumes "(m, tiers) \<in> set domain_tiers"
  obtains n level parent k where "map_of domain_sizes m = Some n" and "map_of domain_tiers m = Some tiers"
    and "levels_and_parents n (length tiers) = Inr (level, parent, k)" and "layout m = (level, parent, k)"
    and "layout_ok n (length tiers) (level, parent, k)"
proof -
  have t: "map_of domain_tiers m = Some tiers" using assms committed_tables(2) by (rule map_of_is_SomeI[rotated])
  have "case map_of domain_sizes m of None \<Rightarrow> False
     | Some n \<Rightarrow> (case levels_and_parents n (length tiers) of Inl e \<Rightarrow> False | Inr lay \<Rightarrow> layout_ok n (length tiers) lay)"
    using committed_layouts assms unfolding list_all_iff by fast
  then obtain n lay where n: "map_of domain_sizes m = Some n" "levels_and_parents n (length tiers) = Inr lay"
    "layout_ok n (length tiers) lay" by (auto split: option.splits sum.splits)
  obtain level parent k where "lay = (level, parent, k)" by (rule prod_cases3)
  with that n t show thesis by (simp add: layout_def)
qed

text \<open>Lateral links stay inside the domain.\<close>

lemma level_pairs_in: "(a, b) \<in> set (level_pairs peers) \<Longrightarrow> a \<in> set peers \<and> b \<in> set peers"
  by (auto simp: level_pairs_def in_set_enumerate_eq dest: in_set_dropD)

lemma lateral_candidates_in:
  "(d, cands) \<in> set (lateral_candidates level ids g) \<Longrightarrow> (a, b) \<in> set cands \<Longrightarrow> a < length level \<and> b < length level"
  by (auto simp: lateral_candidates_def dest!: level_pairs_in)

text \<open>A link inside domain \<open>m\<close> is a link \<open>draw_links_ok\<close> accepts.\<close>

lemma draw_intra_link:
  assumes ok: "nodes_ok g" and named: "\<And>i. i < n \<Longrightarrow> node_name m i \<in> set (keys (g_nodes g))" and ab: "a < n" "b < n"
  shows "\<exists>profile ty u v. draw_intra r m tier_of (a, b) = draw_link r profile ty (u, v)
    \<and> u \<in> set (keys (g_nodes g)) \<and> v \<in> set (keys (g_nodes g)) \<and> 0 \<le> fst (fst profile)
    \<and> fst (fst profile) \<le> snd (fst profile) \<and> (ty = InterLink \<longleftrightarrow> domain_of g u \<noteq> domain_of g v)
    \<and> u = node_name m a \<and> v = node_name m b"
  using named[OF ab(1)] named[OF ab(2)] domain_of_named[OF ok] link_profile_ranges[of "tier_of ! a" "tier_of ! b"]
  by (intro exI[of _ "profile_for (tier_of ! a) (tier_of ! b)"] exI[of _ IntraLink])
    (auto simp: draw_intra_def split_beta Let_def)

lemma draw_layer_ok:
  assumes rng: "rng_ok r" and ok: "nodes_ok g" "edges_ok g"
    and named: "\<And>i. i < n \<Longrightarrow> node_name m i \<in> set (keys (g_nodes g))"
    and cands: "\<And>a b. (a, b) \<in> set cands \<Longrightarrow> a < n \<and> b < n"
  shows "edges_ok (fst (draw_layer r m tier_of ((d, cands), q) (g, c))) \<and> grows g (fst (draw_layer r m tier_of ((d, cands), q) (g, c)))"
proof (cases "min q (int (length cands)) \<le> 0")
  case False
  let ?k = "nat (min q (int (length cands)))"
  have "set (rg_sample r c (length cands) ?k) \<subseteq> {..<length cands}" using rng unfolding rng_ok_def by simp
  then have "cands ! i \<in> set cands" if "i \<in> set (rg_sample r c (length cands) ?k)" for i using that by auto
  then have "fst (cands ! i) < n \<and> snd (cands ! i) < n" if "i \<in> set (rg_sample r c (length cands) ?k)" for i
    using that cands by (metis prod.collapse)
  then have "\<exists>profile ty u v. draw_intra r m tier_of (cands ! i) = draw_link r profile ty (u, v)
    \<and> u \<in> set (keys (g_nodes g)) \<and> v \<in> set (keys (g_nodes g)) \<and> 0 \<le> fst (fst profile)
    \<and> fst (fst profile) \<le> snd (fst profile) \<and> (ty = InterLink \<longleftrightarrow> domain_of g u \<noteq> domain_of g v) \<and> True"
    if "i \<in> set (rg_sample r c (length cands) ?k)" for i
    using that draw_intra_link[OF ok(1) named, of n "fst (cands ! i)" "snd (cands ! i)" r tier_of]
    unfolding prod.collapse by blast
  from draw_links_ok[OF rng ok(2), of "rg_sample r c (length cands) ?k", OF this, where c = "c + 1"] False
  show ?thesis by (simp add: draw_layer_def Let_def)
qed (simp add: draw_layer_def Let_def ok)

lemma named_grows: "grows g g' \<Longrightarrow> nodes_ok g' = nodes_ok g \<and> keys (g_nodes g') = keys (g_nodes g)"
  by (simp add: grows_def nodes_ok_def)

lemma draw_layers_ok:
  assumes rng: "rng_ok r" and ok: "nodes_ok g" "edges_ok g"
    and named: "\<And>i. i < n \<Longrightarrow> node_name m i \<in> set (keys (g_nodes g))"
    and cands: "\<forall>lq \<in> set lqs. \<forall>ab \<in> set (snd (fst lq)). fst ab < n \<and> snd ab < n"
  shows "edges_ok (fst (fold (draw_layer r m tier_of) lqs (g, c))) \<and> grows g (fst (fold (draw_layer r m tier_of) lqs (g, c)))"
  using ok named cands
proof (induction lqs arbitrary: g c)
  case (Cons lq lqs)
  obtain d cands q where lq: "lq = ((d, cands), q)" by (metis prod.collapse)
  obtain g1 c1 where s: "draw_layer r m tier_of ((d, cands), q) (g, c) = (g1, c1)" by (rule prod.exhaust)
  have 1: "edges_ok g1 \<and> grows g g1"
    using draw_layer_ok[OF rng Cons.prems(1-3), where cands = cands and d = d and q = q and c = c and tier_of = tier_of]
      Cons.prems(4) s lq by fastforce
  then have n: "nodes_ok g1" "keys (g_nodes g1) = keys (g_nodes g)" using named_grows Cons.prems(1) by blast+
  have "edges_ok (fst (fold (draw_layer r m tier_of) lqs (g1, c1))) \<and> grows g1 (fst (fold (draw_layer r m tier_of) lqs (g1, c1)))"
    by (rule Cons.IH) (use 1 n Cons.prems(3,4) in auto)
  then show ?case using 1 grows_trans by (auto simp: lq s)
qed simp

lemma draw_laterals_ok:
  assumes rng: "rng_ok r" and ok: "nodes_ok g" "edges_ok g"
    and named: "\<And>i. i < length level \<Longrightarrow> node_name m i \<in> set (keys (g_nodes g))"
  shows "edges_ok (fst (draw_laterals r share m tier_of level (g, c))) \<and> grows g (fst (draw_laterals r share m tier_of level (g, c)))"
proof -
  let ?layers = "lateral_candidates level (map (node_name m) [0..<length level]) g"
  have "\<forall>lq \<in> set (zip ?layers qs). \<forall>ab \<in> set (snd (fst lq)). fst ab < length level \<and> snd ab < length level" for qs
  proof (intro ballI)
    fix lq ab assume "lq \<in> set (zip ?layers qs)" and ab: "ab \<in> set (snd (fst lq))"
    then have "(fst (fst lq), snd (fst lq)) \<in> set ?layers" by (metis prod.collapse set_zip_leftD)
    then show "fst ab < length level \<and> snd ab < length level"
      by (rule lateral_candidates_in) (use ab in simp)
  qed
  from draw_layers_ok[OF rng ok named this] ok show ?thesis by (simp add: draw_laterals_def Let_def)
qed

lemma layout_parents:
  "layout_ok n L (level, parent, k) \<Longrightarrow> i < n \<Longrightarrow> (case parent ! i of None \<Rightarrow> i < k | Some q \<Rightarrow> q < i)"
  by (auto simp: layout_ok_def list_all_length nth_enumerate_eq)

lemma backbone_in:
  assumes "layout_ok n L (level, parent, k)" and "(a, b) \<in> set (backbone_edges parent k)"
  shows "a < n \<and> b < n"
proof -
  have l: "length parent = n" "0 < k" "k \<le> n" using assms(1) by (simp_all add: layout_ok_def)
  have p: "q < i" if "i < n" "parent ! i = Some q" for i q using layout_parents[OF assms(1) that(1)] that(2) by simp
  have "a < n \<and> b < n" if "(i, p') \<in> set (enumerate 0 parent)" "p' = Some a" "b = i" for i p'
    using that l(1) p[of i a] by (auto simp: in_set_enumerate_eq)
  moreover have "(r + 1) mod k < n" for r using l(2,3) mod_less_divisor[of k "r + 1"] by linarith
  ultimately show ?thesis
    using assms(2) l(3) by (auto simp: backbone_edges_def map_filter_def split: if_splits)
qed

lemma edges_ok_extend:
  assumes "edges_ok g" and e: "g_edges g' = g_edges g" and n: "set (keys (g_nodes g)) \<subseteq> set (keys (g_nodes g'))"
    and d: "\<And>u. u \<in> set (keys (g_nodes g)) \<Longrightarrow> domain_of g' u = domain_of g u"
  shows "edges_ok g'"
proof -
  have "edge_ok g' x" if "edge_ok g x" for x
  proof -
    obtain uv ed where "x = (uv, ed)" by (rule prod.exhaust)
    moreover obtain u v where "uv = (u, v)" by (rule prod.exhaust)
    ultimately have x: "x = ((u, v), ed)" by simp
    have uv: "u \<in> set (keys (g_nodes g))" "v \<in> set (keys (g_nodes g))"
      using that unfolding x edge_ok_def prod.case by blast+
    then have "u \<in> set (keys (g_nodes g'))" "v \<in> set (keys (g_nodes g'))" using n by blast+
    then show ?thesis using that d[OF uv(1)] d[OF uv(2)] unfolding x edge_ok_def prod.case by simp
  qed
  then show ?thesis using assms(1) unfolding edges_ok_def e by blast
qed

lemma build_domain_ok:
  assumes rng: "rng_ok r" and m: "(m, tiers) \<in> set domain_tiers" and new: "m \<notin> set ms" and ok: "built ms s"
  shows "\<exists>s'. build_domain r share (m, tiers) s = Inr s' \<and> built (ms @ [m]) s'"
proof -
  obtain g c roots where s: "s = ((g, c), roots)" by (metis prod.collapse)
  obtain n level parent k where size: "map_of domain_sizes m = Some n" and tiers: "map_of domain_tiers m = Some tiers"
    and lp: "levels_and_parents n (length tiers) = Inr (level, parent, k)"
    and lay: "layout m = (level, parent, k)" "layout_ok n (length tiers) (level, parent, k)"
    by (rule layout_of_domain[OF m])
  define tier_of where "tier_of = map (\<lambda>d. tiers ! d) level"
  have ln: "length level = n" "length tier_of = n" using lay(2) by (simp_all add: layout_ok_def tier_of_def)
  have sk: "map sketch (g_nodes g) = concat (map planned_nodes ms)" and nd: "nodes_ok g" and ed: "edges_ok g"
    and bb: "\<forall>m \<in> set ms. \<forall>(u, v) \<in> set (planned_backbone m). has_edge g u v \<and> has_edge g v u"
    and rt: "roots = planned_roots ms" using ok by (simp_all add: built_def s)
  have fresh: "node_name m i \<notin> set (keys (g_nodes g))" for i
  proof
    assume "node_name m i \<in> set (keys (g_nodes g))"
    then have "node_name m i \<in> fst ` set (map sketch (g_nodes g))" by (force simp: sketch_def)
    then show False unfolding sk using new by (auto simp: planned_nodes_def)
  qed
  obtain g1 c1 where b1: "fold (draw_node r m) (enumerate 0 tier_of) (g, c) = (g1, c1)" by (rule prod.exhaust)
  obtain new_nodes where g1: "g1 = g\<lparr>g_nodes := g_nodes g @ new_nodes\<rparr>"
    and sk1: "map sketch new_nodes = map (\<lambda>(i, t). (node_name m i, int m, t)) (enumerate 0 tier_of)"
    and fr: "\<forall>(n, d) \<in> set new_nodes. fresh_node d"
    using draw_nodes_spec[OF rng, of "enumerate 0 tier_of" m g c] fresh b1 by auto
  have planned: "map sketch new_nodes = planned_nodes m"
    unfolding sk1 planned_nodes_def lay(1) tiers tier_of_def by (simp add: enumerate_map_upt enumerate_eq_zip zip_map2 split_beta comp_def)
  have "map fst new_nodes = map fst (map sketch new_nodes)" by (simp add: sketch_def split_beta comp_def)
  also have "\<dots> = map (node_name m) [0..<n]"
    unfolding sk1 by (rule nth_equalityI) (simp_all add: nth_enumerate_eq ln(2))
  finally have names: "keys new_nodes = map (node_name m) [0..<n]" .
  have keys1: "keys (g_nodes g1) = keys (g_nodes g) @ map (node_name m) [0..<n]" by (simp add: g1 names)
  have named: "node_name m i \<in> set (keys (g_nodes g1))" if "i < n" for i using that unfolding keys1 by simp
  have same: "domain_of g1 u = domain_of g u" if "u \<in> set (keys (g_nodes g))" for u
    using that by (auto simp: domain_of_def g1 map_add_def key_iff split: option.split)
  have new_ok: "domain_id d = int m \<and> (\<exists>i. x = node_name m i)" if "(x, d) \<in> set new_nodes" for x d
  proof -
    from that have "sketch (x, d) \<in> set (map sketch new_nodes)" by simp
    then show ?thesis unfolding sk1 by (auto simp: sketch_def)
  qed
  have "set (keys (g_nodes g)) \<inter> node_name m ` set [0..<n] = {}" using fresh by blast
  moreover have "distinct (map (node_name m) [0..<n])" by (simp add: distinct_map inj_on_def)
  moreover have "distinct (keys (g_nodes g))" using nd by (simp add: nodes_ok_def)
  ultimately have "distinct (keys (g_nodes g1))" unfolding keys1 distinct_append set_map[of "node_name m"] by blast
  moreover have "\<forall>(x, d) \<in> set (g_nodes g1). fresh_node d \<and> (\<exists>m i. x = node_name m i \<and> domain_id d = int m)"
  proof
    fix xd assume xd: "xd \<in> set (g_nodes g1)"
    show "case xd of (x, d) \<Rightarrow> fresh_node d \<and> (\<exists>m i. x = node_name m i \<and> domain_id d = int m)"
    proof (cases "xd \<in> set (g_nodes g)")
      case True
      then show ?thesis using nd unfolding nodes_ok_def by blast
    next
      case False
      with xd have "xd \<in> set new_nodes" by (simp add: g1)
      moreover obtain x d where "xd = (x, d)" by (rule prod.exhaust)
      ultimately show ?thesis using fr new_ok[of x d] by auto
    qed
  qed
  ultimately have nd1: "nodes_ok g1" by (simp add: nodes_ok_def)
  have ed1: "edges_ok g1"
    by (rule edges_ok_extend[OF ed]) (use same keys1 in \<open>auto simp: g1\<close>)
  obtain g2 c2 where b2: "fold (draw_intra r m tier_of) (backbone_edges parent k) (g1, c1) = (g2, c2)" by (rule prod.exhaust)
  have "\<exists>profile ty u v. draw_intra r m tier_of x = draw_link r profile ty (u, v)
    \<and> u \<in> set (keys (g_nodes g1)) \<and> v \<in> set (keys (g_nodes g1)) \<and> 0 \<le> fst (fst profile)
    \<and> fst (fst profile) \<le> snd (fst profile) \<and> (ty = InterLink \<longleftrightarrow> domain_of g1 u \<noteq> domain_of g1 v)
    \<and> u = node_name m (fst x) \<and> v = node_name m (snd x)" if "x \<in> set (backbone_edges parent k)" for x
    using draw_intra_link[OF nd1 named, of n "fst x" "snd x" r tier_of] backbone_in[OF lay(2), of "fst x" "snd x"] that
    unfolding prod.collapse by blast
  from draw_links_ok[OF rng ed1, where xs = "backbone_edges parent k" and f = "draw_intra r m tier_of" and c = c1
      and P = "\<lambda>x u v. u = node_name m (fst x) \<and> v = node_name m (snd x)", OF this] b2 have 2: "edges_ok g2" "grows g1 g2"
    and new_bb: "\<forall>x \<in> set (backbone_edges parent k). has_edge g2 (node_name m (fst x)) (node_name m (snd x))
        \<and> has_edge g2 (node_name m (snd x)) (node_name m (fst x))" by simp_all
  have nd2: "nodes_ok g2" and keys2: "keys (g_nodes g2) = keys (g_nodes g1)" using named_grows[OF 2(2)] nd1 by simp_all
  obtain g3 c3 where b3: "draw_laterals r share m tier_of level (g2, c2) = (g3, c3)" by (rule prod.exhaust)
  have 3: "edges_ok g3" "grows g2 g3"
    using draw_laterals_ok[OF rng nd2 2(1), of level m share tier_of c2] named keys2 b3 ln(1) by simp_all
  have gr: "grows g1 g3" by (rule grows_trans[OF 2(2) 3(2)])
  then have n3: "g_nodes g3 = g_nodes g @ new_nodes" by (simp add: grows_def g1)
  have "has_edge g u v \<Longrightarrow> has_edge g3 u v" for u v using gr by (simp add: grows_def g1 has_edge_def)
  moreover have "\<forall>(u, v) \<in> set (planned_backbone m). has_edge g3 u v \<and> has_edge g3 v u"
    using new_bb 3(2) by (auto simp: planned_backbone_def lay(1) grows_def)
  ultimately have "\<forall>j \<in> set (ms @ [m]). \<forall>(u, v) \<in> set (planned_backbone j). has_edge g3 u v \<and> has_edge g3 v u"
    using bb by (auto simp: Ball_def)
  moreover have "m \<notin> set (keys roots)" using new by (auto simp: rt planned_roots_def)
  then have "AList.update m k roots = planned_roots (ms @ [m])"
    by (simp add: update_fresh) (simp add: rt planned_roots_def lay(1))
  moreover have "nodes_ok g3" using named_grows[OF gr] nd1 by simp
  ultimately have "built (ms @ [m]) ((g3, c3), AList.update m k roots)"
    using 3(1) by (simp add: built_def n3 sk planned)
  moreover have "build_domain r share (m, tiers) s = Inr ((g3, c3), AList.update m k roots)"
    by (simp add: build_domain_def s size lp Let_def b1 b2 b3 flip: tier_of_def)
  ultimately show ?thesis by blast
qed

lemma build_domains_ok:
  assumes rng: "rng_ok r" and "set ds \<subseteq> set domain_tiers" and "distinct (ms @ keys ds)" and "built ms s"
  shows "\<exists>s'. fold_err (build_domain r share) ds s = Inr s' \<and> built (ms @ keys ds) s'"
  using assms(2-)
proof (induction ds arbitrary: ms s)
  case (Cons x ds)
  obtain m tiers where x: "x = (m, tiers)" by (rule prod.exhaust)
  obtain s1 where 1: "build_domain r share (m, tiers) s = Inr s1" "built (ms @ [m]) s1"
    using build_domain_ok[OF rng, of m tiers ms s share] Cons.prems x by auto
  have "\<exists>s'. fold_err (build_domain r share) ds s1 = Inr s' \<and> built ((ms @ [m]) @ keys ds) s'"
    by (rule Cons.IH[OF _ _ 1(2)]) (use Cons.prems x in auto)
  then show ?case using 1(1) by (simp add: x)
qed simp

definition domain_size :: "nat \<Rightarrow> nat" where
  "domain_size m = length (fst (layout m))"

definition domain_roots :: "nat \<Rightarrow> nat" where
  "domain_roots m = snd (snd (layout m))"

lemma committed_domain:
  assumes "m \<in> set domain_ids"
  shows "0 < domain_roots m \<and> domain_roots m \<le> domain_size m"
proof -
  have "m \<in> set (keys domain_tiers)" unfolding committed_tables(3) by (rule assms)
  then obtain tiers where "(m, tiers) \<in> set domain_tiers" by auto
  then obtain n level parent k where "layout m = (level, parent, k)" "layout_ok n (length tiers) (level, parent, k)"
    by (rule layout_of_domain)
  then show ?thesis by (simp add: domain_roots_def domain_size_def layout_ok_def)
qed

text \<open>The planned nodes by name.\<close>

lemma planned_keys:
  assumes "map sketch ns = concat (map planned_nodes ms)"
  shows "keys ns = concat (map (\<lambda>m. map (node_name m) [0..<domain_size m]) ms)"
proof -
  have "keys ns = map fst (map sketch ns)" by (simp add: sketch_def split_beta comp_def)
  moreover have "map fst (planned_nodes m) = map (node_name m) [0..<domain_size m]" for m
    unfolding planned_nodes_def domain_size_def by (rule nth_equalityI) (simp_all add: nth_enumerate_eq)
  ultimately show ?thesis unfolding assms by (simp add: map_concat comp_def)
qed

lemma planned_key_iff:
  assumes "map sketch ns = concat (map planned_nodes ms)"
  shows "x \<in> set (keys ns) \<longleftrightarrow> (\<exists>m i. x = node_name m i \<and> m \<in> set ms \<and> i < domain_size m)"
  unfolding planned_keys[OF assms] by (auto simp: image_iff)

definition planned_gateways :: "nat \<times> nat \<Rightarrow> (node_id \<times> node_id) list" where
  "planned_gateways = gateway_pairs (planned_roots domain_ids)"

lemma roots_default: "m \<in> set domain_ids \<Longrightarrow> get_default (planned_roots domain_ids) m 1 = domain_roots m"
  by (auto simp: planned_roots_def get_default_def domain_roots_def domain_ids_def)

lemma gateway_named:
  assumes "(a, b) \<in> set inter_domain_adjacencies" and "(u, v) \<in> set (planned_gateways (a, b))"
  obtains i j where "u = node_name a i" and "v = node_name b j" and "i < domain_size a" and "j < domain_size b"
    and "a \<in> set domain_ids" and "b \<in> set domain_ids" and "a \<noteq> b"
proof -
  have ab: "a \<noteq> b" "a < 5" "b < 5" using committed_tables(4) assms(1) by (auto simp: list_all_iff)
  then have m: "a \<in> set domain_ids" "b \<in> set domain_ids" by (auto simp: domain_ids_def)
  from assms(2) obtain k where "u = node_name a (k mod domain_roots a)" "v = node_name b (k mod domain_roots b)"
    unfolding planned_gateways_def gateway_pairs_def prod.case roots_default[OF m(1)] roots_default[OF m(2)] by auto
  moreover have "k mod domain_roots x < domain_size x" if "x \<in> set domain_ids" for x
    using committed_domain[OF that] by (meson mod_less_divisor order_less_le_trans)
  ultimately show thesis using that ab m by blast
qed

lemma fold_draw_adjacency:
  "fold (draw_adjacency r roots) adjs b = fold (draw_link r (bw_inter, delay_inter) InterLink) (concat (map (gateway_pairs roots) adjs)) b"
  by (induction adjs arbitrary: b) (simp_all add: draw_adjacency_def)

lemma draw_adjacencies_ok:
  assumes rng: "rng_ok r" and built: "built domain_ids ((g, c), roots)"
    and g': "g' = fst (fold (draw_adjacency r roots) inter_domain_adjacencies (g, c))"
  shows "edges_ok g' \<and> grows g g'
    \<and> (\<forall>ab \<in> set inter_domain_adjacencies. \<forall>(u, v) \<in> set (planned_gateways ab). has_edge g' u v \<and> has_edge g' v u)"
proof -
  let ?xs = "concat (map planned_gateways inter_domain_adjacencies)"
  have B: "map sketch (g_nodes g) = concat (map planned_nodes domain_ids)" "nodes_ok g" "edges_ok g"
    "roots = planned_roots domain_ids" using built by (simp_all add: built_def)
  have step: "\<exists>profile ty u v. draw_link r (bw_inter, delay_inter) InterLink x = draw_link r profile ty (u, v)
    \<and> u \<in> set (keys (g_nodes g)) \<and> v \<in> set (keys (g_nodes g)) \<and> 0 \<le> fst (fst profile)
    \<and> fst (fst profile) \<le> snd (fst profile) \<and> (ty = InterLink \<longleftrightarrow> domain_of g u \<noteq> domain_of g v) \<and> (u, v) = x"
    if x: "x \<in> set ?xs" for x
  proof -
    from x obtain adj where adj: "adj \<in> set inter_domain_adjacencies" "x \<in> set (planned_gateways adj)" by auto
    obtain a b where a: "adj = (a, b)" by (rule prod.exhaust)
    obtain u v where u: "x = (u, v)" by (rule prod.exhaust)
    note ab = adj(1)[unfolded a] u adj(2)[unfolded a u]
    from gateway_named[OF ab(1,3)] obtain i j where n: "u = node_name a i" "v = node_name b j"
      "i < domain_size a" "j < domain_size b" "a \<in> set domain_ids" "b \<in> set domain_ids" "a \<noteq> b" .
    then have k: "u \<in> set (keys (g_nodes g))" "v \<in> set (keys (g_nodes g))" unfolding planned_key_iff[OF B(1)] by blast+
    then have "domain_of g u = int a" "domain_of g v = int b" using domain_of_named[OF B(2)] n by simp_all
    then show ?thesis using k n(7) ab(2) by (intro exI[of _ "(bw_inter, delay_inter)"] exI[of _ InterLink] exI[of _ u] exI[of _ v])
      (simp add: bw_inter_def)
  qed
  have "g' = fst (fold (draw_link r (bw_inter, delay_inter) InterLink) ?xs (g, c))"
    unfolding g' B(4) fold_draw_adjacency planned_gateways_def by simp
  with draw_links_ok[OF rng B(3), where xs = ?xs and f = "draw_link r (bw_inter, delay_inter) InterLink" and c = c
      and P = "\<lambda>x u v. (u, v) = x", OF step]
  show ?thesis by fastforce
qed

section \<open>Where the links come from\<close>

definition tier_at :: "nat \<Rightarrow> nat \<Rightarrow> tier" where
  "tier_at m i = the (map_of domain_tiers m) ! (fst (layout m) ! i)"

text \<open>A link inside a domain joins parent and child, neighbours of the root ring, or two nodes of one layer.\<close>

definition planned_intra :: "nat \<Rightarrow> nat \<Rightarrow> nat \<Rightarrow> bool" where
  "planned_intra m a b \<longleftrightarrow>
     m \<in> set domain_ids \<and> a < domain_size m \<and> b < domain_size m \<and> a \<noteq> b
     \<and> ((node_name m a, node_name m b) \<in> set (planned_backbone m) \<or> (node_name m b, node_name m a) \<in> set (planned_backbone m)
        \<or> fst (layout m) ! a = fst (layout m) ! b)"

text \<open>The parallel links of an adjacency join the first roots of the two domains, pairwise.\<close>

definition gateway_link :: "node_id \<Rightarrow> node_id \<Rightarrow> bool" where
  "gateway_link u v \<longleftrightarrow>
     (\<exists>(a, b) \<in> set inter_domain_adjacencies. \<exists>k < 2. u = node_name a k \<and> v = node_name b k)"

definition in_profile :: "(real \<times> real) \<times> (real \<times> real) \<Rightarrow> edge_data \<Rightarrow> bool" where
  "in_profile p e \<longleftrightarrow>
     fst (fst p) \<le> bandwidth_capacity e \<and> bandwidth_capacity e \<le> snd (fst p)
     \<and> fst (snd p) \<le> propagation_delay e \<and> propagation_delay e \<le> snd (snd p)"

definition planned_link :: "(node_id \<times> node_id) \<times> edge_data \<Rightarrow> bool" where
  "planned_link = (\<lambda>((u, v), e).
     (\<exists>m a b. u = node_name m a \<and> v = node_name m b \<and> planned_intra m a b
        \<and> link_type e = IntraLink \<and> in_profile (profile_for (tier_at m a) (tier_at m b)) e)
     \<or> (gateway_link u v \<or> gateway_link v u) \<and> link_type e = InterLink \<and> in_profile (bw_inter, delay_inter) e)"

text \<open>Every link has its twin in the other direction, of the same bandwidth, delay and type.\<close>

definition mirrored :: "'a graph_scheme \<Rightarrow> bool" where
  "mirrored g \<longleftrightarrow> (\<forall>((u, v), e) \<in> set (g_edges g). \<exists>e'. ((v, u), e') \<in> set (g_edges g)
     \<and> bandwidth_capacity e' = bandwidth_capacity e \<and> propagation_delay e' = propagation_delay e \<and> link_type e' = link_type e)"

definition links_planned :: "'a graph_scheme \<Rightarrow> bool" where
  "links_planned g \<longleftrightarrow> mirrored g \<and> (\<forall>x \<in> set (g_edges g). planned_link x)"

lemma planned_intra_sym: "planned_intra m a b \<longleftrightarrow> planned_intra m b a"
  by (auto simp: planned_intra_def)

lemma profile_for_sym: "profile_for s t = profile_for t s"
  by (cases s; cases t) (simp_all add: profile_for_def link_profile_def)

lemma planned_link_sym: "planned_link ((u, v), e) \<longleftrightarrow> planned_link ((v, u), e)"
  unfolding planned_link_def prod.case by (metis planned_intra_sym profile_for_sym)

definition on_grid :: "(real \<times> real) \<times> (real \<times> real) \<Rightarrow> bool" where
  "on_grid p \<longleftrightarrow>
     fst (fst p) * 10 ^ 1 \<in> \<int> \<and> snd (fst p) * 10 ^ 1 \<in> \<int> \<and> fst (fst p) \<le> snd (fst p)
     \<and> fst (snd p) * 10 ^ 3 \<in> \<int> \<and> snd (snd p) * 10 ^ 3 \<in> \<int> \<and> fst (snd p) \<le> snd (snd p)"

lemma profiles_on_grid: "on_grid (profile_for s t)" "on_grid (bw_inter, delay_inter)"
  by (cases s; cases t)
    (simp_all add: on_grid_def profile_for_def link_profile_def bw_access_def bw_aggregation_def bw_core_uplink_def
      bw_datacentre_def delay_access_def delay_aggregation_def delay_datacentre_def bw_inter_def delay_inter_def)

lemma draw_link_planned:
  assumes rng: "rng_ok r" and ok: "links_planned g" and ne: "u \<noteq> v" and grid: "on_grid profile"
    and plan: "\<And>e. link_type e = ty \<Longrightarrow> in_profile profile e \<Longrightarrow> planned_link ((u, v), e)"
  shows "links_planned (fst (draw_link r profile ty (u, v) (g, c)))"
proof -
  define x where "x = py_round (uniform (rg_unit r c) (fst profile)) 1"
  define y where "y = py_round (uniform (rg_unit r (c + 1)) (snd profile)) 3"
  have U: "0 \<le> rg_unit r j" "rg_unit r j \<le> 1" for j using rng by (simp_all add: rng_ok_def unit_draws_def)
  have r: "in_profile profile e" if "bandwidth_capacity e = x" "propagation_delay e = y" for e
    using drawn_between[OF U, of "fst profile" 1 c] drawn_between[OF U, of "snd profile" 3 "c + 1"] grid that
    unfolding in_profile_def on_grid_def x_def y_def by auto
  have g: "fst (draw_link r profile ty (u, v) (g, c)) = add_directed_link v u x y ty (add_directed_link u v x y ty g)"
    by (simp add: draw_link_def add_directed_link_pair_def x_def y_def)
  let ?e = "\<lambda>u v. \<lparr>link_id = link_name u v, bandwidth_capacity = x, bw_residual = x, propagation_delay = y, link_type = ty\<rparr>"
  have both: "has_edge g u v \<longleftrightarrow> has_edge g v u"
    using ok by (force simp: links_planned_def mirrored_def has_edge_iff)
  show ?thesis
  proof (cases "has_edge g u v")
    case True
    then show ?thesis using ok both unfolding g by (simp add: add_directed_link_def)
  next
    case False
    then have es: "g_edges (fst (draw_link r profile ty (u, v) (g, c))) = g_edges g @ [((u, v), ?e u v), ((v, u), ?e v u)]"
      using both ne unfolding g by (auto simp: add_directed_link_def has_edge_iff)
    have "planned_link ((u, v), ?e u v)" "planned_link ((u, v), ?e v u)" by (intro plan r; simp)+
    then have "planned_link ((u, v), ?e u v)" "planned_link ((v, u), ?e v u)" using planned_link_sym by blast+
    then show ?thesis using ok unfolding links_planned_def mirrored_def es by fastforce
  qed
qed

lemma draw_links_planned:
  assumes rng: "rng_ok r" and ok: "links_planned g"
    and step: "\<And>x. x \<in> set xs \<Longrightarrow> \<exists>profile ty u v. f x = draw_link r profile ty (u, v) \<and> u \<noteq> v \<and> on_grid profile
      \<and> (\<forall>e. link_type e = ty \<longrightarrow> in_profile profile e \<longrightarrow> planned_link ((u, v), e))"
  shows "links_planned (fst (fold f xs (g, c)))"
  using ok step
proof (induction xs arbitrary: g c)
  case (Cons x xs)
  obtain profile ty u v where x: "f x = draw_link r profile ty (u, v)" "u \<noteq> v" "on_grid profile"
    "\<And>e. link_type e = ty \<Longrightarrow> in_profile profile e \<Longrightarrow> planned_link ((u, v), e)"
    using Cons.prems(2)[OF list.set_intros(1)] by blast
  obtain g1 c1 where s: "f x (g, c) = (g1, c1)" by force
  have "links_planned g1" using draw_link_planned[OF rng Cons.prems(1) x(2-4), where c = c and ty = ty] s by (simp add: x(1))
  then show ?case using Cons.IH[of g1 c1] Cons.prems(2) by (simp add: s)
qed simp

text \<open>One planned link inside domain \<open>m\<close>, drawn with the tiers the domain builder uses.\<close>

lemma draw_intra_planned:
  assumes "planned_intra m a b" and "\<And>i. i < domain_size m \<Longrightarrow> tier_of ! i = tier_at m i"
  shows "\<exists>profile ty u v. draw_intra r m tier_of (a, b) = draw_link r profile ty (u, v) \<and> u \<noteq> v \<and> on_grid profile
    \<and> (\<forall>e. link_type e = ty \<longrightarrow> in_profile profile e \<longrightarrow> planned_link ((u, v), e))"
proof -
  have "a < domain_size m" "b < domain_size m" "a \<noteq> b" using assms(1) by (simp_all add: planned_intra_def)
  then show ?thesis
    using assms profiles_on_grid(1)[of "tier_of ! a" "tier_of ! b"] unfolding draw_intra_def prod.case
    by (intro exI[of _ "profile_for (tier_of ! a) (tier_of ! b)"] exI[of _ IntraLink] exI[of _ "node_name m a"]
        exI[of _ "node_name m b"]) (auto simp: planned_link_def)
qed

lemma draw_nodes_edges: "g_edges (fst (fold (draw_node r m) its (g, c))) = g_edges g"
proof (induction its arbitrary: g c)
  case (Cons it its)
  obtain i t where "it = (i, t)" by (rule prod.exhaust)
  then show ?case using Cons.IH by (simp add: draw_node_def Let_def)
qed simp

lemma links_planned_edges: "g_edges g = g_edges h \<Longrightarrow> links_planned g = links_planned h"
  by (simp add: links_planned_def mirrored_def)

lemma level_pairs_ne: "distinct peers \<Longrightarrow> (a, b) \<in> set (level_pairs peers) \<Longrightarrow> a \<noteq> b"
proof -
  assume d: "distinct peers" and ab: "(a, b) \<in> set (level_pairs peers)"
  from ab obtain pos where "(pos, a) \<in> set (enumerate 0 peers)" and b: "b \<in> set (drop (pos + 1) peers)"
    by (auto simp: level_pairs_def)
  then have "a = peers ! pos" "pos < length peers" by (simp_all add: in_set_enumerate_eq)
  then have "a \<in> set (take (pos + 1) peers)" by (simp add: take_Suc_conv_app_nth)
  moreover have "set (take (pos + 1) peers) \<inter> set (drop (pos + 1) peers) = {}"
    using d by (rule set_take_disj_set_drop_if_distinct) simp
  ultimately show "a \<noteq> b" using b by blast
qed

lemma lateral_candidates_planned:
  assumes "(d, cands) \<in> set (lateral_candidates (fst (layout m)) ids g)" and "ab \<in> set cands" and "m \<in> set domain_ids"
  shows "planned_intra m (fst ab) (snd ab)"
proof -
  let ?peers = "filter (\<lambda>i. fst (layout m) ! i = d) [0..<length (fst (layout m))]"
  have "(fst ab, snd ab) \<in> set (level_pairs ?peers)" using assms(1,2) by (auto simp: lateral_candidates_def)
  from level_pairs_in[OF this] level_pairs_ne[OF _ this] show ?thesis
    using assms(3) by (simp add: planned_intra_def domain_size_def)
qed

lemma draw_laterals_planned:
  assumes rng: "rng_ok r" and ok: "links_planned g" and m: "m \<in> set domain_ids"
    and tiers: "\<And>i. i < domain_size m \<Longrightarrow> tier_of ! i = tier_at m i"
  shows "links_planned (fst (draw_laterals r share m tier_of (fst (layout m)) (g, c)))"
proof -
  let ?layers = "lateral_candidates (fst (layout m)) (map (node_name m) [0..<length (fst (layout m))]) g"
  have layers: "links_planned (fst (fold (draw_layer r m tier_of) lqs (h, c)))"
    if "links_planned h" and "\<forall>lq \<in> set lqs. \<forall>ab \<in> set (snd (fst lq)). planned_intra m (fst ab) (snd ab)" for lqs h c
    using that
  proof (induction lqs arbitrary: h c)
    case (Cons lq lqs)
    obtain d cands q where lq: "lq = ((d, cands), q)" by (metis prod.collapse)
    obtain h1 c1 where s: "draw_layer r m tier_of ((d, cands), q) (h, c) = (h1, c1)" by (rule prod.exhaust)
    let ?k = "nat (min q (int (length cands)))"
    have "links_planned (fst (fold (\<lambda>i. draw_intra r m tier_of (cands ! i)) (rg_sample r c (length cands) ?k) (h, c + 1)))"
    proof (rule draw_links_planned[OF rng Cons.prems(1)])
      fix i assume "i \<in> set (rg_sample r c (length cands) ?k)"
      moreover have "set (rg_sample r c (length cands) ?k) \<subseteq> {..<length cands}" using rng unfolding rng_ok_def by simp
      ultimately have "cands ! i \<in> set cands" by auto
      then have "planned_intra m (fst (cands ! i)) (snd (cands ! i))" using Cons.prems(2) by (simp add: lq)
      from draw_intra_planned[OF this tiers, where r = r]
      show "\<exists>profile ty u v. draw_intra r m tier_of (cands ! i) = draw_link r profile ty (u, v) \<and> u \<noteq> v \<and> on_grid profile
      \<and> (\<forall>e. link_type e = ty \<longrightarrow> in_profile profile e \<longrightarrow> planned_link ((u, v), e))" unfolding prod.collapse by blast
    qed
    then have "links_planned h1" using s Cons.prems(1) by (auto simp: draw_layer_def Let_def split: if_splits)
    then show ?case using Cons.IH[of h1 c1] Cons.prems(2) s by (simp add: lq)
  qed simp
  have "\<forall>lq \<in> set (zip ?layers qs). \<forall>ab \<in> set (snd (fst lq)). planned_intra m (fst ab) (snd ab)" for qs
  proof (intro ballI)
    fix lq ab assume "lq \<in> set (zip ?layers qs)" and ab: "ab \<in> set (snd (fst lq))"
    then have "(fst (fst lq), snd (fst lq)) \<in> set ?layers" by (metis prod.collapse set_zip_leftD)
    from lateral_candidates_planned[OF this ab m] show "planned_intra m (fst ab) (snd ab)" .
  qed
  from layers[OF ok this] ok show ?thesis by (simp add: draw_laterals_def Let_def)
qed

lemma backbone_ne: "layout_ok n L (level, parent, k) \<Longrightarrow> (a, b) \<in> set (backbone_edges parent k) \<Longrightarrow> a \<noteq> b"
proof -
  assume lay: "layout_ok n L (level, parent, k)" and ab: "(a, b) \<in> set (backbone_edges parent k)"
  have "r \<noteq> (r + 1) mod k" if "r < k" "1 < k" for r using that by (cases "r + 1 = k") auto
  moreover have "q < i" if "i < n" "parent ! i = Some q" for i q using layout_parents[OF lay that(1)] that(2) by simp
  moreover have "length parent = n" using lay by (simp add: layout_ok_def)
  ultimately show ?thesis
    using ab by (fastforce simp: backbone_edges_def map_filter_def in_set_enumerate_eq split: if_splits)
qed

lemma build_domain_planned:
  assumes rng: "rng_ok r" and m: "(m, tiers) \<in> set domain_tiers" and ok: "links_planned (fst (fst s))"
    and run: "build_domain r share (m, tiers) s = Inr s'"
  shows "links_planned (fst (fst s'))"
proof -
  obtain g c roots where s: "s = ((g, c), roots)" by (metis prod.collapse)
  obtain n level parent k where size: "map_of domain_sizes m = Some n" and tiers: "map_of domain_tiers m = Some tiers"
    and lp: "levels_and_parents n (length tiers) = Inr (level, parent, k)"
    and lay: "layout m = (level, parent, k)" "layout_ok n (length tiers) (level, parent, k)"
    by (rule layout_of_domain[OF m])
  define tier_of where "tier_of = map (\<lambda>d. tiers ! d) level"
  have mi: "m \<in> set domain_ids" using m unfolding committed_tables(3)[symmetric] by force
  have ts: "tier_of ! i = tier_at m i" if "i < domain_size m" for i
    using that by (simp add: tier_of_def tier_at_def domain_size_def lay(1) tiers)
  obtain g1 c1 where b1: "fold (draw_node r m) (enumerate 0 tier_of) (g, c) = (g1, c1)" by (rule prod.exhaust)
  obtain g2 c2 where b2: "fold (draw_intra r m tier_of) (backbone_edges parent k) (g1, c1) = (g2, c2)" by (rule prod.exhaust)
  have "g_edges g1 = g_edges g" using draw_nodes_edges[of r m "enumerate 0 tier_of" g c] b1 by simp
  with ok have 1: "links_planned g1" using links_planned_edges by (auto simp: s)
  have "links_planned (fst (fold (draw_intra r m tier_of) (backbone_edges parent k) (g1, c1)))"
  proof (rule draw_links_planned[OF rng 1])
    fix x assume x: "x \<in> set (backbone_edges parent k)"
    obtain a b where ab: "x = (a, b)" by (rule prod.exhaust)
    have "(node_name m a, node_name m b) \<in> set (planned_backbone m)" using x by (force simp: planned_backbone_def lay(1) ab)
    moreover have "length level = n" using lay(2) by (simp add: layout_ok_def)
    ultimately have "planned_intra m a b"
      using backbone_in[OF lay(2) x[unfolded ab]] backbone_ne[OF lay(2) x[unfolded ab]] mi
      by (simp add: planned_intra_def domain_size_def lay(1))
    from draw_intra_planned[OF this ts, where r = r]
    show "\<exists>profile ty u v. draw_intra r m tier_of x = draw_link r profile ty (u, v) \<and> u \<noteq> v \<and> on_grid profile
      \<and> (\<forall>e. link_type e = ty \<longrightarrow> in_profile profile e \<longrightarrow> planned_link ((u, v), e))" unfolding ab by blast
  qed
  then have "links_planned g2" by (simp add: b2)
  from draw_laterals_planned[OF rng this mi ts, where share = share and c = c2]
  show ?thesis using run by (auto simp: build_domain_def s size lp Let_def b1 b2 lay(1) simp flip: tier_of_def)
qed

lemma build_domains_planned:
  assumes "rng_ok r" and "set ds \<subseteq> set domain_tiers" and "links_planned (fst (fst s))"
    and "fold_err (build_domain r share) ds s = Inr s'"
  shows "links_planned (fst (fst s'))"
  by (rule fold_err_invariant[where P = "\<lambda>s. links_planned (fst (fst s))", OF _ assms(3,4)])
    (use assms(1,2) build_domain_planned in force)

lemma two_roots: "list_all (\<lambda>m. 2 \<le> domain_roots m) domain_ids" "inter_links_per_pair = 2"
  by code_simp+

lemma planned_gateways_link:
  assumes "ab \<in> set inter_domain_adjacencies"
  shows "set (planned_gateways ab) = {(node_name (fst ab) k, node_name (snd ab) k) | k. k < 2}"
proof -
  obtain a b where ab: "ab = (a, b)" by (rule prod.exhaust)
  have "a < 5 \<and> b < 5" using committed_tables(4) assms by (auto simp: list_all_iff ab)
  then have m: "a \<in> set domain_ids" "b \<in> set domain_ids" by (auto simp: domain_ids_def)
  have "k mod domain_roots x = k" if "x \<in> set domain_ids" "k < 2" for x k
    using two_roots(1) that by (auto simp: list_all_iff)
  then show ?thesis
    using m unfolding planned_gateways_def gateway_pairs_def ab prod.case roots_default[OF m(1)] roots_default[OF m(2)] two_roots(2)
    by (auto simp: image_iff)
qed

lemma draw_adjacencies_planned:
  assumes rng: "rng_ok r" and ok: "links_planned g"
  shows "links_planned (fst (fold (draw_adjacency r (planned_roots domain_ids)) inter_domain_adjacencies (g, c)))"
  unfolding fold_draw_adjacency
proof (rule draw_links_planned[OF rng ok])
  fix x assume "x \<in> set (concat (map (gateway_pairs (planned_roots domain_ids)) inter_domain_adjacencies))"
  then obtain ab where ab: "ab \<in> set inter_domain_adjacencies" "x \<in> set (planned_gateways ab)"
    by (auto simp: planned_gateways_def)
  then obtain k where k: "k < 2" "x = (node_name (fst ab) k, node_name (snd ab) k)"
    using planned_gateways_link by blast
  have "fst ab \<noteq> snd ab" using committed_tables(4) ab(1) by (auto simp: list_all_iff)
  moreover have "gateway_link (node_name (fst ab) k) (node_name (snd ab) k)"
    unfolding gateway_link_def using ab(1) k(1) by (intro bexI[of _ ab]) (auto simp: split_beta)
  ultimately show "\<exists>profile ty u v. draw_link r (bw_inter, delay_inter) InterLink x = draw_link r profile ty (u, v) \<and> u \<noteq> v \<and> on_grid profile
      \<and> (\<forall>e. link_type e = ty \<longrightarrow> in_profile profile e \<longrightarrow> planned_link ((u, v), e))"
    using profiles_on_grid(2)
    by (intro exI[of _ "(bw_inter, delay_inter)"] exI[of _ InterLink] exI[of _ "node_name (fst ab) k"] exI[of _ "node_name (snd ab) k"])
      (auto simp: k(2) planned_link_def)
qed

section \<open>The finished substrate\<close>

lemma edges_view_ok:
  assumes "edges_ok g" and "distinct (keys (g_nodes g))"
  shows "set (edges_view g) = set (g_edges g)" and "distinct (keys (edges_view g))"
proof -
  let ?part = "\<lambda>u. filter (\<lambda>e. fst (fst e) = u) (g_edges g)"
  have src: "fst (fst e) \<in> set (keys (g_nodes g))" if "e \<in> set (g_edges g)" for e
    using assms(1) that unfolding edges_ok_def edge_ok_def split_beta by blast
  have "e \<in> set (edges_view g) \<longleftrightarrow> fst (fst e) \<in> set (keys (g_nodes g)) \<and> e \<in> set (g_edges g)" for e
    by (auto simp: edges_view_def)
  then show "set (edges_view g) = set (g_edges g)" using src by blast
  have "distinct (keys (concat (map ?part us)))" if "distinct us" for us
    using that
  proof (induction us)
    case (Cons u us)
    have "distinct (keys (?part u))" using assms(1) by (auto simp: edges_ok_def intro: distinct_map_filter)
    then show ?case using Cons by auto
  qed simp
  then show "distinct (keys (edges_view g))" unfolding edges_view_def using assms(2) by blast
qed

lemma finished_substrate:
  assumes nd: "nodes_ok g" and ed: "edges_ok g"
    and S: "S = \<lparr>g_nodes = g_nodes g, g_edges = edges_view g, num_domains = k, active_slices = []\<rparr>"
  shows "wf_graph S" and "typed_links S" and "reset_substrate S = S" and "no_overbooking S"
    and "\<And>u v. has_edge S u v \<longleftrightarrow> has_edge g u v" and "domain_of S = domain_of g"
proof -
  have dk: "distinct (keys (g_nodes g))" using nd by (simp add: nodes_ok_def)
  note V = edges_view_ok[OF ed dk]
  show dm: "domain_of S = domain_of g" by (simp add: S domain_of_def fun_eq_iff)
  show "has_edge S u v \<longleftrightarrow> has_edge g u v" for u v by (simp add: has_edge_iff S V(1))
  have e: "edge_ok g x" if "x \<in> set (g_edges S)" for x using that ed V(1) unfolding edges_ok_def S by simp
  have named: "u \<in> range (case_prod node_name)" if "u \<in> set (keys (g_nodes g))" for u
    using nd that by (fastforce simp: nodes_ok_def)
  have "inj_on (\<lambda>x. link_id (snd x)) (set (g_edges S))"
  proof (rule inj_onI)
    fix x y assume xy: "x \<in> set (g_edges S)" "y \<in> set (g_edges S)" "link_id (snd x) = link_id (snd y)"
    then have "link_name (fst (fst x)) (snd (fst x)) = link_name (fst (fst y)) (snd (fst y))"
      using e[OF xy(1)] e[OF xy(2)] by (simp add: edge_ok_def split_beta)
    moreover have "fst (fst x) \<in> range (case_prod node_name)" "fst (fst y) \<in> range (case_prod node_name)"
      using e[OF xy(1)] e[OF xy(2)] named unfolding edge_ok_def split_beta by blast+
    ultimately have "fst x = fst y" by (simp add: link_name_eq prod_eq_iff)
    then show "x = y" using xy(1,2) V(2) by (auto simp: S distinct_map inj_on_def)
  qed
  then have "distinct (link_ids (g_edges S))" using V(2) by (simp add: distinct_map S)
  moreover have "fst uv \<in> set (keys (g_nodes S)) \<and> snd uv \<in> set (keys (g_nodes S))" if "uv \<in> set (keys (g_edges S))" for uv
  proof -
    from that obtain d where "(uv, d) \<in> set (g_edges S)" by auto
    from e[OF this] show ?thesis unfolding edge_ok_def split_beta S by simp
  qed
  ultimately show "wf_graph S" using dk V(2) unfolding wf_graph_def by (simp add: S)
  show "typed_links S" unfolding typed_links_def crosses_def dm using e by (auto simp: edge_ok_def)
  have n: "fresh_node (snd x)" if "x \<in> set (g_nodes g)" for x using nd that unfolding nodes_ok_def split_beta by blast
  show "reset_substrate S = S"
  proof -
    have "map (\<lambda>(n, d). (n, d\<lparr>cpu_residual := cpu_capacity d, ram_residual := ram_capacity d\<rparr>)) (g_nodes g) = g_nodes g"
      by (rule map_idI) (use n in \<open>auto simp: fresh_node_def\<close>)
    moreover have "map (\<lambda>(e, d). (e, d\<lparr>bw_residual := bandwidth_capacity d\<rparr>)) (edges_view g) = edges_view g"
      by (rule map_idI) (use e in \<open>auto simp: edge_ok_def S\<close>)
    ultimately show ?thesis by (simp add: reset_substrate_def S)
  qed
  have "0 \<le> cpu_residual (snd x) \<and> 0 \<le> ram_residual (snd x)" if "x \<in> set (g_nodes g)" for x
    using n[OF that] tier_ranges[of "node_tier (snd x)"] by (auto simp: fresh_node_def)
  then show "no_overbooking S" using e unfolding no_overbooking_def by (fastforce simp: S edge_ok_def)
qed

lemma planned_count: "length (concat (map planned_nodes domain_ids)) = 80"
  by code_simp

lemma generated_substrate:
  assumes rng: "rng_ok r"
  obtains S where "generate_hierarchical_topology r share = Inr S"
    and "map sketch (g_nodes S) = concat (map planned_nodes domain_ids)" and "nodes_ok S"
    and "wf_graph S" and "typed_links S" and "reset_substrate S = S" and "no_overbooking S" and "num_domains S = topology_domains"
    and "\<And>m u v. m \<in> set domain_ids \<Longrightarrow> (u, v) \<in> set (planned_backbone m) \<Longrightarrow> has_edge S u v \<and> has_edge S v u"
    and "\<And>ab u v. ab \<in> set inter_domain_adjacencies \<Longrightarrow> (u, v) \<in> set (planned_gateways ab) \<Longrightarrow> has_edge S u v \<and> has_edge S v u"
    and "links_planned S"
proof -
  let ?start = "((\<lparr>g_nodes = [], g_edges = []\<rparr>, 0), []) :: build \<times> (nat, nat) dict"
  have "built [] ?start"
    by (simp add: built_def nodes_ok_def edges_ok_def planned_roots_def)
  from build_domains_ok[OF rng subset_refl _ this, of share] obtain s where
    s: "fold_err (build_domain r share) domain_tiers ?start = Inr s" "built domain_ids s"
    using committed_tables(2,3) by auto
  obtain b roots where "s = (b, roots)" by (rule prod.exhaust)
  moreover obtain g c where "b = (g, c)" by (rule prod.exhaust)
  ultimately have sp: "s = ((g, c), roots)" by simp
  define g' where "g' = fst (fold (draw_adjacency r roots) inter_domain_adjacencies (g, c))"
  note A = draw_adjacencies_ok[OF rng s(2)[unfolded sp] g'_def]
  have B: "map sketch (g_nodes g) = concat (map planned_nodes domain_ids)" "nodes_ok g"
    "\<And>m u v. m \<in> set domain_ids \<Longrightarrow> (u, v) \<in> set (planned_backbone m) \<Longrightarrow> has_edge g u v \<and> has_edge g v u"
    using s(2) by (fastforce simp: built_def sp)+
  define S where "S = \<lparr>g_nodes = g_nodes g', g_edges = edges_view g', num_domains = topology_domains, active_slices = []\<rparr>"
  have nd: "nodes_ok g'" and n: "g_nodes g' = g_nodes g" using A named_grows B(2) by (auto simp: grows_def)
  note F = finished_substrate[OF nd A[THEN conjunct1] S_def]
  have "generate_hierarchical_topology r share = Inr S"
    by (simp add: generate_hierarchical_topology_def committed_tables(1) s(1) sp Let_def g'_def S_def)
  moreover have "nodes_ok S" using nd by (simp add: nodes_ok_def S_def)
  moreover have "map sketch (g_nodes S) = concat (map planned_nodes domain_ids)" using B(1) n by (simp add: S_def)
  moreover have "num_domains S = topology_domains" by (simp add: S_def)
  moreover have "has_edge S u v \<and> has_edge S v u" if "m \<in> set domain_ids" "(u, v) \<in> set (planned_backbone m)" for m u v
    using B(3)[OF that] A unfolding F(5) grows_def by blast
  moreover have "has_edge S u v \<and> has_edge S v u"
    if "ab \<in> set inter_domain_adjacencies" "(u, v) \<in> set (planned_gateways ab)" for ab u v
    using A that unfolding F(5) by blast
  moreover have "links_planned S"
  proof -
    have "roots = planned_roots domain_ids" using s(2) by (simp add: built_def sp)
    moreover have "links_planned (fst (fst s))"
      using build_domains_planned[OF rng subset_refl _ s(1)] by (simp add: links_planned_def mirrored_def)
    ultimately have "links_planned g'" using draw_adjacencies_planned[OF rng] by (simp add: sp g'_def)
    moreover have "set (g_edges S) = set (g_edges g')"
      using edges_view_ok(1)[OF A[THEN conjunct1]] nd by (simp add: S_def nodes_ok_def)
    ultimately show ?thesis unfolding links_planned_def mirrored_def by presburger
  qed
  ultimately show thesis using that[of S] F(1-4) by blast
qed

definition ex_rng :: rng where
  "ex_rng = \<lparr>rg_unit = (\<lambda>c. 1 / 2), rg_sample = (\<lambda>c n k. [0..<k])\<rparr>"

lemma ex_rng_ok: "rng_ok ex_rng"
  by (auto simp: rng_ok_def ex_rng_def unit_draws_def)

lemma backbone_links:
  assumes "m \<in> set domain_ids" and "i < domain_size m"
  shows "i = 0 \<or> (\<exists>j < i. (node_name m j, node_name m i) \<in> set (planned_backbone m))"
proof -
  have "m \<in> set (keys domain_tiers)" unfolding committed_tables(3) by (rule assms(1))
  then obtain tiers where "(m, tiers) \<in> set domain_tiers" by auto
  then obtain n level parent k where lay: "layout m = (level, parent, k)" "layout_ok n (length tiers) (level, parent, k)"
    by (rule layout_of_domain)
  have i: "i < n" "length parent = n" using assms(2) lay by (simp_all add: domain_size_def layout_ok_def)
  have edge: "(j, i) \<in> set (backbone_edges parent k) \<Longrightarrow> (node_name m j, node_name m i) \<in> set (planned_backbone m)" for j
    by (force simp: planned_backbone_def lay(1))
  show ?thesis
  proof (cases "parent ! i")
    case None
    then have ik: "i < k" using layout_parents[OF lay(2) i(1)] by simp
    show ?thesis
    proof (cases i)
      case (Suc j)
      then have "(j, i) \<in> set (backbone_edges parent k)" using ik by (auto simp: backbone_edges_def image_iff)
      then show ?thesis using edge Suc by blast
    qed simp
  next
    case (Some q)
    then have "q < i" using layout_parents[OF lay(2) i(1)] by simp
    moreover have "(i, Some q) \<in> set (enumerate 0 parent)" using i Some by (auto simp: in_set_enumerate_eq)
    then have "(q, i) \<in> set (backbone_edges parent k)" by (force simp: backbone_edges_def map_filter_def)
    ultimately show ?thesis using edge by blast
  qed
qed

text \<open>The links that survive when every link between domains \<open>a\<close> and \<open>b\<close> is lost.\<close>

definition surviving :: "'a graph_scheme \<Rightarrow> nat \<Rightarrow> nat \<Rightarrow> (node_id \<times> node_id) set" where
  "surviving g a b = {(u, v). has_edge g u v \<and> {domain_of g u, domain_of g v} \<noteq> {int a, int b}}"

definition adjacent :: "nat \<Rightarrow> nat \<Rightarrow> bool" where
  "adjacent x y \<longleftrightarrow> (x, y) \<in> set inter_domain_adjacencies \<or> (y, x) \<in> set inter_domain_adjacencies"

text \<open>Every domain still reaches domain 3, directly or over one neighbour.\<close>

lemma adjacency_redundant:
  "list_all (\<lambda>(a, b). list_all (\<lambda>x. x = 3 \<or> adjacent x 3 \<and> {x, 3} \<noteq> {a, b}
      \<or> list_ex (\<lambda>y. adjacent x y \<and> {x, y} \<noteq> {a, b} \<and> adjacent y 3 \<and> {y, 3} \<noteq> {a, b}) domain_ids) domain_ids)
    inter_domain_adjacencies"
  by code_simp

text \<open>
  Any one adjacency can fail with all its links: every node still reaches every other.
\<close>

theorem topology_survives_adjacency_loss:
  assumes "rng_ok r" and "generate_hierarchical_topology r share = Inr S" and "(a, b) \<in> set inter_domain_adjacencies"
    and "u \<in> set (keys (g_nodes S))" and "v \<in> set (keys (g_nodes S))"
  shows "(u, v) \<in> (surviving S a b)\<^sup>*"
proof (rule generated_substrate[OF assms(1), of share])
  fix S'
  assume "generate_hierarchical_topology r share = Inr S'"
  then have [simp]: "S' = S" using assms(2) by simp
  assume sk: "map sketch (g_nodes S') = concat (map planned_nodes domain_ids)" and nd: "nodes_ok S'"
    and bb: "\<And>m u v. m \<in> set domain_ids \<Longrightarrow> (u, v) \<in> set (planned_backbone m) \<Longrightarrow> has_edge S' u v \<and> has_edge S' v u"
    and gw: "\<And>ab u v. ab \<in> set inter_domain_adjacencies \<Longrightarrow> (u, v) \<in> set (planned_gateways ab) \<Longrightarrow> has_edge S' u v \<and> has_edge S' v u"
  let ?R = "(surviving S a b)\<^sup>*"
  have ab: "a \<noteq> b" using committed_tables(4) assms(3) by (auto simp: list_all_iff)
  have key: "x \<in> set (keys (g_nodes S)) \<longleftrightarrow> (\<exists>m i. x = node_name m i \<and> m \<in> set domain_ids \<and> i < domain_size m)" for x
    using planned_key_iff[OF sk] by simp
  have dom_of: "domain_of S (node_name m i) = int m" if "m \<in> set domain_ids" "i < domain_size m" for m i
    using domain_of_named[OF nd, of m i] key that by auto
  have inside: "(node_name m 0, node_name m i) \<in> ?R \<and> (node_name m i, node_name m 0) \<in> ?R"
    if m: "m \<in> set domain_ids" and "i < domain_size m" for m i
    using that(2)
  proof (induction i rule: less_induct)
    case (less i)
    show ?case
    proof (cases "i = 0")
      case False
      then obtain j where j: "j < i" "(node_name m j, node_name m i) \<in> set (planned_backbone m)"
        using backbone_links[OF m less.prems] by blast
      have "{int m, int m} \<noteq> {int a, int b}" using ab by (auto simp: doubleton_eq_iff)
      then have "(node_name m j, node_name m i) \<in> surviving S a b" "(node_name m i, node_name m j) \<in> surviving S a b"
        using bb[OF m j(2)] dom_of[OF m] j(1) less.prems by (simp_all add: surviving_def)
      moreover have "(node_name m 0, node_name m j) \<in> ?R \<and> (node_name m j, node_name m 0) \<in> ?R"
        using less.IH[OF j(1)] j(1) less.prems by simp
      ultimately show ?thesis by (meson rtrancl.rtrancl_into_rtrancl converse_rtrancl_into_rtrancl)
    qed simp
  qed
  have pos: "0 < domain_size m" if "m \<in> set domain_ids" for m using committed_domain[OF that] by linarith
  have step: "(node_name x 0, node_name y 0) \<in> ?R \<and> (node_name y 0, node_name x 0) \<in> ?R"
    if "(x, y) \<in> set inter_domain_adjacencies" "{x, y} \<noteq> {a, b}" for x y
  proof -
    have "(node_name x 0, node_name y 0) \<in> set (planned_gateways (x, y))"
      by (simp add: planned_gateways_def gateway_pairs_def inter_links_per_pair_def upt_rec numeral_2_eq_2)
    from gw[OF that(1) this] gateway_named[OF that(1) this] have
      e: "has_edge S (node_name x 0) (node_name y 0)" "has_edge S (node_name y 0) (node_name x 0)"
      and xy: "x \<in> set domain_ids" "y \<in> set domain_ids" by auto
    have n: "{int x, int y} \<noteq> {int a, int b}" using that(2) by (auto simp: doubleton_eq_iff)
    note d = dom_of[OF xy(1) pos[OF xy(1)]] dom_of[OF xy(2) pos[OF xy(2)]]
    have "(node_name x 0, node_name y 0) \<in> surviving S a b" "(node_name y 0, node_name x 0) \<in> surviving S a b"
      unfolding surviving_def mem_Collect_eq prod.case d using e n by (blast, metis insert_commute)
    then show ?thesis by blast
  qed
  have near: "(node_name x 0, node_name y 0) \<in> ?R \<and> (node_name y 0, node_name x 0) \<in> ?R"
    if "adjacent x y" "{x, y} \<noteq> {a, b}" for x y
    using that step[of x y] step[of y x] by (auto simp: adjacent_def insert_commute)
  have hub: "(node_name x 0, node_name 3 0) \<in> ?R \<and> (node_name 3 0, node_name x 0) \<in> ?R" if "x \<in> set domain_ids" for x
  proof -
    have "x = 3 \<or> adjacent x 3 \<and> {x, 3} \<noteq> {a, b}
      \<or> (\<exists>y. adjacent x y \<and> {x, y} \<noteq> {a, b} \<and> adjacent y 3 \<and> {y, 3} \<noteq> {a, b})"
      using adjacency_redundant assms(3) that unfolding list_all_iff list_ex_iff by fast
    then show ?thesis using near by (meson rtrancl.rtrancl_refl rtrancl_trans)
  qed
  show ?thesis using assms(4,5) inside hub unfolding key by (meson rtrancl_trans)
qed

theorem topology_survives_adjacency_loss_witness:
  "\<exists>S. generate_hierarchical_topology ex_rng extra_link_frac = Inr S
     \<and> (node_name 1 0, node_name 3 0) \<in> (surviving S 3 1)\<^sup>*"
proof (rule generated_substrate[OF ex_rng_ok, of extra_link_frac])
  fix S
  assume S: "generate_hierarchical_topology ex_rng extra_link_frac = Inr S"
    and sk: "map sketch (g_nodes S) = concat (map planned_nodes domain_ids)"
  have "(3, 1) \<in> set inter_domain_adjacencies" "1 \<in> set domain_ids" "3 \<in> set domain_ids"
    by (simp_all add: inter_domain_adjacencies_def domain_ids_def)
  moreover from this committed_domain have "0 < domain_size 1" "0 < domain_size 3" by fastforce+
  ultimately have "node_name 1 0 \<in> set (keys (g_nodes S))" "node_name 3 0 \<in> set (keys (g_nodes S))"
    unfolding planned_key_iff[OF sk] by blast+
  from topology_survives_adjacency_loss[OF ex_rng_ok S _ this] S \<open>(3, 1) \<in> set inter_domain_adjacencies\<close>
  show ?thesis by blast
qed

lemma gateway_links_exact:
  assumes nd: "nodes_ok S" and wf: "wf_graph S" and pl: "links_planned S"
    and gw: "\<And>ab u v. ab \<in> set inter_domain_adjacencies \<Longrightarrow> (u, v) \<in> set (planned_gateways ab) \<Longrightarrow> has_edge S u v \<and> has_edge S v u"
  shows "has_edge S u v \<and> domain_of S u \<noteq> domain_of S v \<longleftrightarrow> gateway_link u v \<or> gateway_link v u"
proof
  assume "has_edge S u v \<and> domain_of S u \<noteq> domain_of S v"
  then obtain e where e: "((u, v), e) \<in> set (g_edges S)" and ne: "domain_of S u \<noteq> domain_of S v"
    by (auto simp: has_edge_iff)
  have "u \<in> set (keys (g_nodes S))" "v \<in> set (keys (g_nodes S))" using wf e by (force simp: wf_graph_def)+
  then have "\<not> (\<exists>m a b. u = node_name m a \<and> v = node_name m b)"
    using ne domain_of_named[OF nd] by metis
  moreover have "planned_link ((u, v), e)" using pl e by (simp add: links_planned_def)
  ultimately show "gateway_link u v \<or> gateway_link v u" by (auto simp: planned_link_def)
next
  have joined: "has_edge S u v \<and> has_edge S v u \<and> domain_of S u \<noteq> domain_of S v" if "gateway_link u v" for u v
  proof -
    from that obtain a b k where ab: "(a, b) \<in> set inter_domain_adjacencies" "k < 2" "u = node_name a k" "v = node_name b k"
      by (auto simp: gateway_link_def)
    then have "(u, v) \<in> set (planned_gateways (a, b))" using planned_gateways_link[OF ab(1)] by auto
    from gw[OF ab(1) this] have e: "has_edge S u v" "has_edge S v u" by simp_all
    then have "u \<in> set (keys (g_nodes S))" "v \<in> set (keys (g_nodes S))" using wf by (force simp: wf_graph_def has_edge_iff)+
    moreover have "a \<noteq> b" using committed_tables(4) ab(1) by (auto simp: list_all_iff)
    ultimately show ?thesis using e domain_of_named[OF nd] ab(3,4) by simp
  qed
  assume "gateway_link u v \<or> gateway_link v u"
  then show "has_edge S u v \<and> domain_of S u \<noteq> domain_of S v" using joined by metis
qed

text \<open>
  C33: whatever is drawn, the generator returns, and the instance has the committed structure. The 80
  nodes, their domains and tiers are always the same. Every link has a twin of the same bandwidth and
  delay in the other direction. The links between domains are exactly the two parallel gateway pairs of
  each of the eight adjacencies; inside a domain the whole backbone is there, and any other link joins two
  nodes of one layer. Bandwidth and delay of a link lie in the ranges of its tiers, capacities of a node in
  those of its tier. Any one adjacency can be lost and every node still reaches every other. The graph is
  well formed with typed links, nothing is held and nothing is over-booked.
\<close>

theorem generated_topology_correct:
  assumes "rng_ok r"
  shows "\<exists>S. generate_hierarchical_topology r share = Inr S
    \<and> map sketch (g_nodes S) = concat (map planned_nodes domain_ids) \<and> num_domains S = 5 \<and> length (g_nodes S) = 80
    \<and> wf_graph S \<and> typed_links S \<and> reset_substrate S = S \<and> no_overbooking S
    \<and> (\<forall>(n, d) \<in> set (g_nodes S). fst (tier_cpu_range (node_tier d)) \<le> cpu_capacity d
         \<and> cpu_capacity d \<le> snd (tier_cpu_range (node_tier d))
         \<and> fst (tier_ram_range (node_tier d)) \<le> ram_capacity d \<and> ram_capacity d \<le> snd (tier_ram_range (node_tier d)))
    \<and> mirrored S \<and> (\<forall>x \<in> set (g_edges S). planned_link x)
    \<and> (\<forall>m \<in> set domain_ids. \<forall>(u, v) \<in> set (planned_backbone m). has_edge S u v)
    \<and> (\<forall>u v. has_edge S u v \<and> domain_of S u \<noteq> domain_of S v \<longleftrightarrow> gateway_link u v \<or> gateway_link v u)
    \<and> (\<forall>(a, b) \<in> set inter_domain_adjacencies. \<forall>u \<in> set (keys (g_nodes S)). \<forall>v \<in> set (keys (g_nodes S)).
         (u, v) \<in> (surviving S a b)\<^sup>*)"
proof (rule generated_substrate[OF assms, of share])
  fix S
  assume S: "generate_hierarchical_topology r share = Inr S" "map sketch (g_nodes S) = concat (map planned_nodes domain_ids)"
    "nodes_ok S" "wf_graph S" "typed_links S" "reset_substrate S = S" "no_overbooking S" "num_domains S = topology_domains"
    and bb: "\<And>m u v. m \<in> set domain_ids \<Longrightarrow> (u, v) \<in> set (planned_backbone m) \<Longrightarrow> has_edge S u v \<and> has_edge S v u"
    and gw: "\<And>ab u v. ab \<in> set inter_domain_adjacencies \<Longrightarrow> (u, v) \<in> set (planned_gateways ab) \<Longrightarrow> has_edge S u v \<and> has_edge S v u"
    and pl: "links_planned S"
  have "\<forall>(n, d) \<in> set (g_nodes S). fst (tier_cpu_range (node_tier d)) \<le> cpu_capacity d
      \<and> cpu_capacity d \<le> snd (tier_cpu_range (node_tier d))
      \<and> fst (tier_ram_range (node_tier d)) \<le> ram_capacity d \<and> ram_capacity d \<le> snd (tier_ram_range (node_tier d))"
    using S(3) by (auto simp: nodes_ok_def fresh_node_def)
  moreover have "length (g_nodes S) = 80" using arg_cong[OF S(2), of length] planned_count by simp
  moreover have "\<forall>u v. has_edge S u v \<and> domain_of S u \<noteq> domain_of S v \<longleftrightarrow> gateway_link u v \<or> gateway_link v u"
    by (intro allI gateway_links_exact S(3,4) pl gw)
  moreover have "\<forall>(a, b) \<in> set inter_domain_adjacencies. \<forall>u \<in> set (keys (g_nodes S)). \<forall>v \<in> set (keys (g_nodes S)).
         (u, v) \<in> (surviving S a b)\<^sup>*"
    using topology_survives_adjacency_loss[OF assms S(1)] by blast
  moreover have "\<forall>m \<in> set domain_ids. \<forall>(u, v) \<in> set (planned_backbone m). has_edge S u v" using bb by blast
  moreover have "mirrored S" "\<forall>x \<in> set (g_edges S). planned_link x" using pl by (simp_all add: links_planned_def)
  moreover have "num_domains S = 5" using S(8) unfolding committed_tables(5) .
  ultimately show ?thesis using S(1,2,4-7) by (intro exI[of _ S] conjI) (assumption | blast)+
qed

theorem generated_topology_correct_witness:
  "\<exists>S. generate_hierarchical_topology ex_rng extra_link_frac = Inr S \<and> wf_graph S \<and> length (g_nodes S) = 80
    \<and> has_edge S (node_name 3 1) (node_name 4 1) \<and> has_edge S (node_name 4 1) (node_name 3 1)"
proof -
  from generated_topology_correct[OF ex_rng_ok, of extra_link_frac] obtain S where
    S: "generate_hierarchical_topology ex_rng extra_link_frac = Inr S" "wf_graph S" "length (g_nodes S) = 80"
    and gw: "\<forall>u v. has_edge S u v \<and> domain_of S u \<noteq> domain_of S v \<longleftrightarrow> gateway_link u v \<or> gateway_link v u"
    by (elim exE conjE) (rule that)
  have "gateway_link (node_name 3 1) (node_name 4 1)"
    unfolding gateway_link_def by (rule bexI[of _ "(3, 4)"]) (auto simp: inter_domain_adjacencies_def)
  with gw S show ?thesis by blast
qed

end
