(* ===== verification/Observation_Width.thy ===== *)
theory Observation_Width
  imports Observation_Tensor Topology_Proofs
begin

text \<open>
  The widths of the two vectors on the generated substrates (\<open>OBS_DIM\<close> of
  \<open>src/src/orion/substrate/hierarchical_topology.py\<close>, \<open>probe_global_state_dim\<close>): the aggregated links
  are the ordered domain pairs of the adjacency list, whatever is drawn and whatever is committed.
\<close>

section \<open>Aggregated links\<close>

text \<open>The domain pairs the edges connect.\<close>

definition pairs_of :: "'a graph_scheme \<Rightarrow> (int \<times> int) set" where
  "pairs_of g = {(domain_of g u, domain_of g v) | u v. (u, v) \<in> set (keys (g_edges g)) \<and> domain_of g u \<noteq> domain_of g v}"

lemma aggregate_step:
  "\<exists>res cap delay. aggregate_link g ((u, v), d) agg =
     (if domain_of g u = domain_of g v then agg
      else AList.update (domain_of g u, domain_of g v) (res, cap, min delay (Fin (propagation_delay d))) agg)"
  by (cases "get_default agg (domain_of g u, domain_of g v) (0, 0, PInf)") (auto simp: aggregate_link_def Let_def)

lemma aggregate_step_keys:
  "keys (aggregate_link g ((u, v), d) agg) =
     (if domain_of g u = domain_of g v \<or> (domain_of g u, domain_of g v) \<in> set (keys agg) then keys agg
      else keys agg @ [(domain_of g u, domain_of g v)])"
  using aggregate_step[of g u v d agg] by (elim exE) (simp add: update_keys)

lemma aggregate_keys:
  "set (keys (fold (aggregate_link g) es agg)) = set (keys agg)
     \<union> {(domain_of g u, domain_of g v) | u v. (u, v) \<in> set (keys es) \<and> domain_of g u \<noteq> domain_of g v}"
proof (induction es arbitrary: agg)
  case (Cons x es)
  obtain u v d where x: "x = ((u, v), d)" by (metis prod.collapse)
  let ?new = "if domain_of g u = domain_of g v then {} else {(domain_of g u, domain_of g v)}"
  have "set (keys (aggregate_link g x agg)) = set (keys agg) \<union> ?new"
    unfolding x aggregate_step_keys by (cases "(domain_of g u, domain_of g v) \<in> set (keys agg)") (simp_all add: insert_absorb)
  moreover have "{(domain_of g u, domain_of g v) | u v. (u, v) \<in> set (keys (x # es)) \<and> domain_of g u \<noteq> domain_of g v}
      = ?new \<union> {(domain_of g u, domain_of g v) | u v. (u, v) \<in> set (keys es) \<and> domain_of g u \<noteq> domain_of g v}"
    unfolding x by auto
  ultimately show ?case unfolding fold_simps comp_def Cons.IH by blast
qed simp

lemma aggregate_distinct: "distinct (keys agg) \<Longrightarrow> distinct (keys (fold (aggregate_link g) es agg))"
proof (induction es arbitrary: agg)
  case (Cons x es)
  obtain u v d where x: "x = ((u, v), d)" by (metis prod.collapse)
  have "distinct (keys (aggregate_link g x agg))" using Cons.prems unfolding x aggregate_step_keys by (auto simp del: list.set_map)
  then show ?case using Cons.IH by simp
qed simp

lemma inter_link_count: "length (build_inter_domain_links g) = card (pairs_of g)"
proof -
  let ?agg = "fold (aggregate_link g) (g_edges g) []"
  have "length (build_inter_domain_links g) = length (keys ?agg)" by (simp add: build_inter_domain_links_def)
  also have "\<dots> = card (set (keys ?agg))" using aggregate_distinct[of "[]" g "g_edges g"] by (simp only: distinct_card list.map distinct.simps)
  finally show ?thesis unfolding aggregate_keys by (simp add: pairs_of_def)
qed

lemma built_delays_finite: "l \<in> set (build_inter_domain_links g) \<Longrightarrow> \<exists>x. il_delay l = Fin x"
proof -
  define fin where "fin agg \<longleftrightarrow> (\<forall>(k, (res, cap, delay)) \<in> set agg. \<exists>x. delay = Fin x)"
    for agg :: "(int \<times> int, real \<times> real \<times> xreal) dict"
  have upd: "fin (AList.update k (res, cap, Fin x) agg)" if "fin agg" for k res cap x agg
    using that by (induction agg) (auto simp: fin_def)
  have min_fin: "\<exists>y. min d (Fin x) = Fin y" for d x by (cases d) (auto simp: min_def)
  have "fin (fold (aggregate_link g) es agg)" if "fin agg" for es agg
    using that
  proof (induction es arbitrary: agg)
    case (Cons e es)
    obtain u v d where e: "e = ((u, v), d)" by (metis prod.collapse)
    have "fin (aggregate_link g e agg)"
      using aggregate_step[of g u v d agg] Cons.prems min_fin upd unfolding e by (metis (no_types, lifting))
    then show ?case using Cons.IH by simp
  qed simp
  from this[of "[]" "g_edges g"] show "l \<in> set (build_inter_domain_links g) \<Longrightarrow> \<exists>x. il_delay l = Fin x"
    by (fastforce simp: fin_def build_inter_domain_links_def)
qed

section \<open>Where the links between domains come from\<close>

definition inter_of :: "'a graph_scheme \<Rightarrow> ((node_id \<times> node_id) \<times> edge_data) list" where
  "inter_of g = filter (\<lambda>x. link_type (snd x) = InterLink) (g_edges g)"

lemma draw_link_inter:
  "inter_of (fst (draw_link r profile IntraLink uv b)) = inter_of (fst b)"
  by (cases uv; cases b) (simp add: draw_link_def add_directed_link_pair_def add_directed_link_def inter_of_def)

lemma draw_intra_inter: "inter_of (fst (draw_intra r m tier_of ab b)) = inter_of (fst b)"
  by (simp add: draw_intra_def split_beta draw_link_inter)

lemma fold_inter: "(\<And>x b. inter_of (fst (f x b)) = inter_of (fst b)) \<Longrightarrow> inter_of (fst (fold f xs b)) = inter_of (fst b)"
  by (induction xs arbitrary: b) simp_all

lemma draw_layer_inter: "inter_of (fst (draw_layer r m tier_of x b)) = inter_of (fst b)"
  by (cases x; cases b) (auto simp: draw_layer_def Let_def split_beta fold_inter draw_intra_inter)

lemma draw_laterals_inter: "inter_of (fst (draw_laterals r share m tier_of level b)) = inter_of (fst b)"
  by (cases b) (auto simp: draw_laterals_def Let_def fold_inter draw_layer_inter)

lemma draw_node_inter: "inter_of (fst (draw_node r m x b)) = inter_of (fst b)"
  by (cases x; cases b) (simp add: draw_node_def Let_def inter_of_def)

lemma build_domain_inter: "build_domain r share x s = Inr s' \<Longrightarrow> inter_of (fst (fst s')) = inter_of (fst (fst s))"
  by (cases x; cases s) (auto simp: build_domain_def Let_def draw_laterals_inter fold_inter draw_intra_inter draw_node_inter
      split: option.splits sum.splits)

lemma build_domains_inter:
  "fold_err (build_domain r share) xs s = Inr s' \<Longrightarrow> inter_of (fst (fst s')) = inter_of (fst (fst s))"
proof (induction xs arbitrary: s)
  case (Cons x xs)
  then show ?case by (cases "build_domain r share x s") (auto dest: build_domain_inter)
qed simp

lemma draw_gateway_keys:
  "set (keys (inter_of (fst (fold (draw_link r profile InterLink) uvs b))))
     \<subseteq> set (keys (inter_of (fst b))) \<union> set uvs \<union> prod.swap ` set uvs"
proof (induction uvs arbitrary: b)
  case (Cons uv uvs)
  have "set (keys (inter_of (fst (draw_link r profile InterLink uv b)))) \<subseteq> set (keys (inter_of (fst b))) \<union> {uv, prod.swap uv}"
    by (cases uv; cases b) (auto simp: draw_link_def add_directed_link_pair_def add_directed_link_def inter_of_def)
  with Cons.IH[of "draw_link r profile InterLink uv b"] show ?case by auto
qed simp

definition gateway_links :: "(node_id \<times> node_id) list" where
  "gateway_links = concat (map planned_gateways inter_domain_adjacencies)"

lemma generated_inter_links:
  assumes rng: "rng_ok r" and S: "generate_hierarchical_topology r share = Inr S"
    and uv: "((u, v), d) \<in> set (g_edges S)" and t: "link_type d = InterLink"
  shows "(u, v) \<in> set gateway_links \<or> (v, u) \<in> set gateway_links"
proof -
  let ?start = "((\<lparr>g_nodes = [], g_edges = []\<rparr>, 0), []) :: build \<times> (nat, nat) dict"
  have "built [] ?start" by (simp add: built_def nodes_ok_def edges_ok_def planned_roots_def)
  from build_domains_ok[OF rng subset_refl _ this, of share] obtain b roots where
    s: "fold_err (build_domain r share) domain_tiers ?start = Inr (b, roots)" "built domain_ids (b, roots)"
    using committed_tables(2,3) by (metis append_Nil prod.collapse)
  have roots: "roots = planned_roots domain_ids" using s(2) by (cases b) (simp add: built_def)
  let ?g = "fst (fold (draw_adjacency r roots) inter_domain_adjacencies b)"
  have e: "g_edges S = edges_view ?g"
    using S s(1) by (auto simp: generate_hierarchical_topology_def committed_tables(1) Let_def)
  have "((u, v), d) \<in> set (g_edges ?g)" using uv unfolding e by (auto simp: edges_view_def)
  then have "(u, v) \<in> set (keys (inter_of ?g))" using t by (force simp: inter_of_def)
  moreover have "inter_of (fst b) = []" using build_domains_inter[OF s(1)] by (simp add: inter_of_def)
  ultimately show ?thesis
    using draw_gateway_keys[of r "(bw_inter, delay_inter)" gateway_links b]
    unfolding fold_draw_adjacency gateway_links_def roots planned_gateways_def by auto
qed

section \<open>The pairs of a generated substrate\<close>

definition ordered_pairs :: "(int \<times> int) list" where
  "ordered_pairs = concat (map (\<lambda>(a, b). [(int a, int b), (int b, int a)]) inter_domain_adjacencies)"

lemma ordered_pairs_count: "card (set ordered_pairs) = 16"
  by code_simp

lemma adjacency_carried: "inter_links_per_pair \<noteq> 0"
  by (simp add: inter_links_per_pair_def)

lemma gateway_pair: "\<exists>u v. (u, v) \<in> set (planned_gateways ab)"
proof -
  have "planned_gateways ab \<noteq> []" using adjacency_carried by (cases ab) (simp add: planned_gateways_def gateway_pairs_def)
  then show ?thesis by (cases "planned_gateways ab") auto
qed

lemma gateway_domains:
  assumes ok: "nodes_ok g" and sk: "map sketch (g_nodes g) = concat (map planned_nodes domain_ids)"
    and ab: "(a, b) \<in> set inter_domain_adjacencies" and uv: "(u, v) \<in> set (planned_gateways (a, b))"
  shows "domain_of g u = int a \<and> domain_of g v = int b \<and> a \<noteq> b"
proof -
  from gateway_named[OF ab uv] obtain i j where n: "u = node_name a i" "v = node_name b j"
    "i < domain_size a" "j < domain_size b" "a \<in> set domain_ids" "b \<in> set domain_ids" "a \<noteq> b" .
  then have "u \<in> set (keys (g_nodes g))" "v \<in> set (keys (g_nodes g))" unfolding planned_key_iff[OF sk] by blast+
  then show ?thesis using domain_of_named[OF ok] n by simp
qed

lemma generated_pairs:
  assumes rng: "rng_ok r" and S: "generate_hierarchical_topology r share = Inr S"
  shows "pairs_of S = set ordered_pairs"
proof (rule generated_substrate[OF rng, of share])
  fix S'
  assume S': "generate_hierarchical_topology r share = Inr S'"
    and sk: "map sketch (g_nodes S') = concat (map planned_nodes domain_ids)" and nd: "nodes_ok S'"
    and ty: "typed_links S'"
    and gw: "\<And>ab u v. ab \<in> set inter_domain_adjacencies \<Longrightarrow> (u, v) \<in> set (planned_gateways ab) \<Longrightarrow> has_edge S' u v \<and> has_edge S' v u"
  have SS: "S' = S" using S S' by simp
  note D = gateway_domains[OF nd sk]
  show ?thesis
  proof (intro equalityI subsetI)
    fix p assume "p \<in> pairs_of S"
    then obtain u v d where p: "p = (domain_of S u, domain_of S v)" "((u, v), d) \<in> set (g_edges S)" "domain_of S u \<noteq> domain_of S v"
      by (auto simp: pairs_of_def)
    then have "link_type d = InterLink" using ty unfolding typed_links_def SS crosses_def by fastforce
    from generated_inter_links[OF rng S p(2) this] obtain a b where "(a, b) \<in> set inter_domain_adjacencies"
      "(u, v) \<in> set (planned_gateways (a, b)) \<or> (v, u) \<in> set (planned_gateways (a, b))"
      by (auto simp: gateway_links_def)
    then show "p \<in> set ordered_pairs" using D[of a b] unfolding p(1) SS ordered_pairs_def by force
  next
    fix p assume "p \<in> set ordered_pairs"
    then obtain a b where ab: "(a, b) \<in> set inter_domain_adjacencies" "p = (int a, int b) \<or> p = (int b, int a)"
      by (auto simp: ordered_pairs_def)
    obtain u v where uv: "(u, v) \<in> set (planned_gateways (a, b))" using gateway_pair by blast
    have "(u, v) \<in> set (keys (g_edges S)) \<and> (v, u) \<in> set (keys (g_edges S))"
      using gw[OF ab(1) uv] unfolding SS has_edge_iff .
    moreover have "domain_of S u = int a" "domain_of S v = int b" "int a \<noteq> int b" using D[OF ab(1) uv] unfolding SS by simp_all
    ultimately show "p \<in> pairs_of S" using ab(2) unfolding pairs_of_def mem_Collect_eq by metis
  qed
qed

lemma summaries_count: "length (build_domain_summaries S) = length (filter (\<lambda>m. nodes_in_domain S m \<noteq> []) (map int [0..<num_domains S]))"
  by (simp add: build_domain_summaries_def)

lemma generated_domains:
  assumes ok: "nodes_ok S" and sk: "map sketch (g_nodes S) = concat (map planned_nodes domain_ids)" and n: "num_domains S = topology_domains"
  shows "length (build_domain_summaries S) = topology_domains"
proof -
  have "nodes_in_domain S (int m) \<noteq> []" if "m < topology_domains" for m
  proof -
    have m: "m \<in> set domain_ids" using that unfolding committed_tables(5) by (auto simp: domain_ids_def)
    then have "0 < domain_size m" using committed_domain by fastforce
    then have k: "node_name m 0 \<in> set (keys (g_nodes S))" unfolding planned_key_iff[OF sk] using m by blast
    then obtain d where d: "(node_name m 0, d) \<in> set (g_nodes S)" by auto
    then have "domain_id d = int m" using ok by (fastforce simp: nodes_ok_def)
    with d have "node_name m 0 \<in> set (nodes_in_domain S (int m))" by (force simp: nodes_in_domain_def)
    then show ?thesis by force
  qed
  then have "filter (\<lambda>m. nodes_in_domain S m \<noteq> []) (map int [0..<num_domains S]) = map int [0..<num_domains S]"
    unfolding n by (intro filter_True) auto
  then show ?thesis unfolding summaries_count by (simp add: n)
qed

section \<open>Widths\<close>

definition num_domain_pairs :: nat where
  "num_domain_pairs = 2 * length inter_domain_adjacencies"

definition max_vnfs :: nat where
  "max_vnfs = 10"

definition obs_dim :: nat where
  "obs_dim = domain_feat_dim * topology_domains + 3 * num_domain_pairs + (vnf_feat_dim + topology_domains) * max_vnfs + slice_feat_dim"

lemma obs_dim_eq: "obs_dim = 239" "obs_dim = tensor_width topology_domains (card (set ordered_pairs)) max_vnfs"
  unfolding tensor_width_def ordered_pairs_count
  by (simp_all add: obs_dim_def domain_feat_dim_def tier_order_def link_feat_dim_def vnf_feat_dim_def slice_feat_dim_def
      num_domain_pairs_def max_vnfs_def committed_tables(5) inter_domain_adjacencies_def)

text \<open>What the widths depend on is the same in every reachable state.\<close>

lemma reset_shape:
  "nodes_in_domain (reset_substrate S) m = nodes_in_domain S m" "num_domains (reset_substrate S) = num_domains S"
  "pairs_of (reset_substrate S) = pairs_of S" "keys (g_nodes (reset_substrate S)) = keys (g_nodes S)"
proof -
  have d: "domain_of (reset_substrate S) n = domain_of S n" for n
    by (simp add: domain_of_def reset_substrate_def map_of_map_keyed[where f = "\<lambda>_ d. d\<lparr>cpu_residual := cpu_capacity d, ram_residual := ram_capacity d\<rparr>"]
        split: option.split)
  have e: "keys (g_edges (reset_substrate S)) = keys (g_edges S)"
    by (simp add: reset_substrate_def comp_def case_prod_unfold)
  show "pairs_of (reset_substrate S) = pairs_of S" unfolding pairs_of_def d e ..
  show "nodes_in_domain (reset_substrate S) m = nodes_in_domain S m"
    by (simp add: nodes_in_domain_def reset_substrate_def filter_map comp_def case_prod_unfold)
qed (simp_all add: reset_substrate_def comp_def case_prod_unfold)

lemma reset_of_reachable: "reachable S T \<Longrightarrow> reset_substrate T = reset_substrate S"
proof (induction rule: reachable.induct)
  case reset
  then show ?case by (simp add: reset_substrate_def comp_def case_prod_unfold)
next
  case (again S)
  then show ?case by (simp add: reset_substrate_def comp_def case_prod_unfold)
next
  case (admit S plan req T)
  then show ?case by (auto simp: allocate_Inr_iff reset_active reset_charge)
next
  case (depart S req plan T)
  then show ?case by (auto simp: deallocate_Inr_iff reset_active reset_refund)
qed

lemma reachable_shape:
  assumes "reachable S T"
  shows "nodes_in_domain T m = nodes_in_domain S m" "num_domains T = num_domains S" "pairs_of T = pairs_of S"
    "keys (g_nodes T) = keys (g_nodes S)"
  using reset_shape[of T] reset_shape[of S] unfolding reset_of_reachable[OF assms] by metis+

lemma reachable_placed:
  "reachable S T \<Longrightarrow> \<forall>(rid, plan, req) \<in> set (active_slices T). set (vals (vnf_placements plan)) \<subseteq> set (keys (g_nodes S))"
proof (induction rule: reachable.induct)
  case (admit T plan req T')
  have "set (vals (vnf_placements plan)) \<subseteq> set (keys (g_nodes T))"
    using admit.hyps(2) by (force simp: allocate_Inr_iff plan_resolves_def)
  then have new: "set (vals (vnf_placements plan)) \<subseteq> set (keys (g_nodes S))" unfolding reachable_shape(4)[OF admit.hyps(1)] .
  have "active_slices T' = active_slices T @ [(request_id req, plan, req)]"
    using admit.hyps(2) by (simp add: allocate_Inr_iff)
  then show ?case using admit.IH new by (simp del: list.set_map)
next
  case (depart T req plan T')
  have "set (active_slices T') \<subseteq> set (active_slices T)"
    using depart.hyps(3) by (auto simp: deallocate_Inr_iff AList.delete_eq)
  then show ?case using depart.IH by blast
qed (auto simp: reset_substrate_def)

lemma touches_total: "set ns \<subseteq> set (keys (g_nodes g)) \<Longrightarrow> \<exists>b. touches_domain g m ns = Inr b"
proof (induction ns)
  case (Cons n ns)
  then obtain d where "map_of (g_nodes g) n = Some d" by (cases "map_of (g_nodes g) n") (auto simp: map_of_eq_None_iff)
  moreover obtain b where "touches_domain g m ns = Inr b" using Cons by auto
  ultimately show ?case by (cases "domain_id d = m") (simp_all add: ex_bool_eq)
qed (simp add: ex_bool_eq)

lemma active_count_total:
  assumes "\<forall>(rid, plan, req) \<in> set (active_slices S). set (vals (vnf_placements plan)) \<subseteq> set (keys (g_nodes S))"
  shows "\<exists>k. active_slice_count_in_domain S m = Inr k"
proof -
  have "\<exists>k'. fold_err (\<lambda>(rid, plan, req) k. map_sum id (\<lambda>b. if b then k + 1 else k) (touches_domain S m (vals (vnf_placements plan)))) xs k = Inr k'"
    if "\<forall>(rid, plan, req) \<in> set xs. set (vals (vnf_placements plan)) \<subseteq> set (keys (g_nodes S))"
    for xs :: "(string, placement_plan \<times> slice_request) dict" and k :: nat
    using that
  proof (induction xs arbitrary: k)
    case (Cons x xs)
    obtain rid plan req where x: "x = (rid, plan, req)" by (rule prod_cases3)
    have "set (vals (vnf_placements plan)) \<subseteq> set (keys (g_nodes S))" using Cons.prems unfolding x by (simp del: list.set_map)
    from touches_total[OF this] obtain b where b: "touches_domain S m (vals (vnf_placements plan)) = Inr b" by blast
    have "\<forall>(rid, plan, req) \<in> set xs. set (vals (vnf_placements plan)) \<subseteq> set (keys (g_nodes S))" using Cons.prems by (simp del: list.set_map)
    from Cons.IH[OF this] show ?case by (simp add: x b)
  qed simp
  then show ?thesis unfolding active_slice_count_in_domain_def using assms by blast
qed

lemma critic_length:
  assumes "\<forall>(rid, plan, req) \<in> set (active_slices S). set (vals (vnf_placements plan)) \<subseteq> set (keys (g_nodes S))"
  shows "\<exists>y. encode_global_state S st req = Inr y
    \<and> length y = 7 * length (build_domain_summaries S) + 3 * length (build_inter_domain_links S) + 3 + request_feat_dim"
proof -
  let ?nm = "norms_of (build_domain_summaries S) (build_inter_domain_links S)"
  have "\<exists>b. critic_domain_block ?nm S s = Inr b \<and> length b = 7" for s
    using active_count_total[OF assms, of "ds_domain s"] by (auto simp: critic_domain_block_def)
  from collect_blocks[where xs = "build_domain_summaries S" and f = "critic_domain_block ?nm S" and out = "[]"
      and P = "\<lambda>s b. length b = 7", OF this]
  obtain bs where bs: "fold_err (\<lambda>s out. map_sum id (\<lambda>b. out @ b) (critic_domain_block ?nm S s)) (build_domain_summaries S) [] = Inr (concat bs)"
    "list_all2 (\<lambda>s b. length b = 7) (build_domain_summaries S) bs" by auto
  have "length (concat bs) = 7 * length bs"
    using bs(2) by (intro length_concat_const) (auto simp: list_all2_conv_all_nth in_set_conv_nth)
  moreover have "length bs = length (build_domain_summaries S)" using bs(2) by (simp add: list_all2_lengthD)
  moreover have "length (concat (map (link_block nm) ls)) = 3 * length ls" for nm ls
    by (subst length_concat_const[where n = 3]) (auto simp: link_feat_dim_def)
  moreover have "length (request_features req nm) = request_feat_dim" for nm
    by (simp add: request_features_def request_feat_dim_def delay_features_def Let_def split: option.split)
  ultimately show ?thesis by (simp add: encode_global_state_def Let_def bs(1) global_block_def)
qed

text \<open>
  C19: the widths the networks are built with. On a generated substrate, in every state that any sequence of
  admissions, departures and resets reaches, the observation of a full plan has \<open>OBS_DIM\<close> = 239 entries and
  the critic's vector has the width probed on the fresh substrate, 94; neither encoder raises. (The header of
  \<open>scripts/grid_runner.py\<close> and a comment of \<open>scripts/wp7_runner.py\<close> still say 121.)
\<close>

theorem widths_fixed:
  assumes "rng_ok r" and "generate_hierarchical_topology r share = Inr S" and "reachable S T" and "full_plan p"
  shows "(\<exists>x. observation_to_tensor max_vnfs (build_mdo_observation T p q) (Some q) = Inr x \<and> length x = obs_dim \<and> obs_dim = 239)
    \<and> (\<exists>y. encode_global_state T st req = Inr y \<and> probe_global_state_dim S = Inr (length y) \<and> length y = 94)"
proof (rule generated_substrate[OF assms(1), of share])
  fix S'
  assume "generate_hierarchical_topology r share = Inr S'" and sk: "map sketch (g_nodes S') = concat (map planned_nodes domain_ids)"
    and nd: "nodes_ok S'" and fresh: "reset_substrate S' = S'" and n: "num_domains S' = topology_domains"
  then have S': "S' = S" using assms(2) by simp
  have "reachable S (reset_substrate S)" by (rule reachable.reset)
  then have RS: "reachable S S" using fresh S' by simp
  note P = generated_pairs[OF assms(1,2)]
  have w: "length (build_domain_summaries U) = 5" "length (build_inter_domain_links U) = 16" if "reachable S U" for U
    using generated_domains[OF nd sk n] inter_link_count[of U] P ordered_pairs_count
    unfolding summaries_count reachable_shape[OF that] S' committed_tables(5) by simp_all
  have pl: "\<forall>(rid, plan, req) \<in> set (active_slices U). set (vals (vnf_placements plan)) \<subseteq> set (keys (g_nodes U))" if "reachable S U" for U
    using reachable_placed[OF that] unfolding reachable_shape(4)[OF that] .
  obtain y where y: "encode_global_state T st req = Inr y" "length y = 94"
    using critic_length[OF pl[OF assms(3)], of st req] w[OF assms(3)] by (auto simp: request_feat_dim_def)
  have probe: "probe_global_state_dim S = Inr 94"
    using critic_length[OF pl[OF RS], of "\<lparr>gs_arrivals = 0, gs_admitted = 0, gs_rejected = 0, gs_horizon = 100\<rparr>" None] w[OF RS]
    by (auto simp: request_feat_dim_def probe_global_state_dim_def)
  obtain x where x: "observation_to_tensor max_vnfs (build_mdo_observation T p q) (Some q) = Inr x" "length x = obs_dim"
  proof -
    have "full_plan (ob_plan (build_mdo_observation T p q))" "length (ob_domains (build_mdo_observation T p q)) = 5"
      "length (ob_links (build_mdo_observation T p q)) = 16"
      using assms(4) w[OF assms(3)] unfolding build_mdo_observation_def mdo_observation.simps .
    moreover have "obs_dim = tensor_width 5 16 max_vnfs"
      using obs_dim_eq(2) unfolding ordered_pairs_count committed_tables(5) .
    ultimately show thesis using that tensor_length[of "build_mdo_observation T p q" max_vnfs "Some q"] by auto
  qed
  show ?thesis
    by (intro conjI exI[of _ x] exI[of _ y]) (simp_all only: x y probe obs_dim_eq(1))
qed

theorem widths_fixed_witness:
  "\<exists>S x. generate_hierarchical_topology ex_rng extra_link_frac = Inr S
     \<and> observation_to_tensor max_vnfs (build_mdo_observation (reset_substrate S) (ob_plan ex_seen) (ob_qos ex_seen)) (Some (ob_qos ex_seen)) = Inr x
     \<and> length x = 239"
proof -
  have "\<exists>S. generate_hierarchical_topology ex_rng extra_link_frac = Inr S"
    by (rule generated_substrate[OF ex_rng_ok, of extra_link_frac]) (rule exI)
  then obtain S where S: "generate_hierarchical_topology ex_rng extra_link_frac = Inr S" ..
  obtain x where "observation_to_tensor max_vnfs (build_mdo_observation (reset_substrate S) (ob_plan ex_seen) (ob_qos ex_seen)) (Some (ob_qos ex_seen)) = Inr x"
    "length x = obs_dim" "obs_dim = 239"
    using widths_fixed[OF ex_rng_ok S reachable.reset ex_seen_ok(1)] by blast
  then show ?thesis using S by auto
qed

end
