(* ===== verification/Qos_Gate.thy ===== *)
theory Qos_Gate
  imports Commit
begin

text \<open>
  The admission gate of the static baselines (\<open>src/src/orion/sim/qos_gate.py\<close>), evaluated on the
  candidate plan \<^emph>\<open>before\<close> it is allocated. The theorem is the file's own claim: the gate and the
  post-commit verifier are one check. What the gate computes from the plan's own load on top of
  the current residuals is what the verifier reads off the substrate once the plan is allocated.
\<close>

section \<open>qos\_gate.py\<close>

text \<open>\<open>{d["link_id"]: (u, v, d) for u, v, d in g.edges(data=True)}\<close>: the last one wins.\<close>

definition link_by_id :: "'a graph_scheme \<Rightarrow> link_id \<Rightarrow> ((node_id \<times> node_id) \<times> edge_data) option" where
  "link_by_id g l = map_of (rev (map (\<lambda>(e, d). (link_id d, e, d)) (g_edges g))) l"

fun gate_hops :: "'a graph_scheme \<Rightarrow> link_id list \<Rightarrow> nat \<Rightarrow> py_error + nat" where
  "gate_hops g [] hops = Inr hops"
| "gate_hops g (l # ls) hops =
     (case link_by_id g l of
        None \<Rightarrow> Inl KeyError
      | Some ((u, v), _) \<Rightarrow>
     (case node_at g u of
        Inl e \<Rightarrow> Inl e
      | Inr du \<Rightarrow>
     (case node_at g v of
        Inl e \<Rightarrow> Inl e
      | Inr dv \<Rightarrow> gate_hops g ls (if domain_id du \<noteq> domain_id dv then hops + 1 else hops))))"

definition extra_cpu :: "vnf list \<Rightarrow> (string, node_id) dict \<Rightarrow> py_error + (node_id, real) dict" where
  "extra_cpu vs ps =
     fold_err (\<lambda>(v, n) acc. case vnf_by_id vs v of
         None \<Rightarrow> Inl KeyError
       | Some f \<Rightarrow> Inr (add_at n (cpu_demand f) acc)) ps []"

fun gate_nodes :: "'a graph_scheme \<Rightarrow> vnf list \<Rightarrow> (node_id, real) dict \<Rightarrow> (string, node_id) dict \<Rightarrow> real
    \<Rightarrow> py_error + xreal" where
  "gate_nodes g vs extra [] acc = Inr (Fin acc)"
| "gate_nodes g vs extra ((v, n) # ps) acc =
     (case node_at g n of
        Inl e \<Rightarrow> Inl e
      | Inr d \<Rightarrow>
     (case map_of extra n of
        None \<Rightarrow> Inl KeyError
      | Some x \<Rightarrow>
     (case vnf_by_id vs v of
        None \<Rightarrow> Inl KeyError
      | Some f \<Rightarrow>
     (case node_sojourn (processing_delay d) (intensity f) (cpu_capacity d)
              (cpu_capacity d - cpu_residual d + x) of
        PInf \<Rightarrow> Inr PInf
      | Fin s \<Rightarrow> gate_nodes g vs extra ps (acc + s)))))"

definition extra_bw :: "(flow_key, (link_id, real) dict) dict \<Rightarrow> (link_id, real) dict" where
  "extra_bw bws = fold (\<lambda>(_, per_link) acc. fold (\<lambda>(l, bw). add_at l bw) per_link acc) bws []"

fun gate_links :: "'a graph_scheme \<Rightarrow> (link_id, real) dict \<Rightarrow> link_id list \<Rightarrow> real \<Rightarrow> py_error + xreal" where
  "gate_links g extra [] acc = Inr (Fin acc)"
| "gate_links g extra (l # ls) acc =
     (case link_by_id g l of
        None \<Rightarrow> Inl KeyError
      | Some (_, d) \<Rightarrow>
     (case link_sojourn (propagation_delay d) (bandwidth_capacity d)
              (bandwidth_capacity d - bw_residual d + get_default extra l 0) of
        PInf \<Rightarrow> Inr PInf
      | Fin s \<Rightarrow> gate_links g extra ls (acc + s)))"

definition plan_qos_reason :: "'a graph_scheme \<Rightarrow> slice_request \<Rightarrow> placement_plan \<Rightarrow> nat
    \<Rightarrow> py_error + string option" where
  "plan_qos_reason g req plan max_hops =
     (case gate_hops g (concat (vals (flow_routes plan))) 0 of
        Inl e \<Rightarrow> Inl e
      | Inr hops \<Rightarrow>
     if max_hops < hops then Inr (Some ''C9'')
     else case extra_cpu (vnfs req) (vnf_placements plan) of
        Inl e \<Rightarrow> Inl e
      | Inr cpu \<Rightarrow>
     (case gate_nodes g (vnfs req) cpu (vnf_placements plan) 0 of
        Inl e \<Rightarrow> Inl e
      | Inr PInf \<Rightarrow> Inr (Some ''C7'')
      | Inr (Fin t) \<Rightarrow>
     (case gate_links g (extra_bw (bw_allocations plan)) (concat (vals (flow_routes plan))) t of
        Inl e \<Rightarrow> Inl e
      | Inr PInf \<Rightarrow> Inr (Some ''C7'')
      | Inr (Fin t') \<Rightarrow> Inr (if t' \<le> max_e2e_delay (qos_of req) then None else Some ''C7''))))"

definition plan_qos_ok :: "'a graph_scheme \<Rightarrow> slice_request \<Rightarrow> placement_plan \<Rightarrow> nat \<Rightarrow> py_error + bool" where
  "plan_qos_ok g req plan max_hops = map_sum id (\<lambda>r. r = None) (plan_qos_reason g req plan max_hops)"

section \<open>The sums the loops compute\<close>

text \<open>A plan for a request: its VNFs claim their demand, its routes serve flows of the request and
  use links of the graph.\<close>

definition plan_serves :: "'a graph_scheme \<Rightarrow> slice_request \<Rightarrow> placement_plan \<Rightarrow> bool" where
  "plan_serves g req plan \<longleftrightarrow>
     (\<forall>(v, n) \<in> set (vnf_placements plan).
        \<exists>f \<in> set (vnfs req). vnf_id f = v \<and> map_of (cpu_allocations plan) v = Some (cpu_demand f))
     \<and> distinct (keys (flow_routes plan))
     \<and> set (keys (flow_routes plan)) \<subseteq> flow_key_of ` set (flow_edges req)
     \<and> (\<forall>(fk, ls) \<in> set (flow_routes plan). set ls \<subseteq> set (link_ids (g_edges g)))"

abbreviation node_wait :: "'a graph_scheme \<Rightarrow> vnf list \<Rightarrow> (node_id \<Rightarrow> real) \<Rightarrow> string \<times> node_id \<Rightarrow> xreal" where
  "node_wait g vs x p \<equiv>
     (case (map_of (g_nodes g) (snd p), vnf_by_id vs (fst p)) of
        (Some d, Some f) \<Rightarrow> node_sojourn (processing_delay d) (intensity f) (cpu_capacity d)
                              (cpu_capacity d - cpu_residual d + x (snd p))
      | _ \<Rightarrow> 0)"

abbreviation link_wait :: "'a graph_scheme \<Rightarrow> (link_id \<Rightarrow> real) \<Rightarrow> link_id \<Rightarrow> xreal" where
  "link_wait g x l \<equiv>
     (case find_link l (g_edges g) of
        Some (e, d) \<Rightarrow> link_sojourn (propagation_delay d) (bandwidth_capacity d)
                         (bandwidth_capacity d - bw_residual d + x l)
      | None \<Rightarrow> 0)"

lemma PInf_plus [simp]: "PInf + x = PInf" "x + PInf = PInf"
  by (cases x; simp)+

lemma zero_Fin: "(0 :: xreal) = Fin 0"
  by (simp add: zero_xreal_def)

lemma node_delays_sum:
  assumes "\<forall>(v, n) \<in> set ps. n \<in> set (keys (g_nodes g)) \<and> vnf_by_id vs v \<noteq> None"
  shows "node_delays g vs ps acc = Inr (Fin acc + sum_list (map (node_wait g vs (\<lambda>_. 0)) ps))"
  using assms
proof (induction ps arbitrary: acc)
  case (Cons p ps)
  obtain v n where p: "p = (v, n)" by (cases p)
  from Cons.prems obtain d f where "map_of (g_nodes g) n = Some d" "vnf_by_id vs v = Some f"
    by (auto simp: p key_iff)
  with Cons show ?case by (simp add: p add.assoc[symmetric] split: xreal.split)
qed (simp add: zero_Fin)

lemma gate_nodes_sum:
  assumes "\<forall>(v, n) \<in> set ps. n \<in> set (keys (g_nodes g)) \<and> vnf_by_id vs v \<noteq> None
      \<and> n \<in> set (keys extra)"
  shows "gate_nodes g vs extra ps acc
    = Inr (Fin acc + sum_list (map (node_wait g vs (\<lambda>n. get_default extra n 0)) ps))"
  using assms
proof (induction ps arbitrary: acc)
  case (Cons p ps)
  obtain v n where p: "p = (v, n)" by (cases p)
  from Cons.prems obtain d f x where "map_of (g_nodes g) n = Some d" "vnf_by_id vs v = Some f"
    "map_of extra n = Some x"
    by (auto simp: p key_iff)
  with Cons show ?case
    by (simp add: p node_at_def get_default_def add.assoc[symmetric] split: xreal.split)
qed (simp add: zero_Fin)

lemma link_delays_sum:
  assumes "wf_graph g" and "set ls \<subseteq> set (link_ids (g_edges g))"
  shows "link_delays g ls acc = Inr (Fin acc + sum_list (map (link_wait g (\<lambda>_. 0)) ls))"
  using assms(2)
proof (induction ls arbitrary: acc)
  case (Cons l ls)
  then obtain e d where "find_link l (g_edges g) = Some (e, d)" "link_edge g l = Inr d"
    using link_edge_total[OF assms(1), of l] by auto
  with Cons show ?case by (simp add: add.assoc[symmetric] split: xreal.split)
qed (simp add: zero_Fin)

lemma link_by_id_find:
  assumes "distinct (link_ids (g_edges g))"
  shows "link_by_id g l = find_link l (g_edges g)"
proof (cases "find_link l (g_edges g)")
  case None
  then have "l \<notin> set (link_ids (g_edges g))" by (simp only: find_link_None not_False_eq_True)
  then show ?thesis using None by (force simp: link_by_id_def map_of_eq_None_iff)
next
  case (Some x)
  then obtain e d where "x = (e, d)" "(e, d) \<in> set (g_edges g)" "link_id d = l"
    by (cases x) (auto dest: find_link_Some)
  then have "(l, x) \<in> set (rev (map (\<lambda>(e, d). (link_id d, e, d)) (g_edges g)))" by force
  moreover have "distinct (keys (rev (map (\<lambda>(e, d). (link_id d, e, d)) (g_edges g))))"
    using assms by (simp add: rev_map[symmetric] comp_def case_prod_unfold)
  ultimately show ?thesis using Some by (simp add: link_by_id_def)
qed

lemma gate_links_sum:
  assumes wf: "wf_graph g" and "set ls \<subseteq> set (link_ids (g_edges g))"
  shows "gate_links g extra ls acc
    = Inr (Fin acc + sum_list (map (link_wait g (\<lambda>l. get_default extra l 0)) ls))"
  using assms(2)
proof (induction ls arbitrary: acc)
  case (Cons l ls)
  have "distinct (link_ids (g_edges g))" using wf by (simp add: wf_graph_def)
  moreover from Cons obtain e d where "find_link l (g_edges g) = Some (e, d)"
    using link_edge_total[OF wf, of l] by auto
  ultimately have "link_by_id g l = Some (e, d)" "find_link l (g_edges g) = Some (e, d)"
    by (simp_all only: link_by_id_find)
  with Cons show ?case by (simp add: add.assoc[symmetric] split: xreal.split)
qed (simp add: zero_Fin)

lemma flow_delays_sum:
  assumes wf: "wf_graph g"
    and "\<forall>(fk, ls) \<in> set (flow_routes plan). set ls \<subseteq> set (link_ids (g_edges g))"
  shows "flow_delays g plan fes acc = Inr (Fin acc
    + (\<Sum>fe \<leftarrow> fes. sum_list (map (link_wait g (\<lambda>_. 0)) (get_default (flow_routes plan) (flow_key_of fe) []))))"
proof (induction fes arbitrary: acc)
  case (Cons fe fes)
  have "set (get_default (flow_routes plan) (flow_key_of fe) []) \<subseteq> set (link_ids (g_edges g))"
    using assms(2) by (fastforce simp: get_default_def split: option.splits dest: map_of_SomeD)
  note link_delays_sum[OF wf this, of acc]
  with Cons show ?case by (simp add: add.assoc[symmetric] split: xreal.split)
qed (simp add: zero_Fin)

text \<open>Summing over the flows of the request is summing over the routes of the plan.\<close>

lemma sum_routes:
  fixes h :: "link_id \<Rightarrow> xreal"
  assumes d: "distinct (keys rts)" and df: "distinct (map flow_key_of fes)"
    and sub: "set (keys rts) \<subseteq> flow_key_of ` set fes"
  shows "(\<Sum>fe \<leftarrow> fes. sum_list (map h (get_default rts (flow_key_of fe) [])))
    = sum_list (map h (concat (vals rts)))"
proof -
  let ?f = "\<lambda>k. sum_list (map h (get_default rts k []))"
  have "(\<Sum>fe \<leftarrow> fes. ?f (flow_key_of fe)) = sum_list (map ?f (map flow_key_of fes))"
    by (simp only: map_map comp_def)
  also have "\<dots> = sum ?f (set (map flow_key_of fes))" by (rule sum_list_distinct_conv_sum_set[OF df])
  also have "\<dots> = sum ?f (set (keys rts))"
    by (rule sum.mono_neutral_right) (use sub in \<open>auto simp: get_default_fresh\<close>)
  also have "\<dots> = sum_list (map ?f (keys rts))"
    by (rule sum_list_distinct_conv_sum_set[OF d, symmetric])
  also have "\<dots> = (\<Sum>x \<leftarrow> rts. sum_list (map h (snd x)))"
  proof -
    have "?f (fst x) = sum_list (map h (snd x))" if "x \<in> set rts" for x
      using map_of_is_SomeI[OF d, of "fst x" "snd x"] that by (simp add: get_default_in)
    then show ?thesis by (simp add: comp_def cong: map_cong)
  qed
  also have "\<dots> = sum_list (map h (concat (vals rts)))"
    by (induction rts) auto
  finally show ?thesis .
qed

text \<open>The load dictionaries hold what allocating the plan posts to each account.\<close>

lemma extra_cpu_posted:
  assumes "\<forall>(v, n) \<in> set (vnf_placements plan). \<exists>f. vnf_by_id vs v = Some f
      \<and> map_of (cpu_allocations plan) v = Some (cpu_demand f)"
  shows "\<exists>cpu. extra_cpu vs (vnf_placements plan) = Inr cpu
    \<and> (\<forall>n. get_default cpu n 0 = posted_cpu n (node_claims plan))
    \<and> snd ` set (vnf_placements plan) \<subseteq> set (keys cpu)"
proof -
  let ?step = "\<lambda>(v, n) acc. case vnf_by_id vs v of None \<Rightarrow> Inl KeyError
      | Some f \<Rightarrow> Inr (add_at n (cpu_demand f) acc)"
  let ?c = "\<lambda>(v, n). (n, get_default (cpu_allocations plan) v 0, get_default (ram_allocations plan) v 0)"
  have "\<exists>cpu. fold_err ?step ps acc = Inr cpu
      \<and> (\<forall>n. get_default cpu n 0 = get_default acc n 0 + posted_cpu n (map ?c ps))
      \<and> snd ` set ps \<union> set (keys acc) \<subseteq> set (keys cpu)"
    if "set ps \<subseteq> set (vnf_placements plan)" for ps acc
    using that
  proof (induction ps arbitrary: acc)
    case (Cons p ps)
    obtain v n where p: "p = (v, n)" by (cases p)
    from Cons.prems assms obtain f where
      f: "vnf_by_id vs v = Some f" "map_of (cpu_allocations plan) v = Some (cpu_demand f)"
      by (auto simp: p)
    have "set (keys (add_at n (cpu_demand f) acc)) = insert n (set (keys acc))"
      unfolding add_at_def by (rule keys_update)
    with Cons.IH[of "add_at n (cpu_demand f) acc"] Cons.prems f show ?case
      by (auto simp: p get_default_in)
  qed simp
  from this[OF subset_refl, of "[]"] show ?thesis
    by (auto simp: extra_cpu_def node_claims_def get_default_def)
qed

lemma extra_bw_posted: "get_default (extra_bw (bw_allocations plan)) l 0 = posted l (link_claims plan)"
proof -
  have 1: "get_default (fold (\<lambda>(l, bw). add_at l bw) ps acc) l 0 = get_default acc l 0 + posted l ps"
    for ps :: "(link_id, real) dict" and acc
    by (induction ps arbitrary: acc) auto
  have "get_default (fold (\<lambda>(_, per_link) acc. fold (\<lambda>(l, bw). add_at l bw) per_link acc) bws acc) l 0
      = get_default acc l 0 + posted l (concat (vals bws))" for bws :: "(flow_key, (link_id, real) dict) dict" and acc
    by (induction bws arbitrary: acc) (auto simp: 1)
  then show ?thesis by (simp add: extra_bw_def link_claims_def get_default_def)
qed

lemma gate_hops_count:
  assumes wf: "wf_graph g" and "set ls \<subseteq> set (link_ids (g_edges g))"
  shows "gate_hops g ls k = Inr (k + length (filter (link_crosses g) ls))"
  using assms(2)
proof (induction ls arbitrary: k)
  case (Cons l ls)
  have ids: "distinct (link_ids (g_edges g))" using wf by (simp add: wf_graph_def)
  obtain u v d where f: "find_link l (g_edges g) = Some ((u, v), d)"
    using link_edge_total[OF wf, of l] Cons.prems by auto
  then have "((u, v), d) \<in> set (g_edges g)" by (blast dest: find_link_Some)
  then obtain du dv where "map_of (g_nodes g) u = Some du" "map_of (g_nodes g) v = Some dv"
    using wf by (force simp: wf_graph_def key_iff)
  with Cons f show ?case
    by (simp add: link_by_id_find[OF ids] node_at_def link_crosses_def crosses_def domain_of_def)
qed simp

lemma node_wait_charge:
  "node_wait (charge ns ls g) vs (\<lambda>_. 0) p = node_wait g vs (\<lambda>n. posted_cpu n ns) p"
  by (simp add: map_of_charge algebra_simps split: option.split)

lemma link_wait_charge:
  assumes wf: "wf_graph g"
  shows "link_wait (charge ns ls g) (\<lambda>_. 0) l = link_wait g (\<lambda>l. posted l ls) l"
proof -
  have ids: "distinct (link_ids (g_edges g))" using wf by (simp add: wf_graph_def)
  have "find_link l (map (\<lambda>(e, d). (e, d\<lparr>bw_residual := bw_residual d - posted (link_id d) ls\<rparr>)) es)
      = map_option (\<lambda>(e, d). (e, d\<lparr>bw_residual := bw_residual d - posted l ls\<rparr>)) (find_link l es)" for es
    by (induction es) auto
  then show ?thesis unfolding edges_charge[OF ids] by (auto simp: algebra_simps split: option.split)
qed

section \<open>The gate and the verifier\<close>

lemma gate_verdict:
  assumes wf: "wf_graph S" and typed: "typed_links S" and req: "wf_request req"
    and plan: "plan_serves S req plan" and al: "allocate S plan req = Inr S'"
  shows "\<exists>v. verify_committed_plan S' plan req k = Inr v
    \<and> plan_qos_reason S req plan k
        = Inr (if ''C9'' \<in> set (vd_violated v) then Some ''C9''
               else if ''C7'' \<in> set (vd_violated v) then Some ''C7'' else None)"
proof -
  let ?T = "charge (node_claims plan) (link_claims plan) S"
  let ?ls = "concat (vals (flow_routes plan))"
  have S': "S' = ?T\<lparr>active_slices := active_slices S @ [(request_id req, plan, req)]\<rparr>"
    and res: "plan_resolves plan S" using al by (auto simp: allocate_Inr_iff)
  have gn: "g_nodes S' = g_nodes ?T" "g_edges S' = g_edges ?T" by (simp_all add: S')
  have wf': "wf_graph S'" using wf by (simp add: S')
  have routes: "\<forall>(fk, ls) \<in> set (flow_routes plan). set ls \<subseteq> set (link_ids (g_edges S))"
    and d: "distinct (keys (flow_routes plan))"
    and sub: "set (keys (flow_routes plan)) \<subseteq> flow_key_of ` set (flow_edges req)"
    using plan unfolding plan_serves_def by blast+
  have ids: "link_ids (g_edges S') = link_ids (g_edges S)" unfolding gn by (rule link_ids_charge)
  have ls: "set ?ls \<subseteq> set (link_ids (g_edges S))" using routes by fastforce
  have found: "\<forall>(v, n) \<in> set (vnf_placements plan). \<exists>f. vnf_by_id (vnfs req) v = Some f
      \<and> map_of (cpu_allocations plan) v = Some (cpu_demand f)"
    using plan req vnf_by_id_in[of "vnfs req"] unfolding plan_serves_def wf_request_def by fastforce
  obtain cpu where cpu: "extra_cpu (vnfs req) (vnf_placements plan) = Inr cpu"
    "\<And>n. get_default cpu n 0 = posted_cpu n (node_claims plan)"
    "snd ` set (vnf_placements plan) \<subseteq> set (keys cpu)"
    using extra_cpu_posted[OF found] by blast
  have kn: "set (keys (g_nodes S')) = set (keys (g_nodes S))" unfolding gn charge_simps ..
  have n1: "\<forall>(v, n) \<in> set (vnf_placements plan). n \<in> set (keys (g_nodes S')) \<and> vnf_by_id (vnfs req) v \<noteq> None"
    unfolding kn using res found unfolding plan_resolves_def by fastforce
  have n2: "\<forall>(v, n) \<in> set (vnf_placements plan). n \<in> set (keys (g_nodes S)) \<and> vnf_by_id (vnfs req) v \<noteq> None
      \<and> n \<in> set (keys cpu)"
  proof (intro ballI)
    fix p assume p: "p \<in> set (vnf_placements plan)"
    then have "snd p \<in> set (keys cpu)" using cpu(3) by blast
    with bspec[OF n1 p] show "case p of (v, n) \<Rightarrow> n \<in> set (keys (g_nodes S)) \<and> vnf_by_id (vnfs req) v \<noteq> None
        \<and> n \<in> set (keys cpu)"
      unfolding kn case_prod_unfold by blast
  qed
  define N where "N = sum_list (map (node_wait S (vnfs req) (\<lambda>n. posted_cpu n (node_claims plan))) (vnf_placements plan))"
  define L where "L = sum_list (map (link_wait S (\<lambda>l. posted l (link_claims plan))) ?ls)"
  have gnodes: "gate_nodes S (vnfs req) cpu (vnf_placements plan) 0 = Inr N"
    using gate_nodes_sum[OF n2, of 0] unfolding cpu(2) N_def by (simp add: zero_Fin[symmetric])
  have glinks: "gate_links S (extra_bw (bw_allocations plan)) ?ls t = Inr (Fin t + L)" for t
    using gate_links_sum[OF wf ls, of "extra_bw (bw_allocations plan)" t] unfolding extra_bw_posted L_def .
  have vnodes: "node_delays S' (vnfs req) (vnf_placements plan) 0 = Inr N"
    using node_delays_sum[OF n1, of 0] unfolding gn node_wait_charge by (simp add: N_def zero_Fin[symmetric])
  have vflows: "flow_delays S' plan (flow_edges req) t = Inr (Fin t + L)" for t
  proof -
    have "\<forall>(fk, ls) \<in> set (flow_routes plan). set ls \<subseteq> set (link_ids (g_edges S'))"
      unfolding ids by (rule routes)
    from flow_delays_sum[OF wf' this, of "flow_edges req" t] show ?thesis
      unfolding gn link_wait_charge[OF wf] L_def
      using sum_routes[OF d _ sub] req by (simp add: wf_request_def)
  qed
  have e2e: "ground_truth_e2e S' plan req = Inr (N + L)"
    using vnodes vflows by (cases N) (simp_all add: ground_truth_e2e_def)
  define h where "h = length (filter (link_crosses S) ?ls)"
  have ghops: "gate_hops S ?ls 0 = Inr h" using gate_hops_count[OF wf ls, of 0] by (simp add: h_def)
  have vhops: "count_plan_hops S' plan = Inr h"
  proof -
    have "count_inter ?T ?ls 0 = Inr (0 + length (filter (link_crosses ?T) ?ls))"
      by (rule count_typed) (use wf typed_charge[OF wf typed] ls in \<open>simp_all only: wf_charge link_ids_charge\<close>)
    moreover have "link_crosses ?T = link_crosses S"
      by (rule link_crosses_charge) (use wf in \<open>simp add: wf_graph_def\<close>)
    ultimately show ?thesis using count_inter_edges[OF gn(2)] by (simp add: count_plan_hops_def h_def)
  qed
  have gate: "plan_qos_reason S req plan k = Inr (if k < h then Some ''C9''
      else if Fin (max_e2e_delay (qos_of req)) < N + L then Some ''C7'' else None)"
  proof (cases N)
    case PInf
    then show ?thesis using gnodes
      by (simp add: plan_qos_reason_def ghops cpu(1))
  next
    case (Fin x)
    then show ?thesis using gnodes glinks[of x]
      by (cases L) (simp_all add: plan_qos_reason_def ghops cpu(1) not_less)
  qed
  obtain c2 c3 where c23: "check_node_capacities S' = (c2, c3)" by fastforce
  obtain thr c5b where c5: "check_c5b req plan = (thr, c5b)" by fastforce
  define bad where "bad = (if c2 \<noteq> None then [''C2''] else []) @ (if c3 \<noteq> None then [''C3''] else [])
      @ (if check_link_capacities S' \<noteq> None then [''C5''] else [])
      @ (if Fin (max_e2e_delay (qos_of req)) < N + L then [''C7''] else [])
      @ (if c5b then [''C5b''] else []) @ (if k < h then [''C9''] else [])"
  have "\<exists>v. verify_committed_plan S' plan req k = Inr v \<and> vd_violated v = bad"
    by (simp only: verify_committed_plan_def e2e vhops c23 c5 Let_def prod.case sum.case bad_def)
      (intro exI conjI, rule refl, simp only: verdict.simps)
  moreover have "''C9'' \<in> set bad \<longleftrightarrow> k < h"
    and "''C7'' \<in> set bad \<longleftrightarrow> Fin (max_e2e_delay (qos_of req)) < N + L"
    by (simp_all add: bad_def)
  ultimately obtain v where v: "verify_committed_plan S' plan req k = Inr v"
    "''C9'' \<in> set (vd_violated v) \<longleftrightarrow> k < h"
    "''C7'' \<in> set (vd_violated v) \<longleftrightarrow> Fin (max_e2e_delay (qos_of req)) < N + L"
    by (auto simp only:)
  show ?thesis using v gate by auto
qed

text \<open>C8: the gate is the verifier. On a plan whose VNFs claim their demand and whose routes serve
  the request, the reason the gate gives before the allocation is, hop budget first, the reason the
  post-commit verifier finds after it: a plan that passes the gate is never revoked for its delay
  or its hops, and a plan that would be revoked for them never passes.\<close>

theorem gate_is_verifier:
  assumes wf: "wf_graph S" and typed: "typed_links S" and req: "wf_request req"
    and plan: "plan_serves S req plan" and al: "allocate S plan req = Inr S'"
  shows "\<exists>v. verify_committed_plan S' plan req k = Inr v
    \<and> plan_qos_reason S req plan k
        = Inr (if ''C9'' \<in> set (vd_violated v) then Some ''C9''
               else if ''C7'' \<in> set (vd_violated v) then Some ''C7'' else None)"
  using assms by (rule gate_verdict)

theorem gate_is_verifier_witness:
  "\<exists>S' v. allocate ex_sub ex_plan ex_req = Inr S' \<and> verify_committed_plan S' ex_plan ex_req 3 = Inr v
    \<and> plan_qos_reason ex_sub ex_req ex_plan 3
        = Inr (if ''C9'' \<in> set (vd_violated v) then Some ''C9''
               else if ''C7'' \<in> set (vd_violated v) then Some ''C7'' else None)"
proof -
  have a: "(case allocate ex_sub ex_plan ex_req of Inl _ \<Rightarrow> False | Inr _ \<Rightarrow> True)" by code_simp
  then obtain S' where S': "allocate ex_sub ex_plan ex_req = Inr S'" by (auto split: sum.splits)
  have "wf_graph ex_sub" "typed_links ex_sub" "wf_request ex_req" "plan_serves ex_sub ex_req ex_plan"
    by code_simp+
  from gate_is_verifier[OF this S', of 3] S' show ?thesis by blast
qed

end
