(* ===== verification/Colocation.thy ===== *)
theory Colocation
  imports Greedy_FFD Qos_Gate
begin

text \<open>
  The co-location-first baselines (\<open>src/src/orion/baselines/colocation_ffd.py\<close>): place the whole
  chain in one domain, the emptiest first; \<open>colocation_ffd\<close> falls back on first-fit decreasing,
  \<open>pure_colocation\<close> rejects. The run of a domain refines the placement relation of
  \<open>Greedy_FFD\<close>, and its routing is that of \<open>Greedy_FFD\<close> with every link charged to the
  intra-domain cost.
\<close>

section \<open>Shared helpers\<close>

fun coloc_candidates :: "'a graph_scheme \<Rightarrow> vnf \<Rightarrow> ffd_state \<Rightarrow> node_id list
    \<Rightarrow> py_error + (int \<times> real \<times> node_id) list" where
  "coloc_candidates g v \<sigma> [] = Inr []"
| "coloc_candidates g v \<sigma> (n # ns) =
     (case map_of (g_nodes g) n of
        None \<Rightarrow> Inl KeyError
      | Some d \<Rightarrow>
          if permitted_nodes v \<noteq> [] \<and> n \<notin> set (permitted_nodes v) then coloc_candidates g v \<sigma> ns
          else if cpu_after \<sigma> n d < cpu_demand v \<or> ram_after \<sigma> n d < ram_demand v then coloc_candidates g v \<sigma> ns
          else map_sum id ((#) (- (if required_tier g v = Some (node_tier d) then 1 else 0),
                                cpu_after \<sigma> n d - cpu_demand v, n)) (coloc_candidates g v \<sigma> ns))"

definition select_node_in_domain :: "'a graph_scheme \<Rightarrow> vnf \<Rightarrow> ffd_state \<Rightarrow> node_id list
    \<Rightarrow> py_error + node_id option" where
  "select_node_in_domain g v \<sigma> ns =
     map_sum id (\<lambda>cs. map_option (\<lambda>(t, r, n). n) (least cs)) (coloc_candidates g v \<sigma> ns)"

fun coloc_place :: "'a graph_scheme \<Rightarrow> node_id list \<Rightarrow> vnf list \<Rightarrow> ffd_state \<Rightarrow> py_error + ffd_state option" where
  "coloc_place g ns [] \<sigma> = Inr (Some \<sigma>)"
| "coloc_place g ns (v # vs) \<sigma> =
     (case select_node_in_domain g v \<sigma> ns of
        Inl e \<Rightarrow> Inl e
      | Inr None \<Rightarrow> Inr None
      | Inr (Some n) \<Rightarrow>
          (case map_of (g_nodes g) n of
             None \<Rightarrow> Inl KeyError
           | Some d \<Rightarrow> coloc_place g ns vs (ffd_put v n d \<sigma>)))"

definition coloc_take_link :: "'a graph_scheme \<Rightarrow> real \<Rightarrow> link_id \<Rightarrow> ffd_state \<times> (link_id, real) dict
    \<Rightarrow> py_error + (ffd_state \<times> (link_id, real) dict)" where
  "coloc_take_link g bw l = (\<lambda>(\<sigma>, per).
     case link_endpoints g l of
       Inl e \<Rightarrow> Inl e
     | Inr e \<Rightarrow>
         (case map_of (g_edges g) e of
            None \<Rightarrow> Inl KeyError
          | Some d \<Rightarrow> Inr (\<sigma>\<lparr>run_bw := AList.update l (bw_after \<sigma> l d - bw) (run_bw \<sigma>),
                              fs_intra_cost := fs_intra_cost \<sigma> + bw\<rparr>,
                           AList.update l bw per)))"

fun coloc_route :: "nx_lib \<Rightarrow> 'a graph_scheme \<Rightarrow> flow_edge list \<Rightarrow> ffd_state \<Rightarrow> py_error + ffd_state option" where
  "coloc_route nx g [] \<sigma> = Inr (Some \<sigma>)"
| "coloc_route nx g (fe # fes) \<sigma> =
     (case (map_of (fs_place \<sigma>) (source_vnf fe), map_of (fs_place \<sigma>) (target_vnf fe)) of
        (Some s, Some t) \<Rightarrow>
          if s = t then coloc_route nx g fes (ffd_record (flow_key_of fe) [] [] \<sigma>)
          else (case shortest_bw_feasible_path nx g s t (bandwidth_demand fe) \<sigma> of
                  Inl e \<Rightarrow> Inl e
                | Inr None \<Rightarrow> Inr None
                | Inr (Some ls) \<Rightarrow>
                    (case fold_err (coloc_take_link g (bandwidth_demand fe)) ls (\<sigma>, []) of
                       Inl e \<Rightarrow> Inl e
                     | Inr (\<sigma>', per) \<Rightarrow> coloc_route nx g fes (ffd_record (flow_key_of fe) ls per \<sigma>')))
      | _ \<Rightarrow> Inl KeyError)"

definition coloc_plan :: "slice_request \<Rightarrow> ffd_state \<Rightarrow> placement_plan" where
  "coloc_plan req \<sigma> = \<lparr>plan_id = request_id req @ ''_coloc'', vnf_placements = fs_place \<sigma>,
     cpu_allocations = fs_cpu \<sigma>, ram_allocations = fs_ram \<sigma>, flow_routes = fs_routes \<sigma>,
     bw_allocations = fs_bw \<sigma>, structurally_valid = True, plan_source = ''colocation''\<rparr>"

definition coloc_result :: "slice_request \<Rightarrow> greedy_config \<Rightarrow> ffd_state \<Rightarrow> greedy_result" where
  "coloc_result req cfg \<sigma> = \<lparr>gr_feasible = True,
     gr_cost = Fin (gc_alpha cfg * fs_resource_cost \<sigma> + gc_gamma_intra cfg * fs_intra_cost \<sigma>),
     gr_plan = Some (coloc_plan req \<sigma>), gr_intra_bw = fs_intra_cost \<sigma>, gr_inter_bw = 0,
     gr_resource_cost = fs_resource_cost \<sigma>, gr_fail_reason = []\<rparr>"

definition try_single_domain :: "nx_lib \<Rightarrow> 'a graph_scheme \<Rightarrow> slice_request \<Rightarrow> greedy_config \<Rightarrow> node_id list
    \<Rightarrow> py_error + greedy_result option" where
  "try_single_domain nx g req cfg ns =
     (case coloc_place g ns (sort_key (\<lambda>v. (- cpu_demand v, - ram_demand v, vnf_id v)) (vnfs req)) ffd_start of
        Inl e \<Rightarrow> Inl e
      | Inr None \<Rightarrow> Inr None
      | Inr (Some \<sigma>) \<Rightarrow> map_sum id (map_option (coloc_result req cfg)) (coloc_route nx g (flow_edges req) \<sigma>))"

text \<open>Domains by total residual CPU, and the nodes of each; a negative id is no domain. A set of
  nodes is kept as the list of its elements; it is only ever sorted.\<close>

definition add_node_to_ranking :: "node_id \<times> node_data \<Rightarrow> (int, real) dict \<times> (int, node_id list) dict
    \<Rightarrow> (int, real) dict \<times> (int, node_id list) dict" where
  "add_node_to_ranking = (\<lambda>(n, d) (cpu, nodes).
     if domain_id d < 0 then (cpu, nodes)
     else (add_at (domain_id d) (cpu_residual d) cpu,
           AList.update (domain_id d) (get_default nodes (domain_id d) [] @ [n]) nodes))"

definition domain_cpu_ranking :: "'a graph_scheme \<Rightarrow> int list \<times> (int, node_id list) dict" where
  "domain_cpu_ranking g =
     (let (cpu, nodes) = fold add_node_to_ranking (g_nodes g) ([], []) in
      (sort_key (\<lambda>m. - get_default cpu m 0) (keys cpu), nodes))"

fun try_domains :: "nx_lib \<Rightarrow> 'a graph_scheme \<Rightarrow> slice_request \<Rightarrow> greedy_config \<Rightarrow> (int, node_id list) dict
    \<Rightarrow> int list \<Rightarrow> py_error + greedy_result option" where
  "try_domains nx g req cfg nodes [] = Inr None"
| "try_domains nx g req cfg nodes (m # ms) =
     (case map_of nodes m of
        None \<Rightarrow> Inl KeyError
      | Some ns \<Rightarrow>
          (case try_single_domain nx g req cfg (sort ns) of
             Inl e \<Rightarrow> Inl e
           | Inr (Some r) \<Rightarrow> Inr (Some r)
           | Inr None \<Rightarrow> try_domains nx g req cfg nodes ms))"

section \<open>Variants 1 and 3\<close>

definition colocation_ffd :: "nx_lib \<Rightarrow> 'a graph_scheme \<Rightarrow> slice_request \<Rightarrow> greedy_config
    \<Rightarrow> py_error + greedy_result" where
  "colocation_ffd nx g req cfg =
     (let (ranked, nodes) = domain_cpu_ranking g in
      case try_domains nx g req cfg nodes ranked of
        Inl e \<Rightarrow> Inl e
      | Inr (Some r) \<Rightarrow> Inr r
      | Inr None \<Rightarrow> run_greedy_ffd nx g req cfg)"

definition pure_colocation :: "nx_lib \<Rightarrow> 'a graph_scheme \<Rightarrow> slice_request \<Rightarrow> greedy_config
    \<Rightarrow> py_error + greedy_result" where
  "pure_colocation nx g req cfg =
     (let (ranked, nodes) = domain_cpu_ranking g in
      case try_domains nx g req cfg nodes ranked of
        Inl e \<Rightarrow> Inl e
      | Inr (Some r) \<Rightarrow> Inr r
      | Inr None \<Rightarrow> Inr (ffd_failed ''no single-domain placement (pure co-location)''))"

section \<open>The routing is that of the fallback\<close>

text \<open>The one difference: every link is charged to the intra-domain cost.\<close>

definition all_intra :: "ffd_state \<Rightarrow> ffd_state" where
  "all_intra \<sigma> = \<sigma>\<lparr>fs_intra_cost := fs_intra_cost \<sigma> + fs_inter_cost \<sigma>, fs_inter_cost := 0\<rparr>"

lemma all_intra_sel [simp]:
  "fs_place (all_intra \<sigma>) = fs_place \<sigma>" "fs_cpu (all_intra \<sigma>) = fs_cpu \<sigma>" "fs_ram (all_intra \<sigma>) = fs_ram \<sigma>"
  "fs_routes (all_intra \<sigma>) = fs_routes \<sigma>" "fs_bw (all_intra \<sigma>) = fs_bw \<sigma>" "run_bw (all_intra \<sigma>) = run_bw \<sigma>"
  "run_cpu (all_intra \<sigma>) = run_cpu \<sigma>" "run_ram (all_intra \<sigma>) = run_ram \<sigma>"
  "fs_resource_cost (all_intra \<sigma>) = fs_resource_cost \<sigma>"
  "fs_intra_cost (all_intra \<sigma>) = fs_intra_cost \<sigma> + fs_inter_cost \<sigma>" "fs_inter_cost (all_intra \<sigma>) = 0"
  by (simp_all add: all_intra_def)

lemma bw_after_all_intra [simp]: "bw_after (all_intra \<sigma>) l d = bw_after \<sigma> l d"
  by (simp add: bw_after_def)

lemma path_all_intra [simp]:
  "shortest_bw_feasible_path nx g s t bw (all_intra \<sigma>) = shortest_bw_feasible_path nx g s t bw \<sigma>"
  by (simp add: shortest_bw_feasible_path_def bw_view_def)

lemma record_all_intra: "ffd_record fk ls per (all_intra \<sigma>) = all_intra (ffd_record fk ls per \<sigma>)"
  by (simp add: ffd_record_def all_intra_def)

lemma take_link_all_intra:
  "coloc_take_link g bw l (all_intra \<sigma>, per) = map_sum id (map_prod all_intra id) (ffd_take_link g bw l (\<sigma>, per))"
  by (simp add: coloc_take_link_def ffd_take_link_def all_intra_def bw_after_def Let_def
      split: sum.split option.split)

lemma take_links_all_intra:
  "fold_err (coloc_take_link g bw) ls (all_intra \<sigma>, per)
   = map_sum id (map_prod all_intra id) (fold_err (ffd_take_link g bw) ls (\<sigma>, per))"
proof (induction ls arbitrary: \<sigma> per)
  case (Cons l ls)
  then show ?case by (cases "ffd_take_link g bw l (\<sigma>, per)") (auto simp: take_link_all_intra)
qed simp

lemma coloc_route_all_intra:
  "coloc_route nx g fes (all_intra \<sigma>) = map_sum id (map_option all_intra) (ffd_route nx g fes \<sigma>)"
proof (induction fes arbitrary: \<sigma>)
  case (Cons fe fes)
  have step: "coloc_route nx g fes (ffd_record fk ls per (all_intra \<sigma>'))
      = map_sum id (map_option all_intra) (ffd_route nx g fes (ffd_record fk ls per \<sigma>'))" for fk ls per \<sigma>'
    unfolding record_all_intra by (rule Cons.IH)
  show ?case
    by (simp add: step take_links_all_intra id_def split: option.split sum.split prod.split)
qed simp

lemma ffd_inv_all_intra: "ffd_inv g X \<sigma> \<Longrightarrow> ffd_inv g X (all_intra \<sigma>)"
  by (simp add: ffd_inv_def cpu_after_def ram_after_def)

lemma ffd_served_all_intra: "ffd_served g req \<sigma> \<Longrightarrow> ffd_served g req (all_intra \<sigma>)"
  by (simp add: ffd_served_def ffd_inv_all_intra)

lemma put_run_costs: "put_run g A vs \<sigma> \<tau> \<Longrightarrow> all_intra \<sigma> = \<sigma> \<Longrightarrow> all_intra \<tau> = \<tau>"
proof (induction rule: put_run.induct)
  case (put_one n d v \<sigma> vs \<tau>)
  have "fs_inter_cost (all_intra \<sigma>) = 0" by simp
  then have "fs_inter_cost \<sigma> = 0" using put_one.prems by simp
  then have "all_intra (ffd_put v n d \<sigma>) = ffd_put v n d \<sigma>" by (simp add: all_intra_def ffd_put_def)
  then show ?case by (rule put_one.IH)
qed

section \<open>The placement of one domain\<close>

lemma coloc_candidates_sound:
  assumes "coloc_candidates g v \<sigma> ns = Inr cs" and "(t, r, n) \<in> set cs"
  obtains d where "map_of (g_nodes g) n = Some d" and "n \<in> set ns"
    and "permitted_nodes v = [] \<or> n \<in> set (permitted_nodes v)"
    and "cpu_demand v \<le> cpu_after \<sigma> n d" and "ram_demand v \<le> ram_after \<sigma> n d"
  using assms
proof (induction ns arbitrary: cs thesis)
  case (Cons m ns)
  from Cons.prems(2) obtain d where d: "map_of (g_nodes g) m = Some d" by (auto split: option.splits)
  note P = Cons.prems(2)[simplified, unfolded d option.case]
  have rest: thesis if "coloc_candidates g v \<sigma> ns = Inr cs'" "(t, r, n) \<in> set cs'" for cs'
  proof (rule Cons.IH[OF _ that])
    fix d assume "map_of (g_nodes g) n = Some d" "n \<in> set ns" "permitted_nodes v = [] \<or> n \<in> set (permitted_nodes v)"
      "cpu_demand v \<le> cpu_after \<sigma> n d" "ram_demand v \<le> ram_after \<sigma> n d"
    then show thesis by (intro Cons.prems(1)) auto
  qed
  show thesis
  proof (cases "permitted_nodes v \<noteq> [] \<and> m \<notin> set (permitted_nodes v)
      \<or> cpu_after \<sigma> m d < cpu_demand v \<or> ram_after \<sigma> m d < ram_demand v")
    case True
    then have "coloc_candidates g v \<sigma> ns = Inr cs" using P by (auto split: if_splits)
    then show thesis using rest Cons.prems(3) by blast
  next
    case False
    with P obtain x cs' where c: "coloc_candidates g v \<sigma> ns = Inr cs'" "cs = (fst x, snd x) # cs'" "snd (snd x) = m"
      by (cases "coloc_candidates g v \<sigma> ns") (auto split: if_splits)
    show thesis
    proof (cases "(t, r, n) \<in> set cs'")
      case True
      then show thesis using rest c(1) by blast
    next
      case no: False
      then have "n = m" using Cons.prems(3) c(2,3) by auto
      then show thesis using Cons.prems(1)[of d] d False by auto
    qed
  qed
qed simp

lemma coloc_place_run:
  "coloc_place g ns vs \<sigma> = Inr (Some \<tau>) \<Longrightarrow> put_run g (set ns) vs \<sigma> \<tau>"
proof (induction vs arbitrary: \<sigma>)
  case Nil
  then show ?case by (simp add: put_none)
next
  case (Cons v vs)
  from Cons.prems obtain n d where sel: "select_node_in_domain g v \<sigma> ns = Inr (Some n)"
    and d: "map_of (g_nodes g) n = Some d" and rest: "coloc_place g ns vs (ffd_put v n d \<sigma>) = Inr (Some \<tau>)"
    by (auto split: sum.splits option.splits)
  from sel obtain cs t r where cs: "coloc_candidates g v \<sigma> ns = Inr cs" "least cs = Some (t, r, n)"
    by (cases "coloc_candidates g v \<sigma> ns") (auto simp: select_node_in_domain_def)
  from coloc_candidates_sound[OF cs(1) least_in[OF cs(2)]] d have
    "n \<in> set ns" "permitted_nodes v = [] \<or> n \<in> set (permitted_nodes v)"
    "cpu_demand v \<le> cpu_after \<sigma> n d" "ram_demand v \<le> ram_after \<sigma> n d" by auto
  from put_one[OF map_of_SomeD[OF d] this Cons.IH[OF rest]] show ?case .
qed

context path_oracle
begin

lemma try_single_domain_sound:
  assumes wf: "wf_graph g" and req: "wf_request req" and run: "try_single_domain nx g req cfg ns = Inr (Some r)"
  obtains \<sigma> where "r = coloc_result req cfg \<sigma>" and "ffd_served g req \<sigma>" and "fs_inter_cost \<sigma> = 0"
    and "snd ` set (fs_place \<sigma>) \<subseteq> set ns"
proof -
  from run obtain \<sigma> \<tau> where p: "coloc_place g ns (ffd_order (vnfs req)) ffd_start = Inr (Some \<sigma>)"
    and q: "coloc_route nx g (flow_edges req) \<sigma> = Inr (Some \<tau>)" and r: "r = coloc_result req cfg \<tau>"
    by (auto simp: try_single_domain_def map_sum_def split: sum.splits option.splits)
  note R = coloc_place_run[OF p]
  have "all_intra \<sigma> = \<sigma>" by (rule put_run_costs[OF R]) (simp add: all_intra_def ffd_start_def)
  with q coloc_route_all_intra[of nx g "flow_edges req" \<sigma>] obtain \<rho> where
    \<rho>: "ffd_route nx g (flow_edges req) \<sigma> = Inr (Some \<rho>)" "\<tau> = all_intra \<rho>"
    by (cases "ffd_route nx g (flow_edges req) \<sigma>") (auto simp: eq_commute[of "Some \<tau>"])
  note S = placed_routed_served[OF R wf req \<rho>(1)]
  have "snd ` set (fs_place \<tau>) \<subseteq> set ns" using put_run_placed(7)[OF R wf req] S(2) \<rho>(2) by simp
  then show thesis using that[of \<tau>] r ffd_served_all_intra[OF S(1)] \<rho>(2) by simp
qed

lemma try_domains_sound:
  assumes wf: "wf_graph g" and req: "wf_request req" and "try_domains nx g req cfg nodes ms = Inr (Some r)"
  obtains m ns \<sigma> where "m \<in> set ms" and "map_of nodes m = Some ns" and "r = coloc_result req cfg \<sigma>"
    and "ffd_served g req \<sigma>" and "fs_inter_cost \<sigma> = 0" and "snd ` set (fs_place \<sigma>) \<subseteq> set ns"
  using assms(3)
proof (induction ms arbitrary: thesis)
  case (Cons m ms)
  from Cons.prems(2) obtain ns where ns: "map_of nodes m = Some ns" by (auto split: option.splits)
  show thesis
  proof (cases "try_single_domain nx g req cfg (sort ns)")
    case (Inl e)
    then show thesis using Cons.prems(2) ns by simp
  next
    case (Inr x)
    show thesis
    proof (cases x)
      case None
      then have "try_domains nx g req cfg nodes ms = Inr (Some r)" using Cons.prems(2) ns Inr by simp
      then show thesis using Cons.IH Cons.prems(1) by (metis list.set_intros(2))
    next
      case (Some r')
      then have "try_single_domain nx g req cfg (sort ns) = Inr (Some r)" using Cons.prems(2) ns Inr by simp
      from try_single_domain_sound[OF wf req this] ns Cons.prems(1) show thesis
        by (metis list.set_intros(1) set_sort)
    qed
  qed
qed simp

end

text \<open>What the ranking lists: every domain with a node, and its nodes.\<close>

lemma domain_cpu_ranking_nodes:
  assumes "map_of (snd (domain_cpu_ranking g)) m = Some ns"
  shows "set ns = set (nodes_in_domain g m)"
proof -
  let ?f = "\<lambda>xs acc. fold add_node_to_ranking xs acc"
  have "get_default (snd (?f xs (c, dn))) m [] = get_default dn m []
      @ (if m < 0 then [] else map fst (filter (\<lambda>(n, d). domain_id d = m) xs))" for xs c dn
  proof (induction xs arbitrary: c dn)
    case (Cons x xs)
    obtain n d where x: "x = (n, d)" by (cases x)
    show ?case using Cons by (auto simp: x add_node_to_ranking_def)
  qed simp
  from this[of "g_nodes g" "[]" "[]"] have 1: "get_default (snd (domain_cpu_ranking g)) m []
      = (if m < 0 then [] else nodes_in_domain g m)"
    by (simp add: domain_cpu_ranking_def nodes_in_domain_def case_prod_unfold get_default_def Let_def)
  have neg: "map_of (snd (?f xs (c, dn))) m = None" if "m < 0" "map_of dn m = None" for xs c dn
    using that
  proof (induction xs arbitrary: c dn)
    case (Cons x xs)
    obtain n d where x: "x = (n, d)" by (cases x)
    show ?case using Cons by (auto simp: x add_node_to_ranking_def)
  qed simp
  have "\<not> m < 0" using neg[of "[]" "g_nodes g" "[]"] assms by (auto simp: domain_cpu_ranking_def case_prod_unfold Let_def)
  then show ?thesis using 1 assms by (simp add: get_default_def)
qed

section \<open>No run raises\<close>

text \<open>The flows of a request connect VNFs of the request.\<close>

definition closed_request :: "slice_request \<Rightarrow> bool" where
  "closed_request req \<longleftrightarrow>
     (\<forall>fe \<in> set (flow_edges req). source_vnf fe \<in> vnf_id ` set (vnfs req) \<and> target_vnf fe \<in> vnf_id ` set (vnfs req))"

lemma ffd_place_total: "wf_graph g \<Longrightarrow> \<exists>x. ffd_place g vs \<sigma> = Inr x"
proof (induction vs arbitrary: \<sigma>)
  case (Cons v vs)
  show ?case
  proof (cases "ffd_select_node g v \<sigma>")
    case (Some n)
    from ffd_select_node_Some[OF Some] obtain d where "(n, d) \<in> set (g_nodes g)" by blast
    then have "map_of (g_nodes g) n = Some d" using Cons.prems by (simp add: wf_graph_def)
    then show ?thesis using Cons Some by simp
  qed simp
qed simp

lemma coloc_candidates_total:
  "set ns \<subseteq> set (keys (g_nodes g)) \<Longrightarrow> \<exists>cs. coloc_candidates g v \<sigma> ns = Inr cs"
proof (induction ns)
  case (Cons n ns)
  then obtain d cs where "map_of (g_nodes g) n = Some d" "coloc_candidates g v \<sigma> ns = Inr cs"
    by (auto simp: key_iff)
  then show ?case by simp
qed simp

lemma coloc_place_total:
  "set ns \<subseteq> set (keys (g_nodes g)) \<Longrightarrow> \<exists>x. coloc_place g ns vs \<sigma> = Inr x"
proof (induction vs arbitrary: \<sigma>)
  case (Cons v vs)
  from coloc_candidates_total[OF Cons.prems] obtain cs where cs: "coloc_candidates g v \<sigma> ns = Inr cs" by blast
  show ?case
  proof (cases "least cs")
    case None
    then show ?thesis using cs by (simp add: select_node_in_domain_def)
  next
    case (Some x)
    obtain t r n where x: "x = (t, r, n)" by (cases x)
    from coloc_candidates_sound[OF cs least_in[OF Some[unfolded x]]] obtain d where
      "map_of (g_nodes g) n = Some d" by blast
    then show ?thesis using Cons cs Some by (simp add: select_node_in_domain_def x)
  qed
qed simp

lemma edge_links_total: "set es \<subseteq> set (keys (g_edges g)) \<Longrightarrow> \<exists>ls. edge_links g es = Inr ls"
proof (induction es)
  case (Cons e es)
  then obtain d ls where "map_of (g_edges g) e = Some d" "edge_links g es = Inr ls"
    by (auto simp: key_iff)
  then show ?case by simp
qed simp

context path_oracle
begin

lemma shortest_path_total: "\<exists>x. shortest_bw_feasible_path nx g s t bw \<sigma> = Inr x"
proof (cases "nx_shortest_path nx (bw_view g \<sigma> bw) s t")
  case (Some p)
  from shortest_path_sound[OF Some] have "set (path_edges p) \<subseteq> set (keys (g_edges (bw_view g \<sigma> bw)))"
    by (simp add: simple_path_def)
  then have "set (path_edges p) \<subseteq> set (keys (g_edges g))" by (auto simp: bw_view_def)
  from edge_links_total[OF this] Some show ?thesis by (auto simp: shortest_bw_feasible_path_def)
qed (simp add: shortest_bw_feasible_path_def)

lemma ffd_route_total:
  assumes wf: "wf_graph g" and "ffd_inv g [] \<sigma>" and "distinct (map flow_key_of fes)"
    and "set (map flow_key_of fes) \<inter> set (keys (fs_bw \<sigma>)) = {}"
    and "\<forall>fe \<in> set fes. source_vnf fe \<in> set (keys (fs_place \<sigma>)) \<and> target_vnf fe \<in> set (keys (fs_place \<sigma>))"
  shows "\<exists>x. ffd_route nx g fes \<sigma> = Inr x"
  using assms(2-)
proof (induction fes arbitrary: \<sigma>)
  case (Cons fe fes)
  note P = Cons.prems
  let ?k = "flow_key_of fe"
  have df: "distinct (map flow_key_of fes)" and fresh: "?k \<notin> set (keys (fs_bw \<sigma>))" using P(2,3) by auto
  from P(4) obtain s t where st: "map_of (fs_place \<sigma>) (source_vnf fe) = Some s" "map_of (fs_place \<sigma>) (target_vnf fe) = Some t"
    by (auto simp: key_iff)
  have rest: "\<exists>x. ffd_route nx g fes (ffd_record ?k ls X \<rho>) = Inr x"
    if "ffd_inv g X \<rho>" and k: "fs_bw \<rho> = fs_bw \<sigma>" and pl: "fs_place \<rho> = fs_place \<sigma>" for ls X \<rho>
  proof -
    have f: "?k \<notin> set (keys (fs_bw \<rho>))" using fresh by (simp only: k simp_thms)
    note R = ffd_inv_record[OF that(1) f]
    show ?thesis
      by (rule Cons.IH[OF R(1) df]) (use P(2,3,4) in \<open>auto simp only: R(2,3) k pl set_append list.set list.map distinct.simps\<close>)
  qed
  show ?case
  proof (cases "s = t")
    case True
    then show ?thesis using st rest[OF P(1) refl refl] by simp
  next
    case False
    obtain x where x: "shortest_bw_feasible_path nx g s t (bandwidth_demand fe) \<sigma> = Inr x"
      using shortest_path_total by blast
    show ?thesis
    proof (cases x)
      case None
      then show ?thesis using st x False by simp
    next
      case (Some ls)
      note L = ffd_path_links[OF wf x[unfolded Some]]
      from ffd_take_links[OF wf P(1) _ L(2)] L(1) obtain \<rho> where
        "fold_err (ffd_take_link g (bandwidth_demand fe)) ls (\<sigma>, []) = Inr (\<rho>, [] @ claim_links ls (bandwidth_demand fe))"
        "ffd_inv g ([] @ claim_links ls (bandwidth_demand fe)) \<rho>" "fs_place \<rho> = fs_place \<sigma>" "fs_bw \<rho> = fs_bw \<sigma>" by auto
      then show ?thesis using st x False Some rest by simp
    qed
  qed
qed simp

lemma placed_route_total:
  assumes run: "put_run g A (ffd_order (vnfs req)) ffd_start \<sigma>" and wf: "wf_graph g" and req: "wf_request req"
    and cl: "closed_request req"
  shows "\<exists>x. ffd_route nx g (flow_edges req) \<sigma> = Inr x"
proof -
  note P = put_run_placed[OF run wf req]
  show ?thesis
  proof (rule ffd_route_total[OF wf P(1)])
    show "\<forall>fe \<in> set (flow_edges req). source_vnf fe \<in> set (keys (fs_place \<sigma>)) \<and> target_vnf fe \<in> set (keys (fs_place \<sigma>))"
      unfolding P(2) using cl by (simp add: closed_request_def)
  qed (use req in \<open>simp_all add: wf_request_def P(5)\<close>)
qed

lemma run_greedy_ffd_total:
  assumes wf: "wf_graph g" and req: "wf_request req" "closed_request req"
  shows "\<exists>r. run_greedy_ffd nx g req cfg = Inr r"
proof -
  obtain x where x: "ffd_place g (ffd_order (vnfs req)) ffd_start = Inr x" using ffd_place_total[OF wf] by blast
  show ?thesis
  proof (cases x)
    case None
    then show ?thesis using x by (simp add: run_greedy_ffd_def)
  next
    case (Some \<sigma>)
    from placed_route_total[OF ffd_place_run[OF wf x[unfolded Some]] wf req] obtain y where
      "ffd_route nx g (flow_edges req) \<sigma> = Inr y" by blast
    then show ?thesis using x Some by (cases y) (simp_all add: run_greedy_ffd_def)
  qed
qed

lemma try_single_domain_total:
  assumes wf: "wf_graph g" and req: "wf_request req" "closed_request req" and ns: "set ns \<subseteq> set (keys (g_nodes g))"
  shows "\<exists>x. try_single_domain nx g req cfg ns = Inr x"
proof -
  obtain x where x: "coloc_place g ns (ffd_order (vnfs req)) ffd_start = Inr x"
    using coloc_place_total[OF ns] by blast
  show ?thesis
  proof (cases x)
    case None
    then show ?thesis using x by (simp add: try_single_domain_def)
  next
    case (Some \<sigma>)
    note R = coloc_place_run[OF x[unfolded Some]]
    have a: "all_intra \<sigma> = \<sigma>" by (rule put_run_costs[OF R]) (simp add: all_intra_def ffd_start_def)
    from placed_route_total[OF R wf req] obtain y where "ffd_route nx g (flow_edges req) \<sigma> = Inr y" by blast
    then have "coloc_route nx g (flow_edges req) \<sigma> = Inr (map_option all_intra y)"
      using coloc_route_all_intra[of nx g "flow_edges req" \<sigma>] by (simp add: a)
    then show ?thesis using x Some by (simp add: try_single_domain_def)
  qed
qed

end

text \<open>The ranked domains are the keys of the node table.\<close>

lemma ranked_domains:
  assumes "m \<in> set (fst (domain_cpu_ranking g))"
  shows "\<exists>ns. map_of (snd (domain_cpu_ranking g)) m = Some ns"
proof -
  have "set (keys (fst (fold add_node_to_ranking xs (c, dn)))) = set (keys (snd (fold add_node_to_ranking xs (c, dn))))"
    if "set (keys c) = set (keys dn)" for xs c dn
    using that
  proof (induction xs arbitrary: c dn)
    case (Cons x xs)
    obtain n d where x: "x = (n, d)" by (cases x)
    show ?case
    proof (cases "domain_id d < 0")
      case True
      then show ?thesis using Cons by (simp add: x add_node_to_ranking_def)
    next
      case False
      let ?c = "add_at (domain_id d) (cpu_residual d) c"
      let ?dn = "AList.update (domain_id d) (get_default dn (domain_id d) [] @ [n]) dn"
      have "set (keys ?c) = set (keys ?dn)" unfolding add_at_def keys_update Cons.prems ..
      from Cons.IH[OF this] show ?thesis using False by (simp only: x add_node_to_ranking_def fold.simps comp_def prod.case if_False)
    qed
  qed simp
  from this[of "[]" "[]" "g_nodes g"] have
    "set (fst (domain_cpu_ranking g)) = set (keys (snd (domain_cpu_ranking g)))"
    by (simp add: domain_cpu_ranking_def case_prod_unfold Let_def)
  with assms show ?thesis by (simp add: key_iff)
qed

context path_oracle
begin

lemma try_domains_total:
  assumes wf: "wf_graph g" and req: "wf_request req" "closed_request req"
    and "set ms \<subseteq> set (fst (domain_cpu_ranking g))"
  shows "\<exists>x. try_domains nx g req cfg (snd (domain_cpu_ranking g)) ms = Inr x"
  using assms(4)
proof (induction ms)
  case (Cons m ms)
  from Cons.prems ranked_domains[of m g] obtain ns where ns: "map_of (snd (domain_cpu_ranking g)) m = Some ns" by auto
  have "set (sort ns) \<subseteq> set (keys (g_nodes g))"
    using domain_cpu_ranking_nodes[OF ns] nodes_in_domain_keys[of _ g m] by (simp only: set_sort) blast
  from try_single_domain_total[OF wf req this] obtain x where "try_single_domain nx g req cfg (sort ns) = Inr x" by blast
  then show ?case using Cons ns by (cases x) simp_all
qed simp

lemma colocation_ffd_total:
  assumes "wf_graph g" and "wf_request req" "closed_request req"
  shows "\<exists>r. colocation_ffd nx g req cfg = Inr r"
proof -
  from try_domains_total[OF assms subset_refl] obtain x where
    x: "try_domains nx g req cfg (snd (domain_cpu_ranking g)) (fst (domain_cpu_ranking g)) = Inr x" by blast
  show ?thesis
    using x run_greedy_ffd_total[OF assms] by (cases x) (simp_all add: colocation_ffd_def case_prod_unfold Let_def)
qed

lemma colocation_ffd_feasible:
  assumes wf: "wf_graph g" and req: "wf_request req" and run: "colocation_ffd nx g req cfg = Inr r"
    and ok: "gr_feasible r"
  obtains plan \<sigma> where "gr_plan r = Some plan" and "plan_of_state plan \<sigma>" and "ffd_served g req \<sigma>"
proof -
  from run consider (one) "try_domains nx g req cfg (snd (domain_cpu_ranking g)) (fst (domain_cpu_ranking g)) = Inr (Some r)"
    | (all) "run_greedy_ffd nx g req cfg = Inr r"
    by (auto simp: colocation_ffd_def case_prod_unfold Let_def split: sum.splits option.splits)
  then show thesis
  proof cases
    case one
    from try_domains_sound[OF wf req one] obtain \<sigma> where "r = coloc_result req cfg \<sigma>" "ffd_served g req \<sigma>" by blast
    then show thesis
      by (intro that[of "coloc_plan req \<sigma>" \<sigma>]) (simp_all add: coloc_result_def coloc_plan_def plan_of_state_def)
  next
    case all
    from run_greedy_ffd_feasible[OF wf req all ok] obtain \<sigma> where
      "r = ffd_result req cfg \<sigma>" "ffd_served g req \<sigma>" by blast
    then show thesis by (intro that[of "ffd_plan req \<sigma>" \<sigma>]) (simp_all add: ffd_result_def)
  qed
qed

end

section \<open>What a baseline's plan promises\<close>

lemma served_plan_serves:
  assumes req: "wf_request req" and sv: "ffd_served g req \<sigma>" and pl: "plan_of_state plan \<sigma>"
  shows "plan_serves g req plan"
proof -
  obtain lss where lss: "routed g (flow_edges req) lss" "fs_routes \<sigma> = zip (map flow_key_of (flow_edges req)) lss"
    and keys: "set (keys (fs_place \<sigma>)) = vnf_id ` set (vnfs req)"
    and cpu: "\<forall>v \<in> set (vnfs req). map_of (fs_cpu \<sigma>) (vnf_id v) = Some (cpu_demand v)"
    using sv unfolding ffd_served_def by blast
  have len: "length lss = length (flow_edges req)" using lss(1) by (simp add: routed_def)
  have k: "keys (fs_routes \<sigma>) = map flow_key_of (flow_edges req)" using len by (simp add: lss(2))
  have 1: "\<exists>f \<in> set (vnfs req). vnf_id f = v \<and> map_of (fs_cpu \<sigma>) v = Some (cpu_demand f)"
    if "(v, n) \<in> set (fs_place \<sigma>)" for v n
  proof -
    have "v \<in> vnf_id ` set (vnfs req)" unfolding keys[symmetric] using that by force
    then show ?thesis using cpu by blast
  qed
  have 2: "set ls \<subseteq> set (link_ids (g_edges g))" if "(fk, ls) \<in> set (fs_routes \<sigma>)" for fk ls
    using that lss(1) unfolding lss(2) routed_def by (blast dest: set_zip_rightD)
  show ?thesis
    using pl 1 2 req unfolding plan_serves_def plan_of_state_def wf_request_def k[symmetric]
    by (auto simp only: k set_map) blast+
qed

lemma served_throughput:
  assumes req: "wf_request req" and sv: "ffd_served g req \<sigma>" and pl: "plan_of_state plan \<sigma>"
  shows "\<not> snd (check_c5b req plan)"
proof (rule check_c5b_met, intro ballI)
  fix fe p assume fe: "fe \<in> set (flow_edges req)"
    and p: "p \<in> set (get_default (bw_allocations plan) (flow_key_of fe) [])"
  obtain lss where lss: "fs_bw \<sigma> = flow_claims (flow_edges req) lss"
    using sv unfolding ffd_served_def by blast
  from get_default_mem[OF p] obtain xs where xs: "(flow_key_of fe, xs) \<in> set (fs_bw \<sigma>)" "p \<in> set xs"
    using pl by (auto simp: plan_of_state_def)
  then obtain fe' ls where fe': "fe' \<in> set (flow_edges req)" "flow_key_of fe' = flow_key_of fe"
    "xs = claim_links ls (bandwidth_demand fe')"
    unfolding lss by (auto dest: set_zip_leftD)
  have "fe' = fe"
    using fe fe' req inj_onD[of flow_key_of "set (flow_edges req)" fe' fe] by (simp add: wf_request_def distinct_map)
  then show "case p of (l, bw) \<Rightarrow> bw = bandwidth_demand fe" using xs(2) fe'(3) by auto
qed

lemma served_nonneg:
  assumes nn: "nonneg_request req" and sv: "ffd_served g req \<sigma>" and pl: "plan_of_state plan \<sigma>"
  shows "nonneg_plan plan"
proof -
  obtain lss where lss: "fs_bw \<sigma> = flow_claims (flow_edges req) lss"
    using sv unfolding ffd_served_def by blast
  have keys: "set (keys (fs_place \<sigma>)) = vnf_id ` set (vnfs req)"
    and dem: "\<forall>v \<in> set (vnfs req). map_of (fs_cpu \<sigma>) (vnf_id v) = Some (cpu_demand v)
          \<and> map_of (fs_ram \<sigma>) (vnf_id v) = Some (ram_demand v)"
    using sv unfolding ffd_served_def by blast+
  have 1: "0 \<le> get_default (fs_cpu \<sigma>) v 0 \<and> 0 \<le> get_default (fs_ram \<sigma>) v 0" if "(v, n) \<in> set (fs_place \<sigma>)" for v n
  proof -
    have "v \<in> vnf_id ` set (vnfs req)" unfolding keys[symmetric] using that by force
    then show ?thesis using dem nn by (auto simp: get_default_def nonneg_request_def)
  qed
  have 2: "0 \<le> x" if "(fk, xs) \<in> set (fs_bw \<sigma>)" "(l, x) \<in> set xs" for fk xs l x
    using that nn unfolding lss nonneg_request_def by (auto dest: set_zip_leftD)
  show ?thesis
    using pl 1 2 by (auto simp: nonneg_plan_def node_claims_def link_claims_def plan_of_state_def)
qed

end
