(* ===== verification/Routability_Colocation.thy ===== *)
theory Routability_Colocation
  imports Colocation
begin

text \<open>
  The third co-location baseline (\<open>routability_aware_colocation_ffd\<close> of
  \<open>src/src/orion/baselines/colocation_ffd.py\<close>): one domain if possible; otherwise every VNF on a node of its
  tier, domains in use first, then the ones best connected to them; flows inside a domain are booked on
  the running residuals, flows between domains are tried on a copy of the substrate.

  Theorems: the nodes of a feasible plan are never over-booked; its links can be, because the copy knows
  nothing of the running residuals.
\<close>

section \<open>The fallback across domains\<close>

text \<open>\<open>inter_bw_residual\<close>: the residual bandwidth between two domains, both directions together.\<close>

definition add_pair_bw :: "'a graph_scheme \<Rightarrow> (node_id \<times> node_id) \<times> edge_data \<Rightarrow> (int \<times> int, real) dict \<Rightarrow> (int \<times> int, real) dict" where
  "add_pair_bw g = (\<lambda>((u, v), d) acc.
     let m = domain_of g u; k = domain_of g v in
     if m \<noteq> k \<and> 0 \<le> m \<and> 0 \<le> k then add_at (min m k, max m k) (bw_residual d) acc else acc)"

definition inter_bw_residual :: "'a graph_scheme \<Rightarrow> (int \<times> int, real) dict" where
  "inter_bw_residual g = fold (add_pair_bw g) (g_edges g) []"

definition bw_to_placed :: "(int \<times> int, real) dict \<Rightarrow> int list \<Rightarrow> int \<Rightarrow> real" where
  "bw_to_placed bw placed m =
     (if m \<in> set placed then 0 else sum_list (map (\<lambda>p. get_default bw (min m p, max m p) 0) placed))"

definition bw_aware_candidate :: "'a graph_scheme \<Rightarrow> vnf \<Rightarrow> ffd_state \<Rightarrow> int list \<Rightarrow> (int \<times> int, real) dict \<Rightarrow> int \<times> node_id
    \<Rightarrow> (int \<times> real \<times> real \<times> node_id) option" where
  "bw_aware_candidate g v \<sigma> placed bw = (\<lambda>(m, n).
     case map_of (g_nodes g) n of
       None \<Rightarrow> None
     | Some d \<Rightarrow>
         if permitted_nodes v \<noteq> [] \<and> n \<notin> set (permitted_nodes v) then None
         else if required_tier g v \<notin> {None, Some (node_tier d)} then None
         else if cpu_after \<sigma> n d < cpu_demand v \<or> ram_after \<sigma> n d < ram_demand v then None
         else Some (- (if m \<in> set placed then 1 else 0), - bw_to_placed bw placed m, cpu_after \<sigma> n d - cpu_demand v, n))"

definition select_node_bw_aware :: "'a graph_scheme \<Rightarrow> vnf \<Rightarrow> ffd_state \<Rightarrow> (int, node_id list) dict \<Rightarrow> int list
    \<Rightarrow> (int \<times> int, real) dict \<Rightarrow> node_id option" where
  "select_node_bw_aware g v \<sigma> nodes placed bw =
     map_option (\<lambda>(a, b, c, n). n)
       (least (List.map_filter (bw_aware_candidate g v \<sigma> placed bw) (concat (map (\<lambda>(m, ns). map (Pair m) ns) nodes))))"

text \<open>The set of domains in use is kept without repetition, in order of first use.\<close>

fun bw_place :: "'a graph_scheme \<Rightarrow> (int, node_id list) dict \<Rightarrow> (int \<times> int, real) dict \<Rightarrow> vnf list \<Rightarrow> int list \<Rightarrow> ffd_state
    \<Rightarrow> py_error + ffd_state option" where
  "bw_place g nodes bw [] placed \<sigma> = Inr (Some \<sigma>)"
| "bw_place g nodes bw (v # vs) placed \<sigma> =
     (case select_node_bw_aware g v \<sigma> nodes placed bw of
        None \<Rightarrow> Inr None
      | Some n \<Rightarrow>
     (case map_of (g_nodes g) n of
        None \<Rightarrow> Inl KeyError
      | Some d \<Rightarrow> bw_place g nodes bw vs (if domain_id d \<in> set placed then placed else placed @ [domain_id d]) (ffd_put v n d \<sigma>)))"

text \<open>Flows inside a domain; a flow between domains is left for the copy.\<close>

fun intra_route :: "nx_lib \<Rightarrow> 'a graph_scheme \<Rightarrow> flow_edge list \<Rightarrow> ffd_state \<Rightarrow> py_error + ffd_state option" where
  "intra_route nx g [] \<sigma> = Inr (Some \<sigma>)"
| "intra_route nx g (fe # fes) \<sigma> =
     (case (map_of (fs_place \<sigma>) (source_vnf fe), map_of (fs_place \<sigma>) (target_vnf fe)) of
        (Some s, Some t) \<Rightarrow>
          if s = t then intra_route nx g fes (ffd_record (flow_key_of fe) [] [] \<sigma>)
          else if domain_of g s \<noteq> domain_of g t then intra_route nx g fes \<sigma>
          else (case shortest_bw_feasible_path nx g s t (bandwidth_demand fe) \<sigma> of
                  Inl e \<Rightarrow> Inl e
                | Inr None \<Rightarrow> Inr None
                | Inr (Some ls) \<Rightarrow>
                    (case fold_err (coloc_take_link g (bandwidth_demand fe)) ls (\<sigma>, []) of
                       Inl e \<Rightarrow> Inl e
                     | Inr (\<sigma>', per) \<Rightarrow> intra_route nx g fes (ffd_record (flow_key_of fe) ls per \<sigma>')))
      | _ \<Rightarrow> Inl KeyError)"

definition wide_budget :: real where
  "wide_budget = 999999"

text \<open>\<open>h\<close> is the copy; \<open>None\<close>: some flow has no route. The copy is dropped in every case, so its rollback is too.\<close>

fun cross_route :: "nx_lib \<Rightarrow> 'a graph_scheme \<Rightarrow> flow_edge list \<Rightarrow> ffd_state \<Rightarrow> 'a graph_scheme
    \<Rightarrow> (flow_key, link_id list \<times> real) dict \<Rightarrow> real \<Rightarrow> py_error + ((flow_key, link_id list \<times> real) dict \<times> real) option" where
  "cross_route nx g [] \<sigma> h routes cost = Inr (Some (routes, cost))"
| "cross_route nx g (fe # fes) \<sigma> h routes cost =
     (case (map_of (fs_place \<sigma>) (source_vnf fe), map_of (fs_place \<sigma>) (target_vnf fe)) of
        (Some s, Some t) \<Rightarrow>
          if s = t \<or> domain_of g s = domain_of g t then cross_route nx g fes \<sigma> h routes cost
          else (case route_cross_domain_flow nx h s t (bandwidth_demand fe) wide_budget 3 MinCost of
                  Inl e \<Rightarrow> Inl e
                | Inr r \<Rightarrow>
                    if \<not> rr_feasible r then Inr None
                    else cross_route nx g fes \<sigma> (allocate_route_bw (rr_links r) (bandwidth_demand fe) h)
                           (AList.update (flow_key_of fe) (rr_links r, bandwidth_demand fe) routes)
                           (cost + bandwidth_demand fe * real (length (rr_links r))))
      | _ \<Rightarrow> Inl KeyError)"

definition commit_cross :: "(flow_key, link_id list \<times> real) dict \<Rightarrow> real \<Rightarrow> ffd_state \<Rightarrow> ffd_state" where
  "commit_cross routes cost \<sigma> =
     (fold (\<lambda>(fk, ls, bw). ffd_record fk ls (map (\<lambda>l. (l, bw)) (remdups ls))) routes \<sigma>)\<lparr>fs_inter_cost := fs_inter_cost \<sigma> + cost\<rparr>"

definition ra_plan :: "slice_request \<Rightarrow> ffd_state \<Rightarrow> placement_plan" where
  "ra_plan req \<sigma> = \<lparr>plan_id = request_id req @ ''_ra_coloc'', vnf_placements = fs_place \<sigma>,
     cpu_allocations = fs_cpu \<sigma>, ram_allocations = fs_ram \<sigma>, flow_routes = fs_routes \<sigma>,
     bw_allocations = fs_bw \<sigma>, structurally_valid = True, plan_source = ''routability_aware_colocation''\<rparr>"

definition ra_result :: "slice_request \<Rightarrow> greedy_config \<Rightarrow> ffd_state \<Rightarrow> greedy_result" where
  "ra_result req cfg \<sigma> = \<lparr>gr_feasible = True,
     gr_cost = Fin (gc_alpha cfg * fs_resource_cost \<sigma> + gc_gamma_intra cfg * fs_intra_cost \<sigma> + gc_gamma_inter cfg * fs_inter_cost \<sigma>),
     gr_plan = Some (ra_plan req \<sigma>), gr_intra_bw = fs_intra_cost \<sigma>, gr_inter_bw = fs_inter_cost \<sigma>,
     gr_resource_cost = fs_resource_cost \<sigma>, gr_fail_reason = []\<rparr>"

definition across_domains :: "nx_lib \<Rightarrow> 'a graph_scheme \<Rightarrow> slice_request \<Rightarrow> greedy_config \<Rightarrow> (int, node_id list) dict
    \<Rightarrow> py_error + greedy_result" where
  "across_domains nx g req cfg nodes =
     (case bw_place g nodes (inter_bw_residual g) (ffd_order (vnfs req)) [] ffd_start of
        Inl e \<Rightarrow> Inl e
      | Inr None \<Rightarrow> Inr (ffd_failed ''no feasible node'')
      | Inr (Some \<sigma>) \<Rightarrow>
     (case intra_route nx g (flow_edges req) \<sigma> of
        Inl e \<Rightarrow> Inl e
      | Inr None \<Rightarrow> Inr (ffd_failed ''no intra-domain BW path'')
      | Inr (Some \<tau>) \<Rightarrow>
     (case cross_route nx g (flow_edges req) \<tau> g [] 0 of
        Inl e \<Rightarrow> Inl e
      | Inr None \<Rightarrow> run_greedy_ffd nx g req cfg
      | Inr (Some (routes, cost)) \<Rightarrow> Inr (ra_result req cfg (commit_cross routes cost \<tau>)))))"

definition routability_aware_colocation_ffd :: "nx_lib \<Rightarrow> 'a graph_scheme \<Rightarrow> slice_request \<Rightarrow> greedy_config
    \<Rightarrow> py_error + greedy_result" where
  "routability_aware_colocation_ffd nx g req cfg =
     (let (ranked, nodes) = domain_cpu_ranking g in
      case try_domains nx g req cfg nodes ranked of
        Inl e \<Rightarrow> Inl e
      | Inr (Some r) \<Rightarrow> Inr r
      | Inr None \<Rightarrow> across_domains nx g req cfg nodes)"

section \<open>Links can be over-booked\<close>

text \<open>A chain on three nodes: one flow inside domain 0, one that crosses over the same link.\<close>

definition ex_split :: slice_request where
  "ex_split = ex_req\<lparr>vnfs := [(ex_vnf ''u'')\<lparr>permitted_nodes := [''a'']\<rparr>, (ex_vnf ''v'')\<lparr>permitted_nodes := [''b'']\<rparr>,
       (ex_vnf ''w'')\<lparr>permitted_nodes := [''c'']\<rparr>],
     flow_edges := [\<lparr>source_vnf = ''u'', target_vnf = ''v'', bandwidth_demand = 6\<rparr>,
       \<lparr>source_vnf = ''u'', target_vnf = ''w'', bandwidth_demand = 6\<rparr>]\<rparr>"

text \<open>
  C40: the routability check is blind to the plan's own flows. On a substrate with nothing booked, the
  baseline reports a plan feasible that books 12 units on a link of 10: the flow inside the domain is
  taken from the running residuals, the flow between domains from a copy that still has all of it.
\<close>

theorem routability_check_overbooks:
  "\<exists>r plan T. routability_aware_colocation_ffd dfs_nx ex_sub ex_split default_greedy_config = Inr r \<and> gr_feasible r
     \<and> gr_plan r = Some plan \<and> no_overbooking ex_sub \<and> allocate ex_sub plan ex_split = Inr T
     \<and> get_residual_bw T ''ab'' = Inr (- 2) \<and> \<not> no_overbooking T"
proof -
  have run: "case routability_aware_colocation_ffd dfs_nx ex_sub ex_split default_greedy_config of
      Inl e \<Rightarrow> False
    | Inr r \<Rightarrow> (case gr_plan r of None \<Rightarrow> False | Some plan \<Rightarrow>
        gr_feasible r \<and> (case allocate ex_sub plan ex_split of Inl e \<Rightarrow> False
          | Inr T \<Rightarrow> get_residual_bw T ''ab'' = Inr (- 2) \<and> \<not> no_overbooking T))"
    by code_simp
  then obtain r plan where r: "routability_aware_colocation_ffd dfs_nx ex_sub ex_split default_greedy_config = Inr r" "gr_plan r = Some plan"
    by (auto split: sum.splits option.splits)
  moreover obtain T where "allocate ex_sub plan ex_split = Inr T"
    using run r by (cases "allocate ex_sub plan ex_split") auto
  moreover have "no_overbooking ex_sub" by code_simp
  ultimately show ?thesis using run by auto
qed

section \<open>Nodes cannot\<close>

lemma bw_aware_sound:
  assumes "select_node_bw_aware g v \<sigma> nodes placed bw = Some n"
  obtains d where "map_of (g_nodes g) n = Some d" and "permitted_nodes v = [] \<or> n \<in> set (permitted_nodes v)"
    and "cpu_demand v \<le> cpu_after \<sigma> n d" and "ram_demand v \<le> ram_after \<sigma> n d"
proof -
  obtain a b c where "least (List.map_filter (bw_aware_candidate g v \<sigma> placed bw)
      (concat (map (\<lambda>(m, ns). map (Pair m) ns) nodes))) = Some (a, b, c, n)"
    using assms by (auto simp: select_node_bw_aware_def)
  from least_in[OF this] obtain m k where "bw_aware_candidate g v \<sigma> placed bw (m, k) = Some (a, b, c, n)"
    by (force simp: set_map_filter)
  then show thesis using that
    by (auto simp: bw_aware_candidate_def not_less split: option.splits if_splits)
qed

lemma bw_place_run: "bw_place g nodes bw vs placed \<sigma> = Inr (Some \<tau>) \<Longrightarrow> put_run g UNIV vs \<sigma> \<tau>"
proof (induction vs arbitrary: placed \<sigma>)
  case Nil
  then show ?case by (simp add: put_none)
next
  case (Cons v vs)
  then obtain n where n: "select_node_bw_aware g v \<sigma> nodes placed bw = Some n" by (auto split: option.splits)
  obtain d where d: "map_of (g_nodes g) n = Some d" and fit: "permitted_nodes v = [] \<or> n \<in> set (permitted_nodes v)"
    "cpu_demand v \<le> cpu_after \<sigma> n d" "ram_demand v \<le> ram_after \<sigma> n d" by (rule bw_aware_sound[OF n])
  have "put_run g UNIV vs (ffd_put v n d \<sigma>) \<tau>" using Cons n d by simp
  then show ?case by (rule put_one[OF map_of_SomeD[OF d] UNIV_I fit])
qed

text \<open>Routing touches neither placements nor node claims.\<close>

definition same_nodes :: "ffd_state \<Rightarrow> ffd_state \<Rightarrow> bool" where
  "same_nodes \<sigma> \<tau> \<longleftrightarrow> fs_place \<tau> = fs_place \<sigma> \<and> fs_cpu \<tau> = fs_cpu \<sigma> \<and> fs_ram \<tau> = fs_ram \<sigma>"

lemma same_nodes_trans: "same_nodes \<sigma> \<tau> \<Longrightarrow> same_nodes \<tau> \<rho> \<Longrightarrow> same_nodes \<sigma> \<rho>"
  by (simp add: same_nodes_def)

lemma same_nodes_record: "same_nodes \<sigma> (ffd_record fk ls per \<sigma>)"
  by (simp add: same_nodes_def ffd_record_def)

lemma take_links_same: "fold_err (coloc_take_link g bw) ls (\<sigma>, per) = Inr (\<tau>, per') \<Longrightarrow> same_nodes \<sigma> \<tau>"
proof (induction ls arbitrary: \<sigma> per)
  case (Cons l ls)
  obtain \<rho> q where s: "coloc_take_link g bw l (\<sigma>, per) = Inr (\<rho>, q)" "fold_err (coloc_take_link g bw) ls (\<rho>, q) = Inr (\<tau>, per')"
    using Cons.prems by (auto split: sum.splits)
  have "same_nodes \<sigma> \<rho>" using s(1) by (auto simp: coloc_take_link_def same_nodes_def split: sum.splits option.splits)
  then show ?case using Cons.IH[OF s(2)] same_nodes_trans by blast
qed (simp add: same_nodes_def)

lemma intra_route_same: "intra_route nx g fes \<sigma> = Inr (Some \<tau>) \<Longrightarrow> same_nodes \<sigma> \<tau>"
proof (induction fes arbitrary: \<sigma>)
  case (Cons fe fes)
  show ?case
    using Cons.prems
    by (auto split: option.splits if_splits sum.splits
        dest!: Cons.IH intro: same_nodes_trans[OF same_nodes_record] same_nodes_trans[OF take_links_same] same_nodes_trans)
qed (simp add: same_nodes_def)

lemma commit_cross_same: "same_nodes \<sigma> (commit_cross routes cost \<sigma>)"
proof -
  have "same_nodes \<sigma> (fold (\<lambda>(fk, ls, bw). ffd_record fk ls (map (\<lambda>l. (l, bw)) (remdups ls))) routes \<sigma>)"
  proof (induction routes arbitrary: \<sigma>)
    case (Cons r routes)
    obtain fk ls bw where r: "r = (fk, ls, bw)" by (metis prod.exhaust)
    show ?case using same_nodes_trans[OF same_nodes_record Cons.IH] by (simp add: r)
  qed (simp add: same_nodes_def)
  then show ?thesis by (simp add: commit_cross_def same_nodes_def)
qed

lemma nodes_of_charge: "g_nodes (charge ns ls g) = g_nodes (charge ns [] g)"
  by (simp add: nodes_charge)

definition nodes_fit :: "'a graph_scheme \<Rightarrow> placement_plan \<Rightarrow> bool" where
  "nodes_fit g plan \<longleftrightarrow> (\<forall>(n, d) \<in> set (g_nodes (charge (node_claims plan) [] g)). 0 \<le> cpu_residual d \<and> 0 \<le> ram_residual d)"

lemma served_nodes_fit:
  assumes "no_overbooking g" and "ffd_inv g [] \<sigma>" and "same_nodes \<sigma> \<tau>" and "plan_of_state plan \<tau>"
  shows "nodes_fit g plan"
proof -
  have "node_claims plan = ffd_nodes \<sigma>"
    using assms(3,4) by (simp add: node_claims_def plan_of_state_def same_nodes_def)
  moreover have "no_overbooking (charge (ffd_nodes \<sigma>) (ffd_links \<sigma> @ []) g)" using ffd_invD(7)[OF assms(2)] assms(1) by blast
  ultimately show ?thesis
    using nodes_of_charge[of "ffd_nodes \<sigma>" "ffd_links \<sigma> @ []" g] by (auto simp: nodes_fit_def no_overbooking_def)
qed

text \<open>
  The nodes of a feasible plan are safe: whichever phase produced it, every VNF is on a node that permits
  it, and the plan takes no more of any node than it has.
\<close>

theorem routability_nodes_safe:
  assumes nx: "path_oracle nx" and wf: "wf_graph g" and req: "wf_request req" and ok: "no_overbooking g"
    and run: "routability_aware_colocation_ffd nx g req cfg = Inr r" and feas: "gr_feasible r"
  shows "\<exists>plan. gr_plan r = Some plan \<and> permits req plan \<and> nodes_fit g plan"
proof -
  have served: ?thesis if "gr_plan r = Some plan" "plan_of_state plan \<sigma>" "ffd_served g req \<sigma>" for plan \<sigma>
    using that served_nodes_fit[OF ok, of \<sigma> \<sigma> plan]
    by (auto simp: ffd_served_def permits_def plan_of_state_def same_nodes_def)
  from run consider (one) "try_domains nx g req cfg (snd (domain_cpu_ranking g)) (fst (domain_cpu_ranking g)) = Inr (Some r)"
    | (many) "across_domains nx g req cfg (snd (domain_cpu_ranking g)) = Inr r"
    by (auto simp: routability_aware_colocation_ffd_def case_prod_unfold Let_def split: sum.splits option.splits)
  then show ?thesis
  proof cases
    case one
    from path_oracle.try_domains_sound[OF nx wf req one] obtain \<sigma> where "r = coloc_result req cfg \<sigma>" "ffd_served g req \<sigma>" by blast
    then show ?thesis by (intro served[of "coloc_plan req \<sigma>" \<sigma>]) (simp_all add: coloc_result_def coloc_plan_def plan_of_state_def)
  next
    case many
    show ?thesis
    proof (cases "run_greedy_ffd nx g req cfg = Inr r")
      case True
      from path_oracle.run_greedy_ffd_feasible[OF nx wf req True feas] obtain \<sigma> where
        "r = ffd_result req cfg \<sigma>" "ffd_served g req \<sigma>" by blast
      then show ?thesis by (intro served[of "ffd_plan req \<sigma>" \<sigma>]) (simp_all add: ffd_result_def)
    next
      case False
      then obtain \<sigma> \<tau> routes cost where p: "bw_place g (snd (domain_cpu_ranking g)) (inter_bw_residual g) (ffd_order (vnfs req)) [] ffd_start = Inr (Some \<sigma>)"
        and i: "intra_route nx g (flow_edges req) \<sigma> = Inr (Some \<tau>)" and r: "r = ra_result req cfg (commit_cross routes cost \<tau>)"
        using many feas by (auto simp: across_domains_def ffd_failed_def split: sum.splits option.splits)
      let ?\<rho> = "commit_cross routes cost \<tau>"
      note P = put_run_placed[OF bw_place_run[OF p] wf req]
      have same: "same_nodes \<sigma> ?\<rho>" using same_nodes_trans[OF intra_route_same[OF i] commit_cross_same] .
      have plan: "gr_plan r = Some (ra_plan req ?\<rho>)" "plan_of_state (ra_plan req ?\<rho>) ?\<rho>"
        by (simp_all add: r ra_result_def ra_plan_def plan_of_state_def)
      have "permits req (ra_plan req ?\<rho>)"
        using P(2,3) same by (simp add: permits_def ra_plan_def same_nodes_def)
      then show ?thesis using plan(1) served_nodes_fit[OF ok P(1) same plan(2)] by blast
    qed
  qed
qed

theorem routability_nodes_safe_witness:
  "\<exists>r plan. routability_aware_colocation_ffd dfs_nx ex_sub ex_split default_greedy_config = Inr r
     \<and> gr_plan r = Some plan \<and> permits ex_split plan \<and> nodes_fit ex_sub plan"
proof -
  have "case routability_aware_colocation_ffd dfs_nx ex_sub ex_split default_greedy_config of Inl e \<Rightarrow> False | Inr r \<Rightarrow> gr_feasible r"
    by code_simp
  then obtain r where r: "routability_aware_colocation_ffd dfs_nx ex_sub ex_split default_greedy_config = Inr r" "gr_feasible r"
    by (auto split: sum.splits)
  have "wf_graph ex_sub" "wf_request ex_split" "no_overbooking ex_sub" by code_simp+
  from routability_nodes_safe[OF dfs_oracle.path_oracle_axioms this r] r(1) show ?thesis by blast
qed

end
