(* ===== verification/Episode_Proofs.thy ===== *)
theory Episode_Proofs
  imports Episode Arrival
begin

text \<open>
  What holds at every moment of an episode: the substrate's registry is the runner's, nothing is
  over-booked, the residuals account for exactly the registered slices, and the counters add up.
\<close>

section \<open>The loop as a fold over the stream\<close>

lemma fold_events_stream:
  "fold_err (handle_event nx mode rnd) es (rn\<lparr>rn_process := p\<rparr>, ep)
   = map_sum id (\<lambda>(rn', ep'). (rn'\<lparr>rn_process := p\<rparr>, ep')) (fold_err (handle_event nx mode rnd) es (rn, ep))"
proof (induction es arbitrary: rn ep)
  case (Cons e es)
  show ?case
  proof (cases "handle_event nx mode rnd e (rn, ep)")
    case (Inl err)
    then show ?thesis by (simp add: handle_event_stream)
  next
    case (Inr z)
    then show ?thesis using Cons.IH by (cases z) (simp add: handle_event_stream)
  qed
qed simp

lemma run_loop_fold:
  "run_loop nx mode rnd (rn, ep) =
   map_sum id (\<lambda>(rn', ep'). (rn'\<lparr>rn_process := (rn_process rn)\<lparr>ap_idx := max (ap_idx (rn_process rn)) (length (ap_events (rn_process rn)))\<rparr>\<rparr>, ep'))
     (fold_err (handle_event nx mode rnd) (drop (ap_idx (rn_process rn)) (ap_events (rn_process rn))) (rn, ep))"
proof (induction "length (ap_events (rn_process rn)) - ap_idx (rn_process rn)" arbitrary: rn ep)
  case 0
  then have "\<not> has_next (rn_process rn)" by (simp add: has_next_def)
  with 0 show ?case by (simp add: run_loop.simps max_def)
next
  case (Suc k)
  let ?P = "rn_process rn" and ?Q = "(rn_process rn)\<lparr>ap_idx := ap_idx (rn_process rn) + 1\<rparr>"
  have h: "has_next ?P" and lt: "ap_idx ?P < length (ap_events ?P)" using Suc(2) by (auto simp: has_next_def)
  let ?e = "ap_events ?P ! ap_idx ?P"
  have d: "drop (ap_idx ?P) (ap_events ?P) = ?e # drop (Suc (ap_idx ?P)) (ap_events ?P)"
    by (rule Cons_nth_drop_Suc[OF lt, symmetric])
  show ?case
  proof (cases "handle_event nx mode rnd ?e (rn, ep)")
    case (Inl err)
    then show ?thesis
      using h by (simp add: run_loop.simps next_event_Inr[OF h] handle_event_stream d)
  next
    case (Inr z)
    obtain rn1 ep1 where z: "z = (rn1, ep1)" by (cases z)
    have "run_loop nx mode rnd (rn, ep) = run_loop nx mode rnd (rn1\<lparr>rn_process := ?Q\<rparr>, ep1)"
      using h Inr by (simp add: run_loop.simps[of nx mode rnd rn ep] next_event_Inr[OF h] handle_event_stream z)
    also have "\<dots> = map_sum id (\<lambda>(rn', ep'). (rn'\<lparr>rn_process := ?P\<lparr>ap_idx := length (ap_events ?P)\<rparr>\<rparr>, ep'))
       (fold_err (handle_event nx mode rnd) (drop (Suc (ap_idx ?P)) (ap_events ?P)) (rn1\<lparr>rn_process := ?Q\<rparr>, ep1))"
      using Suc(1)[of "rn1\<lparr>rn_process := ?Q\<rparr>" ep1] Suc(2) lt by (simp add: max_def)
    finally show ?thesis
      unfolding fold_events_stream using Inr lt
      by (auto simp: d z max_def map_sum_def split: sum.splits prod.splits)
  qed
qed


section \<open>The invariant\<close>

definition stats_ok :: "episode \<Rightarrow> nat \<Rightarrow> bool" where
  "stats_ok ep active \<longleftrightarrow>
     (let st = ep_stats ep in
      es_total st = es_admitted st + es_rejected st + es_structural st
      \<and> es_admitted st = es_departures st + active
      \<and> es_penalties st \<le> es_rejected st \<and> es_plan_failures st = 0
      \<and> sum_list (vals (es_type_total st)) = es_total st
      \<and> sum_list (vals (es_type_admitted st)) = es_admitted st
      \<and> length (ep_results ep) = es_admitted st + es_rejected st
      \<and> length (ep_trace ep) = es_admitted st + es_rejected st
      \<and> num_mdo_transitions (ep_rollout ep) = es_admitted st + es_rejected st
      \<and> es_admitted st = length (filter mr_admitted (ep_results ep)))"

definition registry_ok :: "runner \<Rightarrow> bool" where
  "registry_ok rn \<longleftrightarrow>
     rn_plans rn = map (\<lambda>(rid, plan, req). (rid, plan)) (active_slices (rn_sub rn))
     \<and> rn_requests rn = map (\<lambda>(rid, plan, req). (rid, req)) (active_slices (rn_sub rn))"

text \<open>A registered plan: non-negative claims on nodes that exist.\<close>

definition sound_plan :: "substrate \<Rightarrow> placement_plan \<Rightarrow> bool" where
  "sound_plan R plan \<longleftrightarrow> nonneg_plan plan \<and> plan_resolves plan R"

lemma plan_resolves_reset: "plan_resolves plan (reset_substrate S) \<longleftrightarrow> plan_resolves plan S"
proof -
  have "keys (g_nodes (reset_substrate S)) = keys (g_nodes S)"
    by (simp add: reset_substrate_def comp_def case_prod_unfold)
  then show ?thesis unfolding plan_resolves_def by (simp only:)
qed

lemma sound_allocated:
  "allocate S plan req = Inr T \<Longrightarrow> nonneg_plan plan \<Longrightarrow> sound_plan (reset_substrate S) plan"
  by (simp add: sound_plan_def plan_resolves_reset allocate_Inr_iff)

text \<open>\<open>R\<close>: the unloaded substrate; \<open>seen\<close>: the ids that have arrived.\<close>

definition runner_ok :: "substrate \<Rightarrow> coordinator \<Rightarrow> string set \<Rightarrow> runner \<times> episode \<Rightarrow> bool" where
  "runner_ok R co seen = (\<lambda>(rn, ep).
     reset_substrate (rn_sub rn) = R \<and> accounted (rn_sub rn) \<and> no_overbooking (rn_sub rn)
     \<and> registry_ok rn \<and> set (keys (active_slices (rn_sub rn))) \<subseteq> seen
     \<and> rn_coordinator rn = co \<and> rn_max_hops rn = max_inter_domain_hops (co_config co)
     \<and> stats_ok ep (length (active_slices (rn_sub rn)))
     \<and> (\<forall>(rid, plan, req) \<in> set (active_slices (rn_sub rn)). sound_plan R plan))"

lemma runner_okD:
  assumes "runner_ok R co seen (rn, ep)"
  shows "reset_substrate (rn_sub rn) = R" and "accounted (rn_sub rn)" and "no_overbooking (rn_sub rn)"
    and "registry_ok rn" and "set (keys (active_slices (rn_sub rn))) \<subseteq> seen"
    and "rn_coordinator rn = co" and "rn_max_hops rn = max_inter_domain_hops (co_config co)"
    and "stats_ok ep (length (active_slices (rn_sub rn)))"
    and "\<forall>(rid, plan, req) \<in> set (active_slices (rn_sub rn)). sound_plan R plan"
  using assms unfolding runner_ok_def prod.case by blast+

lemma wf_from_reset: "reset_substrate S = R \<Longrightarrow> wf_graph R \<Longrightarrow> wf_graph S"
  using wf_reset by blast

lemma typed_reset: "typed_links (reset_substrate S) \<longleftrightarrow> typed_links S"
proof -
  have "domain_of (reset_substrate S) n = domain_of S n" for n
    by (auto simp: domain_of_def reset_substrate_def map_of_map_keyed split: option.splits)
  then show ?thesis by (auto simp: typed_links_def reset_substrate_def crosses_def)
qed

lemma allocate_parts:
  assumes "allocate S plan req = Inr T"
  shows "reset_substrate T = reset_substrate S"
    and "active_slices T = active_slices S @ [(request_id req, plan, req)]"
    and "request_id req \<notin> set (keys (active_slices S))"
proof -
  from assms have "request_id req \<notin> set (keys (active_slices S))"
    and T: "T = (charge (node_claims plan) (link_claims plan) S)\<lparr>active_slices := active_slices S @ [(request_id req, plan, req)]\<rparr>"
    unfolding allocate_Inr_iff by blast+
  then show "reset_substrate T = reset_substrate S"
    "active_slices T = active_slices S @ [(request_id req, plan, req)]"
    "request_id req \<notin> set (keys (active_slices S))"
    by (simp_all add: reset_active reset_charge)
qed

text \<open>What settling an admitted result does, in a good state.\<close>

lemma settle_spec:
  assumes pool: "actor_pool nx (co_actors co)" and wf: "wf_graph S" and req: "wf_request req"
    and typed: "typed_links S" and safe: "no_overbooking S"
    and fresh: "request_id req \<notin> set (keys (active_slices S))"
    and run: "resolve_arrival nx co rnd S req ps mode greedy ct = Inr (T, r, ct')"
    and hops: "rn_max_hops rn = max_inter_domain_hops (co_config co)" and sub: "rn_sub rn = S"
  shows "(\<exists>r' v st'. settle req r rn st = Inr (r', v, rn, st') \<and> \<not> mr_admitted r' \<and> mr_decision r' = mr_decision r
            \<and> (st' = st \<or> st' = st\<lparr>es_penalties := es_penalties st + 1\<rparr>))
       \<or> (\<exists>plan S' v. settle req r rn st = Inr (r, v,
              rn\<lparr>rn_sub := S', rn_plans := AList.update (request_id req) plan (rn_plans rn),
                 rn_requests := AList.update (request_id req) req (rn_requests rn)\<rparr>, st)
            \<and> mr_admitted r \<and> allocate S plan req = Inr S' \<and> no_overbooking S'
            \<and> (nonneg_request req \<longrightarrow> nonneg_plan plan))"
proof (cases "mr_admitted r")
  case False
  then show ?thesis by (simp add: settle_def)
next
  case True
  have TS: "T = S" by (rule actor_pool.resolve_arrival_restores[OF pool wf req refl run])
  from committed_allocation[OF pool wf req typed safe fresh run True] obtain plan S' v where
    b: "build_placement_plan req r = Inr (Some plan)" and al: "allocate S plan req = Inr S'"
    and ob: "no_overbooking S'" "nonneg_request req \<longrightarrow> nonneg_plan plan"
    and v: "verify_committed_plan S' plan req (max_inter_domain_hops (co_config co)) = Inr v"
    unfolding TS by blast
  have p: "mr_partition r \<noteq> None"
    by (rule admitted_trial[OF pool wf req run True]) simp
  show ?thesis
  proof (cases "hard_penalty_fired v")
    case True
    have "settle req r rn st = Inr (r\<lparr>mr_admitted := False, mr_revoked_by := Some (vd_violated v)\<rparr>, Some v,
        rn\<lparr>rn_sub := S\<rparr>, st\<lparr>es_penalties := es_penalties st + 1\<rparr>)"
      using \<open>mr_admitted r\<close> p True by (simp add: settle_def b sub al hops v deallocate_allocated[OF al])
    moreover have "rn\<lparr>rn_sub := S\<rparr> = rn" using sub by simp
    ultimately show ?thesis by simp
  next
    case False
    have "settle req r rn st = Inr (r, Some v,
              rn\<lparr>rn_sub := S', rn_plans := AList.update (request_id req) plan (rn_plans rn),
                 rn_requests := AList.update (request_id req) req (rn_requests rn)\<rparr>, st)"
      using \<open>mr_admitted r\<close> p False by (simp add: settle_def b sub al hops v)
    then show ?thesis
      using al ob \<open>mr_admitted r\<close>
      by (intro disjI2 exI[of _ plan] exI[of _ S'] exI[of _ "Some v"] conjI)
  qed
qed

text \<open>Bookkeeping of one decided arrival.\<close>

lemma append_actors_mdo:
  fixes ro :: rollout
  shows "ro_mdo (fold (\<lambda>(d, x). append_domain_actor (f d x)) xs ro) = ro_mdo ro"
  by (induction xs arbitrary: ro) (auto simp: append_domain_actor_def)

lemma mdo_transitions_append:
  "num_mdo_transitions (append_rollout req r x ps ro)
   = num_mdo_transitions ro + (if mr_decision r = None then 0 else 1)"
proof (cases "mr_decision r")
  case (Some de)
  then show ?thesis
    unfolding append_rollout_def Some option.case num_mdo_transitions_def append_actors_mdo
    by (simp add: append_mdo_def)
qed (simp add: append_rollout_def)

lemma stats_ok_arrival:
  assumes ok: "stats_ok ep n" and de: "mr_decision r \<noteq> None"
    and st2: "st2 = st1 \<or> (\<not> mr_admitted r \<and> st2 = st1\<lparr>es_penalties := es_penalties st1 + 1\<rparr>)"
    and st1: "st1 = (ep_stats ep)\<lparr>es_total := es_total (ep_stats ep) + 1,
                es_type_total := add_at (stype req) 1 (es_type_total (ep_stats ep))\<rparr>"
  shows "stats_ok \<lparr>ep_stats = update_stats req r x st2, ep_rollout = append_rollout req r y ps (ep_rollout ep),
      ep_results = ep_results ep @ [r], ep_trace = ep_trace ep @ [te]\<rparr> (n + (if mr_admitted r then 1 else 0))"
  using assms
  by (auto simp: stats_ok_def Let_def update_stats_def mdo_transitions_append sum_vals_add_at)


lemma resolve_decision:
  assumes "resolve_arrival nx co rnd S req ps mode greedy ct = Inr (T, r, ct')"
  shows "mr_decision r \<noteq> None"
  using assms
proof (rule resolve_arrival_Inr)
  fix \<delta> bad t
  assume "r = conclude (co_config co) req \<delta> t (judge (co_config co) bad req t) greedy"
  then show ?thesis by (simp add: conclude_def Let_def)
qed

lemma keys_registry:
  "map (\<lambda>(rid, plan, req). (rid, plan)) xs = ys \<Longrightarrow> rid \<notin> set (keys xs) \<Longrightarrow> AList.update rid p ys = ys @ [(rid, p)]"
  "map (\<lambda>(rid, plan, req). (rid, req)) xs = zs \<Longrightarrow> rid \<notin> set (keys xs) \<Longrightarrow> AList.update rid q zs = zs @ [(rid, q)]"
  by (rule update_fresh; force)+

lemma handle_arrival_ok:
  assumes pool: "actor_pool nx (co_actors co)" and ok: "runner_ok R co seen (rn, ep)"
    and wfR: "wf_graph R" and tyR: "typed_links R" and req: "wf_request req" and nn: "nonneg_request req" and fresh: "request_id req \<notin> seen"
    and run: "handle_arrival nx mode rnd req (rn, ep) = Inr (rn', ep')"
  shows "runner_ok R co (insert (request_id req) seen) (rn', ep')"
proof -
  note I = runner_okD[OF ok]
  let ?S = "rn_sub rn" and ?st0 = "ep_stats ep"
  let ?st1 = "?st0\<lparr>es_total := es_total ?st0 + 1, es_type_total := add_at (stype req) 1 (es_type_total ?st0)\<rparr>"
  have wf: "wf_graph ?S" by (rule wf_from_reset[OF I(1) wfR])
  have typed: "typed_links ?S" using tyR I(1) typed_reset by blast
  have new: "request_id req \<notin> set (keys (active_slices ?S))" using I(5) fresh by blast
  show ?thesis
  proof (cases "rn_builder rn req ?S")
    case None
    then have "rn' = rn" "ep' = ep\<lparr>ep_stats := ?st1\<lparr>es_structural := es_structural ?st1 + 1\<rparr>\<rparr>"
      using run by (simp_all add: handle_arrival_def Let_def)
    moreover have "stats_ok (ep\<lparr>ep_stats := ?st1\<lparr>es_structural := es_structural ?st1 + 1\<rparr>\<rparr>) (length (active_slices ?S))"
      using I(8) by (simp add: stats_ok_def Let_def sum_vals_add_at)
    ultimately show ?thesis using I(1-7,9) unfolding runner_ok_def by auto
  next
    case (Some ps)
    from run Some obtain cost where c: "compute_cost_greedy nx ?S req default_greedy_config = Inr cost"
      by (cases "compute_cost_greedy nx ?S req default_greedy_config") (auto simp: handle_arrival_def Let_def)
    let ?g = "case cost of Fin c \<Rightarrow> Some c | PInf \<Rightarrow> None"
    from run Some c obtain T r ct where
      ra: "resolve_arrival nx co (rnd (es_total ?st0)) ?S req ps mode ?g (rn_counters rn) = Inr (T, r, ct)"
      by (cases "resolve_arrival nx co (rnd (es_total ?st0)) ?S req ps mode ?g (rn_counters rn)")
         (auto simp: handle_arrival_def Let_def I(6))
    let ?rn = "rn\<lparr>rn_sub := T, rn_counters := ct\<rparr>"
    from run Some c ra obtain r' v rn2 st2 where se: "settle req r ?rn ?st1 = Inr (r', v, rn2, st2)"
      by (cases "settle req r ?rn ?st1") (auto simp: handle_arrival_def Let_def I(6))
    obtain reward comps where fr: "finalize_reward (mr_reward r') (mr_admitted r') v (rn_weights rn2) = (reward, comps)"
      by (cases "finalize_reward (mr_reward r') (mr_admitted r') v (rn_weights rn2)")
    let ?r = "r'\<lparr>mr_reward := comps\<rparr>"
    have out: "rn' = rn2" "ep' = \<lparr>ep_stats = update_stats req ?r reward st2,
        ep_rollout = append_rollout req ?r reward (Some ps) (ep_rollout ep),
        ep_results = ep_results ep @ [?r], ep_trace = ep_trace ep @ [trace_of (es_total ?st0) req ?r]\<rparr>"
      using run Some c ra se fr by (auto simp: handle_arrival_def Let_def I(6))
    have TS: "T = ?S" by (rule actor_pool.resolve_arrival_restores[OF pool wf req refl ra])
    have de: "mr_decision r \<noteq> None" by (rule resolve_decision[OF ra])
    have "rn_max_hops ?rn = max_inter_domain_hops (co_config co)" "rn_sub ?rn = ?S" using I(7) TS by simp_all
    from settle_spec[OF pool wf req typed I(3) new ra this, of ?st1] consider
      (rejected) r1 v1 st1' where "settle req r ?rn ?st1 = Inr (r1, v1, ?rn, st1')" "\<not> mr_admitted r1"
        "mr_decision r1 = mr_decision r" "st1' = ?st1 \<or> st1' = ?st1\<lparr>es_penalties := es_penalties ?st1 + 1\<rparr>"
    | (admitted) plan S' v1 where "settle req r ?rn ?st1 = Inr (r, v1,
              ?rn\<lparr>rn_sub := S', rn_plans := AList.update (request_id req) plan (rn_plans ?rn),
                 rn_requests := AList.update (request_id req) req (rn_requests ?rn)\<rparr>, ?st1)"
        "mr_admitted r" "allocate ?S plan req = Inr S'" "no_overbooking S'" "nonneg_plan plan"
      using nn by blast
    then show ?thesis
    proof cases
      case rejected
      then have eq: "r' = r1" "rn2 = ?rn" "st2 = st1'" using se by simp_all
      have "stats_ok ep' (length (active_slices ?S) + (if mr_admitted ?r then 1 else 0))"
        unfolding out(2) by (rule stats_ok_arrival[OF I(8) _ _ refl]) (use rejected de eq in auto)
      then have "stats_ok ep' (length (active_slices ?S))" using rejected eq by simp
      then show ?thesis
        using I(1-7,9) TS unfolding runner_ok_def registry_ok_def out(1) eq(2) by auto
    next
      case admitted
      let ?rn2 = "?rn\<lparr>rn_sub := S', rn_plans := AList.update (request_id req) plan (rn_plans ?rn),
                 rn_requests := AList.update (request_id req) req (rn_requests ?rn)\<rparr>"
      have eq: "r' = r" "rn2 = ?rn2" "st2 = ?st1" using se admitted(1) by simp_all
      note A = allocate_parts[OF admitted(3)]
      have "stats_ok ep' (length (active_slices ?S) + (if mr_admitted ?r then 1 else 0))"
        unfolding out(2) by (rule stats_ok_arrival[OF I(8) _ _ refl]) (use de eq in auto)
      then have st: "stats_ok ep' (length (active_slices S'))" using admitted(2) eq A(2) by simp
      have reg: "registry_ok ?rn2"
        using I(4) keys_registry[OF refl A(3)] by (simp add: registry_ok_def A(2))
      have acc: "accounted S'" by (rule accounted_allocate[OF I(2) admitted(3)])
      have "set (keys (active_slices S')) \<subseteq> insert (request_id req) seen"
        using I(5) unfolding A(2) by auto
      moreover have "\<forall>(rid, plan, req) \<in> set (active_slices S'). sound_plan R plan"
        using I(9) admitted(5) sound_allocated[OF admitted(3)] I(1) unfolding A(2) by auto
      ultimately show ?thesis
        unfolding runner_ok_def out(1) eq(2) prod.case using st reg acc A(1) I(1,6,7) admitted(4) by simp
    qed
  qed
qed

text \<open>Departures never fail, and remove exactly one registered slice.\<close>

lemma map_of_registry:
  "map_of (map (\<lambda>(rid, plan, req). (rid, plan)) xs) k = map_option fst (map_of xs k)"
  "map_of (map (\<lambda>(rid, plan, req). (rid, req)) xs) k = map_option snd (map_of xs k)"
  by (induction xs) auto

lemma delete_registry:
  "AList.delete k (map (\<lambda>(rid, plan, req). (rid, plan)) xs) = map (\<lambda>(rid, plan, req). (rid, plan)) (AList.delete k xs)"
  "AList.delete k (map (\<lambda>(rid, plan, req). (rid, req)) xs) = map (\<lambda>(rid, plan, req). (rid, req)) (AList.delete k xs)"
  by (induction xs) (auto simp: AList.delete_eq)

lemma length_delete:
  "distinct (keys xs) \<Longrightarrow> map_of xs k = Some v \<Longrightarrow> length xs = Suc (length (AList.delete k xs))"
proof (induction xs)
  case (Cons x xs)
  show ?case
  proof (cases "fst x = k")
    case True
    then have "AList.delete k xs = xs" using Cons.prems(1) by (intro delete_fresh) auto
    then show ?thesis using True by (cases x) (simp add: AList.delete_eq)
  next
    case False
    then show ?thesis using Cons by (cases x) (auto simp: AList.delete_eq)
  qed
qed simp

lemma no_overbooking_active [simp]: "no_overbooking (S\<lparr>active_slices := a\<rparr>) \<longleftrightarrow> no_overbooking S"
  by (simp add: no_overbooking_def)


lemma no_overbooking_refund:
  assumes wf: "wf_graph g" and ok: "no_overbooking g"
    and nn: "\<forall>(n, c, r) \<in> set ns. 0 \<le> c \<and> 0 \<le> r" "\<forall>(l, x) \<in> set ls. 0 \<le> x"
  shows "no_overbooking (refund ns ls g)"
proof -
  have ids: "distinct (link_ids (g_edges g))" using wf by (simp add: wf_graph_def)
  have eq: "refund ns ls g = charge (scale_nodes (- 1) ns) (scale_links (- 1) ls) g"
    by (simp add: refund_def charge_def comp_def case_prod_unfold)
  have "0 \<le> posted_cpu k ns \<and> 0 \<le> posted_ram k ns" for k
    using nn(1) by (induction ns) auto
  moreover have "0 \<le> posted l ls" for l
    using nn(2) by (induction ls) auto
  ultimately show ?thesis
    using ok unfolding eq no_overbooking_def nodes_charge edges_charge[OF ids] posted_cpu_scale posted_ram_scale posted_scale
    by (auto intro!: add_nonneg_nonneg)
qed

text \<open>
  A substrate of an episode, whoever drives it: \<open>R\<close> loaded with registered slices whose ids are in
  \<open>seen\<close>. Admission and departure keep it.
\<close>

definition booked :: "substrate \<Rightarrow> string set \<Rightarrow> substrate \<Rightarrow> bool" where
  "booked R seen S \<longleftrightarrow>
     reset_substrate S = R \<and> accounted S \<and> no_overbooking S \<and> set (keys (active_slices S)) \<subseteq> seen
     \<and> (\<forall>(rid, plan, req) \<in> set (active_slices S). sound_plan R plan)"

lemma bookedD:
  assumes "booked R seen S"
  shows "reset_substrate S = R" and "accounted S" and "no_overbooking S"
    and "set (keys (active_slices S)) \<subseteq> seen"
    and "\<forall>(rid, plan, req) \<in> set (active_slices S). sound_plan R plan"
  using assms unfolding booked_def by blast+

lemma runner_ok_booked: "runner_ok R co seen (rn, ep) \<Longrightarrow> booked R seen (rn_sub rn)"
  unfolding runner_ok_def booked_def prod.case by blast

lemma booked_allocate:
  assumes ok: "booked R seen S" and al: "allocate S plan req = Inr T" and safe: "no_overbooking T"
    and nn: "nonneg_plan plan"
  shows "booked R (insert (request_id req) seen) T"
proof -
  note I = bookedD[OF ok] and A = allocate_parts[OF al]
  have "set (keys (active_slices T)) \<subseteq> insert (request_id req) seen"
    using I(4) unfolding A(2) by auto
  moreover have "\<forall>(rid, plan, req) \<in> set (active_slices T). sound_plan R plan"
    using I(5) sound_allocated[OF al nn] I(1) unfolding A(2) by auto
  ultimately show ?thesis
    unfolding booked_def using A(1) I(1) accounted_allocate[OF I(2) al] safe by blast
qed

lemma booked_deallocate:
  assumes ok: "booked R seen S" and wfR: "wf_graph R" and m: "map_of (active_slices S) rid = Some (plan, req)"
  obtains T where "deallocate S plan req = Inr T" and "booked R (seen - {rid}) T"
    and "active_slices T = AList.delete rid (active_slices S)"
proof -
  note I = bookedD[OF ok]
  have acc: "\<forall>(rid, plan, req) \<in> set (active_slices S). rid = request_id req"
    using I(2) unfolding accounted_def by blast
  have in_S: "(rid, plan, req) \<in> set (active_slices S)" using m by (rule map_of_SomeD)
  then have rid: "rid = request_id req" and sp: "sound_plan R plan" using acc I(5) by blast+
  then have nn: "nonneg_plan plan" and pr: "plan_resolves plan S"
    using I(1) plan_resolves_reset by (auto simp: sound_plan_def)
  have "rid \<in> set (keys (active_slices S))" using in_S by force
  then obtain T where de: "deallocate S plan req = Inr T"
    using pr unfolding rid by (simp add: deallocate_Inr_iff)
  then have T: "T = (refund (node_claims plan) (link_claims plan) S)\<lparr>active_slices := AList.delete rid (active_slices S)\<rparr>"
    by (simp add: deallocate_Inr_iff rid)
  have aT: "active_slices T = AList.delete rid (active_slices S)" by (simp add: T)
  have 1: "reset_substrate T = R" using I(1) by (simp add: T reset_active reset_refund)
  have 2: "accounted T"
    by (rule accounted_deallocate[OF I(2) _ de]) (use m rid in simp)
  have 3: "no_overbooking T"
    unfolding T no_overbooking_active
    by (rule no_overbooking_refund[OF wf_from_reset[OF I(1) wfR] I(3)]) (use nn in \<open>simp_all add: nonneg_plan_def\<close>)
  have 4: "set (keys (active_slices T)) \<subseteq> seen - {rid}"
    using I(4) unfolding aT by (auto simp: AList.delete_eq)
  have sub: "set (active_slices T) \<subseteq> set (active_slices S)" by (auto simp: aT AList.delete_eq)
  have 5: "\<forall>(rid, plan, req) \<in> set (active_slices T). sound_plan R plan" using I(5) sub by blast
  show thesis by (rule that[OF de _ aT]) (unfold booked_def, use 1 2 3 4 5 in blast)
qed

lemma booked_absent:
  assumes "booked R seen S" and "map_of (active_slices S) rid = None"
  shows "booked R (seen - {rid}) S"
proof -
  have "set (keys (active_slices S)) \<subseteq> seen - {rid}"
    using bookedD(4)[OF assms(1)] assms(2) by (auto simp: map_of_eq_None_iff)
  then show ?thesis using bookedD[OF assms(1)] unfolding booked_def by blast
qed

lemma handle_departure_ok:
  assumes ok: "runner_ok R co seen (rn, ep)" and wfR: "wf_graph R"
  shows "\<exists>rn' st. handle_departure rid (rn, ep_stats ep) = Inr (rn', st)
    \<and> runner_ok R co (seen - {rid}) (rn', ep\<lparr>ep_stats := st\<rparr>)"
proof -
  note I = runner_okD[OF ok] and bk = runner_ok_booked[OF ok]
  let ?S = "rn_sub rn" and ?rn = "rn\<lparr>rn_plans := AList.delete rid (rn_plans rn), rn_requests := AList.delete rid (rn_requests rn)\<rparr>"
  have P: "rn_plans rn = map (\<lambda>(rid, plan, req). (rid, plan)) (active_slices ?S)"
    and Q: "rn_requests rn = map (\<lambda>(rid, plan, req). (rid, req)) (active_slices ?S)"
    using I(4) by (simp_all add: registry_ok_def)
  show ?thesis
  proof (cases "map_of (active_slices ?S) rid")
    case None
    then have gone: "AList.delete rid (active_slices ?S) = active_slices ?S"
      by (intro delete_fresh) (simp add: map_of_eq_None_iff)
    have "?rn = rn" using gone by (simp add: P Q delete_registry)
    then have "handle_departure rid (rn, ep_stats ep) = Inr (rn, ep_stats ep)"
      using None by (simp add: handle_departure_def P Q map_of_registry)
    moreover have "runner_ok R co (seen - {rid}) (rn, ep)"
      using ok bookedD(4)[OF booked_absent[OF bk None]] unfolding runner_ok_def by blast
    ultimately show ?thesis by simp
  next
    case (Some pq)
    obtain plan req where pq: "pq = (plan, req)" by (cases pq)
    from booked_deallocate[OF bk wfR Some[unfolded pq]] obtain T where
      de: "deallocate ?S plan req = Inr T" and bT: "booked R (seen - {rid}) T"
      and aT: "active_slices T = AList.delete rid (active_slices ?S)" by blast
    let ?st = "(ep_stats ep)\<lparr>es_departures := es_departures (ep_stats ep) + 1\<rparr>"
    have run: "handle_departure rid (rn, ep_stats ep) = Inr (?rn\<lparr>rn_sub := T\<rparr>, ?st)"
      using Some by (simp add: handle_departure_def P Q map_of_registry pq de)
    have reg: "registry_ok (?rn\<lparr>rn_sub := T\<rparr>)"
      by (simp add: registry_ok_def aT P Q delete_registry)
    have len: "length (active_slices ?S) = Suc (length (active_slices T))"
      unfolding aT using length_delete[OF _ Some] I(2) by (simp add: accounted_def)
    have st: "stats_ok (ep\<lparr>ep_stats := ?st\<rparr>) (length (active_slices T))"
      using I(8) unfolding len by (simp add: stats_ok_def Let_def)
    show ?thesis
      unfolding run runner_ok_def using bookedD[OF bT] reg st I(6,7) by simp
  qed
qed


section \<open>Every moment of an episode\<close>

inductive episode_reaches :: "nx_lib \<Rightarrow> string \<Rightarrow> (nat \<Rightarrow> nat \<Rightarrow> nat \<Rightarrow> nat) \<Rightarrow> runner \<Rightarrow> runner \<times> episode \<Rightarrow> bool"
  for nx mode rnd rn0 where
  fresh: "episode_reaches nx mode rnd rn0 (rn0, new_episode)"
| event: "episode_reaches nx mode rnd rn0 (rn, ep) \<Longrightarrow> has_next (rn_process rn) \<Longrightarrow>
    next_event (rn_process rn) = Inr (e, p) \<Longrightarrow>
    handle_event nx mode rnd e (rn\<lparr>rn_process := p\<rparr>, ep) = Inr st \<Longrightarrow> episode_reaches nx mode rnd rn0 st"

lemma run_loop_reaches:
  assumes "episode_reaches nx mode rnd rn0 (rn, ep)" and "run_loop nx mode rnd (rn, ep) = Inr (rn', ep')"
  shows "episode_reaches nx mode rnd rn0 (rn', ep') \<and> \<not> has_next (rn_process rn')"
  using assms
proof (induction "length (ap_events (rn_process rn)) - ap_idx (rn_process rn)" arbitrary: rn ep)
  case 0
  then have "\<not> has_next (rn_process rn)" by (simp add: has_next_def)
  with 0 show ?case by (simp add: run_loop.simps[of nx mode rnd rn ep])
next
  case (Suc k)
  have h: "has_next (rn_process rn)" using Suc(2) by (simp add: has_next_def)
  let ?e = "ap_events (rn_process rn) ! ap_idx (rn_process rn)"
  let ?p = "(rn_process rn)\<lparr>ap_idx := ap_idx (rn_process rn) + 1\<rparr>"
  note n = next_event_Inr[OF h]
  from Suc(4) h n obtain rn1 ep1 where e: "handle_event nx mode rnd ?e (rn\<lparr>rn_process := ?p\<rparr>, ep) = Inr (rn1, ep1)"
    and rest: "run_loop nx mode rnd (rn1, ep1) = Inr (rn', ep')"
    by (auto simp: run_loop.simps[of nx mode rnd rn ep] split: sum.splits)
  have "rn_process rn1 = ?p" using handle_event_process[OF e] by simp
  then have "k = length (ap_events (rn_process rn1)) - ap_idx (rn_process rn1)" using Suc(2) by simp
  then show ?case by (rule Suc(1)[OF _ episode_reaches.event[OF Suc(3) h n e] rest])
qed

text \<open>The ids that have arrived and not departed since.\<close>

definition live_step :: "sim_event \<Rightarrow> string set \<Rightarrow> string set" where
  "live_step e L =
     (if ev_type e = DEPARTURE then L - {ev_request e}
      else case ev_slice e of None \<Rightarrow> L | Some r \<Rightarrow> insert (request_id r) L)"

definition live :: "sim_event list \<Rightarrow> string set" where
  "live es = fold live_step es {}"

lemma live_snoc [simp]: "live [] = {}" "live (es @ [e]) = live_step e (live es)"
  by (simp_all add: live_def)

lemma live_arrived: "live es \<subseteq> request_id ` set (arrivals es)"
proof (induction es rule: rev_induct)
  case (snoc e es)
  then show ?case by (cases "ev_type e") (auto simp: live_step_def split: option.splits)
qed simp

lemma runner_ok_process [simp]: "runner_ok R co seen (rn\<lparr>rn_process := p\<rparr>, ep) = runner_ok R co seen (rn, ep)"
  by (simp add: runner_ok_def registry_ok_def)

definition stream_ok :: "sim_event list \<Rightarrow> bool" where
  "stream_ok es \<longleftrightarrow> distinct (map request_id (arrivals es))
     \<and> (\<forall>req \<in> set (arrivals es). wf_request req \<and> nonneg_request req)"

lemma handle_event_ok:
  assumes pool: "actor_pool nx (co_actors co)" and wfR: "wf_graph R" and tyR: "typed_links R"
    and es: "stream_ok (es @ [e])" and ok: "runner_ok R co (live es) (rn, ep)"
    and run: "handle_event nx mode rnd e (rn, ep) = Inr (rn', ep')"
  shows "runner_ok R co (live (es @ [e])) (rn', ep')"
proof (cases "ev_type e")
  case DEPARTURE
  obtain rn1 st where d: "handle_departure (ev_request e) (rn, ep_stats ep) = Inr (rn1, st)"
    "runner_ok R co (live es - {ev_request e}) (rn1, ep\<lparr>ep_stats := st\<rparr>)"
    using handle_departure_ok[OF ok wfR] by blast
  then show ?thesis using run DEPARTURE by (auto simp: handle_event_def live_step_def)
next
  case ARRIVAL
  from run ARRIVAL obtain req where req: "ev_slice e = Some req"
    and h: "handle_arrival nx mode rnd req (rn, ep) = Inr (rn', ep')"
    by (auto simp: handle_event_def split: option.splits)
  from es ARRIVAL req have w: "wf_request req" "nonneg_request req"
    and new: "request_id req \<notin> request_id ` set (arrivals es)"
    by (auto simp: stream_ok_def)
  from handle_arrival_ok[OF pool ok wfR tyR w _ h] new live_arrived
  show ?thesis using ARRIVAL req by (auto simp: live_step_def)
qed

lemma stream_ok_prefix: "stream_ok (es @ es') \<Longrightarrow> stream_ok es"
  by (auto simp: stream_ok_def)

lemma reaches_ok:
  assumes "episode_reaches nx mode rnd rn0 st" and pool: "actor_pool nx (co_actors co)"
    and wfR: "wf_graph R" and tyR: "typed_links R" and es: "stream_ok (ap_events (rn_process rn0))"
    and start: "runner_ok R co {} (rn0, new_episode)" and idx: "ap_idx (rn_process rn0) = 0"
  shows "ap_events (rn_process (fst st)) = ap_events (rn_process rn0)
    \<and> ap_idx (rn_process (fst st)) \<le> length (ap_events (rn_process rn0))
    \<and> runner_ok R co (live (take (ap_idx (rn_process (fst st))) (ap_events (rn_process rn0)))) st"
  using assms(1)
proof (induction rule: episode_reaches.induct)
  case fresh
  then show ?case using start idx by simp
next
  case (event rn ep e p st)
  let ?E = "ap_events (rn_process rn0)" and ?k = "ap_idx (rn_process rn)"
  obtain rn' ep' where st: "st = (rn', ep')" by (cases st)
  from event.IH have E: "ap_events (rn_process rn) = ?E" and ok: "runner_ok R co (live (take ?k ?E)) (rn, ep)"
    by simp_all
  have lt: "?k < length ?E" using event.hyps(2) E by (simp add: has_next_def)
  have e: "e = ?E ! ?k" "p = (rn_process rn)\<lparr>ap_idx := ?k + 1\<rparr>"
    using event.hyps(3) next_event_Inr[OF event.hyps(2)] E by simp_all
  have proc: "rn_process rn' = p"
    using handle_event_process[of nx mode rnd e "rn\<lparr>rn_process := p\<rparr>" ep rn' ep'] event.hyps(4) st by simp
  have tk: "take (Suc ?k) ?E = take ?k ?E @ [e]" using lt by (simp add: take_Suc_conv_app_nth e(1))
  have "stream_ok (take ?k ?E @ [e])"
    unfolding tk[symmetric] using es by (metis append_take_drop_id stream_ok_prefix)
  from handle_event_ok[OF pool wfR tyR this, of "rn\<lparr>rn_process := p\<rparr>" ep mode rnd rn' ep'] ok event.hyps(4)
  have "runner_ok R co (live (take (Suc ?k) ?E)) (rn', ep')" unfolding tk by (simp add: st)
  then show ?case using E lt by (simp add: st proc e(2))
qed


section \<open>Generated streams\<close>

text \<open>When every lifetime is positive, every request departs after it has arrived.\<close>

lemma live_iff:
  "i \<in> live es \<longleftrightarrow> (\<exists>ys e zs r. es = ys @ e # zs \<and> ev_type e = ARRIVAL \<and> ev_slice e = Some r
      \<and> request_id r = i \<and> (\<forall>x \<in> set zs. ev_type x = DEPARTURE \<longrightarrow> ev_request x \<noteq> i))" (is "_ \<longleftrightarrow> ?P es")
proof (induction es rule: rev_induct)
  case (snoc e es)
  have old: "?P (es @ [e])" if "?P es" "ev_type e = DEPARTURE \<longrightarrow> ev_request e \<noteq> i"
  proof -
    from that(1) obtain ys a zs r where "es = ys @ a # zs" "ev_type a = ARRIVAL" "ev_slice a = Some r"
      "request_id r = i" "\<forall>x \<in> set zs. ev_type x = DEPARTURE \<longrightarrow> ev_request x \<noteq> i" by blast
    with that(2) show ?thesis by (intro exI[of _ ys] exI[of _ a] exI[of _ "zs @ [e]"] exI[of _ r]) auto
  qed
  have new: "?P (es @ [e])" if "ev_type e = ARRIVAL" "ev_slice e = Some r" "request_id r = i" for r
    using that by (intro exI[of _ es] exI[of _ e] exI[of _ "[]"] exI[of _ r]) simp
  have only: "?P es \<and> (ev_type e = DEPARTURE \<longrightarrow> ev_request e \<noteq> i)
      \<or> (ev_type e = ARRIVAL \<and> (\<exists>r. ev_slice e = Some r \<and> request_id r = i))" if P: "?P (es @ [e])"
  proof -
    from P obtain ys a zs r where d: "es @ [e] = ys @ a # zs" and a: "ev_type a = ARRIVAL" "ev_slice a = Some r"
      "request_id r = i" and z: "\<forall>x \<in> set zs. ev_type x = DEPARTURE \<longrightarrow> ev_request x \<noteq> i" by blast
    show ?thesis
    proof (cases zs rule: rev_exhaust)
      case Nil
      then show ?thesis using d a by auto
    next
      case (snoc zs' z')
      then have e: "es = ys @ a # zs'" "e = z'" using d by (simp_all flip: append_assoc)
      have "?P es" using e(1) a z snoc by (intro exI[of _ ys] exI[of _ a] exI[of _ zs'] exI[of _ r]) simp
      moreover have "ev_type e = DEPARTURE \<longrightarrow> ev_request e \<noteq> i" using z snoc e(2) by simp
      ultimately show ?thesis by blast
    qed
  qed
  have "i \<in> live (es @ [e]) \<longleftrightarrow> i \<in> live es \<and> (ev_type e = DEPARTURE \<longrightarrow> ev_request e \<noteq> i)
      \<or> (ev_type e = ARRIVAL \<and> (\<exists>r. ev_slice e = Some r \<and> request_id r = i))"
    by (cases "ev_type e") (auto simp: live_step_def split: option.splits)
  also have "\<dots> \<longleftrightarrow> ?P (es @ [e])"
  proof
    assume "i \<in> live es \<and> (ev_type e = DEPARTURE \<longrightarrow> ev_request e \<noteq> i)
      \<or> (ev_type e = ARRIVAL \<and> (\<exists>r. ev_slice e = Some r \<and> request_id r = i))"
    then show "?P (es @ [e])"
    proof (elim disjE conjE exE)
      assume "i \<in> live es" "ev_type e = DEPARTURE \<longrightarrow> ev_request e \<noteq> i"
      then show ?thesis using old snoc.IH by (simp only:)
    qed (rule new)
  next
    assume "?P (es @ [e])"
    from only[OF this] show "i \<in> live es \<and> (ev_type e = DEPARTURE \<longrightarrow> ev_request e \<noteq> i)
      \<or> (ev_type e = ARRIVAL \<and> (\<exists>r. ev_slice e = Some r \<and> request_id r = i))"
      unfolding snoc.IH .
  qed
  finally show ?case .
qed simp

lemma generated_event:
  assumes "e \<in> set (ap_events (generate gaps lifes p))"
  obtains i where "i < ap_num p" and "e \<in> set (request_events (ap_factory p) (cumsum 0 gaps) lifes i)"
  using assms by (auto simp: generate_def)

lemma live_generated:
  assumes law: "\<And>rid t l. request_id (ap_factory p rid t l) = rid" and pos: "\<forall>i < ap_num p. 0 < lifes ! i"
  shows "live (ap_events (generate gaps lifes p)) = {}"
proof -
  let ?E = "ap_events (generate gaps lifes p)"
  have False if "x \<in> live ?E" for x
  proof -
    from that obtain ys a zs r where E: "?E = ys @ a # zs" and a: "ev_type a = ARRIVAL" "ev_slice a = Some r"
      "request_id r = x" and z: "\<forall>y \<in> set zs. ev_type y = DEPARTURE \<longrightarrow> ev_request y \<noteq> x"
      unfolding live_iff by blast
    have "a \<in> set ?E" by (simp add: E)
    then obtain i where i: "i < ap_num p" "a \<in> set (request_events (ap_factory p) (cumsum 0 gaps) lifes i)"
      by (rule generated_event)
    let ?d = "\<lparr>ev_time = cumsum 0 gaps ! i + lifes ! i, ev_type = DEPARTURE, ev_request = req_name i, ev_slice = None\<rparr>"
    have ta: "ev_time a = cumsum 0 gaps ! i" and x: "x = req_name i"
      using i(2) a law by (auto simp: request_events_def Let_def)
    have "?d \<in> set ?E"
      using i(1) by (force simp: generate_def request_events_def Let_def)
    moreover have "?d \<notin> set zs" using z x by auto
    moreover have "?d \<noteq> a" using a by auto
    ultimately have "?d \<in> set ys" unfolding E by auto
    moreover have "sorted (map event_key ?E)" by (simp add: generate_def)
    ultimately have "event_key ?d \<le> event_key a" unfolding E by (simp add: sorted_append)
    then show False using ta pos i(1) by (auto simp: event_key_def less_eq_prod_def)
  qed
  then show ?thesis by blast
qed

lemma generated_stream_ok:
  assumes law: "\<And>rid t l. request_id (ap_factory p rid t l) = rid \<and> wf_request (ap_factory p rid t l)
      \<and> nonneg_request (ap_factory p rid t l)"
  shows "stream_ok (ap_events (generate gaps lifes p))"
    and "length (arrivals (ap_events (generate gaps lifes p))) = ap_num p"
proof -
  let ?E = "ap_events (generate gaps lifes p)"
  let ?raw = "concat (map (request_events (ap_factory p) (cumsum 0 gaps) lifes) [0..<ap_num p])"
  have m: "mset (arrivals ?E) = mset (arrivals ?raw)"
    by (rule mset_arrivals) (simp add: generate_def)
  have r: "arrivals ?raw = map (\<lambda>i. ap_factory p (req_name i) (cumsum 0 gaps ! i) (lifes ! i)) [0..<ap_num p]"
    by (rule arrivals_generated)
  have "mset (map request_id (arrivals ?E)) = mset (map request_id (arrivals ?raw))"
    using m by (simp add: mset_map)
  moreover have "distinct (map request_id (arrivals ?raw))"
    unfolding r using law by (simp add: comp_def distinct_map inj_on_def)
  ultimately have "distinct (map request_id (arrivals ?E))" by (metis mset_eq_imp_distinct_iff)
  moreover have "\<forall>req \<in> set (arrivals ?E). wf_request req \<and> nonneg_request req"
    using mset_eq_setD[OF m] law unfolding r by auto
  ultimately show "stream_ok ?E" by (simp add: stream_ok_def)
  show "length (arrivals ?E) = ap_num p"
    using mset_eq_length[OF m] by (simp add: r)
qed

lemma generated_arrivals:
  assumes "req \<in> set (arrivals (ap_events (generate gaps lifes p)))"
  obtains rid t l where "req = ap_factory p rid t l"
proof -
  let ?raw = "concat (map (request_events (ap_factory p) (cumsum 0 gaps) lifes) [0..<ap_num p])"
  have "mset (arrivals (ap_events (generate gaps lifes p))) = mset (arrivals ?raw)"
    by (rule mset_arrivals) (simp add: generate_def)
  from mset_eq_setD[OF this] show ?thesis using assms that by (auto simp: arrivals_generated)
qed

lemma reset_runner_ok:
  assumes "no_overbooking (reset_substrate (rn_sub rn0))" and "rn_coordinator rn0 = co"
    and "rn_max_hops rn0 = max_inter_domain_hops (co_config co)"
  shows "runner_ok (reset_substrate (rn_sub rn0)) co {} (reset_runner gaps lifes rn0, new_episode)"
  using assms
  by (simp add: runner_ok_def reset_runner_def reset_idem accounted_reset registry_ok_def stats_ok_def
      new_episode_def no_stats_def num_mdo_transitions_def empty_rollout_def Let_def)

lemma accounted_empty: "accounted S \<Longrightarrow> active_slices S = [] \<Longrightarrow> S = reset_substrate S"
proof -
  assume a: "accounted S" and e: "active_slices S = []"
  from a have "S = (charge (held_nodes S) (held_links S) (reset_substrate S))\<lparr>active_slices := active_slices S\<rparr>"
    unfolding accounted_def by blast
  also have "\<dots> = (reset_substrate S)\<lparr>active_slices := active_slices (reset_substrate S)\<rparr>"
    by (simp add: e charge_def)
  finally show ?thesis by (simp only: substrate_active_idem)
qed

lemma arrival_total:
  assumes "handle_arrival nx mode rnd req (rn, ep) = Inr (rn', ep')"
  shows "es_total (ep_stats ep') = Suc (es_total (ep_stats ep))"
proof -
  have "es_total st' = es_total st" if "settle req r rn1 st = Inr (r', v, rn2, st')" for r rn1 st r' v rn2 st'
    using that by (auto simp: settle_def split: if_splits sum.splits option.splits)
  then show ?thesis
    using assms by (auto simp: handle_arrival_def Let_def update_stats_def split: option.splits sum.splits prod.splits)
qed


lemma event_total:
  assumes "handle_event nx mode rnd e (rn, ep) = Inr (rn', ep')"
  shows "es_total (ep_stats ep') = es_total (ep_stats ep) + length (arrivals [e])"
proof (cases "ev_type e")
  case ARRIVAL
  then show ?thesis using assms arrival_total by (auto simp: handle_event_def split: option.splits)
next
  case DEPARTURE
  then show ?thesis using assms
    by (auto simp: handle_event_def handle_departure_def Let_def map_sum_def split: sum.splits option.splits)
qed

lemma reaches_total:
  assumes "episode_reaches nx mode rnd rn0 st" and "ap_idx (rn_process rn0) = 0"
  shows "ap_events (rn_process (fst st)) = ap_events (rn_process rn0)
    \<and> es_total (ep_stats (snd st)) = length (arrivals (take (ap_idx (rn_process (fst st))) (ap_events (rn_process rn0))))"
  using assms(1)
proof (induction rule: episode_reaches.induct)
  case fresh
  then show ?case by (simp add: assms(2) new_episode_def no_stats_def)
next
  case (event rn ep e p st)
  let ?E = "ap_events (rn_process rn0)" and ?k = "ap_idx (rn_process rn)"
  obtain rn' ep' where st: "st = (rn', ep')" by (cases st)
  have lt: "?k < length ?E" using event.hyps(2) event.IH by (simp add: has_next_def)
  have e: "e = ?E ! ?k" "p = (rn_process rn)\<lparr>ap_idx := ?k + 1\<rparr>"
    using event.hyps(3) next_event_Inr[OF event.hyps(2)] event.IH by simp_all
  have "rn_process rn' = p"
    using handle_event_process[of nx mode rnd e "rn\<lparr>rn_process := p\<rparr>" ep rn' ep'] event.hyps(4) st by simp
  moreover have "take (Suc ?k) ?E = take ?k ?E @ [e]" using lt by (simp add: take_Suc_conv_app_nth e(1))
  ultimately show ?case
    using event_total[of nx mode rnd e "rn\<lparr>rn_process := p\<rparr>" ep rn' ep'] event.hyps(4) event.IH by (simp add: st e(2))
qed

section \<open>Properties\<close>

text \<open>The requests a factory makes carry the id they are given and have usable demands.\<close>

definition lawful_factory :: "slice_factory \<Rightarrow> bool" where
  "lawful_factory F \<longleftrightarrow>
     (\<forall>rid t l. request_id (F rid t l) = rid \<and> wf_request (F rid t l) \<and> nonneg_request (F rid t l))"

text \<open>The events the runner has taken from its stream.\<close>

definition handled_events :: "runner \<Rightarrow> sim_event list" where
  "handled_events rn = take (ap_idx (rn_process rn)) (ap_events (rn_process rn))"

lemma episode_moment:
  assumes pool: "actor_pool nx (co_actors (rn_coordinator rn0))"
    and wf: "wf_graph (rn_sub rn0)" and ty: "typed_links (rn_sub rn0)"
    and cap: "no_overbooking (reset_substrate (rn_sub rn0))"
    and law: "lawful_factory (ap_factory (rn_process rn0))"
    and hops: "rn_max_hops rn0 = max_inter_domain_hops (co_config (rn_coordinator rn0))"
    and run: "episode_reaches nx mode rnd (reset_runner gaps lifes rn0) (rn, ep)"
  shows "runner_ok (reset_substrate (rn_sub rn0)) (rn_coordinator rn0)
      (live (take (ap_idx (rn_process rn)) (ap_events (generate gaps lifes (rn_process rn0))))) (rn, ep)"
    and "ap_events (rn_process rn) = ap_events (generate gaps lifes (rn_process rn0))"
proof -
  let ?R = "reset_substrate (rn_sub rn0)" and ?rn = "reset_runner gaps lifes rn0"
  have E: "ap_events (rn_process ?rn) = ap_events (generate gaps lifes (rn_process rn0))"
    and i: "ap_idx (rn_process ?rn) = 0"
    by (simp_all add: reset_runner_def generate_def)
  have "stream_ok (ap_events (rn_process ?rn))"
    unfolding E using law by (intro generated_stream_ok) (simp add: lawful_factory_def)
  from reaches_ok[OF run pool _ _ this reset_runner_ok[OF cap refl hops] i]
  show "runner_ok ?R (rn_coordinator rn0)
      (live (take (ap_idx (rn_process rn)) (ap_events (generate gaps lifes (rn_process rn0))))) (rn, ep)"
    and "ap_events (rn_process rn) = ap_events (generate gaps lifes (rn_process rn0))"
    using wf ty by (simp_all add: typed_reset E)
qed

text \<open>
  C1: at every moment of an episode no node or link is over-booked, the missing residual is exactly what
  the registered slices hold, every registered slice is live (its arrival has been handled, its departure
  has not), and the runner's registry is the substrate's. The statistics add up: every arrival handled so
  far is admitted, rejected or refused for its structure; what was admitted has departed or is registered;
  the per-type counts sum to the totals; results, trace and rollout have one entry per decision; and no
  committed decision failed to become a plan.
\<close>

theorem episode_safe:
  assumes "actor_pool nx (co_actors (rn_coordinator rn0))"
    and "wf_graph (rn_sub rn0)" and "typed_links (rn_sub rn0)"
    and "no_overbooking (reset_substrate (rn_sub rn0))"
    and "lawful_factory (ap_factory (rn_process rn0))"
    and "rn_max_hops rn0 = max_inter_domain_hops (co_config (rn_coordinator rn0))"
    and "episode_reaches nx mode rnd (reset_runner gaps lifes rn0) (rn, ep)"
  shows "no_overbooking (rn_sub rn) \<and> accounted (rn_sub rn) \<and> registry_ok rn
    \<and> reset_substrate (rn_sub rn) = reset_substrate (rn_sub rn0)
    \<and> set (keys (active_slices (rn_sub rn))) \<subseteq> live (handled_events rn)
    \<and> es_total (ep_stats ep) = length (arrivals (handled_events rn))
    \<and> es_total (ep_stats ep) = es_admitted (ep_stats ep) + es_rejected (ep_stats ep) + es_structural (ep_stats ep)
    \<and> es_admitted (ep_stats ep) = es_departures (ep_stats ep) + length (active_slices (rn_sub rn))
    \<and> es_penalties (ep_stats ep) \<le> es_rejected (ep_stats ep) \<and> es_plan_failures (ep_stats ep) = 0
    \<and> sum_list (vals (es_type_total (ep_stats ep))) = es_total (ep_stats ep)
    \<and> sum_list (vals (es_type_admitted (ep_stats ep))) = es_admitted (ep_stats ep)
    \<and> length (ep_results ep) = es_admitted (ep_stats ep) + es_rejected (ep_stats ep)
    \<and> length (ep_trace ep) = es_admitted (ep_stats ep) + es_rejected (ep_stats ep)
    \<and> num_mdo_transitions (ep_rollout ep) = es_admitted (ep_stats ep) + es_rejected (ep_stats ep)
    \<and> length (filter mr_admitted (ep_results ep)) = es_admitted (ep_stats ep)"
proof -
  note M = episode_moment[OF assms]
  note I = runner_okD[OF M(1)]
  have "set (keys (active_slices (rn_sub rn))) \<subseteq> live (handled_events rn)"
    using I(5) by (simp add: handled_events_def M(2))
  moreover have "es_total (ep_stats ep) = length (arrivals (handled_events rn))"
    using reaches_total[OF assms(7)] M(2) by (simp add: handled_events_def reset_runner_def generate_def)
  ultimately show ?thesis
    using I(1-4) I(8)[unfolded stats_ok_def Let_def]
    by (elim conjE, intro conjI) (assumption | erule sym)+
qed

text \<open>C2: an episode in which every slice has a positive lifetime ends with the substrate as it
  was at the start: everything admitted has departed and every residual is back. The counters add
  up: every arrival is admitted, rejected or refused for its structure, and no committed decision
  failed to become a plan.\<close>

theorem episode_returns_everything:
  assumes "actor_pool nx (co_actors (rn_coordinator rn0))"
    and "wf_graph (rn_sub rn0)" and "typed_links (rn_sub rn0)"
    and "no_overbooking (reset_substrate (rn_sub rn0))"
    and "lawful_factory (ap_factory (rn_process rn0))"
    and "rn_max_hops rn0 = max_inter_domain_hops (co_config (rn_coordinator rn0))"
    and "\<forall>i < ap_num (rn_process rn0). 0 < lifes ! i"
    and "run_episode nx mode rnd (reset_runner gaps lifes rn0) = Inr (rn, ep)"
  shows "rn_sub rn = reset_substrate (rn_sub rn0) \<and> rn_plans rn = [] \<and> rn_requests rn = []
    \<and> es_total (ep_stats ep) = ap_num (rn_process rn0)
    \<and> es_total (ep_stats ep) = es_admitted (ep_stats ep) + es_rejected (ep_stats ep) + es_structural (ep_stats ep)
    \<and> es_departures (ep_stats ep) = es_admitted (ep_stats ep) \<and> es_plan_failures (ep_stats ep) = 0
    \<and> num_mdo_transitions (ep_rollout ep) = es_admitted (ep_stats ep) + es_rejected (ep_stats ep)"
proof -
  let ?rn = "reset_runner gaps lifes rn0" and ?P = "rn_process rn0"
  from run_loop_reaches[OF episode_reaches.fresh assms(8)[unfolded run_episode_def]] have
    re: "episode_reaches nx mode rnd ?rn (rn, ep)" and fin: "\<not> has_next (rn_process rn)" by blast+
  note M = episode_moment[OF assms(1-6) re]
  let ?E = "ap_events (generate gaps lifes ?P)"
  have tk: "take (ap_idx (rn_process rn)) ?E = ?E" using fin M(2) by (simp add: has_next_def)
  have "live ?E = {}"
    by (rule live_generated) (use assms(5,7) in \<open>simp_all add: lawful_factory_def\<close>)
  note I = runner_okD[OF M(1)[unfolded tk this]]
  have none: "active_slices (rn_sub rn) = []" using I(5) by simp
  have "rn_sub rn = reset_substrate (rn_sub rn0)" using accounted_empty[OF I(2) none] I(1) by simp
  moreover have "rn_plans rn = []" "rn_requests rn = []" using I(4) none by (simp_all add: registry_ok_def)
  moreover have "es_total (ep_stats ep) = ap_num ?P"
  proof -
    have "ap_idx (rn_process ?rn) = 0" "ap_events (rn_process ?rn) = ?E" by (simp_all add: reset_runner_def generate_def)
    with reaches_total[OF re] have "es_total (ep_stats ep) = length (arrivals ?E)" by (simp add: tk)
    also have "\<dots> = ap_num ?P"
      by (rule generated_stream_ok(2)) (use assms(5) in \<open>simp add: lawful_factory_def\<close>)
    finally show ?thesis .
  qed
  ultimately show ?thesis using I(8) none by (simp add: stats_ok_def Let_def)
qed

text \<open>The loop handles every event of the stream once, in order, whatever the handlers do.\<close>

theorem run_episode_is_fold:
  "run_episode nx mode rnd rn =
   map_sum id (\<lambda>(rn', ep'). (rn'\<lparr>rn_process := (rn_process rn)
        \<lparr>ap_idx := max (ap_idx (rn_process rn)) (length (ap_events (rn_process rn)))\<rparr>\<rparr>, ep'))
     (fold_err (handle_event nx mode rnd) (drop (ap_idx (rn_process rn)) (ap_events (rn_process rn))) (rn, new_episode))"
  unfolding run_episode_def by (rule run_loop_fold)

section \<open>A run\<close>

definition ex_runner :: runner where
  "ex_runner = \<lparr>rn_sub = ex_sub,
     rn_process = \<lparr>ap_num = 2, ap_factory = (\<lambda>rid t l. ex_guard_req2\<lparr>request_id := rid, arrival_time := t, lifetime := l\<rparr>),
                  ap_events = [], ap_idx = 0\<rparr>,
     rn_coordinator = ex_co, rn_counters = ex_counters, rn_weights = default_weights,
     rn_builder = (\<lambda>req S. Some ex_summary), rn_max_hops = 3, rn_plans = [], rn_requests = []\<rparr>"

lemma ex_runner_lawful:
  "actor_pool dfs_nx (co_actors (rn_coordinator ex_runner))" "wf_graph (rn_sub ex_runner)"
  "typed_links (rn_sub ex_runner)" "no_overbooking (reset_substrate (rn_sub ex_runner))"
  "lawful_factory (ap_factory (rn_process ex_runner))"
  "rn_max_hops ex_runner = max_inter_domain_hops (co_config (rn_coordinator ex_runner))"
  "\<forall>i < ap_num (rn_process ex_runner). 0 < [5, 1 :: real] ! i"
proof -
  show "actor_pool dfs_nx (co_actors (rn_coordinator ex_runner))" using ex_pool by (simp add: ex_runner_def)
  show "lawful_factory (ap_factory (rn_process ex_runner))"
    by (simp add: lawful_factory_def ex_runner_def wf_request_def nonneg_request_def ex_guard_req2_def ex_req_def
        ex_vnf_on_def ex_vnf_def)
  show "wf_graph (rn_sub ex_runner)" "typed_links (rn_sub ex_runner)"
    "no_overbooking (reset_substrate (rn_sub ex_runner))"
    "rn_max_hops ex_runner = max_inter_domain_hops (co_config (rn_coordinator ex_runner))"
    by code_simp+
  show "\<forall>i < ap_num (rn_process ex_runner). 0 < [5, 1 :: real] ! i"
    by (auto simp: ex_runner_def less_2_cases_iff)
qed

abbreviation ex_episode :: "py_error + (runner \<times> episode)" where
  "ex_episode \<equiv> run_episode dfs_nx ''follow_prior'' (\<lambda>_ _ _. 0) (reset_runner [1, 2] [5, 1] ex_runner)"

lemma ex_episode_runs:
  "\<exists>rn ep. ex_episode = Inr (rn, ep) \<and> es_admitted (ep_stats ep) = 1"
proof -
  have "(case ex_episode of Inl e \<Rightarrow> False | Inr (rn, ep) \<Rightarrow> es_admitted (ep_stats ep) = 1)" by code_simp
  then show ?thesis by (auto split: sum.splits)
qed

theorem episode_returns_everything_witness:
  "\<exists>rn ep. ex_episode = Inr (rn, ep) \<and> es_admitted (ep_stats ep) = 1 \<and> rn_sub rn = reset_substrate ex_sub
    \<and> es_total (ep_stats ep) = 2"
proof -
  from ex_episode_runs obtain rn ep where r: "ex_episode = Inr (rn, ep)" "es_admitted (ep_stats ep) = 1" by blast
  from episode_returns_everything[OF ex_runner_lawful r(1)] r show ?thesis by (auto simp: ex_runner_def)
qed

theorem episode_safe_witness:
  "\<exists>rn ep. ex_episode = Inr (rn, ep) \<and> no_overbooking (rn_sub rn)
    \<and> es_admitted (ep_stats ep) = 1 \<and> es_departures (ep_stats ep) + length (active_slices (rn_sub rn)) = 1"
proof -
  from ex_episode_runs obtain rn ep where r: "ex_episode = Inr (rn, ep)" "es_admitted (ep_stats ep) = 1" by blast
  from run_loop_reaches[OF episode_reaches.fresh r(1)[unfolded run_episode_def]]
  have "episode_reaches dfs_nx ''follow_prior'' (\<lambda>_ _ _. 0) (reset_runner [1, 2] [5, 1] ex_runner) (rn, ep)" by blast
  note safe = episode_safe[OF ex_runner_lawful(1-6) this]
  then have "no_overbooking (rn_sub rn)" by (elim conjE)
  moreover from safe have "es_admitted (ep_stats ep) = es_departures (ep_stats ep) + length (active_slices (rn_sub rn))"
    by (elim conjE)
  ultimately show ?thesis using r by auto
qed

end
