(* ===== verification/Acceptance.thy ===== *)
theory Acceptance
  imports Episode_Proofs
begin

text \<open>
  The acceptance report (\<open>src/src/orion/sim/acceptance.py\<close>): every rejection goes to one bin,
  post-commit revocations before pre-commit violations. \<open>to_dict\<close> only formats and rounds.

  Lemmas: every rejected result of an episode is attributable, so over a whole episode the bins
  conserve the arrivals and \<open>unattributed\<close> stays empty.
\<close>

section \<open>Bins\<close>

definition reject_bins :: "string list" where
  "reject_bins = [''structural'', ''chain_order'', ''actor_infeasible'', ''cross_domain_infeasible'',
     ''c5b_bandwidth'', ''c7_delay'', ''c9_hops'', ''qos_gate'', ''post_commit_c2_cpu'',
     ''post_commit_c3_ram'', ''post_commit_c5b_bandwidth'', ''post_commit_c7_delay'',
     ''post_commit_plan_build'', ''unattributed'']"

definition post_commit_bins :: "(string \<times> string) list" where
  "post_commit_bins = [(''C2'', ''post_commit_c2_cpu''), (''C3'', ''post_commit_c3_ram''),
     (''C5b'', ''post_commit_c5b_bandwidth''), (''C7'', ''post_commit_c7_delay''),
     (''PLAN_BUILD'', ''post_commit_plan_build'')]"

text \<open>\<open>if revoked:\<close> is false for \<open>None\<close> and for the empty list.\<close>

definition revoked_codes :: "mdo_result \<Rightarrow> string list" where
  "revoked_codes r = (case mr_revoked_by r of None \<Rightarrow> [] | Some cs \<Rightarrow> cs)"

definition violation_bin :: "violation_info \<Rightarrow> string" where
  "violation_bin v =
     (if chain_order_violated v then ''chain_order''
      else if actor_infeasible v then ''actor_infeasible''
      else if cross_domain_infeasible v then ''cross_domain_infeasible''
      else if c5b_violated v then ''c5b_bandwidth''
      else if c7_violated v then ''c7_delay''
      else if c9_violated v then ''c9_hops''
      else ''unattributed'')"

definition classify :: "mdo_result \<Rightarrow> string" where
  "classify r =
     (if revoked_codes r \<noteq> [] then
        (case List.find (\<lambda>(code, bin). code \<in> set (revoked_codes r)) post_commit_bins of
           Some (code, bin) \<Rightarrow> bin
         | None \<Rightarrow> ''unattributed'')
      else case mr_decision r of
          None \<Rightarrow> ''unattributed''
        | Some de \<Rightarrow> (case pd_violation de of None \<Rightarrow> ''unattributed'' | Some v \<Rightarrow> violation_bin v))"

section \<open>The report\<close>

record acceptance_report =
  ar_admitted :: nat
  ar_offered :: nat
  ar_rejections :: "(string, nat) dict"

definition acceptance_of :: "acceptance_report \<Rightarrow> real" where
  "acceptance_of a = (if ar_offered a = 0 then 0 else real (ar_admitted a) / real (ar_offered a))"

definition check_conservation :: "acceptance_report \<Rightarrow> py_error + unit" where
  "check_conservation a =
     (if ar_admitted a + sum_list (vals (ar_rejections a)) \<noteq> ar_offered a then Inl ValueError else Inr ())"

definition build_report :: "episode \<Rightarrow> nat \<Rightarrow> acceptance_report" where
  "build_report ep qos_rejections =
     (let st = ep_stats ep;
          bins0 = map (\<lambda>b. (b, 0)) reject_bins;
          bins1 = AList.update ''qos_gate'' qos_rejections (AList.update ''structural'' (es_structural st) bins0);
          bins = fold (\<lambda>r. if mr_admitted r then (\<lambda>d. d) else add_at (classify r) 1) (ep_results ep) bins1
      in \<lparr>ar_admitted = es_admitted st, ar_offered = es_total st, ar_rejections = bins\<rparr>)"

section \<open>Counting\<close>

lemma report_rejections:
  "get_default (ar_rejections (build_report ep q)) b 0
   = (if b = ''structural'' then es_structural (ep_stats ep) else if b = ''qos_gate'' then q else 0)
     + length (filter (\<lambda>r. \<not> mr_admitted r \<and> classify r = b) (ep_results ep))"
proof -
  have "get_default (fold (\<lambda>r. if mr_admitted r then (\<lambda>d. d) else add_at (classify r) 1) rs d) b 0
      = get_default d b 0 + length (filter (\<lambda>r. \<not> mr_admitted r \<and> classify r = b) rs)"
    for rs and d :: "(string, nat) dict"
    by (induction rs arbitrary: d) (auto simp: get_default_add_at)
  moreover have "get_default (map (\<lambda>b. (b, 0 :: nat)) bs) b 0 = 0" for bs
    by (induction bs) (auto simp: get_default_def)
  ultimately show ?thesis by (simp add: build_report_def Let_def)
qed

lemma report_total:
  "sum_list (vals (ar_rejections (build_report ep q)))
   = es_structural (ep_stats ep) + q + length (filter (\<lambda>r. \<not> mr_admitted r) (ep_results ep))"
proof -
  have "sum_list (vals (fold (\<lambda>r. if mr_admitted r then (\<lambda>d. d) else add_at (classify r) 1) rs d))
      = sum_list (vals d) + length (filter (\<lambda>r. \<not> mr_admitted r) rs)" for rs and d :: "(string, nat) dict"
    by (induction rs arbitrary: d) (simp_all add: sum_vals_add_at)
  moreover have "sum_list (vals (AList.update ''qos_gate'' q (AList.update ''structural'' s (map (\<lambda>b. (b, 0)) reject_bins)))) = s + q" for s
    by (simp add: reject_bins_def)
  ultimately show ?thesis by (simp add: build_report_def Let_def)
qed

section \<open>Every rejection has a reason\<close>

definition attributable :: "mdo_result \<Rightarrow> bool" where
  "attributable r \<longleftrightarrow>
     (\<exists>code \<in> set (map fst post_commit_bins). code \<in> set (revoked_codes r))
     \<or> (revoked_codes r = [] \<and> (\<exists>de v. mr_decision r = Some de \<and> pd_violation de = Some v \<and> has_violation v))"

lemma classify_attributable:
  assumes "attributable r"
  shows "classify r \<noteq> ''unattributed''"
proof (cases "revoked_codes r = []")
  case True
  with assms obtain de v where "mr_decision r = Some de" "pd_violation de = Some v" "has_violation v"
    by (auto simp: attributable_def)
  then show ?thesis using True by (auto simp: classify_def violation_bin_def has_violation_iff)
next
  case False
  with assms obtain c0 b0 where "(c0, b0) \<in> set post_commit_bins" "c0 \<in> set (revoked_codes r)"
    by (auto simp: attributable_def)
  then have "List.find (\<lambda>(code, bin). code \<in> set (revoked_codes r)) post_commit_bins \<noteq> None"
    unfolding find_None_iff by blast
  then obtain c b where f: "List.find (\<lambda>(code, bin). code \<in> set (revoked_codes r)) post_commit_bins = Some (c, b)" by auto
  then have "(c, b) \<in> set post_commit_bins" by (auto simp: find_Some_iff) (metis nth_mem)
  then have "b \<noteq> ''unattributed''" by (auto simp: post_commit_bins_def)
  then show ?thesis using False f by (simp add: classify_def)
qed

lemma settle_attributable:
  assumes run: "settle req r rn st = Inr (r', v, rn', st')" and rev: "mr_revoked_by r = None"
    and "\<not> mr_admitted r \<Longrightarrow> \<exists>de v. mr_decision r = Some de \<and> pd_violation de = Some v \<and> has_violation v"
    and "mr_admitted r \<Longrightarrow> mr_partition r \<noteq> None"
    and no: "\<not> mr_admitted r'"
  shows "attributable r'"
proof (cases "mr_admitted r")
  case False
  then have "r' = r" using run by (simp add: settle_def)
  with assms(3)[OF False] rev show ?thesis by (simp add: attributable_def revoked_codes_def)
next
  case True
  with assms(4) run no consider "r' = r\<lparr>mr_admitted := False, mr_revoked_by := Some [''PLAN_BUILD'']\<rparr>"
    | x where "r' = r\<lparr>mr_admitted := False, mr_revoked_by := Some (vd_violated x)\<rparr>" "hard_penalty_fired x"
    by (auto simp: settle_def split: sum.splits option.splits if_splits)
  then show ?thesis
  proof cases
    case 1
    then show ?thesis by (simp add: attributable_def revoked_codes_def post_commit_bins_def)
  next
    case 2
    then show ?thesis by (auto simp: attributable_def revoked_codes_def post_commit_bins_def hard_penalty_fired_def)
  qed
qed

lemma resolve_outcome:
  assumes "resolve_arrival nx co rnd S req ps mode greedy ct = Inr (T, r, ct')"
  shows "mr_revoked_by r = None" and "mr_admitted r \<Longrightarrow> mr_partition r \<noteq> None"
    and "\<not> mr_admitted r \<Longrightarrow> \<exists>de v. mr_decision r = Some de \<and> pd_violation de = Some v \<and> has_violation v"
  using assms by (auto simp: resolve_arrival_def conclude_def Let_def split: sum.splits if_splits)

lemma arrival_attributable:
  assumes run: "handle_arrival nx mode rnd req (rn, ep) = Inr (rn', ep')"
    and ok: "\<forall>r \<in> set (ep_results ep). \<not> mr_admitted r \<longrightarrow> attributable r"
  shows "\<forall>r \<in> set (ep_results ep'). \<not> mr_admitted r \<longrightarrow> attributable r"
proof (cases "rn_builder rn req (rn_sub rn)")
  case None
  then show ?thesis using run ok by (auto simp: handle_arrival_def Let_def)
next
  case (Some ps)
  from run Some obtain greedy T r ct st1 r' v rn1 st2 c where
    res: "resolve_arrival nx (rn_coordinator rn) (rnd (es_total (ep_stats ep))) (rn_sub rn) req ps mode greedy (rn_counters rn)
            = Inr (T, r, ct)"
    and set: "settle req r (rn\<lparr>rn_sub := T, rn_counters := ct\<rparr>) st1 = Inr (r', v, rn1, st2)"
    and ep': "ep_results ep' = ep_results ep @ [r'\<lparr>mr_reward := c\<rparr>]"
    by (auto simp: handle_arrival_def Let_def split: sum.splits prod.splits)
  have "attributable r'" if "\<not> mr_admitted r'"
    using settle_attributable[OF set resolve_outcome(1)[OF res] resolve_outcome(3)[OF res] resolve_outcome(2)[OF res]] that by blast
  then have "attributable (r'\<lparr>mr_reward := c\<rparr>)" if "\<not> mr_admitted r'"
    using that by (simp add: attributable_def revoked_codes_def)
  then show ?thesis using ok by (auto simp: ep')
qed

lemma reaches_attributable:
  "episode_reaches nx mode rnd rn0 s \<Longrightarrow> \<forall>r \<in> set (ep_results (snd s)). \<not> mr_admitted r \<longrightarrow> attributable r"
proof (induction rule: episode_reaches.induct)
  case (event rn ep e p st)
  obtain rn' ep' where st: "st = (rn', ep')" by (cases st)
  show ?case
  proof (cases "ev_type e = DEPARTURE")
    case True
    then have "ep_results ep' = ep_results ep"
      using event(4) by (auto simp: handle_event_def st map_sum_def split: sum.splits)
    then show ?thesis using event(5) by (simp add: st)
  next
    case False
    then obtain req where "handle_arrival nx mode rnd req (rn\<lparr>rn_process := p\<rparr>, ep) = Inr (rn', ep')"
      using event(4) by (auto simp: handle_event_def st split: option.splits)
    from arrival_attributable[OF this] event(5) show ?thesis by (simp add: st)
  qed
qed (simp add: new_episode_def)

text \<open>
  C39: over a whole episode the report conserves the arrivals exactly when no QoS rejections are
  added by hand (the coordinator's own are already in the results), and no rejection is left
  unattributed.
\<close>

theorem acceptance_conserves:
  assumes "actor_pool nx (co_actors (rn_coordinator rn0))"
    and "wf_graph (rn_sub rn0)" and "typed_links (rn_sub rn0)"
    and "no_overbooking (reset_substrate (rn_sub rn0))"
    and "lawful_factory (ap_factory (rn_process rn0))"
    and "rn_max_hops rn0 = max_inter_domain_hops (co_config (rn_coordinator rn0))"
    and "run_episode nx mode rnd (reset_runner gaps lifes rn0) = Inr (rn, ep)"
  shows "(check_conservation (build_report ep q) = Inr () \<longleftrightarrow> q = 0)
    \<and> get_default (ar_rejections (build_report ep q)) ''unattributed'' 0 = 0
    \<and> 0 \<le> acceptance_of (build_report ep q) \<and> acceptance_of (build_report ep q) \<le> 1"
proof -
  from run_loop_reaches[OF episode_reaches.fresh assms(7)[unfolded run_episode_def]]
  have re: "episode_reaches nx mode rnd (reset_runner gaps lifes rn0) (rn, ep)" by blast
  have st: "stats_ok ep (length (active_slices (rn_sub rn)))"
    by (rule runner_okD(8)[OF episode_moment(1)[OF assms(1-6) re]])
  have "length (filter mr_admitted (ep_results ep)) + length (filter (\<lambda>r. \<not> mr_admitted r) (ep_results ep))
      = length (ep_results ep)" by (rule sum_length_filter_compl)
  with st have "length (filter (\<lambda>r. \<not> mr_admitted r) (ep_results ep)) = es_rejected (ep_stats ep)"
    and tot: "es_total (ep_stats ep) = es_admitted (ep_stats ep) + es_rejected (ep_stats ep) + es_structural (ep_stats ep)"
    by (auto simp: stats_ok_def Let_def)
  then have 1: "check_conservation (build_report ep q) = Inr () \<longleftrightarrow> q = 0"
    unfolding check_conservation_def report_total by (simp add: build_report_def Let_def)
  have "filter (\<lambda>r. \<not> mr_admitted r \<and> classify r = ''unattributed'') (ep_results ep) = []"
    using reaches_attributable[OF re] classify_attributable by (auto simp: filter_empty_conv)
  then have 2: "get_default (ar_rejections (build_report ep q)) ''unattributed'' 0 = 0"
    by (simp add: report_rejections)
  have 3: "0 \<le> acceptance_of (build_report ep q) \<and> acceptance_of (build_report ep q) \<le> 1"
    using tot by (simp add: acceptance_of_def build_report_def Let_def divide_le_eq_1)
  from 1 2 3 show ?thesis by blast
qed

theorem acceptance_conserves_witness:
  "\<exists>rn ep. ex_episode = Inr (rn, ep) \<and> check_conservation (build_report ep 0) = Inr ()
     \<and> check_conservation (build_report ep 1) = Inl ValueError"
proof -
  from ex_episode_runs obtain rn ep where r: "ex_episode = Inr (rn, ep)" by blast
  note A = acceptance_conserves[OF ex_runner_lawful(1-6) r]
  have "check_conservation (build_report ep 0) = Inr ()" using A[of 0] by simp
  moreover have "check_conservation (build_report ep 1) \<noteq> Inr ()" using A[of 1] by simp
  then have "check_conservation (build_report ep 1) = Inl ValueError"
    by (auto simp: check_conservation_def split: if_splits)
  ultimately show ?thesis using r by blast
qed

end
