(* ===== verification/Eval_Metrics.thy ===== *)
theory Eval_Metrics
  imports Acceptance Sampling Qos_Gate
begin

text \<open>
  What an evaluation reports beside the acceptance: the placement cost and the occupancy of the
  substrate (\<open>src/scripts/cost_metrics.py\<close>), and the shape of the committed partitions, the delay margin
  and the acceptance over time (\<open>src/scripts/structure_metrics.py\<close>). \<open>numpy.percentile\<close> is the
  parameter \<open>pct95\<close>; a mean is the sum over the number of entries.

  Theorems: the occupancy samples read what the registered slices hold; the hops of the cost table are
  the hops the verifier counts; on an episode of the coordinator no admitted chain is out of order and
  the over-budget fraction is zero, because it is computed from the coordinator's own estimate; the
  windows cover the arrivals.
\<close>

section \<open>structure\_metrics.py\<close>

definition jain :: "real list \<Rightarrow> real option" where
  "jain v =
     (if v = [] \<or> sum_list v \<le> 0 then None
      else Some (py_round ((sum_list v)\<^sup>2 / (real (length v) * (\<Sum>x \<leftarrow> v. x * x))) 4))"

definition pct :: "real list \<Rightarrow> real \<Rightarrow> real option" where
  "pct vs q =
     (if vs = [] then None
      else let n = int (length vs); i = min (n - 1) (max 0 (round_half_even (q * of_int (n - 1))))
           in Some (py_round (vs ! nat i) 4))"

record structure_row =
  sr_accepted :: nat
  sr_split_rate :: real
  sr_domains_mean :: real
  sr_domains_max :: nat
  sr_domains_hist :: "(string, nat) dict"
  sr_runs_mean :: real
  sr_noncontiguous :: nat
  sr_vnfs_per_domain :: "(int, nat) dict"
  sr_jain :: "real option"

definition runs :: "int list \<Rightarrow> nat" where
  "runs p = length (filter (\<lambda>i. i = 0 \<or> p ! (i - 1) \<noteq> p ! i) [0..<length p])"

text \<open>The load of each domain, and \<open>sorted(load.items())\<close>.\<close>

definition domain_load :: "int list list \<Rightarrow> int list \<Rightarrow> (int, nat) dict" where
  "domain_load parts doms = fold (\<lambda>p. fold (\<lambda>d. add_at d 1) p) parts (fold (\<lambda>d. AList.update d 0) doms [])"

text \<open>\<open>None\<close> stands for \<open>{"n_accepted": 0}\<close>.\<close>

definition partition_structure :: "int list list \<Rightarrow> int list \<Rightarrow> structure_row option" where
  "partition_structure parts0 doms =
     (let parts = filter (\<lambda>p. p \<noteq> []) parts0;
          distincts = map (\<lambda>p. card (set p)) parts;
          load = domain_load parts doms;
          hist = fold (\<lambda>n. add_at (decimal n) 1) distincts [];
          n = real (length parts)
      in if parts = [] then None
         else Some \<lparr>sr_accepted = length parts,
           sr_split_rate = py_round (real (length (filter (\<lambda>d. d > 1) distincts)) / n) 4,
           sr_domains_mean = py_round (real (sum_list distincts) / n) 3,
           sr_domains_max = Max (set distincts),
           sr_domains_hist = hist,
           sr_runs_mean = py_round (real (sum_list (map runs parts)) / n) 3,
           sr_noncontiguous = length (filter (\<lambda>p. runs p \<noteq> card (set p)) parts),
           sr_vnfs_per_domain = sort_key fst load,
           sr_jain = jain (map real (vals load))\<rparr>)"

record margin_row =
  mg_n :: nat
  mg_mean :: real
  mg_p95 :: "real option"
  mg_ratio_mean :: real
  mg_ratio_p95 :: "real option"
  mg_over :: real

text \<open>A delay may be infinite; \<open>None\<close> stands for \<open>{"n": 0}\<close>.\<close>

definition qos_margin :: "(xreal \<times> real) list \<Rightarrow> margin_row option" where
  "qos_margin pairs =
     (let good = List.map_filter (\<lambda>(e, b). case e of Fin x \<Rightarrow> if b > 0 then Some (x, b) else None | PInf \<Rightarrow> None) pairs;
          ratios = sort (map (\<lambda>(e, b). e / b) good);
          delays = sort (map fst good)
      in if good = [] then None
         else Some \<lparr>mg_n = length good,
           mg_mean = py_round (sum_list delays / real (length delays)) 4,
           mg_p95 = pct delays (95 / 100),
           mg_ratio_mean = py_round (sum_list ratios / real (length ratios)) 4,
           mg_ratio_p95 = pct ratios (95 / 100),
           mg_over = py_round (real (length (filter (\<lambda>r. r > 1) ratios)) / real (length ratios)) 4\<rparr>)"

record windows_row =
  wn_window :: nat
  wn_series :: "real list"
  wn_steady :: "real option"
  wn_first :: "real option"
  wn_last :: "real option"

definition rate :: "bool list \<Rightarrow> real" where
  "rate c = py_round (real (length (filter id c)) / real (length c)) 4"

definition acceptance_windows :: "bool list \<Rightarrow> nat \<Rightarrow> py_error + windows_row" where
  "acceptance_windows outcomes window =
     (if outcomes = [] then
        Inr \<lparr>wn_window = window, wn_series = [], wn_steady = None, wn_first = None, wn_last = None\<rparr>
      else if window = 0 then Inl ValueError
      else
        let series = map rate (filter (\<lambda>c. c \<noteq> []) (chunks window outcomes));
            half = drop (length series div 2) series;
            late = (if half \<noteq> [] then half else series)
        in Inr \<lparr>wn_window = window, wn_series = series,
                wn_steady = Some (py_round (sum_list late / real (length late)) 4),
                wn_first = Some (hd series), wn_last = Some (last series)\<rparr>)"

record episode_metrics =
  em_structure :: "structure_row option"
  em_qos :: "margin_row option"
  em_timeseries :: windows_row

text \<open>\<open>from_episode\<close>: the delay and the budget of an admitted result are paired when its request is
  known and its budget is not zero.\<close>

definition from_episode :: "episode \<Rightarrow> 'a graph_scheme \<Rightarrow> (string, slice_request) dict \<Rightarrow> py_error + episode_metrics" where
  "from_episode ep g by_id =
     (let good = filter mr_admitted (ep_results ep);
          parts = List.map_filter (\<lambda>r. case mr_partition r of Some p \<Rightarrow> if p = [] then None else Some p | None \<Rightarrow> None) good;
          pairs = List.map_filter (\<lambda>r. case map_of by_id (mr_request r) of
              None \<Rightarrow> None
            | Some req \<Rightarrow> if max_e2e_delay (qos_of req) = 0 then None
                else Some (Fin (mr_e2e_delay r), max_e2e_delay (qos_of req))) good
      in map_sum id (\<lambda>w. \<lparr>em_structure = partition_structure parts (py_set (map (\<lambda>(n, d). domain_id d) (g_nodes g))),
              em_qos = qos_margin pairs, em_timeseries = w\<rparr>)
           (acceptance_windows (map mr_admitted (ep_results ep)) 200))"

section \<open>cost\_metrics.py\<close>

definition link_endpoint_map :: "'a graph_scheme \<Rightarrow> (link_id, node_id \<times> node_id) dict" where
  "link_endpoint_map g = fold (\<lambda>(e, d). AList.update (link_id d) e) (g_edges g) []"

record cost_row =
  cr_demand :: real
  cr_k :: nat
  cr_hops :: nat
  cr_bw :: real

record occupancy =
  oc_cpu :: real
  oc_ram :: real
  oc_cpu_p95 :: real
  oc_ram_p95 :: real
  oc_over90 :: real
  oc_inter :: real
  oc_intra :: real
  oc_cpu_tier :: "(tier, real) dict"
  oc_ram_tier :: "(tier, real) dict"

record cost_acc =
  ca_links :: "(link_id, node_id \<times> node_id) dict"
  ca_rows :: "cost_row list"
  ca_nodes :: "node_id list"
  ca_tier_of :: "(node_id, tier) dict"
  ca_tiers :: "tier list"
  ca_cpu_cap :: "(node_id, real) dict"
  ca_ram_cap :: "(node_id, real) dict"
  ca_inter :: "((node_id \<times> node_id) \<times> real) list"
  ca_intra :: "((node_id \<times> node_id) \<times> real) list"
  ca_samples :: "occupancy list"

text \<open>\<open>sorted\<close> puts the tiers in the order of their string values.\<close>

definition tiers_by_value :: "tier list" where
  "tiers_by_value = [CentralCloud, Edge, RegionalCloud]"

definition capped_edges :: "'a graph_scheme \<Rightarrow> ((node_id \<times> node_id) \<times> real) list" where
  "capped_edges g = map (\<lambda>(e, d). (e, bandwidth_capacity d)) (filter (\<lambda>(e, d). bandwidth_capacity d > 0) (g_edges g))"

definition new_cost_acc :: "'a graph_scheme \<Rightarrow> cost_acc" where
  "new_cost_acc g =
     \<lparr>ca_links = link_endpoint_map g, ca_rows = [], ca_nodes = keys (g_nodes g),
      ca_tier_of = map (\<lambda>(n, d). (n, node_tier d)) (g_nodes g),
      ca_tiers = filter (\<lambda>t. t \<in> set (map (node_tier \<circ> snd) (g_nodes g))) tiers_by_value,
      ca_cpu_cap = map (\<lambda>(n, d). (n, cpu_capacity d)) (g_nodes g),
      ca_ram_cap = map (\<lambda>(n, d). (n, ram_capacity d)) (g_nodes g),
      ca_inter = filter (\<lambda>(e, c). crosses g e) (capped_edges g),
      ca_intra = filter (\<lambda>(e, c). \<not> crosses g e) (capped_edges g),
      ca_samples = []\<rparr>"

definition tier_total :: "cost_acc \<Rightarrow> tier \<Rightarrow> (node_id, real) dict \<Rightarrow> real" where
  "tier_total acc t per_node =
     (\<Sum>n \<leftarrow> filter (\<lambda>n. map_of (ca_tier_of acc) n = Some t) (ca_nodes acc). get_default per_node n 0)"

text \<open>What is in use on each node the accumulator knows.\<close>

fun node_use :: "(node_data \<Rightarrow> real) \<Rightarrow> (node_id, real) dict \<Rightarrow> 'a graph_scheme \<Rightarrow> node_id list
    \<Rightarrow> py_error + (node_id, real) dict" where
  "node_use residual cap g [] = Inr []"
| "node_use residual cap g (n # ns) =
     (case (map_of cap n, node_at g n) of
        (Some c, Inr d) \<Rightarrow> map_sum id ((#) (n, c - residual d)) (node_use residual cap g ns)
      | _ \<Rightarrow> Inl KeyError)"

fun bw_use :: "'a graph_scheme \<Rightarrow> ((node_id \<times> node_id) \<times> real) list \<Rightarrow> py_error + real" where
  "bw_use g [] = Inr 0"
| "bw_use g ((e, c) # es) =
     (case map_of (g_edges g) e of
        None \<Rightarrow> Inl KeyError
      | Some d \<Rightarrow> map_sum id ((+) (c - bw_residual d)) (bw_use g es))"

definition edge_util :: "'a graph_scheme \<Rightarrow> ((node_id \<times> node_id) \<times> real) list \<Rightarrow> py_error + real" where
  "edge_util g es =
     (let cap = sum_list (map snd es)
      in if cap \<le> 0 then Inr 0 else map_sum id (\<lambda>used. used / cap) (bw_use g es))"

definition fractions :: "(node_id, real) dict \<Rightarrow> (node_id, real) dict \<Rightarrow> real list" where
  "fractions used cap = List.map_filter (\<lambda>(n, u). let c = get_default cap n 0 in if c > 0 then Some (u / c) else None) used"

definition sample_utilization :: "(real list \<Rightarrow> real) \<Rightarrow> 'a graph_scheme \<Rightarrow> cost_acc \<Rightarrow> py_error + cost_acc" where
  "sample_utilization pct95 g acc =
     (case node_use cpu_residual (ca_cpu_cap acc) g (ca_nodes acc) of
        Inl e \<Rightarrow> Inl e
      | Inr cpu \<Rightarrow>
     (case node_use ram_residual (ca_ram_cap acc) g (ca_nodes acc) of
        Inl e \<Rightarrow> Inl e
      | Inr ram \<Rightarrow>
     (case edge_util g (ca_inter acc) of
        Inl e \<Rightarrow> Inl e
      | Inr iu \<Rightarrow>
     (case edge_util g (ca_intra acc) of
        Inl e \<Rightarrow> Inl e
      | Inr au \<Rightarrow>
         let fc = fractions cpu (ca_cpu_cap acc); fr = fractions ram (ca_ram_cap acc);
             row = \<lparr>oc_cpu = sum_list (vals cpu), oc_ram = sum_list (vals ram),
               oc_cpu_p95 = (if fc = [] then 0 else pct95 fc), oc_ram_p95 = (if fr = [] then 0 else pct95 fr),
               oc_over90 = (if fc = [] then 0 else real (length (filter (\<lambda>u. u \<ge> 9 / 10) fc)) / real (length fc)),
               oc_inter = iu, oc_intra = au,
               oc_cpu_tier = map (\<lambda>t. (t, tier_total acc t cpu)) (ca_tiers acc),
               oc_ram_tier = map (\<lambda>t. (t, tier_total acc t ram)) (ca_tiers acc)\<rparr>
         in Inr (acc\<lparr>ca_samples := ca_samples acc @ [row]\<rparr>)))))"

text \<open>The rows of the admitted slices.\<close>

definition inter_links :: "'a graph_scheme \<Rightarrow> cost_acc \<Rightarrow> link_id list \<Rightarrow> nat" where
  "inter_links g acc ls =
     length (filter (\<lambda>l. case map_of (ca_links acc) l of None \<Rightarrow> False | Some e \<Rightarrow> crosses g e) ls)"

definition push_cost :: "slice_request \<Rightarrow> nat \<Rightarrow> real \<Rightarrow> cost_acc \<Rightarrow> cost_acc" where
  "push_cost req hops bwh acc =
     acc\<lparr>ca_rows := ca_rows acc @
       [\<lparr>cr_demand = (\<Sum>v \<leftarrow> vnfs req. cpu_demand v + ram_demand v), cr_k = length (vnfs req),
         cr_hops = hops, cr_bw = bwh\<rparr>]\<rparr>"

definition route_cost :: "'a graph_scheme \<Rightarrow> cost_acc \<Rightarrow> (flow_key \<Rightarrow> real) \<Rightarrow> (flow_key, link_id list) dict \<Rightarrow> nat \<times> real" where
  "route_cost g acc bw routes =
     fold (\<lambda>(flow, links) (hops, bwh). let h = inter_links g acc links in (hops + h, bwh + real h * bw flow)) routes (0, 0)"

definition add_plan :: "'a graph_scheme \<Rightarrow> slice_request \<Rightarrow> placement_plan \<Rightarrow> cost_acc \<Rightarrow> cost_acc" where
  "add_plan g req plan acc =
     (let bw_by_flow = fold (\<lambda>fe. AList.update (flow_key_of fe) (bandwidth_demand fe)) (flow_edges req) [];
          (hops, bwh) = route_cost g acc (\<lambda>f. get_default bw_by_flow f 0) (flow_routes plan)
      in push_cost req hops bwh acc)"

definition add_mdo :: "'a graph_scheme \<Rightarrow> slice_request \<Rightarrow> mdo_result \<Rightarrow> cost_acc \<Rightarrow> cost_acc" where
  "add_mdo g req r acc =
     (let (hops, bwh) = route_cost g acc (\<lambda>f. get_default (mr_cross_bw r) f 0) (mr_cross_routes r)
      in push_cost req hops bwh acc)"

definition mean_of :: "('a \<Rightarrow> real) \<Rightarrow> 'a list \<Rightarrow> real" where
  "mean_of f xs = sum_list (map f xs) / real (length xs)"

record cost_summary =
  cm_n :: nat
  cm_demand :: real
  cm_k :: real
  cm_hops :: real
  cm_bw :: real

text \<open>\<open>None\<close> stands for \<open>{"n_admitted": 0}\<close>.\<close>

definition cost_summary_of :: "cost_acc \<Rightarrow> cost_summary option" where
  "cost_summary_of acc =
     (let rows = ca_rows acc; mean = (\<lambda>f. py_round (mean_of f rows) 2)
      in if rows = [] then None
         else Some \<lparr>cm_n = length rows, cm_demand = mean cr_demand, cm_k = mean (real \<circ> cr_k),
                    cm_hops = mean (real \<circ> cr_hops), cm_bw = mean cr_bw\<rparr>)"

record utilization_row =
  ut_samples :: nat
  ut_cpu_mean :: real
  ut_ram_mean :: real
  ut_cpu_capacity :: real
  ut_ram_capacity :: real
  ut_cpu_util :: "real option"
  ut_ram_util :: "real option"
  ut_cpu_p95 :: real
  ut_ram_p95 :: real
  ut_over90 :: real
  ut_inter :: real
  ut_intra :: real
  ut_cpu_tier :: "(tier, real) dict"
  ut_ram_tier :: "(tier, real) dict"
  ut_per_admit :: "(real \<times> real) option"

definition tier_util :: "cost_acc \<Rightarrow> (node_id, real) dict \<Rightarrow> (occupancy \<Rightarrow> (tier, real) dict) \<Rightarrow> (tier, real) dict" where
  "tier_util acc cap used =
     List.map_filter (\<lambda>t. let c = tier_total acc t cap in
       if c = 0 then None
       else Some (t, py_round (mean_of (\<lambda>s. get_default (used s) t 0) (ca_samples acc) / c) 4)) (ca_tiers acc)"

text \<open>\<open>None\<close> stands for \<open>{"n_samples": 0}\<close>.\<close>

definition utilization_summary :: "cost_acc \<Rightarrow> utilization_row option" where
  "utilization_summary acc =
     (let ss = ca_samples acc; cpu = mean_of oc_cpu ss; ram = mean_of oc_ram ss;
          ccap = sum_list (vals (ca_cpu_cap acc)); rcap = sum_list (vals (ca_ram_cap acc));
          n = real (length (ca_rows acc))
      in if ss = [] then None
         else Some \<lparr>ut_samples = length ss, ut_cpu_mean = py_round cpu 2, ut_ram_mean = py_round ram 2,
           ut_cpu_capacity = py_round ccap 2, ut_ram_capacity = py_round rcap 2,
           ut_cpu_util = (if ccap = 0 then None else Some (py_round (cpu / ccap) 4)),
           ut_ram_util = (if rcap = 0 then None else Some (py_round (ram / rcap) 4)),
           ut_cpu_p95 = py_round (mean_of oc_cpu_p95 ss) 4, ut_ram_p95 = py_round (mean_of oc_ram_p95 ss) 4,
           ut_over90 = py_round (mean_of oc_over90 ss) 4,
           ut_inter = py_round (mean_of oc_inter ss) 4, ut_intra = py_round (mean_of oc_intra ss) 4,
           ut_cpu_tier = tier_util acc (ca_cpu_cap acc) oc_cpu_tier,
           ut_ram_tier = tier_util acc (ca_ram_cap acc) oc_ram_tier,
           ut_per_admit = (if ca_rows acc = [] then None else Some (py_round (cpu / n) 3, py_round (ram / n) 3))\<rparr>)"

section \<open>Occupancy\<close>

lemma py_round_zero [simp]: "py_round 0 n = 0"
  by (simp add: py_round_def round_half_even_def)

lemma new_cost_acc_reset: "new_cost_acc (reset_substrate S) = new_cost_acc S"
proof -
  have d: "domain_of (reset_substrate S) n = domain_of S n" for n
    by (simp add: domain_of_def reset_substrate_def map_of_map_keyed[where f = "\<lambda>_ d. d\<lparr>cpu_residual := cpu_capacity d, ram_residual := ram_capacity d\<rparr>"]
        split: option.split)
  have "crosses (reset_substrate S) = crosses S" by (rule ext) (simp add: crosses_def d)
  moreover have "link_endpoint_map (reset_substrate S) = link_endpoint_map S"
    by (simp add: link_endpoint_map_def reset_substrate_def fold_map comp_def case_prod_unfold)
  moreover have "capped_edges (reset_substrate S) = capped_edges S"
    by (simp add: capped_edges_def reset_substrate_def filter_map comp_def case_prod_unfold)
  ultimately show ?thesis
    by (simp add: new_cost_acc_def) (simp add: reset_substrate_def comp_def case_prod_unfold image_image)
qed

lemma reachable_reset: "reachable S0 S \<Longrightarrow> reset_substrate S = reset_substrate S0"
  by (induction rule: reachable.induct)
     (auto simp: reset_idem allocate_Inr_iff deallocate_Inr_iff reset_active reset_charge reset_refund)

lemma node_use_all:
  assumes "distinct (keys (g_nodes g))" and "set xs \<subseteq> set (g_nodes g)"
  shows "node_use residual (map (\<lambda>(n, d). (n, cap d)) (g_nodes g)) g (keys xs)
    = Inr (map (\<lambda>(n, d). (n, cap d - residual d)) xs)"
  using assms(2)
proof (induction xs)
  case (Cons x xs)
  obtain n d where x: "x = (n, d)" by (cases x)
  have n: "map_of (g_nodes g) n = Some d" using Cons.prems assms(1) by (simp add: x)
  have "map_of (map (\<lambda>(n, d). (n, cap d)) (g_nodes g)) n = Some (cap d)"
    using n by (simp add: map_of_map_keyed[where f = "\<lambda>_ d. cap d"])
  then show ?case using Cons n by (simp add: x node_at_def)
qed simp

lemma bw_use_all:
  assumes "distinct (keys (g_edges g))" and "set xs \<subseteq> set (g_edges g)"
  shows "bw_use g (map (\<lambda>(e, d). (e, bandwidth_capacity d)) xs)
    = Inr (\<Sum>(e, d) \<leftarrow> xs. bandwidth_capacity d - bw_residual d)"
  using assms(2)
proof (induction xs)
  case (Cons x xs)
  obtain e d where x: "x = (e, d)" by (cases x)
  have "map_of (g_edges g) e = Some d" using Cons.prems assms(1) by (simp add: x)
  then show ?case using Cons by (simp add: x)
qed simp

lemma edge_util_bounds:
  assumes "distinct (keys (g_edges g))"
    and es: "es = filter P (capped_edges g)"
  shows "\<exists>u. edge_util g es = Inr u \<and> (within_capacity g \<longrightarrow> 0 \<le> u \<and> u \<le> 1)"
proof -
  let ?xs = "filter (\<lambda>x. P (case x of (e, d) \<Rightarrow> (e, bandwidth_capacity d))) (filter (\<lambda>(e, d). bandwidth_capacity d > 0) (g_edges g))"
  have es': "es = map (\<lambda>(e, d). (e, bandwidth_capacity d)) ?xs"
    unfolding es capped_edges_def filter_map by (simp only: comp_def)
  let ?use = "\<Sum>(e, d) \<leftarrow> ?xs. bandwidth_capacity d - bw_residual d"
  let ?cap = "sum_list (map snd es)"
  have cap: "?cap = (\<Sum>(e, d) \<leftarrow> ?xs. bandwidth_capacity d)"
    unfolding es' by (simp add: comp_def case_prod_unfold)
  have use: "bw_use g es = Inr ?use" unfolding es' by (rule bw_use_all[OF assms(1)]) auto
  have "0 \<le> ?use \<and> ?use \<le> ?cap" if "within_capacity g"
  proof
    have b: "0 \<le> bw_residual (snd x) \<and> bw_residual (snd x) \<le> bandwidth_capacity (snd x)" if "x \<in> set ?xs" for x
      using that \<open>within_capacity g\<close> by (auto simp: within_capacity_def no_overbooking_def)
    show "0 \<le> ?use" by (rule sum_list_nonneg) (use b in \<open>auto simp: case_prod_unfold\<close>)
    show "?use \<le> ?cap" unfolding cap by (rule sum_list_mono) (use b in \<open>auto simp: case_prod_unfold\<close>)
  qed
  then show ?thesis by (auto simp: edge_util_def Let_def use divide_le_eq_1)
qed

text \<open>Summed over all nodes, a batch of claims on known nodes posts its total.\<close>

lemma posted_over_nodes:
  assumes "distinct ns" and "\<forall>(n, a) \<in> set claims. n \<in> set ns"
  shows "(\<Sum>n \<leftarrow> ns. posted_cpu n claims) = (\<Sum>(n, a) \<leftarrow> claims. fst a)
    \<and> (\<Sum>n \<leftarrow> ns. posted_ram n claims) = (\<Sum>(n, a) \<leftarrow> claims. snd a)"
  using assms(2)
proof (induction claims)
  case (Cons x claims)
  obtain n a where x: "x = (n, a)" by (cases x)
  have one: "(\<Sum>k \<leftarrow> ns. if n = k then y else 0) = y" for y :: real
    using assms(1) Cons.prems by (simp add: x sum_list_distinct_conv_sum_set)
  with Cons show ?case by (simp add: x sum_list_addf)
qed simp

lemma reachable_resolves: "reachable S0 S \<Longrightarrow> \<forall>(rid, plan, req) \<in> set (active_slices S). plan_resolves plan S"
proof (induction rule: reachable.induct)
  case (depart S req plan T)
  have k: "keys (g_nodes T) = keys (g_nodes S)" and a: "set (active_slices T) \<subseteq> set (active_slices S)"
    using depart(3) by (auto simp: deallocate_Inr_iff refund_def charge_simps AList.delete_eq)
  from depart(4) a show ?case unfolding plan_resolves_def k by blast
qed (auto simp: allocate_Inr_iff)

lemma held_over_nodes:
  assumes "reachable S0 S" and "wf_graph S0"
  shows "(\<Sum>n \<leftarrow> keys (g_nodes S). cpu_held S n) = (\<Sum>(n, a) \<leftarrow> held_nodes S. fst a)"
    and "(\<Sum>n \<leftarrow> keys (g_nodes S). ram_held S n) = (\<Sum>(n, a) \<leftarrow> held_nodes S. snd a)"
proof -
  have d: "distinct (keys (g_nodes S))" using reachable_wf[OF assms] by (simp add: wf_graph_def)
  have "\<forall>(n, a) \<in> set (held_nodes S). n \<in> set (keys (g_nodes S))"
    using reachable_resolves[OF assms(1)] by (fastforce simp: plan_resolves_def node_claims_def)
  note P = posted_over_nodes[OF d this]
  have "posted_cpu n (held_nodes S) = cpu_held S n" "posted_ram n (held_nodes S) = ram_held S n" for n
    by (simp_all add: cpu_held_def ram_held_def posted_cpu_concat posted_ram_concat comp_def case_prod_unfold)
  then show "(\<Sum>n \<leftarrow> keys (g_nodes S). cpu_held S n) = (\<Sum>(n, a) \<leftarrow> held_nodes S. fst a)"
    and "(\<Sum>n \<leftarrow> keys (g_nodes S). ram_held S n) = (\<Sum>(n, a) \<leftarrow> held_nodes S. snd a)"
    using P by simp_all
qed

lemma sum_by_class:
  assumes "distinct ts" and "h ` set xs \<subseteq> set ts"
  shows "(\<Sum>t \<leftarrow> ts. \<Sum>x \<leftarrow> filter (\<lambda>x. h x = t) xs. f x) = (\<Sum>x \<leftarrow> xs. f x :: real)"
  using assms(2)
proof (induction xs)
  case (Cons x xs)
  have "(\<Sum>t \<leftarrow> ts. if h x = t then f x else 0) = f x"
    using assms(1) Cons.prems by (simp add: sum_list_distinct_conv_sum_set)
  moreover have "(\<Sum>y \<leftarrow> filter (\<lambda>y. h y = t) (x # xs). f y)
      = (if h x = t then f x else 0) + (\<Sum>y \<leftarrow> filter (\<lambda>y. h y = t) xs. f y)" for t by simp
  ultimately show ?case using Cons by (simp only: sum_list_addf) simp
qed simp

lemma tier_total_keyed:
  assumes "distinct (keys (g_nodes g))"
  shows "tier_total (new_cost_acc g) t (map (\<lambda>(n, d). (n, h d)) (g_nodes g))
    = (\<Sum>x \<leftarrow> filter (\<lambda>x. node_tier (snd x) = t) (g_nodes g). h (snd x))"
proof -
  have look: "map_of (map (\<lambda>(n, d). (n, k d)) (g_nodes g)) n = Some (k d)" if "(n, d) \<in> set (g_nodes g)" for k n d
    using map_of_is_SomeI[OF assms that] by (simp add: map_of_map_keyed[where f = "\<lambda>_. k"])
  show ?thesis unfolding tier_total_def new_cost_acc_def cost_acc.simps filter_map
    by (auto simp: comp_def look get_default_def intro!: arg_cong[of _ _ sum_list] map_cong filter_cong)
qed

lemma tiers_by_value_all: "distinct tiers_by_value" "t \<in> set tiers_by_value"
  by (cases t; simp add: tiers_by_value_def)+

text \<open>
  Occupancy. Sampled on any substrate the allocations and releases of an episode can produce, with
  the capacities read at its start, the CPU and RAM in use are the demand of the registered slices and
  nothing else, the per-tier figures add up to the total, and while no residual leaves its range the
  bandwidth figures are fractions of one and the CPU in use is within the capacity.
\<close>

theorem occupancy_is_held:
  assumes reach: "reachable S0 S" and wf: "wf_graph S0"
  shows "\<exists>row. sample_utilization pct95 S (new_cost_acc S0) = Inr ((new_cost_acc S0)\<lparr>ca_samples := [row]\<rparr>)
    \<and> oc_cpu row = (\<Sum>(n, a) \<leftarrow> held_nodes S. fst a) \<and> oc_ram row = (\<Sum>(n, a) \<leftarrow> held_nodes S. snd a)
    \<and> sum_list (vals (oc_cpu_tier row)) = oc_cpu row \<and> sum_list (vals (oc_ram_tier row)) = oc_ram row
    \<and> (within_capacity S \<longrightarrow> 0 \<le> oc_inter row \<and> oc_inter row \<le> 1 \<and> 0 \<le> oc_intra row \<and> oc_intra row \<le> 1
        \<and> 0 \<le> oc_cpu row \<and> oc_cpu row \<le> sum_list (vals (ca_cpu_cap (new_cost_acc S0))))"
proof -
  let ?acc = "new_cost_acc S" and ?V = "g_nodes S"
  have acc: "new_cost_acc S0 = ?acc"
    using new_cost_acc_reset[of S] new_cost_acc_reset[of S0] reachable_reset[OF reach] by simp
  have dn: "distinct (keys ?V)" and de: "distinct (keys (g_edges S))"
    using reachable_wf[OF reach wf] by (simp_all add: wf_graph_def)
  let ?cpu = "map (\<lambda>(n, d). (n, cpu_capacity d - cpu_residual d)) ?V"
  let ?ram = "map (\<lambda>(n, d). (n, ram_capacity d - ram_residual d)) ?V"
  have use: "node_use cpu_residual (ca_cpu_cap ?acc) S (ca_nodes ?acc) = Inr ?cpu"
    "node_use ram_residual (ca_ram_cap ?acc) S (ca_nodes ?acc) = Inr ?ram"
    unfolding new_cost_acc_def cost_acc.simps by (rule node_use_all[OF dn order_refl])+
  obtain iu where iu: "edge_util S (ca_inter ?acc) = Inr iu" "within_capacity S \<longrightarrow> 0 \<le> iu \<and> iu \<le> 1"
    using edge_util_bounds[OF de, of "ca_inter ?acc" "\<lambda>(e, c). crosses S e"] by (auto simp: new_cost_acc_def)
  obtain au where au: "edge_util S (ca_intra ?acc) = Inr au" "within_capacity S \<longrightarrow> 0 \<le> au \<and> au \<le> 1"
    using edge_util_bounds[OF de, of "ca_intra ?acc" "\<lambda>(e, c). \<not> crosses S e"] by (auto simp: new_cost_acc_def)
  have held: "cpu_capacity (snd x) - cpu_residual (snd x) = cpu_held S (fst x)
      \<and> ram_capacity (snd x) - ram_residual (snd x) = ram_held S (fst x)" if "x \<in> set ?V" for x
    using reachable_residuals[OF reach wf] that by (auto simp: case_prod_unfold)
  have sums: "sum_list (vals ?cpu) = (\<Sum>(n, a) \<leftarrow> held_nodes S. fst a)"
    "sum_list (vals ?ram) = (\<Sum>(n, a) \<leftarrow> held_nodes S. snd a)"
    unfolding held_over_nodes[OF reach wf, symmetric]
    by (auto simp: comp_def case_prod_unfold held intro!: arg_cong[of _ _ sum_list])
  have tiers: "(\<Sum>t \<leftarrow> ca_tiers ?acc. tier_total ?acc t (map (\<lambda>(n, d). (n, h d)) ?V))
      = sum_list (vals (map (\<lambda>(n, d). (n, h d)) ?V))" for h
    unfolding tier_total_keyed[OF dn]
    by (subst sum_by_class) (auto simp: new_cost_acc_def tiers_by_value_all comp_def case_prod_unfold)
  have cap: "0 \<le> sum_list (vals ?cpu) \<and> sum_list (vals ?cpu) \<le> sum_list (vals (ca_cpu_cap ?acc))" if "within_capacity S"
    unfolding new_cost_acc_def cost_acc.simps using that
    by (fastforce simp: comp_def case_prod_unfold within_capacity_def no_overbooking_def intro!: sum_list_nonneg sum_list_mono)
  have nil: "ca_samples ?acc = []" by (simp add: new_cost_acc_def)
  have "\<exists>row. sample_utilization pct95 S ?acc = Inr (?acc\<lparr>ca_samples := [row]\<rparr>)
      \<and> oc_cpu row = sum_list (vals ?cpu) \<and> oc_ram row = sum_list (vals ?ram) \<and> oc_inter row = iu \<and> oc_intra row = au
      \<and> oc_cpu_tier row = map (\<lambda>t. (t, tier_total ?acc t ?cpu)) (ca_tiers ?acc)
      \<and> oc_ram_tier row = map (\<lambda>t. (t, tier_total ?acc t ?ram)) (ca_tiers ?acc)"
    unfolding sample_utilization_def use iu(1) au(1) sum.case Let_def nil append_Nil
    by (intro exI conjI) (rule refl, simp_all only: occupancy.simps)
  then obtain row where row: "sample_utilization pct95 S ?acc = Inr (?acc\<lparr>ca_samples := [row]\<rparr>)"
      "oc_cpu row = sum_list (vals ?cpu)" "oc_ram row = sum_list (vals ?ram)" "oc_inter row = iu" "oc_intra row = au"
      "oc_cpu_tier row = map (\<lambda>t. (t, tier_total ?acc t ?cpu)) (ca_tiers ?acc)"
      "oc_ram_tier row = map (\<lambda>t. (t, tier_total ?acc t ?ram)) (ca_tiers ?acc)" by blast
  have vm: "vals (map (\<lambda>t. (t, f t)) ts) = map f ts" for f :: "tier \<Rightarrow> real" and ts by simp
  show ?thesis unfolding acc
    using row(1) row(2-7) iu(2) au(2) cap sums tiers[of "\<lambda>d. cpu_capacity d - cpu_residual d"] tiers[of "\<lambda>d. ram_capacity d - ram_residual d"]
    by (intro exI[of _ row]) (simp only: vm, blast)
qed

theorem occupancy_is_held_witness:
  "\<exists>T row. allocate (reset_substrate ex_sub) ex_plan ex_req = Inr T
    \<and> sample_utilization (\<lambda>xs. 0) T (new_cost_acc ex_sub) = Inr ((new_cost_acc ex_sub)\<lparr>ca_samples := [row]\<rparr>)
    \<and> oc_cpu row = 10"
proof -
  let ?T = "projr (allocate (reset_substrate ex_sub) ex_plan ex_req)"
  have T: "allocate (reset_substrate ex_sub) ex_plan ex_req = Inr ?T" by code_simp
  have "reachable ex_sub ?T" by (rule reachable.admit[OF reachable.reset T])
  moreover have "wf_graph ex_sub" by code_simp
  ultimately have "\<exists>row. sample_utilization (\<lambda>xs. 0) ?T (new_cost_acc ex_sub) = Inr ((new_cost_acc ex_sub)\<lparr>ca_samples := [row]\<rparr>)
      \<and> oc_cpu row = (\<Sum>(n, a) \<leftarrow> held_nodes ?T. fst a)" using occupancy_is_held by blast
  moreover have "(\<Sum>(n, a) \<leftarrow> held_nodes ?T. fst a) = 10" by code_simp
  ultimately show ?thesis using T by auto
qed

section \<open>Hops\<close>

lemma map_of_first: "map_of (map (\<lambda>p. (fst p, fst (snd p))) xs) l = map_option fst (map_of xs l)"
  by (induction xs) auto

lemma inter_links_crosses:
  assumes wf: "wf_graph g"
  shows "inter_links g (new_cost_acc g) ls = length (filter (link_crosses g) ls)"
proof -
  have ids: "distinct (link_ids (g_edges g))" using wf by (simp add: wf_graph_def)
  have "map_of (link_endpoint_map g) l = map_option fst (link_by_id g l)" for l
  proof -
    have "rev (map (\<lambda>x. (link_id (snd x), fst x)) (g_edges g))
        = map (\<lambda>p. (fst p, fst (snd p))) (rev (map (\<lambda>(e, d). (link_id d, e, d)) (g_edges g)))"
      by (simp add: rev_map comp_def case_prod_unfold)
    then show ?thesis unfolding link_endpoint_map_def link_by_id_def case_prod_unfold map_of_updates
      by (simp add: map_of_first split: option.split)
  qed
  then have "(case map_of (ca_links (new_cost_acc g)) l of None \<Rightarrow> False | Some e \<Rightarrow> crosses g e) = link_crosses g l" for l
    by (simp add: new_cost_acc_def link_by_id_find[OF ids] link_crosses_def split: option.split)
  then show ?thesis by (simp add: inter_links_def)
qed

lemma route_cost_hops:
  "fst (fold (\<lambda>(flow, links) (hops, bwh). let h = inter_links g acc links in (hops + h, bwh + real h * bw flow)) routes (k, b))
   = k + (\<Sum>(flow, links) \<leftarrow> routes. inter_links g acc links)"
  by (induction routes arbitrary: k b) (auto simp: Let_def)

lemma count_inter_known: "count_inter g ls k = Inr h \<Longrightarrow> set ls \<subseteq> set (link_ids (g_edges g))"
proof (induction ls arbitrary: k)
  case (Cons l ls)
  then obtain d where "link_edge g l = Inr d" by (auto split: sum.splits)
  then have "find_link l (g_edges g) \<noteq> None" by (auto simp: link_edge_def split: option.splits)
  then have "l \<in> set (link_ids (g_edges g))" by (simp only: find_link_None not_not)
  then show ?case using Cons by (auto split: sum.splits)
qed simp

text \<open>
  The hops the cost table charges an admitted slice for are the hops the ground-truth verifier
  counts for its plan, although one reads the domains of a link's endpoints and the other the type
  stored on the link; so the table's figure is within the hop limit unless C9 was reported.
\<close>

theorem cost_hops_are_verified_hops:
  assumes wf: "wf_graph g" and typed: "typed_links g" and v: "verify_committed_plan g plan req limit = Inr v"
  shows "cr_hops (last (ca_rows (add_plan g req plan (new_cost_acc g)))) = vt_hops (vd_details v)
    \<and> (''C9'' \<notin> set (vd_violated v) \<longrightarrow> cr_hops (last (ca_rows (add_plan g req plan (new_cost_acc g)))) \<le> limit)"
proof -
  let ?ls = "concat (vals (flow_routes plan))"
  from v obtain h where h: "count_inter g ?ls 0 = Inr h" "vt_hops (vd_details v) = h"
    and c9: "''C9'' \<in> set (vd_violated v) \<longleftrightarrow> limit < h"
    by (auto simp: verify_committed_plan_def count_plan_hops_def Let_def split: prod.splits sum.splits if_splits)
  have "h = length (filter (link_crosses g) ?ls)"
    using h(1) count_typed[OF wf typed count_inter_known[OF h(1)], of 0] by simp
  also have "\<dots> = (\<Sum>(flow, links) \<leftarrow> flow_routes plan. inter_links g (new_cost_acc g) links)"
    by (simp add: length_filter_concat inter_links_crosses[OF wf])
  finally have sum: "h = (\<Sum>(flow, links) \<leftarrow> flow_routes plan. inter_links g (new_cost_acc g) links)" .
  let ?bw = "fold (\<lambda>fe. AList.update (flow_key_of fe) (bandwidth_demand fe)) (flow_edges req) []"
  obtain hops bwh where rc: "route_cost g (new_cost_acc g) (\<lambda>f. get_default ?bw f 0) (flow_routes plan) = (hops, bwh)"
    by (cases "route_cost g (new_cost_acc g) (\<lambda>f. get_default ?bw f 0) (flow_routes plan)")
  have "hops = h" using route_cost_hops[of g "new_cost_acc g" "\<lambda>f. get_default ?bw f 0" "flow_routes plan" 0 0]
    unfolding route_cost_def[symmetric] rc sum by simp
  then have "cr_hops (last (ca_rows (add_plan g req plan (new_cost_acc g)))) = h"
    by (simp add: add_plan_def Let_def rc push_cost_def)
  with h(2) c9 show ?thesis by auto
qed

theorem cost_hops_are_verified_hops_witness:
  "\<exists>v. verify_committed_plan ex_sub ex_plan ex_req 3 = Inr v
    \<and> cr_hops (last (ca_rows (add_plan ex_sub ex_req ex_plan (new_cost_acc ex_sub)))) = vt_hops (vd_details v)
    \<and> vt_hops (vd_details v) \<le> 3"
proof -
  let ?v = "projr (verify_committed_plan ex_sub ex_plan ex_req 3)"
  have v: "verify_committed_plan ex_sub ex_plan ex_req 3 = Inr ?v" by code_simp
  have "wf_graph ex_sub" "typed_links ex_sub" "''C9'' \<notin> set (vd_violated ?v)" by code_simp+
  with cost_hops_are_verified_hops[OF _ _ v] v show ?thesis by fastforce
qed

section \<open>Episodes\<close>

text \<open>\<open>{ev.slice_request.request_id: ev.slice_request for ev in ap.events if arrival}\<close>.\<close>

definition slices_by_id :: "sim_event list \<Rightarrow> (string, slice_request) dict" where
  "slices_by_id es = fold (\<lambda>req. AList.update (request_id req) req) (arrivals es) []"

lemma slices_by_id_arrival:
  assumes "distinct (map request_id (arrivals es))" and "req \<in> set (arrivals es)"
  shows "map_of (slices_by_id es) (request_id req) = Some req"
proof -
  have "map_of (rev (map (\<lambda>x. (request_id x, x)) (arrivals es))) (request_id req) = Some req"
    using assms by (intro map_of_is_SomeI) (auto simp: rev_map[symmetric] comp_def)
  then show ?thesis unfolding slices_by_id_def map_of_updates by simp
qed

text \<open>What an admitted result carries of the coordinator's judgement.\<close>

definition sound_result :: "coordinator \<Rightarrow> slice_request list \<Rightarrow> mdo_result \<Rightarrow> bool" where
  "sound_result co reqs r \<longleftrightarrow>
     (\<exists>req \<in> set reqs. mr_request r = request_id req \<and> mr_e2e_delay r \<le> max_e2e_delay (qos_of req))
     \<and> (\<exists>p. mr_partition r = Some p \<and> violates (sw_chain (co_switches co)) p = Inr False)"

lemma arrival_sound:
  assumes pool: "actor_pool nx (co_actors (rn_coordinator rn))" and wf: "wf_graph (rn_sub rn)" and req: "wf_request req"
    and mem: "req \<in> set reqs" and run: "handle_arrival nx mode rnd req (rn, ep) = Inr (rn', ep')"
    and ok: "\<forall>r \<in> set (ep_results ep). mr_admitted r \<longrightarrow> sound_result (rn_coordinator rn) reqs r"
  shows "\<forall>r \<in> set (ep_results ep'). mr_admitted r \<longrightarrow> sound_result (rn_coordinator rn) reqs r"
proof (cases "rn_builder rn req (rn_sub rn)")
  case None
  then show ?thesis using run ok by (auto simp: handle_arrival_def Let_def)
next
  case (Some ps)
  from run Some obtain greedy T r ct st1 r' v rn1 st2 c where
    res: "resolve_arrival nx (rn_coordinator rn) (rnd (es_total (ep_stats ep))) (rn_sub rn) req ps mode greedy (rn_counters rn)
            = Inr (T, r, ct)"
    and set: "settle req r (rn\<lparr>rn_sub := T, rn_counters := ct\<rparr>) st1 = Inr (r', v, rn1, st2)"
    and ep': "ep_results ep' = ep_results ep @ [r'\<lparr>mr_reward := c\<rparr>]"
    by (auto simp: handle_arrival_def Let_def split: sum.splits prod.splits)
  have "sound_result (rn_coordinator rn) reqs (r'\<lparr>mr_reward := c\<rparr>)" if adm: "mr_admitted r'"
  proof -
    have r: "r' = r" using set adm by (auto simp: settle_def split: if_splits sum.splits option.splits)
    have "mr_request r = request_id req"
      using res by (auto simp: resolve_arrival_def conclude_def Let_def split: sum.splits if_splits)
    moreover from pool wf req res adm[unfolded r] have "mr_e2e_delay r \<le> max_e2e_delay (qos_of req)
        \<and> (\<exists>p. mr_partition r = Some p \<and> violates (sw_chain (co_switches (rn_coordinator rn))) p = Inr False)"
      by (rule admitted_trial) simp
    ultimately show ?thesis using mem by (auto simp: sound_result_def r)
  qed
  then show ?thesis using ok by (auto simp: ep')
qed

lemma reaches_sound:
  assumes "actor_pool nx (co_actors (rn_coordinator rn0))"
    and "wf_graph (rn_sub rn0)" and "typed_links (rn_sub rn0)"
    and "no_overbooking (reset_substrate (rn_sub rn0))"
    and "lawful_factory (ap_factory (rn_process rn0))"
    and "rn_max_hops rn0 = max_inter_domain_hops (co_config (rn_coordinator rn0))"
    and "episode_reaches nx mode rnd (reset_runner gaps lifes rn0) s"
  shows "\<forall>r \<in> set (ep_results (snd s)). mr_admitted r \<longrightarrow>
    sound_result (rn_coordinator rn0) (arrivals (ap_events (generate gaps lifes (rn_process rn0)))) r"
  using assms(7)
proof (induction rule: episode_reaches.induct)
  case (event rn ep e p st)
  obtain rn' ep' where st: "st = (rn', ep')" by (cases st)
  note M = episode_moment[OF assms(1-6) event(1)]
  note I = runner_okD[OF M(1)]
  show ?case
  proof (cases "ev_type e = DEPARTURE")
    case True
    then have "ep_results ep' = ep_results ep"
      using event(4) by (auto simp: handle_event_def st map_sum_def split: sum.splits)
    then show ?thesis using event(5) by (simp add: st)
  next
    case False
    then obtain req where ev: "ev_slice e = Some req" "ev_type e = ARRIVAL"
      and run: "handle_arrival nx mode rnd req (rn\<lparr>rn_process := p\<rparr>, ep) = Inr (rn', ep')"
      using event(4) by (cases "ev_type e") (auto simp: handle_event_def st split: option.splits)
    from event(2,3) have "e \<in> set (ap_events (rn_process rn))"
      by (auto simp: next_event_Inr has_next_def)
    with ev have mem: "req \<in> set (arrivals (ap_events (generate gaps lifes (rn_process rn0))))"
      unfolding M(2) by (auto simp: arrivals_def set_map_filter)
    have "stream_ok (ap_events (generate gaps lifes (rn_process rn0)))"
      using assms(5) by (intro generated_stream_ok) (simp add: lawful_factory_def)
    with mem have req: "wf_request req" by (simp add: stream_ok_def)
    have wf: "wf_graph (rn_sub rn)" by (rule wf_from_reset[OF I(1)]) (simp add: assms(2))
    from arrival_sound[OF _ _ req mem run] assms(1) wf event(5) show ?thesis by (simp add: I(6) st)
  qed
qed (simp add: new_episode_def)

lemma off_budget_zero:
  assumes "\<forall>(e, b) \<in> set pairs. \<exists>x. e = Fin x \<and> x \<le> b" and "qos_margin pairs = Some row"
  shows "mg_over row = 0"
proof -
  let ?good = "List.map_filter (\<lambda>(e, b). case e of Fin x \<Rightarrow> if b > 0 then Some (x, b) else None | PInf \<Rightarrow> None) pairs"
  have "0 < b \<and> x \<le> b" if "(x, b) \<in> set ?good" for x b
    using that assms(1) by (force simp: set_map_filter split: xreal.splits if_splits)
  then have none: "filter (\<lambda>r. r > 1) (sort (map (\<lambda>(e, b). e / b) ?good)) = []"
    by (auto simp: filter_empty_conv not_less divide_le_eq_1)
  show ?thesis using assms(2) unfolding qos_margin_def Let_def none by (auto split: if_splits)
qed

lemma contiguous_none:
  assumes "\<forall>p \<in> set parts. is_contiguous p" and "partition_structure parts doms = Some row"
  shows "sr_noncontiguous row = 0"
proof -
  have eq: "runs p = run_count p" for p
    unfolding runs_def run_count_def by (simp add: sum_list_map_filter'[symmetric] sum_list_triv)
  have "filter (\<lambda>p. runs p \<noteq> card (set p)) (filter (\<lambda>p. p \<noteq> []) parts) = []"
    using assms(1) by (auto simp: filter_empty_conv eq is_contiguous_def)
  then show ?thesis using assms(2) unfolding partition_structure_def Let_def by (auto split: if_splits)
qed

lemma square_gap: "0 \<le> real (length v) * x\<^sup>2 - 2 * x * sum_list v + (\<Sum>y \<leftarrow> v. y * y)" for x :: real
proof -
  have "(\<Sum>y \<leftarrow> v. (x - y)\<^sup>2) = real (length v) * x\<^sup>2 - 2 * x * sum_list v + (\<Sum>y \<leftarrow> v. y * y)"
    by (induction v) (auto simp: algebra_simps power2_eq_square)
  moreover have "0 \<le> (\<Sum>y \<leftarrow> v. (x - y)\<^sup>2)" by (intro sum_list_nonneg) auto
  ultimately show ?thesis by simp
qed

lemma cauchy_schwarz: "(sum_list v)\<^sup>2 \<le> real (length v) * (\<Sum>x \<leftarrow> v. x * x)" for v :: "real list"
proof (induction v)
  case (Cons x v)
  then show ?case using square_gap[of v x] by (simp add: algebra_simps power2_eq_square)
qed simp

lemma squares_below: "\<forall>x \<in> set v. 0 \<le> x \<Longrightarrow> (\<Sum>x \<leftarrow> v. x * x) \<le> (sum_list v)\<^sup>2" for v :: "real list"
proof (induction v)
  case (Cons x v)
  have "0 \<le> x * sum_list v" using Cons.prems by (intro mult_nonneg_nonneg sum_list_nonneg) auto
  with Cons show ?case by (simp add: algebra_simps power2_eq_square)
qed simp

lemma jain_bounds:
  assumes "\<forall>x \<in> set v. 0 \<le> x" and "jain v = Some j"
  shows "j \<le> 1 \<and> py_round (1 / real (length v)) 4 \<le> j"
proof -
  let ?s = "sum_list v" and ?q = "\<Sum>x \<leftarrow> v. x * x" and ?n = "real (length v)"
  have pos: "0 < ?s" "0 < ?n" and j: "j = py_round (?s\<^sup>2 / (?n * ?q)) 4"
    using assms(2) by (auto simp: jain_def split: if_splits)
  have qpos: "0 < ?q"
    using cauchy_schwarz[of v] pos zero_less_power[OF pos(1), of 2] by (smt (verit) mult_nonneg_nonpos)
  have "?s\<^sup>2 / (?n * ?q) \<le> 1" using cauchy_schwarz[of v] qpos pos by (simp add: divide_le_eq_1)
  moreover have "1 / ?n \<le> ?s\<^sup>2 / (?n * ?q)"
    using squares_below[OF assms(1)] qpos pos by (simp add: field_simps)
  ultimately show ?thesis unfolding j using py_round_le[of "?s\<^sup>2 / (?n * ?q)" 1 4 "10 ^ 4"] py_round_mono by simp
qed

text \<open>
  Acceptance over time: the series is the rate of consecutive windows that together are exactly
  the arrivals, none of them empty and none longer than the window; its first and last entries are the
  first and last window.
\<close>

theorem acceptance_windows_cover:
  assumes "0 < w" and "outcomes \<noteq> []"
  shows "\<exists>cs row. acceptance_windows outcomes w = Inr row \<and> wn_series row = map rate cs \<and> concat cs = outcomes
    \<and> length cs = (length outcomes + w - 1) div w \<and> list_all (\<lambda>c. 0 < length c \<and> length c \<le> w) cs
    \<and> wn_first row = Some (rate (hd cs)) \<and> wn_last row = Some (rate (last cs))"
proof -
  obtain cs where cs: "chunks w outcomes = cs" and len: "length cs = (length outcomes + w - 1) div w"
    by (simp add: chunks_def)
  note c = chunks_concat(1)[OF assms(1), of outcomes, unfolded cs] chunks_concat(2)[OF assms(1), of _ outcomes, unfolded cs]
  have ne: "filter (\<lambda>c. c \<noteq> []) cs = cs" using c(2) by (intro filter_True) blast
  have "cs \<noteq> []" using c(1) assms(2) by auto
  then show ?thesis using c assms len
    by (intro exI[of _ cs]) (simp add: acceptance_windows_def Let_def cs ne list_all_iff hd_map last_map)
qed

theorem acceptance_windows_cover_witness:
  "\<exists>row. acceptance_windows [True, False, True] 2 = Inr row \<and> wn_series row = [1 / 2, 1] \<and> wn_last row = Some 1"
proof -
  obtain cs row where c: "acceptance_windows [True, False, True] 2 = Inr row" "wn_series row = map rate cs"
    using acceptance_windows_cover[of 2 "[True, False, True]"] by auto
  have m: "acceptance_windows [True, False, True] 2 = Inr \<lparr>wn_window = 2, wn_series = [1 / 2, 1],
      wn_steady = Some 1, wn_first = Some (1 / 2), wn_last = Some 1\<rparr>" by code_simp
  with c(1) have "row = \<lparr>wn_window = 2, wn_series = [1 / 2, 1], wn_steady = Some 1, wn_first = Some (1 / 2), wn_last = Some 1\<rparr>"
    by simp
  then have "wn_series row = [1 / 2, 1]" "wn_last row = Some 1" by simp_all
  with c(1) show ?thesis by blast
qed

text \<open>
  C32: the report of an episode. When the coordinator enforces the chain order, the metrics of a whole
  episode come back without an exception, no admitted chain is counted as non-contiguous, Jain's index
  is at most one, and no admission is counted above its delay budget; the last because the delay of a
  result is the coordinator's own estimate, which had to be within the budget.
\<close>

theorem episode_metrics_sound:
  assumes "actor_pool nx (co_actors (rn_coordinator rn0))"
    and "wf_graph (rn_sub rn0)" and "typed_links (rn_sub rn0)"
    and "no_overbooking (reset_substrate (rn_sub rn0))"
    and "lawful_factory (ap_factory (rn_process rn0))"
    and "rn_max_hops rn0 = max_inter_domain_hops (co_config (rn_coordinator rn0))"
    and "chain_mode_of (sw_chain (co_switches (rn_coordinator rn0))) = Inr RejectMode"
    and "run_episode nx mode rnd (reset_runner gaps lifes rn0) = Inr (rn, ep)"
  shows "\<exists>m. from_episode ep (rn_sub rn) (slices_by_id (ap_events (rn_process rn))) = Inr m
    \<and> (\<forall>row. em_structure m = Some row \<longrightarrow>
          sr_noncontiguous row = 0 \<and> (\<forall>j. sr_jain row = Some j \<longrightarrow> j \<le> 1))
    \<and> (\<forall>row. em_qos m = Some row \<longrightarrow> mg_over row = 0)"
proof -
  let ?es = "ap_events (generate gaps lifes (rn_process rn0))"
  from run_loop_reaches[OF episode_reaches.fresh assms(8)[unfolded run_episode_def]]
  have re: "episode_reaches nx mode rnd (reset_runner gaps lifes rn0) (rn, ep)" by blast
  have ev: "ap_events (rn_process rn) = ?es" by (rule episode_moment(2)[OF assms(1-6) re])
  have sound: "sound_result (rn_coordinator rn0) (arrivals ?es) r" if "r \<in> set (ep_results ep)" "mr_admitted r" for r
    using reaches_sound[OF assms(1-6) re] that by simp
  have "stream_ok ?es" using assms(5) by (intro generated_stream_ok) (simp add: lawful_factory_def)
  then have ids: "distinct (map request_id (arrivals ?es))" by (simp add: stream_ok_def)
  let ?good = "filter mr_admitted (ep_results ep)"
  let ?parts = "List.map_filter (\<lambda>r. case mr_partition r of Some p \<Rightarrow> if p = [] then None else Some p | None \<Rightarrow> None) ?good"
  let ?pairs = "List.map_filter (\<lambda>r. case map_of (slices_by_id ?es) (mr_request r) of
              None \<Rightarrow> None
            | Some req \<Rightarrow> if max_e2e_delay (qos_of req) = 0 then None
                else Some (Fin (mr_e2e_delay r), max_e2e_delay (qos_of req))) ?good"
  have parts: "\<forall>p \<in> set ?parts. is_contiguous p"
  proof
    fix p assume "p \<in> set ?parts"
    then obtain r where "r \<in> set (ep_results ep)" "mr_admitted r" "mr_partition r = Some p"
      by (auto simp: set_map_filter split: option.splits if_splits)
    with sound[of r] show "is_contiguous p" using assms(7) by (auto simp: sound_result_def violates_def enabled_def)
  qed
  have pairs: "\<forall>(e, b) \<in> set ?pairs. \<exists>x. e = Fin x \<and> x \<le> b"
  proof (rule ballI)
    fix z assume "z \<in> set ?pairs"
    then obtain r req where r: "r \<in> set (ep_results ep)" "mr_admitted r"
      and m: "map_of (slices_by_id ?es) (mr_request r) = Some req" and z: "z = (Fin (mr_e2e_delay r), max_e2e_delay (qos_of req))"
      by (auto simp: set_map_filter split: option.splits if_splits)
    from sound[OF r] obtain q where "q \<in> set (arrivals ?es)" "mr_request r = request_id q" "mr_e2e_delay r \<le> max_e2e_delay (qos_of q)"
      by (auto simp: sound_result_def)
    with slices_by_id_arrival[OF ids] m z show "case z of (e, b) \<Rightarrow> \<exists>x. e = Fin x \<and> x \<le> b" by auto
  qed
  have jain: "j \<le> 1" if "partition_structure parts doms = Some row" "sr_jain row = Some j" for parts doms row j
    using that jain_bounds[of "map real (vals (domain_load (filter (\<lambda>p. p \<noteq> []) parts) doms))" j]
    by (auto simp: partition_structure_def Let_def split: if_splits)
  obtain w where "acceptance_windows (map mr_admitted (ep_results ep)) 200 = Inr w"
    by (cases "acceptance_windows (map mr_admitted (ep_results ep)) 200") (auto simp: acceptance_windows_def Let_def split: if_splits)
  then show ?thesis
    using contiguous_none[OF parts] off_budget_zero[OF pairs] jain by (simp add: from_episode_def ev Let_def)
qed

theorem episode_metrics_sound_witness:
  "\<exists>rn ep m row. ex_episode = Inr (rn, ep) \<and> from_episode ep (rn_sub rn) (slices_by_id (ap_events (rn_process rn))) = Inr m
    \<and> em_structure m = Some row \<and> sr_accepted row = 1 \<and> sr_noncontiguous row = 0"
proof -
  have all: "case ex_episode of Inl e \<Rightarrow> False | Inr (rn, ep) \<Rightarrow>
      (case from_episode ep (rn_sub rn) (slices_by_id (ap_events (rn_process rn))) of Inl e \<Rightarrow> False
       | Inr m \<Rightarrow> (case em_structure m of None \<Rightarrow> False | Some row \<Rightarrow> sr_accepted row = 1))" by code_simp
  from ex_episode_runs obtain rn ep where r0: "ex_episode = Inr (rn, ep)" by blast
  let ?f = "from_episode ep (rn_sub rn) (slices_by_id (ap_events (rn_process rn)))"
  from all r0 obtain m where m: "?f = Inr m" by (cases ?f) simp_all
  with all r0 obtain row where "em_structure m = Some row" "sr_accepted row = 1" by (cases "em_structure m") simp_all
  note r = r0 m this
  have "chain_mode_of (sw_chain (co_switches (rn_coordinator ex_runner))) = Inr RejectMode" by code_simp
  from episode_metrics_sound[OF ex_runner_lawful(1-6) this r(1)] r show ?thesis by auto
qed

end
