(* ===== verification/Learned_Actor.thy ===== *)
theory Learned_Actor
  imports Greedy_Actor Domain_Observation
begin

text \<open>
  The learned domain actor (\<open>src/src/orion/actors/domain_actor.py\<close>, \<open>action_mask.py\<close> and the
  masked choice of \<open>policy.py\<close>): for every VNF in chain order observe, mask, choose, place and
  route the flow that arrives at it. The network's scores and the random draws are parameters;
  everything else is computed.

  The actor satisfies the same contract \<open>domain_actor\<close> as the greedy one, for any scores and
  draws, so every coordinator and episode property holds for it too. Unlike the greedy actor it
  remembers one incoming flow per VNF, and an example shows what happens to a second one.
\<close>

section \<open>Mask and choice\<close>

record learned_config =
  lc_k :: nat
  lc_mode :: routing_mode
  lc_alpha :: real
  lc_gamma_intra :: real
  lc_stochastic :: bool

text \<open>\<open>DomainActor.__init__\<close>'s defaults.\<close>

definition default_learned_config :: learned_config where
  "default_learned_config = \<lparr>lc_k = 3, lc_mode = MinCost, lc_alpha = 1, lc_gamma_intra = 1 / 10, lc_stochastic = True\<rparr>"

text \<open>The pointer scores over the nodes and the NULL slot, which comes last.\<close>

type_synonym node_scores = "domain_obs \<Rightarrow> real list \<Rightarrow> nat \<Rightarrow> real"

definition node_allowed :: "'a graph_scheme \<Rightarrow> vnf_assignment \<Rightarrow> (node_id, real \<times> real) dict \<Rightarrow> node_id \<Rightarrow> bool" where
  "node_allowed g v over n \<longleftrightarrow>
     n \<in> set (va_permitted v)
     \<and> (case map_of (g_nodes g) n of
          None \<Rightarrow> False
        | Some d \<Rightarrow> node_tier d = va_tier v
            \<and> (let (c, r) = get_default over n (cpu_residual d, ram_residual d)
               in \<not> (c < va_cpu v \<or> r < va_ram v)))"

definition compute_action_mask :: "'a graph_scheme \<Rightarrow> node_id list \<Rightarrow> vnf_assignment
    \<Rightarrow> (node_id, real \<times> real) dict \<Rightarrow> bool list" where
  "compute_action_mask g ns v over = map (node_allowed g v over) ns"

text \<open>\<open>aug_mask\<close>: the NULL slot is open exactly when no node is.\<close>

definition open_slots :: "bool list \<Rightarrow> nat list" where
  "open_slots msk =
     (case filter (\<lambda>i. msk ! i) [0..<length msk] of [] \<Rightarrow> [length msk] | xs \<Rightarrow> xs)"

text \<open>
  \<open>forward\<close>: the first greatest open score, or a draw from the open slots (a categorical sample
  never takes a slot of probability zero). \<open>None\<close> is \<open>NULL_ACTION\<close>.
\<close>

definition choose_node :: "bool \<Rightarrow> (nat \<Rightarrow> real) \<Rightarrow> nat \<Rightarrow> bool list \<Rightarrow> nat option" where
  "choose_node deterministic scores draw msk =
     (let slots = open_slots msk;
          i = (if deterministic
               then (case least (map (\<lambda>i. (- scores i, i)) slots) of None \<Rightarrow> length msk | Some (s, i) \<Rightarrow> i)
               else slots ! (draw mod length slots))
      in if i = length msk then None else Some i)"

section \<open>The context vector\<close>

definition div_or_zero :: "real \<Rightarrow> real \<Rightarrow> real" where
  "div_or_zero x y = (if y > 0 then x / y else 0)"

text \<open>\<open>math.log1p(rem) / math.log1p(MDO_DELAY_REF)\<close>; the logarithm does not compute.\<close>

definition log_budget :: "real \<Rightarrow> real" where
  "log_budget rem = ln (1 + rem) / ln (1 + mdo_delay_ref)"

declare log_budget_def [code del]

text \<open>Twelve slots; 2 to 5 are the one-hot of the tier, of which slot 5 stays zero.\<close>

definition build_vnf_context :: "vnf_assignment \<Rightarrow> real \<times> real \<times> real \<Rightarrow> real \<Rightarrow> real \<Rightarrow> real list" where
  "build_vnf_context v = (\<lambda>(max_cpu, max_ram, max_bw) remaining budget.
     let rem = max 0 remaining in
     [div_or_zero (va_cpu v) max_cpu, div_or_zero (va_ram v) max_ram,
      flag (tier_index (va_tier v) = 0), flag (tier_index (va_tier v) = 1), flag (tier_index (va_tier v) = 2), 0,
      va_vcr v, div_or_zero (va_bandwidth_in v) max_bw,
      div_or_zero (real (va_position v)) (real (va_sfc_length v)),
      min 1 (rem / mdo_delay_ref), log_budget rem,
      if budget \<noteq> 0 then rem / budget else 0])"

definition context_scales :: "'a graph_scheme \<Rightarrow> int \<Rightarrow> real \<times> real \<times> real" where
  "context_scales g m =
     (let rows = node_rows g m in
      (Max (set (map (\<lambda>(n, d). cpu_capacity d) rows)), Max (set (map (\<lambda>(n, d). ram_capacity d) rows)),
       fold (\<lambda>(e, d) x. max x (bandwidth_capacity d)) (intra_edges g (map fst rows)) 1))"

section \<open>Place, then route\<close>

record step_record =
  sr_obs :: domain_obs
  sr_context :: "real list"
  sr_mask :: "bool list"
  sr_action :: "nat option"

record learned_state =
  la_act :: act_state
  la_over :: "(node_id, real \<times> real) dict"
  la_placed :: "node_id set"
  la_steps :: "step_record list"

definition learned_start :: "substrate \<Rightarrow> plan_fragment \<Rightarrow> learned_state" where
  "learned_start S f = \<lparr>la_act = start_state S f, la_over = [], la_placed = {}, la_steps = []\<rparr>"

text \<open>\<open>intra_flow_by_target[fe.target_vnf] = (fe.source_vnf, fe.bandwidth_demand)\<close>.\<close>

definition flow_by_target :: "flow_edge list \<Rightarrow> (string, string \<times> real) dict" where
  "flow_by_target fes = fold (\<lambda>fe. AList.update (target_vnf fe) (source_vnf fe, bandwidth_demand fe)) fes []"

definition learned_place :: "learned_config \<Rightarrow> vnf_assignment \<Rightarrow> node_id \<Rightarrow> node_data \<Rightarrow> real \<times> real
    \<Rightarrow> learned_state \<Rightarrow> learned_state" where
  "learned_place cfg v n d old \<omega> =
     (let left = (fst old - va_cpu v, snd old - va_ram v); \<sigma> = la_act \<omega>;
          delay = processing_delay d * va_intensity v
      in \<omega>\<lparr>la_act :=
              (\<sigma>\<lparr>as_sub := set_node n left (as_sub \<sigma>),
                 as_place := AList.update (va_id v) n (as_place \<sigma>),
                 as_snaps := take_snapshot n d (as_snaps \<sigma>)\<rparr>)
               \<lparr>as_proc := as_proc \<sigma> + delay,
                as_left := as_left \<sigma> - delay,
                as_cost := as_cost \<sigma> + lc_alpha cfg * (va_cpu v + va_ram v)\<rparr>,
            la_over := AList.update n left (la_over \<omega>),
            la_placed := insert n (la_placed \<omega>)\<rparr>)"

definition learned_record :: "learned_config \<Rightarrow> flow_edge \<Rightarrow> route_result \<Rightarrow> learned_state \<Rightarrow> learned_state" where
  "learned_record cfg fe r \<omega> =
     \<omega>\<lparr>la_act := (record_route fe r (la_act \<omega>))
          \<lparr>as_cost := as_cost (la_act \<omega>) + lc_gamma_intra cfg * bandwidth_demand fe * real (length (rr_links r))\<rparr>\<rparr>"

text \<open>Route the flow into \<open>v\<close>, which has just been put on \<open>n\<close>. \<open>False\<close>: no route, roll back.\<close>

definition learned_route :: "nx_lib \<Rightarrow> learned_config \<Rightarrow> node_id list \<Rightarrow> (string, string \<times> real) dict \<Rightarrow> vnf_assignment
    \<Rightarrow> node_id \<Rightarrow> learned_state \<Rightarrow> py_error + (bool \<times> learned_state)" where
  "learned_route nx cfg ns flows v n \<omega> =
     (case map_of flows (va_id v) of
        None \<Rightarrow> Inr (True, \<omega>)
      | Some (src, bw) \<Rightarrow>
          (case map_of (as_place (la_act \<omega>)) src of
             None \<Rightarrow> Inl KeyError
           | Some s \<Rightarrow>
               (case route_flow nx (as_sub (la_act \<omega>)) s n bw (as_left (la_act \<omega>)) ns (lc_k cfg) (lc_mode cfg) of
                  Inl e \<Rightarrow> Inl e
                | Inr r \<Rightarrow>
                    if \<not> rr_feasible r then Inr (False, \<omega>)
                    else Inr (True, learned_record cfg
                           \<lparr>source_vnf = src, target_vnf = va_id v, bandwidth_demand = bw\<rparr> r \<omega>))))"

text \<open>Observe, mask, choose. The step is recorded before the choice is acted on.\<close>

definition learned_choose :: "learned_config \<Rightarrow> node_scores \<Rightarrow> (nat \<Rightarrow> nat) \<Rightarrow> int \<Rightarrow> plan_fragment
    \<Rightarrow> real \<times> real \<times> real \<Rightarrow> vnf_assignment \<Rightarrow> learned_state \<Rightarrow> node_id option \<times> learned_state" where
  "learned_choose cfg pol rnd m f scales v \<omega> =
     (let (ob, ns) = build_domain_observation (as_sub (la_act \<omega>)) m (pf_targets f) (la_placed \<omega>);
          msk = compute_action_mask (as_sub (la_act \<omega>)) ns v (la_over \<omega>);
          ctx = build_vnf_context v scales (as_left (la_act \<omega>)) (pf_delay_budget f);
          a = choose_node (\<not> lc_stochastic cfg) (pol ob ctx) (rnd (length (la_steps \<omega>))) msk
      in (map_option ((!) ns) a,
          \<omega>\<lparr>la_steps := la_steps \<omega> @ [\<lparr>sr_obs = ob, sr_context = ctx, sr_mask = msk, sr_action = a\<rparr>]\<rparr>))"

fun learned_loop :: "nx_lib \<Rightarrow> learned_config \<Rightarrow> node_scores \<Rightarrow> (nat \<Rightarrow> nat) \<Rightarrow> int \<Rightarrow> plan_fragment
    \<Rightarrow> real \<times> real \<times> real \<Rightarrow> vnf_assignment list \<Rightarrow> learned_state \<Rightarrow> py_error + (bool \<times> learned_state)" where
  "learned_loop nx cfg pol rnd m f scales [] \<omega> = Inr (True, \<omega>)"
| "learned_loop nx cfg pol rnd m f scales (v # vs) \<omega> =
     (case learned_choose cfg pol rnd m f scales v \<omega> of
        (None, \<mu>) \<Rightarrow> Inr (False, \<mu>)
      | (Some n, \<mu>) \<Rightarrow>
          (case map_of (g_nodes (as_sub (la_act \<mu>))) n of
             None \<Rightarrow> Inl KeyError
           | Some d \<Rightarrow>
               (case learned_route nx cfg (sort (nodes_in_domain (as_sub (la_act \<mu>)) m)) (flow_by_target (pf_flows f)) v n
                       (learned_place cfg v n d (get_default (la_over \<mu>) n (cpu_residual d, ram_residual d)) \<mu>) of
                  Inl e \<Rightarrow> Inl e
                | Inr (False, \<nu>) \<Rightarrow> Inr (False, \<nu>)
                | Inr (True, \<nu>) \<Rightarrow> learned_loop nx cfg pol rnd m f scales vs \<nu>)))"

definition learned_act :: "nx_lib \<Rightarrow> learned_config \<Rightarrow> node_scores \<Rightarrow> (nat \<Rightarrow> nat) \<Rightarrow> int \<Rightarrow> act_fun" where
  "learned_act nx cfg pol rnd m S f =
     (if fragment_is_empty f then Inr (S, empty_response m)
      else if sort (nodes_in_domain S m) = [] then Inr (S, infeasible_response m)
      else case learned_loop nx cfg pol rnd m f (context_scales S m) (pf_vnfs f) (learned_start S f) of
          Inl e \<Rightarrow> Inl e
        | Inr (False, \<omega>) \<Rightarrow> Inr (abort m (la_act \<omega>))
        | Inr (True, \<omega>) \<Rightarrow> Inr (finish m (la_act \<omega>)))"

section \<open>The loop keeps the invariant\<close>

lemma set_open_slots: "set (open_slots msk) \<subseteq> insert (length msk) {i. i < length msk \<and> msk ! i}"
proof (cases "filter (\<lambda>i. msk ! i) [0..<length msk]")
  case (Cons i xs)
  then have "open_slots msk = filter (\<lambda>i. msk ! i) [0..<length msk]" by (simp add: open_slots_def)
  then show ?thesis by auto
qed (simp add: open_slots_def)

lemma open_slots_nonempty: "open_slots msk \<noteq> []"
  by (auto simp: open_slots_def split: list.splits)

lemma choose_node_masked:
  assumes "choose_node det sc r msk = Some i"
  shows "i < length msk \<and> msk ! i"
proof -
  let ?slots = "open_slots msk"
  have "i \<noteq> length msk" and "i \<in> set ?slots"
  proof -
    have "least (map (\<lambda>i. (- sc i, i)) ?slots) = Some (x, j) \<Longrightarrow> j \<in> set ?slots" for x j
      using least_in by fastforce
    moreover have "?slots ! (r mod length ?slots) \<in> set ?slots"
      using open_slots_nonempty by simp
    ultimately show "i \<noteq> length msk" "i \<in> set ?slots"
      using assms by (auto simp: choose_node_def Let_def split: if_splits option.splits)
  qed
  then show ?thesis using set_open_slots[of msk] by auto
qed

text \<open>The overrides agree with the residuals the loop has written.\<close>

definition over_ok :: "'a graph_scheme \<Rightarrow> (node_id, real \<times> real) dict \<Rightarrow> bool" where
  "over_ok g over \<longleftrightarrow>
     (\<forall>n c r. map_of over n = Some (c, r) \<longrightarrow>
        (\<exists>d. map_of (g_nodes g) n = Some d \<and> cpu_residual d = c \<and> ram_residual d = r))"

lemma over_ok_default:
  "over_ok g over \<Longrightarrow> map_of (g_nodes g) n = Some d \<Longrightarrow>
   get_default over n (cpu_residual d, ram_residual d) = (cpu_residual d, ram_residual d)"
  by (cases "map_of over n") (fastforce simp: over_ok_def get_default_def)+

lemma set_node_charge:
  assumes "wf_graph g" and "map_of (g_nodes g) n = Some d"
  shows "set_node n (cpu_residual d - x, ram_residual d - y) g = charge [(n, x, y)] [] g"
proof -
  have eq: "d' = d" if "(n, d') \<in> set (g_nodes g)" for d'
    using assms that by (auto simp: wf_graph_def dest!: map_of_is_SomeI[of "g_nodes g"])
  have "charge [(n, x, y)] [] g = post_node n (- x, - y) g" by (simp add: charge_def post_nodes_def)
  also have "\<dots> = set_node n (cpu_residual d - x, ram_residual d - y) g"
    unfolding post_node_def set_node_def using eq by (auto intro!: arg_cong[where f = "\<lambda>x. g\<lparr>g_nodes := x\<rparr>"])
  finally show ?thesis by simp
qed

text \<open>Permitted and of the required tier: both are hard for this actor.\<close>

definition well_placed :: "'a graph_scheme \<Rightarrow> plan_fragment \<Rightarrow> (string, node_id) dict \<Rightarrow> bool" where
  "well_placed S f pl \<longleftrightarrow>
     (\<forall>(x, n) \<in> set pl. \<exists>v \<in> set (pf_vnfs f). va_id v = x \<and> n \<in> set (va_permitted v)
        \<and> (\<exists>d. map_of (g_nodes S) n = Some d \<and> node_tier d = va_tier v))"

lemma well_placed_permitted:
  assumes "distinct (map va_id (pf_vnfs f))" and "well_placed S f pl"
  shows "permitted_placement (pf_vnfs f) pl"
  unfolding permitted_placement_def
proof (intro ballI allI impI disjI2)
  fix v n assume v: "v \<in> set (pf_vnfs f)" and n: "map_of pl (va_id v) = Some n"
  from assms(2) map_of_SomeD[OF n] obtain w where "w \<in> set (pf_vnfs f)" "va_id w = va_id v" "n \<in> set (va_permitted w)"
    unfolding well_placed_def by blast
  moreover from this v assms(1) have "w = v" by (auto simp: distinct_map dest: inj_onD)
  ultimately show "n \<in> set (va_permitted v)" by simp
qed

definition learned_inv :: "substrate \<Rightarrow> int \<Rightarrow> plan_fragment \<Rightarrow> string set \<Rightarrow> learned_state \<Rightarrow> bool" where
  "learned_inv S m f D \<omega> \<longleftrightarrow>
     act_inv S m (frag_demand (pf_vnfs f)) (pf_flows f) (la_act \<omega>)
     \<and> over_ok (as_sub (la_act \<omega>)) (la_over \<omega>)
     \<and> set (keys (as_place (la_act \<omega>))) = D
     \<and> snd ` set (keys (as_routes (la_act \<omega>))) \<subseteq> D
     \<and> well_placed S f (as_place (la_act \<omega>))"

lemma learned_invD:
  assumes "learned_inv S m f D \<omega>"
  shows "act_inv S m (frag_demand (pf_vnfs f)) (pf_flows f) (la_act \<omega>)"
    and "over_ok (as_sub (la_act \<omega>)) (la_over \<omega>)"
    and "set (keys (as_place (la_act \<omega>))) = D"
    and "snd ` set (keys (as_routes (la_act \<omega>))) \<subseteq> D"
    and "well_placed S f (as_place (la_act \<omega>))"
  using assms unfolding learned_inv_def by blast+

lemma learned_inv_start: "learned_inv S m f {} (learned_start S f)"
  by (simp add: learned_inv_def learned_start_def start_state_def act_inv_def charge_def routes_ok_def over_ok_def
      well_placed_def)

lemma learned_inv_steps [simp]: "learned_inv S m f D (\<omega>\<lparr>la_steps := x\<rparr>) \<longleftrightarrow> learned_inv S m f D \<omega>"
  by (simp add: learned_inv_def)

lemma learned_choose_spec:
  assumes inv: "learned_inv S m f D \<omega>" and run: "learned_choose cfg pol rnd m f sc v \<omega> = (an, \<mu>)"
  shows "learned_inv S m f D \<mu>"
    and "an = Some n \<Longrightarrow> n \<in> set (nodes_in_domain S m)
          \<and> n \<in> set (va_permitted v)
          \<and> (\<exists>d. map_of (g_nodes (as_sub (la_act \<mu>))) n = Some d \<and> node_tier d = va_tier v
                \<and> va_cpu v \<le> cpu_residual d \<and> va_ram v \<le> ram_residual d)"
proof -
  let ?g = "as_sub (la_act \<omega>)"
  let ?b = "build_domain_observation ?g m (pf_targets f) (la_placed \<omega>)"
  have ns: "snd ?b = sort (nodes_in_domain ?g m)" by (rule observed_nodes)
  have \<mu>: "\<exists>x. \<mu> = \<omega>\<lparr>la_steps := x\<rparr>"
    using run by (auto simp: learned_choose_def Let_def case_prod_unfold)
  then show "learned_inv S m f D \<mu>" using inv by auto
  have sub: "la_act \<mu> = la_act \<omega>" using \<mu> by auto
  have nd: "nodes_in_domain ?g m = nodes_in_domain S m"
    using act_invD(1)[OF learned_invD(1)[OF inv]] by (simp add: nodes_in_domain_charge)
  assume "an = Some n"
  then obtain i where i: "n = snd ?b ! i"
    and c: "choose_node (\<not> lc_stochastic cfg) (pol (fst ?b) (build_vnf_context v sc (as_left (la_act \<omega>)) (pf_delay_budget f)))
              (rnd (length (la_steps \<omega>))) (compute_action_mask ?g (snd ?b) v (la_over \<omega>)) = Some i"
    using run by (auto simp: learned_choose_def Let_def case_prod_unfold)
  from choose_node_masked[OF c] have "i < length (snd ?b)" and "node_allowed ?g v (la_over \<omega>) n"
    by (auto simp: compute_action_mask_def i)
  then have "n \<in> set (nodes_in_domain S m)" unfolding i ns nd by (metis nth_mem set_sort)
  moreover obtain d where d: "map_of (g_nodes ?g) n = Some d" "node_tier d = va_tier v" and perm: "n \<in> set (va_permitted v)"
    and fit: "let (c, r) = get_default (la_over \<omega>) n (cpu_residual d, ram_residual d) in \<not> (c < va_cpu v \<or> r < va_ram v)"
    using \<open>node_allowed ?g v (la_over \<omega>) n\<close> by (auto simp: node_allowed_def split: option.splits)
  have "over_ok ?g (la_over \<omega>)" using inv by (simp add: learned_inv_def)
  from fit over_ok_default[OF this d(1)] have "va_cpu v \<le> cpu_residual d" "va_ram v \<le> ram_residual d" by auto
  ultimately show "n \<in> set (nodes_in_domain S m)
          \<and> n \<in> set (va_permitted v)
          \<and> (\<exists>d. map_of (g_nodes (as_sub (la_act \<mu>))) n = Some d \<and> node_tier d = va_tier v
                \<and> va_cpu v \<le> cpu_residual d \<and> va_ram v \<le> ram_residual d)"
    using d perm unfolding sub by blast
qed

lemma learned_place_inv:
  assumes wf: "wf_graph S" and inv: "learned_inv S m f D \<omega>" and v: "v \<in> set (pf_vnfs f)" "va_id v \<notin> D"
    and ids: "distinct (map va_id (pf_vnfs f))" and n: "n \<in> set (nodes_in_domain S m)"
    and d: "map_of (g_nodes (as_sub (la_act \<omega>))) n = Some d"
    and fits: "va_cpu v \<le> cpu_residual d" "va_ram v \<le> ram_residual d"
    and perm: "n \<in> set (va_permitted v)" "node_tier d = va_tier v"
  shows "learned_inv S m f (insert (va_id v) D)
           (learned_place cfg v n d (get_default (la_over \<omega>) n (cpu_residual d, ram_residual d)) \<omega>)"
    (is "learned_inv S m f _ ?\<omega>'")
proof -
  note I = learned_invD[OF inv]
  let ?\<sigma> = "la_act \<omega>"
  have wfs: "wf_graph (as_sub ?\<sigma>)" using wf act_invD(1)[OF I(1)] by simp
  have dem: "frag_demand (pf_vnfs f) (va_id v) = (va_cpu v, va_ram v)" by (rule frag_demand_in[OF ids v(1)])
  have fresh: "va_id v \<notin> set (keys (as_place ?\<sigma>))" using I(3) v(2) by simp
  have sub: "as_sub (la_act ?\<omega>') = charge [(n, va_cpu v, va_ram v)] [] (as_sub ?\<sigma>)"
    by (simp add: learned_place_def Let_def over_ok_default[OF I(2) d] set_node_charge[OF wfs d])
  have "act_inv S m (frag_demand (pf_vnfs f)) (pf_flows f)
      (?\<sigma>\<lparr>as_sub := charge [(n, va_cpu v, va_ram v)] [] (as_sub ?\<sigma>),
         as_place := AList.update (va_id v) n (as_place ?\<sigma>),
         as_snaps := take_snapshot n d (as_snaps ?\<sigma>)\<rparr>)"
    using act_inv_place[OF wf I(1) fresh n d] fits by (simp add: dem)
  then have 1: "act_inv S m (frag_demand (pf_vnfs f)) (pf_flows f) (la_act ?\<omega>')"
    using sub by (simp add: learned_place_def Let_def)
  have 2: "over_ok (as_sub (la_act ?\<omega>')) (la_over ?\<omega>')"
    using I(2) d unfolding sub over_ok_def
    by (auto simp: learned_place_def Let_def map_of_charge over_ok_default[OF I(2) d])
  have 3: "set (keys (as_place (la_act ?\<omega>'))) = insert (va_id v) D"
    using I(3) keys_update[of "va_id v" n "as_place ?\<sigma>"] by (simp add: learned_place_def Let_def)
  have "snd ` set (keys (as_routes (la_act ?\<omega>'))) \<subseteq> insert (va_id v) D"
    using I(4) by (auto simp: learned_place_def Let_def)
  moreover have "well_placed S f (as_place (la_act ?\<omega>'))"
  proof -
    obtain d0 where "map_of (g_nodes S) n = Some d0" "node_tier d0 = va_tier v"
      using d perm(2) unfolding act_invD(1)[OF I(1)] map_of_charge by auto
    then show ?thesis
      using I(5) v(1) perm(1) update_fresh[OF fresh] by (auto simp: well_placed_def learned_place_def Let_def)
  qed
  ultimately show ?thesis unfolding learned_inv_def using 1 2 3 by blast
qed

lemma flow_by_target_in:
  assumes "map_of (flow_by_target fes) t = Some (s, bw)"
  shows "\<lparr>source_vnf = s, target_vnf = t, bandwidth_demand = bw\<rparr> \<in> set fes"
proof -
  have "map_of (fold (\<lambda>fe. AList.update (target_vnf fe) (source_vnf fe, bandwidth_demand fe)) fes d) t = Some (s, bw)
      \<Longrightarrow> map_of d t = Some (s, bw) \<or> \<lparr>source_vnf = s, target_vnf = t, bandwidth_demand = bw\<rparr> \<in> set fes" for d
  proof (induction fes arbitrary: d)
    case (Cons fe fes)
    from Cons.IH[of "AList.update (target_vnf fe) (source_vnf fe, bandwidth_demand fe) d"] Cons.prems
    show ?case by (cases fe) (auto split: if_splits)
  qed simp
  from this[of "[]"] assms show ?thesis by (simp add: flow_by_target_def)
qed

text \<open>Flows into the VNFs handled so far: both ends placed, a route that joins them, the bandwidth recorded.\<close>

definition flow_done :: "'b graph_scheme \<Rightarrow> 'a act_state_scheme \<Rightarrow> flow_edge \<Rightarrow> bool" where
  "flow_done g \<sigma> fe \<longleftrightarrow>
     (\<exists>s d ls. map_of (as_place \<sigma>) (source_vnf fe) = Some s \<and> map_of (as_place \<sigma>) (target_vnf fe) = Some d
        \<and> map_of (as_routes \<sigma>) (flow_key_of fe) = Some ls \<and> joins g s d ls \<and> (s = d \<longrightarrow> ls = [])
        \<and> map_of (as_bw \<sigma>) (flow_key_of fe) = Some (bandwidth_demand fe))"

definition inflows_served :: "substrate \<Rightarrow> plan_fragment \<Rightarrow> string set \<Rightarrow> learned_state \<Rightarrow> bool" where
  "inflows_served S f D \<omega> \<longleftrightarrow> (\<forall>fe \<in> set (pf_flows f). target_vnf fe \<in> D \<longrightarrow> flow_done S (la_act \<omega>) fe)"

lemma flow_done_served: "flow_done g \<sigma> fe \<Longrightarrow> flow_served g \<sigma> fe"
  by (auto simp: flow_done_def flow_served_def)

lemma inflows_placed:
  assumes "inflows_served S f D \<omega>" and "v \<notin> set (keys (as_place (la_act \<omega>)))"
    and "as_place (la_act \<omega>') = AList.update v n (as_place (la_act \<omega>))"
    and "as_routes (la_act \<omega>') = as_routes (la_act \<omega>)" and "as_bw (la_act \<omega>') = as_bw (la_act \<omega>)"
  shows "inflows_served S f D \<omega>'"
proof -
  have "map_of (as_place (la_act \<omega>)) v = None" using assms(2) by (simp add: map_of_eq_None_iff)
  then have "flow_done S (la_act \<omega>') fe" if "flow_done S (la_act \<omega>) fe" for fe
    using that unfolding flow_done_def assms(3-5) update_conv by (metis fun_upd_apply option.distinct(1))
  then show ?thesis using assms(1) by (simp add: inflows_served_def)
qed

lemma flow_by_target_distinct:
  assumes "distinct (map target_vnf fes)"
  shows "map_of (flow_by_target fes) t = map_option (\<lambda>fe. (source_vnf fe, bandwidth_demand fe)) (List.find (\<lambda>fe. target_vnf fe = t) fes)"
proof -
  have "map_of (fold (\<lambda>fe. AList.update (target_vnf fe) (source_vnf fe, bandwidth_demand fe)) fes d) t
      = (case List.find (\<lambda>fe. target_vnf fe = t) fes of None \<Rightarrow> map_of d t
         | Some fe \<Rightarrow> Some (source_vnf fe, bandwidth_demand fe))" for d
    using assms
  proof (induction fes arbitrary: d)
    case (Cons fe fes)
    have "List.find (\<lambda>x. target_vnf x = target_vnf fe) fes = None"
      using Cons.prems by (auto simp: find_None_iff image_iff)
    then show ?case using Cons by (auto simp: update_conv split: option.split)
  qed simp
  then show ?thesis by (simp add: flow_by_target_def split: option.split)
qed

context path_oracle
begin

lemma learned_route_inv:
  assumes wf: "wf_graph S" and inv: "learned_inv S m f D \<omega>" and "va_id v \<in> D"
    and new: "\<forall>fk \<in> set (keys (as_routes (la_act \<omega>))). snd fk \<noteq> va_id v"
    and ns: "set ns = set (nodes_in_domain S m)"
    and run: "learned_route nx cfg ns (flow_by_target (pf_flows f)) v n \<omega> = Inr (b, \<omega>')"
  shows "learned_inv S m f D \<omega>'"
proof (cases "\<omega>' = \<omega>")
  case False
  note I = learned_invD[OF inv]
  from run False obtain src bw s r where fl: "map_of (flow_by_target (pf_flows f)) (va_id v) = Some (src, bw)"
    and r: "route_flow nx (as_sub (la_act \<omega>)) s n bw (as_left (la_act \<omega>)) ns (lc_k cfg) (lc_mode cfg) = Inr r" "rr_feasible r"
    and w': "\<omega>' = learned_record cfg \<lparr>source_vnf = src, target_vnf = va_id v, bandwidth_demand = bw\<rparr> r \<omega>"
    by (auto simp: learned_route_def split: option.splits sum.splits if_splits)
  let ?fe = "\<lparr>source_vnf = src, target_vnf = va_id v, bandwidth_demand = bw\<rparr>"
  have fe: "?fe \<in> set (pf_flows f)" by (rule flow_by_target_in[OF fl])
  have fresh: "flow_key_of ?fe \<notin> set (keys (as_routes (la_act \<omega>)))" using new by force
  have wfs: "wf_graph (as_sub (la_act \<omega>))" using wf act_invD(1)[OF I(1)] by simp
  have good: "distinct (rr_links r)" "carries (subgraph (as_sub (la_act \<omega>)) (set (nodes_in_domain S m))) (bandwidth_demand ?fe) (rr_links r)"
    using route_flow_good[OF wfs r] ns by (simp_all add: good_route_def)
  have 1: "act_inv S m (frag_demand (pf_vnfs f)) (pf_flows f) (la_act \<omega>')"
    using act_inv_route[OF wf I(1) fresh fe good] by (simp add: w' learned_record_def record_route_def)
  have 2: "over_ok (as_sub (la_act \<omega>')) (la_over \<omega>')"
    using I(2) by (simp add: w' learned_record_def record_route_def over_ok_def allocate_route_charge map_of_charge option.map_id0)
  have 3: "set (keys (as_place (la_act \<omega>'))) = D"
    using I(3) by (simp add: w' learned_record_def record_route_def)
  have "snd ` set (keys (as_routes (la_act \<omega>'))) \<subseteq> D"
    using I(4) assms(3) keys_update[of "(src, va_id v)" "rr_links r" "as_routes (la_act \<omega>)"]
    by (auto simp: w' learned_record_def record_route_def)
  moreover have "well_placed S f (as_place (la_act \<omega>'))"
    using I(5) by (simp add: w' learned_record_def record_route_def)
  ultimately show ?thesis unfolding learned_inv_def using 1 2 3 by blast
qed (use inv in simp)

lemma learned_route_served:
  assumes wf: "wf_graph S" and inv: "learned_inv S m f (insert (va_id v) D) \<omega>" and dt: "distinct (map target_vnf (pf_flows f))"
    and new: "va_id v \<notin> D" and pl: "map_of (as_place (la_act \<omega>)) (va_id v) = Some n"
    and sv: "inflows_served S f D \<omega>"
    and run: "learned_route nx cfg ns (flow_by_target (pf_flows f)) v n \<omega> = Inr (True, \<omega>')"
  shows "inflows_served S f (insert (va_id v) D) \<omega>'"
proof (cases "List.find (\<lambda>fe. target_vnf fe = va_id v) (pf_flows f)")
  case None
  then have "\<omega>' = \<omega>" using run by (simp add: learned_route_def flow_by_target_distinct[OF dt])
  moreover have "target_vnf fe \<noteq> va_id v" if "fe \<in> set (pf_flows f)" for fe using None that by (auto simp: find_None_iff)
  ultimately show ?thesis using sv by (simp add: inflows_served_def)
next
  case (Some fe0)
  then have fe0: "fe0 \<in> set (pf_flows f)" "target_vnf fe0 = va_id v" by (auto simp: find_Some_iff)
  from run Some obtain s r where s: "map_of (as_place (la_act \<omega>)) (source_vnf fe0) = Some s"
    and r: "route_flow nx (as_sub (la_act \<omega>)) s n (bandwidth_demand fe0) (as_left (la_act \<omega>)) ns (lc_k cfg) (lc_mode cfg) = Inr r"
      "rr_feasible r"
    and w: "\<omega>' = learned_record cfg \<lparr>source_vnf = source_vnf fe0, target_vnf = va_id v, bandwidth_demand = bandwidth_demand fe0\<rparr> r \<omega>"
    by (auto simp: learned_route_def flow_by_target_distinct[OF dt] split: option.splits sum.splits if_splits)
  have "\<lparr>source_vnf = source_vnf fe0, target_vnf = va_id v, bandwidth_demand = bandwidth_demand fe0\<rparr> = fe0"
    using fe0(2) by simp
  note w = w[unfolded this]
  have st: "as_place (la_act \<omega>') = as_place (la_act \<omega>)"
    "as_routes (la_act \<omega>') = AList.update (flow_key_of fe0) (rr_links r) (as_routes (la_act \<omega>))"
    "as_bw (la_act \<omega>') = AList.update (flow_key_of fe0) (bandwidth_demand fe0) (as_bw (la_act \<omega>))"
    by (simp_all add: w learned_record_def record_route_def)
  have "joins S s n (rr_links r)"
    using route_flow_joins[OF r] wf unfolding act_invD(1)[OF learned_invD(1)[OF inv]] by (simp add: joins_charge wf_graph_def)
  moreover have "s = n \<longrightarrow> rr_links r = []"
    using r(1) by (auto simp: route_flow_def same_node_route_def)
  ultimately have done0: "flow_done S (la_act \<omega>') fe0"
    using s pl fe0(2) by (simp add: flow_done_def st update_conv)
  have "flow_done S (la_act \<omega>') fe" if "fe \<in> set (pf_flows f)" "target_vnf fe \<in> D" for fe
  proof -
    have "flow_key_of fe \<noteq> flow_key_of fe0" using that(2) fe0(2) new by auto
    then have "map_of (as_routes (la_act \<omega>')) (flow_key_of fe) = map_of (as_routes (la_act \<omega>)) (flow_key_of fe)"
      "map_of (as_bw (la_act \<omega>')) (flow_key_of fe) = map_of (as_bw (la_act \<omega>)) (flow_key_of fe)"
      unfolding st update_conv by (rule fun_upd_other)+
    then show ?thesis using sv that unfolding inflows_served_def flow_done_def st(1) by simp
  qed
  moreover have "fe = fe0" if "fe \<in> set (pf_flows f)" "target_vnf fe = va_id v" for fe
    using that fe0 dt inj_onD[of target_vnf "set (pf_flows f)" fe fe0] by (simp add: distinct_map)
  ultimately show ?thesis using done0 by (auto simp: inflows_served_def)
qed

lemma learned_loop_inv:
  assumes wf: "wf_graph S" and ids: "distinct (map va_id (pf_vnfs f))"
    and "learned_inv S m f D \<omega>" and "set vs \<subseteq> set (pf_vnfs f)" and "distinct (map va_id vs)"
    and "va_id ` set vs \<inter> D = {}"
    and "learned_loop nx cfg pol rnd m f scales vs \<omega> = Inr (b, \<omega>')"
    and "distinct (map target_vnf (pf_flows f)) \<longrightarrow> inflows_served S f D \<omega>"
  shows "\<exists>D'. learned_inv S m f D' \<omega>'
    \<and> (b \<longrightarrow> D' = D \<union> va_id ` set vs \<and> (distinct (map target_vnf (pf_flows f)) \<longrightarrow> inflows_served S f D' \<omega>'))"
  using assms(3-)
proof (induction vs arbitrary: \<omega> D)
  case (Cons v vs)
  obtain an \<mu> where ch: "learned_choose cfg pol rnd m f scales v \<omega> = (an, \<mu>)"
    by (cases "learned_choose cfg pol rnd m f scales v \<omega>")
  note C = learned_choose_spec[OF Cons.prems(1) ch]
  show ?case
  proof (cases an)
    case None
    then have "b = False" "\<omega>' = \<mu>" using Cons.prems(5) ch by auto
    then show ?thesis using C(1) by blast
  next
    case (Some n)
    from C(2)[OF this] obtain d where n: "n \<in> set (nodes_in_domain S m)"
      and d: "map_of (g_nodes (as_sub (la_act \<mu>))) n = Some d"
      and fits: "va_cpu v \<le> cpu_residual d" "va_ram v \<le> ram_residual d"
      and perm: "n \<in> set (va_permitted v)" "node_tier d = va_tier v" by blast
    let ?ns = "sort (nodes_in_domain (as_sub (la_act \<mu>)) m)"
    let ?p = "learned_place cfg v n d (get_default (la_over \<mu>) n (cpu_residual d, ram_residual d)) \<mu>"
    have v: "v \<in> set (pf_vnfs f)" "va_id v \<notin> D" using Cons.prems(2,4) by auto
    have P: "learned_inv S m f (insert (va_id v) D) ?p"
      by (rule learned_place_inv[OF wf C(1) v ids n d fits perm])
    have new: "\<forall>fk \<in> set (keys (as_routes (la_act ?p))). snd fk \<noteq> va_id v"
      using learned_invD(4)[OF C(1)] v(2) by (force simp: learned_place_def Let_def)
    have ns: "set ?ns = set (nodes_in_domain S m)"
      using act_invD(1)[OF learned_invD(1)[OF C(1)]] by (simp add: nodes_in_domain_charge)
    from Cons.prems(5) ch Some d obtain b1 \<nu> where
      rt: "learned_route nx cfg ?ns (flow_by_target (pf_flows f)) v n ?p = Inr (b1, \<nu>)"
      and rest: "if b1 then learned_loop nx cfg pol rnd m f scales vs \<nu> = Inr (b, \<omega>') else b = False \<and> \<omega>' = \<nu>"
      by (auto split: sum.splits prod.splits bool.splits)
    have R: "learned_inv S m f (insert (va_id v) D) \<nu>"
      by (rule learned_route_inv[OF wf P _ new ns rt]) simp
    show ?thesis
    proof (cases b1)
      case True
      have disj: "va_id ` set vs \<inter> insert (va_id v) D = {}" using Cons.prems(3,4) by auto
      have rtT: "learned_route nx cfg ?ns (flow_by_target (pf_flows f)) v n ?p = Inr (True, \<nu>)" using rt True by simp
      have served: "inflows_served S f (insert (va_id v) D) \<nu>" if dt: "distinct (map target_vnf (pf_flows f))"
      proof (rule learned_route_served[OF wf P dt v(2) _ _ rtT])
        have "la_act \<mu> = la_act \<omega>" using ch by (auto simp: learned_choose_def Let_def case_prod_unfold)
        then have "inflows_served S f D \<mu>" using Cons.prems(6) dt by (simp add: inflows_served_def)
        moreover have "va_id v \<notin> set (keys (as_place (la_act \<mu>)))" using learned_invD(3)[OF C(1)] v(2) by simp
        ultimately show "inflows_served S f D ?p"
          by (rule inflows_placed) (simp_all add: learned_place_def Let_def)
        show "map_of (as_place (la_act ?p)) (va_id v) = Some n" by (simp add: learned_place_def Let_def update_conv)
      qed
      have go: "learned_loop nx cfg pol rnd m f scales vs \<nu> = Inr (b, \<omega>')" using True rest by simp
      have "set vs \<subseteq> set (pf_vnfs f)" "distinct (map va_id vs)" using Cons.prems(2,3) by simp_all
      from Cons.IH[OF R this disj go] served obtain D' where "learned_inv S m f D' \<omega>'"
        "b \<longrightarrow> D' = insert (va_id v) D \<union> va_id ` set vs
           \<and> (distinct (map target_vnf (pf_flows f)) \<longrightarrow> inflows_served S f D' \<omega>')" by blast
      then show ?thesis by auto
    next
      case False
      then show ?thesis using rest R by auto
    qed
  qed
qed auto

text \<open>Every way a call of \<open>learned_act\<close> can end.\<close>

lemma learned_act_cases:
  assumes wf: "wf_graph S" and f: "wf_fragment f" and run: "learned_act nx cfg pol rnd m S f = Inr (T, r)"
  obtains (empty) "fragment_is_empty f" and "T = S" and "r = empty_response m"
  | (refused) "T = S" and "r = infeasible_response m"
  | (completed) \<tau> where "(T, r) = finish m \<tau>"
      and "act_inv S m (frag_demand (pf_vnfs f)) (pf_flows f) \<tau>"
      and "set (keys (as_place \<tau>)) = va_id ` set (pf_vnfs f)"
      and "well_placed S f (as_place \<tau>)"
      and "distinct (map target_vnf (pf_flows f)) \<longrightarrow> (\<forall>fe \<in> set (pf_flows f). flow_served S \<tau> fe)"
proof (cases "fragment_is_empty f \<or> sort (nodes_in_domain S m) = []")
  case True
  then show ?thesis using run empty refused by (auto simp: learned_act_def split: if_splits)
next
  case False
  then obtain b \<omega> where l: "learned_loop nx cfg pol rnd m f (context_scales S m) (pf_vnfs f) (learned_start S f) = Inr (b, \<omega>)"
    and out: "(T, r) = (if b then finish m (la_act \<omega>) else abort m (la_act \<omega>))"
    using run unfolding learned_act_def by (auto split: sum.splits prod.splits bool.splits if_splits)
  have "distinct (map va_id (pf_vnfs f))" using f by (simp add: wf_fragment_def)
  from learned_loop_inv[OF wf this learned_inv_start order_refl this _ l] obtain D where
    D: "learned_inv S m f D \<omega>" "b \<Longrightarrow> D = va_id ` set (pf_vnfs f)"
      "b \<Longrightarrow> distinct (map target_vnf (pf_flows f)) \<Longrightarrow> inflows_served S f D \<omega>"
    by (auto simp: inflows_served_def)
  have served: "flow_served S (la_act \<omega>) fe" if b "distinct (map target_vnf (pf_flows f))" "fe \<in> set (pf_flows f)" for fe
  proof (cases "target_vnf fe \<in> D")
    case True
    then have "flow_done S (la_act \<omega>) fe" using D(3)[OF that(1,2)] that(3) by (simp add: inflows_served_def)
    then show ?thesis by (rule flow_done_served)
  next
    case False
    then have "map_of (as_place (la_act \<omega>)) (target_vnf fe) = None"
      using learned_invD(3)[OF D(1)] by (simp add: map_of_eq_None_iff)
    then show ?thesis by (simp add: flow_served_def)
  qed
  show ?thesis
  proof (cases b)
    case True
    then show ?thesis using completed[of "la_act \<omega>"] out learned_invD(1,3,5)[OF D(1)] D(2) served by simp
  next
    case False
    then show ?thesis using abort_restores[OF wf learned_invD(1)[OF D(1)]] out refused by simp
  qed
qed

lemma learned_domain_actor: "domain_actor m (learned_act nx cfg pol rnd m)"
proof
  fix S T :: substrate and f r
  assume run: "learned_act nx cfg pol rnd m S f = Inr (T, r)"
  show "dr_domain r = m"
    using run by (auto simp: learned_act_def abort_def finish_def empty_response_def infeasible_response_def
        split: if_splits sum.splits prod.splits bool.splits)
next
  fix S T :: substrate and f r
  assume A: "wf_graph S" "wf_fragment f" "learned_act nx cfg pol rnd m S f = Inr (T, r)"
  show "T = S \<and> dr_placements r = [] \<and> dr_routes r = [] \<and> dr_bw r = []" if "\<not> dr_feasible r"
    using A by (cases rule: learned_act_cases)
      (use that in \<open>auto simp: finish_def infeasible_response_def empty_response_def\<close>)
  show "executed S m f T r" if "dr_feasible r"
    using A
  proof (cases rule: learned_act_cases)
    case empty
    then show ?thesis by (simp add: executed_empty)
  next
    case refused
    then show ?thesis using that by (simp add: infeasible_response_def)
  next
    case (completed \<tau>)
    show ?thesis by (rule executed_finish[OF completed(1-3)])
  qed
  show "fulfils S f r" if "dr_feasible r"
    using A
  proof (cases rule: learned_act_cases)
    case empty
    then show ?thesis by (simp add: fulfils_empty)
  next
    case refused
    then show ?thesis using that by (simp add: infeasible_response_def)
  next
    case (completed \<tau>)
    have "distinct (map va_id (pf_vnfs f))" using A(2) by (simp add: wf_fragment_def)
    from well_placed_permitted[OF this completed(4)] show ?thesis
      by (rule fulfils_finish[OF completed(1)]) (use completed(5) in blast)
  qed
  show "no_overbooking T" if "no_overbooking S"
    using A by (cases rule: learned_act_cases) (use that act_invD(8) in \<open>auto simp: finish_def\<close>)
qed

end

sublocale path_oracle \<subseteq> learned: domain_actor m "learned_act nx cfg pol rnd m" for cfg pol rnd m
  by (rule learned_domain_actor)

text \<open>\<open>{m: DomainActor(m) for m in domains}\<close>, every actor with its own scores and draws.\<close>

definition learned_actors :: "nx_lib \<Rightarrow> learned_config \<Rightarrow> (int \<Rightarrow> node_scores) \<Rightarrow> (int \<Rightarrow> nat \<Rightarrow> nat) \<Rightarrow> int list \<Rightarrow> actor_table" where
  "learned_actors nx cfg pol rnd ds = map (\<lambda>m. (m, learned_act nx cfg (pol m) (rnd m) m)) ds"

lemma map_of_learned_actors:
  "map_of (learned_actors nx cfg pol rnd ds) d
   = (if d \<in> set ds then Some (learned_act nx cfg (pol d) (rnd d) d) else None)"
  by (induction ds) (auto simp: learned_actors_def)

sublocale path_oracle \<subseteq> learned_pool: actor_pool nx "learned_actors nx cfg pol rnd ds" for cfg pol rnd ds
  by (intro actor_pool.intro actor_pool_axioms.intro path_oracle_axioms)
     (auto simp: map_of_learned_actors intro: learned_domain_actor split: if_splits)

interpretation dfs_learned_pool: actor_pool dfs_nx "learned_actors dfs_nx cfg pol rnd ds" for cfg pol rnd ds
  by (rule dfs_oracle.learned_pool.actor_pool_axioms)

section \<open>Properties\<close>

text \<open>
  The policy refuses a VNF exactly when the mask leaves it no node; otherwise it takes a
  node the mask allows, and without sampling the best-scored one, the first among equals.
\<close>

theorem choose_node_correct:
  "case choose_node det sc r msk of
     None \<Rightarrow> True \<notin> set msk
   | Some i \<Rightarrow> i < length msk \<and> msk ! i
       \<and> (det \<longrightarrow> (\<forall>j < length msk. msk ! j \<longrightarrow> sc j \<le> sc i \<and> (sc j = sc i \<longrightarrow> i \<le> j)))"
proof (cases "choose_node det sc r msk")
  case None
  have "True \<notin> set msk"
  proof
    assume "True \<in> set msk"
    then obtain i where "i < length msk" "msk ! i" by (auto simp: in_set_conv_nth)
    then have ne: "filter (\<lambda>i. msk ! i) [0..<length msk] \<noteq> []" by (auto simp: filter_empty_conv)
    then have s: "open_slots msk = filter (\<lambda>i. msk ! i) [0..<length msk]"
      by (auto simp: open_slots_def split: list.splits)
    have "j \<noteq> length msk" if "j \<in> set (open_slots msk)" for j using that s by simp
    moreover have "open_slots msk ! (r mod length (open_slots msk)) \<in> set (open_slots msk)"
      using open_slots_nonempty by simp
    moreover obtain x j where "least (map (\<lambda>i. (- sc i, i)) (open_slots msk)) = Some (x, j)" "j \<in> set (open_slots msk)"
      using least_in[of "map (\<lambda>i. (- sc i, i)) (open_slots msk)"] open_slots_nonempty
      by (cases "least (map (\<lambda>i. (- sc i, i)) (open_slots msk))") auto
    ultimately show False
      using None by (auto simp: choose_node_def Let_def split: if_splits)
  qed
  with None show ?thesis by simp
next
  case (Some i)
  note M = choose_node_masked[OF Some]
  have "sc j \<le> sc i \<and> (sc j = sc i \<longrightarrow> i \<le> j)" if det and j: "j < length msk" "msk ! j" for j
  proof -
    have "filter (\<lambda>i. msk ! i) [0..<length msk] \<noteq> []" using j by (auto simp: filter_empty_conv)
    then have s: "open_slots msk = filter (\<lambda>i. msk ! i) [0..<length msk]"
      by (auto simp: open_slots_def split: list.splits)
    from Some \<open>det\<close> M obtain x where l: "least (map (\<lambda>i. (- sc i, i)) (open_slots msk)) = Some (x, i)"
      by (auto simp: choose_node_def Let_def split: option.splits if_splits)
    have "(- sc j, j) \<in> set (map (\<lambda>i. (- sc i, i)) (open_slots msk))" using j s by simp
    from least_le[OF l this] least_in[OF l] show ?thesis by (auto simp: less_eq_prod_def)
  qed
  with Some M show ?thesis by simp
qed

theorem choose_node_correct_witness:
  "choose_node True (\<lambda>i. [1, 5, 5] ! i) 0 [True, True, True] = Some 1
   \<and> choose_node True (\<lambda>i. [1, 5, 5] ! i) 0 [False, False] = None \<and> (5 :: real) \<le> [1, 5, 5] ! 1"
proof -
  have e: "choose_node True (\<lambda>i. [1, 5, 5] ! i) 0 [True, True, True] = Some 1"
    "choose_node True (\<lambda>i. [1, 5, 5] ! i) 0 [False, False] = None" by code_simp+
  from choose_node_correct[where det = True and sc = "\<lambda>i. [1, 5, 5] ! i" and r = 0 and msk = "[True, True, True]"] e
  have "[1, 5, 5] ! 2 \<le> ([1, 5, 5] ! 1 :: real)" by (auto dest: spec[of _ 2])
  with e show ?thesis by simp
qed

text \<open>
  C9: whatever the network and the draws say, a call of the learned actor either leaves the
  substrate exactly as it was and reports nothing, or has put every VNF of the fragment on a
  permitted node of its required tier in the domain and charged exactly what it reports. It
  never over-allocates a resource.
\<close>

theorem learned_act_correct:
  assumes "path_oracle nx" and "wf_graph S" and "wf_fragment f"
    and "learned_act nx cfg pol rnd m S f = Inr (T, r)"
  shows "dr_domain r = m
       \<and> (if dr_feasible r then executed S m f T r \<and> well_placed S f (dr_placements r)
          else T = S \<and> r = infeasible_response m)
       \<and> (no_overbooking S \<longrightarrow> no_overbooking T)"
proof -
  note D = path_oracle.learned_domain_actor[OF assms(1), of m cfg pol rnd]
  have "(if dr_feasible r then well_placed S f (dr_placements r) else r = infeasible_response m)"
    by (cases rule: path_oracle.learned_act_cases[OF assms, case_names empty refused completed])
       (auto simp: empty_response_def infeasible_response_def finish_def well_placed_def)
  then show ?thesis
    using domain_actor.act_domain[OF D assms(4)] domain_actor.act_executes[OF D assms(2-4)]
      domain_actor.act_refuses[OF D assms(2-4)] domain_actor.act_safe[OF D assms(2-4)]
    by auto
qed

definition ex_learned_frag :: plan_fragment where
  "ex_learned_frag = \<lparr>pf_domain = 0,
     pf_vnfs = [(ex_va ''u'')\<lparr>va_permitted := [''a'', ''b'']\<rparr>, (ex_va ''v'')\<lparr>va_permitted := [''a'', ''b'']\<rparr>,
                (ex_va ''w'')\<lparr>va_cpu := 1, va_permitted := [''a'', ''b'']\<rparr>],
     pf_flows = [\<lparr>source_vnf = ''v'', target_vnf = ''w'', bandwidth_demand = 4\<rparr>,
                 \<lparr>source_vnf = ''u'', target_vnf = ''w'', bandwidth_demand = 4\<rparr>],
     pf_delay_budget = 20, pf_targets = {}\<rparr>"

abbreviation ex_learned_run :: "py_error + (substrate \<times> domain_response)" where
  "ex_learned_run \<equiv> learned_act dfs_nx (default_learned_config\<lparr>lc_stochastic := False\<rparr>)
     (\<lambda>ob ctx i. - real i) (\<lambda>k. 0) 0 ex_sub ex_learned_frag"

lemma ex_learned_runs:
  "\<exists>T r. ex_learned_run = Inr (T, r) \<and> dr_feasible r
     \<and> dr_placements r = [(''u'', ''a''), (''v'', ''b''), (''w'', ''a'')]
     \<and> map_of (dr_routes r) (''v'', ''w'') = None"
proof -
  have "(case ex_learned_run of Inl e \<Rightarrow> False
     | Inr (T, r) \<Rightarrow> dr_feasible r \<and> dr_placements r = [(''u'', ''a''), (''v'', ''b''), (''w'', ''a'')]
         \<and> map_of (dr_routes r) (''v'', ''w'') = None)" by code_simp
  then show ?thesis by (auto split: sum.splits)
qed

theorem learned_act_correct_witness:
  "\<exists>T r. ex_learned_run = Inr (T, r) \<and> executed ex_sub 0 ex_learned_frag T r
     \<and> well_placed ex_sub ex_learned_frag (dr_placements r) \<and> no_overbooking T"
proof -
  have h: "wf_graph ex_sub" "wf_fragment ex_learned_frag" "no_overbooking ex_sub" by code_simp+
  from ex_learned_runs obtain T r where r: "ex_learned_run = Inr (T, r)" "dr_feasible r" by blast
  from learned_act_correct[OF dfs_oracle.path_oracle_axioms h(1,2) r(1)] r h(3) show ?thesis by auto
qed

text \<open>
  The learned actor serves at most one flow into each VNF: with two flows into one VNF the
  earlier one is silently left without a route although its ends are on different nodes, and
  the fragment is still reported feasible. (The greedy actor routes both.)
\<close>

theorem learned_act_drops_second_flow:
  "\<exists>T r. ex_learned_run = Inr (T, r) \<and> dr_feasible r \<and> \<not> serves_flows ex_sub r (pf_flows ex_learned_frag)"
proof -
  from ex_learned_runs obtain T r where r: "ex_learned_run = Inr (T, r)" "dr_feasible r"
    "dr_placements r = [(''u'', ''a''), (''v'', ''b''), (''w'', ''a'')]"
    "map_of (dr_routes r) (''v'', ''w'') = None" by blast
  then have "\<not> serves_flows ex_sub r (pf_flows ex_learned_frag)"
    by (auto simp: serves_flows_def ex_learned_frag_def)
  with r show ?thesis by blast
qed

end
