(* ===== verification/Plain.thy ===== *)
theory Plain
  imports Acceptance Colocation
begin

text \<open>
  The evaluation of the \<open>Plain\<close> heuristic (\<open>eval_plain\<close> of \<open>src/scripts/grid_runner.py\<close>): its own
  event loop over the stream, co-location first, the chain-order test, the QoS gate, one
  \<open>allocate\<close>. It checks before it allocates, so it has no revocations. Left out: the cost and
  utilisation accumulators, the structure metrics and the profiling spans; they read the
  substrate and never change it.
\<close>

section \<open>The loop\<close>

record plain_state =
  pl_sub :: substrate
  pl_active :: "(string, placement_plan \<times> slice_request) dict"
  pl_admitted :: nat
  pl_total :: nat
  pl_rejects :: "(string, nat) dict"
  pl_split :: "(string, nat) dict"

definition plain_start :: "substrate \<Rightarrow> plain_state" where
  "plain_start S = \<lparr>pl_sub = S, pl_active = [], pl_admitted = 0, pl_total = 0,
     pl_rejects = map (\<lambda>b. (b, 0)) reject_bins, pl_split = [(''C7'', 0), (''C9'', 0)]\<rparr>"

definition plain_reject :: "string \<Rightarrow> plain_state \<Rightarrow> plain_state" where
  "plain_reject b st = st\<lparr>pl_rejects := add_at b 1 (pl_rejects st)\<rparr>"

definition plain_departure :: "string \<Rightarrow> plain_state \<Rightarrow> py_error + plain_state" where
  "plain_departure rid st =
     (case map_of (pl_active st) rid of
        None \<Rightarrow> Inr st
      | Some (plan, req) \<Rightarrow>
          map_sum id (\<lambda>T. st\<lparr>pl_sub := T, pl_active := AList.delete rid (pl_active st)\<rparr>)
            (deallocate (pl_sub st) plan req))"

text \<open>The partition is read back off the placement.\<close>

fun placed_domains :: "'a graph_scheme \<Rightarrow> (string, node_id) dict \<Rightarrow> vnf list \<Rightarrow> py_error + int list" where
  "placed_domains g pl [] = Inr []"
| "placed_domains g pl (v # vs) =
     (case map_of pl (vnf_id v) of
        None \<Rightarrow> Inl KeyError
      | Some n \<Rightarrow>
     (case node_at g n of
        Inl e \<Rightarrow> Inl e
      | Inr d \<Rightarrow> map_sum id ((#) (domain_id d)) (placed_domains g pl vs)))"

text \<open>The \<open>try\<close> block: whatever \<open>allocate\<close> or the verifier raises is binned, not propagated. An
  \<open>allocate\<close> that raises on a name half-way has already charged the earlier ones; the model keeps
  the substrate as it was, and \<open>eval_plain_correct\<close> shows that this branch is never taken.\<close>

definition plain_admit :: "placement_plan \<Rightarrow> slice_request \<Rightarrow> plain_state \<Rightarrow> plain_state" where
  "plain_admit plan req st =
     (case allocate (pl_sub st) plan req of
        Inl e \<Rightarrow> plain_reject ''unattributed'' st
      | Inr T \<Rightarrow>
          let st' = st\<lparr>pl_sub := T, pl_active := AList.update (request_id req) (plan, req) (pl_active st),
                       pl_admitted := pl_admitted st + 1\<rparr>
          in case verify_committed_plan T plan req 3 of
               Inl e \<Rightarrow> plain_reject ''unattributed'' st'
             | Inr v \<Rightarrow> st')"

definition plain_arrival :: "nx_lib \<Rightarrow> string option \<Rightarrow> slice_request \<Rightarrow> plain_state \<Rightarrow> py_error + plain_state" where
  "plain_arrival nx env req st0 =
     (let st = st0\<lparr>pl_total := pl_total st0 + 1\<rparr>; S = pl_sub st in
      case colocation_ffd nx S req default_greedy_config of
        Inl e \<Rightarrow> Inl e
      | Inr r \<Rightarrow>
     (case gr_plan r of
        None \<Rightarrow> Inr (plain_reject ''structural'' st)
      | Some plan \<Rightarrow>
      if \<not> gr_feasible r then Inr (plain_reject ''structural'' st)
      else case placed_domains S (vnf_placements plan) (vnfs req) of
        Inl e \<Rightarrow> Inl e
      | Inr ds \<Rightarrow>
     (case violates env ds of
        Inl e \<Rightarrow> Inl e
      | Inr True \<Rightarrow> Inr (plain_reject ''chain_order'' st)
      | Inr False \<Rightarrow>
     (case plan_qos_reason S req plan 3 of
        Inl e \<Rightarrow> Inl e
      | Inr (Some reason) \<Rightarrow>
          Inr ((plain_reject ''qos_gate'' st)\<lparr>pl_split := add_at reason 1 (pl_split st)\<rparr>)
      | Inr None \<Rightarrow> Inr (plain_admit plan req st)))))"

definition plain_event :: "nx_lib \<Rightarrow> string option \<Rightarrow> sim_event \<Rightarrow> plain_state \<Rightarrow> py_error + plain_state" where
  "plain_event nx env e st =
     (if ev_type e = DEPARTURE then plain_departure (ev_request e) st
      else case ev_slice e of
          None \<Rightarrow> Inr st
        | Some req \<Rightarrow> plain_arrival nx env req st)"

definition plain_report :: "plain_state \<Rightarrow> acceptance_report" where
  "plain_report st = \<lparr>ar_admitted = pl_admitted st, ar_offered = pl_total st, ar_rejections = pl_rejects st\<rparr>"

definition eval_plain :: "nx_lib \<Rightarrow> string option \<Rightarrow> substrate \<Rightarrow> sim_event list \<Rightarrow> py_error + plain_state" where
  "eval_plain nx env S es =
     (case fold_err (plain_event nx env) es (plain_start S) of
        Inl e \<Rightarrow> Inl e
      | Inr st \<Rightarrow> map_sum id (\<lambda>_. st) (check_conservation (plain_report st)))"

section \<open>One admission\<close>

lemma placed_domains_total:
  assumes "\<forall>v \<in> set vs. \<exists>n d. map_of pl (vnf_id v) = Some n \<and> map_of (g_nodes g) n = Some d"
  shows "\<exists>ds. placed_domains g pl vs = Inr ds"
  using assms by (induction vs) (auto simp: node_at_def)

text \<open>A plan of the baseline that passes the gate can be allocated, over-books nothing, and the
  verifier finds nothing to object to.\<close>

lemma gated_plan_verified:
  assumes nx: "path_oracle nx" and wf: "wf_graph S" and typed: "typed_links S" and safe: "no_overbooking S"
    and req: "wf_request req" and new: "request_id req \<notin> set (keys (active_slices S))"
    and sv: "ffd_served S req \<sigma>" and pl: "plan_of_state plan \<sigma>"
    and gate: "plan_qos_reason S req plan k = Inr None"
  obtains T v where "allocate S plan req = Inr T" and "no_overbooking T"
    and "verify_committed_plan T plan req k = Inr v" and "vd_violated v = []" and "vd_feasible v"
proof -
  have inv: "ffd_inv S [] \<sigma>" using sv unfolding ffd_served_def by blast
  from path_oracle.ffd_allocates[OF nx wf inv new pl] safe obtain T where
    al: "allocate S plan req = Inr T" and ob: "no_overbooking T" by blast
  from gate_verdict[OF wf typed req served_plan_serves[OF req sv pl] al, of k] gate obtain v where
    v: "verify_committed_plan T plan req k = Inr v" and no: "''C9'' \<notin> set (vd_violated v)" "''C7'' \<notin> set (vd_violated v)"
    by (auto split: if_splits)
  note cap = capacities_ok[OF ob]
  obtain thr where c5: "check_c5b req plan = (thr, False)"
    using served_throughput[OF req sv pl] by (cases "check_c5b req plan") simp
  have "vd_violated v = []" "vd_feasible v"
    using v no by (auto simp: verify_committed_plan_def cap c5 Let_def split: sum.splits if_splits)
  with that al ob v show thesis by blast
qed

lemma served_domains:
  assumes wf: "wf_graph S" and sv: "ffd_served S req \<sigma>" and pl: "plan_of_state plan \<sigma>"
  shows "\<exists>ds. placed_domains S (vnf_placements plan) (vnfs req) = Inr ds"
proof (rule placed_domains_total, intro ballI)
  fix v assume v: "v \<in> set (vnfs req)"
  have inv: "ffd_inv S [] \<sigma>" and keys: "set (keys (fs_place \<sigma>)) = vnf_id ` set (vnfs req)"
    using sv unfolding ffd_served_def by blast+
  have "vnf_id v \<in> set (keys (fs_place \<sigma>))" unfolding keys using v by blast
  then obtain n where n: "map_of (fs_place \<sigma>) (vnf_id v) = Some n" by (auto simp: key_iff)
  then have "n \<in> set (vals (fs_place \<sigma>))" by (force dest: map_of_SomeD)
  then have "n \<in> set (keys (g_nodes S))" using ffd_invD(8)[OF inv] by blast
  then show "\<exists>n d. map_of (vnf_placements plan) (vnf_id v) = Some n \<and> map_of (g_nodes S) n = Some d"
    using n pl by (auto simp: key_iff plan_of_state_def)
qed

section \<open>The invariant of the loop\<close>

definition plain_ok :: "substrate \<Rightarrow> string set \<Rightarrow> plain_state \<Rightarrow> bool" where
  "plain_ok R seen st \<longleftrightarrow>
     booked R seen (pl_sub st) \<and> pl_active st = active_slices (pl_sub st)
     \<and> pl_admitted st + sum_list (vals (pl_rejects st)) = pl_total st
     \<and> get_default (pl_rejects st) ''unattributed'' 0 = 0"

lemma plain_ok_reject:
  assumes "plain_ok R seen st" and "b \<noteq> ''unattributed''" and "rid \<notin> seen"
  shows "plain_ok R (insert rid seen) ((plain_reject b (st\<lparr>pl_total := pl_total st + 1\<rparr>))\<lparr>pl_split := s\<rparr>)"
    and "plain_ok R (insert rid seen) (plain_reject b (st\<lparr>pl_total := pl_total st + 1\<rparr>))"
  using assms by (auto simp: plain_ok_def plain_reject_def booked_def sum_vals_add_at)

lemma plain_departure_ok:
  assumes ok: "plain_ok R seen st" and wfR: "wf_graph R"
  shows "\<exists>st'. plain_departure rid st = Inr st' \<and> plain_ok R (seen - {rid}) st'"
proof (cases "map_of (pl_active st) rid")
  case None
  then have "booked R (seen - {rid}) (pl_sub st)"
    using ok by (intro booked_absent) (simp_all add: plain_ok_def)
  then show ?thesis using ok None by (simp add: plain_departure_def plain_ok_def)
next
  case (Some pq)
  obtain plan req where pq: "pq = (plan, req)" by (cases pq)
  have bk: "booked R seen (pl_sub st)" and act: "pl_active st = active_slices (pl_sub st)"
    using ok by (simp_all add: plain_ok_def)
  from booked_deallocate[OF bk wfR Some[unfolded pq act]] obtain T where
    "deallocate (pl_sub st) plan req = Inr T" "booked R (seen - {rid}) T"
    "active_slices T = AList.delete rid (active_slices (pl_sub st))" by blast
  then show ?thesis using ok Some by (simp add: plain_departure_def pq plain_ok_def)
qed

lemma plain_arrival_ok:
  assumes nx: "path_oracle nx" and wfR: "wf_graph R" and tyR: "typed_links R" and env: "chain_mode_of env = Inr m"
    and ok: "plain_ok R seen st" and req: "wf_request req" "closed_request req" "nonneg_request req"
    and fresh: "request_id req \<notin> seen"
  shows "\<exists>st'. plain_arrival nx env req st = Inr st' \<and> plain_ok R (insert (request_id req) seen) st'"
proof -
  let ?S = "pl_sub st" and ?st = "st\<lparr>pl_total := pl_total st + 1\<rparr>"
  have bk: "booked R seen ?S" and act: "pl_active st = active_slices ?S"
    using ok by (simp_all add: plain_ok_def)
  note I = bookedD[OF bk]
  have wf: "wf_graph ?S" by (rule wf_from_reset[OF I(1) wfR])
  have typed: "typed_links ?S" using tyR I(1) typed_reset by blast
  have new: "request_id req \<notin> set (keys (active_slices ?S))" using I(4) fresh by blast
  from path_oracle.colocation_ffd_total[OF nx wf req(1,2), of default_greedy_config] obtain r where
    r: "colocation_ffd nx ?S req default_greedy_config = Inr r" by blast
  show ?thesis
  proof (cases "gr_plan r = None \<or> \<not> gr_feasible r")
    case True
    then have "plain_arrival nx env req st = Inr (plain_reject ''structural'' ?st)"
      using r by (auto simp: plain_arrival_def Let_def split: option.split)
    then show ?thesis using plain_ok_reject(2)[OF ok _ fresh, of "''structural''"] by simp
  next
    case False
    then have feas: "gr_feasible r" by simp
    from path_oracle.colocation_ffd_feasible[OF nx wf req(1) r feas] obtain plan \<sigma> where
      plan: "gr_plan r = Some plan" and pl: "plan_of_state plan \<sigma>" and sv: "ffd_served ?S req \<sigma>" by blast
    from served_domains[OF wf sv pl] obtain ds where ds: "placed_domains ?S (vnf_placements plan) (vnfs req) = Inr ds" by blast
    obtain c where c: "violates env ds = Inr c" using env by (simp add: violates_def enabled_def)
    have inv: "ffd_inv ?S [] \<sigma>" using sv unfolding ffd_served_def by blast
    from path_oracle.ffd_allocates[OF nx wf inv new pl] obtain T0 where al0: "allocate ?S plan req = Inr T0" by blast
    from gate_verdict[OF wf typed req(1) served_plan_serves[OF req(1) sv pl] al0, of 3] obtain reason where
      gate: "plan_qos_reason ?S req plan 3 = Inr reason" by blast
    have start: "plain_arrival nx env req st = (case c of True \<Rightarrow> Inr (plain_reject ''chain_order'' ?st)
        | False \<Rightarrow> (case reason of
            Some why \<Rightarrow> Inr ((plain_reject ''qos_gate'' ?st)\<lparr>pl_split := add_at why 1 (pl_split ?st)\<rparr>)
          | None \<Rightarrow> Inr (plain_admit plan req ?st)))"
      using r plan feas ds c gate by (simp add: plain_arrival_def Let_def split: bool.split option.split)
    show ?thesis
    proof (cases c)
      case True
      then show ?thesis unfolding start using plain_ok_reject(2)[OF ok _ fresh, of "''chain_order''"] by simp
    next
      case nc: False
      show ?thesis
      proof (cases reason)
        case (Some why)
        then show ?thesis unfolding start using nc plain_ok_reject(1)[OF ok _ fresh, of "''qos_gate''"] by simp
      next
        case None
        from gated_plan_verified[OF nx wf typed I(3) req(1) new sv pl gate[unfolded None]] obtain T v where
          T: "allocate ?S plan req = Inr T" "no_overbooking T" "verify_committed_plan T plan req 3 = Inr v" by blast
        have "booked R (insert (request_id req) seen) T"
          by (rule booked_allocate[OF bk T(1,2) served_nonneg[OF req(3) sv pl]])
        moreover have "AList.update (request_id req) (plan, req) (pl_active st) = active_slices T"
          unfolding act allocate_parts(2)[OF T(1)] by (rule update_fresh[OF new])
        ultimately have "plain_ok R (insert (request_id req) seen) (plain_admit plan req ?st)"
          using ok T by (simp add: plain_admit_def plain_ok_def Let_def)
        then show ?thesis unfolding start using nc None by simp
      qed
    qed
  qed
qed

text \<open>The stream: distinct ids, well-formed and closed requests with demands that are not negative.\<close>

definition plain_stream :: "sim_event list \<Rightarrow> bool" where
  "plain_stream es \<longleftrightarrow> stream_ok es \<and> (\<forall>req \<in> set (arrivals es). closed_request req)"

lemma plain_fold_ok:
  assumes nx: "path_oracle nx" and wfR: "wf_graph R" and tyR: "typed_links R" and env: "chain_mode_of env = Inr m"
    and start: "plain_ok R {} st0" and "plain_stream es"
  shows "\<exists>st. fold_err (plain_event nx env) es st0 = Inr st \<and> plain_ok R (live es) st
    \<and> pl_total st = pl_total st0 + length (arrivals es)"
  using assms(6)
proof (induction es rule: rev_induct)
  case Nil
  then show ?case using start by simp
next
  case (snoc e es)
  have "plain_stream es" using snoc.prems stream_ok_prefix by (auto simp: plain_stream_def)
  with snoc.IH obtain st where st: "fold_err (plain_event nx env) es st0 = Inr st" "plain_ok R (live es) st"
    "pl_total st = pl_total st0 + length (arrivals es)" by blast
  have "\<exists>st'. plain_event nx env e st = Inr st' \<and> plain_ok R (live (es @ [e])) st'
      \<and> pl_total st' = pl_total st0 + length (arrivals (es @ [e]))"
  proof (cases "ev_type e")
    case DEPARTURE
    from plain_departure_ok[OF st(2) wfR] obtain st' where
      "plain_departure (ev_request e) st = Inr st'" "plain_ok R (live es - {ev_request e}) st'" by blast
    moreover from this(1) have "pl_total st' = pl_total st"
      by (auto simp: plain_departure_def map_sum_def split: option.splits sum.splits)
    ultimately show ?thesis using DEPARTURE st(3) by (simp add: plain_event_def live_step_def)
  next
    case ARRIVAL
    show ?thesis
    proof (cases "ev_slice e")
      case None
      then show ?thesis using ARRIVAL st by (simp add: plain_event_def live_step_def)
    next
      case (Some req)
      from snoc.prems ARRIVAL Some have w: "wf_request req" "closed_request req" "nonneg_request req"
        and "request_id req \<notin> request_id ` set (arrivals es)"
        by (auto simp: plain_stream_def stream_ok_def)
      then have fresh: "request_id req \<notin> live es" using live_arrived by blast
      from plain_arrival_ok[OF nx wfR tyR env st(2) w fresh] obtain st' where
        st': "plain_arrival nx env req st = Inr st'" "plain_ok R (insert (request_id req) (live es)) st'" by blast
      have "pl_total st' = pl_total st + 1"
        using st'(1) by (auto simp: plain_arrival_def plain_reject_def plain_admit_def Let_def
            split: sum.splits option.splits bool.splits if_splits)
      then show ?thesis using ARRIVAL Some st st' by (simp add: plain_event_def live_step_def)
    qed
  qed
  then show ?case using st(1) by (auto simp: fold_err_append)
qed

section \<open>Properties\<close>

text \<open>C7: \<open>Plain\<close> is never revoked. A co-location plan that passes the gate can be allocated,
  over-books nothing, and the post-commit verifier finds no violated constraint at all: the check
  before the allocation makes the one after it redundant.\<close>

theorem plain_admission_never_revoked:
  assumes "path_oracle nx" and "wf_graph S" and "typed_links S" and "no_overbooking S" and "wf_request req"
    and "request_id req \<notin> set (keys (active_slices S))"
    and "colocation_ffd nx S req cfg = Inr r" and "gr_feasible r" and "gr_plan r = Some plan"
    and "plan_qos_ok S req plan k = Inr True"
  shows "\<exists>T v. allocate S plan req = Inr T \<and> no_overbooking T
    \<and> verify_committed_plan T plan req k = Inr v \<and> vd_violated v = [] \<and> vd_feasible v"
proof -
  from path_oracle.colocation_ffd_feasible[OF assms(1,2,5,7,8)] assms(9) obtain \<sigma> where
    pl: "plan_of_state plan \<sigma>" and sv: "ffd_served S req \<sigma>" by (metis option.inject)
  have "plan_qos_reason S req plan k = Inr None"
    using assms(10) by (auto simp: plan_qos_ok_def map_sum_def split: sum.splits)
  from gated_plan_verified[OF assms(1-6) sv pl this] show ?thesis by metis
qed

theorem plain_admission_never_revoked_witness:
  "\<exists>r plan T v. colocation_ffd dfs_nx ex_sub ex_req default_greedy_config = Inr r \<and> gr_plan r = Some plan
    \<and> allocate ex_sub plan ex_req = Inr T \<and> no_overbooking T
    \<and> verify_committed_plan T plan ex_req 3 = Inr v \<and> vd_feasible v"
proof -
  let ?r = "projr (colocation_ffd dfs_nx ex_sub ex_req default_greedy_config)"
  let ?p = "the (gr_plan ?r)"
  have h: "wf_graph ex_sub" "typed_links ex_sub" "no_overbooking ex_sub" "wf_request ex_req"
    "request_id ex_req \<notin> set (keys (active_slices ex_sub))"
    "colocation_ffd dfs_nx ex_sub ex_req default_greedy_config = Inr ?r" "gr_feasible ?r"
    "gr_plan ?r = Some ?p" "plan_qos_ok ex_sub ex_req ?p 3 = Inr True"
    by code_simp+
  from plain_admission_never_revoked[OF dfs_oracle.path_oracle_axioms h] h(6,8) show ?thesis by blast
qed

lemma eval_plain_ok:
  assumes "path_oracle nx" and "wf_graph S" and "typed_links S" and "reset_substrate S = S" and "no_overbooking S"
    and "chain_mode_of env = Inr m" and "plain_stream es"
  shows "\<exists>st. eval_plain nx env S es = Inr st
    \<and> pl_total st = length (arrivals es) \<and> pl_admitted st + sum_list (vals (pl_rejects st)) = pl_total st
    \<and> get_default (pl_rejects st) ''unattributed'' 0 = 0
    \<and> no_overbooking (pl_sub st) \<and> accounted (pl_sub st) \<and> pl_active st = active_slices (pl_sub st)
    \<and> set (keys (pl_active st)) \<subseteq> live es"
proof -
  have "active_slices S = []" using active_reset[of S] assms(4) by simp
  moreover have "accounted S" using accounted_reset[of S] assms(4) by simp
  ultimately have "plain_ok S {} (plain_start S)"
    using assms(4,5) by (auto simp: plain_ok_def booked_def plain_start_def reject_bins_def get_default_def)
  from plain_fold_ok[OF assms(1-3,6) this assms(7)] obtain st where
    st: "fold_err (plain_event nx env) es (plain_start S) = Inr st" and ok: "plain_ok S (live es) st"
    and "pl_total st = length (arrivals es)" by (auto simp: plain_start_def)
  moreover have "eval_plain nx env S es = Inr st"
    using st ok by (simp add: eval_plain_def check_conservation_def plain_report_def plain_ok_def)
  ultimately show ?thesis unfolding plain_ok_def booked_def by auto
qed

text \<open>C36: the evaluation of \<open>Plain\<close> returns on every stream: no handler raises, every arrival is
  admitted or in one bin, the bin for refused allocations stays empty, and at the end nothing is
  over-booked and only slices that have not departed are held, with exactly the residual they
  claim missing.\<close>

theorem eval_plain_correct:
  assumes "path_oracle nx" and "wf_graph S" and "typed_links S" and "reset_substrate S = S" and "no_overbooking S"
    and "chain_mode_of env = Inr m" and "plain_stream es"
  shows "\<exists>st. eval_plain nx env S es = Inr st
    \<and> pl_total st = length (arrivals es) \<and> pl_admitted st + sum_list (vals (pl_rejects st)) = pl_total st
    \<and> get_default (pl_rejects st) ''unattributed'' 0 = 0
    \<and> no_overbooking (pl_sub st) \<and> accounted (pl_sub st) \<and> pl_active st = active_slices (pl_sub st)
    \<and> set (keys (pl_active st)) \<subseteq> live es"
  using assms by (rule eval_plain_ok)

definition ex_plain_events :: "sim_event list" where
  "ex_plain_events = ap_events (generate [1, 1, 2] [1 / 2, 9, 1] (ex_process\<lparr>ap_num := 3\<rparr>))"

theorem eval_plain_correct_witness:
  "\<exists>st. eval_plain dfs_nx None ex_sub ex_plain_events = Inr st \<and> pl_admitted st = 2
    \<and> pl_total st = 3 \<and> no_overbooking (pl_sub st) \<and> get_default (pl_rejects st) ''unattributed'' 0 = 0"
proof -
  have h: "wf_graph ex_sub" "typed_links ex_sub" "reset_substrate ex_sub = ex_sub" "no_overbooking ex_sub"
    "chain_mode_of None = Inr RejectMode" "plain_stream ex_plain_events" by code_simp+
  have n: "length (arrivals ex_plain_events) = 3"
    "(case eval_plain dfs_nx None ex_sub ex_plain_events of Inl e \<Rightarrow> False | Inr st \<Rightarrow> pl_admitted st = 2)" by code_simp+
  from eval_plain_correct[OF dfs_oracle.path_oracle_axioms h] n show ?thesis by (auto split: sum.splits)
qed

end
