(* ===== verification/Partition_View.thy ===== *)
theory Partition_View
  imports Admissibility
begin

text \<open>
  The heuristic partition builders (\<open>src/scripts/partial_obs_prior.py\<close>): the observation surface
  \<open>_PartitionView\<close> with its admissibility tests, the partial-observability builder, the greedy
  fallback of the full-observability one, and the repair of authored plans. The module switches
  \<open>GUARD_MODE\<close>, \<open>CONTIGUOUS\<close> and \<open>SEQ_ACCOUNTING\<close> are a record, the counters of
  \<open>REPAIR_STATS\<close> are threaded through. Sets of tiers are lists whose order does not matter.

  The theorem: a partition of the partial-observability builder is chain-contiguous, admissible
  position by position, and leaves every domain it uses with room on the aggregates.
\<close>

section \<open>The view\<close>

datatype guard_mode = GuardFull | GuardModal | GuardOff | GuardObsenc

text \<open>Any other string falls through to the full guard.\<close>

definition guard_mode_of :: "string \<Rightarrow> guard_mode" where
  "guard_mode_of s =
     (if s = ''off'' then GuardOff else if s = ''obsenc'' then GuardObsenc
      else if s = ''modal'' then GuardModal else GuardFull)"

record switches =
  sx_guard :: guard_mode
  sx_contiguous :: bool
  sx_seq :: bool

definition default_switches :: switches where
  "default_switches = \<lparr>sx_guard = GuardFull, sx_contiguous = True, sx_seq = True\<rparr>"

record view =
  vw_sums :: "domain_summary list"
  vw_feas :: "bool list list"
  vw_tiers :: "tier list list list"
  vw_cpu :: "real list"
  vw_ram :: "real list"
  vw_req_tiers :: "tier list"
  vw_reject :: bool
  vw_index :: "int \<Rightarrow> nat option"
  vw_max_cpu_cap :: real
  vw_max_ram_cap :: real
  vw_max_cpu_d :: real
  vw_max_ram_d :: real

abbreviation vw_M :: "view \<Rightarrow> nat" where
  "vw_M v \<equiv> length (vw_sums v)"

abbreviation vw_K :: "view \<Rightarrow> nat" where
  "vw_K v \<equiv> length (vw_cpu v)"

text \<open>\<open>max(counts, key=counts.get)\<close>: the first tier with the greatest count.\<close>

definition modal_tier :: "(tier, nat) dict \<Rightarrow> tier option" where
  "modal_tier counts = map_option fst (List.find (\<lambda>(t, c). \<forall>(t', c') \<in> set counts. c' \<le> c) counts)"

definition required_tier_of :: "'a graph_scheme \<Rightarrow> vnf \<Rightarrow> tier" where
  "required_tier_of g v =
     (let counts = fold (\<lambda>n c. case map_of (g_nodes g) n of
                           None \<Rightarrow> c | Some d \<Rightarrow> add_at (node_tier d) 1 c) (permitted_nodes v) []
      in case modal_tier counts of Some t \<Rightarrow> t | None \<Rightarrow> Edge)"

definition required_tiers :: "slice_request \<Rightarrow> 'a graph_scheme \<Rightarrow> tier list" where
  "required_tiers req g = map (required_tier_of g) (vnfs req)"

text \<open>\<open>max(xs, default=1.0) or 1.0\<close>.\<close>

definition max_or_default :: "real list \<Rightarrow> real" where
  "max_or_default xs = (if xs = [] then 1 else let m = Max (set xs) in if m = 0 then 1 else m)"

definition partition_view :: "slice_request \<Rightarrow> substrate \<Rightarrow> view" where
  "partition_view req S =
     (let ss = build_domain_summaries S; vs = vnfs req;
          feas = map (\<lambda>v. map (domain_feasible S v) ss) vs;
          cpu = map cpu_demand vs; ram = map ram_demand vs
      in \<lparr>vw_sums = ss, vw_feas = feas, vw_tiers = map (\<lambda>v. map (usable_tiers S v) ss) vs,
          vw_cpu = cpu, vw_ram = ram, vw_req_tiers = required_tiers req S,
          vw_reject = list_ex (\<lambda>row. \<not> list_ex (\<lambda>b. b) row) feas, vw_index = dom_index ss,
          vw_max_cpu_cap = max_or_default (map ds_cpu_capacity ss),
          vw_max_ram_cap = max_or_default (map ds_ram_capacity ss),
          vw_max_cpu_d = max_or_default cpu, vw_max_ram_d = max_or_default ram\<rparr>)"

definition view_fits :: "guard_mode \<Rightarrow> view \<Rightarrow> nat \<Rightarrow> nat \<Rightarrow> bool" where
  "view_fits mode v k m =
     (let s = vw_sums v ! m; ts = vw_tiers v ! k ! m; cpu = vw_cpu v ! k; ram = vw_ram v ! k in
      case mode of
        GuardOff \<Rightarrow> True
      | GuardObsenc \<Rightarrow>
          list_ex (\<lambda>t. cpu / vw_max_cpu_d v \<le> ds_max_node_cpu s t / vw_max_cpu_cap v
                     \<and> ram / vw_max_ram_d v \<le> ds_max_node_ram s t / vw_max_ram_cap v) ts
      | GuardModal \<Rightarrow> fits_a_node s (filter (\<lambda>t. t = vw_req_tiers v ! k) ts) cpu ram
      | GuardFull \<Rightarrow> fits_a_node s ts cpu ram)"

definition view_admissible :: "guard_mode \<Rightarrow> view \<Rightarrow> nat \<Rightarrow> nat \<Rightarrow> bool" where
  "view_admissible mode v k m \<longleftrightarrow> vw_feas v ! k ! m \<and> view_fits mode v k m"

text \<open>The slack of the whole chain in one domain.\<close>

definition chain_slack :: "view \<Rightarrow> nat \<Rightarrow> real" where
  "chain_slack v m = min (ds_cpu_residual (vw_sums v ! m) - sum_list (vw_cpu v))
                         (ds_ram_residual (vw_sums v ! m) - sum_list (vw_ram v))"

fun best_host :: "guard_mode \<Rightarrow> view \<Rightarrow> nat list \<Rightarrow> nat option \<times> real \<Rightarrow> nat option \<times> real" where
  "best_host mode v [] acc = acc"
| "best_host mode v (m # ms) (best, slack) =
     (if list_all (\<lambda>k. vw_feas v ! k ! m) [0..<vw_K v] \<and> list_all (\<lambda>k. view_fits mode v k m) [0..<vw_K v]
         \<and> chain_slack v m > 0 \<and> (best = None \<or> chain_slack v m > slack)
      then best_host mode v ms (Some m, chain_slack v m)
      else best_host mode v ms (best, slack))"

definition colocation_candidate :: "guard_mode \<Rightarrow> view \<Rightarrow> nat option \<times> real" where
  "colocation_candidate mode v = best_host mode v [0..<vw_M v] (None, 0)"

definition hosts_whole_chain :: "guard_mode \<Rightarrow> view \<Rightarrow> nat \<Rightarrow> bool" where
  "hosts_whole_chain mode v m \<longleftrightarrow>
     list_all (\<lambda>k. view_admissible mode v k m) [0..<vw_K v] \<and> chain_slack v m > 0"

section \<open>The builders\<close>

record assign_state =
  ag_cpu :: "real list"
  ag_ram :: "real list"
  ag_closed :: "nat set"
  ag_cur :: "nat option"
  ag_chosen :: "nat list"

definition assign_start :: "view \<Rightarrow> assign_state" where
  "assign_start v = \<lparr>ag_cpu = map ds_cpu_residual (vw_sums v), ag_ram = map ds_ram_residual (vw_sums v),
     ag_closed = {}, ag_cur = None, ag_chosen = []\<rparr>"

definition assign_candidates :: "switches \<Rightarrow> view \<Rightarrow> nat \<Rightarrow> assign_state \<Rightarrow> (real \<times> nat) list" where
  "assign_candidates sw v k \<sigma> =
     map (\<lambda>m. (min (ag_cpu \<sigma> ! m - vw_cpu v ! k) (ag_ram \<sigma> ! m - vw_ram v ! k), m))
       (filter (\<lambda>m. view_admissible (sx_guard sw) v k m \<and> (sx_contiguous sw \<longrightarrow> m \<notin> ag_closed \<sigma>)) [0..<vw_M v])"

definition assign_to :: "switches \<Rightarrow> view \<Rightarrow> nat \<Rightarrow> nat \<Rightarrow> assign_state \<Rightarrow> assign_state" where
  "assign_to sw v k m \<sigma> =
     (let \<tau> = \<sigma>\<lparr>ag_closed := (case ag_cur \<sigma> of
                   Some c \<Rightarrow> if sx_contiguous sw \<and> m \<noteq> c then insert c (ag_closed \<sigma>) else ag_closed \<sigma>
                 | None \<Rightarrow> ag_closed \<sigma>),
                ag_cur := Some m, ag_chosen := ag_chosen \<sigma> @ [m]\<rparr>
      in if sx_seq sw then \<tau>\<lparr>ag_cpu := (ag_cpu \<tau>)[m := ag_cpu \<tau> ! m - vw_cpu v ! k],
                             ag_ram := (ag_ram \<tau>)[m := ag_ram \<tau> ! m - vw_ram v ! k]\<rparr>
         else \<tau>)"

text \<open>The loop over the VNFs. \<open>strict\<close>: a best slack that is not positive gives up.\<close>

fun assign_all :: "bool \<Rightarrow> switches \<Rightarrow> view \<Rightarrow> nat list \<Rightarrow> assign_state \<Rightarrow> nat list option" where
  "assign_all strict sw v [] \<sigma> = Some (ag_chosen \<sigma>)"
| "assign_all strict sw v (k # ks) \<sigma> =
     (case best_candidate (assign_candidates sw v k \<sigma>) of
        None \<Rightarrow> None
      | Some (slack, m) \<Rightarrow>
          if strict \<and> slack \<le> 0 then None
          else assign_all strict sw v ks (assign_to sw v k m \<sigma>))"

definition summary_of :: "slice_request \<Rightarrow> substrate \<Rightarrow> view \<Rightarrow> nat list \<Rightarrow> plan_summary" where
  "summary_of req S v chosen =
     \<lparr>ps_vnf_ids = map vnf_id (vnfs req), ps_tiers = required_tiers req S,
      ps_suggested = map (\<lambda>m. ds_domain (vw_sums v ! m)) chosen, ps_cpu = vw_cpu v, ps_ram = vw_ram v,
      ps_vcrs = map vcr (vnfs req), ps_bw = map bandwidth_demand (flow_edges req)\<rparr>"

definition partial_obs_builder :: "switches \<Rightarrow> slice_request \<Rightarrow> substrate \<Rightarrow> plan_summary option" where
  "partial_obs_builder sw req S =
     (let v = partition_view req S in
      if vw_reject v then None
      else map_option (summary_of req S v) (assign_all True sw v [0..<vw_K v] (assign_start v)))"

definition fullobs_greedy :: "switches \<Rightarrow> slice_request \<Rightarrow> substrate \<Rightarrow> view \<Rightarrow> plan_summary option" where
  "fullobs_greedy sw req S v =
     map_option (summary_of req S v) (assign_all False sw v [0..<vw_K v] (assign_start v))"

section \<open>Repair of an authored plan\<close>

record plan_repair_stats =
  pr_seen :: nat
  pr_collapsed :: nat
  pr_moved :: nat
  pr_unrepairable :: nat

definition reset_plan_repair_stats :: plan_repair_stats where
  "reset_plan_repair_stats = \<lparr>pr_seen = 0, pr_collapsed = 0, pr_moved = 0, pr_unrepairable = 0\<rparr>"

record guard_state =
  gd_cpu :: "real list"
  gd_ram :: "real list"
  gd_chosen :: "nat list"
  gd_moved :: bool
  gd_stats :: plan_repair_stats

definition guard_step :: "switches \<Rightarrow> view \<Rightarrow> nat \<times> nat \<Rightarrow> guard_state \<Rightarrow> guard_state" where
  "guard_step sw v = (\<lambda>(k, m0) \<sigma>.
     let cands = map (\<lambda>j. (min (gd_cpu \<sigma> ! j - vw_cpu v ! k) (gd_ram \<sigma> ! j - vw_ram v ! k), j))
                   (filter (view_admissible (sx_guard sw) v k) [0..<vw_M v]);
         unrepaired = \<sigma>\<lparr>gd_stats := (gd_stats \<sigma>)\<lparr>pr_unrepairable := pr_unrepairable (gd_stats \<sigma>) + 1\<rparr>\<rparr>;
         (m, \<tau>) = (if view_admissible (sx_guard sw) v k m0 then (m0, \<sigma>)
                   else case best_candidate cands of
                       None \<Rightarrow> (m0, unrepaired)
                     | Some (slack, j) \<Rightarrow>
                         if slack > 0
                         then (j, \<sigma>\<lparr>gd_moved := True, gd_stats := (gd_stats \<sigma>)\<lparr>pr_moved := pr_moved (gd_stats \<sigma>) + 1\<rparr>\<rparr>)
                         else (m0, unrepaired));
         \<tau>' = \<tau>\<lparr>gd_chosen := gd_chosen \<tau> @ [m]\<rparr>
     in if sx_seq sw then \<tau>'\<lparr>gd_cpu := (gd_cpu \<tau>')[m := gd_cpu \<tau>' ! m - vw_cpu v ! k],
                             gd_ram := (gd_ram \<tau>')[m := gd_ram \<tau>' ! m - vw_ram v ! k]\<rparr>
        else \<tau>')"

text \<open>Step 2 of \<open>repair_plan\<close>, on the canonical indices of the plan.\<close>

definition guard_plan :: "switches \<Rightarrow> view \<Rightarrow> nat list \<Rightarrow> plan_summary \<Rightarrow> plan_repair_stats
    \<Rightarrow> plan_summary \<times> plan_repair_stats" where
  "guard_plan sw v proposed p st =
     (let \<sigma> = fold (guard_step sw v) (zip [0..<vw_K v] proposed)
                \<lparr>gd_cpu = map ds_cpu_residual (vw_sums v), gd_ram = map ds_ram_residual (vw_sums v),
                 gd_chosen = [], gd_moved = False, gd_stats = st\<rparr>
      in (if gd_moved \<sigma> then p\<lparr>ps_suggested := map (\<lambda>m. ds_domain (vw_sums v ! m)) (gd_chosen \<sigma>)\<rparr> else p,
          gd_stats \<sigma>))"

text \<open>The indices of the suggested domains; \<open>None\<close> beyond the list or for an unknown domain.\<close>

definition proposed_indices :: "view \<Rightarrow> plan_summary \<Rightarrow> nat option list" where
  "proposed_indices v p =
     map (\<lambda>k. if k < length (ps_suggested p) then vw_index v (ps_suggested p ! k) else None) [0..<vw_K v]"

definition collapse_to :: "view \<Rightarrow> nat \<Rightarrow> plan_summary \<Rightarrow> plan_repair_stats \<Rightarrow> plan_summary \<times> plan_repair_stats" where
  "collapse_to v m p st =
     (p\<lparr>ps_suggested := replicate (vw_K v) (ds_domain (vw_sums v ! m))\<rparr>, st\<lparr>pr_collapsed := pr_collapsed st + 1\<rparr>)"

definition repair_plan :: "switches \<Rightarrow> string \<Rightarrow> plan_summary option \<Rightarrow> slice_request \<Rightarrow> substrate
    \<Rightarrow> plan_repair_stats \<Rightarrow> py_error + plan_summary option \<times> plan_repair_stats" where
  "repair_plan sw mode plan req S st =
     (case plan of
        None \<Rightarrow> Inr (None, st)
      | Some p \<Rightarrow>
      if mode = ''off'' then Inr (Some p, st)
      else if mode \<notin> {''guard'', ''full'', ''colo''} then Inl ValueError
      else let v = partition_view req S in
        if vw_reject v \<or> vw_sums v = [] then Inr (Some p, st)
        else
          let st1 = st\<lparr>pr_seen := pr_seen st + 1\<rparr>; ms = proposed_indices v p in
          if None \<in> set ms then Inr (Some p, st1)
          else
            let proposed = map the ms; (best, _) = colocation_candidate (sx_guard sw) v in
            Inr (map_prod Some id
              (if mode = ''colo'' \<and> card (set proposed) = 1 \<and> hosts_whole_chain (sx_guard sw) v (hd proposed)
               then (p, st1)
               else case best of
                   Some m \<Rightarrow>
                     if mode = ''colo'' \<or> (mode = ''full'' \<and> card (set proposed) > 1) then collapse_to v m p st1
                     else guard_plan sw v proposed p st1
                 | None \<Rightarrow> guard_plan sw v proposed p st1)))"

definition plan_repaired :: "switches \<Rightarrow> string \<Rightarrow> (slice_request \<Rightarrow> substrate \<Rightarrow> plan_summary option)
    \<Rightarrow> slice_request \<Rightarrow> substrate \<Rightarrow> plan_repair_stats \<Rightarrow> py_error + plan_summary option \<times> plan_repair_stats" where
  "plan_repaired sw mode builder req S st = repair_plan sw mode (builder req S) req S st"

section \<open>Properties\<close>


lemma distinct_summaries: "distinct (map ds_domain (build_domain_summaries S))"
proof -
  have "inj_on ds_domain (set (map (domain_summary_of S) xs))" for xs
    by (auto simp: inj_on_def domain_summary_of_def Let_def)
  moreover have "distinct (map (domain_summary_of S) (filter P (map int [0..<n])))" for P n
    by (auto simp: distinct_map inj_on_def domain_summary_of_def Let_def)
  ultimately show ?thesis
    unfolding build_domain_summaries_def distinct_map set_sort distinct_sort by blast
qed

lemma dom_index_nth:
  assumes "distinct (map ds_domain ss)" and "m < length ss"
  shows "dom_index ss (ds_domain (ss ! m)) = Some m"
proof -
  have "(ds_domain (ss ! m), m) \<in> set (rev (zip (map ds_domain ss) [0..<length ss]))"
    using assms(2) by (auto simp: set_zip intro!: exI[of _ m])
  then show ?thesis
    using assms(1) unfolding dom_index_def by (intro map_of_is_SomeI) (simp_all add: rev_map[symmetric] zip_rev[symmetric])
qed

definition load_on :: "real list \<Rightarrow> nat list \<Rightarrow> nat \<Rightarrow> real" where
  "load_on xs ix m = sum_list (map fst (filter (\<lambda>p. snd p = m) (zip xs ix)))"

lemma load_on_snoc:
  assumes "length ix < length xs"
  shows "load_on xs (ix @ [m]) j = load_on xs ix j + (if j = m then xs ! length ix else 0)"
  using assms
proof (induction xs arbitrary: ix)
  case (Cons x xs)
  then show ?case by (cases ix) (auto simp: load_on_def)
qed simp

lemma load_on_Nil [simp]: "load_on xs [] m = 0"
  by (simp add: load_on_def)

lemma fold_load_get:
  "get_default (fold (\<lambda>(v, m). add_at m (f v)) ps d) j 0
   = get_default d j 0 + sum_list (map (\<lambda>p. f (fst p)) (filter (\<lambda>p. snd p = j) ps))"
  by (induction ps arbitrary: d) (auto simp: split_beta ac_simps)

lemma domain_load_get: "get_default (domain_load f vs ix) m 0 = load_on (map f vs) ix m"
  unfolding domain_load_def fold_load_get load_on_def
  by (simp add: zip_map1 filter_map o_def split_beta) (simp add: get_default_def)

lemma domain_load_keys: "distinct (keys (domain_load f vs ix)) \<and> set (keys (domain_load f vs ix)) = set (map snd (zip vs ix))"
proof -
  have "distinct (keys d) \<Longrightarrow> distinct (keys (fold (\<lambda>(v, m). add_at m (f v)) ps d))
     \<and> set (keys (fold (\<lambda>(v, m). add_at m (f v)) ps d)) = set (keys d) \<union> set (map snd ps)" for ps d
    by (induction ps arbitrary: d) (auto simp: add_at_def distinct_update dom_update split_beta)
  from this[of "[]"] show ?thesis by (simp add: domain_load_def)
qed

lemma domain_load_in:
  assumes "(m, c) \<in> set (domain_load f vs ix)"
  shows "c = load_on (map f vs) ix m \<and> m \<in> set ix"
proof -
  have "map_of (domain_load f vs ix) m = Some c"
    using assms domain_load_keys by (intro map_of_is_SomeI) (auto simp del: set_map)
  then have "get_default (domain_load f vs ix) m 0 = c" by (rule get_default_in)
  moreover have "m \<in> set (map snd (zip vs ix))" using assms domain_load_keys[of f vs ix] by force
  ultimately show ?thesis unfolding domain_load_get using set_zip_rightD[of _ m vs ix] by auto
qed

text \<open>A plan is a partition into known domains that keeps every domain within its residual.\<close>

lemma committable_iff:
  "committable g ss vs ix \<longleftrightarrow>
     is_contiguous ix \<and> list_all2 (\<lambda>v m. admissible g v (ss ! m)) vs ix
     \<and> (\<forall>m \<in> set ix. load_on (map cpu_demand vs) ix m \<le> ds_cpu_residual (ss ! m)
                    \<and> load_on (map ram_demand vs) ix m \<le> ds_ram_residual (ss ! m))"
proof -
  have "list_all (\<lambda>(m, c). c \<le> r m) (domain_load f vs ix)
      \<longleftrightarrow> (\<forall>m \<in> set ix. load_on (map f vs) ix m \<le> r m)" if "length vs = length ix" for f r
  proof -
    have "\<exists>c. (m, c) \<in> set (domain_load f vs ix)" if "m \<in> set ix" for m
      using that domain_load_keys[of f vs ix] \<open>length vs = length ix\<close> by force
    then show ?thesis by (force simp: list_all_iff dest: domain_load_in)
  qed
  then show ?thesis
    unfolding committable_def contiguous_idx_run_count by (auto dest: list_all2_lengthD)
qed

lemma contiguous_snoc:
  assumes "is_contiguous xs" and "xs = [] \<or> m = last xs \<or> m \<notin> set xs"
  shows "is_contiguous (xs @ [m])"
proof (cases xs rule: rev_cases)
  case (snoc ys y)
  with assms show ?thesis
    by (auto simp: is_contiguous_distinct remdups_adj_append_two dest: subsetD[OF remdups_adj_set[THEN equalityD1]])
qed simp

lemma best_candidate_in: "best_candidate cs = Some c \<Longrightarrow> c \<in> set cs"
  unfolding best_candidate_def
  by (metis (no_types, lifting) list.case_eq_if list.set_sel(1) option.distinct(1) option.inject set_rev set_sort)

text \<open>What the loop keeps.\<close>

definition assigned :: "switches \<Rightarrow> view \<Rightarrow> assign_state \<Rightarrow> bool" where
  "assigned sw v \<sigma> \<longleftrightarrow>
     (let ch = ag_chosen \<sigma> in
        length ch \<le> vw_K v \<and> ag_cur \<sigma> = (if ch = [] then None else Some (last ch))
      \<and> ag_closed \<sigma> = set ch - set_option (ag_cur \<sigma>) \<and> is_contiguous ch \<and> (\<forall>m \<in> set ch. m < vw_M v)
      \<and> length (ag_cpu \<sigma>) = vw_M v \<and> length (ag_ram \<sigma>) = vw_M v
      \<and> (\<forall>m < vw_M v. ag_cpu \<sigma> ! m = ds_cpu_residual (vw_sums v ! m) - load_on (vw_cpu v) ch m
                    \<and> ag_ram \<sigma> ! m = ds_ram_residual (vw_sums v ! m) - load_on (vw_ram v) ch m)
      \<and> (\<forall>m \<in> set ch. ag_cpu \<sigma> ! m > 0 \<and> ag_ram \<sigma> ! m > 0)
      \<and> (\<forall>k < length ch. view_admissible (sx_guard sw) v k (ch ! k)))"

lemma assignedD:
  assumes "assigned sw v \<sigma>"
  shows "length (ag_chosen \<sigma>) \<le> vw_K v" and "ag_cur \<sigma> = (if ag_chosen \<sigma> = [] then None else Some (last (ag_chosen \<sigma>)))"
    and "ag_closed \<sigma> = set (ag_chosen \<sigma>) - set_option (ag_cur \<sigma>)" and "is_contiguous (ag_chosen \<sigma>)"
    and "\<forall>m \<in> set (ag_chosen \<sigma>). m < vw_M v" and "length (ag_cpu \<sigma>) = vw_M v" and "length (ag_ram \<sigma>) = vw_M v"
    and "\<And>m. m < vw_M v \<Longrightarrow> ag_cpu \<sigma> ! m = ds_cpu_residual (vw_sums v ! m) - load_on (vw_cpu v) (ag_chosen \<sigma>) m"
    and "\<And>m. m < vw_M v \<Longrightarrow> ag_ram \<sigma> ! m = ds_ram_residual (vw_sums v ! m) - load_on (vw_ram v) (ag_chosen \<sigma>) m"
    and "\<And>m. m \<in> set (ag_chosen \<sigma>) \<Longrightarrow> ag_cpu \<sigma> ! m > 0" and "\<And>m. m \<in> set (ag_chosen \<sigma>) \<Longrightarrow> ag_ram \<sigma> ! m > 0"
    and "\<And>k. k < length (ag_chosen \<sigma>) \<Longrightarrow> view_admissible (sx_guard sw) v k (ag_chosen \<sigma> ! k)"
  using assms unfolding assigned_def Let_def by blast+

lemma assigned_step:
  assumes I: "assigned sw v \<sigma>" and sw: "sx_contiguous sw" "sx_seq sw"
    and k: "k = length (ag_chosen \<sigma>)" "k < vw_K v" and ram: "length (vw_ram v) = vw_K v"
    and c: "(slack, m) \<in> set (assign_candidates sw v k \<sigma>)" and pos: "slack > 0"
  shows "assigned sw v (assign_to sw v k m \<sigma>)"
proof -
  note D = assignedD[OF I]
  let ?ch = "ag_chosen \<sigma>" and ?\<tau> = "assign_to sw v k m \<sigma>"
  from c sw have m: "m < vw_M v" "view_admissible (sx_guard sw) v k m" "m \<notin> ag_closed \<sigma>"
    and s: "slack = min (ag_cpu \<sigma> ! m - vw_cpu v ! k) (ag_ram \<sigma> ! m - vw_ram v ! k)"
    by (auto simp: assign_candidates_def)
  have t: "ag_chosen ?\<tau> = ?ch @ [m]" "ag_cur ?\<tau> = Some m"
    "ag_cpu ?\<tau> = (ag_cpu \<sigma>)[m := ag_cpu \<sigma> ! m - vw_cpu v ! k]" "ag_ram ?\<tau> = (ag_ram \<sigma>)[m := ag_ram \<sigma> ! m - vw_ram v ! k]"
    "ag_closed ?\<tau> = (case ag_cur \<sigma> of Some c \<Rightarrow> if m \<noteq> c then insert c (ag_closed \<sigma>) else ag_closed \<sigma>
                     | None \<Rightarrow> ag_closed \<sigma>)"
    using sw by (simp_all add: assign_to_def Let_def split: option.split)
  have fresh: "?ch = [] \<or> m = last ?ch \<or> m \<notin> set ?ch" using m(3) unfolding D(3) D(2) by (auto split: if_splits)
  have load: "load_on (vw_cpu v) (?ch @ [m]) j = load_on (vw_cpu v) ?ch j + (if j = m then vw_cpu v ! k else 0)"
    "load_on (vw_ram v) (?ch @ [m]) j = load_on (vw_ram v) ?ch j + (if j = m then vw_ram v ! k else 0)" for j
    using k ram by (simp_all add: load_on_snoc)
  show ?thesis unfolding assigned_def Let_def t
  proof (intro conjI)
    show "length (?ch @ [m]) \<le> vw_K v" using k by simp
    show "Some m = (if ?ch @ [m] = [] then None else Some (last (?ch @ [m])))" by simp
    show "(case ag_cur \<sigma> of None \<Rightarrow> ag_closed \<sigma> | Some c \<Rightarrow> if m \<noteq> c then insert c (ag_closed \<sigma>) else ag_closed \<sigma>)
        = set (?ch @ [m]) - set_option (Some m)"
      using fresh unfolding D(3) D(2) by (auto dest: last_in_set)
    show "is_contiguous (?ch @ [m])" by (rule contiguous_snoc[OF D(4) fresh])
    show "\<forall>j \<in> set (?ch @ [m]). j < vw_M v" using D(5) m(1) by simp
    show "\<forall>j < vw_M v. (ag_cpu \<sigma>)[m := ag_cpu \<sigma> ! m - vw_cpu v ! k] ! j
          = ds_cpu_residual (vw_sums v ! j) - load_on (vw_cpu v) (?ch @ [m]) j
        \<and> (ag_ram \<sigma>)[m := ag_ram \<sigma> ! m - vw_ram v ! k] ! j
          = ds_ram_residual (vw_sums v ! j) - load_on (vw_ram v) (?ch @ [m]) j"
      unfolding load by (auto simp: D nth_list_update)
    show "\<forall>j \<in> set (?ch @ [m]). (ag_cpu \<sigma>)[m := ag_cpu \<sigma> ! m - vw_cpu v ! k] ! j > 0
        \<and> (ag_ram \<sigma>)[m := ag_ram \<sigma> ! m - vw_ram v ! k] ! j > 0"
      using pos D(10,11) D(6,7) m(1) unfolding s by (auto simp: nth_list_update)
    show "\<forall>j < length (?ch @ [m]). view_admissible (sx_guard sw) v j ((?ch @ [m]) ! j)"
      using D(12) m(2) k(1) by (auto simp: nth_append less_Suc_eq)
  qed (use D(6,7) in simp_all)
qed

lemma assign_all_assigned:
  assumes "assigned sw v \<sigma>" and sw: "sx_contiguous sw" "sx_seq sw" and "length (vw_ram v) = vw_K v"
    and "ks = [length (ag_chosen \<sigma>)..<vw_K v]" and "assign_all True sw v ks \<sigma> = Some ch"
  shows "\<exists>\<tau>. ag_chosen \<tau> = ch \<and> length ch = vw_K v \<and> assigned sw v \<tau>"
  using assms
proof (induction ks arbitrary: \<sigma>)
  case Nil
  then show ?case using assignedD(1)[OF Nil(1)] Nil(5)[symmetric] by (intro exI[of _ \<sigma>]) auto
next
  case (Cons k ks)
  then have k: "k = length (ag_chosen \<sigma>)" "k < vw_K v" "ks = [Suc k..<vw_K v]"
    using Cons.prems(5) upt_eq_Cons_conv[of "length (ag_chosen \<sigma>)" "vw_K v" k ks] by auto
  from Cons.prems(6) obtain slack m where b: "best_candidate (assign_candidates sw v k \<sigma>) = Some (slack, m)"
    and pos: "slack > 0" and r: "assign_all True sw v ks (assign_to sw v k m \<sigma>) = Some ch"
    by (auto split: option.splits if_splits)
  note S = assigned_step[OF Cons.prems(1) sw k(1,2) Cons.prems(4) best_candidate_in[OF b] pos]
  show ?case
    by (rule Cons.IH[OF S sw Cons.prems(4) _ r]) (use sw k in \<open>simp add: assign_to_def Let_def\<close>)
qed

lemma full_view_admissible:
  assumes "k < length (vnfs req)" and "m < length (build_domain_summaries S)"
  shows "view_admissible GuardFull (partition_view req S) k m
    \<longleftrightarrow> admissible S (vnfs req ! k) (build_domain_summaries S ! m)"
  using assms by (simp add: view_admissible_def view_fits_def admissible_def partition_view_def Let_def)

lemma assign_start_assigned: "length (vw_ram v) = vw_K v \<Longrightarrow> assigned sw v (assign_start v)"
  by (simp add: assigned_def assign_start_def Let_def)

lemma committable_untouched:
  assumes "committable S ss (vnfs req) ix" and "\<forall>m \<in> set ix. m < length ss" and "distinct (map ds_domain ss)"
  shows "fst (minimal_committable_partition (map (\<lambda>m. ds_domain (ss ! m)) ix) req S ss st) = None"
proof -
  have "map (\<lambda>d. the (dom_index ss d)) (map (\<lambda>m. ds_domain (ss ! m)) ix) = ix"
    using assms(2) dom_index_nth[OF assms(3)] by (simp add: map_idI)
  then show ?thesis using assms(1) by (simp add: minimal_committable_partition_def Let_def)
qed

lemma contiguous_domains:
  assumes "\<forall>m \<in> set ix. m < length ss" and "distinct (map ds_domain ss)"
  shows "is_contiguous (map (\<lambda>m. ds_domain (ss ! m)) ix) \<longleftrightarrow> is_contiguous ix"
  using assms by (intro is_contiguous_map inj_onI) (metis distinct_conv_nth length_map nth_map)

text \<open>
  C12: a partition the partial-observability builder proposes is contiguous along the chain,
  admissible for every VNF and strictly inside the residual of every domain it uses; hence the
  chain-order constraint accepts it and the decision guard returns it unchanged.
\<close>

theorem partial_obs_plan_committable:
  assumes "partial_obs_builder default_switches req S = Some p"
  shows "\<exists>ix. ps_suggested p = map (\<lambda>m. ds_domain (build_domain_summaries S ! m)) ix
     \<and> committable S (build_domain_summaries S) (vnfs req) ix
     \<and> (\<forall>m \<in> set ix. m < length (build_domain_summaries S)
          \<and> load_on (map cpu_demand (vnfs req)) ix m < ds_cpu_residual (build_domain_summaries S ! m)
          \<and> load_on (map ram_demand (vnfs req)) ix m < ds_ram_residual (build_domain_summaries S ! m))
     \<and> violates None (ps_suggested p) = Inr False
     \<and> fst (minimal_committable_partition (ps_suggested p) req S (build_domain_summaries S) st) = None"
proof -
  let ?v = "partition_view req S" and ?ss = "build_domain_summaries S"
  have v: "vw_sums ?v = ?ss" "vw_cpu ?v = map cpu_demand (vnfs req)" "vw_ram ?v = map ram_demand (vnfs req)"
    by (simp_all add: partition_view_def Let_def)
  have sw: "sx_contiguous default_switches" "sx_seq default_switches" "sx_guard default_switches = GuardFull"
    by (simp_all add: default_switches_def)
  from assms obtain ix where a: "assign_all True default_switches ?v [0..<vw_K ?v] (assign_start ?v) = Some ix"
    and p: "p = summary_of req S ?v ix"
    by (auto simp: partial_obs_builder_def Let_def split: if_splits)
  obtain \<tau> where t: "ag_chosen \<tau> = ix" "length ix = vw_K ?v" and I: "assigned default_switches ?v \<tau>"
    using assign_all_assigned[OF assign_start_assigned sw(1,2) _ _ a] v by (auto simp: assign_start_def)
  note D = assignedD[OF I, unfolded t(1) v sw]
  have sug: "ps_suggested p = map (\<lambda>m. ds_domain (?ss ! m)) ix" by (simp add: p summary_of_def v)
  have lt: "\<forall>m \<in> set ix. m < length ?ss
      \<and> load_on (map cpu_demand (vnfs req)) ix m < ds_cpu_residual (?ss ! m)
      \<and> load_on (map ram_demand (vnfs req)) ix m < ds_ram_residual (?ss ! m)"
    using D(5,8-11) by fastforce
  have "list_all2 (\<lambda>x m. admissible S x (?ss ! m)) (vnfs req) ix"
    using D(5,12) t(2) v by (auto simp: list_all2_conv_all_nth full_view_admissible)
  with D(4) lt have c: "committable S ?ss (vnfs req) ix" by (auto simp: committable_iff less_imp_le)
  have "is_contiguous (ps_suggested p)"
    unfolding sug using contiguous_domains[OF D(5) distinct_summaries] D(4) by blast
  then have "violates None (ps_suggested p) = Inr False"
    by (simp add: violates_def enabled_def chain_mode_of_def)
  with sug c lt committable_untouched[OF c D(5) distinct_summaries] show ?thesis by (intro exI[of _ ix]) simp
qed

theorem partial_obs_plan_committable_witness:
  "partial_obs_builder default_switches ex_guard_req2 ex_sub \<noteq> None
   \<and> (\<exists>ix. committable ex_sub (build_domain_summaries ex_sub) (vnfs ex_guard_req2) ix)"
proof -
  have s: "partial_obs_builder default_switches ex_guard_req2 ex_sub \<noteq> None" by code_simp
  then obtain p where "partial_obs_builder default_switches ex_guard_req2 ex_sub = Some p" by blast
  from partial_obs_plan_committable[OF this] s show ?thesis by blast
qed

end
