(* ===== verification/Partition_Oracle.thy ===== *)
theory Partition_Oracle
  imports Partition_View Verifier "HOL-Library.Option_ord"
begin

text \<open>
  The partition-exhaustive reference (\<open>src/src/orion/sim/partition_oracle.py\<close>) and the two builders
  of \<open>src/scripts/partial_obs_prior.py\<close> that search whole partitions, \<open>oracle_builder\<close> and
  \<open>fullobs_builder\<close>.

  Theorems: the oracle returns the best committable partition by (domains used, predicted delay,
  lexicographic order) among those the delay budget admits, gives up only when no partition is
  committable and refuses only an oversized space; its choice is never beaten by the
  full-observability builder; and the delay prediction both share ignores what earlier VNFs of the
  same chain put on a node.
\<close>

section \<open>Enumeration\<close>

definition max_partitions :: nat where
  "max_partitions = 20000"

definition choices :: "guard_mode \<Rightarrow> view \<Rightarrow> nat list list" where
  "choices mode v = map (\<lambda>k. filter (view_admissible mode v k) [0..<vw_M v]) [0..<vw_K v]"

text \<open>The running product \<open>space\<close> passes \<open>limit\<close> at some choice.\<close>

fun space_exceeds :: "nat \<Rightarrow> nat \<Rightarrow> nat list \<Rightarrow> bool" where
  "space_exceeds limit space [] = False"
| "space_exceeds limit space (c # cs) = (limit < space * c \<or> space_exceeds limit (space * c) cs)"

text \<open>The guards both searches start with; \<open>None\<close>: nothing to enumerate.\<close>

definition bounded_choices :: "guard_mode \<Rightarrow> view \<Rightarrow> py_error + nat list list option" where
  "bounded_choices mode v =
     (if vw_K v = 0 \<or> vw_M v = 0 then Inr None
      else if list_ex (\<lambda>c. c = []) (choices mode v) then Inr None
      else if space_exceeds max_partitions 1 (map length (choices mode v)) then Inl RuntimeError
      else Inr (Some (choices mode v)))"

abbreviation cpu_load :: "view \<Rightarrow> nat list \<Rightarrow> (nat, real) dict" where
  "cpu_load v cand \<equiv> domain_load (\<lambda>x. x) (vw_cpu v) cand"

abbreviation ram_load :: "view \<Rightarrow> nat list \<Rightarrow> (nat, real) dict" where
  "ram_load v cand \<equiv> domain_load (\<lambda>x. x) (vw_ram v) cand"

definition fits_aggregates :: "view \<Rightarrow> nat list \<Rightarrow> bool" where
  "fits_aggregates v cand \<longleftrightarrow>
     list_all (\<lambda>m. get_default (cpu_load v cand) m 0 \<le> ds_cpu_residual (vw_sums v ! m)
                 \<and> get_default (ram_load v cand) m 0 \<le> ds_ram_residual (vw_sums v ! m)) (keys (cpu_load v cand))"

text \<open>\<open>-tightest\<close>: \<open>None\<close> stands for minus infinity, on the empty chain.\<close>

definition neg_tightest :: "view \<Rightarrow> nat list \<Rightarrow> real option" where
  "neg_tightest v cand =
     (case map (\<lambda>(m, c). ds_cpu_residual (vw_sums v ! m) - c) (cpu_load v cand) of
        [] \<Rightarrow> None
      | x # xs \<Rightarrow> Some (- fold min xs x))"

definition capacity_key :: "view \<Rightarrow> nat list \<Rightarrow> nat \<times> real option" where
  "capacity_key v cand = (card (set cand), neg_tightest v cand)"

definition ranked :: "view \<Rightarrow> nat list list \<Rightarrow> ((nat \<times> real option) \<times> nat list) list" where
  "ranked v chs = sort (map (\<lambda>c. (capacity_key v c, c))
     (filter (\<lambda>c. contiguous_idx c \<and> fits_aggregates v c) (product_lists chs)))"

definition feasible_partitions :: "guard_mode \<Rightarrow> view \<Rightarrow> py_error + ((nat \<times> real option) \<times> nat list) list" where
  "feasible_partitions mode v =
     (case bounded_choices mode v of
        Inl e \<Rightarrow> Inl e
      | Inr None \<Rightarrow> Inr []
      | Inr (Some chs) \<Rightarrow> Inr (ranked v chs))"

section \<open>Predicted delay\<close>

text \<open>The link with the greatest residual between each pair of domains, the first on a tie.\<close>

definition keep_best_link :: "'a graph_scheme \<Rightarrow> (node_id \<times> node_id) \<times> edge_data
    \<Rightarrow> (int \<times> int, real \<times> real \<times> real) dict \<Rightarrow> (int \<times> int, real \<times> real \<times> real) dict" where
  "keep_best_link g = (\<lambda>((u, w), d) best.
     if domain_of g u = domain_of g w then best
     else
       let key = pair_key (domain_of g u) (domain_of g w);
           entry = (bandwidth_capacity d, bw_residual d, propagation_delay d)
       in case map_of best key of
            None \<Rightarrow> AList.update key entry best
          | Some (_, r, _) \<Rightarrow> if bw_residual d > r then AList.update key entry best else best)"

definition inter_domain_links_best :: "'a graph_scheme \<Rightarrow> (int \<times> int, real \<times> real \<times> real) dict" where
  "inter_domain_links_best g = fold (keep_best_link g) (g_edges g) []"

text \<open>The tightest node that still holds VNF \<open>k\<close>, the first in sorted order on a tie.\<close>

definition pick_node :: "view \<Rightarrow> (node_id, real \<times> real) dict \<Rightarrow> nat \<Rightarrow> node_id list \<Rightarrow> (real \<times> node_id) option" where
  "pick_node v res k ns =
     fold (\<lambda>n pick.
         let (c, r) = get_default res n (0, 0); slack = min (c - vw_cpu v ! k) (r - vw_ram v ! k)
         in if slack \<ge> 0 \<and> (case pick of None \<Rightarrow> True | Some (s, _) \<Rightarrow> slack < s)
            then Some (slack, n) else pick) ns None"

text \<open>The nodes come from the graph, so the lookup of a picked node is there.\<close>

definition node_of :: "'a graph_scheme \<Rightarrow> node_id \<Rightarrow> node_data" where
  "node_of g n = the (map_of (g_nodes g) n)"

fun node_terms :: "view \<Rightarrow> 'a graph_scheme \<Rightarrow> slice_request \<Rightarrow> (nat \<times> nat) list
    \<Rightarrow> (node_id, real \<times> real) dict \<Rightarrow> real \<Rightarrow> xreal" where
  "node_terms v g req [] res acc = Fin acc"
| "node_terms v g req ((k, m) # ps) res acc =
     (case pick_node v res k (py_set (filter (\<lambda>n. n \<in> set (permitted_nodes (vnfs req ! k)))
             (nodes_in_domain g (ds_domain (vw_sums v ! m))))) of
        None \<Rightarrow> PInf
      | Some (_, n) \<Rightarrow>
          let (c, r) = get_default res n (0, 0);
              res' = AList.update n (c - vw_cpu v ! k, r - vw_ram v ! k) res;
              d = node_of g n;
              used = cpu_capacity d - cpu_residual d + vw_cpu v ! k
          in case node_sojourn (processing_delay d) (intensity (vnfs req ! k)) (cpu_capacity d) used of
               PInf \<Rightarrow> PInf
             | Fin x \<Rightarrow> node_terms v g req ps res' (acc + x))"

fun link_terms :: "view \<Rightarrow> nat list \<Rightarrow> (int \<times> int, real \<times> real \<times> real) dict \<Rightarrow> (nat \<times> flow_edge) list
    \<Rightarrow> real \<Rightarrow> xreal" where
  "link_terms v cand links [] acc = Fin acc"
| "link_terms v cand links ((i, fl) # fls) acc =
     (if i + 1 \<ge> length cand then Fin acc
      else
        let da = ds_domain (vw_sums v ! (cand ! i)); db = ds_domain (vw_sums v ! (cand ! (i + 1))) in
        if da = db then link_terms v cand links fls acc
        else case map_of links (pair_key da db) of
            None \<Rightarrow> PInf
          | Some (cap, res, prop) \<Rightarrow>
              if res < bandwidth_demand fl then PInf
              else case link_sojourn prop cap (cap - res + bandwidth_demand fl) of
                  PInf \<Rightarrow> PInf
                | Fin x \<Rightarrow> link_terms v cand links fls (acc + x))"

definition start_residuals :: "view \<Rightarrow> 'a graph_scheme \<Rightarrow> nat list \<Rightarrow> (node_id, real \<times> real) dict" where
  "start_residuals v g cand =
     concat (map (\<lambda>m. map (\<lambda>n. (n, cpu_residual (node_of g n), ram_residual (node_of g n)))
                        (nodes_in_domain g (ds_domain (vw_sums v ! m)))) (py_set cand))"

definition predicted_e2e :: "view \<Rightarrow> nat list \<Rightarrow> 'a graph_scheme \<Rightarrow> slice_request \<Rightarrow> xreal" where
  "predicted_e2e v cand g req =
     (case node_terms v g req (enumerate 0 cand) (start_residuals v g cand) 0 of
        PInf \<Rightarrow> PInf
      | Fin t \<Rightarrow> link_terms v cand (inter_domain_links_best g) (enumerate 0 (flow_edges req)) t)"

section \<open>The oracle\<close>

text \<open>The scoring loop; \<open>best\<close> holds \<open>best_key\<close>, which contains the candidate.\<close>

fun best_scored :: "(nat list \<Rightarrow> xreal) \<Rightarrow> real \<Rightarrow> ((nat \<times> real option) \<times> nat list) list
    \<Rightarrow> (nat \<times> xreal \<times> nat list) option \<Rightarrow> (nat \<times> xreal \<times> nat list) option" where
  "best_scored delay budget [] best = best"
| "best_scored delay budget ((key, cand) # cs) best =
     (let d = delay cand; k = (fst key, d, cand) in
      if d = PInf \<or> Fin budget < d then best_scored delay budget cs best
      else case best of
          None \<Rightarrow> best_scored delay budget cs (Some k)
        | Some b \<Rightarrow> best_scored delay budget cs (Some (if k < b then k else b)))"

definition best_feasible_partition :: "guard_mode \<Rightarrow> view \<Rightarrow> (substrate \<times> slice_request) option
    \<Rightarrow> py_error + nat list option" where
  "best_feasible_partition mode v ctx =
     (case bounded_choices mode v of
        Inl e \<Rightarrow> Inl e
      | Inr None \<Rightarrow> Inr None
      | Inr (Some chs) \<Rightarrow>
     (case feasible_partitions mode v of
        Inl e \<Rightarrow> Inl e
      | Inr [] \<Rightarrow> Inr None
      | Inr ((key, c) # cs) \<Rightarrow>
     (case ctx of
        None \<Rightarrow> Inr (Some c)
      | Some (S, req) \<Rightarrow>
     (case best_scored (\<lambda>c. predicted_e2e v c S req) (max_e2e_delay (qos_of req)) ((key, c) # cs) None of
        None \<Rightarrow> Inr (Some c)
      | Some (_, _, b) \<Rightarrow> Inr (Some b)))))"

definition oracle_builder :: "switches \<Rightarrow> slice_request \<Rightarrow> substrate \<Rightarrow> py_error + plan_summary option" where
  "oracle_builder sw req S =
     (let v = partition_view req S in
      if vw_reject v then Inr None
      else map_sum id (map_option (summary_of req S v))
             (best_feasible_partition (sx_guard sw) v (Some (S, req))))"

section \<open>The full-observability builder\<close>

definition max_fullobs_partitions :: nat where
  "max_fullobs_partitions = 4096"

definition delay_scored_top :: nat where
  "delay_scored_top = 12"

text \<open>The first of the top candidates within the budget, the head of the list when there is none.\<close>

definition fullobs_choice :: "(nat list \<Rightarrow> xreal) \<Rightarrow> real \<Rightarrow> ((nat \<times> real option) \<times> nat list) list \<Rightarrow> nat list" where
  "fullobs_choice delay budget cands =
     (case List.find (\<lambda>(key, c). delay c \<noteq> PInf \<and> delay c \<le> Fin budget) (take delay_scored_top cands) of
        Some (key, c) \<Rightarrow> c
      | None \<Rightarrow> snd (hd cands))"

definition fullobs_builder :: "switches \<Rightarrow> slice_request \<Rightarrow> substrate \<Rightarrow> plan_summary option" where
  "fullobs_builder sw req S =
     (let v = partition_view req S; chs = choices (sx_guard sw) v in
      if vw_reject v \<or> list_ex (\<lambda>c. c = []) chs then None
      else if space_exceeds max_fullobs_partitions 1 (map length chs) then fullobs_greedy sw req S v
      else case ranked v chs of
          [] \<Rightarrow> None
        | cands \<Rightarrow> Some (summary_of req S v
            (fullobs_choice (\<lambda>c. predicted_e2e v c S req) (max_e2e_delay (qos_of req)) cands)))"

section \<open>Properties\<close>

lemma space_exceeds_iff:
  "\<forall>c \<in> set cs. c > 0 \<Longrightarrow> space_exceeds limit s cs \<longleftrightarrow> cs \<noteq> [] \<and> limit < s * prod_list cs"
proof (induction cs arbitrary: s)
  case (Cons c cs)
  have "prod_list cs > 0" using Cons.prems by (auto intro!: Nat.gr0I simp: prod_list_zero_iff)
  then have "s * c \<le> s * c * prod_list cs" by simp
  then have "limit < s * c \<Longrightarrow> limit < s * c * prod_list cs" by linarith
  then show ?case using Cons.IH[of "s * c"] Cons.prems by (cases cs) (auto simp: ac_simps)
qed simp

lemma load_get: "get_default (domain_load (\<lambda>x. x) xs c) m 0 = load_on xs c m"
  by (simp add: domain_load_get)

lemma fits_aggregates_iff:
  assumes "length c = vw_K v"
  shows "fits_aggregates v c \<longleftrightarrow>
    (\<forall>m \<in> set c. load_on (vw_cpu v) c m \<le> ds_cpu_residual (vw_sums v ! m)
                \<and> load_on (vw_ram v) c m \<le> ds_ram_residual (vw_sums v ! m))"
proof -
  have "set (keys (cpu_load v c)) = set c"
    using domain_load_keys[of "\<lambda>x. x" "vw_cpu v" c] assms by simp
  then show ?thesis unfolding fits_aggregates_def list_all_iff load_get by simp
qed

lemma choices_product:
  "c \<in> set (product_lists (choices mode v)) \<longleftrightarrow>
     length c = vw_K v \<and> (\<forall>k < vw_K v. c ! k < vw_M v \<and> view_admissible mode v k (c ! k))"
  unfolding product_lists_set by (auto simp: choices_def list_all2_conv_all_nth)

lemma ranked_iff:
  defines "v \<equiv> \<lambda>req S. partition_view req S"
  shows "(key, c) \<in> set (ranked (v req S) (choices GuardFull (v req S))) \<longleftrightarrow>
     key = capacity_key (v req S) c \<and> committable S (build_domain_summaries S) (vnfs req) c
     \<and> (\<forall>m \<in> set c. m < length (build_domain_summaries S))"
proof -
  let ?v = "v req S" and ?ss = "build_domain_summaries S"
  have f: "vw_sums ?v = ?ss" "vw_cpu ?v = map cpu_demand (vnfs req)" "vw_ram ?v = map ram_demand (vnfs req)"
    by (simp_all add: v_def partition_view_def Let_def)
  have adm: "view_admissible GuardFull ?v k m \<longleftrightarrow> admissible S (vnfs req ! k) (?ss ! m)"
    if "k < length (vnfs req)" "m < length ?ss" for k m
    unfolding v_def by (rule full_view_admissible[OF that])
  have "(key, c) \<in> set (ranked ?v (choices GuardFull ?v)) \<longleftrightarrow>
     key = capacity_key ?v c \<and> c \<in> set (product_lists (choices GuardFull ?v)) \<and> is_contiguous c \<and> fits_aggregates ?v c"
    by (auto simp: ranked_def contiguous_idx_run_count)
  also have "\<dots> \<longleftrightarrow> key = capacity_key ?v c \<and> committable S ?ss (vnfs req) c \<and> (\<forall>m \<in> set c. m < length ?ss)"
    unfolding choices_product committable_iff f list_all2_conv_all_nth
    using fits_aggregates_iff[of c ?v] adm f by (auto simp: all_set_conv_all_nth)
  finally show ?thesis .
qed

lemma best_scored_least:
  assumes "\<forall>(key, c) \<in> set cs. fst key = card (set c)"
  shows "best_scored delay budget cs best =
    least ((case best of None \<Rightarrow> [] | Some b \<Rightarrow> [b])
           @ map (\<lambda>(key, c). (card (set c), delay c, c)) (filter (\<lambda>(key, c). delay c \<le> Fin budget) cs))"
  using assms
proof (induction cs arbitrary: best)
  case Nil
  then show ?case by (auto simp: least_def split: option.splits)
next
  case (Cons kc cs)
  obtain key c where kc: "kc = (key, c)" by (rule prod.exhaust)
  have skip: "(delay c = PInf \<or> Fin budget < delay c) \<longleftrightarrow> \<not> delay c \<le> Fin budget"
    by (cases "delay c") auto
  have key: "fst key = card (set c)" using Cons.prems kc by simp
  have "(if k < b then k else b) = min b k" for k b :: "nat \<times> xreal \<times> nat list"
    by (auto simp: min_def)
  then show ?case
    using Cons.prems least_min[of _ "(card (set c), delay c, c)"]
    by (auto simp: kc key skip Let_def Cons.IH split: option.splits)
qed

text \<open>What the oracle keeps of a list of candidates sorted by the capacity key.\<close>

definition oracle_choice :: "(nat list \<Rightarrow> xreal) \<Rightarrow> real \<Rightarrow> ((nat \<times> real option) \<times> nat list) list \<Rightarrow> nat list" where
  "oracle_choice delay budget cands =
     (case best_scored delay budget cands None of None \<Rightarrow> snd (hd cands) | Some (_, _, b) \<Rightarrow> b)"

lemma oracle_choice_best:
  assumes "cands \<noteq> []" and keys: "\<forall>(key, c) \<in> set cands. fst key = card (set c)"
  shows "oracle_choice delay budget cands \<in> snd ` set cands"
    and "(key, c) \<in> set cands \<Longrightarrow> delay c \<le> Fin budget \<Longrightarrow>
      delay (oracle_choice delay budget cands) \<le> Fin budget
      \<and> (card (set (oracle_choice delay budget cands)), delay (oracle_choice delay budget cands),
          oracle_choice delay budget cands) \<le> (card (set c), delay c, c)"
    and "\<forall>(key, c) \<in> set cands. \<not> delay c \<le> Fin budget \<Longrightarrow> oracle_choice delay budget cands = snd (hd cands)"
proof -
  let ?fs = "map (\<lambda>(key, c). (card (set c), delay c, c)) (filter (\<lambda>(key, c). delay c \<le> Fin budget) cands)"
  have s: "best_scored delay budget cands None = least ?fs"
    by (simp add: best_scored_least[OF keys])
  have hd: "hd cands \<in> set cands" using assms(1) by simp
  show "oracle_choice delay budget cands \<in> snd ` set cands"
  proof (cases "least ?fs")
    case None
    then show ?thesis using hd by (simp add: oracle_choice_def s)
  next
    case (Some b)
    then show ?thesis using least_in[OF Some] by (force simp: oracle_choice_def s)
  qed
  show "delay (oracle_choice delay budget cands) \<le> Fin budget
      \<and> (card (set (oracle_choice delay budget cands)), delay (oracle_choice delay budget cands),
          oracle_choice delay budget cands) \<le> (card (set c), delay c, c)"
    if c: "(key, c) \<in> set cands" "delay c \<le> Fin budget"
  proof -
    have m: "(card (set c), delay c, c) \<in> set ?fs" using c by force
    then have "least ?fs \<noteq> None" by (intro notI) (simp only: least_None list.set empty_iff)
    then obtain b where b: "least ?fs = Some b" by blast
    obtain x where x: "b = (card (set x), delay x, x)" "delay x \<le> Fin budget"
      using least_in[OF b] by auto
    have o: "oracle_choice delay budget cands = x" by (simp add: oracle_choice_def s b x(1))
    show ?thesis unfolding o using least_le[OF b m] x(2) unfolding x(1) by blast
  qed
  show "oracle_choice delay budget cands = snd (hd cands)" if "\<forall>(key, c) \<in> set cands. \<not> delay c \<le> Fin budget"
  proof -
    have "?fs = []" using that by (auto simp: filter_empty_conv)
    then show ?thesis by (simp only: oracle_choice_def s least_Nil option.simps)
  qed
qed

lemma ranked_empty: "list_ex (\<lambda>c. c = []) chs \<Longrightarrow> ranked v chs = []"
  by (auto simp: ranked_def list_ex_iff dest: product_lists_empty)

lemma reject_empty:
  "vw_reject (partition_view req S) \<Longrightarrow> list_ex (\<lambda>c. c = []) (choices mode (partition_view req S))"
proof -
  let ?v = "partition_view req S"
  assume "vw_reject ?v"
  then obtain k where k: "k < length (vnfs req)"
    and n: "\<not> list_ex (\<lambda>b. b) (map (domain_feasible S (vnfs req ! k)) (build_domain_summaries S))"
    by (auto simp: partition_view_def Let_def list_ex_iff in_set_conv_nth)
  have "\<not> view_admissible mode ?v k m" if "m < vw_M ?v" for m
    using n that k by (auto simp: view_admissible_def partition_view_def Let_def list_ex_iff)
  then have "filter (view_admissible mode ?v k) [0..<vw_M ?v] = []" by (simp add: filter_empty_conv)
  moreover have "k < vw_K ?v" using k by (simp add: partition_view_def Let_def)
  ultimately show ?thesis unfolding choices_def list_ex_iff by (intro bexI[of _ "[]"]) (auto intro!: image_eqI[of _ _ k])
qed

lemma no_domain_empty: "vw_K v \<noteq> 0 \<Longrightarrow> vw_M v = 0 \<Longrightarrow> list_ex (\<lambda>c. c = []) (choices mode v)"
  by (auto simp: choices_def list_ex_iff image_iff intro!: bexI[of _ 0])

text \<open>Both builders, in terms of the ranked candidates.\<close>

lemma oracle_builder_ranked:
  fixes req :: slice_request and S :: substrate
  assumes "vnfs req \<noteq> []"
  defines "v \<equiv> partition_view req S"
  defines "chs \<equiv> choices GuardFull v"
  shows "oracle_builder default_switches req S =
    (if \<not> list_ex (\<lambda>c. c = []) chs \<and> max_partitions < prod_list (map length chs) then Inl RuntimeError
     else Inr (if ranked v chs = [] then None
               else Some (summary_of req S v
                 (oracle_choice (\<lambda>c. predicted_e2e v c S req) (max_e2e_delay (qos_of req)) (ranked v chs)))))"
proof -
  have K: "vw_K v \<noteq> 0" using assms(1) by (simp add: v_def partition_view_def Let_def)
  have ne: "chs \<noteq> []" using K by (simp add: chs_def choices_def)
  have sw: "sx_guard default_switches = GuardFull" by (simp add: default_switches_def)
  show ?thesis
  proof (cases "list_ex (\<lambda>c. c = []) chs")
    case True
    then have "bounded_choices GuardFull v = Inr None" by (simp add: bounded_choices_def chs_def)
    then show ?thesis
      using True by (simp add: oracle_builder_def best_feasible_partition_def sw ranked_empty flip: v_def)
  next
    case False
    then have rj: "\<not> vw_reject v" and M: "vw_M v \<noteq> 0"
      using reject_empty[of req S GuardFull] no_domain_empty[OF K, of GuardFull] by (auto simp: v_def chs_def)
    have "\<forall>c \<in> set (map length chs). c > 0" using False by (auto simp: list_ex_iff)
    from space_exceeds_iff[OF this, of max_partitions 1] ne
    have "space_exceeds max_partitions 1 (map length chs) \<longleftrightarrow> max_partitions < prod_list (map length chs)" by simp
    then have b: "bounded_choices GuardFull v =
        (if max_partitions < prod_list (map length chs) then Inl RuntimeError else Inr (Some chs))"
      using K M False by (simp add: bounded_choices_def chs_def)
    show ?thesis
      using False rj by (simp add: oracle_builder_def best_feasible_partition_def feasible_partitions_def b sw
          oracle_choice_def split: list.split option.split prod.split flip: v_def)
  qed
qed

lemma fullobs_builder_ranked:
  fixes req :: slice_request and S :: substrate
  defines "v \<equiv> partition_view req S"
  defines "chs \<equiv> choices GuardFull v"
  assumes "prod_list (map length chs) \<le> max_fullobs_partitions"
  shows "fullobs_builder default_switches req S =
    (if ranked v chs = [] then None
     else Some (summary_of req S v
       (fullobs_choice (\<lambda>c. predicted_e2e v c S req) (max_e2e_delay (qos_of req)) (ranked v chs))))"
proof (cases "list_ex (\<lambda>c. c = []) chs")
  case True
  then show ?thesis
    using reject_empty[of req S GuardFull]
    by (simp add: fullobs_builder_def default_switches_def ranked_empty flip: v_def chs_def)
next
  case False
  then have "\<forall>c \<in> set (map length chs). c > 0" by (auto simp: list_ex_iff)
  from space_exceeds_iff[OF this, of max_fullobs_partitions 1] assms(3)
  have "\<not> space_exceeds max_fullobs_partitions 1 (map length chs)" by simp
  moreover have "\<not> vw_reject v" using False reject_empty[of req S GuardFull] by (auto simp: v_def chs_def)
  ultimately show ?thesis
    using False
    by (simp add: fullobs_builder_def default_switches_def split: list.split flip: v_def chs_def)
qed

text \<open>The keys of the ranked candidates and the head.\<close>

lemma ranked_keys: "\<forall>(key, c) \<in> set (ranked v chs). fst key = card (set c)"
  by (auto simp: ranked_def capacity_key_def)

lemma sorted_hd_le: "sorted xs \<Longrightarrow> x \<in> set xs \<Longrightarrow> hd xs \<le> x"
  by (cases xs) auto

lemma ranked_hd: "(key, c) \<in> set (ranked v chs) \<Longrightarrow> hd (ranked v chs) \<le> (key, c)"
  by (rule sorted_hd_le) (simp_all add: ranked_def)

text \<open>The admissible partitions of an arrival, and the oracle's order on them.\<close>

definition open_partition :: "substrate \<Rightarrow> slice_request \<Rightarrow> nat list \<Rightarrow> bool" where
  "open_partition S req ix \<longleftrightarrow>
     committable S (build_domain_summaries S) (vnfs req) ix
     \<and> (\<forall>m \<in> set ix. m < length (build_domain_summaries S))"

definition predicted :: "substrate \<Rightarrow> slice_request \<Rightarrow> nat list \<Rightarrow> xreal" where
  "predicted S req ix = predicted_e2e (partition_view req S) ix S req"

definition in_budget :: "substrate \<Rightarrow> slice_request \<Rightarrow> nat list \<Rightarrow> bool" where
  "in_budget S req ix \<longleftrightarrow> predicted S req ix \<le> Fin (max_e2e_delay (qos_of req))"

definition oracle_prefers :: "substrate \<Rightarrow> slice_request \<Rightarrow> nat list \<Rightarrow> nat list \<Rightarrow> bool" where
  "oracle_prefers S req ix jx \<longleftrightarrow>
     (if in_budget S req jx
      then in_budget S req ix \<and> (card (set ix), predicted S req ix, ix) \<le> (card (set jx), predicted S req jx, jx)
      else in_budget S req ix
        \<or> (capacity_key (partition_view req S) ix, ix) \<le> (capacity_key (partition_view req S) jx, jx))"

abbreviation plan_domains :: "substrate \<Rightarrow> nat list \<Rightarrow> int list" where
  "plan_domains S ix \<equiv> map (\<lambda>m. ds_domain (build_domain_summaries S ! m)) ix"

lemma ranked_open:
  "(key, c) \<in> set (ranked (partition_view req S) (choices GuardFull (partition_view req S)))
   \<longleftrightarrow> key = capacity_key (partition_view req S) c \<and> open_partition S req c"
  unfolding ranked_iff open_partition_def by blast

lemma oracle_choice_prefers:
  fixes req :: slice_request and S :: substrate
  defines "cands \<equiv> ranked (partition_view req S) (choices GuardFull (partition_view req S))"
  defines "ix \<equiv> oracle_choice (predicted S req) (max_e2e_delay (qos_of req)) cands"
  assumes "cands \<noteq> []"
  shows "open_partition S req ix" and "open_partition S req jx \<Longrightarrow> oracle_prefers S req ix jx"
proof -
  let ?v = "partition_view req S"
  note best = oracle_choice_best[OF assms(3) ranked_keys[of ?v "choices GuardFull ?v", folded cands_def],
      where delay = "predicted S req" and budget = "max_e2e_delay (qos_of req)", folded ix_def in_budget_def]
  note mem = ranked_open[of _ _ req S, folded cands_def]
  from best(1) show "open_partition S req ix" using mem by force
  assume jx: "open_partition S req jx"
  then have m: "(capacity_key ?v jx, jx) \<in> set cands" using mem by blast
  show "oracle_prefers S req ix jx"
  proof (cases "in_budget S req jx \<or> in_budget S req ix")
    case True
    then show ?thesis using best(2)[OF m] unfolding oracle_prefers_def if_bool_eq_conj by blast
  next
    case False
    then have "\<forall>(key, c) \<in> set cands. \<not> in_budget S req c" using best(2) by blast
    then have "ix = snd (hd cands)" by (rule best(3))
    moreover have "fst (hd cands) = capacity_key ?v (snd (hd cands))"
      using hd_in_set[OF assms(3)] mem[of "fst (hd cands)" "snd (hd cands)"] by simp
    ultimately have "hd cands = (capacity_key ?v ix, ix)" by (simp add: prod_eq_iff)
    then show ?thesis
      using ranked_hd[OF m[unfolded cands_def]] False unfolding oracle_prefers_def cands_def by metis
  qed
qed

text \<open>
  C11: the oracle refuses only a space beyond its bound, gives up only when no partition is
  committable, and otherwise proposes a committable partition: the one with the fewest domains,
  then the least predicted delay, among the committable ones predicted within the delay budget, or,
  when none is, the best by the capacity key.
\<close>

theorem oracle_exact:
  assumes "vnfs req \<noteq> []"
  shows "case oracle_builder default_switches req S of
      Inl e \<Rightarrow> e = RuntimeError \<and> max_partitions < prod_list (map length (choices GuardFull (partition_view req S)))
    | Inr None \<Rightarrow> \<nexists>jx. open_partition S req jx
    | Inr (Some p) \<Rightarrow> \<exists>ix. ps_suggested p = plan_domains S ix \<and> open_partition S req ix
        \<and> (\<forall>jx. open_partition S req jx \<longrightarrow> oracle_prefers S req ix jx)"
proof -
  let ?v = "partition_view req S"
  let ?chs = "choices GuardFull ?v"
  let ?ix = "oracle_choice (predicted S req) (max_e2e_delay (qos_of req)) (ranked ?v ?chs)"
  note out = oracle_builder_ranked[OF assms, of S, folded predicted_def]
  consider (big) "\<not> list_ex (\<lambda>c. c = []) ?chs \<and> max_partitions < prod_list (map length ?chs)"
    | (none) "\<not> (\<not> list_ex (\<lambda>c. c = []) ?chs \<and> max_partitions < prod_list (map length ?chs))" "ranked ?v ?chs = []"
    | (some) "\<not> (\<not> list_ex (\<lambda>c. c = []) ?chs \<and> max_partitions < prod_list (map length ?chs))" "ranked ?v ?chs \<noteq> []"
    by blast
  then show ?thesis
  proof cases
    case big
    then show ?thesis unfolding out if_P[OF big] sum.case by blast
  next
    case none
    then have "\<nexists>jx. open_partition S req jx" using ranked_open[of _ _ req S] by (metis empty_iff list.set(1))
    then show ?thesis unfolding out if_not_P[OF none(1)] if_P[OF none(2)] sum.case option.case .
  next
    case some
    have "ps_suggested (summary_of req S ?v ?ix) = plan_domains S ?ix"
      by (simp add: summary_of_def partition_view_def Let_def)
    then show ?thesis
      unfolding out if_not_P[OF some(1)] if_not_P[OF some(2)] sum.case option.case
      using oracle_choice_prefers[OF some(2)] by blast
  qed
qed

text \<open>Evaluation of the builders, stage by stage.\<close>

lemma oracle_builder_eval:
  assumes "vnfs req \<noteq> []" and "prod_list (map length (choices GuardFull (partition_view req S))) \<le> max_partitions"
    and "ranked (partition_view req S) (choices GuardFull (partition_view req S)) = cands" and "cands \<noteq> []"
  shows "oracle_builder default_switches req S
    = Inr (Some (summary_of req S (partition_view req S)
        (oracle_choice (predicted S req) (max_e2e_delay (qos_of req)) cands)))"
  using assms by (simp add: oracle_builder_ranked[folded predicted_def])

theorem oracle_exact_witness:
  "\<exists>p ix. oracle_builder default_switches ex_guard_req2 ex_sub = Inr (Some p)
     \<and> ps_suggested p = plan_domains ex_sub ix \<and> open_partition ex_sub ex_guard_req2 ix"
proof -
  have h: "vnfs ex_guard_req2 \<noteq> []"
    "prod_list (map length (choices GuardFull (partition_view ex_guard_req2 ex_sub))) \<le> max_partitions"
    "ranked (partition_view ex_guard_req2 ex_sub) (choices GuardFull (partition_view ex_guard_req2 ex_sub)) \<noteq> []"
    by code_simp+
  note p = oracle_builder_eval[OF h(1,2) refl h(3)]
  from oracle_exact[OF h(1), of ex_sub, unfolded p sum.case option.case] p show ?thesis by blast
qed

lemma fullobs_choice_in:
  assumes "cands \<noteq> []"
  shows "fullobs_choice delay budget cands \<in> snd ` set cands"
proof (cases "List.find (\<lambda>(key, c). delay c \<noteq> PInf \<and> delay c \<le> Fin budget) (take delay_scored_top cands)")
  case None
  then show ?thesis using assms by (simp add: fullobs_choice_def)
next
  case (Some kc)
  then have "kc \<in> set (take delay_scored_top cands)" unfolding find_Some_iff using nth_mem by blast
  then have "snd kc \<in> snd ` set cands" by (rule imageI[OF in_set_takeD])
  moreover have "fullobs_choice delay budget cands = snd kc"
    by (simp add: fullobs_choice_def Some split: prod.split)
  ultimately show ?thesis by simp
qed

text \<open>
  When the full-observability builder enumerates and proposes a plan, the oracle proposes one
  too, and if the builder's is predicted within the delay budget then so is the oracle's, with no
  more domains and, at equally many, no more predicted delay.
\<close>

theorem oracle_dominates_fullobs:
  assumes "vnfs req \<noteq> []"
    and "prod_list (map length (choices GuardFull (partition_view req S))) \<le> max_fullobs_partitions"
    and "fullobs_builder default_switches req S = Some f"
  shows "\<exists>p ix jx. oracle_builder default_switches req S = Inr (Some p)
    \<and> ps_suggested p = plan_domains S ix \<and> ps_suggested f = plan_domains S jx
    \<and> open_partition S req ix \<and> open_partition S req jx
    \<and> (in_budget S req jx \<longrightarrow> in_budget S req ix
         \<and> (card (set ix), predicted S req ix) \<le> (card (set jx), predicted S req jx))"
proof -
  let ?v = "partition_view req S"
  let ?chs = "choices GuardFull ?v" and ?budget = "max_e2e_delay (qos_of req)"
  let ?ix = "oracle_choice (predicted S req) ?budget (ranked ?v ?chs)"
  let ?jx = "fullobs_choice (predicted S req) ?budget (ranked ?v ?chs)"
  have sug: "ps_suggested (summary_of req S ?v c) = plan_domains S c" for c
    by (simp add: summary_of_def partition_view_def Let_def)
  note fo = fullobs_builder_ranked[OF assms(2), folded predicted_def]
  with assms(3) have ne: "ranked ?v ?chs \<noteq> []" and f: "f = summary_of req S ?v ?jx"
    by (simp_all split: if_splits)
  have small: "\<not> (\<not> list_ex (\<lambda>c. c = []) ?chs \<and> max_partitions < prod_list (map length ?chs))"
    using assms(2) by (auto simp: max_partitions_def max_fullobs_partitions_def)
  have o: "oracle_builder default_switches req S = Inr (Some (summary_of req S ?v ?ix))"
    unfolding oracle_builder_ranked[OF assms(1), folded predicted_def] if_not_P[OF small] if_not_P[OF ne] ..
  have jx: "open_partition S req ?jx" using fullobs_choice_in[OF ne] ranked_open[of _ _ req S] by fastforce
  have "oracle_prefers S req ?ix ?jx" by (rule oracle_choice_prefers(2)[OF ne jx])
  then have "in_budget S req ?jx \<longrightarrow> in_budget S req ?ix
      \<and> (card (set ?ix), predicted S req ?ix) \<le> (card (set ?jx), predicted S req ?jx)"
    unfolding oracle_prefers_def if_bool_eq_conj by auto
  with o sug f jx oracle_choice_prefers(1)[OF ne] show ?thesis by blast
qed

theorem oracle_dominates_fullobs_witness:
  "\<exists>p ix. oracle_builder default_switches ex_guard_req2 ex_sub = Inr (Some p)
     \<and> open_partition ex_sub ex_guard_req2 ix \<and> ps_suggested p = plan_domains ex_sub ix"
proof -
  have h: "vnfs ex_guard_req2 \<noteq> []"
    "prod_list (map length (choices GuardFull (partition_view ex_guard_req2 ex_sub))) \<le> max_fullobs_partitions"
    by code_simp+
  have "ranked (partition_view ex_guard_req2 ex_sub) (choices GuardFull (partition_view ex_guard_req2 ex_sub)) \<noteq> []"
    by code_simp
  then obtain f where "fullobs_builder default_switches ex_guard_req2 ex_sub = Some f"
    by (simp add: fullobs_builder_ranked[OF h(2)])
  from oracle_dominates_fullobs[OF h this] show ?thesis by blast
qed

definition ex_packed_req :: slice_request where
  "ex_packed_req = ex_req\<lparr>
     vnfs := map (\<lambda>v. (ex_vnf_on v [''a''])\<lparr>cpu_demand := 3\<rparr>) [''u'', ''v''],
     qos_of := \<lparr>max_e2e_delay = 9 / 2, min_throughput = 4\<rparr>\<rparr>"

definition ex_packed_plan :: placement_plan where
  "ex_packed_plan = ex_plan\<lparr>vnf_placements := [(''u'', ''a''), (''v'', ''a'')],
     cpu_allocations := [(''u'', 3), (''v'', 3)],
     flow_routes := [((''u'', ''v''), [])], bw_allocations := [((''u'', ''v''), [])]\<rparr>"

text \<open>
  The predicted delay is not the one the verifier measures: it leaves out what the earlier
  VNFs of the chain put on the node. On an idle substrate the oracle proposes to pack two VNFs
  onto their one permitted node, predicted within the budget; once allocated, the measured delay
  exceeds it.
\<close>

theorem predicted_delay_ignores_colocated:
  "map_sum id (map_option ps_suggested) (oracle_builder default_switches ex_packed_req ex_sub)
     = Inr (Some (plan_domains ex_sub [0, 0]))
   \<and> predicted ex_sub ex_packed_req [0, 0] = Fin (22 / 5) \<and> in_budget ex_sub ex_packed_req [0, 0]
   \<and> (\<exists>T. allocate ex_sub ex_packed_plan ex_packed_req = Inr T
        \<and> ground_truth_e2e T ex_packed_plan ex_packed_req = Inr (Fin 5)
        \<and> map_sum id vd_violated (verify_committed_plan T ex_packed_plan ex_packed_req 3) = Inr [''C7''])"
proof -
  have "(case allocate ex_sub ex_packed_plan ex_packed_req of
      Inr T \<Rightarrow> ground_truth_e2e T ex_packed_plan ex_packed_req = Inr (Fin 5)
        \<and> map_sum id vd_violated (verify_committed_plan T ex_packed_plan ex_packed_req 3) = Inr [''C7'']
    | _ \<Rightarrow> False)" by code_simp
  moreover have h: "vnfs ex_packed_req \<noteq> []"
    "prod_list (map length (choices GuardFull (partition_view ex_packed_req ex_sub))) \<le> max_partitions"
    "ranked (partition_view ex_packed_req ex_sub) (choices GuardFull (partition_view ex_packed_req ex_sub))
       = [((1, Some (- 10)), [0, 0])]"
    by code_simp+
  moreover have "oracle_choice (predicted ex_sub ex_packed_req) (max_e2e_delay (qos_of ex_packed_req))
      [((1, Some (- 10)), [0, 0])] = [0, 0]" by code_simp
  then have "map_sum id (map_option ps_suggested) (oracle_builder default_switches ex_packed_req ex_sub)
      = Inr (Some (plan_domains ex_sub [0, 0]))"
    by (simp add: oracle_builder_eval[OF h] summary_of_def partition_view_def Let_def)
  moreover have "predicted ex_sub ex_packed_req [0, 0] = Fin (22 / 5)" "in_budget ex_sub ex_packed_req [0, 0]"
    by code_simp+
  ultimately show ?thesis by (auto split: sum.splits)
qed

end
