(* ===== verification/Slice_Generator.thy ===== *)
theory Slice_Generator
  imports Sampling Colocation Episode_Proofs
begin

text \<open>
  The slice factories: \<open>generate_slice_request\<close> (\<open>src/src/orion/sim/slice_generator.py\<close>) and the
  scenario classes over it (\<open>src/src/orion/sim/scenario_slices.py\<close>). The draws are a
  parameter (see \<open>Sampling\<close>), and so is \<open>pick\<close>, the weighted choice of a slice type.

  Theorem: whatever is drawn, the request is well formed, its flows chain its VNFs in order, every
  demand lies in its template's range and every VNF may use exactly the nodes of its tiers. So the
  factories meet what the episode proofs ask of a factory.
\<close>

section \<open>Templates\<close>

record vnf_template =
  tm_type :: string
  tm_cpu :: "real \<times> real"
  tm_ram :: "real \<times> real"
  tm_intensity :: real
  tm_vcr :: real
  tm_tiers :: "tier list"

definition template :: "string \<Rightarrow> real \<times> real \<Rightarrow> real \<times> real \<Rightarrow> real \<Rightarrow> real \<Rightarrow> tier list \<Rightarrow> vnf_template" where
  "template ty cpu ram inten vc ts =
     \<lparr>tm_type = ty, tm_cpu = cpu, tm_ram = ram, tm_intensity = inten, tm_vcr = vc, tm_tiers = ts\<rparr>"

fun vnf_templates :: "slice_type \<Rightarrow> vnf_template list" where
  "vnf_templates EMBB =
     [template ''Firewall'' (2, 4) (2, 8) (8 / 10) 1 [Edge, RegionalCloud, CentralCloud],
      template ''CDN'' (4, 8) (8, 16) (12 / 10) (7 / 10) [Edge, RegionalCloud],
      template ''vEPC'' (4, 8) (4, 16) 1 1 [CentralCloud]]"
| "vnf_templates URLLC =
     [template ''Firewall'' (1, 2) (1, 4) (5 / 10) 1 [Edge],
      template ''vUPF'' (2, 4) (2, 8) (6 / 10) 1 [Edge]]"
| "vnf_templates MMTC =
     [template ''IoTGateway'' (1, 2) (1, 4) (4 / 10) (3 / 10) [Edge],
      template ''Aggregator'' (2, 4) (2, 8) (6 / 10) (5 / 10) [Edge, RegionalCloud],
      template ''Analytics'' (4, 8) (8, 16) (15 / 10) 1 [CentralCloud]]"
| "vnf_templates V2X =
     [template ''Firewall'' (1, 2) (1, 4) (5 / 10) 1 [Edge],
      template ''V2XController'' (2, 4) (4, 8) (7 / 10) 1 [Edge],
      template ''vEPC'' (2, 4) (2, 8) 1 1 [RegionalCloud]]"
| "vnf_templates XR =
     [template ''Firewall'' (2, 4) (2, 8) (8 / 10) 1 [Edge],
      template ''MediaProc'' (8, 16) (16, 32) 2 (12 / 10) [Edge, RegionalCloud],
      template ''CDN'' (4, 8) (8, 16) (12 / 10) (7 / 10) [RegionalCloud, CentralCloud],
      template ''vEPC'' (2, 4) (2, 8) 1 1 [Edge, RegionalCloud]]"

text \<open>The delay range and the range of the ingress rate.\<close>

fun qos_profiles :: "slice_type \<Rightarrow> (real \<times> real) \<times> (real \<times> real)" where
  "qos_profiles EMBB = ((20, 100), (50, 500))"
| "qos_profiles URLLC = ((1, 10), (10, 50))"
| "qos_profiles MMTC = ((50, 500), (1, 10))"
| "qos_profiles V2X = ((5, 20), (20, 80))"
| "qos_profiles XR = ((5, 30), (100, 500))"

type_synonym type_weights = "(slice_type, real) dict"

definition slice_type_weights :: type_weights where
  "slice_type_weights = [(EMBB, 30 / 100), (URLLC, 25 / 100), (MMTC, 20 / 100), (V2X, 15 / 100), (XR, 10 / 100)]"

definition complex_slice_type_weights :: type_weights where
  "complex_slice_type_weights =
     [(EMBB, 30 / 100), (URLLC, 10 / 100), (MMTC, 10 / 100), (V2X, 15 / 100), (XR, 35 / 100)]"

section \<open>The generator\<close>

definition resolve_permitted_nodes :: "tier list \<Rightarrow> 'a graph_scheme \<Rightarrow> node_id list" where
  "resolve_permitted_nodes ts g = map fst (filter (\<lambda>(n, d). node_tier d \<in> set ts) (g_nodes g))"

definition vnf_name :: "string \<Rightarrow> nat \<Rightarrow> string" where
  "vnf_name rid k = rid @ ''_f'' @ decimal k"

definition generated_vnf :: "(nat \<Rightarrow> real) \<Rightarrow> string \<Rightarrow> 'a graph_scheme \<Rightarrow> nat \<Rightarrow> vnf_template \<Rightarrow> vnf" where
  "generated_vnf draw rid g k tm =
     \<lparr>vnf_id = vnf_name rid k, vnf_type = tm_type tm,
      cpu_demand = py_round (uniform (draw (2 * k)) (tm_cpu tm)) 1,
      ram_demand = py_round (uniform (draw (2 * k + 1)) (tm_ram tm)) 1,
      permitted_nodes = resolve_permitted_nodes (tm_tiers tm) g,
      intensity = tm_intensity tm, vcr = tm_vcr tm\<rparr>"

definition generated_flow :: "real \<Rightarrow> vnf list \<Rightarrow> nat \<Rightarrow> flow_edge" where
  "generated_flow beta vs k =
     \<lparr>source_vnf = vnf_id (vs ! k), target_vnf = vnf_id (vs ! (k + 1)),
      bandwidth_demand = py_round (beta * prod_list (map vcr (take (k + 1) vs))) 1\<rparr>"

text \<open>\<open>ty\<close> and \<open>weights\<close> are the optional arguments, \<open>pick\<close> the weighted choice.\<close>

definition generate_slice_request :: "(nat \<Rightarrow> real) \<Rightarrow> (type_weights \<Rightarrow> slice_type) \<Rightarrow> slice_type option
    \<Rightarrow> type_weights option \<Rightarrow> 'a graph_scheme \<Rightarrow> slice_factory" where
  "generate_slice_request draw pick ty weights g rid t l =
     (let st = (case ty of Some x \<Rightarrow> x
                | None \<Rightarrow> pick (case weights of None \<Rightarrow> slice_type_weights
                                | Some w \<Rightarrow> if w = [] then slice_type_weights else w));
          tms = vnf_templates st;
          vs = map (\<lambda>(k, tm). generated_vnf draw rid g k tm) (enumerate 0 tms);
          K = length vs;
          beta = uniform (draw (2 * K)) (snd (qos_profiles st));
          delay = uniform (draw (2 * K + 1)) (fst (qos_profiles st))
      in \<lparr>request_id = rid, stype = st, vnfs = vs,
          flow_edges = map (generated_flow beta vs) [0..<K - 1],
          qos_of = \<lparr>max_e2e_delay = py_round delay 1, min_throughput = py_round beta 1\<rparr>,
          arrival_time = t, lifetime = l\<rparr>)"

section \<open>Scenario classes\<close>

definition stress_rho :: real where
  "stress_rho = 115 / 100"

definition reramp :: "slice_request \<Rightarrow> real \<Rightarrow> slice_request" where
  "reramp sr rho =
     (let beta = min_throughput (qos_of sr);
          vs = map (\<lambda>v. v\<lparr>vcr := rho\<rparr>) (vnfs sr)
      in sr\<lparr>vnfs := vs,
            flow_edges := map (\<lambda>k. \<lparr>source_vnf = vnf_id (vs ! k), target_vnf = vnf_id (vs ! (k + 1)),
                                    bandwidth_demand = py_round (beta * rho ^ (k + 1)) 1\<rparr>) [0..<length vs - 1]\<rparr>)"

definition scenario_of :: "string \<Rightarrow> real option \<Rightarrow> py_error + real \<times> type_weights option" where
  "scenario_of scenario rho =
     (if scenario = ''conventional'' then Inr (1, None)
      else if scenario = ''stress'' then Inr (case rho of None \<Rightarrow> stress_rho | Some r \<Rightarrow> r, None)
      else if scenario = ''complex'' then Inr (1, Some complex_slice_type_weights)
      else Inl ValueError)"

text \<open>The draws of one call are indexed by the request id: the calls of one episode have distinct ids.\<close>

definition make_scenario_slice_factory :: "(string \<Rightarrow> nat \<Rightarrow> real) \<Rightarrow> (string \<Rightarrow> type_weights \<Rightarrow> slice_type)
    \<Rightarrow> 'a graph_scheme \<Rightarrow> string \<Rightarrow> real option \<Rightarrow> py_error + slice_factory" where
  "make_scenario_slice_factory draw pick g scenario rho =
     map_sum id (\<lambda>(r, weights) rid t l.
         reramp (generate_slice_request (draw rid) (pick rid) None weights g rid t l) r)
       (scenario_of scenario rho)"

section \<open>Properties\<close>

lemma vnf_name_eq [simp]: "vnf_name rid i = vnf_name rid j \<longleftrightarrow> i = j"
  by (simp add: vnf_name_def decimal_inj)

lemma template_ranges:
  assumes "tm \<in> set (vnf_templates st)"
  shows "fst (tm_cpu tm) \<in> \<int> \<and> snd (tm_cpu tm) \<in> \<int> \<and> 0 < fst (tm_cpu tm) \<and> fst (tm_cpu tm) \<le> snd (tm_cpu tm)
    \<and> fst (tm_ram tm) \<in> \<int> \<and> snd (tm_ram tm) \<in> \<int> \<and> 0 < fst (tm_ram tm) \<and> fst (tm_ram tm) \<le> snd (tm_ram tm)
    \<and> 0 < tm_vcr tm"
  using assms by (cases st) (auto simp: template_def)

lemma profile_ranges:
  "fst (fst (qos_profiles st)) \<in> \<int> \<and> snd (fst (qos_profiles st)) \<in> \<int>
   \<and> 0 < fst (fst (qos_profiles st)) \<and> fst (fst (qos_profiles st)) \<le> snd (fst (qos_profiles st))
   \<and> fst (snd (qos_profiles st)) \<in> \<int> \<and> snd (snd (qos_profiles st)) \<in> \<int>
   \<and> 0 < fst (snd (qos_profiles st)) \<and> fst (snd (qos_profiles st)) \<le> snd (snd (qos_profiles st))"
  by (cases st) auto

text \<open>A chain: consecutive VNFs are joined by one flow each.\<close>

definition chain_request :: "slice_request \<Rightarrow> bool" where
  "chain_request req \<longleftrightarrow>
     distinct (map vnf_id (vnfs req))
     \<and> map flow_key_of (flow_edges req) = map (\<lambda>k. (vnf_id (vnfs req ! k), vnf_id (vnfs req ! (k + 1)))) [0..<length (vnfs req) - 1]"

lemma chain_request_wf:
  assumes "chain_request req"
  shows "wf_request req" and "closed_request req"
proof -
  let ?vs = "vnfs req" and ?f = "\<lambda>k. (vnf_id (vnfs req ! k), vnf_id (vnfs req ! (k + 1)))"
  have d: "distinct (map vnf_id ?vs)" and f: "map flow_key_of (flow_edges req) = map ?f [0..<length ?vs - 1]"
    using assms by (simp_all add: chain_request_def)
  have "inj_on ?f {0..<length ?vs - 1}"
    using d by (intro inj_onI) (metis (no_types, lifting) Pair_inject atLeastLessThan_iff diff_le_self
        distinct_conv_nth length_map nth_map order_less_le_trans)
  then show "wf_request req" unfolding wf_request_def f using d by (simp add: distinct_map)
  show "closed_request req" unfolding closed_request_def
  proof
    fix fe assume "fe \<in> set (flow_edges req)"
    then have "flow_key_of fe \<in> set (map ?f [0..<length ?vs - 1])" unfolding f[symmetric] by simp
    then show "source_vnf fe \<in> vnf_id ` set ?vs \<and> target_vnf fe \<in> vnf_id ` set ?vs" by auto
  qed
qed

text \<open>What a template promises of a VNF.\<close>

definition follows_template :: "'a graph_scheme \<Rightarrow> vnf \<Rightarrow> vnf_template \<Rightarrow> bool" where
  "follows_template g v tm \<longleftrightarrow>
     vnf_type v = tm_type tm \<and> intensity v = tm_intensity tm \<and> vcr v = tm_vcr tm
     \<and> fst (tm_cpu tm) \<le> cpu_demand v \<and> cpu_demand v \<le> snd (tm_cpu tm)
     \<and> fst (tm_ram tm) \<le> ram_demand v \<and> ram_demand v \<le> snd (tm_ram tm)
     \<and> set (permitted_nodes v) = {n. \<exists>d. (n, d) \<in> set (g_nodes g) \<and> node_tier d \<in> set (tm_tiers tm)}"

lemma set_resolve_permitted_nodes:
  "set (resolve_permitted_nodes ts g) = {n. \<exists>d. (n, d) \<in> set (g_nodes g) \<and> node_tier d \<in> set ts}"
  by (force simp: resolve_permitted_nodes_def)

lemma generated_vnf_follows:
  assumes "unit_draws draw" and "tm \<in> set (vnf_templates st)"
  shows "follows_template g (generated_vnf draw rid g k tm) tm"
  using assms(1) template_ranges[OF assms(2)]
    drawn_bounds[of "draw (2 * k)" "tm_cpu tm"] drawn_bounds[of "draw (2 * k + 1)" "tm_ram tm"]
  by (simp add: follows_template_def generated_vnf_def unit_draws_def set_resolve_permitted_nodes)

lemma follows_nonneg:
  assumes "list_all2 (follows_template g) vs (vnf_templates st)" and "v \<in> set vs"
  shows "0 < cpu_demand v \<and> 0 < ram_demand v"
proof -
  obtain i where i: "i < length vs" "v = vs ! i" using assms(2) by (auto simp: in_set_conv_nth)
  then have "follows_template g v (vnf_templates st ! i)" "vnf_templates st ! i \<in> set (vnf_templates st)"
    using assms(1) by (auto simp: list_all2_conv_all_nth)
  then show ?thesis using template_ranges by (force simp: follows_template_def)
qed

lemma generated_parts:
  assumes "r = generate_slice_request draw pick ty weights g rid t l"
  shows "request_id r = rid" and "arrival_time r = t" and "lifetime r = l"
    and "vnfs r = map (\<lambda>(k, tm). generated_vnf draw rid g k tm) (enumerate 0 (vnf_templates (stype r)))"
    and "flow_edges r = map (generated_flow (uniform (draw (2 * length (vnfs r))) (snd (qos_profiles (stype r)))) (vnfs r))
       [0..<length (vnfs r) - 1]"
    and "max_e2e_delay (qos_of r) = py_round (uniform (draw (2 * length (vnfs r) + 1)) (fst (qos_profiles (stype r)))) 1"
    and "min_throughput (qos_of r) = py_round (uniform (draw (2 * length (vnfs r))) (snd (qos_profiles (stype r)))) 1"
  by (simp_all add: assms generate_slice_request_def Let_def)

lemma generated_chain: "chain_request (generate_slice_request draw pick ty weights g rid t l)"
proof -
  let ?r = "generate_slice_request draw pick ty weights g rid t l"
  have ids: "map vnf_id (vnfs ?r) = map (vnf_name rid) [0..<length (vnf_templates (stype ?r))]"
    unfolding generated_parts(4)[OF refl]
    by (rule nth_equalityI) (simp_all add: nth_enumerate_eq generated_vnf_def)
  have "distinct (map vnf_id (vnfs ?r))" unfolding ids by (simp add: distinct_map inj_on_def)
  moreover have "map flow_key_of (flow_edges ?r)
      = map (\<lambda>k. (vnf_id (vnfs ?r ! k), vnf_id (vnfs ?r ! (k + 1)))) [0..<length (vnfs ?r) - 1]"
    unfolding generated_parts(5)[OF refl] by (simp add: generated_flow_def comp_def)
  ultimately show ?thesis by (simp add: chain_request_def)
qed

text \<open>The flow demands: the ingress rate times the product of the conversion ratios passed so far.\<close>

lemma compressing_templates:
  "st \<noteq> XR \<Longrightarrow> tm \<in> set (vnf_templates st) \<Longrightarrow> tm_vcr tm \<le> 1"
  by (cases st) (auto simp: template_def)

lemma prod_list_unit: "\<forall>x \<in> set xs. 0 \<le> x \<and> x \<le> (1 :: real) \<Longrightarrow> 0 \<le> prod_list xs \<and> prod_list xs \<le> 1"
  by (induction xs) (auto intro: mult_le_one)

lemma generated_ratios:
  "vs = map (\<lambda>(k, tm). generated_vnf draw rid g k tm) (enumerate 0 tms) \<Longrightarrow> map vcr vs = map tm_vcr tms"
  by (rule nth_equalityI) (simp_all add: nth_enumerate_eq generated_vnf_def)

lemma generated_demands:
  assumes "unit_draws draw" and r: "r = generate_slice_request draw pick ty weights g rid t l"
  obtains beta where "fst (snd (qos_profiles (stype r))) \<le> beta" and "beta \<le> snd (snd (qos_profiles (stype r)))"
    and "min_throughput (qos_of r) = py_round beta 1"
    and "\<forall>k < length (flow_edges r). bandwidth_demand (flow_edges r ! k)
           = py_round (beta * prod_list (map tm_vcr (take (k + 1) (vnf_templates (stype r))))) 1"
    and "length (flow_edges r) = length (vnf_templates (stype r)) - 1"
proof -
  let ?beta = "uniform (draw (2 * length (vnfs r))) (snd (qos_profiles (stype r)))"
  note P = generated_parts[OF r]
  have "0 \<le> draw (2 * length (vnfs r))" "draw (2 * length (vnfs r)) \<le> 1" using assms(1) by (simp_all add: unit_draws_def)
  from uniform_bounds[OF this, of "fst (snd (qos_profiles (stype r)))" "snd (snd (qos_profiles (stype r)))"]
  have "fst (snd (qos_profiles (stype r))) \<le> ?beta" "?beta \<le> snd (snd (qos_profiles (stype r)))"
    using profile_ranges[of "stype r"] by simp_all
  moreover have "map vcr (take k (vnfs r)) = map tm_vcr (take k (vnf_templates (stype r)))" for k
    unfolding take_map[symmetric] using generated_ratios[OF P(4)] by simp
  then have "\<forall>k < length (flow_edges r). bandwidth_demand (flow_edges r ! k)
           = py_round (?beta * prod_list (map tm_vcr (take (k + 1) (vnf_templates (stype r))))) 1"
    unfolding P(5) by (simp add: generated_flow_def)
  moreover have "length (flow_edges r) = length (vnf_templates (stype r)) - 1"
    unfolding P(5) by (simp add: P(4))
  ultimately show thesis using that P(7) by blast
qed

lemma compressed_flows:
  assumes "0 \<le> beta" and "st \<noteq> XR" and "k < length (vnf_templates st)"
  shows "py_round (beta * prod_list (map tm_vcr (take (k + 1) (vnf_templates st)))) 1 \<le> py_round beta 1"
proof -
  have "\<forall>x \<in> set (map tm_vcr (take (k + 1) (vnf_templates st))). 0 \<le> x \<and> x \<le> 1"
    using compressing_templates[OF assms(2)] template_ranges by (fastforce dest: in_set_takeD)
  from prod_list_unit[OF this] have "beta * prod_list (map tm_vcr (take (k + 1) (vnf_templates st))) \<le> beta"
    using assms(1) by (simp add: mult_left_le)
  then show ?thesis by (rule py_round_mono)
qed

lemma expanded_flow:
  assumes "100 \<le> beta"
  shows "py_round beta 1 < py_round (beta * prod_list (map tm_vcr (take 2 (vnf_templates XR)))) 1"
proof -
  have "beta * 10 + 2 \<le> beta * prod_list (map tm_vcr (take 2 (vnf_templates XR))) * 10"
    using assms by (simp add: template_def)
  moreover have "round_half_even (x + 2) = round_half_even x + 2" for x
    by (auto simp: round_half_even_def Let_def)
  ultimately have "round_half_even (beta * 10) + 2 \<le> round_half_even (beta * prod_list (map tm_vcr (take 2 (vnf_templates XR))) * 10)"
    using round_half_even_mono by metis
  then show ?thesis by (simp add: py_round_def)
qed

text \<open>
  C34: whatever is drawn, a generated request is a chain: distinct VNFs, one flow between
  neighbours and no other; VNF by VNF it follows the templates of its type; delay budget and
  throughput floor lie in the profile's ranges and every demand is non-negative. Hence it is well
  formed and its flows are closed. The demand of a flow is the drawn ingress rate times the product of
  the conversion ratios of the VNFs it has passed, so for every type but XR no flow asks for more than the
  throughput floor; an XR chain, whose media processor expands the traffic, asks for more behind it.
\<close>

theorem generated_request_correct:
  assumes "unit_draws draw" and r: "r = generate_slice_request draw pick ty weights g rid t l"
  shows "request_id r = rid \<and> chain_request r \<and> wf_request r \<and> closed_request r \<and> nonneg_request r
    \<and> list_all2 (follows_template g) (vnfs r) (vnf_templates (stype r))
    \<and> fst (fst (qos_profiles (stype r))) \<le> max_e2e_delay (qos_of r)
    \<and> max_e2e_delay (qos_of r) \<le> snd (fst (qos_profiles (stype r)))
    \<and> fst (snd (qos_profiles (stype r))) \<le> min_throughput (qos_of r)
    \<and> min_throughput (qos_of r) \<le> snd (snd (qos_profiles (stype r)))
    \<and> (\<exists>beta. fst (snd (qos_profiles (stype r))) \<le> beta \<and> beta \<le> snd (snd (qos_profiles (stype r)))
         \<and> min_throughput (qos_of r) = py_round beta 1
         \<and> (\<forall>k < length (flow_edges r). bandwidth_demand (flow_edges r ! k)
              = py_round (beta * prod_list (map tm_vcr (take (k + 1) (vnf_templates (stype r))))) 1))
    \<and> (stype r \<noteq> XR \<longrightarrow> (\<forall>fe \<in> set (flow_edges r). bandwidth_demand fe \<le> min_throughput (qos_of r)))
    \<and> (stype r = XR \<longrightarrow> min_throughput (qos_of r) < bandwidth_demand (flow_edges r ! 1))"
proof -
  let ?r = r and ?tms = "vnf_templates (stype r)"
  note P = generated_parts[OF r]
  have ch: "chain_request ?r" unfolding r by (rule generated_chain)
  have fol: "list_all2 (follows_template g) (vnfs ?r) ?tms"
    unfolding P(4) list_all2_conv_all_nth
    by (simp add: nth_enumerate_eq generated_vnf_follows[OF assms(1) nth_mem])
  have pos: "v \<in> set (vnfs ?r) \<Longrightarrow> 0 < cpu_demand v \<and> 0 < ram_demand v" for v by (rule follows_nonneg[OF fol])
  have "0 \<le> vcr v" if "v \<in> set (vnfs ?r)" for v
  proof -
    from that obtain k where "k < length ?tms" "vcr v = tm_vcr (?tms ! k)"
      unfolding P(4) by (auto simp: generated_vnf_def in_set_enumerate_eq)
    then show ?thesis using template_ranges[OF nth_mem, of k "stype r"] by simp
  qed
  moreover note R = profile_ranges[of "stype ?r"]
  have u: "0 \<le> draw i" "draw i \<le> 1" for i using assms(1) by (simp_all add: unit_draws_def)
  have "0 \<le> uniform (draw i) (snd (qos_profiles (stype ?r)))" for i
    using uniform_bounds[OF u, of "fst (snd (qos_profiles (stype ?r)))" "snd (snd (qos_profiles (stype ?r)))" i] R
    by (metis less_eq_real_def order_trans prod.collapse)
  ultimately have "fe \<in> set (flow_edges ?r) \<Longrightarrow> 0 \<le> bandwidth_demand fe" for fe
    unfolding P(5) by (auto simp: generated_flow_def intro!: py_round_nonneg mult_nonneg_nonneg prod_list_nonneg dest!: in_set_takeD)
  then have "nonneg_request ?r" using pos by (auto simp: nonneg_request_def less_imp_le)
  moreover have "fst (fst (qos_profiles (stype ?r))) \<le> max_e2e_delay (qos_of ?r)
      \<and> max_e2e_delay (qos_of ?r) \<le> snd (fst (qos_profiles (stype ?r)))"
    unfolding P(6) using R by (intro drawn_bounds u) blast+
  moreover have "fst (snd (qos_profiles (stype ?r))) \<le> min_throughput (qos_of ?r)
      \<and> min_throughput (qos_of ?r) \<le> snd (snd (qos_profiles (stype ?r)))"
    unfolding P(7) using R by (intro drawn_bounds u) blast+
  moreover have "(\<exists>beta. fst (snd (qos_profiles (stype r))) \<le> beta \<and> beta \<le> snd (snd (qos_profiles (stype r)))
         \<and> min_throughput (qos_of r) = py_round beta 1
         \<and> (\<forall>k < length (flow_edges r). bandwidth_demand (flow_edges r ! k)
              = py_round (beta * prod_list (map tm_vcr (take (k + 1) (vnf_templates (stype r))))) 1))
    \<and> (stype r \<noteq> XR \<longrightarrow> (\<forall>fe \<in> set (flow_edges r). bandwidth_demand fe \<le> min_throughput (qos_of r)))
    \<and> (stype r = XR \<longrightarrow> min_throughput (qos_of r) < bandwidth_demand (flow_edges r ! 1))"
  proof (rule generated_demands[OF assms])
    fix beta
    assume b: "fst (snd (qos_profiles (stype r))) \<le> beta" "beta \<le> snd (snd (qos_profiles (stype r)))"
      and mt: "min_throughput (qos_of r) = py_round beta 1"
      and bw: "\<forall>k < length (flow_edges r). bandwidth_demand (flow_edges r ! k)
           = py_round (beta * prod_list (map tm_vcr (take (k + 1) (vnf_templates (stype r))))) 1"
      and len: "length (flow_edges r) = length (vnf_templates (stype r)) - 1"
    have "0 \<le> beta" using b(1) R by linarith
    have "bandwidth_demand fe \<le> min_throughput (qos_of r)" if "stype r \<noteq> XR" and fe: "fe \<in> set (flow_edges r)" for fe
    proof -
      from fe obtain k where "k < length (flow_edges r)" "fe = flow_edges r ! k" by (auto simp: in_set_conv_nth)
      then show ?thesis using compressed_flows[OF \<open>0 \<le> beta\<close> that(1), of k] bw mt len by simp
    qed
    moreover have "min_throughput (qos_of r) < bandwidth_demand (flow_edges r ! 1)" if "stype r = XR"
    proof -
      have "1 < length (flow_edges r)" "100 \<le> beta" using b(1) len by (simp_all add: that)
      then show ?thesis using expanded_flow[of beta] bw mt by (simp add: that numeral_2_eq_2)
    qed
    ultimately show ?thesis using b mt bw by blast
  qed
  ultimately show ?thesis using P(1) ch chain_request_wf[OF ch] fol by blast
qed

theorem generated_request_correct_witness:
  "map cpu_demand (vnfs (generate_slice_request (\<lambda>i. 1 / 4) (\<lambda>w. URLLC) None None ex_sub ''q'' 0 1)) = [6 / 5, 5 / 2]
   \<and> wf_request (generate_slice_request (\<lambda>i. 1 / 4) (\<lambda>w. URLLC) None None ex_sub ''q'' 0 1)"
proof -
  have "unit_draws (\<lambda>i. 1 / 4)" by (simp add: unit_draws_def)
  from generated_request_correct[OF this refl, of "\<lambda>w. URLLC" None None ex_sub "''q''" 0 1]
  have "wf_request (generate_slice_request (\<lambda>i. 1 / 4) (\<lambda>w. URLLC) None None ex_sub ''q'' 0 1)" by blast
  moreover have "map cpu_demand (vnfs (generate_slice_request (\<lambda>i. 1 / 4) (\<lambda>w. URLLC) None None ex_sub ''q'' 0 1))
      = [6 / 5, 5 / 2]" by code_simp
  ultimately show ?thesis by blast
qed

text \<open>A scenario class keeps the chain.\<close>

lemma reramp_chain:
  assumes "chain_request sr"
  shows "chain_request (reramp sr rho)"
proof -
  have "map vnf_id (map (\<lambda>v. v\<lparr>vcr := rho\<rparr>) vs) = map vnf_id vs" for vs by simp
  then show ?thesis
    using assms by (simp add: chain_request_def reramp_def Let_def comp_def)
qed

lemma scenario_factory_ok:
  assumes "\<And>rid. unit_draws (draw rid)" and "rho = None \<or> rho = Some r \<and> 0 \<le> r"
  shows "case make_scenario_slice_factory draw pick g scenario rho of
      Inl e \<Rightarrow> e = ValueError \<and> scenario \<notin> {''conventional'', ''stress'', ''complex''}
    | Inr F \<Rightarrow> lawful_factory F \<and> (\<forall>rid t l. closed_request (F rid t l) \<and> chain_request (F rid t l))"
proof (cases "scenario_of scenario rho")
  case (Inl e)
  then show ?thesis by (auto simp: make_scenario_slice_factory_def scenario_of_def split: if_splits)
next
  case (Inr rw)
  obtain r w where rw: "rw = (r, w)" by (cases rw)
  have r: "0 \<le> r" using Inr assms(2) by (auto simp: rw scenario_of_def stress_rho_def split: if_splits)
  define gen where "gen = (\<lambda>rid t l. generate_slice_request (draw rid) (pick rid) None w g rid t l)"
  have ok: "chain_request (gen rid t l)" "nonneg_request (gen rid t l)" "request_id (gen rid t l) = rid"
    "0 \<le> min_throughput (qos_of (gen rid t l))" for rid t l
    using generated_request_correct[OF assms(1) refl, of rid "pick rid" None w g rid t l]
      profile_ranges[of "stype (gen rid t l)"] unfolding gen_def by auto
  have F: "make_scenario_slice_factory draw pick g scenario rho = Inr (\<lambda>rid t l. reramp (gen rid t l) r)"
    by (simp add: make_scenario_slice_factory_def Inr rw gen_def)
  have ch: "chain_request (reramp (gen rid t l) r)" for rid t l by (rule reramp_chain[OF ok(1)])
  have "nonneg_request (reramp (gen rid t l) r)" for rid t l
    using ok(2,4)[of rid t l] r
    by (auto simp: nonneg_request_def reramp_def Let_def intro!: py_round_nonneg mult_nonneg_nonneg)
  moreover have "request_id (reramp (gen rid t l) r) = rid" for rid t l
    using ok(3) by (simp add: reramp_def Let_def)
  ultimately show ?thesis
    using chain_request_wf[OF ch] ch by (simp add: F lawful_factory_def)
qed

text \<open>
  Every scenario class gives a factory that is lawful for the episode proofs, and a factory
  is refused only for an unknown class.
\<close>

theorem scenario_factories_lawful:
  assumes "\<And>rid. unit_draws (draw rid)" and "rho = None \<or> rho = Some r \<and> 0 \<le> r"
  shows "case make_scenario_slice_factory draw pick g scenario rho of
      Inl e \<Rightarrow> e = ValueError \<and> scenario \<notin> {''conventional'', ''stress'', ''complex''}
    | Inr F \<Rightarrow> lawful_factory F \<and> (\<forall>rid t l. closed_request (F rid t l) \<and> chain_request (F rid t l))"
  using assms by (rule scenario_factory_ok)

theorem scenario_factories_lawful_witness:
  "\<exists>F. make_scenario_slice_factory (\<lambda>rid i. 1 / 4) (\<lambda>rid w. XR) ex_sub ''stress'' None = Inr F \<and> lawful_factory F"
proof -
  have "unit_draws (\<lambda>i. 1 / 4)" by (simp add: unit_draws_def)
  from scenario_factories_lawful[OF this, where rho = None and pick = "\<lambda>rid w. XR" and g = ex_sub and scenario = "''stress''"] show ?thesis
    by (auto split: sum.splits)
qed

end
