(* ===== verification/Load_Levels.thy ===== *)
theory Load_Levels
  imports Slice_Generator
begin

text \<open>
  Offered load (\<open>src/src/orion/sim/load_levels.py\<close>): the committed workload constants, the frozen
  levels, offered load as a fraction of capacity and its inverse, the episode of a level and the
  acceptance metrics. The exponential draws of an episode and the draws of the demand probe are
  parameters. \<open>str(LoadLevel)\<close> is formatting and left out.

  Theorem: \<open>arrival_rate_for_rho\<close> inverts \<open>offered_load_fraction\<close>.
\<close>

definition service_rate :: real where
  "service_rate = 5 / 100"

definition num_arrivals :: nat where
  "num_arrivals = 2000"

definition warmup_arrivals :: nat where
  "warmup_arrivals = 400"

record load_level =
  ll_name :: string
  ll_arrival_rate :: real
  ll_service_rate :: real
  ll_rho :: "real option"
  ll_acceptance :: "real option"

definition erlangs :: "load_level \<Rightarrow> py_error + real" where
  "erlangs l = (if ll_service_rate l = 0 then Inl ZeroDivisionError else Inr (ll_arrival_rate l / ll_service_rate l))"

definition load_level_of :: "string \<Rightarrow> real \<Rightarrow> real \<Rightarrow> real \<Rightarrow> load_level" where
  "load_level_of name rate rho acc =
     \<lparr>ll_name = name, ll_arrival_rate = rate, ll_service_rate = service_rate, ll_rho = Some rho,
      ll_acceptance = Some acc\<rparr>"

definition calibrated_levels :: "(string, load_level) dict" where
  "calibrated_levels =
     [(''L1'', load_level_of ''L1'' (13348 / 10000) (1313 / 10000) (8847 / 10000)),
      (''L2'', load_level_of ''L2'' (52095 / 10000) (5125 / 10000) (8270 / 10000)),
      (''L3'', load_level_of ''L3'' (117930 / 10000) (11601 / 10000) (6640 / 10000)),
      (''L4'', load_level_of ''L4'' (203318 / 10000) 2 (4916 / 10000))]"

definition get_level :: "(string, load_level) dict \<Rightarrow> string \<Rightarrow> py_error + load_level" where
  "get_level levels name =
     (if levels = [] then Inl RuntimeError
      else case map_of levels name of None \<Rightarrow> Inl KeyError | Some l \<Rightarrow> Inr l)"

section \<open>Offered load\<close>

text \<open>\<open>probe i\<close> is the \<open>i\<close>-th request of the probing loop.\<close>

definition expected_slice_demand :: "(nat \<Rightarrow> slice_request) \<Rightarrow> nat \<Rightarrow> py_error + real \<times> real" where
  "expected_slice_demand probe n =
     (let reqs = map probe [0..<n];
          cpu = sum_list (map (\<lambda>r. sum_list (map cpu_demand (vnfs r))) reqs);
          ram = sum_list (map (\<lambda>r. sum_list (map ram_demand (vnfs r))) reqs)
      in if n = 0 then Inl ZeroDivisionError else Inr (cpu / real n, ram / real n))"

definition substrate_capacity :: "'a graph_scheme \<Rightarrow> real \<times> real" where
  "substrate_capacity g =
     (sum_list (map (\<lambda>(n, d). cpu_capacity d) (g_nodes g)), sum_list (map (\<lambda>(n, d). ram_capacity d) (g_nodes g)))"

definition over_capacity :: "real \<Rightarrow> real \<Rightarrow> xreal" where
  "over_capacity x cap = (if cap > 0 then Fin (x / cap) else PInf)"

definition offered_load_fraction :: "'a graph_scheme \<Rightarrow> real \<Rightarrow> real \<Rightarrow> real \<Rightarrow> real \<Rightarrow> py_error + xreal" where
  "offered_load_fraction g rate ecpu eram mu =
     (if mu = 0 then Inl ZeroDivisionError
      else let er = rate / mu; (ccpu, cram) = substrate_capacity g
           in Inr (max (over_capacity (er * ecpu) ccpu) (over_capacity (er * eram) cram)))"

text \<open>Division by infinity gives zero, division by zero raises.\<close>

definition arrival_rate_for_rho :: "'a graph_scheme \<Rightarrow> real \<Rightarrow> real \<Rightarrow> real \<Rightarrow> real \<Rightarrow> py_error + real" where
  "arrival_rate_for_rho g rho ecpu eram mu =
     (let (ccpu, cram) = substrate_capacity g
      in case max (over_capacity ecpu ccpu) (over_capacity eram cram) of
           PInf \<Rightarrow> Inr 0
         | Fin per \<Rightarrow> if per = 0 then Inl ZeroDivisionError else Inr (rho * mu / per))"

definition capacity_row :: "node_id \<times> node_data \<Rightarrow> (tier, real \<times> real \<times> real) dict \<Rightarrow> (tier, real \<times> real \<times> real) dict" where
  "capacity_row = (\<lambda>(n, d) out.
     let (k, c, r) = get_default out (node_tier d) (0, 0, 0)
     in AList.update (node_tier d) (k + 1, c + cpu_capacity d, r + ram_capacity d) out)"

definition capacity_by_tier :: "'a graph_scheme \<Rightarrow> (tier, real \<times> real \<times> real) dict" where
  "capacity_by_tier g = fold capacity_row (g_nodes g) []"

section \<open>Episodes and metrics\<close>

text \<open>\<open>std\<close> stands for \<open>generate_slice_request\<close> on the substrate; \<open>gaps\<close> and \<open>lifes\<close> are the
  two exponential draws.\<close>

definition make_arrival_process :: "slice_factory \<Rightarrow> slice_factory option \<Rightarrow> nat \<Rightarrow> real list \<Rightarrow> real list \<Rightarrow> arrival_process" where
  "make_arrival_process std factory n gaps lifes =
     generate gaps lifes
       \<lparr>ap_num = n, ap_factory = (case factory of None \<Rightarrow> std | Some f \<Rightarrow> f), ap_events = [], ap_idx = 0\<rparr>"

definition steady_state :: "bool list \<Rightarrow> nat \<Rightarrow> py_error + bool list" where
  "steady_state records warmup = (if length records \<le> warmup then Inl ValueError else Inr (drop warmup records))"

definition acceptance_ratio :: "bool list \<Rightarrow> real" where
  "acceptance_ratio records =
     (if records = [] then 0 else real (length (filter (\<lambda>r. r) records)) / real (length records))"

definition acceptance_ratio_steady :: "bool list \<Rightarrow> nat \<Rightarrow> py_error + real" where
  "acceptance_ratio_steady records warmup =
     map_sum id (\<lambda>w. real (length (filter (\<lambda>r. r) w)) / real (length w)) (steady_state records warmup)"

section \<open>Properties\<close>

text \<open>
  The arrival rate computed for a load offers exactly that load, when the substrate has
  capacity and a slice demands something.
\<close>

theorem offered_load_roundtrip:
  assumes "0 < fst (substrate_capacity g)" and "0 < snd (substrate_capacity g)"
    and "0 < ecpu" and "0 < eram" and "0 \<le> rho" and "0 < mu"
  shows "\<exists>rate. arrival_rate_for_rho g rho ecpu eram mu = Inr rate
    \<and> offered_load_fraction g rate ecpu eram mu = Inr (Fin rho)"
proof -
  obtain ccpu cram where c: "substrate_capacity g = (ccpu, cram)" by (rule prod.exhaust)
  have pos: "0 < ecpu / ccpu" "0 < eram / cram" using assms(1-4) c by simp_all
  define per where "per = max (ecpu / ccpu) (eram / cram)"
  have per: "0 < per" using pos by (auto simp: per_def)
  have mx: "max (Fin x) (Fin y) = Fin (max x y)" for x y by (simp add: max_def)
  have s: "(rho / per * x) = rho * (x / per)" for x by simp
  have "arrival_rate_for_rho g rho ecpu eram mu = Inr (rho * mu / per)"
    using assms(1,2) c per by (simp add: arrival_rate_for_rho_def over_capacity_def mx flip: per_def)
  moreover have "mono ((*) (rho / per))" using assms(5) per by (intro monoI mult_left_mono) auto
  then have "max (rho / per * (ecpu / ccpu)) (rho / per * (eram / cram)) = rho / per * per"
    unfolding per_def by (rule max_of_mono)
  then have "offered_load_fraction g (rho * mu / per) ecpu eram mu = Inr (Fin rho)"
    using assms(1,2,6) c per by (simp add: offered_load_fraction_def over_capacity_def mx)
  ultimately show ?thesis by blast
qed

theorem offered_load_roundtrip_witness:
  "arrival_rate_for_rho ex_sub (1 / 2) 6 3 service_rate = Inr (1 / 10)
   \<and> offered_load_fraction ex_sub (1 / 10) 6 3 service_rate = Inr (Fin (1 / 2))"
proof -
  have c: "substrate_capacity ex_sub = (24, 24)" by code_simp
  have r: "arrival_rate_for_rho ex_sub (1 / 2) 6 3 service_rate = Inr (1 / 10)" by code_simp
  have "0 < service_rate" by (simp add: service_rate_def)
  then have "\<exists>rate. arrival_rate_for_rho ex_sub (1 / 2) 6 3 service_rate = Inr rate
    \<and> offered_load_fraction ex_sub rate 6 3 service_rate = Inr (Fin (1 / 2))"
    by (intro offered_load_roundtrip) (simp_all add: c)
  then show ?thesis unfolding r by (elim exE conjE) (simp only: sum.inject)
qed

end
