(* ===== verification/Retrieval.thy ===== *)
theory Retrieval
  imports Prelude
begin

text \<open>
  The hybrid retrieval pipeline (\<open>src/src/orion/retrieval/\<close>): metadata filter, dense search, recency,
  BM25, reciprocal rank fusion, rerank. Entries are objects shared with the memory that owns them, so
  they live in a heap \<open>h\<close> and the pipeline holds references; \<open>id(e)\<close> is the reference. What is not
  under \<open>src/\<close> is the record \<open>rank_lib\<close>: the embedding function, the inner-product search of numpy or
  faiss behind \<open>DenseRetriever\<close>, the scores of \<open>rank_bm25\<close> and of the cross-encoder. The debug trace
  and the logging are left out.

  Lemmas: what each stage keeps of its candidates; rank fusion ranks by the sum of reciprocal ranks.
\<close>

section \<open>types.py\<close>

record memory_entry =
  me_id :: string
  me_topic :: string
  me_content :: string
  me_tags :: "(string, string list) dict"
  me_embedding :: "real list option"
  me_accessed :: real
  me_count :: nat

type_synonym entry_ref = nat

datatype retrieval_mode = FullMode | NoRerank | DenseOnly | KeywordOnly | CosineOnly

record retrieval_config =
  rc_mode :: retrieval_mode
  rc_k_dense :: nat
  rc_k_rrf :: nat
  rc_k_final :: nat
  rc_rrf_k :: nat
  rc_bm25 :: bool
  rc_rerank :: bool
  rc_tau :: real
  rc_recency :: bool

definition default_retrieval :: retrieval_config where
  "default_retrieval = \<lparr>rc_mode = FullMode, rc_k_dense = 50, rc_k_rrf = 20, rc_k_final = 5, rc_rrf_k = 60,
     rc_bm25 = True, rc_rerank = True, rc_tau = 1 / 30, rc_recency = False\<rparr>"

text \<open>A filter value that is one string is the list of that string.\<close>

record retrieval_query =
  rq_text :: string
  rq_filters :: "(string, string list) dict"
  rq_top_k :: "nat option"

record scored_entry =
  sc_entry :: entry_ref
  sc_score :: real
  sc_stages :: "(string, real option) dict"

section \<open>stage\_filter.py\<close>

definition tag_matches :: "memory_entry \<Rightarrow> string \<times> string list \<Rightarrow> bool" where
  "tag_matches e = (\<lambda>(key, required).
     case map_of (me_tags e) key of
       None \<Rightarrow> True
     | Some vs \<Rightarrow> list_ex (\<lambda>v. v \<in> set required \<or> v = ''all'') vs)"

definition entry_matches :: "memory_entry \<Rightarrow> (string, string list) dict \<Rightarrow> bool" where
  "entry_matches e filters \<longleftrightarrow> list_all (tag_matches e) filters"

definition apply_metadata_filter :: "(entry_ref \<Rightarrow> memory_entry) \<Rightarrow> entry_ref list \<Rightarrow> retrieval_query \<Rightarrow> entry_ref list" where
  "apply_metadata_filter h rs q =
     (if rq_filters q = [] then rs else filter (\<lambda>r. entry_matches (h r) (rq_filters q)) rs)"

section \<open>stage\_lexical.py\<close>

definition lower :: "char \<Rightarrow> char" where
  "lower c = (let n = of_char c :: nat in if 65 \<le> n \<and> n \<le> 90 then char_of (n + 32) else c)"

definition word_char :: "char \<Rightarrow> bool" where
  "word_char c = (let n = of_char c :: nat in (97 \<le> n \<and> n \<le> 122) \<or> (48 \<le> n \<and> n \<le> 57))"

text \<open>The matches of \<open>[a-z0-9][a-z0-9_]*\<close>, left to right; \<open>cur\<close> is the open match, reversed.\<close>

fun find_tokens :: "string \<Rightarrow> string \<Rightarrow> string list" where
  "find_tokens [] cur = (if cur = [] then [] else [rev cur])"
| "find_tokens (c # cs) cur =
     (if word_char c \<or> (c = CHR ''_'' \<and> cur \<noteq> []) then find_tokens cs (c # cur)
      else if cur = [] then find_tokens cs [] else rev cur # find_tokens cs [])"

definition telecom_tokenize :: "string \<Rightarrow> string list" where
  "telecom_tokenize t = find_tokens (map lower t) []"

record rank_lib =
  rl_embed :: "(string \<Rightarrow> real list) option"
  rl_search :: "real list list \<Rightarrow> real list \<Rightarrow> nat list option \<Rightarrow> nat \<Rightarrow> (nat \<times> real) list"
  rl_bm25 :: "(string list list \<Rightarrow> string list \<Rightarrow> real list) option"
  rl_cross :: "(string \<Rightarrow> string list \<Rightarrow> real list) option"

text \<open>\<open>sort(key=score, reverse=True)\<close> keeps the order of equal scores.\<close>

definition by_score :: "(nat \<times> real) list \<Rightarrow> (nat \<times> real) list" where
  "by_score xs = sort_key (\<lambda>x. - snd x) xs"

definition lexical_query :: "rank_lib \<Rightarrow> string list list option \<Rightarrow> string \<Rightarrow> nat list option \<Rightarrow> nat \<Rightarrow> (nat \<times> real) list" where
  "lexical_query lib corpus text cands k =
     (case (corpus, rl_bm25 lib) of
        (Some docs, Some bm25) \<Rightarrow>
          let scores = bm25 docs (telecom_tokenize text);
              indexed = (case cands of
                  Some is \<Rightarrow> map (\<lambda>i. (i, scores ! i)) is
                | None \<Rightarrow> zip [0..<length scores] scores)
          in take k (by_score indexed)
      | _ \<Rightarrow> [])"

definition add_ranking :: "nat \<Rightarrow> (nat \<times> real) list \<Rightarrow> (nat, real) dict \<Rightarrow> (nat, real) dict" where
  "add_ranking k ranking acc =
     fold (\<lambda>(rank, idx, _). add_at idx (1 / real (k + rank))) (zip [1..<Suc (length ranking)] ranking) acc"

definition rrf_fuse :: "(nat \<times> real) list list \<Rightarrow> nat \<Rightarrow> (nat \<times> real) list" where
  "rrf_fuse rankings k = by_score (fold (add_ranking k) rankings [])"

section \<open>stage\_rerank.py\<close>

definition rerank :: "rank_lib \<Rightarrow> string \<Rightarrow> string list \<Rightarrow> nat list \<Rightarrow> (nat \<times> real) list" where
  "rerank lib query docs is =
     (case rl_cross lib of
        None \<Rightarrow> map (\<lambda>i. (i, 0)) is
      | Some predict \<Rightarrow> by_score (zip is (predict query docs)))"

section \<open>pipeline.py\<close>

text \<open>\<open>pp_dense\<close> and \<open>pp_corpus\<close> are the indices; \<open>None\<close> before the first build.\<close>

record pipeline =
  pp_entries :: "entry_ref list"
  pp_index :: "(entry_ref, nat) dict"
  pp_dense :: "real list list option"
  pp_corpus :: "string list list option"

definition new_pipeline :: pipeline where
  "new_pipeline = \<lparr>pp_entries = [], pp_index = [], pp_dense = None, pp_corpus = None\<rparr>"

definition doc_text :: "memory_entry \<Rightarrow> string" where
  "doc_text e = me_topic e @ '' '' @ me_content e"

text \<open>\<open>{id(e): i for i, e in enumerate(entries)}\<close>: a repeated object keeps its first place and its last index.\<close>

definition index_of_entries :: "entry_ref list \<Rightarrow> (entry_ref, nat) dict" where
  "index_of_entries rs = fold (\<lambda>(r, i). AList.update r i) (zip rs [0..<length rs]) []"

definition build_lexical :: "rank_lib \<Rightarrow> retrieval_config \<Rightarrow> (entry_ref \<Rightarrow> memory_entry) \<Rightarrow> pipeline \<Rightarrow> py_error + pipeline" where
  "build_lexical lib cfg h pp =
     (if \<not> rc_bm25 cfg then Inr pp
      else if rl_bm25 lib = None then Inl RuntimeError
      else Inr (pp\<lparr>pp_corpus := Some (map (\<lambda>r. telecom_tokenize (doc_text (h r))) (pp_entries pp))\<rparr>))"

definition rebuild_indices :: "rank_lib \<Rightarrow> retrieval_config \<Rightarrow> (entry_ref \<Rightarrow> memory_entry) \<Rightarrow> pipeline \<Rightarrow> py_error + pipeline" where
  "rebuild_indices lib cfg h pp =
     (let es = List.map_filter (\<lambda>r. me_embedding (h r)) (pp_entries pp);
          pp1 = pp\<lparr>pp_index := index_of_entries (pp_entries pp), pp_dense := (if es = [] then pp_dense pp else Some es)\<rparr>
      in build_lexical lib cfg h pp1)"

definition embed_missing :: "rank_lib \<Rightarrow> entry_ref \<Rightarrow> (entry_ref \<Rightarrow> memory_entry) \<Rightarrow> entry_ref \<Rightarrow> memory_entry" where
  "embed_missing lib r h =
     (case (me_embedding (h r), rl_embed lib) of
        (None, Some emb) \<Rightarrow> h(r := (h r)\<lparr>me_embedding := Some (emb (doc_text (h r)))\<rparr>)
      | _ \<Rightarrow> h)"

definition build :: "rank_lib \<Rightarrow> retrieval_config \<Rightarrow> entry_ref list \<Rightarrow> (entry_ref \<Rightarrow> memory_entry) \<times> pipeline
    \<Rightarrow> py_error + ((entry_ref \<Rightarrow> memory_entry) \<times> pipeline)" where
  "build lib cfg rs = (\<lambda>(h, pp).
     let pp0 = pp\<lparr>pp_entries := rs, pp_index := index_of_entries rs\<rparr>;
         h1 = fold (embed_missing lib) rs h
     in if rs = [] then Inr (h, pp0) else map_sum id (Pair h1) (rebuild_indices lib cfg h1 pp0))"

definition add_entry :: "rank_lib \<Rightarrow> retrieval_config \<Rightarrow> entry_ref \<Rightarrow> (entry_ref \<Rightarrow> memory_entry) \<times> pipeline
    \<Rightarrow> py_error + ((entry_ref \<Rightarrow> memory_entry) \<times> pipeline)" where
  "add_entry lib cfg r = (\<lambda>(h, pp).
     let h1 = embed_missing lib r h
     in map_sum id (Pair h1) (rebuild_indices lib cfg h1 (pp\<lparr>pp_entries := pp_entries pp @ [r]\<rparr>)))"

definition remove_entry :: "rank_lib \<Rightarrow> retrieval_config \<Rightarrow> (entry_ref \<Rightarrow> memory_entry) \<Rightarrow> string \<Rightarrow> pipeline \<Rightarrow> py_error + pipeline" where
  "remove_entry lib cfg h x pp =
     rebuild_indices lib cfg h (pp\<lparr>pp_entries := filter (\<lambda>r. me_id (h r) \<noteq> x) (pp_entries pp)\<rparr>)"

definition update_access :: "real \<Rightarrow> string \<Rightarrow> pipeline \<Rightarrow> (entry_ref \<Rightarrow> memory_entry) \<Rightarrow> entry_ref \<Rightarrow> memory_entry" where
  "update_access now x pp h =
     (case List.find (\<lambda>r. me_id (h r) = x) (pp_entries pp) of
        None \<Rightarrow> h
      | Some r \<Rightarrow> h(r := (h r)\<lparr>me_accessed := now, me_count := me_count (h r) + 1\<rparr>))"

definition pipeline_k :: "retrieval_config \<Rightarrow> retrieval_query \<Rightarrow> nat" where
  "pipeline_k cfg q = (case rq_top_k q of None \<Rightarrow> rc_k_final cfg | Some k \<Rightarrow> k)"

text \<open>Time is in days.\<close>

definition apply_recency :: "retrieval_config \<Rightarrow> (entry_ref \<Rightarrow> memory_entry) \<Rightarrow> pipeline \<Rightarrow> real \<Rightarrow> (nat \<times> real) list \<Rightarrow> (nat \<times> real) list" where
  "apply_recency cfg h pp now results =
     by_score (map (\<lambda>(i, s). (i, s * exp (- rc_tau cfg * (now - me_accessed (h (pp_entries pp ! i)))))) results)"

definition dense_query :: "rank_lib \<Rightarrow> pipeline \<Rightarrow> real list \<Rightarrow> nat list option \<Rightarrow> nat \<Rightarrow> (nat \<times> real) list" where
  "dense_query lib pp v cands k = (case pp_dense pp of None \<Rightarrow> [] | Some es \<Rightarrow> rl_search lib es v cands k)"

fun index_all :: "(entry_ref, nat) dict \<Rightarrow> entry_ref list \<Rightarrow> py_error + nat list" where
  "index_all ix [] = Inr []"
| "index_all ix (r # rs) =
     (case map_of ix r of None \<Rightarrow> Inl KeyError | Some i \<Rightarrow> map_sum id ((#) i) (index_all ix rs))"

definition build_scored :: "pipeline \<Rightarrow> string \<Rightarrow> (nat \<times> real) list \<Rightarrow> scored_entry list" where
  "build_scored pp stage results =
     map (\<lambda>(i, s). \<lparr>sc_entry = pp_entries pp ! i, sc_score = s,
       sc_stages = (if stage = ''bm25'' then [(''bm25'', None), (''rerank'', None)]
                    else [(stage, Some s), (''bm25'', None), (''rerank'', None)])\<rparr>) results"

text \<open>\<open>_build_scored_with_bm25\<close> and \<open>_build_scored_full\<close> differ in the rerank score only.\<close>

definition build_scored_stages :: "pipeline \<Rightarrow> bool \<Rightarrow> (nat \<times> real) list \<Rightarrow> (nat \<times> real) list \<Rightarrow> (nat \<times> real) list \<Rightarrow> scored_entry list" where
  "build_scored_stages pp reranked fused dense bm25 =
     map (\<lambda>(i, s). \<lparr>sc_entry = pp_entries pp ! i, sc_score = s,
       sc_stages = [(''dense'', map_of (rev dense) i), (''bm25'', map_of (rev bm25) i),
                    (''rerank'', if reranked then Some s else None)]\<rparr>) fused"

definition cosine_only :: "rank_lib \<Rightarrow> retrieval_config \<Rightarrow> pipeline \<Rightarrow> retrieval_query \<Rightarrow> scored_entry list" where
  "cosine_only lib cfg pp q =
     (case rl_embed lib of
        None \<Rightarrow> []
      | Some emb \<Rightarrow> build_scored pp ''dense'' (dense_query lib pp (emb (rq_text q)) None (pipeline_k cfg q)))"

definition keyword_only :: "rank_lib \<Rightarrow> retrieval_config \<Rightarrow> (entry_ref \<Rightarrow> memory_entry) \<Rightarrow> pipeline \<Rightarrow> retrieval_query
    \<Rightarrow> py_error + scored_entry list" where
  "keyword_only lib cfg h pp q =
     map_sum id (\<lambda>is. if is = [] then []
         else build_scored pp ''bm25'' (lexical_query lib (pp_corpus pp) (rq_text q) (Some is) (pipeline_k cfg q)))
       (index_all (pp_index pp) (apply_metadata_filter h (pp_entries pp) q))"

text \<open>Stages 2 and 2.5.\<close>

definition dense_stage :: "rank_lib \<Rightarrow> retrieval_config \<Rightarrow> (entry_ref \<Rightarrow> memory_entry) \<Rightarrow> pipeline \<Rightarrow> real \<Rightarrow> retrieval_query \<Rightarrow> nat list
    \<Rightarrow> (nat \<times> real) list" where
  "dense_stage lib cfg h pp now q is =
     (let dense = (case rl_embed lib of
            None \<Rightarrow> map (\<lambda>i. (i, 1)) is
          | Some emb \<Rightarrow> dense_query lib pp (emb (rq_text q)) (Some is) (max (rc_k_dense cfg) (pipeline_k cfg q)))
      in if rc_recency cfg \<and> rc_tau cfg > 0 then apply_recency cfg h pp now dense else dense)"

definition retrieve :: "rank_lib \<Rightarrow> retrieval_config \<Rightarrow> (entry_ref \<Rightarrow> memory_entry) \<Rightarrow> pipeline \<Rightarrow> real \<Rightarrow> retrieval_query
    \<Rightarrow> py_error + scored_entry list" where
  "retrieve lib cfg h pp now q =
     (if rc_mode cfg = CosineOnly then Inr (cosine_only lib cfg pp q)
      else if rc_mode cfg = KeywordOnly then keyword_only lib cfg h pp q
      else case index_all (pp_index pp) (apply_metadata_filter h (pp_entries pp) q) of
          Inl e \<Rightarrow> Inl e
        | Inr is \<Rightarrow>
        if is = [] then Inr []
        else
          let k = pipeline_k cfg q;
              dense = dense_stage lib cfg h pp now q is
          in if rc_mode cfg = DenseOnly then Inr (take k (build_scored pp ''dense'' dense))
          else
            let bm25 = (if rc_bm25 cfg then lexical_query lib (pp_corpus pp) (rq_text q) (Some (map fst dense))
                          (max (rc_k_dense cfg) k) else []);
                fused0 = (if rc_bm25 cfg then rrf_fuse [dense, bm25] (rc_rrf_k cfg) else dense);
                fused = take (max (rc_k_rrf cfg) k) fused0
            in if rc_mode cfg = NoRerank then Inr (take k (build_scored_stages pp False fused dense bm25))
            else
              let reranked = (if rc_rerank cfg
                    then rerank lib (rq_text q) (map (\<lambda>(i, s). doc_text (h (pp_entries pp ! i))) fused) (map fst fused)
                    else fused)
              in Inr (take k (build_scored_stages pp True reranked dense bm25)))"

section \<open>Stages\<close>

lemma set_by_score [simp]: "set (by_score xs) = set xs"
  by (simp add: by_score_def)

lemma length_by_score [simp]: "length (by_score xs) = length xs"
  by (simp add: by_score_def)

lemma keys_by_score: "mset (map fst (by_score xs)) = mset (map fst xs)"
  by (simp add: by_score_def)

lemma by_score_sorted: "sorted_wrt (\<lambda>x y. snd y \<le> snd x) (by_score xs)"
  using sorted_sort_key[of "\<lambda>x. - snd x" xs] by (simp add: by_score_def sorted_map)

lemma distinct_by_score [simp]: "distinct (map fst (by_score xs)) = distinct (map fst xs)"
  by (rule mset_eq_imp_distinct_iff) (rule keys_by_score)

lemma add_ranking_keys: "set (keys (add_ranking k ranking acc)) = set (map fst ranking) \<union> set (keys acc)"
proof -
  have "set (keys (fold (\<lambda>(rank, idx, _). add_at idx (1 / real (k + rank))) zs acc)) = (fst \<circ> snd) ` set zs \<union> set (keys acc)"
    for zs :: "(nat \<times> nat \<times> real) list" and acc
    by (induction zs arbitrary: acc) (simp_all add: add_at_def case_prod_unfold keys_update[unfolded list.set_map])
  moreover have "snd ` set (zip [1..<Suc (length ranking)] ranking) = set ranking"
    by (metis list.set_map map_snd_zip length_upt diff_Suc_1 One_nat_def)
  ultimately show ?thesis unfolding add_ranking_def by (metis image_comp list.set_map)
qed

lemma add_ranking_distinct: "distinct (keys acc) \<Longrightarrow> distinct (keys (add_ranking k ranking acc))"
proof -
  have "distinct (keys acc) \<Longrightarrow> distinct (keys (fold (\<lambda>(rank, idx, _). add_at idx (1 / real (k + rank))) zs acc))"
    for zs :: "(nat \<times> nat \<times> real) list" and acc
    by (induction zs arbitrary: acc) (simp_all add: add_at_def case_prod_unfold distinct_keys_update)
  then show "distinct (keys acc) \<Longrightarrow> ?thesis" by (simp add: add_ranking_def)
qed

lemma rrf_fuse_keys: "set (map fst (rrf_fuse rankings k)) = (\<Union>ranking \<in> set rankings. set (map fst ranking))"
proof -
  have "set (keys (fold (add_ranking k) rankings acc)) = (\<Union>ranking \<in> set rankings. set (map fst ranking)) \<union> set (keys acc)" for acc
    by (induction rankings arbitrary: acc) (simp_all add: add_ranking_keys[unfolded list.set_map] Un_ac)
  from this[of "[]"] show ?thesis by (simp add: rrf_fuse_def)
qed

lemma rrf_fuse_distinct: "distinct (map fst (rrf_fuse rankings k))"
proof -
  have "distinct (keys acc) \<Longrightarrow> distinct (keys (fold (add_ranking k) rankings acc))" for acc
    by (induction rankings arbitrary: acc) (auto simp: add_ranking_distinct)
  then show ?thesis by (simp add: rrf_fuse_def)
qed

text \<open>On an index built from distinct entries every lookup finds the position of its entry.\<close>

lemma index_of_entries_nth:
  assumes "distinct rs" and "i < length rs"
  shows "map_of (index_of_entries rs) (rs ! i) = Some i"
proof -
  have "map_of (rev (map (\<lambda>x. (fst x, snd x)) (zip rs [0..<length rs]))) (rs ! i) = Some i"
    using assms by (intro map_of_is_SomeI) (auto simp: rev_map[symmetric] in_set_zip)
  then show ?thesis unfolding index_of_entries_def case_prod_unfold map_of_updates by simp
qed

lemma index_all_entries:
  assumes "distinct rs" and "set ss \<subseteq> set rs"
  obtains js where "index_all (index_of_entries rs) ss = Inr js" and "map ((!) rs) js = ss"
    and "set js \<subseteq> {..<length rs}"
proof -
  have "\<exists>js. index_all (index_of_entries rs) ss = Inr js \<and> map ((!) rs) js = ss \<and> set js \<subseteq> {..<length rs}"
    using assms(2)
  proof (induction ss)
    case (Cons r ss)
    then obtain i where "i < length rs" "rs ! i = r" by (auto simp: in_set_conv_nth)
    with index_of_entries_nth[OF assms(1)] Cons show ?case by auto
  qed simp
  with that show thesis by blast
qed

section \<open>The whole pipeline\<close>

text \<open>
  What the pipeline relies on of its libraries: a search restricted to candidates returns some of them,
  each once, and a predictor gives one score per document.
\<close>

definition rank_lib_ok :: "rank_lib \<Rightarrow> bool" where
  "rank_lib_ok lib \<longleftrightarrow>
     (\<forall>es v js k. distinct js \<longrightarrow> set (map fst (rl_search lib es v (Some js) k)) \<subseteq> set js
        \<and> distinct (map fst (rl_search lib es v (Some js) k)))
     \<and> (\<forall>p q docs. rl_cross lib = Some p \<longrightarrow> length (p q docs) = length docs)"

definition indexed :: "pipeline \<Rightarrow> bool" where
  "indexed pp \<longleftrightarrow> distinct (pp_entries pp) \<and> pp_index pp = index_of_entries (pp_entries pp)"

text \<open>A list of scored positions that only names candidates, each once.\<close>

definition staged :: "nat list \<Rightarrow> (nat \<times> real) list \<Rightarrow> bool" where
  "staged js res \<longleftrightarrow> distinct (map fst res) \<and> set (map fst res) \<subseteq> set js"

lemma staged_take: "staged js res \<Longrightarrow> staged js (take k res)"
  unfolding staged_def take_map[symmetric] using set_take_subset[of k "map fst res"] by (blast intro: distinct_take)

lemma staged_by_score [simp]: "staged js (by_score res) = staged js res"
  by (simp add: staged_def)

lemma staged_keyed: "distinct js \<Longrightarrow> staged js (map (\<lambda>i. (i, f i)) js)"
  by (simp add: staged_def comp_def)

lemma staged_Nil [simp]: "staged js []"
  by (simp add: staged_def)

lemma staged_lexical: "distinct js \<Longrightarrow> staged js (lexical_query lib corpus text (Some js) k)"
  by (cases corpus; cases "rl_bm25 lib") (simp_all add: lexical_query_def Let_def staged_take staged_keyed)

lemma staged_trans: "staged (map fst res) res' \<Longrightarrow> staged js res \<Longrightarrow> staged js res'"
  by (auto simp: staged_def)

lemma staged_recency: "staged js (apply_recency cfg h pp now res) = staged js res"
  and recency_keys: "set (map fst (apply_recency cfg h pp now res)) = set (map fst res)"
  by (simp_all add: apply_recency_def staged_def comp_def case_prod_unfold image_image)

lemma dense_stage_staged:
  assumes "rank_lib_ok lib" and "distinct js"
  shows "staged js (dense_stage lib cfg h pp now q js)"
proof -
  have "staged js (dense_query lib pp v (Some js) k)" for v k
    using assms by (auto simp: dense_query_def rank_lib_ok_def staged_def split: option.splits)
  then show ?thesis
    by (simp add: dense_stage_def Let_def staged_recency staged_keyed[OF assms(2)] split: option.split)
qed

lemma dense_stage_all: "rl_embed lib = None \<Longrightarrow> set (map fst (dense_stage lib cfg h pp now q js)) = set js"
  unfolding dense_stage_def Let_def by (simp add: recency_keys[unfolded list.set_map] image_image)

lemma staged_rrf: "staged js dense \<Longrightarrow> staged (map fst dense) bm25 \<Longrightarrow> staged js (rrf_fuse [dense, bm25] k)"
  unfolding staged_def rrf_fuse_keys using rrf_fuse_distinct by (simp del: list.set_map) blast

lemma rrf_all: "staged (map fst dense) bm25 \<Longrightarrow> set (map fst (rrf_fuse [dense, bm25] k)) = set (map fst dense)"
  unfolding staged_def rrf_fuse_keys by auto

lemma staged_length: "staged js res \<Longrightarrow> distinct js \<Longrightarrow> set (map fst res) = set js \<Longrightarrow> length res = length js"
  unfolding staged_def by (metis distinct_card length_map)

lemma staged_covers: "staged js res \<Longrightarrow> distinct js \<Longrightarrow> length res = length js \<Longrightarrow> set (map fst res) = set js"
  unfolding staged_def by (metis card_subset_eq distinct_card finite_set length_map)

lemma rerank_keys:
  assumes "rank_lib_ok lib" and "length docs = length ks"
  shows "set (map fst (rerank lib t docs ks)) = set ks"
    and "distinct ks \<Longrightarrow> distinct (map fst (rerank lib t docs ks))"
proof -
  have "mset (map fst (rerank lib t docs ks)) = mset ks"
    using assms by (cases "rl_cross lib") (simp_all add: rerank_def comp_def keys_by_score rank_lib_ok_def del: mset_map)
  then show "set (map fst (rerank lib t docs ks)) = set ks"
    and "distinct ks \<Longrightarrow> distinct (map fst (rerank lib t docs ks))"
    using mset_eq_setD mset_eq_imp_distinct_iff by blast+
qed

text \<open>Every stage passes on candidates only, each once; without embeddings none is lost before the final cut.\<close>

lemma retrieve_staged:
  assumes lib: "rank_lib_ok lib" and ix: "indexed pp" and mode: "rc_mode cfg \<noteq> CosineOnly"
  obtains js res out where "map ((!) (pp_entries pp)) js = apply_metadata_filter h (pp_entries pp) q"
    and "distinct js" and "retrieve lib cfg h pp now q = Inr out"
    and "map sc_entry out = map ((!) (pp_entries pp)) (map fst res)" and "staged js res"
    and "length res \<le> pipeline_k cfg q"
    and "rl_embed lib = None \<and> rc_mode cfg \<noteq> KeywordOnly \<longrightarrow> length res = min (pipeline_k cfg q) (length js)"
proof -
  let ?fs = "apply_metadata_filter h (pp_entries pp) q" and ?k = "pipeline_k cfg q"
  have d: "distinct (pp_entries pp)" and pi: "pp_index pp = index_of_entries (pp_entries pp)"
    using ix by (simp_all add: indexed_def)
  have sub: "set ?fs \<subseteq> set (pp_entries pp)" and df: "distinct ?fs"
    using d by (auto simp: apply_metadata_filter_def)
  from index_all_entries[OF d sub] obtain js where js: "index_all (pp_index pp) ?fs = Inr js" "map ((!) (pp_entries pp)) js = ?fs"
    unfolding pi by blast
  have dj: "distinct js" using df js(2) distinct_map by metis
  have entries: "map sc_entry (build_scored pp s xs) = map ((!) (pp_entries pp)) (map fst xs)"
    "map sc_entry (build_scored_stages pp b xs ds bs) = map ((!) (pp_entries pp)) (map fst xs)" for s xs b ds bs
    by (simp_all add: build_scored_def build_scored_stages_def comp_def case_prod_unfold)
  let ?dense = "dense_stage lib cfg h pp now q js"
  let ?bm25 = "if rc_bm25 cfg then lexical_query lib (pp_corpus pp) (rq_text q) (Some (map fst ?dense)) (max (rc_k_dense cfg) ?k) else []"
  let ?fuse = "if rc_bm25 cfg then rrf_fuse [?dense, ?bm25] (rc_rrf_k cfg) else ?dense"
  let ?fused = "take (max (rc_k_rrf cfg) ?k) ?fuse"
  let ?re = "if rc_rerank cfg then rerank lib (rq_text q) (map (\<lambda>(i, s). doc_text (h (pp_entries pp ! i))) ?fused) (map fst ?fused)
    else ?fused"
  have D: "staged js ?dense" by (rule dense_stage_staged[OF lib dj])
  have dd: "distinct (map fst ?dense)" using D by (simp add: staged_def)
  have B: "staged (map fst ?dense) ?bm25" by (simp add: staged_lexical[OF dd])
  have F0: "staged js ?fuse" using staged_rrf[OF D B] D by (cases "rc_bm25 cfg") simp_all
  have F: "staged js ?fused" by (rule staged_take[OF F0])
  have R: "staged js ?re" and Rs: "set (map fst ?re) = set (map fst ?fused)"
    using rerank_keys[OF lib, of "map (\<lambda>(i, s). doc_text (h (pp_entries pp ! i))) ?fused" "map fst ?fused"] F
    by (auto simp: staged_def)
  have full: "length ?dense = length js" "length ?fused = min (max (rc_k_rrf cfg) ?k) (length js)" "length ?re = length ?fused"
    if "rl_embed lib = None"
  proof -
    have d: "set (map fst ?dense) = set js" by (rule dense_stage_all[OF that])
    with staged_length[OF D dj] show "length ?dense = length js" by blast
    have "set (map fst ?fuse) = set js" using rrf_all[OF B] d by (cases "rc_bm25 cfg") simp_all
    with staged_length[OF F0 dj] show "length ?fused = min (max (rc_k_rrf cfg) ?k) (length js)" by (simp add: min.commute)
    show "length ?re = length ?fused" using distinct_card[of "map fst ?re"] distinct_card[of "map fst ?fused"] R F Rs
      unfolding staged_def by simp
  qed
  have le: "length (take ?k xs) \<le> ?k" for xs :: "(nat \<times> real) list" by simp
  have first: "length xs = n \<Longrightarrow> length (take ?k xs) = min ?k n"
    "length xs = min (max a ?k) n \<Longrightarrow> length (take ?k xs) = min ?k n" for xs :: "(nat \<times> real) list" and a n
    by auto
  have cut: "rl_embed lib = None \<and> rc_mode cfg \<noteq> KeywordOnly \<longrightarrow> length (take ?k ?dense) = min ?k (length js)"
    "rl_embed lib = None \<and> rc_mode cfg \<noteq> KeywordOnly \<longrightarrow> length (take ?k ?fused) = min ?k (length js)"
    "rl_embed lib = None \<and> rc_mode cfg \<noteq> KeywordOnly \<longrightarrow> length (take ?k ?re) = min ?k (length js)"
    using first(1)[OF full(1)] first(2)[OF full(2)] first(2)[OF trans[OF full(3) full(2)]] by blast+
  show thesis
  proof (cases "js = []")
    case True
    then have "retrieve lib cfg h pp now q = Inr []" using mode js(1) by (auto simp: retrieve_def keyword_only_def)
    then show thesis using that[of js "[]" "[]"] js(2) dj True by simp
  next
    case ne: False
    show thesis
    proof (cases "rc_mode cfg")
      case KeywordOnly
      let ?res = "lexical_query lib (pp_corpus pp) (rq_text q) (Some js) ?k"
      have "retrieve lib cfg h pp now q = Inr (build_scored pp ''bm25'' ?res)" "length ?res \<le> ?k"
        using KeywordOnly js(1) ne by (auto simp: retrieve_def keyword_only_def lexical_query_def Let_def split: option.split)
      then show thesis using that[of js _ ?res] js(2) dj staged_lexical[OF dj] entries(1) KeywordOnly by simp
    next
      case DenseOnly
      have "retrieve lib cfg h pp now q = Inr (build_scored pp ''dense'' (take ?k ?dense))"
        using DenseOnly js(1) ne by (simp add: retrieve_def Let_def build_scored_def take_map)
      from that[OF js(2) dj this entries(1) staged_take[OF D] le cut(1)] show thesis .
    next
      case NoRerank
      have "retrieve lib cfg h pp now q = Inr (build_scored_stages pp False (take ?k ?fused) ?dense ?bm25)"
        using NoRerank js(1) ne unfolding retrieve_def by (simp add: Let_def build_scored_stages_def take_map)
      from that[OF js(2) dj this entries(2) staged_take[OF F] le cut(2)] show thesis .
    next
      case FullMode
      have "retrieve lib cfg h pp now q = Inr (build_scored_stages pp True (take ?k ?re) ?dense ?bm25)"
        using FullMode js(1) ne unfolding retrieve_def by (simp add: Let_def build_scored_stages_def take_map)
      from that[OF js(2) dj this entries(2) staged_take[OF R] le cut(3)] show thesis .
    qed (use mode in simp)
  qed
qed

end
