(* ===== verification/Episodic_Memory.thy ===== *)
theory Episodic_Memory
  imports Retrieval Condition_Signature Abstract_Topology
begin

text \<open>
  The episodic memory of the planner (\<open>src/src/orion/llm/episodic_memory.py\<close>): the selective write, the
  two eviction policies, and retrieval with its two-term score, its floor and its telemetry, over the
  pipeline of \<open>Retrieval\<close>. Memory and pipeline share the entry objects of the heap. The record
  \<open>text_lib\<close> stands for \<open>json\<close> and number formatting; the uuid and the clock are arguments. Not
  modelled: saving to a file, the two prompt renderings, and \<open>_create_entry\<close>, which nothing calls.

  Theorems: recording and evicting keep memory and pipeline in step, within the size bound and by the
  declared policy; retrieval returns the best of the matching episodes above the floor; an episode that
  succeeded under the present condition is found again.
\<close>

section \<open>Entries\<close>

record topology_sig =
  ts_coverage :: "real list option"
  ts_nodes :: "real list option"
  ts_bw :: "real option"
  ts_domains :: "real option"
  ts_links :: "real option"

definition empty_topology :: topology_sig where
  "empty_topology = \<lparr>ts_coverage = None, ts_nodes = None, ts_bw = None, ts_domains = None, ts_links = None\<rparr>"

record text_lib =
  tl_condition :: "condition \<Rightarrow> string"
  tl_read_condition :: "string \<Rightarrow> condition option"
  tl_topology :: "topology_sig \<Rightarrow> string"
  tl_read_topology :: "string \<Rightarrow> topology_sig option"
  tl_fixed :: "nat \<Rightarrow> real \<Rightarrow> string"
  tl_ints :: "int list \<Rightarrow> string"

text \<open>The arguments of \<open>record\<close>; a dictionary that is only dumped is its JSON text.\<close>

record episode_in =
  ei_slice_type :: "string option"
  ei_slice :: string
  ei_plan :: string
  ei_cost :: real
  ei_violations :: "string list"
  ei_reward :: real
  ei_topology :: topology_sig
  ei_shape :: "(string \<times> string option) option"
  ei_tag :: "string option"
  ei_partition :: "int list option"
  ei_diverged :: "bool option"
  ei_condition :: condition

definition newline :: string where "newline = [CHR 0x0A]"

definition slice_type_of :: "episode_in \<Rightarrow> string" where
  "slice_type_of x = (case ei_slice_type x of None \<Rightarrow> ''unknown'' | Some t \<Rightarrow> t)"

definition outcome_label :: "episode_in \<Rightarrow> string" where
  "outcome_label x = (if ei_violations x = [] \<and> ei_reward x > 0 then ''success'' else ''failure'')"

definition opt_lines :: "('a \<Rightarrow> string) \<Rightarrow> 'a option \<Rightarrow> string list" where
  "opt_lines f x = (case x of None \<Rightarrow> [] | Some y \<Rightarrow> [f y])"

definition content_parts :: "text_lib \<Rightarrow> episode_in \<Rightarrow> string list" where
  "content_parts tx x =
     (if ei_condition x \<noteq> empty_condition then [''Condition: '' @ tl_condition tx (ei_condition x)] else [])
     @ (if ei_topology x \<noteq> empty_topology then [''Topology: '' @ tl_topology tx (ei_topology x)] else [])
     @ [''Slice: '' @ ei_slice x]
     @ opt_lines (\<lambda>(shape, strategy). ''PlanShape: '' @ shape) (ei_shape x)
     @ [''Plan: '' @ ei_plan x]
     @ [''Reward: '' @ tl_fixed tx 4 (ei_reward x), ''Committed cost: '' @ tl_fixed tx 2 (ei_cost x)]
     @ opt_lines (\<lambda>p. ''CommittedPartition: '' @ tl_ints tx p) (ei_partition x)
     @ opt_lines (\<lambda>d. ''Diverged: '' @ (if d then ''True'' else ''False'')) (ei_diverged x)
     @ (if ei_violations x \<noteq> [] then [''Violations: '' @ join_with '', '' (ei_violations x)] else [])
     @ (case ei_tag x of Some t \<Rightarrow> if t \<noteq> [] then [''ViolationTag: '' @ t] else [] | None \<Rightarrow> [])"

definition tag_if :: "string \<Rightarrow> string option \<Rightarrow> (string, string list) dict" where
  "tag_if k v = (case v of Some s \<Rightarrow> if s \<noteq> [] then [(k, [s])] else [] | None \<Rightarrow> [])"

definition entry_tags :: "episode_in \<Rightarrow> (string, string list) dict" where
  "entry_tags x =
     [(''label'', [outcome_label x]), (''slice_type'', [slice_type_of x])]
     @ tag_if ''violation'' (ei_tag x)
     @ (case ei_shape x of None \<Rightarrow> [] | Some (_, strategy) \<Rightarrow> tag_if ''strategy'' strategy)
     @ (case ei_diverged x of None \<Rightarrow> [] | Some d \<Rightarrow> [(''diverged'', [if d then ''yes'' else ''no''])])
     @ tag_if ''congestion'' (cd_bucket (ei_condition x)) @ tag_if ''load_level'' (cd_load_level (ei_condition x))"

definition new_entry :: "text_lib \<Rightarrow> string \<Rightarrow> real \<Rightarrow> episode_in \<Rightarrow> memory_entry" where
  "new_entry tx uid now x =
     \<lparr>me_id = uid, me_topic = outcome_label x @ '': '' @ slice_type_of x @ '' placement'',
      me_content = join_with newline (content_parts tx x), me_tags = entry_tags x,
      me_embedding = None, me_accessed = now, me_count = 0\<rparr>"

section \<open>Reading an entry back\<close>

fun split_lines :: "string \<Rightarrow> string \<Rightarrow> string list" where
  "split_lines [] cur = (if cur = [] then [] else [rev cur])"
| "split_lines (c # cs) cur = (if c = CHR 0x0A then rev cur # split_lines cs [] else split_lines cs (c # cur))"

definition starts_with :: "string \<Rightarrow> string \<Rightarrow> bool" where
  "starts_with p l \<longleftrightarrow> take (length p) l = p"

definition parse_tagged :: "'a \<Rightarrow> (string \<Rightarrow> 'a option) \<Rightarrow> string \<Rightarrow> string \<Rightarrow> 'a" where
  "parse_tagged none loads p content =
     (case List.find (starts_with p) (split_lines content []) of
        None \<Rightarrow> none
      | Some l \<Rightarrow> (case loads (drop (length p) l) of None \<Rightarrow> none | Some v \<Rightarrow> v))"

definition parse_condition :: "text_lib \<Rightarrow> string \<Rightarrow> condition" where
  "parse_condition tx = parse_tagged empty_condition (tl_read_condition tx) ''Condition: ''"

definition parse_topology :: "text_lib \<Rightarrow> string \<Rightarrow> topology_sig" where
  "parse_topology tx = parse_tagged empty_topology (tl_read_topology tx) ''Topology: ''"

section \<open>The score\<close>

definition containment :: "string set \<Rightarrow> string set \<Rightarrow> real" where
  "containment q d = (if q = {} \<or> d = {} then 0 else real (card (q \<inter> d)) / real (card q))"

definition list_feature :: "(real list \<Rightarrow> real) \<Rightarrow> real list option \<Rightarrow> real option" where
  "list_feature f v = (case v of Some xs \<Rightarrow> if xs \<noteq> [] then Some (f xs) else None | None \<Rightarrow> None)"

definition nonzero :: "real option \<Rightarrow> real option" where
  "nonzero v = (case v of Some x \<Rightarrow> if x \<noteq> 0 then Some x else None | None \<Rightarrow> None)"

definition topology_feats :: "(real option \<times> real) list \<Rightarrow> real option list \<Rightarrow> real list" where
  "topology_feats fa fb =
     List.map_filter (\<lambda>((va, scale), vb). case (va, vb) of
         (Some x, Some y) \<Rightarrow> Some (max 0 (1 - \<bar>x - y\<bar> / scale)) | _ \<Rightarrow> None) (zip fa fb)"

definition topology_accessors :: "topology_sig \<Rightarrow> (real option \<times> real) list" where
  "topology_accessors d =
     [(list_feature (\<lambda>tc. sum_list tc / real (length tc)) (ts_coverage d), 1),
      (list_feature sum_list (ts_nodes d), 45), (ts_bw d, 900), (nonzero (ts_domains d), 8), (nonzero (ts_links d), 40)]"

definition topology_similarity :: "topology_sig \<Rightarrow> topology_sig \<Rightarrow> real" where
  "topology_similarity a b =
     (if a = empty_topology \<or> b = empty_topology then 0
      else let sims = topology_feats (topology_accessors a) (map fst (topology_accessors b))
           in if sims = [] then 0 else sum_list sims / real (length sims))"

definition retrieval_lambda :: real where "retrieval_lambda = 1 / 2"

definition retrieval_floor :: real where "retrieval_floor = 6 / 10"

definition retrieval_floor_legacy :: real where "retrieval_floor_legacy = 5 / 10"

definition combined_score :: "text_lib \<Rightarrow> bool \<Rightarrow> string \<Rightarrow> condition option \<Rightarrow> topology_sig option \<Rightarrow> memory_entry \<Rightarrow> real" where
  "combined_score tx graded query cond topo e =
     (let f_task = containment (set (telecom_tokenize query)) (set (telecom_tokenize (me_content e)));
          f_state = (case (cond, topo) of
              (Some c, _) \<Rightarrow> Some (condition_similarity graded c (parse_condition tx (me_content e)))
            | (None, Some t) \<Rightarrow> Some (topology_similarity t (parse_topology tx (me_content e)))
            | (None, None) \<Rightarrow> None)
      in case f_state of None \<Rightarrow> f_task
         | Some s \<Rightarrow> retrieval_lambda * f_task + (1 - retrieval_lambda) * s)"

section \<open>The memory\<close>

record memory_config =
  mc_retrieval :: retrieval_config
  mc_max :: nat
  mc_write :: string
  mc_evict :: string

definition default_memory :: memory_config where
  "default_memory = \<lparr>mc_retrieval = default_retrieval\<lparr>rc_mode := NoRerank, rc_recency := True, rc_k_final := 3\<rparr>,
     mc_max = 500, mc_write = ''selective'', mc_evict = ''importance''\<rparr>"

record retrieval_log =
  rl_n :: nat
  rl_max :: "real option"
  rl_best :: "real option"
  rl_floor :: "real option"
  rl_abstained :: bool

record memory =
  em_heap :: "entry_ref \<Rightarrow> memory_entry"
  em_next :: entry_ref
  em_entries :: "entry_ref list"
  em_pipe :: pipeline
  em_log :: "retrieval_log list"
  em_scores :: "real list"
  em_abstained :: bool
  em_last :: "(nat \<times> nat \<times> nat) option"

definition new_memory :: "memory_config \<Rightarrow> py_error + memory" where
  "new_memory cfg =
     (if mc_write cfg \<notin> {''selective'', ''write_all''} \<or> mc_evict cfg \<notin> {''importance'', ''fifo''} then Inl AssertionError
      else Inr \<lparr>em_heap = (\<lambda>_. undefined), em_next = 0, em_entries = [], em_pipe = new_pipeline, em_log = [],
             em_scores = [], em_abstained = False, em_last = None\<rparr>)"

definition should_record :: "real \<Rightarrow> string list \<Rightarrow> bool" where
  "should_record reward violations \<longleftrightarrow> violations \<noteq> [] \<or> reward \<ge> 8 / 10 \<or> reward \<le> - (5 / 10)"

definition importance :: "memory_config \<Rightarrow> real \<Rightarrow> memory_entry \<Rightarrow> real" where
  "importance cfg now e =
     exp (- rc_tau (mc_retrieval cfg) * (now - me_accessed e)) * (1 + ln (1 + real (me_count e)))"

definition removals :: "memory_config \<Rightarrow> real \<Rightarrow> (entry_ref \<Rightarrow> memory_entry) \<Rightarrow> entry_ref list \<Rightarrow> nat list" where
  "removals cfg now h rs =
     (let n = max 1 (length rs div 10) in
      if mc_evict cfg = ''fifo'' then [0..<n]
      else map fst (take n (sort_key snd (map (\<lambda>i. (i, importance cfg now (h (rs ! i)))) [0..<length rs]))))"

definition evict :: "rank_lib \<Rightarrow> memory_config \<Rightarrow> real \<Rightarrow> memory \<Rightarrow> py_error + memory" where
  "evict lib cfg now m =
     (let rs = em_entries m; gone = removals cfg now (em_heap m) rs;
          ids = map (\<lambda>i. me_id (em_heap m (rs ! i))) gone
      in case fold_err (\<lambda>x. remove_entry lib (mc_retrieval cfg) (em_heap m) x) ids (em_pipe m) of
           Inl e \<Rightarrow> Inl e
         | Inr pp \<Rightarrow> Inr (m\<lparr>em_entries := map ((!) rs) (filter (\<lambda>i. i \<notin> set gone) [0..<length rs]), em_pipe := pp\<rparr>))"

definition store :: "rank_lib \<Rightarrow> memory_config \<Rightarrow> memory_entry \<Rightarrow> memory \<Rightarrow> py_error + memory" where
  "store lib cfg e m =
     (let r = em_next m in
      map_sum id (\<lambda>(h, pp). m\<lparr>em_heap := h, em_next := r + 1, em_entries := em_entries m @ [r], em_pipe := pp\<rparr>)
        (add_entry lib (mc_retrieval cfg) r ((em_heap m)(r := e), em_pipe m)))"

definition record_episode :: "rank_lib \<Rightarrow> text_lib \<Rightarrow> memory_config \<Rightarrow> string \<Rightarrow> real \<Rightarrow> episode_in \<Rightarrow> memory
    \<Rightarrow> py_error + (bool \<times> memory)" where
  "record_episode lib tx cfg uid now x m =
     (if mc_write cfg = ''selective'' \<and> \<not> should_record (ei_reward x) (ei_violations x) then Inr (False, m)
      else case store lib cfg (new_entry tx uid now x) m of
          Inl e \<Rightarrow> Inl e
        | Inr m1 \<Rightarrow>
            if length (em_entries m1) > mc_max cfg then map_sum id (Pair True) (evict lib cfg now m1)
            else Inr (True, m1))"

text \<open>\<open>load\<close>, from the decoded list of entries: new objects for all of them.\<close>

definition load_entries :: "rank_lib \<Rightarrow> memory_config \<Rightarrow> memory_entry list \<Rightarrow> memory \<Rightarrow> py_error + memory" where
  "load_entries lib cfg es m =
     (let rs = map ((+) (em_next m)) [0..<length es];
          h = fold (\<lambda>(r, e) h. h(r := e)) (zip rs es) (em_heap m)
      in map_sum id (\<lambda>(h', pp). m\<lparr>em_heap := h', em_next := em_next m + length es, em_entries := rs, em_pipe := pp\<rparr>)
           (build lib (mc_retrieval cfg) rs (h, em_pipe m)))"

section \<open>Retrieval\<close>

datatype floor_choice = AutoFloor | NoFloor | FloorAt real

definition chosen_floor :: "floor_choice \<Rightarrow> condition option \<Rightarrow> real option" where
  "chosen_floor f cond =
     (case f of AutoFloor \<Rightarrow> Some (if cond \<noteq> None then retrieval_floor else retrieval_floor_legacy)
      | NoFloor \<Rightarrow> None | FloorAt x \<Rightarrow> Some x)"

definition is_success :: "memory_entry \<Rightarrow> bool" where
  "is_success e \<longleftrightarrow> (case map_of (me_tags e) ''label'' of Some (l # _) \<Rightarrow> l = ''success'' | _ \<Rightarrow> False)"

definition pool_size :: "nat \<Rightarrow> nat" where
  "pool_size top_k = max (top_k * 8) 24"

definition rescored :: "real \<times> scored_entry \<Rightarrow> scored_entry" where
  "rescored = (\<lambda>(s, se). se\<lparr>sc_score := s,
     sc_stages := AList.update ''combined'' (Some s) (AList.update ''pipeline'' (Some (sc_score se)) (sc_stages se))\<rparr>)"

text \<open>The telemetry and the access metadata that a retrieval leaves behind.\<close>

definition note_retrieval :: "real \<Rightarrow> real option \<Rightarrow> (real \<times> scored_entry) list \<Rightarrow> (real \<times> scored_entry) list \<Rightarrow> memory \<Rightarrow> memory" where
  "note_retrieval now fl ranked kept m =
     (let out = map rescored kept;
          best = (case ranked of [] \<Rightarrow> None | (s, _) # _ \<Rightarrow> Some s);
          row = \<lparr>rl_n = length kept,
            rl_max = (case kept of [] \<Rightarrow> None | (s, _) # _ \<Rightarrow> Some (py_round s 4)),
            rl_best = map_option (\<lambda>s. py_round s 4) best, rl_floor = map_option (\<lambda>x. py_round x 4) fl,
            rl_abstained = (kept = [])\<rparr>;
          pos = length (filter (\<lambda>se. is_success (em_heap m (sc_entry se))) out)
      in m\<lparr>em_heap := fold (\<lambda>se h. update_access now (me_id (h (sc_entry se))) (em_pipe m) h) out (em_heap m),
           em_scores := map (\<lambda>(s, se). py_round s 4) kept, em_abstained := (kept = []),
           em_log := em_log m @ [row], em_last := Some (length out, pos, length out - pos)\<rparr>)"

definition retrieve_episodes :: "rank_lib \<Rightarrow> text_lib \<Rightarrow> memory_config \<Rightarrow> bool \<Rightarrow> real \<Rightarrow> string \<Rightarrow> (string, string list) dict
    \<Rightarrow> nat \<Rightarrow> topology_sig option \<Rightarrow> bool \<Rightarrow> floor_choice \<Rightarrow> condition option \<Rightarrow> memory
    \<Rightarrow> py_error + (scored_entry list \<times> memory)" where
  "retrieve_episodes lib tx cfg graded now query filters top_k topo successes_only min_score cond m =
     (let h = em_heap m;
          rq = \<lparr>rq_text = query, rq_filters = filters, rq_top_k = Some (pool_size top_k)\<rparr>
      in case retrieve lib (mc_retrieval cfg) h (em_pipe m) now rq of
          Inl e \<Rightarrow> Inl e
        | Inr scored0 \<Rightarrow>
          let scored = (if successes_only then filter (\<lambda>se. is_success (h (sc_entry se))) scored0 else scored0);
              ranked = sort_key (\<lambda>x. - fst x)
                (map (\<lambda>se. (combined_score tx graded query cond topo (h (sc_entry se)), se)) scored);
              fl = chosen_floor min_score cond;
              above = (case fl of None \<Rightarrow> ranked | Some x \<Rightarrow> filter (\<lambda>(s, se). s \<ge> x) ranked);
              kept = take top_k above
          in Inr (map rescored kept, note_retrieval now fl ranked kept m))"

record retrieval_stats_row =
  rs_calls :: nat
  rs_abstain_rate :: real
  rs_mean_returned :: real
  rs_mean_fired :: "real option"
  rs_floor :: "real option"
  rs_missed_n :: nat
  rs_missed_p50 :: "real option"
  rs_missed_p90 :: "real option"
  rs_missed_max :: "real option"

definition missed_quantile :: "real list \<Rightarrow> real \<Rightarrow> real option" where
  "missed_quantile missed p =
     (if missed = [] then None
      else Some (py_round (missed ! min (length missed - 1) (nat \<lfloor>p * real (length missed)\<rfloor>)) 4))"

text \<open>\<open>None\<close> stands for \<open>{"calls": 0}\<close>.\<close>

definition retrieval_stats :: "memory \<Rightarrow> retrieval_stats_row option" where
  "retrieval_stats m =
     (let lg = em_log m; n = real (length lg);
          fired = List.map_filter (\<lambda>r. if rl_abstained r then None else rl_max r) lg;
          missed = sort (List.map_filter (\<lambda>r. if rl_abstained r then rl_best r else None) lg)
      in if lg = [] then None
         else Some \<lparr>rs_calls = length lg, rs_abstain_rate = py_round (real (length (filter rl_abstained lg)) / n) 3,
           rs_mean_returned = py_round (real (sum_list (map rl_n lg)) / n) 2,
           rs_mean_fired = (if fired = [] then None else Some (py_round (sum_list fired / real (length fired)) 4)),
           rs_floor = rl_floor (last lg), rs_missed_n = length missed,
           rs_missed_p50 = missed_quantile missed (50 / 100), rs_missed_p90 = missed_quantile missed (90 / 100),
           rs_missed_max = (if missed = [] then None else Some (last missed))\<rparr>)"

definition reset_retrieval_log :: "memory \<Rightarrow> memory" where
  "reset_retrieval_log m = m\<lparr>em_log := []\<rparr>"

section \<open>Memory and pipeline stay in step\<close>

definition memory_ok :: "memory \<Rightarrow> bool" where
  "memory_ok m \<longleftrightarrow> indexed (em_pipe m) \<and> pp_entries (em_pipe m) = em_entries m
     \<and> (\<forall>r \<in> set (em_entries m). r < em_next m)
     \<and> distinct (map (\<lambda>r. me_id (em_heap m r)) (em_entries m))"

definition bm25_ok :: "rank_lib \<Rightarrow> memory_config \<Rightarrow> bool" where
  "bm25_ok lib cfg \<longleftrightarrow> (rc_bm25 (mc_retrieval cfg) \<longrightarrow> rl_bm25 lib \<noteq> None)"

lemma rebuild_total:
  assumes "rc_bm25 cfg \<longrightarrow> rl_bm25 lib \<noteq> None"
  shows "\<exists>pp'. rebuild_indices lib cfg h pp = Inr pp' \<and> pp_entries pp' = pp_entries pp
    \<and> pp_index pp' = index_of_entries (pp_entries pp)"
  using assms by (auto simp: rebuild_indices_def build_lexical_def Let_def)

lemma embed_missing_other: "k \<noteq> r \<Longrightarrow> embed_missing lib r h k = h k"
  by (simp add: embed_missing_def split: option.split)

lemma embed_missing_fields:
  "me_id (embed_missing lib r h k) = me_id (h k)" "me_tags (embed_missing lib r h k) = me_tags (h k)"
  "me_content (embed_missing lib r h k) = me_content (h k)" "me_accessed (embed_missing lib r h k) = me_accessed (h k)"
  "me_count (embed_missing lib r h k) = me_count (h k)"
  by (auto simp: embed_missing_def split: option.split)

lemma store_ok:
  assumes ok: "memory_ok m" and lib: "bm25_ok lib cfg" and new: "me_id e \<notin> (\<lambda>r. me_id (em_heap m r)) ` set (em_entries m)"
  obtains m' where "store lib cfg e m = Inr m'" and "memory_ok m'" and "em_entries m' = em_entries m @ [em_next m]"
    and "\<And>r. r \<noteq> em_next m \<Longrightarrow> em_heap m' r = em_heap m r"
    and "me_content (em_heap m' (em_next m)) = me_content e" and "me_tags (em_heap m' (em_next m)) = me_tags e"
    and "em_next m' = em_next m + 1" and "em_log m' = em_log m"
proof -
  let ?r = "em_next m" and ?cfg = "mc_retrieval cfg"
  let ?h = "embed_missing lib ?r ((em_heap m)(?r := e))"
  obtain pp where pp: "rebuild_indices lib ?cfg ?h ((em_pipe m)\<lparr>pp_entries := pp_entries (em_pipe m) @ [?r]\<rparr>) = Inr pp"
    "pp_entries pp = em_entries m @ [?r]" "pp_index pp = index_of_entries (em_entries m @ [?r])"
    using rebuild_total[OF lib[unfolded bm25_ok_def], of ?h "(em_pipe m)\<lparr>pp_entries := pp_entries (em_pipe m) @ [?r]\<rparr>"] ok
    by (auto simp: memory_ok_def)
  let ?m = "m\<lparr>em_heap := ?h, em_next := ?r + 1, em_entries := em_entries m @ [?r], em_pipe := pp\<rparr>"
  have fresh: "?r \<notin> set (em_entries m)" using ok by (auto simp: memory_ok_def)
  have old: "?h r = em_heap m r" if "r \<noteq> ?r" for r using that by (simp add: embed_missing_other)
  have ids: "map (\<lambda>r. me_id (?h r)) (em_entries m) = map (\<lambda>r. me_id (em_heap m r)) (em_entries m)"
    using fresh by (intro map_cong[OF refl]) (auto simp: embed_missing_fields)
  have "distinct (map (\<lambda>r. me_id (?h r)) (em_entries m @ [?r]))"
    unfolding map_append ids using ok new by (simp add: memory_ok_def embed_missing_fields)
  then have "memory_ok ?m"
    using ok fresh pp(2,3) unfolding memory_ok_def by (auto simp: indexed_def intro: less_SucI)
  then show thesis using that[of ?m] old pp(1)
    by (simp add: store_def add_entry_def Let_def embed_missing_fields)
qed

lemma removals_below:
  assumes "rs \<noteq> []"
  shows "set (removals cfg now h rs) \<subseteq> {..<length rs}" and "length (removals cfg now h rs) = max 1 (length rs div 10)"
    and "distinct (removals cfg now h rs)"
proof -
  let ?n = "max 1 (length rs div 10)"
  let ?S = "sort_key snd (map (\<lambda>i. (i, importance cfg now (h (rs ! i)))) [0..<length rs])"
  have n: "?n \<le> length rs" using assms by (cases rs) auto
  have S: "set (map fst ?S) = {..<length rs}" "distinct (map fst ?S)"
  proof -
    have "mset (map fst ?S) = mset (map fst (map (\<lambda>i. (i, importance cfg now (h (rs ! i)))) [0..<length rs]))"
      by (simp only: mset_map mset_sort)
    also have "\<dots> = mset [0..<length rs]" by (simp only: map_map comp_def fst_conv map_ident)
    finally have "mset (map fst ?S) = mset [0..<length rs]" .
    then show "set (map fst ?S) = {..<length rs}" "distinct (map fst ?S)"
      using mset_eq_setD mset_eq_imp_distinct_iff by fastforce+
  qed
  have "set (map fst (take ?n ?S)) \<subseteq> {..<length rs}" unfolding take_map[symmetric] S(1)[symmetric] by (rule set_take_subset)
  moreover have "distinct (map fst (take ?n ?S))" unfolding take_map[symmetric] by (rule distinct_take[OF S(2)])
  ultimately show "set (removals cfg now h rs) \<subseteq> {..<length rs}" "distinct (removals cfg now h rs)"
    and "length (removals cfg now h rs) = ?n"
    using n by (auto simp: removals_def Let_def)
qed

lemma remove_entries:
  assumes "rc_bm25 cfg \<longrightarrow> rl_bm25 lib \<noteq> None" and "indexed pp"
  obtains pp' where "fold_err (\<lambda>x. remove_entry lib cfg h x) ids pp = Inr pp'" and "indexed pp'"
    and "pp_entries pp' = filter (\<lambda>r. me_id (h r) \<notin> set ids) (pp_entries pp)"
proof -
  have "\<exists>pp'. fold_err (\<lambda>x. remove_entry lib cfg h x) ids pp = Inr pp' \<and> indexed pp'
      \<and> pp_entries pp' = filter (\<lambda>r. me_id (h r) \<notin> set ids) (pp_entries pp)"
    using assms(2)
  proof (induction ids arbitrary: pp)
    case (Cons x ids)
    obtain pp1 where 1: "remove_entry lib cfg h x pp = Inr pp1"
      "pp_entries pp1 = filter (\<lambda>r. me_id (h r) \<noteq> x) (pp_entries pp)" "pp_index pp1 = index_of_entries (pp_entries pp1)"
      using rebuild_total[OF assms(1), of h "pp\<lparr>pp_entries := filter (\<lambda>r. me_id (h r) \<noteq> x) (pp_entries pp)\<rparr>"]
      by (auto simp: remove_entry_def)
    have "indexed pp1" using Cons.prems 1 by (simp add: indexed_def)
    from Cons.IH[OF this] 1 show ?case by (auto intro: filter_cong)
  qed simp
  with that show thesis by blast
qed

lemma filter_nth: "filter P xs = map ((!) xs) (filter (\<lambda>i. P (xs ! i)) [0..<length xs])"
  using filter_map[of P "(!) xs" "[0..<length xs]"] unfolding map_nth comp_def .

lemma evict_ok:
  assumes ok: "memory_ok m" and lib: "bm25_ok lib cfg" and ne: "em_entries m \<noteq> []"
  obtains m' where "evict lib cfg now m = Inr m'" and "memory_ok m'" and "em_heap m' = em_heap m"
    and "em_entries m' = map ((!) (em_entries m)) (filter (\<lambda>i. i \<notin> set (removals cfg now (em_heap m) (em_entries m))) [0..<length (em_entries m)])"
proof -
  let ?rs = "em_entries m" and ?h = "em_heap m"
  let ?gone = "removals cfg now ?h ?rs"
  let ?ids = "map (\<lambda>i. me_id (?h (?rs ! i))) ?gone"
  let ?new = "map ((!) ?rs) (filter (\<lambda>i. i \<notin> set ?gone) [0..<length ?rs])"
  have pe: "pp_entries (em_pipe m) = ?rs" and ix: "indexed (em_pipe m)" and di: "distinct (map (\<lambda>r. me_id (?h r)) ?rs)"
    using ok by (simp_all add: memory_ok_def)
  obtain pp where pp: "fold_err (\<lambda>x. remove_entry lib (mc_retrieval cfg) ?h x) ?ids (em_pipe m) = Inr pp" "indexed pp"
    "pp_entries pp = filter (\<lambda>r. me_id (?h r) \<notin> set ?ids) ?rs"
    using remove_entries[OF lib[unfolded bm25_ok_def] ix, of ?h ?ids] pe by metis
  have "me_id (?h (?rs ! i)) \<in> set ?ids \<longleftrightarrow> i \<in> set ?gone" if "i < length ?rs" for i
    using that di removals_below(1)[OF ne, of cfg now ?h] nth_eq_iff_index_eq[OF di] by fastforce
  then have same: "filter (\<lambda>r. me_id (?h r) \<notin> set ?ids) ?rs = ?new"
    unfolding filter_nth[of _ ?rs] by (intro arg_cong[of _ _ "map ((!) ?rs)"] filter_cong) auto
  let ?m = "m\<lparr>em_entries := ?new, em_pipe := pp\<rparr>"
  have "memory_ok ?m"
    using ok pp(2) unfolding memory_ok_def same[symmetric] by (auto simp: pp(3) distinct_map_filter)
  then show thesis using that[of ?m] pp(1) by (simp add: evict_def Let_def)
qed

lemma sorted_split: "sorted (map f (xs @ ys)) \<Longrightarrow> p \<in> set xs \<Longrightarrow> q \<in> set ys \<Longrightarrow> f p \<le> f q"
  by (simp add: sorted_append)

lemma upt_from: "filter (\<lambda>i. \<not> i < n) [0..<m] = [n..<m]"
  by (induction m) auto

lemma removals_least:
  assumes evict: "mc_evict cfg \<noteq> ''fifo''" and i: "i \<in> set (removals cfg now h rs)"
    and j: "j < length rs" "j \<notin> set (removals cfg now h rs)"
  shows "importance cfg now (h (rs ! i)) \<le> importance cfg now (h (rs ! j))"
proof -
  let ?n = "max 1 (length rs div 10)"
  let ?xs = "map (\<lambda>i. (i, importance cfg now (h (rs ! i)))) [0..<length rs]"
  let ?S = "sort_key snd ?xs"
  have gone: "removals cfg now h rs = map fst (take ?n ?S)" using evict by (simp add: removals_def Let_def)
  have snd: "snd p = importance cfg now (h (rs ! fst p))" if "p \<in> set ?S" for p using that by auto
  from i gone obtain p where p: "p \<in> set (take ?n ?S)" "fst p = i" by auto
  let ?q = "(j, importance cfg now (h (rs ! j)))"
  have "?q \<in> set (take ?n ?S) \<union> set (drop ?n ?S)"
    unfolding set_append[symmetric] append_take_drop_id using j(1) by simp
  moreover have "?q \<notin> set (take ?n ?S)" using j(2) gone by force
  ultimately have q: "?q \<in> set (drop ?n ?S)" by blast
  have "sorted (map snd (take ?n ?S @ drop ?n ?S))" unfolding append_take_drop_id by (rule sorted_sort_key)
  from sorted_split[OF this p(1) q] have "snd p \<le> snd ?q" .
  then show ?thesis using snd[OF in_set_takeD[OF p(1)]] p(2) by simp
qed

text \<open>What an eviction by importance leaves of the entries \<open>rs\<close>.\<close>

definition least_dropped :: "memory_config \<Rightarrow> real \<Rightarrow> memory \<Rightarrow> entry_ref list \<Rightarrow> bool" where
  "least_dropped cfg now m rs \<longleftrightarrow>
     (\<exists>gone. distinct gone \<and> set gone \<subseteq> set rs \<and> length gone = max 1 (length rs div 10)
        \<and> em_entries m = filter (\<lambda>r. r \<notin> set gone) rs
        \<and> (\<forall>r \<in> set gone. \<forall>k \<in> set (em_entries m). importance cfg now (em_heap m r) \<le> importance cfg now (em_heap m k)))"

lemma evict_policy:
  assumes d: "distinct rs" "rs \<noteq> []" and m: "em_heap m' = h"
    and es: "em_entries m' = map ((!) rs) (filter (\<lambda>i. i \<notin> set (removals cfg now h rs)) [0..<length rs])"
  shows "mc_evict cfg = ''fifo'' \<Longrightarrow> em_entries m' = drop (max 1 (length rs div 10)) rs"
    and "mc_evict cfg \<noteq> ''fifo'' \<Longrightarrow> least_dropped cfg now m' rs"
    and "length (em_entries m') < length rs"
proof -
  let ?gone = "removals cfg now h rs" and ?n = "max 1 (length rs div 10)"
  note R = removals_below[OF d(2), of cfg now h]
  show "em_entries m' = drop ?n rs" if "mc_evict cfg = ''fifo''"
  proof -
    have gone: "set ?gone = {..<?n}" using that by (auto simp: removals_def Let_def)
    have "filter (\<lambda>i. i \<notin> set ?gone) [0..<length rs] = [?n..<length rs]"
      unfolding gone lessThan_iff by (rule upt_from)
    moreover have "drop ?n (map ((!) rs) [0..<length rs]) = map ((!) rs) [?n..<length rs]"
      by (simp only: drop_map drop_upt add_0)
    ultimately show ?thesis unfolding es by (simp only: map_nth)
  qed
  show "length (em_entries m') < length rs"
  proof -
    have "0 < length ?gone" using R(2) by simp
    then obtain i where "i \<in> set ?gone" by (cases ?gone) auto
    with R(1) have "i \<in> set [0..<length rs]" "\<not> i \<notin> set ?gone" by auto
    then show ?thesis unfolding es using length_filter_less[of i "[0..<length rs]" "\<lambda>i. i \<notin> set ?gone"] by simp
  qed
  show "least_dropped cfg now m' rs" if fifo: "mc_evict cfg \<noteq> ''fifo''"
    unfolding least_dropped_def
  proof (intro exI[of _ "map ((!) rs) ?gone"] conjI ballI)
    have inj: "inj_on ((!) rs) {..<length rs}" using d(1) by (auto simp: inj_on_def nth_eq_iff_index_eq)
    show "distinct (map ((!) rs) ?gone)" using R(1,3) inj by (auto simp: distinct_map intro: inj_on_subset)
    show "set (map ((!) rs) ?gone) \<subseteq> set rs" using R(1) by (auto dest!: subsetD)
    show "length (map ((!) rs) ?gone) = ?n" using R(2) by simp
    have "rs ! i \<in> set (map ((!) rs) ?gone) \<longleftrightarrow> i \<in> set ?gone" if "i < length rs" for i
      using that inj R(1) by (auto simp: inj_on_def)
    then show "em_entries m' = filter (\<lambda>r. r \<notin> set (map ((!) rs) ?gone)) rs"
      unfolding es filter_nth[of _ rs] by (intro arg_cong[of _ _ "map ((!) rs)"] filter_cong) auto
  next
    fix r k assume "r \<in> set (map ((!) rs) ?gone)" and "k \<in> set (em_entries m')"
    then obtain i j where "i \<in> set ?gone" "r = rs ! i" "j < length rs" "j \<notin> set ?gone" "k = rs ! j" by (auto simp: es)
    then show "importance cfg now (em_heap m' r) \<le> importance cfg now (em_heap m' k)"
      using removals_least[OF fifo] by (simp add: m)
  qed
qed

text \<open>
  C25: recording. From a memory in step with its pipeline and within its bound, recording an episode
  under a fresh id never raises and ends in such a memory; the episode is stored exactly when the write
  policy says so; below the bound the store grows by it, and at the bound the eviction policy decides:
  first-in-first-out drops the oldest entries, importance drops a tenth, none more important than any
  entry that is kept.
\<close>

theorem record_keeps_memory:
  assumes ok: "memory_ok m" and lib: "bm25_ok lib cfg" and size: "length (em_entries m) \<le> mc_max cfg" "0 < mc_max cfg"
    and uid: "uid \<notin> (\<lambda>r. me_id (em_heap m r)) ` set (em_entries m)"
  shows "\<exists>b m'. record_episode lib tx cfg uid now x m = Inr (b, m') \<and> memory_ok m' \<and> length (em_entries m') \<le> mc_max cfg
    \<and> (b \<longleftrightarrow> mc_write cfg \<noteq> ''selective'' \<or> should_record (ei_reward x) (ei_violations x))
    \<and> (if \<not> b then m' = m
       else if length (em_entries m) < mc_max cfg then em_entries m' = em_entries m @ [em_next m]
       else if mc_evict cfg = ''fifo''
         then em_entries m' = drop (max 1 ((mc_max cfg + 1) div 10)) (em_entries m @ [em_next m])
       else least_dropped cfg now m' (em_entries m @ [em_next m]))"
proof (cases "mc_write cfg = ''selective'' \<and> \<not> should_record (ei_reward x) (ei_violations x)")
  case True
  then show ?thesis using ok size by (intro exI[of _ False] exI[of _ m]) (simp add: record_episode_def)
next
  case False
  have "me_id (new_entry tx uid now x) \<notin> (\<lambda>r. me_id (em_heap m r)) ` set (em_entries m)" using uid by (simp add: new_entry_def)
  from store_ok[OF ok lib this] obtain m1 where m1: "store lib cfg (new_entry tx uid now x) m = Inr m1" "memory_ok m1"
    "em_entries m1 = em_entries m @ [em_next m]" by metis
  show ?thesis
  proof (cases "length (em_entries m) < mc_max cfg")
    case True
    then show ?thesis using False m1 by (intro exI[of _ True] exI[of _ m1]) (auto simp: record_episode_def)
  next
    case full: False
    have ne: "em_entries m1 \<noteq> []" and len: "length (em_entries m1) = mc_max cfg + 1" using m1(3) full size by simp_all
    have d: "distinct (em_entries m1)" using m1(2) by (auto simp: memory_ok_def indexed_def)
    from evict_ok[OF m1(2) lib ne, of now] obtain m' where m': "evict lib cfg now m1 = Inr m'" "memory_ok m'" "em_heap m' = em_heap m1"
      "em_entries m' = map ((!) (em_entries m1)) (filter (\<lambda>i. i \<notin> set (removals cfg now (em_heap m1) (em_entries m1))) [0..<length (em_entries m1)])"
      by metis
    note P = evict_policy[OF d ne m'(3,4)]
    show ?thesis using False full m1(1) m' P len
      by (intro exI[of _ True] exI[of _ m']) (auto simp: record_episode_def m1(3)[symmetric])
  qed
qed

section \<open>What retrieval returns\<close>

lemma update_access_fields:
  "me_id (update_access now i pp h k) = me_id (h k)" "me_tags (update_access now i pp h k) = me_tags (h k)"
  "me_content (update_access now i pp h k) = me_content (h k)"
  by (auto simp: update_access_def split: option.split)

lemma accesses_fields:
  "me_id (fold (\<lambda>se h. update_access now (f se h) pp h) out h k) = me_id (h k)"
  by (induction out arbitrary: h) (simp_all add: update_access_fields)

lemma noted:
  "me_id (em_heap (note_retrieval now fl ranked kept m) r) = me_id (em_heap m r)"
  "em_next (note_retrieval now fl ranked kept m) = em_next m"
  "em_entries (note_retrieval now fl ranked kept m) = em_entries m"
  "em_pipe (note_retrieval now fl ranked kept m) = em_pipe m"
  "em_abstained (note_retrieval now fl ranked kept m) \<longleftrightarrow> kept = []"
  by (simp_all add: note_retrieval_def Let_def accesses_fields)

lemma metadata_filter: "apply_metadata_filter h rs q = filter (\<lambda>r. entry_matches (h r) (rq_filters q)) rs"
  by (simp add: apply_metadata_filter_def entry_matches_def)

definition clears :: "real option \<Rightarrow> real \<Rightarrow> bool" where
  "clears fl s \<longleftrightarrow> (case fl of None \<Rightarrow> True | Some x \<Rightarrow> x \<le> s)"

text \<open>The best \<open>k\<close> of a list by a score, those that clear the floor.\<close>

lemma best_kept:
  assumes kept: "kept = take k (filter (\<lambda>(s, se). clears fl s) (sort_key (\<lambda>x. - fst x) (map (\<lambda>se. (g se, se)) xs)))"
  shows "length kept \<le> k" and "sorted_wrt (\<lambda>a b. fst b \<le> fst a) kept"
    and "p \<in> set kept \<Longrightarrow> snd p \<in> set xs \<and> fst p = g (snd p) \<and> clears fl (fst p)"
    and "x \<in> set xs \<Longrightarrow> clears fl (g x) \<Longrightarrow> (g x, x) \<in> set kept \<or> length kept = k \<and> (\<forall>p \<in> set kept. g x \<le> fst p)"
    and "distinct (map f xs) \<Longrightarrow> distinct (map (f \<circ> snd) kept)"
proof -
  let ?R = "sort_key (\<lambda>x. - fst x) (map (\<lambda>se. (g se, se)) xs)"
  let ?A = "filter (\<lambda>(s, se). clears fl s) ?R"
  show "length kept \<le> k" by (simp add: kept)
  have sA: "sorted (map (\<lambda>x. - fst x) ?A)" by (rule sorted_filter[OF sorted_sort_key])
  have "sorted (map (\<lambda>x. - fst x) kept)" unfolding kept take_map[symmetric] by (rule sorted_wrt_take[OF sA])
  then show "sorted_wrt (\<lambda>a b. fst b \<le> fst a) kept" by (simp add: sorted_map)
  show "snd p \<in> set xs \<and> fst p = g (snd p) \<and> clears fl (fst p)" if "p \<in> set kept"
    using in_set_takeD[OF that[unfolded kept]] by auto
  show "(g x, x) \<in> set kept \<or> length kept = k \<and> (\<forall>p \<in> set kept. g x \<le> fst p)" if "x \<in> set xs" "clears fl (g x)"
  proof (cases "(g x, x) \<in> set kept")
    case False
    have "(g x, x) \<in> set (take k ?A) \<union> set (drop k ?A)"
      unfolding set_append[symmetric] append_take_drop_id using that by auto
    with False have d: "(g x, x) \<in> set (drop k ?A)" by (simp only: kept Un_iff simp_thms)
    have "sorted (map (\<lambda>x. - fst x) (take k ?A @ drop k ?A))" unfolding append_take_drop_id by (rule sA)
    then have "\<forall>p \<in> set kept. g x \<le> fst p" using sorted_split[OF _ _ d] unfolding kept by fastforce
    moreover have "drop k ?A \<noteq> []" using d by force
    then have "length kept = k" by (simp add: kept)
    ultimately show ?thesis by blast
  qed simp
  show "distinct (map (f \<circ> snd) kept)" if "distinct (map f xs)"
  proof -
    have "mset (map (f \<circ> snd) ?R) = mset (map (f \<circ> snd) (map (\<lambda>se. (g se, se)) xs))" by (simp only: mset_map mset_sort)
    also have "map (f \<circ> snd) (map (\<lambda>se. (g se, se)) xs) = map f xs" by simp
    finally have "distinct (map (f \<circ> snd) ?R)" using that mset_eq_imp_distinct_iff by blast
    then have "distinct (map (f \<circ> snd) ?A)" by (rule distinct_map_filter)
    then show ?thesis unfolding kept take_map[symmetric] by (rule distinct_take)
  qed
qed

lemma clears_filter: "(case fl of None \<Rightarrow> xs | Some x \<Rightarrow> filter (\<lambda>(s, se). x \<le> s) xs) = filter (\<lambda>(s, se). clears fl s) xs"
  by (cases fl) (simp_all add: clears_def)

text \<open>The stored episodes a query may return.\<close>

definition eligible :: "memory \<Rightarrow> (string, string list) dict \<Rightarrow> bool \<Rightarrow> entry_ref set" where
  "eligible m filters successes_only =
     {r \<in> set (em_entries m). entry_matches (em_heap m r) filters \<and> (successes_only \<longrightarrow> is_success (em_heap m r))}"

text \<open>The query the memory sends to the pipeline, and the stored episodes that match its filters.\<close>

abbreviation pool_query :: "string \<Rightarrow> (string, string list) dict \<Rightarrow> nat \<Rightarrow> retrieval_query" where
  "pool_query query filters top_k \<equiv> \<lparr>rq_text = query, rq_filters = filters, rq_top_k = Some (pool_size top_k)\<rparr>"

abbreviation matching :: "memory \<Rightarrow> (string, string list) dict \<Rightarrow> entry_ref list" where
  "matching m filters \<equiv> filter (\<lambda>r. entry_matches (em_heap m r) filters) (em_entries m)"

text \<open>The candidate pool: matching episodes, each once; without embeddings as many as the pool holds.\<close>

lemma retrieval_pool:
  assumes ok: "memory_ok m" and lib: "rank_lib_ok lib" and mode: "rc_mode (mc_retrieval cfg) \<noteq> CosineOnly"
  obtains pool where
    "retrieve lib (mc_retrieval cfg) (em_heap m) (em_pipe m) now (pool_query query filters top_k) = Inr pool"
    and "distinct (map sc_entry pool)" and "sc_entry ` set pool \<subseteq> set (matching m filters)" and "length pool \<le> pool_size top_k"
    and "rl_embed lib = None \<and> rc_mode (mc_retrieval cfg) \<noteq> KeywordOnly \<longrightarrow>
           length pool = min (pool_size top_k) (length (matching m filters))"
proof -
  let ?h = "em_heap m" and ?pp = "em_pipe m" and ?cfg = "mc_retrieval cfg" and ?F = "matching m filters"
  let ?q = "pool_query query filters top_k"
  have ix: "indexed ?pp" and pe: "pp_entries ?pp = em_entries m" using ok by (simp_all add: memory_ok_def)
  note R = retrieve_staged[OF lib ix mode, of ?h ?q now, unfolded metadata_filter pe pipeline_k_def retrieval_query.simps option.case]
  obtain js res pool where js: "map ((!) (em_entries m)) js = ?F" "distinct js"
    and r0: "retrieve lib ?cfg ?h ?pp now ?q = Inr pool"
    and o: "map sc_entry pool = map ((!) (em_entries m)) (map fst res)" and st: "staged js res"
    and le: "length res \<le> pool_size top_k"
    and all: "rl_embed lib = None \<and> rc_mode ?cfg \<noteq> KeywordOnly \<longrightarrow> length res = min (pool_size top_k) (length js)"
    by (rule R) (rule that)
  have "distinct ?F" using ix pe by (simp add: indexed_def)
  then have inj: "inj_on ((!) (em_entries m)) (set js)" unfolding js(1)[symmetric] by (simp add: distinct_map)
  have "set (map sc_entry pool) \<subseteq> set ?F" using st unfolding o js(1)[symmetric] by (auto simp: staged_def)
  moreover have "distinct (map sc_entry pool)"
    using st inj_on_subset[OF inj] unfolding o staged_def by (simp add: distinct_map[of _ "map fst res"] del: map_map)
  moreover have "length pool = length res" "length js = length ?F" using arg_cong[OF o, of length] arg_cong[OF js(1), of length] by simp_all
  ultimately show thesis using that[OF r0] le all by simp
qed

lemma retrieval_kept:
  assumes ok: "memory_ok m" and lib: "rank_lib_ok lib" and mode: "rc_mode (mc_retrieval cfg) \<noteq> CosineOnly"
  obtains pool kept ranked where
    "retrieve lib (mc_retrieval cfg) (em_heap m) (em_pipe m) now (pool_query query filters top_k) = Inr pool"
    and "retrieve_episodes lib tx cfg graded now query filters top_k topo successes_only fl cond m
      = Inr (map rescored kept, note_retrieval now (chosen_floor fl cond) ranked kept m)"
    and "kept = take top_k (filter (\<lambda>(s, se). clears (chosen_floor fl cond) s) (sort_key (\<lambda>x. - fst x)
      (map (\<lambda>se. (combined_score tx graded query cond topo (em_heap m (sc_entry se)), se))
        (filter (\<lambda>se. successes_only \<longrightarrow> is_success (em_heap m (sc_entry se))) pool))))"
    and "distinct (map sc_entry pool)" and "sc_entry ` set pool \<subseteq> set (matching m filters)" and "length pool \<le> pool_size top_k"
    and "rl_embed lib = None \<and> rc_mode (mc_retrieval cfg) \<noteq> KeywordOnly \<longrightarrow>
           length pool = min (pool_size top_k) (length (matching m filters))"
proof -
  obtain pool where P: "retrieve lib (mc_retrieval cfg) (em_heap m) (em_pipe m) now (pool_query query filters top_k) = Inr pool"
    and Q: "distinct (map sc_entry pool)" "sc_entry ` set pool \<subseteq> set (matching m filters)" "length pool \<le> pool_size top_k"
      "rl_embed lib = None \<and> rc_mode (mc_retrieval cfg) \<noteq> KeywordOnly \<longrightarrow>
           length pool = min (pool_size top_k) (length (matching m filters))"
    by (rule retrieval_pool[OF assms])
  let ?succ = "\<lambda>se. is_success (em_heap m (sc_entry se))"
  have eq: "(if successes_only then filter ?succ pool else pool) = filter (\<lambda>se. successes_only \<longrightarrow> ?succ se) pool" by simp
  have "\<exists>ranked. retrieve_episodes lib tx cfg graded now query filters top_k topo successes_only fl cond m
      = (let kept = take top_k (filter (\<lambda>(s, se). clears (chosen_floor fl cond) s) (sort_key (\<lambda>x. - fst x)
      (map (\<lambda>se. (combined_score tx graded query cond topo (em_heap m (sc_entry se)), se))
        (filter (\<lambda>se. successes_only \<longrightarrow> ?succ se) pool))))
       in Inr (map rescored kept, note_retrieval now (chosen_floor fl cond) ranked kept m))"
    unfolding retrieve_episodes_def Let_def P sum.case clears_filter eq by (rule exI, rule refl)
  then show thesis using that[OF P _ refl Q] unfolding Let_def by blast
qed

lemma rescored_fields: "sc_score (rescored p) = fst p" "sc_entry (rescored p) = sc_entry (snd p)"
  by (simp_all add: rescored_def case_prod_unfold)


section \<open>What was recorded is found again\<close>

lemma split_lines_first: "CHR 0x0A \<notin> set a \<Longrightarrow> split_lines (a @ CHR 0x0A # rest) cur = (rev cur @ a) # split_lines rest []"
  by (induction a arbitrary: cur) auto

lemma recorded_condition:
  assumes c: "ei_condition x = c" "c \<noteq> empty_condition"
    and json: "tl_read_condition tx (tl_condition tx c) = Some c" "CHR 0x0A \<notin> set (tl_condition tx c)"
  shows "parse_condition tx (me_content (new_entry tx uid now x)) = c"
proof -
  obtain y ys where parts: "content_parts tx x = (''Condition: '' @ tl_condition tx c) # y # ys"
  proof -
    have "\<exists>y ys. content_parts tx x = [''Condition: '' @ tl_condition tx c] @ y # ys"
      unfolding content_parts_def using c by (cases "ei_topology x = empty_topology") auto
    with that show thesis by auto
  qed
  have nl: "CHR 0x0A \<notin> set (''Condition: '' @ tl_condition tx c)" using json(2) by simp
  have "split_lines (me_content (new_entry tx uid now x)) []
      = (''Condition: '' @ tl_condition tx c) # split_lines (join_with newline (y # ys)) []"
    using split_lines_first[OF nl, of "join_with newline (y # ys)" "[]"] by (simp add: new_entry_def parts newline_def)
  then show ?thesis by (simp add: parse_condition_def parse_tagged_def starts_with_def json(1))
qed

text \<open>
  Recall. An episode that succeeded under a network condition and was stored is found when the same
  condition comes back: the retrieval does not abstain, and everything it returns clears the calibrated
  floor. It takes a query that shares a fifth of its tokens with the episode, a store within the pool,
  and a JSON library that reads back what it wrote.
\<close>

theorem recorded_success_recalled:
  assumes ok: "memory_ok m" and bm25: "bm25_ok lib cfg" and lib: "rank_lib_ok lib" "rl_embed lib = None"
    and mode: "rc_mode (mc_retrieval cfg) \<in> {FullMode, NoRerank, DenseOnly}"
    and size: "length (em_entries m) < mc_max cfg" "length (em_entries m) < pool_size top_k" "0 < top_k"
    and uid: "uid \<notin> (\<lambda>r. me_id (em_heap m r)) ` set (em_entries m)"
    and x: "outcome_label x = ''success''" "mc_write cfg \<noteq> ''selective'' \<or> should_record (ei_reward x) (ei_violations x)"
    and c: "ei_condition x = c" "c \<noteq> empty_condition" "sim_terms graded c c \<noteq> []"
    and json: "tl_read_condition tx (tl_condition tx c) = Some c" "CHR 0x0A \<notin> set (tl_condition tx c)"
    and task: "1 / 5 \<le> containment (set (telecom_tokenize query)) (set (telecom_tokenize (me_content (new_entry tx uid now x))))"
  shows "\<exists>m1 out m2. record_episode lib tx cfg uid now x m = Inr (True, m1)
    \<and> retrieve_episodes lib tx cfg graded later query [] top_k topo True AutoFloor (Some c) m1 = Inr (out, m2)
    \<and> out \<noteq> [] \<and> \<not> em_abstained m2 \<and> (\<forall>se \<in> set out. 6 / 10 \<le> sc_score se)"
proof -
  let ?e = "new_entry tx uid now x" and ?r = "em_next m"
  have "me_id ?e \<notin> (\<lambda>r. me_id (em_heap m r)) ` set (em_entries m)" using uid by (simp add: new_entry_def)
  from store_ok[OF ok bm25 this] obtain m1 where m1: "store lib cfg ?e m = Inr m1" "memory_ok m1" "em_entries m1 = em_entries m @ [?r]"
    "me_content (em_heap m1 ?r) = me_content ?e" "me_tags (em_heap m1 ?r) = me_tags ?e" by metis
  have rec: "record_episode lib tx cfg uid now x m = Inr (True, m1)" using x(2) m1(1,3) size(1) by (auto simp: record_episode_def)
  have "is_success (em_heap m1 ?r)" by (simp add: is_success_def m1(5) new_entry_def entry_tags_def x(1))
  then have el: "?r \<in> eligible m1 [] True" by (simp add: eligible_def m1(3) entry_matches_def)
  have "condition_similarity graded c c = 1" by (rule condition_similarity_self[OF c(3,2)])
  then have "combined_score tx graded query (Some c) topo (em_heap m1 ?r) \<ge> 6 / 10"
    using task by (simp add: combined_score_def Let_def m1(4) recorded_condition[OF c(1,2) json] retrieval_lambda_def)
  then have cl: "clears (chosen_floor AutoFloor (Some c)) (combined_score tx graded query (Some c) topo (em_heap m1 ?r))"
    by (simp add: clears_def chosen_floor_def retrieval_floor_def)
  have fits: "length (matching m1 []) \<le> pool_size top_k" using size(2) by (simp add: m1(3) entry_matches_def)
  have "rc_mode (mc_retrieval cfg) \<noteq> CosineOnly" using mode by auto
  with m1(2) lib(1) show ?thesis
  proof (rule retrieval_kept)
    fix pool :: "scored_entry list" and kept ranked
    let ?xs = "filter (\<lambda>se. True \<longrightarrow> is_success (em_heap m1 (sc_entry se))) pool"
    assume run: "retrieve_episodes lib tx cfg graded later query [] top_k topo True AutoFloor (Some c) m1
        = Inr (map rescored kept, note_retrieval later (chosen_floor AutoFloor (Some c)) ranked kept m1)"
      and kept: "kept = take top_k (filter (\<lambda>(s, se). clears (chosen_floor AutoFloor (Some c)) s) (sort_key (\<lambda>x. - fst x)
        (map (\<lambda>se. (combined_score tx graded query (Some c) topo (em_heap m1 (sc_entry se)), se)) ?xs)))"
      and d: "distinct (map sc_entry pool)" and sub: "sc_entry ` set pool \<subseteq> set (matching m1 [])"
      and len: "rl_embed lib = None \<and> rc_mode (mc_retrieval cfg) \<noteq> KeywordOnly \<longrightarrow>
           length pool = min (pool_size top_k) (length (matching m1 []))"
    have "distinct (matching m1 [])" using m1(2) by (auto simp: memory_ok_def indexed_def)
    moreover have "length pool = length (matching m1 [])" using len lib(2) mode fits by auto
    ultimately have "set (map sc_entry pool) = set (matching m1 [])"
      using d sub by (metis card_subset_eq distinct_card finite_set length_map set_map)
    with el obtain se where se: "se \<in> set ?xs" "sc_entry se = ?r" by (force simp: eligible_def)
    have "kept \<noteq> []" using best_kept(4)[OF kept se(1)] cl se(2) size(3) by auto
    moreover have "6 / 10 \<le> sc_score y" if "y \<in> set (map rescored kept)" for y
      using that best_kept(3)[OF kept] by (auto simp: rescored_fields clears_def chosen_floor_def retrieval_floor_def)
    ultimately show ?thesis using rec run by (auto simp: noted)
  qed
qed

section \<open>A memory\<close>

definition ex_lib :: rank_lib where
  "ex_lib = \<lparr>rl_embed = None, rl_search = (\<lambda>_ _ _ _. []),
     rl_bm25 = Some (\<lambda>docs q. map (\<lambda>d. real (length (filter (\<lambda>t. t \<in> set q) d))) docs), rl_cross = None\<rparr>"

definition ex_state :: condition where
  "ex_state = empty_condition\<lparr>cd_cpu := Some (1 / 2), cd_bucket := Some ''moderate''\<rparr>"

definition ex_text :: text_lib where
  "ex_text = \<lparr>tl_condition = (\<lambda>_. ''half''), tl_read_condition = (\<lambda>_. Some ex_state), tl_topology = (\<lambda>_. []),
     tl_read_topology = (\<lambda>_. None), tl_fixed = (\<lambda>_ _. ''1''), tl_ints = (\<lambda>_. [])\<rparr>"

definition ex_outcome :: episode_in where
  "ex_outcome = \<lparr>ei_slice_type = Some ''URLLC'', ei_slice = ''urllc'', ei_plan = ''d0'', ei_cost = 1, ei_violations = [],
     ei_reward = 1, ei_topology = empty_topology, ei_shape = None, ei_tag = None, ei_partition = Some [0],
     ei_diverged = None, ei_condition = ex_state\<rparr>"

definition ex_memory :: memory where
  "ex_memory = projr (new_memory default_memory)"


lemma ex_memory_ok: "memory_ok ex_memory" "em_entries ex_memory = []" "em_next ex_memory = 0"
  by (simp_all add: ex_memory_def new_memory_def default_memory_def memory_ok_def indexed_def new_pipeline_def index_of_entries_def)

lemma ex_lib_ok: "rank_lib_ok ex_lib" "bm25_ok ex_lib cfg"
  by (simp_all add: rank_lib_ok_def bm25_ok_def ex_lib_def)

theorem record_keeps_memory_witness:
  "\<exists>m1. record_episode ex_lib ex_text default_memory ''a'' 0 ex_outcome ex_memory = Inr (True, m1)
    \<and> memory_ok m1 \<and> em_entries m1 = [0]"
proof -
  have "0 < mc_max default_memory" "should_record (ei_reward ex_outcome) (ei_violations ex_outcome)" by code_simp+
  with record_keeps_memory[OF ex_memory_ok(1) ex_lib_ok(2), of default_memory "''a''" ex_text 0 ex_outcome]
  show ?thesis by (auto simp: ex_memory_ok)
qed


theorem recorded_success_recalled_witness:
  "\<exists>m1 out m2. record_episode ex_lib ex_text default_memory ''a'' 0 ex_outcome ex_memory = Inr (True, m1)
    \<and> retrieve_episodes ex_lib ex_text default_memory False 1 ''urllc'' [] 3 None True AutoFloor (Some ex_state) m1 = Inr (out, m2)
    \<and> out \<noteq> []"
proof -
  have h: "rl_embed ex_lib = None" "rc_mode (mc_retrieval default_memory) \<in> {FullMode, NoRerank, DenseOnly}"
    "0 < mc_max default_memory" "0 < pool_size 3" "outcome_label ex_outcome = ''success''"
    "should_record (ei_reward ex_outcome) (ei_violations ex_outcome)" "ei_condition ex_outcome = ex_state"
    "ex_state \<noteq> empty_condition" "sim_terms False ex_state ex_state \<noteq> []"
    "tl_read_condition ex_text (tl_condition ex_text ex_state) = Some ex_state"
    "CHR 0x0A \<notin> set (tl_condition ex_text ex_state)" by code_simp+
  have task: "1 / 5 \<le> containment (set (telecom_tokenize ''urllc'')) (set (telecom_tokenize (me_content (new_entry ex_text ''a'' 0 ex_outcome))))"
    by code_simp
  have size: "length (em_entries ex_memory) < mc_max default_memory" "length (em_entries ex_memory) < pool_size 3" "0 < (3 :: nat)"
    and uid: "''a'' \<notin> (\<lambda>r. me_id (em_heap ex_memory r)) ` set (em_entries ex_memory)"
    using h(3,4) by (simp_all add: ex_memory_ok)
  from recorded_success_recalled[OF ex_memory_ok(1) ex_lib_ok(2) ex_lib_ok(1) h(1,2) size uid h(5) disjI2[OF h(6)] h(7-11) task]
  show ?thesis by blast
qed

end
