(* ===== verification/Monitor.thy ===== *)
theory Monitor
  imports Orion_Types
begin

text \<open>
  Drift monitoring: the Page-Hinkley detector (\<open>src/src/orion/monitor/page_hinkley.py\<close>) and the
  strategy monitor with one detector per cached plan and one over all outcomes
  (\<open>src/src/orion/monitor/strategy_monitor.py\<close>).

  Theorems: the incremental detector computes the statistic of its definition; the streams of the
  strategy monitor do not influence one another, and no plan is marked stale before its burn-in.
\<close>

section \<open>page_hinkley.py\<close>

record page_hinkley =
  ph_delta :: real
  ph_threshold :: real
  ph_min_instances :: nat
  ph_count :: nat
  ph_mean :: real
  ph_cumulative :: real
  ph_min_cumulative :: real

definition new_page_hinkley :: "real \<Rightarrow> real \<Rightarrow> page_hinkley" where
  "new_page_hinkley delta threshold =
     \<lparr>ph_delta = delta, ph_threshold = threshold, ph_min_instances = 30, ph_count = 0, ph_mean = 0,
      ph_cumulative = 0, ph_min_cumulative = 0\<rparr>"

definition ph_update :: "real \<Rightarrow> page_hinkley \<Rightarrow> bool \<times> page_hinkley" where
  "ph_update x d =
     (let n = ph_count d + 1;
          mean = ph_mean d + (x - ph_mean d) / real n;
          cum = ph_cumulative d + (x - mean - ph_delta d);
          low = (if cum < ph_min_cumulative d then cum else ph_min_cumulative d);
          d' = d\<lparr>ph_count := n, ph_mean := mean, ph_cumulative := cum, ph_min_cumulative := low\<rparr>
      in (if n < ph_min_instances d then False else cum - low > ph_threshold d, d'))"

definition ph_reset :: "page_hinkley \<Rightarrow> page_hinkley" where
  "ph_reset d = d\<lparr>ph_count := 0, ph_mean := 0, ph_cumulative := 0, ph_min_cumulative := 0\<rparr>"

section \<open>strategy_monitor.py\<close>

record 'k monitor_signals =
  ms_stale :: "'k list"
  ms_global :: bool

record 'k strategy_monitor =
  sm_delta :: real
  sm_threshold :: real
  sm_per_plan :: "('k, page_hinkley) dict"
  sm_global :: page_hinkley

definition new_monitor :: "real \<Rightarrow> real \<Rightarrow> 'k strategy_monitor" where
  "new_monitor delta threshold =
     \<lparr>sm_delta = delta, sm_threshold = threshold, sm_per_plan = [], sm_global = new_page_hinkley delta threshold\<rparr>"

definition plan_detector :: "'k \<Rightarrow> 'k strategy_monitor \<Rightarrow> page_hinkley" where
  "plan_detector k m = get_default (sm_per_plan m) k (new_page_hinkley (sm_delta m) (sm_threshold m))"

text \<open>One detector fed with one outcome; a triggered one is reset.\<close>

definition fed :: "real \<Rightarrow> page_hinkley \<Rightarrow> page_hinkley" where
  "fed x d = (let (hit, d') = ph_update x d in if hit then ph_reset d' else d')"

definition observe :: "'k \<Rightarrow> bool \<Rightarrow> 'k strategy_monitor \<Rightarrow> 'k monitor_signals \<times> 'k strategy_monitor" where
  "observe k rejected m =
     (let x = (if rejected then 1 else 0);
          d = plan_detector k m
      in (\<lparr>ms_stale = (if fst (ph_update x d) then [k] else []), ms_global = fst (ph_update x (sm_global m))\<rparr>,
          m\<lparr>sm_per_plan := AList.update k (fed x d) (sm_per_plan m), sm_global := fed x (sm_global m)\<rparr>))"

fun observe_all :: "('k \<times> bool) list \<Rightarrow> 'k strategy_monitor \<Rightarrow> 'k monitor_signals list \<times> 'k strategy_monitor" where
  "observe_all [] m = ([], m)"
| "observe_all ((k, r) # es) m =
     (let (s, m') = observe k r m; (ss, m'') = observe_all es m' in (s # ss, m''))"

section \<open>The statistic\<close>

definition mean_of :: "real list \<Rightarrow> real" where
  "mean_of xs = sum_list xs / real (length xs)"

text \<open>\<open>U\<close> after each observation, and the Page-Hinkley test on the last one.\<close>

definition drift :: "real \<Rightarrow> real list \<Rightarrow> real" where
  "drift delta xs = (\<Sum>i < length xs. xs ! i - mean_of (take (i + 1) xs) - delta)"

definition lowest :: "real \<Rightarrow> real list \<Rightarrow> real" where
  "lowest delta xs = Min ((\<lambda>i. drift delta (take i xs)) ` {..length xs})"

definition drifted :: "page_hinkley \<Rightarrow> real list \<Rightarrow> bool" where
  "drifted d xs \<longleftrightarrow> ph_min_instances d \<le> length xs
     \<and> drift (ph_delta d) xs - lowest (ph_delta d) xs > ph_threshold d"

lemma drift_snoc: "drift delta (xs @ [x]) = drift delta xs + (x - mean_of (xs @ [x]) - delta)"
  by (simp add: drift_def nth_append)

lemma lowest_snoc: "lowest delta (xs @ [x]) = min (drift delta (xs @ [x])) (lowest delta xs)"
proof -
  have "(\<lambda>i. drift delta (take i (xs @ [x]))) ` {..length (xs @ [x])}
      = insert (drift delta (xs @ [x])) ((\<lambda>i. drift delta (take i xs)) ` {..length xs})"
    by (auto simp: atMost_Suc)
  then show ?thesis unfolding lowest_def by (simp del: take_append)
qed

text \<open>The state of a detector after a list of outcomes.\<close>

definition tracks :: "page_hinkley \<Rightarrow> real list \<Rightarrow> page_hinkley \<Rightarrow> bool" where
  "tracks d0 xs d \<longleftrightarrow> ph_delta d = ph_delta d0 \<and> ph_threshold d = ph_threshold d0
     \<and> ph_min_instances d = ph_min_instances d0 \<and> ph_count d = length xs
     \<and> ph_mean d * real (length xs) = sum_list xs \<and> ph_cumulative d = drift (ph_delta d0) xs
     \<and> ph_min_cumulative d = lowest (ph_delta d0) xs"

lemma tracks_reset: "tracks d0 [] (ph_reset d) \<longleftrightarrow> ph_delta d = ph_delta d0 \<and> ph_threshold d = ph_threshold d0
     \<and> ph_min_instances d = ph_min_instances d0"
  by (simp add: tracks_def ph_reset_def drift_def lowest_def)

lemma tracks_update:
  assumes "tracks d0 xs d"
  shows "tracks d0 (xs @ [x]) (snd (ph_update x d))" and "fst (ph_update x d) \<longleftrightarrow> drifted d0 (xs @ [x])"
proof -
  have s: "ph_mean d * real (length xs) = sum_list xs" using assms by (simp add: tracks_def)
  have "(ph_mean d + (x - ph_mean d) / (1 + real (length xs))) * (1 + real (length xs)) = sum_list xs + x"
    unfolding s[symmetric] by (simp add: field_simps)
  then have m: "ph_mean d + (x - ph_mean d) / (1 + real (length xs)) = mean_of (xs @ [x])"
    by (simp add: mean_of_def eq_divide_eq add.commute)
  show "tracks d0 (xs @ [x]) (snd (ph_update x d))"
    using assms m by (auto simp: tracks_def ph_update_def Let_def drift_snoc lowest_snoc mean_of_def)
  show "fst (ph_update x d) \<longleftrightarrow> drifted d0 (xs @ [x])"
    using assms m by (auto simp: tracks_def ph_update_def Let_def drift_snoc lowest_snoc drifted_def)
qed

lemma fold_tracks:
  assumes "tracks d0 ys d"
  shows "tracks d0 (ys @ xs) (fold (\<lambda>x d. snd (ph_update x d)) xs d)"
  using assms
proof (induction xs arbitrary: ys d)
  case (Cons x xs)
  then show ?case using Cons.IH[OF tracks_update(1)[OF Cons.prems]] by simp
qed simp

text \<open>
  The incremental detector is the Page-Hinkley test. Fed from its reset state, it holds the
  number of observations, their mean, the cumulative deviation and its lowest value so far (the
  start included), and the next update reports drift exactly when the burn-in is over and the gap
  to the lowest value exceeds the threshold.
\<close>

theorem page_hinkley_exact:
  fixes d0 xs x
  defines "d \<equiv> fold (\<lambda>x d. snd (ph_update x d)) xs (ph_reset d0)"
  shows "ph_count d = length xs \<and> (xs \<noteq> [] \<longrightarrow> ph_mean d = mean_of xs)
    \<and> ph_cumulative d = drift (ph_delta d0) xs \<and> ph_min_cumulative d = lowest (ph_delta d0) xs
    \<and> (fst (ph_update x d) \<longleftrightarrow> drifted d0 (xs @ [x]))"
proof -
  have "tracks d0 xs d" unfolding d_def using fold_tracks[of d0 "[]"] by (simp add: tracks_reset)
  with tracks_update(2)[OF this] show ?thesis by (auto simp: tracks_def mean_of_def field_simps)
qed

section \<open>Independent streams\<close>

abbreviation outcome :: "bool \<Rightarrow> real" where
  "outcome r \<equiv> (if r then 1 else 0)"

definition outcomes_of :: "'k \<Rightarrow> ('k \<times> bool) list \<Rightarrow> real list" where
  "outcomes_of k es = map (\<lambda>(k, r). outcome r) (filter (\<lambda>(k', r). k' = k) es)"

lemma detectors_after_observe:
  "plan_detector k' (snd (observe k r m)) = (if k' = k then fed (outcome r) (plan_detector k m) else plan_detector k' m)"
  "sm_global (snd (observe k r m)) = fed (outcome r) (sm_global m)"
  by (simp_all add: observe_def plan_detector_def Let_def)

lemma outcomes_of_Cons:
  "outcomes_of k ((k0, r) # es) = (if k0 = k then outcome r # outcomes_of k es else outcomes_of k es)"
  by (simp add: outcomes_of_def)

lemma observe_all_streams:
  assumes "observe_all es m = (ss, m')"
  shows "length ss = length es
    \<and> plan_detector k m' = fold fed (outcomes_of k es) (plan_detector k m)
    \<and> sm_global m' = fold fed (map (\<lambda>e. outcome (snd e)) es) (sm_global m)
    \<and> (\<forall>i < length es.
        ms_stale (ss ! i) = (if fst (ph_update (outcome (snd (es ! i)))
            (fold fed (outcomes_of (fst (es ! i)) (take i es)) (plan_detector (fst (es ! i)) m))) then [fst (es ! i)] else [])
        \<and> ms_global (ss ! i) = fst (ph_update (outcome (snd (es ! i))) (fold fed (map (\<lambda>e. outcome (snd e)) (take i es)) (sm_global m))))"
  using assms
proof (induction es arbitrary: m ss)
  case Nil
  then show ?case by (simp add: outcomes_of_def)
next
  case (Cons e es)
  obtain k0 r0 where e: "e = (k0, r0)" by (rule prod.exhaust)
  obtain s m1 where o: "observe k0 r0 m = (s, m1)" by (rule prod.exhaust)
  obtain rest where ss: "ss = s # rest" "observe_all es m1 = (rest, m')"
    using Cons.prems by (auto simp: e o split: prod.splits)
  have d: "plan_detector k' m1 = (if k' = k0 then fed (outcome r0) (plan_detector k0 m) else plan_detector k' m)"
    "sm_global m1 = fed (outcome r0) (sm_global m)" for k'
    using detectors_after_observe[where k = k0 and r = r0 and m = m] by (simp_all add: o)
  have s: "ms_stale s = (if fst (ph_update (outcome r0) (plan_detector k0 m)) then [k0] else [])"
    "ms_global s = fst (ph_update (outcome r0) (sm_global m))"
    using o by (auto simp: observe_def Let_def)
  note IH = Cons.IH[OF ss(2)]
  show ?case
  proof (intro conjI allI impI)
    fix i
    assume i: "i < length (e # es)"
    let ?x = "(e # es) ! i"
    show "ms_stale (ss ! i) = (if fst (ph_update (outcome (snd ?x))
        (fold fed (outcomes_of (fst ?x) (take i (e # es))) (plan_detector (fst ?x) m))) then [fst ?x] else [])"
      using IH i s(1) by (cases i) (simp_all add: ss(1) e d outcomes_of_Cons outcomes_of_def[of _ "[]"])
    show "ms_global (ss ! i) = fst (ph_update (outcome (snd ?x)) (fold fed (map (\<lambda>e. outcome (snd e)) (take i (e # es))) (sm_global m)))"
      using IH i s(2) by (cases i) (simp_all add: ss(1) e d)
  qed (use IH in \<open>auto simp: ss(1) e d outcomes_of_Cons\<close>)
qed

lemma fed_burn_in:
  assumes "ph_min_instances d = n" and "ph_count d + length xs < n"
  shows "ph_count (fold fed xs d) = ph_count d + length xs \<and> ph_min_instances (fold fed xs d) = n"
  using assms
proof (induction xs arbitrary: d)
  case (Cons x xs)
  have f: "fed x d = snd (ph_update x d)" "ph_count (snd (ph_update x d)) = ph_count d + 1"
    "ph_min_instances (snd (ph_update x d)) = n"
    using Cons.prems by (simp_all add: fed_def ph_update_def Let_def)
  show ?case using Cons.IH[of "fed x d"] Cons.prems f by simp
qed simp

text \<open>
  The streams of the monitor are independent. Whatever the interleaving of outcomes, the
  detector of a plan is in the state a detector fed with that plan's outcomes alone is in, each
  signal is the one that detector gives, the global stream sees every outcome, and a plan is never
  marked stale on fewer than thirty of its own outcomes.
\<close>

theorem monitor_streams_independent:
  fixes delta threshold :: real and es :: "('k \<times> bool) list"
  assumes "observe_all es (new_monitor delta threshold) = (ss, m)"
  shows "length ss = length es
    \<and> plan_detector k m = fold fed (outcomes_of k es) (new_page_hinkley delta threshold)
    \<and> sm_global m = fold fed (map (\<lambda>e. outcome (snd e)) es) (new_page_hinkley delta threshold)
    \<and> (\<forall>i < length es.
        ms_stale (ss ! i) = (if fst (ph_update (outcome (snd (es ! i)))
            (fold fed (outcomes_of (fst (es ! i)) (take i es)) (new_page_hinkley delta threshold))) then [fst (es ! i)] else [])
        \<and> (ms_stale (ss ! i) \<noteq> [] \<longrightarrow> 30 \<le> length (outcomes_of (fst (es ! i)) (take (Suc i) es))))"
proof -
  let ?d = "new_page_hinkley delta threshold"
  have start: "plan_detector k (new_monitor delta threshold) = ?d" "sm_global (new_monitor delta threshold) = ?d" for k :: 'k
    by (simp_all add: plan_detector_def new_monitor_def get_default_def)
  have burn: "30 \<le> length xs + 1" if "fst (ph_update x (fold fed xs ?d))" for x xs
  proof (rule ccontr)
    assume "\<not> 30 \<le> length xs + 1"
    then have "ph_count (fold fed xs ?d) = length xs \<and> ph_min_instances (fold fed xs ?d) = 30"
      using fed_burn_in[of ?d 30 xs] by (simp add: new_page_hinkley_def)
    with that \<open>\<not> 30 \<le> length xs + 1\<close> show False by (simp add: ph_update_def Let_def)
  qed
  have len: "length (outcomes_of (fst (es ! i)) (take (Suc i) es)) = length (outcomes_of (fst (es ! i)) (take i es)) + 1"
    if "i < length es" for i
    using that by (cases "es ! i") (simp add: outcomes_of_def take_Suc_conv_app_nth)
  show ?thesis
    using observe_all_streams[OF assms, of k, unfolded start] burn by (auto simp: len split: if_splits)
qed

theorem monitor_streams_independent_witness:
  "\<exists>ss m. observe_all [(''p'', True), (''q'', False)] (new_monitor (1 / 200) 50) = (ss, m) \<and> length ss = 2"
proof -
  obtain ss m where r: "observe_all [(''p'', True), (''q'', False)] (new_monitor (1 / 200) 50) = (ss, m)" by (rule prod.exhaust)
  with monitor_streams_independent[OF r] show ?thesis by simp
qed

end
