(* ===== verification/Spec2Isabelle.thy ===== *)
theory Spec2Isabelle
  imports Agent_B_Planner Credit_Assignment PPO_Update Observation_Width Routability_Colocation MDO_Policy Arrival Env Eval_Metrics Learned_Actor Plain Partition_Oracle Topology_Proofs Load_Levels Plan_Cache Episodic_Memory Structural_Checker Monitor Training_Math KL_Prior
begin

text \<open>
  ORION: a verification library for the slice orchestrator.

  ORION decides, slice request by slice request, where the virtual network functions (VNFs) of a chain
  are placed in a substrate of several administrative domains. Paths below are under
  \<open>src/src/orion/\<close>, or under \<open>src/\<close> when they start with \<open>scripts/\<close>.

  \<^bold>\<open>How the parts interact.\<close> The episode runner (\<open>sim/episode_runner.py\<close>) walks the event stream of the
  arrival process (\<open>sim/arrival_process.py\<close>). For an arrival it asks a plan builder for a plan (the
  canned one, a partition heuristic, or a language model behind a cache), and hands plan, request and
  substrate to the coordinator (\<open>mdo/coordinator.py\<close>). The coordinator observes the domains
  (\<open>mdo/observation.py\<close>), admits or rejects, chooses one domain per VNF, repairs the choice when the
  guard is on (\<open>mdo/admissibility.py\<close>), sends each domain its fragment, where a domain actor places the
  VNFs on nodes and routes the flows (\<open>actors/\<close>), routes the flows between domains, checks the budgets
  (\<open>mdo/precommit_check.py\<close>), and rolls everything back. The runner turns a commit into a placement plan,
  allocates it on the substrate (\<open>substrate/graph_model.py\<close>), verifies it on the ground truth
  (\<open>sim/verifier.py\<close>) and, on a violation, deallocates it. A departure deallocates too. The Gym
  environment (\<open>sim/env.py\<close>) is the same loop one event at a time; the evaluation of the \<open>Plain\<close>
  heuristic (\<open>scripts/grid_runner.py\<close>) is a second loop over the same stream.

  \<^bold>\<open>Theories.\<close> Every definition keeps the name of the function it models.

  Common ground.
  \<^item> \<open>Prelude\<close>: exceptions, insertion-ordered dictionaries, \<open>float("inf")\<close>, folds that may raise, and the
    lemmas on them; the collections \<open>charge_simps\<close> and \<open>wf_intros\<close> of the component proofs.
  \<^item> \<open>Orion_Types\<close>: \<open>types.py\<close>, \<open>actors/types.py\<close>, \<open>mdo/types.py\<close> as datatypes and records.
  \<^item> \<open>Substrate\<close>: the graph with its residuals and registry of active slices, \<open>allocate\<close>, \<open>deallocate\<close>,
    \<open>reset\<close>; a reachable state of any sequence of operations is not over-booked and its missing residuals
    are those of the registered slices; deallocation undoes allocation.
  \<^item> \<open>Delay_Model\<close> (\<open>sim/delay_model.py\<close>), \<open>Chain_Order\<close> (\<open>mdo/chain_order.py\<close> and
    \<open>mdo/precommit_check.py\<close>), \<open>Verifier\<close> (\<open>sim/verifier.py\<close>, \<open>sim/reward.py\<close>).

  One arrival.
  \<^item> \<open>Routing\<close> (\<open>actors/routing.py\<close>): networkx is the parameter \<open>nx\<close>, its documented behaviour the locale
    \<open>path_oracle\<close>, interpreted on an executable depth-first search.
  \<^item> \<open>Domain_Actor\<close>, \<open>Greedy_Actor\<close> (\<open>actors/greedy_domain_actor.py\<close>), \<open>Domain_Observation\<close>
    (\<open>actors/domain_observation.py\<close>), \<open>Learned_Actor\<close> (\<open>actors/domain_actor.py\<close>,
    \<open>actors/action_mask.py\<close>): one contract for the actors, as a locale (exact rollback on refusal, exact
    charge on success, permitted nodes, every flow routed between the nodes of its ends), and its two providers.
  \<^item> \<open>Observation\<close>, \<open>Admissibility\<close>, \<open>MDO_Policy\<close> (\<open>mdo/policy.py\<close>), \<open>Coordinator\<close>,
    \<open>Coordinator_Proofs\<close>, \<open>Commit\<close> (\<open>build_placement_plan\<close>) and \<open>Arrival\<close>: the coordinator stage by
    stage, and what it guarantees for every policy and every actor that meets the contract: it leaves the
    substrate as it found it, a commit allocates without over-booking, and the committed plan puts every
    VNF on a permitted node, carries every flow and meets the constraints that were judged.

  One episode.
  \<^item> \<open>Arrival_Process\<close>, \<open>Episode\<close>, \<open>Episode_Proofs\<close>, \<open>Acceptance\<close> (\<open>sim/acceptance.py\<close>), \<open>Env\<close>: the event
    loop and its invariant; the counters add up, an episode returns what it took.
  \<^item> \<open>Greedy_FFD\<close>, \<open>Colocation\<close>, \<open>Routability_Colocation\<close> (\<open>baselines/\<close>), \<open>Qos_Gate\<close> (\<open>sim/qos_gate.py\<close>), \<open>Plain\<close>: the heuristic
    baseline and its own loop; the gate before allocation and the verifier after it agree, and the loop
    never revokes an admission.
  \<^item> \<open>Eval_Metrics\<close>: \<open>scripts/cost_metrics.py\<close> and \<open>scripts/structure_metrics.py\<close>.

  Plans.
  \<^item> \<open>Partition_View\<close> (\<open>scripts/partial_obs_prior.py\<close>) and \<open>Partition_Oracle\<close>
    (\<open>sim/partition_oracle.py\<close>): what each observation surface can decide, and the exhaustive reference.
  \<^item> \<open>Condition_Signature\<close>, \<open>Abstract_Topology\<close>, \<open>Structural_Checker\<close>, \<open>Agent_B\<close>, \<open>Agent_B_Planner\<close>,
    \<open>Plan_Cache\<close>, \<open>Episodic_Memory\<close> (all \<open>llm/\<close>) and \<open>Retrieval\<close> (\<open>retrieval/\<close>): what the planner is shown,
    the contract its answer is pinned to, the check of the answer, the reuse of answers, and the memory of
    past episodes, which answers with the best of a bounded pool of candidates. The language model is a parameter: an arbitrary list of replies, some of which may be
    exceptions.
  \<^item> \<open>Monitor\<close> (\<open>monitor/\<close>): the Page-Hinkley detector and the strategy monitor.

  Inputs and training.
  \<^item> \<open>Sampling\<close>, \<open>Slice_Generator\<close>, \<open>Hierarchical_Topology\<close>, \<open>Topology_Proofs\<close>, \<open>Load_Levels\<close>: the
    generators of substrates, requests and load, for every sequence of random draws: which nodes and links
    there are is fixed, capacities and delays lie in the ranges of their tiers.
  \<^item> \<open>Observation_Tensor\<close>, \<open>Observation_Width\<close> (\<open>mdo/observation.py\<close>, \<open>training/global_state.py\<close>): the vectors of
    the policy and of the critic; what can be read off the policy's vector, and the widths the networks are
    built with, on every generated substrate and in every reachable state.
  \<^item> \<open>Training_Math\<close>, \<open>KL_Prior\<close>: advantage estimation, schedules, value normalisation, and the divergence
    from the prior.
  \<^item> \<open>Credit_Assignment\<close> (\<open>training/buffer.py\<close>, \<open>scripts/wp7_runner.py\<close>), \<open>Actor_PPO\<close>
    (\<open>training/actor_ppo.py\<close>), \<open>PPO_Update\<close> (\<open>training/ppo_update.py\<close>): the training buffer, the advantages over
    the arrival stream, the update of the domain actors one after the other, the objective of the orchestrator.

  \<^bold>\<open>Modelling conventions.\<close> Floating-point numbers are real numbers (\<open>xreal\<close> where the code uses
  \<open>float("inf")\<close>): rounding is modelled only where the code calls \<open>round\<close>. A dictionary is an association
  list in insertion order. An exception is \<open>Inl\<close> of a \<open>py_error\<close>, and every operation that can raise
  returns a sum. Loops over finite collections are structural recursion or folds; the substrate
  generator and the arrival process take their draws as functions of the call. Searches are bounded as in
  the code: the exhaustive repair and the oracle by the budget on the number of partitions, the number of
  answers of the planner by its retry budget, so no fuel is introduced by the model. Networks, language
  models, sentence embeddings, rank libraries and clocks are parameters, with what the code relies on as
  hypotheses of the theorems and an instance of each in the witnesses.

  \<^bold>\<open>Not modelled.\<close> The layers, gradients and optimisers of the networks (\<open>actors/backbone.py\<close>,
  \<open>training/critic.py\<close>, the trainers), which are calls into torch; the dense stage of the retrieval
  (matrix products of numpy); prompt texts, JSON parsing, logging, files and plots; the offline scripts
  that start processes and write tables. \<open>decide\<close> leaves out that flattening an observation can raise (it does
  so only for a plan that does not cover its VNFs, see \<open>Observation_Tensor\<close>), the lexical index accepts an
  empty corpus, the several clock readings of one memory operation are one, and the discarded copy of the
  routability check is not rolled back, which nobody can observe. Floating-point error is not modelled either, so a theorem that
  compares a quantity with a budget speaks of the exact value.
\<close>

text \<open>
  C3: Plain on a generated episode. On every generated substrate, under every scenario class and
  for every sequence of arrival gaps and lifetimes, the evaluation loop of the co-location heuristic
  returns: it never raises, its report conserves the arrivals, no rejection is unattributed, nothing
  is over-booked and every missing residual is held by a registered slice.
\<close>

theorem plain_on_generated_workload:
  assumes "path_oracle nx" and "rng_ok r" and "\<And>rid. unit_draws (draw rid)"
    and "scenario \<in> {''conventional'', ''stress'', ''complex''}"
    and "chain_mode_of env = Inr m"
  shows "\<exists>S F st. generate_hierarchical_topology r share = Inr S
    \<and> make_scenario_slice_factory draw pick S scenario None = Inr F
    \<and> eval_plain nx env S (ap_events (make_arrival_process F None n gaps lifes)) = Inr st
    \<and> pl_total st = n \<and> pl_admitted st + sum_list (vals (pl_rejects st)) = n
    \<and> get_default (pl_rejects st) ''unattributed'' 0 = 0
    \<and> no_overbooking (pl_sub st) \<and> accounted (pl_sub st)"
proof (rule generated_substrate[OF assms(2), of share])
  fix S
  assume S: "generate_hierarchical_topology r share = Inr S" "wf_graph S" "typed_links S" "reset_substrate S = S" "no_overbooking S"
  have "case make_scenario_slice_factory draw pick S scenario None of
      Inl e \<Rightarrow> e = ValueError \<and> scenario \<notin> {''conventional'', ''stress'', ''complex''}
    | Inr F \<Rightarrow> lawful_factory F \<and> (\<forall>rid t l. closed_request (F rid t l) \<and> chain_request (F rid t l))"
    by (rule scenario_factory_ok) (simp_all add: assms(3))
  with assms(4) obtain F where F: "make_scenario_slice_factory draw pick S scenario None = Inr F" "lawful_factory F"
    and closed: "closed_request (F rid t l)" for rid t l by (simp split: sum.splits)
  let ?p = "\<lparr>ap_num = n, ap_factory = F, ap_events = [], ap_idx = 0\<rparr>"
  let ?es = "ap_events (make_arrival_process F None n gaps lifes)"
  have es: "?es = ap_events (generate gaps lifes ?p)" by (simp add: make_arrival_process_def)
  have law: "request_id (ap_factory ?p rid t l) = rid \<and> wf_request (ap_factory ?p rid t l)
      \<and> nonneg_request (ap_factory ?p rid t l)" for rid t l using F(2) by (simp add: lawful_factory_def)
  have "closed_request req" if req: "req \<in> set (arrivals ?es)" for req
  proof -
    obtain rid t l where "req = ap_factory ?p rid t l" using req unfolding es by (rule generated_arrivals)
    then show ?thesis using closed by simp
  qed
  then have "plain_stream ?es" "length (arrivals ?es) = n"
    using generated_stream_ok[of ?p gaps lifes, OF law] by (simp_all add: plain_stream_def es)
  with eval_plain_ok[OF assms(1) S(2-5) assms(5)] S(1) F(1) show ?thesis by metis
qed

theorem plain_on_generated_workload_witness:
  "\<exists>S F st. generate_hierarchical_topology ex_rng extra_link_frac = Inr S
    \<and> make_scenario_slice_factory (\<lambda>rid i. 1 / 4) (\<lambda>rid w. XR) S ''stress'' None = Inr F
    \<and> eval_plain dfs_nx None S (ap_events (make_arrival_process F None num_arrivals [] [])) = Inr st
    \<and> pl_total st = 2000 \<and> no_overbooking (pl_sub st)"
proof -
  have "unit_draws (\<lambda>i. 1 / 4)" by (simp add: unit_draws_def)
  moreover have "chain_mode_of None = Inr RejectMode" by code_simp
  ultimately show ?thesis
    using plain_on_generated_workload[OF dfs_oracle.path_oracle_axioms ex_rng_ok, of "\<lambda>rid i. 1 / 4" "''stress''" None RejectMode
        extra_link_frac "\<lambda>rid w. XR" num_arrivals "[]" "[]"]
    by (simp add: num_arrivals_def) blast
qed

end
